(* ===== verification/Opal_Prelude.thy ===== *)
theory Opal_Prelude
  imports Main "HOL-Library.Word" "HOL-Library.Monad_Syntax"
begin

text \<open>
  Shared vocabulary of the development: the machine integer types of the C sources
  (\<^verbatim>\<open>uint8_t\<close> .. \<^verbatim>\<open>uint64_t\<close>, \<^verbatim>\<open>size_t\<close>), how a fault is modelled, the counting loops, and
  the list and word lemmas that more than one component uses.

  A function whose C counterpart may stop the kernel returns an \<^typ>\<open>'a option\<close>:
  \<^term>\<open>None\<close> means that a \<^verbatim>\<open>kassert\<close> failed, that \<^verbatim>\<open>panic\<close> was reached, or that an
  access fell outside the object it was meant for. Error codes that the C function returns to
  its caller (\<^verbatim>\<open>kerrno_t\<close>, \<^verbatim>\<open>vmtree_status_t\<close>, a null pointer) are ordinary values inside
  \<^term>\<open>Some\<close>. So a theorem \<open>f x = Some y\<close> also says that the call neither panics nor leaves
  its objects.
\<close>

section \<open>Machine integers\<close>

type_synonym u8 = "8 word"
type_synonym u16 = "16 word"
type_synonym u32 = "32 word"
type_synonym u64 = "64 word"

abbreviation U64_MAX :: u64 where
  "U64_MAX \<equiv> - 1"

named_theorems word_arith \<open>facts that move a goal on words to the naturals\<close>

lemmas unat_less_iff [word_arith] = word_less_nat_alt
lemmas unat_le_iff [word_arith] = word_le_nat_alt
lemmas unat_eq_iff [word_arith] = word_unat_eq_iff

lemma unat_U64_MAX [word_arith]: "unat U64_MAX = 2 ^ 64 - 1"
  by (simp add: unsigned_minus_1_eq_mask mask_eq_exp_minus_1)

lemma unat_lt_2p: "unat (x :: 'a::len word) < 2 ^ LENGTH('a)"
  by simp

lemma unat_u64_lt: "unat (x :: u64) < 2 ^ 64"
  using unat_lt_2p [of x] by simp

lemma unat_add_one:
  fixes x y :: "'a::len word"
  assumes "x < y"
  shows "unat (x + 1) = unat x + 1"
proof -
  have "unat x + 1 < 2 ^ LENGTH('a)"
    using assms unat_lt_2p [of y] unfolding word_less_nat_alt by linarith
  then show ?thesis
    by (simp add: unat_word_ariths)
qed

lemma unat_add_no_wrap:
  fixes x y :: "'a::len word"
  assumes "unat x + unat y < 2 ^ LENGTH('a)"
  shows "unat (x + y) = unat x + unat y"
  using assms by (simp add: unat_word_ariths)

lemma unat_sub_no_wrap:
  fixes x y :: "'a::len word"
  assumes "unat y \<le> unat x"
  shows "unat (x - y) = unat x - unat y"
  using assms by (simp add: unat_sub word_le_nat_alt)

lemma unat_sub_one:
  fixes x :: "'a::len word"
  assumes "0 < x"
  shows "unat (x - 1) = unat x - 1"
  using assms by (metis unat_minus_one word_neq_0_conv)

section \<open>Faults\<close>

text \<open>\<^verbatim>\<open>kassert(exp)\<close> of \<open>libkc/include/kc/kassert.h\<close>: goes on exactly when the condition holds.\<close>

definition kassert :: "bool \<Rightarrow> unit option" where
  "kassert b = (if b then Some () else None)"

lemma kassert_True [simp]: "kassert True = Some ()"
  by (simp add: kassert_def)

lemma kassert_False [simp]: "kassert False = None"
  by (simp add: kassert_def)

lemma kassert_Some_iff [simp]: "kassert b = Some u \<longleftrightarrow> b"
  by (simp add: kassert_def)

lemma kassert_None_iff [simp]: "kassert b = None \<longleftrightarrow> \<not> b"
  by (simp add: kassert_def)

lemma kassert_bind_Some_iff [simp]: "(kassert b \<bind> f = Some r) \<longleftrightarrow> b \<and> f () = Some r"
  by (cases b) auto

text \<open>An element read and an element write that check the bounds of the C array.\<close>

definition rd :: "'a list \<Rightarrow> nat \<Rightarrow> 'a option" where
  "rd xs i = (if i < length xs then Some (xs ! i) else None)"

definition wr :: "'a list \<Rightarrow> nat \<Rightarrow> 'a \<Rightarrow> 'a list option" where
  "wr xs i v = (if i < length xs then Some (xs[i := v]) else None)"

lemma rd_Some [simp]: "i < length xs \<Longrightarrow> rd xs i = Some (xs ! i)"
  by (simp add: rd_def)

lemma rd_Some_iff: "rd xs i = Some v \<longleftrightarrow> i < length xs \<and> v = xs ! i"
  by (auto simp: rd_def)

lemma wr_Some [simp]: "i < length xs \<Longrightarrow> wr xs i v = Some (xs[i := v])"
  by (simp add: wr_def)

lemma wr_Some_iff: "wr xs i v = Some ys \<longleftrightarrow> i < length xs \<and> ys = xs[i := v]"
  by (auto simp: wr_def)

section \<open>Counting loops\<close>

text \<open>
  \<^verbatim>\<open>for (i = lo; i < hi; i++) body\<close> and \<^verbatim>\<open>for (i = n; i > 0; i--) body\<close> over an explicit state.
  The body of the second form receives \<^verbatim>\<open>i - 1\<close>, the index the C bodies use.
\<close>

function for_up :: "nat \<Rightarrow> nat \<Rightarrow> (nat \<Rightarrow> 's \<Rightarrow> 's option) \<Rightarrow> 's \<Rightarrow> 's option" where
  "for_up i n f s = (if i < n then f i s \<bind> for_up (Suc i) n f else Some s)"
  by pat_completeness auto
termination
  by (relation "measure (\<lambda>(i, n, f, s). n - i)") auto

declare for_up.simps [simp del]

primrec for_down :: "nat \<Rightarrow> (nat \<Rightarrow> 's \<Rightarrow> 's option) \<Rightarrow> 's \<Rightarrow> 's option" where
  "for_down 0 f s = Some s"
| "for_down (Suc n) f s = f n s \<bind> for_down n f"

lemma for_up_done [simp]: "n \<le> i \<Longrightarrow> for_up i n f s = Some s"
  by (simp add: for_up.simps)

lemma for_up_step: "i < n \<Longrightarrow> for_up i n f s = f i s \<bind> for_up (Suc i) n f"
  by (simp add: for_up.simps [of i])

text \<open>
  The loop rule: an invariant that holds at the start and that every iteration establishes for
  the next index (without faulting) holds at the end, and the loop does not fault.
\<close>

lemma for_up_rule:
  assumes "I i s" and "i \<le> n"
    and "\<And>j t. i \<le> j \<Longrightarrow> j < n \<Longrightarrow> I j t \<Longrightarrow> \<exists>t'. f j t = Some t' \<and> I (Suc j) t'"
  shows "\<exists>t. for_up i n f s = Some t \<and> I n t"
  using assms
proof (induction i n f s rule: for_up.induct)
  case (1 i n f s)
  show ?case
  proof (cases "i < n")
    case True
    with "1.prems" obtain s' where s': "f i s = Some s'" "I (Suc i) s'"
      by (meson order_refl)
    with True have "\<exists>t. for_up (Suc i) n f s' = Some t \<and> I n t"
      using "1.prems"(3) by (intro "1.IH") auto
    with True s' show ?thesis
      by (auto simp: for_up_step)
  next
    case False
    with "1.prems"(1,2) show ?thesis by simp
  qed
qed

lemma for_down_rule:
  assumes "I n s"
    and "\<And>j t. j < n \<Longrightarrow> I (Suc j) t \<Longrightarrow> \<exists>t'. f j t = Some t' \<and> I j t'"
  shows "\<exists>t. for_down n f s = Some t \<and> I 0 t"
  using assms
proof (induction n arbitrary: s)
  case 0
  then show ?case by simp
next
  case (Suc n)
  from Suc.prems(2) [of n s] Suc.prems(1) obtain s' where s': "f n s = Some s'" "I n s'"
    by auto
  have "\<exists>t. for_down n f s' = Some t \<and> I 0 t"
    using Suc.IH [of s'] Suc.prems(2) s'(2) by auto
  with s'(1) show ?case by auto
qed

section \<open>Lists\<close>

text \<open>Copies between two buffers: reading a piece of one, overwriting a piece of the other.\<close>

definition slice :: "'a list \<Rightarrow> nat \<Rightarrow> nat \<Rightarrow> 'a list option" where
  "slice xs off n = (if off + n \<le> length xs then Some (take n (drop off xs)) else None)"

definition blit :: "'a list \<Rightarrow> nat \<Rightarrow> 'a list \<Rightarrow> 'a list option" where
  "blit xs off ys = (if off + length ys \<le> length xs then Some (take off xs @ ys @ drop (off + length ys) xs) else None)"

lemma slice_Some [simp]: "off + n \<le> length xs \<Longrightarrow> slice xs off n = Some (take n (drop off xs))"
  by (simp add: slice_def)

lemma slice_Some_iff: "slice xs off n = Some ys \<longleftrightarrow> off + n \<le> length xs \<and> ys = take n (drop off xs)"
  by (auto simp: slice_def)

lemma blit_Some [simp]: "off + length ys \<le> length xs \<Longrightarrow> blit xs off ys = Some (take off xs @ ys @ drop (off + length ys) xs)"
  by (simp add: blit_def)

lemma blit_Some_iff:
  "blit xs off ys = Some zs \<longleftrightarrow> off + length ys \<le> length xs \<and> zs = take off xs @ ys @ drop (off + length ys) xs"
  by (auto simp: blit_def)

lemma length_blit: "blit xs off ys = Some zs \<Longrightarrow> length zs = length xs"
  by (auto simp: blit_def split: if_splits)

lemma list_update_take_drop:
  assumes "i < length xs"
  shows "xs[i := v] = take i xs @ v # drop (Suc i) xs"
  using assms by (rule upd_conv_take_nth_drop)

lemma nth_drop_eq: "i < length xs \<Longrightarrow> drop i xs = xs ! i # drop (Suc i) xs"
  by (simp add: Cons_nth_drop_Suc)

text \<open>Two words of a fixed width are equal when their bits are; the range of bits is unfolded by the simplifier.\<close>

lemma upt_numeral:
  "[0..<numeral k] = 0 # [Suc 0..<numeral k]"
  "[Suc 0..<numeral k] = (if Suc 0 < numeral k then Suc 0 # [2..<numeral k] else [])"
  by (simp_all add: upt_conv_Cons numeral_2_eq_2)

lemma word_eqI_upt:
  fixes v w :: "'a::len word"
  assumes "list_all (\<lambda>n. bit v n = bit w n) [0..<LENGTH('a)]"
  shows "v = w"
  using assms by (intro bit_word_eqI) (simp add: list_all_iff)

end
