(* ===== verification/Coll_Ringbuffer.thy ===== *)
theory Coll_Ringbuffer
  imports Opal_Prelude
begin

text \<open>
  \<open>libcoll/src/ringbuffer.c\<close>: the fixed-size ring buffer behind the TTY, the pipes, the HID queue
  and the UART. The C structure keeps indices only; the caller stores its elements in a separate
  array, which the macros \<^verbatim>\<open>ringbuffer_push\<close> and \<^verbatim>\<open>ringbuffer_pop\<close> index. The theory models
  the index operations at their 64-bit width, the two macros over an element array, and shows
  that together they are a bounded first-in first-out queue.
\<close>

section \<open>Model\<close>

record ringbuffer =
  head :: u64
  tail :: u64
  count :: u64
  maxlen :: u64

definition ringbuffer_init :: "u64 \<Rightarrow> ringbuffer" where
  "ringbuffer_init n = \<lparr>head = 0, tail = 0, count = 0, maxlen = n\<rparr>"

definition ringbuffer_is_full :: "ringbuffer \<Rightarrow> bool" where
  "ringbuffer_is_full rb \<longleftrightarrow> count rb = maxlen rb"

definition ringbuffer_is_empty :: "ringbuffer \<Rightarrow> bool" where
  "ringbuffer_is_empty rb \<longleftrightarrow> count rb = 0"

definition ringbuffer_push_index :: "ringbuffer \<Rightarrow> (u64 \<times> ringbuffer) option" where
  "ringbuffer_push_index rb = do {
     kassert (count rb < maxlen rb);
     let last = tail rb;
     let rb = rb\<lparr>tail := tail rb + 1\<rparr>;
     let rb = (if tail rb = maxlen rb then rb\<lparr>tail := 0\<rparr> else rb);
     let rb = rb\<lparr>count := count rb + 1\<rparr>;
     Some (last, rb)
   }"

definition ringbuffer_pop_index :: "ringbuffer \<Rightarrow> (u64 \<times> ringbuffer) option" where
  "ringbuffer_pop_index rb = do {
     kassert (count rb > 0);
     let first = head rb;
     let rb = rb\<lparr>head := head rb + 1\<rparr>;
     let rb = (if head rb = maxlen rb then rb\<lparr>head := 0\<rparr> else rb);
     let rb = rb\<lparr>count := count rb - 1\<rparr>;
     Some (first, rb)
   }"

text \<open>The macros: the element array is the \<^verbatim>\<open>buffer\<close> field, one list entry per element.\<close>

definition ringbuffer_push :: "ringbuffer \<times> 'a list \<Rightarrow> 'a \<Rightarrow> (ringbuffer \<times> 'a list) option" where
  "ringbuffer_push q v = do {
     (i, rb) \<leftarrow> ringbuffer_push_index (fst q);
     buf \<leftarrow> wr (snd q) (unat i) v;
     Some (rb, buf)
   }"

definition ringbuffer_pop :: "ringbuffer \<times> 'a list \<Rightarrow> ('a \<times> (ringbuffer \<times> 'a list)) option" where
  "ringbuffer_pop q = do {
     (i, rb) \<leftarrow> ringbuffer_pop_index (fst q);
     v \<leftarrow> rd (snd q) (unat i);
     Some (v, (rb, snd q))
   }"

section \<open>Invariant and abstraction\<close>

definition rb_inv :: "ringbuffer \<Rightarrow> bool" where
  "rb_inv rb \<longleftrightarrow>
     0 < unat (maxlen rb) \<and> unat (head rb) < unat (maxlen rb) \<and> unat (count rb) \<le> unat (maxlen rb) \<and>
     unat (tail rb) = (unat (head rb) + unat (count rb)) mod unat (maxlen rb)"

definition rbuf_inv :: "ringbuffer \<times> 'a list \<Rightarrow> bool" where
  "rbuf_inv q \<longleftrightarrow> rb_inv (fst q) \<and> length (snd q) = unat (maxlen (fst q))"

text \<open>The queued elements, oldest first.\<close>

definition rb_contents :: "ringbuffer \<times> 'a list \<Rightarrow> 'a list" where
  "rb_contents q = map (\<lambda>k. snd q ! ((unat (head (fst q)) + k) mod unat (maxlen (fst q))))
                       [0..<unat (count (fst q))]"

lemma rb_contents_length: "length (rb_contents q) = unat (count (fst q))"
  by (simp add: rb_contents_def)

text \<open>The wrap-around step on an index is the successor modulo the capacity.\<close>

lemma unat_wrap_step:
  fixes i n :: u64
  assumes "unat i < unat n"
  shows "unat (if i + 1 = n then 0 else i + 1) = (unat i + 1) mod unat n"
proof -
  have "unat (i + 1) = unat i + 1"
    using assms unat_add_one [of i n] by (simp add: word_arith)
  with assms show ?thesis
    by (auto simp: word_unat_eq_iff mod_if)
qed

lemma push_index_Some:
  assumes "rb_inv rb" and "\<not> ringbuffer_is_full rb"
  shows "\<exists>rb'. ringbuffer_push_index rb = Some (tail rb, rb') \<and> rb_inv rb' \<and>
           head rb' = head rb \<and> maxlen rb' = maxlen rb \<and>
           unat (count rb') = unat (count rb) + 1"
proof -
  from assms have lt: "unat (count rb) < unat (maxlen rb)" and tl: "unat (tail rb) < unat (maxlen rb)"
    by (auto simp: rb_inv_def ringbuffer_is_full_def word_unat_eq_iff)
  have cnt: "unat (count rb + 1) = unat (count rb) + 1"
    using lt unat_add_one [of "count rb" "maxlen rb"] by (simp add: word_arith)
  define t where "t = (if tail rb + 1 = maxlen rb then 0 else tail rb + 1)"
  have t: "unat t = (unat (head rb) + (unat (count rb) + 1)) mod unat (maxlen rb)"
    using assms(1) unat_wrap_step [OF tl] by (simp add: t_def rb_inv_def mod_Suc_eq)
  have "ringbuffer_push_index rb = Some (tail rb, rb\<lparr>tail := t, count := count rb + 1\<rparr>)"
    using lt by (simp add: ringbuffer_push_index_def t_def word_arith)
  with assms(1) lt t cnt show ?thesis
    by (simp add: rb_inv_def)
qed

lemma pop_index_Some:
  assumes "rb_inv rb" and "\<not> ringbuffer_is_empty rb"
  shows "\<exists>rb'. ringbuffer_pop_index rb = Some (head rb, rb') \<and> rb_inv rb' \<and>
           unat (head rb') = (unat (head rb) + 1) mod unat (maxlen rb) \<and> maxlen rb' = maxlen rb \<and>
           unat (count rb) = unat (count rb') + 1"
proof -
  from assms have pos: "0 < unat (count rb)" and hd: "unat (head rb) < unat (maxlen rb)"
    by (auto simp: rb_inv_def ringbuffer_is_empty_def unat_gt_0)
  have cnt: "unat (count rb - 1) = unat (count rb) - 1"
    using pos unat_sub_one [of "count rb"] by (simp add: word_arith)
  define h where "h = (if head rb + 1 = maxlen rb then 0 else head rb + 1)"
  have h: "unat h = (unat (head rb) + 1) mod unat (maxlen rb)"
    using unat_wrap_step [OF hd] by (simp add: h_def)
  have eq: "ringbuffer_pop_index rb = Some (head rb, rb\<lparr>head := h, count := count rb - 1\<rparr>)"
    using pos by (simp add: ringbuffer_pop_index_def h_def word_arith)
  have "((unat (head rb) + 1) mod unat (maxlen rb) + (unat (count rb) - 1)) mod unat (maxlen rb)
        = (unat (head rb) + unat (count rb)) mod unat (maxlen rb)"
    using pos by (subst mod_add_left_eq) simp
  with assms(1) eq h cnt pos show ?thesis
    by (auto simp: rb_inv_def intro: le_less_trans)
qed

section \<open>The queue contract\<close>

text \<open>
  What a client of the ring buffer relies on: pushing to a queue that is not full appends, popping
  from one that is not empty removes the oldest element, and neither faults. The lemmas inside
  the locale are the derived laws the clients use.
\<close>

locale bounded_fifo =
  fixes push :: "'q \<Rightarrow> 'a \<Rightarrow> 'q option"
    and pop :: "'q \<Rightarrow> ('a \<times> 'q) option"
    and contents :: "'q \<Rightarrow> 'a list"
    and capacity :: "'q \<Rightarrow> nat"
    and inv :: "'q \<Rightarrow> bool"
  assumes push_ok: "inv q \<Longrightarrow> length (contents q) < capacity q \<Longrightarrow>
      \<exists>q'. push q v = Some q' \<and> inv q' \<and> contents q' = contents q @ [v] \<and> capacity q' = capacity q"
    and push_full: "inv q \<Longrightarrow> length (contents q) = capacity q \<Longrightarrow> push q v = None"
    and pop_ok: "inv q \<Longrightarrow> contents q = v # vs \<Longrightarrow>
      \<exists>q'. pop q = Some (v, q') \<and> inv q' \<and> contents q' = vs \<and> capacity q' = capacity q"
    and pop_empty: "inv q \<Longrightarrow> contents q = [] \<Longrightarrow> pop q = None"
    and bounded: "inv q \<Longrightarrow> length (contents q) \<le> capacity q"
begin

primrec push_all :: "'q \<Rightarrow> 'a list \<Rightarrow> 'q option" where
  "push_all q [] = Some q"
| "push_all q (v # vs) = push q v \<bind> (\<lambda>q'. push_all q' vs)"

primrec pop_n :: "nat \<Rightarrow> 'q \<Rightarrow> ('a list \<times> 'q) option" where
  "pop_n 0 q = Some ([], q)"
| "pop_n (Suc n) q = do { (v, q') \<leftarrow> pop q; (vs, q'') \<leftarrow> pop_n n q'; Some (v # vs, q'') }"

lemma push_all_ok:
  assumes "inv q" and "length (contents q) + length vs \<le> capacity q"
  shows "\<exists>q'. push_all q vs = Some q' \<and> inv q' \<and> contents q' = contents q @ vs \<and> capacity q' = capacity q"
  using assms
proof (induction vs arbitrary: q)
  case Nil
  then show ?case by simp
next
  case (Cons v vs)
  then obtain q1 where q1: "push q v = Some q1" "inv q1" "contents q1 = contents q @ [v]"
      "capacity q1 = capacity q"
    using push_ok [of q v] by auto
  with Cons.prems have "\<exists>q'. push_all q1 vs = Some q' \<and> inv q' \<and> contents q' = contents q1 @ vs
      \<and> capacity q' = capacity q1"
    by (intro Cons.IH) auto
  with q1 show ?case by auto
qed

lemma pop_n_ok:
  assumes "inv q" and "contents q = vs @ ws"
  shows "\<exists>q'. pop_n (length vs) q = Some (vs, q') \<and> inv q' \<and> contents q' = ws \<and> capacity q' = capacity q"
  using assms
proof (induction vs arbitrary: q)
  case Nil
  then show ?case by simp
next
  case (Cons v vs)
  then obtain q1 where q1: "pop q = Some (v, q1)" "inv q1" "contents q1 = vs @ ws"
      "capacity q1 = capacity q"
    using pop_ok [of q v "vs @ ws"] by auto
  with Cons.IH [of q1] show ?case by auto
qed

text \<open>First in, first out: what is written to an empty queue is read back in the same order.\<close>

lemma fifo_order:
  assumes "inv q" and "contents q = []" and "length vs \<le> capacity q"
  shows "\<exists>q1 q2. push_all q vs = Some q1 \<and> pop_n (length vs) q1 = Some (vs, q2) \<and> contents q2 = []"
proof -
  from assms push_all_ok [of q vs] obtain q1 where q1: "push_all q vs = Some q1" "inv q1" "contents q1 = vs"
    by auto
  with pop_n_ok [of q1 vs "[]"] show ?thesis by auto
qed

end

section \<open>The ring buffer implements it\<close>

lemma contents_push:
  assumes "rbuf_inv (rb, buf)" and "\<not> ringbuffer_is_full rb"
  shows "\<exists>q'. ringbuffer_push (rb, buf) v = Some q' \<and> rbuf_inv q' \<and>
           rb_contents q' = rb_contents (rb, buf) @ [v] \<and> maxlen (fst q') = maxlen rb"
proof -
  from assms have inv: "rb_inv rb" and len: "length buf = unat (maxlen rb)"
    by (auto simp: rbuf_inv_def)
  from push_index_Some [OF inv assms(2)] obtain rb' where rb':
      "ringbuffer_push_index rb = Some (tail rb, rb')" "rb_inv rb'" "head rb' = head rb"
      "maxlen rb' = maxlen rb" "unat (count rb') = unat (count rb) + 1"
    by blast
  let ?h = "unat (head rb)" and ?n = "unat (maxlen rb)" and ?c = "unat (count rb)"
  from inv have tl: "unat (tail rb) = (?h + ?c) mod ?n" and n0: "0 < ?n"
    by (auto simp: rb_inv_def)
  have lt: "?c < ?n"
    using inv assms(2) by (auto simp: rb_inv_def ringbuffer_is_full_def word_unat_eq_iff)
  have slot: "(?h + ?c) mod ?n \<noteq> (?h + k) mod ?n" if "k < ?c" for k
  proof
    assume "(?h + ?c) mod ?n = (?h + k) mod ?n"
    then have "?c mod ?n = k mod ?n"
      by (auto simp: nat_mod_eq_iff)
    with that lt show False by simp
  qed
  have eq: "ringbuffer_push (rb, buf) v = Some (rb', buf[unat (tail rb) := v])"
    using rb'(1) len tl n0 by (simp add: ringbuffer_push_def)
  have "rb_contents (rb', buf[unat (tail rb) := v]) = rb_contents (rb, buf) @ [v]"
    using rb' tl n0 len by (auto simp: rb_contents_def slot)
  with eq rb' len show ?thesis
    by (simp add: rbuf_inv_def)
qed

lemma contents_pop:
  assumes "rbuf_inv (rb, buf)" and "rb_contents (rb, buf) = v # vs"
  shows "\<exists>q'. ringbuffer_pop (rb, buf) = Some (v, q') \<and> rbuf_inv q' \<and>
           rb_contents q' = vs \<and> maxlen (fst q') = maxlen rb"
proof -
  from assms(1) have inv: "rb_inv rb" and len: "length buf = unat (maxlen rb)"
    by (auto simp: rbuf_inv_def)
  let ?h = "unat (head rb)" and ?n = "unat (maxlen rb)" and ?c = "unat (count rb)"
  have c: "?c = Suc (length vs)"
    using rb_contents_length [of "(rb, buf)"] assms(2) by simp
  then have "\<not> ringbuffer_is_empty rb"
    by (auto simp: ringbuffer_is_empty_def)
  from pop_index_Some [OF inv this] obtain rb' where rb':
      "ringbuffer_pop_index rb = Some (head rb, rb')" "rb_inv rb'" "unat (head rb') = (?h + 1) mod ?n"
      "maxlen rb' = maxlen rb" "?c = unat (count rb') + 1"
    by blast
  have hd: "?h < ?n" using inv by (simp add: rb_inv_def)
  have cons: "rb_contents (rb, buf) = buf ! ?h # map (\<lambda>k. buf ! ((?h + Suc k) mod ?n)) [0..<length vs]"
    using hd by (simp add: rb_contents_def c upt_conv_Cons map_Suc_upt [symmetric] del: upt_Suc map_Suc_upt)
  have "rb_contents (rb', buf) = map (\<lambda>k. buf ! ((?h + Suc k) mod ?n)) [0..<length vs]"
    using rb' c by (simp add: rb_contents_def mod_add_left_eq mod_Suc_eq)
  with rb' cons assms(2) len hd show ?thesis
    by (simp add: ringbuffer_pop_def rbuf_inv_def)
qed

interpretation rbq: bounded_fifo ringbuffer_push ringbuffer_pop rb_contents
  "\<lambda>q. unat (maxlen (fst q))" rbuf_inv
proof unfold_locales
  fix q :: "ringbuffer \<times> 'a list" and v
  assume inv: "rbuf_inv q" and "length (rb_contents q) < unat (maxlen (fst q))"
  then have "\<not> ringbuffer_is_full (fst q)"
    by (auto simp: rb_contents_length ringbuffer_is_full_def)
  with inv contents_push [of "fst q" "snd q" v]
  show "\<exists>q'. ringbuffer_push q v = Some q' \<and> rbuf_inv q' \<and> rb_contents q' = rb_contents q @ [v]
      \<and> unat (maxlen (fst q')) = unat (maxlen (fst q))"
    by auto
next
  fix q :: "ringbuffer \<times> 'a list" and v
  assume "rbuf_inv q" and "length (rb_contents q) = unat (maxlen (fst q))"
  then show "ringbuffer_push q v = None"
    by (simp add: ringbuffer_push_def ringbuffer_push_index_def rb_contents_length word_unat_eq_iff [symmetric])
next
  fix q :: "ringbuffer \<times> 'a list" and v vs
  assume "rbuf_inv q" and "rb_contents q = v # vs"
  with contents_pop [of "fst q" "snd q" v vs]
  show "\<exists>q'. ringbuffer_pop q = Some (v, q') \<and> rbuf_inv q' \<and> rb_contents q' = vs
      \<and> unat (maxlen (fst q')) = unat (maxlen (fst q))"
    by auto
next
  fix q :: "ringbuffer \<times> 'a list"
  assume "rbuf_inv q" and "rb_contents q = []"
  then show "ringbuffer_pop q = None"
    using rb_contents_length [of q] by (simp add: ringbuffer_pop_def ringbuffer_pop_index_def unat_eq_0)
next
  fix q :: "ringbuffer \<times> 'a list"
  assume "rbuf_inv q"
  then show "length (rb_contents q) \<le> unat (maxlen (fst q))"
    by (simp add: rb_contents_length rbuf_inv_def rb_inv_def)
qed

section \<open>Properties\<close>

text \<open>
  C24. A well-formed ring buffer is a bounded first-in first-out queue: pushing appends at the back
  and fails exactly when the buffer is full, popping returns the oldest element and fails exactly
  when it is empty, and both keep the buffer well formed and its capacity unchanged. In
  particular neither index leaves the element array, and the 64-bit counters do not wrap.
\<close>

theorem ringbuffer_is_queue:
  assumes "rbuf_inv q"
  shows "(if length (rb_contents q) = unat (maxlen (fst q)) then ringbuffer_push q v = None
          else \<exists>q'. ringbuffer_push q v = Some q' \<and> rbuf_inv q' \<and> rb_contents q' = rb_contents q @ [v] \<and>
                 maxlen (fst q') = maxlen (fst q)) \<and>
         (case rb_contents q of
            [] \<Rightarrow> ringbuffer_pop q = None
          | w # ws \<Rightarrow> \<exists>q'. ringbuffer_pop q = Some (w, q') \<and> rbuf_inv q' \<and> rb_contents q' = ws \<and>
                 maxlen (fst q') = maxlen (fst q))"
  using rbq.push_ok [OF assms, of v] rbq.push_full [OF assms, of v] rbq.bounded [OF assms]
    rbq.pop_empty [OF assms] rbq.pop_ok [OF assms]
  by (auto simp: word_unat_eq_iff split: list.split)

theorem ringbuffer_is_queue_witness:
  "\<exists>q'. ringbuffer_push (\<lparr>head = 2, tail = 1, count = 2, maxlen = 3\<rparr>, [7 :: nat, 8, 9]) 5 = Some q' \<and>
        rbuf_inv q' \<and> rb_contents q' = [9, 7, 5] \<and> maxlen (fst q') = 3"
proof -
  let ?q = "(\<lparr>head = 2, tail = 1, count = 2, maxlen = 3\<rparr>, [7 :: nat, 8, 9])"
  have "rbuf_inv ?q" and c: "rb_contents ?q = [9, 7]"
    by (simp_all add: rbuf_inv_def rb_inv_def rb_contents_def upt_rec)
  from ringbuffer_is_queue [OF this(1), of 5] show ?thesis
    by (simp add: c)
qed

text \<open>
  Round trip through the ring buffer: any sequence of at most capacity many elements that is
  pushed to an empty buffer is popped again unchanged and in the same order, wherever the head
  index stands, and leaves the buffer empty.
\<close>

theorem ringbuffer_roundtrip:
  assumes "rbuf_inv q" and "ringbuffer_is_empty (fst q)" and "length vs \<le> unat (maxlen (fst q))"
  shows "\<exists>q1 q2. rbq.push_all q vs = Some q1 \<and> rbq.pop_n (length vs) q1 = Some (vs, q2) \<and>
           ringbuffer_is_empty (fst q2)"
proof -
  have e: "ringbuffer_is_empty (fst r) \<longleftrightarrow> rb_contents r = []" for r :: "ringbuffer \<times> 'a list"
    by (auto simp: rb_contents_def ringbuffer_is_empty_def unat_eq_0)
  from assms rbq.fifo_order [of q vs] show ?thesis
    by (simp add: e)
qed

theorem ringbuffer_roundtrip_witness:
  "\<exists>q1 q2. rbq.push_all (\<lparr>head = 2, tail = 2, count = 0, maxlen = 3\<rparr>, [0 :: nat, 0, 0]) [4, 5, 6] = Some q1 \<and>
     rbq.pop_n 3 q1 = Some ([4, 5, 6], q2) \<and> ringbuffer_is_empty (fst q2)"
proof -
  let ?q = "(\<lparr>head = 2, tail = 2, count = 0, maxlen = 3\<rparr>, [0 :: nat, 0, 0])"
  have "rbuf_inv ?q" "ringbuffer_is_empty (fst ?q)" "length [4 :: nat, 5, 6] \<le> unat (maxlen (fst ?q))"
    by (simp_all add: rbuf_inv_def rb_inv_def ringbuffer_is_empty_def)
  from ringbuffer_roundtrip [OF this] show ?thesis
    by (simp only: list.size) (simp only: Suc_eq_plus1 add_0 numeral_plus_one semiring_norm one_plus_numeral)
qed

end
