(* ===== verification/Coll_Linkedlist.thy ===== *)
theory Coll_Linkedlist
  imports Opal_Prelude
begin

text \<open>
  \<open>libcoll/src/linkedlist.c\<close> and \<open>libcoll/src/singlylist.c\<close>: the intrusive lists. Links live in
  an explicit heap from link addresses to their pointer fields, because the same heap holds many
  lists and every operation works by pointer updates on nodes that may coincide (a list with one
  element). \<open>dlist h d xs\<close> says that the circular list with dummy node \<open>d\<close> holds the nodes
  \<open>xs\<close>; every operation is shown to refine the list operation of the same name. The contract
  is the locale \<open>intrusive_lists\<close>, in which the facts about families of disjoint lists (one
  list per order in the page allocator) are proved.
\<close>

section \<open>Model of linkedlist.c\<close>

record 'l link =
  prev :: "'l option"
  "next" :: "'l option"

type_synonym 'l heap = "'l \<Rightarrow> 'l link"

definition linkedlist_init :: "'l heap \<Rightarrow> 'l \<Rightarrow> 'l heap" where
  "linkedlist_init h d =
     (let h = h(d := (h d)\<lparr>prev := Some d\<rparr>)
      in h(d := (h d)\<lparr>next := Some d\<rparr>))"

definition linkedlist_nil :: "'l \<Rightarrow> 'l" where
  "linkedlist_nil d = d"

definition linkedlist_is_nil :: "'l \<Rightarrow> 'l option \<Rightarrow> bool" where
  "linkedlist_is_nil d l \<longleftrightarrow> l = Some d"

definition linkedlist_is_empty :: "'l heap \<Rightarrow> 'l \<Rightarrow> bool" where
  "linkedlist_is_empty h d \<longleftrightarrow> prev (h d) = Some d \<and> prev (h d) = next (h d)"

definition linkedlist_head :: "'l heap \<Rightarrow> 'l \<Rightarrow> 'l option" where
  "linkedlist_head h d = next (h d)"

definition linkedlist_tail :: "'l heap \<Rightarrow> 'l \<Rightarrow> 'l option" where
  "linkedlist_tail h d = prev (h d)"

definition linkedlist_insert_before :: "'l heap \<Rightarrow> 'l \<Rightarrow> 'l \<Rightarrow> 'l heap option" where
  "linkedlist_insert_before h link to_insert = do {
     p \<leftarrow> prev (h link);
     let h = h(p := (h p)\<lparr>next := Some to_insert\<rparr>);
     let h = h(to_insert := (h to_insert)\<lparr>prev := prev (h link)\<rparr>);
     let h = h(to_insert := (h to_insert)\<lparr>next := Some link\<rparr>);
     Some (h(link := (h link)\<lparr>prev := Some to_insert\<rparr>))
   }"

definition linkedlist_insert_after :: "'l heap \<Rightarrow> 'l \<Rightarrow> 'l \<Rightarrow> 'l heap option" where
  "linkedlist_insert_after h link to_insert = do {
     n \<leftarrow> next (h link);
     let h = h(n := (h n)\<lparr>prev := Some to_insert\<rparr>);
     let h = h(to_insert := (h to_insert)\<lparr>next := next (h link)\<rparr>);
     let h = h(to_insert := (h to_insert)\<lparr>prev := Some link\<rparr>);
     Some (h(link := (h link)\<lparr>next := Some to_insert\<rparr>))
   }"

definition linkedlist_remove :: "'l heap \<Rightarrow> 'l \<Rightarrow> 'l heap option" where
  "linkedlist_remove h link = do {
     p \<leftarrow> prev (h link);
     let h = h(p := (h p)\<lparr>next := next (h link)\<rparr>);
     n \<leftarrow> next (h link);
     Some (h(n := (h n)\<lparr>prev := prev (h link)\<rparr>))
   }"

definition linkedlist_push_front :: "'l heap \<Rightarrow> 'l \<Rightarrow> 'l \<Rightarrow> 'l heap option" where
  "linkedlist_push_front h d to_insert = do {
     n \<leftarrow> next (h d);
     linkedlist_insert_before h n to_insert
   }"

definition linkedlist_push_back :: "'l heap \<Rightarrow> 'l \<Rightarrow> 'l \<Rightarrow> 'l heap option" where
  "linkedlist_push_back h d to_insert = do {
     p \<leftarrow> prev (h d);
     linkedlist_insert_after h p to_insert
   }"

text \<open>The inner option is the returned pointer, \<^term>\<open>None\<close> being \<^verbatim>\<open>NULL\<close>.\<close>

definition linkedlist_pop_front :: "'l heap \<Rightarrow> 'l \<Rightarrow> ('l option \<times> 'l heap) option" where
  "linkedlist_pop_front h d = do {
     removed \<leftarrow> next (h d);
     if removed = d then Some (None, h)
     else do {
       h' \<leftarrow> linkedlist_remove h removed;
       Some (Some removed, h')
     }
   }"

definition linkedlist_pop_back :: "'l heap \<Rightarrow> 'l \<Rightarrow> ('l option \<times> 'l heap) option" where
  "linkedlist_pop_back h d = do {
     removed \<leftarrow> prev (h d);
     if removed = d then Some (None, h)
     else do {
       h' \<leftarrow> linkedlist_remove h removed;
       Some (Some removed, h')
     }
   }"

section \<open>Model of singlylist.c\<close>

type_synonym 'l sheap = "'l \<Rightarrow> 'l option"

definition singlylist_head :: "'l sheap \<Rightarrow> 'l \<Rightarrow> 'l option" where
  "singlylist_head h d = h d"

definition singlylist_insert_after :: "'l sheap \<Rightarrow> 'l \<Rightarrow> 'l \<Rightarrow> 'l sheap" where
  "singlylist_insert_after h link to_insert =
     (let h = h(to_insert := h link) in h(link := Some to_insert))"

definition singlylist_remove_after :: "'l sheap \<Rightarrow> 'l \<Rightarrow> 'l sheap option" where
  "singlylist_remove_after h before = do {
     kassert (h before \<noteq> None);
     n \<leftarrow> h before;
     Some (h(before := h n))
   }"

definition singlylist_push_front :: "'l sheap \<Rightarrow> 'l \<Rightarrow> 'l \<Rightarrow> 'l sheap" where
  "singlylist_push_front h d to_insert = singlylist_insert_after h d to_insert"

definition singlylist_pop_front :: "'l sheap \<Rightarrow> 'l \<Rightarrow> ('l option \<times> 'l sheap) option" where
  "singlylist_pop_front h d =
     (case h d of
        None \<Rightarrow> Some (None, h)
      | Some removed \<Rightarrow> do {
          h' \<leftarrow> singlylist_remove_after h d;
          Some (Some removed, h')
        })"

section \<open>Abstraction\<close>

text \<open>Consecutive nodes of the given sequence point at each other.\<close>

fun linked :: "'l heap \<Rightarrow> 'l list \<Rightarrow> bool" where
  "linked h (a # b # r) \<longleftrightarrow> next (h a) = Some b \<and> prev (h b) = Some a \<and> linked h (b # r)"
| "linked h _ \<longleftrightarrow> True"

definition dlist :: "'l heap \<Rightarrow> 'l \<Rightarrow> 'l list \<Rightarrow> bool" where
  "dlist h d xs \<longleftrightarrow> distinct (d # xs) \<and> linked h (d # xs @ [d])"

fun slist :: "'l sheap \<Rightarrow> 'l \<Rightarrow> 'l list \<Rightarrow> bool" where
  "slist h a [] \<longleftrightarrow> h a = None"
| "slist h a (b # r) \<longleftrightarrow> h a = Some b \<and> slist h b r"

lemma linked_split:
  "linked h (ps @ a # b # qs) \<longleftrightarrow>
     linked h (ps @ [a]) \<and> next (h a) = Some b \<and> prev (h b) = Some a \<and> linked h (b # qs)"
proof (induction ps)
  case Nil
  then show ?case by simp
next
  case (Cons c ps)
  then show ?case by (cases ps) auto
qed

lemma linked_frame:
  assumes "linked h xs"
    and "\<And>a. a \<in> set (butlast xs) \<Longrightarrow> next (h' a) = next (h a)"
    and "\<And>a. a \<in> set (tl xs) \<Longrightarrow> prev (h' a) = prev (h a)"
  shows "linked h' xs"
  using assms by (induction h xs rule: linked.induct) auto

text \<open>A node spliced in between two neighbours, and a node cut out.\<close>

lemma linked_insert:
  assumes "linked h (ps @ a # b # qs)"
    and "a \<notin> set ps" "b \<notin> set (tl (ps @ [a]))" "a \<notin> set (butlast (b # qs))" "b \<notin> set qs"
    and "x \<notin> set (ps @ a # b # qs)"
    and "next (h' a) = Some x" "prev (h' x) = Some a" "next (h' x) = Some b" "prev (h' b) = Some x"
    and "\<And>c. c \<noteq> a \<Longrightarrow> c \<noteq> x \<Longrightarrow> next (h' c) = next (h c)"
    and "\<And>c. c \<noteq> b \<Longrightarrow> c \<noteq> x \<Longrightarrow> prev (h' c) = prev (h c)"
  shows "linked h' (ps @ a # x # b # qs)"
proof -
  have tl: "c \<noteq> x" if "c \<in> set (tl (ps @ [a]))" for c
    using that assms(6) by (cases ps) auto
  have bl: "c \<noteq> x" if "c \<in> set (butlast (b # qs))" for c
    using in_set_butlastD [OF that] assms(6) by auto
  from assms(1) have l: "linked h (ps @ [a])" "linked h (b # qs)"
    by (auto simp: linked_split)
  have "linked h' (ps @ [a])"
    by (rule linked_frame [OF l(1)]) (use assms(2,3,6,11,12) tl in \<open>auto, metis+\<close>)
  moreover have "linked h' (b # qs)"
    by (rule linked_frame [OF l(2)]) (use assms(4,5,6,11,12) bl in \<open>auto, metis+\<close>)
  ultimately show ?thesis
    using assms(7-10) by (simp add: linked_split)
qed

lemma linked_cut:
  assumes "linked h (ps @ a # x # b # qs)"
    and "a \<notin> set ps" "b \<notin> set (tl (ps @ [a]))" "a \<notin> set (butlast (b # qs))" "b \<notin> set qs"
    and "next (h' a) = Some b" "prev (h' b) = Some a"
    and "\<And>c. c \<noteq> a \<Longrightarrow> next (h' c) = next (h c)"
    and "\<And>c. c \<noteq> b \<Longrightarrow> prev (h' c) = prev (h c)"
  shows "linked h' (ps @ a # b # qs)"
proof -
  from assms(1) have l: "linked h (ps @ [a])" "linked h (b # qs)"
    by (auto simp: linked_split)
  have "linked h' (ps @ [a])"
    by (rule linked_frame [OF l(1)]) (use assms(2,3,8,9) in \<open>auto, metis+\<close>)
  moreover have "linked h' (b # qs)"
    by (rule linked_frame [OF l(2)]) (use assms(4,5,8,9) in \<open>auto, metis+\<close>)
  ultimately show ?thesis
    using assms(6,7) by (simp add: linked_split)
qed

text \<open>Where a circular sequence is cut in two, the pieces meet in a pair of neighbours.\<close>

lemma circle_split:
  assumes "distinct (d # us @ vs)"
  obtains ps a b qs where "d # us = ps @ [a]" "vs @ [d] = b # qs"
    "a \<notin> set ps" "b \<notin> set (tl (ps @ [a]))" "a \<notin> set (butlast (b # qs))" "b \<notin> set qs"
    "set (ps @ a # b # qs) = set (d # us @ vs)"
proof -
  obtain ps a where pa: "d # us = ps @ [a]"
    by (metis list.distinct(1) rev_exhaust)
  obtain b qs where bq: "vs @ [d] = b # qs"
    by (cases "vs @ [d]") auto
  have dist: "distinct (ps @ a # vs)"
    using assms arg_cong [OF pa, of "\<lambda>zs. distinct (zs @ vs)"] by simp
  have tl: "tl (ps @ [a]) = us"
    using pa by (metis list.sel(3))
  have bl: "butlast (b # qs) = vs"
    using bq by (metis butlast_snoc)
  have "b \<notin> set us" "b \<notin> set qs"
    using assms bq by (cases vs; auto)+
  moreover have "set (ps @ a # b # qs) = set (d # us @ vs)"
    using arg_cong [OF pa, of set] arg_cong [OF bq, of set] by auto
  ultimately show ?thesis
    using that [OF pa bq] dist tl bl by auto
qed

lemma insert_before_fields:
  assumes "prev (h b) = Some a" "x \<noteq> a" "x \<noteq> b"
  shows "\<exists>h'. linkedlist_insert_before h b x = Some h' \<and>
    next (h' a) = Some x \<and> prev (h' x) = Some a \<and> next (h' x) = Some b \<and> prev (h' b) = Some x \<and>
    (\<forall>c. c \<noteq> a \<longrightarrow> c \<noteq> x \<longrightarrow> next (h' c) = next (h c)) \<and>
    (\<forall>c. c \<noteq> b \<longrightarrow> c \<noteq> x \<longrightarrow> prev (h' c) = prev (h c)) \<and> (\<forall>c. c \<notin> {a, b, x} \<longrightarrow> h' c = h c)"
  using assms by (auto simp: linkedlist_insert_before_def Let_def)

lemma insert_after_fields:
  assumes "next (h a) = Some b" "x \<noteq> a" "x \<noteq> b"
  shows "\<exists>h'. linkedlist_insert_after h a x = Some h' \<and>
    next (h' a) = Some x \<and> prev (h' x) = Some a \<and> next (h' x) = Some b \<and> prev (h' b) = Some x \<and>
    (\<forall>c. c \<noteq> a \<longrightarrow> c \<noteq> x \<longrightarrow> next (h' c) = next (h c)) \<and>
    (\<forall>c. c \<noteq> b \<longrightarrow> c \<noteq> x \<longrightarrow> prev (h' c) = prev (h c)) \<and> (\<forall>c. c \<notin> {a, b, x} \<longrightarrow> h' c = h c)"
  using assms by (auto simp: linkedlist_insert_after_def Let_def)

lemma remove_fields:
  assumes "prev (h x) = Some a" "next (h x) = Some b" "x \<noteq> a" "x \<noteq> b"
  shows "\<exists>h'. linkedlist_remove h x = Some h' \<and> next (h' a) = Some b \<and> prev (h' b) = Some a \<and>
    (\<forall>c. c \<noteq> a \<longrightarrow> next (h' c) = next (h c)) \<and>
    (\<forall>c. c \<noteq> b \<longrightarrow> prev (h' c) = prev (h c)) \<and> (\<forall>c. c \<notin> {a, b} \<longrightarrow> h' c = h c)"
  using assms by (auto simp: linkedlist_remove_def Let_def)

text \<open>Insertion at any point of a list, from either side, and removal of any node.\<close>

lemma dlist_insert:
  assumes "dlist h d (us @ vs)" and "x \<notin> set (d # us @ vs)"
  shows "\<exists>h'. linkedlist_insert_before h (hd (vs @ [d])) x = Some h' \<and> dlist h' d (us @ x # vs) \<and>
           (\<forall>c. c \<notin> set (d # us @ vs) \<union> {x} \<longrightarrow> h' c = h c)"
    and "\<exists>h'. linkedlist_insert_after h (last (d # us)) x = Some h' \<and> dlist h' d (us @ x # vs) \<and>
           (\<forall>c. c \<notin> set (d # us @ vs) \<union> {x} \<longrightarrow> h' c = h c)"
proof -
  from assms(1) have dist: "distinct (d # us @ vs)"
    by (simp add: dlist_def)
  from circle_split [OF this] obtain ps a b qs where pa: "d # us = ps @ [a]" and bq: "vs @ [d] = b # qs"
    and neq: "a \<notin> set ps" "b \<notin> set (tl (ps @ [a]))" "a \<notin> set (butlast (b # qs))" "b \<notin> set qs"
    and st: "set (ps @ a # b # qs) = set (d # us @ vs)" .
  have path: "d # us @ ys @ vs @ [d] = ps @ a # ys @ b # qs" for ys
    using pa bq by (metis append_Cons append_Nil append_assoc)
  have l: "linked h (ps @ a # b # qs)"
    using assms(1) path [of "[]"] by (simp add: dlist_def)
  then have ab: "next (h a) = Some b" "prev (h b) = Some a"
    by (auto simp: linked_split)
  have x: "x \<notin> set (ps @ a # b # qs)" "x \<noteq> a" "x \<noteq> b"
    using assms(2) st by auto
  have goal: "dlist h' d (us @ x # vs)" if "linked h' (ps @ a # x # b # qs)" for h'
    using that path [of "[x]"] dist assms(2) by (auto simp: dlist_def)
  have hd: "hd (vs @ [d]) = b" and la: "last (d # us) = a"
    using pa bq by (metis list.sel(1), metis last_snoc)
  show "\<exists>h'. linkedlist_insert_before h (hd (vs @ [d])) x = Some h' \<and> dlist h' d (us @ x # vs) \<and>
      (\<forall>c. c \<notin> set (d # us @ vs) \<union> {x} \<longrightarrow> h' c = h c)"
  proof -
    from insert_before_fields [of h b a x, OF ab(2) x(2,3)] obtain h' where h':
        "linkedlist_insert_before h b x = Some h'" "\<forall>c. c \<notin> {a, b, x} \<longrightarrow> h' c = h c"
      and lk: "linked h' (ps @ a # x # b # qs)"
      using linked_insert [OF l neq x(1)] by metis
    with goal [OF lk] hd st show ?thesis by auto
  qed
  show "\<exists>h'. linkedlist_insert_after h (last (d # us)) x = Some h' \<and> dlist h' d (us @ x # vs) \<and>
      (\<forall>c. c \<notin> set (d # us @ vs) \<union> {x} \<longrightarrow> h' c = h c)"
  proof -
    from insert_after_fields [of h a b x, OF ab(1) x(2,3)] obtain h' where h':
        "linkedlist_insert_after h a x = Some h'" "\<forall>c. c \<notin> {a, b, x} \<longrightarrow> h' c = h c"
      and lk: "linked h' (ps @ a # x # b # qs)"
      using linked_insert [OF l neq x(1)] by metis
    with goal [OF lk] la st show ?thesis by auto
  qed
qed

lemma dlist_remove:
  assumes "dlist h d (us @ x # vs)"
  shows "\<exists>h'. linkedlist_remove h x = Some h' \<and> dlist h' d (us @ vs) \<and>
           (\<forall>c. c \<notin> set (d # us @ vs) \<longrightarrow> h' c = h c)"
proof -
  from assms have dist: "distinct (d # us @ vs)" and x: "x \<notin> set (d # us @ vs)"
    by (auto simp: dlist_def)
  from circle_split [OF dist] obtain ps a b qs where pa: "d # us = ps @ [a]" and bq: "vs @ [d] = b # qs"
    and neq: "a \<notin> set ps" "b \<notin> set (tl (ps @ [a]))" "a \<notin> set (butlast (b # qs))" "b \<notin> set qs"
    and st: "set (ps @ a # b # qs) = set (d # us @ vs)" .
  have path: "d # us @ ys @ vs @ [d] = ps @ a # ys @ b # qs" for ys
    using pa bq by (metis append_Cons append_Nil append_assoc)
  have l: "linked h (ps @ a # x # b # qs)"
    using assms path [of "[x]"] by (simp add: dlist_def)
  then have ax: "prev (h x) = Some a" "next (h x) = Some b"
    by (auto simp: linked_split)
  have "x \<noteq> a" "x \<noteq> b"
    using x st by auto
  from remove_fields [of h x a b, OF ax this] obtain h' where
      "linkedlist_remove h x = Some h'" "\<forall>c. c \<notin> {a, b} \<longrightarrow> h' c = h c"
    and "linked h' (ps @ a # b # qs)"
    using linked_cut [OF l neq] by metis
  with path [of "[]"] dist st show ?thesis
    by (auto simp: dlist_def)
qed

lemma dlist_frame:
  assumes "dlist h d xs" and "\<And>c. c \<in> set (d # xs) \<Longrightarrow> h' c = h c"
  shows "dlist h' d xs"
proof -
  have sub: "c \<in> set (d # xs)" if "c \<in> set (butlast (d # xs @ [d])) \<or> c \<in> set (tl (d # xs @ [d]))" for c
    using that by (auto dest: in_set_butlastD)
  have "linked h' (d # xs @ [d])"
    by (rule linked_frame [where h = h]) (use assms sub in \<open>auto simp: dlist_def\<close>)
  with assms(1) show ?thesis
    by (simp add: dlist_def)
qed

lemma dlist_head: "dlist h d xs \<Longrightarrow> next (h d) = Some (hd (xs @ [d]))"
  by (cases xs) (auto simp: dlist_def)

lemma dlist_tail:
  assumes "dlist h d xs"
  shows "prev (h d) = Some (last (d # xs))"
proof (cases xs rule: rev_cases)
  case Nil
  with assms show ?thesis by (simp add: dlist_def)
next
  case (snoc ys y)
  with assms have "linked h ((d # ys) @ y # d # [])"
    by (simp add: dlist_def)
  then have "prev (h d) = Some y"
    unfolding linked_split by blast
  with snoc show ?thesis by simp
qed

lemma dlist_is_empty:
  assumes "dlist h d xs"
  shows "linkedlist_is_empty h d \<longleftrightarrow> xs = []"
proof (cases xs)
  case Nil
  with assms show ?thesis by (simp add: linkedlist_is_empty_def dlist_def)
next
  case (Cons x ys)
  with assms have "next (h d) = Some x" "x \<noteq> d"
    by (auto simp: dlist_def)
  with Cons show ?thesis by (simp add: linkedlist_is_empty_def)
qed

lemma dlist_init: "dlist (linkedlist_init h d) d []"
  by (simp add: dlist_def linkedlist_init_def)

lemma dlist_push_front:
  assumes "dlist h d xs" and "x \<notin> set (d # xs)"
  shows "\<exists>h'. linkedlist_push_front h d x = Some h' \<and> dlist h' d (x # xs) \<and>
           (\<forall>c. c \<notin> set (d # xs) \<union> {x} \<longrightarrow> h' c = h c)"
  using dlist_insert(1) [of h d "[]" xs x] assms dlist_head [OF assms(1)]
  by (simp add: linkedlist_push_front_def)

lemma dlist_push_back:
  assumes "dlist h d xs" and "x \<notin> set (d # xs)"
  shows "\<exists>h'. linkedlist_push_back h d x = Some h' \<and> dlist h' d (xs @ [x]) \<and>
           (\<forall>c. c \<notin> set (d # xs) \<union> {x} \<longrightarrow> h' c = h c)"
  using dlist_insert(2) [of h d xs "[]" x] assms dlist_tail [OF assms(1)]
  by (simp add: linkedlist_push_back_def)

lemma dlist_pop_front_nil: "dlist h d [] \<Longrightarrow> linkedlist_pop_front h d = Some (None, h)"
  by (simp add: linkedlist_pop_front_def dlist_def)

lemma dlist_pop_front:
  assumes "dlist h d (x # xs)"
  shows "\<exists>h'. linkedlist_pop_front h d = Some (Some x, h') \<and> dlist h' d xs \<and>
           (\<forall>c. c \<notin> set (d # xs) \<longrightarrow> h' c = h c)"
proof -
  from assms have "next (h d) = Some x" "x \<noteq> d"
    by (auto simp: dlist_def)
  with dlist_remove [of h d "[]" x xs] assms show ?thesis
    by (auto simp: linkedlist_pop_front_def)
qed

lemma dlist_pop_back:
  assumes "dlist h d (xs @ [x])"
  shows "\<exists>h'. linkedlist_pop_back h d = Some (Some x, h') \<and> dlist h' d xs \<and>
           (\<forall>c. c \<notin> set (d # xs) \<longrightarrow> h' c = h c)"
proof -
  from assms dlist_tail [OF assms] have "prev (h d) = Some x" "x \<noteq> d"
    by (auto simp: dlist_def)
  with dlist_remove [of h d xs x "[]"] assms show ?thesis
    by (auto simp: linkedlist_pop_back_def)
qed

lemma slist_frame: "slist h a xs \<Longrightarrow> b \<notin> set (a # xs) \<Longrightarrow> slist (h(b := v)) a xs"
  by (induction h a xs rule: slist.induct) auto

lemma slist_push_front:
  assumes "slist h d xs" and "x \<notin> set (d # xs)" and "distinct (d # xs)"
  shows "slist (singlylist_push_front h d x) d (x # xs)"
proof (cases xs)
  case Nil
  with assms show ?thesis
    by (auto simp: singlylist_push_front_def singlylist_insert_after_def Let_def)
next
  case (Cons y ys)
  with assms have "slist (h(x := Some y, d := Some x)) y ys"
    by (intro slist_frame) auto
  with Cons assms show ?thesis
    by (auto simp: singlylist_push_front_def singlylist_insert_after_def Let_def)
qed

lemma slist_pop_front:
  assumes "slist h d (x # xs)" and "distinct (d # x # xs)"
  shows "\<exists>h'. singlylist_pop_front h d = Some (Some x, h') \<and> slist h' d xs"
proof (cases xs)
  case Nil
  with assms show ?thesis
    by (auto simp: singlylist_pop_front_def singlylist_remove_after_def)
next
  case (Cons y ys)
  with assms have "slist (h(d := Some y)) y ys"
    by (intro slist_frame) auto
  with Cons assms show ?thesis
    by (auto simp: singlylist_pop_front_def singlylist_remove_after_def)
qed

section \<open>The contract of the intrusive lists\<close>

text \<open>
  What the users of the lists rely on. \<open>rep h d xs\<close> relates a heap and a list head to the nodes
  in the list; the laws say what each operation does to the nodes, that it does not fault, and
  which part of the heap it leaves alone. The page allocator keeps one list per order in one
  heap: \<open>family\<close> is such a collection of disjoint lists.
\<close>

locale intrusive_lists =
  fixes rep :: "'h \<Rightarrow> 'l \<Rightarrow> 'l list \<Rightarrow> bool"
    and push :: "'h \<Rightarrow> 'l \<Rightarrow> 'l \<Rightarrow> 'h option"
    and pop :: "'h \<Rightarrow> 'l \<Rightarrow> ('l option \<times> 'h) option"
    and remove :: "'h \<Rightarrow> 'l \<Rightarrow> 'h option"
    and is_empty :: "'h \<Rightarrow> 'l \<Rightarrow> bool"
    and same :: "'h \<Rightarrow> 'h \<Rightarrow> 'l \<Rightarrow> bool"
  assumes rep_distinct: "rep h d xs \<Longrightarrow> distinct (d # xs)"
    and rep_frame: "rep h d xs \<Longrightarrow> (\<And>c. c \<in> set (d # xs) \<Longrightarrow> same h h' c) \<Longrightarrow> rep h' d xs"
    and push_spec: "rep h d xs \<Longrightarrow> x \<notin> set (d # xs) \<Longrightarrow>
      \<exists>h'. push h d x = Some h' \<and> rep h' d (x # xs) \<and> (\<forall>c. c \<notin> set (d # xs) \<union> {x} \<longrightarrow> same h h' c)"
    and pop_spec: "rep h d (x # xs) \<Longrightarrow>
      \<exists>h'. pop h d = Some (Some x, h') \<and> rep h' d xs \<and> (\<forall>c. c \<notin> set (d # xs) \<longrightarrow> same h h' c)"
    and pop_nil: "rep h d [] \<Longrightarrow> pop h d = Some (None, h)"
    and remove_spec: "rep h d (us @ x # vs) \<Longrightarrow>
      \<exists>h'. remove h x = Some h' \<and> rep h' d (us @ vs) \<and> (\<forall>c. c \<notin> set (d # us @ vs) \<longrightarrow> same h h' c)"
    and is_empty_spec: "rep h d xs \<Longrightarrow> is_empty h d \<longleftrightarrow> xs = []"
begin

definition family :: "'k set \<Rightarrow> ('k \<Rightarrow> 'l) \<Rightarrow> 'h \<Rightarrow> ('k \<Rightarrow> 'l list) \<Rightarrow> bool" where
  "family K d h F \<longleftrightarrow>
     (\<forall>k\<in>K. rep h (d k) (F k)) \<and>
     (\<forall>k\<in>K. \<forall>j\<in>K. j \<noteq> k \<longrightarrow> set (d k # F k) \<inter> set (d j # F j) = {})"

lemma familyD: "family K d h F \<Longrightarrow> k \<in> K \<Longrightarrow> rep h (d k) (F k)"
  by (simp add: family_def)

lemma family_is_empty: "family K d h F \<Longrightarrow> k \<in> K \<Longrightarrow> is_empty h (d k) \<longleftrightarrow> F k = []"
  by (auto dest: familyD simp: is_empty_spec)

lemma family_distinct: "family K d h F \<Longrightarrow> k \<in> K \<Longrightarrow> distinct (F k)"
  by (drule familyD, assumption, drule rep_distinct) simp

text \<open>An operation on one list of the family leaves the others alone.\<close>

lemma family_update:
  assumes "family K d h F" and "k \<in> K" and "rep h' (d k) ys"
    and "\<And>j. j \<in> K \<Longrightarrow> j \<noteq> k \<Longrightarrow> set (d k # ys) \<inter> set (d j # F j) = {}"
    and "\<And>j c. j \<in> K \<Longrightarrow> j \<noteq> k \<Longrightarrow> c \<in> set (d j # F j) \<Longrightarrow> same h h' c"
  shows "family K d h' (F(k := ys))"
proof -
  have "rep h' (d j) (F j)" if "j \<in> K" "j \<noteq> k" for j
    using familyD [OF assms(1) that(1)] assms(5) [OF that] by (rule rep_frame)
  moreover have "set (d i # (F(k := ys)) i) \<inter> set (d j # (F(k := ys)) j) = {}"
    if "i \<in> K" "j \<in> K" "j \<noteq> i" for i j
    using that assms(1) assms(4) [of i] assms(4) [of j] unfolding family_def
    by (cases "i = k"; cases "j = k") (simp_all add: Int_commute)
  ultimately show ?thesis
    using assms(3) unfolding family_def by simp
qed

lemma family_frame:
  assumes "family K d h F" and "\<And>k c. k \<in> K \<Longrightarrow> c \<in> set (d k # F k) \<Longrightarrow> same h h' c"
  shows "family K d h' F"
  using assms rep_frame unfolding family_def by (metis (no_types, lifting))

lemma family_push:
  assumes "family K d h F" and "k \<in> K" and "\<And>j. j \<in> K \<Longrightarrow> x \<notin> set (d j # F j)"
  shows "\<exists>h'. push h (d k) x = Some h' \<and> family K d h' (F(k := x # F k))"
proof -
  from push_spec [OF familyD [OF assms(1,2)] assms(3) [OF assms(2)]] obtain h' where
      h': "push h (d k) x = Some h'" "rep h' (d k) (x # F k)"
    and fr: "\<And>c. c \<notin> set (d k # F k) \<union> {x} \<Longrightarrow> same h h' c"
    by blast
  have dis: "set (d k # F k) \<inter> set (d j # F j) = {}" if "j \<in> K" "j \<noteq> k" for j
    using assms(1,2) that unfolding family_def by blast
  have "family K d h' (F(k := x # F k))"
  proof (rule family_update [OF assms(1,2) h'(2)])
    fix j assume j: "j \<in> K" "j \<noteq> k"
    show "set (d k # x # F k) \<inter> set (d j # F j) = {}"
      using dis [OF j] assms(3) [OF j(1)] by auto
    fix c assume "c \<in> set (d j # F j)"
    with dis [OF j] assms(3) [OF j(1)] show "same h h' c"
      by (intro fr) blast
  qed
  with h' show ?thesis by blast
qed

lemma family_shrink:
  assumes "family K d h F" and "k \<in> K" and "rep h' (d k) ys" and "set ys \<subseteq> set (F k)"
    and "\<And>c. c \<notin> set (d k # ys) \<Longrightarrow> same h h' c"
  shows "family K d h' (F(k := ys))"
proof (rule family_update [OF assms(1-3)])
  fix j assume j: "j \<in> K" "j \<noteq> k"
  have dis: "set (d k # F k) \<inter> set (d j # F j) = {}"
    using assms(1,2) j unfolding family_def by blast
  with assms(4) show "set (d k # ys) \<inter> set (d j # F j) = {}"
    by auto
  fix c assume "c \<in> set (d j # F j)"
  with dis assms(4) show "same h h' c"
    by (intro assms(5)) auto
qed

lemma family_pop:
  assumes "family K d h F" and "k \<in> K" and "F k = x # xs"
  shows "\<exists>h'. pop h (d k) = Some (Some x, h') \<and> family K d h' (F(k := xs))"
  using pop_spec [of h "d k" x xs] familyD [OF assms(1,2)] assms(3)
    family_shrink [OF assms(1,2), of _ xs] by auto

lemma family_remove:
  assumes "family K d h F" and "k \<in> K" and "x \<in> set (F k)"
  shows "\<exists>h'. remove h x = Some h' \<and> family K d h' (F(k := remove1 x (F k)))"
proof -
  from split_list_first [OF assms(3)] obtain us vs where F: "F k = us @ x # vs" "x \<notin> set us"
    by blast
  then have r: "remove1 x (F k) = us @ vs"
    by (simp add: remove1_append)
  from remove_spec [of h "d k" us x vs] familyD [OF assms(1,2)] F obtain h' where
    "remove h x = Some h'" "rep h' (d k) (us @ vs)" "\<And>c. c \<notin> set (d k # us @ vs) \<Longrightarrow> same h h' c"
    by auto
  with family_shrink [OF assms(1,2), of h' "us @ vs"] F r show ?thesis
    by auto
qed

end

interpretation ll: intrusive_lists dlist linkedlist_push_front linkedlist_pop_front
  linkedlist_remove linkedlist_is_empty "\<lambda>h h' c. h' c = h c"
proof unfold_locales
  show "distinct (d # xs)" if "dlist h d xs" for h :: "'l heap" and d xs
    using that by (simp add: dlist_def)
qed (fact dlist_frame dlist_push_front dlist_pop_front dlist_pop_front_nil dlist_remove dlist_is_empty)+

section \<open>Properties\<close>

text \<open>
  C23. The doubly linked list refines a sequence: linking a new node in before or after any position,
  and unlinking any node, has the effect of the list operation, and no link outside the list is
  written. A pop on an empty list returns \<^verbatim>\<open>NULL\<close> and changes nothing.
\<close>

theorem linkedlist_refines_list:
  assumes "dlist h d (us @ vs)" and "x \<notin> set (d # us @ vs)"
  shows "\<exists>h1 h2 h3. linkedlist_insert_before h (hd (vs @ [d])) x = Some h1 \<and> dlist h1 d (us @ x # vs) \<and>
           linkedlist_insert_after h (last (d # us)) x = Some h2 \<and> dlist h2 d (us @ x # vs) \<and>
           linkedlist_remove h1 x = Some h3 \<and> dlist h3 d (us @ vs) \<and>
           (\<forall>c. c \<noteq> x \<and> c \<notin> set (d # us @ vs) \<longrightarrow> h1 c = h c \<and> h2 c = h c \<and> h3 c = h c) \<and>
           (us @ vs = [] \<longrightarrow> linkedlist_pop_front h d = Some (None, h) \<and> linkedlist_pop_back h d = Some (None, h))"
proof -
  obtain h1 where h1: "linkedlist_insert_before h (hd (vs @ [d])) x = Some h1" "dlist h1 d (us @ x # vs)"
      "\<And>c. c \<notin> set (d # us @ vs) \<union> {x} \<Longrightarrow> h1 c = h c"
    using dlist_insert(1) [OF assms] by blast
  obtain h2 where h2: "linkedlist_insert_after h (last (d # us)) x = Some h2" "dlist h2 d (us @ x # vs)"
      "\<And>c. c \<notin> set (d # us @ vs) \<union> {x} \<Longrightarrow> h2 c = h c"
    using dlist_insert(2) [OF assms] by blast
  obtain h3 where h3: "linkedlist_remove h1 x = Some h3" "dlist h3 d (us @ vs)"
      "\<And>c. c \<notin> set (d # us @ vs) \<Longrightarrow> h3 c = h1 c"
    using dlist_remove [OF h1(2)] by blast
  have "linkedlist_pop_front h d = Some (None, h) \<and> linkedlist_pop_back h d = Some (None, h)" if "us @ vs = []"
    using that assms(1) by (simp add: linkedlist_pop_front_def linkedlist_pop_back_def dlist_def)
  with h1 h2 h3 show ?thesis by auto
qed

theorem linkedlist_refines_list_witness:
  "\<exists>h1. linkedlist_insert_before (linkedlist_init (\<lambda>_. \<lparr>prev = None, next = None\<rparr>) (0 :: nat)) 0 1 = Some h1 \<and>
        dlist h1 0 [1]"
  using linkedlist_refines_list [of "linkedlist_init (\<lambda>_. \<lparr>prev = None, next = None\<rparr>) 0" "0 :: nat" "[]" "[]" 1]
  by (auto simp: dlist_init)

text \<open>
  The list as a deque: from a list that holds \<open>xs\<close>, a node pushed at one end is what the pop at
  that end returns, and pops return the current first and last node.
\<close>

theorem linkedlist_deque:
  assumes "dlist h d xs" and "x \<notin> set (d # xs)"
  shows "\<exists>h1 h2 h3 h4. linkedlist_push_front h d x = Some h1 \<and> dlist h1 d (x # xs) \<and>
           linkedlist_pop_front h1 d = Some (Some x, h2) \<and> dlist h2 d xs \<and>
           linkedlist_push_back h d x = Some h3 \<and> dlist h3 d (xs @ [x]) \<and>
           linkedlist_pop_back h3 d = Some (Some x, h4) \<and> dlist h4 d xs"
proof -
  obtain h1 where h1: "linkedlist_push_front h d x = Some h1" "dlist h1 d (x # xs)"
    using dlist_push_front [OF assms] by blast
  obtain h3 where h3: "linkedlist_push_back h d x = Some h3" "dlist h3 d (xs @ [x])"
    using dlist_push_back [OF assms] by blast
  from dlist_pop_front [OF h1(2)] dlist_pop_back [OF h3(2)] h1 h3 show ?thesis by blast
qed

theorem linkedlist_deque_witness:
  "\<exists>h1 h2. linkedlist_push_front (linkedlist_init (\<lambda>_. \<lparr>prev = None, next = None\<rparr>) (0 :: nat)) 0 1 = Some h1 \<and>
        linkedlist_pop_front h1 0 = Some (Some 1, h2) \<and> dlist h2 0 []"
  using linkedlist_deque [of "linkedlist_init (\<lambda>_. \<lparr>prev = None, next = None\<rparr>) 0" "0 :: nat" "[]" 1]
  by (auto simp: dlist_init)

end
