(* ===== verification/Coll_Rbtree.thy ===== *)
theory Coll_Rbtree
  imports Opal_Prelude
begin

text \<open>
  \<open>libcoll/src/rbtree.c\<close> and the templates of \<open>collections/rbtree.h\<close>: the intrusive red-black tree. Nodes
  are addresses in an explicit store, with parent pointers and colours updated in place as in the
  code; a null pointer that is followed is \<^term>\<open>None\<close>, and so is a loop that does not end
  (\<open>partial_function\<close>). The proofs relate the store to an inductive tree and to its contexts.
\<close>

section \<open>Model\<close>

datatype rbtree_color = RBTREE_RED | RBTREE_BLACK

record rbtree_node =
  color :: rbtree_color
  parent :: "nat option"
  left :: "nat option"
  right :: "nat option"

record rbtree =
  root :: "nat option"
  first :: "nat option"
  nodes :: "nat \<Rightarrow> rbtree_node"

definition set_color :: "rbtree \<Rightarrow> nat \<Rightarrow> rbtree_color \<Rightarrow> rbtree" where
  "set_color t a c = t\<lparr>nodes := (nodes t)(a := (nodes t a)\<lparr>color := c\<rparr>)\<rparr>"

definition set_parent :: "rbtree \<Rightarrow> nat \<Rightarrow> nat option \<Rightarrow> rbtree" where
  "set_parent t a p = t\<lparr>nodes := (nodes t)(a := (nodes t a)\<lparr>parent := p\<rparr>)\<rparr>"

definition set_left :: "rbtree \<Rightarrow> nat \<Rightarrow> nat option \<Rightarrow> rbtree" where
  "set_left t a p = t\<lparr>nodes := (nodes t)(a := (nodes t a)\<lparr>left := p\<rparr>)\<rparr>"

definition set_right :: "rbtree \<Rightarrow> nat \<Rightarrow> nat option \<Rightarrow> rbtree" where
  "set_right t a p = t\<lparr>nodes := (nodes t)(a := (nodes t a)\<lparr>right := p\<rparr>)\<rparr>"

definition is_blk_or_nil :: "rbtree \<Rightarrow> nat option \<Rightarrow> bool" where
  "is_blk_or_nil t p = (case p of None \<Rightarrow> True | Some a \<Rightarrow> color (nodes t a) = RBTREE_BLACK)"

definition is_red :: "rbtree \<Rightarrow> nat option \<Rightarrow> bool" where
  "is_red t p = (case p of None \<Rightarrow> False | Some a \<Rightarrow> color (nodes t a) = RBTREE_RED)"

definition get_sibling :: "rbtree \<Rightarrow> nat \<Rightarrow> nat option" where
  "get_sibling t a = (case parent (nodes t a) of None \<Rightarrow> None
     | Some p \<Rightarrow> if left (nodes t p) = Some a then right (nodes t p) else left (nodes t p))"

definition rbtree_init :: "rbtree \<Rightarrow> rbtree" where
  "rbtree_init t = t\<lparr>root := None, first := None\<rparr>"

definition rbtree_first :: "rbtree \<Rightarrow> nat option" where
  "rbtree_first t = first t"

partial_function (option) get_min_node :: "rbtree \<Rightarrow> nat \<Rightarrow> nat option" where
  "get_min_node t a = (case left (nodes t a) of None \<Rightarrow> Some a | Some b \<Rightarrow> get_min_node t b)"

partial_function (option) next_loop :: "rbtree \<Rightarrow> nat \<Rightarrow> nat option option" where
  "next_loop t a = (case parent (nodes t a) of None \<Rightarrow> Some None
     | Some p \<Rightarrow> if left (nodes t p) = Some a then Some (Some p) else next_loop t p)"

definition rbtree_next :: "rbtree \<Rightarrow> nat \<Rightarrow> nat option option" where
  "rbtree_next t a = (case right (nodes t a) of
     Some r \<Rightarrow> do { m \<leftarrow> get_min_node t r; Some (Some m) }
   | None \<Rightarrow> next_loop t a)"

text \<open>The pointer to \<open>node\<close> in its parent, or the root pointer, is redirected.\<close>

definition relink :: "rbtree \<Rightarrow> nat option \<Rightarrow> nat \<Rightarrow> nat option \<Rightarrow> rbtree" where
  "relink t par node q = (case par of
       None \<Rightarrow> t\<lparr>root := q\<rparr>
     | Some p \<Rightarrow> if left (nodes t p) = Some node then set_left t p q else set_right t p q)"

definition rotate_left :: "rbtree \<Rightarrow> nat \<Rightarrow> rbtree option" where
  "rotate_left t node = do {
     let par = parent (nodes t node);
     rgt \<leftarrow> right (nodes t node);
     let t = (case left (nodes t rgt) of None \<Rightarrow> t | Some x \<Rightarrow> set_parent t x (Some node));
     let t = set_right t node (left (nodes t rgt));
     let t = set_parent t node (Some rgt);
     let t = set_left t rgt (Some node);
     let t = set_parent t rgt par;
     Some (relink t par node (Some rgt))
   }"

definition rotate_right :: "rbtree \<Rightarrow> nat \<Rightarrow> rbtree option" where
  "rotate_right t node = do {
     let par = parent (nodes t node);
     lft \<leftarrow> left (nodes t node);
     let t = (case right (nodes t lft) of None \<Rightarrow> t | Some x \<Rightarrow> set_parent t x (Some node));
     let t = set_left t node (right (nodes t lft));
     let t = set_parent t node (Some lft);
     let t = set_right t lft (Some node);
     let t = set_parent t lft par;
     Some (relink t par node (Some lft))
   }"

text \<open>Cases 4 and 5 of \<^verbatim>\<open>insertion_balancing\<close>, below the recursive case.\<close>

definition insertion_rotate :: "rbtree \<Rightarrow> nat \<Rightarrow> nat \<Rightarrow> nat \<Rightarrow> rbtree option" where
  "insertion_rotate t node par grand = do {
     (rotated, t) \<leftarrow>
       (if right (nodes t par) = Some node \<and> left (nodes t grand) = Some par then do { t \<leftarrow> rotate_left t par; Some (True, t) }
        else if left (nodes t par) = Some node \<and> right (nodes t grand) = Some par then do { t \<leftarrow> rotate_right t par; Some (True, t) }
        else Some (False, t));
     (node, par, grand) \<leftarrow>
       (if rotated then do {
          par' \<leftarrow> parent (nodes t par);
          grand' \<leftarrow> parent (nodes t par');
          Some (par, par', grand')
        } else Some (node, par, grand));
     let t = set_color t par RBTREE_BLACK;
     let t = set_color t grand RBTREE_RED;
     if left (nodes t par) = Some node then rotate_right t grand else rotate_left t grand
   }"

partial_function (option) insertion_balancing :: "rbtree \<Rightarrow> nat \<Rightarrow> rbtree option" where
  "insertion_balancing t node =
     (case parent (nodes t node) of
        None \<Rightarrow> Some (set_color t node RBTREE_BLACK)
      | Some par \<Rightarrow>
          let t = set_color t node RBTREE_RED in
          if color (nodes t par) = RBTREE_BLACK then Some t
          else do {
            grand \<leftarrow> parent (nodes t par);
            let uncle = get_sibling t par;
            if is_red t uncle then
              (let t = set_color t par RBTREE_BLACK;
                   t = set_color t (the uncle) RBTREE_BLACK;
                   t = set_color t grand RBTREE_RED
               in insertion_balancing t grand)
            else insertion_rotate t node par grand
          })"

text \<open>The place a node is linked at: the root pointer or a child pointer of a node.\<close>

datatype link = RootLink | LeftLink nat | RightLink nat

definition rbtree_link_insert :: "rbtree \<Rightarrow> nat option \<Rightarrow> link \<Rightarrow> nat \<Rightarrow> rbtree option" where
  "rbtree_link_insert t par lnk node =
     (let t = (if first t = None \<or> lnk = LeftLink (the (first t)) then t\<lparr>first := Some node\<rparr> else t);
          t = set_parent t node par;
          t = set_right t node None;
          t = set_left t node None;
          t = (case lnk of RootLink \<Rightarrow> t\<lparr>root := Some node\<rparr> | LeftLink p \<Rightarrow> set_left t p (Some node) | RightLink p \<Rightarrow> set_right t p (Some node))
      in insertion_balancing t node)"

text \<open>Cases 4 to 6 of \<^verbatim>\<open>removal_balancing\<close>, below the recursive case.\<close>

definition sibling_rotation :: "rbtree \<Rightarrow> nat \<Rightarrow> nat \<Rightarrow> (rbtree \<times> nat) option" where
  "sibling_rotation t par sib =
     (if right (nodes t par) = Some sib \<and> is_red t (left (nodes t sib)) \<and> is_blk_or_nil t (right (nodes t sib)) then do {
        let t = set_color t sib RBTREE_RED;
        l \<leftarrow> left (nodes t sib);
        let t = set_color t l RBTREE_BLACK;
        t \<leftarrow> rotate_right t sib;
        sib' \<leftarrow> parent (nodes t sib);
        Some (t, sib')
      } else if left (nodes t par) = Some sib \<and> is_red t (right (nodes t sib)) \<and> is_blk_or_nil t (left (nodes t sib)) then do {
        let t = set_color t sib RBTREE_RED;
        r \<leftarrow> right (nodes t sib);
        let t = set_color t r RBTREE_BLACK;
        t \<leftarrow> rotate_left t sib;
        sib' \<leftarrow> parent (nodes t sib);
        Some (t, sib')
      } else Some (t, sib))"

definition parent_rotation :: "rbtree \<Rightarrow> nat \<Rightarrow> nat \<Rightarrow> rbtree option" where
  "parent_rotation t par sib = do {
     let t = set_color t sib (color (nodes t par));
     let t = set_color t par RBTREE_BLACK;
     if right (nodes t par) = Some sib then do {
       r \<leftarrow> right (nodes t sib);
       rotate_left (set_color t r RBTREE_BLACK) par
     } else do {
       l \<leftarrow> left (nodes t sib);
       rotate_right (set_color t l RBTREE_BLACK) par
     }
   }"

definition removal_rotate :: "rbtree \<Rightarrow> nat \<Rightarrow> nat \<Rightarrow> rbtree option" where
  "removal_rotate t par sib =
     (if color (nodes t par) = RBTREE_RED \<and> is_blk_or_nil t (left (nodes t sib)) \<and> is_blk_or_nil t (right (nodes t sib))
      then Some (set_color (set_color t sib RBTREE_RED) par RBTREE_BLACK)
      else do {
        (t, sib) \<leftarrow> sibling_rotation t par sib;
        parent_rotation t par sib
      })"

text \<open>Case 2: a red sibling becomes the parent of the parent.\<close>

definition red_sibling :: "rbtree \<Rightarrow> nat \<Rightarrow> nat \<Rightarrow> (rbtree \<times> nat) option" where
  "red_sibling t par sib = do {
     let t = set_color t sib RBTREE_BLACK;
     let t = set_color t par RBTREE_RED;
     if right (nodes t par) = Some sib then do {
       s' \<leftarrow> left (nodes t sib);
       t \<leftarrow> rotate_left t par;
       Some (t, s')
     } else do {
       s' \<leftarrow> right (nodes t sib);
       t \<leftarrow> rotate_right t par;
       Some (t, s')
     }
   }"

partial_function (option) removal_balancing :: "rbtree \<Rightarrow> nat option \<Rightarrow> rbtree option" where
  "removal_balancing t sibling =
     (case sibling of
        None \<Rightarrow> Some t
      | Some sib \<Rightarrow> do {
          par \<leftarrow> parent (nodes t sib);
          (t, sib) \<leftarrow> (if color (nodes t sib) = RBTREE_RED then red_sibling t par sib else Some (t, sib));
          if color (nodes t par) = RBTREE_BLACK \<and> is_blk_or_nil t (left (nodes t sib)) \<and> is_blk_or_nil t (right (nodes t sib))
          then (let t = set_color t sib RBTREE_RED in removal_balancing t (get_sibling t par))
          else removal_rotate t par sib
        })"

text \<open>The second half of \<^verbatim>\<open>rbtree_remove\<close>: the node has at most one child, which takes its place.\<close>

definition remove_single :: "rbtree \<Rightarrow> nat \<Rightarrow> rbtree option" where
  "remove_single t node =
     (let par = parent (nodes t node);
          child = (if left (nodes t node) \<noteq> None then left (nodes t node) else right (nodes t node));
          sibling = (case par of None \<Rightarrow> None
            | Some p \<Rightarrow> if left (nodes t p) = Some node then right (nodes t p) else left (nodes t p));
          t = relink t par node child
      in case child of
           Some c \<Rightarrow> Some (set_color (set_parent t c par) c RBTREE_BLACK)
         | None \<Rightarrow> if color (nodes t node) = RBTREE_RED then Some t else removal_balancing t sibling)"

text \<open>After its successor was taken out, a node with two children is replaced by it.\<close>

definition replace_node :: "rbtree \<Rightarrow> nat \<Rightarrow> nat \<Rightarrow> rbtree" where
  "replace_node t node successor =
     (let par = parent (nodes t node);
          t = (case par of None \<Rightarrow> t | Some p \<Rightarrow> relink t par node (Some successor));
          t = set_parent t successor par;
          t = set_left t successor (left (nodes t node));
          t = set_right t successor (right (nodes t node));
          t = set_color t successor (color (nodes t node));
          t = (case left (nodes t successor) of None \<Rightarrow> t | Some l \<Rightarrow> set_parent t l (Some successor));
          t = (case right (nodes t successor) of None \<Rightarrow> t | Some r \<Rightarrow> set_parent t r (Some successor))
      in if root t = Some node then t\<lparr>root := Some successor\<rparr> else t)"

partial_function (option) rbtree_remove :: "rbtree \<Rightarrow> nat \<Rightarrow> rbtree option" where
  "rbtree_remove t node = do {
     t \<leftarrow> (if first t = Some node then do { n \<leftarrow> rbtree_next t node; Some (t\<lparr>first := n\<rparr>) } else Some t);
     if left (nodes t node) \<noteq> None \<and> right (nodes t node) \<noteq> None then do {
       successor \<leftarrow> get_min_node t (the (right (nodes t node)));
       t \<leftarrow> rbtree_remove t successor;
       Some (replace_node t node successor)
     } else remove_single t node
   }"

text \<open>The insertion and search templates, for a comparison \<open>cmp\<close> of nodes and \<open>cmp_to\<close> of a node with a key.\<close>

partial_function (option) insert_loop :: "(nat \<Rightarrow> nat \<Rightarrow> int) \<Rightarrow> rbtree \<Rightarrow> nat option \<Rightarrow> nat option \<Rightarrow> link \<Rightarrow> nat \<Rightarrow> rbtree option" where
  "insert_loop cmp t cur par lnk node =
     (case cur of
        None \<Rightarrow> rbtree_link_insert t par lnk node
      | Some a \<Rightarrow>
          if cmp a node < 0 then insert_loop cmp t (right (nodes t a)) (Some a) (RightLink a) node
          else if cmp a node > 0 then insert_loop cmp t (left (nodes t a)) (Some a) (LeftLink a) node
          else Some t)"

definition rbtree_insert :: "(nat \<Rightarrow> nat \<Rightarrow> int) \<Rightarrow> rbtree \<Rightarrow> nat \<Rightarrow> rbtree option" where
  "rbtree_insert cmp t node = insert_loop cmp t (root t) None RootLink node"

record rbtree_find_result =
  lower :: "nat option"
  upper :: "nat option"

partial_function (option) find_loop :: "(nat \<Rightarrow> 'k \<Rightarrow> int) \<Rightarrow> rbtree \<Rightarrow> nat option \<Rightarrow> rbtree_find_result \<Rightarrow> 'k \<Rightarrow> rbtree_find_result option" where
  "find_loop cmp_to t cur result key =
     (case cur of
        None \<Rightarrow> Some result
      | Some a \<Rightarrow>
          if cmp_to a key < 0 then find_loop cmp_to t (right (nodes t a)) (result\<lparr>lower := Some a\<rparr>) key
          else if cmp_to a key > 0 then find_loop cmp_to t (left (nodes t a)) (result\<lparr>upper := Some a\<rparr>) key
          else Some \<lparr>lower = Some a, upper = Some a\<rparr>)"

definition rbtree_find :: "(nat \<Rightarrow> 'k \<Rightarrow> int) \<Rightarrow> rbtree \<Rightarrow> 'k \<Rightarrow> rbtree_find_result option" where
  "rbtree_find cmp_to t key = find_loop cmp_to t (root t) \<lparr>lower = None, upper = None\<rparr> key"

section \<open>Trees and contexts\<close>

datatype rbt = E | N rbtree_color rbt nat rbt

datatype frame = FL rbtree_color nat rbt | FR rbtree_color rbt nat

fun inorder :: "rbt \<Rightarrow> nat list" where
  "inorder E = []"
| "inorder (N c l a r) = inorder l @ a # inorder r"

fun ptr :: "rbt \<Rightarrow> nat option" where
  "ptr E = None"
| "ptr (N c l a r) = Some a"

fun plug :: "frame list \<Rightarrow> rbt \<Rightarrow> rbt" where
  "plug [] t = t"
| "plug (FL c a s # k) t = plug k (N c t a s)"
| "plug (FR c s a # k) t = plug k (N c s a t)"

fun cptr :: "frame list \<Rightarrow> nat option" where
  "cptr [] = None"
| "cptr (FL c a s # k) = Some a"
| "cptr (FR c s a # k) = Some a"

text \<open>The addresses to the left and to the right of the hole.\<close>

fun cl :: "frame list \<Rightarrow> nat list" where
  "cl [] = []"
| "cl (FL c a s # k) = cl k"
| "cl (FR c s a # k) = cl k @ inorder s @ [a]"

fun cr :: "frame list \<Rightarrow> nat list" where
  "cr [] = []"
| "cr (FL c a s # k) = a # inorder s @ cr k"
| "cr (FR c s a # k) = cr k"

lemma inorder_plug: "inorder (plug k t) = cl k @ inorder t @ cr k"
  by (induction k t rule: plug.induct) auto

text \<open>The store holds a tree below a parent pointer, or a context around a pointer.\<close>

fun rep :: "(nat \<Rightarrow> rbtree_node) \<Rightarrow> nat option \<Rightarrow> rbt \<Rightarrow> bool" where
  "rep h par E \<longleftrightarrow> True"
| "rep h par (N c l a r) \<longleftrightarrow> h a = \<lparr>color = c, parent = par, left = ptr l, right = ptr r\<rparr> \<and> rep h (Some a) l \<and> rep h (Some a) r"

fun repc :: "(nat \<Rightarrow> rbtree_node) \<Rightarrow> nat option \<Rightarrow> frame list \<Rightarrow> nat option \<Rightarrow> bool" where
  "repc h rt [] p \<longleftrightarrow> rt = p"
| "repc h rt (FL c a s # k) p \<longleftrightarrow> h a = \<lparr>color = c, parent = cptr k, left = p, right = ptr s\<rparr> \<and> rep h (Some a) s \<and> repc h rt k (Some a)"
| "repc h rt (FR c s a # k) p \<longleftrightarrow> h a = \<lparr>color = c, parent = cptr k, left = ptr s, right = p\<rparr> \<and> rep h (Some a) s \<and> repc h rt k (Some a)"

definition zrep :: "rbtree \<Rightarrow> frame list \<Rightarrow> rbt \<Rightarrow> bool" where
  "zrep st k t \<longleftrightarrow> rep (nodes st) (cptr k) t \<and> repc (nodes st) (root st) k (ptr t) \<and> distinct (cl k @ inorder t @ cr k)"

lemma rep_upd [simp]: "a \<notin> set (inorder t) \<Longrightarrow> rep (h(a := n)) par t = rep h par t"
  by (induction t arbitrary: par) auto

lemma repc_upd [simp]: "a \<notin> set (cl k) \<Longrightarrow> a \<notin> set (cr k) \<Longrightarrow> repc (h(a := n)) rt k p = repc h rt k p"
  by (induction k arbitrary: p rule: cl.induct) auto

text \<open>The focus can be moved along the tree.\<close>

lemma zrep_FL: "zrep st (FL c a s # k) t \<longleftrightarrow> zrep st k (N c t a s)"
  by (auto simp: zrep_def)

lemma zrep_FR: "zrep st (FR c s a # k) t \<longleftrightarrow> zrep st k (N c s a t)"
  by (auto simp: zrep_def)

lemmas zrep_move = zrep_FL zrep_FR

lemma zrep_plug: "zrep st k t \<longleftrightarrow> zrep st [] (plug k t)"
  by (induction k t rule: plug.induct) (simp_all add: zrep_move)

text \<open>What an operation leaves alone: the pointer to the first node and every node of other trees.\<close>

definition keeps :: "nat set \<Rightarrow> rbtree \<Rightarrow> rbtree \<Rightarrow> bool" where
  "keeps A st st' \<longleftrightarrow> first st' = first st \<and> (\<forall>x. x \<notin> A \<longrightarrow> nodes st' x = nodes st x)"

lemma keeps_refl [simp]: "keeps A st st"
  by (simp add: keeps_def)

lemma keeps_trans: "keeps A st st1 \<Longrightarrow> keeps A st1 st2 \<Longrightarrow> keeps A st st2"
  by (simp add: keeps_def)

abbreviation zset :: "frame list \<Rightarrow> rbt \<Rightarrow> nat set" where
  "zset k t \<equiv> set (inorder (plug k t))"

lemmas setters = set_color_def set_parent_def set_left_def set_right_def

lemma zrep_color:
  assumes "zrep st k (N c l a r)"
  shows "zrep (set_color st a c') k (N c' l a r)" "keeps (zset k (N c l a r)) st (set_color st a c')"
  using assms by (auto simp: zrep_def set_color_def keeps_def inorder_plug)

lemma zrep_node:
  assumes "zrep st k (N c l a r)"
  shows "nodes st a = \<lparr>color = c, parent = cptr k, left = ptr l, right = ptr r\<rparr>"
  using assms by (simp add: zrep_def)

lemma rep_cong: "(\<And>x. x \<in> set (inorder t) \<Longrightarrow> h' x = h x) \<Longrightarrow> rep h' par t = rep h par t"
  by (induction t arbitrary: par) auto

lemma repc_cong: "(\<And>x. x \<in> set (cl k) \<union> set (cr k) \<Longrightarrow> h' x = h x) \<Longrightarrow> repc h' rt k p = repc h rt k p"
proof (induction k arbitrary: p rule: cl.induct)
  case (2 c a s k)
  moreover have "repc h' rt k (Some a) = repc h rt k (Some a)" using 2(2) by (intro 2(1)) auto
  ultimately show ?case using rep_cong [of s h' h] by simp
next
  case (3 c s a k)
  moreover have "repc h' rt k (Some a) = repc h rt k (Some a)" using 3(2) by (intro 3(1)) auto
  ultimately show ?case using rep_cong [of s h' h] by simp
qed simp

definition reparent :: "(nat \<Rightarrow> rbtree_node) \<Rightarrow> nat option \<Rightarrow> nat option \<Rightarrow> nat \<Rightarrow> rbtree_node" where
  "reparent h p par = (case p of None \<Rightarrow> h | Some x \<Rightarrow> h(x := (h x)\<lparr>parent := par\<rparr>))"

lemma reparent_other: "Some x \<noteq> p \<Longrightarrow> reparent h p par x = h x"
  by (auto simp: reparent_def split: option.split)

lemma ptr_in: "ptr t = Some x \<Longrightarrow> x \<in> set (inorder t)"
  by (cases t) auto

lemma rep_reparent: "rep h par t \<Longrightarrow> distinct (inorder t) \<Longrightarrow> rep (reparent h (ptr t) par') par' t"
  by (cases t) (auto simp: reparent_def)

lemma cptr_in: "cptr k = Some p \<Longrightarrow> p \<in> set (cl k) \<union> set (cr k)"
  by (cases k rule: cptr.cases) auto

lemma relink_ok:
  assumes "repc (nodes st) (root st) k (Some a)" "distinct (cl k @ cr k)" "a \<notin> set (cl k)"
  shows "repc (nodes (relink st (cptr k) a q)) (root (relink st (cptr k) a q)) k q" "first (relink st (cptr k) a q) = first st"
    "Some x \<noteq> cptr k \<Longrightarrow> nodes (relink st (cptr k) a q) x = nodes st x"
proof -
  have "ptr s \<noteq> Some a" if "set (inorder s) \<subseteq> set (cl k)" for s using that assms(3) ptr_in by blast
  then show "repc (nodes (relink st (cptr k) a q)) (root (relink st (cptr k) a q)) k q"
    using assms by (cases k rule: cptr.cases) (auto simp: relink_def setters)
qed (auto simp: relink_def setters split: option.split)

text \<open>
  A store that was changed only inside a subtree, at the pointer to it and at the pointers back to
  it, is given by the new subtree and the same context.
\<close>

lemma zrep_replace_gen:
  assumes "zrep st k t" "ptr t = Some a" "rep h (cptr k) t'" "set (inorder t') \<inter> set (cl k @ cr k) = {}" "distinct (inorder t')"
    "\<And>x. x \<in> set (cl k @ cr k) \<Longrightarrow> h x = nodes st x" "\<And>x. x \<notin> A \<Longrightarrow> h x = nodes st x" "zset k t \<subseteq> A"
  shows "zrep (relink (st\<lparr>nodes := h\<rparr>) (cptr k) a (ptr t')) k t'" "keeps A st (relink (st\<lparr>nodes := h\<rparr>) (cptr k) a (ptr t'))"
proof -
  let ?st = "st\<lparr>nodes := h\<rparr>" and ?st' = "relink (st\<lparr>nodes := h\<rparr>) (cptr k) a (ptr t')"
  have d: "distinct (cl k @ inorder t @ cr k)" and rc: "repc (nodes st) (root st) k (Some a)" using assms(1,2) by (simp_all add: zrep_def)
  have a: "a \<in> set (inorder t)" using ptr_in assms(2) by blast
  have "repc h (root st) k (Some a) = repc (nodes st) (root st) k (Some a)" using assms(6) by (intro repc_cong) auto
  then have rc': "repc (nodes ?st) (root ?st) k (Some a)" using rc by simp
  have "distinct (cl k @ cr k)" "a \<notin> set (cl k)" using d a by auto
  note rl = relink_ok [OF rc' this, where q = "ptr t'"]
  have other: "nodes ?st' x = h x" if "x \<in> set (inorder t')" for x
  proof -
    have "x \<notin> set (cl k) \<union> set (cr k)" using that assms(4) by auto
    then have "Some x \<noteq> cptr k" using cptr_in [of k x] by metis
    then show ?thesis using rl(3) by simp
  qed
  have "rep (nodes ?st') (cptr k) t'" using rep_cong [of t' "nodes ?st'" h] other assms(3) by simp
  moreover have "repc (nodes ?st') (root ?st') k (ptr t')" using rl(1) .
  moreover have "distinct (cl k @ inorder t' @ cr k)" using d assms(4,5) by auto
  ultimately show "zrep ?st' k t'" by (simp add: zrep_def)
  have "nodes ?st' x = nodes st x" if "x \<notin> A" for x
  proof -
    have "x \<notin> set (cl k) \<union> set (cr k)" using that assms(8) by (auto simp: inorder_plug)
    then have "Some x \<noteq> cptr k" using cptr_in [of k x] by metis
    then show ?thesis using rl(3) assms(7) that by simp
  qed
  then show "keeps A st ?st'" using rl(2) by (simp add: keeps_def)
qed

lemma zrep_replace:
  assumes "zrep st k t" "ptr t = Some a" "rep h (cptr k) t'" "set (inorder t') \<subseteq> set (inorder t)" "distinct (inorder t')"
    "\<And>x. x \<notin> set (inorder t) \<Longrightarrow> h x = nodes st x"
  shows "zrep (relink (st\<lparr>nodes := h\<rparr>) (cptr k) a (ptr t')) k t'" "keeps (zset k t) st (relink (st\<lparr>nodes := h\<rparr>) (cptr k) a (ptr t'))"
proof -
  have d: "distinct (cl k @ inorder t @ cr k)" using assms(1) by (simp add: zrep_def)
  then have disj: "set (inorder t') \<inter> set (cl k @ cr k) = {}" using assms(4) by auto
  have ctx: "h x = nodes st x" if "x \<in> set (cl k @ cr k)" for x using d that by (intro assms(6)) auto
  have out: "h x = nodes st x" if "x \<notin> zset k t" for x using that by (intro assms(6)) (simp add: inorder_plug)
  show "zrep (relink (st\<lparr>nodes := h\<rparr>) (cptr k) a (ptr t')) k t'" "keeps (zset k t) st (relink (st\<lparr>nodes := h\<rparr>) (cptr k) a (ptr t'))"
    using zrep_replace_gen [where A = "zset k t", OF assms(1-3) disj assms(5) ctx out subset_refl] by simp_all
qed

lemma rotate_left_ok:
  assumes "zrep st k (N c l a (N c2 rl b rr))"
  shows "\<exists>st'. rotate_left st a = Some st' \<and> zrep st' k (N c2 (N c l a rl) b rr) \<and> keeps (zset k (N c l a (N c2 rl b rr))) st st'"
proof -
  let ?t = "N c l a (N c2 rl b rr)" and ?t' = "N c2 (N c l a rl) b rr"
  let ?h = "(reparent (nodes st) (ptr rl) (Some a))(a := \<lparr>color = c, parent = Some b, left = ptr l, right = ptr rl\<rparr>,
    b := \<lparr>color = c2, parent = cptr k, left = Some a, right = ptr rr\<rparr>)"
  have d: "distinct (inorder ?t)" and r: "rep (nodes st) (cptr k) ?t" using assms by (auto simp: zrep_def)
  have rlp: "ptr rl \<noteq> Some x" if "x \<notin> set (inorder rl)" for x using ptr_in that by blast
  have "rotate_left st a = Some (relink (st\<lparr>nodes := ?h\<rparr>) (cptr k) a (Some b))"
    using d r rlp [of a] rlp [of b] by (cases "ptr rl") (auto simp: rotate_left_def setters reparent_def Let_def fun_upd_twist)
  moreover have "rep ?h (cptr k) ?t'"
  proof -
    have "rep ?h (Some a) rl = rep (reparent (nodes st) (ptr rl) (Some a)) (Some a) rl" using d by (intro rep_cong) auto
    moreover have "rep ?h (Some a) l = rep (nodes st) (Some a) l" using d ptr_in [of rl] by (intro rep_cong) (auto simp: reparent_def split: option.split)
    moreover have "rep ?h (Some b) rr = rep (nodes st) (Some b) rr" using d ptr_in [of rl] by (intro rep_cong) (auto simp: reparent_def split: option.split)
    ultimately show ?thesis using r d rep_reparent [of "nodes st" "Some b" rl "Some a"] by auto
  qed
  moreover have "?h x = nodes st x" if "x \<notin> set (inorder ?t)" for x using that rlp [of x] by (auto simp: reparent_other)
  moreover have "distinct (inorder ?t')" using d by auto
  ultimately show ?thesis using zrep_replace [OF assms, of a ?h ?t'] by auto
qed

lemma rotate_right_ok:
  assumes "zrep st k (N c (N c2 ll b lr) a r)"
  shows "\<exists>st'. rotate_right st a = Some st' \<and> zrep st' k (N c2 ll b (N c lr a r)) \<and> keeps (zset k (N c (N c2 ll b lr) a r)) st st'"
proof -
  let ?t = "N c (N c2 ll b lr) a r" and ?t' = "N c2 ll b (N c lr a r)"
  let ?h = "(reparent (nodes st) (ptr lr) (Some a))(a := \<lparr>color = c, parent = Some b, left = ptr lr, right = ptr r\<rparr>,
    b := \<lparr>color = c2, parent = cptr k, left = ptr ll, right = Some a\<rparr>)"
  have d: "distinct (inorder ?t)" and rp: "rep (nodes st) (cptr k) ?t" using assms by (auto simp: zrep_def)
  have lrp: "ptr lr \<noteq> Some x" if "x \<notin> set (inorder lr)" for x using ptr_in that by blast
  have "rotate_right st a = Some (relink (st\<lparr>nodes := ?h\<rparr>) (cptr k) a (Some b))"
    using d rp lrp [of a] lrp [of b] by (cases "ptr lr") (auto simp: rotate_right_def setters reparent_def Let_def fun_upd_twist)
  moreover have "rep ?h (cptr k) ?t'"
  proof -
    have "rep ?h (Some a) lr = rep (reparent (nodes st) (ptr lr) (Some a)) (Some a) lr" using d by (intro rep_cong) auto
    moreover have "rep ?h (Some b) ll = rep (nodes st) (Some b) ll" using d ptr_in [of lr] by (intro rep_cong) (auto simp: reparent_def split: option.split)
    moreover have "rep ?h (Some a) r = rep (nodes st) (Some a) r" using d ptr_in [of lr] by (intro rep_cong) (auto simp: reparent_def split: option.split)
    ultimately show ?thesis using rp d rep_reparent [of "nodes st" "Some b" lr "Some a"] by auto
  qed
  moreover have "?h x = nodes st x" if "x \<notin> set (inorder ?t)" for x using that lrp [of x] by (auto simp: reparent_other)
  moreover have "distinct (inorder ?t')" using d by auto
  ultimately show ?thesis using zrep_replace [OF assms, of a ?h ?t'] by auto
qed

section \<open>Order\<close>

lemma get_min_node_ok: "rep (nodes st) par (N c l a r) \<Longrightarrow> get_min_node st a = Some (hd (inorder (N c l a r)))"
proof (induction l arbitrary: par c a r)
  case E
  then show ?case by (subst get_min_node.simps) simp
next
  case (N c' l' b r')
  then have "get_min_node st b = Some (hd (inorder (N c' l' b r')))" by (intro N.IH(1) [of "Some a"]) simp
  then show ?case using N.prems by (subst get_min_node.simps) (cases "inorder l'"; simp)
qed

definition hd_opt :: "'a list \<Rightarrow> 'a option" where
  "hd_opt xs = (case xs of [] \<Rightarrow> None | x # _ \<Rightarrow> Some x)"

lemma hd_opt_simps [simp]: "hd_opt [] = None" "hd_opt (x # xs) = Some x"
  by (simp_all add: hd_opt_def)

lemma next_loop_ok: "zrep st k t \<Longrightarrow> ptr t = Some a \<Longrightarrow> next_loop st a = Some (hd_opt (cr k))"
proof (induction k arbitrary: t a rule: cl.induct)
  case 1
  then obtain c l r where "t = N c l a r" by (cases t) auto
  then show ?case using zrep_node 1(1) by (subst next_loop.simps) fastforce
next
  case (2 c b s k)
  then obtain c' l r where t: "t = N c' l a r" by (cases t) auto
  have "nodes st a = \<lparr>color = c', parent = Some b, left = ptr l, right = ptr r\<rparr>" "left (nodes st b) = Some a"
    using 2(2) t by (auto simp: zrep_def)
  then show ?case by (subst next_loop.simps) simp
next
  case (3 c s b k)
  then obtain c' l r where t: "t = N c' l a r" by (cases t) auto
  have n: "nodes st a = \<lparr>color = c', parent = Some b, left = ptr l, right = ptr r\<rparr>" "left (nodes st b) = ptr s" "a \<notin> set (inorder s)"
    using 3(2) t by (auto simp: zrep_def)
  have "next_loop st b = Some (hd_opt (cr k))" using 3(2) by (intro 3(1) [of "N c s b t"]) (simp_all add: zrep_move)
  then show ?case using n ptr_in [of s a] by (subst next_loop.simps) auto
qed

lemma rbtree_next_ok:
  assumes "zrep st k (N c l a r)"
  shows "rbtree_next st a = Some (hd_opt (inorder r @ cr k))"
proof (cases r)
  case E
  then show ?thesis using next_loop_ok [OF assms] zrep_node [OF assms] by (simp add: rbtree_next_def)
next
  case (N c' l' b r')
  have "rep (nodes st) (Some a) r" using assms by (simp add: zrep_def)
  then have "get_min_node st b = Some (hd (inorder r))" using get_min_node_ok N by blast
  moreover have "hd_opt (inorder r @ cr k) = Some (hd (inorder r))" using N by (cases "inorder l'") simp_all
  ultimately show ?thesis using zrep_node [OF assms] N by (simp add: rbtree_next_def)
qed

section \<open>Balance\<close>

fun col :: "rbt \<Rightarrow> rbtree_color" where
  "col E = RBTREE_BLACK"
| "col (N c l a r) = c"

fun bh :: "rbt \<Rightarrow> nat" where
  "bh E = 0"
| "bh (N c l a r) = bh l + (if c = RBTREE_BLACK then 1 else 0)"

fun invc :: "rbt \<Rightarrow> bool" where
  "invc E \<longleftrightarrow> True"
| "invc (N c l a r) \<longleftrightarrow> invc l \<and> invc r \<and> (c = RBTREE_RED \<longrightarrow> col l = RBTREE_BLACK \<and> col r = RBTREE_BLACK)"

fun invh :: "rbt \<Rightarrow> bool" where
  "invh E \<longleftrightarrow> True"
| "invh (N c l a r) \<longleftrightarrow> invh l \<and> invh r \<and> bh l = bh r"

definition rb :: "rbt \<Rightarrow> bool" where
  "rb t \<longleftrightarrow> invc t \<and> invh t \<and> col t = RBTREE_BLACK"

text \<open>Contexts whose hole takes a subtree of black height \<open>n\<close>; the empty context takes no red root.\<close>

fun ccol :: "frame list \<Rightarrow> rbtree_color" where
  "ccol [] = RBTREE_RED"
| "ccol (FL c a s # k) = c"
| "ccol (FR c s a # k) = c"

fun cok :: "nat \<Rightarrow> frame list \<Rightarrow> bool" where
  "cok n [] \<longleftrightarrow> True"
| "cok n (FL c a s # k) \<longleftrightarrow> invc s \<and> invh s \<and> bh s = n \<and> (c = RBTREE_RED \<longrightarrow> col s = RBTREE_BLACK \<and> ccol k = RBTREE_BLACK) \<and>
     cok (if c = RBTREE_BLACK then n + 1 else n) k"
| "cok n (FR c s a # k) \<longleftrightarrow> invc s \<and> invh s \<and> bh s = n \<and> (c = RBTREE_RED \<longrightarrow> col s = RBTREE_BLACK \<and> ccol k = RBTREE_BLACK) \<and>
     cok (if c = RBTREE_BLACK then n + 1 else n) k"

lemma not_red [simp]: "c \<noteq> RBTREE_RED \<longleftrightarrow> c = RBTREE_BLACK"
  by (cases c) simp_all

lemma rb_plug: "rb (plug k t) \<longleftrightarrow> cok (bh t) k \<and> invc t \<and> invh t \<and> (col t = RBTREE_RED \<longrightarrow> ccol k = RBTREE_BLACK)"
proof (induction k t rule: plug.induct)
  case (1 t)
  then show ?case by (cases "col t") (auto simp: rb_def)
qed (auto split: if_splits)

lemma keeps_color: "a \<in> A \<Longrightarrow> keeps A st (set_color st a c)"
  by (auto simp: keeps_def set_color_def)

lemma keeps_mono: "keeps A st st' \<Longrightarrow> A \<subseteq> B \<Longrightarrow> keeps B st st'"
  by (auto simp: keeps_def)

lemma get_sibling_ok:
  "zrep st (FL c p s # k) t \<Longrightarrow> ptr t = Some a \<Longrightarrow> get_sibling st a = ptr s"
  "zrep st (FR c s p # k) t \<Longrightarrow> ptr t = Some a \<Longrightarrow> get_sibling st a = ptr s"
  "zrep st [] t \<Longrightarrow> ptr t = Some a \<Longrightarrow> get_sibling st a = None"
  using ptr_in [of s a] by (cases t; auto simp: get_sibling_def zrep_def)+

lemma is_red_ok: "rep (nodes st) par t \<Longrightarrow> is_red st (ptr t) \<longleftrightarrow> col t = RBTREE_RED"
  "rep (nodes st) par t \<Longrightarrow> is_blk_or_nil st (ptr t) \<longleftrightarrow> col t = RBTREE_BLACK"
  by (cases t; simp add: is_red_def is_blk_or_nil_def)+

subsection \<open>Insertion\<close>

lemma insertion_rotate_LL:
  assumes "zrep st k (N cg (N cp (N ca l a r) p s) g u)"
  shows "\<exists>st'. insertion_rotate st a p g = Some st' \<and> zrep st' k (N RBTREE_BLACK (N ca l a r) p (N RBTREE_RED s g u)) \<and>
    keeps (zset k (N cg (N cp (N ca l a r) p s) g u)) st st'"
proof -
  let ?A = "zset k (N cg (N cp (N ca l a r) p s) g u)"
  have in_A: "p \<in> ?A" "g \<in> ?A" by (simp_all add: inorder_plug)
  have n: "nodes st p = \<lparr>color = cp, parent = Some g, left = Some a, right = ptr s\<rparr>" "nodes st g = \<lparr>color = cg, parent = cptr k, left = Some p, right = ptr u\<rparr>"
    "ptr s \<noteq> Some a" "ptr u \<noteq> Some p" "p \<noteq> g"
    using assms ptr_in [of s a] ptr_in [of u p] by (auto simp: zrep_def)
  let ?st1 = "set_color st p RBTREE_BLACK" let ?st2 = "set_color ?st1 g RBTREE_RED"
  have "zrep ?st1 (FL cg g u # k) (N RBTREE_BLACK (N ca l a r) p s)" using assms by (intro zrep_color(1) [where c = cp]) (simp add: zrep_move)
  then have z2: "zrep ?st2 k (N RBTREE_RED (N RBTREE_BLACK (N ca l a r) p s) g u)" by (intro zrep_color(1) [where c = cg]) (simp add: zrep_move)
  obtain st' where st': "rotate_right ?st2 g = Some st'" "zrep st' k (N RBTREE_BLACK (N ca l a r) p (N RBTREE_RED s g u))"
      "keeps (zset k (N RBTREE_RED (N RBTREE_BLACK (N ca l a r) p s) g u)) ?st2 st'"
    using rotate_right_ok [OF z2] by blast
  have "insertion_rotate st a p g = rotate_right ?st2 g" using n by (simp add: insertion_rotate_def set_color_def Let_def)
  moreover have "keeps ?A st st'" using keeps_trans [OF keeps_trans [OF keeps_color [OF in_A(1)] keeps_color [OF in_A(2)]]] st'(3) by (simp add: inorder_plug)
  ultimately show ?thesis using st' by auto
qed

lemma insertion_rotate_RR:
  assumes "zrep st k (N cg u g (N cp s p (N ca l a r)))"
  shows "\<exists>st'. insertion_rotate st a p g = Some st' \<and> zrep st' k (N RBTREE_BLACK (N RBTREE_RED u g s) p (N ca l a r)) \<and>
    keeps (zset k (N cg u g (N cp s p (N ca l a r)))) st st'"
proof -
  let ?A = "zset k (N cg u g (N cp s p (N ca l a r)))"
  have in_A: "p \<in> ?A" "g \<in> ?A" by (simp_all add: inorder_plug)
  have n: "nodes st p = \<lparr>color = cp, parent = Some g, left = ptr s, right = Some a\<rparr>" "nodes st g = \<lparr>color = cg, parent = cptr k, left = ptr u, right = Some p\<rparr>"
    "ptr s \<noteq> Some a" "ptr u \<noteq> Some p" "p \<noteq> g"
    using assms ptr_in [of s a] ptr_in [of u p] by (auto simp: zrep_def)
  let ?st1 = "set_color st p RBTREE_BLACK" let ?st2 = "set_color ?st1 g RBTREE_RED"
  have "zrep ?st1 (FR cg u g # k) (N RBTREE_BLACK s p (N ca l a r))" using assms by (intro zrep_color(1) [where c = cp]) (simp add: zrep_move)
  then have z2: "zrep ?st2 k (N RBTREE_RED u g (N RBTREE_BLACK s p (N ca l a r)))" by (intro zrep_color(1) [where c = cg]) (simp add: zrep_move)
  obtain st' where st': "rotate_left ?st2 g = Some st'" "zrep st' k (N RBTREE_BLACK (N RBTREE_RED u g s) p (N ca l a r))"
      "keeps (zset k (N RBTREE_RED u g (N RBTREE_BLACK s p (N ca l a r)))) ?st2 st'"
    using rotate_left_ok [OF z2] by blast
  have "insertion_rotate st a p g = rotate_left ?st2 g" using n by (simp add: insertion_rotate_def set_color_def Let_def)
  moreover have "keeps ?A st st'" using keeps_trans [OF keeps_trans [OF keeps_color [OF in_A(1)] keeps_color [OF in_A(2)]]] st'(3) by (simp add: inorder_plug)
  ultimately show ?thesis using st' by auto
qed

text \<open>The inner cases rotate the node above its parent first; then the parent takes the role of the node.\<close>

lemma insertion_rotate_LR:
  assumes "zrep st k (N cg (N cp s p (N ca l a r)) g u)"
  shows "\<exists>st'. insertion_rotate st a p g = Some st' \<and> zrep st' k (N RBTREE_BLACK (N cp s p l) a (N RBTREE_RED r g u)) \<and>
    keeps (zset k (N cg (N cp s p (N ca l a r)) g u)) st st'"
proof -
  let ?A = "zset k (N cg (N cp s p (N ca l a r)) g u)"
  have n: "right (nodes st p) = Some a" "left (nodes st g) = Some p" using assms by (simp_all add: zrep_def)
  have "zrep st (FL cg g u # k) (N cp s p (N ca l a r))" using assms by (simp add: zrep_move)
  then obtain st1 where st1: "rotate_left st p = Some st1" "zrep st1 (FL cg g u # k) (N ca (N cp s p l) a r)" "keeps ?A st st1"
    using rotate_left_ok by fastforce
  then have z1: "zrep st1 k (N cg (N ca (N cp s p l) a r) g u)" by (simp add: zrep_move)
  have m: "parent (nodes st1 p) = Some a" "parent (nodes st1 a) = Some g" "right (nodes st1 a) = ptr r" "left (nodes st1 a) = Some p"
    "left (nodes st1 g) = Some a" "right (nodes st1 g) = ptr u" "ptr r \<noteq> Some p" "ptr u \<noteq> Some a"
    using z1 ptr_in [of r p] ptr_in [of u a] by (auto simp: zrep_def)
  obtain st' where st': "insertion_rotate st1 p a g = Some st'" "zrep st' k (N RBTREE_BLACK (N cp s p l) a (N RBTREE_RED r g u))"
      "keeps (zset k (N cg (N ca (N cp s p l) a r) g u)) st1 st'"
    using insertion_rotate_LL [OF z1] by blast
  have "insertion_rotate st a p g = insertion_rotate st1 p a g" using n st1(1) m by (simp add: insertion_rotate_def)
  moreover have "keeps ?A st st'" using keeps_trans [OF st1(3)] st'(3) by (simp add: inorder_plug)
  ultimately show ?thesis using st' by auto
qed

lemma insertion_rotate_RL:
  assumes "zrep st k (N cg u g (N cp (N ca l a r) p s))"
  shows "\<exists>st'. insertion_rotate st a p g = Some st' \<and> zrep st' k (N RBTREE_BLACK (N RBTREE_RED u g l) a (N cp r p s)) \<and>
    keeps (zset k (N cg u g (N cp (N ca l a r) p s))) st st'"
proof -
  let ?A = "zset k (N cg u g (N cp (N ca l a r) p s))"
  have n: "left (nodes st p) = Some a" "right (nodes st g) = Some p" "right (nodes st p) \<noteq> Some a"
    using assms ptr_in [of s a] by (auto simp: zrep_def)
  have "zrep st (FR cg u g # k) (N cp (N ca l a r) p s)" using assms by (simp add: zrep_move)
  then obtain st1 where st1: "rotate_right st p = Some st1" "zrep st1 (FR cg u g # k) (N ca l a (N cp r p s))" "keeps ?A st st1"
    using rotate_right_ok by fastforce
  then have z1: "zrep st1 k (N cg u g (N ca l a (N cp r p s)))" by (simp add: zrep_move)
  have m: "parent (nodes st1 p) = Some a" "parent (nodes st1 a) = Some g" "left (nodes st1 a) = ptr l" "right (nodes st1 a) = Some p"
    "right (nodes st1 g) = Some a" "left (nodes st1 g) = ptr u" "ptr l \<noteq> Some p" "ptr u \<noteq> Some a"
    using z1 ptr_in [of l p] ptr_in [of u a] by (auto simp: zrep_def)
  obtain st' where st': "insertion_rotate st1 p a g = Some st'" "zrep st' k (N RBTREE_BLACK (N RBTREE_RED u g l) a (N cp r p s))"
      "keeps (zset k (N cg u g (N ca l a (N cp r p s)))) st1 st'"
    using insertion_rotate_RR [OF z1] by blast
  have "insertion_rotate st a p g = insertion_rotate st1 p a g" using n st1(1) m by (simp add: insertion_rotate_def)
  moreover have "keeps ?A st st'" using keeps_trans [OF st1(3)] st'(3) by (simp add: inorder_plug)
  ultimately show ?thesis using st' by auto
qed

lemma parent_node:
  assumes "zrep st k t" "cptr k = Some p"
  shows "color (nodes st p) = ccol k" "parent (nodes st p) = cptr (tl k)"
  using assms by (cases k rule: cptr.cases; auto simp: zrep_def)+

text \<open>Case 3: parent and uncle turn black, the grandparent red.\<close>

lemma recolor_grand:
  assumes "zrep st (g # k) (N cp x p y)" "g = FL cg q (N cu ul ub ur) \<or> g = FR cg (N cu ul ub ur) q"
  shows "\<exists>A B. zrep (set_color (set_color (set_color st p RBTREE_BLACK) ub RBTREE_BLACK) q RBTREE_RED) k (N RBTREE_RED A q B) \<and>
    {A, B} = {N RBTREE_BLACK x p y, N RBTREE_BLACK ul ub ur} \<and> inorder (plug k (N RBTREE_RED A q B)) = inorder (plug (g # k) (N cp x p y))"
  using assms(2)
proof
  assume g: "g = FL cg q (N cu ul ub ur)"
  have "zrep (set_color st p RBTREE_BLACK) (g # k) (N RBTREE_BLACK x p y)" using assms(1) by (rule zrep_color(1))
  then have "zrep (set_color st p RBTREE_BLACK) (FR cg (N RBTREE_BLACK x p y) q # k) (N cu ul ub ur)" by (simp add: g zrep_move)
  from zrep_color(1) [OF this, of RBTREE_BLACK] have "zrep (set_color (set_color st p RBTREE_BLACK) ub RBTREE_BLACK) k (N cg (N RBTREE_BLACK x p y) q (N RBTREE_BLACK ul ub ur))"
    by (simp add: zrep_move)
  from zrep_color(1) [OF this, of RBTREE_RED] show ?thesis
    by (intro exI [of _ "N RBTREE_BLACK x p y"] exI [of _ "N RBTREE_BLACK ul ub ur"]) (simp add: g inorder_plug)
next
  assume g: "g = FR cg (N cu ul ub ur) q"
  have "zrep (set_color st p RBTREE_BLACK) (g # k) (N RBTREE_BLACK x p y)" using assms(1) by (rule zrep_color(1))
  then have "zrep (set_color st p RBTREE_BLACK) (FL cg q (N RBTREE_BLACK x p y) # k) (N cu ul ub ur)" by (simp add: g zrep_move)
  from zrep_color(1) [OF this, of RBTREE_BLACK] have "zrep (set_color (set_color st p RBTREE_BLACK) ub RBTREE_BLACK) k (N cg (N RBTREE_BLACK ul ub ur) q (N RBTREE_BLACK x p y))"
    by (simp add: zrep_move)
  from zrep_color(1) [OF this, of RBTREE_RED] show ?thesis
    by (intro exI [of _ "N RBTREE_BLACK ul ub ur"] exI [of _ "N RBTREE_BLACK x p y"]) (simp add: g inorder_plug insert_commute)
qed

fun sib :: "frame \<Rightarrow> rbt" where
  "sib (FL c a s) = s"
| "sib (FR c s a) = s"

fun join :: "frame \<Rightarrow> rbt \<Rightarrow> rbt" where
  "join (FL c a s) t = N c t a s"
| "join (FR c s a) t = N c s a t"

lemma plug_join: "plug (f # k) t = plug k (join f t)" "zrep st (f # k) t = zrep st k (join f t)"
  by (cases f; simp add: zrep_move)+

lemma inorder_join: "inorder (join f (N c l a r)) = inorder (join f (N c' l a r))"
  by (cases f) simp_all

text \<open>Cases 4 and 5, for the four positions of the node below its grandparent.\<close>

lemma insertion_rotate_ok:
  assumes "zrep st (f # g # k) (N RBTREE_RED l a r)" "cptr (f # g # k) = Some p" "cptr (g # k) = Some q"
    "cok (bh l) (f # g # k)" "ccol (f # g # k) = RBTREE_RED" "col (sib g) = RBTREE_BLACK" "invc (N RBTREE_RED l a r)" "invh (N RBTREE_RED l a r)"
  shows "\<exists>st' T. insertion_rotate st a p q = Some st' \<and> zrep st' k T \<and> rb (plug k T) \<and> inorder (plug k T) = inorder (plug (f # g # k) (N RBTREE_RED l a r)) \<and>
    keeps (zset (f # g # k) (N RBTREE_RED l a r)) st st'"
proof (cases f; cases g)
  fix c1 x1 s c2 x2 u assume fg: "f = FL c1 x1 s" "g = FL c2 x2 u"
  then show ?thesis using assms insertion_rotate_LL [of st k c2 c1 RBTREE_RED l a r x1 s x2 u]
    by (fastforce simp: zrep_move rb_plug inorder_plug intro!: exI [of _ "N RBTREE_BLACK (N RBTREE_RED l a r) p (N RBTREE_RED s q u)"])
next
  fix c1 x1 s c2 u x2 assume fg: "f = FL c1 x1 s" "g = FR c2 u x2"
  then show ?thesis using assms insertion_rotate_RL [of st k c2 u x2 c1 RBTREE_RED l a r x1 s]
    by (fastforce simp: zrep_move rb_plug inorder_plug intro!: exI [of _ "N RBTREE_BLACK (N RBTREE_RED u q l) a (N RBTREE_RED r p s)"])
next
  fix c1 s x1 c2 x2 u assume fg: "f = FR c1 s x1" "g = FL c2 x2 u"
  then show ?thesis using assms insertion_rotate_LR [of st k c2 c1 s x1 RBTREE_RED l a r x2 u]
    by (fastforce simp: zrep_move rb_plug inorder_plug intro!: exI [of _ "N RBTREE_BLACK (N RBTREE_RED s p l) a (N RBTREE_RED r q u)"])
next
  fix c1 s x1 c2 u x2 assume fg: "f = FR c1 s x1" "g = FR c2 u x2"
  then show ?thesis using assms insertion_rotate_RR [of st k c2 u x2 c1 s x1 RBTREE_RED l a r]
    by (fastforce simp: zrep_move rb_plug inorder_plug intro!: exI [of _ "N RBTREE_BLACK (N RBTREE_RED u q s) p (N RBTREE_RED l a r)"])
qed

definition settled :: "rbtree \<Rightarrow> rbtree option \<Rightarrow> rbt \<Rightarrow> bool" where
  "settled st r t \<longleftrightarrow> (\<exists>st' T. r = Some st' \<and> zrep st' [] T \<and> rb T \<and> inorder T = inorder t \<and> keeps (set (inorder t)) st st')"

lemma settledI:
  assumes "zrep st' k T" "rb (plug k T)" "inorder (plug k T) = inorder t" "keeps (set (inorder t)) st st'"
  shows "settled st (Some st') t"
  using assms zrep_plug [of st' k T] unfolding settled_def by blast

lemma settled_trans: "settled st1 r t' \<Longrightarrow> keeps (set (inorder t)) st st1 \<Longrightarrow> inorder t' = inorder t \<Longrightarrow> settled st r t"
  unfolding settled_def by (metis keeps_trans)

lemma frames2:
  assumes "cok n k" "k \<noteq> []" "ccol k = RBTREE_RED"
  obtains f g k2 where "k = f # g # k2" "ccol (g # k2) = RBTREE_BLACK"
  using assms
proof (cases k rule: cptr.cases)
  case (2 c a s k1)
  then show ?thesis using assms that by (cases k1) auto
next
  case (3 c s a k1)
  then show ?thesis using assms that by (cases k1) auto
qed simp

lemma insertion_balancing_ok:
  assumes "zrep st k (N c0 l a r)" "cok (bh l) k" "invc (N RBTREE_RED l a r)" "invh (N RBTREE_RED l a r)"
  shows "settled st (insertion_balancing st a) (plug k (N c0 l a r))"
  using assms
proof (induction "length k" arbitrary: k st c0 l a r rule: less_induct)
  case less
  let ?A = "zset k (N c0 l a r)"
  have a: "a \<in> ?A" by (simp add: inorder_plug)
  have par: "parent (nodes st a) = cptr k" using zrep_node [OF less.prems(1)] by simp
  show ?case
  proof (cases "k = []")
    case True
    then have "insertion_balancing st a = Some (set_color st a RBTREE_BLACK)" using par by (subst insertion_balancing.simps) simp
    moreover have "zrep (set_color st a RBTREE_BLACK) k (N RBTREE_BLACK l a r)" using less.prems(1) by (rule zrep_color(1))
    ultimately show ?thesis using less.prems(3,4) True keeps_color [OF a]
      by (auto intro!: settledI [of _ "[]" "N RBTREE_BLACK l a r"] simp: rb_def)
  next
    case False
    then obtain p where p: "cptr k = Some p" by (cases k rule: cptr.cases) auto
    let ?st1 = "set_color st a RBTREE_RED"
    have z1: "zrep ?st1 k (N RBTREE_RED l a r)" using less.prems(1) by (rule zrep_color(1))
    have k1: "keeps ?A st ?st1" by (rule keeps_color [OF a])
    note pn = parent_node [OF z1 p]
    show ?thesis
    proof (cases "ccol k")
      case RBTREE_BLACK
      then have "insertion_balancing st a = Some ?st1" using par p pn by (subst insertion_balancing.simps) simp
      then show ?thesis using z1 k1 less.prems(2-4) RBTREE_BLACK
        by (auto intro!: settledI [of _ k "N RBTREE_RED l a r"] simp: rb_plug inorder_plug)
    next
      case RBTREE_RED
      then obtain f g k2 where fg: "k = f # g # k2" "ccol (g # k2) = RBTREE_BLACK" using frames2 [OF less.prems(2) False] by blast
      obtain q where q: "cptr (g # k2) = Some q" by (cases g) auto
      have unf: "insertion_balancing st a = (if is_red ?st1 (get_sibling ?st1 p)
          then insertion_balancing (set_color (set_color (set_color ?st1 p RBTREE_BLACK) (the (get_sibling ?st1 p)) RBTREE_BLACK) q RBTREE_RED) q
          else insertion_rotate ?st1 a p q)"
        using par p pn RBTREE_RED fg(1) q by (subst insertion_balancing.simps) (simp add: Let_def)
      obtain x y where xy: "join f (N RBTREE_RED l a r) = N RBTREE_RED x p y" using p fg(1) RBTREE_RED by (cases f) auto
      have zg: "zrep ?st1 (g # k2) (N RBTREE_RED x p y)" using z1 fg(1) xy by (simp add: plug_join)
      have sb: "get_sibling ?st1 p = ptr (sib g)" using get_sibling_ok(1,2) zg by (cases g) fastforce+
      have ru: "is_red ?st1 (ptr (sib g)) \<longleftrightarrow> col (sib g) = RBTREE_RED" using zg is_red_ok(1) by (cases g) (auto simp: zrep_def)
      have cg: "cok (bh l) (g # k2)" "invc x" "invc y" "invh x" "invh y" "bh x = bh l" "bh y = bh l"
        using less.prems(2-4) fg(1) xy RBTREE_RED by (cases f; auto)+
      show ?thesis
      proof (cases "col (sib g)")
        case RBTREE_BLACK
        have "\<exists>st' T. insertion_rotate ?st1 a p q = Some st' \<and> zrep st' k2 T \<and> rb (plug k2 T) \<and> inorder (plug k2 T) = inorder (plug k (N RBTREE_RED l a r)) \<and>
            keeps (zset k (N RBTREE_RED l a r)) ?st1 st'"
          using insertion_rotate_ok [of ?st1 f g k2 l a r p q] z1 p q less.prems(2-4) \<open>ccol k = RBTREE_RED\<close> RBTREE_BLACK fg(1) by simp
        then obtain st' T where r: "insertion_rotate ?st1 a p q = Some st'" "zrep st' k2 T" "rb (plug k2 T)"
            "inorder (plug k2 T) = inorder (plug k (N RBTREE_RED l a r))" "keeps (zset k (N RBTREE_RED l a r)) ?st1 st'" by blast
        have "keeps ?A st st'" using keeps_trans [OF k1] r(5) by (simp add: inorder_plug)
        then have "settled st (Some st') (plug k (N c0 l a r))" using r(2-4) by (intro settledI) (simp_all add: inorder_plug)
        then show ?thesis using unf sb ru RBTREE_BLACK r(1) by simp
      next
        case RBTREE_RED
        then obtain ul ub ur where u: "sib g = N RBTREE_RED ul ub ur" by (cases "sib g") auto
        obtain cq where g: "g = FL cq q (sib g) \<or> g = FR cq (sib g) q" using q by (cases g) auto
        let ?st4 = "set_color (set_color (set_color ?st1 p RBTREE_BLACK) ub RBTREE_BLACK) q RBTREE_RED"
        obtain A B where AB: "zrep ?st4 k2 (N RBTREE_RED A q B)" "{A, B} = {N RBTREE_BLACK x p y, N RBTREE_BLACK ul ub ur}"
            "inorder (plug k2 (N RBTREE_RED A q B)) = inorder (plug (g # k2) (N RBTREE_RED x p y))"
          using recolor_grand [OF zg] g u by metis
        have inA: "p \<in> ?A" "ub \<in> ?A" "q \<in> ?A" using p q g u fg(1) by (cases f; auto simp: inorder_plug)+
        have k4: "keeps ?A st ?st4" using keeps_trans [OF k1 keeps_trans [OF keeps_trans [OF keeps_color [OF inA(1)] keeps_color [OF inA(2)]] keeps_color [OF inA(3)]]] .
        have "cok (bh l + 1) k2 \<and> invc (N RBTREE_BLACK ul ub ur) \<and> invh (N RBTREE_BLACK ul ub ur) \<and> bh ul = bh l"
          using cg(1) fg(2) u by (cases g) auto
        then have "cok (bh A) k2" "invc (N RBTREE_RED A q B)" "invh (N RBTREE_RED A q B)"
          using AB(2) cg by (auto simp: doubleton_eq_iff)
        then have "settled ?st4 (insertion_balancing ?st4 q) (plug k2 (N RBTREE_RED A q B))" using AB(1) fg(1) by (intro less.hyps) simp_all
        moreover have "inorder (plug k2 (N RBTREE_RED A q B)) = inorder (plug (g # k2) (join f (N RBTREE_RED l a r)))" using AB(3) xy by simp
        then have "inorder (plug k2 (N RBTREE_RED A q B)) = inorder (plug k (N c0 l a r))"
          unfolding fg(1) plug_join(1) [of f "g # k2"] inorder_plug [of "g # k2"] inorder_join [of f RBTREE_RED l a r c0] .
        ultimately have "settled st (insertion_balancing ?st4 q) (plug k (N c0 l a r))" by (rule settled_trans [OF _ k4])
        then show ?thesis using unf sb ru RBTREE_RED u by simp
      qed
    qed
  qed
qed

text \<open>A tree with its invariants and its pointer to the first node.\<close>

definition rbtree_ok :: "rbtree \<Rightarrow> nat list \<Rightarrow> bool" where
  "rbtree_ok st xs \<longleftrightarrow> (\<exists>T. zrep st [] T \<and> rb T \<and> inorder T = xs) \<and> first st = hd_opt xs"

fun link_of :: "frame list \<Rightarrow> link" where
  "link_of [] = RootLink"
| "link_of (FL c a s # k) = LeftLink a"
| "link_of (FR c s a # k) = RightLink a"

lemma zrep_first:
  assumes "zrep st k E" "first st = hd_opt (cl k @ cr k)"
  shows "first st = None \<or> link_of k = LeftLink (the (first st)) \<longleftrightarrow> cl k = []"
proof (cases k rule: link_of.cases)
  case (2 c a s k')
  then show ?thesis using assms by (cases "cl k'") (auto simp: zrep_def)
qed (use assms in \<open>auto simp: hd_opt_def split: list.splits\<close>)

lemma rbtree_link_insert_ok:
  assumes "zrep st k E" "rb (plug k E)" "first st = hd_opt (cl k @ cr k)" "node \<notin> set (cl k @ cr k)"
  shows "\<exists>st'. rbtree_link_insert st (cptr k) (link_of k) node = Some st' \<and> rbtree_ok st' (cl k @ node # cr k) \<and>
    (\<forall>x. x \<notin> set (cl k @ node # cr k) \<longrightarrow> nodes st' x = nodes st x)"
proof -
  let ?f = "if cl k = [] then Some node else first st"
  let ?n = "(nodes st)(node := \<lparr>color = color (nodes st node), parent = cptr k, left = None, right = None\<rparr>)"
  define st0 where "st0 = (if cl k = [] then st\<lparr>first := Some node\<rparr> else st)\<lparr>nodes := ?n\<rparr>"
  define st1 where "st1 = (case link_of k of RootLink \<Rightarrow> st0\<lparr>root := Some node\<rparr> | LeftLink p \<Rightarrow> set_left st0 p (Some node) | RightLink p \<Rightarrow> set_right st0 p (Some node))"
  have e0: "set_left (set_right (set_parent (if cl k = [] then st\<lparr>first := Some node\<rparr> else st) node (cptr k)) node None) node None = st0"
    by (cases "nodes st node") (simp add: setters st0_def)
  have run: "rbtree_link_insert st (cptr k) (link_of k) node = insertion_balancing st1 node"
    unfolding rbtree_link_insert_def Let_def zrep_first [OF assms(1,3)] e0 st1_def by (rule refl)
  have z: "zrep st1 k (N (color (nodes st node)) E node E)"
    using assms(1,4) by (cases k rule: link_of.cases) (auto simp: zrep_def st1_def st0_def setters)
  have fs: "first st1 = ?f" by (simp add: st1_def st0_def setters split: link.split)
  have out: "nodes st1 x = nodes st x" if "x \<notin> set (cl k @ node # cr k)" for x
    using that by (cases k rule: link_of.cases) (auto simp: st1_def st0_def setters)
  have "cok (bh E) k" using assms(2) by (simp add: rb_plug)
  then have "settled st1 (insertion_balancing st1 node) (plug k (N (color (nodes st node)) E node E))" using z by (intro insertion_balancing_ok) simp_all
  then obtain st' T where st': "insertion_balancing st1 node = Some st'" "zrep st' [] T" "rb T" "inorder T = cl k @ node # cr k" "keeps (set (cl k @ node # cr k)) st1 st'"
    unfolding settled_def inorder_plug by auto
  have "first st' = hd_opt (cl k @ node # cr k)" using st'(5) fs assms(3) by (cases "cl k") (auto simp: keeps_def)
  then have "rbtree_ok st' (cl k @ node # cr k)" using st'(2-4) unfolding rbtree_ok_def by blast
  moreover have "nodes st' x = nodes st x" if "x \<notin> set (cl k @ node # cr k)" for x using st'(5) out that by (simp add: keeps_def)
  ultimately show ?thesis using run st'(1) by auto
qed

text \<open>The templates, for a comparison that orders the nodes by a key.\<close>

definition orders :: "(nat \<Rightarrow> 'k :: linorder) \<Rightarrow> (nat \<Rightarrow> 'a \<Rightarrow> int) \<Rightarrow> ('a \<Rightarrow> 'k) \<Rightarrow> bool" where
  "orders key cmp key' \<longleftrightarrow> (\<forall>a b. (cmp a b < 0 \<longleftrightarrow> key a < key' b) \<and> (cmp a b > 0 \<longleftrightarrow> key' b < key a))"

abbreviation ascending :: "(nat \<Rightarrow> 'k :: linorder) \<Rightarrow> nat list \<Rightarrow> bool" where
  "ascending key \<equiv> sorted_wrt (\<lambda>x y. key x < key y)"

lemma insert_loop_ok:
  assumes "orders key cmp key" "zrep st k t" "rb (plug k t)" "first st = hd_opt (cl k @ inorder t @ cr k)" "node \<notin> set (cl k @ inorder t @ cr k)"
    "ascending key (cl k @ inorder t @ cr k)" "\<forall>x \<in> set (cl k). key x < key node" "\<forall>x \<in> set (cr k). key node < key x"
  shows "if \<exists>x \<in> set (inorder t). key x = key node then insert_loop cmp st (ptr t) (cptr k) (link_of k) node = Some st
    else \<exists>st' xs. insert_loop cmp st (ptr t) (cptr k) (link_of k) node = Some st' \<and> rbtree_ok st' xs \<and> ascending key xs \<and>
      set xs = insert node (set (cl k @ inorder t @ cr k)) \<and> (\<forall>x. x \<notin> set xs \<longrightarrow> nodes st' x = nodes st x)"
  using assms
proof (induction t arbitrary: k)
  case E
  have "insert_loop cmp st None (cptr k) (link_of k) node = rbtree_link_insert st (cptr k) (link_of k) node" by (subst insert_loop.simps) simp
  moreover obtain st' where "rbtree_link_insert st (cptr k) (link_of k) node = Some st'" "rbtree_ok st' (cl k @ node # cr k)"
      "\<forall>x. x \<notin> set (cl k @ node # cr k) \<longrightarrow> nodes st' x = nodes st x"
    using rbtree_link_insert_ok [OF E(2,3)] E(4,5) by auto
  moreover have "ascending key (cl k @ node # cr k)" using E(6-8) by (auto simp: sorted_wrt_append)
  ultimately show ?case by auto
next
  case (N c l a r)
  have n: "nodes st a = \<lparr>color = c, parent = cptr k, left = ptr l, right = ptr r\<rparr>" by (rule zrep_node [OF N.prems(2)])
  have asc: "\<forall>x \<in> set (inorder l). key x < key a" "\<forall>x \<in> set (inorder r). key a < key x" using N.prems(6) by (auto simp: sorted_wrt_append)
  consider "key a = key node" | "key a < key node" | "key node < key a" by fastforce
  then show ?case
  proof cases
    case 1
    then have "insert_loop cmp st (ptr (N c l a r)) (cptr k) (link_of k) node = Some st"
      using N.prems(1) by (subst insert_loop.simps) (auto simp: orders_def)
    then show ?thesis using 1 by auto
  next
    case 2
    then have run: "insert_loop cmp st (ptr (N c l a r)) (cptr k) (link_of k) node = insert_loop cmp st (ptr r) (cptr (FR c l a # k)) (link_of (FR c l a # k)) node"
      using N.prems(1) n by (subst insert_loop.simps) (auto simp: orders_def)
    have "if \<exists>x \<in> set (inorder r). key x = key node then insert_loop cmp st (ptr r) (cptr (FR c l a # k)) (link_of (FR c l a # k)) node = Some st
      else \<exists>st' xs. insert_loop cmp st (ptr r) (cptr (FR c l a # k)) (link_of (FR c l a # k)) node = Some st' \<and> rbtree_ok st' xs \<and> ascending key xs \<and>
        set xs = insert node (set (cl (FR c l a # k) @ inorder r @ cr (FR c l a # k))) \<and> (\<forall>x. x \<notin> set xs \<longrightarrow> nodes st' x = nodes st x)"
      using N.prems 2 asc(1) by (intro N.IH(2)) (auto simp: zrep_move intro: less_trans)
    moreover have "(\<exists>x \<in> set (inorder (N c l a r)). key x = key node) \<longleftrightarrow> (\<exists>x \<in> set (inorder r). key x = key node)" using 2 asc(1) by fastforce
    ultimately show ?thesis unfolding run by (simp add: Un_assoc insert_commute cong: if_cong)
  next
    case 3
    then have run: "insert_loop cmp st (ptr (N c l a r)) (cptr k) (link_of k) node = insert_loop cmp st (ptr l) (cptr (FL c a r # k)) (link_of (FL c a r # k)) node"
      using N.prems(1) n by (subst insert_loop.simps) (auto simp: orders_def)
    have "if \<exists>x \<in> set (inorder l). key x = key node then insert_loop cmp st (ptr l) (cptr (FL c a r # k)) (link_of (FL c a r # k)) node = Some st
      else \<exists>st' xs. insert_loop cmp st (ptr l) (cptr (FL c a r # k)) (link_of (FL c a r # k)) node = Some st' \<and> rbtree_ok st' xs \<and> ascending key xs \<and>
        set xs = insert node (set (cl (FL c a r # k) @ inorder l @ cr (FL c a r # k))) \<and> (\<forall>x. x \<notin> set xs \<longrightarrow> nodes st' x = nodes st x)"
      using N.prems 3 asc(2) by (intro N.IH(1)) (auto simp: zrep_move intro: less_trans)
    moreover have "(\<exists>x \<in> set (inorder (N c l a r)). key x = key node) \<longleftrightarrow> (\<exists>x \<in> set (inorder l). key x = key node)" using 3 asc(2) by fastforce
    ultimately show ?thesis unfolding run by (simp add: Un_assoc insert_commute cong: if_cong)
  qed
qed

subsection \<open>Removal\<close>

lemma zrep_sub:
  assumes "zrep st k (N c l a r)"
  shows "zrep st (FL c a r # k) l" "zrep st (FR c l a # k) r" "rep (nodes st) (Some a) l" "rep (nodes st) (Some a) r" "ptr l \<noteq> ptr r \<or> ptr l = None"
proof -
  show "ptr l \<noteq> ptr r \<or> ptr l = None" using assms ptr_in [of l] ptr_in [of r] by (cases "ptr l") (auto simp: zrep_def)
qed (use assms in \<open>simp_all add: zrep_move zrep_def\<close>)

lemma parent_rotation_L:
  assumes "zrep st k (N c t p (N cs x b (N cy yl y yr)))"
  shows "\<exists>st'. parent_rotation st p b = Some st' \<and> zrep st' k (N c (N RBTREE_BLACK t p x) b (N RBTREE_BLACK yl y yr)) \<and>
    keeps (zset k (N c t p (N cs x b (N cy yl y yr)))) st st'"
proof -
  let ?A = "zset k (N c t p (N cs x b (N cy yl y yr)))"
  have inA: "p \<in> ?A" "b \<in> ?A" "y \<in> ?A" by (simp_all add: inorder_plug)
  have n: "nodes st p = \<lparr>color = c, parent = cptr k, left = ptr t, right = Some b\<rparr>" "nodes st b = \<lparr>color = cs, parent = Some p, left = ptr x, right = Some y\<rparr>" "p \<noteq> b"
    using assms by (auto simp: zrep_def)
  let ?s1 = "set_color st b c" let ?s2 = "set_color ?s1 p RBTREE_BLACK" let ?s3 = "set_color ?s2 y RBTREE_BLACK"
  have "zrep ?s1 (FR c t p # k) (N c x b (N cy yl y yr))" using assms by (intro zrep_color(1) [where c = cs]) (simp add: zrep_move)
  then have "zrep ?s2 k (N RBTREE_BLACK t p (N c x b (N cy yl y yr)))" by (intro zrep_color(1) [where c = c]) (simp add: zrep_move)
  then have "zrep ?s3 (FR c x b # FR RBTREE_BLACK t p # k) (N RBTREE_BLACK yl y yr)" by (intro zrep_color(1) [where c = cy]) (simp add: zrep_move)
  then have z: "zrep ?s3 k (N RBTREE_BLACK t p (N c x b (N RBTREE_BLACK yl y yr)))" by (simp add: zrep_move)
  obtain st' where st': "rotate_left ?s3 p = Some st'" "zrep st' k (N c (N RBTREE_BLACK t p x) b (N RBTREE_BLACK yl y yr))" "keeps ?A ?s3 st'"
    using rotate_left_ok [OF z] by (auto simp: inorder_plug)
  have "parent_rotation st p b = rotate_left ?s3 p" using n by (simp add: parent_rotation_def Let_def set_color_def)
  moreover have "keeps ?A st st'" by (rule keeps_trans [OF keeps_trans [OF keeps_trans [OF keeps_color [OF inA(2)] keeps_color [OF inA(1)]] keeps_color [OF inA(3)]] st'(3)])
  ultimately show ?thesis using st' by auto
qed

lemma sibling_rotation_L:
  assumes "zrep st k (N c t p (N cs (N RBTREE_RED xl x xr) b sr))" "col sr = RBTREE_BLACK"
  shows "\<exists>st'. sibling_rotation st p b = Some (st', x) \<and> zrep st' k (N c t p (N RBTREE_BLACK xl x (N RBTREE_RED xr b sr))) \<and>
    keeps (zset k (N c t p (N cs (N RBTREE_RED xl x xr) b sr))) st st'"
proof -
  let ?A = "zset k (N c t p (N cs (N RBTREE_RED xl x xr) b sr))"
  have inA: "b \<in> ?A" "x \<in> ?A" by (simp_all add: inorder_plug)
  have n: "right (nodes st p) = Some b" "nodes st b = \<lparr>color = cs, parent = Some p, left = Some x, right = ptr sr\<rparr>" "color (nodes st x) = RBTREE_RED" "rep (nodes st) (Some b) sr"
    using assms by (auto simp: zrep_def)
  let ?s1 = "set_color st b RBTREE_RED" let ?s2 = "set_color ?s1 x RBTREE_BLACK"
  have "zrep ?s1 (FR c t p # k) (N RBTREE_RED (N RBTREE_RED xl x xr) b sr)" using assms(1) by (intro zrep_color(1) [where c = cs]) (simp add: zrep_move)
  then have "zrep ?s2 (FL RBTREE_RED b sr # FR c t p # k) (N RBTREE_BLACK xl x xr)" by (intro zrep_color(1) [where c = RBTREE_RED]) (simp add: zrep_move)
  then have z: "zrep ?s2 (FR c t p # k) (N RBTREE_RED (N RBTREE_BLACK xl x xr) b sr)" by (simp add: zrep_move)
  obtain st' where st': "rotate_right ?s2 b = Some st'" "zrep st' (FR c t p # k) (N RBTREE_BLACK xl x (N RBTREE_RED xr b sr))" "keeps ?A ?s2 st'"
    using rotate_right_ok [OF z] by (auto simp: inorder_plug)
  have "parent (nodes st' b) = Some x" using st'(2) by (simp add: zrep_def)
  moreover have "is_red st (Some x)" "is_blk_or_nil st (ptr sr)" using n(3) is_red_ok(2) [OF n(4)] assms(2) by (simp_all add: is_red_def)
  ultimately have "sibling_rotation st p b = Some (st', x)" using n st'(1) by (simp add: sibling_rotation_def set_color_def)
  moreover have "keeps ?A st st'" by (rule keeps_trans [OF keeps_trans [OF keeps_color [OF inA(1)] keeps_color [OF inA(2)]] st'(3)])
  ultimately show ?thesis using st'(2) by (auto simp: zrep_move)
qed

lemma removal_rotate_L:
  assumes "zrep st k (N c t p (N RBTREE_BLACK sl b sr))" "invc t" "invh t" "col t = RBTREE_BLACK" "invc sl" "invc sr" "invh sl" "invh sr" "bh sl = bh t" "bh sr = bh t"
    "c = RBTREE_RED \<or> col sl = RBTREE_RED \<or> col sr = RBTREE_RED"
  shows "\<exists>st' T. removal_rotate st p b = Some st' \<and> zrep st' k T \<and> invc T \<and> invh T \<and> bh T = (if c = RBTREE_BLACK then bh t + 2 else bh t + 1) \<and>
    (col T = RBTREE_RED \<longrightarrow> c = RBTREE_RED) \<and> inorder T = inorder (N c t p (N RBTREE_BLACK sl b sr)) \<and> keeps (zset k (N c t p (N RBTREE_BLACK sl b sr))) st st'"
proof -
  let ?A = "zset k (N c t p (N RBTREE_BLACK sl b sr))"
  have n: "nodes st p = \<lparr>color = c, parent = cptr k, left = ptr t, right = Some b\<rparr>" "nodes st b = \<lparr>color = RBTREE_BLACK, parent = Some p, left = ptr sl, right = ptr sr\<rparr>"
    "ptr t \<noteq> Some b" "p \<noteq> b" "rep (nodes st) (Some b) sl" "rep (nodes st) (Some b) sr"
    using assms(1) ptr_in [of t b] by (auto simp: zrep_def)
  note red = is_red_ok [OF n(5)] is_red_ok [OF n(6)]
  show ?thesis
  proof (cases "col sr")
    case RBTREE_RED
    then obtain yl y yr where sr: "sr = N RBTREE_RED yl y yr" by (cases sr) auto
    have "sibling_rotation st p b = Some (st, b)" using n red RBTREE_RED by (auto simp: sibling_rotation_def)
    moreover have "\<not> is_blk_or_nil st (ptr sr)" using red RBTREE_RED by simp
    ultimately have "removal_rotate st p b = parent_rotation st p b" using n by (simp add: removal_rotate_def)
    then show ?thesis using parent_rotation_L [OF assms(1) [unfolded sr]] assms sr by fastforce
  next
    case sr: RBTREE_BLACK
    show ?thesis
    proof (cases "col sl")
      case RBTREE_RED
      then obtain xl x xr where sl: "sl = N RBTREE_RED xl x xr" by (cases sl) auto
      obtain st1 where st1: "sibling_rotation st p b = Some (st1, x)" "zrep st1 k (N c t p (N RBTREE_BLACK xl x (N RBTREE_RED xr b sr)))" "keeps ?A st st1"
        using sibling_rotation_L [OF assms(1) [unfolded sl] sr] sl by auto
      obtain st' where st': "parent_rotation st1 p x = Some st'" "zrep st' k (N c (N RBTREE_BLACK t p xl) x (N RBTREE_BLACK xr b sr))" "keeps ?A st1 st'"
        using parent_rotation_L [OF st1(2)] sl by (auto simp: inorder_plug)
      have "\<not> is_blk_or_nil st (ptr sl)" using red RBTREE_RED by simp
      then have "removal_rotate st p b = Some st'" using n st1(1) st'(1) by (simp add: removal_rotate_def)
      then show ?thesis using st'(2) keeps_trans [OF st1(3) st'(3)] assms sl sr by fastforce
    next
      case RBTREE_BLACK
      then have c: "c = RBTREE_RED" using assms(11) sr by auto
      let ?s1 = "set_color st b RBTREE_RED" let ?s2 = "set_color ?s1 p RBTREE_BLACK"
      have "zrep ?s1 (FR c t p # k) (N RBTREE_RED sl b sr)" using assms(1) by (intro zrep_color(1) [where c = RBTREE_BLACK]) (simp add: zrep_move)
      then have "zrep ?s2 k (N RBTREE_BLACK t p (N RBTREE_RED sl b sr))" by (intro zrep_color(1) [where c = c]) (simp add: zrep_move)
      moreover have "removal_rotate st p b = Some ?s2" using n red RBTREE_BLACK sr c by (simp add: removal_rotate_def)
      moreover have "keeps ?A st ?s2" by (rule keeps_trans [OF keeps_color keeps_color]) (simp_all add: inorder_plug)
      ultimately show ?thesis using assms RBTREE_BLACK sr c by fastforce
    qed
  qed
qed

lemma parent_rotation_R:
  assumes "zrep st k (N c (N cs (N cy yl y yr) b x) p t)"
  shows "\<exists>st'. parent_rotation st p b = Some st' \<and> zrep st' k (N c (N RBTREE_BLACK yl y yr) b (N RBTREE_BLACK x p t)) \<and>
    keeps (zset k (N c (N cs (N cy yl y yr) b x) p t)) st st'"
proof -
  let ?A = "zset k (N c (N cs (N cy yl y yr) b x) p t)"
  have inA: "p \<in> ?A" "b \<in> ?A" "y \<in> ?A" by (simp_all add: inorder_plug)
  have n: "nodes st p = \<lparr>color = c, parent = cptr k, left = Some b, right = ptr t\<rparr>" "nodes st b = \<lparr>color = cs, parent = Some p, left = Some y, right = ptr x\<rparr>" "p \<noteq> b" "ptr t \<noteq> Some b"
    using assms ptr_in [of t b] by (auto simp: zrep_def)
  let ?s1 = "set_color st b c" let ?s2 = "set_color ?s1 p RBTREE_BLACK" let ?s3 = "set_color ?s2 y RBTREE_BLACK"
  have "zrep ?s1 (FL c p t # k) (N c (N cy yl y yr) b x)" using assms by (intro zrep_color(1) [where c = cs]) (simp add: zrep_move)
  then have "zrep ?s2 k (N RBTREE_BLACK (N c (N cy yl y yr) b x) p t)" by (intro zrep_color(1) [where c = c]) (simp add: zrep_move)
  then have "zrep ?s3 (FL c b x # FL RBTREE_BLACK p t # k) (N RBTREE_BLACK yl y yr)" by (intro zrep_color(1) [where c = cy]) (simp add: zrep_move)
  then have z: "zrep ?s3 k (N RBTREE_BLACK (N c (N RBTREE_BLACK yl y yr) b x) p t)" by (simp add: zrep_move)
  obtain st' where st': "rotate_right ?s3 p = Some st'" "zrep st' k (N c (N RBTREE_BLACK yl y yr) b (N RBTREE_BLACK x p t))" "keeps ?A ?s3 st'"
    using rotate_right_ok [OF z] by (auto simp: inorder_plug)
  have "parent_rotation st p b = rotate_right ?s3 p" using n by (simp add: parent_rotation_def Let_def set_color_def)
  moreover have "keeps ?A st st'" by (rule keeps_trans [OF keeps_trans [OF keeps_trans [OF keeps_color [OF inA(2)] keeps_color [OF inA(1)]] keeps_color [OF inA(3)]] st'(3)])
  ultimately show ?thesis using st' by auto
qed

lemma sibling_rotation_R:
  assumes "zrep st k (N c (N cs sl b (N RBTREE_RED xl x xr)) p t)" "col sl = RBTREE_BLACK"
  shows "\<exists>st'. sibling_rotation st p b = Some (st', x) \<and> zrep st' k (N c (N RBTREE_BLACK (N RBTREE_RED sl b xl) x xr) p t) \<and>
    keeps (zset k (N c (N cs sl b (N RBTREE_RED xl x xr)) p t)) st st'"
proof -
  let ?A = "zset k (N c (N cs sl b (N RBTREE_RED xl x xr)) p t)"
  have inA: "b \<in> ?A" "x \<in> ?A" by (simp_all add: inorder_plug)
  have n: "left (nodes st p) = Some b" "nodes st b = \<lparr>color = cs, parent = Some p, left = ptr sl, right = Some x\<rparr>" "color (nodes st x) = RBTREE_RED" "rep (nodes st) (Some b) sl"
    "right (nodes st p) \<noteq> Some b"
    using assms ptr_in [of t b] by (auto simp: zrep_def)
  let ?s1 = "set_color st b RBTREE_RED" let ?s2 = "set_color ?s1 x RBTREE_BLACK"
  have "zrep ?s1 (FL c p t # k) (N RBTREE_RED sl b (N RBTREE_RED xl x xr))" using assms(1) by (intro zrep_color(1) [where c = cs]) (simp add: zrep_move)
  then have "zrep ?s2 (FR RBTREE_RED sl b # FL c p t # k) (N RBTREE_BLACK xl x xr)" by (intro zrep_color(1) [where c = RBTREE_RED]) (simp add: zrep_move)
  then have z: "zrep ?s2 (FL c p t # k) (N RBTREE_RED sl b (N RBTREE_BLACK xl x xr))" by (simp add: zrep_move)
  obtain st' where st': "rotate_left ?s2 b = Some st'" "zrep st' (FL c p t # k) (N RBTREE_BLACK (N RBTREE_RED sl b xl) x xr)" "keeps ?A ?s2 st'"
    using rotate_left_ok [OF z] by (auto simp: inorder_plug)
  have "parent (nodes st' b) = Some x" using st'(2) by (simp add: zrep_def)
  moreover have "is_red st (Some x)" "is_blk_or_nil st (ptr sl)" using n(3) is_red_ok(2) [OF n(4)] assms(2) by (simp_all add: is_red_def)
  ultimately have "sibling_rotation st p b = Some (st', x)" using n st'(1) by (simp add: sibling_rotation_def set_color_def)
  moreover have "keeps ?A st st'" by (rule keeps_trans [OF keeps_trans [OF keeps_color [OF inA(1)] keeps_color [OF inA(2)]] st'(3)])
  ultimately show ?thesis using st'(2) by (auto simp: zrep_move)
qed

lemma removal_rotate_R:
  assumes "zrep st k (N c (N RBTREE_BLACK sl b sr) p t)" "invc t" "invh t" "col t = RBTREE_BLACK" "invc sl" "invc sr" "invh sl" "invh sr" "bh sl = bh t" "bh sr = bh t"
    "c = RBTREE_RED \<or> col sl = RBTREE_RED \<or> col sr = RBTREE_RED"
  shows "\<exists>st' T. removal_rotate st p b = Some st' \<and> zrep st' k T \<and> invc T \<and> invh T \<and> bh T = (if c = RBTREE_BLACK then bh t + 2 else bh t + 1) \<and>
    (col T = RBTREE_RED \<longrightarrow> c = RBTREE_RED) \<and> inorder T = inorder (N c (N RBTREE_BLACK sl b sr) p t) \<and> keeps (zset k (N c (N RBTREE_BLACK sl b sr) p t)) st st'"
proof -
  let ?A = "zset k (N c (N RBTREE_BLACK sl b sr) p t)"
  have n: "nodes st p = \<lparr>color = c, parent = cptr k, left = Some b, right = ptr t\<rparr>" "nodes st b = \<lparr>color = RBTREE_BLACK, parent = Some p, left = ptr sl, right = ptr sr\<rparr>"
    "ptr t \<noteq> Some b" "p \<noteq> b" "rep (nodes st) (Some b) sl" "rep (nodes st) (Some b) sr"
    using assms(1) ptr_in [of t b] by (auto simp: zrep_def)
  note red = is_red_ok [OF n(5)] is_red_ok [OF n(6)]
  show ?thesis
  proof (cases "col sl")
    case RBTREE_RED
    then obtain yl y yr where sl: "sl = N RBTREE_RED yl y yr" by (cases sl) auto
    have "sibling_rotation st p b = Some (st, b)" using n red RBTREE_RED by (auto simp: sibling_rotation_def)
    moreover have "\<not> is_blk_or_nil st (ptr sl)" using red RBTREE_RED by simp
    ultimately have "removal_rotate st p b = parent_rotation st p b" using n by (simp add: removal_rotate_def)
    then show ?thesis using parent_rotation_R [OF assms(1) [unfolded sl]] assms sl by fastforce
  next
    case sl: RBTREE_BLACK
    show ?thesis
    proof (cases "col sr")
      case RBTREE_RED
      then obtain xl x xr where sr: "sr = N RBTREE_RED xl x xr" by (cases sr) auto
      obtain st1 where st1: "sibling_rotation st p b = Some (st1, x)" "zrep st1 k (N c (N RBTREE_BLACK (N RBTREE_RED sl b xl) x xr) p t)" "keeps ?A st st1"
        using sibling_rotation_R [OF assms(1) [unfolded sr] sl] sr by auto
      obtain st' where st': "parent_rotation st1 p x = Some st'" "zrep st' k (N c (N RBTREE_BLACK sl b xl) x (N RBTREE_BLACK xr p t))" "keeps ?A st1 st'"
        using parent_rotation_R [OF st1(2)] sr by (auto simp: inorder_plug)
      have "\<not> is_blk_or_nil st (ptr sr)" using red RBTREE_RED by simp
      then have "removal_rotate st p b = Some st'" using n st1(1) st'(1) by (simp add: removal_rotate_def)
      then show ?thesis using st'(2) keeps_trans [OF st1(3) st'(3)] assms sl sr by fastforce
    next
      case RBTREE_BLACK
      then have c: "c = RBTREE_RED" using assms(11) sl by auto
      let ?s1 = "set_color st b RBTREE_RED" let ?s2 = "set_color ?s1 p RBTREE_BLACK"
      have "zrep ?s1 (FL c p t # k) (N RBTREE_RED sl b sr)" using assms(1) by (intro zrep_color(1) [where c = RBTREE_BLACK]) (simp add: zrep_move)
      then have "zrep ?s2 k (N RBTREE_BLACK (N RBTREE_RED sl b sr) p t)" by (intro zrep_color(1) [where c = c]) (simp add: zrep_move)
      moreover have "removal_rotate st p b = Some ?s2" using n red RBTREE_BLACK sl c by (simp add: removal_rotate_def)
      moreover have "keeps ?A st ?s2" by (rule keeps_trans [OF keeps_color keeps_color]) (simp_all add: inorder_plug)
      ultimately show ?thesis using assms RBTREE_BLACK sl c by fastforce
    qed
  qed
qed

lemma red_sibling_L:
  assumes "zrep st k (N c t p (N cs (N cx xl x xr) b sr))"
  shows "\<exists>st'. red_sibling st p b = Some (st', x) \<and> zrep st' k (N RBTREE_BLACK (N RBTREE_RED t p (N cx xl x xr)) b sr) \<and>
    keeps (zset k (N c t p (N cs (N cx xl x xr) b sr))) st st'"
proof -
  let ?A = "zset k (N c t p (N cs (N cx xl x xr) b sr))"
  have n: "right (nodes st p) = Some b" "left (nodes st b) = Some x" "p \<noteq> b" using assms by (auto simp: zrep_def)
  let ?s1 = "set_color st b RBTREE_BLACK" let ?s2 = "set_color ?s1 p RBTREE_RED"
  have "zrep ?s1 (FR c t p # k) (N RBTREE_BLACK (N cx xl x xr) b sr)" using assms by (intro zrep_color(1) [where c = cs]) (simp add: zrep_move)
  then have z: "zrep ?s2 k (N RBTREE_RED t p (N RBTREE_BLACK (N cx xl x xr) b sr))" by (intro zrep_color(1) [where c = c]) (simp add: zrep_move)
  have "keeps ?A st ?s2" by (rule keeps_trans [OF keeps_color keeps_color]) (simp_all add: inorder_plug)
  moreover obtain st' where st': "rotate_left ?s2 p = Some st'" "zrep st' k (N RBTREE_BLACK (N RBTREE_RED t p (N cx xl x xr)) b sr)" "keeps ?A ?s2 st'"
    using rotate_left_ok [OF z] by (auto simp: inorder_plug)
  ultimately have "keeps ?A st st'" using keeps_trans by blast
  moreover have "red_sibling st p b = Some (st', x)" using n st'(1) by (simp add: red_sibling_def set_color_def Let_def)
  ultimately show ?thesis using st'(2) by blast
qed

lemma red_sibling_R:
  assumes "zrep st k (N c (N cs sl b (N cx xl x xr)) p t)"
  shows "\<exists>st'. red_sibling st p b = Some (st', x) \<and> zrep st' k (N RBTREE_BLACK sl b (N RBTREE_RED (N cx xl x xr) p t)) \<and>
    keeps (zset k (N c (N cs sl b (N cx xl x xr)) p t)) st st'"
proof -
  let ?A = "zset k (N c (N cs sl b (N cx xl x xr)) p t)"
  have n: "right (nodes st p) \<noteq> Some b" "right (nodes st b) = Some x" "p \<noteq> b" using assms ptr_in [of t b] by (auto simp: zrep_def)
  let ?s1 = "set_color st b RBTREE_BLACK" let ?s2 = "set_color ?s1 p RBTREE_RED"
  have "zrep ?s1 (FL c p t # k) (N RBTREE_BLACK sl b (N cx xl x xr))" using assms by (intro zrep_color(1) [where c = cs]) (simp add: zrep_move)
  then have z: "zrep ?s2 k (N RBTREE_RED (N RBTREE_BLACK sl b (N cx xl x xr)) p t)" by (intro zrep_color(1) [where c = c]) (simp add: zrep_move)
  have "keeps ?A st ?s2" by (rule keeps_trans [OF keeps_color keeps_color]) (simp_all add: inorder_plug)
  moreover obtain st' where st': "rotate_right ?s2 p = Some st'" "zrep st' k (N RBTREE_BLACK sl b (N RBTREE_RED (N cx xl x xr) p t))" "keeps ?A ?s2 st'"
    using rotate_right_ok [OF z] by (auto simp: inorder_plug)
  ultimately have "keeps ?A st st'" using keeps_trans by blast
  moreover have "red_sibling st p b = Some (st', x)" using n st'(1) by (simp add: red_sibling_def set_color_def Let_def)
  ultimately show ?thesis using st'(2) by blast
qed

text \<open>The sibling of the hole, and the loop: the subtree in the hole is one black node short.\<close>

fun sibling_ptr :: "frame list \<Rightarrow> nat option" where
  "sibling_ptr [] = None"
| "sibling_ptr (f # k) = ptr (sib f)"

lemma get_sibling_ptr: "zrep st k t \<Longrightarrow> ptr t = Some a \<Longrightarrow> get_sibling st a = sibling_ptr k"
  using get_sibling_ok by (cases k rule: link_of.cases) fastforce+

lemma sibling_node: "bh s = Suc n \<Longrightarrow> \<exists>c l b r. s = N c l b r"
  by (cases s) auto

lemma removal_step_L:
  assumes "zrep st k (N c t p (N cs sl b sr))" "cok (bh t + 1) (FL c p (N cs sl b sr) # k)" "invc t" "invh t" "col t = RBTREE_BLACK"
    and again: "\<And>st' t'. zrep st' k t' \<Longrightarrow> cok (bh t' + 1) k \<Longrightarrow> invc t' \<Longrightarrow> invh t' \<Longrightarrow> col t' = RBTREE_BLACK \<Longrightarrow>
      settled st' (removal_balancing st' (sibling_ptr k)) (plug k t')"
  shows "settled st (removal_balancing st (Some b)) (plug k (N c t p (N cs sl b sr)))"
proof -
  let ?A = "zset k (N c t p (N cs sl b sr))"
  have n: "parent (nodes st b) = Some p" "color (nodes st b) = cs" "color (nodes st p) = c" "left (nodes st b) = ptr sl" "right (nodes st b) = ptr sr"
    "rep (nodes st) (Some b) sl" "rep (nodes st) (Some b) sr"
    using assms(1) by (auto simp: zrep_def)
  have ok: "invc sl" "invc sr" "invh sl" "invh sr" "bh sl = bh sr" "cok (if c = RBTREE_BLACK then bh t + 2 else bh t + 1) k" "c = RBTREE_RED \<Longrightarrow> cs = RBTREE_BLACK"
    "c = RBTREE_RED \<Longrightarrow> ccol k = RBTREE_BLACK"
    using assms(2) by auto
  show ?thesis
  proof (cases cs)
    case RBTREE_BLACK
    then have bh: "bh sl = bh t" "bh sr = bh t" using assms(2) by auto
    show ?thesis
    proof (cases "c = RBTREE_BLACK \<and> col sl = RBTREE_BLACK \<and> col sr = RBTREE_BLACK")
      case True
      let ?s1 = "set_color st b RBTREE_RED"
      have "zrep ?s1 (FR c t p # k) (N RBTREE_RED sl b sr)" using assms(1) by (intro zrep_color(1) [where c = cs]) (simp add: zrep_move)
      then have z: "zrep ?s1 k (N RBTREE_BLACK t p (N RBTREE_RED sl b sr))" using True by (simp add: zrep_move)
      have sb: "get_sibling ?s1 p = sibling_ptr k" using get_sibling_ptr [OF z] by simp
      have "settled ?s1 (removal_balancing ?s1 (sibling_ptr k)) (plug k (N RBTREE_BLACK t p (N RBTREE_RED sl b sr)))"
        using assms(3-5) ok bh True by (intro again [OF z]) auto
      moreover have "keeps ?A st ?s1" by (rule keeps_color) (simp add: inorder_plug)
      ultimately have "settled st (removal_balancing ?s1 (sibling_ptr k)) (plug k (N c t p (N cs sl b sr)))" by (rule settled_trans) (simp add: inorder_plug)
      moreover have "removal_balancing st (Some b) = removal_balancing ?s1 (sibling_ptr k)"
        using n True RBTREE_BLACK is_red_ok(2) [OF n(6)] is_red_ok(2) [OF n(7)] sb by (subst removal_balancing.simps) simp
      ultimately show ?thesis by simp
    next
      case False
      then have "c = RBTREE_RED \<or> col sl = RBTREE_RED \<or> col sr = RBTREE_RED" by (cases c; cases "col sl"; cases "col sr") auto
      then obtain st' T where r: "removal_rotate st p b = Some st'" "zrep st' k T" "invc T" "invh T" "bh T = (if c = RBTREE_BLACK then bh t + 2 else bh t + 1)"
          "col T = RBTREE_RED \<longrightarrow> c = RBTREE_RED" "inorder T = inorder (N c t p (N cs sl b sr))" "keeps ?A st st'"
        using removal_rotate_L [OF assms(1) [unfolded RBTREE_BLACK] assms(3-5) ok(1-4) bh] RBTREE_BLACK by blast
      have "removal_balancing st (Some b) = removal_rotate st p b"
        using n False RBTREE_BLACK is_red_ok(2) [OF n(6)] is_red_ok(2) [OF n(7)] by (subst removal_balancing.simps) auto
      moreover have "rb (plug k T)" using r(3-6) ok(6,8) by (auto simp: rb_plug)
      ultimately show ?thesis using r by (auto intro!: settledI simp: inorder_plug)
    qed
  next
    case RBTREE_RED
    then have c: "c = RBTREE_BLACK" and bh: "bh sl = bh t + 1" "bh sr = bh t + 1" "col sl = RBTREE_BLACK" "col sr = RBTREE_BLACK"
      using assms(2) ok(5,7) by (cases c; auto)+
    then obtain xl x xr where x: "sl = N RBTREE_BLACK xl x xr" using sibling_node [of sl "bh t"] by auto
    obtain st1 where st1: "red_sibling st p b = Some (st1, x)" "zrep st1 k (N RBTREE_BLACK (N RBTREE_RED t p (N RBTREE_BLACK xl x xr)) b sr)" "keeps ?A st st1"
      using red_sibling_L [OF assms(1) [unfolded x]] x by blast
    have z1: "zrep st1 (FL RBTREE_BLACK b sr # k) (N RBTREE_RED t p (N RBTREE_BLACK xl x xr))" using st1(2) by (simp add: zrep_move)
    have xb: "invc xl" "invc xr" "invh xl" "invh xr" "bh xl = bh t" "bh xr = bh t" using ok(1-4) bh x by auto
    obtain st' T where r: "removal_rotate st1 p x = Some st'" "zrep st' (FL RBTREE_BLACK b sr # k) T" "invc T" "invh T" "bh T = bh t + 1"
        "inorder T = inorder (N RBTREE_RED t p (N RBTREE_BLACK xl x xr))" "keeps ?A st1 st'"
      using removal_rotate_L [OF z1 assms(3-5) xb] x by (auto simp: inorder_plug Un_commute Un_left_commute insert_commute)
    have "color (nodes st1 p) = RBTREE_RED" using z1 by (simp add: zrep_def)
    then have "removal_balancing st (Some b) = removal_rotate st1 p x"
      using n RBTREE_RED st1(1) by (subst removal_balancing.simps) simp
    moreover have "rb (plug (FL RBTREE_BLACK b sr # k) T)" using r(3-5) ok bh c by (auto simp: rb_plug)
    moreover have "keeps ?A st st'" using keeps_trans [OF st1(3) r(7)] .
    ultimately show ?thesis using r(1,2,6) x by (auto intro!: settledI simp: inorder_plug)
  qed
qed

lemma removal_step_R:
  assumes "zrep st k (N c (N cs sl b sr) p t)" "cok (bh t + 1) (FR c (N cs sl b sr) p # k)" "invc t" "invh t" "col t = RBTREE_BLACK"
    and again: "\<And>st' t'. zrep st' k t' \<Longrightarrow> cok (bh t' + 1) k \<Longrightarrow> invc t' \<Longrightarrow> invh t' \<Longrightarrow> col t' = RBTREE_BLACK \<Longrightarrow>
      settled st' (removal_balancing st' (sibling_ptr k)) (plug k t')"
  shows "settled st (removal_balancing st (Some b)) (plug k (N c (N cs sl b sr) p t))"
proof -
  let ?A = "zset k (N c (N cs sl b sr) p t)"
  have n: "parent (nodes st b) = Some p" "color (nodes st b) = cs" "color (nodes st p) = c" "left (nodes st b) = ptr sl" "right (nodes st b) = ptr sr"
    "rep (nodes st) (Some b) sl" "rep (nodes st) (Some b) sr"
    using assms(1) by (auto simp: zrep_def)
  have ok: "invc sl" "invc sr" "invh sl" "invh sr" "bh sl = bh sr" "cok (if c = RBTREE_BLACK then bh t + 2 else bh t + 1) k" "c = RBTREE_RED \<Longrightarrow> cs = RBTREE_BLACK"
    "c = RBTREE_RED \<Longrightarrow> ccol k = RBTREE_BLACK"
    using assms(2) by auto
  show ?thesis
  proof (cases cs)
    case RBTREE_BLACK
    then have bh: "bh sl = bh t" "bh sr = bh t" using assms(2) by auto
    show ?thesis
    proof (cases "c = RBTREE_BLACK \<and> col sl = RBTREE_BLACK \<and> col sr = RBTREE_BLACK")
      case True
      let ?s1 = "set_color st b RBTREE_RED"
      have "zrep ?s1 (FL c p t # k) (N RBTREE_RED sl b sr)" using assms(1) by (intro zrep_color(1) [where c = cs]) (simp add: zrep_move)
      then have z: "zrep ?s1 k (N RBTREE_BLACK (N RBTREE_RED sl b sr) p t)" using True by (simp add: zrep_move)
      have sb: "get_sibling ?s1 p = sibling_ptr k" using get_sibling_ptr [OF z] by simp
      have "settled ?s1 (removal_balancing ?s1 (sibling_ptr k)) (plug k (N RBTREE_BLACK (N RBTREE_RED sl b sr) p t))"
        using assms(3-5) ok bh True by (intro again [OF z]) auto
      moreover have "keeps ?A st ?s1" by (rule keeps_color) (simp add: inorder_plug)
      ultimately have "settled st (removal_balancing ?s1 (sibling_ptr k)) (plug k (N c (N cs sl b sr) p t))" by (rule settled_trans) (simp add: inorder_plug)
      moreover have "removal_balancing st (Some b) = removal_balancing ?s1 (sibling_ptr k)"
        using n True RBTREE_BLACK is_red_ok(2) [OF n(6)] is_red_ok(2) [OF n(7)] sb by (subst removal_balancing.simps) simp
      ultimately show ?thesis by simp
    next
      case False
      then have "c = RBTREE_RED \<or> col sl = RBTREE_RED \<or> col sr = RBTREE_RED" by (cases c; cases "col sl"; cases "col sr") auto
      then obtain st' T where r: "removal_rotate st p b = Some st'" "zrep st' k T" "invc T" "invh T" "bh T = (if c = RBTREE_BLACK then bh t + 2 else bh t + 1)"
          "col T = RBTREE_RED \<longrightarrow> c = RBTREE_RED" "inorder T = inorder (N c (N cs sl b sr) p t)" "keeps ?A st st'"
        using removal_rotate_R [OF assms(1) [unfolded RBTREE_BLACK] assms(3-5) ok(1-4) bh] RBTREE_BLACK by blast
      have "removal_balancing st (Some b) = removal_rotate st p b"
        using n False RBTREE_BLACK is_red_ok(2) [OF n(6)] is_red_ok(2) [OF n(7)] by (subst removal_balancing.simps) auto
      moreover have "rb (plug k T)" using r(3-6) ok(6,8) by (auto simp: rb_plug)
      ultimately show ?thesis using r by (auto intro!: settledI simp: inorder_plug)
    qed
  next
    case RBTREE_RED
    then have c: "c = RBTREE_BLACK" and bh: "bh sl = bh t + 1" "bh sr = bh t + 1" "col sl = RBTREE_BLACK" "col sr = RBTREE_BLACK"
      using assms(2) ok(5,7) by (cases c; auto)+
    then obtain xl x xr where x: "sr = N RBTREE_BLACK xl x xr" using sibling_node [of sr "bh t"] by auto
    obtain st1 where st1: "red_sibling st p b = Some (st1, x)" "zrep st1 k (N RBTREE_BLACK sl b (N RBTREE_RED (N RBTREE_BLACK xl x xr) p t))" "keeps ?A st st1"
      using red_sibling_R [OF assms(1) [unfolded x]] x by blast
    have z1: "zrep st1 (FR RBTREE_BLACK sl b # k) (N RBTREE_RED (N RBTREE_BLACK xl x xr) p t)" using st1(2) by (simp add: zrep_move)
    have xb: "invc xl" "invc xr" "invh xl" "invh xr" "bh xl = bh t" "bh xr = bh t" using ok(1-4) bh x by auto
    obtain st' T where r: "removal_rotate st1 p x = Some st'" "zrep st' (FR RBTREE_BLACK sl b # k) T" "invc T" "invh T" "bh T = bh t + 1"
        "inorder T = inorder (N RBTREE_RED (N RBTREE_BLACK xl x xr) p t)" "keeps ?A st1 st'"
      using removal_rotate_R [OF z1 assms(3-5) xb] x by (auto simp: inorder_plug Un_commute Un_left_commute insert_commute)
    have "color (nodes st1 p) = RBTREE_RED" using z1 by (simp add: zrep_def)
    then have "removal_balancing st (Some b) = removal_rotate st1 p x"
      using n RBTREE_RED st1(1) by (subst removal_balancing.simps) simp
    moreover have "rb (plug (FR RBTREE_BLACK sl b # k) T)" using r(3-5) ok bh c by (auto simp: rb_plug)
    moreover have "keeps ?A st st'" using keeps_trans [OF st1(3) r(7)] .
    ultimately show ?thesis using r(1,2,6) x by (auto intro!: settledI simp: inorder_plug)
  qed
qed

lemma removal_balancing_ok:
  assumes "zrep st k t" "cok (bh t + 1) k" "invc t" "invh t" "col t = RBTREE_BLACK"
  shows "settled st (removal_balancing st (sibling_ptr k)) (plug k t)"
  using assms
proof (induction k arbitrary: st t)
  case Nil
  then show ?case by (subst removal_balancing.simps) (auto intro!: settledI [of st "[]" t] simp: rb_def)
next
  case (Cons f k)
  show ?case
  proof (cases f)
    case (FL c p s)
    then obtain cs sl b sr where s: "s = N cs sl b sr" using sibling_node [of s "bh t"] Cons.prems(2) by auto
    show ?thesis using removal_step_L [of st k c t p cs sl b sr] Cons FL s by (simp add: zrep_move)
  next
    case (FR c s p)
    then obtain cs sl b sr where s: "s = N cs sl b sr" using sibling_node [of s "bh t"] Cons.prems(2) by auto
    show ?thesis using removal_step_R [of st k c cs sl b sr p t] Cons FR s by (simp add: zrep_move)
  qed
qed

definition cut :: "rbtree \<Rightarrow> rbtree option \<Rightarrow> nat list \<Rightarrow> nat set \<Rightarrow> bool" where
  "cut st r xs A \<longleftrightarrow> (\<exists>st' T. r = Some st' \<and> zrep st' [] T \<and> rb T \<and> inorder T = xs \<and> keeps A st st')"

lemma cutI:
  assumes "zrep st' k T" "rb (plug k T)" "cl k @ inorder T @ cr k = xs" "keeps A st st'"
  shows "cut st (Some st') xs A"
  using assms zrep_plug [of st' k T] unfolding cut_def inorder_plug [symmetric] by blast

lemma relink_set_parent:
  assumes "Some x \<noteq> p" "a \<noteq> x"
  shows "set_parent (relink st p a q) x v = relink (set_parent st x v) p a q"
  using assms by (auto simp: relink_def setters fun_eq_iff split: option.split)

lemma remove_single_ok:
  assumes "zrep st k (N c l a r)" "l = E \<or> r = E" "rb (plug k (N c l a r))"
  shows "cut st (remove_single st a) (cl k @ inorder l @ inorder r @ cr k) (zset k (N c l a r))"
proof -
  let ?t = "N c l a r" and ?A = "zset k (N c l a r)"
  have n: "nodes st a = \<lparr>color = c, parent = cptr k, left = ptr l, right = ptr r\<rparr>" by (rule zrep_node [OF assms(1)])
  have d: "distinct (cl k @ inorder ?t @ cr k)" and r: "rep (nodes st) (cptr k) ?t" using assms(1) by (simp_all add: zrep_def)
  have inv: "cok (bh ?t) k" "invc ?t" "invh ?t" "c = RBTREE_RED \<longrightarrow> ccol k = RBTREE_BLACK" using assms(3) unfolding rb_plug col.simps by blast+
  show ?thesis
  proof (cases "l = E \<and> r = E")
    case True
    let ?st1 = "relink st (cptr k) a None"
    have z1: "zrep ?st1 k E" "keeps ?A st ?st1" using zrep_replace [OF assms(1), of a "nodes st" E] by simp_all
    have "a \<notin> set (cl k) \<union> set (cr k)" using d by auto
    then have "Some a \<noteq> cptr k" using cptr_in [of k a] by metis
    moreover have "distinct (cl k @ cr k)" "a \<notin> set (cl k)" "repc (nodes st) (root st) k (Some a)" using d assms(1) by (auto simp: zrep_def)
    ultimately have "color (nodes ?st1 a) = c" using n relink_ok(3) [of st k a a None] by simp
    moreover have "(case cptr k of None \<Rightarrow> None | Some p \<Rightarrow> if left (nodes st p) = Some a then right (nodes st p) else left (nodes st p)) = sibling_ptr k"
      using get_sibling_ptr [OF assms(1)] n by (simp add: get_sibling_def)
    ultimately have run: "remove_single st a = (if c = RBTREE_RED then Some ?st1 else removal_balancing ?st1 (sibling_ptr k))"
      using n True by (simp add: remove_single_def Let_def)
    show ?thesis
    proof (cases c)
      case RBTREE_RED
      then show ?thesis using run z1 inv True by (auto intro!: cutI simp: rb_plug)
    next
      case RBTREE_BLACK
      then have "settled ?st1 (removal_balancing ?st1 (sibling_ptr k)) (plug k E)" using z1(1) inv True by (intro removal_balancing_ok) simp_all
      then obtain st' T where st': "removal_balancing ?st1 (sibling_ptr k) = Some st'" "zrep st' [] T" "rb T" "inorder T = cl k @ cr k" "keeps (set (cl k @ cr k)) ?st1 st'"
        unfolding settled_def inorder_plug by auto
      have "keeps ?A st st'" using keeps_trans [OF z1(2) keeps_mono [OF st'(5)]] by (auto simp: inorder_plug)
      then show ?thesis using run RBTREE_BLACK st' True unfolding cut_def by auto
    qed
  next
    case False
    define ch where "ch = (if l = E then r else l)"
    obtain cb x b y where ch: "ch = N cb x b y" using False assms(2) ch_def by (cases l; cases r) auto
    have chp: "(if ptr l \<noteq> None then ptr l else ptr r) = Some b" using ch ch_def False assms(2) by (cases l; cases r) auto
    let ?h = "reparent (nodes st) (Some b) (cptr k)"
    have rch: "rep (nodes st) (Some a) ch" "distinct (inorder ch)" "set (inorder ch) \<subseteq> set (inorder ?t)" using r d ch_def by auto
    have hrep: "rep ?h (cptr k) ch" using rep_reparent [OF rch(1,2)] ch by simp
    have hout: "?h z = nodes st z" if "z \<notin> set (inorder ?t)" for z using that rch(3) ch by (auto simp: reparent_def)
    note z1 = zrep_replace [OF assms(1) _ hrep rch(3,2) hout]
    have b: "Some b \<noteq> cptr k" "a \<noteq> b"
    proof -
      have "b \<in> set (inorder ?t)" using rch(3) ch by auto
      then have "b \<notin> set (cl k) \<union> set (cr k)" using d by auto
      then show "Some b \<noteq> cptr k" using cptr_in [of k b] by metis
      show "a \<noteq> b" using d ch ch_def by (auto split: if_splits)
    qed
    let ?st1 = "relink (st\<lparr>nodes := ?h\<rparr>) (cptr k) a (Some b)"
    have "set_parent (relink st (cptr k) a (Some b)) b (cptr k) = ?st1"
      unfolding relink_set_parent [OF b] by (simp add: set_parent_def reparent_def)
    moreover have f: "parent (nodes st a) = cptr k" "left (nodes st a) = ptr l" "right (nodes st a) = ptr r" using n by simp_all
    ultimately have "remove_single st a = Some (set_color ?st1 b RBTREE_BLACK)" unfolding remove_single_def Let_def f chp by simp
    moreover have "zrep ?st1 k (N cb x b y)" "keeps ?A st ?st1" using z1 ch by simp_all
    then have "zrep (set_color ?st1 b RBTREE_BLACK) k (N RBTREE_BLACK x b y)" "keeps ?A st (set_color ?st1 b RBTREE_BLACK)"
      using zrep_color(1) keeps_trans [OF _ keeps_color [of b ?A]] rch(3) ch by (auto simp: inorder_plug)
    moreover have "rb (plug k (N RBTREE_BLACK x b y)) \<and> inorder (N RBTREE_BLACK x b y) = inorder l @ inorder r"
      using inv ch ch_def assms(2) False by (cases c; cases cb) (auto simp: rb_plug split: if_splits)
    ultimately show ?thesis by (auto intro!: cutI)
  qed
qed

lemma root_in_ctx: "repc h rt k p \<Longrightarrow> k \<noteq> [] \<Longrightarrow> \<exists>x \<in> set (cl k) \<union> set (cr k). rt = Some x"
proof (induction k arbitrary: p rule: cl.induct)
  case (2 c a s k)
  then show ?case by (cases "k = []") auto
next
  case (3 c s a k)
  then show ?case by (cases "k = []") auto
qed simp

lemma relink_upd:
  assumes "Some x \<noteq> p"
  shows "relink (st\<lparr>nodes := (nodes st)(x := n)\<rparr>) p a q = (relink st p a q)\<lparr>nodes := (nodes (relink st p a q))(x := n)\<rparr>"
    "nodes (relink st p a q) x = nodes st x"
  using assms by (auto simp: relink_def setters fun_upd_twist split: option.split)

lemma relink_reparent:
  assumes "x = None \<or> x \<noteq> p"
  shows "relink (st\<lparr>nodes := reparent (nodes st) x v\<rparr>) p a q = (relink st p a q)\<lparr>nodes := reparent (nodes (relink st p a q)) x v\<rparr>"
  using assms relink_upd(1) [of "the x" p st] relink_upd(2) [of "the x" p st] by (cases x) (simp_all add: reparent_def)

lemma set_fields:
  "set_color (set_right (set_left (set_parent st s p) s x) s y) s c = st\<lparr>nodes := (nodes st)(s := \<lparr>color = c, parent = p, left = x, right = y\<rparr>)\<rparr>"
  by (cases "nodes st s") (simp add: setters)

lemma reparent_upd: "x \<noteq> Some s \<Longrightarrow> reparent (h(s := n)) x v = (reparent h x v)(s := n)"
  by (auto simp: reparent_def fun_upd_twist split: option.split)

lemma set_parent_reparent: "(case x of None \<Rightarrow> st | Some l \<Rightarrow> set_parent st l v) = st\<lparr>nodes := reparent (nodes st) x v\<rparr>"
  by (auto simp: reparent_def set_parent_def split: option.split)

lemma replace_node_eq:
  assumes "zrep st k (N c l a r)" "s \<notin> zset k (N c l a r)"
  shows "replace_node st a s = relink (st\<lparr>nodes := (reparent (reparent (nodes st) (ptr l) (Some s)) (ptr r) (Some s))
    (s := \<lparr>color = c, parent = cptr k, left = ptr l, right = ptr r\<rparr>)\<rparr>) (cptr k) a (Some s)"
proof -
  let ?rec = "\<lparr>color = c, parent = cptr k, left = ptr l, right = ptr r\<rparr>"
  have n: "nodes st a = ?rec" by (rule zrep_node [OF assms(1)])
  have d: "distinct (cl k @ inorder (N c l a r) @ cr k)" using assms(1) by (simp add: zrep_def)
  have sn: "s \<noteq> a" "s \<notin> set (cl k) \<union> set (cr k)" "ptr l \<noteq> Some s" "ptr r \<noteq> Some s"
    using assms(2) ptr_in [of l s] ptr_in [of r s] by (auto simp: inorder_plug)
  have out: "x \<notin> set (cl k) \<union> set (cr k)" if "x \<in> set (inorder (N c l a r))" for x using d that by auto
  define st1 where "st1 = (case cptr k of None \<Rightarrow> st | Some p \<Rightarrow> relink st (cptr k) a (Some s))"
  have np: "Some x \<noteq> cptr k" if "x \<notin> set (cl k) \<union> set (cr k)" for x using cptr_in [of k x] that by metis
  have n1: "nodes st1 x = nodes st x" if "x \<notin> set (cl k) \<union> set (cr k)" for x
    using relink_upd(2) [OF np [OF that]] unfolding st1_def by (cases "cptr k") simp_all
  define st2 where "st2 = st1\<lparr>nodes := (nodes st1)(s := ?rec)\<rparr>"
  have f: "left (nodes (set_parent st1 s (cptr k)) a) = ptr l" "right (nodes (set_left (set_parent st1 s (cptr k)) s (ptr l)) a) = ptr r"
    "color (nodes (set_right (set_left (set_parent st1 s (cptr k)) s (ptr l)) s (ptr r)) a) = c"
    using n1 [of a] out [of a] n sn(1) by (simp_all add: setters)
  define st3 where "st3 = st1\<lparr>nodes := (reparent (reparent (nodes st1) (ptr l) (Some s)) (ptr r) (Some s))(s := ?rec)\<rparr>"
  have run: "replace_node st a s = (if root st3 = Some a then st3\<lparr>root := Some s\<rparr> else st3)"
  proof -
    have p: "parent (nodes st a) = cptr k" using n by simp
    have lr: "left (nodes (st1\<lparr>nodes := (nodes st1)(s := ?rec)\<rparr>) s) = ptr l"
        "right (nodes (st1\<lparr>nodes := (reparent (nodes st1) (ptr l) (Some s))(s := ?rec)\<rparr>) s) = ptr r" by simp_all
    show ?thesis unfolding replace_node_def Let_def p st1_def [symmetric] f set_fields set_parent_reparent lr(1)
      using sn(3,4) lr by (simp add: reparent_upd st3_def)
  qed
  show ?thesis
  proof (cases "cptr k")
    case None
    then have k: "k = []" "root st = Some a" using assms(1) by (cases k rule: cptr.cases; simp add: zrep_def)+
    then show ?thesis using run None by (simp add: st3_def st1_def relink_def)
  next
    case (Some p)
    have rt: "root st \<noteq> Some a"
    proof -
      have "repc (nodes st) (root st) k (Some a)" "k \<noteq> []" using assms(1) Some by (auto simp: zrep_def)
      then show ?thesis using root_in_ctx out [of a] by fastforce
    qed
    have "root st3 = root st" using Some by (simp add: st3_def st1_def relink_def setters)
    moreover have "ptr l = None \<or> ptr l \<noteq> cptr k" "ptr r = None \<or> ptr r \<noteq> cptr k" "Some s \<noteq> cptr k"
      using np out sn(2) ptr_in [of l] ptr_in [of r] by (cases "ptr l"; cases "ptr r"; fastforce)+
    then have "relink (st\<lparr>nodes := (reparent (reparent (nodes st) (ptr l) (Some s)) (ptr r) (Some s)) (s := ?rec)\<rparr>) (cptr k) a (Some s) = st3"
      using relink_upd(1) [of s "cptr k" "st\<lparr>nodes := reparent (reparent (nodes st) (ptr l) (Some s)) (ptr r) (Some s)\<rparr>" ?rec a "Some s"]
        relink_reparent [of "ptr r" "cptr k" "st\<lparr>nodes := reparent (nodes st) (ptr l) (Some s)\<rparr>" "Some s" a "Some s"]
        relink_reparent [of "ptr l" "cptr k" st "Some s" a "Some s"] Some by (simp add: st3_def st1_def)
    ultimately show ?thesis using run rt by simp
  qed
qed

lemma replace_node_ok:
  assumes "zrep st k (N c l a r)" "s \<notin> zset k (N c l a r)"
  shows "zrep (replace_node st a s) k (N c l s r)" "keeps (insert s (zset k (N c l a r))) st (replace_node st a s)"
proof -
  let ?h = "(reparent (reparent (nodes st) (ptr l) (Some s)) (ptr r) (Some s))(s := \<lparr>color = c, parent = cptr k, left = ptr l, right = ptr r\<rparr>)"
  have d: "distinct (cl k @ inorder (N c l a r) @ cr k)" and rp: "rep (nodes st) (Some a) l" "rep (nodes st) (Some a) r"
    using assms(1) by (simp_all add: zrep_def)
  have sl: "s \<notin> set (inorder l)" "s \<notin> set (inorder r)" "s \<notin> set (cl k @ cr k)" using assms(2) by (auto simp: inorder_plug)
  have l: "rep ?h (Some s) l"
  proof -
    have "rep ?h (Some s) l = rep (reparent (nodes st) (ptr l) (Some s)) (Some s) l"
      using d sl ptr_in [of r] by (intro rep_cong) (auto simp: reparent_def split: option.split)
    then show ?thesis using rep_reparent [OF rp(1)] d by simp
  qed
  have r: "rep ?h (Some s) r"
  proof -
    have "rep ?h (Some s) r = rep (reparent (nodes st) (ptr r) (Some s)) (Some s) r"
      using d sl ptr_in [of l] by (intro rep_cong) (auto simp: reparent_def split: option.split)
    then show ?thesis using rep_reparent [OF rp(2)] d by simp
  qed
  have "rep ?h (cptr k) (N c l s r)" using l r by simp
  moreover have "?h x = nodes st x" if "x \<in> set (cl k @ cr k)" for x
  proof -
    have "ptr l \<noteq> Some x" "ptr r \<noteq> Some x" "x \<noteq> s" using that d sl ptr_in [of l x] ptr_in [of r x] by auto
    then show ?thesis by (simp add: reparent_other)
  qed
  moreover have "?h x = nodes st x" if "x \<notin> insert s (zset k (N c l a r))" for x
  proof -
    have "ptr l \<noteq> Some x" "ptr r \<noteq> Some x" "x \<noteq> s" using that ptr_in [of l x] ptr_in [of r x] by (auto simp: inorder_plug)
    then show ?thesis by (simp add: reparent_other)
  qed
  moreover have "set (inorder (N c l s r)) \<inter> set (cl k @ cr k) = {}" "distinct (inorder (N c l s r))" using d sl by auto
  ultimately show "zrep (replace_node st a s) k (N c l s r)" "keeps (insert s (zset k (N c l a r))) st (replace_node st a s)"
    using zrep_replace_gen [where h = ?h and A = "insert s (zset k (N c l a r))" and t' = "N c l s r", OF assms(1)]
    unfolding replace_node_eq [OF assms] by auto
qed

lemma plug_append: "plug (k @ k') t = plug k' (plug k t)"
  by (induction k t rule: plug.induct) auto

lemma min_split: "r \<noteq> E \<Longrightarrow> \<exists>k' c r'. (\<forall>k. plug k r = plug (k' @ k) (N c E (hd (inorder r)) r') \<and> cl (k' @ k) = cl k)"
proof (induction r)
  case (N c l a r)
  show ?case
  proof (cases "l = E")
    case True
    then show ?thesis by (intro exI [of _ "[]"] exI [of _ c] exI [of _ r]) simp
  next
    case False
    then obtain k' c' r' where "\<forall>k. plug k l = plug (k' @ k) (N c' E (hd (inorder l)) r') \<and> cl (k' @ k) = cl k" using N.IH(1) by blast
    moreover have "hd (inorder (N c l a r)) = hd (inorder l)" using False by (cases l) (simp_all add: hd_append)
    ultimately have "\<forall>k. plug k (N c l a r) = plug ((k' @ [FL c a r]) @ k) (N c' E (hd (inorder (N c l a r))) r') \<and> cl ((k' @ [FL c a r]) @ k) = cl k"
      by (metis plug.simps(2) append.assoc append_Cons append_Nil cl.simps(2))
    then show ?thesis by blast
  qed
qed simp

lemma split_at: "a \<in> set (inorder t) \<Longrightarrow> \<exists>k c l r. t = plug k (N c l a r)"
proof (induction t)
  case (N c l x r)
  consider "a = x" | "a \<in> set (inorder l)" | "a \<in> set (inorder r)" using N.prems by auto
  then show ?case
  proof cases
    case 1
    then show ?thesis by (metis plug.simps(1))
  next
    case 2
    then obtain k c' l' r' where "l = plug k (N c' l' a r')" using N.IH(1) by blast
    then have "N c l x r = plug (k @ [FL c x r]) (N c' l' a r')" by (simp add: plug_append)
    then show ?thesis by blast
  next
    case 3
    then obtain k c' l' r' where "r = plug k (N c' l' a r')" using N.IH(2) by blast
    then have "N c l x r = plug (k @ [FR c l x]) (N c' l' a r')" by (simp add: plug_append)
    then show ?thesis by blast
  qed
qed simp


section \<open>Removal\<close>

definition removed :: "rbtree \<Rightarrow> nat \<Rightarrow> nat list \<Rightarrow> nat set \<Rightarrow> bool" where
  "removed st a xs A \<longleftrightarrow> (\<exists>st'. rbtree_remove st a = Some st' \<and> rbtree_ok st' xs \<and> (\<forall>x. x \<notin> A \<longrightarrow> nodes st' x = nodes st x))"

lemma advance_first:
  assumes "zrep st k (N c l a r)" "first st = hd_opt (cl k @ inorder (N c l a r) @ cr k)"
  shows "(if first st = Some a then do { n \<leftarrow> rbtree_next st a; Some (st\<lparr>first := n\<rparr>) } else Some st) =
    Some (st\<lparr>first := hd_opt (cl k @ inorder l @ inorder r @ cr k)\<rparr>)"
proof (cases "first st = Some a")
  case True
  then have "cl k = []" "inorder l = []" using assms by (cases "cl k"; cases "inorder l"; force simp: zrep_def)+
  then show ?thesis using True rbtree_next_ok [OF assms(1)] by simp
next
  case False
  then have "first st = hd_opt (cl k @ inorder l @ inorder r @ cr k)" using assms(2) by (cases "cl k"; cases "inorder l"; simp)
  then show ?thesis using False by simp
qed

lemma zrep_set_first: "zrep (st\<lparr>first := f\<rparr>) k t = zrep st k t"
  by (simp add: zrep_def)

lemma remove_outer:
  assumes "zrep st k (N c l a r)" "rb (plug k (N c l a r))" "l = E \<or> r = E" "first st = hd_opt (cl k @ inorder (N c l a r) @ cr k)"
  shows "removed st a (cl k @ inorder l @ inorder r @ cr k) (zset k (N c l a r))"
proof -
  let ?st = "st\<lparr>first := hd_opt (cl k @ inorder l @ inorder r @ cr k)\<rparr>"
  have z: "zrep ?st k (N c l a r)" using assms(1) by (simp add: zrep_set_first)
  have "left (nodes ?st a) = None \<or> right (nodes ?st a) = None" using zrep_node [OF z] assms(3) by auto
  then have "rbtree_remove st a = remove_single ?st a"
    by (subst rbtree_remove.simps) (unfold advance_first [OF assms(1,4)], auto)
  then show ?thesis using remove_single_ok [OF z assms(3,2)]
    by (auto simp: removed_def cut_def rbtree_ok_def keeps_def)
qed

lemma rbtree_okD:
  assumes "rbtree_ok st xs" "a \<in> set xs"
  obtains k c l r where "zrep st k (N c l a r)" "rb (plug k (N c l a r))" "cl k @ inorder l @ a # inorder r @ cr k = xs" "first st = hd_opt xs"
proof -
  obtain T where T: "zrep st [] T" "rb T" "inorder T = xs" using assms(1) by (auto simp: rbtree_ok_def)
  obtain k c l r where "T = plug k (N c l a r)" using split_at assms(2) T(3) by blast
  then have "zrep st k (N c l a r)" "rb (plug k (N c l a r))" "cl k @ inorder l @ a # inorder r @ cr k = xs"
    using T zrep_plug [of st k "N c l a r"] by (simp_all add: inorder_plug flip: T(3))
  then show ?thesis using that assms(1) by (auto simp: rbtree_ok_def)
qed

lemma remove_inner:
  assumes "zrep st k (N c l a r)" "rb (plug k (N c l a r))" "l \<noteq> E" "r \<noteq> E" "first st = hd_opt (cl k @ inorder (N c l a r) @ cr k)"
  shows "removed st a (cl k @ inorder l @ inorder r @ cr k) (zset k (N c l a r))"
proof -
  let ?A = "zset k (N c l a r)"
  have d: "distinct (cl k @ inorder (N c l a r) @ cr k)" using assms(1) by (simp add: zrep_def)
  obtain c0 l0 b0 r0 where r0: "r = N c0 l0 b0 r0" using assms(4) by (cases r) auto
  obtain s ys where ra: "inorder r = s # ys" using r0 by (cases "inorder r") auto
  have n: "nodes st a = \<lparr>color = c, parent = cptr k, left = ptr l, right = ptr r\<rparr>" by (rule zrep_node [OF assms(1)])
  have m: "get_min_node st b0 = Some s" using get_min_node_ok [of st "Some a" c0 l0 b0 r0] assms(1) r0 ra by (simp add: zrep_def)
  have lr: "ptr l \<noteq> None" "ptr r = Some b0" using assms(3) r0 by (cases l; simp)+
  have ff: "first st \<noteq> Some a" using assms(3,5) d by (cases "cl k"; cases l; cases "inorder l"; auto)
  obtain k' c' r' where k': "plug (FR c l a # k) r = plug (k' @ FR c l a # k) (N c' E s r')" "cl (k' @ FR c l a # k) = cl (FR c l a # k)"
    using min_split [OF assms(4)] ra by (metis list.sel(1))
  let ?k = "k' @ FR c l a # k"
  have pl: "plug ?k (N c' E s r') = plug k (N c l a r)" using k'(1) by simp
  have z: "zrep st ?k (N c' E s r')" using assms(1) zrep_plug by (metis pl)
  have io: "cl ?k @ s # inorder r' @ cr ?k = cl k @ inorder l @ a # inorder r @ cr k"
    using arg_cong [OF pl, of inorder] by (simp add: inorder_plug)
  then have "s # inorder r' @ cr ?k = inorder r @ cr k" using k'(2) by simp
  then have tl: "inorder r' @ cr ?k = ys @ cr k" using ra by simp
  have fst: "first st = hd_opt (cl ?k @ inorder (N c' E s r') @ cr ?k)" using assms(5) io by simp
  have "removed st s (cl ?k @ inorder E @ inorder r' @ cr ?k) (zset ?k (N c' E s r'))"
    by (rule remove_outer [OF z _ _ fst]) (use assms(2) pl in simp_all)
  then obtain st1 where st1: "rbtree_remove st s = Some st1" "rbtree_ok st1 (cl k @ inorder l @ a # ys @ cr k)" "\<forall>x. x \<notin> ?A \<longrightarrow> nodes st1 x = nodes st x"
    unfolding removed_def pl using tl k'(2) by auto
  obtain k1 c1 l1 r1 where z1: "zrep st1 k1 (N c1 l1 a r1)" "rb (plug k1 (N c1 l1 a r1))"
      "cl k1 @ inorder l1 @ a # inorder r1 @ cr k1 = cl k @ inorder l @ a # ys @ cr k" "first st1 = hd_opt (cl k @ inorder l @ a # ys @ cr k)"
    by (rule rbtree_okD [OF st1(2)]) auto
  have da: "a \<notin> set (cl k @ inorder l)" "a \<notin> set (ys @ cr k)" "s \<notin> set (cl k @ inorder l @ a # ys @ cr k)"
    using d ra by auto
  have "distinct (cl k1 @ inorder l1 @ a # inorder r1 @ cr k1)" using z1(1) by (simp add: zrep_def)
  then have "a \<notin> set (cl k1 @ inorder l1)" "a \<notin> set (inorder r1 @ cr k1)" by auto
  then have sp: "cl k1 @ inorder l1 = cl k @ inorder l" "inorder r1 @ cr k1 = ys @ cr k"
    using z1(3) append_Cons_eq_iff [of a "cl k1 @ inorder l1" "inorder r1 @ cr k1" "cl k @ inorder l" "ys @ cr k"] by auto
  have "s \<notin> zset k1 (N c1 l1 a r1)" using da(3) z1(3) by (metis inorder_plug inorder.simps(2) append.assoc append_Cons)
  note rp = replace_node_ok [OF z1(1) this]
  have "rb (plug k1 (N c1 l1 s r1))" using z1(2) unfolding rb_plug bh.simps invc.simps invh.simps col.simps .
  moreover have "inorder (plug k1 (N c1 l1 s r1)) = cl k @ inorder l @ inorder r @ cr k"
    using sp ra by (simp add: inorder_plug)
  moreover have "first (replace_node st1 a s) = hd_opt (cl k @ inorder l @ inorder r @ cr k)"
    using rp(2) z1(4) assms(3) by (cases "cl k"; cases l; cases "inorder l"; auto simp: keeps_def hd_opt_def)
  ultimately have "rbtree_ok (replace_node st1 a s) (cl k @ inorder l @ inorder r @ cr k)"
    using rp(1) zrep_plug unfolding rbtree_ok_def by blast
  moreover have "insert s (zset k1 (N c1 l1 a r1)) = ?A"
    using arg_cong [OF z1(3), of set] ra by (auto simp: inorder_plug)
  then have "\<forall>x. x \<notin> ?A \<longrightarrow> nodes (replace_node st1 a s) x = nodes st x" using rp(2) st1(3) by (simp add: keeps_def)
  moreover have "rbtree_remove st a = Some (replace_node st1 a s)"
    using ff n lr m st1(1) by (subst rbtree_remove.simps) simp
  ultimately show ?thesis unfolding removed_def by blast
qed

lemma rbtree_remove_ok:
  assumes "rbtree_ok st xs" "a \<in> set xs"
  shows "removed st a (remove1 a xs) (set xs)"
proof -
  obtain k c l r where z: "zrep st k (N c l a r)" "rb (plug k (N c l a r))" and xs: "cl k @ inorder l @ a # inorder r @ cr k = xs" and f: "first st = hd_opt xs"
    using rbtree_okD [OF assms] .
  have "distinct xs" using z(1) xs by (auto simp: zrep_def)
  then have "remove1 a xs = cl k @ inorder l @ inorder r @ cr k" "set xs = zset k (N c l a r)"
    unfolding xs [symmetric] by (auto simp: remove1_append inorder_plug)
  then show ?thesis using remove_outer [OF z] remove_inner [OF z] f xs by (cases "l = E \<or> r = E") auto
qed


section \<open>Insertion and search by key\<close>

definition last_opt :: "'a list \<Rightarrow> 'a option" where
  "last_opt xs = hd_opt (rev xs)"

lemma last_opt_simps [simp]: "last_opt [] = None" "last_opt [x] = Some x" "last_opt (xs @ [x]) = Some x"
  by (simp_all add: last_opt_def)

lemma hd_opt_append: "hd_opt (xs @ ys) = (if xs = [] then hd_opt ys else hd_opt xs)"
  by (cases xs) auto

lemma last_opt_append: "last_opt (xs @ ys) = (if ys = [] then last_opt xs else last_opt ys)"
  by (simp add: last_opt_def hd_opt_append)

lemma ascending_distinct: "ascending key xs \<Longrightarrow> distinct xs"
  by (induction xs) auto

lemma ascending_insort:
  assumes "ascending key ys" "ascending key xs" "set ys = insert a (set xs)" "a \<notin> set xs"
  shows "ys = insort_key key a xs"
proof -
  have inj: "inj_on key (set ys)"
    using assms(1) by (auto simp: inj_on_def set_conv_nth sorted_wrt_iff_nth_less) (metis linorder_neq_iff)
  have srt: "sorted (map key ys)" "sorted (map key xs)" using assms(1,2) by (auto simp: sorted_map sorted_wrt_map elim: sorted_wrt_mono_rel [rotated])
  have d: "distinct ys" "distinct xs" using assms(1,2) by (auto dest: ascending_distinct)
  show ?thesis
    by (rule map_sorted_distinct_set_unique) (use inj srt d assms(3,4) in \<open>auto simp: sorted_insort_key distinct_insort set_insort_key distinct_map\<close>)
qed

lemma rbtree_insert_ok:
  assumes "orders key cmp key" "rbtree_ok st xs" "ascending key xs" "a \<notin> set xs"
  shows "\<exists>st'. rbtree_insert cmp st a = Some st' \<and> rbtree_ok st' (if \<exists>x \<in> set xs. key x = key a then xs else insort_key key a xs) \<and>
    (\<forall>x. x \<notin> insert a (set xs) \<longrightarrow> nodes st' x = nodes st x)"
proof -
  obtain T where T: "zrep st [] T" "rb T" "inorder T = xs" and f: "first st = hd_opt xs" using assms(2) by (auto simp: rbtree_ok_def)
  have r: "root st = ptr T" using T(1) by (simp add: zrep_def)
  have "if \<exists>x \<in> set xs. key x = key a then rbtree_insert cmp st a = Some st
    else \<exists>st' ys. rbtree_insert cmp st a = Some st' \<and> rbtree_ok st' ys \<and> ascending key ys \<and>
      set ys = insert a (set xs) \<and> (\<forall>x. x \<notin> set ys \<longrightarrow> nodes st' x = nodes st x)"
    using insert_loop_ok [OF assms(1) T(1), of a] T(2,3) f assms(3,4) r
    by (cases "\<exists>x \<in> set xs. key x = key a") (simp_all add: rbtree_insert_def)
  then show ?thesis using assms(2) ascending_insort [OF _ assms(3) _ assms(4)] by (auto split: if_splits)
qed

lemma find_loop_ok:
  assumes "orders key cmp_to key'" "rep (nodes st) par t" "ascending key (ls @ inorder t @ rs)"
    "\<forall>x \<in> set ls. key x < key' q" "\<forall>x \<in> set rs. key' q < key x"
  shows "find_loop cmp_to st (ptr t) \<lparr>lower = last_opt ls, upper = hd_opt rs\<rparr> q =
    Some \<lparr>lower = last_opt (filter (\<lambda>x. key x \<le> key' q) (ls @ inorder t @ rs)), upper = hd_opt (filter (\<lambda>x. key' q \<le> key x) (ls @ inorder t @ rs))\<rparr>"
  using assms(2-5)
proof (induction t arbitrary: par ls rs)
  case E
  have "filter (\<lambda>x. key x \<le> key' q) ls = ls" "filter (\<lambda>x. key x \<le> key' q) rs = []"
    "filter (\<lambda>x. key' q \<le> key x) ls = []" "filter (\<lambda>x. key' q \<le> key x) rs = rs"
    using E.prems by (auto simp: filter_empty_conv filter_id_conv less_imp_le not_le)
  then show ?case by (subst find_loop.simps) simp
next
  case (N c l a r)
  let ?R = "\<lambda>xs. Some \<lparr>lower = last_opt (filter (\<lambda>x. key x \<le> key' q) xs), upper = hd_opt (filter (\<lambda>x. key' q \<le> key x) xs)\<rparr>"
  have n: "nodes st a = \<lparr>color = c, parent = par, left = ptr l, right = ptr r\<rparr>" using N.prems(1) by simp
  have rp: "rep (nodes st) (Some a) l" "rep (nodes st) (Some a) r" using N.prems(1) by simp_all
  have e: "(ls @ inorder l @ [a]) @ inorder r @ rs = ls @ inorder (N c l a r) @ rs" "ls @ inorder l @ a # inorder r @ rs = ls @ inorder (N c l a r) @ rs" by simp_all
  have o: "cmp_to a q < 0 \<longleftrightarrow> key a < key' q" "cmp_to a q > 0 \<longleftrightarrow> key' q < key a" using assms(1) by (auto simp: orders_def)
  consider "key a < key' q" | "key' q < key a" | "key a = key' q" by (metis linorder_neqE)
  then show ?case
  proof cases
    case 1
    have "\<forall>x \<in> set (ls @ inorder l @ [a]). key x < key' q" using N.prems(2,3) 1 by (force simp: sorted_wrt_append)
    then have "find_loop cmp_to st (ptr r) \<lparr>lower = last_opt (ls @ inorder l @ [a]), upper = hd_opt rs\<rparr> q = ?R (ls @ inorder (N c l a r) @ rs)"
      using N.IH(2) [of "Some a" "ls @ inorder l @ [a]" rs, unfolded e(1)] N.prems rp by blast
    moreover have "find_loop cmp_to st (ptr (N c l a r)) \<lparr>lower = last_opt ls, upper = hd_opt rs\<rparr> q =
        find_loop cmp_to st (ptr r) \<lparr>lower = last_opt (ls @ inorder l @ [a]), upper = hd_opt rs\<rparr> q"
      using o(1) 1 n by (subst find_loop.simps) (simp add: last_opt_append)
    ultimately show ?thesis by (rule trans [rotated])
  next
    case 2
    have "\<forall>x \<in> set (inorder r). key a < key x" using N.prems(2) by (simp add: sorted_wrt_append)
    then have "\<forall>x \<in> set (a # inorder r @ rs). key' q < key x" using N.prems(4) 2 by (auto dest: less_trans [OF 2])
    then have "find_loop cmp_to st (ptr l) \<lparr>lower = last_opt ls, upper = hd_opt (a # inorder r @ rs)\<rparr> q = ?R (ls @ inorder (N c l a r) @ rs)"
      using N.IH(1) [of "Some a" ls "a # inorder r @ rs", unfolded e(2)] N.prems rp by blast
    moreover have "\<not> cmp_to a q < 0" "cmp_to a q > 0" using o 2 by auto
    then have "find_loop cmp_to st (ptr (N c l a r)) \<lparr>lower = last_opt ls, upper = hd_opt rs\<rparr> q =
        find_loop cmp_to st (ptr l) \<lparr>lower = last_opt ls, upper = hd_opt (a # inorder r @ rs)\<rparr> q"
      using n by (subst find_loop.simps) simp
    ultimately show ?thesis by (rule trans [rotated])
  next
    case 3
    have l: "\<forall>x \<in> set (ls @ inorder l). key x < key' q" "\<forall>x \<in> set (inorder r @ rs). key' q < key x"
      using N.prems(2) 3 by (auto simp: sorted_wrt_append)
    have "filter (\<lambda>x. key' q \<le> key x) (ls @ inorder l) = []" "filter (\<lambda>x. key x \<le> key' q) (inorder r @ rs) = []"
      using l by (auto simp: filter_empty_conv not_le)
    then have "filter (\<lambda>x. key' q \<le> key x) ((ls @ inorder l) @ a # inorder r @ rs) = a # filter (\<lambda>x. key' q \<le> key x) (inorder r @ rs)"
      "filter (\<lambda>x. key x \<le> key' q) ((ls @ inorder l) @ a # inorder r @ rs) = filter (\<lambda>x. key x \<le> key' q) (ls @ inorder l) @ [a]"
      using 3 by (simp_all only: filter_append) simp_all
    moreover have "\<not> cmp_to a q < 0" "\<not> cmp_to a q > 0" using o 3 by simp_all
    ultimately show ?thesis by (subst find_loop.simps) (simp add: last_opt_append)
  qed
qed

lemma rbtree_find_ok:
  assumes "orders key cmp_to key'" "rbtree_ok st xs" "ascending key xs"
  shows "rbtree_find cmp_to st q = Some \<lparr>lower = last_opt (filter (\<lambda>x. key x \<le> key' q) xs), upper = hd_opt (filter (\<lambda>x. key' q \<le> key x) xs)\<rparr>"
proof -
  obtain T where T: "zrep st [] T" "inorder T = xs" using assms(2) by (auto simp: rbtree_ok_def)
  then show ?thesis using find_loop_ok [OF assms(1), of st None T "[]" "[]" q] assms(3) by (simp add: rbtree_find_def zrep_def)
qed

lemma rbtree_walk_ok:
  assumes "rbtree_ok st xs" "i < length xs"
  shows "rbtree_next st (xs ! i) = Some (if Suc i < length xs then Some (xs ! Suc i) else None)"
proof -
  obtain k c l r where z: "zrep st k (N c l (xs ! i) r)" and xs: "cl k @ inorder l @ xs ! i # inorder r @ cr k = xs"
    using rbtree_okD [OF assms(1), of "xs ! i"] assms(2) by (metis nth_mem)
  have "distinct xs" using z xs by (auto simp: zrep_def)
  let ?n = "length (cl k @ inorder l)"
  have "xs ! ?n = xs ! i" "?n < length xs" by (subst xs [symmetric], simp add: nth_append)+
  then have n: "?n = i" using \<open>distinct xs\<close> assms(2) nth_eq_iff_index_eq by blast
  have "drop (Suc ?n) xs = inorder r @ cr k" by (subst xs [symmetric]) simp
  then have "hd_opt (inorder r @ cr k) = hd_opt (drop (Suc i) xs)" using n by simp
  then show ?thesis using rbtree_next_ok [OF z] by (cases "Suc i < length xs") (simp_all flip: Cons_nth_drop_Suc)
qed

section \<open>Runs of operations\<close>

datatype rbtree_op = Insert nat | Remove nat

fun rbtree_run :: "(nat \<Rightarrow> nat \<Rightarrow> int) \<Rightarrow> rbtree \<Rightarrow> rbtree_op list \<Rightarrow> rbtree option" where
  "rbtree_run cmp st [] = Some st"
| "rbtree_run cmp st (Insert a # ops) = do { st \<leftarrow> rbtree_insert cmp st a; rbtree_run cmp st ops }"
| "rbtree_run cmp st (Remove a # ops) = do { st \<leftarrow> rbtree_remove st a; rbtree_run cmp st ops }"

text \<open>The abstract tree: the list of the nodes in the order of their keys. A node is inserted when it is in
  no tree and removed when it is in this one.\<close>

fun list_run :: "(nat \<Rightarrow> 'k :: linorder) \<Rightarrow> nat list \<Rightarrow> rbtree_op list \<Rightarrow> nat list option" where
  "list_run key xs [] = Some xs"
| "list_run key xs (Insert a # ops) = (if a \<in> set xs then None
     else list_run key (if key a \<in> key ` set xs then xs else insort_key key a xs) ops)"
| "list_run key xs (Remove a # ops) = (if a \<in> set xs then list_run key (remove1 a xs) ops else None)"

lemma ascending_insort_key: "ascending key xs \<Longrightarrow> key a \<notin> key ` set xs \<Longrightarrow> ascending key (insort_key key a xs)"
  by (induction xs) (auto simp: set_insort_key)

lemma ascending_remove1: "ascending key xs \<Longrightarrow> ascending key (remove1 a xs)"
  by (induction xs) (auto dest: notin_set_remove1)

lemma rbtree_run_ok:
  assumes "orders key cmp key" "list_run key xs ops = Some ys" "rbtree_ok st xs" "ascending key xs"
  shows "\<exists>st'. rbtree_run cmp st ops = Some st' \<and> rbtree_ok st' ys \<and> ascending key ys"
  using assms(2-4)
proof (induction ops arbitrary: xs st)
  case (Cons p ops)
  show ?case
  proof (cases p)
    case (Insert a)
    let ?xs = "if \<exists>x \<in> set xs. key x = key a then xs else insort_key key a xs"
    have i: "(\<exists>x \<in> set xs. key x = key a) \<longleftrightarrow> key a \<in> key ` set xs" by (auto simp: image_iff) metis
    have a: "a \<notin> set xs" "list_run key ?xs ops = Some ys" using Cons.prems(1) Insert unfolding i by (auto split: if_splits)
    obtain st' where st': "rbtree_insert cmp st a = Some st'" "rbtree_ok st' ?xs"
      using rbtree_insert_ok [OF assms(1) Cons.prems(2,3) a(1)] by blast
    have "ascending key ?xs" using Cons.prems(3) ascending_insort_key [of key xs a] i by auto
    then show ?thesis using Cons.IH [OF a(2) st'(2)] st'(1) Insert by simp
  next
    case (Remove a)
    have a: "a \<in> set xs" "list_run key (remove1 a xs) ops = Some ys" using Cons.prems(1) Remove by (auto split: if_splits)
    obtain st' where st': "rbtree_remove st a = Some st'" "rbtree_ok st' (remove1 a xs)"
      using rbtree_remove_ok [OF Cons.prems(2) a(1)] by (auto simp: removed_def)
    then show ?thesis using Cons.IH [OF a(2) st'(2) ascending_remove1 [OF Cons.prems(3)]] st'(1) Remove by simp
  qed
qed simp

lemma rbtree_init_ok: "rbtree_ok (rbtree_init st) []"
  by (auto simp: rbtree_ok_def rbtree_init_def zrep_def rb_def intro!: exI [of _ E])

text \<open>The length of the longest path in a red-black tree.\<close>

fun depth :: "rbt \<Rightarrow> nat" where
  "depth E = 0"
| "depth (N c l a r) = Suc (max (depth l) (depth r))"

lemma depth_bh: "invc t \<Longrightarrow> invh t \<Longrightarrow> depth t \<le> 2 * bh t + (if col t = RBTREE_RED then 1 else 0)"
proof (induction t)
  case (N c l a r)
  then show ?case by (cases c) (auto split: if_splits)
qed simp

lemma size_bh: "invh t \<Longrightarrow> 2 ^ bh t \<le> length (inorder t) + 1"
proof (induction t)
  case (N c l a r)
  then have "2 ^ bh l \<le> length (inorder l) + 1" "2 ^ bh l \<le> length (inorder r) + 1" by auto
  then show ?case by (cases c) simp_all
qed simp


section \<open>Properties\<close>

text \<open>C25. After any run of insertions and removals on an initialised tree, in which only nodes outside the
  tree are inserted and only nodes of the tree are removed, every call returned (no null pointer was
  followed, no loop ran on) and the tree answers as the list of its nodes sorted by key does: the first
  node and the successor of each node are those of the list, and a search finds the nearest nodes at or below
  and at or above the key. An insertion of a node whose key is present changes nothing.\<close>

theorem rbtree_refines_sorted_list:
  assumes "orders key cmp key" "orders key cmp_to key'" "list_run key [] ops = Some xs"
  shows "\<exists>st'. rbtree_run cmp (rbtree_init st) ops = Some st' \<and>
    rbtree_first st' = (if xs = [] then None else Some (hd xs)) \<and>
    (\<forall>i < length xs. rbtree_next st' (xs ! i) = Some (if Suc i < length xs then Some (xs ! Suc i) else None)) \<and>
    (\<forall>q. rbtree_find cmp_to st' q = Some \<lparr>lower = last_opt (filter (\<lambda>x. key x \<le> key' q) xs), upper = hd_opt (filter (\<lambda>x. key' q \<le> key x) xs)\<rparr>)"
proof -
  obtain st' where "rbtree_run cmp (rbtree_init st) ops = Some st'" and ok: "rbtree_ok st' xs" "ascending key xs"
    using rbtree_run_ok [OF assms(1,3) rbtree_init_ok [of st]] by auto
  moreover have "rbtree_first st' = (if xs = [] then None else Some (hd xs))"
    using ok(1) by (cases xs) (simp_all add: rbtree_ok_def rbtree_first_def)
  moreover note rbtree_walk_ok [OF ok(1)] rbtree_find_ok [OF assms(2) ok]
  ultimately show ?thesis by blast
qed

theorem rbtree_refines_sorted_list_witness:
  "\<exists>st'. rbtree_run (\<lambda>a b. int a - int b) (rbtree_init \<lparr>root = None, first = None, nodes = \<lambda>_. \<lparr>color = RBTREE_RED, parent = None, left = None, right = None\<rparr>\<rparr>)
      [Insert 4, Insert 2, Insert 9, Insert 7, Remove 4] = Some st' \<and>
    rbtree_first st' = Some 2 \<and> rbtree_next st' 7 = Some (Some 9) \<and>
    rbtree_find (\<lambda>a b. int a - int b) st' 5 = Some \<lparr>lower = Some 2, upper = Some 7\<rparr>"
proof -
  have o: "orders id (\<lambda>a b. int a - int b) id" by (simp add: orders_def)
  have l: "list_run id [] [Insert 4, Insert 2, Insert 9, Insert 7, Remove 4] = Some [2, 7, 9]" by simp
  obtain st' where st': "rbtree_run (\<lambda>a b. int a - int b) (rbtree_init \<lparr>root = None, first = None, nodes = \<lambda>_. \<lparr>color = RBTREE_RED, parent = None, left = None, right = None\<rparr>\<rparr>)
      [Insert 4, Insert 2, Insert 9, Insert 7, Remove 4] = Some st'" "rbtree_first st' = Some 2"
    "\<forall>i < 3. rbtree_next st' ([2, 7, 9] ! i) = Some (if Suc i < 3 then Some ([2, 7, 9] ! Suc i) else None)"
    "rbtree_find (\<lambda>a b. int a - int b) st' 5 = Some \<lparr>lower = last_opt [2], upper = hd_opt [7, 9]\<rparr>"
    using rbtree_refines_sorted_list [OF o o l, of "\<lparr>root = None, first = None, nodes = \<lambda>_. \<lparr>color = RBTREE_RED, parent = None, left = None, right = None\<rparr>\<rparr>"]
    by (force simp: eval_nat_numeral)
  have "rbtree_next st' 7 = Some (Some 9)" using st'(3) [rule_format, of 1] by simp
  then show ?thesis using st'(1,2,4) by (auto simp: last_opt_def)
qed

text \<open>C26. In every tree such a run reaches, the nodes are reached from the root through mutually consistent child
  and parent pointers, the colours obey the red-black rules, and no path from the root is longer than twice the
  binary logarithm of the number of nodes plus one, which bounds the number of steps of every search.\<close>

theorem rbtree_run_balanced:
  assumes "orders key cmp key" "list_run key [] ops = Some xs"
  shows "\<exists>st' T. rbtree_run cmp (rbtree_init st) ops = Some st' \<and> root st' = ptr T \<and> rep (nodes st') None T \<and> inorder T = xs \<and>
    invc T \<and> invh T \<and> col T = RBTREE_BLACK \<and> depth T \<le> 2 * bh T \<and> 2 ^ bh T \<le> length xs + 1"
proof -
  obtain st' T where st': "rbtree_run cmp (rbtree_init st) ops = Some st'" "zrep st' [] T" "rb T" "inorder T = xs"
    using rbtree_run_ok [OF assms rbtree_init_ok [of st]] by (auto simp: rbtree_ok_def)
  have "depth T \<le> 2 * bh T" "2 ^ bh T \<le> length xs + 1" using depth_bh [of T] size_bh [of T] st'(3,4) by (auto simp: rb_def)
  then show ?thesis using st' by (intro exI [of _ st'] exI [of _ T]) (simp add: zrep_def rb_def)
qed

theorem rbtree_run_balanced_witness:
  "\<exists>st' T. rbtree_run (\<lambda>a b. int a - int b) (rbtree_init \<lparr>root = None, first = None, nodes = \<lambda>_. \<lparr>color = RBTREE_RED, parent = None, left = None, right = None\<rparr>\<rparr>)
      [Insert 1, Insert 2, Insert 3, Remove 1] = Some st' \<and> root st' = ptr T \<and> rep (nodes st') None T \<and> inorder T = [2, 3] \<and> col T = RBTREE_BLACK \<and> depth T \<le> 2"
proof -
  have o: "orders id (\<lambda>a b. int a - int b) id" by (simp add: orders_def)
  have l: "list_run id [] [Insert 1, Insert 2, Insert 3, Remove 1] = Some [2, 3]" by simp
  obtain st' T where T: "rbtree_run (\<lambda>a b. int a - int b) (rbtree_init \<lparr>root = None, first = None, nodes = \<lambda>_. \<lparr>color = RBTREE_RED, parent = None, left = None, right = None\<rparr>\<rparr>)
      [Insert 1, Insert 2, Insert 3, Remove 1] = Some st'" "root st' = ptr T" "rep (nodes st') None T" "inorder T = [2, 3]" "col T = RBTREE_BLACK" "depth T \<le> 2 * bh T" "2 ^ bh T \<le> (3 :: nat)"
    using rbtree_run_balanced [OF o l] by (metis One_nat_def Suc_1 add.commute length_Cons list.size(3) numeral_3_eq_3 plus_1_eq_Suc)
  have "bh T < 2" using T(7) by (metis leD linorder_not_less numeral_le_iff power_increasing [of 2 "bh T" "2 :: nat"] one_le_numeral order_trans eval_nat_numeral(3) lessI numeral_2_eq_2 numeral_3_eq_3 power2_eq_square mult_2 Suc_leD Suc_n_not_le_n add_2_eq_Suc)
  then show ?thesis using T by (intro exI [of _ st'] exI [of _ T]) simp
qed

end
