(* ===== verification/Kc_Stdlib.thy ===== *)
theory Kc_Stdlib
  imports Opal_Prelude "HOL-Library.Multiset"
begin

unbundle bit_operations_syntax

text \<open>
  \<open>libkc/include/kc/stdlib.h\<close> and \<open>libkc/src/stdlib.c\<close>: alignment to powers of two at the
  machine width, and the in-place heapsort. The C \<^verbatim>\<open>sort\<close> works on byte offsets that are all
  multiples of the element size, and \<^verbatim>\<open>swap\<close> exchanges whole elements; the model indexes elements.
  A comparison callback is a function into \<^typ>\<open>int\<close>; what the sort needs of it is the locale
  \<open>comparison\<close>.
\<close>

section \<open>Alignment\<close>

definition align_ceil_sz_p2 :: "u64 \<Rightarrow> u64 \<Rightarrow> u64" where
  "align_ceil_sz_p2 x align = (let mask = align - 1 in (x + mask) AND NOT mask)"

definition align_floor_sz_p2 :: "u64 \<Rightarrow> u64 \<Rightarrow> u64" where
  "align_floor_sz_p2 x align = (let mask = align - 1 in x AND NOT mask)"

definition align_ceil_u32_p2 :: "u32 \<Rightarrow> u32 \<Rightarrow> u32" where
  "align_ceil_u32_p2 x align = (let mask = align - 1 in (x + mask) AND NOT mask)"

definition ispower2 :: "u64 \<Rightarrow> bool" where
  "ispower2 value \<longleftrightarrow> value \<noteq> 0 \<and> value AND (value - 1) = 0"

lemma and_not_mask_unat:
  fixes x :: "'a::len word"
  assumes "k < LENGTH('a)"
  shows "unat (x AND NOT (2 ^ k - 1)) = unat x div 2 ^ k * 2 ^ k"
proof -
  have "x AND NOT (2 ^ k - 1) = push_bit k (drop_bit k x)"
    by (rule bit_word_eqI) (auto simp: bit_simps mask_eq_exp_minus_1 [symmetric])
  also have "unat \<dots> = unat x div 2 ^ k * 2 ^ k"
  proof -
    have "unat x div 2 ^ k * 2 ^ k \<le> unat x"
      by (metis div_times_less_eq_dividend)
    then have "unat x div 2 ^ k * 2 ^ k < 2 ^ LENGTH('a)"
      using unat_lt_2p [of x] by linarith
    then show ?thesis
      unfolding unsigned_push_bit_eq unat_drop_bit_eq
      by (simp add: push_bit_eq_mult drop_bit_eq_div take_bit_eq_mod)
  qed
  finally show ?thesis .
qed

lemma unat_align_floor:
  "k < 64 \<Longrightarrow> unat (align_floor_sz_p2 x (2 ^ k)) = unat x div 2 ^ k * 2 ^ k"
  using and_not_mask_unat [of k x] by (simp add: align_floor_sz_p2_def)

lemma unat_align_ceil:
  assumes "k < 64" and "unat x + 2 ^ k - 1 < 2 ^ 64"
  shows "unat (align_ceil_sz_p2 x (2 ^ k)) = (unat x + 2 ^ k - 1) div 2 ^ k * 2 ^ k"
proof -
  have "(2::nat) ^ k - 1 < 2 ^ 64"
    using assms(1) power_strict_increasing [of k 64 "2::nat"] by linarith
  then have "unat ((of_nat (2 ^ k - 1)) :: u64) = 2 ^ k - 1"
    by (simp only: unsigned_of_nat) (simp add: take_bit_nat_eq_self)
  then have "unat ((2::u64) ^ k - 1) = 2 ^ k - 1"
    by (simp add: of_nat_diff)
  then have "unat (x + (2 ^ k - 1)) = unat x + 2 ^ k - 1"
    using assms(2) by (simp add: unat_word_ariths)
  with and_not_mask_unat [of k "x + (2 ^ k - 1)"] assms(1) show ?thesis
    by (simp add: align_ceil_sz_p2_def Let_def)
qed

section \<open>Heapsort\<close>

definition swap_elems :: "'a list \<Rightarrow> nat \<Rightarrow> nat \<Rightarrow> 'a list" where
  "swap_elems p a b = p[a := p ! b, b := p ! a]"

text \<open>The inner loop, \<^verbatim>\<open>repair heap\<close>.\<close>

function repair_heap :: "('a \<Rightarrow> 'a \<Rightarrow> int) \<Rightarrow> 'a list \<Rightarrow> nat \<Rightarrow> nat \<Rightarrow> 'a list" where
  "repair_heap cmpf p root endx =
     (let child = root * 2 + 1
      in if child \<ge> endx then p
         else let child = (if child + 1 < endx \<and> cmpf (p ! child) (p ! (child + 1)) < 0
                           then child + 1 else child)
              in if cmpf (p ! root) (p ! child) \<ge> 0 then p
                 else repair_heap cmpf (swap_elems p root child) child endx)"
  by pat_completeness auto
termination
  by (relation "measure (\<lambda>(cmpf, p, root, endx). endx - root)") (auto simp: Let_def)

text \<open>The outer loop: heapify downwards from the first leaf, then pop the maximum.\<close>

function sort_loop :: "('a \<Rightarrow> 'a \<Rightarrow> int) \<Rightarrow> 'a list \<Rightarrow> nat \<Rightarrow> nat \<Rightarrow> 'a list" where
  "sort_loop cmpf p start endx =
     (if endx > 1 then
        if start > 0 then
          let start = start - 1
          in sort_loop cmpf (repair_heap cmpf p start endx) start endx
        else
          let endx = endx - 1; p = swap_elems p endx 0
          in sort_loop cmpf (repair_heap cmpf p start endx) start endx
      else p)"
  by pat_completeness auto
termination
  by (relation "measure (\<lambda>(cmpf, p, start, endx). start + endx)") auto

declare repair_heap.simps [simp del] sort_loop.simps [simp del]

definition sort_elems :: "('a \<Rightarrow> 'a \<Rightarrow> int) \<Rightarrow> 'a list \<Rightarrow> 'a list" where
  "sort_elems cmpf p = sort_loop cmpf p (length p div 2) (length p)"

subsection \<open>Permutation and frame\<close>

lemma swap_elems_length [simp]: "length (swap_elems p a b) = length p"
  by (simp add: swap_elems_def)

lemma swap_elems_mset:
  "a < length p \<Longrightarrow> b < length p \<Longrightarrow> mset (swap_elems p a b) = mset p"
  by (simp add: swap_elems_def mset_swap)

lemma swap_elems_nth:
  "a < length p \<Longrightarrow> b < length p \<Longrightarrow> i < length p \<Longrightarrow>
   swap_elems p a b ! i = (if i = b then p ! a else if i = a then p ! b else p ! i)"
  by (auto simp: swap_elems_def nth_list_update)

text \<open>One unfolding of the inner loop, with the selected child named.\<close>

definition sel_child :: "('a \<Rightarrow> 'a \<Rightarrow> int) \<Rightarrow> 'a list \<Rightarrow> nat \<Rightarrow> nat \<Rightarrow> nat" where
  "sel_child cmpf p root endx =
     (if root * 2 + 2 < endx \<and> cmpf (p ! (root * 2 + 1)) (p ! (root * 2 + 2)) < 0
      then root * 2 + 2 else root * 2 + 1)"

lemma repair_heap_leaf: "root * 2 + 1 \<ge> endx \<Longrightarrow> repair_heap cmpf p root endx = p"
  by (subst repair_heap.simps) (simp add: Let_def)

lemma repair_heap_stop:
  "cmpf (p ! root) (p ! sel_child cmpf p root endx) \<ge> 0 \<Longrightarrow> repair_heap cmpf p root endx = p"
  by (subst repair_heap.simps) (auto simp: Let_def sel_child_def)

lemma repair_heap_down:
  "root * 2 + 1 < endx \<Longrightarrow> cmpf (p ! root) (p ! sel_child cmpf p root endx) < 0 \<Longrightarrow>
   repair_heap cmpf p root endx =
     repair_heap cmpf (swap_elems p root (sel_child cmpf p root endx)) (sel_child cmpf p root endx) endx"
  by (subst repair_heap.simps) (auto simp: Let_def sel_child_def)

lemma sel_child_bounds:
  assumes "root * 2 + 1 < endx"
  shows "sel_child cmpf p root endx < endx" "root < sel_child cmpf p root endx"
    "(sel_child cmpf p root endx - 1) div 2 = root" "0 < sel_child cmpf p root endx"
  using assms by (auto simp: sel_child_def)

lemma repair_heap_induct [case_names leaf stop down]:
  assumes "\<And>p root. root * 2 + 1 \<ge> endx \<Longrightarrow> P p root"
    and "\<And>p root. root * 2 + 1 < endx \<Longrightarrow> cmpf (p ! root) (p ! sel_child cmpf p root endx) \<ge> 0 \<Longrightarrow> P p root"
    and "\<And>p root. root * 2 + 1 < endx \<Longrightarrow> cmpf (p ! root) (p ! sel_child cmpf p root endx) < 0 \<Longrightarrow>
           P (swap_elems p root (sel_child cmpf p root endx)) (sel_child cmpf p root endx) \<Longrightarrow> P p root"
  shows "P p root"
proof (induction "endx - root" arbitrary: p root rule: less_induct)
  case less
  show ?case
  proof (cases "root * 2 + 1 < endx")
    case True
    then have "endx - sel_child cmpf p root endx < endx - root"
      using sel_child_bounds [OF True, of cmpf p] by linarith
    with less True show ?thesis
      by (meson assms(2,3) not_le)
  qed (use assms(1) in auto)
qed

lemma repair_heap_perm:
  assumes "endx \<le> length p"
  shows "length (repair_heap cmpf p root endx) = length p \<and>
         mset (repair_heap cmpf p root endx) = mset p \<and>
         (\<forall>i < length p. i < root \<or> endx \<le> i \<longrightarrow> repair_heap cmpf p root endx ! i = p ! i)"
  using assms
proof (induction p root rule: repair_heap_induct [of endx _ cmpf])
  case (down p root)
  note b = sel_child_bounds [OF down(1), of cmpf p]
  from down(4) b have "root < length p" "sel_child cmpf p root endx < length p" by auto
  with down b show ?case
    by (auto simp: repair_heap_down swap_elems_mset swap_elems_nth)
qed (simp_all add: repair_heap_leaf repair_heap_stop)

section \<open>What the comparison must satisfy\<close>

locale comparison =
  fixes cmpf :: "'a \<Rightarrow> 'a \<Rightarrow> int"
  assumes comp_total: "cmpf x y \<le> 0 \<or> cmpf y x \<le> 0"
    and comp_trans: "cmpf x y \<le> 0 \<Longrightarrow> cmpf y z \<le> 0 \<Longrightarrow> cmpf x z \<le> 0"
    and comp_anti: "cmpf x y < 0 \<longleftrightarrow> 0 < cmpf y x"
begin

abbreviation leq :: "'a \<Rightarrow> 'a \<Rightarrow> bool" where
  "leq x y \<equiv> cmpf x y \<le> 0"

lemma comp_ge: "0 \<le> cmpf x y \<longleftrightarrow> leq y x"
  using comp_anti by (metis linorder_not_less)

lemma leq_refl: "leq x x"
  using comp_total by blast

lemma comp_less_leq: "cmpf x y < 0 \<Longrightarrow> leq x y"
  by simp

text \<open>The heap order between each node from \<open>s\<close> on and its children below \<open>e\<close>.\<close>

definition heap_from :: "nat \<Rightarrow> nat \<Rightarrow> 'a list \<Rightarrow> bool" where
  "heap_from s e p \<longleftrightarrow> (\<forall>j. 0 < j \<longrightarrow> j < e \<longrightarrow> s \<le> (j - 1) div 2 \<longrightarrow> leq (p ! j) (p ! ((j - 1) div 2)))"

text \<open>The same with one node \<open>r\<close> exempted, whose children are below \<open>r\<close>'s own parent.\<close>

definition heap_but :: "nat \<Rightarrow> nat \<Rightarrow> nat \<Rightarrow> 'a list \<Rightarrow> bool" where
  "heap_but s e r p \<longleftrightarrow>
     (\<forall>j. 0 < j \<longrightarrow> j < e \<longrightarrow> s \<le> (j - 1) div 2 \<longrightarrow> (j - 1) div 2 \<noteq> r \<longrightarrow> leq (p ! j) (p ! ((j - 1) div 2))) \<and>
     (\<forall>j. 0 < j \<longrightarrow> j < e \<longrightarrow> (j - 1) div 2 = r \<longrightarrow> 0 < r \<longrightarrow> s \<le> (r - 1) div 2 \<longrightarrow> leq (p ! j) (p ! ((r - 1) div 2)))"

lemma sel_child_max:
  assumes "root * 2 + 1 < endx" and "0 < j" "j < endx" "(j - 1) div 2 = root"
  shows "leq (p ! j) (p ! sel_child cmpf p root endx)"
proof -
  have "j = root * 2 + 1 \<or> j = root * 2 + 2"
    using assms by linarith
  then show ?thesis
    using assms(3) comp_ge by (auto simp: sel_child_def leq_refl not_less)
qed

lemma heap_but_leaf:
  assumes "heap_but s e r p" and "r * 2 + 1 \<ge> e"
  shows "heap_from s e p"
proof -
  have "(j - 1) div 2 \<noteq> r" if "0 < j" "j < e" for j
    using that assms(2) by linarith
  with assms(1) show ?thesis
    unfolding heap_but_def heap_from_def by blast
qed

lemma heap_but_stop:
  assumes "heap_but s e r p" and "r * 2 + 1 < e" and "0 \<le> cmpf (p ! r) (p ! sel_child cmpf p r e)"
  shows "heap_from s e p"
  unfolding heap_from_def
proof (intro allI impI)
  fix j assume j: "0 < j" "j < e" "s \<le> (j - 1) div 2"
  show "leq (p ! j) (p ! ((j - 1) div 2))"
  proof (cases "(j - 1) div 2 = r")
    case True
    with sel_child_max [OF assms(2) j(1,2), of p] assms(3) show ?thesis
      by (auto simp: comp_ge intro: comp_trans)
  next
    case False
    with assms(1) j show ?thesis by (simp add: heap_but_def)
  qed
qed

text \<open>Exchanging the exempted node with its larger child moves the exemption to the child.\<close>

lemma heap_but_down:
  assumes hb: "heap_but s e r p" and r: "r * 2 + 1 < e" "s \<le> r" and len: "e \<le> length p"
    and lt: "cmpf (p ! r) (p ! sel_child cmpf p r e) < 0"
  shows "heap_but s e (sel_child cmpf p r e) (swap_elems p r (sel_child cmpf p r e))"
proof -
  define c where "c = sel_child cmpf p r e"
  define q where "q = swap_elems p r c"
  note c = sel_child_bounds [OF r(1), of cmpf p, folded c_def]
  have q: "q ! i = (if i = c then p ! r else if i = r then p ! c else p ! i)" if "i < e" for i
    using that c len by (auto simp: q_def swap_elems_nth)
  have rc: "leq (p ! r) (p ! c)"
    using lt by (simp add: c_def)
  have ord: "leq (p ! j) (p ! ((j - 1) div 2))" if "0 < j" "j < e" "s \<le> (j - 1) div 2" "(j - 1) div 2 \<noteq> r" for j
    using hb that by (simp add: heap_but_def)
  have up: "leq (p ! j) (p ! ((r - 1) div 2))" if "0 < j" "j < e" "(j - 1) div 2 = r" "0 < r" "s \<le> (r - 1) div 2" for j
    using hb that by (simp add: heap_but_def)
  have sib: "leq (p ! j) (p ! c)" if "0 < j" "j < e" "(j - 1) div 2 = r" for j
    using sel_child_max [OF r(1) that] by (simp add: c_def)
  have "leq (q ! j) (q ! ((j - 1) div 2))"
    if j: "0 < j" "j < e" "s \<le> (j - 1) div 2" "(j - 1) div 2 \<noteq> c" for j
  proof -
    have par: "(j - 1) div 2 < e" using j by linarith
    consider "(j - 1) div 2 = r" | "j = r" "(j - 1) div 2 \<noteq> r" | "j \<noteq> r" "j \<noteq> c" "(j - 1) div 2 \<noteq> r"
      using c(3) by blast
    then show ?thesis
    proof cases
      case 1
      with j c q [of j] q [of r] rc sib show ?thesis by (cases "j = c") auto
    next
      case 2
      with j c q [of r] q [OF par] up [of c] show ?thesis by auto
    next
      case 3
      with j q [of j] q [OF par] ord show ?thesis by auto
    qed
  qed
  moreover have "leq (q ! j) (q ! ((c - 1) div 2))" if j: "0 < j" "j < e" "(j - 1) div 2 = c" for j
  proof -
    have "j \<noteq> c" "j \<noteq> r" "(j - 1) div 2 \<noteq> r" using j c by auto
    moreover have "s \<le> (j - 1) div 2" using j c r(2) by linarith
    ultimately have "leq (p ! j) (p ! c)" using ord [of j] j by simp
    with \<open>j \<noteq> c\<close> \<open>j \<noteq> r\<close> j c q [of j] q [of r] r show ?thesis by simp
  qed
  ultimately show ?thesis
    unfolding heap_but_def c_def [symmetric] q_def [symmetric] by blast
qed

lemma repair_heap_correct:
  assumes "heap_but s e r p" and "s \<le> r" and "e \<le> length p"
  shows "heap_from s e (repair_heap cmpf p r e)"
  using assms
proof (induction p r rule: repair_heap_induct [of e _ cmpf])
  case (down p r)
  note b = sel_child_bounds [OF down(1), of cmpf p]
  have "heap_from s e (repair_heap cmpf (swap_elems p r (sel_child cmpf p r e)) (sel_child cmpf p r e) e)"
    using down b heap_but_down [of s e r p] by (intro down.IH) auto
  with down show ?case by (simp add: repair_heap_down)
qed (auto simp: repair_heap_leaf repair_heap_stop heap_but_leaf heap_but_stop)

lemma heap_root_max:
  assumes "heap_from 0 e p" and "i < e"
  shows "leq (p ! i) (p ! 0)"
  using assms(2)
proof (induction i rule: less_induct)
  case (less i)
  show ?case
  proof (cases "i = 0")
    case False
    then have "(i - 1) div 2 < i" by linarith
    with less have "leq (p ! ((i - 1) div 2)) (p ! 0)" by simp
    moreover have "leq (p ! i) (p ! ((i - 1) div 2))"
      using assms(1) False less.prems by (simp add: heap_from_def)
    ultimately show ?thesis by (rule comp_trans [rotated])
  qed (simp add: leq_refl)
qed

subsection \<open>The outer loop\<close>

definition sort_inv :: "nat \<Rightarrow> nat \<Rightarrow> 'a list \<Rightarrow> bool" where
  "sort_inv start e p \<longleftrightarrow>
     e \<le> length p \<and> (e = length p \<or> start = 0) \<and> heap_from start e p \<and>
     (\<forall>i j. i < j \<longrightarrow> e \<le> j \<longrightarrow> j < length p \<longrightarrow> leq (p ! i) (p ! j))"

lemma heap_from_pred:
  assumes "heap_from (Suc s) e p"
  shows "heap_but s e s p"
proof -
  have "\<not> s \<le> (s - 1) div 2" if "0 < s" using that by linarith
  with assms show ?thesis
    unfolding heap_from_def heap_but_def by (auto simp: Suc_le_eq)
qed

lemma heap_but_root:
  assumes "heap_from 0 (Suc e) p" and "e < length p"
  shows "heap_but 0 e 0 (swap_elems p e 0)"
proof -
  have "swap_elems p e 0 ! j = p ! j" if "0 < j" "j < e" for j
    using that assms(2) by (subst swap_elems_nth) auto
  moreover have "(j - 1) div 2 < e" if "j < e" for j :: nat
    using that by linarith
  ultimately show ?thesis
    using assms(1) unfolding heap_from_def heap_but_def by auto
qed

lemma sort_inv_heapify:
  assumes "sort_inv (Suc s) e p"
  shows "sort_inv s e (repair_heap cmpf p s e)"
proof -
  from assms have e: "e = length p" and h: "heap_from (Suc s) e p"
    by (auto simp: sort_inv_def)
  with repair_heap_correct [OF heap_from_pred [OF h]] repair_heap_perm [of e p cmpf s] show ?thesis
    by (simp add: sort_inv_def)
qed

text \<open>The elements below \<open>e\<close> are those that were below \<open>e\<close> before the repair.\<close>

lemma mset_take_eq:
  assumes "mset r = mset q" and "length r = length q" and "\<And>i. e \<le> i \<Longrightarrow> i < length q \<Longrightarrow> r ! i = q ! i"
  shows "mset (take e r) = mset (take e q)"
proof -
  have "drop e r = drop e q"
    using assms(2,3) by (intro nth_equalityI) auto
  moreover have "mset (take e r) + mset (drop e r) = mset (take e q) + mset (drop e q)"
    using assms(1) by (metis append_take_drop_id mset_append)
  ultimately show ?thesis by simp
qed

lemma sort_inv_pop:
  assumes inv: "sort_inv 0 (Suc e) p"
  shows "sort_inv 0 e (repair_heap cmpf (swap_elems p e 0) 0 e)"
proof -
  define q where "q = swap_elems p e 0"
  define r where "r = repair_heap cmpf q 0 e"
  from inv have e: "e < length p" and h: "heap_from 0 (Suc e) p"
    and top: "\<And>i j. i < j \<Longrightarrow> Suc e \<le> j \<Longrightarrow> j < length p \<Longrightarrow> leq (p ! i) (p ! j)"
    by (auto simp: sort_inv_def)
  have len: "length q = length p" by (simp add: q_def)
  have q: "q ! i = (if i = 0 then p ! e else if i = e then p ! 0 else p ! i)" if "i < length p" for i
    using that e unfolding q_def by (subst swap_elems_nth) auto
  have r: "length r = length p" "mset r = mset q" "\<And>i. e \<le> i \<Longrightarrow> i < length p \<Longrightarrow> r ! i = q ! i"
    using repair_heap_perm [of e q cmpf 0] e len by (auto simp: r_def)
  have hr: "heap_from 0 e r"
    unfolding r_def q_def using heap_but_root [OF h e] e by (intro repair_heap_correct) auto
  have low: "\<exists>k \<le> e. r ! i = p ! k" if "i < e" for i
  proof -
    have "r ! i \<in> set (take e r)"
      using that e r(1) by (auto simp: in_set_conv_nth)
    then have "r ! i \<in> set (take e q)"
      using mset_take_eq [of r q e] r len by (metis mset_eq_setD)
    then obtain k where "k < e" "r ! i = q ! k"
      using len by (auto simp: in_set_conv_nth)
    with q [of k] e have "r ! i = (if k = 0 then p ! e else p ! k)" "k < e"
      by auto
    then show ?thesis by (metis less_imp_le_nat order_refl)
  qed
  have "leq (r ! i) (r ! j)" if ij: "i < j" "e \<le> j" "j < length p" for i j
  proof (cases "j = e")
    case True
    with low [of i] ij obtain k where "k \<le> e" "r ! i = p ! k" by auto
    moreover have "r ! j = p ! 0"
      using True r(3) [of e] q [of e] e by simp
    ultimately show ?thesis
      using heap_root_max [OF h, of k] by simp
  next
    case False
    with ij have j: "Suc e \<le> j" "r ! j = p ! j"
      using r(3) [of j] q [of j] by auto
    have "\<exists>k < j. r ! i = p ! k"
    proof (cases "i < e")
      case True
      with low [of i] j show ?thesis by (meson Suc_le_eq le_less_trans)
    next
      case False
      with ij r(3) [of i] q [of i] have "r ! i = p ! (if i = e then 0 else i)"
        by auto
      with j(1) ij(1) show ?thesis by (intro exI [of _ "if i = e then 0 else i"]) auto
    qed
    with top [OF _ j(1) ij(3)] j(2) show ?thesis by auto
  qed
  with hr e r(1) show ?thesis
    unfolding sort_inv_def r_def [symmetric] q_def [symmetric] by auto
qed

lemma sort_loop_correct:
  assumes "sort_inv start e p" and "start = 0 \<or> 1 < e"
  shows "mset (sort_loop cmpf p start e) = mset p \<and> sorted_wrt leq (sort_loop cmpf p start e)"
  using assms
proof (induction "start + e" arbitrary: start e p rule: less_induct)
  case less
  from less.prems have e: "e \<le> length p" by (simp add: sort_inv_def)
  consider (fin) "e \<le> 1" "start = 0" | (heapify) s where "1 < e" "start = Suc s"
    | (pop) e' where "start = 0" "e = Suc e'" "0 < e'"
    using less.prems(2) by (metis One_nat_def less_one not0_implies_Suc not_le less_antisym
        not_less_eq_eq)
  then show ?case
  proof cases
    case fin
    with less.prems(1) have "sorted_wrt leq p"
      unfolding sort_inv_def sorted_wrt_iff_nth_less by (metis One_nat_def Suc_leI gr_implies_not0 le_trans neq0_conv)
    with fin show ?thesis by (subst (1 2) sort_loop.simps) simp
  next
    case (heapify s)
    have "mset (sort_loop cmpf (repair_heap cmpf p s e) s e) = mset (repair_heap cmpf p s e) \<and>
        sorted_wrt leq (sort_loop cmpf (repair_heap cmpf p s e) s e)"
      using less.hyps [of s e "repair_heap cmpf p s e"] less.prems(1) heapify sort_inv_heapify by auto
    with heapify repair_heap_perm [OF e, of cmpf s] show ?thesis
      by (subst (1 2) sort_loop.simps) simp
  next
    case (pop e')
    define q where "q = repair_heap cmpf (swap_elems p e' 0) 0 e'"
    have "mset (swap_elems p e' 0) = mset p"
      using e pop by (intro swap_elems_mset) auto
    then have "mset q = mset p"
      using e pop repair_heap_perm [of e' "swap_elems p e' 0" cmpf 0] by (simp add: q_def)
    moreover have "mset (sort_loop cmpf q 0 e') = mset q \<and> sorted_wrt leq (sort_loop cmpf q 0 e')"
      using less.hyps [of 0 e' q] less.prems(1) pop sort_inv_pop [of e' p] by (simp add: q_def)
    ultimately show ?thesis
      using pop by (subst (1 2) sort_loop.simps) (simp add: q_def)
  qed
qed

lemma sort_elems_correct:
  "mset (sort_elems cmpf p) = mset p \<and> sorted_wrt leq (sort_elems cmpf p)"
proof -
  have "heap_from (length p div 2) (length p) p"
    unfolding heap_from_def by auto
  then have "sort_inv (length p div 2) (length p) p"
    by (simp add: sort_inv_def)
  then show ?thesis
    unfolding sort_elems_def by (intro sort_loop_correct) auto
qed

end

section \<open>Properties\<close>

text \<open>
  C22. For a comparison callback that is a total preorder, the in-place heapsort ends and leaves a
  permutation of its input in which every element is at most every later one.
\<close>

theorem sort_correct:
  assumes "\<And>x y. cmpf x y \<le> 0 \<or> cmpf y x \<le> 0"
    and "\<And>x y z. cmpf x y \<le> 0 \<Longrightarrow> cmpf y z \<le> 0 \<Longrightarrow> cmpf x z \<le> 0"
    and "\<And>x y. cmpf x y < 0 \<longleftrightarrow> 0 < cmpf y x"
  shows "mset (sort_elems cmpf p) = mset p \<and> sorted_wrt (\<lambda>x y. cmpf x y \<le> 0) (sort_elems cmpf p)"
  by (rule comparison.sort_elems_correct, rule comparison.intro) (use assms in blast)+

theorem sort_correct_witness:
  "mset (sort_elems (\<lambda>x y. x - y) [3, 1, 2 :: int]) = mset [3, 1, 2] \<and>
   sorted_wrt (\<lambda>x y. x - y \<le> 0) (sort_elems (\<lambda>x y. x - y) [3, 1, 2 :: int])"
  by (rule sort_correct) auto

text \<open>
  Alignment to \<open>2 ^ k\<close> at the 64-bit width: the floor is the greatest multiple that is at most
  \<open>x\<close>, and the ceiling is the least multiple that is at least \<open>x\<close> as long as it fits 64 bits.
\<close>

theorem align_p2_correct:
  assumes "k < 64" and "unat x + 2 ^ k - 1 < 2 ^ 64"
  shows "2 ^ k dvd unat (align_floor_sz_p2 x (2 ^ k)) \<and> unat (align_floor_sz_p2 x (2 ^ k)) \<le> unat x \<and>
         unat x < unat (align_floor_sz_p2 x (2 ^ k)) + 2 ^ k \<and>
         2 ^ k dvd unat (align_ceil_sz_p2 x (2 ^ k)) \<and> unat x \<le> unat (align_ceil_sz_p2 x (2 ^ k)) \<and>
         unat (align_ceil_sz_p2 x (2 ^ k)) < unat x + 2 ^ k"
proof -
  have *: "n div 2 ^ k * 2 ^ k \<le> n \<and> n < n div 2 ^ k * 2 ^ k + 2 ^ k" for n :: nat
  proof -
    have "n mod 2 ^ k < 2 ^ k" by simp
    with div_mult_mod_eq [of n "2 ^ k"] show ?thesis by linarith
  qed
  moreover have "0 < (2::nat) ^ k" by simp
  ultimately show ?thesis
    using * [of "unat x + 2 ^ k - 1"] unfolding unat_align_floor [OF assms(1)] unat_align_ceil [OF assms]
    by (intro conjI dvd_triv_right) (blast, blast, linarith, linarith)
qed

theorem align_p2_correct_witness:
  "unat (align_floor_sz_p2 0x1234 (2 ^ 12)) \<le> 0x1234 \<and> 0x1234 \<le> unat (align_ceil_sz_p2 0x1234 (2 ^ 12))"
  using align_p2_correct [of 12 "0x1234"] by simp

end
