(* ===== verification/Kc_String.thy ===== *)
theory Kc_String
  imports Opal_Prelude
begin

text \<open>
  \<open>libkc/src/string.c\<close>: the memory and string functions of the kernel's C library. Memory is one
  list of bytes and a pointer is an index into it, so that the source and the destination of a
  copy may overlap as they may in C; an access outside the memory is a fault. Strings are
  related to lists of non-zero bytes by \<open>cstr\<close>.
\<close>

section \<open>Model\<close>

type_synonym mem = "u8 list"

definition memcpy :: "mem \<Rightarrow> nat \<Rightarrow> nat \<Rightarrow> nat \<Rightarrow> mem option" where
  "memcpy m dest src n = for_up 0 n (\<lambda>i m. do { v \<leftarrow> rd m (src + i); wr m (dest + i) v }) m"

definition memmove :: "mem \<Rightarrow> nat \<Rightarrow> nat \<Rightarrow> nat \<Rightarrow> mem option" where
  "memmove m dest src n =
     (if dest = src \<or> n = 0 then Some m
      else if dest < src
      then for_up 0 n (\<lambda>i m. do { v \<leftarrow> rd m (src + i); wr m (dest + i) v }) m
      else for_down n (\<lambda>i m. do { v \<leftarrow> rd m (src + i); wr m (dest + i) v }) m)"

definition memset :: "mem \<Rightarrow> nat \<Rightarrow> u8 \<Rightarrow> nat \<Rightarrow> mem option" where
  "memset m dest c n = for_up 0 n (\<lambda>i m. wr m (dest + i) c) m"

text \<open>\<^verbatim>\<open>(int)(unsigned char)x - (int)(unsigned char)y\<close>\<close>

definition byte_diff :: "u8 \<Rightarrow> u8 \<Rightarrow> int" where
  "byte_diff x y = int (unat x) - int (unat y)"

text \<open>The comparison loops return the difference of the first pair of bytes that differ.\<close>

function memcmp_loop :: "mem \<Rightarrow> nat \<Rightarrow> nat \<Rightarrow> nat \<Rightarrow> nat \<Rightarrow> int option" where
  "memcmp_loop m a b i n =
     (if i < n then do {
        x \<leftarrow> rd m (a + i);
        y \<leftarrow> rd m (b + i);
        if x \<noteq> y then Some (byte_diff x y) else memcmp_loop m a b (i + 1) n
      } else Some 0)"
  by pat_completeness auto
termination
  by (relation "measure (\<lambda>(m, a, b, i, n). n - i)") auto

definition memcmp :: "mem \<Rightarrow> nat \<Rightarrow> nat \<Rightarrow> nat \<Rightarrow> int option" where
  "memcmp m lhs rhs n = memcmp_loop m lhs rhs 0 n"

text \<open>A found position, or \<^term>\<open>None\<close> inside \<^term>\<open>Some\<close> for the null pointer.\<close>

function memchr_loop :: "(u8 \<Rightarrow> bool) \<Rightarrow> mem \<Rightarrow> nat \<Rightarrow> nat \<Rightarrow> nat \<Rightarrow> nat option option" where
  "memchr_loop hit m p i count =
     (if i < count then do {
        v \<leftarrow> rd m (p + i);
        if hit v then Some (Some (p + i)) else memchr_loop hit m p (i + 1) count
      } else Some None)"
  by pat_completeness auto
termination
  by (relation "measure (\<lambda>(hit, m, p, i, count). count - i)") auto

definition memchr :: "mem \<Rightarrow> nat \<Rightarrow> u8 \<Rightarrow> nat \<Rightarrow> nat option option" where
  "memchr m p c count = memchr_loop (\<lambda>v. v = c) m p 0 count"

definition memchr_not :: "mem \<Rightarrow> nat \<Rightarrow> u8 \<Rightarrow> nat \<Rightarrow> nat option option" where
  "memchr_not m p c count = memchr_loop (\<lambda>v. v \<noteq> c) m p 0 count"

function strlen_loop :: "mem \<Rightarrow> nat \<Rightarrow> nat \<Rightarrow> nat option" where
  "strlen_loop m s len = do {
     v \<leftarrow> rd m (s + len);
     if v \<noteq> 0 then strlen_loop m s (len + 1) else Some len
   }"
  by pat_completeness auto
termination
  by (relation "measure (\<lambda>(m, s, len). length m - (s + len))") (auto simp: rd_Some_iff)

definition strlen :: "mem \<Rightarrow> nat \<Rightarrow> nat option" where
  "strlen m s = strlen_loop m s 0"

function strnlen_loop :: "mem \<Rightarrow> nat \<Rightarrow> nat \<Rightarrow> nat \<Rightarrow> nat option" where
  "strnlen_loop m s strsz len =
     (if len < strsz then do {
        v \<leftarrow> rd m (s + len);
        if v \<noteq> 0 then strnlen_loop m s strsz (len + 1) else Some len
      } else Some len)"
  by pat_completeness auto
termination
  by (relation "measure (\<lambda>(m, s, strsz, len). strsz - len)") auto

definition strnlen_s :: "mem \<Rightarrow> nat \<Rightarrow> nat \<Rightarrow> nat option" where
  "strnlen_s m s strsz = strnlen_loop m s strsz 0"

text \<open>The inner loop of \<^verbatim>\<open>strspn\<close> and \<^verbatim>\<open>strcspn\<close>: does the byte occur in the string at \<^verbatim>\<open>set\<close>?\<close>

function str_has :: "mem \<Rightarrow> nat \<Rightarrow> u8 \<Rightarrow> bool option" where
  "str_has m j c = do {
     v \<leftarrow> rd m j;
     if v \<noteq> 0 then if c = v then Some True else str_has m (j + 1) c else Some False
   }"
  by pat_completeness auto
termination
  by (relation "measure (\<lambda>(m, j, c). length m - j)") (auto simp: rd_Some_iff)

text \<open>Both count bytes while the membership answer is the given one.\<close>

function span_loop :: "bool \<Rightarrow> mem \<Rightarrow> nat \<Rightarrow> nat \<Rightarrow> nat \<Rightarrow> nat option" where
  "span_loop want m s chars i = do {
     v \<leftarrow> rd m (s + i);
     if v \<noteq> 0 then do {
       matched \<leftarrow> str_has m chars v;
       if matched \<noteq> want then Some i else span_loop want m s chars (i + 1)
     } else Some i
   }"
  by pat_completeness auto
termination
  by (relation "measure (\<lambda>(want, m, s, chars, i). length m - (s + i))") (auto simp: rd_Some_iff)

definition strspn :: "mem \<Rightarrow> nat \<Rightarrow> nat \<Rightarrow> nat option" where
  "strspn m s accept = span_loop True m s accept 0"

definition strcspn :: "mem \<Rightarrow> nat \<Rightarrow> nat \<Rightarrow> nat option" where
  "strcspn m s reject = span_loop False m s reject 0"

function strchr :: "mem \<Rightarrow> nat \<Rightarrow> u8 \<Rightarrow> nat option option" where
  "strchr m s c = do {
     v \<leftarrow> rd m s;
     if v \<noteq> 0 then if v = c then Some (Some s) else strchr m (s + 1) c
     else Some (if c = 0 then Some s else None)
   }"
  by pat_completeness auto
termination
  by (relation "measure (\<lambda>(m, s, c). length m - s)") (auto simp: rd_Some_iff)

function strrchr_loop :: "mem \<Rightarrow> nat \<Rightarrow> u8 \<Rightarrow> nat option \<Rightarrow> nat option option" where
  "strrchr_loop m s c found = do {
     v \<leftarrow> rd m s;
     if v \<noteq> 0 then strrchr_loop m (s + 1) c (if v = c then Some s else found)
     else Some (if c = 0 then Some s else found)
   }"
  by pat_completeness auto
termination
  by (relation "measure (\<lambda>(m, s, c, found). length m - s)") (auto simp: rd_Some_iff)

definition strrchr :: "mem \<Rightarrow> nat \<Rightarrow> u8 \<Rightarrow> nat option option" where
  "strrchr m s c = strrchr_loop m s c None"

function strnchr_loop :: "mem \<Rightarrow> nat \<Rightarrow> u8 \<Rightarrow> nat \<Rightarrow> nat \<Rightarrow> nat option option" where
  "strnchr_loop m s c n i =
     (if i < n then do {
        v \<leftarrow> rd m (s + i);
        if v \<noteq> 0 then if v = c then Some (Some (s + i)) else strnchr_loop m s c n (i + 1)
        else Some (if c = 0 then Some (s + i) else None)
      } else Some None)"
  by pat_completeness auto
termination
  by (relation "measure (\<lambda>(m, s, c, n, i). n - i)") auto

definition strnchr :: "mem \<Rightarrow> nat \<Rightarrow> u8 \<Rightarrow> nat \<Rightarrow> nat option option" where
  "strnchr m s c n = strnchr_loop m s c n 0"

function strcmp :: "mem \<Rightarrow> nat \<Rightarrow> nat \<Rightarrow> int option" where
  "strcmp m lhs rhs = do {
     x \<leftarrow> rd m lhs;
     y \<leftarrow> rd m rhs;
     if x \<noteq> 0 \<and> x = y then strcmp m (lhs + 1) (rhs + 1)
     else Some (byte_diff x y)
   }"
  by pat_completeness auto
termination
  by (relation "measure (\<lambda>(m, lhs, rhs). length m - lhs)") (auto simp: rd_Some_iff)

function strncmp_loop :: "mem \<Rightarrow> nat \<Rightarrow> nat \<Rightarrow> nat \<Rightarrow> nat \<Rightarrow> int option" where
  "strncmp_loop m lhs rhs n i =
     (if i < n then do {
        x \<leftarrow> rd m (lhs + i);
        y \<leftarrow> rd m (rhs + i);
        if x \<noteq> y then Some (byte_diff x y)
        else if x = 0 then Some 0
        else strncmp_loop m lhs rhs n (i + 1)
      } else Some 0)"
  by pat_completeness auto
termination
  by (relation "measure (\<lambda>(m, lhs, rhs, n, i). n - i)") auto

definition strncmp :: "mem \<Rightarrow> nat \<Rightarrow> nat \<Rightarrow> nat \<Rightarrow> int option" where
  "strncmp m lhs rhs n = strncmp_loop m lhs rhs n 0"

text \<open>
  The copying loops. \<^verbatim>\<open>strcpy\<close> and \<^verbatim>\<open>strcat\<close> copy up to and including the terminating zero.
\<close>

function strcpy_loop :: "mem \<Rightarrow> nat \<Rightarrow> nat \<Rightarrow> nat \<Rightarrow> mem option" where
  "strcpy_loop m dest src i = do {
     v \<leftarrow> rd m (src + i);
     if v \<noteq> 0 then do { m \<leftarrow> wr m (dest + i) v; strcpy_loop m dest src (i + 1) }
     else wr m (dest + i) 0
   }"
  by pat_completeness auto
termination
  by (relation "measure (\<lambda>(m, dest, src, i). length m - (src + i))") (auto simp: rd_Some_iff wr_Some_iff)

definition strcpy :: "mem \<Rightarrow> nat \<Rightarrow> nat \<Rightarrow> mem option" where
  "strcpy m dest src = strcpy_loop m dest src 0"

definition strcat :: "mem \<Rightarrow> nat \<Rightarrow> nat \<Rightarrow> mem option" where
  "strcat m dest src = do {
     len \<leftarrow> strlen_loop m dest 0;
     strcpy_loop m (dest + len) src 0
   }"

text \<open>The bounded loops copy at most \<open>n\<close> bytes and terminate the copy themselves.\<close>

function strncpy_loop :: "mem \<Rightarrow> nat \<Rightarrow> nat \<Rightarrow> nat \<Rightarrow> nat \<Rightarrow> mem option" where
  "strncpy_loop m dest src n i =
     (if i < n then do {
        v \<leftarrow> rd m (src + i);
        if v \<noteq> 0 then do { m \<leftarrow> wr m (dest + i) v; strncpy_loop m dest src n (i + 1) }
        else wr m (dest + i) 0
      } else wr m (dest + i) 0)"
  by pat_completeness auto
termination
  by (relation "measure (\<lambda>(m, dest, src, n, i). n - i)") auto

definition strscpy :: "mem \<Rightarrow> nat \<Rightarrow> nat \<Rightarrow> nat \<Rightarrow> mem option" where
  "strscpy m dest destsz src =
     (if destsz = 0 then Some m else strncpy_loop m dest src (destsz - 1) 0)"

definition strsncpy :: "mem \<Rightarrow> nat \<Rightarrow> nat \<Rightarrow> nat \<Rightarrow> nat \<Rightarrow> mem option" where
  "strsncpy m dest destsz src n =
     (if destsz = 0 then Some m
      else let n = (if n > destsz - 1 then destsz - 1 else n)
           in strncpy_loop m dest src n 0)"

definition strncat :: "mem \<Rightarrow> nat \<Rightarrow> nat \<Rightarrow> nat \<Rightarrow> mem option" where
  "strncat m dest src n = do {
     len \<leftarrow> strlen_loop m dest 0;
     strncpy_loop m (dest + len) src n 0
   }"

definition strscat :: "mem \<Rightarrow> nat \<Rightarrow> nat \<Rightarrow> nat \<Rightarrow> mem option" where
  "strscat m dest destsz src = do {
     len \<leftarrow> strnlen_loop m dest destsz 0;
     if len = destsz then Some m
     else strncpy_loop m (dest + len) src (destsz - len - 1) 0
   }"

declare memcmp_loop.simps [simp del] memchr_loop.simps [simp del] strlen_loop.simps [simp del]
  strnlen_loop.simps [simp del] str_has.simps [simp del] span_loop.simps [simp del] strchr.simps [simp del]
  strrchr_loop.simps [simp del] strnchr_loop.simps [simp del] strcmp.simps [simp del]
  strncmp_loop.simps [simp del] strcpy_loop.simps [simp del] strncpy_loop.simps [simp del]

lemma byte_diff_sign [simp]:
  "byte_diff x y = 0 \<longleftrightarrow> x = y" "byte_diff x y < 0 \<longleftrightarrow> x < y" "byte_diff x x = 0"
proof -
  have "byte_diff x y = 0 \<longleftrightarrow> unat x = unat y" "byte_diff x y < 0 \<longleftrightarrow> unat x < unat y"
    unfolding byte_diff_def by linarith+
  then show "byte_diff x y = 0 \<longleftrightarrow> x = y" "byte_diff x y < 0 \<longleftrightarrow> x < y"
    by (simp_all add: word_unat_eq_iff word_less_nat_alt)
qed (simp add: byte_diff_def)

section \<open>Copying bytes\<close>

definition region :: "mem \<Rightarrow> nat \<Rightarrow> nat \<Rightarrow> mem" where
  "region m a n = take n (drop a m)"

text \<open>The memory after \<open>n\<close> bytes at \<open>src\<close> were copied to \<open>dest\<close>.\<close>

definition copied :: "mem \<Rightarrow> nat \<Rightarrow> nat \<Rightarrow> nat \<Rightarrow> nat \<Rightarrow> mem \<Rightarrow> bool" where
  "copied m dest src i n m' \<longleftrightarrow> length m' = length m \<and>
     (\<forall>k < length m. m' ! k = (if dest + i \<le> k \<and> k < dest + n then m ! (src + (k - dest)) else m ! k))"

lemma copied_step_up:
  assumes "copied m dest src 0 i t" and "dest + i < length m" "src + i < length m"
    and "dest \<le> src \<or> src + i < dest"
  shows "\<exists>t'. rd t (src + i) \<bind> wr t (dest + i) = Some t' \<and> copied m dest src 0 (Suc i) t'"
proof -
  have len: "length t = length m" and at: "t ! (src + i) = m ! (src + i)"
    using assms by (auto simp: copied_def)
  have "copied m dest src 0 (Suc i) (t[dest + i := m ! (src + i)])"
    using assms(1,2) unfolding copied_def by (auto simp: nth_list_update less_Suc_eq)
  with len at assms(2,3) show ?thesis by simp
qed

lemma copied_step_down:
  assumes "copied m dest src (Suc i) n t" and "dest + i < length m" "src + i < length m" and "i < n" "src \<le> dest"
  shows "\<exists>t'. rd t (src + i) \<bind> wr t (dest + i) = Some t' \<and> copied m dest src i n t'"
proof -
  have len: "length t = length m" and at: "t ! (src + i) = m ! (src + i)"
    using assms by (auto simp: copied_def)
  have "copied m dest src i n (t[dest + i := m ! (src + i)])"
    using assms(1,2,4) unfolding copied_def by (auto simp: nth_list_update)
  with len at assms(2,3) show ?thesis by simp
qed

lemma copied_refl: "copied m dest src i i m"
  by (auto simp: copied_def)

lemma copied_region:
  assumes "copied m dest src 0 n m'" and "dest + n \<le> length m" "src + n \<le> length m"
  shows "region m' dest n = region m src n" and "take dest m' = take dest m" and "drop (dest + n) m' = drop (dest + n) m"
  using assms by (auto simp: region_def copied_def intro!: nth_equalityI)

lemma copy_up:
  assumes "dest + n \<le> length m" "src + n \<le> length m" and "dest \<le> src \<or> src + n \<le> dest"
  shows "\<exists>m'. for_up 0 n (\<lambda>i m. rd m (src + i) \<bind> wr m (dest + i)) m = Some m' \<and> copied m dest src 0 n m'"
  by (rule for_up_rule) (use assms in \<open>auto intro!: copied_refl copied_step_up\<close>)

lemma copy_down:
  assumes "dest + n \<le> length m" "src + n \<le> length m" and "src \<le> dest"
  shows "\<exists>m'. for_down n (\<lambda>i m. rd m (src + i) \<bind> wr m (dest + i)) m = Some m' \<and> copied m dest src 0 n m'"
  by (rule for_down_rule) (use assms in \<open>auto intro!: copied_refl copied_step_down\<close>)

text \<open>
  \<^verbatim>\<open>memmove\<close> is right for every pair of ranges, overlapping ones included: the destination range
  afterwards holds what the source range held before, and no other byte changes.
\<close>

theorem memmove_correct:
  assumes "dest + n \<le> length m" and "src + n \<le> length m"
  shows "\<exists>m'. memmove m dest src n = Some m' \<and> region m' dest n = region m src n \<and>
           take dest m' = take dest m \<and> drop (dest + n) m' = drop (dest + n) m"
proof -
  have "\<exists>m'. memmove m dest src n = Some m' \<and> copied m dest src 0 n m'"
    using copy_up [OF assms] copy_down [OF assms]
    by (auto simp: memmove_def copied_def)
  then show ?thesis using copied_region assms by blast
qed

theorem memmove_correct_witness:
  "memmove [1, 2, 3, 4, 5] 1 0 3 = Some [1, 1, 2, 3, 5] \<and>
   (\<exists>m'. memmove [1, 2, 3, 4, 5] 1 0 3 = Some m' \<and> region m' 1 3 = region [1, 2, 3, 4, 5] 0 3)"
proof
  show "memmove [1, 2, 3, 4, 5] 1 0 3 = Some [1, 1, 2, 3, 5]" by code_simp
qed (use memmove_correct [of 1 3 "[1, 2, 3, 4, 5]" 0] in auto)

text \<open>
  \<^verbatim>\<open>memcpy\<close> of ranges that do not overlap copies the source range and changes no other byte;
  \<^verbatim>\<open>memset\<close> fills exactly the given range.
\<close>

theorem memcpy_memset_correct:
  assumes "dest + n \<le> length m" and "src + n \<le> length m" and "dest + n \<le> src \<or> src + n \<le> dest"
  shows "(\<exists>m'. memcpy m dest src n = Some m' \<and> region m' dest n = region m src n \<and>
            take dest m' = take dest m \<and> drop (dest + n) m' = drop (dest + n) m) \<and>
         memset m dest c n = Some (take dest m @ replicate n c @ drop (dest + n) m)"
proof
  show "\<exists>m'. memcpy m dest src n = Some m' \<and> region m' dest n = region m src n \<and>
      take dest m' = take dest m \<and> drop (dest + n) m' = drop (dest + n) m"
  proof -
    have "dest \<le> src \<or> src + n \<le> dest" using assms(3) by linarith
    from copy_up [OF assms(1,2) this] obtain m' where
      "memcpy m dest src n = Some m'" "copied m dest src 0 n m'" unfolding memcpy_def by blast
    with copied_region [OF _ assms(1,2)] show ?thesis by blast
  qed
  have "\<exists>t. for_up 0 n (\<lambda>i m. wr m (dest + i) c) m = Some t \<and> t = take dest m @ replicate n c @ drop (dest + n) m"
  proof (rule for_up_rule)
    fix j t
    assume j: "j < n" and t: "t = take dest m @ replicate j c @ drop (dest + j) m"
    have "drop (dest + j) m = m ! (dest + j) # drop (dest + Suc j) m"
      using j assms(1) nth_drop_eq [of "dest + j" m] by simp
    then have "t[dest + j := c] = take dest m @ replicate (Suc j) c @ drop (dest + Suc j) m"
      using j assms(1) by (simp add: t list_update_append min_def replicate_append_same [symmetric])
    moreover have "length t = length m" using j assms(1) t by simp
    ultimately show "\<exists>t'. wr t (dest + j) c = Some t' \<and> t' = take dest m @ replicate (Suc j) c @ drop (dest + Suc j) m"
      using j assms(1) by simp
  qed simp_all
  then show "memset m dest c n = Some (take dest m @ replicate n c @ drop (dest + n) m)"
    by (simp add: memset_def)
qed

theorem memcpy_memset_correct_witness:
  "(\<exists>m'. memcpy [1, 2, 3, 4, 5] 0 3 2 = Some m' \<and> region m' 0 2 = [4, 5]) \<and>
   memset [1, 2, 3, 4, 5] 0 9 2 = Some [9, 9, 3, 4, 5]"
  using memcpy_memset_correct [of 0 2 "[1, 2, 3, 4, 5]" 3 9]
  by (auto simp: region_def eval_nat_numeral)

section \<open>Strings\<close>

text \<open>The memory holds the string \<open>xs\<close>, without its terminating zero, at \<open>s\<close>.\<close>

fun cstr :: "mem \<Rightarrow> nat \<Rightarrow> u8 list \<Rightarrow> bool" where
  "cstr m s [] \<longleftrightarrow> rd m s = Some 0"
| "cstr m s (x # xs) \<longleftrightarrow> rd m s = Some x \<and> x \<noteq> 0 \<and> cstr m (Suc s) xs"

lemma cstr_bound: "cstr m s xs \<Longrightarrow> s + length xs < length m"
  by (induction xs arbitrary: s) (auto simp: rd_Some_iff, fastforce)

lemma cstr_nonzero: "cstr m s xs \<Longrightarrow> 0 \<notin> set xs"
  by (induction xs arbitrary: s) auto

lemma cstr_frame: "cstr m s xs \<Longrightarrow> d < s \<or> s + length xs < d \<Longrightarrow> cstr (m[d := v]) s xs"
  by (induction xs arbitrary: s) (auto simp: rd_Some_iff)

lemma cstr_append: "0 \<notin> set xs \<Longrightarrow> cstr (us @ xs @ 0 # vs) (length us) xs"
proof (induction xs arbitrary: us)
  case (Cons x xs)
  then have "cstr ((us @ [x]) @ xs @ 0 # vs) (length (us @ [x])) xs" by (intro Cons.IH) simp
  with Cons.prems show ?case by (simp add: rd_def)
qed (simp add: rd_def)

lemma cstr_at: "0 \<notin> set xs \<Longrightarrow> d \<le> length m \<Longrightarrow> cstr (take d m @ xs @ 0 # vs) d xs"
  using cstr_append [of xs "take d m" vs] by (simp add: min_absorb2)

lemma cstr_take: "cstr m s xs \<Longrightarrow> take (s + length xs) m = take s m @ xs"
proof (induction xs arbitrary: s)
  case (Cons x xs)
  then have "take (Suc s + length xs) m = take (Suc s) m @ xs" by (intro Cons.IH) simp
  with Cons.prems show ?case by (simp add: rd_Some_iff take_Suc_conv_app_nth)
qed simp

subsection \<open>Scanning\<close>

lemma strlen_loop_ok: "cstr m (s + len) xs \<Longrightarrow> strlen_loop m s len = Some (len + length xs)"
  by (induction xs arbitrary: len) (subst strlen_loop.simps, simp)+

lemma strnlen_loop_ok:
  "cstr m (s + len) xs \<Longrightarrow> len \<le> n \<Longrightarrow> strnlen_loop m s n len = Some (min n (len + length xs))"
proof (induction xs arbitrary: len)
  case Nil
  then show ?case by (subst strnlen_loop.simps) (auto simp: min_def)
next
  case (Cons x xs)
  show ?case
  proof (cases "len < n")
    case True
    with Cons.prems Cons.IH [of "Suc len"] show ?thesis by (subst strnlen_loop.simps) simp
  next
    case False
    with Cons.prems(2) show ?thesis by (subst strnlen_loop.simps) simp
  qed
qed

lemma str_has_ok: "cstr m j ys \<Longrightarrow> str_has m j c = Some (c \<in> set ys)"
  by (induction ys arbitrary: j) (subst str_has.simps, auto)+

lemma span_loop_ok:
  assumes "cstr m chars ys"
  shows "cstr m (s + i) xs \<Longrightarrow>
    span_loop want m s chars i = Some (i + length (takeWhile (\<lambda>x. (x \<in> set ys) = want) xs))"
proof (induction xs arbitrary: i)
  case (Cons x xs)
  then have "span_loop want m s chars (Suc i) = Some (Suc i + length (takeWhile (\<lambda>x. (x \<in> set ys) = want) xs))"
    by (intro Cons.IH) simp
  with Cons.prems show ?case by (subst span_loop.simps) (simp add: str_has_ok [OF assms])
qed (subst span_loop.simps, simp)

lemma strchr_ok:
  "cstr m s xs \<Longrightarrow> strchr m s c =
     Some (if c = 0 then Some (s + length xs)
           else if c \<in> set xs then Some (s + length (takeWhile (\<lambda>x. x \<noteq> c) xs)) else None)"
  by (induction xs arbitrary: s) (subst strchr.simps, auto)+

lemma strnchr_loop_ok:
  "cstr m (s + i) xs \<Longrightarrow> i \<le> n \<Longrightarrow> strnchr_loop m s c n i =
     Some (let k = i + length (takeWhile (\<lambda>x. x \<noteq> c) xs)
           in if k < n \<and> (c \<in> set xs \<or> c = 0) then Some (s + k) else None)"
proof (induction xs arbitrary: i)
  case Nil
  then show ?case by (subst strnchr_loop.simps) (auto simp: Let_def)
next
  case (Cons x xs)
  show ?case
  proof (cases "i < n")
    case True
    with Cons.prems Cons.IH [of "Suc i"] show ?thesis
      by (subst strnchr_loop.simps) (auto simp: Let_def)
  next
    case False
    then show ?thesis by (subst strnchr_loop.simps) (simp add: Let_def)
  qed
qed

lemma takeWhile_less: "c \<in> set ys \<Longrightarrow> length (takeWhile (\<lambda>x. x \<noteq> c) ys) < length ys"
  by (induction ys) auto

lemma strrchr_loop_ok:
  assumes "c \<noteq> 0"
  shows "cstr m s xs \<Longrightarrow> strrchr_loop m s c found =
     Some (if c \<in> set xs then Some (s + (length xs - 1 - length (takeWhile (\<lambda>x. x \<noteq> c) (rev xs)))) else found)"
proof (induction xs arbitrary: s found)
  case Nil
  with assms show ?case by (subst strrchr_loop.simps) simp
next
  case (Cons x xs)
  have "length (takeWhile (\<lambda>x. x \<noteq> c) (rev xs)) < length xs" if "c \<in> set xs"
    using that takeWhile_less [of c "rev xs"] by simp
  moreover have "takeWhile (\<lambda>x. x \<noteq> c) (rev xs @ [x]) = takeWhile (\<lambda>x. x \<noteq> c) (rev xs)" if "c \<in> set xs"
    using that by (simp add: takeWhile_append1)
  moreover have "takeWhile (\<lambda>x. x \<noteq> c) (rev xs @ [c]) = rev xs" if "c \<notin> set xs"
    using that by (subst takeWhile_append2) auto
  ultimately show ?case
    using Cons by (subst strrchr_loop.simps) auto
qed

lemma strrchr_zero_ok: "cstr m s xs \<Longrightarrow> strrchr_loop m s 0 found = Some (Some (s + length xs))"
  by (induction xs arbitrary: s found) (subst strrchr_loop.simps, auto)+

text \<open>
  On terminated strings the scanning functions return and compute what they are named for: the
  length, the length up to a bound, the first and the last occurrence of a byte, the occurrence
  within a bound, and the length of the longest prefix inside and outside a set of bytes.
\<close>

theorem string_scans_correct:
  assumes "cstr m s xs" and "cstr m set_ptr ys" and "c \<noteq> 0"
  shows "strlen m s = Some (length xs) \<and> strnlen_s m s n = Some (min n (length xs)) \<and>
    strchr m s c = Some (if c \<in> set xs then Some (s + length (takeWhile (\<lambda>x. x \<noteq> c) xs)) else None) \<and>
    strrchr m s c = Some (if c \<in> set xs
       then Some (s + (length xs - 1 - length (takeWhile (\<lambda>x. x \<noteq> c) (rev xs)))) else None) \<and>
    strnchr m s c n = Some (let k = length (takeWhile (\<lambda>x. x \<noteq> c) xs)
       in if k < n \<and> c \<in> set xs then Some (s + k) else None) \<and>
    strchr m s 0 = Some (Some (s + length xs)) \<and> strrchr m s 0 = Some (Some (s + length xs)) \<and>
    strspn m s set_ptr = Some (length (takeWhile (\<lambda>x. x \<in> set ys) xs)) \<and>
    strcspn m s set_ptr = Some (length (takeWhile (\<lambda>x. x \<notin> set ys) xs))"
  using strlen_loop_ok [of m s 0 xs] strnlen_loop_ok [of m s 0 xs n] strchr_ok [OF assms(1), of c]
    strchr_ok [OF assms(1), of 0] strrchr_loop_ok [OF assms(3,1), of None] strrchr_zero_ok [OF assms(1), of None]
    strnchr_loop_ok [of m s 0 xs n c] span_loop_ok [OF assms(2), of s 0 xs True] span_loop_ok [OF assms(2), of s 0 xs False]
    assms
  by (simp add: strlen_def strnlen_s_def strrchr_def strnchr_def strspn_def strcspn_def)

theorem string_scans_correct_witness:
  "strlen [104, 105, 0, 105, 0] 0 = Some 2 \<and> strchr [104, 105, 0, 105, 0] 0 105 = Some (Some 1) \<and>
   strcspn [104, 105, 0, 105, 0] 0 3 = Some 1"
  using string_scans_correct [of "[104, 105, 0, 105, 0]" 0 "[104, 105]" 3 "[105]" 105]
  by (simp add: rd_def)

subsection \<open>Comparing\<close>

lemma strcmp_ok:
  "cstr m a xs \<Longrightarrow> cstr m b ys \<Longrightarrow>
   \<exists>r. strcmp m a b = Some r \<and> (r = 0 \<longleftrightarrow> xs = ys) \<and> (r < 0 \<longleftrightarrow> ord_class.lexordp xs ys)"
proof (induction xs arbitrary: a b ys)
  case Nil
  then show ?case
    by (cases ys; subst strcmp.simps) (auto simp: word_gt_0)
next
  case (Cons x xs)
  then show ?case
  proof (cases ys)
    case Nil
    with Cons.prems show ?thesis by (subst strcmp.simps) auto
  next
    case (Cons y zs)
    with Cons.prems Cons.IH [of "Suc a" "Suc b" zs] show ?thesis
      by (subst strcmp.simps) auto
  qed
qed

lemma strncmp_loop_ok:
  "cstr m (a + i) xs \<Longrightarrow> cstr m (b + i) ys \<Longrightarrow>
   \<exists>r. strncmp_loop m a b n i = Some r \<and> (r = 0 \<longleftrightarrow> take (n - i) xs = take (n - i) ys) \<and>
       (r < 0 \<longleftrightarrow> ord_class.lexordp (take (n - i) xs) (take (n - i) ys))"
proof (induction xs arbitrary: i ys)
  case Nil
  show ?case
  proof (cases "i < n")
    case True
    then have "n - i = Suc (n - Suc i)" by simp
    with Nil True show ?thesis
      by (cases ys; subst strncmp_loop.simps) (auto simp: word_gt_0)
  qed (subst strncmp_loop.simps, simp)
next
  case (Cons x xs)
  show ?case
  proof (cases "i < n")
    case True
    then have n: "n - i = Suc (n - Suc i)" by simp
    show ?thesis
    proof (cases ys)
      case Nil
      with Cons.prems True n show ?thesis by (subst strncmp_loop.simps) (auto simp: word_gt_0)
    next
      case (Cons y zs)
      with Cons.prems Cons.IH [of "Suc i" zs] True n show ?thesis
        by (subst strncmp_loop.simps) auto
    qed
  qed (subst strncmp_loop.simps, simp)
qed

text \<open>
  \<^verbatim>\<open>strcmp\<close> and \<^verbatim>\<open>strncmp\<close> return zero exactly on strings (prefixes) that are equal, and a negative
  number exactly when the first is lexicographically smaller, bytes compared as unsigned.
\<close>

theorem strcmp_correct:
  assumes "cstr m a xs" and "cstr m b ys"
  shows "\<exists>r q. strcmp m a b = Some r \<and> (r = 0 \<longleftrightarrow> xs = ys) \<and> (r < 0 \<longleftrightarrow> ord_class.lexordp xs ys) \<and>
           strncmp m a b n = Some q \<and> (q = 0 \<longleftrightarrow> take n xs = take n ys) \<and>
           (q < 0 \<longleftrightarrow> ord_class.lexordp (take n xs) (take n ys))"
  using strcmp_ok [OF assms] strncmp_loop_ok [of m a 0 xs b ys n] assms by (auto simp: strncmp_def)

theorem strcmp_correct_witness:
  "\<exists>r. strcmp [104, 105, 0, 104, 200, 0] 0 3 = Some r \<and> r < 0"
  using strcmp_correct [of "[104, 105, 0, 104, 200, 0]" 0 "[104, 105]" 3 "[104, 200]" 5]
  by (auto simp: rd_def)

subsection \<open>Copying\<close>

lemma update_splice: "k < length m \<Longrightarrow> m[k := v] = take k m @ v # drop (Suc k) m"
  by (rule list_update_take_drop)

lemma strncpy_loop_ok:
  assumes "cstr m (src + i) xs" and "i \<le> n" and "dest + i + min (n - i) (length xs) < length m"
    and "dest + i + min (n - i) (length xs) < src + i \<or> src + i + length xs < dest + i"
  shows "strncpy_loop m dest src n i =
    Some (take (dest + i) m @ take (n - i) xs @ 0 # drop (Suc (dest + i + min (n - i) (length xs))) m)"
  using assms
proof (induction xs arbitrary: i m)
  case Nil
  then show ?case by (subst strncpy_loop.simps) (auto simp: update_splice)
next
  case (Cons x xs)
  show ?case
  proof (cases "i < n")
    case False
    with Cons.prems show ?thesis by (subst strncpy_loop.simps) (auto simp: update_splice)
  next
    case True
    let ?m = "m[dest + i := x]"
    have n: "n - i = Suc (n - Suc i)" using True by simp
    have d: "dest + i < length m" using Cons.prems(3) by simp
    have "cstr ?m (src + Suc i) xs"
      using Cons.prems True by (intro cstr_frame) (auto simp: n)
    then have "strncpy_loop ?m dest src n (Suc i) =
        Some (take (dest + Suc i) ?m @ take (n - Suc i) xs @ 0 # drop (Suc (dest + Suc i + min (n - Suc i) (length xs))) ?m)"
      using Cons.prems True by (intro Cons.IH) (auto simp: n)
    moreover have "take (dest + Suc i) ?m = take (dest + i) m @ [x]"
      using d by (simp add: take_Suc_conv_app_nth)
    ultimately show ?thesis
      using True Cons.prems d by (subst strncpy_loop.simps) (simp add: n)
  qed
qed

lemma strcpy_loop_ok:
  assumes "cstr m (src + i) xs" and "dest + i + length xs < length m"
    and "dest + i + length xs < src + i \<or> src + i + length xs < dest + i"
  shows "strcpy_loop m dest src i = Some (take (dest + i) m @ xs @ 0 # drop (Suc (dest + i + length xs)) m)"
  using assms
proof (induction xs arbitrary: i m)
  case Nil
  then show ?case by (subst strcpy_loop.simps) (auto simp: update_splice)
next
  case (Cons x xs)
  let ?m = "m[dest + i := x]"
  have d: "dest + i < length m" using Cons.prems(2) by simp
  have "cstr ?m (src + Suc i) xs"
    using Cons.prems by (intro cstr_frame) auto
  then have "strcpy_loop ?m dest src (Suc i) =
      Some (take (dest + Suc i) ?m @ xs @ 0 # drop (Suc (dest + Suc i + length xs)) ?m)"
    using Cons.prems by (intro Cons.IH) auto
  moreover have "take (dest + Suc i) ?m = take (dest + i) m @ [x]"
    using d by (simp add: take_Suc_conv_app_nth)
  ultimately show ?case
    using Cons.prems d by (subst strcpy_loop.simps) simp
qed

text \<open>
  C19. The bounded copies never write outside the destination buffer of \<open>destsz\<close> bytes and always leave a
  terminated string in it: \<^verbatim>\<open>strscpy\<close> the longest prefix that fits, \<^verbatim>\<open>strsncpy\<close> that of the first \<open>n\<close>
  bytes, whatever the length of the source.
\<close>

theorem strscpy_correct:
  assumes "cstr m src xs" and "0 < destsz" and "dest + destsz \<le> length m"
    and "dest + destsz \<le> src \<or> src + length xs < dest"
  shows "(\<exists>m'. strscpy m dest destsz src = Some m' \<and> cstr m' dest (take (destsz - 1) xs) \<and>
            length m' = length m \<and> take dest m' = take dest m \<and> drop (dest + destsz) m' = drop (dest + destsz) m) \<and>
         (\<exists>m'. strsncpy m dest destsz src n = Some m' \<and> cstr m' dest (take (min n (destsz - 1)) xs) \<and>
            length m' = length m \<and> take dest m' = take dest m \<and> drop (dest + destsz) m' = drop (dest + destsz) m)"
    (is "?P (strscpy m dest destsz src) (destsz - 1) \<and> ?P (strsncpy m dest destsz src n) (min n (destsz - 1))")
proof -
  have *: "?P (strncpy_loop m dest src k 0) k" if k: "k \<le> destsz - 1" for k
  proof -
    let ?l = "min k (length xs)"
    let ?m = "take dest m @ take k xs @ 0 # drop (Suc (dest + ?l)) m"
    have l: "dest + ?l < dest + destsz" using k assms(2) by simp
    then have "strncpy_loop m dest src k 0 = Some ?m"
      using strncpy_loop_ok [of m src 0 xs k dest] assms by auto
    moreover have "cstr ?m dest (take k xs)"
      using cstr_nonzero [OF assms(1)] assms(3) in_set_takeD [of 0 k xs] by (intro cstr_at) auto
    moreover have "length ?m = length m" using l assms(3) by (auto simp: min_def)
    moreover have "drop (dest + destsz) ?m = drop (dest + destsz) m"
    proof -
      have "length (take dest m @ take k xs @ [0]) = dest + ?l + 1" using assms(3) by (simp add: min.commute)
      then have "length (take dest m @ take k xs @ [0]) \<le> dest + destsz" using l by linarith
      moreover have "?m = (take dest m @ take k xs @ [0]) @ drop (Suc (dest + ?l)) m" by simp
      ultimately show ?thesis
        using l assms(3) \<open>length (take dest m @ take k xs @ [0]) = dest + ?l + 1\<close>
        by (simp only: drop_append) (simp add: add.commute)
    qed
    ultimately show ?thesis using assms(3) by auto
  qed
  from * [of "destsz - 1"] assms(2) have "?P (strscpy m dest destsz src) (destsz - 1)"
    by (simp add: strscpy_def)
  moreover have "strsncpy m dest destsz src n = strncpy_loop m dest src (min n (destsz - 1)) 0"
    using assms(2) by (simp add: strsncpy_def Let_def min_def not_less)
  with * [of "min n (destsz - 1)"] have "?P (strsncpy m dest destsz src n) (min n (destsz - 1))"
    by simp
  ultimately show ?thesis ..
qed

theorem strscpy_correct_witness:
  "\<exists>m'. strscpy [104, 105, 106, 0, 9, 9, 9] 4 3 0 = Some m' \<and> cstr m' 4 [104, 105] \<and> length m' = 7"
  using strscpy_correct [of "[104, 105, 106, 0, 9, 9, 9]" 0 "[104, 105, 106]" 3 4 1]
  by (auto simp: rd_def)

text \<open>
  Appending: \<^verbatim>\<open>strscat\<close> to a string that fits its buffer leaves the old string followed by as much
  of the source as fits, terminated inside the buffer; \<^verbatim>\<open>strcpy\<close> and \<^verbatim>\<open>strcat\<close> write the whole source
  wherever the destination has room for it.
\<close>

theorem strcat_correct:
  assumes "cstr m src ys" and "cstr m dest xs" and "length xs < destsz" and "dest + destsz \<le> length m"
    and "dest + destsz \<le> src \<or> src + length ys < dest"
  shows "(\<exists>m'. strscat m dest destsz src = Some m' \<and> cstr m' dest (xs @ take (destsz - length xs - 1) ys) \<and>
            length m' = length m) \<and>
         (length xs + length ys < destsz \<longrightarrow>
            (\<exists>m'. strcat m dest src = Some m' \<and> cstr m' dest (xs @ ys) \<and> length m' = length m) \<and>
            (\<exists>m'. strcpy m dest src = Some m' \<and> cstr m' dest ys \<and> length m' = length m))"
proof -
  have nz: "0 \<notin> set xs" "0 \<notin> set ys" using cstr_nonzero assms(1,2) by auto
  have tk: "take (dest + length xs) m = take dest m @ xs" using cstr_take [OF assms(2)] .
  have app: "cstr (take dest m @ (xs @ zs) @ 0 # rest) dest (xs @ zs)" if "set zs \<subseteq> set ys" for zs rest
    using nz that assms(4) by (intro cstr_at) auto
  let ?k = "min (destsz - length xs - 1) (length ys)"
  have "strnlen_loop m dest destsz 0 = Some (length xs)"
    using strnlen_loop_ok [of m dest 0 xs destsz] assms(2,3) by simp
  moreover have "strncpy_loop m (dest + length xs) src (destsz - length xs - 1) 0 =
      Some (take (dest + length xs) m @ take (destsz - length xs - 1) ys @ 0 # drop (Suc (dest + length xs + ?k)) m)"
    using strncpy_loop_ok [of m src 0 ys "destsz - length xs - 1" "dest + length xs"] assms by auto
  ultimately have "strscat m dest destsz src = Some (take dest m @ (xs @ take (destsz - length xs - 1) ys) @
      0 # drop (Suc (dest + length xs + ?k)) m)"
    using assms(3) by (simp add: strscat_def tk)
  moreover have "length (take dest m @ (xs @ take (destsz - length xs - 1) ys) @ 0 # drop (Suc (dest + length xs + ?k)) m) = length m"
    using assms(3,4) by (auto simp: min_def)
  ultimately have 1: "\<exists>m'. strscat m dest destsz src = Some m' \<and>
      cstr m' dest (xs @ take (destsz - length xs - 1) ys) \<and> length m' = length m"
    using app [OF set_take_subset] by blast
  have "(\<exists>m'. strcat m dest src = Some m' \<and> cstr m' dest (xs @ ys) \<and> length m' = length m) \<and>
      (\<exists>m'. strcpy m dest src = Some m' \<and> cstr m' dest ys \<and> length m' = length m)"
    if fit: "length xs + length ys < destsz"
  proof -
    have "strcat m dest src = Some (take dest m @ (xs @ ys) @ 0 # drop (Suc (dest + length xs + length ys)) m)"
      using strcpy_loop_ok [of m src 0 ys "dest + length xs"] strlen_loop_ok [of m dest 0 xs] assms fit
      by (auto simp: strcat_def tk)
    moreover have "strcpy m dest src = Some (take dest m @ ys @ 0 # drop (Suc (dest + length ys)) m)"
      using strcpy_loop_ok [of m src 0 ys dest] assms fit by (auto simp: strcpy_def)
    moreover have "cstr (take dest m @ ys @ 0 # drop (Suc (dest + length ys)) m) dest ys"
      using nz assms(4) by (intro cstr_at) auto
    ultimately show ?thesis using app [of ys] fit assms(4) by auto
  qed
  with 1 show ?thesis by blast
qed

theorem strcat_correct_witness:
  "\<exists>m'. strscat [104, 105, 0, 97, 0, 9, 9] 3 4 0 = Some m' \<and> cstr m' 3 [97, 104, 105] \<and> length m' = 7"
  using strcat_correct [of "[104, 105, 0, 97, 0, 9, 9]" 0 "[104, 105]" 3 "[97]" 4]
  by (auto simp: rd_def)

end
