(* ===== verification/Kc_Errno.thy ===== *)
theory Kc_Errno
  imports Opal_Prelude
begin

text \<open>\<open>libkc/include/kc/kerrno.h\<close> and \<open>libkc/src/kerrno.c\<close>: the error codes and their names.\<close>

datatype kerrno =
    OPAL_OK | OPAL_EIO | OPAL_ENOMEM | OPAL_EBUSY | OPAL_ENOENT | OPAL_EEXIST | OPAL_ERANGE | OPAL_EINVAL
  | OPAL_EBUFSIZE | OPAL_ETOOBIG | OPAL_ENOTSUPP | OPAL_ENOSPC | OPAL_ETIMEOUT | OPAL_EISDIR | OPAL_ENOTDIR
  | OPAL_EBADIMAGE | OPAL_ENOEXEC | OPAL_EUNKNOWN

primrec kerrno_value :: "kerrno \<Rightarrow> int" where
  "kerrno_value OPAL_OK = 0"
| "kerrno_value OPAL_EIO = -1"
| "kerrno_value OPAL_ENOMEM = -2"
| "kerrno_value OPAL_EBUSY = -3"
| "kerrno_value OPAL_ENOENT = -4"
| "kerrno_value OPAL_EEXIST = -5"
| "kerrno_value OPAL_ERANGE = -6"
| "kerrno_value OPAL_EINVAL = -7"
| "kerrno_value OPAL_EBUFSIZE = -8"
| "kerrno_value OPAL_ETOOBIG = -10"
| "kerrno_value OPAL_ENOTSUPP = -11"
| "kerrno_value OPAL_ENOSPC = -12"
| "kerrno_value OPAL_ETIMEOUT = -13"
| "kerrno_value OPAL_EISDIR = -100"
| "kerrno_value OPAL_ENOTDIR = -101"
| "kerrno_value OPAL_EBADIMAGE = -200"
| "kerrno_value OPAL_ENOEXEC = -201"
| "kerrno_value OPAL_EUNKNOWN = -1000"

definition kerrno_ok :: "kerrno \<Rightarrow> bool" where
  "kerrno_ok err \<longleftrightarrow> kerrno_value err \<ge> 0"

text \<open>The C function takes any integer: a code outside the enumeration is named as unknown.\<close>

definition kerrno_str :: "int \<Rightarrow> string" where
  "kerrno_str err =
     (if err \<ge> 0 then ''OPAL_OK''
      else if err = -1 then ''OPAL_EIO''
      else if err = -2 then ''OPAL_ENOMEM''
      else if err = -3 then ''OPAL_EBUSY''
      else if err = -4 then ''OPAL_ENOENT''
      else if err = -5 then ''OPAL_EEXIST''
      else if err = -6 then ''OPAL_ERANGE''
      else if err = -7 then ''OPAL_EINVAL''
      else if err = -8 then ''OPAL_EBUFSIZE''
      else if err = -10 then ''OPAL_ETOOBIG''
      else if err = -11 then ''OPAL_ENOTSUPP''
      else if err = -12 then ''OPAL_ENOSPC''
      else if err = -13 then ''OPAL_ETIMEOUT''
      else if err = -100 then ''OPAL_EISDIR''
      else if err = -101 then ''OPAL_ENOTDIR''
      else if err = -200 then ''OPAL_EBADIMAGE''
      else if err = -201 then ''OPAL_ENOEXEC''
      else ''OPAL_EUNKNOWN'')"

lemma kerrno_ok_iff [simp]: "kerrno_ok err \<longleftrightarrow> err = OPAL_OK"
  by (cases err) (simp_all add: kerrno_ok_def)

lemma kerrno_value_inject [simp]: "kerrno_value a = kerrno_value b \<longleftrightarrow> a = b"
  by (cases a; cases b) simp_all

text \<open>Different codes have different names.\<close>

lemma kerrno_str_inject: "kerrno_str (kerrno_value a) = kerrno_str (kerrno_value b) \<longleftrightarrow> a = b"
  by (cases a; cases b) (simp_all add: kerrno_str_def)

end
