(* ===== verification/Kc_Strtoul.thy ===== *)
theory Kc_Strtoul
  imports Kc_String Kc_Errno
begin

text \<open>
  \<open>libkc/src/strtoul.c\<close>: parsing an unsigned number out of a string. The theory shows that the value
  returned is the number the digits denote, and that the wrap-around of the 64-bit accumulator is
  always detected.
\<close>

section \<open>Model\<close>

definition digit_value :: "u8 \<Rightarrow> int" where
  "digit_value ch =
     (if ch \<ge> 48 \<and> ch \<le> 57 then uint ch - 48
      else if ch \<ge> 97 \<and> ch \<le> 122 then uint ch - 97 + 10
      else if ch \<ge> 65 \<and> ch \<le> 90 then uint ch - 65 + 10
      else -1)"

definition isspace :: "u8 \<Rightarrow> bool" where
  "isspace ch \<longleftrightarrow> ch = 32 \<or> ch = 9 \<or> ch = 10 \<or> ch = 13 \<or> ch = 12 \<or> ch = 11"

function skip_space :: "mem \<Rightarrow> nat \<Rightarrow> nat option" where
  "skip_space m s = do { c \<leftarrow> rd m s; if isspace c then skip_space m (s + 1) else Some s }"
  by pat_completeness auto
termination
  by (relation "measure (\<lambda>(m, s). length m - s)") (auto simp: rd_Some_iff)

text \<open>
  \<^verbatim>\<open>s[0] == '0' && (s[1] == 'x' || s[1] == 'X') && 0 <= digit_value(s[2]) < 16\<close>, with the reads in the
  order and under the conditions of the C operators.
\<close>

definition hex_prefix :: "mem \<Rightarrow> nat \<Rightarrow> bool option" where
  "hex_prefix m s = do {
     c0 \<leftarrow> rd m s;
     if c0 \<noteq> 48 then Some False
     else do {
       c1 \<leftarrow> rd m (s + 1);
       if c1 \<noteq> 120 \<and> c1 \<noteq> 88 then Some False
       else do {
         c2 \<leftarrow> rd m (s + 2);
         Some (digit_value c2 \<ge> 0 \<and> digit_value c2 < 16)
       }
     }
   }"

definition detect_base :: "mem \<Rightarrow> nat \<Rightarrow> int \<Rightarrow> (nat \<times> int) option" where
  "detect_base m s base =
     (if base = 0 then do {
        hex \<leftarrow> hex_prefix m s;
        if hex then Some (s + 2, 16)
        else do { c \<leftarrow> rd m s; Some (s, if c = 48 then 8 else 10) }
      } else if base = 16 then do {
        hex \<leftarrow> hex_prefix m s;
        Some (if hex then s + 2 else s, base)
      } else Some (s, base))"

text \<open>One digit of the accumulation: the new value and the overflow flag.\<close>

definition accumulate :: "int \<Rightarrow> int \<Rightarrow> u64 \<times> bool \<Rightarrow> u64 \<times> bool" where
  "accumulate base digit = (\<lambda>(value, overflow).
     if overflow then (value, overflow)
     else if value > (U64_MAX - word_of_int digit) div word_of_int base then (U64_MAX, True)
     else (value * word_of_int base + word_of_int digit, False))"

function digits_loop :: "mem \<Rightarrow> nat \<Rightarrow> int \<Rightarrow> u64 \<times> bool \<Rightarrow> bool \<Rightarrow> (nat \<times> (u64 \<times> bool) \<times> bool) option" where
  "digits_loop m s base acc has_digit = do {
     c \<leftarrow> rd m s;
     let digit = digit_value c;
     if digit < 0 \<or> digit \<ge> base then Some (s, acc, has_digit)
     else digits_loop m (s + 1) base (accumulate base digit acc) True
   }"
  by pat_completeness auto
termination
  by (relation "measure (\<lambda>(m, s, base, acc, has_digit). length m - s)") (auto simp: rd_Some_iff)

declare skip_space.simps [simp del] digits_loop.simps [simp del]

text \<open>
  The error code, the value stored through \<^verbatim>\<open>endptr\<close> and the value stored through \<^verbatim>\<open>result\<close>
  (\<^term>\<open>None\<close>: not written). \<^verbatim>\<open>str\<close> and \<^verbatim>\<open>result\<close> may be null pointers.
\<close>

definition kstrtoul :: "mem \<Rightarrow> nat option \<Rightarrow> int \<Rightarrow> bool \<Rightarrow> (kerrno \<times> nat option \<times> u64 option) option" where
  "kstrtoul m str_ptr base have_result =
     (case str_ptr of
        None \<Rightarrow> Some (OPAL_EINVAL, None, None)
      | Some str \<Rightarrow>
          if \<not> have_result \<or> (base \<noteq> 0 \<and> (base < 2 \<or> base > 36)) then Some (OPAL_EINVAL, Some str, None)
          else do {
            s \<leftarrow> skip_space m str;
            c \<leftarrow> rd m s;
            if c = 45 then Some (OPAL_EINVAL, Some s, None)
            else do {
              let s = (if c = 43 then s + 1 else s);
              (s, base) \<leftarrow> detect_base m s base;
              (s, (value, overflow), has_digit) \<leftarrow> digits_loop m s base (0, False) False;
              if \<not> has_digit then Some (OPAL_EINVAL, Some str, None)
              else if overflow then Some (OPAL_ERANGE, Some s, None)
              else Some (OPAL_OK, Some s, Some value)
            }
          })"

definition kstrtoul_exact :: "mem \<Rightarrow> nat option \<Rightarrow> int \<Rightarrow> u64 \<Rightarrow> bool \<Rightarrow> (kerrno \<times> u64 option) option" where
  "kstrtoul_exact m str_ptr base limit have_result = do {
     (err, endptr, result) \<leftarrow> kstrtoul m str_ptr base have_result;
     case (endptr, result) of
       (Some e, Some value) \<Rightarrow>
         if kerrno_ok err then do {
           c \<leftarrow> rd m e;
           if c \<noteq> 0 then Some (OPAL_EINVAL, result)
           else if value > limit then Some (OPAL_ERANGE, result)
           else Some (err, result)
         } else Some (err, result)
     | _ \<Rightarrow> Some (err, result)
   }"

section \<open>The number a digit string denotes\<close>

definition is_digit :: "int \<Rightarrow> u8 \<Rightarrow> bool" where
  "is_digit base c \<longleftrightarrow> 0 \<le> digit_value c \<and> digit_value c < base"

definition number :: "int \<Rightarrow> u8 list \<Rightarrow> nat" where
  "number base ds = foldl (\<lambda>n c. n * nat base + nat (digit_value c)) 0 ds"

lemma number_snoc: "number base (ds @ [c]) = number base ds * nat base + nat (digit_value c)"
  by (simp add: number_def)

lemma number_mono: "2 \<le> base \<Longrightarrow> number base ds \<le> number base (ds @ es)"
proof (induction es rule: rev_induct)
  case (snoc e es)
  have "1 \<le> nat base" using snoc.prems by simp
  then have "number base (ds @ es) * 1 \<le> number base (ds @ es) * nat base" by (rule mult_le_mono2)
  then have "number base (ds @ es) \<le> number base ((ds @ es) @ [e])"
    unfolding number_snoc by linarith
  with snoc show ?case by (metis append.assoc le_trans)
qed simp

text \<open>The accumulator after the digits \<open>ds\<close>.\<close>

definition acc_ok :: "int \<Rightarrow> u8 list \<Rightarrow> u64 \<times> bool \<Rightarrow> bool" where
  "acc_ok base ds acc \<longleftrightarrow>
     (if number base ds < 2 ^ 64 then \<not> snd acc \<and> unat (fst acc) = number base ds else snd acc)"

lemma unat_word_of_int: "0 \<le> i \<Longrightarrow> i < 2 ^ 64 \<Longrightarrow> unat (word_of_int i :: u64) = nat i"
  by (simp add: unat_eq_nat_uint uint_word_of_int)

lemma of_nat_unat_id: "of_nat (unat (x :: u64)) = x"
  by simp

lemma acc_ok_step:
  assumes "acc_ok base ds acc" and "is_digit base c" and "2 \<le> base" "base \<le> 36"
  shows "acc_ok base (ds @ [c]) (accumulate base (digit_value c) acc)"
proof -
  obtain v ov where acc: "acc = (v, ov)" by fastforce
  let ?d = "digit_value c" and ?n = "number base ds"
  have d: "0 \<le> ?d" "?d < base" using assms(2) by (auto simp: is_digit_def)
  have ud: "unat (word_of_int ?d :: u64) = nat ?d" and ub: "unat (word_of_int base :: u64) = nat base"
    using d assms(3,4) by (auto intro!: unat_word_of_int)
  have le: "?n \<le> number base (ds @ [c])" by (rule number_mono [OF assms(3)])
  show ?thesis
  proof (cases ov)
    case True
    with assms(1) acc have "\<not> ?n < 2 ^ 64" by (auto simp: acc_ok_def split: if_splits)
    with le True acc show ?thesis by (auto simp: acc_ok_def accumulate_def)
  next
    case False
    with assms(1) acc have v: "unat v = ?n" by (auto simp: acc_ok_def split: if_splits)
    have md: "unat (U64_MAX - word_of_int ?d) = 2 ^ 64 - 1 - nat ?d"
      using ud d assms(4) by (subst unat_sub_no_wrap) (simp_all add: unat_U64_MAX)
    have q: "unat ((U64_MAX - word_of_int ?d) div word_of_int base) = (2 ^ 64 - 1 - nat ?d) div nat base"
      unfolding unat_div md ub ..
    have "v > (U64_MAX - word_of_int ?d) div word_of_int base \<longleftrightarrow> \<not> ?n * nat base + nat ?d < 2 ^ 64"
    proof -
      have "v > (U64_MAX - word_of_int ?d) div word_of_int base \<longleftrightarrow> (2 ^ 64 - 1 - nat ?d) div nat base < ?n"
        unfolding word_less_nat_alt q v ..
      also have "\<dots> \<longleftrightarrow> 2 ^ 64 - 1 - nat ?d < ?n * nat base"
        using assms(3) by (subst div_less_iff_less_mult) simp_all
      also have "\<dots> \<longleftrightarrow> \<not> ?n * nat base + nat ?d < 2 ^ 64"
      proof -
        have "nat ?d \<le> 36" using d assms(4) by simp
        then show ?thesis by (simp add: not_less) linarith
      qed
      finally show ?thesis .
    qed
    moreover have "unat (v * word_of_int base + word_of_int ?d) = ?n * nat base + nat ?d"
      if "?n * nat base + nat ?d < 2 ^ 64"
      using that by (simp add: unat_word_ariths v ud ub)
    ultimately show ?thesis
      using False acc by (auto simp: acc_ok_def accumulate_def number_snoc)
  qed
qed

lemma rd_append [simp]: "rd (us @ c # vs) (length us) = Some c"
  by (simp add: rd_def)

lemma digits_loop_ok:
  assumes "2 \<le> base" "base \<le> 36"
  shows "\<forall>c \<in> set es. is_digit base c \<Longrightarrow> acc_ok base ds acc \<Longrightarrow> \<not> is_digit base t \<Longrightarrow>
    \<exists>acc'. digits_loop (us @ es @ t # vs) (length us) base acc h =
             Some (length us + length es, acc', h \<or> es \<noteq> []) \<and> acc_ok base (ds @ es) acc'"
proof (induction es arbitrary: us ds acc h)
  case Nil
  then show ?case by (cases acc, subst digits_loop.simps) (auto simp: is_digit_def Let_def)
next
  case (Cons c es)
  let ?acc = "accumulate base (digit_value c) acc"
  have "\<exists>acc'. digits_loop ((us @ [c]) @ es @ t # vs) (length (us @ [c])) base ?acc True =
      Some (length (us @ [c]) + length es, acc', True \<or> es \<noteq> []) \<and> acc_ok base ((ds @ [c]) @ es) acc'"
    using Cons.prems acc_ok_step [OF Cons.prems(2) _ assms] by (intro Cons.IH) auto
  with Cons.prems(1) show ?case
    by (subst digits_loop.simps) (auto simp: is_digit_def Let_def)
qed

lemma skip_space_ok:
  "\<forall>c \<in> set ws. isspace c \<Longrightarrow> \<not> isspace t \<Longrightarrow>
   skip_space (us @ ws @ t # vs) (length us) = Some (length us + length ws)"
proof (induction ws arbitrary: us)
  case Nil
  then show ?case by (subst skip_space.simps) simp
next
  case (Cons c ws)
  have "skip_space ((us @ [c]) @ ws @ t # vs) (length (us @ [c])) = Some (length (us @ [c]) + length ws)"
    using Cons.prems by (intro Cons.IH) auto
  with Cons.prems(1) show ?case by (subst skip_space.simps) simp
qed

lemma digit_not_special: "is_digit base c \<Longrightarrow> c \<noteq> 45 \<and> c \<noteq> 43 \<and> \<not> isspace c"
  by (auto simp: is_digit_def digit_value_def isspace_def)

lemma kstrtoul_parse:
  assumes "2 \<le> base" "base \<le> 36" "base \<noteq> 16" and "\<forall>c \<in> set ws. isspace c" and "sign = [] \<or> sign = [43]"
    and "ds \<noteq> []" and "\<forall>c \<in> set ds. is_digit base c" and "\<not> is_digit base t"
  shows "kstrtoul (us @ ws @ sign @ ds @ t # vs) (Some (length us)) base True =
    (let e = length us + length ws + length sign + length ds
     in if number base ds < 2 ^ 64 then Some (OPAL_OK, Some e, Some (of_nat (number base ds)))
        else Some (OPAL_ERANGE, Some e, None))"
proof -
  let ?m = "us @ ws @ sign @ ds @ t # vs"
  obtain d dr where ds: "ds = d # dr" using assms(6) by (cases ds) auto
  obtain f fr where f: "sign @ ds @ t # vs = f # fr" "f \<noteq> 45" "\<not> isspace f" "f = 43 \<longleftrightarrow> sign = [43]"
    using assms(5,7) ds digit_not_special [of base d] by (auto simp: isspace_def)
  have sp: "skip_space ?m (length us) = Some (length us + length ws)"
    using skip_space_ok [OF assms(4) f(3), of us fr] f(1) by simp
  have rf: "rd ?m (length us + length ws) = Some f"
    using rd_append [of "us @ ws" f fr] f(1) by simp
  have ok0: "acc_ok base [] (0, False)" by (simp add: acc_ok_def number_def)
  from digits_loop_ok [OF assms(1,2,7) ok0 assms(8), of "us @ ws @ sign" vs False] obtain v ov where
    dl: "digits_loop ?m (length us + length ws + length sign) base (0, False) False =
           Some (length us + length ws + length sign + length ds, (v, ov), True)" "acc_ok base ds (v, ov)"
    using assms(6) by (auto simp: add.assoc)
  have "(if f = 43 then length us + length ws + 1 else length us + length ws) = length us + length ws + length sign"
    using f(4) assms(5) by auto
  moreover have "v = of_nat (number base ds)" if "number base ds < 2 ^ 64"
    using dl(2) that by (metis acc_ok_def fst_conv of_nat_unat_id)
  ultimately show ?thesis
    using assms(1-3) sp rf f(2) dl by (auto simp: kstrtoul_def detect_base_def acc_ok_def Let_def split: if_splits)
qed

section \<open>Properties\<close>

text \<open>
  For an explicit base other than 16, \<^verbatim>\<open>kstrtoul\<close> on white space, an optional plus sign, at least one
  digit and any byte that is not a digit returns: the number the digits denote when it fits 64
  bits, and the range error otherwise, with \<^verbatim>\<open>endptr\<close> at the first byte after the digits. In
  particular the accumulator never wraps unnoticed.
\<close>

theorem kstrtoul_correct:
  assumes "2 \<le> base" "base \<le> 36" "base \<noteq> 16" and "\<forall>c \<in> set ws. isspace c" and "sign = [] \<or> sign = [43]"
    and "ds \<noteq> []" and "\<forall>c \<in> set ds. is_digit base c" and "\<not> is_digit base t"
  shows "kstrtoul (us @ ws @ sign @ ds @ t # vs) (Some (length us)) base True =
    (let e = length us + length ws + length sign + length ds
     in if number base ds < 2 ^ 64 then Some (OPAL_OK, Some e, Some (of_nat (number base ds)))
        else Some (OPAL_ERANGE, Some e, None))"
  using assms by (rule kstrtoul_parse)

theorem kstrtoul_correct_witness:
  "kstrtoul [32, 43, 52, 50, 0] (Some 0) 10 True = Some (OPAL_OK, Some 4, Some 42)"
proof -
  have "\<forall>c \<in> set [52, 50]. is_digit 10 c" "\<not> is_digit 10 0" "number 10 [52, 50] = 42" "\<forall>c \<in> set [32]. isspace c"
    by (auto simp: is_digit_def digit_value_def number_def isspace_def)
  with kstrtoul_correct [of 10 "[32]" "[43]" "[52, 50]" 0 "[]" "[]"] show ?thesis by simp
qed

text \<open>
  A missing string or result, a base out of range, a minus sign and a string without digits are
  invalid arguments, and nothing is stored through \<^verbatim>\<open>result\<close>.
\<close>

theorem kstrtoul_rejects:
  assumes "\<forall>c \<in> set ws. isspace c" and "\<not> isspace t"
  shows "kstrtoul m None base r = Some (OPAL_EINVAL, None, None) \<and>
    kstrtoul m (Some s) base False = Some (OPAL_EINVAL, Some s, None) \<and>
    (base \<noteq> 0 \<and> (base < 2 \<or> base > 36) \<longrightarrow> kstrtoul m (Some s) base r = Some (OPAL_EINVAL, Some s, None)) \<and>
    (2 \<le> base \<and> base \<le> 36 \<longrightarrow>
       kstrtoul (us @ ws @ 45 # vs) (Some (length us)) base True = Some (OPAL_EINVAL, Some (length us + length ws), None)) \<and>
    (2 \<le> base \<and> base \<le> 36 \<and> base \<noteq> 16 \<and> t \<noteq> 45 \<and> t \<noteq> 43 \<and> \<not> is_digit base t \<longrightarrow>
       kstrtoul (us @ ws @ t # vs) (Some (length us)) base True = Some (OPAL_EINVAL, Some (length us), None))"
proof -
  have sp: "skip_space (us @ ws @ c # vs) (length us) = Some (length us + length ws)" if "\<not> isspace c" for c
    by (rule skip_space_ok [OF assms(1) that])
  have rf: "rd (us @ ws @ c # vs) (length us + length ws) = Some c" for c
    using rd_append [of "us @ ws" c vs] by simp
  have "digits_loop (us @ ws @ t # vs) (length us + length ws) base (0, False) False =
      Some (length us + length ws, (0, False), False)" if "\<not> is_digit base t"
    using that rf [of t] by (subst digits_loop.simps) (auto simp: is_digit_def Let_def)
  moreover have "\<not> isspace 45" by (simp add: isspace_def)
  ultimately show ?thesis
    using sp [of 45] sp [of t] rf [of 45] rf [of t] assms(2) by (simp add: kstrtoul_def detect_base_def)
qed

theorem kstrtoul_rejects_witness:
  "kstrtoul [32, 45, 52, 0] (Some 0) 10 True = Some (OPAL_EINVAL, Some 1, None)"
  using kstrtoul_rejects [of "[32]" 0 "[]" 10 True 0 "[]" "[52, 0]"] by (simp add: isspace_def)

end
