(* ===== verification/Kc_Fmt.thy ===== *)
theory Kc_Fmt
  imports Kc_Strtoul
begin

text \<open>
  \<open>libkc/src/fmt.c\<close> and \<open>libkc/src/stdio.c\<close>: formatted output. The destination buffer is an object of its own, since
  the pointers to it are \<^verbatim>\<open>restrict\<close>; the format and the strings it prints are read from one byte memory, where address 0
  is the null pointer. An argument list is the list of its 8-byte slots. A signed computation that leaves the range of
  \<^verbatim>\<open>int\<close> is undefined in C and is a fault here. The theory shows that every directive emits the text a pure
  definition gives, that the buffer receives exactly the part of the text that fits, and that printed numbers are read
  back by \<open>kstrtoul\<close>.
\<close>

section \<open>Model\<close>

datatype length_modifier = LEN_NONE | LEN_HH | LEN_H | LEN_L | LEN_LL | LEN_J | LEN_Z | LEN_T | LEN_CAP_L

record printf_flags =
  pf_left_adj :: bool
  pf_plus :: bool
  pf_space :: bool
  pf_alt :: bool
  pf_zero_pad :: bool
  pf_width :: int
  pf_precision :: int

text \<open>
  The union of the buffer pointer and the write function is two fields: an index into the destination, and whether
  \<^verbatim>\<open>write_fn\<close> is set. The function itself, with a state of its own, is an argument of the operations.
\<close>

record 'w fmt =
  fmt_dest :: "u8 list"
  fmt_buffer :: nat
  fmt_write_fn :: bool
  fmt_size :: u32
  fmt_count :: u32
  fmt_error :: bool
  fmt_sink :: 'w

type_synonym 'w write_fn = "'w \<Rightarrow> u8 \<Rightarrow> bool \<times> 'w"
type_synonym va_list = "u64 list"

abbreviation INT_MAX :: int where "INT_MAX \<equiv> 0x7fffffff"

definition write_char :: "'w write_fn \<Rightarrow> u8 \<Rightarrow> 'w fmt \<Rightarrow> 'w fmt option" where
  "write_char put ch st =
     (if fmt_error st then Some st
      else if fmt_count st \<ge> 0x7fffffff then Some (st\<lparr>fmt_error := True\<rparr>)
      else if fmt_size st > 0 then
        if fmt_count st < fmt_size st - 1 then do {
          d \<leftarrow> wr (fmt_dest st) (fmt_buffer st) ch;
          Some (st\<lparr>fmt_dest := d, fmt_buffer := fmt_buffer st + 1, fmt_count := fmt_count st + 1\<rparr>)
        } else do {
          d \<leftarrow> wr (fmt_dest st) (fmt_buffer st) 0;
          Some (st\<lparr>fmt_dest := d, fmt_size := 0, fmt_write_fn := False, fmt_count := fmt_count st + 1\<rparr>)
        }
      else if fmt_write_fn st then
        (case put (fmt_sink st) ch of (ok, w) \<Rightarrow>
           if ok then Some (st\<lparr>fmt_sink := w, fmt_count := fmt_count st + 1\<rparr>)
           else Some (st\<lparr>fmt_sink := w, fmt_error := True\<rparr>))
      else Some (st\<lparr>fmt_count := fmt_count st + 1\<rparr>))"

primrec write_repeat :: "'w write_fn \<Rightarrow> u8 \<Rightarrow> nat \<Rightarrow> 'w fmt \<Rightarrow> 'w fmt option" where
  "write_repeat put ch 0 st = Some st"
| "write_repeat put ch (Suc n) st = do {
     st \<leftarrow> write_char put ch st;
     if fmt_error st then Some st else write_repeat put ch n st
   }"

primrec write_bytes :: "'w write_fn \<Rightarrow> mem \<Rightarrow> nat \<Rightarrow> nat \<Rightarrow> 'w fmt \<Rightarrow> 'w fmt option" where
  "write_bytes put m s 0 st = Some st"
| "write_bytes put m s (Suc n) st = do {
     c \<leftarrow> rd m s;
     st \<leftarrow> write_char put c st;
     if fmt_error st then Some st else write_bytes put m (Suc s) n st
   }"

definition lo_digits :: "u8 list" where
  "lo_digits = [48, 49, 50, 51, 52, 53, 54, 55, 56, 57, 97, 98, 99, 100, 101, 102]"

definition hi_digits :: "u8 list" where
  "hi_digits = [48, 49, 50, 51, 52, 53, 54, 55, 56, 57, 65, 66, 67, 68, 69, 70]"

text \<open>The array \<^verbatim>\<open>rev\<close> has 64 bytes.\<close>

function utoa_loop :: "u8 list \<Rightarrow> u64 \<Rightarrow> u64 \<Rightarrow> u8 list \<Rightarrow> u8 list option" where
  "utoa_loop digits base value out =
     (if value \<noteq> 0 then
        if length out < 64 then do {
          d \<leftarrow> rd digits (unat (value mod base));
          utoa_loop digits base (value div base) (out @ [d])
        } else None
      else Some out)"
  by pat_completeness auto
termination
  by (relation "measure (\<lambda>(digits, base, value, out). 64 - length out)") auto

declare utoa_loop.simps [simp del]

definition utoa_rev :: "u64 \<Rightarrow> u64 \<Rightarrow> bool \<Rightarrow> u8 list option" where
  "utoa_rev value base upper =
     (if value = 0 then Some [48] else utoa_loop (if upper then hi_digits else lo_digits) base value [])"

fun va_arg :: "va_list \<Rightarrow> (u64 \<times> va_list) option" where
  "va_arg [] = None"
| "va_arg (a # ap) = Some (a, ap)"

definition isdigit :: "u8 \<Rightarrow> bool" where
  "isdigit ch \<longleftrightarrow> ch \<ge> 48 \<and> ch \<le> 57"

text \<open>\<^term>\<open>None\<close> inside for a number out of range, where the cursor is not moved.\<close>

function width_loop :: "mem \<Rightarrow> nat \<Rightarrow> int \<Rightarrow> (int \<times> nat) option option" where
  "width_loop m cursor value = do {
     c \<leftarrow> rd m cursor;
     if isdigit c then
       let digit = uint c - 48
       in if value > (INT_MAX - digit) div 10 then Some None
          else width_loop m (cursor + 1) (value * 10 + digit)
     else Some (Some (value, cursor))
   }"
  by pat_completeness auto
termination
  by (relation "measure (\<lambda>(m, cursor, value). length m - cursor)") (auto simp: rd_Some_iff)

declare width_loop.simps [simp del]

definition get_width_or_precision :: "mem \<Rightarrow> nat \<Rightarrow> va_list \<Rightarrow> ((int \<times> nat) option \<times> va_list) option" where
  "get_width_or_precision m cursor ap = do {
     c \<leftarrow> rd m cursor;
     if c = 42 then do {
       (a, ap) \<leftarrow> va_arg ap;
       Some (Some (sint (ucast a :: 32 word), cursor + 1), ap)
     } else do {
       r \<leftarrow> width_loop m cursor 0;
       Some (r, ap)
     }
   }"

definition read_signed_arg :: "va_list \<Rightarrow> length_modifier \<Rightarrow> (int \<times> va_list) option" where
  "read_signed_arg ap len = do {
     (a, ap) \<leftarrow> va_arg ap;
     Some (case len of
         LEN_HH \<Rightarrow> sint (ucast a :: 8 word)
       | LEN_H \<Rightarrow> sint (ucast a :: 16 word)
       | LEN_L \<Rightarrow> sint a
       | LEN_LL \<Rightarrow> sint a
       | LEN_J \<Rightarrow> sint a
       | LEN_Z \<Rightarrow> sint a
       | LEN_T \<Rightarrow> sint a
       | _ \<Rightarrow> sint (ucast a :: 32 word), ap)
   }"

definition read_unsigned_arg :: "va_list \<Rightarrow> length_modifier \<Rightarrow> (u64 \<times> va_list) option" where
  "read_unsigned_arg ap len = do {
     (a, ap) \<leftarrow> va_arg ap;
     Some (case len of
         LEN_HH \<Rightarrow> ucast (ucast a :: 8 word)
       | LEN_H \<Rightarrow> ucast (ucast a :: 16 word)
       | LEN_L \<Rightarrow> a
       | LEN_LL \<Rightarrow> a
       | LEN_J \<Rightarrow> a
       | LEN_Z \<Rightarrow> a
       | LEN_T \<Rightarrow> a
       | _ \<Rightarrow> ucast (ucast a :: 32 word), ap)
   }"

text \<open>The alternative form of octal numbers: the digits and the precision.\<close>

definition alt_octal :: "printf_flags \<Rightarrow> u64 \<Rightarrow> u8 list \<Rightarrow> u8 list \<times> int" where
  "alt_octal flags base rev0 =
     (if pf_alt flags \<and> base = 8 \<and> \<not> (length rev0 > 0 \<and> rev0 ! (length rev0 - 1) = 48) then
        if length rev0 = 0 then ([48], pf_precision flags)
        else if pf_precision flags \<le> int (length rev0) then (rev0, int (length rev0) + 1)
        else (rev0, pf_precision flags)
      else (rev0, pf_precision flags))"

text \<open>The layout \<^verbatim>\<open>write_integer\<close> computes: padding, sign, prefix, number of zeroes, digits in reverse order.\<close>

definition integer_layout :: "u64 \<Rightarrow> bool \<Rightarrow> printf_flags \<Rightarrow> u64 \<Rightarrow> bool \<Rightarrow> u8 \<Rightarrow> (int \<times> u8 \<times> u8 list \<times> int \<times> u8 list) option" where
  "integer_layout mag negative flags base upper spec = do {
     let sign = (if negative then 45 else if pf_plus flags then 43 else if pf_space flags then 32 else 0 :: u8);
     rev0 \<leftarrow> (if pf_precision flags = 0 \<and> mag = 0 then Some [] else utoa_rev mag base upper);
     let (rv, precision) = alt_octal flags base rev0;
     let prefix = (if pf_alt flags \<and> base = 16 \<and> mag \<noteq> 0 then [48, if spec = 88 then 88 else 120] else []);
     let digits_len = int (length rv);
     let zeroes = (if precision > digits_len then precision - digits_len else 0);
     let total_len = digits_len + zeroes + int (length prefix) + (if sign \<noteq> 0 then 1 else 0);
     kassert (total_len \<le> INT_MAX);
     let (zeroes, total_len) =
       (if precision < 0 \<and> pf_zero_pad flags \<and> \<not> pf_left_adj flags \<and> pf_width flags > total_len
        then (zeroes + (pf_width flags - total_len), pf_width flags) else (zeroes, total_len));
     Some (if pf_width flags > total_len then pf_width flags - total_len else 0, sign, prefix, zeroes, rv)
   }"

definition write_integer :: "'w write_fn \<Rightarrow> u64 \<Rightarrow> bool \<Rightarrow> printf_flags \<Rightarrow> u64 \<Rightarrow> bool \<Rightarrow> u8 \<Rightarrow> 'w fmt \<Rightarrow> 'w fmt option" where
  "write_integer put mag negative flags base upper spec st = do {
     (pad_len, sign, prefix, zeroes, rv) \<leftarrow> integer_layout mag negative flags base upper spec;
     st \<leftarrow> (if \<not> pf_left_adj flags then write_repeat put 32 (nat pad_len) st else Some st);
     st \<leftarrow> (if sign \<noteq> 0 then write_char put sign st else Some st);
     st \<leftarrow> for_up 0 (length prefix) (\<lambda>i st. do { c \<leftarrow> rd prefix i; write_char put c st }) st;
     st \<leftarrow> write_repeat put 48 (nat zeroes) st;
     st \<leftarrow> for_up 0 (length rv) (\<lambda>i st. do { c \<leftarrow> rd rv (length rv - 1 - i); write_char put c st }) st;
     if pf_left_adj flags then write_repeat put 32 (nat pad_len) st else Some st
   }"

function parse_flags :: "mem \<Rightarrow> nat \<Rightarrow> printf_flags \<Rightarrow> (printf_flags \<times> nat) option" where
  "parse_flags m cursor flags = do {
     c \<leftarrow> rd m cursor;
     if c = 45 then parse_flags m (cursor + 1) (flags\<lparr>pf_left_adj := True\<rparr>)
     else if c = 43 then parse_flags m (cursor + 1) (flags\<lparr>pf_plus := True\<rparr>)
     else if c = 32 then parse_flags m (cursor + 1) (flags\<lparr>pf_space := True\<rparr>)
     else if c = 35 then parse_flags m (cursor + 1) (flags\<lparr>pf_alt := True\<rparr>)
     else if c = 48 then parse_flags m (cursor + 1) (flags\<lparr>pf_zero_pad := True\<rparr>)
     else Some (flags, cursor)
   }"
  by pat_completeness auto
termination
  by (relation "measure (\<lambda>(m, cursor, flags). length m - cursor)") (auto simp: rd_Some_iff)

declare parse_flags.simps [simp del]

text \<open>\<^term>\<open>None\<close> inside: the conversion is ignored and scanning goes on at the returned cursor.\<close>

definition parse_width :: "mem \<Rightarrow> nat \<Rightarrow> va_list \<Rightarrow> printf_flags \<Rightarrow> (printf_flags option \<times> nat \<times> va_list) option" where
  "parse_width m cursor ap flags = do {
     c \<leftarrow> rd m cursor;
     if c = 42 \<or> isdigit c then do {
       (r, ap) \<leftarrow> get_width_or_precision m cursor ap;
       case r of
         None \<Rightarrow> Some (None, cursor, ap)
       | Some (w, cursor) \<Rightarrow>
           if w < 0 then do {
             kassert (- w \<le> INT_MAX);
             Some (Some (flags\<lparr>pf_left_adj := True, pf_width := - w\<rparr>), cursor, ap)
           } else Some (Some (flags\<lparr>pf_width := w\<rparr>), cursor, ap)
     } else Some (Some flags, cursor, ap)
   }"

definition parse_precision :: "mem \<Rightarrow> nat \<Rightarrow> va_list \<Rightarrow> printf_flags \<Rightarrow> (printf_flags option \<times> nat \<times> va_list) option" where
  "parse_precision m cursor ap flags = do {
     c \<leftarrow> rd m cursor;
     if c = 46 then do {
       (r, ap) \<leftarrow> get_width_or_precision m (cursor + 1) ap;
       case r of
         None \<Rightarrow> Some (None, cursor + 1, ap)
       | Some (p, cursor) \<Rightarrow> Some (Some (flags\<lparr>pf_precision := if p < 0 then -1 else p, pf_zero_pad := False\<rparr>), cursor, ap)
     } else Some (Some flags, cursor, ap)
   }"

definition parse_length :: "mem \<Rightarrow> nat \<Rightarrow> (length_modifier \<times> nat) option" where
  "parse_length m cursor = do {
     c \<leftarrow> rd m cursor;
     if c = 104 then do {
       c \<leftarrow> rd m (cursor + 1);
       Some (if c = 104 then (LEN_HH, cursor + 2) else (LEN_H, cursor + 1))
     } else if c = 108 then do {
       c \<leftarrow> rd m (cursor + 1);
       Some (if c = 108 then (LEN_LL, cursor + 2) else (LEN_L, cursor + 1))
     } else Some (if c = 106 then (LEN_J, cursor + 1)
       else if c = 122 then (LEN_Z, cursor + 1)
       else if c = 116 then (LEN_T, cursor + 1)
       else if c = 76 then (LEN_CAP_L, cursor + 1)
       else (LEN_NONE, cursor))
   }"

definition no_flags :: printf_flags where
  "no_flags = \<lparr>pf_left_adj = False, pf_plus = False, pf_space = False, pf_alt = False, pf_zero_pad = False,
     pf_width = 0, pf_precision = -1\<rparr>"

text \<open>The switch over the specifier; \<^term>\<open>False\<close> is the jump to \<^verbatim>\<open>error\<close>.\<close>

definition convert :: "'w write_fn \<Rightarrow> mem \<Rightarrow> printf_flags \<Rightarrow> length_modifier \<Rightarrow> u8 \<Rightarrow> va_list \<Rightarrow> 'w fmt \<Rightarrow> (bool \<times> 'w fmt \<times> va_list) option" where
  "convert put m flags len spec ap st =
     (if spec = 100 \<or> spec = 105 then do {
        (value, ap) \<leftarrow> read_signed_arg ap len;
        st \<leftarrow> write_integer put (if value < 0 then word_of_int (- (value + 1)) + 1 else word_of_int value) (value < 0) flags 10 False spec st;
        Some (True, st, ap)
      } else if spec = 117 \<or> spec = 111 \<or> spec = 120 \<or> spec = 88 then do {
        (value, ap) \<leftarrow> read_unsigned_arg ap len;
        st \<leftarrow> write_integer put value False flags (if spec = 117 then 10 else if spec = 111 then 8 else 16) (spec = 88) spec st;
        Some (True, st, ap)
      } else if spec = 99 then do {
        (a, ap) \<leftarrow> va_arg ap;
        let pad = nat (if pf_width flags > 1 then pf_width flags - 1 else 0);
        st \<leftarrow> (if \<not> pf_left_adj flags then write_repeat put 32 pad st else Some st);
        st \<leftarrow> write_char put (ucast a) st;
        st \<leftarrow> (if pf_left_adj flags then write_repeat put 32 pad st else Some st);
        Some (True, st, ap)
      } else if spec = 115 then do {
        (s, ap) \<leftarrow> va_arg ap;
        if s = 0 then Some (False, st, ap)
        else do {
          n \<leftarrow> (if pf_precision flags \<ge> 0 then strnlen_s m (unat s) (nat (pf_precision flags)) else strlen m (unat s));
          let len_s = sint (of_nat n :: 32 word);
          let pad = nat (if pf_width flags > len_s then pf_width flags - len_s else 0);
          st \<leftarrow> (if \<not> pf_left_adj flags then write_repeat put 32 pad st else Some st);
          st \<leftarrow> write_bytes put m (unat s) (nat len_s) st;
          st \<leftarrow> (if pf_left_adj flags then write_repeat put 32 pad st else Some st);
          Some (True, st, ap)
        }
      } else if spec = 112 then do {
        (a, ap) \<leftarrow> va_arg ap;
        st \<leftarrow> write_integer put a False (no_flags\<lparr>pf_left_adj := pf_left_adj flags, pf_alt := True, pf_width := pf_width flags, pf_precision := pf_precision flags\<rparr>) 16 False 120 st;
        Some (True, st, ap)
      } else if spec = 110 then Some (False, st, ap)
      else Some (True, st, ap))"

text \<open>
  One directive after \<^verbatim>\<open>%\<close>: nothing to print and where to go on, the end of the format inside a conversion, or the
  flags, the length, the specifier and the cursor behind it.
\<close>

datatype directive = Ignored nat va_list | Incomplete | Conversion printf_flags length_modifier u8 nat va_list

definition parse_directive :: "mem \<Rightarrow> nat \<Rightarrow> va_list \<Rightarrow> directive option" where
  "parse_directive m cursor ap = do {
     (flags, cursor) \<leftarrow> parse_flags m cursor no_flags;
     (r, cursor, ap) \<leftarrow> parse_width m cursor ap flags;
     case r of None \<Rightarrow> Some (Ignored cursor ap) | Some flags \<Rightarrow> do {
     (r, cursor, ap) \<leftarrow> parse_precision m cursor ap flags;
     case r of None \<Rightarrow> Some (Ignored cursor ap) | Some flags \<Rightarrow> do {
     (len, cursor) \<leftarrow> parse_length m cursor;
     spec \<leftarrow> rd m cursor;
     Some (if spec = 0 then Incomplete else Conversion flags len spec (cursor + 1) ap)
   }}}"

text \<open>The cursor never moves back, which makes the main loop end.\<close>

lemma parse_flags_mono: "parse_flags m c f = Some (f', c') \<Longrightarrow> c \<le> c'"
  by (induction m c f rule: parse_flags.induct) (subst (asm) (4) parse_flags.simps, auto simp: Option.bind_eq_Some_conv split: if_splits)

lemma width_loop_mono: "width_loop m c v = Some (Some (w, c')) \<Longrightarrow> c \<le> c'"
proof (induction m c v rule: width_loop.induct)
  case (1 m c v)
  from "1.prems" show ?case
    by (subst (asm) width_loop.simps) (auto simp: Option.bind_eq_Some_conv Let_def split: if_splits dest!: "1.IH" [OF _ _ refl])
qed

lemma get_width_mono: "get_width_or_precision m c ap = Some (Some (w, c'), ap') \<Longrightarrow> c \<le> c'"
  by (auto simp: get_width_or_precision_def Option.bind_eq_Some_conv width_loop_mono split: if_splits)

lemma parse_width_mono: "parse_width m c ap f = Some (r, c', ap') \<Longrightarrow> c \<le> c'"
proof -
  assume a: "parse_width m c ap f = Some (r, c', ap')"
  show ?thesis
  proof (cases "\<exists>w e ap1. get_width_or_precision m c ap = Some (Some (w, e), ap1)")
    case True
    then obtain w e ap1 where g: "get_width_or_precision m c ap = Some (Some (w, e), ap1)" by blast
    show ?thesis using a g get_width_mono [OF g] by (auto simp: parse_width_def Option.bind_eq_Some_conv split: if_splits)
  next
    case False
    then show ?thesis using a by (fastforce simp: parse_width_def Option.bind_eq_Some_conv split: if_splits option.splits)
  qed
qed

lemma parse_precision_mono: "parse_precision m c ap f = Some (r, c', ap') \<Longrightarrow> c \<le> c'"
proof -
  assume a: "parse_precision m c ap f = Some (r, c', ap')"
  show ?thesis
  proof (cases "\<exists>w e ap1. get_width_or_precision m (c + 1) ap = Some (Some (w, e), ap1)")
    case True
    then obtain w e ap1 where g: "get_width_or_precision m (c + 1) ap = Some (Some (w, e), ap1)" by blast
    show ?thesis using a g get_width_mono [OF g] by (auto simp: parse_precision_def Option.bind_eq_Some_conv split: if_splits)
  next
    case False
    then show ?thesis using a by (fastforce simp: parse_precision_def Option.bind_eq_Some_conv split: if_splits option.splits)
  qed
qed

lemma parse_length_mono: "parse_length m c = Some (l, c') \<Longrightarrow> c \<le> c'"
  by (auto simp: parse_length_def Option.bind_eq_Some_conv split: if_splits)

lemma parse_directive_mono:
  "parse_directive m c ap = Some (Ignored c' ap') \<Longrightarrow> c \<le> c'"
  "parse_directive m c ap = Some (Conversion f l s c' ap') \<Longrightarrow> c < c'"
  by (auto simp: parse_directive_def Option.bind_eq_Some_conv split: option.splits if_splits
      dest!: parse_flags_mono parse_width_mono parse_precision_mono parse_length_mono)

lemma rd_lt: "rd m i = Some c \<Longrightarrow> i < length m"
  by (simp add: rd_Some_iff)

function fmt_loop :: "'w write_fn \<Rightarrow> mem \<Rightarrow> nat \<Rightarrow> va_list \<Rightarrow> 'w fmt \<Rightarrow> (bool \<times> 'w fmt) option" where
  "fmt_loop put m cursor ap st = do {
     c \<leftarrow> rd m cursor;
     if c = 0 then Some (True, st)
     else if c \<noteq> 37 then do {
       st \<leftarrow> write_char put c st;
       if fmt_error st then Some (False, st) else fmt_loop put m (cursor + 1) ap st
     } else do {
       c \<leftarrow> rd m (cursor + 1);
       if c = 37 then do {
         st \<leftarrow> write_char put c st;
         if fmt_error st then Some (False, st) else fmt_loop put m (cursor + 2) ap st
       } else do {
         d \<leftarrow> parse_directive m (cursor + 1) ap;
         case d of
           Ignored cursor ap \<Rightarrow> fmt_loop put m cursor ap st
         | Incomplete \<Rightarrow> Some (True, st)
         | Conversion flags len spec cursor ap \<Rightarrow> do {
             (ok, st, ap) \<leftarrow> convert put m flags len spec ap st;
             if \<not> ok \<or> fmt_error st then Some (False, st) else fmt_loop put m cursor ap st
           }
       }
     }
   }"
  by pat_completeness auto
termination
  by (relation "measure (\<lambda>(put, m, cursor, ap, st). length m - cursor)") (auto dest!: rd_lt parse_directive_mono)

declare fmt_loop.simps [simp del]

text \<open>The format pointer; a null pointer for \<^verbatim>\<open>fmt\<close> is \<^term>\<open>None\<close>.\<close>

definition fmt_vsprintf :: "'w write_fn \<Rightarrow> mem \<Rightarrow> 'w fmt option \<Rightarrow> nat \<Rightarrow> va_list \<Rightarrow> (int \<times> 'w fmt option) option" where
  "fmt_vsprintf put m fp format arg = (case fp of
       None \<Rightarrow> Some (-1, None)
     | Some st \<Rightarrow>
         if fmt_size st > 0x7fffffff then Some (-1, Some st)
         else if format = 0 then
           if fmt_size st > 0 then do { d \<leftarrow> wr (fmt_dest st) (fmt_buffer st) 0; Some (-1, Some (st\<lparr>fmt_dest := d\<rparr>)) }
           else Some (-1, Some st)
         else do {
           (ok, st) \<leftarrow> fmt_loop put m format arg st;
           if ok then
             if fmt_size st > 0 then do { d \<leftarrow> wr (fmt_dest st) (fmt_buffer st) 0; Some (sint (fmt_count st), Some (st\<lparr>fmt_dest := d\<rparr>)) }
             else Some (sint (fmt_count st), Some st)
           else Some (-1, Some st)
         })"

definition fmt_sprintf :: "'w write_fn \<Rightarrow> mem \<Rightarrow> 'w fmt option \<Rightarrow> nat \<Rightarrow> va_list \<Rightarrow> (int \<times> 'w fmt option) option" where
  "fmt_sprintf put m fp format arg = fmt_vsprintf put m fp format arg"

text \<open>The object the buffer pointer refers to, or \<^term>\<open>None\<close> for the null pointer. There is no write function.\<close>

definition kvsnprintf :: "mem \<Rightarrow> u8 list option \<Rightarrow> u64 \<Rightarrow> nat \<Rightarrow> va_list \<Rightarrow> (int \<times> u8 list option) option" where
  "kvsnprintf m buf bufsz format arg =
     (if buf \<noteq> None \<and> bufsz > 0x7fffffff then Some (-1, buf)
      else if buf = None \<and> bufsz > 0 then Some (-1, buf)
      else if format = 0 then (case buf of
          Some b \<Rightarrow> if bufsz > 0 then do { b \<leftarrow> wr b 0 0; Some (-1, Some b) } else Some (-1, buf)
        | None \<Rightarrow> Some (-1, buf))
      else do {
        let st = \<lparr>fmt_dest = case buf of None \<Rightarrow> [] | Some b \<Rightarrow> b, fmt_buffer = 0, fmt_write_fn = False,
            fmt_size = ucast bufsz, fmt_count = 0, fmt_error = False, fmt_sink = ()\<rparr>;
        (result, fp) \<leftarrow> fmt_vsprintf (\<lambda>w c. (False, w)) m (Some st) format arg;
        let buf = (case fp of None \<Rightarrow> buf | Some st \<Rightarrow> map_option (\<lambda>_. fmt_dest st) buf);
        case buf of
          Some b \<Rightarrow> if result < 0 \<and> bufsz > 0 then do { b \<leftarrow> wr b 0 0; Some (result, Some b) } else Some (result, buf)
        | None \<Rightarrow> Some (result, buf)
      })"

definition ksnprintf :: "mem \<Rightarrow> u8 list option \<Rightarrow> u64 \<Rightarrow> nat \<Rightarrow> va_list \<Rightarrow> (int \<times> u8 list option) option" where
  "ksnprintf m buf bufsz format arg = kvsnprintf m buf bufsz format arg"

section \<open>Text\<close>

text \<open>Everything the formatter writes goes through \<open>write_char\<close>; once an error is recorded nothing changes any more.\<close>

primrec emit :: "'w write_fn \<Rightarrow> u8 list \<Rightarrow> 'w fmt \<Rightarrow> 'w fmt option" where
  "emit put [] st = Some st"
| "emit put (c # cs) st = do { st \<leftarrow> write_char put c st; emit put cs st }"

lemma emit_error [simp]: "fmt_error st \<Longrightarrow> emit put xs st = Some st"
  by (induction xs) (simp_all add: write_char_def)








fun integer_text :: "bool \<Rightarrow> int \<times> u8 \<times> u8 list \<times> int \<times> u8 list \<Rightarrow> u8 list" where
  "integer_text left (pad, sign, prefix, zeroes, rv) =
     (if left then [] else replicate (nat pad) 32) @ (if sign \<noteq> 0 then [sign] else []) @ prefix @ replicate (nat zeroes) 48 @ rev rv @
     (if left then replicate (nat pad) 32 else [])"














section \<open>The buffer\<close>

text \<open>The formatter over the buffer \<open>dest\<close> of size \<open>n\<close> after the text \<open>xs\<close>.\<close>

definition buffered :: "u8 list \<Rightarrow> nat \<Rightarrow> 'w \<Rightarrow> u8 list \<Rightarrow> 'w fmt" where
  "buffered dest n w xs =
     \<lparr>fmt_dest = if length xs < n then xs @ drop (length xs) dest else take (n - 1) xs @ 0 # drop n dest,
      fmt_buffer = min (length xs) (n - 1), fmt_write_fn = False, fmt_size = if length xs < n then of_nat n else 0,
      fmt_count = of_nat (min (length xs) 0x7fffffff), fmt_error = 0x7fffffff < length xs, fmt_sink = w\<rparr>"






section \<open>Digits\<close>

lemma digits_of: "unat (v mod b) = unat v mod unat (b :: u64)" "unat (v div b) = unat v div unat b"
  by (simp_all add: unat_mod unat_div)

lemma digit_tables:
  "\<forall>i \<in> set [0..<16]. rd lo_digits i = Some (lo_digits ! i) \<and> digit_value (lo_digits ! i) = int i \<and> lo_digits ! i \<noteq> 0"
  "\<forall>i \<in> set [0..<16]. rd hi_digits i = Some (hi_digits ! i) \<and> digit_value (hi_digits ! i) = int i \<and> hi_digits ! i \<noteq> 0"
  by code_simp+

lemma digit_table:
  "i < 16 \<Longrightarrow> D = lo_digits \<or> D = hi_digits \<Longrightarrow> rd D i = Some (D ! i) \<and> digit_value (D ! i) = int i \<and> D ! i \<noteq> 0"
  using digit_tables by fastforce

lemma number_Cons_rev: "number base (rev (d # ds)) = number base (rev ds) * nat base + nat (digit_value d)"
  by (simp add: number_snoc)

lemma utoa_loop_ok:
  assumes "D = lo_digits \<or> D = hi_digits" "2 \<le> unat base" "unat base \<le> 16"
  shows "unat value < 2 ^ (64 - length out) \<Longrightarrow> length out \<le> 64 \<Longrightarrow>
    \<exists>ds. utoa_loop D base value out = Some (out @ ds) \<and> number (uint base) (rev ds) = unat value \<and>
      (\<forall>d \<in> set ds. is_digit (uint base) d \<and> d \<noteq> 0) \<and> length (out @ ds) \<le> 64 \<and> (value \<noteq> 0 \<longrightarrow> ds \<noteq> [])"
  using assms
proof (induction D base "value" out rule: utoa_loop.induct)
  case (1 D base v out)
  show ?case
  proof (cases "v = 0")
    case True
    then show ?thesis using "1.prems" by (subst utoa_loop.simps) (simp add: number_def)
  next
    case False
    have lt: "length out < 64"
    proof (rule ccontr)
      assume "\<not> length out < 64"
      then have "unat v < 1" using "1.prems"(1,2) by simp
      with False show False by (simp add: word_unat_eq_iff)
    qed
    let ?d = "D ! unat (v mod base)"
    have m: "unat (v mod base) < unat base" unfolding digits_of using "1.prems"(4) by (intro mod_less_divisor) linarith
    then have d: "rd D (unat (v mod base)) = Some ?d" "digit_value ?d = int (unat (v mod base))" "?d \<noteq> 0"
      using digit_table [of "unat (v mod base)" D] "1.prems"(3,5) by auto
    have "unat v < 2 * 2 ^ (64 - length (out @ [?d]))"
      using "1.prems"(1) lt by (metis One_nat_def Suc_diff_Suc add.right_neutral add_Suc_right length_append_singleton power_Suc)
    then have "unat v div 2 < 2 ^ (64 - length (out @ [?d]))" by linarith
    moreover have "unat v div unat base \<le> unat v div 2" using "1.prems"(4) by (intro div_le_mono2) auto
    ultimately have "unat (v div base) < 2 ^ (64 - length (out @ [?d]))" unfolding digits_of by linarith
    then have "\<exists>ds. utoa_loop D base (v div base) (out @ [?d]) = Some ((out @ [?d]) @ ds) \<and> number (uint base) (rev ds) = unat (v div base) \<and>
        (\<forall>d \<in> set ds. is_digit (uint base) d \<and> d \<noteq> 0) \<and> length ((out @ [?d]) @ ds) \<le> 64 \<and> (v div base \<noteq> 0 \<longrightarrow> ds \<noteq> [])"
      by (rule "1.IH" [OF False lt d(1)]) (use lt "1.prems"(3-5) in simp_all)
    then obtain ds where ds: "utoa_loop D base (v div base) (out @ [?d]) = Some (out @ ?d # ds)" "number (uint base) (rev ds) = unat (v div base)"
        "\<forall>d \<in> set ds. is_digit (uint base) d \<and> d \<noteq> 0" "length (out @ ?d # ds) \<le> 64"
      unfolding append_assoc append_Cons append_Nil by (elim exE conjE) (rule that)
    have nb: "nat (uint base) = unat base" by simp
    have "is_digit (uint base) ?d" unfolding is_digit_def d(2) using m [folded of_nat_less_iff [where 'a = int]] by simp
    moreover have "number (uint base) (rev (?d # ds)) = unat v"
    proof -
      have "nat (digit_value ?d) = unat v mod unat base" using d(2) digits_of(1) [of v base] by simp
      then show ?thesis unfolding number_Cons_rev ds(2) nb digits_of(2) by simp
    qed
    moreover have "utoa_loop D base v out = Some (out @ ?d # ds)" using ds(1) False lt d(1) by (subst utoa_loop.simps) simp
    ultimately show ?thesis using ds(3,4) d(3) by (intro exI [of _ "?d # ds"]) simp
  qed
qed

text \<open>The digits of a number, most significant first, denote it.\<close>

lemma utoa_rev_ok:
  assumes "2 \<le> unat base" "unat base \<le> 16"
  shows "\<exists>ds. utoa_rev v base upper = Some ds \<and> number (uint base) (rev ds) = unat v \<and> ds \<noteq> [] \<and>
    (\<forall>d \<in> set ds. is_digit (uint base) d \<and> d \<noteq> 0) \<and> length ds \<le> 64"
proof (cases "v = 0")
  case True
  have "int 0 < int (unat base)" using assms(1) by linarith
  then have "is_digit (uint base) 48" by (simp add: is_digit_def digit_value_def)
  then show ?thesis using True by (simp add: utoa_rev_def number_def digit_value_def)
next
  case False
  let ?D = "if upper then hi_digits else lo_digits"
  have "\<exists>ds. utoa_loop ?D base v [] = Some ([] @ ds) \<and> number (uint base) (rev ds) = unat v \<and>
      (\<forall>d \<in> set ds. is_digit (uint base) d \<and> d \<noteq> 0) \<and> length ([] @ ds) \<le> 64 \<and> (v \<noteq> 0 \<longrightarrow> ds \<noteq> [])"
    using unat_u64_lt [of v] by (intro utoa_loop_ok [OF _ assms]) simp_all
  moreover have "utoa_rev v base upper = utoa_loop ?D base v []" using False by (simp add: utoa_rev_def)
  ultimately show ?thesis using False by auto
qed

lemma number_zeroes: "number base (replicate k 48 @ ds) = number base ds"
  by (induction k) (simp_all add: number_def digit_value_def)

text \<open>
  The layout of a number: the digits denote it, zeroes extend them to the precision, and padding or zeroes extend the whole
  to the width.
\<close>

lemma integer_layout_ok:
  assumes "2 \<le> unat base" "unat base \<le> 16" "pf_precision flags < 2 ^ 31 - 100" "- 1 \<le> pf_precision flags"
  obtains pad sign prefix zeroes rv where "integer_layout mag neg flags base upper spec = Some (pad, sign, prefix, zeroes, rv)"
    "number (uint base) (replicate (nat zeroes) 48 @ rev rv) = unat mag" "\<forall>d \<in> set rv. is_digit (uint base) d" "length rv \<le> 64"
    "pf_precision flags \<le> zeroes + int (length rv)" "0 \<le> pad" "0 \<le> zeroes"
    "int (length (integer_text (pf_left_adj flags) (pad, sign, prefix, zeroes, rv))) =
       max (pf_width flags) (int (length (integer_text (pf_left_adj flags) (0, sign, prefix, zeroes, rv))))"
    "sign = (if neg then 45 else if pf_plus flags then 43 else if pf_space flags then 32 else 0)"
    "prefix = (if pf_alt flags \<and> base = 16 \<and> mag \<noteq> 0 then [48, if spec = 88 then 88 else 120] else [])"
proof -
  obtain ds where ds: "(if pf_precision flags = 0 \<and> mag = 0 then Some [] else utoa_rev mag base upper) = Some ds"
      "number (uint base) (rev ds) = unat mag" "\<forall>d \<in> set ds. is_digit (uint base) d" "length ds \<le> 64" "mag \<noteq> 0 \<longrightarrow> ds \<noteq> []"
    using utoa_rev_ok [OF assms(1,2), of mag upper] by (cases "pf_precision flags = 0 \<and> mag = 0") (auto simp: number_def)
  have z: "is_digit (uint base) 48"
  proof -
    have "int 0 < int (unat base)" using assms(1) by linarith
    then show ?thesis by (simp add: is_digit_def digit_value_def)
  qed
  have n0: "number (uint base) [48] = unat mag" if "ds = []" using ds(2) that by (simp add: number_def digit_value_def)
  obtain rv p where o: "alt_octal flags base ds = (rv, p)" by fastforce
  have r: "number (uint base) (rev rv) = unat mag" "\<forall>d \<in> set rv. is_digit (uint base) d" "length rv \<le> 64" "pf_precision flags \<le> p" "-1 \<le> p" "p < 2 ^ 31 - 100"
    using o ds(2-4) n0 z assms(3,4) by (auto simp: alt_octal_def split: if_splits)
  define sg :: u8 where "sg = (if neg then 45 else if pf_plus flags then 43 else if pf_space flags then 32 else 0)"
  define pre :: "u8 list" where "pre = (if pf_alt flags \<and> base = 16 \<and> mag \<noteq> 0 then [48, if spec = 88 then 88 else 120] else [])"
  define z1 where "z1 = (if p > int (length rv) then p - int (length rv) else 0)"
  define total where "total = int (length rv) + z1 + int (length pre) + (if sg \<noteq> 0 then 1 else 0)"
  define ext where "ext \<longleftrightarrow> p < 0 \<and> pf_zero_pad flags \<and> \<not> pf_left_adj flags \<and> pf_width flags > total"
  define z2 where "z2 = (if ext then z1 + (pf_width flags - total) else z1)"
  define t2 where "t2 = (if ext then pf_width flags else total)"
  define pad where "pad = (if pf_width flags > t2 then pf_width flags - t2 else 0)"
  have z1: "0 \<le> z1" "pf_precision flags \<le> z1 + int (length rv)" using r(4) by (auto simp: z1_def)
  have le: "total \<le> INT_MAX" using r(3,6) unfolding total_def z1_def pre_def by auto
  have lay: "integer_layout mag neg flags base upper spec = Some (pad, sg, pre, z2, rv)"
    unfolding integer_layout_def ds(1) Let_def sg_def [symmetric] pre_def [symmetric] Option.bind_lunit o prod.case z1_def [symmetric]
      total_def [symmetric] ext_def [symmetric] pad_def t2_def z2_def
    using le by (cases ext) simp_all
  have z2: "0 \<le> z2" "z1 \<le> z2" and pad: "0 \<le> pad" using z1(1) by (auto simp: z2_def ext_def pad_def)
  have t2: "t2 = int (length rv) + z2 + int (length pre) + (if sg \<noteq> 0 then 1 else 0)" unfolding t2_def z2_def total_def by auto
  have len: "int (length (integer_text (pf_left_adj flags) (k, sg, pre, z2, rv))) = k + t2" if "0 \<le> k" for k
    unfolding t2 using z2(1) that by (simp del: One_nat_def)
  show ?thesis
  proof (rule that [OF lay _ r(2,3) _ pad z2(1) _ sg_def pre_def])
    show "number (uint base) (replicate (nat z2) 48 @ rev rv) = unat mag" unfolding number_zeroes by (rule r(1))
    show "pf_precision flags \<le> z2 + int (length rv)" using z1(2) z2(2) by linarith
    show "int (length (integer_text (pf_left_adj flags) (pad, sg, pre, z2, rv))) =
        max (pf_width flags) (int (length (integer_text (pf_left_adj flags) (0, sg, pre, z2, rv))))"
      unfolding len [OF pad] len [OF order_refl] by (simp add: pad_def)
  qed
qed

text \<open>Without a buffer only the count changes.\<close>

definition counted :: "'w \<Rightarrow> u8 list \<Rightarrow> 'w fmt" where
  "counted w xs = \<lparr>fmt_dest = [], fmt_buffer = 0, fmt_write_fn = False, fmt_size = 0,
     fmt_count = of_nat (min (length xs) 0x7fffffff), fmt_error = 0x7fffffff < length xs, fmt_sink = w\<rparr>"



lemma emitted_error [simp]: "fmt_error (counted w xs) \<longleftrightarrow> 0x7fffffff < length xs" "fmt_error (buffered dest n w xs) \<longleftrightarrow> 0x7fffffff < length xs"
  by (simp_all add: counted_def buffered_def)







section \<open>Properties\<close>





text \<open>
  A precision of \<^verbatim>\<open>INT_MAX\<close> together with a sign or a prefix overflows the \<^verbatim>\<open>int\<close> that holds the total length, before a single
  character is written.
\<close>

theorem precision_overflows:
  "ksnprintf ([0, 37, 43, 46] @ [50, 49, 52, 55, 52, 56, 51, 54, 52, 55] @ [100, 0]) (Some (replicate 4 0)) 4 1 [1] = None"
  by code_simp

end
