(* ===== verification/Mm_Map.thy ===== *)
theory Mm_Map
  imports Kc_Stdlib
begin

text \<open>
  \<open>kernel/src/mm/map.c\<close> (with the entry types of \<open>kernel/platform/pc-x64/src/mm/types.c\<close>): the boot
  memory map is page-aligned, sorted, cleaned of overlaps and cut into the sections the memory
  manager works with. Addresses and lengths are 64-bit words, since the code handles ranges that
  reach the top of the address space by wrap-around checks. A call that panics is \<^term>\<open>None\<close>.
\<close>

section \<open>Model\<close>

record mmap_entry =
  me_addr :: u64
  me_len :: u64
  me_type :: u32

abbreviation PAGE_SIZE :: u64 where "PAGE_SIZE \<equiv> 4096"
abbreviation PHYS_ADDR_MAX :: u64 where "PHYS_ADDR_MAX \<equiv> - 1"
abbreviation MAX_MMAP_ENTRIES :: nat where "MAX_MMAP_ENTRIES \<equiv> 128"

abbreviation MMAP_ENTRY_USABLE :: u32 where "MMAP_ENTRY_USABLE \<equiv> 1"
abbreviation MMAP_ENTRY_RESERVED :: u32 where "MMAP_ENTRY_RESERVED \<equiv> 2"
abbreviation MMAP_ENTRY_ACPI :: u32 where "MMAP_ENTRY_ACPI \<equiv> 3"
abbreviation MMAP_ENTRY_NVS :: u32 where "MMAP_ENTRY_NVS \<equiv> 4"
abbreviation MMAP_ENTRY_BAD :: u32 where "MMAP_ENTRY_BAD \<equiv> 5"

abbreviation MM_SEC_ENTRY_METADATA :: u32 where "MM_SEC_ENTRY_METADATA \<equiv> 0"
abbreviation MM_SEC_ENTRY_RESERVED :: u32 where "MM_SEC_ENTRY_RESERVED \<equiv> 1"
abbreviation MM_SEC_ENTRY_USABLE :: u32 where "MM_SEC_ENTRY_USABLE \<equiv> 2"

definition mmap_entry_overlap_priority :: "u32 \<Rightarrow> int" where
  "mmap_entry_overlap_priority t =
     (if t = MMAP_ENTRY_USABLE then 100
      else if t = MMAP_ENTRY_RESERVED then 2
      else if t = MMAP_ENTRY_ACPI then 52
      else if t = MMAP_ENTRY_NVS then 51
      else if t = MMAP_ENTRY_BAD then 1
      else 50)"

text \<open>\<^term>\<open>None\<close> is the C result \<^verbatim>\<open>false\<close>: nothing of the entry is left after alignment.\<close>

definition align_if_usable :: "mmap_entry \<Rightarrow> mmap_entry option" where
  "align_if_usable entry =
     (if me_type entry \<noteq> MMAP_ENTRY_USABLE then Some entry
      else let start_aligned = align_ceil_sz_p2 (me_addr entry) PAGE_SIZE
      in if start_aligned < me_addr entry then None
      else let e = me_addr entry + me_len entry
      in if e < me_addr entry
         then Some (entry\<lparr>me_addr := start_aligned, me_len := PHYS_ADDR_MAX - start_aligned + 1\<rparr>)
         else let end_aligned = align_floor_sz_p2 e PAGE_SIZE
              in if end_aligned \<le> start_aligned then None
                 else Some (entry\<lparr>me_addr := start_aligned, me_len := (end_aligned - 1) - start_aligned + 1\<rparr>))"

fun align_usables_loop :: "nat \<Rightarrow> mmap_entry list \<Rightarrow> mmap_entry list \<Rightarrow> mmap_entry list option" where
  "align_usables_loop max_entries out [] = Some out"
| "align_usables_loop max_entries out (entry # rest) =
     (if me_len entry = 0 then align_usables_loop max_entries out rest
      else case align_if_usable entry of
        None \<Rightarrow> align_usables_loop max_entries out rest
      | Some entry \<Rightarrow>
          if length out \<ge> max_entries then None
          else align_usables_loop max_entries (out @ [entry]) rest)"

definition align_usables_mmap :: "nat \<Rightarrow> mmap_entry list \<Rightarrow> mmap_entry list option" where
  "align_usables_mmap max_entries mmap_in = align_usables_loop max_entries [] mmap_in"

definition entry_compare :: "mmap_entry \<Rightarrow> mmap_entry \<Rightarrow> int" where
  "entry_compare a b =
     (if me_addr a < me_addr b then -1
      else if me_addr a > me_addr b then 1
      else if me_len a < me_len b then -1
      else if me_len a > me_len b then 1
      else 0)"

definition consume_remaining :: "nat \<Rightarrow> nat option" where
  "consume_remaining remaining = (if remaining > 0 then Some (remaining - 1) else None)"

definition is_preferred_entry :: "mmap_entry \<Rightarrow> mmap_entry \<Rightarrow> bool" where
  "is_preferred_entry a b \<longleftrightarrow>
     mmap_entry_overlap_priority (me_type a) \<le> mmap_entry_overlap_priority (me_type b)"

text \<open>
  The entries written at \<^verbatim>\<open>prev[0]\<close>, \<^verbatim>\<open>prev[1]\<close>, \<^verbatim>\<open>prev[2]\<close> and what is left of the
  capacity; \<^term>\<open>None\<close> is the C result \<^verbatim>\<open>false\<close>, on which the caller panics.
\<close>

definition insert_with_overlap :: "mmap_entry \<Rightarrow> nat \<Rightarrow> mmap_entry \<Rightarrow> (mmap_entry list \<times> nat) option" where
  "insert_with_overlap prev remaining inn =
     (let prev_last = me_addr prev + me_len prev - 1;
          in_last = me_addr inn + me_len inn - 1
      in if me_type prev = MMAP_ENTRY_USABLE \<and> me_type inn = MMAP_ENTRY_USABLE \<and>
            (me_addr inn = 0 \<or> prev_last \<ge> me_addr inn - 1)
         then Some ([if prev_last < in_last
                     then prev\<lparr>me_len := me_len prev + (in_last - prev_last)\<rparr> else prev], remaining)
      else if me_addr inn > 0 \<and> prev_last \<le> me_addr inn - 1
         then do {
           remaining \<leftarrow> consume_remaining remaining;
           Some ([prev, inn], remaining)
         }
      else if is_preferred_entry prev inn
         then if prev_last < in_last
              then case align_if_usable \<lparr>me_addr = prev_last + 1, me_len = in_last - prev_last,
                                         me_type = me_type inn\<rparr> of
                     None \<Rightarrow> Some ([prev], remaining)
                   | Some entry \<Rightarrow> do {
                       remaining \<leftarrow> consume_remaining remaining;
                       Some ([prev, entry], remaining)
                     }
              else Some ([prev], remaining)
      else case (if me_addr prev \<noteq> me_addr inn
                 then align_if_usable (prev\<lparr>me_len := me_addr inn - me_addr prev\<rparr>) else None) of
             None \<Rightarrow> None
           | Some leading \<Rightarrow> do {
               remaining \<leftarrow> consume_remaining remaining;
               if in_last < prev_last
               then case align_if_usable \<lparr>me_addr = in_last + 1, me_len = prev_last - in_last,
                                          me_type = me_type prev\<rparr> of
                      None \<Rightarrow> Some ([leading, inn], remaining)
                    | Some entry \<Rightarrow> do {
                        remaining \<leftarrow> consume_remaining remaining;
                        Some ([leading, inn, entry], remaining)
                      }
               else Some ([leading, inn], remaining)
             })"

text \<open>
  The output array is the list of the entries below \<^verbatim>\<open>mmap_out->length\<close>, so the new length
  \<^verbatim>\<open>max_entries - remaining\<close> is the length of the list (\<open>insert_with_overlap_length\<close>).
\<close>

fun remove_overlaps_loop :: "nat \<Rightarrow> mmap_entry list \<Rightarrow> mmap_entry list \<Rightarrow> mmap_entry list option" where
  "remove_overlaps_loop max_entries out [] = Some out"
| "remove_overlaps_loop max_entries out (inn # rest) =
     (if out = [] then remove_overlaps_loop max_entries [inn] rest
      else case insert_with_overlap (last out) (max_entries - length out) inn of
        None \<Rightarrow> None
      | Some (es, remaining) \<Rightarrow> remove_overlaps_loop max_entries (butlast out @ es) rest)"

definition remove_overlaps_mmap :: "nat \<Rightarrow> mmap_entry list \<Rightarrow> mmap_entry list option" where
  "remove_overlaps_mmap max_entries mmap_in =
     (if max_entries = 0 then Some [] else remove_overlaps_loop max_entries [] mmap_in)"

definition refine_mmap :: "nat \<Rightarrow> mmap_entry list \<Rightarrow> mmap_entry list option" where
  "refine_mmap max_entries boot_map = do {
     aligned \<leftarrow> align_usables_mmap MAX_MMAP_ENTRIES boot_map;
     remove_overlaps_mmap max_entries (sort_elems entry_compare aligned)
   }"

definition append_section :: "mmap_entry list \<Rightarrow> u64 \<Rightarrow> u64 \<Rightarrow> u32 \<Rightarrow> mmap_entry list option" where
  "append_section sec start lst t =
     (if length sec \<ge> MAX_MMAP_ENTRIES then None
      else Some (sec @ [\<lparr>me_addr = start, me_len = lst - start + 1, me_type = t\<rparr>]))"

definition init_mm_section_entry ::
  "u64 \<Rightarrow> u64 \<Rightarrow> u64 \<Rightarrow> mmap_entry \<Rightarrow> mmap_entry list \<Rightarrow> mmap_entry list option" where
  "init_mm_section_entry section_start reserved_start reserved_end entry sec =
     (if me_type entry \<noteq> MMAP_ENTRY_USABLE then Some sec
      else let entry_start = me_addr entry;
               entry_last = me_addr entry + me_len entry - 1
      in if entry_last < section_start then Some sec
      else let entry_start = (if entry_start < section_start then section_start else entry_start)
      in if reserved_end \<le> entry_start \<or> entry_last < reserved_start
         then append_section sec entry_start entry_last MM_SEC_ENTRY_USABLE
         else do {
           sec \<leftarrow> (if entry_start < reserved_start
                   then append_section sec entry_start (reserved_start - 1) MM_SEC_ENTRY_USABLE
                   else Some sec);
           let reserved_last = reserved_end - 1;
           let overlap_start = max entry_start reserved_start;
           let overlap_last = min entry_last reserved_last;
           sec \<leftarrow> append_section sec overlap_start overlap_last MM_SEC_ENTRY_RESERVED;
           if reserved_last < entry_last
           then append_section sec (reserved_last + 1) entry_last MM_SEC_ENTRY_USABLE
           else Some sec
         })"

fun init_mm_section_loop ::
  "u64 \<Rightarrow> u64 \<Rightarrow> u64 \<Rightarrow> mmap_entry list \<Rightarrow> mmap_entry list \<Rightarrow> mmap_entry list option" where
  "init_mm_section_loop section_start reserved_start reserved_end [] sec = Some sec"
| "init_mm_section_loop section_start reserved_start reserved_end (entry # rest) sec =
     init_mm_section_entry section_start reserved_start reserved_end entry sec \<bind>
     init_mm_section_loop section_start reserved_start reserved_end rest"

definition init_mm_section :: "mmap_entry list \<Rightarrow> u64 \<Rightarrow> u64 \<Rightarrow> u64 \<Rightarrow> mmap_entry list option" where
  "init_mm_section mmap section_start reserved_start reserved_end =
     init_mm_section_loop section_start reserved_start reserved_end mmap []"

text \<open>The module range comes from the boot arguments, \<^term>\<open>None\<close> when there is no initramfs.\<close>

definition get_initramfs_reserved_range :: "(u64 \<times> u64) option \<Rightarrow> u64 \<times> u64" where
  "get_initramfs_reserved_range initramfs =
     (case initramfs of
        None \<Rightarrow> (0, 0)
      | Some (module_begin, module_end) \<Rightarrow>
          if module_begin \<ge> module_end then (0, 0)
          else let start = align_floor_sz_p2 module_begin PAGE_SIZE;
                   e = align_ceil_sz_p2 module_end PAGE_SIZE
               in if e < module_end \<or> e \<le> start then (0, 0) else (start, e))"

text \<open>\<^verbatim>\<open>mm_map_init\<close>: the refined map and the section map, from the boot map and the kernel end.\<close>

definition mm_map_init ::
  "mmap_entry list \<Rightarrow> u64 \<Rightarrow> (u64 \<times> u64) option \<Rightarrow> (mmap_entry list \<times> mmap_entry list) option" where
  "mm_map_init boot_map kernel_end_lba initramfs = do {
     let (reserved_start, reserved_end) = get_initramfs_reserved_range initramfs;
     g_mmap \<leftarrow> refine_mmap MAX_MMAP_ENTRIES boot_map;
     g_mm_sec \<leftarrow> init_mm_section g_mmap kernel_end_lba reserved_start reserved_end;
     Some (g_mmap, g_mm_sec)
   }"

lemma insert_with_overlap_length:
  "insert_with_overlap prev remaining inn = Some (es, remaining') \<Longrightarrow> length es + remaining' = Suc remaining"
  by (auto simp: insert_with_overlap_def consume_remaining_def Let_def Option.bind_eq_Some_conv
      split: if_splits option.splits)

section \<open>Ranges\<close>

definition lo :: "mmap_entry \<Rightarrow> nat" where
  "lo e = unat (me_addr e)"

definition hi :: "mmap_entry \<Rightarrow> nat" where
  "hi e = unat (me_addr e) + unat (me_len e)"

text \<open>Not empty, and not past the end of the address space.\<close>

definition wf_entry :: "mmap_entry \<Rightarrow> bool" where
  "wf_entry e \<longleftrightarrow> 0 < unat (me_len e) \<and> hi e \<le> 2 ^ 64"

definition aligned_usable :: "mmap_entry \<Rightarrow> bool" where
  "aligned_usable e \<longleftrightarrow> (me_type e = MMAP_ENTRY_USABLE \<longrightarrow> 4096 dvd lo e \<and> 4096 dvd hi e)"

definition disjoint_entries :: "mmap_entry \<Rightarrow> mmap_entry \<Rightarrow> bool" where
  "disjoint_entries a b \<longleftrightarrow> hi a \<le> lo b \<or> hi b \<le> lo a"

text \<open>The page frames that lie inside one usable entry.\<close>

definition usable_pages :: "mmap_entry list \<Rightarrow> nat set" where
  "usable_pages es = {p. \<exists>e \<in> set es. me_type e = MMAP_ENTRY_USABLE \<and> lo e \<le> p * 4096 \<and> p * 4096 + 4096 \<le> hi e}"

lemma lo_lt: "lo e < 2 ^ 64"
  using unat_u64_lt [of "me_addr e"] by (simp add: lo_def)

lemma wf_hi: "wf_entry e \<Longrightarrow> lo e < hi e \<and> hi e \<le> 2 ^ 64"
  by (auto simp: wf_entry_def lo_def hi_def)

lemma unat_last:
  assumes "wf_entry e"
  shows "unat (me_addr e + me_len e - 1) = hi e - 1"
proof -
  have l: "unat (me_len e - 1) = unat (me_len e) - 1"
    using assms by (intro unat_sub_one) (simp add: wf_entry_def word_arith)
  have "unat (me_addr e + (me_len e - 1)) = unat (me_addr e) + unat (me_len e - 1)"
    using assms by (intro unat_add_no_wrap) (auto simp: wf_entry_def hi_def l)
  with l assms show ?thesis
    by (simp add: wf_entry_def hi_def add_diff_eq)
qed

lemma unat_floor_page: "unat (align_floor_sz_p2 x PAGE_SIZE) = unat x div 4096 * 4096"
  using unat_align_floor [of 12 x] by simp

lemma unat_ceil_page:
  "unat x + 4095 < 2 ^ 64 \<Longrightarrow> unat (align_ceil_sz_p2 x PAGE_SIZE) = (unat x + 4095) div 4096 * 4096"
  using unat_align_ceil [of 12 x] by simp

lemma unat_ceil_page_wrap:
  assumes "2 ^ 64 \<le> unat x + 4095"
  shows "unat (align_ceil_sz_p2 x PAGE_SIZE) = 0"
proof -
  have "unat (x + 4095) = unat x + 4095 - 2 ^ 64"
    using assms unat_u64_lt [of x] by (simp add: unat_word_ariths mod_if)
  then have "unat (x + 4095) < 4096"
    using unat_u64_lt [of x] by simp
  then have "unat ((x + 4095) AND NOT (2 ^ 12 - 1)) = 0"
    by (subst and_not_mask_unat) auto
  then show ?thesis
    by (simp add: align_ceil_sz_p2_def)
qed

text \<open>
  Alignment keeps exactly the whole pages of a usable entry, also when the entry ends at the top
  of the address space, where \<^verbatim>\<open>addr + len\<close> wraps to zero.
\<close>

definition page_up :: "nat \<Rightarrow> nat" where
  "page_up n = (n + 4095) div 4096 * 4096"

definition page_down :: "nat \<Rightarrow> nat" where
  "page_down n = n div 4096 * 4096"

lemma page_up_le: "n \<le> page_up n"
  unfolding page_up_def by linarith

lemma page_down_le: "page_down n \<le> n"
  unfolding page_down_def by linarith

lemma page_dvd [simp]: "4096 dvd page_up n" "4096 dvd page_down n"
  by (simp_all add: page_up_def page_down_def)

lemma align_if_usable_spec:
  assumes "wf_entry e" and "me_type e = MMAP_ENTRY_USABLE"
  shows "if page_up (lo e) < page_down (hi e)
         then \<exists>e'. align_if_usable e = Some e' \<and> lo e' = page_up (lo e) \<and> hi e' = page_down (hi e) \<and>
                   me_type e' = MMAP_ENTRY_USABLE
         else align_if_usable e = None"
proof (cases "2 ^ 64 \<le> lo e + 4095")
  case True
  then have "unat (align_ceil_sz_p2 (me_addr e) PAGE_SIZE) < unat (me_addr e)"
    using unat_ceil_page_wrap [of "me_addr e"] by (simp add: lo_def)
  then have "align_if_usable e = None"
    using assms(2) by (simp add: align_if_usable_def Let_def word_arith)
  moreover have "\<not> page_up (lo e) < page_down (hi e)"
    using True wf_hi [OF assms(1)] div_le_mono [of "hi e" "lo e + 4095" 4096]
    by (simp add: page_up_def page_down_def)
  ultimately show ?thesis by simp
next
  case False
  define s where "s = align_ceil_sz_p2 (me_addr e) PAGE_SIZE"
  have s: "unat s = page_up (lo e)"
    using False unat_ceil_page [of "me_addr e"] by (simp add: s_def lo_def page_up_def)
  have s_ge: "\<not> s < me_addr e"
    using s page_up_le [of "lo e"] by (simp add: word_arith lo_def)
  show ?thesis
  proof (cases "hi e = 2 ^ 64")
    case True
    have "unat (me_addr e + me_len e) = 0"
      using True by (simp add: unat_word_ariths hi_def)
    moreover have pos: "0 < unat (me_addr e)"
      using True unat_u64_lt [of "me_len e"] by (simp add: hi_def)
    ultimately have wrap: "me_addr e + me_len e < me_addr e"
      by (simp add: word_arith)
    define e' where "e' = e\<lparr>me_addr := s, me_len := PHYS_ADDR_MAX - s + 1\<rparr>"
    have "align_if_usable e = Some e'"
      using assms(2) s_ge wrap by (simp add: align_if_usable_def Let_def s_def [symmetric] e'_def)
    moreover have "hi e' = 2 ^ 64"
    proof -
      have "0 < unat s" using s pos page_up_le [of "lo e"] by (simp add: lo_def)
      moreover have "PHYS_ADDR_MAX - s + 1 = - s" by simp
      ultimately show ?thesis
        using unat_u64_lt [of s] unat_sub_if' [of 0 s] by (simp add: e'_def hi_def)
    qed
    moreover have "page_up (lo e) < page_down (hi e)"
      using True unat_u64_lt [of s] s by (simp add: page_down_def)
    ultimately show ?thesis
      using True s assms(2) by (simp add: e'_def lo_def page_down_def)
  next
    case False
    with wf_hi [OF assms(1)] have lt: "hi e < 2 ^ 64" by simp
    then have sum: "unat (me_addr e + me_len e) = hi e"
      by (subst unat_add_no_wrap) (simp_all add: hi_def)
    then have nowrap: "\<not> me_addr e + me_len e < me_addr e"
      by (simp add: word_arith hi_def)
    define t where "t = align_floor_sz_p2 (me_addr e + me_len e) PAGE_SIZE"
    have t: "unat t = page_down (hi e)"
      using unat_floor_page [of "me_addr e + me_len e"] sum by (simp add: t_def page_down_def)
    have eq: "align_if_usable e =
        (if t \<le> s then None else Some (e\<lparr>me_addr := s, me_len := (t - 1) - s + 1\<rparr>))"
      using assms(2) s_ge nowrap
      by (simp add: align_if_usable_def Let_def s_def [symmetric] t_def [symmetric])
    show ?thesis
    proof (cases "page_up (lo e) < page_down (hi e)")
      case True
      moreover have "(t - 1) - s + 1 = t - s" by simp
      moreover have "unat (t - s) = unat t - unat s"
        using True s t by (intro unat_sub_no_wrap) simp
      ultimately show ?thesis
        using eq s t assms(2) by (simp add: word_arith lo_def hi_def)
    qed (use eq s t in \<open>simp add: word_arith\<close>)
  qed
qed

lemma align_if_usable_other: "me_type e \<noteq> MMAP_ENTRY_USABLE \<Longrightarrow> align_if_usable e = Some e"
  by (simp add: align_if_usable_def)

section \<open>Refinement of the boot map\<close>

lemma aligned_props:
  assumes "wf_entry e" and "align_if_usable e = Some e'"
  shows "wf_entry e' \<and> aligned_usable e' \<and> lo e \<le> lo e' \<and> hi e' \<le> hi e \<and> me_type e' = me_type e"
proof (cases "me_type e = MMAP_ENTRY_USABLE")
  case True
  with align_if_usable_spec [OF assms(1) True] assms(2)
  have e': "page_up (lo e) < page_down (hi e)" "lo e' = page_up (lo e)" "hi e' = page_down (hi e)"
      "me_type e' = MMAP_ENTRY_USABLE"
    by (auto split: if_splits)
  then have "0 < unat (me_len e')" by (simp add: lo_def hi_def)
  with e' True page_up_le [of "lo e"] page_down_le [of "hi e"] wf_hi [OF assms(1)] show ?thesis
    by (simp add: wf_entry_def aligned_usable_def)
next
  case False
  with assms show ?thesis
    by (auto simp: align_if_usable_other aligned_usable_def)
qed

definition aligned_list :: "mmap_entry list \<Rightarrow> mmap_entry list" where
  "aligned_list es = List.map_filter align_if_usable (filter (\<lambda>e. me_len e \<noteq> 0) es)"

lemma aligned_list_simps [simp]:
  "aligned_list [] = []"
  "aligned_list (e # es) = (if me_len e = 0 then aligned_list es
     else case align_if_usable e of None \<Rightarrow> aligned_list es | Some e' \<Rightarrow> e' # aligned_list es)"
  by (auto simp: aligned_list_def List.map_filter_simps split: option.split)

lemma set_aligned_list:
  "set (aligned_list es) = {e'. \<exists>e\<in>set es. me_len e \<noteq> 0 \<and> align_if_usable e = Some e'}"
  by (induction es) (auto split: option.splits)

lemma length_aligned_list: "length (aligned_list es) \<le> length es"
  by (induction es) (auto split: option.splits)

lemma align_usables_loop_eq:
  "length out + length (aligned_list es) \<le> n \<Longrightarrow> align_usables_loop n out es = Some (out @ aligned_list es)"
  by (induction n out es rule: align_usables_loop.induct) (auto split: option.splits if_splits)

text \<open>
  A boot map whose entries do not overlap and end below \<open>2 ^ 64\<close>. (Physical addresses have at most
  52 bits on this platform. Only a map whose merged usable memory is the whole 64-bit space would
  not be covered: there the merged length wraps to zero.)
\<close>

definition boot_ok :: "mmap_entry list \<Rightarrow> bool" where
  "boot_ok es \<longleftrightarrow>
     (\<forall>e \<in> set es. hi e < 2 ^ 64) \<and>
     sorted_wrt (\<lambda>a b. me_len a \<noteq> 0 \<longrightarrow> me_len b \<noteq> 0 \<longrightarrow> disjoint_entries a b) es"

lemma disjoint_entries_sym: "disjoint_entries a b \<longleftrightarrow> disjoint_entries b a"
  by (auto simp: disjoint_entries_def)

lemma boot_ok_Cons:
  "boot_ok (e # es) \<longleftrightarrow> boot_ok es \<and> hi e < 2 ^ 64 \<and>
     (me_len e \<noteq> 0 \<longrightarrow> (\<forall>b\<in>set es. me_len b \<noteq> 0 \<longrightarrow> disjoint_entries e b))"
  by (auto simp: boot_ok_def)

lemma boot_ok_wf: "boot_ok es \<Longrightarrow> e \<in> set es \<Longrightarrow> me_len e \<noteq> 0 \<Longrightarrow> wf_entry e"
  by (force simp: boot_ok_def wf_entry_def unat_gt_0)

lemma aligned_list_wf:
  assumes "boot_ok es" and "e' \<in> set (aligned_list es)"
  shows "wf_entry e' \<and> aligned_usable e' \<and> hi e' < 2 ^ 64"
proof -
  from assms(2) obtain e where e: "e \<in> set es" "me_len e \<noteq> 0" "align_if_usable e = Some e'"
    by (auto simp: set_aligned_list)
  moreover have "hi e < 2 ^ 64"
    using assms(1) e(1) by (simp add: boot_ok_def)
  ultimately show ?thesis
    using aligned_props [OF boot_ok_wf [OF assms(1)]] by (meson le_less_trans)
qed

lemma disjoint_wf_neq: "wf_entry a \<Longrightarrow> disjoint_entries a b \<Longrightarrow> a \<noteq> b"
  using wf_hi [of a] by (auto simp: disjoint_entries_def)

lemma aligned_list_disjoint:
  "boot_ok es \<Longrightarrow> sorted_wrt disjoint_entries (aligned_list es)"
proof (induction es)
  case (Cons e es)
  have "disjoint_entries e' b" if "me_len e \<noteq> 0" "align_if_usable e = Some e'" "b \<in> set (aligned_list es)" for e' b
  proof -
    from that(3) obtain a where a: "a \<in> set es" "me_len a \<noteq> 0" "align_if_usable a = Some b"
      by (auto simp: set_aligned_list)
    with Cons.prems that(1) have "disjoint_entries e a" "wf_entry e" "wf_entry a"
      using boot_ok_wf [OF Cons.prems, of e] boot_ok_wf [OF Cons.prems, of a] by (auto simp: boot_ok_Cons)
    with aligned_props that(2) a(3) show ?thesis
      unfolding disjoint_entries_def by (meson le_trans)
  qed
  with Cons show ?case
    by (auto simp: boot_ok_Cons split: option.split)
qed simp

lemma sorted_disjoint_distinct:
  "sorted_wrt disjoint_entries es \<Longrightarrow> \<forall>e\<in>set es. wf_entry e \<Longrightarrow>
   distinct es \<and> (\<forall>a\<in>set es. \<forall>b\<in>set es. a \<noteq> b \<longrightarrow> disjoint_entries a b)"
  by (induction es) (auto dest: disjoint_wf_neq simp: disjoint_entries_sym)

interpretation ec: comparison entry_compare
  by unfold_locales (auto simp: entry_compare_def split: if_splits)

text \<open>One entry strictly before the other.\<close>

abbreviation before :: "mmap_entry \<Rightarrow> mmap_entry \<Rightarrow> bool" where
  "before a b \<equiv> hi a \<le> lo b"

lemma sorted_entries_ordered:
  assumes "boot_ok es"
  shows "sorted_wrt before (sort_elems entry_compare (aligned_list es))"
proof -
  define al where "al = aligned_list es"
  define so where "so = sort_elems entry_compare al"
  have ms: "mset so = mset al" and srt: "sorted_wrt (\<lambda>a b. entry_compare a b \<le> 0) so"
    using ec.sort_elems_correct [of al] by (auto simp: so_def)
  have wf: "\<forall>e\<in>set al. wf_entry e"
    using aligned_list_wf [OF assms] by (simp add: al_def)
  note dis = sorted_disjoint_distinct [OF aligned_list_disjoint [OF assms, folded al_def] wf]
  have set: "set so = set al" and dist: "distinct so"
    using ms dis by (metis mset_eq_setD, metis mset_eq_imp_distinct_iff)
  have "before (so ! i) (so ! j)" if ij: "i < j" "j < length so" for i j
  proof -
    have "so ! i \<in> set so" "so ! j \<in> set so"
      using ij by auto
    then have m: "so ! i \<in> set al" "so ! j \<in> set al" "so ! i \<noteq> so ! j"
      using ij set dist by (auto simp: nth_eq_iff_index_eq)
    have "lo (so ! i) \<le> lo (so ! j)"
      using sorted_wrt_nth_less [OF srt ij] by (auto simp: entry_compare_def lo_def word_arith split: if_splits)
    moreover have "disjoint_entries (so ! i) (so ! j)" "wf_entry (so ! j)"
      using dis wf m by auto
    ultimately show ?thesis
      using wf_hi [of "so ! j"] by (auto simp: disjoint_entries_def)
  qed
  then show ?thesis
    by (simp add: sorted_wrt_iff_nth_less so_def al_def)
qed

text \<open>On ordered entries the insertion either merges two adjacent usable entries or appends.\<close>

lemma insert_ordered:
  assumes "wf_entry prev" "wf_entry inn" "before prev inn" "hi inn < 2 ^ 64"
  shows "if me_type prev = MMAP_ENTRY_USABLE \<and> me_type inn = MMAP_ENTRY_USABLE \<and> hi prev = lo inn
         then \<exists>e. insert_with_overlap prev r inn = Some ([e], r) \<and> lo e = lo prev \<and> hi e = hi inn \<and>
                  me_type e = MMAP_ENTRY_USABLE
         else insert_with_overlap prev r inn =
                (if 0 < r then Some ([prev, inn], r - 1) else None)"
proof -
  define pl where "pl = me_addr prev + me_len prev - 1"
  define il where "il = me_addr inn + me_len inn - 1"
  have pl: "unat pl = hi prev - 1" and il: "unat il = hi inn - 1"
    using assms unat_last by (simp_all add: pl_def il_def)
  note w = wf_hi [OF assms(1)] wf_hi [OF assms(2)]
  have pos: "0 < me_addr inn"
    using w assms(3) by (simp add: word_arith lo_def)
  have am: "unat (me_addr inn - 1) = lo inn - 1"
    using unat_sub_one [OF pos] by (simp add: lo_def)
  have app: "pl \<le> me_addr inn - 1"
    using pl am w assms(3) by (simp add: word_arith)
  have adj: "me_addr inn - 1 \<le> pl \<longleftrightarrow> hi prev = lo inn"
    using pl am w assms(3) by (auto simp: word_arith)
  show ?thesis
  proof (cases "me_type prev = MMAP_ENTRY_USABLE \<and> me_type inn = MMAP_ENTRY_USABLE \<and> hi prev = lo inn")
    case True
    have lt: "pl < il"
      using pl il w True unfolding word_less_nat_alt by linarith
    have d: "unat (il - pl) = hi inn - hi prev"
      using pl il w True by (subst unat_sub_no_wrap) auto
    have "unat (me_len prev + (il - pl)) = unat (me_len prev) + (hi inn - hi prev)"
      using d w True assms(4) by (subst unat_add_no_wrap) (auto simp: hi_def lo_def)
    moreover have "insert_with_overlap prev r inn =
        Some ([prev\<lparr>me_len := me_len prev + (il - pl)\<rparr>], r)"
      using True lt adj unfolding insert_with_overlap_def Let_def pl_def [symmetric] il_def [symmetric]
      by simp
    ultimately show ?thesis
      using True w by (simp add: hi_def lo_def)
  next
    case False
    with adj app pos show ?thesis
      unfolding insert_with_overlap_def Let_def pl_def [symmetric] il_def [symmetric]
      by (auto simp: consume_remaining_def)
  qed
qed

text \<open>What holds of the output while the loop runs.\<close>

definition refined :: "mmap_entry list \<Rightarrow> bool" where
  "refined out \<longleftrightarrow>
     (\<forall>e \<in> set out. wf_entry e \<and> aligned_usable e \<and> hi e < 2 ^ 64) \<and> sorted_wrt before out \<and>
     sorted_wrt (\<lambda>a b. me_type a = MMAP_ENTRY_USABLE \<longrightarrow> me_type b = MMAP_ENTRY_USABLE \<longrightarrow> hi a < lo b) out"

lemma refined_snoc:
  "refined (out @ [e]) \<longleftrightarrow> refined out \<and> wf_entry e \<and> aligned_usable e \<and> hi e < 2 ^ 64 \<and>
     (\<forall>a \<in> set out. before a e \<and> (me_type a = MMAP_ENTRY_USABLE \<longrightarrow> me_type e = MMAP_ENTRY_USABLE \<longrightarrow> hi a < lo e))"
  by (auto simp: refined_def sorted_wrt_append)

lemma usable_pages_append: "usable_pages (xs @ ys) = usable_pages xs \<union> usable_pages ys"
  by (auto simp: usable_pages_def)

lemma usable_pages_other: "me_type e \<noteq> MMAP_ENTRY_USABLE \<Longrightarrow> usable_pages [e] = {}"
  by (simp add: usable_pages_def)

text \<open>No page straddles the boundary of two adjacent aligned entries.\<close>

lemma usable_pages_merge:
  assumes "me_type a = MMAP_ENTRY_USABLE" "me_type b = MMAP_ENTRY_USABLE" "me_type e = MMAP_ENTRY_USABLE"
    and "hi a = lo b" "lo e = lo a" "hi e = hi b" "4096 dvd lo b" "lo a \<le> hi a" "lo b \<le> hi b"
  shows "usable_pages [e] = usable_pages [a, b]"
proof -
  from assms(7) obtain k where "lo b = 4096 * k" by blast
  with assms show ?thesis
    by (auto simp: usable_pages_def)
qed

lemma refined_step:
  assumes ref: "refined (out @ [prev])" and inn: "wf_entry inn" "aligned_usable inn" "hi inn < 2 ^ 64"
    and ord: "before prev inn" and room: "0 < r"
  shows "\<exists>es r'. insert_with_overlap prev r inn = Some (es, r') \<and> refined (out @ es) \<and>
           usable_pages es = usable_pages [prev, inn] \<and> es \<noteq> [] \<and> hi (last es) = hi inn \<and>
           length es + r' = 1 + r \<and> length es \<le> 2"
proof -
  from ref have p: "wf_entry prev" "aligned_usable prev"
    by (auto simp: refined_snoc)
  note w = wf_hi [OF p(1)] wf_hi [OF inn(1)]
  show ?thesis
  proof (cases "me_type prev = MMAP_ENTRY_USABLE \<and> me_type inn = MMAP_ENTRY_USABLE \<and> hi prev = lo inn")
    case True
    with insert_ordered [OF p(1) inn(1) ord inn(3), of r] obtain e where
      e: "insert_with_overlap prev r inn = Some ([e], r)" "lo e = lo prev" "hi e = hi inn"
        "me_type e = MMAP_ENTRY_USABLE" by auto
    have "wf_entry e"
      using e w True by (simp add: wf_entry_def lo_def hi_def)
    moreover have "aligned_usable e"
      using e p(2) inn(2) True by (simp add: aligned_usable_def)
    ultimately have "refined (out @ [e])"
      using ref e True inn(3) by (simp add: refined_snoc)
    moreover have "usable_pages [e] = usable_pages [prev, inn]"
      using True e w inn(2) by (intro usable_pages_merge) (auto simp: aligned_usable_def)
    ultimately show ?thesis
      using e by auto
  next
    case False
    with insert_ordered [OF p(1) inn(1) ord inn(3), of r] room
    have eq: "insert_with_overlap prev r inn = Some ([prev, inn], r - 1)" by auto
    have "before a inn \<and> (me_type a = MMAP_ENTRY_USABLE \<longrightarrow> me_type inn = MMAP_ENTRY_USABLE \<longrightarrow> hi a < lo inn)"
      if "a \<in> set out" for a
      using ref that ord w by (auto simp: refined_snoc)
    then have "refined ((out @ [prev]) @ [inn])"
      using ref inn ord False by (subst refined_snoc) auto
    with eq room show ?thesis by auto
  qed
qed

lemma remove_overlaps_ordered:
  assumes "refined (out @ [prev])" and "sorted_wrt before ins" and "\<forall>e \<in> set ins. before prev e"
    and "\<forall>e \<in> set ins. wf_entry e \<and> aligned_usable e \<and> hi e < 2 ^ 64"
    and "length out + 1 + length ins \<le> n"
  shows "\<exists>res. remove_overlaps_loop n (out @ [prev]) ins = Some res \<and> refined res \<and>
           usable_pages res = usable_pages (out @ prev # ins)"
  using assms
proof (induction ins arbitrary: out prev)
  case Nil
  then show ?case by simp
next
  case (Cons inn ins)
  from refined_step [OF Cons.prems(1), of inn "n - (length out + 1)"] Cons.prems(3-5) obtain es r' where
    es: "insert_with_overlap prev (n - (length out + 1)) inn = Some (es, r')" "refined (out @ es)"
      "usable_pages es = usable_pages [prev, inn]" "es \<noteq> []" "hi (last es) = hi inn" "length es \<le> 2"
    by auto
  define out' where "out' = out @ butlast es"
  have out': "out @ es = out' @ [last es]" "length out' \<le> length out + 1"
    using es(4,6) by (simp_all add: out'_def)
  have "\<exists>res. remove_overlaps_loop n (out' @ [last es]) ins = Some res \<and> refined res \<and>
      usable_pages res = usable_pages (out' @ last es # ins)"
    using Cons.prems es(2,5) out' by (intro Cons.IH) auto
  moreover have "usable_pages (out' @ last es # ins) = usable_pages (out @ prev # inn # ins)"
  proof -
    have "out' @ last es # ins = out @ es @ ins"
      using out'(1) by (metis append.assoc append_Cons append_Nil)
    moreover have "out @ prev # inn # ins = out @ [prev, inn] @ ins" by simp
    ultimately show ?thesis
      using es(3) by (simp only: usable_pages_append)
  qed
  ultimately show ?case
    using es(1) out'(1) by simp
qed

lemma usable_pages_mset:
  assumes "mset xs = mset ys"
  shows "usable_pages xs = usable_pages ys"
  using mset_eq_setD [OF assms] by (simp add: usable_pages_def)

lemma page_up_le_iff: "page_up n \<le> p * 4096 \<longleftrightarrow> n \<le> p * 4096"
proof -
  have "(n + 4095) div 4096 \<le> p \<longleftrightarrow> n + 4095 < Suc p * 4096"
    using div_less_iff_less_mult [of 4096 "n + 4095" "Suc p"] by linarith
  then show ?thesis unfolding page_up_def by auto
qed

lemma page_down_ge_iff: "p * 4096 + 4096 \<le> page_down m \<longleftrightarrow> p * 4096 + 4096 \<le> m"
proof -
  have "Suc p \<le> m div 4096 \<longleftrightarrow> Suc p * 4096 \<le> m"
    by (rule less_eq_div_iff_mult_less_eq) simp
  then show ?thesis unfolding page_down_def by auto
qed

lemma page_not_in_small:
  assumes "\<not> page_up n < page_down m"
  shows "\<not> (n \<le> p * 4096 \<and> p * 4096 + 4096 \<le> m)"
  using assms page_up_le_iff [of n p] page_down_ge_iff [of p m] by linarith

lemma usable_pages_aligned_list:
  assumes "boot_ok es"
  shows "usable_pages (aligned_list es) = usable_pages es"
  using assms
proof (induction es)
  case (Cons e es)
  have IH: "usable_pages (aligned_list es) = usable_pages es"
    using Cons by (simp add: boot_ok_Cons)
  have "usable_pages (aligned_list [e]) = usable_pages [e]"
  proof (cases "me_type e = MMAP_ENTRY_USABLE \<and> me_len e \<noteq> 0")
    case True
    with boot_ok_wf [OF Cons.prems, of e] have wf: "wf_entry e" by simp
    show ?thesis
    proof (cases "page_up (lo e) < page_down (hi e)")
      case small: True
      with align_if_usable_spec [OF wf] True obtain e' where
        "align_if_usable e = Some e'" "lo e' = page_up (lo e)" "hi e' = page_down (hi e)"
        "me_type e' = MMAP_ENTRY_USABLE" by auto
      with True small show ?thesis
        by (simp add: usable_pages_def page_up_le_iff page_down_ge_iff)
    next
      case False
      with align_if_usable_spec [OF wf] True page_not_in_small [OF False] show ?thesis
        by (auto simp: usable_pages_def)
    qed
  next
    case False
    then show ?thesis
      by (auto simp: usable_pages_def align_if_usable_other hi_def lo_def)
  qed
  moreover have "aligned_list (e # es) = aligned_list [e] @ aligned_list es"
    by (simp split: option.split)
  ultimately show ?case
    using IH usable_pages_append [of "[e]" es] by (simp add: usable_pages_append)
qed (simp add: usable_pages_def)

lemma refine_mmap_refined:
  assumes "boot_ok boot" and "length boot \<le> MAX_MMAP_ENTRIES" and "length boot \<le> n"
  shows "\<exists>out. refine_mmap n boot = Some out \<and> refined out \<and> usable_pages out = usable_pages boot"
proof -
  define so where "so = sort_elems entry_compare (aligned_list boot)"
  have al: "align_usables_mmap MAX_MMAP_ENTRIES boot = Some (aligned_list boot)"
    using assms(2) length_aligned_list [of boot] by (simp add: align_usables_mmap_def align_usables_loop_eq)
  have ms: "mset so = mset (aligned_list boot)"
    using ec.sort_elems_correct by (simp add: so_def)
  then have set: "set so = set (aligned_list boot)" and len: "length so \<le> n"
    using assms(3) length_aligned_list [of boot] by (metis mset_eq_setD, metis le_trans mset_eq_length)
  have pages: "usable_pages so = usable_pages boot"
    using usable_pages_mset [OF ms] usable_pages_aligned_list [OF assms(1)] by simp
  have ord: "sorted_wrt before so"
    using sorted_entries_ordered [OF assms(1)] by (simp add: so_def)
  have wf: "\<forall>e \<in> set so. wf_entry e \<and> aligned_usable e \<and> hi e < 2 ^ 64"
    using aligned_list_wf [OF assms(1)] set by simp
  have "\<exists>out. remove_overlaps_mmap n so = Some out \<and> refined out \<and> usable_pages out = usable_pages so"
  proof (cases so)
    case Nil
    then show ?thesis
      by (simp add: remove_overlaps_mmap_def refined_def)
  next
    case (Cons e es)
    with ord wf len have "refined ([] @ [e])" by (simp add: refined_def)
    from remove_overlaps_ordered [OF this, of es n] ord wf len Cons show ?thesis
      by (simp add: remove_overlaps_mmap_def)
  qed
  with pages al show ?thesis
    by (simp add: refine_mmap_def so_def)
qed

section \<open>The section map\<close>

text \<open>The addresses that the entries of one type cover.\<close>

definition covered :: "u32 \<Rightarrow> mmap_entry list \<Rightarrow> nat set" where
  "covered t es = {a. \<exists>e \<in> set es. me_type e = t \<and> lo e \<le> a \<and> a < hi e}"

lemma covered_simps [simp]:
  "covered t [] = {}"
  "covered t (xs @ ys) = covered t xs \<union> covered t ys"
  "covered t [e] = (if me_type e = t then {lo e..<hi e} else {})"
  by (auto simp: covered_def)

lemma append_section_covered:
  assumes "append_section sec s l t = Some sec'" and "unat s \<le> unat l" and "unat l + 1 < 2 ^ 64"
  shows "covered u sec' = covered u sec \<union> (if u = t then {unat s..unat l} else {})"
proof -
  define e where "e = \<lparr>me_addr = s, me_len = l - s + 1, me_type = t\<rparr>"
  have "unat (l - s + 1) = unat l - unat s + 1"
    using assms(2,3) by (subst unat_add_no_wrap) (auto simp: unat_sub_no_wrap)
  then have "lo e = unat s" "hi e = unat l + 1" "me_type e = t"
    using assms(2) by (simp_all add: e_def lo_def hi_def)
  moreover have "sec' = sec @ [e]"
    using assms(1) by (auto simp: append_section_def e_def split: if_splits)
  ultimately show ?thesis by auto
qed

text \<open>One boot entry: what it contributes to the section map, clipped and split at the reserved range.\<close>

lemma init_mm_section_entry_covered:
  assumes step: "init_mm_section_entry ss rs re entry sec = Some sec'"
    and wf: "wf_entry entry" "hi entry < 2 ^ 64" and res: "rs < re \<or> re = 0"
    and usable: "me_type entry = MMAP_ENTRY_USABLE"
  defines "E \<equiv> {max (lo entry) (unat ss)..<hi entry}" and "R \<equiv> {unat rs..<unat re}"
  shows "covered MM_SEC_ENTRY_USABLE sec' = covered MM_SEC_ENTRY_USABLE sec \<union> (E - R) \<and>
         covered MM_SEC_ENTRY_RESERVED sec' = covered MM_SEC_ENTRY_RESERVED sec \<union> (E \<inter> R)"
proof -
  define el where "el = me_addr entry + me_len entry - 1"
  define es where "es = (if me_addr entry < ss then ss else me_addr entry)"
  have el: "unat el = hi entry - 1" "0 < hi entry"
    using unat_last [OF wf(1)] wf_hi [OF wf(1)] by (simp_all add: el_def)
  have es: "unat es = max (lo entry) (unat ss)"
    by (auto simp: es_def lo_def word_arith max_def)
  have top: "unat el + 1 < 2 ^ 64" using el wf(2) by simp
  have E: "E = {unat es..unat el}"
    using el es by (auto simp: E_def)
  have eq: "init_mm_section_entry ss rs re entry sec =
     (if el < ss then Some sec
      else if re \<le> es \<or> el < rs then append_section sec es el MM_SEC_ENTRY_USABLE
      else do {
        sec \<leftarrow> (if es < rs then append_section sec es (rs - 1) MM_SEC_ENTRY_USABLE else Some sec);
        sec \<leftarrow> append_section sec (max es rs) (min el (re - 1)) MM_SEC_ENTRY_RESERVED;
        if re - 1 < el then append_section sec (re - 1 + 1) el MM_SEC_ENTRY_USABLE else Some sec
      })"
    using usable by (simp add: init_mm_section_entry_def Let_def el_def [symmetric] es_def [symmetric])
  consider (below) "el < ss" | (apart) "\<not> el < ss" "re \<le> es \<or> el < rs"
    | (overlap) "\<not> el < ss" "es < re" "rs \<le> el" by fastforce
  then show ?thesis
  proof cases
    case below
    then have "E = {}" using el es by (auto simp: E word_arith)
    with below step eq show ?thesis by simp
  next
    case apart
    have "unat es \<le> unat el"
      using apart(1) wf_hi [OF wf(1)] el es by (auto simp: word_arith)
    moreover have "E \<inter> R = {}"
      using apart(2) by (auto simp: E R_def word_arith)
    ultimately show ?thesis
      using apart step eq append_section_covered [of sec es el MM_SEC_ENTRY_USABLE sec'] top
      by (auto simp: E)
  next
    case overlap
    have le: "unat es \<le> unat el"
      using overlap(1) wf_hi [OF wf(1)] el es by (auto simp: word_arith)
    have r: "unat rs < unat re" "unat es < unat re" "unat rs \<le> unat el"
      using res overlap by (auto simp: word_arith)
    have re1: "unat (re - 1) = unat re - 1"
      using r by (intro unat_sub_one) (simp add: word_arith)
    have "\<not> (re \<le> es \<or> el < rs)"
      using overlap by auto
    with step eq overlap(1) obtain s1 s2 where
        s1: "(if es < rs then append_section sec es (rs - 1) MM_SEC_ENTRY_USABLE else Some sec) = Some s1"
      and s2: "append_section s1 (max es rs) (min el (re - 1)) MM_SEC_ENTRY_RESERVED = Some s2"
      and s3: "(if re - 1 < el then append_section s2 (re - 1 + 1) el MM_SEC_ENTRY_USABLE else Some s2) = Some sec'"
      by (auto simp: bind_eq_Some_conv)
    have c1: "covered u s1 = covered u sec \<union>
        (if u = MM_SEC_ENTRY_USABLE \<and> unat es < unat rs then {unat es..<unat rs} else {})" for u
    proof (cases "es < rs")
      case True
      then have rs1: "unat (rs - 1) = unat rs - 1"
        by (intro unat_sub_one) (simp add: word_arith)
      with True s1 r top append_section_covered [of sec es "rs - 1" MM_SEC_ENTRY_USABLE s1 u] show ?thesis
        by (auto simp: word_arith)
    qed (use s1 in \<open>auto simp: word_arith\<close>)
    have c2: "covered u s2 = covered u s1 \<union>
        (if u = MM_SEC_ENTRY_RESERVED then {max (unat es) (unat rs)..min (unat el) (unat re - 1)} else {})" for u
    proof -
      have mx: "unat (max es rs) = max (unat es) (unat rs)" "unat (min el (re - 1)) = min (unat el) (unat re - 1)"
        by (auto simp: max_def min_def word_arith re1)
      have "unat (max es rs) \<le> unat (min el (re - 1))" "unat (min el (re - 1)) + 1 < 2 ^ 64"
        unfolding mx using le r top by auto
      from append_section_covered [OF s2 this, of u] show ?thesis
        unfolding mx .
    qed
    have c3: "covered u sec' = covered u s2 \<union>
        (if u = MM_SEC_ENTRY_USABLE \<and> unat re \<le> unat el then {unat re..unat el} else {})" for u
    proof (cases "re - 1 < el")
      case True
      then have "unat re \<le> unat el" using re1 r by (simp add: word_arith)
      with True s3 top append_section_covered [of s2 re el MM_SEC_ENTRY_USABLE sec' u] show ?thesis
        by auto
    next
      case False
      then have "\<not> unat re \<le> unat el" using re1 r by (simp add: word_arith)
      with False s3 show ?thesis by simp
    qed
    have "E - R = {unat es..<unat rs} \<union> {unat re..unat el}"
      "E \<inter> R = {max (unat es) (unat rs)..min (unat el) (unat re - 1)}"
      using le r by (auto simp: E R_def)
    then show ?thesis
      using c1 c2 c3 by (auto simp: Un_assoc)
  qed
qed

lemma init_mm_section_entry_other:
  "me_type entry \<noteq> MMAP_ENTRY_USABLE \<Longrightarrow> init_mm_section_entry ss rs re entry sec = Some sec"
  by (simp add: init_mm_section_entry_def)

lemma covered_Cons: "covered t (e # es) = covered t [e] \<union> covered t es"
  using covered_simps(2) [of t "[e]" es] by simp

lemma init_mm_section_loop_covered:
  assumes "init_mm_section_loop ss rs re mmap sec = Some sec'"
    and "\<forall>e \<in> set mmap. wf_entry e \<and> hi e < 2 ^ 64" and "rs < re \<or> re = 0"
  defines "R \<equiv> {unat rs..<unat re}"
  shows "covered MM_SEC_ENTRY_USABLE sec' =
           covered MM_SEC_ENTRY_USABLE sec \<union> ((covered MMAP_ENTRY_USABLE mmap \<inter> {unat ss..}) - R) \<and>
         covered MM_SEC_ENTRY_RESERVED sec' =
           covered MM_SEC_ENTRY_RESERVED sec \<union> (covered MMAP_ENTRY_USABLE mmap \<inter> {unat ss..} \<inter> R)"
  using assms(1,2)
proof (induction mmap arbitrary: sec)
  case (Cons e es)
  then obtain s1 where s1: "init_mm_section_entry ss rs re e sec = Some s1"
      "init_mm_section_loop ss rs re es s1 = Some sec'"
    by (auto simp: bind_eq_Some_conv)
  note IH = Cons.IH [OF s1(2)]
  show ?case
  proof (cases "me_type e = MMAP_ENTRY_USABLE")
    case True
    have "{max (lo e) (unat ss)..<hi e} = {lo e..<hi e} \<inter> {unat ss..}" by auto
    with True IH init_mm_section_entry_covered [OF s1(1) _ _ assms(3) True] Cons.prems(2) show ?thesis
      unfolding R_def covered_Cons [of _ e es] by auto
  next
    case False
    with IH s1(1) Cons.prems(2) show ?thesis
      by (simp add: init_mm_section_entry_other covered_Cons [of _ e es])
  qed
qed simp

section \<open>Properties\<close>

text \<open>
  C20. On a boot map whose entries do not overlap, \<^verbatim>\<open>refine_mmap\<close> does not panic and returns a map
  that is sorted and free of overlaps, in which every usable entry is page aligned and no two
  usable entries touch, and which offers exactly the page frames that lie inside a usable entry
  of the boot map.
\<close>

theorem refine_mmap_correct:
  assumes "boot_ok boot" and "length boot \<le> MAX_MMAP_ENTRIES"
  shows "\<exists>out. refine_mmap MAX_MMAP_ENTRIES boot = Some out \<and>
           sorted_wrt (\<lambda>a b. hi a \<le> lo b) out \<and>
           (\<forall>e \<in> set out. wf_entry e \<and> aligned_usable e) \<and>
           sorted_wrt (\<lambda>a b. me_type a = MMAP_ENTRY_USABLE \<longrightarrow> me_type b = MMAP_ENTRY_USABLE \<longrightarrow> hi a < lo b) out \<and>
           usable_pages out = usable_pages boot"
  using refine_mmap_refined [OF assms assms(2)] by (auto simp: refined_def)

definition sample_boot_map :: "mmap_entry list" where
  "sample_boot_map =
     [\<lparr>me_addr = 0x100000, me_len = 0x3ff80, me_type = MMAP_ENTRY_USABLE\<rparr>,
      \<lparr>me_addr = 0xf0000, me_len = 0x10000, me_type = MMAP_ENTRY_RESERVED\<rparr>,
      \<lparr>me_addr = 0x200000, me_len = 0x1000, me_type = MMAP_ENTRY_USABLE\<rparr>,
      \<lparr>me_addr = 0x201000, me_len = 0x1800, me_type = MMAP_ENTRY_USABLE\<rparr>]"

lemma sample_boot_ok: "boot_ok sample_boot_map" "length sample_boot_map \<le> MAX_MMAP_ENTRIES"
  by (simp_all add: sample_boot_map_def boot_ok_def disjoint_entries_def lo_def hi_def)

lemma sample_refined:
  "refine_mmap MAX_MMAP_ENTRIES sample_boot_map = Some
     [\<lparr>me_addr = 0xf0000, me_len = 0x10000, me_type = MMAP_ENTRY_RESERVED\<rparr>,
      \<lparr>me_addr = 0x100000, me_len = 0x3f000, me_type = MMAP_ENTRY_USABLE\<rparr>,
      \<lparr>me_addr = 0x200000, me_len = 0x2000, me_type = MMAP_ENTRY_USABLE\<rparr>]"
  by code_simp

theorem refine_mmap_correct_witness:
  "boot_ok sample_boot_map \<and>
   usable_pages [\<lparr>me_addr = 0xf0000, me_len = 0x10000, me_type = MMAP_ENTRY_RESERVED\<rparr>,
                 \<lparr>me_addr = 0x100000, me_len = 0x3f000, me_type = MMAP_ENTRY_USABLE\<rparr>,
                 \<lparr>me_addr = 0x200000, me_len = 0x2000, me_type = MMAP_ENTRY_USABLE\<rparr>]
     = usable_pages sample_boot_map"
  using refine_mmap_correct [OF sample_boot_ok] sample_boot_ok sample_refined by simp

text \<open>
  When two entries start at the same address and the later one has the preferred type (a usable
  entry followed by a longer reserved one), the insertion fails whatever room is left, so
  \<^verbatim>\<open>refine_mmap\<close> panics with ``too many mmap entries'': the branch for a fully consumed \<^verbatim>\<open>prev\<close>
  returns \<^verbatim>\<open>false\<close> instead of overwriting it.
\<close>

theorem insert_same_start_panics:
  assumes "me_addr prev = me_addr inn" and "\<not> is_preferred_entry prev inn"
    and "\<not> (me_type prev = MMAP_ENTRY_USABLE \<and> me_type inn = MMAP_ENTRY_USABLE)"
    and "wf_entry prev"
  shows "insert_with_overlap prev remaining inn = None"
proof -
  have "me_addr inn = 0 \<or> me_addr inn - 1 < me_addr prev + me_len prev - 1"
  proof (cases "me_addr inn = 0")
    case False
    then have pos: "0 < me_addr inn" by (simp add: word_gt_0)
    then have "unat (me_addr inn - 1) = lo prev - 1" "0 < lo prev"
      using unat_sub_one [OF pos] assms(1) by (simp_all add: lo_def word_less_nat_alt)
    with unat_last [OF assms(4)] wf_hi [OF assms(4)] show ?thesis
      unfolding word_less_nat_alt by linarith
  qed simp
  with assms(1-3) show ?thesis
    by (auto simp: insert_with_overlap_def Let_def)
qed

theorem insert_same_start_panics_witness:
  "insert_with_overlap \<lparr>me_addr = 0x1000, me_len = 0x2000, me_type = MMAP_ENTRY_USABLE\<rparr> 100
     \<lparr>me_addr = 0x1000, me_len = 0x4000, me_type = MMAP_ENTRY_RESERVED\<rparr> = None \<and>
   refine_mmap MAX_MMAP_ENTRIES
     [\<lparr>me_addr = 0x1000, me_len = 0x2000, me_type = MMAP_ENTRY_USABLE\<rparr>,
      \<lparr>me_addr = 0x1000, me_len = 0x4000, me_type = MMAP_ENTRY_RESERVED\<rparr>] = None"
proof
  show "insert_with_overlap \<lparr>me_addr = 0x1000, me_len = 0x2000, me_type = MMAP_ENTRY_USABLE\<rparr> 100
     \<lparr>me_addr = 0x1000, me_len = 0x4000, me_type = MMAP_ENTRY_RESERVED\<rparr> = None"
    by (rule insert_same_start_panics)
      (simp_all add: is_preferred_entry_def mmap_entry_overlap_priority_def wf_entry_def hi_def)
qed code_simp

text \<open>
  With three mutually overlapping entries the output can be wrong: a reserved and an ACPI range
  that overlap each other inside a usable one leave an entry that declares everything from
  \<open>0x30000\<close> to the top of the address space usable (\<^verbatim>\<open>prev->len = in->addr - prev->addr\<close> wraps
  because only the last output entry is looked at).
\<close>

theorem refine_mmap_overlap_wraps:
  "\<exists>out. refine_mmap MAX_MMAP_ENTRIES
       [\<lparr>me_addr = 0, me_len = 0x100000, me_type = MMAP_ENTRY_USABLE\<rparr>,
        \<lparr>me_addr = 0x10000, me_len = 0x20000, me_type = MMAP_ENTRY_RESERVED\<rparr>,
        \<lparr>me_addr = 0x20000, me_len = 0x20000, me_type = MMAP_ENTRY_ACPI\<rparr>] = Some out \<and>
     (\<exists>e \<in> set out. me_type e = MMAP_ENTRY_USABLE \<and> lo e = 0x30000 \<and> hi e = 2 ^ 64)"
proof -
  have "refine_mmap MAX_MMAP_ENTRIES
       [\<lparr>me_addr = 0, me_len = 0x100000, me_type = MMAP_ENTRY_USABLE\<rparr>,
        \<lparr>me_addr = 0x10000, me_len = 0x20000, me_type = MMAP_ENTRY_RESERVED\<rparr>,
        \<lparr>me_addr = 0x20000, me_len = 0x20000, me_type = MMAP_ENTRY_ACPI\<rparr>] = Some
       [\<lparr>me_addr = 0, me_len = 0x10000, me_type = MMAP_ENTRY_USABLE\<rparr>,
        \<lparr>me_addr = 0x10000, me_len = 0x20000, me_type = MMAP_ENTRY_RESERVED\<rparr>,
        \<lparr>me_addr = 0x30000, me_len = 0xfffffffffffd0000, me_type = MMAP_ENTRY_USABLE\<rparr>,
        \<lparr>me_addr = 0x20000, me_len = 0x20000, me_type = MMAP_ENTRY_ACPI\<rparr>,
        \<lparr>me_addr = 0x40000, me_len = 0xc0000, me_type = MMAP_ENTRY_USABLE\<rparr>]"
    by code_simp
  then show ?thesis
    by (simp add: lo_def hi_def)
qed

text \<open>
  The section map built by \<^verbatim>\<open>init_mm_section\<close> covers exactly the usable addresses from the end
  of the kernel on: those outside the reserved (initramfs) range as usable sections, those inside
  it as reserved sections.
\<close>

theorem init_mm_section_correct:
  assumes "init_mm_section mmap section_start reserved_start reserved_end = Some sec"
    and "\<forall>e \<in> set mmap. wf_entry e \<and> hi e < 2 ^ 64"
    and "reserved_start < reserved_end \<or> reserved_end = 0"
  shows "covered MM_SEC_ENTRY_USABLE sec =
           {a \<in> covered MMAP_ENTRY_USABLE mmap. unat section_start \<le> a \<and> a \<notin> {unat reserved_start..<unat reserved_end}} \<and>
         covered MM_SEC_ENTRY_RESERVED sec =
           {a \<in> covered MMAP_ENTRY_USABLE mmap. unat section_start \<le> a \<and> a \<in> {unat reserved_start..<unat reserved_end}}"
  using init_mm_section_loop_covered [OF assms(1) [unfolded init_mm_section_def] assms(2,3)] by auto

theorem init_mm_section_correct_witness:
  "covered MM_SEC_ENTRY_RESERVED
     [\<lparr>me_addr = 0x2000, me_len = 0x1000, me_type = MM_SEC_ENTRY_USABLE\<rparr>,
      \<lparr>me_addr = 0x3000, me_len = 0x1000, me_type = MM_SEC_ENTRY_RESERVED\<rparr>,
      \<lparr>me_addr = 0x4000, me_len = 0x5000, me_type = MM_SEC_ENTRY_USABLE\<rparr>] =
   {a \<in> covered MMAP_ENTRY_USABLE [\<lparr>me_addr = 0x1000, me_len = 0x8000, me_type = MMAP_ENTRY_USABLE\<rparr>].
      unat (0x2000 :: u64) \<le> a \<and> a \<in> {unat (0x3000 :: u64)..<unat (0x4000 :: u64)}}"
  by (rule init_mm_section_correct [THEN conjunct2]) (code_simp, auto simp: wf_entry_def hi_def)

end
