(* ===== verification/Mm_Tmpalloc.thy ===== *)
theory Mm_Tmpalloc
  imports Mm_Map
begin

text \<open>
  \<open>kernel/src/mm/tmpalloc.c\<close>: the allocator that hands out page frames while the memory manager is
  being set up, before the page metadata exists. It carves whole pages from the front of the first
  usable section and records them as a metadata section. The theory shows that an allocation
  moves exactly the returned range from the usable to the metadata sections.
\<close>

section \<open>Model\<close>

text \<open>\<^verbatim>\<open>mm.entries\<close> becomes a null pointer when the map is handed over (\<^verbatim>\<open>mm_map_finalize_tmpalloc\<close>).\<close>

record tmpalloc =
  ta_entries :: "mmap_entry list option"
  ta_capacity :: nat

definition tmpalloc_create :: "nat \<Rightarrow> mmap_entry list \<Rightarrow> tmpalloc" where
  "tmpalloc_create len src =
     (let n = (if length src > len then len else length src)
      in \<lparr>ta_entries = Some (take n src), ta_capacity = len\<rparr>)"

definition insert_entry :: "nat \<Rightarrow> mmap_entry list \<Rightarrow> nat \<Rightarrow> mmap_entry \<Rightarrow> mmap_entry list option" where
  "insert_entry capacity es index entry =
     (if length es \<ge> capacity then None
      else Some (take index es @ entry # drop index es))"

definition erase_entry :: "mmap_entry list \<Rightarrow> nat \<Rightarrow> mmap_entry list" where
  "erase_entry es index = take index es @ drop (index + 1) es"

text \<open>
  The body of the loop for the entry it stops at: the metadata section before it grows, or a new
  one is inserted, and the usable entry shrinks from the front.
\<close>

definition take_pages :: "nat \<Rightarrow> mmap_entry list \<Rightarrow> nat \<Rightarrow> u64 \<Rightarrow> mmap_entry list option" where
  "take_pages capacity es i allocated_len = do {
     let usable = es ! i;
     (es, i) \<leftarrow>
       (if i > 0 \<and> me_type (es ! (i - 1)) = MM_SEC_ENTRY_METADATA \<and>
           me_addr (es ! (i - 1)) + me_len (es ! (i - 1)) = me_addr usable
        then Some (es[i - 1 := (es ! (i - 1))\<lparr>me_len := me_len (es ! (i - 1)) + allocated_len\<rparr>], i)
        else do {
          es \<leftarrow> insert_entry capacity es i
                  \<lparr>me_addr = me_addr usable, me_len = allocated_len, me_type = MM_SEC_ENTRY_METADATA\<rparr>;
          Some (es, i + 1)
        });
     let usable = es ! i;
     let usable = usable\<lparr>me_addr := me_addr usable + allocated_len, me_len := me_len usable - allocated_len\<rparr>;
     let es = es[i := usable];
     Some (if me_len usable = 0 then erase_entry es i else es)
   }"

text \<open>Address and number of the allocated pages, and the new section list; no usable page is a panic.\<close>

function tmpalloc_loop :: "nat \<Rightarrow> u64 \<Rightarrow> mmap_entry list \<Rightarrow> nat \<Rightarrow> (u64 \<times> u64 \<times> mmap_entry list) option" where
  "tmpalloc_loop capacity max_pages es i =
     (if i < length es then
        let usable = es ! i
        in if me_type usable \<noteq> MM_SEC_ENTRY_USABLE then tmpalloc_loop capacity max_pages es (Suc i)
        else if me_len usable < PAGE_SIZE then tmpalloc_loop capacity max_pages es (Suc i)
        else let allocated = me_len usable div PAGE_SIZE;
                 allocated = (if allocated > max_pages then max_pages else allocated)
        in if allocated = 0 then tmpalloc_loop capacity max_pages es (Suc i)
        else do {
          es' \<leftarrow> take_pages capacity es i (allocated * PAGE_SIZE);
          Some (me_addr usable, allocated, es')
        }
      else None)"
  by pat_completeness auto
termination
  by (relation "measure (\<lambda>(capacity, max_pages, es, i). length es - i)") auto

declare tmpalloc_loop.simps [simp del]

definition tmpalloc_alloc_pages :: "tmpalloc \<Rightarrow> u64 \<Rightarrow> (u64 \<times> u64 \<times> tmpalloc) option" where
  "tmpalloc_alloc_pages ta max_pages = do {
     es \<leftarrow> ta_entries ta;
     (addr, allocated, es) \<leftarrow> tmpalloc_loop (ta_capacity ta) max_pages es 0;
     Some (addr, allocated, ta\<lparr>ta_entries := Some es\<rparr>)
   }"

text \<open>\<^verbatim>\<open>mm_map_finalize_tmpalloc\<close> of \<open>map.c\<close>: the sections become the global section map.\<close>

definition mm_map_finalize_tmpalloc :: "tmpalloc \<Rightarrow> (mmap_entry list \<times> tmpalloc) option" where
  "mm_map_finalize_tmpalloc ta = do {
     es \<leftarrow> ta_entries ta;
     Some (es, ta\<lparr>ta_entries := None\<rparr>)
   }"

section \<open>Sorted section lists\<close>

definition sections_ok :: "mmap_entry list \<Rightarrow> bool" where
  "sections_ok es \<longleftrightarrow> (\<forall>e \<in> set es. wf_entry e \<and> hi e < 2 ^ 64) \<and> sorted_wrt before es"

lemma sections_ok_append:
  "sections_ok (xs @ ys) \<longleftrightarrow>
     sections_ok xs \<and> sections_ok ys \<and> (\<forall>x \<in> set xs. \<forall>y \<in> set ys. before x y)"
  by (auto simp: sections_ok_def sorted_wrt_append)

lemma sections_ok_Cons:
  "sections_ok (e # es) \<longleftrightarrow>
     wf_entry e \<and> hi e < 2 ^ 64 \<and> sections_ok es \<and> (\<forall>y \<in> set es. before e y)"
  by (auto simp: sections_ok_def)

lemma sections_ok_Nil [simp]: "sections_ok []"
  by (simp add: sections_ok_def)

text \<open>
  Replacing one entry of a sorted list by entries that lie inside it keeps the order, and only
  changes the coverage inside it.
\<close>

lemma sections_ok_replace:
  assumes "sections_ok (xs @ e # ys)" and "sections_ok zs" and "\<forall>z \<in> set zs. lo e \<le> lo z \<and> hi z \<le> hi e"
  shows "sections_ok (xs @ zs @ ys)"
  using assms unfolding sections_ok_append sections_ok_Cons
  by (auto simp: sections_ok_append) (meson le_trans)+

lemma covered_outside:
  assumes "sections_ok (xs @ e # ys)" and "a \<in> {lo e..<hi e}"
  shows "a \<notin> covered t xs \<and> a \<notin> covered t ys"
  using assms by (force simp: covered_def sections_ok_append sections_ok_Cons)

lemma covered_Cons_if:
  "covered t (e # es) = (if me_type e = t then {lo e..<hi e} else {}) \<union> covered t es"
  by (auto simp: covered_def)

section \<open>Allocation\<close>

text \<open>The usable entry shrunk by the allocated length, dropped when it becomes empty.\<close>

definition shrunk :: "mmap_entry \<Rightarrow> u64 \<Rightarrow> mmap_entry list" where
  "shrunk u n = (if me_len u - n = 0 then []
     else [u\<lparr>me_addr := me_addr u + n, me_len := me_len u - n\<rparr>])"

lemma shrunk_props:
  assumes "wf_entry u" "hi u < 2 ^ 64" "unat n \<le> unat (me_len u)"
  shows "sections_ok (shrunk u n)"
    and "\<forall>z \<in> set (shrunk u n). lo z = lo u + unat n \<and> hi z = hi u \<and> me_type z = me_type u"
    and "covered t (shrunk u n) = (if t = me_type u then {lo u + unat n..<hi u} else {})"
proof -
  have a: "unat (me_addr u + n) = unat (me_addr u) + unat n"
    using assms by (intro unat_add_no_wrap) (auto simp: hi_def)
  have l: "unat (me_len u - n) = unat (me_len u) - unat n"
    using assms(3) by (rule unat_sub_no_wrap)
  show z: "\<forall>z \<in> set (shrunk u n). lo z = lo u + unat n \<and> hi z = hi u \<and> me_type z = me_type u"
    using a l assms(3) by (auto simp: shrunk_def lo_def hi_def)
  show "sections_ok (shrunk u n)"
  proof (cases "me_len u - n = 0")
    case False
    with l have "unat n < unat (me_len u)"
      by (metis assms(3) diff_self_eq_0 le_eq_less_or_eq unat_eq_zero)
    with False a l assms(2) show ?thesis
      by (auto simp: shrunk_def sections_ok_Cons wf_entry_def hi_def)
  qed (simp add: shrunk_def)
  show "covered t (shrunk u n) = (if t = me_type u then {lo u + unat n..<hi u} else {})"
    using a l assms(3) by (auto simp: shrunk_def lo_def hi_def unat_eq_zero [symmetric] split: if_splits)
qed

lemma take_pages_cases:
  assumes "take_pages cap es i n = Some es'" and "i < length es"
  shows "es' = take i es @ \<lparr>me_addr = me_addr (es ! i), me_len = n, me_type = MM_SEC_ENTRY_METADATA\<rparr>
                 # shrunk (es ! i) n @ drop (Suc i) es \<or>
         (\<exists>xs p. take i es = xs @ [p] \<and> me_type p = MM_SEC_ENTRY_METADATA \<and>
                 me_addr p + me_len p = me_addr (es ! i) \<and>
                 es' = xs @ p\<lparr>me_len := me_len p + n\<rparr> # shrunk (es ! i) n @ drop (Suc i) es)"
proof (cases "i > 0 \<and> me_type (es ! (i - 1)) = MM_SEC_ENTRY_METADATA \<and>
           me_addr (es ! (i - 1)) + me_len (es ! (i - 1)) = me_addr (es ! i)")
  case True
  define xs where "xs = take (i - 1) es"
  define p where "p = es ! (i - 1)"
  define p' where "p' = p\<lparr>me_len := me_len p + n\<rparr>"
  have tk: "take i es = xs @ [p]"
    using True assms(2) take_Suc_conv_app_nth [of "i - 1" es] by (simp add: xs_def p_def)
  have es: "es = xs @ p # es ! i # drop (Suc i) es"
    using tk assms(2) id_take_nth_drop [of i es] by simp
  have len: "length xs = i - 1"
    using assms(2) by (simp add: xs_def)
  have "es[i - 1 := p'] = xs @ p' # es ! i # drop (Suc i) es"
    using len by (subst es) (simp add: list_update_append)
  moreover have "take_pages cap es i n = Some (
      let es1 = es[i - 1 := p']; u = (es1 ! i)\<lparr>me_addr := me_addr (es1 ! i) + n, me_len := me_len (es1 ! i) - n\<rparr>;
          es2 = es1[i := u] in if me_len u = 0 then erase_entry es2 i else es2)"
    using True by (simp add: take_pages_def p'_def p_def Let_def)
  moreover have "Suc (length xs) = i" using len True by simp
  ultimately have "es' = xs @ p' # shrunk (es ! i) n @ drop (Suc i) es"
    using assms(1) by (auto simp: Let_def shrunk_def erase_entry_def nth_append list_update_append
        split: nat.split if_splits)
  with True tk show ?thesis
    by (auto simp: p'_def p_def)
next
  case False
  define m where "m = \<lparr>me_addr = me_addr (es ! i), me_len = n, me_type = MM_SEC_ENTRY_METADATA\<rparr>"
  have len: "length (take i es) = i" using assms(2) by simp
  have dr: "drop i es = es ! i # drop (Suc i) es"
    using assms(2) by (simp add: Cons_nth_drop_Suc)
  from False assms(1) have "length es < cap"
    by (auto simp: take_pages_def insert_entry_def Let_def split: if_splits)
  then have "insert_entry cap es i m = Some (take i es @ m # drop i es)"
    by (simp add: insert_entry_def)
  then have "take_pages cap es i n = Some (
      let es1 = take i es @ m # drop i es;
          u = (es1 ! Suc i)\<lparr>me_addr := me_addr (es1 ! Suc i) + n, me_len := me_len (es1 ! Suc i) - n\<rparr>;
          es2 = es1[Suc i := u] in if me_len u = 0 then erase_entry es2 (Suc i) else es2)"
    unfolding take_pages_def m_def Let_def if_not_P [OF False] by simp
  then have "es' = (
      let es1 = take i es @ m # drop i es;
          u = (es1 ! Suc i)\<lparr>me_addr := me_addr (es1 ! Suc i) + n, me_len := me_len (es1 ! Suc i) - n\<rparr>;
          es2 = es1[Suc i := u] in if me_len u = 0 then erase_entry es2 (Suc i) else es2)"
    using assms(1) by simp
  then have "es' = take i es @ m # shrunk (es ! i) n @ drop (Suc i) es"
    using len dr by (auto simp: Let_def shrunk_def erase_entry_def nth_append list_update_append split: if_splits)
  then show ?thesis by (simp add: m_def)
qed

text \<open>What \<^const>\<open>take_pages\<close> does to the section list, in terms of the addresses it covers.\<close>

definition moved :: "nat set \<Rightarrow> mmap_entry list \<Rightarrow> mmap_entry list \<Rightarrow> bool" where
  "moved R es es' \<longleftrightarrow> sections_ok es' \<and> R \<subseteq> covered MM_SEC_ENTRY_USABLE es \<and>
     covered MM_SEC_ENTRY_USABLE es' = covered MM_SEC_ENTRY_USABLE es - R \<and>
     covered MM_SEC_ENTRY_METADATA es' = covered MM_SEC_ENTRY_METADATA es \<union> R \<and>
     covered MM_SEC_ENTRY_RESERVED es' = covered MM_SEC_ENTRY_RESERVED es"

lemma split_at_nth: "i < length es \<Longrightarrow> es = take i es @ es ! i # drop (Suc i) es"
  by (rule id_take_nth_drop)

lemma moved_new_section:
  assumes ok: "sections_ok (xs @ u # ys)" and u: "me_type u = MM_SEC_ENTRY_USABLE"
    and n: "0 < unat n" "unat n \<le> unat (me_len u)"
  defines "m \<equiv> \<lparr>me_addr = me_addr u, me_len = n, me_type = MM_SEC_ENTRY_METADATA\<rparr>"
  shows "moved {lo u..<lo u + unat n} (xs @ u # ys) (xs @ m # shrunk u n @ ys)"
proof -
  have wu: "wf_entry u" "hi u < 2 ^ 64"
    using ok by (auto simp: sections_ok_append sections_ok_Cons)
  note sh = shrunk_props [OF wu n(2)]
  have m: "lo m = lo u" "hi m = lo u + unat n" "me_type m = MM_SEC_ENTRY_METADATA"
    by (auto simp: m_def lo_def hi_def)
  have le: "lo u + unat n \<le> hi u" using n by (simp add: lo_def hi_def)
  have "sections_ok (m # shrunk u n)"
    using sh m le wu n by (auto simp: sections_ok_Cons wf_entry_def m_def)
  then have "sections_ok (xs @ (m # shrunk u n) @ ys)"
    using sh m le by (intro sections_ok_replace [OF ok]) auto
  moreover have "a \<notin> covered t xs \<and> a \<notin> covered t ys" if "a \<in> {lo u..<lo u + unat n}" for a t
    using that le covered_outside [OF ok] by auto
  ultimately show ?thesis
    using u m le by (auto simp: moved_def covered_Cons_if sh(3))
qed

lemma moved_grown_section:
  assumes ok: "sections_ok (xs @ p # u # ys)" and u: "me_type u = MM_SEC_ENTRY_USABLE"
    and n: "0 < unat n" "unat n \<le> unat (me_len u)"
    and p: "me_type p = MM_SEC_ENTRY_METADATA" "me_addr p + me_len p = me_addr u"
  shows "moved {lo u..<lo u + unat n} (xs @ p # u # ys)
           (xs @ p\<lparr>me_len := me_len p + n\<rparr> # shrunk u n @ ys)"
proof -
  define p' where "p' = p\<lparr>me_len := me_len p + n\<rparr>"
  have wu: "wf_entry u" "hi u < 2 ^ 64" and wp: "wf_entry p" "hi p < 2 ^ 64"
    using ok by (auto simp: sections_ok_append sections_ok_Cons)
  note sh = shrunk_props [OF wu n(2)]
  have le: "lo u + unat n \<le> hi u" using n by (simp add: lo_def hi_def)
  have hp: "hi p = lo u"
    using wp p unat_add_no_wrap [of "me_addr p" "me_len p"] by (simp add: hi_def lo_def)
  have "unat (me_len p) + unat n < 2 ^ 64"
    using hp le wu(2) by (simp add: hi_def lo_def)
  then have lp: "unat (me_len p + n) = unat (me_len p) + unat n"
    by (intro unat_add_no_wrap) simp
  have m: "lo p' = lo p" "hi p' = lo u + unat n" "me_type p' = MM_SEC_ENTRY_METADATA"
    using hp lp p(1) by (auto simp: p'_def lo_def hi_def)
  have "sections_ok (p' # shrunk u n @ ys)"
    using sh m le wu n ok lp wp
    by (auto simp: sections_ok_Cons sections_ok_append wf_entry_def p'_def)
  then have "sections_ok (xs @ p' # shrunk u n @ ys)"
    using ok sh m hp wp unfolding sections_ok_append sections_ok_Cons
    by (auto simp: wf_entry_def hi_def)
  moreover have "a \<notin> covered t xs \<and> a \<notin> covered t ys" if "a \<in> {lo u..<lo u + unat n}" for a t
    using that le covered_outside [of "xs @ [p]" u ys a t] ok by auto
  moreover have "lo p \<le> lo u" using hp wp(1) by (simp add: hi_def lo_def)
  ultimately show ?thesis
    using u m p hp le by (auto simp: moved_def covered_Cons_if sh(3) p'_def [symmetric])
qed

lemma take_pages_moved:
  assumes "take_pages cap es i n = Some es'" and "i < length es" and ok: "sections_ok es"
    and "me_type (es ! i) = MM_SEC_ENTRY_USABLE" and "0 < unat n" "unat n \<le> unat (me_len (es ! i))"
  shows "moved {lo (es ! i)..<lo (es ! i) + unat n} es es'"
  using take_pages_cases [OF assms(1,2)]
proof (elim disjE exE conjE, goal_cases)
  case 1
  with assms moved_new_section [of "take i es" "es ! i" "drop (Suc i) es" n] split_at_nth [OF assms(2)]
  show ?thesis by simp
next
  case (2 xs p)
  with split_at_nth [OF assms(2)] have es: "es = xs @ p # es ! i # drop (Suc i) es"
    by simp
  from 2 moved_grown_section [of xs p "es ! i" "drop (Suc i) es" n] assms(4-6) ok es
  show ?thesis by simp
qed

lemma take_pages_Some:
  assumes "length es < cap"
  shows "\<exists>es'. take_pages cap es i n = Some es'"
  using assms by (auto simp: take_pages_def insert_entry_def Let_def)

lemma page_count_bounds:
  fixes len max_pages :: u64
  assumes "PAGE_SIZE \<le> len"
  defines "a \<equiv> len div PAGE_SIZE"
  defines "b \<equiv> (if a > max_pages then max_pages else a)"
  shows "unat (b * PAGE_SIZE) = unat b * 4096" and "unat b * 4096 \<le> unat len" and "b \<le> max_pages"
    and "b = 0 \<longleftrightarrow> max_pages = 0"
proof -
  have a: "unat a = unat len div 4096"
    by (simp add: a_def unat_div)
  have le: "unat b \<le> unat a"
    by (auto simp: b_def word_less_nat_alt)
  then have b: "unat b * 4096 \<le> unat len"
    using a div_times_less_eq_dividend [of "unat len" 4096] mult_le_mono1 [OF le, of 4096] by linarith
  moreover have "unat len < 2 ^ 64" by (rule unat_u64_lt)
  ultimately show "unat (b * PAGE_SIZE) = unat b * 4096"
    by (simp add: unat_word_ariths)
  show "b \<le> max_pages" by (auto simp: b_def)
  show "unat b * 4096 \<le> unat len" by (rule b)
  have "4096 \<le> unat len" using assms(1) by (simp add: word_le_nat_alt)
  then have "unat a \<noteq> 0" using a by simp
  then have "a \<noteq> 0" by auto
  then show "b = 0 \<longleftrightarrow> max_pages = 0"
    unfolding b_def by (metis word_coorder.not_eq_extremum)
qed

lemma tmpalloc_loop_skip:
  assumes "i < length es" and "\<not> (me_type (es ! i) = MM_SEC_ENTRY_USABLE \<and> PAGE_SIZE \<le> me_len (es ! i))"
  shows "tmpalloc_loop cap max_pages es i = tmpalloc_loop cap max_pages es (Suc i)"
  using assms by (subst tmpalloc_loop.simps) (auto simp: Let_def not_le)

lemma tmpalloc_loop_take:
  assumes "i < length es" and "me_type (es ! i) = MM_SEC_ENTRY_USABLE" and "PAGE_SIZE \<le> me_len (es ! i)"
    and "b = (if me_len (es ! i) div PAGE_SIZE > max_pages then max_pages else me_len (es ! i) div PAGE_SIZE)"
  shows "tmpalloc_loop cap max_pages es i =
    (if b = 0 then tmpalloc_loop cap max_pages es (Suc i)
     else take_pages cap es i (b * PAGE_SIZE) \<bind> (\<lambda>es'. Some (me_addr (es ! i), b, es')))"
  using assms(1-3) by (subst tmpalloc_loop.simps) (simp add: Let_def leD assms(4))

lemma tmpalloc_loop_progress:
  "tmpalloc_loop cap max_pages es i = Some (pa, n, es') \<Longrightarrow> n \<noteq> 0 \<and> n \<le> max_pages"
proof (induction "length es - i" arbitrary: i)
  case 0
  then show ?case by (simp add: tmpalloc_loop.simps)
next
  case (Suc d)
  then have i: "i < length es" and d: "d = length es - Suc i" by auto
  show ?case
  proof (cases "me_type (es ! i) = MM_SEC_ENTRY_USABLE \<and> PAGE_SIZE \<le> me_len (es ! i)")
    case True
    define b where "b = (if me_len (es ! i) div PAGE_SIZE > max_pages then max_pages else me_len (es ! i) div PAGE_SIZE)"
    have "b \<le> max_pages" by (auto simp: b_def)
    with Suc.prems Suc.hyps(1) [OF d] tmpalloc_loop_take [OF i _ _ b_def, of cap] True show ?thesis
      by (auto simp: Option.bind_eq_Some_conv split: if_splits)
  next
    case False
    with Suc.prems Suc.hyps(1) [OF d] tmpalloc_loop_skip [OF i False, of cap max_pages] show ?thesis
      by simp
  qed
qed

lemma tmpalloc_progress:
  "tmpalloc_alloc_pages ta max_pages = Some (pa, n, ta') \<Longrightarrow> n \<noteq> 0 \<and> n \<le> max_pages"
  by (auto simp: tmpalloc_alloc_pages_def Option.bind_eq_Some_conv dest: tmpalloc_loop_progress)

lemma tmpalloc_loop_none:
  assumes "\<forall>e. e \<in> set es \<and> PAGE_SIZE \<le> me_len e \<longrightarrow> me_type e \<noteq> MM_SEC_ENTRY_USABLE"
  shows "tmpalloc_loop cap max_pages es i = None"
proof (induction "length es - i" arbitrary: i)
  case 0
  then show ?case by (simp add: tmpalloc_loop.simps)
next
  case (Suc d)
  then have i: "i < length es" and d: "d = length es - Suc i" by auto
  show ?case
    using tmpalloc_loop_skip [OF i] nth_mem [OF i] assms Suc.hyps(1) [OF d] by metis
qed

lemma tmpalloc_loop_correct:
  assumes "sections_ok es" and "length es < cap" and "max_pages \<noteq> 0"
    and "\<exists>j. i \<le> j \<and> j < length es \<and> me_type (es ! j) = MM_SEC_ENTRY_USABLE \<and> PAGE_SIZE \<le> me_len (es ! j)"
  shows "\<exists>addr allocated es'. tmpalloc_loop cap max_pages es i = Some (addr, allocated, es') \<and>
           0 < unat allocated \<and> allocated \<le> max_pages \<and>
           moved {unat addr..<unat addr + unat allocated * 4096} es es'"
  using assms
proof (induction cap max_pages es i rule: tmpalloc_loop.induct)
  case (1 cap max_pages es i)
  let ?u = "es ! i"
  from "1.prems" have i: "i < length es" by auto
  show ?case
  proof (cases "me_type ?u = MM_SEC_ENTRY_USABLE \<and> PAGE_SIZE \<le> me_len ?u")
    case False
    then have "\<exists>j. Suc i \<le> j \<and> j < length es \<and> me_type (es ! j) = MM_SEC_ENTRY_USABLE \<and> PAGE_SIZE \<le> me_len (es ! j)"
      using "1.prems"(4) by (metis Suc_leI le_eq_less_or_eq)
    moreover have "tmpalloc_loop cap max_pages es i = tmpalloc_loop cap max_pages es (Suc i)"
      by (rule tmpalloc_loop_skip [OF i False])
    ultimately show ?thesis
      using "1.IH"(1,2) [OF i refl] "1.prems"(1-3) False by (auto simp: not_le)
  next
    case True
    define b where "b = (if me_len ?u div PAGE_SIZE > max_pages then max_pages else me_len ?u div PAGE_SIZE)"
    note bb = page_count_bounds [of "me_len ?u" max_pages, folded b_def]
    have b: "unat (b * PAGE_SIZE) = unat b * 4096" "unat b * 4096 \<le> unat (me_len ?u)" "b \<le> max_pages" "b \<noteq> 0"
      using bb True "1.prems"(3) by auto
    obtain es' where es': "take_pages cap es i (b * PAGE_SIZE) = Some es'"
      using take_pages_Some [OF "1.prems"(2)] by blast
    have "tmpalloc_loop cap max_pages es i = Some (me_addr ?u, b, es')"
      using tmpalloc_loop_take [OF i _ _ b_def, of cap] True b(4) es' by simp
    moreover have "moved {lo ?u..<lo ?u + unat (b * PAGE_SIZE)} es es'"
      using True b "1.prems"(1) by (intro take_pages_moved [OF es' i]) (auto simp: unat_gt_0)
    ultimately show ?thesis
      using b by (auto simp: lo_def unat_gt_0)
  qed
qed

text \<open>
  C21. While the section map has room for one more entry and some usable section holds a whole page,
  a request for at least one page succeeds: the pages it returns (at least one, at most
  \<^verbatim>\<open>max_pages\<close>) were usable, they are metadata afterwards, nothing else changes its kind, and the
  section map stays sorted and free of overlaps.
\<close>

theorem tmpalloc_alloc_pages_correct:
  assumes "ta_entries ta = Some es" and "sections_ok es" and "length es < ta_capacity ta" and "0 < max_pages"
    and "\<exists>e \<in> set es. me_type e = MM_SEC_ENTRY_USABLE \<and> PAGE_SIZE \<le> me_len e"
  shows "\<exists>addr allocated es'. tmpalloc_alloc_pages ta max_pages = Some (addr, allocated, ta\<lparr>ta_entries := Some es'\<rparr>) \<and>
           0 < unat allocated \<and> allocated \<le> max_pages \<and>
           moved {unat addr..<unat addr + unat allocated * 4096} es es'"
proof -
  have "\<exists>j. 0 \<le> j \<and> j < length es \<and> me_type (es ! j) = MM_SEC_ENTRY_USABLE \<and> PAGE_SIZE \<le> me_len (es ! j)"
    using assms(5) by (auto simp: in_set_conv_nth)
  from tmpalloc_loop_correct [OF assms(2,3) _ this, of max_pages] assms(1,4) show ?thesis
    by (fastforce simp: tmpalloc_alloc_pages_def)
qed

theorem tmpalloc_alloc_pages_correct_witness:
  "let es = [\<lparr>me_addr = 0x1000, me_len = 0x2000, me_type = MM_SEC_ENTRY_METADATA\<rparr>,
             \<lparr>me_addr = 0x3000, me_len = 0x5000, me_type = MM_SEC_ENTRY_USABLE\<rparr>];
       ta = \<lparr>ta_entries = Some es, ta_capacity = 8\<rparr>
   in \<exists>addr allocated es'. tmpalloc_alloc_pages ta 3 = Some (addr, allocated, ta\<lparr>ta_entries := Some es'\<rparr>) \<and>
        0 < unat allocated \<and> allocated \<le> 3 \<and> moved {unat addr..<unat addr + unat allocated * 4096} es es'"
  unfolding Let_def
  by (rule tmpalloc_alloc_pages_correct) (simp_all add: sections_ok_def wf_entry_def lo_def hi_def)

text \<open>
  Exhausted or finalised, the allocator panics instead of returning a page: no whole usable page
  is left, or the section map was handed over by \<^verbatim>\<open>mm_map_finalize_tmpalloc\<close>.
\<close>

theorem tmpalloc_alloc_pages_panics:
  "(ta_entries ta = Some es \<and> (\<forall>e. e \<in> set es \<and> PAGE_SIZE \<le> me_len e \<longrightarrow> me_type e \<noteq> MM_SEC_ENTRY_USABLE)
      \<longrightarrow> tmpalloc_alloc_pages ta max_pages = None) \<and>
   (mm_map_finalize_tmpalloc ta = Some (es, ta') \<longrightarrow> tmpalloc_alloc_pages ta' max_pages = None)"
  by (auto simp: tmpalloc_loop_none tmpalloc_alloc_pages_def mm_map_finalize_tmpalloc_def
      Option.bind_eq_Some_conv)

theorem tmpalloc_alloc_pages_panics_witness:
  "tmpalloc_alloc_pages \<lparr>ta_entries = Some [\<lparr>me_addr = 0x1000, me_len = 0x2000, me_type = MM_SEC_ENTRY_METADATA\<rparr>],
     ta_capacity = 8\<rparr> 1 = None \<and>
   tmpalloc_alloc_pages \<lparr>ta_entries = None, ta_capacity = 8\<rparr> 1 = None"
  using tmpalloc_alloc_pages_panics [of "\<lparr>ta_entries = Some [\<lparr>me_addr = 0x1000, me_len = 0x2000, me_type = MM_SEC_ENTRY_METADATA\<rparr>],
       ta_capacity = 8\<rparr>" _ 1 "\<lparr>ta_entries = None, ta_capacity = 8\<rparr>"]
  by (simp add: mm_map_finalize_tmpalloc_def)

end
