(* ===== verification/Mm_Pfn.thy ===== *)
theory Mm_Pfn
  imports Mm_Tmpalloc Coll_Linkedlist
begin

text \<open>
  \<open>kernel/src/mm/pfn.c\<close>: page frame numbers, the array of page structures that describes them, and
  the conversions between frame numbers, physical addresses, direct-map pointers and page
  structures. Frame numbers are naturals: an entry address and an entry length are below
  \<open>2 ^ 64\<close>, so every quantity computed from them by \<^verbatim>\<open>meta_ranges_for_entry\<close> stays below
  \<open>2 ^ 58\<close> (\<open>meta_ranges_bounds\<close>) and the 64-bit arithmetic of the C code does not wrap. In the
  conversions, where it may, the reduction modulo \<open>2 ^ 64\<close> is written out.
\<close>

section \<open>Model\<close>

text \<open>\<^verbatim>\<open>struct page\<close>; its \<^verbatim>\<open>buddy_link\<close> lives in the link heap of the page allocator.\<close>

record page =
  flags :: u16
  refcount :: u16
  buddy_order :: nat

abbreviation PAGE_FLAG_METADATA :: u16 where "PAGE_FLAG_METADATA \<equiv> 1"
abbreviation PAGE_FLAG_BUDDY_FREE :: u16 where "PAGE_FLAG_BUDDY_FREE \<equiv> 2"
abbreviation PAGE_FLAG_BUDDY_HEAD :: u16 where "PAGE_FLAG_BUDDY_HEAD \<equiv> 4"

abbreviation SIZEOF_PAGE :: nat where "SIZEOF_PAGE \<equiv> 24"
abbreviation DIRECT_MAP_START_VIRT :: nat where "DIRECT_MAP_START_VIRT \<equiv> 0xffff880000000000"
abbreviation DIRECT_MAP_END_VIRT :: nat where "DIRECT_MAP_END_VIRT \<equiv> 0xffffc80000000000"
abbreviation PAGES_START_VIRT :: nat where "PAGES_START_VIRT \<equiv> 0xffffc90000000000"
abbreviation PAGES_END_VIRT :: nat where "PAGES_END_VIRT \<equiv> 0xffffca0000000000"

record meta_ranges =
  pfn_start :: nat
  pfn_end :: nat
  page_start :: nat
  page_end :: nat

definition meta_ranges_for_entry :: "mmap_entry \<Rightarrow> meta_ranges" where
  "meta_ranges_for_entry entry =
     (let pfn_start = unat (me_addr entry) div 4096;
          pfn_end = pfn_start + unat (me_len entry) div 4096;
          byte_start = pfn_start * SIZEOF_PAGE;
          byte_end = pfn_end * SIZEOF_PAGE
      in \<lparr>pfn_start = pfn_start, pfn_end = pfn_end,
          page_start = byte_start div 4096, page_end = (byte_end + 4096 - 1) div 4096\<rparr>)"

text \<open>
  Backing the page array with memory (stage \<^verbatim>\<open>STAGE_ALLOC\<close>). The calls of \<^verbatim>\<open>pagetable_map\<close> are
  recorded as a list of virtual address, physical address and number of pages, oldest first.
\<close>

type_synonym mapping_log = "(u64 \<times> u64 \<times> u64) list"

function allocate_loop :: "u64 \<Rightarrow> u64 \<Rightarrow> tmpalloc \<Rightarrow> mapping_log \<Rightarrow> (u64 \<times> tmpalloc \<times> mapping_log) option" where
  "allocate_loop va pages_needed ta maps =
     (if pages_needed > 0 then do {
        (pa, pages_allocated, ta) \<leftarrow> tmpalloc_alloc_pages ta pages_needed;
        allocate_loop (va + pages_allocated * PAGE_SIZE) (pages_needed - pages_allocated) ta
          (maps @ [(va, pa, pages_allocated)])
      } else Some (va, ta, maps))"
  by pat_completeness auto
termination
proof (relation "measure (\<lambda>(va, pages_needed, ta, maps). unat pages_needed)", goal_cases)
  case (2 va pages_needed ta maps r pa s n ta')
  then have "n \<noteq> 0 \<and> n \<le> pages_needed"
    using tmpalloc_progress [of ta pages_needed pa n ta'] by simp
  then have "0 < unat n \<and> unat n \<le> unat pages_needed"
    by (simp add: word_le_nat_alt unat_gt_0)
  then show ?case
    by (simp add: unat_sub_no_wrap)
qed simp

declare allocate_loop.simps [simp del]

definition allocate_pages ::
  "tmpalloc \<Rightarrow> u64 \<Rightarrow> u64 \<Rightarrow> u64 \<Rightarrow> mapping_log \<Rightarrow> (u64 \<times> tmpalloc \<times> mapping_log) option" where
  "allocate_pages ta va pages_needed allocated_end maps =
     (let pages_allocated = (if allocated_end > va then (allocated_end - va) div PAGE_SIZE else 0)
      in if allocated_end > va \<and> pages_needed \<le> pages_allocated then Some (allocated_end, ta, maps)
         else allocate_loop (va + pages_allocated * PAGE_SIZE) (pages_needed - pages_allocated) ta maps)"

fun build_metadata_alloc ::
  "mmap_entry list \<Rightarrow> u64 \<Rightarrow> tmpalloc \<Rightarrow> mapping_log \<Rightarrow> (u64 \<times> tmpalloc \<times> mapping_log) option" where
  "build_metadata_alloc [] allocated_end ta maps = Some (allocated_end, ta, maps)"
| "build_metadata_alloc (entry # rest) allocated_end ta maps = do {
     let ranges = meta_ranges_for_entry entry;
     let pages_needed = of_nat (page_end ranges - page_start ranges);
     let va_start = of_nat (PAGES_START_VIRT + page_start ranges * 4096);
     (allocated_end, ta, maps) \<leftarrow> allocate_pages ta va_start pages_needed allocated_end maps;
     build_metadata_alloc rest allocated_end ta maps
   }"

text \<open>The page array, indexed by frame number (stage \<^verbatim>\<open>STAGE_INIT\<close>).\<close>

definition initialize_pages :: "nat \<Rightarrow> nat \<Rightarrow> bool \<Rightarrow> (nat \<Rightarrow> page) \<Rightarrow> (nat \<Rightarrow> page)" where
  "initialize_pages s e is_metadata pages =
     (\<lambda>pfn. if s \<le> pfn \<and> pfn < e
            then \<lparr>flags = (if is_metadata then PAGE_FLAG_METADATA else 0), refcount = 0, buddy_order = 0\<rparr>
            else pages pfn)"

fun build_metadata_init :: "mmap_entry list \<Rightarrow> (nat \<Rightarrow> page) \<Rightarrow> (nat \<Rightarrow> page)" where
  "build_metadata_init [] pages = pages"
| "build_metadata_init (entry # rest) pages =
     (let ranges = meta_ranges_for_entry entry;
          is_metadata = (me_type entry = MM_SEC_ENTRY_METADATA)
      in build_metadata_init rest (initialize_pages (pfn_start ranges) (pfn_end ranges) is_metadata pages))"

definition get_pfn_end :: "mmap_entry list \<Rightarrow> nat" where
  "get_pfn_end section_map =
     (if length section_map = 0 then 0
      else pfn_end (meta_ranges_for_entry (section_map ! (length section_map - 1))))"

text \<open>
  \<^verbatim>\<open>pfn_init\<close>: the first stage walks the global section map while the temporary allocator works
  on its own copy, the second stage walks that copy.
\<close>

definition pfn_init ::
  "mmap_entry list \<Rightarrow> tmpalloc \<Rightarrow> (nat \<Rightarrow> page) \<Rightarrow> (tmpalloc \<times> (nat \<Rightarrow> page) \<times> nat \<times> mapping_log) option" where
  "pfn_init section_map ta pages = do {
     (_, ta, maps) \<leftarrow> build_metadata_alloc section_map (of_nat PAGES_START_VIRT) ta [];
     es \<leftarrow> ta_entries ta;
     Some (ta, build_metadata_init es pages, get_pfn_end section_map, maps)
   }"

fun pfn_is_valid :: "mmap_entry list \<Rightarrow> nat \<Rightarrow> bool" where
  "pfn_is_valid [] pfn = False"
| "pfn_is_valid (entry # rest) pfn =
     (let ranges = meta_ranges_for_entry entry
      in if pfn < pfn_start ranges then False
         else if pfn < pfn_end ranges then True
         else pfn_is_valid rest pfn)"

definition pfn_to_phys :: "nat \<Rightarrow> nat" where
  "pfn_to_phys pfn = pfn * 4096 mod 2 ^ 64"

definition phys_to_pfn :: "nat \<Rightarrow> nat" where
  "phys_to_pfn pa = pa div 4096"

definition pfn_to_page :: "nat \<Rightarrow> nat \<Rightarrow> nat option" where
  "pfn_to_page g_pfn_end pfn = do {
     kassert (pfn < g_pfn_end);
     Some ((PAGES_START_VIRT + pfn * SIZEOF_PAGE) mod 2 ^ 64)
   }"

definition page_to_pfn :: "nat \<Rightarrow> nat \<Rightarrow> nat option" where
  "page_to_pfn g_pfn_end va = do {
     kassert (va \<ge> PAGES_START_VIRT);
     let pfn = (va - PAGES_START_VIRT) div SIZEOF_PAGE;
     kassert (pfn < g_pfn_end);
     Some pfn
   }"

definition pfn_to_direct_ptr :: "nat \<Rightarrow> nat \<Rightarrow> nat option" where
  "pfn_to_direct_ptr g_pfn_end pfn = do {
     kassert (pfn < g_pfn_end);
     Some ((DIRECT_MAP_START_VIRT + pfn * 4096) mod 2 ^ 64)
   }"

definition direct_ptr_to_pfn :: "nat \<Rightarrow> nat option" where
  "direct_ptr_to_pfn va = do {
     kassert (DIRECT_MAP_START_VIRT \<le> va \<and> va < DIRECT_MAP_END_VIRT);
     Some ((va - DIRECT_MAP_START_VIRT) div 4096)
   }"

definition phys_to_direct_ptr :: "nat \<Rightarrow> nat option" where
  "phys_to_direct_ptr pa = do {
     kassert (pa \<le> DIRECT_MAP_END_VIRT - DIRECT_MAP_START_VIRT);
     Some (DIRECT_MAP_START_VIRT + pa)
   }"

definition direct_ptr_to_phys :: "nat \<Rightarrow> nat option" where
  "direct_ptr_to_phys va = do {
     kassert (DIRECT_MAP_START_VIRT \<le> va \<and> va \<le> DIRECT_MAP_END_VIRT);
     Some (va - DIRECT_MAP_START_VIRT)
   }"

section \<open>Ranges\<close>

abbreviation entry_pfns :: "mmap_entry \<Rightarrow> nat set" where
  "entry_pfns e \<equiv> {pfn_start (meta_ranges_for_entry e)..<pfn_end (meta_ranges_for_entry e)}"

lemma meta_ranges_bounds:
  "pfn_end (meta_ranges_for_entry e) < 2 ^ 53 \<and> page_end (meta_ranges_for_entry e) * 4096 < 2 ^ 58 \<and>
   pfn_start (meta_ranges_for_entry e) \<le> pfn_end (meta_ranges_for_entry e) \<and>
   page_start (meta_ranges_for_entry e) \<le> page_end (meta_ranges_for_entry e)"
proof -
  have "unat (me_addr e) div 4096 < 2 ^ 52" "unat (me_len e) div 4096 < 2 ^ 52"
    using unat_u64_lt [of "me_addr e"] unat_u64_lt [of "me_len e"] by (simp_all add: less_mult_imp_div_less)
  then show ?thesis
    by (auto simp: meta_ranges_for_entry_def Let_def intro: div_le_mono)
qed

lemma entry_pfns_before:
  assumes "before a b"
  shows "pfn_end (meta_ranges_for_entry a) \<le> pfn_start (meta_ranges_for_entry b)"
proof -
  have "unat (me_addr a) div 4096 + unat (me_len a) div 4096 \<le> hi a div 4096"
    unfolding hi_def by (metis div_add1_eq le_add1)
  also have "\<dots> \<le> lo b div 4096"
    using assms by (rule div_le_mono)
  finally show ?thesis
    by (simp add: meta_ranges_for_entry_def Let_def lo_def)
qed

lemma pfn_is_valid_iff:
  assumes "sections_ok sec"
  shows "pfn_is_valid sec pfn \<longleftrightarrow> (\<exists>e \<in> set sec. pfn \<in> entry_pfns e)"
  using assms
proof (induction sec)
  case (Cons e es)
  then have "\<forall>y \<in> set es. pfn_end (meta_ranges_for_entry e) \<le> pfn_start (meta_ranges_for_entry y)"
    by (simp add: sections_ok_Cons entry_pfns_before)
  with Cons meta_ranges_bounds [of e] show ?case
    by (fastforce simp: Let_def sections_ok_Cons)
qed simp

lemma get_pfn_end_bound:
  assumes "sections_ok sec" and "e \<in> set sec"
  shows "pfn_end (meta_ranges_for_entry e) \<le> get_pfn_end sec"
  using assms
proof (cases sec rule: rev_cases)
  case (snoc xs l)
  show ?thesis
  proof (cases "e = l")
    case False
    with snoc assms have "before e l"
      by (auto simp: sections_ok_append)
    with snoc meta_ranges_bounds [of l] entry_pfns_before [of e l] show ?thesis
      by (simp add: get_pfn_end_def)
  qed (simp add: snoc get_pfn_end_def)
qed simp

lemma build_metadata_init_outside:
  assumes "\<forall>e \<in> set sec. pfn \<notin> entry_pfns e"
  shows "build_metadata_init sec pages pfn = pages pfn"
  using assms by (induction sec arbitrary: pages) (auto simp: Let_def initialize_pages_def)

lemma build_metadata_init_inside:
  assumes "sections_ok sec" and "e \<in> set sec" and "pfn \<in> entry_pfns e"
  shows "build_metadata_init sec pages pfn =
    \<lparr>flags = (if me_type e = MM_SEC_ENTRY_METADATA then PAGE_FLAG_METADATA else 0), refcount = 0, buddy_order = 0\<rparr>"
  using assms
proof (induction sec arbitrary: pages)
  case (Cons x xs)
  show ?case
  proof (cases "e = x")
    case True
    have "pfn \<notin> entry_pfns y" if "y \<in> set xs" for y
      using that Cons.prems True entry_pfns_before [of x y] by (auto simp: sections_ok_Cons)
    with True Cons.prems show ?thesis
      by (simp add: Let_def build_metadata_init_outside initialize_pages_def)
  next
    case False
    with Cons show ?thesis
      by (simp add: Let_def sections_ok_Cons)
  qed
qed simp

section \<open>Properties\<close>

text \<open>
  On a sorted section map the scan of \<^verbatim>\<open>pfn_is_valid\<close>, which stops at the first section above
  the frame, answers whether some section holds the frame, and no valid frame reaches
  \<^verbatim>\<open>g_pfn_end\<close>, so \<^verbatim>\<open>pfn_to_page\<close> never fails its assertion on a valid frame.
\<close>

theorem pfn_is_valid_correct:
  assumes "sections_ok sec"
  shows "(pfn_is_valid sec pfn \<longleftrightarrow> (\<exists>e \<in> set sec. pfn \<in> entry_pfns e)) \<and>
         (pfn_is_valid sec pfn \<longrightarrow> pfn_to_page (get_pfn_end sec) pfn \<noteq> None)"
proof -
  have "pfn < get_pfn_end sec" if "pfn_is_valid sec pfn"
    using that get_pfn_end_bound [OF assms] by (fastforce simp: pfn_is_valid_iff [OF assms])
  then show ?thesis
    by (auto simp: pfn_is_valid_iff [OF assms] pfn_to_page_def)
qed

theorem pfn_is_valid_correct_witness:
  "pfn_is_valid [\<lparr>me_addr = 0x2000, me_len = 0x3000, me_type = MM_SEC_ENTRY_USABLE\<rparr>] 4 \<and>
   \<not> pfn_is_valid [\<lparr>me_addr = 0x2000, me_len = 0x3000, me_type = MM_SEC_ENTRY_USABLE\<rparr>] 5"
  using pfn_is_valid_correct [of "[\<lparr>me_addr = 0x2000, me_len = 0x3000, me_type = MM_SEC_ENTRY_USABLE\<rparr>]"]
  by (simp add: sections_ok_def wf_entry_def hi_def meta_ranges_for_entry_def)

text \<open>
  Initialising the page array writes the page structure of every frame of the section map, with
  the metadata flag exactly on the frames of metadata sections, and no other page structure.
\<close>

theorem build_metadata_init_correct:
  assumes "sections_ok sec"
  shows "build_metadata_init sec pages pfn =
    (if \<exists>e \<in> set sec. pfn \<in> entry_pfns e
     then \<lparr>flags = (if \<exists>e \<in> set sec. pfn \<in> entry_pfns e \<and> me_type e = MM_SEC_ENTRY_METADATA
                    then PAGE_FLAG_METADATA else 0), refcount = 0, buddy_order = 0\<rparr>
     else pages pfn)"
proof (cases "\<exists>e \<in> set sec. pfn \<in> entry_pfns e")
  case True
  then obtain e where e: "e \<in> set sec" "pfn \<in> entry_pfns e" by blast
  have "me_type x = MM_SEC_ENTRY_METADATA \<longleftrightarrow> me_type e = MM_SEC_ENTRY_METADATA"
    if "x \<in> set sec" "pfn \<in> entry_pfns x" for x
    using build_metadata_init_inside [OF assms e] build_metadata_init_inside [OF assms that]
    by (auto split: if_splits)
  then have "(\<exists>x \<in> set sec. pfn \<in> entry_pfns x \<and> me_type x = MM_SEC_ENTRY_METADATA) \<longleftrightarrow>
      me_type e = MM_SEC_ENTRY_METADATA"
    using e by blast
  with True show ?thesis
    unfolding build_metadata_init_inside [OF assms e] by simp
qed (use build_metadata_init_outside in auto)

theorem build_metadata_init_correct_witness:
  "flags (build_metadata_init [\<lparr>me_addr = 0x2000, me_len = 0x3000, me_type = MM_SEC_ENTRY_METADATA\<rparr>]
    (\<lambda>_. \<lparr>flags = 0, refcount = 0, buddy_order = 0\<rparr>) 3) = 1"
  using build_metadata_init_correct [of "[\<lparr>me_addr = 0x2000, me_len = 0x3000, me_type = MM_SEC_ENTRY_METADATA\<rparr>]"
    "\<lambda>_. \<lparr>flags = 0, refcount = 0, buddy_order = 0\<rparr>" 3]
  by (simp add: sections_ok_def wf_entry_def hi_def meta_ranges_for_entry_def)

text \<open>
  The conversions are inverse to each other: a frame number survives the trip through its page
  structure and through its direct-map pointer as long as the frame lies in the part of the
  address space reserved for the page array and the direct map (about 4.5 and 16 billion
  frames), and a physical address survives the trip through its direct-map pointer.
\<close>

theorem pfn_conversions:
  assumes "pfn < g_pfn_end" and "PAGES_START_VIRT + g_pfn_end * SIZEOF_PAGE \<le> PAGES_END_VIRT"
    and "pa \<le> DIRECT_MAP_END_VIRT - DIRECT_MAP_START_VIRT"
  shows "pfn_to_page g_pfn_end pfn \<bind> page_to_pfn g_pfn_end = Some pfn \<and>
         phys_to_pfn (pfn_to_phys pfn) = pfn \<and>
         (pfn * 4096 < DIRECT_MAP_END_VIRT - DIRECT_MAP_START_VIRT \<longrightarrow>
            pfn_to_direct_ptr g_pfn_end pfn \<bind> direct_ptr_to_pfn = Some pfn) \<and>
         phys_to_direct_ptr pa \<bind> direct_ptr_to_phys = Some pa"
proof -
  have small: "pfn * 4096 < 2 ^ 64" "PAGES_START_VIRT + pfn * SIZEOF_PAGE < 2 ^ 64"
    using assms(1,2) by simp_all
  have "pfn_to_page g_pfn_end pfn \<bind> page_to_pfn g_pfn_end = Some pfn"
    unfolding pfn_to_page_def page_to_pfn_def mod_less [OF small(2)] using assms(1) by simp
  moreover have "phys_to_pfn (pfn_to_phys pfn) = pfn"
    unfolding pfn_to_phys_def phys_to_pfn_def mod_less [OF small(1)] by simp
  moreover have "pfn_to_direct_ptr g_pfn_end pfn \<bind> direct_ptr_to_pfn = Some pfn"
    if "pfn * 4096 < DIRECT_MAP_END_VIRT - DIRECT_MAP_START_VIRT"
  proof -
    have "DIRECT_MAP_START_VIRT + pfn * 4096 < 2 ^ 64" using that by simp
    then show ?thesis
      unfolding pfn_to_direct_ptr_def direct_ptr_to_pfn_def using assms(1) that by (simp add: mod_less)
  qed
  moreover have "phys_to_direct_ptr pa \<bind> direct_ptr_to_phys = Some pa"
    unfolding phys_to_direct_ptr_def direct_ptr_to_phys_def using assms(3) by simp
  ultimately show ?thesis by blast
qed

theorem pfn_conversions_witness:
  "pfn_to_page 100 7 \<bind> page_to_pfn 100 = Some 7 \<and> phys_to_direct_ptr 0x1234 \<bind> direct_ptr_to_phys = Some 0x1234"
  using pfn_conversions [of 7 100 "0x1234"] by simp

end
