(* ===== verification/Mm_Buddy.thy ===== *)
theory Mm_Buddy
  imports Mm_Pfn
begin

text \<open>
  \<open>kernel/src/mm/buddy.c\<close>: the buddy page allocator, with one intrusive free list per order whose
  links are the \<^verbatim>\<open>buddy_link\<close> fields of the page structures. Frame numbers, orders and page counts
  are naturals: a frame number is below \<open>2 ^ 53\<close> (\<open>meta_ranges_bounds\<close>), an order is below 52
  and the counters add up the pages of at most \<^verbatim>\<open>MAX_MMAP_ENTRIES\<close> sections, so none of the C
  additions wraps; the one subtraction is guarded by a \<^verbatim>\<open>kassert\<close>.

  \<open>buddy_inv\<close> relates the C state (links, page flags, counters) to the abstract state, the free
  blocks of every order. The lemmas show that creation establishes it and that allocation and
  release preserve it and have the effect they promise on the set of free frames.
\<close>

section \<open>Model\<close>

text \<open>Addresses of links: the list heads inside \<^verbatim>\<open>struct buddy\<close> and the links inside the pages.\<close>

datatype buddy_addr = FreeList nat | PageLink nat

abbreviation BUDDY_MAX_ORDERS :: nat where "BUDDY_MAX_ORDERS \<equiv> 52"

record buddy =
  links :: "buddy_addr heap"
  pages :: "nat \<Rightarrow> page"
  max_order :: nat
  free_pages :: nat
  reserved_pages :: nat
  total_pages :: nat

text \<open>The global section map and \<^verbatim>\<open>g_pfn_end\<close>, which do not change once the allocator runs.\<close>

record pfn_globals =
  section_map :: "mmap_entry list"
  g_pfn_end :: nat

definition order_pages :: "nat \<Rightarrow> nat option" where
  "order_pages order = do { kassert (order < BUDDY_MAX_ORDERS); Some (2 ^ order) }"

definition list_is_empty :: "buddy \<Rightarrow> nat \<Rightarrow> bool" where
  "list_is_empty b order = linkedlist_is_empty (links b) (FreeList order)"

definition page_at :: "pfn_globals \<Rightarrow> buddy \<Rightarrow> nat \<Rightarrow> page option" where
  "page_at g b pfn = do { _ \<leftarrow> pfn_to_page (g_pfn_end g) pfn; Some (pages b pfn) }"

definition page_is_usable :: "pfn_globals \<Rightarrow> buddy \<Rightarrow> nat \<Rightarrow> bool option" where
  "page_is_usable g b pfn =
     (if \<not> pfn_is_valid (section_map g) pfn then Some False
      else do { page \<leftarrow> page_at g b pfn; Some (flags page AND PAGE_FLAG_METADATA = 0) })"

definition page_free_state :: "bool \<Rightarrow> page \<Rightarrow> page" where
  "page_free_state is_free page =
     (let page = (if is_free then page\<lparr>flags := flags page OR PAGE_FLAG_BUDDY_FREE\<rparr>
                  else page\<lparr>flags := flags page AND NOT PAGE_FLAG_BUDDY_FREE\<rparr>)
      in page\<lparr>flags := flags page AND NOT PAGE_FLAG_BUDDY_HEAD\<rparr>)"

definition set_block_free_state :: "pfn_globals \<Rightarrow> buddy \<Rightarrow> nat \<Rightarrow> nat \<Rightarrow> bool \<Rightarrow> buddy option" where
  "set_block_free_state g b pfn order is_free = do {
     n \<leftarrow> order_pages order;
     for_up 0 n (\<lambda>i b. do {
       page \<leftarrow> page_at g b (pfn + i);
       Some (b\<lparr>pages := (pages b)(pfn + i := page_free_state is_free page)\<rparr>)
     }) b
   }"

definition list_push :: "pfn_globals \<Rightarrow> buddy \<Rightarrow> nat \<Rightarrow> nat \<Rightarrow> buddy option" where
  "list_push g b order pfn = do {
     _ \<leftarrow> page_at g b pfn;
     b \<leftarrow> set_block_free_state g b pfn order True;
     let page = pages b pfn;
     let page = page\<lparr>flags := flags page OR (PAGE_FLAG_BUDDY_FREE OR PAGE_FLAG_BUDDY_HEAD)\<rparr>;
     let page = page\<lparr>buddy_order := order\<rparr>;
     h \<leftarrow> linkedlist_push_front (links b) (FreeList order) (PageLink pfn);
     Some (b\<lparr>pages := (pages b)(pfn := page), links := h\<rparr>)
   }"

text \<open>
  The end of \<^verbatim>\<open>list_pop\<close> and of \<^verbatim>\<open>list_remove\<close>: the block is marked allocated and the link and the
  order of its head page are cleared.
\<close>

definition clear_block :: "pfn_globals \<Rightarrow> buddy \<Rightarrow> nat \<Rightarrow> nat \<Rightarrow> buddy option" where
  "clear_block g b order head = do {
     b \<leftarrow> set_block_free_state g b head order False;
     let b = b\<lparr>links := (links b)(PageLink head := \<lparr>prev = None, next = None\<rparr>)\<rparr>;
     let page = pages b head;
     let page = page\<lparr>flags := flags page AND NOT PAGE_FLAG_BUDDY_HEAD\<rparr>;
     let page = page\<lparr>buddy_order := 0\<rparr>;
     Some (b\<lparr>pages := (pages b)(head := page)\<rparr>)
   }"

definition list_pop :: "pfn_globals \<Rightarrow> buddy \<Rightarrow> nat \<Rightarrow> (nat \<times> buddy) option" where
  "list_pop g b order = do {
     (head_link, h) \<leftarrow> linkedlist_pop_front (links b) (FreeList order);
     case head_link of
       Some (PageLink head) \<Rightarrow> do {
         kassert (head < g_pfn_end g);
         b \<leftarrow> clear_block g (b\<lparr>links := h\<rparr>) order head;
         Some (head, b)
       }
     | _ \<Rightarrow> None
   }"

definition is_free_head_of_order :: "pfn_globals \<Rightarrow> buddy \<Rightarrow> nat \<Rightarrow> nat \<Rightarrow> bool option" where
  "is_free_head_of_order g b pfn order =
     (if \<not> pfn_is_valid (section_map g) pfn then Some False
      else do {
        page \<leftarrow> page_at g b pfn;
        Some (flags page AND PAGE_FLAG_BUDDY_FREE \<noteq> 0 \<and> flags page AND PAGE_FLAG_BUDDY_HEAD \<noteq> 0 \<and>
              buddy_order page = order)
      })"

definition list_remove :: "pfn_globals \<Rightarrow> buddy \<Rightarrow> nat \<Rightarrow> nat \<Rightarrow> buddy option" where
  "list_remove g b order pfn = do {
     is_head \<leftarrow> is_free_head_of_order g b pfn order;
     kassert is_head;
     _ \<leftarrow> page_at g b pfn;
     h \<leftarrow> linkedlist_remove (links b) (PageLink pfn);
     clear_block g (b\<lparr>links := h\<rparr>) order pfn
   }"

text \<open>None of these changes the counters or the largest order.\<close>

definition same_counters :: "buddy \<Rightarrow> buddy \<Rightarrow> bool" where
  "same_counters b b' \<longleftrightarrow> max_order b' = max_order b \<and> free_pages b' = free_pages b \<and>
     reserved_pages b' = reserved_pages b \<and> total_pages b' = total_pages b"

text \<open>The effect of marking a block, in one equation.\<close>

definition mark_block :: "nat \<Rightarrow> nat \<Rightarrow> bool \<Rightarrow> (nat \<Rightarrow> page) \<Rightarrow> (nat \<Rightarrow> page)" where
  "mark_block i n is_free ps = (\<lambda>q. if i \<le> q \<and> q < n then page_free_state is_free (ps q) else ps q)"

lemma mark_block_empty [simp]: "mark_block i i is_free ps = ps"
  by (auto simp add: mark_block_def fun_eq_iff)

lemma buddy_pages_self [simp]: "b\<lparr>pages := pages b\<rparr> = b"
  by simp

lemma mark_loop:
  assumes "i \<le> n"
  shows "for_up i n (\<lambda>i b. do {
       page \<leftarrow> page_at g b (pfn + i);
       Some (b\<lparr>pages := (pages b)(pfn + i := page_free_state is_free page)\<rparr>)
     }) b = (if i = n \<or> pfn + n \<le> g_pfn_end g
       then Some (b\<lparr>pages := mark_block (pfn + i) (pfn + n) is_free (pages b)\<rparr>) else None)"
  using assms
proof (induction "n - i" arbitrary: i b)
  case 0
  then show ?case by simp
next
  case (Suc d)
  then have lt: "i < n" and d: "d = n - Suc i" by auto
  let ?b = "b\<lparr>pages := (pages b)(pfn + i := page_free_state is_free (pages b (pfn + i)))\<rparr>"
  have mk: "mark_block (pfn + Suc i) (pfn + n) is_free (pages ?b) = mark_block (pfn + i) (pfn + n) is_free (pages b)"
    using lt by (auto simp: mark_block_def fun_eq_iff)
  show ?case
  proof (cases "pfn + i < g_pfn_end g")
    case True
    then show ?thesis
      using Suc.hyps(1) [OF d, of ?b] lt mk
      by (cases "Suc i = n") (simp_all add: for_up_step page_at_def pfn_to_page_def)
  next
    case False
    with lt show ?thesis
      by (simp add: for_up_step page_at_def pfn_to_page_def)
  qed
qed

lemma set_block_free_state_eq:
  "set_block_free_state g b pfn order is_free =
     (if order < BUDDY_MAX_ORDERS \<and> pfn + 2 ^ order \<le> g_pfn_end g
      then Some (b\<lparr>pages := mark_block pfn (pfn + 2 ^ order) is_free (pages b)\<rparr>) else None)"
  using mark_loop [of 0 "2 ^ order" g pfn is_free b]
  by (simp add: set_block_free_state_def order_pages_def kassert_def)

lemma clear_block_same: "clear_block g b order pfn = Some b' \<Longrightarrow> same_counters b b'"
  by (auto simp: clear_block_def Option.bind_eq_Some_conv same_counters_def Let_def
      set_block_free_state_eq split: if_splits)

lemma list_remove_same: "list_remove g b order pfn = Some b' \<Longrightarrow> max_order b' = max_order b"
  by (auto simp: list_remove_def Option.bind_eq_Some_conv same_counters_def dest!: clear_block_same)

text \<open>The inner loop of \<^verbatim>\<open>add_range\<close>: the largest order the block at \<^verbatim>\<open>pfn\<close> can have.\<close>

function range_order :: "nat \<Rightarrow> nat \<Rightarrow> nat \<Rightarrow> nat \<Rightarrow> nat option" where
  "range_order mo pfn remaining order =
     (if order + 1 \<le> mo then do {
        block \<leftarrow> order_pages (order + 1);
        if pfn AND (block - 1) \<noteq> 0 \<or> block > remaining then Some order
        else range_order mo pfn remaining (order + 1)
      } else Some order)"
  by pat_completeness auto
termination
  by (relation "measure (\<lambda>(mo, pfn, remaining, order). mo - order)") auto

function add_range :: "pfn_globals \<Rightarrow> buddy \<Rightarrow> nat \<Rightarrow> nat \<Rightarrow> buddy option" where
  "add_range g b pfn endx =
     (if pfn < endx then do {
        order \<leftarrow> range_order (max_order b) pfn (endx - pfn) 0;
        b \<leftarrow> list_push g b order pfn;
        n \<leftarrow> order_pages order;
        add_range g (b\<lparr>free_pages := free_pages b + n\<rparr>) (pfn + n) endx
      } else Some b)"
  by pat_completeness auto
termination
  by (relation "measure (\<lambda>(g, b, pfn, endx). endx - pfn)")
    (auto simp: order_pages_def Option.bind_eq_Some_conv intro!: diff_less_mono2)

declare range_order.simps [simp del] add_range.simps [simp del]

fun prepare_from_mmap :: "pfn_globals \<Rightarrow> buddy \<Rightarrow> mmap_entry list \<Rightarrow> buddy option" where
  "prepare_from_mmap g b [] = Some b"
| "prepare_from_mmap g b (entry # rest) = do {
     let start = unat (me_addr entry) div 4096;
     let endx = start + unat (me_len entry) div 4096;
     b \<leftarrow> (if me_type entry = MM_SEC_ENTRY_USABLE then add_range g b start endx
           else if me_type entry = MM_SEC_ENTRY_RESERVED
           then Some (b\<lparr>reserved_pages := reserved_pages b + (endx - start)\<rparr>)
           else Some b);
     prepare_from_mmap g b rest
   }"

function create_max_order :: "nat \<Rightarrow> nat \<Rightarrow> nat option" where
  "create_max_order pfn_endx mo =
     (if mo + 1 < BUDDY_MAX_ORDERS then do {
        n \<leftarrow> order_pages (mo + 1);
        if n \<le> pfn_endx then create_max_order pfn_endx (mo + 1) else Some mo
      } else Some mo)"
  by pat_completeness auto
termination
  by (relation "measure (\<lambda>(pfn_endx, mo). BUDDY_MAX_ORDERS - mo)") auto

declare create_max_order.simps [simp del]

definition buddy_create :: "pfn_globals \<Rightarrow> buddy \<Rightarrow> mmap_entry list \<Rightarrow> buddy option" where
  "buddy_create g b mmap = do {
     h \<leftarrow> for_up 0 BUDDY_MAX_ORDERS (\<lambda>i h. Some (linkedlist_init h (FreeList i))) (links b);
     let b = b\<lparr>links := h, free_pages := 0, reserved_pages := 0\<rparr>;
     mo \<leftarrow> create_max_order (g_pfn_end g) 0;
     b \<leftarrow> prepare_from_mmap g (b\<lparr>max_order := mo\<rparr>) mmap;
     Some (b\<lparr>total_pages := free_pages b + reserved_pages b\<rparr>)
   }"

function find_order :: "buddy \<Rightarrow> nat \<Rightarrow> nat" where
  "find_order b cur = (if cur \<le> max_order b \<and> list_is_empty b cur then find_order b (cur + 1) else cur)"
  by pat_completeness auto
termination
  by (relation "measure (\<lambda>(b, cur). Suc (max_order b) - cur)") auto

function split_block :: "pfn_globals \<Rightarrow> buddy \<Rightarrow> nat \<Rightarrow> nat \<Rightarrow> nat \<Rightarrow> buddy option" where
  "split_block g b order cur pfn =
     (if cur > order then do {
        let cur = cur - 1;
        n \<leftarrow> order_pages cur;
        let buddy_pfn = pfn + n;
        b \<leftarrow> list_push g b cur buddy_pfn;
        split_block g b order cur pfn
      } else Some b)"
  by pat_completeness auto
termination
  by (relation "measure (\<lambda>(g, b, order, cur, pfn). cur)") auto

declare find_order.simps [simp del] split_block.simps [simp del]

text \<open>The returned frame is \<^term>\<open>None\<close> for \<^verbatim>\<open>PFN_INVALID\<close>.\<close>

definition buddy_alloc :: "pfn_globals \<Rightarrow> buddy \<Rightarrow> nat \<Rightarrow> (nat option \<times> buddy) option" where
  "buddy_alloc g b order =
     (if order > max_order b then Some (None, b)
      else let cur = find_order b order
      in if cur > max_order b then Some (None, b)
      else do {
        (pfn, b) \<leftarrow> list_pop g b cur;
        b \<leftarrow> split_block g b order cur pfn;
        n \<leftarrow> order_pages order;
        kassert (free_pages b \<ge> n);
        Some (Some pfn, b\<lparr>free_pages := free_pages b - n\<rparr>)
      })"

text \<open>The loop of \<^verbatim>\<open>buddy_free\<close>: merge with the buddy block while it is free.\<close>

function coalesce :: "pfn_globals \<Rightarrow> buddy \<Rightarrow> nat \<Rightarrow> nat \<Rightarrow> (nat \<times> nat \<times> buddy) option" where
  "coalesce g b pfn order =
     (if order < max_order b then do {
        n \<leftarrow> order_pages order;
        let buddy_pfn = pfn XOR n;
        is_head \<leftarrow> (if buddy_pfn \<ge> g_pfn_end g then Some False else is_free_head_of_order g b buddy_pfn order);
        if \<not> is_head then Some (pfn, order, b)
        else do {
          b \<leftarrow> list_remove g b order buddy_pfn;
          let pfn = (if buddy_pfn < pfn then buddy_pfn else pfn);
          coalesce g b pfn (order + 1)
        }
      } else Some (pfn, order, b))"
  by pat_completeness auto
termination
  by (relation "measure (\<lambda>(g, b, pfn, order). max_order b - order)") (auto dest: list_remove_same)

declare coalesce.simps [simp del]

definition buddy_free :: "pfn_globals \<Rightarrow> buddy \<Rightarrow> nat \<Rightarrow> nat \<Rightarrow> buddy option" where
  "buddy_free g b pfn order = do {
     kassert (order \<le> max_order b);
     usable \<leftarrow> page_is_usable g b pfn;
     kassert usable;
     n \<leftarrow> order_pages order;
     kassert (pfn AND (n - 1) = 0);
     page \<leftarrow> page_at g b pfn;
     kassert (flags page AND PAGE_FLAG_BUDDY_FREE = 0);
     let req_order = order;
     (pfn, order, b) \<leftarrow> coalesce g b pfn order;
     b \<leftarrow> list_push g b order pfn;
     n \<leftarrow> order_pages req_order;
     Some (b\<lparr>free_pages := free_pages b + n\<rparr>)
   }"

definition buddy_get_free_pages :: "buddy \<Rightarrow> nat" where
  "buddy_get_free_pages b = free_pages b"

definition buddy_get_total_pages :: "buddy \<Rightarrow> nat" where
  "buddy_get_total_pages b = total_pages b"

definition buddy_get_reserved_pages :: "buddy \<Rightarrow> nat" where
  "buddy_get_reserved_pages b = reserved_pages b"

definition buddy_get_max_order :: "buddy \<Rightarrow> nat" where
  "buddy_get_max_order b = max_order b"

section \<open>Abstraction: the free blocks\<close>

definition blk :: "nat \<Rightarrow> nat \<Rightarrow> nat set" where
  "blk k p = {p..<p + 2 ^ k}"

definition blocks :: "(nat \<Rightarrow> nat list) \<Rightarrow> (nat \<times> nat) set" where
  "blocks F = {(k, p). p \<in> set (F k)}"

definition free_set :: "(nat \<Rightarrow> nat list) \<Rightarrow> nat set" where
  "free_set F = (\<Union>(k, p) \<in> blocks F. blk k p)"

definition blocks_ok :: "nat \<Rightarrow> nat \<Rightarrow> (nat \<Rightarrow> nat list) \<Rightarrow> bool" where
  "blocks_ok e mo F \<longleftrightarrow>
     (\<forall>k. distinct (F k)) \<and> (\<forall>(k, p) \<in> blocks F. k \<le> mo \<and> 2 ^ k dvd p \<and> p + 2 ^ k \<le> e) \<and>
     (\<forall>(k, p) \<in> blocks F. \<forall>(j, q) \<in> blocks F. (k, p) \<noteq> (j, q) \<longrightarrow> blk k p \<inter> blk j q = {})"

text \<open>The frames the allocator manages: valid and not used for metadata.\<close>

definition usable :: "pfn_globals \<Rightarrow> buddy \<Rightarrow> nat set" where
  "usable g b = {q. pfn_is_valid (section_map g) q \<and> \<not> bit (flags (pages b q)) 0}"

definition page_ok :: "(nat \<Rightarrow> nat list) \<Rightarrow> nat \<Rightarrow> page \<Rightarrow> bool" where
  "page_ok F q pg \<longleftrightarrow> (bit (flags pg) 1 \<longleftrightarrow> q \<in> free_set F) \<and>
     (\<forall>k. q \<in> set (F k) \<longleftrightarrow> bit (flags pg) 1 \<and> bit (flags pg) 2 \<and> buddy_order pg = k)"

definition lists_ok :: "pfn_globals \<Rightarrow> buddy \<Rightarrow> (nat \<Rightarrow> nat list) \<Rightarrow> bool" where
  "lists_ok g b F \<longleftrightarrow>
     (\<forall>q. pfn_is_valid (section_map g) q \<longrightarrow> q < g_pfn_end g) \<and> max_order b < BUDDY_MAX_ORDERS \<and>
     ll.family {..<BUDDY_MAX_ORDERS} FreeList (links b) (\<lambda>k. map PageLink (F k)) \<and>
     blocks_ok (g_pfn_end g) (max_order b) F \<and> free_set F \<subseteq> usable g b \<and>
     (\<forall>q. pfn_is_valid (section_map g) q \<longrightarrow> page_ok F q (pages b q))"

lemma flag_bits:
  fixes w :: u16
  shows "w AND 1 = 0 \<longleftrightarrow> \<not> bit w 0" "w AND 2 = 0 \<longleftrightarrow> \<not> bit w 1" "w AND 4 = 0 \<longleftrightarrow> \<not> bit w 2"
  using and_exp_eq_0_iff_not_bit [of w 0] and_exp_eq_0_iff_not_bit [of w 1] and_exp_eq_0_iff_not_bit [of w 2]
  by simp_all

lemma bit_flag_consts [simp]:
  "bit (2 :: u16) n \<longleftrightarrow> n = 1" "bit (4 :: u16) n \<longleftrightarrow> n = 2"
  using bit_exp_iff [of 1 n, where 'a = u16] bit_exp_iff [of 2 n, where 'a = u16]
  by (auto simp: possible_bit_def)

lemma page_free_state_bits [simp]:
  "bit (flags (page_free_state f pg)) (Suc 0) = f" "\<not> bit (flags (page_free_state f pg)) 2"
  "bit (flags (page_free_state f pg)) 0 = bit (flags pg) 0" "buddy_order (page_free_state f pg) = buddy_order pg"
  by (auto simp: page_free_state_def Let_def bit_simps)

lemma in_blk: "q \<in> blk k p \<longleftrightarrow> p \<le> q \<and> q < p + 2 ^ k"
  by (simp add: blk_def)

lemma blk_self [simp]: "p \<in> blk k p"
  by (simp add: blk_def)

lemma blk_mono:
  assumes "k \<le> j"
  shows "blk k p \<subseteq> blk j p"
proof -
  have "(2::nat) ^ k \<le> 2 ^ j" using assms by (rule power_increasing) simp
  then show ?thesis by (meson add_le_mono order_refl in_blk order.strict_trans2 subsetI)
qed

lemma card_blk [simp]: "card (blk k p) = 2 ^ k" and finite_blk [simp]: "finite (blk k p)"
  by (simp_all add: blk_def)

lemma in_blocks: "(k, p) \<in> blocks F \<longleftrightarrow> p \<in> set (F k)"
  by (simp add: blocks_def)

lemma blocks_push: "blocks (F(k := p # F k)) = insert (k, p) (blocks F)"
  by (auto simp: blocks_def split: if_splits)

lemma blocks_remove:
  "distinct (F k) \<Longrightarrow> p \<in> set (F k) \<Longrightarrow> blocks (F(k := remove1 p (F k))) = blocks F - {(k, p)}"
  by (auto simp: blocks_def split: if_splits)

lemma free_set_push: "free_set (F(k := p # F k)) = free_set F \<union> blk k p"
  by (auto simp: free_set_def blocks_push)

lemma blk_subset_free: "p \<in> set (F k) \<Longrightarrow> blk k p \<subseteq> free_set F"
  by (force simp: free_set_def in_blocks)

lemma blocks_okD:
  assumes "blocks_ok e mo F" and "p \<in> set (F k)"
  shows "k \<le> mo" "2 ^ k dvd p" "p + 2 ^ k \<le> e" "distinct (F k)"
proof -
  have "(k, p) \<in> blocks F" using assms(2) by (simp add: in_blocks)
  with assms(1) show "k \<le> mo" "2 ^ k dvd p" "p + 2 ^ k \<le> e" "distinct (F k)"
    unfolding blocks_ok_def by blast+
qed

lemma blocks_disjoint:
  assumes "blocks_ok e mo F" and "p \<in> set (F k)" "q \<in> set (F j)" "(k, p) \<noteq> (j, q)"
  shows "blk k p \<inter> blk j q = {}"
proof -
  have "(k, p) \<in> blocks F" "(j, q) \<in> blocks F" using assms(2,3) by (simp_all add: in_blocks)
  with assms(1,4) show ?thesis
    unfolding blocks_ok_def by blast
qed

lemma blocks_ok_push:
  assumes "blocks_ok e mo F" and "k \<le> mo" "2 ^ k dvd p" "p + 2 ^ k \<le> e" and "blk k p \<inter> free_set F = {}"
  shows "blocks_ok e mo (F(k := p # F k))"
proof -
  have dis: "blk k p \<inter> blk j q = {}" "blk j q \<inter> blk k p = {}" if "(j, q) \<in> blocks F" for j q
    using assms(5) blk_subset_free [of q F j] that unfolding in_blocks by blast+
  have "p \<notin> set (F k)"
    using dis(1) [of k p] blk_self [of p k] unfolding in_blocks by blast
  with assms(1) have "\<forall>j. distinct ((F(k := p # F k)) j)"
    by (simp add: blocks_ok_def)
  moreover have "\<forall>(i, q) \<in> insert (k, p) (blocks F). i \<le> mo \<and> 2 ^ i dvd q \<and> q + 2 ^ i \<le> e"
    using assms(1-4) by (simp add: blocks_ok_def)
  moreover have "\<forall>(i, q) \<in> insert (k, p) (blocks F). \<forall>(j, r) \<in> insert (k, p) (blocks F).
      (i, q) \<noteq> (j, r) \<longrightarrow> blk i q \<inter> blk j r = {}"
  proof (intro ballI case_prodI2 impI)
    fix x i q y j r
    assume "x \<in> insert (k, p) (blocks F)" "x = (i, q)" "y \<in> insert (k, p) (blocks F)" "y = (j, r)" "(i, q) \<noteq> (j, r)"
    then show "blk i q \<inter> blk j r = {}"
      using dis blocks_disjoint [OF assms(1)] by (metis in_blocks insert_iff prod.inject)
  qed
  ultimately show ?thesis
    unfolding blocks_ok_def blocks_push by blast
qed

lemma blocks_ok_remove:
  assumes "blocks_ok e mo F" and "p \<in> set (F k)"
  shows "blocks_ok e mo (F(k := remove1 p (F k)))"
proof -
  have "\<forall>j. distinct ((F(k := remove1 p (F k))) j)"
    using assms by (simp add: blocks_ok_def)
  then show ?thesis
    using assms(1) unfolding blocks_ok_def blocks_remove [of F, OF blocks_okD(4) [OF assms] assms(2)] by blast
qed

lemma free_set_remove:
  assumes "blocks_ok e mo F" and "p \<in> set (F k)"
  shows "free_set (F(k := remove1 p (F k))) = free_set F - blk k p"
proof -
  have "blk j q \<inter> blk k p = {}" if "(j, q) \<in> blocks F - {(k, p)}" for j q
    using blocks_disjoint [OF assms(1) _ assms(2)] that by (auto simp: in_blocks)
  moreover have "blocks F = insert (k, p) (blocks F - {(k, p)})"
    using assms(2) by (auto simp: in_blocks)
  ultimately show ?thesis
    unfolding free_set_def blocks_remove [of F, OF blocks_okD(4) [OF assms] assms(2)] by blast
qed

lemma set_subset_free: "q \<in> set (F k) \<Longrightarrow> q \<in> free_set F"
  using blk_subset_free [of q F k] by auto

section \<open>The list operations\<close>

lemma lists_okD:
  assumes "lists_ok g b F"
  shows "pfn_is_valid (section_map g) q \<Longrightarrow> q < g_pfn_end g" "max_order b < BUDDY_MAX_ORDERS"
    "ll.family {..<BUDDY_MAX_ORDERS} FreeList (links b) (\<lambda>k. map PageLink (F k))"
    "blocks_ok (g_pfn_end g) (max_order b) F" "free_set F \<subseteq> usable g b"
    "pfn_is_valid (section_map g) q \<Longrightarrow> page_ok F q (pages b q)"
  using assms by (auto simp: lists_ok_def)

lemma usable_valid: "q \<in> usable g b \<Longrightarrow> pfn_is_valid (section_map g) q"
  by (simp add: usable_def)

lemma block_in_range:
  assumes "lists_ok g b F" and "blk k p \<subseteq> usable g b"
  shows "p + 2 ^ k \<le> g_pfn_end g" and "p < g_pfn_end g"
proof -
  have "0 < (2::nat) ^ k" by simp
  then have "p + 2 ^ k - 1 \<in> blk k p" unfolding in_blk by linarith
  then have "p + 2 ^ k - 1 < g_pfn_end g"
    using assms lists_okD(1) usable_valid by blast
  then show "p + 2 ^ k \<le> g_pfn_end g" by simp
  then show "p < g_pfn_end g" using zero_less_power [of "2::nat" k] by linarith
qed

text \<open>The page structures after a block was pushed on or taken off a list.\<close>

definition pushed_pages :: "nat \<Rightarrow> nat \<Rightarrow> (nat \<Rightarrow> page) \<Rightarrow> (nat \<Rightarrow> page)" where
  "pushed_pages k p ps = (\<lambda>q. if q = p
     then (page_free_state True (ps p))\<lparr>flags := flags (page_free_state True (ps p)) OR (2 OR 4), buddy_order := k\<rparr>
     else if q \<in> blk k p then page_free_state True (ps q) else ps q)"

definition cleared_pages :: "nat \<Rightarrow> nat \<Rightarrow> (nat \<Rightarrow> page) \<Rightarrow> (nat \<Rightarrow> page)" where
  "cleared_pages k p ps = (\<lambda>q. if q = p
     then (page_free_state False (ps p))\<lparr>flags := flags (page_free_state False (ps p)) AND NOT 4, buddy_order := 0\<rparr>
     else if q \<in> blk k p then page_free_state False (ps q) else ps q)"

lemma marked_metadata [simp]:
  "bit (flags (pushed_pages k p ps q)) 0 = bit (flags (ps q)) 0"
  "bit (flags (cleared_pages k p ps q)) 0 = bit (flags (ps q)) 0"
  by (auto simp: pushed_pages_def cleared_pages_def bit_simps)

lemma page_ok_push:
  assumes "page_ok F q (ps q)" and "blk k p \<inter> free_set F = {}"
  shows "page_ok (F(k := p # F k)) q (pushed_pages k p ps q)"
proof -
  have "q \<notin> free_set F \<and> q \<notin> set (F j)" if "q \<in> blk k p" for j
    using that assms(2) set_subset_free [of q F j] by blast
  with assms(1) show ?thesis
    unfolding page_ok_def free_set_push by (auto simp: pushed_pages_def bit_simps)
qed

lemma page_ok_clear:
  assumes "page_ok F q (ps q)" and "blocks_ok e mo F" and "p \<in> set (F k)"
  shows "page_ok (F(k := remove1 p (F k))) q (cleared_pages k p ps q)"
proof -
  have "q \<notin> set (F j)" if "q \<in> blk k p" "(j, q) \<noteq> (k, p)" for j
    using that blocks_disjoint [OF assms(2) _ assms(3), of q j] blk_self [of q j] by blast
  moreover have "distinct (F k)" by (rule blocks_okD(4) [OF assms(2,3)])
  ultimately show ?thesis
    using assms(1,3) unfolding page_ok_def free_set_remove [OF assms(2,3)]
    by (auto simp: cleared_pages_def bit_simps)
qed

lemma links_fun_upd: "(\<lambda>k. map PageLink (F k))(j := map PageLink xs) = (\<lambda>k. map PageLink ((F(j := xs)) k))"
  by auto

lemma remove1_PageLink: "remove1 (PageLink p) (map PageLink xs) = map PageLink (remove1 p xs)"
  by (induction xs) auto

lemma list_push_ok:
  assumes "lists_ok g b F" and "k \<le> max_order b" "2 ^ k dvd p" and "blk k p \<subseteq> usable g b"
    and "blk k p \<inter> free_set F = {}"
  shows "\<exists>b'. list_push g b k p = Some b' \<and> lists_ok g b' (F(k := p # F k)) \<and> same_counters b b' \<and>
           usable g b' = usable g b"
proof -
  note ok = lists_okD [OF assms(1)]
  note rng = block_in_range [OF assms(1,4)]
  have k: "k < BUDDY_MAX_ORDERS" using assms(2) ok(2) by simp
  have "p \<notin> set (F j)" for j
    using assms(5) set_subset_free [of p F j] blk_self [of p k] by blast
  then obtain h where h: "linkedlist_push_front (links b) (FreeList k) (PageLink p) = Some h"
    "ll.family {..<BUDDY_MAX_ORDERS} FreeList h (\<lambda>j. map PageLink ((F(k := p # F k)) j))"
    using ll.family_push [OF ok(3), of k "PageLink p"] k links_fun_upd [of F k "p # F k"] by auto
  let ?b = "b\<lparr>pages := pushed_pages k p (pages b), links := h\<rparr>"
  have "list_push g b k p = Some ?b"
    using rng k h(1) by (auto simp: list_push_def page_at_def pfn_to_page_def set_block_free_state_eq Let_def
        mark_block_def pushed_pages_def in_blk fun_eq_iff)
  moreover have us: "usable g ?b = usable g b"
    by (simp add: usable_def)
  moreover have "lists_ok g ?b (F(k := p # F k))"
    using ok h(2) assms(4,5) us blocks_ok_push [OF ok(4) assms(2,3) rng(1) assms(5)]
    unfolding lists_ok_def free_set_push by (simp add: page_ok_push)
  ultimately show ?thesis
    by (auto simp: same_counters_def)
qed

lemma clear_block_ok:
  assumes "lists_ok g b F" and "p \<in> set (F k)"
    and "ll.family {..<BUDDY_MAX_ORDERS} FreeList h (\<lambda>j. map PageLink ((F(k := remove1 p (F k))) j))"
  shows "\<exists>b'. clear_block g (b\<lparr>links := h\<rparr>) k p = Some b' \<and> lists_ok g b' (F(k := remove1 p (F k))) \<and>
           same_counters b b' \<and> usable g b' = usable g b"
proof -
  note ok = lists_okD [OF assms(1)]
  note bk = blocks_okD [OF ok(4) assms(2)]
  let ?F = "F(k := remove1 p (F k))"
  let ?h = "h(PageLink p := \<lparr>prev = None, next = None\<rparr>)"
  let ?b = "b\<lparr>pages := cleared_pages k p (pages b), links := ?h\<rparr>"
  have "p \<notin> free_set ?F"
    using free_set_remove [OF ok(4) assms(2)] by simp
  then have "p \<notin> set (?F j)" for j
    using set_subset_free by blast
  then have fam: "ll.family {..<BUDDY_MAX_ORDERS} FreeList ?h (\<lambda>j. map PageLink (?F j))"
    by (intro ll.family_frame [OF assms(3)]) auto
  have "clear_block g (b\<lparr>links := h\<rparr>) k p = Some ?b"
    using bk ok(2) by (auto simp: clear_block_def set_block_free_state_eq Let_def
        mark_block_def cleared_pages_def in_blk fun_eq_iff)
  moreover have us: "usable g ?b = usable g b"
    by (simp add: usable_def)
  moreover have "lists_ok g ?b ?F"
    using ok fam us blocks_ok_remove [OF ok(4) assms(2)] page_ok_clear [OF _ ok(4) assms(2)]
    unfolding lists_ok_def free_set_remove [OF ok(4) assms(2)] by auto
  ultimately show ?thesis
    by (auto simp: same_counters_def)
qed

lemma list_pop_ok:
  assumes "lists_ok g b F" and "F k = p # r"
  shows "\<exists>b'. list_pop g b k = Some (p, b') \<and> lists_ok g b' (F(k := r)) \<and> same_counters b b' \<and>
           usable g b' = usable g b"
proof -
  note ok = lists_okD [OF assms(1)]
  have p: "p \<in> set (F k)" using assms(2) by simp
  note bk = blocks_okD [OF ok(4) p]
  have k: "k < BUDDY_MAX_ORDERS" using bk(1) ok(2) by simp
  have "p + 2 ^ k \<le> g_pfn_end g \<Longrightarrow> p < g_pfn_end g" using zero_less_power [of "2::nat" k] by linarith
  with bk(3) have lt: "p < g_pfn_end g" by simp
  obtain h where h: "linkedlist_pop_front (links b) (FreeList k) = Some (Some (PageLink p), h)"
    "ll.family {..<BUDDY_MAX_ORDERS} FreeList h (\<lambda>j. map PageLink ((F(k := r)) j))"
    using ll.family_pop [OF ok(3), of k "PageLink p" "map PageLink r"] k links_fun_upd [of F k r] assms(2) by auto
  have r: "remove1 p (F k) = r" using assms(2) by simp
  from clear_block_ok [OF assms(1) p, of h] h(2) obtain b' where
    "clear_block g (b\<lparr>links := h\<rparr>) k p = Some b'" "lists_ok g b' (F(k := r))" "same_counters b b'"
    "usable g b' = usable g b"
    unfolding r by blast
  with h(1) lt show ?thesis
    by (simp add: list_pop_def)
qed

lemma is_free_head_iff:
  assumes "lists_ok g b F"
  shows "is_free_head_of_order g b q k = Some (q \<in> set (F k))"
proof (cases "pfn_is_valid (section_map g) q")
  case True
  with lists_okD(1,6) [OF assms True] show ?thesis
    by (simp add: is_free_head_of_order_def page_at_def pfn_to_page_def flag_bits page_ok_def)
next
  case False
  then have "q \<notin> set (F k)"
    using set_subset_free [of q F k] lists_okD(5) [OF assms] usable_valid by blast
  with False show ?thesis
    by (simp add: is_free_head_of_order_def)
qed

lemma list_remove_ok:
  assumes "lists_ok g b F" and "p \<in> set (F k)"
  shows "\<exists>b'. list_remove g b k p = Some b' \<and> lists_ok g b' (F(k := remove1 p (F k))) \<and> same_counters b b' \<and>
           usable g b' = usable g b"
proof -
  note ok = lists_okD [OF assms(1)]
  have k: "k < BUDDY_MAX_ORDERS" using blocks_okD(1) [OF ok(4) assms(2)] ok(2) by simp
  have v: "p < g_pfn_end g"
    using set_subset_free [of p F k] assms(2) ok(1,5) usable_valid by blast
  obtain h where h: "linkedlist_remove (links b) (PageLink p) = Some h"
    "ll.family {..<BUDDY_MAX_ORDERS} FreeList h (\<lambda>j. map PageLink ((F(k := remove1 p (F k))) j))"
    using ll.family_remove [OF ok(3), of k "PageLink p"] k assms(2)
    unfolding remove1_PageLink links_fun_upd by auto
  from clear_block_ok [OF assms h(2)] h(1) v is_free_head_iff [OF assms(1)] assms(2) show ?thesis
    by (simp add: list_remove_def page_at_def pfn_to_page_def)
qed

section \<open>Buddies\<close>

lemma and_mask_dvd: "(p :: nat) AND (2 ^ k - 1) = 0 \<longleftrightarrow> 2 ^ k dvd p"
  unfolding mask_eq_exp_minus_1 [symmetric] take_bit_eq_mask [symmetric] by (rule take_bit_eq_0_iff)

lemma xor_buddy:
  assumes "2 ^ k dvd (p :: nat)"
  shows "p XOR 2 ^ k = (if 2 ^ Suc k dvd p then p + 2 ^ k else p - 2 ^ k)"
    and "\<not> 2 ^ Suc k dvd p \<Longrightarrow> 2 ^ k \<le> p \<and> 2 ^ Suc k dvd p - 2 ^ k"
proof -
  obtain m where m: "p = 2 ^ k * m" using assms by blast
  have d: "2 ^ Suc k dvd p \<longleftrightarrow> even m"
    unfolding m power_Suc2 by simp
  have "p XOR 2 ^ k = push_bit k m XOR push_bit k 1"
    by (simp add: m push_bit_eq_mult mult.commute)
  also have "\<dots> = 2 ^ k * (m XOR 1)"
    by (simp only: push_bit_xor [symmetric]) (simp add: push_bit_eq_mult mult.commute)
  finally have x: "p XOR 2 ^ k = 2 ^ k * (m XOR 1)" .
  have "m XOR 1 = (if even m then m + 1 else m - 1)"
    by (simp add: xor_Suc_0_eq)
  with x d show "p XOR 2 ^ k = (if 2 ^ Suc k dvd p then p + 2 ^ k else p - 2 ^ k)"
    by (auto simp: m algebra_simps diff_mult_distrib2)
  assume "\<not> 2 ^ Suc k dvd p"
  with d obtain n where "m = 2 * n + 1" by (auto elim: oddE)
  then show "2 ^ k \<le> p \<and> 2 ^ Suc k dvd p - 2 ^ k"
    by (simp add: m algebra_simps)
qed

lemma xor_buddy_involutive: "((p :: nat) XOR n) XOR n = p"
  by (simp add: xor.assoc)

lemma blk_split: "blk (Suc k) p = blk k p \<union> blk k (p + 2 ^ k)" and blk_halves: "blk k p \<inter> blk k (p + 2 ^ k) = {}"
  by (auto simp: in_blk)

lemma buddy_merge:
  assumes "2 ^ k dvd p" and "q = p XOR 2 ^ k" and "r = (if q < p then q else p)"
  shows "2 ^ Suc k dvd r" "blk (Suc k) r = blk k p \<union> blk k q"
proof -
  have "2 ^ Suc k dvd r \<and> blk (Suc k) r = blk k p \<union> blk k q"
  proof (cases "2 ^ Suc k dvd p")
    case True
    then have "q = p + 2 ^ k" using xor_buddy(1) [OF assms(1)] assms(2) by simp
    with True assms(3) show ?thesis by (simp add: blk_split)
  next
    case False
    note x = xor_buddy(2) [OF assms(1) False]
    have "q = p - 2 ^ k" using xor_buddy(1) [OF assms(1)] assms(2) False by simp
    moreover from this x have "q + 2 ^ k = p" by simp
    moreover from this have "q < p" using zero_less_power [of "2::nat" k] by linarith
    ultimately show ?thesis using x assms(3) blk_split [of k q] by auto
  qed
  then show "2 ^ Suc k dvd r" "blk (Suc k) r = blk k p \<union> blk k q" by auto
qed

text \<open>No two free blocks of the same order below the largest are buddies of each other.\<close>

definition coalesced :: "nat \<Rightarrow> (nat \<Rightarrow> nat list) \<Rightarrow> bool" where
  "coalesced mo F \<longleftrightarrow> (\<forall>k p. k < mo \<longrightarrow> p \<in> set (F k) \<longrightarrow> p XOR 2 ^ k \<notin> set (F k))"

text \<open>The allocator invariant: the abstraction, with the counter of free pages.\<close>

definition buddy_inv :: "pfn_globals \<Rightarrow> buddy \<Rightarrow> (nat \<Rightarrow> nat list) \<Rightarrow> bool" where
  "buddy_inv g b F \<longleftrightarrow> lists_ok g b F \<and> free_pages b = card (free_set F)"

lemma finite_free_set: "lists_ok g b F \<Longrightarrow> finite (free_set F)"
  using lists_okD(1,5) usable_valid by (meson bounded_nat_set_is_finite subsetD)

section \<open>Allocation\<close>

lemma list_is_empty_iff: "lists_ok g b F \<Longrightarrow> k \<le> max_order b \<Longrightarrow> list_is_empty b k \<longleftrightarrow> F k = []"
  using ll.family_is_empty [OF lists_okD(3), of g b F k] lists_okD(2) [of g b F] by (simp add: list_is_empty_def)

lemma find_order_spec:
  assumes "lists_ok g b F"
  shows "cur \<le> find_order b cur \<and> (find_order b cur \<le> max_order b \<longrightarrow> F (find_order b cur) \<noteq> []) \<and>
         (\<forall>j. cur \<le> j \<longrightarrow> j < find_order b cur \<longrightarrow> j \<le> max_order b \<longrightarrow> F j = [])"
proof (induction "Suc (max_order b) - cur" arbitrary: cur)
  case 0
  then show ?case by (simp add: find_order.simps)
next
  case (Suc d)
  then have le: "cur \<le> max_order b" by simp
  show ?case
  proof (cases "F cur = []")
    case True
    then have "find_order b cur = find_order b (Suc cur)"
      using le list_is_empty_iff [OF assms le] by (simp add: find_order.simps [of b cur])
    moreover have "d = Suc (max_order b) - Suc cur" using Suc.hyps(2) by simp
    note IH = Suc.hyps(1) [OF this]
    moreover have "F j = []" if "cur \<le> j" "j < find_order b (Suc cur)" "j \<le> max_order b" for j
      using that True IH by (cases "j = cur") auto
    ultimately show ?thesis by auto
  next
    case False
    with le list_is_empty_iff [OF assms le] show ?thesis
      by (simp add: find_order.simps)
  qed
qed

lemma split_block_ok:
  assumes "lists_ok g b F" and "order \<le> cur" "cur \<le> max_order b" "2 ^ cur dvd pfn"
    and "blk cur pfn \<subseteq> usable g b" and "blk cur pfn \<inter> free_set F = {}"
  shows "\<exists>b' F'. split_block g b order cur pfn = Some b' \<and> lists_ok g b' F' \<and> same_counters b b' \<and>
           usable g b' = usable g b \<and> free_set F' = free_set F \<union> (blk cur pfn - blk order pfn) \<and>
           blocks F' = blocks F \<union> {(j, pfn + 2 ^ j) |j. order \<le> j \<and> j < cur}"
  using assms
proof (induction "cur - order" arbitrary: cur b F)
  case 0
  then have "cur = order" by simp
  with 0 show ?case by (intro exI [of _ b] exI [of _ F]) (auto simp: split_block.simps same_counters_def)
next
  case (Suc d)
  then obtain c where c: "cur = Suc c" and oc: "order \<le> c" by (cases cur) auto
  let ?p = "pfn + 2 ^ c" and ?F = "F(c := (pfn + 2 ^ c) # F c)"
  have dv: "2 ^ c dvd pfn" using Suc.prems(4) c by (metis dvd_mult_left mult.commute power_Suc)
  have sp: "blk cur pfn = blk c pfn \<union> blk c ?p" using blk_split c by simp
  from list_push_ok [OF Suc.prems(1), of c ?p] Suc.prems(3,5,6) dv c sp obtain b1 where
    b1: "list_push g b c ?p = Some b1" "lists_ok g b1 ?F" "same_counters b b1" "usable g b1 = usable g b"
    by auto
  have "max_order b1 = max_order b" using b1(3) by (simp add: same_counters_def)
  then have "\<exists>b' F'. split_block g b1 order c pfn = Some b' \<and> lists_ok g b' F' \<and> same_counters b1 b' \<and>
      usable g b' = usable g b1 \<and> free_set F' = free_set ?F \<union> (blk c pfn - blk order pfn) \<and>
      blocks F' = blocks ?F \<union> {(j, pfn + 2 ^ j) |j. order \<le> j \<and> j < c}"
    using Suc.hyps(2) Suc.prems sp c b1 oc dv blk_halves [of c pfn]
    by (intro Suc.hyps(1)) (auto simp: free_set_push)
  then obtain b' F' where b': "split_block g b1 order c pfn = Some b'" "lists_ok g b' F'" "same_counters b1 b'"
      "usable g b' = usable g b1" "free_set F' = free_set ?F \<union> (blk c pfn - blk order pfn)"
      "blocks F' = blocks ?F \<union> {(j, pfn + 2 ^ j) |j. order \<le> j \<and> j < c}"
    by blast
  have "c < BUDDY_MAX_ORDERS" using lists_okD(2) [OF Suc.prems(1)] Suc.prems(3) c by simp
  then have "split_block g b order cur pfn = Some b'"
    using b1(1) b'(1) oc c by (simp add: split_block.simps [of g b] order_pages_def Let_def)
  moreover have "blk order pfn \<subseteq> blk c pfn"
    by (rule blk_mono [OF oc])
  then have "free_set F' = free_set F \<union> (blk cur pfn - blk order pfn)"
    using b'(5) sp blk_halves [of c pfn] by (auto simp: free_set_push)
  moreover have "blocks F' = blocks F \<union> {(j, pfn + 2 ^ j) |j. order \<le> j \<and> j < cur}"
    using b'(6) oc by (auto simp: blocks_push c less_Suc_eq)
  ultimately show ?case
    using b' b1 by (auto simp: same_counters_def)
qed

text \<open>Splitting a block leaves no pair of free buddies: the buddy of each new block is in use.\<close>

lemma coalesced_split:
  assumes "coalesced mo F" and "2 ^ cur dvd p"
    and new: "blocks F2 \<subseteq> blocks F \<union> {(j, p + 2 ^ j) |j. j < cur}" and old: "\<And>k. k < cur \<Longrightarrow> (k, p) \<notin> blocks F2"
  shows "coalesced mo F2"
  unfolding coalesced_def
proof (intro allI impI notI)
  fix k q
  assume k: "k < mo" "q \<in> set (F2 k)" "q XOR 2 ^ k \<in> set (F2 k)"
  have xp: "(p + 2 ^ j) XOR 2 ^ j = p" "p XOR 2 ^ j = p + 2 ^ j" if "j < cur" for j
  proof -
    have d: "2 ^ Suc j dvd p" using assms(2) that by (meson Suc_leI dvd_trans le_imp_power_dvd)
    then have "2 ^ j dvd p" by (metis dvd_mult_left mult.commute power_Suc)
    then show "p XOR 2 ^ j = p + 2 ^ j" using xor_buddy(1) [of j p] d by simp
    then show "(p + 2 ^ j) XOR 2 ^ j = p" using xor_buddy_involutive [of p "2 ^ j"] by simp
  qed
  have "r \<in> set (F k) \<or> (r = p + 2 ^ k \<and> k < cur)" if "r \<in> set (F2 k)" for r
    using that new unfolding in_blocks [symmetric] by auto
  from this [OF k(2)] this [OF k(3)] consider "q \<in> set (F k)" "q XOR 2 ^ k \<in> set (F k)"
    | "q XOR 2 ^ k = p + 2 ^ k" "k < cur" | "q = p + 2 ^ k" "k < cur" by blast
  then show False
  proof cases
    case 1
    with assms(1) k(1) show False by (auto simp: coalesced_def)
  next
    case 2
    then have "q = p" using xp xor_buddy_involutive [of q "2 ^ k"] by metis
    with old [OF 2(2)] k(2) show False by (simp add: in_blocks)
  next
    case 3
    with xp old [of k] k(3) show False by (simp add: in_blocks)
  qed
qed

lemma buddy_alloc_fail:
  assumes "lists_ok g b F" and "\<forall>k. order \<le> k \<and> k \<le> max_order b \<longrightarrow> F k = []"
  shows "buddy_alloc g b order = Some (None, b)"
  using find_order_spec [OF assms(1), of order] assms(2) by (auto simp: buddy_alloc_def Let_def)

lemma buddy_alloc_ok:
  assumes inv: "buddy_inv g b F" and "order \<le> max_order b" and ex: "\<exists>k. order \<le> k \<and> k \<le> max_order b \<and> F k \<noteq> []"
  shows "\<exists>pfn b' F'. buddy_alloc g b order = Some (Some pfn, b') \<and> buddy_inv g b' F' \<and>
           2 ^ order dvd pfn \<and> blk order pfn \<subseteq> free_set F \<and> free_set F' = free_set F - blk order pfn \<and>
           usable g b' = usable g b \<and> max_order b' = max_order b \<and>
           (coalesced (max_order b) F \<longrightarrow> coalesced (max_order b) F')"
proof -
  from inv have ok: "lists_ok g b F" and fp: "free_pages b = card (free_set F)"
    by (auto simp: buddy_inv_def)
  define cur where "cur = find_order b order"
  have oc: "order \<le> cur" and ne: "cur \<le> max_order b \<Longrightarrow> F cur \<noteq> []"
    using find_order_spec [OF ok, of order] by (auto simp: cur_def)
  have cm: "cur \<le> max_order b"
    using find_order_spec [OF ok, of order] ex unfolding cur_def by (metis not_le order.strict_trans2)
  obtain p r where pr: "F cur = p # r" using ne [OF cm] by (cases "F cur") auto
  let ?F = "F(cur := r)"
  from pr have p: "p \<in> set (F cur)" and rm: "remove1 p (F cur) = r" by auto
  note bk = blocks_okD [OF lists_okD(4) [OF ok] p]
  have fs: "free_set ?F = free_set F - blk cur p"
    using free_set_remove [OF lists_okD(4) [OF ok] p] rm by simp
  have bs: "blocks ?F = blocks F - {(cur, p)}"
    using blocks_remove [of F cur p] bk(4) p rm by simp
  have sub: "blk cur p \<subseteq> free_set F" by (rule blk_subset_free [of p F cur, OF p])
  have osub: "blk order p \<subseteq> blk cur p"
    by (rule blk_mono [OF oc])
  from list_pop_ok [OF ok pr] obtain b1 where b1: "list_pop g b cur = Some (p, b1)" "lists_ok g b1 ?F"
      "same_counters b b1" "usable g b1 = usable g b" by blast
  have m1: "max_order b1 = max_order b" using b1(3) by (simp add: same_counters_def)
  have "blk cur p \<subseteq> usable g b1" using sub lists_okD(5) [OF ok] b1(4) by blast
  with split_block_ok [OF b1(2) oc, of p] cm bk(2) m1 b1(4) fs obtain b2 F2 where
    b2: "split_block g b1 order cur p = Some b2" "lists_ok g b2 F2" "same_counters b1 b2" "usable g b2 = usable g b1"
      "free_set F2 = free_set ?F \<union> (blk cur p - blk order p)"
      "blocks F2 = blocks ?F \<union> {(j, p + 2 ^ j) |j. order \<le> j \<and> j < cur}"
    by auto
  have fs2: "free_set F2 = free_set F - blk order p"
    using b2(5) fs sub osub by auto
  have card: "card (free_set F2) = card (free_set F) - 2 ^ order" "2 ^ order \<le> card (free_set F)"
    using fs2 osub sub finite_free_set [OF ok] card_Diff_subset [of "blk order p" "free_set F"]
      card_mono [of "free_set F" "blk order p"] by auto
  let ?b = "b2\<lparr>free_pages := free_pages b2 - 2 ^ order\<rparr>"
  have f2: "free_pages b2 = free_pages b" "max_order b2 = max_order b"
    using b1(3) b2(3) by (auto simp: same_counters_def)
  have "order < BUDDY_MAX_ORDERS" using assms(2) lists_okD(2) [OF ok] by simp
  then have "buddy_alloc g b order = Some (Some p, ?b)"
    using assms(2) cm b1(1) b2(1) f2 fp card by (simp add: buddy_alloc_def cur_def [symmetric] order_pages_def Let_def)
  moreover have "buddy_inv g ?b F2"
    using b2(2) f2 fp card by (auto simp: buddy_inv_def lists_ok_def usable_def)
  moreover have "usable g ?b = usable g b"
    using b2(4) b1(4) by (simp add: usable_def)
  moreover have "coalesced (max_order b) F2" if "coalesced (max_order b) F"
  proof -
    have old: "(k, p) \<notin> blocks F2" if "k < cur" for k
    proof
      assume "(k, p) \<in> blocks F2"
      then have "p \<in> set (?F k)" using b2(6) by (auto simp: in_blocks)
      then have "p \<in> free_set ?F" by (rule set_subset_free)
      with fs show False by simp
    qed
    show ?thesis
      using bs b2(6) by (intro coalesced_split [OF that bk(2) _ old]) auto
  qed
  moreover have "2 ^ order dvd p" using bk(2) oc by (meson dvd_trans le_imp_power_dvd)
  ultimately show ?thesis
    using fs2 osub sub f2 by (intro exI [of _ p] exI [of _ ?b] exI [of _ F2]) auto
qed

section \<open>Release\<close>

lemma coalesce_ok:
  assumes "lists_ok g b F" and "k \<le> max_order b" "2 ^ k dvd p" and "blk k p \<subseteq> usable g b"
    and "blk k p \<inter> free_set F = {}"
  shows "\<exists>p' k' b' F'. coalesce g b p k = Some (p', k', b') \<and> lists_ok g b' F' \<and> same_counters b b' \<and>
           usable g b' = usable g b \<and> k' \<le> max_order b \<and> 2 ^ k' dvd p' \<and> blk k' p' \<subseteq> usable g b \<and>
           blk k' p' \<inter> free_set F' = {} \<and> free_set F' \<union> blk k' p' = free_set F \<union> blk k p \<and>
           blocks F' \<subseteq> blocks F \<and> (k' < max_order b \<longrightarrow> p' XOR 2 ^ k' \<notin> set (F' k'))"
  using assms
proof (induction "max_order b - k" arbitrary: b F k p)
  case 0
  then have "coalesce g b p k = Some (p, k, b)"
    by (simp add: coalesce.simps)
  with 0 show ?case by (intro exI [of _ p] exI [of _ k] exI [of _ b] exI [of _ F]) (auto simp: same_counters_def)
next
  case (Suc d)
  then have lt: "k < max_order b" by simp
  note ok = Suc.prems(1)
  have k: "k < BUDDY_MAX_ORDERS" using lt lists_okD(2) [OF ok] by simp
  define q where "q = p XOR 2 ^ k"
  define r where "r = (if q < p then q else p)"
  note mg = buddy_merge [OF Suc.prems(3) q_def r_def]
  show ?case
  proof (cases "q \<in> set (F k)")
    case True
    have ql: "q < g_pfn_end g"
      using set_subset_free [of q F k] True lists_okD(1,5) [OF ok] usable_valid by blast
    from list_remove_ok [OF ok True] obtain b1 where b1: "list_remove g b k q = Some b1"
      "lists_ok g b1 (F(k := remove1 q (F k)))" "same_counters b b1" "usable g b1 = usable g b" by blast
    let ?F = "F(k := remove1 q (F k))"
    note bo = lists_okD(4) [OF ok]
    have fs: "free_set ?F = free_set F - blk k q" by (rule free_set_remove [OF bo True])
    have qs: "blk k q \<subseteq> free_set F" by (rule blk_subset_free [of q F k, OF True])
    have bs: "blocks ?F \<subseteq> blocks F"
      using blocks_remove [of F k q] blocks_okD(4) [OF bo True] True by auto
    have m1: "max_order b1 = max_order b" using b1(3) by (simp add: same_counters_def)
    have "coalesce g b p k = coalesce g b1 r (Suc k)"
      using lt k ql True b1(1) is_free_head_iff [OF ok, of q k]
      by (simp add: coalesce.simps [of g b] order_pages_def Let_def q_def [symmetric] r_def)
    moreover have "blk (Suc k) r \<subseteq> usable g b1"
      using mg(2) Suc.prems(4) qs lists_okD(5) [OF ok] b1(4) by blast
    moreover have "blk (Suc k) r \<inter> free_set ?F = {}"
      using mg(2) Suc.prems(5) fs by blast
    moreover have "d = max_order b1 - Suc k" using Suc.hyps(2) m1 by simp
    ultimately obtain p' k' b' F' where r': "coalesce g b p k = Some (p', k', b')" "lists_ok g b' F'"
      "same_counters b1 b'" "usable g b' = usable g b1" "k' \<le> max_order b1" "2 ^ k' dvd p'"
      "blk k' p' \<subseteq> usable g b1" "blk k' p' \<inter> free_set F' = {}"
      "free_set F' \<union> blk k' p' = free_set ?F \<union> blk (Suc k) r" "blocks F' \<subseteq> blocks ?F"
      "k' < max_order b1 \<longrightarrow> p' XOR 2 ^ k' \<notin> set (F' k')"
      using Suc.hyps(1) [of b1 "Suc k" ?F r] b1(2) mg(1) lt m1 by auto
    moreover have "free_set ?F \<union> blk (Suc k) r = free_set F \<union> blk k p"
      using mg(2) fs qs by blast
    ultimately show ?thesis
      using bs b1(3,4) m1 by (intro exI [of _ p'] exI [of _ k'] exI [of _ b'] exI [of _ F']) (auto simp: same_counters_def)
  next
    case False
    then have "coalesce g b p k = Some (p, k, b)"
      using lt k is_free_head_iff [OF ok, of q k]
      by (simp add: coalesce.simps [of g b] order_pages_def Let_def q_def [symmetric])
    with Suc.prems False show ?thesis
      by (intro exI [of _ p] exI [of _ k] exI [of _ b] exI [of _ F]) (auto simp: same_counters_def q_def)
  qed
qed

lemma coalesced_push:
  assumes "coalesced mo F" and "blocks F' \<subseteq> blocks F" and "k < mo \<longrightarrow> p XOR 2 ^ k \<notin> set (F' k)"
  shows "coalesced mo (F'(k := p # F' k))"
  unfolding coalesced_def
proof (intro allI impI notI)
  fix j q
  assume j: "j < mo" "q \<in> set ((F'(k := p # F' k)) j)" "q XOR 2 ^ j \<in> set ((F'(k := p # F' k)) j)"
  have ne: "q XOR 2 ^ j \<noteq> q" by (metis xor.right_neutral xor.left_commute xor_self_eq power_not_zero zero_neq_numeral)
  have sub: "x \<in> set (F i)" if "x \<in> set (F' i)" for x i
    using that assms(2) by (auto simp: in_blocks [symmetric])
  from j have "(j = k \<and> (q = p \<or> q XOR 2 ^ j = p)) \<or> (q \<in> set (F' j) \<and> q XOR 2 ^ j \<in> set (F' j))"
    by (auto split: if_splits)
  then show False
  proof (elim disjE conjE)
    assume "q \<in> set (F' j)" "q XOR 2 ^ j \<in> set (F' j)"
    with sub assms(1) j(1) show False unfolding coalesced_def by blast
  qed (use assms(3) j ne xor_buddy_involutive [of q "2 ^ k"] in \<open>auto split: if_splits\<close>)
qed

lemma buddy_free_ok:
  assumes inv: "buddy_inv g b F" and "k \<le> max_order b" "2 ^ k dvd p" and us: "blk k p \<subseteq> usable g b"
    and dis: "blk k p \<inter> free_set F = {}"
  shows "\<exists>b' F'. buddy_free g b p k = Some b' \<and> buddy_inv g b' F' \<and> free_set F' = free_set F \<union> blk k p \<and>
           usable g b' = usable g b \<and> max_order b' = max_order b \<and>
           (coalesced (max_order b) F \<longrightarrow> coalesced (max_order b) F')"
proof -
  from inv have ok: "lists_ok g b F" and fp: "free_pages b = card (free_set F)"
    by (auto simp: buddy_inv_def)
  have p: "p \<in> usable g b" "p \<notin> free_set F" using us dis blk_self [of p k] by blast+
  then have pv: "pfn_is_valid (section_map g) p" and pl: "p < g_pfn_end g"
    using usable_valid lists_okD(1) [OF ok] by auto
  have fl: "\<not> bit (flags (pages b p)) 1" "\<not> bit (flags (pages b p)) 0"
    using p lists_okD(6) [OF ok pv] by (auto simp: page_ok_def usable_def)
  from coalesce_ok [OF ok assms(2-5)] obtain p' k' b1 F1 where c: "coalesce g b p k = Some (p', k', b1)"
    "lists_ok g b1 F1" "same_counters b b1" "usable g b1 = usable g b" "k' \<le> max_order b" "2 ^ k' dvd p'"
    "blk k' p' \<subseteq> usable g b" "blk k' p' \<inter> free_set F1 = {}" "free_set F1 \<union> blk k' p' = free_set F \<union> blk k p"
    "blocks F1 \<subseteq> blocks F" "k' < max_order b \<longrightarrow> p' XOR 2 ^ k' \<notin> set (F1 k')"
    by blast
  have m: "max_order b1 = max_order b" using c(3) by (simp add: same_counters_def)
  let ?F = "F1(k' := p' # F1 k')"
  from list_push_ok [OF c(2), of k' p'] c(4-8) m obtain b2 where b2: "list_push g b1 k' p' = Some b2" "lists_ok g b2 ?F"
    "same_counters b1 b2" "usable g b2 = usable g b1" by auto
  have fs: "free_set ?F = free_set F \<union> blk k p" using c(9) by (simp add: free_set_push)
  have card: "card (free_set ?F) = card (free_set F) + 2 ^ k"
    unfolding fs using card_Un_disjoint [of "free_set F" "blk k p"] finite_free_set [OF ok] dis by (simp add: Int_commute)
  let ?b = "b2\<lparr>free_pages := free_pages b2 + 2 ^ k\<rparr>"
  have "k < BUDDY_MAX_ORDERS" using assms(2) lists_okD(2) [OF ok] by simp
  then have "buddy_free g b p k = Some ?b"
    using assms(2,3) pv pl fl c(1) b2(1) and_mask_dvd [of p k]
    by (simp add: buddy_free_def page_is_usable_def page_at_def pfn_to_page_def order_pages_def flag_bits)
  moreover have "buddy_inv g ?b ?F"
    using b2(2,3) c(3) fp card by (auto simp: buddy_inv_def lists_ok_def usable_def same_counters_def)
  moreover have "usable g ?b = usable g b" using b2(4) c(4) by (simp add: usable_def)
  moreover have "coalesced (max_order b) F \<longrightarrow> coalesced (max_order b) ?F"
    using coalesced_push c(10,11) by blast
  ultimately show ?thesis
    using fs b2(3) m by (intro exI [of _ ?b] exI [of _ ?F]) (auto simp: same_counters_def)
qed

section \<open>Creation\<close>

lemma range_order_spec:
  assumes "mo < BUDDY_MAX_ORDERS" and "k \<le> mo" "2 ^ k dvd pfn" "2 ^ k \<le> remaining"
  shows "\<exists>j. range_order mo pfn remaining k = Some j \<and> j \<le> mo \<and> 2 ^ j dvd pfn \<and> 2 ^ j \<le> remaining \<and>
           (j < mo \<longrightarrow> \<not> (2 ^ Suc j dvd pfn \<and> 2 ^ Suc j \<le> remaining))"
  using assms(2-4)
proof (induction "mo - k" arbitrary: k)
  case 0
  then show ?case by (simp add: range_order.simps)
next
  case (Suc d)
  then have km: "Suc k \<le> mo" by simp
  show ?case
  proof (cases "2 ^ Suc k dvd pfn \<and> 2 ^ Suc k \<le> remaining")
    case True
    then have "range_order mo pfn remaining k = range_order mo pfn remaining (Suc k)"
      using km assms(1) and_mask_dvd [of pfn "Suc k"]
      by (simp add: range_order.simps [of mo pfn remaining k] order_pages_def)
    with Suc.hyps True show ?thesis by simp
  next
    case False
    then have "range_order mo pfn remaining k = Some k"
      using km assms(1) and_mask_dvd [of pfn "Suc k"]
      by (auto simp: range_order.simps [of mo pfn remaining k] order_pages_def)
    with Suc.prems False show ?thesis by simp
  qed
qed

text \<open>
  What \<^verbatim>\<open>add_range\<close> keeps while it works from \<open>s\<close> up to \<open>pfn\<close> in the range that ends at \<open>e\<close>: the blocks
  it added are as large as alignment and range allow, and the older ones do not touch the range.
\<close>

definition adding :: "nat \<Rightarrow> nat \<Rightarrow> nat \<Rightarrow> nat \<Rightarrow> (nat \<Rightarrow> nat list) \<Rightarrow> bool" where
  "adding mo s e pfn F \<longleftrightarrow> coalesced mo F \<and> s \<le> pfn \<and>
     (\<forall>j q. q \<in> set (F j) \<longrightarrow> q + 2 ^ j \<le> pfn \<and>
        (q + 2 ^ j < s \<or> s \<le> q \<and> (j < mo \<longrightarrow> \<not> (2 ^ Suc j dvd q \<and> q + 2 ^ Suc j \<le> e))))"

lemma adding_push:
  assumes "adding mo s e pfn F" and "2 ^ k dvd pfn" "pfn + 2 ^ k \<le> e"
    and max: "k < mo \<longrightarrow> \<not> (2 ^ Suc k dvd pfn \<and> 2 ^ Suc k \<le> e - pfn)"
  shows "adding mo s e (pfn + 2 ^ k) (F(k := pfn # F k))"
proof -
  note ad = assms(1) [unfolded adding_def]
  have pos: "0 < (2::nat) ^ k" by simp
  have "pfn XOR 2 ^ k \<notin> set (F k)" if "k < mo"
  proof
    assume q: "pfn XOR 2 ^ k \<in> set (F k)"
    then have "(pfn XOR 2 ^ k) + 2 ^ k \<le> pfn" using ad by blast
    then have nd: "\<not> 2 ^ Suc k dvd pfn" using xor_buddy(1) [OF assms(2)] pos by (auto split: if_splits)
    note x = xor_buddy(2) [OF assms(2) nd]
    have eq: "pfn XOR 2 ^ k = pfn - 2 ^ k" using xor_buddy(1) [OF assms(2)] nd by simp
    with q have "pfn - 2 ^ k + 2 ^ k < s \<or> \<not> (2 ^ Suc k dvd pfn - 2 ^ k \<and> pfn - 2 ^ k + 2 ^ Suc k \<le> e)"
      using ad that by metis
    with x ad assms(3) show False by simp
  qed
  then have "coalesced mo (F(k := pfn # F k))"
    using ad by (intro coalesced_push [of mo F F]) auto
  moreover have "\<not> (2 ^ Suc k dvd pfn \<and> pfn + 2 ^ Suc k \<le> e)" if "k < mo"
    using max that by auto
  moreover have "q \<le> pfn" if "q \<in> set (F j)" for j q
    using ad that add_leD1 by blast
  ultimately show ?thesis
    using ad pos unfolding adding_def by (auto intro: trans_le_add1)
qed

lemma add_range_ok:
  assumes "buddy_inv g b F" and "{pfn..<e} \<subseteq> usable g b" and "{pfn..<e} \<inter> free_set F = {}"
  shows "\<exists>b' F'. add_range g b pfn e = Some b' \<and> buddy_inv g b' F' \<and> free_set F' = free_set F \<union> {pfn..<e} \<and>
           usable g b' = usable g b \<and> max_order b' = max_order b \<and> reserved_pages b' = reserved_pages b \<and>
           (adding (max_order b) s e pfn F \<longrightarrow> adding (max_order b) s e (max pfn e) F')"
  using assms
proof (induction "e - pfn" arbitrary: b F pfn rule: less_induct)
  case less
  show ?case
  proof (cases "pfn < e")
    case False
    then show ?thesis
      using less.prems by (intro exI [of _ b] exI [of _ F]) (simp add: add_range.simps)
  next
    case True
    from less.prems(1) have ok: "lists_ok g b F" and fp: "free_pages b = card (free_set F)"
      by (auto simp: buddy_inv_def)
    have "Suc 0 \<le> e - pfn" using True by simp
    with range_order_spec [OF lists_okD(2) [OF ok], of 0 pfn "e - pfn"] obtain k where
      k: "range_order (max_order b) pfn (e - pfn) 0 = Some k" "k \<le> max_order b" "2 ^ k dvd pfn" "2 ^ k \<le> e - pfn"
        "k < max_order b \<longrightarrow> \<not> (2 ^ Suc k dvd pfn \<and> 2 ^ Suc k \<le> e - pfn)"
      by auto
    have le: "pfn + 2 ^ k \<le> e" using k(4) True by simp
    have sp: "{pfn..<e} = blk k pfn \<union> {pfn + 2 ^ k..<e}" and ds: "blk k pfn \<inter> {pfn + 2 ^ k..<e} = {}"
      using le by (auto simp: blk_def)
    from list_push_ok [OF ok k(2,3)] less.prems(2,3) sp obtain b1 where
      b1: "list_push g b k pfn = Some b1" "lists_ok g b1 (F(k := pfn # F k))" "same_counters b b1"
        "usable g b1 = usable g b" by auto
    let ?F = "F(k := pfn # F k)" and ?b = "b1\<lparr>free_pages := free_pages b1 + 2 ^ k\<rparr>"
    have c1: "free_pages b1 = free_pages b" "max_order b1 = max_order b" "reserved_pages b1 = reserved_pages b"
      using b1(3) by (auto simp: same_counters_def)
    have us: "usable g ?b = usable g b" using b1(4) by (simp add: usable_def)
    have "card (free_set ?F) = card (free_set F) + 2 ^ k"
      unfolding free_set_push using card_Un_disjoint [of "free_set F" "blk k pfn"] finite_free_set [OF ok]
        less.prems(3) sp by (simp add: Int_Un_distrib Int_commute)
    then have "buddy_inv g ?b ?F"
      using b1(2) c1 fp us b1(4) by (auto simp: buddy_inv_def lists_ok_def usable_def)
    moreover have "{pfn + 2 ^ k..<e} \<subseteq> usable g ?b" using less.prems(2) sp us by blast
    moreover have "{pfn + 2 ^ k..<e} \<inter> free_set ?F = {}"
      using less.prems(3) sp ds unfolding free_set_push by blast
    moreover have "e - (pfn + 2 ^ k) < e - pfn" using True by (intro diff_less_mono2) auto
    ultimately obtain b' F' where b': "add_range g ?b (pfn + 2 ^ k) e = Some b'" "buddy_inv g b' F'"
      "free_set F' = free_set ?F \<union> {pfn + 2 ^ k..<e}" "usable g b' = usable g ?b" "max_order b' = max_order ?b"
      "reserved_pages b' = reserved_pages ?b"
      "adding (max_order ?b) s e (pfn + 2 ^ k) ?F \<longrightarrow> adding (max_order ?b) s e (max (pfn + 2 ^ k) e) F'"
      using less.hyps [of "pfn + 2 ^ k" ?b ?F] by blast
    have "k < BUDDY_MAX_ORDERS" using k(2) lists_okD(2) [OF ok] by simp
    then have "add_range g b pfn e = Some b'"
      using True k(1) b1(1) b'(1) by (simp add: add_range.simps [of g b] order_pages_def)
    moreover have "adding (max_order b) s e pfn F \<longrightarrow> adding (max_order b) s e (max pfn e) F'"
      using b'(7) c1 adding_push [OF _ k(3) le k(5)] le True by (auto simp: max_def split: if_splits)
    ultimately show ?thesis
      using b' us c1 sp by (intro exI [of _ b'] exI [of _ F']) (auto simp: free_set_push)
  qed
qed

text \<open>The section map as page ranges.\<close>

abbreviation usable_ranges :: "mmap_entry list \<Rightarrow> nat set" where
  "usable_ranges mmap \<equiv> \<Union>e \<in> {e \<in> set mmap. me_type e = MM_SEC_ENTRY_USABLE}. entry_pfns e"

abbreviation reserved_count :: "mmap_entry list \<Rightarrow> nat" where
  "reserved_count mmap \<equiv>
     sum_list (map (\<lambda>e. card (entry_pfns e)) (filter (\<lambda>e. me_type e = MM_SEC_ENTRY_RESERVED) mmap))"

definition separated :: "mmap_entry list \<Rightarrow> bool" where
  "separated mmap \<longleftrightarrow> sorted_wrt (\<lambda>a b. me_type a = MM_SEC_ENTRY_USABLE \<longrightarrow> me_type b = MM_SEC_ENTRY_USABLE \<longrightarrow>
     pfn_end (meta_ranges_for_entry a) < pfn_start (meta_ranges_for_entry b)) mmap"

text \<open>All free blocks end strictly below every usable section that is still to come.\<close>

definition below :: "(nat \<Rightarrow> nat list) \<Rightarrow> mmap_entry list \<Rightarrow> bool" where
  "below F mmap \<longleftrightarrow> (\<forall>e \<in> set mmap. me_type e = MM_SEC_ENTRY_USABLE \<longrightarrow>
     (\<forall>j q. q \<in> set (F j) \<longrightarrow> q + 2 ^ j < pfn_start (meta_ranges_for_entry e)))"

lemma entry_pfns_unfold:
  "pfn_start (meta_ranges_for_entry e) = unat (me_addr e) div 4096"
  "pfn_end (meta_ranges_for_entry e) = unat (me_addr e) div 4096 + unat (me_len e) div 4096"
  by (simp_all add: meta_ranges_for_entry_def Let_def)

lemma prepare_usable:
  assumes inv: "buddy_inv g b F" and "me_type e = MM_SEC_ENTRY_USABLE"
    and us: "entry_pfns e \<subseteq> usable g b" and dis: "entry_pfns e \<inter> free_set F = {}"
    and sep: "separated (e # es)" and bel: "below F (e # es) \<and> coalesced (max_order b) F"
  shows "\<exists>b' F'. add_range g b (pfn_start (meta_ranges_for_entry e)) (pfn_end (meta_ranges_for_entry e)) = Some b' \<and>
           buddy_inv g b' F' \<and> free_set F' = free_set F \<union> entry_pfns e \<and> usable g b' = usable g b \<and>
           max_order b' = max_order b \<and> reserved_pages b' = reserved_pages b \<and> below F' es \<and> coalesced (max_order b) F'"
proof -
  let ?s = "pfn_start (meta_ranges_for_entry e)" and ?e = "pfn_end (meta_ranges_for_entry e)"
  have le: "?s \<le> ?e" using meta_ranges_bounds by blast
  have lt: "q + 2 ^ j < ?s" if "q \<in> set (F j)" for q j
    using bel that assms(2) by (auto simp: below_def)
  have "adding (max_order b) ?s ?e ?s F"
    unfolding adding_def using bel lt by (auto intro: less_imp_le)
  with add_range_ok [OF inv us dis, of ?s] le obtain b' F' where
    b': "add_range g b ?s ?e = Some b'" "buddy_inv g b' F'" "free_set F' = free_set F \<union> entry_pfns e"
      "usable g b' = usable g b" "max_order b' = max_order b" "reserved_pages b' = reserved_pages b"
      "adding (max_order b) ?s ?e ?e F'"
    by (auto simp: max_def)
  have "below F' es"
    unfolding below_def
  proof (intro ballI allI impI)
    fix x j q
    assume x: "x \<in> set es" "me_type x = MM_SEC_ENTRY_USABLE" and "q \<in> set (F' j)"
    then have "q + 2 ^ j \<le> ?e" using b'(7) by (auto simp: adding_def)
    also have "?e < pfn_start (meta_ranges_for_entry x)"
      using sep x assms(2) by (auto simp: separated_def)
    finally show "q + 2 ^ j < pfn_start (meta_ranges_for_entry x)" .
  qed
  with b' show ?thesis by (auto simp: adding_def)
qed

lemma prepare_from_mmap_ok:
  assumes "buddy_inv g b F" and "usable_ranges mmap \<subseteq> usable g b" and "usable_ranges mmap \<inter> free_set F = {}"
    and "separated mmap" and "below F mmap \<and> coalesced (max_order b) F" and "sections_ok mmap"
  shows "\<exists>b' F'. prepare_from_mmap g b mmap = Some b' \<and> buddy_inv g b' F' \<and> free_set F' = free_set F \<union> usable_ranges mmap \<and>
           usable g b' = usable g b \<and> max_order b' = max_order b \<and>
           reserved_pages b' = reserved_pages b + reserved_count mmap \<and> coalesced (max_order b) F'"
  using assms
proof (induction mmap arbitrary: b F)
  case Nil
  then show ?case by (intro exI [of _ b] exI [of _ F]) simp
next
  case (Cons e es)
  have sep: "separated es" "sections_ok es"
    using Cons.prems(4,6) by (auto simp: separated_def sections_ok_Cons)
  have later: "entry_pfns e \<inter> usable_ranges es = {}"
  proof -
    have "entry_pfns e \<inter> entry_pfns x = {}" if "x \<in> set es" for x
      using that Cons.prems(6) entry_pfns_before [of e x] by (auto simp: sections_ok_Cons)
    then show ?thesis by blast
  qed
  show ?case
  proof (cases "me_type e = MM_SEC_ENTRY_USABLE")
    case True
    have "entry_pfns e \<subseteq> usable g b" "entry_pfns e \<inter> free_set F = {}"
      using Cons.prems(2,3) True by auto
    from prepare_usable [OF Cons.prems(1) True this Cons.prems(4,5)] obtain b1 F1 where
      b1: "add_range g b (pfn_start (meta_ranges_for_entry e)) (pfn_end (meta_ranges_for_entry e)) = Some b1"
        "buddy_inv g b1 F1" "free_set F1 = free_set F \<union> entry_pfns e" "usable g b1 = usable g b"
        "max_order b1 = max_order b" "reserved_pages b1 = reserved_pages b" "below F1 es" "coalesced (max_order b) F1"
      by blast
    have "usable_ranges es \<subseteq> usable g b1" "usable_ranges es \<inter> free_set F1 = {}"
      using Cons.prems(2,3) b1(3,4) later by auto
    with Cons.IH [OF b1(2) _ _ sep(1) _ sep(2)] b1 obtain b' F' where
      b': "prepare_from_mmap g b1 es = Some b'" "buddy_inv g b' F'" "free_set F' = free_set F1 \<union> usable_ranges es"
        "usable g b' = usable g b" "max_order b' = max_order b" "reserved_pages b' = reserved_pages b + reserved_count es"
        "coalesced (max_order b) F'"
      by auto
    then show ?thesis
      using b1(1,3) True by (intro exI [of _ b'] exI [of _ F']) (auto simp: entry_pfns_unfold)
  next
    case False
    let ?n = "if me_type e = MM_SEC_ENTRY_RESERVED then card (entry_pfns e) else 0"
    let ?b = "b\<lparr>reserved_pages := reserved_pages b + ?n\<rparr>"
    have "usable g ?b = usable g b" "buddy_inv g ?b F"
      using Cons.prems(1) by (auto simp: usable_def buddy_inv_def lists_ok_def)
    moreover have "usable_ranges (e # es) = usable_ranges es" using False by auto
    moreover have "below F es" using Cons.prems(5) by (auto simp: below_def)
    ultimately obtain b' F' where
      b': "prepare_from_mmap g ?b es = Some b'" "buddy_inv g b' F'" "free_set F' = free_set F \<union> usable_ranges es"
        "usable g b' = usable g b" "max_order b' = max_order b" "reserved_pages b' = reserved_pages ?b + reserved_count es"
        "coalesced (max_order b) F'"
      using Cons.IH [of ?b F] Cons.prems(2,3,5) sep by auto
    moreover have "prepare_from_mmap g b (e # es) = prepare_from_mmap g ?b es"
      using False by (auto simp: entry_pfns_unfold Let_def)
    ultimately show ?thesis
      using False by (intro exI [of _ b'] exI [of _ F']) auto
  qed
qed

lemma create_max_order_spec:
  assumes "mo < BUDDY_MAX_ORDERS"
  shows "\<exists>m. create_max_order e mo = Some m \<and> m < BUDDY_MAX_ORDERS"
  using assms
proof (induction e mo rule: create_max_order.induct)
  case (1 e mo)
  then show ?case
    by (subst create_max_order.simps) (auto simp: order_pages_def)
qed

lemma init_lists:
  "\<exists>h'. for_up 0 BUDDY_MAX_ORDERS (\<lambda>i h. Some (linkedlist_init h (FreeList i))) h = Some h' \<and>
        ll.family {..<BUDDY_MAX_ORDERS} FreeList h' (\<lambda>_. [])"
proof -
  have "\<exists>h'. for_up 0 BUDDY_MAX_ORDERS (\<lambda>i h. Some (linkedlist_init h (FreeList i))) h = Some h' \<and>
        (\<forall>i < BUDDY_MAX_ORDERS. dlist h' (FreeList i) [])"
  proof (rule for_up_rule)
    fix j :: nat and t :: "buddy_addr heap"
    assume t: "\<forall>i<j. dlist t (FreeList i) []"
    have "dlist (linkedlist_init t (FreeList j)) (FreeList i) []" if "i < Suc j" for i
    proof (cases "i = j")
      case False
      with that t have "dlist t (FreeList i) []" by simp
      then show ?thesis by (rule dlist_frame) (use False in \<open>simp add: linkedlist_init_def\<close>)
    qed (simp add: dlist_init)
    then show "\<exists>t'. Some (linkedlist_init t (FreeList j)) = Some t' \<and> (\<forall>i<Suc j. dlist t' (FreeList i) [])"
      by blast
  qed simp_all
  then show ?thesis
    by (auto simp: ll.family_def)
qed

lemma buddy_create_ok:
  assumes sec: "sections_ok sec" "separated sec" and g: "section_map g = sec"
    and e: "\<And>x. x \<in> set sec \<Longrightarrow> pfn_end (meta_ranges_for_entry x) \<le> g_pfn_end g"
    and pages: "pages b = build_metadata_init sec pages0"
  shows "\<exists>b' F. buddy_create g b sec = Some b' \<and> buddy_inv g b' F \<and> coalesced (max_order b') F \<and>
           free_set F = usable_ranges sec \<and> reserved_pages b' = reserved_count sec \<and>
           total_pages b' = free_pages b' + reserved_pages b'"
proof -
  obtain h where h: "for_up 0 BUDDY_MAX_ORDERS (\<lambda>i h. Some (linkedlist_init h (FreeList i))) (links b) = Some h"
    "ll.family {..<BUDDY_MAX_ORDERS} FreeList h (\<lambda>_. [])" using init_lists by blast
  obtain mo where mo: "create_max_order (g_pfn_end g) 0 = Some mo" "mo < BUDDY_MAX_ORDERS"
    using create_max_order_spec [of 0 "g_pfn_end g"] by auto
  let ?b = "b\<lparr>links := h, free_pages := 0, reserved_pages := 0, max_order := mo\<rparr>" and ?F = "\<lambda>_ :: nat. [] :: nat list"
  have valid: "pfn_is_valid sec q \<longleftrightarrow> (\<exists>x \<in> set sec. q \<in> entry_pfns x)" for q
    by (rule pfn_is_valid_iff [OF sec(1)])
  have fl: "\<not> bit (flags (pages b q)) 1 \<and> (bit (flags (pages b q)) 0 \<longleftrightarrow> me_type x = MM_SEC_ENTRY_METADATA)"
    if "x \<in> set sec" "q \<in> entry_pfns x" for q x
    unfolding pages build_metadata_init_inside [OF sec(1) that] by simp
  have E: "free_set ?F = {}" "blocks ?F = {}" by (auto simp: free_set_def blocks_def)
  have "q < g_pfn_end g" if "pfn_is_valid sec q" for q
    using that e by (fastforce simp: valid)
  moreover have "page_ok ?F q (pages b q)" if "pfn_is_valid sec q" for q
    using that fl by (auto simp: page_ok_def E valid)
  ultimately have "buddy_inv g ?b ?F"
    using h(2) mo(2) by (auto simp: buddy_inv_def lists_ok_def g E blocks_ok_def)
  moreover have "usable_ranges sec \<subseteq> usable g ?b"
    using fl by (auto simp: usable_def g valid)
  moreover have "below ?F sec \<and> coalesced (max_order ?b) ?F"
    by (simp add: below_def coalesced_def)
  ultimately obtain b' F where b': "prepare_from_mmap g ?b sec = Some b'" "buddy_inv g b' F"
      "free_set F = usable_ranges sec" "max_order b' = mo" "reserved_pages b' = reserved_count sec" "coalesced mo F"
    using prepare_from_mmap_ok [of g ?b ?F sec] sec E by auto
  let ?b' = "b'\<lparr>total_pages := free_pages b' + reserved_pages b'\<rparr>"
  have "buddy_create g b sec = Some ?b'"
    using h(1) mo(1) b'(1) by (simp add: buddy_create_def Let_def)
  moreover have "buddy_inv g ?b' F"
    using b'(2) by (auto simp: buddy_inv_def lists_ok_def usable_def)
  ultimately show ?thesis
    using b' by (intro exI [of _ ?b'] exI [of _ F]) auto
qed

section \<open>Runs\<close>

text \<open>
  The states a sequence of allocations and releases can reach, with the set of blocks (order and
  first frame) that are in use. A client releases only blocks it was given.
\<close>

inductive buddy_run :: "pfn_globals \<Rightarrow> buddy \<Rightarrow> buddy \<Rightarrow> (nat \<times> nat) set \<Rightarrow> bool" for g b0 where
  start: "buddy_run g b0 b0 {}"
| alloc: "buddy_run g b0 b A \<Longrightarrow> buddy_alloc g b k = Some (Some p, b') \<Longrightarrow> buddy_run g b0 b' (insert (k, p) A)"
| fail: "buddy_run g b0 b A \<Longrightarrow> buddy_alloc g b k = Some (None, b') \<Longrightarrow> buddy_run g b0 b' A"
| free: "buddy_run g b0 b A \<Longrightarrow> (k, p) \<in> A \<Longrightarrow> buddy_free g b p k = Some b' \<Longrightarrow> buddy_run g b0 b' (A - {(k, p)})"

definition used_set :: "(nat \<times> nat) set \<Rightarrow> nat set" where
  "used_set A = (\<Union>(k, p) \<in> A. blk k p)"

text \<open>Blocks in use and free blocks partition the frames \<open>U\<close> the allocator started with.\<close>

definition run_inv :: "pfn_globals \<Rightarrow> nat set \<Rightarrow> buddy \<Rightarrow> (nat \<times> nat) set \<Rightarrow> (nat \<Rightarrow> nat list) \<Rightarrow> bool" where
  "run_inv g U b A F \<longleftrightarrow> buddy_inv g b F \<and> coalesced (max_order b) F \<and> U \<subseteq> usable g b \<and>
     free_set F \<union> used_set A = U \<and> free_set F \<inter> used_set A = {} \<and>
     (\<forall>(k, p) \<in> A. k \<le> max_order b \<and> 2 ^ k dvd p) \<and>
     (\<forall>x \<in> A. \<forall>y \<in> A. x \<noteq> y \<longrightarrow> used_set {x} \<inter> used_set {y} = {})"

lemma used_set_insert: "used_set (insert (k, p) A) = blk k p \<union> used_set A"
  and used_set_single [simp]: "used_set {(k, p)} = blk k p" and used_set_empty [simp]: "used_set {} = {}"
  by (auto simp: used_set_def)

lemma used_set_single_subset: "x \<in> A \<Longrightarrow> used_set {x} \<subseteq> used_set A"
  by (auto simp: used_set_def)

lemma run_inv_alloc:
  assumes "run_inv g U b A F"
  shows "\<exists>r b'. buddy_alloc g b k = Some (r, b') \<and>
    (case r of None \<Rightarrow> b' = b | Some p \<Rightarrow> (\<exists>F'. run_inv g U b' (insert (k, p) A) F') \<and> blk k p \<inter> used_set A = {})"
proof (cases "\<exists>j. k \<le> j \<and> j \<le> max_order b \<and> F j \<noteq> []")
  case False
  then show ?thesis
    using assms buddy_alloc_fail [of g b F k] by (auto simp: run_inv_def buddy_inv_def)
next
  case True
  note ri = assms [unfolded run_inv_def]
  from True have km: "k \<le> max_order b" by auto
  with buddy_alloc_ok [of g b F k] True ri obtain p b' F' where
    p: "buddy_alloc g b k = Some (Some p, b')" "buddy_inv g b' F'" "2 ^ k dvd p" "blk k p \<subseteq> free_set F"
      "free_set F' = free_set F - blk k p" "usable g b' = usable g b" "max_order b' = max_order b"
      "coalesced (max_order b) F'" by auto
  have dis: "blk k p \<inter> used_set A = {}" using p(4) ri by blast
  have "\<forall>x \<in> insert (k, p) A. \<forall>y \<in> insert (k, p) A. x \<noteq> y \<longrightarrow> used_set {x} \<inter> used_set {y} = {}"
  proof -
    have "used_set {x} \<inter> blk k p = {}" if "x \<in> A" for x
      using dis used_set_single_subset [OF that] by blast
    with ri show ?thesis by (simp add: Int_commute)
  qed
  moreover have "free_set F' \<union> used_set (insert (k, p) A) = U" "free_set F' \<inter> used_set (insert (k, p) A) = {}"
    using ri p(4,5) dis unfolding used_set_insert by blast+
  ultimately have "run_inv g U b' (insert (k, p) A) F'"
    using ri p km unfolding run_inv_def by simp
  with p(1) dis show ?thesis by auto
qed

lemma run_inv_free:
  assumes "run_inv g U b A F" and "(k, p) \<in> A"
  shows "\<exists>b' F'. buddy_free g b p k = Some b' \<and> run_inv g U b' (A - {(k, p)}) F'"
proof -
  note ri = assms(1) [unfolded run_inv_def]
  have blk: "blk k p \<subseteq> used_set A" using used_set_single_subset [OF assms(2)] by simp
  have kp: "k \<le> max_order b" "2 ^ k dvd p" using ri assms(2) by auto
  have "blk k p \<subseteq> usable g b" "blk k p \<inter> free_set F = {}" using blk ri by blast+
  with buddy_free_ok [of g b F k p] kp ri obtain b' F' where
    b': "buddy_free g b p k = Some b'" "buddy_inv g b' F'" "free_set F' = free_set F \<union> blk k p"
      "usable g b' = usable g b" "max_order b' = max_order b" "coalesced (max_order b) F'" by auto
  have "x \<in> A - {(k, p)} \<Longrightarrow> used_set {x} \<inter> blk k p = {}" for x
    using ri assms(2) by (metis DiffE insertI1 used_set_single)
  then have d: "used_set (A - {(k, p)}) \<inter> blk k p = {}"
    unfolding used_set_def by fastforce
  have "used_set A = used_set (A - {(k, p)}) \<union> blk k p"
    using assms(2) used_set_insert [of k p "A - {(k, p)}"] by (simp add: insert_absorb Un_commute)
  then have "free_set F' \<union> used_set (A - {(k, p)}) = U" "free_set F' \<inter> used_set (A - {(k, p)}) = {}"
    using ri b'(3) d by blast+
  then have "run_inv g U b' (A - {(k, p)}) F'"
    using ri b' unfolding run_inv_def by simp
  with b'(1) show ?thesis by blast
qed

lemma buddy_run_inv:
  assumes "buddy_run g b0 b A" and "run_inv g U b0 {} F0"
  shows "\<exists>F. run_inv g U b A F"
  using assms
proof (induction rule: buddy_run.induct)
  case (alloc b A k p b')
  then obtain F where "run_inv g U b A F" by blast
  from run_inv_alloc [OF this, of k] alloc(2) show ?case by auto
next
  case (fail b A k b')
  then obtain F where F: "run_inv g U b A F" by blast
  from run_inv_alloc [OF this, of k] fail(2) F show ?case by auto
next
  case (free b A k p b')
  then obtain F where "run_inv g U b A F" by blast
  from run_inv_free [OF this free(2)] free(3) show ?case by auto
qed blast

lemma run_inv_start:
  assumes "buddy_inv g b F" "coalesced (max_order b) F"
  shows "run_inv g (free_set F) b {} F"
  using assms lists_okD(5) [of g b F] by (auto simp: run_inv_def buddy_inv_def)

section \<open>Properties\<close>

text \<open>
  A small machine for the witnesses: one usable section of eight pages above a metadata page.
\<close>

abbreviation demo_sections :: "mmap_entry list" where
  "demo_sections \<equiv> [\<lparr>me_addr = 0x7000, me_len = 0x1000, me_type = MM_SEC_ENTRY_METADATA\<rparr>,
                     \<lparr>me_addr = 0x8000, me_len = 0x8000, me_type = MM_SEC_ENTRY_USABLE\<rparr>]"

abbreviation demo_globals :: pfn_globals where
  "demo_globals \<equiv> \<lparr>section_map = demo_sections, g_pfn_end = 16\<rparr>"

abbreviation demo_buddy :: buddy where
  "demo_buddy \<equiv> \<lparr>links = (\<lambda>_. \<lparr>prev = None, next = None\<rparr>),
     pages = build_metadata_init demo_sections (\<lambda>_. \<lparr>flags = 0, refcount = 0, buddy_order = 0\<rparr>),
     max_order = 0, free_pages = 0, reserved_pages = 0, total_pages = 0\<rparr>"

lemma demo_ok: "sections_ok demo_sections" "separated demo_sections"
  "x \<in> set demo_sections \<Longrightarrow> pfn_end (meta_ranges_for_entry x) \<le> 16" "usable_ranges demo_sections = {8..<16}"
proof -
  have f: "{e \<in> set demo_sections. me_type e = MM_SEC_ENTRY_USABLE} =
      {\<lparr>me_addr = 0x8000, me_len = 0x8000, me_type = MM_SEC_ENTRY_USABLE\<rparr>}" by auto
  show "usable_ranges demo_sections = {8..<16}"
    unfolding f by (simp add: entry_pfns_unfold)
qed (auto simp: sections_ok_def separated_def wf_entry_def hi_def lo_def entry_pfns_unfold)

lemma demo_create:
  "\<exists>b F. buddy_create demo_globals demo_buddy demo_sections = Some b \<and> buddy_inv demo_globals b F \<and>
     coalesced (max_order b) F \<and> free_set F = {8..<16}"
  using buddy_create_ok [of demo_sections demo_globals demo_buddy "\<lambda>_. \<lparr>flags = 0, refcount = 0, buddy_order = 0\<rparr>"]
    demo_ok by auto

text \<open>
  C11. Creating the page allocator from a sorted section map, over page structures initialised by
  \<^verbatim>\<open>pfn_init\<close>, does not panic and establishes the allocator invariant: the free blocks are aligned,
  disjoint, linked in the list of their order and marked as such, and they cover exactly the page
  frames of the usable sections; the counters agree; and if no two usable sections touch, no two
  buddies are free at the same time.
\<close>

theorem buddy_create_correct:
  assumes "sections_ok sec" "separated sec" and "section_map g = sec"
    and "\<And>x. x \<in> set sec \<Longrightarrow> pfn_end (meta_ranges_for_entry x) \<le> g_pfn_end g"
    and "pages b = build_metadata_init sec pages0"
  shows "\<exists>b' F. buddy_create g b sec = Some b' \<and> buddy_inv g b' F \<and> coalesced (max_order b') F \<and>
           free_set F = usable_ranges sec \<and> free_pages b' = card (usable_ranges sec) \<and>
           reserved_pages b' = reserved_count sec \<and> total_pages b' = free_pages b' + reserved_pages b'"
proof -
  from buddy_create_ok [OF assms] obtain b' F where
    b': "buddy_create g b sec = Some b'" "buddy_inv g b' F" "coalesced (max_order b') F"
      "free_set F = usable_ranges sec" "reserved_pages b' = reserved_count sec"
      "total_pages b' = free_pages b' + reserved_pages b'" by blast
  moreover from b'(2,4) have "free_pages b' = card (usable_ranges sec)" by (simp add: buddy_inv_def)
  ultimately show ?thesis by blast
qed

theorem buddy_create_correct_witness:
  "\<exists>b. buddy_create demo_globals demo_buddy demo_sections = Some b \<and> free_pages b = 8 \<and> total_pages b = 8"
  using buddy_create_correct [of demo_sections demo_globals demo_buddy "\<lambda>_. \<lparr>flags = 0, refcount = 0, buddy_order = 0\<rparr>"]
    demo_ok by auto

text \<open>
  C9. \<^verbatim>\<open>buddy_alloc\<close> returns \<^verbatim>\<open>PFN_INVALID\<close>, and changes nothing, exactly when no free block of the
  requested or a higher order is left; otherwise it returns a naturally aligned block of the
  requested order all of whose frames were free, removes exactly these frames from the free set,
  and keeps the invariant, so the splitting is right at every order.
\<close>

theorem buddy_alloc_correct:
  assumes "buddy_inv g b F"
  shows "if \<exists>k. order \<le> k \<and> k \<le> max_order b \<and> F k \<noteq> []
    then \<exists>pfn b' F'. buddy_alloc g b order = Some (Some pfn, b') \<and> buddy_inv g b' F' \<and>
           2 ^ order dvd pfn \<and> blk order pfn \<subseteq> free_set F \<and> free_set F' = free_set F - blk order pfn \<and>
           free_pages b' = free_pages b - 2 ^ order \<and> (coalesced (max_order b) F \<longrightarrow> coalesced (max_order b') F')
    else buddy_alloc g b order = Some (None, b)"
proof (cases "\<exists>k. order \<le> k \<and> k \<le> max_order b \<and> F k \<noteq> []")
  case True
  then have "order \<le> max_order b" by auto
  from buddy_alloc_ok [OF assms this True] obtain pfn b' F' where
    a: "buddy_alloc g b order = Some (Some pfn, b')" "buddy_inv g b' F'" "2 ^ order dvd pfn" "blk order pfn \<subseteq> free_set F"
      "free_set F' = free_set F - blk order pfn" "max_order b' = max_order b"
      "coalesced (max_order b) F \<longrightarrow> coalesced (max_order b) F'" by blast
  moreover have "free_pages b' = free_pages b - 2 ^ order"
    using a(2,4,5) assms card_Diff_subset [of "blk order pfn" "free_set F"] by (simp add: buddy_inv_def)
  ultimately show ?thesis unfolding if_P [OF True] by auto
next
  case False
  then show ?thesis
    unfolding if_not_P [OF False] using assms by (intro buddy_alloc_fail [of g b F]) (auto simp: buddy_inv_def)
qed

theorem buddy_alloc_correct_witness:
  "\<exists>b pfn b'. buddy_create demo_globals demo_buddy demo_sections = Some b \<and>
     buddy_alloc demo_globals b 0 = Some (Some pfn, b') \<and> pfn \<in> {8..<16}"
proof -
  obtain b F where b: "buddy_create demo_globals demo_buddy demo_sections = Some b" "buddy_inv demo_globals b F"
    "free_set F = {8..<16}" using demo_create by blast
  have "8 \<in> free_set F" using b(3) by simp
  then obtain k p where "p \<in> set (F k)" by (auto simp: free_set_def blocks_def)
  moreover from this b(2) have "k \<le> max_order b" using blocks_okD(1) lists_okD(4) unfolding buddy_inv_def by blast
  ultimately have "\<exists>k. 0 \<le> k \<and> k \<le> max_order b \<and> F k \<noteq> []" by force
  from buddy_alloc_correct [OF b(2), of 0, unfolded if_P [OF this]] obtain pfn b' where
    "buddy_alloc demo_globals b 0 = Some (Some pfn, b')" "blk 0 pfn \<subseteq> free_set F" by blast
  with b blk_self [of pfn 0] show ?thesis by blast
qed

text \<open>
  C10. \<^verbatim>\<open>buddy_free\<close> of an aligned block of usable frames that are all in use succeeds: exactly its frames
  join the free set, the counter grows by its size, and merging with free buddies keeps the
  invariant and leaves no two free buddies behind.
\<close>

theorem buddy_free_correct:
  assumes "buddy_inv g b F" and "order \<le> max_order b" "2 ^ order dvd pfn" and "blk order pfn \<subseteq> usable g b"
    and "blk order pfn \<inter> free_set F = {}"
  shows "\<exists>b' F'. buddy_free g b pfn order = Some b' \<and> buddy_inv g b' F' \<and> free_set F' = free_set F \<union> blk order pfn \<and>
           free_pages b' = free_pages b + 2 ^ order \<and> (coalesced (max_order b) F \<longrightarrow> coalesced (max_order b') F')"
proof -
  from buddy_free_ok [OF assms] obtain b' F' where
    b': "buddy_free g b pfn order = Some b'" "buddy_inv g b' F'" "free_set F' = free_set F \<union> blk order pfn"
      "max_order b' = max_order b" "coalesced (max_order b) F \<longrightarrow> coalesced (max_order b) F'" by blast
  moreover have "free_pages b' = free_pages b + 2 ^ order"
    using b'(2,3) assms(1,5) card_Un_disjoint [of "free_set F" "blk order pfn"] finite_free_set [of g b F]
    by (simp add: buddy_inv_def Int_commute)
  ultimately show ?thesis by auto
qed

theorem buddy_free_correct_witness:
  "\<exists>b pfn b' b''. buddy_create demo_globals demo_buddy demo_sections = Some b \<and>
     buddy_alloc demo_globals b 0 = Some (Some pfn, b') \<and> buddy_free demo_globals b' pfn 0 = Some b''"
proof -
  obtain b F where b: "buddy_create demo_globals demo_buddy demo_sections = Some b" "buddy_inv demo_globals b F"
    "free_set F = {8..<16}" using demo_create by blast
  have "8 \<in> free_set F" using b(3) by simp
  then obtain k p where "p \<in> set (F k)" by (auto simp: free_set_def blocks_def)
  moreover from this b(2) have "k \<le> max_order b" using blocks_okD(1) lists_okD(4) unfolding buddy_inv_def by blast
  ultimately have "\<exists>k. 0 \<le> k \<and> k \<le> max_order b \<and> F k \<noteq> []" by force
  from buddy_alloc_ok [OF b(2) _ this] obtain pfn b' F' where
    a: "buddy_alloc demo_globals b 0 = Some (Some pfn, b')" "buddy_inv demo_globals b' F'" "blk 0 pfn \<subseteq> free_set F"
      "free_set F' = free_set F - blk 0 pfn" "usable demo_globals b' = usable demo_globals b" by auto
  have "blk 0 pfn \<subseteq> usable demo_globals b'" "blk 0 pfn \<inter> free_set F' = {}"
    using a b(2) lists_okD(5) unfolding buddy_inv_def by blast+
  with buddy_free_correct [OF a(2), of 0 pfn] b(1) a(1) show ?thesis by auto
qed

text \<open>Freeing a block whose first frame is free already, or is not a usable frame, panics.\<close>

theorem buddy_free_rejects:
  assumes "buddy_inv g b F" and "pfn \<in> free_set F \<or> pfn \<notin> usable g b"
  shows "buddy_free g b pfn order = None"
proof (cases "pfn \<in> usable g b")
  case True
  with assms have "pfn \<in> free_set F" "pfn_is_valid (section_map g) pfn" "pfn < g_pfn_end g"
    using lists_okD(1) usable_valid by (auto simp: buddy_inv_def)
  with assms(1) have "bit (flags (pages b pfn)) 1"
    using lists_okD(6) [of g b F pfn] by (auto simp: buddy_inv_def page_ok_def)
  with \<open>pfn < g_pfn_end g\<close> show ?thesis
    by (auto simp: buddy_free_def page_at_def pfn_to_page_def flag_bits order_pages_def kassert_def Option.bind_eq_None_conv)
next
  case False
  with assms(1) have "page_is_usable g b pfn = Some False"
    using lists_okD(1) [of g b F pfn]
    by (auto simp: page_is_usable_def usable_def flag_bits page_at_def pfn_to_page_def buddy_inv_def)
  then show ?thesis by (simp add: buddy_free_def kassert_def)
qed

theorem buddy_free_rejects_witness:
  "\<exists>b. buddy_create demo_globals demo_buddy demo_sections = Some b \<and> buddy_free demo_globals b 9 0 = None"
proof -
  obtain b F where b: "buddy_create demo_globals demo_buddy demo_sections = Some b" "buddy_inv demo_globals b F"
    "free_set F = {8..<16}" using demo_create by blast
  with buddy_free_rejects [of demo_globals b F 9 0] show ?thesis by auto
qed

text \<open>
  C1. In every state that any sequence of allocations and releases can reach from a freshly created
  allocator, the blocks in use are pairwise disjoint and disjoint from the free frames, together
  they are exactly the frames the allocator started with, no two buddies are free, and no next
  call panics: an allocation of any order returns, and every block in use can be released.
\<close>

theorem buddy_run_safe:
  assumes "buddy_inv g b0 F0" and "coalesced (max_order b0) F0" and "buddy_run g b0 b A"
  shows "\<exists>F. buddy_inv g b F \<and> coalesced (max_order b) F \<and> free_set F \<union> used_set A = free_set F0 \<and>
           free_set F \<inter> used_set A = {} \<and>
           (\<forall>x \<in> A. \<forall>y \<in> A. x \<noteq> y \<longrightarrow> used_set {x} \<inter> used_set {y} = {}) \<and>
           (\<forall>k. buddy_alloc g b k \<noteq> None) \<and> (\<forall>(k, p) \<in> A. buddy_free g b p k \<noteq> None)"
proof -
  from buddy_run_inv [OF assms(3) run_inv_start [OF assms(1,2)]] obtain F where F: "run_inv g (free_set F0) b A F" by blast
  have "buddy_alloc g b k \<noteq> None" for k using run_inv_alloc [OF F, of k] by auto
  moreover have "\<forall>(k, p) \<in> A. buddy_free g b p k \<noteq> None" using run_inv_free [OF F] by fastforce
  ultimately show ?thesis using F unfolding run_inv_def by blast
qed

theorem buddy_run_safe_witness:
  "\<exists>b F. buddy_create demo_globals demo_buddy demo_sections = Some b \<and> buddy_inv demo_globals b F \<and>
     free_set F = {8..<16} \<and> (\<forall>k. buddy_alloc demo_globals b k \<noteq> None)"
proof -
  obtain b F where b: "buddy_create demo_globals demo_buddy demo_sections = Some b" "buddy_inv demo_globals b F"
    "coalesced (max_order b) F" "free_set F = {8..<16}" using demo_create by blast
  with buddy_run_safe [OF b(2,3) start] show ?thesis by auto
qed

end
