(* ===== verification/Mm_Vmap.thy ===== *)
theory Mm_Vmap
  imports Kc_Stdlib
begin

text \<open>
  \<open>kernel/src/mm/vmap.c\<close>: the allocator of kernel virtual ranges for device memory. The state is
  the array of free ranges, in address order, and the sequence of calls made to the page table.
  Physical addresses are 64-bit words; virtual ones are naturals, which do not wrap because all
  of them lie between \<^verbatim>\<open>VMAP_START_VIRT\<close> and \<^verbatim>\<open>VMAP_END_VIRT\<close>. The interrupt lock makes each
  operation atomic and is not modelled.
\<close>

section \<open>Model\<close>

abbreviation PAGE_SIZE :: nat where "PAGE_SIZE \<equiv> 4096"
abbreviation VMAP_START_VIRT :: nat where "VMAP_START_VIRT \<equiv> 0xffffcb0000000000"
abbreviation VMAP_END_VIRT :: nat where "VMAP_END_VIRT \<equiv> 0xffffeb0000000000"
abbreviation MAX_VMAP_ENTRIES :: nat where "MAX_VMAP_ENTRIES \<equiv> 128"

record vmap_entry =
  ve_addr :: nat
  ve_len :: nat

datatype pagetable_call = PtMap nat u64 u64 | PtUnmap nat nat

record vmap =
  g_vmap_entries :: "vmap_entry list"
  pt_calls :: "pagetable_call list"

record span =
  span_ptr :: nat
  span_size :: nat

definition remove_entry :: "vmap_entry list \<Rightarrow> nat \<Rightarrow> vmap_entry list option" where
  "remove_entry es idx = do {
     kassert (idx < length es);
     Some (take idx es @ drop (idx + 1) es)
   }"

definition insert_entry :: "vmap_entry list \<Rightarrow> nat \<Rightarrow> nat \<Rightarrow> nat \<Rightarrow> vmap_entry list option" where
  "insert_entry es idx addr len = do {
     kassert (length es < MAX_VMAP_ENTRIES);
     kassert (idx \<le> length es);
     Some (take idx es @ \<lparr>ve_addr = addr, ve_len = len\<rparr> # drop idx es)
   }"

definition mm_vmap_init :: vmap where
  "mm_vmap_init = \<lparr>g_vmap_entries = [\<lparr>ve_addr = VMAP_START_VIRT, ve_len = VMAP_END_VIRT - VMAP_START_VIRT\<rparr>], pt_calls = []\<rparr>"

text \<open>The loop of \<^verbatim>\<open>mm_vmap_alloc\<close> over the free ranges.\<close>

function alloc_loop :: "vmap \<Rightarrow> u64 \<Rightarrow> u64 \<Rightarrow> u64 \<Rightarrow> nat \<Rightarrow> ((nat \<times> span) option \<times> vmap) option" where
  "alloc_loop vm pa aligned_start aligned_size i =
     (if i < length (g_vmap_entries vm) then
        let entry = g_vmap_entries vm ! i; n = unat aligned_size
        in if ve_len entry < n then alloc_loop vm pa aligned_start aligned_size (i + 1)
           else do {
             let va_base = ve_addr entry;
             es \<leftarrow> (if ve_len entry = n then remove_entry (g_vmap_entries vm) i
                    else Some ((g_vmap_entries vm)[i := \<lparr>ve_addr = ve_addr entry + n, ve_len = ve_len entry - n\<rparr>]));
             let vm = vm\<lparr>g_vmap_entries := es, pt_calls := pt_calls vm @ [PtMap va_base aligned_start aligned_size]\<rparr>;
             Some (Some (va_base + unat (pa - aligned_start), \<lparr>span_ptr = va_base, span_size = n\<rparr>), vm)
           }
      else Some (None, vm))"
  by pat_completeness auto
termination
  by (relation "measure (\<lambda>(vm, pa, s, n, i). length (g_vmap_entries vm) - i)") auto

declare alloc_loop.simps [simp del]

definition mm_vmap_alloc :: "vmap \<Rightarrow> u64 \<Rightarrow> u64 \<Rightarrow> ((nat \<times> span) option \<times> vmap) option" where
  "mm_vmap_alloc vm pa sz =
     (if sz = 0 then Some (None, vm)
      else do {
        let aligned_start = align_floor_sz_p2 pa (2 ^ 12);
        let aligned_end = align_ceil_sz_p2 (pa + sz) (2 ^ 12);
        kassert (aligned_end = 0 \<or> aligned_start < aligned_end);
        let aligned_size = aligned_end - aligned_start;
        if aligned_size = 0 then Some (None, vm) else alloc_loop vm pa aligned_start aligned_size 0
      })"

text \<open>The position at which a released range belongs.\<close>

fun free_index :: "vmap_entry list \<Rightarrow> nat \<Rightarrow> nat" where
  "free_index [] addr = 0"
| "free_index (e # es) addr = (if ve_addr e < addr then free_index es addr + 1 else 0)"

definition ve_end :: "vmap_entry \<Rightarrow> nat" where
  "ve_end e = ve_addr e + ve_len e"

definition mm_vmap_free :: "vmap \<Rightarrow> span \<Rightarrow> vmap option" where
  "mm_vmap_free vm sp =
     (if span_ptr sp = 0 \<or> span_size sp = 0 then Some vm
      else do {
        let addr = span_ptr sp;
        let len = span_size sp;
        let end' = addr + len;
        kassert (addr mod PAGE_SIZE = 0);
        kassert (len mod PAGE_SIZE = 0);
        kassert (VMAP_START_VIRT \<le> addr \<and> addr < VMAP_END_VIRT);
        kassert (len \<le> VMAP_END_VIRT - addr);
        let vm = vm\<lparr>pt_calls := pt_calls vm @ [PtUnmap addr len]\<rparr>;
        let es = g_vmap_entries vm;
        let idx = free_index es addr;
        kassert (idx > 0 \<longrightarrow> ve_end (es ! (idx - 1)) \<le> addr);
        kassert (idx < length es \<longrightarrow> end' \<le> ve_addr (es ! idx));
        let merge_prev = (idx > 0 \<and> ve_end (es ! (idx - 1)) = addr);
        let merge_next = (idx < length es \<and> end' = ve_addr (es ! idx));
        es \<leftarrow>
          (if merge_prev \<and> merge_next then
             remove_entry (es[idx - 1 := (es ! (idx - 1))\<lparr>ve_len := ve_len (es ! (idx - 1)) + len + ve_len (es ! idx)\<rparr>]) idx
           else if merge_prev then
             Some (es[idx - 1 := (es ! (idx - 1))\<lparr>ve_len := ve_len (es ! (idx - 1)) + len\<rparr>])
           else if merge_next then
             Some (es[idx := \<lparr>ve_addr = addr, ve_len = ve_len (es ! idx) + len\<rparr>])
           else insert_entry es idx addr len);
        Some (vm\<lparr>g_vmap_entries := es\<rparr>)
      })"

section \<open>Free ranges\<close>

definition entry_ok :: "vmap_entry \<Rightarrow> bool" where
  "entry_ok e \<longleftrightarrow> 0 < ve_len e \<and> PAGE_SIZE dvd ve_addr e \<and> PAGE_SIZE dvd ve_len e \<and>
     VMAP_START_VIRT \<le> ve_addr e \<and> ve_end e \<le> VMAP_END_VIRT"

text \<open>The ranges are ordered and never touch: neighbours were merged.\<close>

definition before :: "vmap_entry \<Rightarrow> vmap_entry \<Rightarrow> bool" where
  "before e f \<longleftrightarrow> ve_end e < ve_addr f"

definition entries_ok :: "vmap_entry list \<Rightarrow> bool" where
  "entries_ok es \<longleftrightarrow> list_all entry_ok es \<and> sorted_wrt before es"

definition vmap_ok :: "vmap \<Rightarrow> bool" where
  "vmap_ok vm \<longleftrightarrow> entries_ok (g_vmap_entries vm) \<and> length (g_vmap_entries vm) \<le> MAX_VMAP_ENTRIES"

definition range_of :: "vmap_entry \<Rightarrow> nat set" where
  "range_of e = {ve_addr e..<ve_end e}"

definition free_set :: "vmap_entry list \<Rightarrow> nat set" where
  "free_set es = \<Union> (range_of ` set es)"

lemma free_set_simps [simp]:
  "free_set [] = {}" "free_set (e # es) = range_of e \<union> free_set es" "free_set (es @ fs) = free_set es \<union> free_set fs"
  by (auto simp: free_set_def)

lemma entries_ok_append:
  "entries_ok (es @ fs) \<longleftrightarrow> entries_ok es \<and> entries_ok fs \<and> (\<forall>e \<in> set es. \<forall>f \<in> set fs. before e f)"
  by (auto simp: entries_ok_def sorted_wrt_append)

lemma entries_ok_Cons:
  "entries_ok (e # es) \<longleftrightarrow> entry_ok e \<and> entries_ok es \<and> (\<forall>f \<in> set es. before e f)"
  by (auto simp: entries_ok_def)

lemmas entries_ok_simps = entries_ok_append entries_ok_Cons

lemma before_disjoint: "before e f \<Longrightarrow> range_of e \<inter> range_of f = {}"
  by (auto simp: before_def range_of_def)

lemma free_set_bound:
  "\<forall>e \<in> set es. before e f \<Longrightarrow> a \<in> free_set es \<Longrightarrow> a < ve_addr f"
  "\<forall>e \<in> set es. before f e \<Longrightarrow> a \<in> free_set es \<Longrightarrow> ve_end f < a"
  by (fastforce simp: free_set_def before_def range_of_def)+

lemma split_nth: "i < length es \<Longrightarrow> es = take i es @ es ! i # drop (i + 1) es"
  using id_take_nth_drop [of i es] by simp

section \<open>Allocation\<close>

lemma shrink_entry:
  assumes ok: "entries_ok (xs @ e # ys)" and n: "0 < n" "PAGE_SIZE dvd n" "n < ve_len e"
  defines "f \<equiv> \<lparr>ve_addr = ve_addr e + n, ve_len = ve_len e - n\<rparr>"
  shows "entries_ok (xs @ f # ys)" "free_set (xs @ f # ys) = free_set (xs @ e # ys) - {ve_addr e..<ve_addr e + n}"
proof -
  have e: "entry_ok e" "\<forall>x \<in> set xs. before x e" "\<forall>y \<in> set ys. before e y" using ok by (auto simp: entries_ok_simps)
  have end_f: "ve_end f = ve_end e" "ve_addr f = ve_addr e + n" using n by (simp_all add: f_def ve_end_def)
  have "entry_ok f" using e(1) n end_f by (auto simp: entry_ok_def f_def intro: dvd_diff_nat)
  moreover have "before x f" if "before x e" for x using that end_f by (simp add: before_def)
  moreover have "before f y" if "before e y" for y using that end_f by (simp add: before_def)
  ultimately show "entries_ok (xs @ f # ys)" using ok by (auto simp: entries_ok_simps)
  have "range_of f = range_of e - {ve_addr e..<ve_addr e + n}" using end_f by (auto simp: range_of_def)
  moreover have "a \<notin> {ve_addr e..<ve_addr e + n}" if "a \<in> free_set xs \<or> a \<in> free_set ys" for a
    using that free_set_bound [of xs e a] free_set_bound [of ys e a] e n by (auto simp: ve_end_def)
  ultimately show "free_set (xs @ f # ys) = free_set (xs @ e # ys) - {ve_addr e..<ve_addr e + n}" by auto
qed

lemma drop_entry:
  assumes ok: "entries_ok (xs @ e # ys)"
  shows "entries_ok (xs @ ys)" "free_set (xs @ ys) = free_set (xs @ e # ys) - range_of e"
proof -
  have e: "\<forall>x \<in> set xs. before x e" "\<forall>y \<in> set ys. before e y" using ok by (auto simp: entries_ok_simps)
  show "entries_ok (xs @ ys)" using ok by (auto simp: entries_ok_simps)
  have "a \<notin> range_of e" if "a \<in> free_set xs \<or> a \<in> free_set ys" for a
    using that free_set_bound [of xs e a] free_set_bound [of ys e a] e by (auto simp: range_of_def)
  then show "free_set (xs @ ys) = free_set (xs @ e # ys) - range_of e" by auto
qed

text \<open>What an allocation of \<open>n\<close> bytes does to the free ranges.\<close>

definition taken :: "vmap \<Rightarrow> nat \<Rightarrow> nat \<Rightarrow> vmap \<Rightarrow> bool" where
  "taken vm va n vm' \<longleftrightarrow> vmap_ok vm' \<and> PAGE_SIZE dvd va \<and> {va..<va + n} \<subseteq> free_set (g_vmap_entries vm) \<and>
     free_set (g_vmap_entries vm') = free_set (g_vmap_entries vm) - {va..<va + n} \<and>
     length (g_vmap_entries vm') \<le> length (g_vmap_entries vm)"

lemma alloc_loop_ok:
  assumes ok: "vmap_ok vm" and n: "0 < unat sz" "PAGE_SIZE dvd unat sz"
  shows "case List.find (\<lambda>e. unat sz \<le> ve_len e) (drop i (g_vmap_entries vm)) of
      None \<Rightarrow> alloc_loop vm pa st sz i = Some (None, vm)
    | Some e \<Rightarrow> \<exists>vm'. alloc_loop vm pa st sz i =
          Some (Some (ve_addr e + unat (pa - st), \<lparr>span_ptr = ve_addr e, span_size = unat sz\<rparr>), vm') \<and>
        taken vm (ve_addr e) (unat sz) vm' \<and> pt_calls vm' = pt_calls vm @ [PtMap (ve_addr e) st sz]"
proof (induction "length (g_vmap_entries vm) - i" arbitrary: i)
  case 0
  then show ?case by (subst alloc_loop.simps) simp
next
  case (Suc k)
  let ?es = "g_vmap_entries vm"
  let ?e = "?es ! i"
  from Suc.hyps(2) have i: "i < length ?es" by simp
  have d: "drop i ?es = ?e # drop (i + 1) ?es" using i by (simp add: Cons_nth_drop_Suc)
  show ?case
  proof (cases "ve_len ?e < unat sz")
    case True
    have "alloc_loop vm pa st sz i = alloc_loop vm pa st sz (i + 1)"
      using True i by (subst alloc_loop.simps) (simp add: Let_def)
    moreover have "k = length ?es - (i + 1)" using Suc.hyps(2) by simp
    moreover have "List.find (\<lambda>e. unat sz \<le> ve_len e) (drop i ?es) = List.find (\<lambda>e. unat sz \<le> ve_len e) (drop (i + 1) ?es)"
      unfolding d using True by simp
    ultimately show ?thesis using Suc.hyps(1) [of "i + 1"] by (simp only:)
  next
    case False
    let ?xs = "take i ?es" and ?ys = "drop (i + 1) ?es"
    have es: "?es = ?xs @ ?e # ?ys" using split_nth [OF i] .
    have eok: "entries_ok (?xs @ ?e # ?ys)" using ok es by (simp add: vmap_ok_def)
    have oe: "entry_ok ?e" using eok by (simp add: entries_ok_simps)
    define es' where "es' = (if ve_len ?e = unat sz then ?xs @ ?ys
      else ?xs @ \<lparr>ve_addr = ve_addr ?e + unat sz, ve_len = ve_len ?e - unat sz\<rparr> # ?ys)"
    have upd: "?es[i := f] = ?xs @ f # ?ys" for f using i by (simp add: upd_conv_take_nth_drop)
    define vm' where "vm' = vm\<lparr>g_vmap_entries := es', pt_calls := pt_calls vm @ [PtMap (ve_addr ?e) st sz]\<rparr>"
    have "alloc_loop vm pa st sz i = Some (Some (ve_addr ?e + unat (pa - st), \<lparr>span_ptr = ve_addr ?e, span_size = unat sz\<rparr>), vm')"
      using False i by (subst alloc_loop.simps) (auto simp: Let_def remove_entry_def upd vm'_def es'_def)
    moreover have set: "entries_ok es'" "free_set es' = free_set ?es - {ve_addr ?e..<ve_addr ?e + unat sz}"
      using shrink_entry [OF eok n] drop_entry [OF eok] False unfolding es'_def es [symmetric]
      by (simp_all add: range_of_def ve_end_def)
    moreover have "length es' \<le> length ?es"
      using i unfolding es'_def by (cases "length ?es") simp_all
    moreover have "{ve_addr ?e..<ve_addr ?e + unat sz} \<subseteq> free_set ?es"
      using False i by (auto simp: free_set_def range_of_def ve_end_def intro!: bexI [of _ ?e])
    moreover have "PAGE_SIZE dvd ve_addr ?e" using oe by (simp add: entry_ok_def)
    ultimately have "taken vm (ve_addr ?e) (unat sz) vm'" using ok by (simp add: taken_def vmap_ok_def vm'_def)
    then show ?thesis using False d \<open>alloc_loop vm pa st sz i = _\<close> by (simp add: vm'_def)
  qed
qed

section \<open>Release\<close>

lemma free_index_split:
  "\<exists>xs ys. es = xs @ ys \<and> free_index es addr = length xs \<and> (\<forall>e \<in> set xs. ve_addr e < addr) \<and> (ys \<noteq> [] \<longrightarrow> addr \<le> ve_addr (hd ys))"
proof (induction es)
  case (Cons e es)
  then obtain xs ys where "es = xs @ ys" "free_index es addr = length xs" "\<forall>e \<in> set xs. ve_addr e < addr" "ys \<noteq> [] \<longrightarrow> addr \<le> ve_addr (hd ys)"
    by blast
  then show ?case
    by (cases "ve_addr e < addr") (auto intro: exI [of _ "e # xs"] exI [of _ "[]"])
qed simp

text \<open>The overlap checks compare with the neighbours only, which is enough in an ordered array.\<close>

lemma overlap_checks:
  assumes ok: "entries_ok (xs @ ys)" and x: "\<forall>e \<in> set xs. ve_addr e < addr" and y: "ys \<noteq> [] \<longrightarrow> addr \<le> ve_addr (hd ys)" and "0 < len"
  shows "(xs \<noteq> [] \<longrightarrow> ve_end (last xs) \<le> addr) \<and> (ys \<noteq> [] \<longrightarrow> addr + len \<le> ve_addr (hd ys)) \<longleftrightarrow>
    free_set (xs @ ys) \<inter> {addr..<addr + len} = {}"
proof -
  have "(xs \<noteq> [] \<longrightarrow> ve_end (last xs) \<le> addr) \<longleftrightarrow> free_set xs \<inter> {addr..<addr + len} = {}"
  proof (cases xs rule: rev_cases)
    case (snoc zs p)
    have z: "\<forall>e \<in> set zs. before e p" using ok snoc by (simp add: entries_ok_simps)
    have "free_set zs \<inter> {addr..<addr + len} = {}" using free_set_bound(1) [OF z] x snoc by fastforce
    moreover have "range_of p \<inter> {addr..<addr + len} = {} \<longleftrightarrow> ve_end p \<le> addr"
    proof
      assume d: "range_of p \<inter> {addr..<addr + len} = {}"
      have "addr \<in> {addr..<addr + len}" using assms(4) by simp
      then have "addr \<notin> range_of p" using d by blast
      then show "ve_end p \<le> addr" using x snoc by (auto simp: range_of_def)
    qed (auto simp: range_of_def)
    ultimately show ?thesis using snoc by auto
  qed simp
  moreover have "(ys \<noteq> [] \<longrightarrow> addr + len \<le> ve_addr (hd ys)) \<longleftrightarrow> free_set ys \<inter> {addr..<addr + len} = {}"
  proof (cases ys)
    case (Cons n zs)
    have z: "\<forall>e \<in> set zs. before n e" and n: "entry_ok n" using ok Cons by (simp_all add: entries_ok_simps)
    have "ve_addr n < ve_end n" using n by (simp add: entry_ok_def ve_end_def)
    then have "range_of n \<inter> {addr..<addr + len} = {} \<longleftrightarrow> addr + len \<le> ve_addr n"
      using y Cons by (auto simp: range_of_def disjoint_iff)
    moreover have "free_set zs \<inter> {addr..<addr + len} = {}" if "addr + len \<le> ve_addr n"
      using free_set_bound(2) [OF z] that \<open>ve_addr n < ve_end n\<close> by fastforce
    ultimately show ?thesis using Cons by auto
  qed simp
  ultimately show ?thesis by auto
qed

text \<open>Putting a range between its neighbours, merged with those it touches.\<close>

definition released :: "vmap_entry list \<Rightarrow> nat \<Rightarrow> nat \<Rightarrow> vmap_entry list \<Rightarrow> bool" where
  "released es addr len es' \<longleftrightarrow> entries_ok es' \<and> free_set es' = free_set es \<union> {addr..<addr + len} \<and> length es' \<le> length es + 1"

definition range_ok :: "nat \<Rightarrow> nat \<Rightarrow> bool" where
  "range_ok addr len \<longleftrightarrow> 0 < len \<and> PAGE_SIZE dvd addr \<and> PAGE_SIZE dvd len \<and> VMAP_START_VIRT \<le> addr \<and> addr + len \<le> VMAP_END_VIRT"

lemma release_both:
  assumes "entries_ok (xs @ p # n # ys)" "range_ok addr len" "ve_end p = addr" "addr + len = ve_addr n"
  shows "released (xs @ p # n # ys) addr len (xs @ p\<lparr>ve_len := ve_len p + len + ve_len n\<rparr> # ys)"
proof -
  let ?m = "p\<lparr>ve_len := ve_len p + len + ve_len n\<rparr>"
  have m: "ve_addr ?m = ve_addr p" "ve_end ?m = ve_end n" "entry_ok ?m"
    using assms by (auto simp: ve_end_def entry_ok_def entries_ok_simps range_ok_def)
  have "range_of ?m = range_of p \<union> {addr..<addr + len} \<union> range_of n"
    using assms m by (auto simp: range_of_def entry_ok_def entries_ok_simps ve_end_def)
  moreover have "before ?m y \<longleftrightarrow> before n y" "before y ?m \<longleftrightarrow> before y p" for y using m by (simp_all add: before_def)
  ultimately show ?thesis using assms(1) m(3) by (auto simp: released_def entries_ok_simps)
qed

lemma release_prev:
  assumes "entries_ok (xs @ p # ys)" "range_ok addr len" "ve_end p = addr" "\<forall>y \<in> set ys. addr + len < ve_addr y"
  shows "released (xs @ p # ys) addr len (xs @ p\<lparr>ve_len := ve_len p + len\<rparr> # ys)"
proof -
  let ?m = "p\<lparr>ve_len := ve_len p + len\<rparr>"
  have m: "ve_addr ?m = ve_addr p" "ve_end ?m = addr + len" "entry_ok ?m"
    using assms(1-3) by (auto simp: ve_end_def entry_ok_def entries_ok_simps range_ok_def)
  have "range_of ?m = range_of p \<union> {addr..<addr + len}"
    using assms(1-3) m by (auto simp: range_of_def entry_ok_def entries_ok_simps ve_end_def)
  moreover have "before ?m y \<longleftrightarrow> addr + len < ve_addr y" "before y ?m \<longleftrightarrow> before y p" for y using m by (simp_all add: before_def)
  ultimately show ?thesis using assms(1,4) m(3) by (auto simp: released_def entries_ok_simps)
qed

lemma release_next:
  assumes "entries_ok (xs @ n # ys)" "range_ok addr len" "addr + len = ve_addr n" "\<forall>x \<in> set xs. ve_end x < addr"
  shows "released (xs @ n # ys) addr len (xs @ \<lparr>ve_addr = addr, ve_len = ve_len n + len\<rparr> # ys)"
proof -
  let ?m = "\<lparr>ve_addr = addr, ve_len = ve_len n + len\<rparr>"
  have m: "ve_addr ?m = addr" "ve_end ?m = ve_end n" "entry_ok ?m"
    using assms(1-3) by (auto simp: ve_end_def entry_ok_def entries_ok_simps range_ok_def)
  have "range_of ?m = {addr..<addr + len} \<union> range_of n"
    using assms(1-3) m by (auto simp: range_of_def entry_ok_def entries_ok_simps ve_end_def)
  moreover have "before ?m y \<longleftrightarrow> before n y" "before y ?m \<longleftrightarrow> ve_end y < addr" for y using m by (simp_all add: before_def)
  ultimately show ?thesis using assms(1,4) m(3) by (auto simp: released_def entries_ok_simps)
qed

lemma release_new:
  assumes "entries_ok (xs @ ys)" "range_ok addr len" "\<forall>x \<in> set xs. ve_end x < addr" "\<forall>y \<in> set ys. addr + len < ve_addr y"
  shows "released (xs @ ys) addr len (xs @ \<lparr>ve_addr = addr, ve_len = len\<rparr> # ys)"
  using assms by (auto simp: released_def entries_ok_simps before_def ve_end_def entry_ok_def range_ok_def range_of_def)

text \<open>The array updates of the code at the position found, as lists around that position.\<close>

lemma mm_vmap_free_eq:
  assumes ok: "entries_ok (g_vmap_entries vm)" and r: "range_ok addr len"
    and dis: "free_set (g_vmap_entries vm) \<inter> {addr..<addr + len} = {}"
    and room: "length (g_vmap_entries vm) < MAX_VMAP_ENTRIES"
  shows "\<exists>es'. mm_vmap_free vm \<lparr>span_ptr = addr, span_size = len\<rparr> =
      Some (vm\<lparr>pt_calls := pt_calls vm @ [PtUnmap addr len], g_vmap_entries := es'\<rparr>) \<and> released (g_vmap_entries vm) addr len es'"
proof -
  let ?es = "g_vmap_entries vm"
  obtain xs ys where es: "?es = xs @ ys" and idx: "free_index ?es addr = length xs"
    and x: "\<forall>e \<in> set xs. ve_addr e < addr" and y: "ys \<noteq> [] \<longrightarrow> addr \<le> ve_addr (hd ys)"
    using free_index_split by blast
  have len: "0 < len" using r by (simp add: range_ok_def)
  have chk: "xs \<noteq> [] \<longrightarrow> ve_end (last xs) \<le> addr" "ys \<noteq> [] \<longrightarrow> addr + len \<le> ve_addr (hd ys)"
    using overlap_checks [OF ok [unfolded es] x y len] dis es by simp_all
  have oke: "entries_ok (xs @ ys)" using ok es by simp
  have guard: "addr \<noteq> 0" "addr mod PAGE_SIZE = 0" "len mod PAGE_SIZE = 0" "VMAP_START_VIRT \<le> addr" "addr < VMAP_END_VIRT" "len \<le> VMAP_END_VIRT - addr"
    using r by (auto simp: range_ok_def)
  have xp: "\<forall>e \<in> set zs. ve_end e < ve_addr p" if "xs = zs @ [p]" for zs p using oke that by (auto simp: entries_ok_simps before_def)
  have yn: "\<forall>e \<in> set zs. ve_end n < ve_addr e" if "ys = n # zs" for zs n using oke that by (auto simp: entries_ok_simps before_def)
  have pe: "ve_addr e < ve_end e" if "e \<in> set (xs @ ys)" for e using oke that by (auto simp: entries_ok_def list_all_iff entry_ok_def ve_end_def)
  define mp where "mp \<longleftrightarrow> xs \<noteq> [] \<and> ve_end (last xs) = addr"
  define mn where "mn \<longleftrightarrow> ys \<noteq> [] \<and> addr + len = ve_addr (hd ys)"
  have xlt: "\<forall>e \<in> set xs. ve_end e < addr" if "\<not> mp"
  proof (cases xs rule: rev_cases)
    case (snoc zs p)
    then show ?thesis using that chk(1) xp [OF snoc] pe [of p] x by (auto simp: mp_def)
  qed simp
  have ylt: "\<forall>e \<in> set ys. addr + len < ve_addr e" if "\<not> mn"
  proof (cases ys)
    case (Cons n zs)
    then show ?thesis using that chk(2) yn [OF Cons] pe [of n] by (force simp: mn_def)
  qed simp
  have call: "mm_vmap_free vm \<lparr>span_ptr = addr, span_size = len\<rparr> = do {
      es \<leftarrow> (if mp \<and> mn then remove_entry ((xs @ ys)[length xs - 1 := (last xs)\<lparr>ve_len := ve_len (last xs) + len + ve_len (hd ys)\<rparr>]) (length xs)
             else if mp then Some ((xs @ ys)[length xs - 1 := (last xs)\<lparr>ve_len := ve_len (last xs) + len\<rparr>])
             else if mn then Some ((xs @ ys)[length xs := \<lparr>ve_addr = addr, ve_len = ve_len (hd ys) + len\<rparr>])
             else insert_entry (xs @ ys) (length xs) addr len);
      Some (vm\<lparr>pt_calls := pt_calls vm @ [PtUnmap addr len], g_vmap_entries := es\<rparr>)}"
  proof -
    have p: "length xs > 0 \<longleftrightarrow> xs \<noteq> []" "xs \<noteq> [] \<Longrightarrow> (xs @ ys) ! (length xs - 1) = last xs" by (auto simp: nth_append last_conv_nth)
    have n: "length xs < length (xs @ ys) \<longleftrightarrow> ys \<noteq> []" "ys \<noteq> [] \<Longrightarrow> (xs @ ys) ! length xs = hd ys" by (auto simp: nth_append hd_conv_nth)
    have e: "(if mp \<and> mn then a ((xs @ ys) ! (length xs - 1)) ((xs @ ys) ! length xs) else if mp then b ((xs @ ys) ! (length xs - 1))
       else if mn then c ((xs @ ys) ! length xs) else d) = (if mp \<and> mn then a (last xs) (hd ys) else if mp then b (last xs)
       else if mn then c (hd ys) else d)" for a b c and d :: "vmap_entry list option"
      using p(2) n(2) by (auto simp: mp_def mn_def)
    have mp': "(length xs > 0 \<and> ve_end ((xs @ ys) ! (length xs - 1)) = addr) = mp" using p by (auto simp: mp_def)
    have mn': "(length xs < length (xs @ ys) \<and> addr + len = ve_addr ((xs @ ys) ! length xs)) = mn" using n by (auto simp: mn_def)
    have c: "length xs > 0 \<longrightarrow> ve_end ((xs @ ys) ! (length xs - 1)) \<le> addr"
      "length xs < length (xs @ ys) \<longrightarrow> addr + len \<le> ve_addr ((xs @ ys) ! length xs)" using chk p n by auto
    have k: "kassert (addr mod PAGE_SIZE = 0) = Some ()" "kassert (len mod PAGE_SIZE = 0) = Some ()"
      "kassert (VMAP_START_VIRT \<le> addr \<and> addr < VMAP_END_VIRT) = Some ()" "kassert (len \<le> VMAP_END_VIRT - addr) = Some ()"
      "kassert (length xs > 0 \<longrightarrow> ve_end ((xs @ ys) ! (length xs - 1)) \<le> addr) = Some ()"
      "kassert (length xs < length (xs @ ys) \<longrightarrow> addr + len \<le> ve_addr ((xs @ ys) ! length xs)) = Some ()"
      using guard c by simp_all
    have idx': "free_index (xs @ ys) addr = length xs" using idx es by simp
    have z: "\<not> (addr = 0 \<or> len = 0)" using guard(1) len by simp
    have g: "g_vmap_entries (vm\<lparr>pt_calls := c\<rparr>) = xs @ ys" for c using es by simp
    show ?thesis
      unfolding mm_vmap_free_def span.simps if_not_P [OF z] Let_def g idx' mp' mn' k bind.bind_lunit
        e [where a = "\<lambda>p n. remove_entry ((xs @ ys)[length xs - 1 := p\<lparr>ve_len := ve_len p + len + ve_len n\<rparr>]) (length xs)"
          and b = "\<lambda>p. Some ((xs @ ys)[length xs - 1 := p\<lparr>ve_len := ve_len p + len\<rparr>])"
          and c = "\<lambda>n. Some ((xs @ ys)[length xs := \<lparr>ve_addr = addr, ve_len = ve_len n + len\<rparr>])"]
      by (rule refl)
  qed
  have xne: "\<exists>zs p. xs = zs @ [p]" if mp using that unfolding mp_def by (metis append_butlast_last_id)
  have yne: "\<exists>n us. ys = n # us" if mn using that unfolding mn_def by (metis list.exhaust)
  consider (both) zs p n us where "mp" "mn" "xs = zs @ [p]" "ys = n # us" | (prev) zs p where "mp" "\<not> mn" "xs = zs @ [p]"
    | (nxt) n us where "\<not> mp" "mn" "ys = n # us" | (new) "\<not> mp" "\<not> mn"
    using xne yne by blast
  then show ?thesis
  proof cases
    case both
    have o: "entries_ok (zs @ p # n # us)" using oke both by simp
    have "remove_entry ((xs @ ys)[length xs - 1 := (last xs)\<lparr>ve_len := ve_len (last xs) + len + ve_len (hd ys)\<rparr>]) (length xs) =
        Some (zs @ p\<lparr>ve_len := ve_len p + len + ve_len n\<rparr> # us)"
      using both by (simp add: remove_entry_def list_update_append)
    with release_both [OF o r] both call es show ?thesis by (auto simp: mp_def mn_def)
  next
    case prev
    have o: "entries_ok (zs @ p # ys)" using oke prev by simp
    have "(xs @ ys)[length xs - 1 := (last xs)\<lparr>ve_len := ve_len (last xs) + len\<rparr>] = zs @ p\<lparr>ve_len := ve_len p + len\<rparr> # ys"
      using prev by (simp add: list_update_append)
    with release_prev [OF o r _ ylt [OF prev(2)]] prev call es show ?thesis by (auto simp: mp_def)
  next
    case nxt
    have o: "entries_ok (xs @ n # us)" using oke nxt by simp
    with release_next [OF o r _ xlt [OF nxt(1)]] nxt call es show ?thesis by (auto simp: mn_def)
  next
    case new
    with release_new [OF oke r xlt [OF new(1)] ylt [OF new(2)]] call es room show ?thesis by (auto simp: insert_entry_def)
  qed
qed

section \<open>Properties\<close>

lemma unat_align_ceil_12:
  assumes "unat x + 4095 < 2 ^ 64"
  shows "unat (align_ceil_sz_p2 x (2 ^ 12)) = (unat x + 4095) div 4096 * 4096"
  using unat_align_ceil [of 12 x] assms by simp

lemma unat_align_floor_12: "unat (align_floor_sz_p2 x (2 ^ 12)) = unat x div 4096 * 4096"
  using unat_align_floor [of 12 x] by simp

text \<open>The pages around a physical range.\<close>

definition pages_around :: "u64 \<Rightarrow> u64 \<Rightarrow> nat" where
  "pages_around pa sz = (unat pa + unat sz + 4095) div 4096 * 4096 - unat pa div 4096 * 4096"

lemma alloc_call:
  assumes sz: "sz \<noteq> 0" and nw: "unat pa + unat sz + 4095 < 2 ^ 64"
  shows "\<exists>st n. mm_vmap_alloc vm pa sz = alloc_loop vm pa st n 0 \<and> unat n = pages_around pa sz \<and>
    unat st = unat pa div 4096 * 4096 \<and> unat (pa - st) = unat pa mod 4096 \<and>
    unat pa mod 4096 + unat sz \<le> unat n \<and> PAGE_SIZE dvd unat n \<and> 0 < unat n"
proof -
  let ?st = "align_floor_sz_p2 pa (2 ^ 12)" and ?en = "align_ceil_sz_p2 (pa + sz) (2 ^ 12)"
  have sum: "unat (pa + sz) = unat pa + unat sz" using nw by (intro unat_add_no_wrap) simp
  have st: "unat ?st = unat pa div 4096 * 4096" by (rule unat_align_floor_12)
  have en: "unat ?en = (unat pa + unat sz + 4095) div 4096 * 4096" using unat_align_ceil_12 [of "pa + sz"] sum nw by simp
  have szp: "0 < unat sz" using sz by (simp add: unat_gt_0)
  have le: "unat pa + unat sz \<le> unat ?en" "unat ?st \<le> unat pa" unfolding en st by linarith+
  then have lt: "unat ?st < unat ?en" using szp by linarith
  have n: "unat (?en - ?st) = unat ?en - unat ?st" using lt by (intro unat_sub_no_wrap) simp
  have off: "unat (pa - ?st) = unat pa mod 4096"
    using unat_sub_no_wrap [of ?st pa] le(2) st by (simp add: minus_div_mult_eq_mod)
  have "\<not> (?en - ?st = 0)" using n lt by (metis diff_is_0_eq not_less unat_0)
  then have "mm_vmap_alloc vm pa sz = alloc_loop vm pa ?st (?en - ?st) 0"
    using sz lt by (simp add: mm_vmap_alloc_def Let_def word_less_nat_alt)
  moreover have "PAGE_SIZE dvd unat (?en - ?st)" unfolding n en st by (simp add: dvd_diff_nat)
  moreover have "unat pa mod 4096 + unat sz \<le> unat (?en - ?st)"
    using le(1) div_mult_mod_eq [of "unat pa" 4096] unfolding n st by linarith
  ultimately show ?thesis using n en st off lt unfolding pages_around_def by (intro exI [of _ ?st] exI [of _ "?en - ?st"]) simp
qed

text \<open>
  C40. \<^verbatim>\<open>mm_vmap_alloc\<close> of a physical range that does not reach the end of the address space: the
  first free virtual range that is large enough for the pages around it gives up exactly those
  pages from its front, they are mapped in one call to the page table, the returned pointer has
  the offset of the physical address in its page and the whole physical range fits behind it;
  without such a free range the call returns null and changes nothing.
\<close>

theorem mm_vmap_alloc_correct:
  assumes "vmap_ok vm" and "sz \<noteq> 0" and "unat pa + unat sz + 4095 < 2 ^ 64"
  shows "case List.find (\<lambda>e. pages_around pa sz \<le> ve_len e) (g_vmap_entries vm) of
      None \<Rightarrow> mm_vmap_alloc vm pa sz = Some (None, vm)
    | Some e \<Rightarrow> \<exists>vm' st n. mm_vmap_alloc vm pa sz =
          Some (Some (ve_addr e + unat pa mod 4096, \<lparr>span_ptr = ve_addr e, span_size = pages_around pa sz\<rparr>), vm') \<and>
        taken vm (ve_addr e) (pages_around pa sz) vm' \<and> unat pa mod 4096 + unat sz \<le> pages_around pa sz \<and>
        pt_calls vm' = pt_calls vm @ [PtMap (ve_addr e) st n] \<and> unat st = unat pa div 4096 * 4096 \<and> unat n = pages_around pa sz"
proof -
  obtain st n where a: "mm_vmap_alloc vm pa sz = alloc_loop vm pa st n 0" "unat n = pages_around pa sz"
    "unat st = unat pa div 4096 * 4096" "unat (pa - st) = unat pa mod 4096" "unat pa mod 4096 + unat sz \<le> unat n"
    "PAGE_SIZE dvd unat n" "0 < unat n"
    using alloc_call [OF assms(2,3), of vm] by blast
  from alloc_loop_ok [OF assms(1) a(7,6), where i = 0 and pa = pa and st = st] show ?thesis
    unfolding a(1) a(2,4) [symmetric] using a(3-5) by (auto simp: a(2) [symmetric] split: option.splits)
qed

text \<open>
  \<^verbatim>\<open>mm_vmap_free\<close> of a page-aligned range of the window that is not free makes exactly that
  range free again, merged with the free ranges it touches, and unmaps it, as long as the array
  has room for one more range.
\<close>

theorem mm_vmap_free_correct:
  assumes "vmap_ok vm" "range_ok addr len" "free_set (g_vmap_entries vm) \<inter> {addr..<addr + len} = {}"
    "length (g_vmap_entries vm) < MAX_VMAP_ENTRIES"
  shows "\<exists>vm'. mm_vmap_free vm \<lparr>span_ptr = addr, span_size = len\<rparr> = Some vm' \<and> vmap_ok vm' \<and>
    free_set (g_vmap_entries vm') = free_set (g_vmap_entries vm) \<union> {addr..<addr + len} \<and>
    pt_calls vm' = pt_calls vm @ [PtUnmap addr len]"
  using mm_vmap_free_eq [OF _ assms(2-4)] assms(1,4) by (fastforce simp: vmap_ok_def released_def)

text \<open>Releasing a range that overlaps a free range, a double free in particular, panics.\<close>

theorem mm_vmap_free_rejects:
  assumes "vmap_ok vm" "addr \<noteq> 0" "0 < len" "free_set (g_vmap_entries vm) \<inter> {addr..<addr + len} \<noteq> {}"
  shows "mm_vmap_free vm \<lparr>span_ptr = addr, span_size = len\<rparr> = None"
proof -
  let ?es = "g_vmap_entries vm"
  obtain xs ys where es: "?es = xs @ ys" and idx: "free_index ?es addr = length xs"
    and x: "\<forall>e \<in> set xs. ve_addr e < addr" and y: "ys \<noteq> [] \<longrightarrow> addr \<le> ve_addr (hd ys)"
    using free_index_split by blast
  have "entries_ok (xs @ ys)" using assms(1) es by (simp add: vmap_ok_def)
  from overlap_checks [OF this x y assms(3)] assms(4) es
  have "\<not> ((xs \<noteq> [] \<longrightarrow> ve_end (last xs) \<le> addr) \<and> (ys \<noteq> [] \<longrightarrow> addr + len \<le> ve_addr (hd ys)))" by simp
  then have "\<not> (0 < length xs \<longrightarrow> ve_end ((xs @ ys) ! (length xs - 1)) \<le> addr) \<or>
      \<not> (length xs < length (xs @ ys) \<longrightarrow> addr + len \<le> ve_addr ((xs @ ys) ! length xs))"
    by (auto simp: nth_append last_conv_nth hd_conv_nth)
  moreover have z: "\<not> (addr = 0 \<or> len = 0)" using assms(2,3) by simp
  have g: "g_vmap_entries (vm\<lparr>pt_calls := c\<rparr>) = xs @ ys" for c using es by simp
  have idx': "free_index (xs @ ys) addr = length xs" using idx es by simp
  have "(0 < length xs \<longrightarrow> ve_end ((xs @ ys) ! (length xs - 1)) \<le> addr) \<and>
      (length xs < length (xs @ ys) \<longrightarrow> addr + len \<le> ve_addr ((xs @ ys) ! length xs))"
    if "mm_vmap_free vm \<lparr>span_ptr = addr, span_size = len\<rparr> = Some r" for r
    using that unfolding mm_vmap_free_def span.simps if_not_P [OF z] Let_def g idx' kassert_bind_Some_iff by blast
  ultimately show ?thesis by (cases "mm_vmap_free vm \<lparr>span_ptr = addr, span_size = len\<rparr>") blast+
qed

subsection \<open>Witnesses\<close>

lemma init_ok: "vmap_ok mm_vmap_init"
  by (simp add: vmap_ok_def mm_vmap_init_def entries_ok_def entry_ok_def ve_end_def)

theorem mm_vmap_alloc_correct_witness:
  "\<exists>vm'. mm_vmap_alloc mm_vmap_init 0xfee00010 0x20 =
     Some (Some (VMAP_START_VIRT + 0x10, \<lparr>span_ptr = VMAP_START_VIRT, span_size = 4096\<rparr>), vm') \<and> vmap_ok vm'"
  using mm_vmap_alloc_correct [OF init_ok, of "0x20" "0xfee00010"]
  by (auto simp: mm_vmap_init_def pages_around_def taken_def)

definition used_vmap :: vmap where
  "used_vmap = \<lparr>g_vmap_entries = [\<lparr>ve_addr = VMAP_START_VIRT + 8192, ve_len = 4096\<rparr>], pt_calls = []\<rparr>"

lemma used_ok: "vmap_ok used_vmap"
  by (simp add: vmap_ok_def used_vmap_def entries_ok_def entry_ok_def ve_end_def)

theorem mm_vmap_free_correct_witness:
  "\<exists>vm'. mm_vmap_free used_vmap \<lparr>span_ptr = VMAP_START_VIRT, span_size = 8192\<rparr> = Some vm' \<and> vmap_ok vm'"
proof -
  have "range_ok VMAP_START_VIRT 8192" by (simp add: range_ok_def)
  moreover have "free_set (g_vmap_entries used_vmap) \<inter> {VMAP_START_VIRT..<VMAP_START_VIRT + 8192} = {}"
    "length (g_vmap_entries used_vmap) < MAX_VMAP_ENTRIES"
    by (auto simp: used_vmap_def range_of_def ve_end_def)
  ultimately show ?thesis using mm_vmap_free_correct [OF used_ok] by blast
qed

theorem mm_vmap_free_rejects_witness:
  "mm_vmap_free used_vmap \<lparr>span_ptr = VMAP_START_VIRT, span_size = 12288\<rparr> = None"
proof -
  have "VMAP_START_VIRT + 8192 \<in> free_set (g_vmap_entries used_vmap) \<inter> {VMAP_START_VIRT..<VMAP_START_VIRT + 12288}"
    by (simp add: used_vmap_def range_of_def ve_end_def)
  then have "free_set (g_vmap_entries used_vmap) \<inter> {VMAP_START_VIRT..<VMAP_START_VIRT + 12288} \<noteq> {}" by blast
  from mm_vmap_free_rejects [OF used_ok _ _ this] show ?thesis by simp
qed

end
