(* ===== verification/Mm_Provider.thy ===== *)
theory Mm_Provider
  imports Mm_Pfn
begin

text \<open>
  The interface of the page allocator as its clients (the slab allocator and \<^verbatim>\<open>kmalloc\<close>) use it.
  The provider is \<open>mm/mm.c\<close>; its model meets the contract in \<open>Mm_Mm\<close>.
\<close>

section \<open>The contract of a page allocator\<close>

definition block_range :: "nat \<times> nat \<Rightarrow> nat set" where
  "block_range B = {snd B..<snd B + 4096 * 2 ^ fst B}"

text \<open>
  \<open>owns s A\<close> says that in state \<open>s\<close> exactly the blocks \<open>A\<close>, pairs of order and address, are handed out.
\<close>

locale page_provider =
  fixes alloc :: "'s \<Rightarrow> nat \<Rightarrow> (nat option \<times> 's) option"
    and free :: "'s \<Rightarrow> nat \<Rightarrow> nat \<Rightarrow> 's option"
    and owns :: "'s \<Rightarrow> (nat \<times> nat) set \<Rightarrow> bool"
  assumes alloc_law: "owns s A \<Longrightarrow> \<exists>r s'. alloc s k = Some (r, s') \<and>
      (case r of None \<Rightarrow> owns s' A | Some p \<Rightarrow> owns s' (insert (k, p) A) \<and> (k, p) \<notin> A)"
    and free_law: "owns s A \<Longrightarrow> (k, p) \<in> A \<Longrightarrow> \<exists>s'. free s p k = Some s' \<and> owns s' (A - {(k, p)})"
    and disjoint_law: "owns s A \<Longrightarrow> B \<in> A \<Longrightarrow> C \<in> A \<Longrightarrow> B \<noteq> C \<Longrightarrow> block_range B \<inter> block_range C = {}"
    and window_law: "owns s A \<Longrightarrow> (k, p) \<in> A \<Longrightarrow>
      4096 dvd p \<and> DIRECT_MAP_START_VIRT \<le> p \<and> p + 4096 * 2 ^ k \<le> DIRECT_MAP_END_VIRT"
begin

text \<open>Blocks at one address are the same block, and a new block is at a new address.\<close>

lemma block_inj:
  assumes "owns s A" "(k, p) \<in> A" "(j, p) \<in> A"
  shows "k = j"
proof (rule ccontr)
  assume "k \<noteq> j"
  then have "block_range (k, p) \<inter> block_range (j, p) = {}" using disjoint_law [OF assms] by auto
  moreover have "p \<in> block_range (k, p) \<inter> block_range (j, p)" by (simp add: block_range_def)
  ultimately show False by blast
qed

lemma alloc_fresh:
  assumes "owns s A" "alloc s k = Some (Some p, s')"
  shows "owns s' (insert (k, p) A)" "\<And>j. (j, p) \<notin> A" "p \<noteq> 0" "4096 dvd p"
proof -
  have o: "owns s' (insert (k, p) A)" "(k, p) \<notin> A" using alloc_law [OF assms(1), of k] assms(2) by auto
  then show "owns s' (insert (k, p) A)" "(j, p) \<notin> A" for j using block_inj [OF o(1), of k p j] by auto
  show "p \<noteq> 0" "4096 dvd p" using window_law [OF o(1), of k p] by auto
qed

lemma alloc_fail: "owns s A \<Longrightarrow> alloc s k = Some (None, s') \<Longrightarrow> owns s' A"
  using alloc_law [of s A k] by auto

end

end
