(* ===== verification/Mm_Slab.thy ===== *)
theory Mm_Slab
  imports Mm_Provider
begin

text \<open>
  \<open>kernel/src/mm/slab.c\<close> and \<open>slab_metadata.h\<close>: object caches on single pages. A page holds a header
  and equal slots; a slot holds an object header (the free bit and the 15-bit offset of the next
  free slot), a guard zone, the payload and another guard zone. The model keeps the fields of a slot
  apart instead of laying them out in bytes; the offsets and sizes are computed as in the code.
  A page is known by its address, the pages of all slabs are one map, and the list of partially
  used pages is the sequence its links represent (\<open>Coll_Linkedlist\<close>). The page allocator is an
  argument: its state \<open>s\<close>, \<open>palloc\<close> for \<^verbatim>\<open>mm_alloc_page_ptr\<close> and \<open>pfree\<close> for \<^verbatim>\<open>mm_free_page\<close> of the
  frame behind a pointer.
\<close>

section \<open>Model\<close>

abbreviation PAGE_SIZE :: nat where "PAGE_SIZE \<equiv> 4096"
abbreviation SLAB_REDZONE_SIZE :: nat where "SLAB_REDZONE_SIZE \<equiv> 2"
abbreviation SLAB_REDZONE_PATTERN :: u8 where "SLAB_REDZONE_PATTERN \<equiv> 0xfd"
abbreviation SLAB_UNUSED_PATTERN :: u8 where "SLAB_UNUSED_PATTERN \<equiv> 0xcc"
abbreviation SIZEOF_HDR :: nat where "SIZEOF_HDR \<equiv> 2"
abbreviation SIZEOF_SLAB_PAGE :: nat where "SIZEOF_SLAB_PAGE \<equiv> 32"

record slab =
  object_size :: nat
  object_align :: nat
  payload_offset :: nat
  slot_stride :: nat
  slot_offset :: nat
  page_capacity :: nat
  inuse_objects :: nat
  total_objects :: nat
  partial_pages :: "nat list"

record slot =
  is_free :: bool
  next_free :: nat
  prefix_zone :: "u8 list"
  payload :: "u8 list"
  suffix_zone :: "u8 list"

record slab_page =
  owner :: nat
  inuse :: nat
  free_head :: nat
  slots :: "slot list"

type_synonym slab_pages = "nat \<Rightarrow> slab_page option"

text \<open>\<^verbatim>\<open>align_ceil_sz_p2\<close> on sizes.\<close>

definition align_up :: "nat \<Rightarrow> nat \<Rightarrow> nat" where
  "align_up x a = unat (align_ceil_sz_p2 (of_nat x) (of_nat a))"

definition slot_object :: "slab \<Rightarrow> nat \<Rightarrow> nat" where
  "slot_object sl idx = slot_offset sl + slot_stride sl * idx"

text \<open>The slot whose header is at an offset of the page.\<close>

definition slot_index :: "slab \<Rightarrow> nat \<Rightarrow> nat option" where
  "slot_index sl off =
     (if slot_offset sl \<le> off \<and> (off - slot_offset sl) mod slot_stride sl = 0 \<and>
         (off - slot_offset sl) div slot_stride sl < page_capacity sl
      then Some ((off - slot_offset sl) div slot_stride sl) else None)"

definition prefix_len :: "slab \<Rightarrow> nat" where
  "prefix_len sl = payload_offset sl - SIZEOF_HDR"

definition suffix_len :: "slab \<Rightarrow> nat" where
  "suffix_len sl = slot_stride sl - (payload_offset sl + object_size sl)"

definition fill_redzones :: "slab \<Rightarrow> slot \<Rightarrow> slot" where
  "fill_redzones sl s = s\<lparr>prefix_zone := replicate (prefix_len sl) SLAB_REDZONE_PATTERN,
     suffix_zone := replicate (suffix_len sl) SLAB_REDZONE_PATTERN\<rparr>"

definition check_redzones :: "slab \<Rightarrow> slot \<Rightarrow> unit option" where
  "check_redzones sl s = do {
     kassert (list_all (\<lambda>c. c = SLAB_REDZONE_PATTERN) (prefix_zone s));
     kassert (list_all (\<lambda>c. c = SLAB_REDZONE_PATTERN) (suffix_zone s))
   }"

definition fill_unused_payload :: "slab \<Rightarrow> slot \<Rightarrow> slot" where
  "fill_unused_payload sl s = s\<lparr>payload := replicate (object_size sl) SLAB_UNUSED_PATTERN\<rparr>"

definition check_unused_payload :: "slab \<Rightarrow> slot \<Rightarrow> unit option" where
  "check_unused_payload sl s = kassert (list_all (\<lambda>c. c = SLAB_UNUSED_PATTERN) (payload s))"

definition push_partial_page :: "slab \<Rightarrow> nat \<Rightarrow> slab" where
  "push_partial_page sl page = sl\<lparr>partial_pages := page # partial_pages sl\<rparr>"

definition pop_partial_page :: "slab \<Rightarrow> nat option \<times> slab" where
  "pop_partial_page sl =
     (case partial_pages sl of [] \<Rightarrow> (None, sl) | page # rest \<Rightarrow> (Some page, sl\<lparr>partial_pages := rest\<rparr>))"

definition unlink_page :: "slab \<Rightarrow> nat \<Rightarrow> slab" where
  "unlink_page sl page = sl\<lparr>partial_pages := remove1 page (partial_pages sl)\<rparr>"

text \<open>The loop of \<^verbatim>\<open>create_slab_page\<close>, from the last slot to the first; \<open>head\<close> is \<^verbatim>\<open>page->free_head\<close>.\<close>

fun init_slots :: "slab \<Rightarrow> nat \<Rightarrow> nat \<Rightarrow> slot list \<Rightarrow> nat \<times> slot list" where
  "init_slots sl 0 head done = (head, done)"
| "init_slots sl (Suc idx) head done =
     (let s = \<lparr>is_free = True, next_free = head mod 2 ^ 15, prefix_zone = [], payload = [], suffix_zone = []\<rparr>;
          s = fill_unused_payload sl (fill_redzones sl s)
      in init_slots sl idx (slot_object sl idx mod 2 ^ 16) (s # done))"

definition create_slab_page ::
  "('s \<Rightarrow> nat \<Rightarrow> (nat option \<times> 's) option) \<Rightarrow> nat \<Rightarrow> slab \<Rightarrow> slab_pages \<Rightarrow> 's \<Rightarrow> (nat option \<times> slab \<times> slab_pages \<times> 's) option" where
  "create_slab_page palloc self sl mem s = do {
     (p, s) \<leftarrow> palloc s 0;
     case p of
       None \<Rightarrow> Some (None, sl, mem, s)
     | Some page \<Rightarrow>
         let (head, ss) = init_slots sl (page_capacity sl) 0 []
         in Some (Some page, sl\<lparr>total_objects := total_objects sl + page_capacity sl\<rparr>,
                  mem(page \<mapsto> \<lparr>owner = self, inuse = 0, free_head = head, slots = ss\<rparr>), s)
   }"

definition destroy_slab_page ::
  "('s \<Rightarrow> nat \<Rightarrow> nat \<Rightarrow> 's option) \<Rightarrow> slab \<Rightarrow> slab_pages \<Rightarrow> nat \<Rightarrow> 's \<Rightarrow> (slab \<times> slab_pages \<times> 's) option" where
  "destroy_slab_page pfree sl mem page s = do {
     pg \<leftarrow> mem page;
     kassert (inuse pg = 0);
     let sl = sl\<lparr>total_objects := total_objects sl - page_capacity sl\<rparr>;
     s \<leftarrow> pfree s page 0;
     Some (sl, mem(page := None), s)
   }"

definition pick_alloc_page ::
  "('s \<Rightarrow> nat \<Rightarrow> (nat option \<times> 's) option) \<Rightarrow> nat \<Rightarrow> slab \<Rightarrow> slab_pages \<Rightarrow> 's \<Rightarrow> (nat option \<times> slab \<times> slab_pages \<times> 's) option" where
  "pick_alloc_page palloc self sl mem s = do {
     (ok, sl, mem, s) \<leftarrow>
       (if partial_pages sl = [] then do {
          (p, sl, mem, s) \<leftarrow> create_slab_page palloc self sl mem s;
          case p of
            None \<Rightarrow> Some (False, sl, mem, s)
          | Some page \<Rightarrow> Some (True, push_partial_page sl page, mem, s)
        } else Some (True, sl, mem, s));
     if \<not> ok then Some (None, sl, mem, s)
     else do {
       kassert (partial_pages sl \<noteq> []);
       let page = hd (partial_pages sl);
       pg \<leftarrow> mem page;
       kassert (free_head pg \<noteq> 0);
       Some (Some page, sl, mem, s)
     }
   }"

definition slab_create :: "nat \<Rightarrow> nat \<Rightarrow> slab option" where
  "slab_create osize oalign = do {
     kassert (0 < osize \<and> osize \<le> 65535);
     kassert (ispower2 (of_nat oalign) \<and> oalign \<le> 65535);
     let slot_align = (if oalign > 1 then oalign else 1);
     let prefix_end = align_up (SIZEOF_HDR + SLAB_REDZONE_SIZE) oalign;
     let slot_data_size = prefix_end + osize + SLAB_REDZONE_SIZE;
     let stride = align_up slot_data_size slot_align;
     let offset = align_up SIZEOF_SLAB_PAGE slot_align;
     let capacity = (PAGE_SIZE - offset) div stride;
     kassert (stride \<le> 65535);
     kassert (offset < PAGE_SIZE);
     kassert (capacity > 0);
     kassert (capacity \<le> 32767);
     Some \<lparr>object_size = osize, object_align = oalign, payload_offset = prefix_end, slot_stride = stride,
           slot_offset = offset, page_capacity = capacity, inuse_objects = 0, total_objects = 0, partial_pages = []\<rparr>
   }"

fun destroy_pages :: "('s \<Rightarrow> nat \<Rightarrow> nat \<Rightarrow> 's option) \<Rightarrow> nat list \<Rightarrow> slab \<Rightarrow> slab_pages \<Rightarrow> 's \<Rightarrow> (slab \<times> slab_pages \<times> 's) option" where
  "destroy_pages pfree [] sl mem s = Some (sl\<lparr>partial_pages := []\<rparr>, mem, s)"
| "destroy_pages pfree (page # rest) sl mem s = do {
     (sl, mem, s) \<leftarrow> destroy_slab_page pfree (sl\<lparr>partial_pages := rest\<rparr>) mem page s;
     destroy_pages pfree rest sl mem s
   }"

definition slab_destroy :: "('s \<Rightarrow> nat \<Rightarrow> nat \<Rightarrow> 's option) \<Rightarrow> slab \<Rightarrow> slab_pages \<Rightarrow> 's \<Rightarrow> (slab_pages \<times> 's) option" where
  "slab_destroy pfree sl mem s = do {
     kassert (inuse_objects sl = 0);
     (sl, mem, s) \<leftarrow> destroy_pages pfree (partial_pages sl) sl mem s;
     Some (mem, s)
   }"

definition slab_get_object_size :: "slab \<Rightarrow> nat" where
  "slab_get_object_size sl = object_size sl"

definition slab_get_inuse :: "slab \<Rightarrow> nat" where
  "slab_get_inuse sl = inuse_objects sl"

definition slab_get_total :: "slab \<Rightarrow> nat" where
  "slab_get_total sl = total_objects sl"

definition slab_alloc ::
  "('s \<Rightarrow> nat \<Rightarrow> (nat option \<times> 's) option) \<Rightarrow> nat \<Rightarrow> slab \<Rightarrow> slab_pages \<Rightarrow> 's \<Rightarrow> (nat option \<times> slab \<times> slab_pages \<times> 's) option" where
  "slab_alloc palloc self sl mem s = do {
     (p, sl, mem, s) \<leftarrow> pick_alloc_page palloc self sl mem s;
     case p of
       None \<Rightarrow> Some (None, sl, mem, s)
     | Some page \<Rightarrow> do {
         pg \<leftarrow> mem page;
         kassert (free_head pg \<noteq> 0);
         let off = free_head pg;
         idx \<leftarrow> slot_index sl off;
         hdr \<leftarrow> rd (slots pg) idx;
         kassert (is_free hdr);
         _ \<leftarrow> check_redzones sl hdr;
         _ \<leftarrow> check_unused_payload sl hdr;
         let head = next_free hdr;
         let hdr = hdr\<lparr>next_free := 0, is_free := False, payload := replicate (object_size sl) 0\<rparr>;
         let pg = pg\<lparr>free_head := head, inuse := inuse pg + 1, slots := (slots pg)[idx := hdr]\<rparr>;
         let sl = sl\<lparr>inuse_objects := inuse_objects sl + 1\<rparr>;
         let sl = (if head = 0 then unlink_page sl page else sl);
         Some (Some (page + off + payload_offset sl), sl, mem(page \<mapsto> pg), s)
       }
   }"

definition slab_free ::
  "('s \<Rightarrow> nat \<Rightarrow> nat \<Rightarrow> 's option) \<Rightarrow> nat \<Rightarrow> slab \<Rightarrow> slab_pages \<Rightarrow> 's \<Rightarrow> nat \<Rightarrow> (slab \<times> slab_pages \<times> 's) option" where
  "slab_free pfree self sl mem s ptr = do {
     kassert (ptr \<noteq> 0);
     kassert (ptr \<ge> DIRECT_MAP_START_VIRT \<and> ptr < DIRECT_MAP_END_VIRT);
     let hdr_addr = ptr - payload_offset sl;
     let page = hdr_addr div PAGE_SIZE * PAGE_SIZE;
     let off = hdr_addr - page;
     kassert (off \<ge> slot_offset sl);
     let delta = off - slot_offset sl;
     kassert (delta div slot_stride sl < page_capacity sl);
     kassert (delta mod slot_stride sl = 0);
     let idx = delta div slot_stride sl;
     pg \<leftarrow> mem page;
     kassert (owner pg = self);
     hdr \<leftarrow> rd (slots pg) idx;
     kassert (\<not> is_free hdr);
     kassert (inuse pg > 0);
     let was_full = (free_head pg = 0);
     _ \<leftarrow> check_redzones sl hdr;
     let hdr = fill_redzones sl (fill_unused_payload sl hdr);
     let hdr = hdr\<lparr>is_free := True, next_free := free_head pg mod 2 ^ 15\<rparr>;
     let pg = pg\<lparr>free_head := off mod 2 ^ 16, inuse := inuse pg - 1, slots := (slots pg)[idx := hdr]\<rparr>;
     let sl = sl\<lparr>inuse_objects := inuse_objects sl - 1\<rparr>;
     let mem = mem(page \<mapsto> pg);
     let sl = (if was_full then push_partial_page sl page else sl);
     if inuse pg = 0 then destroy_slab_page pfree (unlink_page sl page) mem page s
     else Some (sl, mem, s)
   }"

section \<open>Geometry\<close>

definition geom_ok :: "slab \<Rightarrow> bool" where
  "geom_ok sl \<longleftrightarrow> 0 < object_size sl \<and> 0 < slot_offset sl \<and> SIZEOF_HDR + SLAB_REDZONE_SIZE \<le> payload_offset sl \<and>
     payload_offset sl + object_size sl + SLAB_REDZONE_SIZE \<le> slot_stride sl \<and> 0 < page_capacity sl \<and>
     slot_offset sl + slot_stride sl * page_capacity sl \<le> PAGE_SIZE"

definition same_geom :: "slab \<Rightarrow> slab \<Rightarrow> bool" where
  "same_geom sl sl' \<longleftrightarrow> object_size sl' = object_size sl \<and> payload_offset sl' = payload_offset sl \<and> slot_stride sl' = slot_stride sl \<and>
     slot_offset sl' = slot_offset sl \<and> page_capacity sl' = page_capacity sl"

lemma same_geom_refl [simp]: "same_geom sl sl"
  by (simp add: same_geom_def)

lemma same_geom_trans: "same_geom sl sl1 \<Longrightarrow> same_geom sl1 sl2 \<Longrightarrow> same_geom sl sl2"
  by (simp add: same_geom_def)

lemma same_geom_update [simp]:
  "same_geom sl (sl\<lparr>inuse_objects := n\<rparr>)" "same_geom sl (sl\<lparr>total_objects := n\<rparr>)" "same_geom sl (sl\<lparr>partial_pages := ps\<rparr>)"
  "same_geom sl (push_partial_page sl p)" "same_geom sl (unlink_page sl p)"
  by (simp_all add: same_geom_def push_partial_page_def unlink_page_def)

lemma same_geomD:
  assumes "same_geom sl sl'"
  shows "geom_ok sl' = geom_ok sl" "slot_object sl' = slot_object sl" "slot_index sl' = slot_index sl" "prefix_len sl' = prefix_len sl"
    "suffix_len sl' = suffix_len sl" "object_size sl' = object_size sl" "page_capacity sl' = page_capacity sl" "payload_offset sl' = payload_offset sl"
  using assms by (auto simp: same_geom_def geom_ok_def slot_object_def slot_index_def prefix_len_def suffix_len_def fun_eq_iff)

text \<open>Slots lie behind the page header, inside the page, and do not overlap.\<close>

lemma slot_end:
  assumes "geom_ok sl" "i < page_capacity sl"
  shows "slot_object sl i + slot_stride sl \<le> PAGE_SIZE"
proof -
  have "slot_stride sl * (i + 1) \<le> slot_stride sl * page_capacity sl" using assms(2) by (intro mult_le_mono2) simp
  then show ?thesis using assms(1) by (simp add: geom_ok_def slot_object_def)
qed

lemma slot_object_pos: "geom_ok sl \<Longrightarrow> 0 < slot_object sl i"
  by (simp add: geom_ok_def slot_object_def)

lemma stride_pos: "geom_ok sl \<Longrightarrow> 0 < slot_stride sl"
  by (simp add: geom_ok_def)

lemma slot_object_bound:
  assumes "geom_ok sl" "i < page_capacity sl"
  shows "slot_object sl i < PAGE_SIZE"
  using slot_end [OF assms] stride_pos [OF assms(1)] by linarith

lemma slot_index_object:
  assumes "geom_ok sl" "i < page_capacity sl"
  shows "slot_index sl (slot_object sl i) = Some i"
  using assms stride_pos [OF assms(1)] by (simp add: slot_index_def slot_object_def)

lemma slot_object_inj: "geom_ok sl \<Longrightarrow> slot_object sl i = slot_object sl j \<longleftrightarrow> i = j"
  by (drule stride_pos) (auto simp: slot_object_def)

lemma align_up_p2:
  assumes "k \<le> 15" "x < 2 ^ 20"
  shows "align_up x (2 ^ k) = (x + 2 ^ k - 1) div 2 ^ k * 2 ^ k"
proof -
  have k: "(2 :: nat) ^ k \<le> 2 ^ 15" using assms(1) by (intro power_increasing) simp_all
  have x: "unat (of_nat x :: u64) = x" using assms(2) by (simp add: unsigned_of_nat take_bit_nat_eq_self)
  have "unat (of_nat x :: u64) + 2 ^ k - 1 < 2 ^ 64" unfolding x using k assms(2) by simp
  from unat_align_ceil [OF _ this] assms(1) x show ?thesis by (simp add: align_up_def)
qed

lemma align_up_props:
  assumes "k \<le> 15" "x < 2 ^ 20"
  shows "x \<le> align_up x (2 ^ k)" "2 ^ k dvd align_up x (2 ^ k)"
proof -
  have "(x + 2 ^ k - 1) div 2 ^ k * 2 ^ k + (x + 2 ^ k - 1) mod 2 ^ k = x + 2 ^ k - 1" by (rule div_mult_mod_eq)
  moreover have "(x + 2 ^ k - 1) mod 2 ^ k < 2 ^ k" by simp
  ultimately show "x \<le> align_up x (2 ^ k)" unfolding align_up_p2 [OF assms] by linarith
qed (simp add: align_up_p2 [OF assms])

lemma slab_create_geom:
  assumes "slab_create sz (2 ^ k) = Some sl" "k \<le> 15"
  shows "geom_ok sl \<and> object_size sl = sz \<and> inuse_objects sl = 0 \<and> total_objects sl = 0 \<and> partial_pages sl = [] \<and>
    2 ^ k dvd slot_offset sl \<and> 2 ^ k dvd slot_stride sl \<and> 2 ^ k dvd payload_offset sl"
proof -
  let ?pe = "align_up (SIZEOF_HDR + SLAB_REDZONE_SIZE) (2 ^ k)"
  let ?st = "align_up (?pe + sz + SLAB_REDZONE_SIZE) (2 ^ k)" and ?of = "align_up SIZEOF_SLAB_PAGE (2 ^ k)"
  have k: "(2 :: nat) ^ k \<le> 2 ^ 15" using assms(2) by (intro power_increasing) simp_all
  have al: "(if (2 :: nat) ^ k > 1 then 2 ^ k else 1) = (2 :: nat) ^ k" using one_less_power [of "2 :: nat" k] by (cases "k = 0") simp_all
  from assms(1) have sl: "0 < sz" "sz \<le> 65535" "?of < PAGE_SIZE" "0 < (PAGE_SIZE - ?of) div ?st"
    "sl = \<lparr>object_size = sz, object_align = 2 ^ k, payload_offset = ?pe, slot_stride = ?st, slot_offset = ?of,
      page_capacity = (PAGE_SIZE - ?of) div ?st, inuse_objects = 0, total_objects = 0, partial_pages = []\<rparr>"
    unfolding slab_create_def Let_def al by (auto split: if_splits)
  have "align_up 4 (2 ^ k) \<le> 4 + 2 ^ k - 1" using align_up_p2 [OF assms(2), of 4] div_times_less_eq_dividend [of "4 + 2 ^ k - 1" "2 ^ k"] by simp
  then have pe: "4 \<le> ?pe" "?pe < 2 ^ 17" "2 ^ k dvd ?pe" using align_up_props [OF assms(2), of 4] k by simp_all
  have st: "?pe + sz + SLAB_REDZONE_SIZE \<le> ?st" "2 ^ k dvd ?st"
    using align_up_props [OF assms(2), of "?pe + sz + SLAB_REDZONE_SIZE"] pe(2) sl(2) by simp_all
  have off: "32 \<le> ?of" "2 ^ k dvd ?of" using align_up_props [OF assms(2), of 32] by simp_all
  have "?st * ((PAGE_SIZE - ?of) div ?st) \<le> PAGE_SIZE - ?of" by simp
  then have "?of + ?st * ((PAGE_SIZE - ?of) div ?st) \<le> PAGE_SIZE" using sl(3) by linarith
  then show ?thesis unfolding sl(5) geom_ok_def using sl(1,4) pe st off by simp
qed

section \<open>Pages\<close>

definition slot_ok :: "slab \<Rightarrow> slot \<Rightarrow> bool" where
  "slot_ok sl s \<longleftrightarrow> prefix_zone s = replicate (prefix_len sl) SLAB_REDZONE_PATTERN \<and>
     suffix_zone s = replicate (suffix_len sl) SLAB_REDZONE_PATTERN \<and> length (payload s) = object_size sl \<and>
     (is_free s \<longrightarrow> payload s = replicate (object_size sl) SLAB_UNUSED_PATTERN)"

text \<open>The free slots of a page, in the order of its free list.\<close>

fun chain :: "slab \<Rightarrow> slot list \<Rightarrow> nat \<Rightarrow> nat list \<Rightarrow> bool" where
  "chain sl ss off [] \<longleftrightarrow> off = 0"
| "chain sl ss off (i # is) \<longleftrightarrow> off = slot_object sl i \<and> i < length ss \<and> chain sl ss (next_free (ss ! i)) is"

definition free_idx :: "slot list \<Rightarrow> nat set" where
  "free_idx ss = {i. i < length ss \<and> is_free (ss ! i)}"

definition page_inv :: "slab \<Rightarrow> nat \<Rightarrow> slab_page \<Rightarrow> bool" where
  "page_inv sl self pg \<longleftrightarrow> owner pg = self \<and> length (slots pg) = page_capacity sl \<and> (\<forall>s \<in> set (slots pg). slot_ok sl s) \<and>
     (\<exists>xs. distinct xs \<and> set xs = free_idx (slots pg) \<and> chain sl (slots pg) (free_head pg) xs \<and> inuse pg + length xs = page_capacity sl)"

lemma page_invI:
  assumes "owner pg = self" "length (slots pg) = page_capacity sl" "\<And>s. s \<in> set (slots pg) \<Longrightarrow> slot_ok sl s"
    "distinct xs" "set xs = free_idx (slots pg)" "chain sl (slots pg) (free_head pg) xs" "inuse pg + length xs = page_capacity sl"
  shows "page_inv sl self pg"
  using assms unfolding page_inv_def by blast

lemma slot_ok_update:
  assumes "\<forall>s \<in> set ss. slot_ok sl s" "slot_ok sl h" "s \<in> set (ss[i := h])"
  shows "slot_ok sl s"
  using assms set_update_subset_insert [of ss i h] by blast

lemma chain_update:
  assumes "i \<notin> set xs"
  shows "chain sl (ss[i := s]) off xs = chain sl ss off xs"
  using assms by (induction xs arbitrary: off) auto

lemma free_idx_update:
  assumes "i < length ss"
  shows "free_idx (ss[i := s]) = (if is_free s then insert i (free_idx ss) else free_idx ss - {i})"
proof (rule set_eqI)
  fix j
  show "j \<in> free_idx (ss[i := s]) \<longleftrightarrow> j \<in> (if is_free s then insert i (free_idx ss) else free_idx ss - {i})"
    using assms by (cases "j = i") (simp_all add: free_idx_def)
qed

lemma chain_zero: "geom_ok sl \<Longrightarrow> chain sl ss off xs \<Longrightarrow> off = 0 \<longleftrightarrow> xs = []"
  using slot_object_pos [of sl] by (cases xs) auto

lemma chain_geom: "same_geom sl sl' \<Longrightarrow> chain sl' = chain sl"
proof (intro ext)
  fix ss off xs assume "same_geom sl sl'"
  then show "chain sl' ss off xs = chain sl ss off xs" by (induction xs arbitrary: off) (simp_all add: same_geomD)
qed

lemma page_inv_geom: "same_geom sl sl' \<Longrightarrow> page_inv sl' self pg = page_inv sl self pg"
  by (simp add: page_inv_def slot_ok_def same_geomD chain_geom)

lemma check_ok: "slot_ok sl s \<Longrightarrow> check_redzones sl s = Some ()" "slot_ok sl s \<Longrightarrow> is_free s \<Longrightarrow> check_unused_payload sl s = Some ()"
  by (auto simp: slot_ok_def check_redzones_def check_unused_payload_def list_all_iff)

lemma init_slots_ok:
  assumes "geom_ok sl" "n + length done = page_capacity sl" "head < 2 ^ 15" "init_slots sl n head done = (h, L)"
  shows "\<exists>ss. L = ss @ done \<and> length ss = n \<and> (\<forall>s \<in> set ss. slot_ok sl s \<and> is_free s) \<and>
    (\<forall>xs. chain sl L head xs \<longrightarrow> chain sl L h ([0..<n] @ xs))"
  using assms
proof (induction n arbitrary: head "done")
  case (Suc idx)
  let ?s = "fill_unused_payload sl (fill_redzones sl \<lparr>is_free = True, next_free = head mod 2 ^ 15, prefix_zone = [], payload = [], suffix_zone = []\<rparr>)"
  have ob: "slot_object sl idx < PAGE_SIZE" using Suc.prems(1,2) by (intro slot_object_bound) simp_all
  have eq: "init_slots sl idx (slot_object sl idx) (?s # done) = (h, L)" using Suc.prems(4) ob by (simp add: Let_def)
  have "\<exists>ss. L = ss @ ?s # done \<and> length ss = idx \<and> (\<forall>s \<in> set ss. slot_ok sl s \<and> is_free s) \<and>
      (\<forall>xs. chain sl L (slot_object sl idx) xs \<longrightarrow> chain sl L h ([0..<idx] @ xs))"
    using Suc.prems(2) ob by (intro Suc.IH [OF Suc.prems(1) _ _ eq]) simp_all
  then obtain ss where ss: "L = ss @ ?s # done" "length ss = idx" "\<forall>s \<in> set ss. slot_ok sl s \<and> is_free s"
    "\<forall>xs. chain sl L (slot_object sl idx) xs \<longrightarrow> chain sl L h ([0..<idx] @ xs)" by blast
  have s: "slot_ok sl ?s" "is_free ?s" "next_free ?s = head"
    using Suc.prems(3) by (simp_all add: slot_ok_def fill_unused_payload_def fill_redzones_def)
  have L: "L ! idx = ?s" "idx < length L" using ss(1,2) by (simp_all add: nth_append)
  have "chain sl L h ([0..<Suc idx] @ xs)" if "chain sl L head xs" for xs
    using ss(4) [rule_format, of "idx # xs"] that L s(3) by simp
  then show ?case using ss s by (intro exI [of _ "ss @ [?s]"]) auto
qed simp

lemma fresh_page_inv:
  assumes "geom_ok sl" "init_slots sl (page_capacity sl) 0 [] = (h, L)"
  shows "page_inv sl self \<lparr>owner = self, inuse = 0, free_head = h, slots = L\<rparr>" "h \<noteq> 0" "\<forall>s \<in> set L. is_free s"
proof -
  obtain ss where "L = ss @ []" "length ss = page_capacity sl" "\<forall>s \<in> set ss. slot_ok sl s \<and> is_free s"
    "\<forall>xs. chain sl L 0 xs \<longrightarrow> chain sl L h ([0..<page_capacity sl] @ xs)"
    using init_slots_ok [OF assms(1) _ _ assms(2)] by auto
  then have L: "length L = page_capacity sl" "\<forall>s \<in> set L. slot_ok sl s \<and> is_free s" "chain sl L h [0..<page_capacity sl]"
    by (auto dest: spec [of _ "[]"])
  have "free_idx L = {0..<page_capacity sl}" using L(1,2) by (auto simp: free_idx_def)
  then show "page_inv sl self \<lparr>owner = self, inuse = 0, free_head = h, slots = L\<rparr>"
    using L unfolding page_inv_def by (auto intro!: exI [of _ "[0..<page_capacity sl]"])
  show "h \<noteq> 0" using chain_zero [OF assms(1) L(3)] assms(1) by (auto simp: geom_ok_def)
  show "\<forall>s \<in> set L. is_free s" using L(2) by blast
qed

section \<open>Slabs\<close>

text \<open>
  The pages of one slab, the live objects with their contents, and the invariant: the list of partial
  pages holds exactly the pages with a free slot, no page is empty, and the counters are exact.
\<close>

definition view :: "nat \<Rightarrow> slab_pages \<Rightarrow> slab_pages" where
  "view self mem p = (case mem p of None \<Rightarrow> None | Some pg \<Rightarrow> if owner pg = self then Some pg else None)"

definition obj_ptr :: "slab \<Rightarrow> nat \<Rightarrow> nat \<Rightarrow> nat" where
  "obj_ptr sl page i = page + slot_object sl i + payload_offset sl"

definition objs :: "nat \<Rightarrow> slab \<Rightarrow> slab_pages \<Rightarrow> nat \<Rightarrow> u8 list option" where
  "objs self sl mem ptr = (if ptr < payload_offset sl then None else do {
     let hdr_addr = ptr - payload_offset sl;
     let page = hdr_addr div PAGE_SIZE * PAGE_SIZE;
     pg \<leftarrow> view self mem page;
     i \<leftarrow> slot_index sl (hdr_addr - page);
     hdr \<leftarrow> rd (slots pg) i;
     if is_free hdr then None else Some (payload hdr)
   })"

definition slab_core :: "nat \<Rightarrow> slab \<Rightarrow> slab_pages \<Rightarrow> bool" where
  "slab_core self sl mem \<longleftrightarrow> geom_ok sl \<and> finite (dom (view self mem)) \<and>
     (\<forall>p pg. view self mem p = Some pg \<longrightarrow> page_inv sl self pg \<and> PAGE_SIZE dvd p) \<and>
     distinct (partial_pages sl) \<and> set (partial_pages sl) = {p. \<exists>pg. view self mem p = Some pg \<and> free_head pg \<noteq> 0} \<and>
     inuse_objects sl = (\<Sum>p \<in> dom (view self mem). inuse (the (view self mem p))) \<and>
     total_objects sl = page_capacity sl * card (dom (view self mem))"

definition slab_inv :: "nat \<Rightarrow> slab \<Rightarrow> slab_pages \<Rightarrow> bool" where
  "slab_inv self sl mem \<longleftrightarrow> slab_core self sl mem \<and> (\<forall>p pg. view self mem p = Some pg \<longrightarrow> 0 < inuse pg)"

lemma view_Some [simp]: "view self mem p = Some pg \<longleftrightarrow> mem p = Some pg \<and> owner pg = self"
  by (auto simp: view_def split: option.splits if_splits)

lemma view_upd:
  "view self (mem(p \<mapsto> pg)) = (if owner pg = self then (view self mem)(p \<mapsto> pg) else (view self mem)(p := None))"
  "view self (mem(p := None)) = (view self mem)(p := None)"
  by (auto simp: view_def fun_eq_iff)

lemma view_frame:
  assumes "\<And>pg. mem page = Some pg \<Longrightarrow> owner pg \<noteq> self2"
  shows "owner pg' \<noteq> self2 \<Longrightarrow> view self2 (mem(page \<mapsto> pg')) = view self2 mem" "view self2 (mem(page := None)) = view self2 mem"
proof -
  have v: "view self2 mem page = None" using assms by (simp add: view_def split: option.split)
  then show "owner pg' \<noteq> self2 \<Longrightarrow> view self2 (mem(page \<mapsto> pg')) = view self2 mem" "view self2 (mem(page := None)) = view self2 mem"
    by (simp_all add: view_upd fun_upd_idem)
qed

lemma objs_geom: "same_geom sl sl' \<Longrightarrow> objs self sl' mem = objs self sl mem"
  by (simp add: objs_def same_geomD fun_eq_iff)

lemma slab_view_cong:
  assumes "view self mem' = view self mem"
  shows "slab_inv self sl mem' = slab_inv self sl mem" "objs self sl mem' = objs self sl mem"
  unfolding slab_inv_def slab_core_def objs_def fun_eq_iff assms by (rule refl allI)+

lemma decode_ptr:
  assumes "geom_ok sl" "i < page_capacity sl" "PAGE_SIZE dvd page"
  shows "(obj_ptr sl page i - payload_offset sl) div PAGE_SIZE * PAGE_SIZE = page"
    "obj_ptr sl page i - payload_offset sl - page = slot_object sl i"
proof -
  obtain m where "page = PAGE_SIZE * m" using assms(3) by blast
  then show "(obj_ptr sl page i - payload_offset sl) div PAGE_SIZE * PAGE_SIZE = page"
    using slot_object_bound [OF assms(1,2)] by (simp add: obj_ptr_def)
qed (simp add: obj_ptr_def)

lemma slot_index_Some: "slot_index sl off = Some i \<Longrightarrow> off = slot_object sl i \<and> i < page_capacity sl"
  using div_mult_mod_eq [of "off - slot_offset sl" "slot_stride sl"]
  by (auto simp: slot_index_def slot_object_def split: if_splits)

lemma objs_ptr:
  assumes "geom_ok sl" "i < page_capacity sl" "PAGE_SIZE dvd page" "mem page = Some pg" "owner pg = self" "length (slots pg) = page_capacity sl"
  shows "objs self sl mem (obj_ptr sl page i) = (if is_free (slots pg ! i) then None else Some (payload (slots pg ! i)))"
proof -
  have v: "view self mem page = Some pg" using assms(4,5) by simp
  have "\<not> obj_ptr sl page i < payload_offset sl" by (simp add: obj_ptr_def)
  then show ?thesis unfolding objs_def Let_def decode_ptr [OF assms(1-3)] v
    using assms(2,6) slot_index_object [OF assms(1,2)] by (simp add: rd_def)
qed

lemma objs_Some:
  assumes "objs self sl mem ptr = Some d"
  obtains page pg i where "mem page = Some pg" "owner pg = self" "ptr = obj_ptr sl page i" "i < page_capacity sl" "i < length (slots pg)"
    "\<not> is_free (slots pg ! i)" "d = payload (slots pg ! i)" "PAGE_SIZE dvd page"
proof -
  let ?h = "ptr - payload_offset sl" let ?p = "?h div PAGE_SIZE * PAGE_SIZE"
  from assms obtain pg i where pg: "payload_offset sl \<le> ptr" "view self mem ?p = Some pg" "slot_index sl (?h - ?p) = Some i" "i < length (slots pg)"
      "\<not> is_free (slots pg ! i)" "d = payload (slots pg ! i)"
    by (auto simp: objs_def Let_def rd_def split: if_splits bind_splits)
  have "?p \<le> ?h" by simp
  then have "ptr = obj_ptr sl ?p i" using slot_index_Some [OF pg(3)] pg(1) unfolding obj_ptr_def by linarith
  then show thesis using that [of ?p pg i] pg slot_index_Some [OF pg(3)] by simp
qed

lemma objs_other_page:
  assumes "\<And>p. p \<noteq> page \<Longrightarrow> view self mem' p = view self mem p" "(ptr - payload_offset sl) div PAGE_SIZE * PAGE_SIZE \<noteq> page"
  shows "objs self sl mem' ptr = objs self sl mem ptr"
  using assms(1) [OF assms(2)] by (simp add: objs_def Let_def)

lemma objs_update:
  assumes "geom_ok sl" "i < page_capacity sl" "PAGE_SIZE dvd page" "mem page = Some pg" "owner pg = self" "length (slots pg) = page_capacity sl"
    "owner pg' = self" "slots pg' = (slots pg)[i := hdr]"
  shows "objs self sl (mem(page \<mapsto> pg')) = (objs self sl mem)(obj_ptr sl page i := if is_free hdr then None else Some (payload hdr))"
proof
  fix q
  let ?h = "q - payload_offset sl" let ?p = "?h div PAGE_SIZE * PAGE_SIZE"
  have same: "obj_ptr sl page i = q" if "payload_offset sl \<le> q" "?p = page" "slot_index sl (?h - page) = Some i"
  proof -
    have "page \<le> ?h" using that(2) div_times_less_eq_dividend [of ?h PAGE_SIZE] by simp
    then show ?thesis using slot_index_Some [OF that(3)] that(1) unfolding obj_ptr_def by linarith
  qed
  consider "q = obj_ptr sl page i" | "q \<noteq> obj_ptr sl page i" "?p \<noteq> page" | "q \<noteq> obj_ptr sl page i" "?p = page" by blast
  then show "objs self sl (mem(page \<mapsto> pg')) q = ((objs self sl mem)(obj_ptr sl page i := if is_free hdr then None else Some (payload hdr))) q"
  proof cases
    case 1
    have "objs self sl (mem(page \<mapsto> pg')) (obj_ptr sl page i) = (if is_free (slots pg' ! i) then None else Some (payload (slots pg' ! i)))"
      using assms by (intro objs_ptr) simp_all
    then show ?thesis using 1 assms(2,6,8) by simp
  next
    case 2
    have "objs self sl (mem(page \<mapsto> pg')) q = objs self sl mem q" using 2(2) by (intro objs_other_page) (simp_all add: view_upd)
    then show ?thesis using 2(1) by simp
  next
    case 3
    have v: "view self (mem(page \<mapsto> pg')) page = Some pg'" "view self mem page = Some pg" using assms(4,5,7) by simp_all
    have "objs self sl (mem(page \<mapsto> pg')) q = objs self sl mem q"
    proof (cases "slot_index sl (?h - page)")
      case (Some j)
      have "j \<noteq> i" if "payload_offset sl \<le> q" using same [OF that 3(2)] Some 3(1) by auto
      then show ?thesis unfolding objs_def Let_def 3(2) v Some using assms(8) by (cases "q < payload_offset sl") (simp_all add: rd_def)
    qed (simp add: objs_def Let_def 3(2) v)
    then show ?thesis using 3(1) by simp
  qed
qed

lemma slab_core_page:
  assumes "slab_core self sl mem" "mem page = Some pg" "owner pg = self"
  shows "geom_ok sl" "page_inv sl self pg" "PAGE_SIZE dvd page" "length (slots pg) = page_capacity sl"
  using assms by (auto simp: slab_core_def page_inv_def)

text \<open>One page and the partial list change together.\<close>

lemma slab_core_step:
  assumes "slab_core self sl mem" "mem page = Some pg" "owner pg = self" "page_inv sl self pg'" "same_geom sl sl'"
    and "inuse_objects sl' + inuse pg = inuse_objects sl + inuse pg'" "total_objects sl' = total_objects sl"
    and "distinct (partial_pages sl')"
    and "set (partial_pages sl') = (if free_head pg' \<noteq> 0 then insert page (set (partial_pages sl)) else set (partial_pages sl) - {page})"
  shows "slab_core self sl' (mem(page \<mapsto> pg'))"
proof -
  let ?V = "view self mem"
  have o: "owner pg' = self" using assms(4) by (simp add: page_inv_def)
  have V: "view self (mem(page \<mapsto> pg')) = ?V(page \<mapsto> pg')" using o by (simp add: view_upd)
  have in_dom: "page \<in> dom ?V" and fin: "finite (dom ?V)" using assms(1,2,3) by (auto simp: slab_core_def dom_def)
  then have dom: "dom (?V(page \<mapsto> pg')) = dom ?V" by auto
  have "(\<Sum>p \<in> dom ?V. inuse (the (?V p))) = inuse pg + (\<Sum>p \<in> dom ?V - {page}. inuse (the (?V p)))"
    using assms(2,3) by (simp add: sum.remove [OF fin in_dom] view_def)
  moreover have "(\<Sum>p \<in> dom ?V. inuse (the ((?V(page \<mapsto> pg')) p))) = inuse pg' + (\<Sum>p \<in> dom ?V - {page}. inuse (the (?V p)))"
    by (simp add: sum.remove [OF fin in_dom])
  ultimately have sum: "inuse_objects sl' = (\<Sum>p \<in> dom ?V. inuse (the ((?V(page \<mapsto> pg')) p)))" using assms(1,6) by (simp add: slab_core_def)
  have "set (partial_pages sl') = {p. \<exists>pg. (?V(page \<mapsto> pg')) p = Some pg \<and> free_head pg \<noteq> 0}"
    using assms(1) unfolding assms(9) by (auto simp: slab_core_def)
  then show ?thesis unfolding slab_core_def V dom
    using assms(1,4,5,7,8) sum fin slab_core_page(3) [OF assms(1-3)] by (auto simp: slab_core_def same_geomD page_inv_geom)
qed

text \<open>A page without live objects comes and goes.\<close>

lemma slab_core_add:
  assumes "slab_core self sl mem" "mem page = None" "page_inv sl self pg" "PAGE_SIZE dvd page" "inuse pg = 0" "free_head pg \<noteq> 0"
  shows "slab_core self (push_partial_page (sl\<lparr>total_objects := total_objects sl + page_capacity sl\<rparr>) page) (mem(page \<mapsto> pg))"
proof -
  let ?V = "view self mem" and ?sl = "push_partial_page (sl\<lparr>total_objects := total_objects sl + page_capacity sl\<rparr>) page"
  have o: "owner pg = self" using assms(3) by (simp add: page_inv_def)
  have V: "view self (mem(page \<mapsto> pg)) = ?V(page \<mapsto> pg)" using o by (simp add: view_upd)
  have nin: "page \<notin> dom ?V" and fin: "finite (dom ?V)" using assms(1,2) by (auto simp: slab_core_def view_def)
  have dom: "dom (?V(page \<mapsto> pg)) = insert page (dom ?V)" by auto
  have "(\<Sum>p \<in> dom ?V. inuse (the ((?V(page \<mapsto> pg)) p))) = (\<Sum>p \<in> dom ?V. inuse (the (?V p)))"
    using nin by (intro sum.cong) auto
  then have sum: "(\<Sum>p \<in> insert page (dom ?V). inuse (the ((?V(page \<mapsto> pg)) p))) = inuse_objects sl"
    using nin fin assms(1,5) by (simp add: slab_core_def)
  have "page \<notin> set (partial_pages sl)" using assms(1,2) by (auto simp: slab_core_def)
  moreover have "insert page (set (partial_pages sl)) = {p. \<exists>q. (?V(page \<mapsto> pg)) p = Some q \<and> free_head q \<noteq> 0}"
    using assms(1,2,6) by (auto simp: slab_core_def)
  moreover have pg: "page_inv ?sl self q = page_inv sl self q" for q by (rule page_inv_geom) (simp add: push_partial_page_def same_geom_def)
  have "geom_ok ?sl" using assms(1) by (simp add: slab_core_def geom_ok_def push_partial_page_def)
  ultimately show ?thesis unfolding slab_core_def V dom pg
    using assms(1,3,4) sum fin nin by (simp add: slab_core_def push_partial_page_def) blast
qed

lemma slab_core_drop:
  assumes "slab_core self sl mem" "mem page = Some pg" "owner pg = self" "inuse pg = 0"
  shows "slab_core self ((unlink_page sl page)\<lparr>total_objects := total_objects sl - page_capacity sl\<rparr>) (mem(page := None))"
    (is "slab_core self ?sl _")
proof -
  let ?V = "view self mem"
  have V: "view self (mem(page := None)) = ?V(page := None)" by (simp add: view_upd)
  have v: "?V page = Some pg" using assms(2,3) by simp
  then have in_dom: "page \<in> dom ?V" and fin: "finite (dom ?V)" using assms(1) by (auto simp: slab_core_def dom_def)
  have dom: "dom (?V(page := None)) = dom ?V - {page}" by auto
  have "(\<Sum>p \<in> dom ?V. inuse (the (?V p))) = (\<Sum>p \<in> dom ?V - {page}. inuse (the (?V p)))"
    using assms(4) by (simp add: sum.remove [OF fin in_dom] v del: view_Some)
  moreover have "(\<Sum>p \<in> dom ?V - {page}. inuse (the ((?V(page := None)) p))) = (\<Sum>p \<in> dom ?V - {page}. inuse (the (?V p)))"
    by (intro sum.cong) auto
  ultimately have sum: "inuse_objects sl = (\<Sum>p \<in> dom ?V - {page}. inuse (the ((?V(page := None)) p)))" using assms(1) by (simp add: slab_core_def)
  have part: "set (remove1 page (partial_pages sl)) = {p. \<exists>q. (?V(page := None)) p = Some q \<and> free_head q \<noteq> 0}"
    using assms(1) by (auto simp: slab_core_def)
  have pg: "page_inv ?sl self q = page_inv sl self q" for q by (rule page_inv_geom) (simp add: unlink_page_def same_geom_def)
  have "geom_ok ?sl" using assms(1) by (simp add: slab_core_def geom_ok_def unlink_page_def)
  moreover have "page_capacity sl * card (dom ?V) - page_capacity sl = page_capacity sl * (card (dom ?V) - 1)" by (simp add: diff_mult_distrib2)
  ultimately show ?thesis unfolding slab_core_def V dom pg
    using assms(1) sum fin part in_dom by (simp add: slab_core_def unlink_page_def) blast
qed

lemma objs_empty_page:
  assumes "geom_ok sl" "mem page = Some pg" "owner pg = self" "\<forall>s \<in> set (slots pg). is_free s"
  shows "objs self sl (mem(page := None)) = objs self sl mem"
proof
  fix q
  show "objs self sl (mem(page := None)) q = objs self sl mem q"
  proof (cases "(q - payload_offset sl) div PAGE_SIZE * PAGE_SIZE = page")
    case True
    have v: "view self (mem(page := None)) page = None" "view self mem page = Some pg" using assms(2,3) by (simp_all add: view_upd)
    show ?thesis unfolding objs_def Let_def True v using assms(4) by (auto simp: rd_def split: bind_split)
  next
    case False
    then show ?thesis by (intro objs_other_page) (simp_all add: view_upd)
  qed
qed

text \<open>A slot is taken from the free list, or put back on it.\<close>

lemma page_inv_take:
  assumes "geom_ok sl" "page_inv sl self pg" "free_head pg \<noteq> 0"
  obtains i where "i < page_capacity sl" "free_head pg = slot_object sl i" "is_free (slots pg ! i)" "slot_ok sl (slots pg ! i)"
    "page_inv sl self (pg\<lparr>free_head := next_free (slots pg ! i), inuse := inuse pg + 1,
       slots := (slots pg)[i := (slots pg ! i)\<lparr>next_free := 0, is_free := False, payload := replicate (object_size sl) 0\<rparr>]\<rparr>)"
proof -
  obtain xs where xs: "distinct xs" "set xs = free_idx (slots pg)" "chain sl (slots pg) (free_head pg) xs" "inuse pg + length xs = page_capacity sl"
    and pg: "owner pg = self" "length (slots pg) = page_capacity sl" "\<forall>s \<in> set (slots pg). slot_ok sl s"
    using assms(2) by (auto simp: page_inv_def)
  obtain i ys where ys: "xs = i # ys" using chain_zero [OF assms(1) xs(3)] assms(3) by (cases xs) auto
  let ?hdr = "(slots pg ! i)\<lparr>next_free := 0, is_free := False, payload := replicate (object_size sl) 0\<rparr>"
  let ?pg = "pg\<lparr>free_head := next_free (slots pg ! i), inuse := inuse pg + 1, slots := (slots pg)[i := ?hdr]\<rparr>"
  have i: "i < page_capacity sl" "free_head pg = slot_object sl i" "is_free (slots pg ! i)" "slot_ok sl (slots pg ! i)"
    using xs(2,3) ys pg(2,3) by (auto simp: free_idx_def)
  have "set ys = free_idx ((slots pg)[i := ?hdr])"
    using xs(1,2) ys pg(2) i(1) by (auto simp: free_idx_update)
  moreover have "chain sl ((slots pg)[i := ?hdr]) (next_free (slots pg ! i)) ys" using xs(1,3) ys by (simp add: chain_update)
  moreover have "slot_ok sl ?hdr" using i(4) by (simp add: slot_ok_def)
  ultimately have "page_inv sl self ?pg"
    using pg xs(1,4) ys by (intro page_invI [where xs = ys]) (simp_all add: slot_ok_update [OF pg(3)])
  then show thesis using that i by blast
qed

lemma page_inv_put:
  assumes "geom_ok sl" "page_inv sl self pg" "i < page_capacity sl" "\<not> is_free (slots pg ! i)"
  shows "0 < inuse pg" "page_inv sl self (pg\<lparr>free_head := slot_object sl i, inuse := inuse pg - 1, slots := (slots pg)[i :=
     (fill_redzones sl (fill_unused_payload sl (slots pg ! i)))\<lparr>is_free := True, next_free := free_head pg\<rparr>]\<rparr>)" (is "page_inv sl self ?pg")
proof -
  let ?hdr = "(fill_redzones sl (fill_unused_payload sl (slots pg ! i)))\<lparr>is_free := True, next_free := free_head pg\<rparr>"
  obtain xs where xs: "distinct xs" "set xs = free_idx (slots pg)" "chain sl (slots pg) (free_head pg) xs" "inuse pg + length xs = page_capacity sl"
    and pg: "owner pg = self" "length (slots pg) = page_capacity sl" "\<forall>s \<in> set (slots pg). slot_ok sl s"
    using assms(2) by (auto simp: page_inv_def)
  have i: "i \<notin> set xs" using xs(2) assms(4) by (simp add: free_idx_def)
  have "set xs \<subseteq> {..<page_capacity sl}" unfolding xs(2) free_idx_def pg(2) by blast
  moreover have "i \<in> {..<page_capacity sl}" using assms(3) by simp
  ultimately have "set xs \<subset> {..<page_capacity sl}" using i by blast
  then have "card (set xs) < page_capacity sl" using psubset_card_mono [of "{..<page_capacity sl}" "set xs"] by simp
  then show n: "0 < inuse pg" using xs(4) distinct_card [OF xs(1)] by simp
  have "set (i # xs) = free_idx ((slots pg)[i := ?hdr])"
    using xs(2) assms(3) pg(2) by (simp add: free_idx_update)
  moreover have "chain sl ((slots pg)[i := ?hdr]) (slot_object sl i) (i # xs)" using xs(3) i assms(3) pg(2) by (simp add: chain_update)
  moreover have "slot_ok sl ?hdr" by (simp add: slot_ok_def fill_redzones_def fill_unused_payload_def)
  ultimately show "page_inv sl self ?pg"
    using pg xs(1,4) i n assms(3) by (intro page_invI [where xs = "i # xs"]) (simp_all add: slot_ok_update [OF pg(3)])
qed

text \<open>A new slab owns no page; a slab without live objects has nothing left to destroy.\<close>

lemma slab_create_inv:
  assumes "slab_create sz (2 ^ k) = Some sl" "k \<le> 15" "view self mem = Map.empty"
  shows "slab_inv self sl mem" "objs self sl mem = Map.empty"
  using slab_create_geom [OF assms(1,2)] assms(3) by (simp_all add: slab_inv_def slab_core_def fun_eq_iff [of "objs self sl mem"] objs_def del: view_Some)

lemma slab_destroy_ok:
  assumes "slab_inv self sl mem" "inuse_objects sl = 0"
  shows "view self mem = Map.empty" "slab_destroy pfree sl mem s = Some (mem, s)"
proof -
  have core: "slab_core self sl mem" and pos: "\<forall>p pg. view self mem p = Some pg \<longrightarrow> 0 < inuse pg"
    using assms(1) unfolding slab_inv_def by blast+
  have "p \<notin> dom (view self mem)" for p
  proof
    assume p: "p \<in> dom (view self mem)"
    have "finite (dom (view self mem))" "(\<Sum>p \<in> dom (view self mem). inuse (the (view self mem p))) = 0"
      using core assms(2) unfolding slab_core_def by simp_all
    then have "inuse (the (view self mem p)) = 0" using p by simp
    then show False using p pos by fastforce
  qed
  then show "view self mem = Map.empty" by blast
  then have "partial_pages sl = []" using core by (simp add: slab_core_def del: view_Some)
  then show "slab_destroy pfree sl mem s = Some (mem, s)" using assms(2) by (simp add: slab_destroy_def)
qed

text \<open>Freeing what is not a live object of the slab stops the kernel, as long as the pointer leads to a slab page.\<close>

lemma slab_free_rejects:
  assumes "slab_inv self sl mem" "objs self sl mem ptr = None" "mem ((ptr - payload_offset sl) div PAGE_SIZE * PAGE_SIZE) \<noteq> None"
    "payload_offset sl \<le> ptr"
  shows "slab_free pfree self sl mem s ptr = None"
proof -
  let ?h = "ptr - payload_offset sl" let ?p = "?h div PAGE_SIZE * PAGE_SIZE" let ?d = "?h - ?p - slot_offset sl"
  obtain pg where pg: "mem ?p = Some pg" using assms(3) by blast
  have "owner pg \<noteq> self \<or> \<not> slot_offset sl \<le> ?h - ?p \<or> \<not> ?d div slot_stride sl < page_capacity sl \<or> ?d mod slot_stride sl \<noteq> 0 \<or>
      rd (slots pg) (?d div slot_stride sl) = None \<or> (\<exists>hdr. rd (slots pg) (?d div slot_stride sl) = Some hdr \<and> is_free hdr)"
  proof (rule ccontr)
    assume neg: "\<not> ?thesis"
    then obtain hdr where "rd (slots pg) (?d div slot_stride sl) = Some hdr" "\<not> is_free hdr"
      by (cases "rd (slots pg) (?d div slot_stride sl)") auto
    moreover have "view self mem ?p = Some pg" "slot_index sl (?h - ?p) = Some (?d div slot_stride sl)" using pg neg by (simp_all add: slot_index_def)
    ultimately have "objs self sl mem ptr = Some (payload hdr)" unfolding objs_def Let_def using assms(4) by (simp del: view_Some)
    with assms(2) show False by simp
  qed
  then show ?thesis unfolding slab_free_def Let_def pg by (elim disjE exE conjE) simp_all
qed

text \<open>Live objects lie inside the pages of their slab and do not overlap.\<close>

lemma objs_in_page:
  assumes "slab_inv self sl mem" "objs self sl mem ptr = Some d"
  shows "\<exists>page \<in> dom (view self mem). length d = object_size sl \<and> page < ptr \<and> ptr + length d \<le> page + PAGE_SIZE \<and>
    page = (ptr - payload_offset sl) div PAGE_SIZE * PAGE_SIZE"
proof -
  have core: "slab_core self sl mem" using assms(1) by (simp add: slab_inv_def)
  obtain page pg i where pg: "mem page = Some pg" "owner pg = self" "ptr = obj_ptr sl page i" "i < page_capacity sl" "d = payload (slots pg ! i)"
    using assms(2) by (rule objs_Some)
  note c = slab_core_page [OF core pg(1,2)]
  have len: "length d = object_size sl" using c(2,4) pg(4,5) by (simp add: page_inv_def slot_ok_def)
  have "slot_object sl i + slot_stride sl \<le> PAGE_SIZE" "0 < slot_object sl i" using slot_end [OF c(1) pg(4)] slot_object_pos [OF c(1)] by simp_all
  then have "page < ptr \<and> ptr + object_size sl \<le> page + PAGE_SIZE" using c(1) unfolding pg(3) obj_ptr_def geom_ok_def by linarith
  moreover have "page = (ptr - payload_offset sl) div PAGE_SIZE * PAGE_SIZE" using decode_ptr(1) [OF c(1) pg(4) c(3)] pg(3) by simp
  moreover have "page \<in> dom (view self mem)" using pg(1,2) by (auto simp: dom_def)
  ultimately show ?thesis using len by auto
qed

lemma objs_disjoint:
  assumes "slab_inv self sl mem" "objs self sl mem p = Some d" "objs self sl mem q = Some e" "p \<noteq> q"
  shows "{p..<p + length d} \<inter> {q..<q + length e} = {}"
proof -
  have core: "slab_core self sl mem" using assms(1) by (simp add: slab_inv_def)
  obtain a pg i where p: "mem a = Some pg" "owner pg = self" "p = obj_ptr sl a i" "i < page_capacity sl" using assms(2) by (rule objs_Some)
  obtain b pg' j where q: "mem b = Some pg'" "owner pg' = self" "q = obj_ptr sl b j" "j < page_capacity sl" using assms(3) by (rule objs_Some)
  note c = slab_core_page [OF core p(1,2)]
  have len: "length d = object_size sl" "length e = object_size sl" using objs_in_page [OF assms(1,2)] objs_in_page [OF assms(1,3)] by blast+
  have st: "payload_offset sl + object_size sl \<le> slot_stride sl" using c(1) by (simp add: geom_ok_def)
  have apart: "x + object_size sl \<le> y \<or> y + object_size sl \<le> x \<Longrightarrow> {x..<x + object_size sl} \<inter> {y..<y + object_size sl} = {}" for x y by auto
  have slots: "slot_object sl m + object_size sl \<le> slot_object sl n" if "m < n" for m n
  proof -
    have "slot_stride sl * (m + 1) \<le> slot_stride sl * n" using that by (intro mult_le_mono2) simp
    then show ?thesis using st by (simp add: slot_object_def)
  qed
  show ?thesis
  proof (cases "a = b")
    case True
    then have "i \<noteq> j" using assms(4) p(3) q(3) by blast
    then have "i < j \<or> j < i" by linarith
    then show ?thesis unfolding len p(3) q(3) obj_ptr_def True using slots [of i j] slots [of j i] by (intro apart) auto
  next
    case False
    obtain x y where xy: "a = PAGE_SIZE * x" "b = PAGE_SIZE * y" using c(3) slab_core_page(3) [OF core q(1,2)] by blast
    then have "a + PAGE_SIZE \<le> b \<or> b + PAGE_SIZE \<le> a" using False by auto
    moreover have "a < p \<and> p + object_size sl \<le> a + PAGE_SIZE"
      using objs_in_page [OF assms(1,2)] decode_ptr(1) [OF c(1) p(4) c(3)] p(3) len by auto
    moreover have "b < q \<and> q + object_size sl \<le> b + PAGE_SIZE"
      using objs_in_page [OF assms(1,3)] decode_ptr(1) [OF c(1) q(4) slab_core_page(3) [OF core q(1,2)]] q(3) len by auto
    ultimately show ?thesis unfolding len by (intro apart) linarith
  qed
qed

section \<open>Allocation and release\<close>

text \<open>The pages of all slabs are blocks of the allocator; \<open>R\<close> are the blocks other clients hold.\<close>

definition slab_heap :: "('s \<Rightarrow> (nat \<times> nat) set \<Rightarrow> bool) \<Rightarrow> 's \<Rightarrow> (nat \<times> nat) set \<Rightarrow> slab_pages \<Rightarrow> bool" where
  "slab_heap owns s R mem \<longleftrightarrow> owns s (R \<union> Pair 0 ` dom mem) \<and> R \<inter> Pair 0 ` dom mem = {}"

text \<open>The operations over any page allocator that meets its contract.\<close>

context page_provider
begin

lemma pick_alloc_page_ok:
  assumes "slab_inv self sl mem" "slab_heap owns s R mem"
  shows "\<exists>r sl' mem' s'. pick_alloc_page alloc self sl mem s = Some (r, sl', mem', s') \<and> slab_heap owns s' R mem' \<and> same_geom sl sl' \<and>
    objs self sl' mem' = objs self sl mem \<and> (\<forall>self2. self2 \<noteq> self \<longrightarrow> view self2 mem' = view self2 mem) \<and>
    (case r of None \<Rightarrow> slab_inv self sl' mem' \<and> sl' = sl \<and> mem' = mem \<and> alloc s 0 = Some (None, s')
     | Some page \<Rightarrow> \<exists>pg. slab_core self sl' mem' \<and> mem' page = Some pg \<and> owner pg = self \<and> free_head pg \<noteq> 0 \<and> inuse_objects sl' = inuse_objects sl \<and>
        (\<forall>p pg. view self mem' p = Some pg \<longrightarrow> p \<noteq> page \<longrightarrow> 0 < inuse pg))"
proof (cases "partial_pages sl")
  case (Cons page ps)
  then have "page \<in> {p. \<exists>pg. view self mem p = Some pg \<and> free_head pg \<noteq> 0}" using assms(1) by (auto simp: slab_inv_def slab_core_def)
  then obtain pg where pg: "mem page = Some pg" "owner pg = self" "free_head pg \<noteq> 0" by auto
  then have "pick_alloc_page alloc self sl mem s = Some (Some page, sl, mem, s)" using Cons by (simp add: pick_alloc_page_def)
  then show ?thesis using assms pg by (auto simp: slab_inv_def)
next
  case Nil
  have own: "owns s (R \<union> Pair 0 ` dom mem)" using assms(2) by (simp add: slab_heap_def)
  obtain r s' where r: "alloc s 0 = Some (r, s')" using alloc_law [OF own, of 0] by blast
  show ?thesis
  proof (cases r)
    case None
    have "pick_alloc_page alloc self sl mem s = Some (None, sl, mem, s')" using Nil r None by (simp add: pick_alloc_page_def create_slab_page_def)
    then show ?thesis using assms r None alloc_fail [OF own] by (auto simp: slab_heap_def)
  next
    case (Some page)
    obtain h L where hL: "init_slots sl (page_capacity sl) 0 [] = (h, L)" by fastforce
    let ?pg = "\<lparr>owner = self, inuse = 0, free_head = h, slots = L\<rparr>" and ?mem = "mem(page \<mapsto> \<lparr>owner = self, inuse = 0, free_head = h, slots = L\<rparr>)"
    let ?sl = "push_partial_page (sl\<lparr>total_objects := total_objects sl + page_capacity sl\<rparr>) page"
    have core: "slab_core self sl mem" and g: "geom_ok sl" using assms(1) unfolding slab_inv_def slab_core_def by blast+
    note fr = fresh_page_inv [OF g hL]
    have al: "alloc s 0 = Some (Some page, s')" using r Some by simp
    note af = alloc_fresh [OF own al]
    have fresh: "mem page = None" using af(2) [of 0] by (force simp: dom_def)
    then have core': "slab_core self ?sl ?mem" using fr af(4) by (intro slab_core_add [OF core]) simp_all
    have geom: "same_geom sl ?sl" by (simp add: push_partial_page_def same_geom_def)
    have "objs self ?sl ?mem = objs self sl (?mem(page := None))"
      unfolding objs_geom [OF geom] using fr(3) by (intro objs_empty_page [where pg = ?pg, symmetric] g) simp_all
    also have "?mem(page := None) = mem" using fresh by auto
    finally have ob: "objs self ?sl ?mem = objs self sl mem" .
    have "R \<union> Pair 0 ` dom ?mem = insert (0, page) (R \<union> Pair 0 ` dom mem)" by auto
    then have heap: "slab_heap owns s' R ?mem" using af(1,2) assms(2) by (auto simp: slab_heap_def)
    have "pick_alloc_page alloc self sl mem s = Some (Some page, ?sl, ?mem, s')"
      using Nil al hL fr(2) by (simp add: pick_alloc_page_def create_slab_page_def push_partial_page_def)
    moreover have "view self2 ?mem = view self2 mem" if "self2 \<noteq> self" for self2 using that fresh by (intro view_frame) simp_all
    moreover have "0 < inuse pg" if "view self ?mem p = Some pg" "p \<noteq> page" for p pg using that assms(1) by (auto simp: slab_inv_def)
    ultimately show ?thesis using core' geom ob heap fr(2) by (simp add: push_partial_page_def) blast
  qed
qed

lemma slab_alloc_ok:
  assumes "slab_inv self sl mem" "slab_heap owns s R mem"
  shows "\<exists>r sl' mem' s'. slab_alloc alloc self sl mem s = Some (r, sl', mem', s') \<and> slab_heap owns s' R mem' \<and> same_geom sl sl' \<and>
    slab_inv self sl' mem' \<and> (\<forall>self2. self2 \<noteq> self \<longrightarrow> view self2 mem' = view self2 mem) \<and>
    (case r of None \<Rightarrow> sl' = sl \<and> mem' = mem \<and> alloc s 0 = Some (None, s')
     | Some ptr \<Rightarrow> objs self sl mem ptr = None \<and> objs self sl' mem' = (objs self sl mem)(ptr \<mapsto> replicate (object_size sl) 0) \<and>
         inuse_objects sl' = inuse_objects sl + 1)"
proof -
  obtain r sl1 mem1 s1 where pick: "pick_alloc_page alloc self sl mem s = Some (r, sl1, mem1, s1)" "slab_heap owns s1 R mem1" "same_geom sl sl1"
    "objs self sl1 mem1 = objs self sl mem" "\<forall>self2. self2 \<noteq> self \<longrightarrow> view self2 mem1 = view self2 mem"
    "case r of None \<Rightarrow> slab_inv self sl1 mem1 \<and> sl1 = sl \<and> mem1 = mem \<and> alloc s 0 = Some (None, s1)
     | Some page \<Rightarrow> \<exists>pg. slab_core self sl1 mem1 \<and> mem1 page = Some pg \<and> owner pg = self \<and> free_head pg \<noteq> 0 \<and> inuse_objects sl1 = inuse_objects sl \<and>
        (\<forall>p pg. view self mem1 p = Some pg \<longrightarrow> p \<noteq> page \<longrightarrow> 0 < inuse pg)"
    using pick_alloc_page_ok [OF assms] by blast
  show ?thesis
  proof (cases r)
    case None
    then show ?thesis using pick assms(1) by (simp add: slab_alloc_def)
  next
    case (Some page)
    then obtain pg where pg: "slab_core self sl1 mem1" "mem1 page = Some pg" "owner pg = self" "free_head pg \<noteq> 0" "inuse_objects sl1 = inuse_objects sl"
        "\<forall>p pg. view self mem1 p = Some pg \<longrightarrow> p \<noteq> page \<longrightarrow> 0 < inuse pg"
      using pick(6) by auto
    note c = slab_core_page [OF pg(1-3)]
    let ?h = "\<lambda>i. (slots pg ! i)\<lparr>next_free := 0, is_free := False, payload := replicate (object_size sl1) 0\<rparr>"
    obtain i where i: "i < page_capacity sl1" "free_head pg = slot_object sl1 i" "is_free (slots pg ! i)" "slot_ok sl1 (slots pg ! i)"
      and inv: "page_inv sl1 self (pg\<lparr>free_head := next_free (slots pg ! i), inuse := inuse pg + 1, slots := (slots pg)[i := ?h i]\<rparr>)"
      by (rule page_inv_take [OF c(1,2) pg(4)])
    let ?pg = "pg\<lparr>free_head := next_free (slots pg ! i), inuse := inuse pg + 1, slots := (slots pg)[i := ?h i]\<rparr>"
    let ?sl = "if next_free (slots pg ! i) = 0 then unlink_page (sl1\<lparr>inuse_objects := inuse_objects sl1 + 1\<rparr>) page
      else sl1\<lparr>inuse_objects := inuse_objects sl1 + 1\<rparr>"
    let ?ptr = "obj_ptr sl1 page i"
    have geom: "same_geom sl1 ?sl" by (simp add: same_geom_def unlink_page_def)
    have run: "slab_alloc alloc self sl mem s = Some (Some ?ptr, ?sl, mem1(page \<mapsto> ?pg), s1)"
      using pick(1) Some pg(2,4) i slot_index_object [OF c(1) i(1)] c(4) check_ok [OF i(4)]
      by (simp add: slab_alloc_def rd_def obj_ptr_def Let_def unlink_page_def)
    have dist: "distinct (partial_pages sl1)" and part: "page \<in> set (partial_pages sl1)" using pg(1-4) by (auto simp: slab_core_def)
    have core: "slab_core self ?sl (mem1(page \<mapsto> ?pg))"
      using dist part by (intro slab_core_step [OF pg(1-3) inv geom]) (auto simp: unlink_page_def)
    have "slab_inv self ?sl (mem1(page \<mapsto> ?pg))" using core pg(3,6) unfolding slab_inv_def by (auto simp: view_upd)
    moreover have "objs self ?sl (mem1(page \<mapsto> ?pg)) = (objs self sl mem)(?ptr \<mapsto> replicate (object_size sl) 0)"
      unfolding objs_geom [OF geom] pick(4) [symmetric] using c i pg pick(3)
      by (subst objs_update [where pg = pg and hdr = "?h i"]) (simp_all add: same_geomD)
    moreover have "objs self sl mem ?ptr = None"
      using objs_ptr [where mem = mem1, OF c(1) i(1) c(3) pg(2,3) c(4)] i(3) pick(4) by simp
    moreover have "slab_heap owns s1 R (mem1(page \<mapsto> ?pg))" using pick(2) pg(2) by (auto simp: slab_heap_def insert_absorb domI)
    moreover have "view self2 (mem1(page \<mapsto> ?pg)) = view self2 mem" if "self2 \<noteq> self" for self2
      using that pick(5) pg(2,3) view_frame(1) [of mem1 page self2 ?pg] by simp
    ultimately show ?thesis using run same_geom_trans [OF pick(3) geom] pg(5) by (simp add: unlink_page_def)
  qed
qed

text \<open>Releasing a live object; a page whose last object goes is given back.\<close>

lemma slab_free_ok:
  assumes "slab_inv self sl mem" "slab_heap owns s R mem" "objs self sl mem ptr = Some d"
  shows "\<exists>sl' mem' s'. slab_free free self sl mem s ptr = Some (sl', mem', s') \<and> slab_heap owns s' R mem' \<and> same_geom sl sl' \<and>
    slab_inv self sl' mem' \<and> (\<forall>self2. self2 \<noteq> self \<longrightarrow> view self2 mem' = view self2 mem) \<and>
    objs self sl' mem' = (objs self sl mem)(ptr := None) \<and> inuse_objects sl' + 1 = inuse_objects sl"
proof -
  have core: "slab_core self sl mem" and pos: "\<forall>p pg. view self mem p = Some pg \<longrightarrow> 0 < inuse pg" using assms(1) unfolding slab_inv_def by blast+
  obtain page pg i where pg: "mem page = Some pg" "owner pg = self" "i < page_capacity sl" "\<not> is_free (slots pg ! i)"
    and ptr: "ptr = obj_ptr sl page i" using assms(3) by (rule objs_Some)
  note c = slab_core_page [OF core pg(1,2)]
  have ok: "slot_ok sl (slots pg ! i)" using c(2,4) pg(3) by (simp add: page_inv_def)
  have ob: "slot_object sl i < PAGE_SIZE" by (rule slot_object_bound [OF c(1) pg(3)])
  obtain xs where fh: "chain sl (slots pg) (free_head pg) xs" "set xs = free_idx (slots pg)" using c(2) by (auto simp: page_inv_def)
  have fhb: "free_head pg < PAGE_SIZE"
    using fh slot_object_bound [OF c(1)] c(4) by (cases xs) (auto simp: free_idx_def)
  let ?h = "(fill_redzones sl (fill_unused_payload sl (slots pg ! i)))\<lparr>is_free := True, next_free := free_head pg\<rparr>"
  let ?pg = "pg\<lparr>free_head := slot_object sl i, inuse := inuse pg - 1, slots := (slots pg)[i := ?h]\<rparr>"
  let ?sl = "if free_head pg = 0 then push_partial_page (sl\<lparr>inuse_objects := inuse_objects sl - 1\<rparr>) page else sl\<lparr>inuse_objects := inuse_objects sl - 1\<rparr>"
  let ?mem = "mem(page \<mapsto> ?pg)"
  note put = page_inv_put [OF c(1,2) pg(3,4)]
  have geom: "same_geom sl ?sl" by (simp add: same_geom_def push_partial_page_def)
  have own: "owns s (R \<union> Pair 0 ` dom mem)" "(0, page) \<in> R \<union> Pair 0 ` dom mem" using assms(2) pg(1) by (auto simp: slab_heap_def)
  have win: "DIRECT_MAP_START_VIRT \<le> page" "page + 4096 \<le> DIRECT_MAP_END_VIRT" using window_law [OF own] by simp_all
  have "slot_object sl i + slot_stride sl \<le> PAGE_SIZE" "payload_offset sl < slot_stride sl" using slot_end [OF c(1) pg(3)] c(1) by (simp_all add: geom_ok_def)
  then have range: "DIRECT_MAP_START_VIRT \<le> ptr" "ptr < DIRECT_MAP_END_VIRT" using win unfolding ptr obj_ptr_def by linarith+
  have idx: "slot_offset sl \<le> slot_object sl i" "(slot_object sl i - slot_offset sl) div slot_stride sl = i" "(slot_object sl i - slot_offset sl) mod slot_stride sl = 0"
    using stride_pos [OF c(1)] by (simp_all add: slot_object_def)
  have run: "slab_free free self sl mem s ptr = (if inuse pg - 1 = 0 then destroy_slab_page free (unlink_page ?sl page) ?mem page s else Some (?sl, ?mem, s))"
    unfolding slab_free_def Let_def ptr decode_ptr [OF c(1) pg(3) c(3)] idx
    using pg range [unfolded ptr] c(4) put(1) check_ok(1) [OF ok] ob fhb idx(1) by (simp add: rd_def kassert_def)
  have sum: "0 < inuse_objects sl"
  proof -
    have "inuse pg \<le> (\<Sum>p \<in> dom (view self mem). inuse (the (view self mem p)))"
      using member_le_sum [of page "dom (view self mem)" "\<lambda>p. inuse (the (view self mem p))"] core pg(1,2) by (auto simp: slab_core_def view_def dom_def)
    then show ?thesis using put(1) core by (simp add: slab_core_def)
  qed
  have part: "page \<in> set (partial_pages sl) \<longleftrightarrow> free_head pg \<noteq> 0" "distinct (partial_pages sl)" using core pg(1,2) by (auto simp: slab_core_def)
  have core': "slab_core self ?sl ?mem"
    using part sum put(1) slot_object_pos [OF c(1)] by (intro slab_core_step [OF core pg(1,2) put(2) geom]) (auto simp: push_partial_page_def)
  have objs': "objs self sl ?mem = (objs self sl mem)(ptr := None)"
    unfolding ptr using c pg by (subst objs_update [where pg = pg and hdr = ?h]) simp_all
  have frame: "view self2 ?mem = view self2 mem" if "self2 \<noteq> self" for self2 using that pg(1,2) by (intro view_frame) simp_all
  show ?thesis
  proof (cases "inuse pg - 1 = 0")
    case False
    have "slab_inv self ?sl ?mem" using core' pos False unfolding slab_inv_def by (auto simp: view_upd)
    moreover have "slab_heap owns s R ?mem" using assms(2) pg(1) by (auto simp: slab_heap_def insert_absorb domI)
    ultimately show ?thesis using run False geom frame objs' objs_geom [OF geom] sum by (simp add: push_partial_page_def)
  next
    case True
    let ?sl2 = "(unlink_page ?sl page)\<lparr>total_objects := total_objects ?sl - page_capacity ?sl\<rparr>"
    have "(0, page) \<in> R \<union> Pair 0 ` dom ?mem" "R \<union> Pair 0 ` dom ?mem = R \<union> Pair 0 ` dom mem" using pg(1) by (auto simp: insert_absorb domI)
    then obtain s' where s': "free s page 0 = Some s'" "owns s' (R \<union> Pair 0 ` dom mem - {(0, page)})"
      using free_law [OF own] by auto
    have "R \<union> Pair 0 ` dom mem - {(0, page)} = R \<union> Pair 0 ` dom (?mem(page := None))" using assms(2) pg(1) by (auto simp: slab_heap_def)
    then have heap: "slab_heap owns s' R (?mem(page := None))" using s'(2) assms(2) by (auto simp: slab_heap_def)
    have "destroy_slab_page free (unlink_page ?sl page) ?mem page s = Some (?sl2, ?mem(page := None), s')"
      using True s'(1) by (simp add: destroy_slab_page_def kassert_def unlink_page_def push_partial_page_def)
    then have run': "slab_free free self sl mem s ptr = Some (?sl2, ?mem(page := None), s')" using run True by simp
    have core2: "slab_core self ?sl2 (?mem(page := None))" using True pg(2) by (intro slab_core_drop [OF core', where pg = ?pg]) simp_all
    then have inv2: "slab_inv self ?sl2 (?mem(page := None))" using pos unfolding slab_inv_def by (auto simp: view_upd)
    have g2: "same_geom sl ?sl2" by (simp add: same_geom_def unlink_page_def push_partial_page_def)
    have "objs self sl (?mem(page := None)) = objs self sl ?mem"
    proof (rule objs_empty_page [OF c(1)])
      obtain ys where ys: "set ys = free_idx (slots ?pg)" "distinct ys" "inuse ?pg + length ys = page_capacity sl" "length (slots ?pg) = page_capacity sl"
        using put(2) unfolding page_inv_def by blast
      then have "card (free_idx (slots ?pg)) = card {..<page_capacity sl}" using True distinct_card [OF ys(2)] by simp
      moreover have "free_idx (slots ?pg) \<subseteq> {..<page_capacity sl}" using ys(4) by (auto simp: free_idx_def)
      ultimately have "j \<in> free_idx (slots ?pg)" if "j < page_capacity sl" for j
        using that card_subset_eq [of "{..<page_capacity sl}" "free_idx (slots ?pg)"] by blast
      then show "\<forall>s \<in> set (slots ?pg). is_free s" unfolding all_set_conv_all_nth ys(4) free_idx_def by blast
    qed (use pg(2) in simp_all)
    moreover have "view self2 (?mem(page := None)) = view self2 mem" if "self2 \<noteq> self" for self2
      using that pg(1,2) view_frame(2) [of mem page self2] by simp
    ultimately show ?thesis using run' inv2 heap g2 objs' objs_geom [OF g2] sum by (simp add: push_partial_page_def unlink_page_def)
  qed
qed

end

end
