(* ===== verification/Mm_Kmalloc.thy ===== *)
theory Mm_Kmalloc
  imports Mm_Slab
begin

text \<open>
  \<open>kernel/src/mm/kmalloc.c\<close>: the kernel heap. Requests up to the largest slab class go to one of
  thirteen slabs, larger ones to the page allocator. The state is the array \<^verbatim>\<open>g_slabs\<close> with the slab
  pages and the contents of the blocks that were handed out as a whole; the page allocator is an
  argument, as in \<open>Mm_Slab\<close>. A slab is known by its index in \<^verbatim>\<open>g_slabs\<close>.
\<close>

section \<open>Model\<close>

abbreviation KMALLOC_MAX_SIZE :: nat where "KMALLOC_MAX_SIZE \<equiv> 4096 * 64"
abbreviation KMALLOC_ALIGN :: nat where "KMALLOC_ALIGN \<equiv> 8"
abbreviation PFN_VALID_BIT_WIDTH :: nat where "PFN_VALID_BIT_WIDTH \<equiv> 52"

definition SLOT_PREFIX :: "nat \<Rightarrow> nat" where
  "SLOT_PREFIX a = align_up (SIZEOF_HDR + SLAB_REDZONE_SIZE) a"

definition SLOT_STRIDE :: "nat \<Rightarrow> nat \<Rightarrow> nat" where
  "SLOT_STRIDE x a = align_up (SLOT_PREFIX a + x + SLAB_REDZONE_SIZE) a"

definition SLAB_PAGE_USABLE :: "nat \<Rightarrow> nat" where
  "SLAB_PAGE_USABLE a = PAGE_SIZE - align_up SIZEOF_SLAB_PAGE a"

definition SLOTS_COUNT :: "nat \<Rightarrow> nat \<Rightarrow> nat" where
  "SLOTS_COUNT x a = SLAB_PAGE_USABLE a div SLOT_STRIDE x a"

definition align_down :: "nat \<Rightarrow> nat \<Rightarrow> nat" where
  "align_down x a = unat (align_floor_sz_p2 (of_nat x) (of_nat a))"

definition SLOT_EXTEND :: "nat \<Rightarrow> nat \<Rightarrow> nat" where
  "SLOT_EXTEND x a = align_down (SLAB_PAGE_USABLE a div SLOTS_COUNT x a) a - SLOT_PREFIX a - SLAB_REDZONE_SIZE"

definition g_slab_sizes :: "nat list" where
  "g_slab_sizes = map (\<lambda>x. SLOT_EXTEND x KMALLOC_ALIGN) [32, 48, 64, 80, 96, 128, 160, 192, 256, 384, 512, 768, 1024]"

record kheap =
  g_slabs :: "slab list"
  slab_mem :: slab_pages
  blocks :: "nat \<Rightarrow> u8 list option"

fun slab_index_from :: "nat list \<Rightarrow> nat \<Rightarrow> nat \<Rightarrow> nat option" where
  "slab_index_from [] i sz = None"
| "slab_index_from (n # ns) i sz = (if sz \<le> n then Some i else slab_index_from ns (i + 1) sz)"

definition slab_index_for_size :: "nat \<Rightarrow> nat option" where
  "slab_index_for_size sz = slab_index_from g_slab_sizes 0 sz"

function page_order_loop :: "nat \<Rightarrow> nat \<Rightarrow> nat \<Rightarrow> nat" where
  "page_order_loop sz order bytes =
     (if order < PFN_VALID_BIT_WIDTH \<and> bytes < sz then page_order_loop sz (order + 1) (bytes * 2 mod 2 ^ 64) else order)"
  by pat_completeness auto
termination by (relation "measure (\<lambda>(sz, order, bytes). PFN_VALID_BIT_WIDTH - order)") auto

declare page_order_loop.simps [simp del]

definition page_order_for_size :: "nat \<Rightarrow> nat" where
  "page_order_for_size sz = page_order_loop sz 0 PAGE_SIZE"

fun create_slabs :: "nat list \<Rightarrow> slab list option" where
  "create_slabs [] = Some []"
| "create_slabs (n # ns) = do { sl \<leftarrow> slab_create n KMALLOC_ALIGN; sls \<leftarrow> create_slabs ns; Some (sl # sls) }"

definition kmalloc_init :: "kheap option" where
  "kmalloc_init = do { sls \<leftarrow> create_slabs g_slab_sizes; Some \<lparr>g_slabs = sls, slab_mem = Map.empty, blocks = Map.empty\<rparr> }"

definition kzalloc_span ::
  "('s \<Rightarrow> nat \<Rightarrow> (nat option \<times> 's) option) \<Rightarrow> kheap \<Rightarrow> 's \<Rightarrow> nat \<Rightarrow> ((nat option \<times> nat) \<times> kheap \<times> 's) option" where
  "kzalloc_span palloc k s sz =
     (if sz = 0 then Some ((None, 0), k, s)
      else do {
        kassert (sz \<le> KMALLOC_MAX_SIZE);
        case slab_index_for_size sz of
          Some idx \<Rightarrow> do {
            sl \<leftarrow> rd (g_slabs k) idx;
            (ptr, sl, mem, s) \<leftarrow> slab_alloc palloc idx sl (slab_mem k) s;
            Some ((ptr, g_slab_sizes ! idx), k\<lparr>g_slabs := (g_slabs k)[idx := sl], slab_mem := mem\<rparr>, s)
          }
        | None \<Rightarrow> do {
            let order = page_order_for_size sz;
            kassert (order < PFN_VALID_BIT_WIDTH);
            (ptr, s) \<leftarrow> palloc s order;
            case ptr of
              None \<Rightarrow> Some ((None, 0), k, s)
            | Some p \<Rightarrow> do {
                let alloc_size = PAGE_SIZE * 2 ^ order;
                Some ((Some p, alloc_size), k\<lparr>blocks := (blocks k)(p \<mapsto> replicate alloc_size 0)\<rparr>, s)
              }
          }
      })"

definition kzalloc :: "('s \<Rightarrow> nat \<Rightarrow> (nat option \<times> 's) option) \<Rightarrow> kheap \<Rightarrow> 's \<Rightarrow> nat \<Rightarrow> (nat option \<times> kheap \<times> 's) option" where
  "kzalloc palloc k s sz = do { ((ptr, n), k, s) \<leftarrow> kzalloc_span palloc k s sz; Some (ptr, k, s) }"

definition kfree :: "('s \<Rightarrow> nat \<Rightarrow> nat \<Rightarrow> 's option) \<Rightarrow> kheap \<Rightarrow> 's \<Rightarrow> nat option \<Rightarrow> nat \<Rightarrow> (kheap \<times> 's) option" where
  "kfree pfree k s ptr sz =
     (case ptr of
        None \<Rightarrow> Some (k, s)
      | Some p \<Rightarrow>
          if sz = 0 then Some (k, s)
          else do {
            kassert (sz \<le> KMALLOC_MAX_SIZE);
            case slab_index_for_size sz of
              Some idx \<Rightarrow> do {
                sl \<leftarrow> rd (g_slabs k) idx;
                (sl, mem, s) \<leftarrow> slab_free pfree idx sl (slab_mem k) s p;
                Some (k\<lparr>g_slabs := (g_slabs k)[idx := sl], slab_mem := mem\<rparr>, s)
              }
            | None \<Rightarrow> do {
                let order = page_order_for_size sz;
                kassert (order < PFN_VALID_BIT_WIDTH);
                s \<leftarrow> pfree s p order;
                Some (k\<lparr>blocks := (blocks k)(p := None)\<rparr>, s)
              }
          })"

definition kfree_span :: "('s \<Rightarrow> nat \<Rightarrow> nat \<Rightarrow> 's option) \<Rightarrow> kheap \<Rightarrow> 's \<Rightarrow> nat option \<times> nat \<Rightarrow> (kheap \<times> 's) option" where
  "kfree_span pfree k s sp = kfree pfree k s (fst sp) (snd sp)"

section \<open>Size classes\<close>

lemma align_up_8: "x < 2 ^ 20 \<Longrightarrow> align_up x 8 = (x + 7) div 8 * 8"
  using align_up_p2 [of 3 x] by simp

lemma align_down_8: "x < 2 ^ 20 \<Longrightarrow> align_down x 8 = x div 8 * 8"
proof -
  assume "x < 2 ^ 20"
  then have x: "unat (of_nat x :: u64) = x" by (simp add: unsigned_of_nat take_bit_nat_eq_self)
  show ?thesis using unat_align_floor [of 3 "of_nat x"] unfolding x by (simp add: align_down_def)
qed

lemma g_slab_sizes_eq: "g_slab_sizes = [38, 54, 70, 86, 102, 134, 166, 198, 278, 390, 566, 798, 1342]"
  by (simp add: g_slab_sizes_def SLOT_EXTEND_def SLOTS_COUNT_def SLAB_PAGE_USABLE_def SLOT_STRIDE_def SLOT_PREFIX_def align_up_8 align_down_8)

definition sz_class :: "nat \<Rightarrow> nat + nat" where
  "sz_class sz = (case slab_index_for_size sz of Some i \<Rightarrow> Inl i | None \<Rightarrow> Inr (page_order_for_size sz))"

lemma slab_index_from_Some:
  "slab_index_from ns b sz = Some i \<Longrightarrow> b \<le> i \<and> i - b < length ns \<and> sz \<le> ns ! (i - b) \<and> (\<forall>j < i - b. ns ! j < sz)"
proof (induction ns arbitrary: b)
  case (Cons n ns)
  show ?case
  proof (cases "sz \<le> n")
    case False
    then have "b + 1 \<le> i \<and> i - (b + 1) < length ns \<and> sz \<le> ns ! (i - (b + 1)) \<and> (\<forall>j < i - (b + 1). ns ! j < sz)" using Cons by simp
    moreover obtain m where "i - b = Suc m" "i - (b + 1) = m" using calculation by (cases "i - b") auto
    ultimately show ?thesis using False by (auto simp: nth_Cons split: nat.split)
  qed (use Cons.prems in simp)
qed simp

lemma slab_index_from_None: "slab_index_from ns b sz = None \<longleftrightarrow> (\<forall>n \<in> set ns. n < sz)"
  by (induction ns arbitrary: b) auto

lemma slab_index_from_hit:
  "sorted_wrt (<) ns \<Longrightarrow> i < length ns \<Longrightarrow> slab_index_from ns b (ns ! i) = Some (b + i)"
proof (induction ns arbitrary: b i)
  case (Cons n ns)
  then show ?case by (cases i) (auto simp: not_le nth_mem)
qed simp

lemma g_slab_sizes_facts: "sorted_wrt (<) g_slab_sizes" "length g_slab_sizes = 13" "\<forall>n \<in> set g_slab_sizes. 0 < n \<and> n < 4096"
  by (simp_all add: g_slab_sizes_eq)

lemma page_order_loop_spec:
  assumes "order \<le> 6" "sz \<le> 4096 * 2 ^ 6" "\<forall>j < order. 4096 * 2 ^ j < sz"
  shows "page_order_loop sz order (4096 * 2 ^ order) \<le> 6 \<and> sz \<le> 4096 * 2 ^ page_order_loop sz order (4096 * 2 ^ order) \<and>
    (\<forall>j < page_order_loop sz order (4096 * 2 ^ order). 4096 * 2 ^ j < sz)"
  using assms
proof (induction "6 - order" arbitrary: order)
  case 0
  then have "order = 6" by simp
  then show ?case using 0 by (subst (1 2 3) page_order_loop.simps) auto
next
  case (Suc m)
  show ?case
  proof (cases "4096 * 2 ^ order < sz")
    case True
    have o: "order + 1 \<le> 6" using Suc.hyps(2) by simp
    have "(2 :: nat) ^ (order + 1) \<le> 2 ^ 6" using o by (intro power_increasing) simp_all
    then have "4096 * 2 ^ order * 2 mod 2 ^ 64 = 4096 * (2 :: nat) ^ (order + 1)" by simp
    then have "page_order_loop sz order (4096 * 2 ^ order) = page_order_loop sz (order + 1) (4096 * 2 ^ (order + 1))"
      using True o by (subst page_order_loop.simps) simp
    then show ?thesis using Suc.hyps(1) [of "order + 1"] Suc.hyps(2) Suc.prems True o by (simp add: less_Suc_eq)
  next
    case False
    then have "page_order_loop sz order (4096 * 2 ^ order) = order" by (subst page_order_loop.simps) simp
    then show ?thesis using Suc.prems False by simp
  qed
qed

lemma page_order_spec:
  assumes "sz \<le> KMALLOC_MAX_SIZE"
  shows "page_order_for_size sz \<le> 6" "sz \<le> 4096 * 2 ^ page_order_for_size sz" "j < page_order_for_size sz \<Longrightarrow> 4096 * 2 ^ j < sz"
  using page_order_loop_spec [of 0 sz] assms by (simp_all add: page_order_for_size_def)

lemma page_order_block: "n \<le> 6 \<Longrightarrow> page_order_for_size (4096 * 2 ^ n) = n"
proof -
  assume n: "n \<le> 6"
  have "4096 * (2 :: nat) ^ n \<le> 4096 * 2 ^ 6" using n by (intro mult_le_mono2 power_increasing) simp_all
  then have *: "4096 * 2 ^ n \<le> (4096 :: nat) * 2 ^ page_order_for_size (4096 * 2 ^ n)"
      "\<And>j. j < page_order_for_size (4096 * 2 ^ n) \<Longrightarrow> (4096 :: nat) * 2 ^ j < 4096 * 2 ^ n"
    using page_order_spec [of "4096 * 2 ^ n"] by simp_all
  show ?thesis
  proof (rule antisym)
    show "n \<le> page_order_for_size (4096 * 2 ^ n)" using *(1) by simp
    show "page_order_for_size (4096 * 2 ^ n) \<le> n" using *(2) [of n] by (cases "page_order_for_size (4096 * 2 ^ n) \<le> n") simp_all
  qed
qed

text \<open>The class of the size a request is rounded up to is the class of the request.\<close>

lemma sz_class_slab: "i < 13 \<Longrightarrow> sz_class (g_slab_sizes ! i) = Inl i"
  using slab_index_from_hit [OF g_slab_sizes_facts(1), of i 0] g_slab_sizes_facts(2) by (simp add: sz_class_def slab_index_for_size_def)

lemma sz_class_block:
  assumes "n \<le> 6"
  shows "sz_class (4096 * 2 ^ n) = Inr n"
proof -
  have "(1 :: nat) \<le> 2 ^ n" by simp
  then have big: "4096 \<le> 4096 * (2 :: nat) ^ n" by linarith
  have "m < 4096 * 2 ^ n" if "m \<in> set g_slab_sizes" for m
    using g_slab_sizes_facts(3) that by (intro less_le_trans [OF _ big]) blast
  then have "slab_index_for_size (4096 * 2 ^ n) = None" by (simp add: slab_index_for_size_def slab_index_from_None)
  then show ?thesis using page_order_block [OF assms] by (simp add: sz_class_def)
qed

section \<open>The heap\<close>

text \<open>The live allocations, each with its class, address and contents.\<close>

definition live :: "kheap \<Rightarrow> ((nat + nat) \<times> nat \<times> u8 list) set" where
  "live k = {(Inl i, p, d) | i p d. i < 13 \<and> objs i (g_slabs k ! i) (slab_mem k) p = Some d} \<union>
            {(Inr (page_order_for_size (length d)), p, d) | p d. blocks k p = Some d}"

definition block_set :: "kheap \<Rightarrow> (nat \<times> nat) set" where
  "block_set k = {(page_order_for_size (length d), p) | p d. blocks k p = Some d}"

definition slab_class_ok :: "kheap \<Rightarrow> nat \<Rightarrow> bool" where
  "slab_class_ok k i \<longleftrightarrow> (let sl = g_slabs k ! i in slab_inv i sl (slab_mem k) \<and> object_size sl = g_slab_sizes ! i \<and>
     8 dvd slot_offset sl \<and> 8 dvd slot_stride sl \<and> 8 dvd payload_offset sl)"

lemma mem_block_set: "(n, p) \<in> block_set k \<longleftrightarrow> (\<exists>d. blocks k p = Some d \<and> n = page_order_for_size (length d))"
  by (auto simp: block_set_def)

lemma mem_live:
  "(c, p, d) \<in> live k \<longleftrightarrow> (case c of Inl i \<Rightarrow> i < 13 \<and> objs i (g_slabs k ! i) (slab_mem k) p = Some d
     | Inr n \<Rightarrow> blocks k p = Some d \<and> n = page_order_for_size (length d))"
  by (cases c) (auto simp: live_def)

text \<open>\<open>R\<close> are the blocks of other clients of the page allocator.\<close>

definition kheap_inv :: "('s \<Rightarrow> (nat \<times> nat) set \<Rightarrow> bool) \<Rightarrow> (nat \<times> nat) set \<Rightarrow> 's \<Rightarrow> kheap \<Rightarrow> bool" where
  "kheap_inv owns R s k \<longleftrightarrow> length (g_slabs k) = 13 \<and> (\<forall>i < 13. slab_class_ok k i) \<and>
     (\<forall>p pg. slab_mem k p = Some pg \<longrightarrow> owner pg < 13) \<and>
     (\<forall>p d. blocks k p = Some d \<longrightarrow> (\<exists>n \<le> 6. length d = 4096 * 2 ^ n)) \<and>
     slab_heap owns s (R \<union> block_set k) (slab_mem k) \<and> R \<inter> block_set k = {}"

lemma kmalloc_init_slabs:
  assumes "create_slabs ns = Some sls"
  shows "length sls = length ns \<and> (\<forall>i < length ns. slab_create (ns ! i) KMALLOC_ALIGN = Some (sls ! i))"
  using assms by (induction ns arbitrary: sls) (auto simp: bind_eq_Some_conv nth_Cons split: nat.split)

lemma kmalloc_init_inv:
  assumes "kmalloc_init = Some k" "owns s R"
  shows "kheap_inv owns R s k" "live k = {}"
proof -
  obtain sls where sls: "create_slabs g_slab_sizes = Some sls" "k = \<lparr>g_slabs = sls, slab_mem = Map.empty, blocks = Map.empty\<rparr>"
    using assms(1) by (auto simp: kmalloc_init_def bind_eq_Some_conv)
  have v: "view i Map.empty = Map.empty" for i by (simp add: view_def fun_eq_iff)
  have cr: "length sls = 13" "\<And>i. i < 13 \<Longrightarrow> slab_create (g_slab_sizes ! i) (2 ^ 3) = Some (sls ! i)"
    using kmalloc_init_slabs [OF sls(1)] g_slab_sizes_facts(2) by simp_all
  have "slab_class_ok k i" if "i < 13" for i
    using slab_create_geom [OF cr(2) [OF that]] slab_create_inv(1) [OF cr(2) [OF that] _ v, of i] by (simp add: slab_class_ok_def sls(2))
  then show "kheap_inv owns R s k" using cr(1) assms(2) by (simp add: kheap_inv_def sls(2) block_set_def slab_heap_def)
  show "live k = {}" using slab_create_inv(2) [OF cr(2) _ v] by (auto simp: live_def sls(2))
qed

lemma kmalloc_init_total: "\<exists>k. kmalloc_init = Some k"
proof -
  have p: "ispower2 8" by (simp add: ispower2_def)
  have "slab_create n 8 \<noteq> None" if "n \<in> set g_slab_sizes" for n
    using that p unfolding g_slab_sizes_eq by (auto simp: slab_create_def align_up_8)
  then have sl: "\<exists>sl. slab_create n 8 = Some sl" if "n \<in> set g_slab_sizes" for n using that by blast
  have "\<exists>sls. create_slabs ns = Some sls" if "set ns \<subseteq> set g_slab_sizes" for ns
    using that
  proof (induction ns)
    case (Cons n ns)
    then obtain sls where "create_slabs ns = Some sls" by auto
    moreover obtain x where "slab_create n 8 = Some x" using sl [of n] Cons.prems by auto
    ultimately show ?case by simp
  qed simp
  then obtain sls where "create_slabs g_slab_sizes = Some sls" by blast
  then show ?thesis by (simp add: kmalloc_init_def)
qed

context page_provider
begin

text \<open>Every live allocation lies in one block of the page allocator, and allocations in one block are disjoint.\<close>

lemma live_in_block:
  assumes "kheap_inv owns R s k" "(c, p, d) \<in> live k"
  shows "\<exists>B \<in> block_set k \<union> Pair 0 ` dom (slab_mem k). {p..<p + length d} \<subseteq> block_range B \<and> 0 < length d \<and>
    (case c of Inl i \<Rightarrow> B \<in> Pair 0 ` dom (view i (slab_mem k)) | Inr n \<Rightarrow> B = (n, p))"
  using assms(2) unfolding live_def
proof (elim UnE)
  assume "(c, p, d) \<in> {(Inl i, p, d) |i p d. i < 13 \<and> objs i (g_slabs k ! i) (slab_mem k) p = Some d}"
  then obtain i where i: "c = Inl i" "i < 13" "objs i (g_slabs k ! i) (slab_mem k) p = Some d" by blast
  have ok: "slab_class_ok k i" using assms(1) i(2) unfolding kheap_inv_def by blast
  then obtain page where page: "page \<in> dom (view i (slab_mem k))" "length d = g_slab_sizes ! i" "page < p" "p + length d \<le> page + PAGE_SIZE"
    using objs_in_page [OF _ i(3)] unfolding slab_class_ok_def Let_def by metis
  have "0 < length d" using g_slab_sizes_facts(2,3) i(2) page(2) by simp
  moreover have "page \<in> dom (slab_mem k)" using page(1) by auto
  moreover have "{p..<p + length d} \<subseteq> block_range (0, page)" using page(3,4) by (auto simp: block_range_def)
  ultimately show ?thesis using i(1) page(1) by (intro bexI [of _ "(0, page)"]) auto
next
  assume "(c, p, d) \<in> {(Inr (page_order_for_size (length d)), p, d) |p d. blocks k p = Some d}"
  then have c: "c = Inr (page_order_for_size (length d))" "blocks k p = Some d" by auto
  then obtain n where n: "n \<le> 6" "length d = 4096 * 2 ^ n" using assms(1) unfolding kheap_inv_def by blast
  have "(page_order_for_size (length d), p) \<in> block_set k" using c(2) by (auto simp: block_set_def)
  moreover have "{p..<p + length d} \<subseteq> block_range (page_order_for_size (length d), p)"
    unfolding block_range_def n(2) page_order_block [OF n(1)] by simp
  ultimately show ?thesis using c(1) n(2) by (intro bexI [of _ "(page_order_for_size (length d), p)"]) auto
qed

lemma live_disjoint:
  assumes "kheap_inv owns R s k" "(c, p, d) \<in> live k" "(c', q, e) \<in> live k" "(c, p, d) \<noteq> (c', q, e)"
  shows "{p..<p + length d} \<inter> {q..<q + length e} = {}"
proof -
  obtain B where B: "B \<in> block_set k \<union> Pair 0 ` dom (slab_mem k)" "{p..<p + length d} \<subseteq> block_range B"
      "case c of Inl i \<Rightarrow> B \<in> Pair 0 ` dom (view i (slab_mem k)) | Inr n \<Rightarrow> B = (n, p)"
    using live_in_block [OF assms(1,2)] by blast
  obtain C where C: "C \<in> block_set k \<union> Pair 0 ` dom (slab_mem k)" "{q..<q + length e} \<subseteq> block_range C"
      "case c' of Inl i \<Rightarrow> C \<in> Pair 0 ` dom (view i (slab_mem k)) | Inr n \<Rightarrow> C = (n, q)"
    using live_in_block [OF assms(1,3)] by blast
  have heap: "owns s (R \<union> block_set k \<union> Pair 0 ` dom (slab_mem k))" "(R \<union> block_set k) \<inter> Pair 0 ` dom (slab_mem k) = {}"
    using assms(1) by (simp_all add: kheap_inv_def slab_heap_def)
  show ?thesis
  proof (cases "B = C")
    case False
    have "block_range B \<inter> block_range C = {}" using disjoint_law [OF heap(1) _ _ False] B(1) C(1) by blast
    then show ?thesis using B(2) C(2) by blast
  next
    case True
    have vm: "Pair 0 ` dom (view i (slab_mem k)) \<subseteq> Pair 0 ` dom (slab_mem k)" for i by (auto simp: dom_def)
    have blk: "(n, a) \<in> block_set k" if "(Inr n, a, x) \<in> live k" for n a x using that by (auto simp: live_def block_set_def)
    show ?thesis
    proof (cases c; cases c')
      fix i j assume ij: "c = Inl i" "c' = Inl j"
      then obtain page where "page \<in> dom (view i (slab_mem k))" "page \<in> dom (view j (slab_mem k))" using True B(3) C(3) by auto
      then have "i = j" by auto
      moreover have "slab_inv i (g_slabs k ! i) (slab_mem k)" using assms(1,2) ij(1) by (auto simp: kheap_inv_def live_def slab_class_ok_def Let_def)
      moreover have pq: "objs i (g_slabs k ! i) (slab_mem k) p = Some d" "objs i (g_slabs k ! i) (slab_mem k) q = Some e"
        using assms(2,3) ij \<open>i = j\<close> by (auto simp: live_def)
      moreover have "p \<noteq> q" using pq assms(4) ij \<open>i = j\<close> by auto
      ultimately show ?thesis by (intro objs_disjoint)
    next
      fix i n assume "c = Inl i" "c' = Inr n"
      then show ?thesis using True B(3) C(3) blk assms(3) vm [of i] heap(2) by fastforce
    next
      fix i n assume "c = Inr n" "c' = Inl i"
      then show ?thesis using True B(3) C(3) blk assms(2) vm [of i] heap(2) by fastforce
    next
      fix m n assume "c = Inr n" "c' = Inr m"
      then show ?thesis using True B(3) C(3) assms(2-4) by (auto simp: live_def)
    qed
  qed
qed

lemma diff_middle: "x \<notin> R \<Longrightarrow> x \<notin> C \<Longrightarrow> R \<union> B \<union> C - {x} = R \<union> (B - {x}) \<union> C"
  by blast

text \<open>The effect of one slab operation on the heap.\<close>

lemma slab_class_step:
  assumes "kheap_inv owns R s k" "i < 13" "same_geom (g_slabs k ! i) sl" "slab_inv i sl mem" "slab_heap owns s' (R \<union> block_set k) mem"
    "\<forall>self2. self2 \<noteq> i \<longrightarrow> view self2 mem = view self2 (slab_mem k)"
    "k' = k\<lparr>g_slabs := (g_slabs k)[i := sl], slab_mem := mem\<rparr>"
  shows "kheap_inv owns R s' k'"
    "live k' = {x \<in> live k. fst x \<noteq> Inl i} \<union> {(Inl i, p, d) | p d. objs i sl mem p = Some d}"
proof -
  have len: "length (g_slabs k) = 13" using assms(1) by (simp add: kheap_inv_def)
  have nth: "g_slabs k' ! j = (if j = i then sl else g_slabs k ! j)" for j using len assms(2,7) by (simp add: nth_list_update)
  have cls: "slab_class_ok k' j" if "j < 13" for j
  proof -
    have ok: "slab_class_ok k j" using assms(1) that unfolding kheap_inv_def by blast
    show ?thesis
    proof (cases "j = i")
      case True
      then show ?thesis using ok assms(3,4,7) nth by (auto simp: slab_class_ok_def same_geom_def Let_def)
    next
      case False
      then have "slab_inv j (g_slabs k ! j) mem = slab_inv j (g_slabs k ! j) (slab_mem k)" using assms(6) slab_view_cong(1) by blast
      then show ?thesis using ok False nth assms(7) by (simp add: slab_class_ok_def)
    qed
  qed
  have own: "owner pg < 13" if "mem p = Some pg" for p pg
  proof (cases "owner pg = i")
    case False
    then have "view (owner pg) mem = view (owner pg) (slab_mem k)" using assms(6) by blast
    moreover have "view (owner pg) mem p = Some pg" using that by simp
    ultimately have "slab_mem k p = Some pg" by (metis view_Some)
    then show ?thesis using assms(1) unfolding kheap_inv_def by blast
  qed (use assms(2) in simp)
  have "block_set k' = block_set k" by (simp add: block_set_def assms(7))
  then show "kheap_inv owns R s' k'" using assms(1,5) cls own len unfolding kheap_inv_def by (simp add: assms(7))
  have "objs j (g_slabs k ! j) mem = objs j (g_slabs k ! j) (slab_mem k)" if "j \<noteq> i" for j using assms(6) that slab_view_cong(2) by blast
  then show "live k' = {x \<in> live k. fst x \<noteq> Inl i} \<union> {(Inl i, p, d) | p d. objs i sl mem p = Some d}"
    using assms(2) unfolding live_def nth by (auto simp: assms(7))
qed

lemma live_slab: "i < 13 \<Longrightarrow> {x \<in> live k. fst x = Inl i} = {(Inl i, p, d) | p d. objs i (g_slabs k ! i) (slab_mem k) p = Some d}"
  by (auto simp: live_def)

lemma live_split: "live k = {x \<in> live k. fst x \<noteq> c} \<union> {x \<in> live k. fst x = c}"
  by blast

lemma live_fresh:
  assumes "kheap_inv owns R s k" "live k = insert (c, p, d) L" "(c', p, e') \<in> L" "\<And>e. (c, p, e) \<notin> L"
  shows False
proof -
  have "(c', p, e') \<noteq> (c, p, d)" using assms(3,4) by auto
  then have "{p..<p + length e'} \<inter> {p..<p + length d} = {}" using assms(2,3) by (intro live_disjoint [OF assms(1)]) auto
  moreover have "0 < length e'" "0 < length d" using live_in_block [OF assms(1), of c' p e'] live_in_block [OF assms(1), of c p d] assms(2,3) by auto
  ultimately show False by auto
qed

lemma live_aligned:
  assumes "kheap_inv owns R s k" "(c, p, d) \<in> live k"
  shows "8 dvd p"
proof (cases c)
  case (Inl i)
  then have i: "i < 13" "objs i (g_slabs k ! i) (slab_mem k) p = Some d" using assms(2) by (auto simp: live_def)
  then obtain page j where p: "p = obj_ptr (g_slabs k ! i) page j" "PAGE_SIZE dvd page" by (rule_tac objs_Some [OF i(2)])
  have "8 dvd page" using p(2) by (rule dvd_trans [rotated]) simp
  moreover have "slab_class_ok k i" using assms(1) i(1) unfolding kheap_inv_def by blast
  ultimately show ?thesis by (simp add: p(1) obj_ptr_def slot_object_def slab_class_ok_def Let_def)
next
  case (Inr n)
  then have "(n, p) \<in> block_set k" using assms(2) by (auto simp: live_def block_set_def)
  moreover have "owns s (R \<union> block_set k \<union> Pair 0 ` dom (slab_mem k))" using assms(1) by (simp add: kheap_inv_def slab_heap_def)
  ultimately have "4096 dvd p" using window_law by blast
  then show ?thesis by (rule dvd_trans [rotated]) simp
qed

lemma kzalloc_slab_ok:
  assumes "kheap_inv owns R s k" "0 < sz" "sz \<le> KMALLOC_MAX_SIZE" "slab_index_for_size sz = Some i"
  shows "\<exists>r n k' s'. kzalloc_span alloc k s sz = Some ((r, n), k', s') \<and> kheap_inv owns R s' k' \<and>
    (case r of None \<Rightarrow> live k' = live k
     | Some p \<Rightarrow> sz \<le> n \<and> sz_class n = sz_class sz \<and> live k' = insert (sz_class sz, p, replicate n 0) (live k) \<and> (\<forall>c d. (c, p, d) \<notin> live k))"
proof -
  have i: "i < 13" "sz \<le> g_slab_sizes ! i"
    using slab_index_from_Some [OF assms(4) [unfolded slab_index_for_size_def]] g_slab_sizes_facts(2) by simp_all
  have cls: "sz_class sz = Inl i" using assms(4) by (simp add: sz_class_def)
  have len: "length (g_slabs k) = 13" and ok: "slab_inv i (g_slabs k ! i) (slab_mem k)" "object_size (g_slabs k ! i) = g_slab_sizes ! i"
    and heap: "slab_heap owns s (R \<union> block_set k) (slab_mem k)"
    using assms(1) i(1) by (auto simp: kheap_inv_def slab_class_ok_def Let_def)
  obtain r sl mem s' where a: "slab_alloc alloc i (g_slabs k ! i) (slab_mem k) s = Some (r, sl, mem, s')" "slab_heap owns s' (R \<union> block_set k) mem"
      "same_geom (g_slabs k ! i) sl" "slab_inv i sl mem" "\<forall>self2. self2 \<noteq> i \<longrightarrow> view self2 mem = view self2 (slab_mem k)"
      "case r of None \<Rightarrow> sl = g_slabs k ! i \<and> mem = slab_mem k \<and> alloc s 0 = Some (None, s')
       | Some ptr \<Rightarrow> objs i (g_slabs k ! i) (slab_mem k) ptr = None \<and>
           objs i sl mem = (objs i (g_slabs k ! i) (slab_mem k))(ptr \<mapsto> replicate (object_size (g_slabs k ! i)) 0) \<and>
           inuse_objects sl = inuse_objects (g_slabs k ! i) + 1"
    using slab_alloc_ok [OF ok(1) heap] by blast
  let ?k = "k\<lparr>g_slabs := (g_slabs k)[i := sl], slab_mem := mem\<rparr>"
  have run: "kzalloc_span alloc k s sz = Some ((r, g_slab_sizes ! i), ?k, s')"
    using assms(2-4) i(1) len a(1) by (simp add: kzalloc_span_def rd_def)
  note st = slab_class_step [OF assms(1) i(1) a(3,4,2,5) refl]
  show ?thesis
  proof (cases r)
    case None
    then have "live ?k = live k" using st(2) a(6) live_slab [OF i(1), of k] live_split [of k "Inl i"] by simp
    then show ?thesis using run st(1) None by auto
  next
    case (Some p)
    have "{(Inl i, q, d) | q d. objs i sl mem q = Some d} =
        insert (Inl i, p, replicate (g_slab_sizes ! i) 0) {x \<in> live k. fst x = Inl i}"
      unfolding live_slab [OF i(1)] using a(6) Some ok(2) by auto
    then have lv: "live ?k = insert (Inl i, p, replicate (g_slab_sizes ! i) 0) (live k)" using st(2) live_split [of k "Inl i"] by auto
    have "(Inl i, p, d) \<notin> live k" for d using a(6) Some by (auto simp: live_def)
    then have "(c, p, d) \<notin> live k" for c d using live_fresh [OF st(1) lv] by blast
    then show ?thesis using run st(1) Some i(2) lv cls sz_class_slab [OF i(1)] by auto
  qed
qed

lemma kzalloc_block_ok:
  assumes "kheap_inv owns R s k" "0 < sz" "sz \<le> KMALLOC_MAX_SIZE" "slab_index_for_size sz = None"
  shows "\<exists>r n k' s'. kzalloc_span alloc k s sz = Some ((r, n), k', s') \<and> kheap_inv owns R s' k' \<and>
    (case r of None \<Rightarrow> live k' = live k
     | Some p \<Rightarrow> sz \<le> n \<and> sz_class n = sz_class sz \<and> live k' = insert (sz_class sz, p, replicate n 0) (live k) \<and> (\<forall>c d. (c, p, d) \<notin> live k))"
proof -
  let ?o = "page_order_for_size sz"
  have o: "?o \<le> 6" "sz \<le> 4096 * 2 ^ ?o" "?o < PFN_VALID_BIT_WIDTH" using page_order_spec [OF assms(3)] by simp_all
  have cls: "sz_class sz = Inr ?o" using assms(4) by (simp add: sz_class_def)
  have heap: "owns s (R \<union> block_set k \<union> Pair 0 ` dom (slab_mem k))" "(R \<union> block_set k) \<inter> Pair 0 ` dom (slab_mem k) = {}" "R \<inter> block_set k = {}"
    using assms(1) by (simp_all add: kheap_inv_def slab_heap_def)
  obtain r s' where r: "alloc s ?o = Some (r, s')" using alloc_law [OF heap(1), of ?o] by blast
  show ?thesis
  proof (cases r)
    case None
    have "kzalloc_span alloc k s sz = Some ((None, 0), k, s')" using assms(2-4) o(3) r None by (simp add: kzalloc_span_def)
    moreover have "kheap_inv owns R s' k" using alloc_fail [OF heap(1)] r None assms(1) by (simp add: kheap_inv_def slab_heap_def)
    ultimately show ?thesis by auto
  next
    case (Some p)
    let ?d = "replicate (4096 * 2 ^ ?o) (0 :: u8)"
    let ?k = "k\<lparr>blocks := (blocks k)(p \<mapsto> ?d)\<rparr>"
    have run: "kzalloc_span alloc k s sz = Some ((Some p, 4096 * 2 ^ ?o), ?k, s')" using assms(2-4) o(3) r Some by (simp add: kzalloc_span_def Let_def)
    note af = alloc_fresh [OF heap(1) r [unfolded Some]]
    have new: "blocks k p = None" using af(2) by (cases "blocks k p") (auto simp: block_set_def)
    have bs: "block_set ?k = insert (?o, p) (block_set k)"
      using new page_order_block [OF o(1)] by (auto simp: mem_block_set split: if_splits)
    have own: "owns s' (R \<union> block_set ?k \<union> Pair 0 ` dom (slab_mem k))" using af(1) unfolding bs by (simp add: insert_commute Un_assoc)
    have inv: "kheap_inv owns R s' ?k"
      using assms(1) own heap(2,3) af(2) o(1) bs unfolding kheap_inv_def slab_heap_def slab_class_ok_def Let_def by auto
    have lv: "live ?k = insert (Inr ?o, p, ?d) (live k)" 
      using new page_order_block [OF o(1)] by (intro set_eqI) (auto simp: mem_live split: if_splits sum.splits)
    have "(Inr ?o, p, e) \<notin> live k" for e using new by (auto simp: live_def)
    then have "(c, p, d) \<notin> live k" for c d using live_fresh [OF inv lv] by blast
    then show ?thesis using run inv lv o(2) cls sz_class_block [OF o(1)] by auto
  qed
qed

lemma kzalloc_ok:
  assumes "kheap_inv owns R s k" "0 < sz" "sz \<le> KMALLOC_MAX_SIZE"
  shows "\<exists>r n k' s'. kzalloc_span alloc k s sz = Some ((r, n), k', s') \<and> kheap_inv owns R s' k' \<and>
    (case r of None \<Rightarrow> live k' = live k
     | Some p \<Rightarrow> sz \<le> n \<and> sz_class n = sz_class sz \<and> live k' = insert (sz_class sz, p, replicate n 0) (live k) \<and> (\<forall>c d. (c, p, d) \<notin> live k))"
  using kzalloc_slab_ok [OF assms] kzalloc_block_ok [OF assms] by (cases "slab_index_for_size sz") blast+

lemma kfree_ok:
  assumes "kheap_inv owns R s k" "0 < sz" "sz \<le> KMALLOC_MAX_SIZE" "(sz_class sz, p, d) \<in> live k"
  shows "\<exists>k' s'. kfree free k s (Some p) sz = Some (k', s') \<and> kheap_inv owns R s' k' \<and> live k' = live k - {(sz_class sz, p, d)}"
proof (cases "slab_index_for_size sz")
  case (Some i)
  have i: "i < 13" using slab_index_from_Some [OF Some [unfolded slab_index_for_size_def]] g_slab_sizes_facts(2) by simp
  have cls: "sz_class sz = Inl i" using Some by (simp add: sz_class_def)
  have len: "length (g_slabs k) = 13" and ok: "slab_inv i (g_slabs k ! i) (slab_mem k)" and heap: "slab_heap owns s (R \<union> block_set k) (slab_mem k)"
    using assms(1) i by (auto simp: kheap_inv_def slab_class_ok_def Let_def)
  have ob: "objs i (g_slabs k ! i) (slab_mem k) p = Some d" using assms(4) cls by (auto simp: live_def)
  obtain sl mem s' where a: "slab_free free i (g_slabs k ! i) (slab_mem k) s p = Some (sl, mem, s')" "slab_heap owns s' (R \<union> block_set k) mem"
      "same_geom (g_slabs k ! i) sl" "slab_inv i sl mem" "\<forall>self2. self2 \<noteq> i \<longrightarrow> view self2 mem = view self2 (slab_mem k)"
      "objs i sl mem = (objs i (g_slabs k ! i) (slab_mem k))(p := None)"
    using slab_free_ok [OF ok heap ob] by blast
  let ?k = "k\<lparr>g_slabs := (g_slabs k)[i := sl], slab_mem := mem\<rparr>"
  have run: "kfree free k s (Some p) sz = Some (?k, s')" using assms(2,3) Some i len a(1) by (simp add: kfree_def rd_def)
  note st = slab_class_step [OF assms(1) i a(3,4,2,5) refl]
  have "{(Inl i, q, d) | q d. objs i sl mem q = Some d} = {x \<in> live k. fst x = Inl i} - {(Inl i, p, d)}"
    unfolding live_slab [OF i] a(6) fun_upd_apply using ob by (intro set_eqI) (auto simp: conj_commute cong: conj_cong)
  then have "live ?k = live k - {(Inl i, p, d)}" using st(2) live_split [of k "Inl i"] by auto
  then show ?thesis using run st(1) cls by auto
next
  case None
  let ?o = "page_order_for_size sz"
  have o: "?o < PFN_VALID_BIT_WIDTH" using page_order_spec(1) [OF assms(3)] by simp
  have cls: "sz_class sz = Inr ?o" using None by (simp add: sz_class_def)
  have d: "blocks k p = Some d" "page_order_for_size (length d) = ?o" using assms(4) cls by (auto simp: live_def)
  have heap: "owns s (R \<union> block_set k \<union> Pair 0 ` dom (slab_mem k))" "(R \<union> block_set k) \<inter> Pair 0 ` dom (slab_mem k) = {}" "R \<inter> block_set k = {}"
    using assms(1) by (simp_all add: kheap_inv_def slab_heap_def)
  have mem: "(?o, p) \<in> block_set k" using d by (auto simp: block_set_def)
  then obtain s' where s': "free s p ?o = Some s'" "owns s' (R \<union> block_set k \<union> Pair 0 ` dom (slab_mem k) - {(?o, p)})"
    using free_law [OF heap(1), of ?o p] by auto
  let ?k = "k\<lparr>blocks := (blocks k)(p := None)\<rparr>"
  have bs: "block_set ?k = block_set k - {(?o, p)}" using d by (auto simp: mem_block_set split: if_splits)
  have "R \<union> block_set k \<union> Pair 0 ` dom (slab_mem k) - {(?o, p)} = R \<union> block_set ?k \<union> Pair 0 ` dom (slab_mem k)"
    unfolding bs using mem heap(2,3) by (intro diff_middle) (auto simp only: disjoint_iff UnI2)
  then have own: "owns s' (R \<union> block_set ?k \<union> Pair 0 ` dom (slab_mem k))" using s'(2) by simp
  have bl: "\<forall>q e. blocks ?k q = Some e \<longrightarrow> (\<exists>n \<le> 6. length e = 4096 * 2 ^ n)" using assms(1) by (simp add: kheap_inv_def)
  have sub: "block_set ?k \<subseteq> block_set k" unfolding bs by (rule Diff_subset)
  have dj: "(R \<union> block_set ?k) \<inter> Pair 0 ` dom (slab_mem k) = {}" "R \<inter> block_set ?k = {}"
    using Int_mono [OF Un_mono [OF subset_refl sub] subset_refl, of R "Pair 0 ` dom (slab_mem k)"] Int_mono [OF subset_refl sub, of R]
    unfolding heap(2,3) subset_empty by simp_all
  have "kheap_inv owns R s' ?k"
    using assms(1) own dj bl unfolding kheap_inv_def slab_heap_def slab_class_ok_def Let_def by simp
  moreover have "live ?k = live k - {(Inr ?o, p, d)}" 
    using d by (intro set_eqI) (auto simp: mem_live split: if_splits sum.splits)
  moreover have "kfree free k s (Some p) sz = Some (?k, s')" using assms(2,3) None o s'(1) by (simp add: kfree_def Let_def)
  ultimately show ?thesis using cls by auto
qed

end

end
