(* ===== verification/Mm_Mm.thy ===== *)
theory Mm_Mm
  imports Mm_Buddy Mm_Kmalloc
begin

text \<open>
  \<open>kernel/src/mm/mm.c\<close>: the page allocation interface of the kernel, on frame numbers and on
  pointers of the direct map. The global allocator \<^verbatim>\<open>g_buddy\<close> is the state; the interrupt lock makes
  each call atomic. The contract other components rely on is the locale \<open>page_provider\<close> of \<open>Mm_Provider\<close>.
\<close>

section \<open>Model\<close>

definition mm_alloc_page :: "pfn_globals \<Rightarrow> buddy \<Rightarrow> nat \<Rightarrow> (nat option \<times> buddy) option" where
  "mm_alloc_page g g_buddy order = buddy_alloc g g_buddy order"

definition mm_free_page :: "pfn_globals \<Rightarrow> buddy \<Rightarrow> nat \<Rightarrow> nat \<Rightarrow> buddy option" where
  "mm_free_page g g_buddy pfn order = buddy_free g g_buddy pfn order"

definition mm_alloc_page_ptr :: "pfn_globals \<Rightarrow> buddy \<Rightarrow> nat \<Rightarrow> (nat option \<times> buddy) option" where
  "mm_alloc_page_ptr g g_buddy order = do {
     (pfn, g_buddy) \<leftarrow> buddy_alloc g g_buddy order;
     case pfn of
       None \<Rightarrow> Some (None, g_buddy)
     | Some pfn \<Rightarrow> do {
         direct_ptr \<leftarrow> pfn_to_direct_ptr (g_pfn_end g) pfn;
         Some (Some direct_ptr, g_buddy)
       }
   }"

definition mm_free_page_ptr :: "pfn_globals \<Rightarrow> buddy \<Rightarrow> nat \<Rightarrow> nat \<Rightarrow> buddy option" where
  "mm_free_page_ptr g g_buddy direct_ptr order = do {
     pfn \<leftarrow> direct_ptr_to_pfn direct_ptr;
     buddy_free g g_buddy pfn order
   }"

section \<open>The buddy allocator meets the contract\<close>

definition direct_block :: "nat \<times> nat \<Rightarrow> nat \<times> nat" where
  "direct_block B = (fst B, DIRECT_MAP_START_VIRT + snd B * 4096)"

definition mm_owns :: "pfn_globals \<Rightarrow> nat set \<Rightarrow> buddy \<Rightarrow> (nat \<times> nat) set \<Rightarrow> bool" where
  "mm_owns g U b A \<longleftrightarrow> (\<exists>B F. run_inv g U b B F \<and> A = direct_block ` B) \<and>
     DIRECT_MAP_START_VIRT + g_pfn_end g * 4096 \<le> DIRECT_MAP_END_VIRT"

lemma direct_block_inj: "direct_block B = direct_block C \<longleftrightarrow> B = C"
  by (cases B; cases C) (simp add: direct_block_def)

lemma run_inv_block:
  assumes "run_inv g U b B F" "(k, p) \<in> B"
  shows "p + 2 ^ k \<le> g_pfn_end g"
proof -
  have "blk k p \<subseteq> used_set B" using used_set_single_subset [OF assms(2)] by simp
  then have "blk k p \<subseteq> usable g b" using assms(1) unfolding run_inv_def by blast
  then show ?thesis using block_in_range(1) assms(1) unfolding run_inv_def buddy_inv_def by blast
qed

lemma mm_alloc_ptr_eq:
  assumes "run_inv g U b B F" "DIRECT_MAP_START_VIRT + g_pfn_end g * 4096 \<le> DIRECT_MAP_END_VIRT"
  shows "\<exists>r b'. mm_alloc_page_ptr g b k = Some (r, b') \<and>
    (case r of None \<Rightarrow> b' = b
     | Some q \<Rightarrow> \<exists>p F'. q = DIRECT_MAP_START_VIRT + p * 4096 \<and> run_inv g U b' (insert (k, p) B) F' \<and> (k, p) \<notin> B)"
proof -
  obtain r b' where r: "buddy_alloc g b k = Some (r, b')"
    "case r of None \<Rightarrow> b' = b | Some p \<Rightarrow> (\<exists>F'. run_inv g U b' (insert (k, p) B) F') \<and> blk k p \<inter> used_set B = {}"
    using run_inv_alloc [OF assms(1), of k] by blast
  show ?thesis
  proof (cases r)
    case None
    with r show ?thesis by (simp add: mm_alloc_page_ptr_def)
  next
    case (Some p)
    then obtain F' where F': "run_inv g U b' (insert (k, p) B) F'" "blk k p \<inter> used_set B = {}" using r(2) by auto
    then have lt: "p + 2 ^ k \<le> g_pfn_end g" using run_inv_block [OF F'(1)] by simp
    then have p: "p < g_pfn_end g" using zero_less_power [of "2 :: nat" k] by linarith
    then have small: "DIRECT_MAP_START_VIRT + p * 4096 < 2 ^ 64" using assms(2) by simp
    have "(k, p) \<notin> B"
    proof
      assume "(k, p) \<in> B"
      then have "blk k p \<subseteq> used_set B" using used_set_single_subset [of "(k, p)" B] by simp
      with F'(2) blk_self [of p k] show False by blast
    qed
    moreover have "pfn_to_direct_ptr (g_pfn_end g) p = Some (DIRECT_MAP_START_VIRT + p * 4096)"
      unfolding pfn_to_direct_ptr_def mod_less [OF small] using p by simp
    then have "mm_alloc_page_ptr g b k = Some (Some (DIRECT_MAP_START_VIRT + p * 4096), b')"
      using r(1) Some by (simp add: mm_alloc_page_ptr_def)
    ultimately show ?thesis using F'(1) by auto
  qed
qed

lemma mm_owns_alloc:
  assumes "mm_owns g U b A"
  shows "\<exists>r b'. mm_alloc_page_ptr g b k = Some (r, b') \<and>
    (case r of None \<Rightarrow> mm_owns g U b' A | Some p \<Rightarrow> mm_owns g U b' (insert (k, p) A) \<and> (k, p) \<notin> A)"
proof -
  obtain B F where B: "run_inv g U b B F" "A = direct_block ` B" and w: "DIRECT_MAP_START_VIRT + g_pfn_end g * 4096 \<le> DIRECT_MAP_END_VIRT"
    using assms by (auto simp: mm_owns_def)
  obtain r b' where r: "mm_alloc_page_ptr g b k = Some (r, b')" "case r of None \<Rightarrow> b' = b
     | Some q \<Rightarrow> \<exists>p F'. q = DIRECT_MAP_START_VIRT + p * 4096 \<and> run_inv g U b' (insert (k, p) B) F' \<and> (k, p) \<notin> B"
    using mm_alloc_ptr_eq [OF B(1) w] by blast
  show ?thesis
  proof (cases r)
    case None
    with r assms show ?thesis by auto
  next
    case (Some q)
    then obtain p F' where p: "q = DIRECT_MAP_START_VIRT + p * 4096" "run_inv g U b' (insert (k, p) B) F'" "(k, p) \<notin> B" using r(2) by auto
    have "insert (k, q) A = direct_block ` insert (k, p) B" using p(1) B(2) by (simp add: direct_block_def)
    then have "mm_owns g U b' (insert (k, q) A)" unfolding mm_owns_def using p(2) w by blast
    moreover have "(k, q) \<notin> A" unfolding B(2) p(1) using p(3) by (auto simp: direct_block_def)
    ultimately show ?thesis using r(1) Some by simp
  qed
qed

lemma mm_owns_free:
  assumes "mm_owns g U b A" "(k, q) \<in> A"
  shows "\<exists>b'. mm_free_page_ptr g b q k = Some b' \<and> mm_owns g U b' (A - {(k, q)})"
proof -
  obtain B F where B: "run_inv g U b B F" "A = direct_block ` B" and w: "DIRECT_MAP_START_VIRT + g_pfn_end g * 4096 \<le> DIRECT_MAP_END_VIRT"
    using assms by (auto simp: mm_owns_def)
  obtain p where p: "(k, p) \<in> B" "q = DIRECT_MAP_START_VIRT + p * 4096" using assms(2) B(2) by (auto simp: direct_block_def)
  obtain b' F' where f: "buddy_free g b p k = Some b'" "run_inv g U b' (B - {(k, p)}) F'" using run_inv_free [OF B(1) p(1)] by blast
  have "p + 2 ^ k \<le> g_pfn_end g" by (rule run_inv_block [OF B(1) p(1)])
  then have "p < g_pfn_end g" using zero_less_power [of "2 :: nat" k] by linarith
  then have "direct_ptr_to_pfn q = Some p" using w p(2) by (simp add: direct_ptr_to_pfn_def)
  moreover have "A - {(k, q)} = direct_block ` (B - {(k, p)})"
  proof -
    have "(k, q) = direct_block (k, p)" using p(2) by (simp add: direct_block_def)
    then show ?thesis unfolding B(2) by (simp add: image_set_diff inj_def direct_block_inj)
  qed
  moreover have "mm_free_page_ptr g b q k = Some b'" using calculation(1) f(1) by (simp add: mm_free_page_ptr_def)
  ultimately show ?thesis using f(2) w unfolding mm_owns_def by blast
qed

lemma intervals_apart:
  fixes p q m n :: nat
  assumes "{p..<p + m} \<inter> {q..<q + n} = {}" "0 < m" "0 < n"
  shows "p + m \<le> q \<or> q + n \<le> p"
proof (rule ccontr)
  assume "\<not> ?thesis"
  then have "max p q \<in> {p..<p + m} \<inter> {q..<q + n}" using assms(2,3) by auto
  with assms(1) show False by blast
qed

lemma mm_owns_ranges:
  assumes "mm_owns g U b A" "x \<in> A" "y \<in> A" "x \<noteq> y"
  shows "block_range x \<inter> block_range y = {}"
proof -
  obtain B F where B: "run_inv g U b B F" "A = direct_block ` B" using assms by (auto simp: mm_owns_def)
  obtain k p j q where x: "x = direct_block (k, p)" "(k, p) \<in> B" and y: "y = direct_block (j, q)" "(j, q) \<in> B" using assms(2,3) B(2) by auto
  then have "blk k p \<inter> blk j q = {}" using B(1) assms(4) unfolding run_inv_def by (metis used_set_single)
  then have "p + 2 ^ k \<le> q \<or> q + 2 ^ j \<le> p"
    unfolding blk_def by (intro intervals_apart) simp_all
  then have "DIRECT_MAP_START_VIRT + p * 4096 + 4096 * 2 ^ k \<le> DIRECT_MAP_START_VIRT + q * 4096 \<or>
      DIRECT_MAP_START_VIRT + q * 4096 + 4096 * 2 ^ j \<le> DIRECT_MAP_START_VIRT + p * 4096" by linarith
  then show ?thesis unfolding x y block_range_def direct_block_def fst_conv snd_conv by auto
qed

lemma mm_owns_window:
  assumes "mm_owns g U b A" "(k, q) \<in> A"
  shows "4096 dvd q \<and> DIRECT_MAP_START_VIRT \<le> q \<and> q + 4096 * 2 ^ k \<le> DIRECT_MAP_END_VIRT"
proof -
  obtain B F where B: "run_inv g U b B F" "A = direct_block ` B" and w: "DIRECT_MAP_START_VIRT + g_pfn_end g * 4096 \<le> DIRECT_MAP_END_VIRT"
    using assms by (auto simp: mm_owns_def)
  obtain p where p: "(k, p) \<in> B" "q = DIRECT_MAP_START_VIRT + p * 4096" using assms(2) B(2) by (auto simp: direct_block_def)
  have "p + 2 ^ k \<le> g_pfn_end g" by (rule run_inv_block [OF B(1) p(1)])
  then have "q + 4096 * 2 ^ k \<le> DIRECT_MAP_START_VIRT + g_pfn_end g * 4096" unfolding p(2) by linarith
  moreover have "4096 dvd q" unfolding p(2) by (intro dvd_add) simp_all
  ultimately show ?thesis using w p(2) by linarith
qed

interpretation mm: page_provider "mm_alloc_page_ptr g" "mm_free_page_ptr g" "mm_owns g U" for g U
proof unfold_locales
  fix s A B C k p
  show "mm_owns g U s A \<Longrightarrow> \<exists>r s'. mm_alloc_page_ptr g s k = Some (r, s') \<and>
      (case r of None \<Rightarrow> mm_owns g U s' A | Some p \<Rightarrow> mm_owns g U s' (insert (k, p) A) \<and> (k, p) \<notin> A)" by (rule mm_owns_alloc)
  show "mm_owns g U s A \<Longrightarrow> (k, p) \<in> A \<Longrightarrow> \<exists>s'. mm_free_page_ptr g s p k = Some s' \<and> mm_owns g U s' (A - {(k, p)})" by (rule mm_owns_free)
  show "mm_owns g U s A \<Longrightarrow> B \<in> A \<Longrightarrow> C \<in> A \<Longrightarrow> B \<noteq> C \<Longrightarrow> block_range B \<inter> block_range C = {}" by (rule mm_owns_ranges)
  show "mm_owns g U s A \<Longrightarrow> (k, p) \<in> A \<Longrightarrow> 4096 dvd p \<and> DIRECT_MAP_START_VIRT \<le> p \<and> p + 4096 * 2 ^ k \<le> DIRECT_MAP_END_VIRT"
    by (rule mm_owns_window)
qed

text \<open>A freshly created allocator has handed out nothing.\<close>

lemma mm_owns_start:
  assumes "buddy_inv g b F" "coalesced (max_order b) F" "DIRECT_MAP_START_VIRT + g_pfn_end g * 4096 \<le> DIRECT_MAP_END_VIRT"
  shows "mm_owns g (free_set F) b {}"
  using run_inv_start [OF assms(1,2)] assms(3) unfolding mm_owns_def by blast

end
