(* ===== verification/Mm_Heap.thy ===== *)
theory Mm_Heap
  imports Mm_Mm
begin

text \<open>
  The kernel heap on the real page allocator: \<open>kmalloc.c\<close> over \<open>slab.c\<close> over \<open>mm.c\<close> over \<open>buddy.c\<close>.
  The facts of \<open>Mm_Slab\<close> and \<open>Mm_Kmalloc\<close> about any page allocator are used at the interpretation
  \<open>mm\<close> of \<open>Mm_Mm\<close>.
\<close>

section \<open>Runs of the heap\<close>

inductive kheap_run :: "pfn_globals \<Rightarrow> buddy \<Rightarrow> kheap \<Rightarrow> buddy \<Rightarrow> bool" for g b0 where
  init: "kmalloc_init = Some k \<Longrightarrow> kheap_run g b0 k b0"
| alloc: "kheap_run g b0 k b \<Longrightarrow> 0 < sz \<Longrightarrow> sz \<le> KMALLOC_MAX_SIZE \<Longrightarrow>
    kzalloc_span (mm_alloc_page_ptr g) k b sz = Some (r, k', b') \<Longrightarrow> kheap_run g b0 k' b'"
| free: "kheap_run g b0 k b \<Longrightarrow> 0 < sz \<Longrightarrow> sz \<le> KMALLOC_MAX_SIZE \<Longrightarrow> (sz_class sz, p, d) \<in> live k \<Longrightarrow>
    kfree (mm_free_page_ptr g) k b (Some p) sz = Some (k', b') \<Longrightarrow> kheap_run g b0 k' b'"

lemma kheap_run_inv:
  assumes "kheap_run g b0 k b" "mm_owns g U b0 {}"
  shows "kheap_inv (mm_owns g U) {} b k"
  using assms
proof (induction rule: kheap_run.induct)
  case (init k)
  then show ?case by (intro kmalloc_init_inv(1))
next
  case (alloc k b sz r k' b')
  then show ?case using mm.kzalloc_ok [of g U "{}" b k sz] by auto
next
  case (free k b sz p d k' b')
  then show ?case using mm.kfree_ok [of g U "{}" b k sz p d] by auto
qed

lemma demo_heap:
  obtains b k F where "buddy_create demo_globals demo_buddy demo_sections = Some b" "kmalloc_init = Some k" "buddy_inv demo_globals b F"
    "coalesced (max_order b) F" "free_set F = {8..<16}" "mm_owns demo_globals {8..<16} b {}" "kheap_inv (mm_owns demo_globals {8..<16}) {} b k"
proof -
  obtain b F where b: "buddy_create demo_globals demo_buddy demo_sections = Some b" "buddy_inv demo_globals b F"
    "coalesced (max_order b) F" "free_set F = {8..<16}" using demo_create by blast
  obtain k where k: "kmalloc_init = Some k" using kmalloc_init_total by blast
  have "mm_owns demo_globals {8..<16} b {}" using mm_owns_start [OF b(2,3)] b(4) by simp
  then show thesis by (rule that [OF b(1) k b(2,3,4) _ kmalloc_init_inv(1) [OF k]]) fact
qed

lemma demo_page:
  assumes "buddy_inv demo_globals b F" "free_set F \<noteq> {}" "free_set F \<subseteq> {8..<16}"
  obtains p b' where "mm_alloc_page_ptr demo_globals b 0 = Some (Some p, b')"
proof -
  obtain k q where "q \<in> set (F k)" using assms(2) by (auto simp: free_set_def Mm_Buddy.blocks_def)
  moreover from this assms(1) have "k \<le> max_order b" using blocks_okD(1) lists_okD(4) unfolding buddy_inv_def by blast
  ultimately have "\<exists>k. 0 \<le> k \<and> k \<le> max_order b \<and> F k \<noteq> []" by force
  from buddy_alloc_ok [OF assms(1) _ this] obtain pfn b' where a: "buddy_alloc demo_globals b 0 = Some (Some pfn, b')" "blk 0 pfn \<subseteq> free_set F" by auto
  have "pfn < 16" using subsetD [OF subset_trans [OF a(2) assms(3)], of pfn] by simp
  then have "pfn_to_direct_ptr 16 pfn = Some (DIRECT_MAP_START_VIRT + pfn * 4096)" by (simp add: pfn_to_direct_ptr_def)
  then show thesis using that a(1) by (simp add: mm_alloc_page_ptr_def)
qed

section \<open>Properties\<close>

text \<open>
  C30. In every state that allocations and releases can reach from a fresh heap on a fresh page
  allocator, the live allocations are pairwise disjoint address ranges aligned to eight bytes, and the
  next call never panics: \<^verbatim>\<open>kzalloc_span\<close> returns for every size up to the maximum, and \<^verbatim>\<open>kfree\<close> of every
  live allocation with any size of its class returns.
\<close>

theorem kheap_run_safe:
  assumes "buddy_inv g b0 F" "coalesced (max_order b0) F" "DIRECT_MAP_START_VIRT + g_pfn_end g * 4096 \<le> DIRECT_MAP_END_VIRT"
    and "kheap_run g b0 k b"
  shows "(\<forall>(c, p, d) \<in> live k. 8 dvd p \<and> (\<forall>(c', q, e) \<in> live k. (c, p, d) \<noteq> (c', q, e) \<longrightarrow> {p..<p + length d} \<inter> {q..<q + length e} = {})) \<and>
    (\<forall>sz. sz \<le> KMALLOC_MAX_SIZE \<longrightarrow> kzalloc_span (mm_alloc_page_ptr g) k b sz \<noteq> None) \<and>
    (\<forall>(c, p, d) \<in> live k. \<forall>sz. 0 < sz \<and> sz \<le> KMALLOC_MAX_SIZE \<and> sz_class sz = c \<longrightarrow> kfree (mm_free_page_ptr g) k b (Some p) sz \<noteq> None)"
proof -
  have inv: "kheap_inv (mm_owns g (free_set F)) {} b k" using kheap_run_inv [OF assms(4) mm_owns_start [OF assms(1-3)]] .
  have "kzalloc_span (mm_alloc_page_ptr g) k b sz \<noteq> None" if "sz \<le> KMALLOC_MAX_SIZE" for sz
    using mm.kzalloc_ok [OF inv, of sz] that by (cases "sz = 0") (auto simp: kzalloc_span_def)
  moreover have "kfree (mm_free_page_ptr g) k b (Some p) sz \<noteq> None" if "(sz_class sz, p, d) \<in> live k" "0 < sz" "sz \<le> KMALLOC_MAX_SIZE" for sz p d
    using mm.kfree_ok [OF inv that(2,3,1)] by auto
  moreover have "8 dvd p" if "(c, p, d) \<in> live k" for c p d using mm.live_aligned [OF inv that] .
  moreover have "{p..<p + length d} \<inter> {q..<q + length e} = {}" if "(c, p, d) \<in> live k" "(c', q, e) \<in> live k" "(c, p, d) \<noteq> (c', q, e)" for c p d c' q e
    using mm.live_disjoint [OF inv that] .
  ultimately show ?thesis by fast
qed

theorem kheap_run_safe_witness:
  "\<exists>b k. buddy_create demo_globals demo_buddy demo_sections = Some b \<and> kmalloc_init = Some k \<and>
     (\<forall>sz. sz \<le> KMALLOC_MAX_SIZE \<longrightarrow> kzalloc_span (mm_alloc_page_ptr demo_globals) k b sz \<noteq> None)"
proof -
  obtain b k F where b: "buddy_create demo_globals demo_buddy demo_sections = Some b" "kmalloc_init = Some k" "buddy_inv demo_globals b F"
    "coalesced (max_order b) F" by (rule demo_heap)
  with kheap_run_safe [OF b(3,4) _ kheap_run.init [OF b(2)]] show ?thesis by auto
qed

text \<open>
  C31. \<^verbatim>\<open>kzalloc_span\<close> of a size from one byte to the maximum does not panic and keeps the heap invariant.
  When it fails nothing is allocated; when it succeeds it returns a zeroed block at least as large as
  requested, of a size in the same class as the request, that is the only change to the live
  allocations, is aligned to eight bytes and overlaps none of them.
\<close>

theorem kzalloc_correct:
  assumes "kheap_inv (mm_owns g U) R b k" "0 < sz" "sz \<le> KMALLOC_MAX_SIZE"
  shows "\<exists>r n k' b'. kzalloc_span (mm_alloc_page_ptr g) k b sz = Some ((r, n), k', b') \<and> kheap_inv (mm_owns g U) R b' k' \<and>
    (case r of None \<Rightarrow> live k' = live k
     | Some p \<Rightarrow> sz \<le> n \<and> sz_class n = sz_class sz \<and> live k' = insert (sz_class sz, p, replicate n 0) (live k) \<and> 8 dvd p \<and>
         (\<forall>(c, q, e) \<in> live k. {p..<p + n} \<inter> {q..<q + length e} = {}))"
proof -
  obtain r n k' b' where a: "kzalloc_span (mm_alloc_page_ptr g) k b sz = Some ((r, n), k', b')" "kheap_inv (mm_owns g U) R b' k'"
      "case r of None \<Rightarrow> live k' = live k
       | Some p \<Rightarrow> sz \<le> n \<and> sz_class n = sz_class sz \<and> live k' = insert (sz_class sz, p, replicate n 0) (live k) \<and> (\<forall>c d. (c, p, d) \<notin> live k)"
    using mm.kzalloc_ok [OF assms] by blast
  show ?thesis
  proof (cases r)
    case (Some p)
    then have lv: "live k' = insert (sz_class sz, p, replicate n 0) (live k)" "\<forall>c d. (c, p, d) \<notin> live k" using a(3) by simp_all
    then have "8 dvd p" using mm.live_aligned [OF a(2)] by blast
    moreover have "{p..<p + n} \<inter> {q..<q + length e} = {}" if "(c, q, e) \<in> live k" for c q e
    proof -
      have "(sz_class sz, p, replicate n 0) \<noteq> (c, q, e)" using lv(2) that by auto
      then show ?thesis using mm.live_disjoint [OF a(2), of "sz_class sz" p "replicate n 0" c q e] lv(1) that by simp
    qed
    ultimately show ?thesis using a Some by fastforce
  qed (use a in auto)
qed

theorem kzalloc_correct_witness:
  "\<exists>b k r n k' b'. buddy_create demo_globals demo_buddy demo_sections = Some b \<and> kmalloc_init = Some k \<and>
     kzalloc_span (mm_alloc_page_ptr demo_globals) k b 100 = Some ((r, n), k', b')"
proof -
  obtain b k where b: "buddy_create demo_globals demo_buddy demo_sections = Some b" "kmalloc_init = Some k"
    "kheap_inv (mm_owns demo_globals {8..<16}) {} b k" by (rule demo_heap)
  with kzalloc_correct [OF b(3), of 100] show ?thesis by auto
qed

text \<open>
  C32. \<^verbatim>\<open>kfree\<close> of a live allocation, with any size of the class it was allocated in (the requested size or
  the size of the returned span), succeeds, keeps the heap invariant and removes exactly this
  allocation.
\<close>

theorem kfree_correct:
  assumes "kheap_inv (mm_owns g U) R b k" "0 < sz" "sz \<le> KMALLOC_MAX_SIZE" "(sz_class sz, p, d) \<in> live k"
  shows "\<exists>k' b'. kfree (mm_free_page_ptr g) k b (Some p) sz = Some (k', b') \<and> kheap_inv (mm_owns g U) R b' k' \<and>
    live k' = live k - {(sz_class sz, p, d)}"
  by (rule mm.kfree_ok [OF assms])

theorem kfree_correct_witness:
  "\<exists>b k. buddy_create demo_globals demo_buddy demo_sections = Some b \<and> kmalloc_init = Some k \<and>
     (\<exists>p n k1 b1 k2 b2. kzalloc_span (mm_alloc_page_ptr demo_globals) k b 4096 = Some ((Some p, n), k1, b1) \<and>
        kfree (mm_free_page_ptr demo_globals) k1 b1 (Some p) 4096 = Some (k2, b2))"
proof -
  obtain b k F where b: "buddy_create demo_globals demo_buddy demo_sections = Some b" "kmalloc_init = Some k" "buddy_inv demo_globals b F"
    "free_set F = {8..<16}" and inv: "kheap_inv (mm_owns demo_globals {8..<16}) {} b k" by (rule demo_heap)
  obtain p b1 where p: "mm_alloc_page_ptr demo_globals b 0 = Some (Some p, b1)" by (rule demo_page [OF b(3)]) (simp_all add: b(4))
  have o: "page_order_for_size 4096 = 0" "slab_index_for_size 4096 = None" using page_order_block [of 0]
    by (simp_all add: slab_index_for_size_def slab_index_from_None g_slab_sizes_eq)
  have run: "kzalloc_span (mm_alloc_page_ptr demo_globals) k b 4096 =
      Some ((Some p, 4096), k\<lparr>blocks := (blocks k)(p \<mapsto> replicate 4096 0)\<rparr>, b1)"
    using o p by (simp add: kzalloc_span_def Let_def)
  have cls: "sz_class 4096 = Inr 0" using o by (simp add: sz_class_def)
  obtain k1 where k1: "kzalloc_span (mm_alloc_page_ptr demo_globals) k b 4096 = Some ((Some p, 4096), k1, b1)"
      "kheap_inv (mm_owns demo_globals {8..<16}) {} b1 k1" "(sz_class 4096, p, replicate 4096 0) \<in> live k1"
    using mm.kzalloc_ok [OF inv, of 4096] run by auto
  with kfree_correct [OF k1(2) _ _ k1(3)] b(1,2) show ?thesis by auto
qed

text \<open>
  C33. Freeing a pointer that leads into a slab page but not to a live object of the slab of its size
  class (a second \<^verbatim>\<open>kfree\<close>, a pointer into the middle of an object, an object of another class) panics.
\<close>

theorem kfree_rejects:
  assumes "kheap_inv (mm_owns g U) R b k" "sz \<le> KMALLOC_MAX_SIZE" "slab_index_for_size sz = Some i"
    and "\<And>d. (sz_class sz, p, d) \<notin> live k" "payload_offset (g_slabs k ! i) \<le> p" "0 < sz"
    and "slab_mem k ((p - payload_offset (g_slabs k ! i)) div 4096 * 4096) \<noteq> None"
  shows "kfree (mm_free_page_ptr g) k b (Some p) sz = None"
proof -
  have i: "i < 13" using slab_index_from_Some [OF assms(3) [unfolded slab_index_for_size_def]] g_slab_sizes_facts(2) by simp
  have inv: "slab_inv i (g_slabs k ! i) (slab_mem k)" "length (g_slabs k) = 13"
    using assms(1) i by (auto simp: kheap_inv_def slab_class_ok_def Let_def)
  have "objs i (g_slabs k ! i) (slab_mem k) p = None"
    using assms(3,4) i by (cases "objs i (g_slabs k ! i) (slab_mem k) p") (auto simp: mem_live sz_class_def)
  from slab_free_rejects [OF inv(1) this assms(7,5), of "mm_free_page_ptr g" b] show ?thesis using assms(2,3,6) i inv(2) by (simp add: kfree_def rd_def)
qed

lemma demo_object:
  obtains b k p d where "kheap_inv (mm_owns demo_globals {8..<16}) {} b k" "(Inl 4, p, d) \<in> live k" "length d = 102"
proof -
  obtain b k F where b: "kmalloc_init = Some k" "buddy_inv demo_globals b F"
    "free_set F = {8..<16}" and inv: "kheap_inv (mm_owns demo_globals {8..<16}) {} b k" by (rule demo_heap)
  obtain q b1 where q: "mm_alloc_page_ptr demo_globals b 0 = Some (Some q, b1)" by (rule demo_page [OF b(2)]) (simp_all add: b(3))
  have i: "slab_index_for_size 100 = Some 4" by (simp add: slab_index_for_size_def g_slab_sizes_eq)
  have n: "g_slab_sizes ! 4 = 102" by (simp add: g_slab_sizes_eq)
  have ok: "slab_inv 4 (g_slabs k ! 4) (slab_mem k)" "length (g_slabs k) = 13" "slab_heap (mm_owns demo_globals {8..<16}) b ({} \<union> block_set k) (slab_mem k)"
    using inv by (auto simp: kheap_inv_def slab_class_ok_def Let_def)
  obtain r sl mem s' where r: "slab_alloc (mm_alloc_page_ptr demo_globals) 4 (g_slabs k ! 4) (slab_mem k) b = Some (r, sl, mem, s')" "r \<noteq> None"
    using mm.slab_alloc_ok [OF ok(1,3)] q by (auto split: option.splits)
  have "kzalloc_span (mm_alloc_page_ptr demo_globals) k b 100 = Some ((r, 102), k\<lparr>g_slabs := (g_slabs k)[4 := sl], slab_mem := mem\<rparr>, s')"
    using r ok(2) i n by (simp add: kzalloc_span_def rd_def)
  then obtain p k' where "kheap_inv (mm_owns demo_globals {8..<16}) {} s' k'" "live k' = insert (Inl 4, p, replicate 102 0) (live k)"
    using mm.kzalloc_ok [OF inv, of 100] r(2) i by (auto simp: sz_class_def split: option.splits)
  then show thesis by (intro that [of s' k' p "replicate 102 0"]) simp_all
qed

theorem kfree_rejects_witness:
  "\<exists>b k p. (\<exists>d. (Inl 4, p, d) \<in> live k) \<and> kfree (mm_free_page_ptr demo_globals) k b (Some (p + 1)) 100 = None"
proof -
  obtain b k p d where k: "kheap_inv (mm_owns demo_globals {8..<16}) {} b k" "(Inl 4, p, d) \<in> live k" "length d = 102" by (rule demo_object)
  have i: "slab_index_for_size 100 = Some 4" by (simp add: slab_index_for_size_def g_slab_sizes_eq)
  let ?sl = "g_slabs k ! 4"
  have ok: "slab_inv 4 ?sl (slab_mem k)" using k(1) by (auto simp: kheap_inv_def slab_class_ok_def Let_def)
  have ob: "objs 4 ?sl (slab_mem k) p = Some d" using k(2) by (simp add: mem_live)
  obtain page pg j where pg: "slab_mem k page = Some pg" "owner pg = 4" "p = obj_ptr ?sl page j" "j < page_capacity ?sl" "4096 dvd page" using ob by (rule objs_Some)
  have geom: "geom_ok ?sl" using ok by (simp add: slab_inv_def slab_core_def)
  have "slot_object ?sl j + 1 < 4096" using slot_end [OF geom pg(4)] geom by (simp add: geom_ok_def)
  moreover obtain m where "page = 4096 * m" using pg(5) by blast
  ultimately have "(p + 1 - payload_offset ?sl) div 4096 * 4096 = page" by (simp add: pg(3) obj_ptr_def)
  then have page: "slab_mem k ((p + 1 - payload_offset ?sl) div 4096 * 4096) \<noteq> None" using pg(1) by simp
  have "(sz_class 100, p + 1, e) \<notin> live k" for e
  proof
    assume "(sz_class 100, p + 1, e) \<in> live k"
    then have e: "(Inl 4, p + 1, e) \<in> live k" using i by (simp add: sz_class_def)
    then have "{p..<p + length d} \<inter> {p + 1..<p + 1 + length e} = {}" using mm.live_disjoint [OF k(1,2) e] by simp
    moreover have "0 < length e" using mm.live_in_block [OF k(1) e] by blast
    ultimately show False using k(3) by auto
  qed
  from kfree_rejects [OF k(1) _ i this _ _ page] k(2) show ?thesis by (auto simp: pg(3) obj_ptr_def)
qed

end
