(* ===== verification/Mm_Pagetable.thy ===== *)
theory Mm_Pagetable
  imports Opal_Prelude
begin

text \<open>
  \<open>kernel/platform/pc-x64/src/mm/pagetable.c\<close>: the four-level page tables. A table is a page of 512 entries;
  the memory that holds tables is a function from the physical address of a page and an index to an
  entry. A pointer to a table lies in the kernel window or the direct map and is represented by the
  physical address behind it; the check that the kernel window reaches the page is kept. The page
  allocator below is an argument of the operations; \<open>Mm_Kptbl\<close> instantiates it with the boot allocator and
  the buddy allocator. Writes to the translation buffer are recorded in order.
\<close>

unbundle bit_operations_syntax

section \<open>Model\<close>

abbreviation PTE_FLAG_PRESENT :: u64 where "PTE_FLAG_PRESENT \<equiv> 0x1"
abbreviation PTE_FLAG_WRITABLE :: u64 where "PTE_FLAG_WRITABLE \<equiv> 0x2"
abbreviation PTE_FLAG_HUGE :: u64 where "PTE_FLAG_HUGE \<equiv> 0x80"
abbreviation PTE_MASK_ADDR :: u64 where "PTE_MASK_ADDR \<equiv> 0xffffffffff000"
abbreviation PAGETABLE_LENGTH :: nat where "PAGETABLE_LENGTH \<equiv> 512"
abbreviation BOOTSTRAP_MAP_END_PHYS :: u64 where "BOOTSTRAP_MAP_END_PHYS \<equiv> 0xa00000"
abbreviation HUGE_PAGE_SIZE :: u64 where "HUGE_PAGE_SIZE \<equiv> 0x200000"

datatype tlb_op = Invlpg u64 | Write_Cr3 u64 | Reload_Cr3

record 'a ptstate =
  page_alloc :: 'a
  g_direct_ready :: bool
  tables :: "u64 \<Rightarrow> nat \<Rightarrow> u64"
  tlb :: "tlb_op list"

type_synonym 'a allocator = "'a \<Rightarrow> (u64 \<times> 'a) option"
type_synonym 'a deallocator = "'a \<Rightarrow> u64 \<Rightarrow> (bool \<times> 'a) option"

definition write_entry :: "'a ptstate \<Rightarrow> u64 \<Rightarrow> nat \<Rightarrow> u64 \<Rightarrow> 'a ptstate" where
  "write_entry st t i e = st\<lparr>tables := (tables st)(t := (tables st t)(i := e))\<rparr>"

definition write_table :: "'a ptstate \<Rightarrow> u64 \<Rightarrow> (nat \<Rightarrow> u64) \<Rightarrow> 'a ptstate" where
  "write_table st t tb = st\<lparr>tables := (tables st)(t := tb)\<rparr>"

definition phys_to_virt_table :: "'a ptstate \<Rightarrow> u64 \<Rightarrow> u64 option" where
  "phys_to_virt_table st pa = do {
     kassert (g_direct_ready st \<or> pa < BOOTSTRAP_MAP_END_PHYS);
     Some pa
   }"

fun expand_loop :: "(nat \<Rightarrow> u64) \<Rightarrow> nat \<Rightarrow> nat \<Rightarrow> u64 \<Rightarrow> u64 \<Rightarrow> nat \<Rightarrow> u64" where
  "expand_loop pt i 0 pa flags = pt"
| "expand_loop pt i (Suc n) pa flags = expand_loop (pt(i := pa OR flags)) (Suc i) n (pa + 0x1000) flags"

text \<open>The entry \<^verbatim>\<open>pde\<close> is entry \<open>i\<close> of table \<open>t\<close>.\<close>

definition expand_hugepage :: "'a allocator \<Rightarrow> 'a ptstate \<Rightarrow> u64 \<Rightarrow> nat \<Rightarrow> (bool \<times> 'a ptstate) option" where
  "expand_hugepage alloc st t i = do {
     (pt_pa, a) \<leftarrow> alloc (page_alloc st);
     let st = st\<lparr>page_alloc := a\<rparr>;
     if pt_pa = 0 then Some (False, st)
     else do {
       pt \<leftarrow> phys_to_virt_table st pt_pa;
       let pde = tables st t i;
       let flags = (pde AND NOT PTE_MASK_ADDR) AND NOT PTE_FLAG_HUGE;
       let st = write_table st pt (expand_loop (tables st pt) 0 PAGETABLE_LENGTH (pde AND PTE_MASK_ADDR) flags);
       Some (True, write_entry st t i (pt_pa OR flags))
     }
   }"

definition get_or_alloc_table :: "'a allocator \<Rightarrow> 'a ptstate \<Rightarrow> u64 \<Rightarrow> nat \<Rightarrow> u64 \<Rightarrow> bool \<Rightarrow> (u64 option \<times> 'a ptstate) option" where
  "get_or_alloc_table alloc st parent index flags allow_huge =
     (if tables st parent index AND PTE_FLAG_PRESENT \<noteq> 0 then do {
        (ok, st) \<leftarrow> (if tables st parent index AND PTE_FLAG_HUGE \<noteq> 0 then do {
            kassert allow_huge;
            expand_hugepage alloc st parent index
          } else Some (True, st));
        if \<not> ok then Some (None, st)
        else do {
          pt \<leftarrow> phys_to_virt_table st (tables st parent index AND PTE_MASK_ADDR);
          Some (Some pt, st)
        }
      } else do {
        (child_pa, a) \<leftarrow> alloc (page_alloc st);
        let st = st\<lparr>page_alloc := a\<rparr>;
        if child_pa = 0 then Some (None, st)
        else do {
          child \<leftarrow> phys_to_virt_table st child_pa;
          let st = write_table st child (\<lambda>_. 0);
          Some (Some child, write_entry st parent index (child_pa OR PTE_FLAG_PRESENT OR PTE_FLAG_WRITABLE OR flags))
        }
      })"

definition table_index :: "nat \<Rightarrow> u64 \<Rightarrow> nat" where
  "table_index shift va = unat (drop_bit shift va AND 0x1ff)"

definition map_4k :: "'a allocator \<Rightarrow> 'a ptstate \<Rightarrow> u64 \<Rightarrow> u64 \<Rightarrow> u64 \<Rightarrow> u64 \<Rightarrow> (bool \<times> 'a ptstate) option" where
  "map_4k alloc st ptbl va pa flags = do {
     let i4 = table_index 39 va; let i3 = table_index 30 va;
     let i2 = table_index 21 va; let i1 = table_index 12 va;
     (pdpt, st) \<leftarrow> get_or_alloc_table alloc st ptbl i4 flags False;
     case pdpt of None \<Rightarrow> Some (False, st) | Some pdpt \<Rightarrow> do {
     (pd, st) \<leftarrow> get_or_alloc_table alloc st pdpt i3 flags False;
     case pd of None \<Rightarrow> Some (False, st) | Some pd \<Rightarrow> do {
     (pt, st) \<leftarrow> get_or_alloc_table alloc st pd i2 flags True;
     case pt of None \<Rightarrow> Some (False, st) | Some pt \<Rightarrow>
     if tables st pt i1 AND PTE_FLAG_PRESENT \<noteq> 0 then Some (False, st)
     else Some (True, write_entry st pt i1 ((pa AND PTE_MASK_ADDR) OR flags))
   }}}"

definition map_2m :: "'a allocator \<Rightarrow> 'a ptstate \<Rightarrow> u64 \<Rightarrow> u64 \<Rightarrow> u64 \<Rightarrow> u64 \<Rightarrow> (bool \<times> 'a ptstate) option" where
  "map_2m alloc st ptbl va pa flags = do {
     let i4 = table_index 39 va; let i3 = table_index 30 va; let i2 = table_index 21 va;
     (pdpt, st) \<leftarrow> get_or_alloc_table alloc st ptbl i4 flags False;
     case pdpt of None \<Rightarrow> Some (False, st) | Some pdpt \<Rightarrow> do {
     (pd, st) \<leftarrow> get_or_alloc_table alloc st pdpt i3 flags False;
     case pd of None \<Rightarrow> Some (False, st) | Some pd \<Rightarrow>
     if tables st pd i2 AND PTE_FLAG_PRESENT \<noteq> 0 then Some (False, st)
     else Some (True, write_entry st pd i2 ((pa AND PTE_MASK_ADDR) OR flags OR PTE_FLAG_HUGE))
   }}"

definition deallocate_pt :: "'a deallocator \<Rightarrow> 'a ptstate \<Rightarrow> u64 \<Rightarrow> (bool \<times> 'a ptstate) option" where
  "deallocate_pt dealloc st pt_pa = do {
     (freed, a) \<leftarrow> dealloc (page_alloc st) pt_pa;
     let st = st\<lparr>page_alloc := a\<rparr>;
     if freed then Some (True, st)
     else do {
       pt \<leftarrow> phys_to_virt_table st pt_pa;
       Some (False, write_table st pt (\<lambda>_. 0))
     }
   }"

definition unmap_entry :: "('a ptstate \<Rightarrow> u64 \<Rightarrow> (bool \<times> 'a ptstate) option) \<Rightarrow> u64 \<Rightarrow> nat \<Rightarrow> 'a ptstate \<Rightarrow> 'a ptstate option" where
  "unmap_entry deallocate pd i st =
     (let entry = tables st pd i in
      if entry AND PTE_FLAG_PRESENT = 0 then Some st
      else if entry AND PTE_FLAG_HUGE \<noteq> 0 then Some (write_entry st pd i 0)
      else do {
        (freed, st) \<leftarrow> deallocate st (entry AND PTE_MASK_ADDR);
        Some (if freed then write_entry st pd i 0 else st)
      })"

definition unmap_table :: "('a ptstate \<Rightarrow> u64 \<Rightarrow> (bool \<times> 'a ptstate) option) \<Rightarrow> 'a ptstate \<Rightarrow> u64 \<Rightarrow> 'a ptstate option" where
  "unmap_table deallocate st pd = for_up 0 PAGETABLE_LENGTH (unmap_entry deallocate pd) st"

definition deallocate_table :: "'a deallocator \<Rightarrow> 'a ptstate \<Rightarrow> u64 \<Rightarrow> (bool \<times> 'a ptstate) option" where
  "deallocate_table dealloc st pa = do {
     (freed, a) \<leftarrow> dealloc (page_alloc st) pa;
     Some (freed, st\<lparr>page_alloc := a\<rparr>)
   }"

definition deallocate_pdt :: "'a deallocator \<Rightarrow> 'a ptstate \<Rightarrow> u64 \<Rightarrow> (bool \<times> 'a ptstate) option" where
  "deallocate_pdt dealloc st pd_pa = do {
     pd \<leftarrow> phys_to_virt_table st pd_pa;
     st \<leftarrow> unmap_table (deallocate_pt dealloc) st pd;
     deallocate_table dealloc st pd_pa
   }"

definition deallocate_pdpt :: "'a deallocator \<Rightarrow> 'a ptstate \<Rightarrow> u64 \<Rightarrow> (bool \<times> 'a ptstate) option" where
  "deallocate_pdpt dealloc st pdpt_pa = do {
     pdpt \<leftarrow> phys_to_virt_table st pdpt_pa;
     st \<leftarrow> unmap_table (deallocate_pdt dealloc) st pdpt;
     deallocate_table dealloc st pdpt_pa
   }"

text \<open>
  One level of \<^verbatim>\<open>unmap_next\<close>: a present entry whose block ends inside the range is released, if its table can be.
\<close>

definition release_entry ::
  "('a ptstate \<Rightarrow> u64 \<Rightarrow> (bool \<times> 'a ptstate) option) \<Rightarrow> 'a ptstate \<Rightarrow> u64 \<Rightarrow> nat \<Rightarrow> u64 \<Rightarrow> u64 \<Rightarrow> u64 \<Rightarrow> 'a ptstate option" where
  "release_entry deallocate st t i va bits end =
     (if va + bits \<le> end \<and> tables st t i AND PTE_FLAG_PRESENT \<noteq> 0 then do {
        (freed, st) \<leftarrow> deallocate st (tables st t i AND PTE_MASK_ADDR);
        Some (if freed then write_entry st t i 0 else st)
      } else Some st)"

definition unmap_next :: "'a allocator \<Rightarrow> 'a deallocator \<Rightarrow> 'a ptstate \<Rightarrow> u64 \<Rightarrow> u64 \<Rightarrow> u64 \<Rightarrow> (u64 \<times> 'a ptstate) option" where
  "unmap_next alloc dealloc st ptbl va end = do {
     let i4 = table_index 39 va; let i3 = table_index 30 va;
     let i2 = table_index 21 va; let i1 = table_index 12 va;
     let bits4 = 2 ^ 39; let bits3 = 2 ^ 30; let bits2 = 2 ^ 21; let bits1 = 2 ^ 12;
     kassert (tables st ptbl i4 AND PTE_FLAG_HUGE = 0);
     st \<leftarrow> release_entry (deallocate_pdpt dealloc) st ptbl i4 va bits4 end;
     if tables st ptbl i4 AND PTE_FLAG_PRESENT = 0 then Some ((va + bits4) AND NOT (bits4 - 1), st)
     else do {
       pdpt \<leftarrow> phys_to_virt_table st (tables st ptbl i4 AND PTE_MASK_ADDR);
       kassert (tables st pdpt i3 AND PTE_FLAG_HUGE = 0);
       st \<leftarrow> release_entry (deallocate_pdt dealloc) st pdpt i3 va bits3 end;
       if tables st pdpt i3 AND PTE_FLAG_PRESENT = 0 then Some ((va + bits3) AND NOT (bits3 - 1), st)
       else do {
         pd \<leftarrow> phys_to_virt_table st (tables st pdpt i3 AND PTE_MASK_ADDR);
         st \<leftarrow> (if va + bits2 \<le> end then unmap_entry (deallocate_pt dealloc) pd i2 st else Some st);
         if tables st pd i2 AND PTE_FLAG_PRESENT = 0 then Some ((va + bits2) AND NOT (bits2 - 1), st)
         else do {
           (ok, st) \<leftarrow> (if tables st pd i2 AND PTE_FLAG_HUGE \<noteq> 0 then expand_hugepage alloc st pd i2 else Some (True, st));
           if \<not> ok then Some (va, st)
           else do {
             pt \<leftarrow> phys_to_virt_table st (tables st pd i2 AND PTE_MASK_ADDR);
             Some (va + bits1, write_entry st pt i1 0)
           }
         }
       }
     }
   }"

definition log_tlb :: "tlb_op \<Rightarrow> 'a ptstate \<Rightarrow> 'a ptstate" where
  "log_tlb op st = st\<lparr>tlb := tlb st @ [op]\<rparr>"

partial_function (option) unmap_loop ::
  "'a allocator \<Rightarrow> 'a deallocator \<Rightarrow> 'a ptstate \<Rightarrow> u64 \<Rightarrow> u64 \<Rightarrow> u64 \<Rightarrow> bool \<Rightarrow> (u64 \<times> 'a ptstate) option" where
  "unmap_loop alloc dealloc st ptbl va end invlpg =
     (if va = end then Some (va, st)
      else do {
        (va_next, st) \<leftarrow> unmap_next alloc dealloc st ptbl va end;
        if va_next = va then Some (va, st)
        else unmap_loop alloc dealloc (if invlpg then log_tlb (Invlpg va) st else st) ptbl
               (if end = 0 \<or> va_next < end then va_next else end) end invlpg
      })"

definition unmap_range_len :: "'a allocator \<Rightarrow> 'a deallocator \<Rightarrow> 'a ptstate \<Rightarrow> u64 \<Rightarrow> u64 \<Rightarrow> u64 \<Rightarrow> bool \<Rightarrow> (u64 \<times> 'a ptstate) option" where
  "unmap_range_len alloc dealloc st ptbl va len flush_tlb = do {
     kassert (va mod 0x1000 = 0);
     kassert (len mod 0x1000 = 0);
     let invlpg = (flush_tlb \<and> len < HUGE_PAGE_SIZE);
     (va, st) \<leftarrow> unmap_loop alloc dealloc st ptbl va (va + len) invlpg;
     Some (va, if flush_tlb \<and> \<not> invlpg then log_tlb Reload_Cr3 st else st)
   }"

definition pagetable_unmap :: "'a allocator \<Rightarrow> 'a deallocator \<Rightarrow> 'a ptstate \<Rightarrow> u64 \<Rightarrow> u64 \<Rightarrow> u64 \<Rightarrow> bool \<Rightarrow> (u64 \<times> 'a ptstate) option" where
  "pagetable_unmap alloc dealloc st ptbl va len flush_tlb = unmap_range_len alloc dealloc st ptbl va len flush_tlb"

text \<open>The loop of \<^verbatim>\<open>map_range_len\<close>: the addresses it stopped at and whether every page was mapped.\<close>

partial_function (option) map_loop ::
  "'a allocator \<Rightarrow> 'a ptstate \<Rightarrow> u64 \<Rightarrow> u64 \<Rightarrow> u64 \<Rightarrow> u64 \<Rightarrow> u64 \<Rightarrow> (bool \<times> u64 \<times> u64 \<times> 'a ptstate) option" where
  "map_loop alloc st ptbl va_cur pa_cur len flags =
     (if len > 0 then
        if len \<ge> HUGE_PAGE_SIZE \<and> va_cur AND (HUGE_PAGE_SIZE - 1) = 0 \<and> pa_cur AND (HUGE_PAGE_SIZE - 1) = 0 then do {
          (ok, st) \<leftarrow> map_2m alloc st ptbl va_cur pa_cur flags;
          if ok then map_loop alloc st ptbl (va_cur + HUGE_PAGE_SIZE) (pa_cur + HUGE_PAGE_SIZE) (len - HUGE_PAGE_SIZE) flags
          else Some (False, va_cur, pa_cur, st)
        } else do {
          (ok, st) \<leftarrow> map_4k alloc st ptbl va_cur pa_cur flags;
          if ok then map_loop alloc st ptbl (va_cur + 0x1000) (pa_cur + 0x1000) (len - 0x1000) flags
          else Some (False, va_cur, pa_cur, st)
        }
      else Some (True, va_cur, pa_cur, st))"

definition map_range_len :: "'a allocator \<Rightarrow> 'a deallocator \<Rightarrow> 'a ptstate \<Rightarrow> u64 \<Rightarrow> u64 \<Rightarrow> u64 \<Rightarrow> u64 \<Rightarrow> u64 \<Rightarrow> (u64 \<times> 'a ptstate) option" where
  "map_range_len alloc dealloc st ptbl va pa len flags = do {
     kassert (pa mod 0x1000 = 0);
     kassert (len mod 0x1000 = 0);
     kassert (va mod 0x1000 = 0);
     if va = 0 then Some (0, st)
     else do {
       (ok, va_cur, pa_cur, st) \<leftarrow> map_loop alloc st ptbl va pa len flags;
       if ok then Some (va_cur, st)
       else do {
         (_, st) \<leftarrow> pagetable_unmap alloc dealloc st ptbl va (pa_cur - pa) False;
         Some (0, st)
       }
     }
   }"

definition map_range :: "'a allocator \<Rightarrow> 'a deallocator \<Rightarrow> 'a ptstate \<Rightarrow> u64 \<Rightarrow> u64 \<Rightarrow> u64 \<Rightarrow> u64 \<Rightarrow> u64 \<Rightarrow> (u64 \<times> 'a ptstate) option" where
  "map_range alloc dealloc st ptbl va pa_start pa_end flags = map_range_len alloc dealloc st ptbl va pa_start (pa_end - pa_start) flags"

definition pagetable_map :: "'a allocator \<Rightarrow> 'a deallocator \<Rightarrow> 'a ptstate \<Rightarrow> u64 \<Rightarrow> u64 \<Rightarrow> u64 \<Rightarrow> u64 \<Rightarrow> u64 \<Rightarrow> (u64 \<times> 'a ptstate) option" where
  "pagetable_map alloc dealloc st ptbl va pa len flags = map_range_len alloc dealloc st ptbl va pa len flags"

text \<open>The pointer arguments of \<^verbatim>\<open>pagetable_lookup\<close> are not null; the result is the value behind \<^verbatim>\<open>pa_out\<close>.\<close>

definition pagetable_lookup :: "'a ptstate \<Rightarrow> u64 \<Rightarrow> u64 \<Rightarrow> u64 option option" where
  "pagetable_lookup st ptbl va = do {
     let pml4e = tables st ptbl (table_index 39 va);
     if pml4e AND PTE_FLAG_PRESENT = 0 \<or> pml4e AND PTE_FLAG_HUGE \<noteq> 0 then Some None
     else do {
       pdpt \<leftarrow> phys_to_virt_table st (pml4e AND PTE_MASK_ADDR);
       let pdpe = tables st pdpt (table_index 30 va);
       if pdpe AND PTE_FLAG_PRESENT = 0 then Some None
       else if pdpe AND PTE_FLAG_HUGE \<noteq> 0 then Some (Some ((pdpe AND PTE_MASK_ADDR) + (va AND (2 ^ 30 - 1))))
       else do {
         pd \<leftarrow> phys_to_virt_table st (pdpe AND PTE_MASK_ADDR);
         let pde = tables st pd (table_index 21 va);
         if pde AND PTE_FLAG_PRESENT = 0 then Some None
         else if pde AND PTE_FLAG_HUGE \<noteq> 0 then Some (Some ((pde AND PTE_MASK_ADDR) + (va AND (2 ^ 21 - 1))))
         else do {
           pt \<leftarrow> phys_to_virt_table st (pde AND PTE_MASK_ADDR);
           let pte = tables st pt (table_index 12 va);
           if pte AND PTE_FLAG_PRESENT = 0 then Some None
           else Some (Some ((pte AND PTE_MASK_ADDR) + (va AND (0x1000 - 1))))
         }
       }
     }
   }"


section \<open>Translation, well-formed tables and their pages\<close>

definition entry_addr :: "u64 \<Rightarrow> u64" where
  "entry_addr e = e AND PTE_MASK_ADDR"

definition entry_attrs :: "u64 \<Rightarrow> u64" where
  "entry_attrs e = (e AND NOT PTE_MASK_ADDR) AND NOT PTE_FLAG_HUGE"

lemma and_flag [simp]: "(e AND PTE_FLAG_PRESENT \<noteq> 0) = bit e 0" "(e AND PTE_FLAG_HUGE \<noteq> 0) = bit e 7"
  "(e AND PTE_FLAG_PRESENT = 0) = (\<not> bit e 0)" "(e AND PTE_FLAG_HUGE = 0) = (\<not> bit e 7)"
  using and_exp_eq_0_iff_not_bit [of e 0] and_exp_eq_0_iff_not_bit [of e 7] by simp_all

text \<open>
  The entry that translates a virtual address in the tables below \<open>t\<close>, of level \<open>n\<close>, with the level it is found at,
  and the physical address and the attributes it gives.
\<close>

fun leaf :: "(u64 \<Rightarrow> nat \<Rightarrow> u64) \<Rightarrow> nat \<Rightarrow> u64 \<Rightarrow> u64 \<Rightarrow> (nat \<times> u64) option" where
  "leaf m 0 t va = None"
| "leaf m (Suc n) t va =
     (let e = m t (table_index (12 + 9 * n) va) in
      if \<not> bit e 0 then None
      else if n = 0 \<or> bit e 7 then Some (n, e)
      else leaf m n (entry_addr e) va)"

definition translate :: "(u64 \<Rightarrow> nat \<Rightarrow> u64) \<Rightarrow> nat \<Rightarrow> u64 \<Rightarrow> u64 \<Rightarrow> (u64 \<times> u64) option" where
  "translate m n t va = map_option (\<lambda>(k, e). (entry_addr e + (va AND mask (12 + 9 * k)), entry_attrs e)) (leaf m n t va)"

definition is_table :: "nat \<Rightarrow> u64 \<Rightarrow> bool" where
  "is_table n e \<longleftrightarrow> bit e 0 \<and> n \<noteq> 0 \<and> \<not> bit e 7"

text \<open>The pages of the tables, and the condition that no page is reached twice. Large pages are aligned and of 2 MiB.\<close>

fun foot :: "(u64 \<Rightarrow> nat \<Rightarrow> u64) \<Rightarrow> nat \<Rightarrow> u64 \<Rightarrow> u64 set" where
  "foot m 0 t = {}"
| "foot m (Suc n) t = insert t (\<Union>i<512. if is_table n (m t i) then foot m n (entry_addr (m t i)) else {})"

definition entry_ok :: "nat \<Rightarrow> u64 \<Rightarrow> bool" where
  "entry_ok n e \<longleftrightarrow> (bit e 7 \<longrightarrow> n \<le> 1) \<and> (n = 1 \<and> bit e 0 \<and> bit e 7 \<longrightarrow> entry_addr e AND mask 21 = 0)"

fun wf_tab :: "(u64 \<Rightarrow> nat \<Rightarrow> u64) \<Rightarrow> nat \<Rightarrow> u64 \<Rightarrow> bool" where
  "wf_tab m 0 t \<longleftrightarrow> True"
| "wf_tab m (Suc n) t \<longleftrightarrow> (\<forall>i<512. entry_ok n (m t i)) \<and>
     (\<forall>i<512. is_table n (m t i) \<longrightarrow> wf_tab m n (entry_addr (m t i)) \<and> t \<notin> foot m n (entry_addr (m t i))) \<and>
     (\<forall>i<512. \<forall>j<512. i \<noteq> j \<and> is_table n (m t i) \<and> is_table n (m t j) \<longrightarrow>
        foot m n (entry_addr (m t i)) \<inter> foot m n (entry_addr (m t j)) = {})"

declare leaf.simps(2) [simp del] foot.simps(2) [simp del] wf_tab.simps(2) [simp del]

lemma table_index_lt: "table_index s va < 512"
proof -
  have "drop_bit s va AND 0x1ff = take_bit 9 (drop_bit s va)" by (simp add: take_bit_eq_mask mask_eq_exp_minus_1)
  then have "table_index s va = take_bit 9 (unat (drop_bit s va))" by (simp add: table_index_def unsigned_take_bit_eq)
  then show ?thesis using take_bit_nat_less_exp [of 9 "unat (drop_bit s va)"] by simp
qed

lemma foot_self: "0 < n \<Longrightarrow> t \<in> foot m n t"
  by (cases n) (simp_all add: foot.simps)

lemma foot_child: "i < 512 \<Longrightarrow> is_table n (m t i) \<Longrightarrow> foot m n (entry_addr (m t i)) \<subseteq> foot m (Suc n) t"
  by (auto simp: foot.simps)

lemma foot_cases:
  assumes "p \<in> foot m (Suc n) t"
  obtains "p = t" | i where "i < 512" "is_table n (m t i)" "p \<in> foot m n (entry_addr (m t i))"
  using assms by (auto simp: foot.simps split: if_splits)

lemma foot_cong: "\<forall>p \<in> foot m n t. m' p = m p \<Longrightarrow> foot m' n t = foot m n t"
proof (induction n arbitrary: t)
  case (Suc n)
  have t: "m' t = m t" using Suc.prems foot_self by blast
  have "foot m' n (entry_addr (m t i)) = foot m n (entry_addr (m t i))" if "i < 512" "is_table n (m t i)" for i
    using Suc.IH Suc.prems foot_child [where m = m and t = t, OF that] by blast
  then show ?case by (auto simp: foot.simps t split: if_splits)
qed simp

lemma wf_cong: "\<forall>p \<in> foot m n t. m' p = m p \<Longrightarrow> wf_tab m' n t = wf_tab m n t"
proof (induction n arbitrary: t)
  case (Suc n)
  have t: "m' t = m t" using Suc.prems foot_self by blast
  have c: "wf_tab m' n (entry_addr (m t i)) = wf_tab m n (entry_addr (m t i))" "foot m' n (entry_addr (m t i)) = foot m n (entry_addr (m t i))"
    if "i < 512" "is_table n (m t i)" for i
    using Suc.IH Suc.prems foot_child [where m = m and t = t, OF that] foot_cong [of m n _ m'] by (blast, blast)
  show ?case unfolding wf_tab.simps t by (simp add: c)
qed simp

lemma leaf_cong: "\<forall>p \<in> foot m n t. m' p = m p \<Longrightarrow> leaf m' n t va = leaf m n t va"
proof (induction n arbitrary: t)
  case (Suc n)
  let ?i = "table_index (12 + 9 * n) va"
  have t: "m' t = m t" using Suc.prems foot_self by blast
  have "leaf m' n (entry_addr (m t ?i)) va = leaf m n (entry_addr (m t ?i)) va" if "is_table n (m t ?i)"
    using Suc.IH Suc.prems foot_child [where m = m and t = t, OF table_index_lt that] by blast
  then show ?case by (auto simp: leaf.simps t is_table_def Let_def)
qed simp

lemma leaf_child: "is_table n (m t (table_index (12 + 9 * n) va)) \<Longrightarrow> leaf m (Suc n) t va = leaf m n (entry_addr (m t (table_index (12 + 9 * n) va))) va"
  by (simp add: leaf.simps is_table_def)

lemma leaf_absent: "\<not> bit (m t (table_index (12 + 9 * n) va)) 0 \<Longrightarrow> leaf m (Suc n) t va = None"
  by (simp add: leaf.simps)

lemma wf_child:
  assumes "wf_tab m (Suc n) t" "i < 512" "is_table n (m t i)"
  shows "wf_tab m n (entry_addr (m t i))" "t \<notin> foot m n (entry_addr (m t i))"
  using assms by (auto simp: wf_tab.simps)

lemma wf_children:
  assumes "wf_tab m (Suc n) t" "i < 512" "is_table n (m t i)" "j < 512" "is_table n (m t j)" "i \<noteq> j"
  shows "foot m n (entry_addr (m t i)) \<inter> foot m n (entry_addr (m t j)) = {}"
  using assms by (auto simp: wf_tab.simps)

lemma wf_entry_ok: "wf_tab m (Suc n) t \<Longrightarrow> i < 512 \<Longrightarrow> entry_ok n (m t i)"
  by (auto simp: wf_tab.simps)

text \<open>
  What an operation on the tables below \<open>t\<close> may do when the pages \<open>A\<close> hold tables before it and \<open>A'\<close> after it: the
  tables stay well-formed on pages of \<open>t\<close> or new ones, and the other pages in use keep their contents.
\<close>

definition evolves :: "nat \<Rightarrow> u64 \<Rightarrow> (u64 \<Rightarrow> nat \<Rightarrow> u64) \<Rightarrow> u64 set \<Rightarrow> (u64 \<Rightarrow> nat \<Rightarrow> u64) \<Rightarrow> u64 set \<Rightarrow> bool" where
  "evolves n t m A m' A' \<longleftrightarrow> wf_tab m' n t \<and> foot m' n t \<subseteq> A' \<and> foot m' n t \<inter> A \<subseteq> foot m n t \<and> A - foot m n t \<subseteq> A' \<and>
     (\<forall>p \<in> A - foot m n t. m' p = m p)"

lemma evolves_refl: "wf_tab m n t \<Longrightarrow> foot m n t \<subseteq> A \<Longrightarrow> evolves n t m A m A"
  by (auto simp: evolves_def)

lemma evolves_trans:
  assumes "evolves n t m A m1 A1" "evolves n t m1 A1 m2 A2"
  shows "evolves n t m A m2 A2"
proof -
  have i: "foot m2 n t \<inter> A \<subseteq> foot m n t" using assms unfolding evolves_def by blast
  have "p \<in> A1 - foot m1 n t" if "p \<in> A - foot m n t" for p using assms that unfolding evolves_def by blast
  then have "m2 p = m p \<and> p \<in> A2" if "p \<in> A - foot m n t" for p using assms that unfolding evolves_def by (metis DiffI subsetD)
  moreover have "wf_tab m2 n t" "foot m2 n t \<subseteq> A2" using assms(2) unfolding evolves_def by blast+
  ultimately show ?thesis using i unfolding evolves_def by blast
qed

text \<open>An operation on a subtable is one on the table.\<close>

lemma evolves_child:
  assumes w: "wf_tab m (Suc n) t" "foot m (Suc n) t \<subseteq> A" and i: "i < 512" "is_table n (m t i)" and c: "c = entry_addr (m t i)"
    and e: "evolves n c m A m' A'"
  shows "evolves (Suc n) t m A m' A'" "m' t = m t"
    "leaf m' (Suc n) t va = (if table_index (12 + 9 * n) va = i then leaf m' n c va else leaf m (Suc n) t va)"
proof -
  note c1 = foot_child [where m = m and t = t, OF i, folded c] and wc = wf_child [OF w(1) i, folded c]
  have tA: "t \<in> A" "t \<notin> foot m n c" using w(2) foot_self [of "Suc n" t m] wc(2) by auto
  show t: "m' t = m t" using e tA by (auto simp: evolves_def)
  have same: "\<forall>p \<in> foot m n (entry_addr (m t j)). m' p = m p" if "j < 512" "is_table n (m t j)" "j \<noteq> i" for j
    using wf_children [OF w(1) that(1,2) i that(3), folded c] foot_child [where m = m and t = t, OF that(1,2)] w(2) e unfolding evolves_def by blast
  have fj: "foot m' n (entry_addr (m t j)) = foot m n (entry_addr (m t j))" "wf_tab m' n (entry_addr (m t j))"
    if "j < 512" "is_table n (m t j)" "j \<noteq> i" for j
    using foot_cong [OF same [OF that]] wf_cong [OF same [OF that]] wf_child(1) [OF w(1) that(1,2)] by blast+
  have fi: "foot m' n c \<inter> A \<subseteq> foot m n c" "wf_tab m' n c" "foot m' n c \<subseteq> A'" "A - foot m n c \<subseteq> A'" using e by (auto simp: evolves_def)
  have fjA: "foot m n (entry_addr (m t j)) \<subseteq> A - foot m n c" if "j < 512" "is_table n (m t j)" "j \<noteq> i" for j
    using wf_children [OF w(1) that(1,2) i that(3), folded c] foot_child [where m = m and t = t, OF that(1,2)] w(2) by blast
  have wf_tab': "wf_tab m' (Suc n) t"
    unfolding wf_tab.simps t
  proof (intro conjI allI impI)
    fix j :: nat assume j: "j < 512"
    show "entry_ok n (m t j)" using wf_entry_ok [OF w(1) j] .
    assume tj: "is_table n (m t j)"
    show "wf_tab m' n (entry_addr (m t j))" using fj(2) [OF j tj] fi(2) c by blast
    show "t \<notin> foot m' n (entry_addr (m t j))"
      using fj(1) [OF j tj] wf_child(2) [OF w(1) j tj] fi(1) tA c by blast
  next
    fix j k :: nat assume jk: "j < 512" "k < 512" "j \<noteq> k \<and> is_table n (m t j) \<and> is_table n (m t k)"
    have a: "foot m' n c \<inter> foot m n (entry_addr (m t j)) = {}" if "j < 512" "is_table n (m t j)" "j \<noteq> i" for j
      using fi(1) fjA [OF that] by blast
    have k: "foot m n (entry_addr (m t j)) \<inter> foot m n (entry_addr (m t k)) = {}" using wf_children [OF w(1)] jk by blast
    show "foot m' n (entry_addr (m t j)) \<inter> foot m' n (entry_addr (m t k)) = {}"
    proof -
      have t: "is_table n (m t j)" "is_table n (m t k)" using jk by simp_all
      consider "j = i" "k \<noteq> i" | "k = i" "j \<noteq> i" | "j \<noteq> i" "k \<noteq> i" using jk by blast
      then show ?thesis
      proof cases
        case 1
        then show ?thesis using fj(1) [OF jk(2) t(2)] a [OF jk(2) t(2)] c by simp
      next
        case 2
        then show ?thesis using fj(1) [OF jk(1) t(1)] a [OF jk(1) t(1)] c by (simp add: Int_commute)
      next
        case 3
        then show ?thesis using fj(1) [OF jk(1) t(1)] fj(1) [OF jk(2) t(2)] k by simp
      qed
    qed
  qed
  have foot': "p = t \<or> p \<in> foot m' n c \<or> p \<in> foot m (Suc n) t - foot m n c" if "p \<in> foot m' (Suc n) t" for p
    using that
  proof (cases rule: foot_cases)
    case (2 j)
    then show ?thesis using fj(1) fjA foot_child [of j n m t] c unfolding t by (cases "j = i") blast+
  qed simp
  have "foot m' (Suc n) t \<subseteq> A'" using foot' fi(3,4) tA w(2) by blast
  moreover have "foot m' (Suc n) t \<inter> A \<subseteq> foot m (Suc n) t" using foot' fi(1) c1 foot_self [of "Suc n" t m] by blast
  moreover have "A - foot m (Suc n) t \<subseteq> A'" "\<forall>p \<in> A - foot m (Suc n) t. m' p = m p" using e c1 unfolding evolves_def by blast+
  ultimately show "evolves (Suc n) t m A m' A'" using wf_tab' unfolding evolves_def by blast
  let ?j = "table_index (12 + 9 * n) va"
  show "leaf m' (Suc n) t va = (if ?j = i then leaf m' n c va else leaf m (Suc n) t va)"
  proof (cases "?j = i")
    case True
    then show ?thesis using leaf_child [of n m' t va] i(2) c t by simp
  next
    case False
    have "leaf m' n (entry_addr (m t ?j)) va = leaf m n (entry_addr (m t ?j)) va" if "is_table n (m t ?j)"
      using leaf_cong [OF same [OF table_index_lt that False]] .
    then show ?thesis using False by (auto simp: leaf.simps t is_table_def Let_def)
  qed
qed


text \<open>An entry is replaced: the pages of its old subtable may have been given back, and a new subtable lies on new pages.\<close>

definition child_foot :: "(u64 \<Rightarrow> nat \<Rightarrow> u64) \<Rightarrow> nat \<Rightarrow> u64 \<Rightarrow> u64 set" where
  "child_foot m n e = (if is_table n e then foot m n (entry_addr e) else {})"

lemma evolves_entry:
  assumes w: "wf_tab m (Suc n) t" "foot m (Suc n) t \<subseteq> A" and i: "i < 512"
    and m1: "\<forall>p \<in> A - child_foot m n (m t i). m1 p = m p" "A - child_foot m n (m t i) \<subseteq> A1"
    and e: "entry_ok n e" "is_table n e \<Longrightarrow> wf_tab m1 n (entry_addr e)" "child_foot m1 n e \<subseteq> A1 - A"
    and m': "m' = m1(t := (m1 t)(i := e))"
  shows "evolves (Suc n) t m A m' A1"
    "leaf m' (Suc n) t va = (if table_index (12 + 9 * n) va = i
       then (if \<not> bit e 0 then None else if n = 0 \<or> bit e 7 then Some (n, e)
             else leaf m1 n (entry_addr e) va)
       else leaf m (Suc n) t va)"
proof -
  let ?C = "child_foot m n (m t i)" and ?D = "child_foot m1 n e"
  have tC: "t \<notin> ?C" "t \<in> A" using wf_child(2) [OF w(1) i] w(2) foot_self [of "Suc n" t m] by (auto simp: child_foot_def)
  have t1: "m1 t = m t" using m1(1) tC by blast
  have t: "m' t = (m t)(i := e)" using m' t1 by simp
  have sub: "foot m n (entry_addr (m t j)) \<subseteq> A - ?C - {t}" if "j < 512" "is_table n (m t j)" "j \<noteq> i" for j
    using wf_children [OF w(1) that(1,2) i _ that(3)] wf_child(2) [OF w(1) that(1,2)] foot_child [where m = m and t = t, OF that(1,2)] w(2)
    by (auto simp: child_foot_def)
  have same: "\<forall>p \<in> foot m n (entry_addr (m t j)). m' p = m p" if "j < 512" "is_table n (m t j)" "j \<noteq> i" for j
    using sub [OF that] m1(1) by (auto simp: m')
  have sameD: "\<forall>p \<in> foot m1 n (entry_addr e). m' p = m1 p" if "is_table n e"
    using e(3) tC(2) that by (auto simp: m' child_foot_def)
  have fj: "foot m' n (entry_addr (m t j)) = foot m n (entry_addr (m t j))" "wf_tab m' n (entry_addr (m t j))"
    if "j < 512" "is_table n (m t j)" "j \<noteq> i" for j
    using foot_cong [OF same [OF that]] wf_cong [OF same [OF that]] wf_child(1) [OF w(1) that(1,2)] by blast+
  have fi: "foot m' n (entry_addr e) = ?D" "wf_tab m' n (entry_addr e)" if "is_table n e"
    using foot_cong [OF sameD [OF that]] wf_cong [OF sameD [OF that]] e(2) that by (auto simp: child_foot_def)
  have wf': "wf_tab m' (Suc n) t"
    unfolding wf_tab.simps
  proof (intro conjI allI impI)
    fix j :: nat assume j: "j < 512"
    show "entry_ok n (m' t j)" using wf_entry_ok [OF w(1) j] e(1) t by simp
    assume tj: "is_table n (m' t j)"
    show "wf_tab m' n (entry_addr (m' t j))" using fj(2) [OF j] fi(2) tj t by (cases "j = i") simp_all
    show "t \<notin> foot m' n (entry_addr (m' t j))"
      using fj(1) [OF j] fi(1) tj t sub [OF j] e(3) tC by (cases "j = i") auto
  next
    fix j k :: nat assume jk: "j < 512" "k < 512" "j \<noteq> k \<and> is_table n (m' t j) \<and> is_table n (m' t k)"
    have D: "?D \<inter> foot m n (entry_addr (m t j)) = {}" if "j < 512" "is_table n (m t j)" "j \<noteq> i" for j
      using e(3) sub [OF that] by blast
    consider "j = i" "k \<noteq> i" | "k = i" "j \<noteq> i" | "j \<noteq> i" "k \<noteq> i" using jk by blast
    then show "foot m' n (entry_addr (m' t j)) \<inter> foot m' n (entry_addr (m' t k)) = {}"
    proof cases
      case 1
      then show ?thesis using fj(1) [of k] fi(1) D [of k] jk t by auto
    next
      case 2
      then show ?thesis using fj(1) [of j] fi(1) D [of j] jk t by auto
    next
      case 3
      then show ?thesis using fj(1) [of j] fj(1) [of k] wf_children [OF w(1), of j k] jk t by simp
    qed
  qed
  have foot': "p = t \<or> p \<in> ?D \<or> p \<in> foot m (Suc n) t - ?C" if "p \<in> foot m' (Suc n) t" for p
    using that
  proof (cases rule: foot_cases)
    case (2 j)
    then show ?thesis using fj(1) [of j] fi(1) sub [of j] foot_child [of j n m t] t by (cases "j = i") auto
  qed simp
  have CS: "?C \<subseteq> foot m (Suc n) t" using foot_child [of i n m t] i by (auto simp: child_foot_def)
  have "foot m' (Suc n) t \<subseteq> A1" using foot' e(3) m1(2) tC w(2) by blast
  moreover have "foot m' (Suc n) t \<inter> A \<subseteq> foot m (Suc n) t" using foot' e(3) foot_self [of "Suc n" t m] by blast
  moreover have "A - foot m (Suc n) t \<subseteq> A1" using CS m1(2) by blast
  moreover have "\<forall>p \<in> A - foot m (Suc n) t. m' p = m p" using CS m1(1) foot_self [of "Suc n" t m] by (auto simp: m')
  ultimately show "evolves (Suc n) t m A m' A1" using wf' unfolding evolves_def by blast
  let ?j = "table_index (12 + 9 * n) va"
  have "leaf m' n (entry_addr (m t ?j)) va = leaf m n (entry_addr (m t ?j)) va" if "is_table n (m t ?j)" "?j \<noteq> i"
    using leaf_cong [OF same [OF table_index_lt that]] .
  moreover have "leaf m' n (entry_addr e) va = leaf m1 n (entry_addr e) va" if "is_table n e"
    using leaf_cong [OF sameD [OF that]] .
  ultimately show "leaf m' (Suc n) t va = (if ?j = i
       then (if \<not> bit e 0 then None else if n = 0 \<or> bit e 7 then Some (n, e)
             else leaf m1 n (entry_addr e) va)
       else leaf m (Suc n) t va)"
    by (auto simp: leaf.simps t is_table_def Let_def)
qed


section \<open>Entries and addresses\<close>

definition page_addr :: "u64 \<Rightarrow> bool" where
  "page_addr pa \<longleftrightarrow> pa AND PTE_MASK_ADDR = pa"

lemma mask_addr_eq: "PTE_MASK_ADDR = mask 52 AND NOT (mask 12)"
  by (simp add: mask_eq_exp_minus_1)

lemma unat_take_bit: "unat (take_bit k w) = unat w mod 2 ^ k" for w :: u64
  unfolding unsigned_take_bit_eq by (rule take_bit_eq_mod)

lemma page_addr_iff: "page_addr pa \<longleftrightarrow> unat pa < 2 ^ 52 \<and> unat pa mod 4096 = 0"
proof -
  have "pa AND PTE_MASK_ADDR = pa \<longleftrightarrow> take_bit 52 pa = pa \<and> take_bit 12 pa = 0"
    unfolding mask_addr_eq by (auto simp: bit_eq_iff bit_simps)
  moreover have "take_bit 52 pa = pa \<longleftrightarrow> unat pa < 2 ^ 52"
    unfolding word_unat_eq_iff unat_take_bit by (metis mod_less mod_less_divisor zero_less_power zero_less_numeral)
  moreover have "take_bit 12 pa = 0 \<longleftrightarrow> unat pa mod 4096 = 0"
    unfolding word_unat_eq_iff unat_take_bit by simp
  ultimately show ?thesis by (simp add: page_addr_def)
qed

lemma page_addr_bit: "page_addr pa \<Longrightarrow> k < 12 \<Longrightarrow> \<not> bit pa k"
  unfolding page_addr_def mask_addr_eq by (metis bit_and_iff bit_not_iff bit_mask_iff)

text \<open>Attributes a page can be mapped with.\<close>

definition map_flags :: "u64 \<Rightarrow> bool" where
  "map_flags fl \<longleftrightarrow> fl AND PTE_MASK_ADDR = 0 \<and> bit fl 0 \<and> \<not> bit fl 7"

lemma entry_addr_page: "page_addr (entry_addr e)"
  by (simp add: page_addr_def entry_addr_def and.assoc)

lemma entry_addr_or: "page_addr pa \<Longrightarrow> fl AND PTE_MASK_ADDR = 0 \<Longrightarrow> entry_addr (pa OR fl) = pa"
  by (simp add: entry_addr_def page_addr_def bit.conj_disj_distrib2)

lemma entry_attrs_or:
  assumes "page_addr pa" "fl AND PTE_MASK_ADDR = 0" "\<not> bit fl 7"
  shows "entry_attrs (pa OR fl) = fl"
proof -
  have "bit PTE_MASK_ADDR k \<longrightarrow> \<not> bit fl k" "bit pa k \<longrightarrow> bit PTE_MASK_ADDR k" for k
    using assms(1,2) unfolding page_addr_def by (metis bit_and_iff bit_0_eq bot_apply bot_bool_def, metis bit_and_iff)
  moreover have "bit PTE_FLAG_HUGE k \<longleftrightarrow> k = 7" for k using bit_exp_iff [of 7 k, where 'a = u64] by (cases "k < 64") auto
  ultimately have "(bit pa k \<or> bit fl k) \<and> \<not> bit PTE_MASK_ADDR k \<and> \<not> bit PTE_FLAG_HUGE k \<longleftrightarrow> bit fl k" for k
    using assms(3) by metis
  moreover have "possible_bit TYPE(u64) k" if "k < 64" for k using that by simp
  ultimately show ?thesis unfolding entry_attrs_def by (intro bit_word_eqI) (simp only: bit_and_iff bit_or_iff bit_not_iff, auto)
qed

lemma small_flags [simp]: "(PTE_FLAG_PRESENT OR PTE_FLAG_WRITABLE OR fl) AND PTE_MASK_ADDR = fl AND PTE_MASK_ADDR"
  by (simp add: bit.conj_disj_distrib2)

lemma expand_loop_at: "expand_loop pt i n pa fl j = (if i \<le> j \<and> j < i + n then (pa + of_nat (j - i) * 0x1000) OR fl else pt j)"
proof (induction pt i n pa fl rule: expand_loop.induct)
  case (2 pt i n pa fl)
  have "pa + 0x1000 + of_nat (j - Suc i) * 0x1000 = pa + of_nat (j - i) * 0x1000" if "Suc i \<le> j"
    using that by (simp add: Suc_diff_Suc flip: Suc_diff_Suc)
  then show ?case unfolding expand_loop.simps 2 by (auto simp: not_less_eq_eq)
qed auto

lemma table_index_unat: "table_index s va = unat va div 2 ^ s mod 512"
proof -
  have "drop_bit s va AND 0x1ff = take_bit 9 (drop_bit s va)" by (simp add: take_bit_eq_mask mask_eq_exp_minus_1)
  then have "table_index s va = unat (drop_bit s va) mod 2 ^ 9" unfolding table_index_def by (simp only: unat_take_bit)
  moreover have "unat (drop_bit s va) = unat va div 2 ^ s" unfolding unat_drop_bit_eq by (rule drop_bit_eq_div)
  ultimately show ?thesis by simp
qed

lemma unat_and_mask: "unat (va AND mask k) = unat va mod 2 ^ k" for va :: u64
  by (simp add: unat_take_bit flip: take_bit_eq_mask)

lemma huge_offset:
  assumes "page_addr pa" "pa AND mask 21 = 0"
  shows "page_addr (pa + of_nat (table_index 12 va) * 0x1000)"
    "pa + of_nat (table_index 12 va) * 0x1000 + (va AND mask 12) = pa + (va AND mask 21)"
proof -
  let ?i = "table_index 12 va"
  have i: "?i < 512" by (rule table_index_lt)
  have p: "unat pa < 2 ^ 52" "unat pa mod 2 ^ 21 = 0" using assms by (simp_all add: page_addr_iff word_unat_eq_iff unat_and_mask)
  have m: "unat (of_nat ?i * 0x1000 :: u64) = ?i * 4096" using i by (simp add: unat_word_ariths unat_of_nat)
  have le: "unat pa + ?i * 4096 < 2 ^ 52"
  proof -
    have "unat pa + 2 ^ 21 \<le> 2 ^ 52"
    proof -
      obtain q where q: "unat pa = q * 2 ^ 21" using p(2) by (metis mod_0_imp_dvd dvd_def mult.commute)
      then have "q < 2 ^ 31" using p(1) by simp
      then show ?thesis using q by simp
    qed
    then show ?thesis using i by simp
  qed
  have u: "unat (pa + of_nat ?i * 0x1000) = unat pa + ?i * 4096" using le m by (simp add: unat_word_ariths)
  have "unat pa mod 4096 = 0" using assms(1) by (simp add: page_addr_iff)
  then show "page_addr (pa + of_nat ?i * 0x1000)" unfolding page_addr_iff u using le by simp
  have "?i * 4096 + unat va mod 4096 = unat va mod 2 ^ 21"
    unfolding table_index_unat using mod_mult2_eq [of "unat va" 4096 512] by simp
  then have "of_nat ?i * 0x1000 + (va AND mask 12) = va AND mask 21"
    unfolding word_unat_eq_iff unat_word_ariths(1) m unat_and_mask by simp
  then show "pa + of_nat ?i * 0x1000 + (va AND mask 12) = pa + (va AND mask 21)" by (simp add: add.assoc)
qed


section \<open>Walks that make room\<close>

text \<open>The pages that hold tables, and what an operation does to the state.\<close>

definition tab_ok :: "('a \<Rightarrow> u64 set \<Rightarrow> bool) \<Rightarrow> nat \<Rightarrow> u64 \<Rightarrow> u64 set \<Rightarrow> 'a ptstate \<Rightarrow> bool" where
  "tab_ok live n t A st \<longleftrightarrow> wf_tab (tables st) n t \<and> foot (tables st) n t \<subseteq> A \<and> live (page_alloc st) A \<and> g_direct_ready st"

definition tab_step :: "('a \<Rightarrow> u64 set \<Rightarrow> bool) \<Rightarrow> nat \<Rightarrow> u64 \<Rightarrow> u64 set \<Rightarrow> 'a ptstate \<Rightarrow> u64 set \<Rightarrow> 'a ptstate \<Rightarrow> bool" where
  "tab_step live n t A st A' st' \<longleftrightarrow> evolves n t (tables st) A (tables st') A' \<and> live (page_alloc st') A' \<and> g_direct_ready st' \<and> tlb st' = tlb st"

lemma tab_step_ok: "tab_step live n t A st A' st' \<Longrightarrow> tab_ok live n t A' st'"
  by (simp add: tab_step_def tab_ok_def evolves_def)

lemma tab_step_refl: "tab_ok live n t A st \<Longrightarrow> tab_step live n t A st A st"
  by (simp add: tab_step_def tab_ok_def evolves_refl)

lemma tab_step_trans: "tab_step live n t A st A1 st1 \<Longrightarrow> tab_step live n t A1 st1 A2 st2 \<Longrightarrow> tab_step live n t A st A2 st2"
  unfolding tab_step_def using evolves_trans by force

lemma tab_ok_child:
  assumes "tab_ok live (Suc n) t A st" "i < 512" "is_table n (tables st t i)"
  shows "tab_ok live n (entry_addr (tables st t i)) A st"
  using assms wf_child(1) [of "tables st" n t i] foot_child [of i n "tables st" t] by (auto simp: tab_ok_def)

lemma tab_step_child:
  assumes "tab_ok live (Suc n) t A st" "i < 512" "is_table n (tables st t i)" "tab_step live n (entry_addr (tables st t i)) A st A' st'"
  shows "tab_step live (Suc n) t A st A' st'" "tables st' t = tables st t"
    "leaf (tables st') (Suc n) t va = (if table_index (12 + 9 * n) va = i then leaf (tables st') n (entry_addr (tables st t i)) va else leaf (tables st) (Suc n) t va)"
  using evolves_child [of "tables st" n t A i _ "tables st'" A', OF _ _ assms(2,3) refl] assms(1,4) by (auto simp: tab_ok_def tab_step_def)

lemma translate_cong_leaf: "leaf m' n t va = leaf m' n' t' va \<Longrightarrow> translate m' n t va = translate m' n' t' va"
  by (simp add: translate_def)

lemma tab_ok_ready [simp]: "tab_ok live n t A st \<Longrightarrow> phys_to_virt_table st pa = Some pa"
  by (simp add: tab_ok_def phys_to_virt_table_def)

text \<open>
  How the translations change: those of the addresses \<open>P\<close> become \<open>f\<close>, the others stay; if \<open>H\<close> does not hold no large
  page appears.
\<close>

definition updated :: "nat \<Rightarrow> u64 \<Rightarrow> (u64 \<Rightarrow> nat \<Rightarrow> u64) \<Rightarrow> (u64 \<Rightarrow> nat \<Rightarrow> u64) \<Rightarrow> (u64 \<Rightarrow> bool) \<Rightarrow> (u64 \<Rightarrow> (u64 \<times> u64) option) \<Rightarrow> bool \<Rightarrow> bool" where
  "updated n t m m' P f H \<longleftrightarrow> (\<forall>va. translate m' n t va = (if P va then f va else translate m n t va)) \<and>
     (\<forall>va k e. leaf m' n t va = Some (k, e) \<and> k \<noteq> 0 \<longrightarrow> leaf m n t va = Some (k, e) \<or> H \<and> P va)"

abbreviation same_view :: "nat \<Rightarrow> u64 \<Rightarrow> (u64 \<Rightarrow> nat \<Rightarrow> u64) \<Rightarrow> (u64 \<Rightarrow> nat \<Rightarrow> u64) \<Rightarrow> bool" where
  "same_view n t m m' \<equiv> updated n t m m' (\<lambda>_. False) (\<lambda>_. None) False"

lemma updated_refl: "same_view n t m m"
  by (simp add: updated_def)

lemma updated_after: "same_view n t m m1 \<Longrightarrow> updated n t m1 m2 P f H \<Longrightarrow> updated n t m m2 P f H"
  by (simp add: updated_def) blast

lemma updated_child:
  assumes "tab_ok live (Suc n) t A st" "i < 512" "is_table n (tables st t i)" "tab_step live n (entry_addr (tables st t i)) A st A' st'"
    "updated n (entry_addr (tables st t i)) (tables st) (tables st') P f H"
  shows "updated (Suc n) t (tables st) (tables st') (\<lambda>va. table_index (12 + 9 * n) va = i \<and> P va) f H"
proof -
  note lf = tab_step_child(3) [OF assms(1-4)]
  have lc: "leaf (tables st) (Suc n) t va = leaf (tables st) n (entry_addr (tables st t i)) va" if "table_index (12 + 9 * n) va = i" for va
    using leaf_child [of n "tables st" t va] that assms(3) by simp
  have "translate (tables st') (Suc n) t va = (if table_index (12 + 9 * n) va = i \<and> P va then f va else translate (tables st) (Suc n) t va)" for va
  proof (cases "table_index (12 + 9 * n) va = i")
    case True
    then have "translate (tables st') (Suc n) t va = translate (tables st') n (entry_addr (tables st t i)) va"
      "translate (tables st) (Suc n) t va = translate (tables st) n (entry_addr (tables st t i)) va" using lf [of va] lc [of va] by (simp_all add: translate_def)
    then show ?thesis using assms(5) True by (simp add: updated_def)
  qed (use lf [of va] in \<open>simp add: translate_def\<close>)
  moreover have "leaf (tables st) (Suc n) t va = Some (k, e) \<or> H \<and> table_index (12 + 9 * n) va = i \<and> P va"
    if "leaf (tables st') (Suc n) t va = Some (k, e)" "k \<noteq> 0" for va k e
    using that lf [of va] lc [of va] assms(5) by (auto simp: updated_def split: if_splits)
  ultimately show ?thesis unfolding updated_def by blast
qed

text \<open>
  What the tables need of the page allocator. \<open>live s A\<close>: the pages \<open>A\<close> are in use; \<open>meta\<close>: pages that are never given back;
  \<open>short s n\<close>: the allocator may fail before it has handed out \<open>n\<close> pages.
\<close>

locale table_pages =
  fixes alloc :: "'a allocator" and dealloc :: "'a deallocator" and live :: "'a \<Rightarrow> u64 set \<Rightarrow> bool" and meta :: "u64 set"
    and short :: "'a \<Rightarrow> nat \<Rightarrow> bool"
  assumes alloc_law: "live s A \<Longrightarrow> \<exists>pa s'. alloc s = Some (pa, s') \<and>
      (if pa = 0 then live s' A else page_addr pa \<and> pa \<notin> A \<and> live s' (insert pa A))"
    and dealloc_law: "live s A \<Longrightarrow> pa \<in> A \<Longrightarrow> \<exists>s'. dealloc s pa = Some (pa \<notin> meta, s') \<and> live s' (if pa \<in> meta then A else A - {pa})"
    and short_fail: "live s A \<Longrightarrow> alloc s = Some (0, s') \<Longrightarrow> short s 1 \<and> short s' 1"
    and short_step: "live s A \<Longrightarrow> alloc s = Some (pa, s') \<Longrightarrow> pa \<noteq> 0 \<Longrightarrow> short s' n \<Longrightarrow> short s (Suc n)"
    and short_mono: "short s n \<Longrightarrow> n \<le> m \<Longrightarrow> short s m"
begin

lemma expand_hugepage_ok:
  assumes ok: "tab_ok live (Suc n) t A st" and i: "i < 512" and e: "n = 1" "bit (tables st t i) 0" "bit (tables st t i) 7"
  shows "\<exists>b st' A'. expand_hugepage alloc st t i = Some (b, st') \<and> tab_step live (Suc n) t A st A' st' \<and> A \<subseteq> A' \<and>
    same_view (Suc n) t (tables st) (tables st') \<and>
    (if b then is_table n (tables st' t i) \<and> (\<forall>k. short (page_alloc st') k \<longrightarrow> short (page_alloc st) (Suc k))
     else tables st' = tables st \<and> short (page_alloc st) 1 \<and> short (page_alloc st') 1)"
proof -
  have live: "live (page_alloc st) A" and w: "wf_tab (tables st) (Suc n) t" "foot (tables st) (Suc n) t \<subseteq> A" and rdy: "g_direct_ready st"
    using ok by (auto simp: tab_ok_def)
  obtain pa a where a: "alloc (page_alloc st) = Some (pa, a)" "if pa = 0 then live a A else page_addr pa \<and> pa \<notin> A \<and> live a (insert pa A)"
    using alloc_law [OF live] by blast
  show ?thesis
  proof (cases "pa = 0")
    case True
    have "tab_step live (Suc n) t A st A (st\<lparr>page_alloc := a\<rparr>)"
      using a(2) True w rdy by (simp add: tab_step_def evolves_refl)
    then show ?thesis using a(1) True short_fail [OF live, of a] by (intro exI [of _ False] exI [of _ "st\<lparr>page_alloc := a\<rparr>"] exI [of _ A]) (simp add: expand_hugepage_def updated_refl)
  next
    case False
    let ?e = "tables st t i" and ?m = "tables st"
    let ?fl = "entry_attrs ?e"
    let ?tb = "expand_loop (?m pa) 0 512 (entry_addr ?e) ?fl"
    let ?m1 = "?m(pa := ?tb)"
    let ?e' = "pa OR ?fl"
    let ?st = "write_entry (write_table (st\<lparr>page_alloc := a\<rparr>) pa ?tb) t i ?e'"
    have pa: "page_addr pa" "pa \<notin> A" "live a (insert pa A)" using a(2) False by simp_all
    have run: "expand_hugepage alloc st t i = Some (True, ?st)"
      using a(1) False rdy by (simp add: expand_hugepage_def phys_to_virt_table_def entry_addr_def entry_attrs_def Let_def)
    have tab: "?tb j = (entry_addr ?e + of_nat j * 0x1000) OR ?fl" if "j < 512" for j using that by (simp add: expand_loop_at)
    have fl: "?fl AND PTE_MASK_ADDR = 0" "\<not> bit ?fl 7" "bit ?fl 0"
    proof -
      show "?fl AND PTE_MASK_ADDR = 0" by (simp add: entry_attrs_def and.assoc and.left_commute)
      have "bit PTE_FLAG_HUGE 7" "\<not> bit PTE_FLAG_HUGE 0" "\<not> bit PTE_MASK_ADDR 0" by simp_all
      then show "\<not> bit ?fl 7" "bit ?fl 0" using e(2) unfolding entry_attrs_def bit_and_iff bit_not_iff by (simp_all del: bit_numeral_simps)
    qed
    have e': "entry_addr ?e' = pa" "bit ?e' 0" "\<not> bit ?e' 7" "entry_attrs ?e' = ?fl"
      using entry_addr_or [OF pa(1) fl(1)] entry_attrs_or [OF pa(1) fl(1,2)] fl page_addr_bit [OF pa(1), of 7] by (simp_all add: bit_or_iff)
    have al: "entry_addr ?e AND mask 21 = 0" using wf_entry_ok [OF w(1) i] e by (simp add: entry_ok_def)
    have ent: "page_addr (entry_addr ?e + of_nat j * 0x1000)" if "j < 512" for j
      using huge_offset(1) [OF entry_addr_page al, of "of_nat (j * 4096)"] that by (simp add: table_index_unat unat_of_nat unat_word_ariths)
    have tabj: "\<not> bit (?tb j) 7" "bit (?tb j) 0" "entry_addr (?tb j) = entry_addr ?e + of_nat j * 0x1000" "entry_attrs (?tb j) = ?fl" if "j < 512" for j
      using tab [OF that] ent [OF that] fl page_addr_bit [OF ent [OF that], of 7] entry_addr_or entry_attrs_or by (simp_all add: bit_or_iff)
    have "t \<in> A" using w(2) foot_self [of "Suc n" t ?m] by auto
    then have tpa: "t \<noteq> pa" using pa(2) by auto
    have n0: "child_foot ?m n ?e = {}" "is_table n ?e'" "child_foot ?m1 n ?e' = {pa}"
      using e e' by (simp_all add: child_foot_def is_table_def foot.simps One_nat_def)
    have wf1: "wf_tab ?m1 n pa" using tabj(1,2) e(1) by (simp add: wf_tab.simps One_nat_def is_table_def entry_ok_def)
    have c: "\<forall>p \<in> A - child_foot ?m n ?e. ?m1 p = ?m p" "A - child_foot ?m n ?e \<subseteq> insert pa A" "entry_ok n ?e'"
      "is_table n ?e' \<Longrightarrow> wf_tab ?m1 n (entry_addr ?e')" "child_foot ?m1 n ?e' \<subseteq> insert pa A - A"
      using pa(2) e'(1,3) wf1 n0(3) by (auto simp: entry_ok_def)
    define m' where m'_def: "m' = ?m1(t := (?m1 t)(i := ?e'))"
    note ev = evolves_entry(1) [OF w i c m'_def] and lf = evolves_entry(2) [OF w i c m'_def]
    have nz: "n \<noteq> 0" using e(1) by simp
    have m': "tables ?st = m'" "m' t i = ?e'" by (simp_all add: write_entry_def write_table_def m'_def)
    have lf1: "leaf ?m1 n pa va = Some (0, ?tb (table_index 12 va))" for va
      using tabj [OF table_index_lt] e(1) by (simp add: leaf.simps One_nat_def)
    have same: "translate (tables ?st) (Suc n) t va = translate ?m (Suc n) t va" for va
    proof (cases "table_index (12 + 9 * n) va = i")
      case True
      have "leaf ?m (Suc n) t va = Some (n, ?e)" using True e by (simp add: leaf.simps)
      moreover have "leaf (tables ?st) (Suc n) t va = Some (0, ?tb (table_index 12 va))" unfolding m'(1) using lf [of va] True nz e'(1-3) lf1 [of va] by simp
      ultimately show ?thesis using tabj(3,4) [OF table_index_lt, of 12 va] huge_offset(2) [OF entry_addr_page al, of va] e(1)
        by (simp add: translate_def)
    next
      case False
      then show ?thesis unfolding m'(1) using lf [of va] by (simp add: translate_def)
    qed
    have "tab_step live (Suc n) t A st (insert pa A) ?st"
      using ev pa(3) rdy m'(1) by (simp add: tab_step_def write_entry_def write_table_def)
    moreover have "is_table n (tables ?st t i)" using n0(2) unfolding m' .
    moreover have "leaf ?m (Suc n) t va = Some (k, x)" if "leaf (tables ?st) (Suc n) t va = Some (k, x)" "k \<noteq> 0" for va k x
      using that unfolding m'(1) using lf [of va] nz lf1 [of va] e'(1-3) by (simp split: if_splits)
    moreover have "short (page_alloc st) (Suc k)" if "short (page_alloc ?st) k" for k
      using short_step [OF live a(1) False] that by (simp add: write_entry_def write_table_def)
    ultimately show ?thesis using run same
      by (intro exI [of _ True] exI [of _ ?st] exI [of _ "insert pa A"]) (auto simp: updated_def)
  qed
qed

lemma leaf_zero: "m t = (\<lambda>_. 0) \<Longrightarrow> leaf m n t va = None"
  by (cases n) (simp_all add: leaf.simps)

lemma wf_zero: "m t = (\<lambda>_. 0) \<Longrightarrow> wf_tab m n t" "m t = (\<lambda>_. 0) \<Longrightarrow> 0 < n \<Longrightarrow> foot m n t = {t}"
  by (cases n; simp add: wf_tab.simps foot.simps is_table_def entry_ok_def)+

lemma get_or_alloc_table_ok:
  assumes ok: "tab_ok live (Suc n) t A st" and i: "i < 512" and n: "0 < n" "allow \<or> 1 < n" and fl: "map_flags fl"
  shows "\<exists>r st' A'. get_or_alloc_table alloc st t i fl allow = Some (r, st') \<and> tab_step live (Suc n) t A st A' st' \<and> A \<subseteq> A' \<and>
    same_view (Suc n) t (tables st) (tables st') \<and>
    (r = None \<and> short (page_alloc st) 1 \<or> r = Some (entry_addr (tables st' t i)) \<and> is_table n (tables st' t i) \<and>
       (\<forall>k. short (page_alloc st') k \<longrightarrow> short (page_alloc st) (Suc k)))"
proof -
  let ?m = "tables st" and ?e = "tables st t i"
  have live: "live (page_alloc st) A" and w: "wf_tab ?m (Suc n) t" "foot ?m (Suc n) t \<subseteq> A" and rdy: "g_direct_ready st"
    using ok by (auto simp: tab_ok_def)
  consider "bit ?e 0" "bit ?e 7" | "bit ?e 0" "\<not> bit ?e 7" | "\<not> bit ?e 0" by blast
  then show ?thesis
  proof cases
    case 1
    then have n1: "n = 1" "allow" using wf_entry_ok [OF w(1) i] n by (auto simp: entry_ok_def)
    obtain b st' A' where x: "expand_hugepage alloc st t i = Some (b, st')" "tab_step live (Suc n) t A st A' st'" "A \<subseteq> A'"
        "same_view (Suc n) t (tables st) (tables st')" "if b then is_table n (tables st' t i) \<and> (\<forall>k. short (page_alloc st') k \<longrightarrow> short (page_alloc st) (Suc k))
         else tables st' = tables st \<and> short (page_alloc st) 1 \<and> short (page_alloc st') 1"
      using expand_hugepage_ok [OF ok i n1(1) 1] by blast
    then show ?thesis using 1 n1(2) tab_ok_ready [OF tab_step_ok [OF x(2)]]
      by (intro exI [of _ "if b then Some (entry_addr (tables st' t i)) else None"] exI [of _ st'] exI [of _ A'])
        (cases b; simp add: get_or_alloc_table_def entry_addr_def)
  next
    case 2
    then show ?thesis using tab_ok_ready [OF ok] tab_step_refl [OF ok] n(1) short_mono [of "page_alloc st"]
      by (intro exI [of _ "Some (entry_addr ?e)"] exI [of _ st] exI [of _ A])
        (simp add: get_or_alloc_table_def entry_addr_def is_table_def updated_refl)
  next
    case 3
    obtain pa a where a: "alloc (page_alloc st) = Some (pa, a)" "if pa = 0 then live a A else page_addr pa \<and> pa \<notin> A \<and> live a (insert pa A)"
      using alloc_law [OF live] by blast
    show ?thesis
    proof (cases "pa = 0")
      case True
      have "tab_step live (Suc n) t A st A (st\<lparr>page_alloc := a\<rparr>)" using a(2) True w rdy by (simp add: tab_step_def evolves_refl)
      then show ?thesis using 3 a(1) True short_fail [OF live, of a]
        by (intro exI [of _ None] exI [of _ "st\<lparr>page_alloc := a\<rparr>"] exI [of _ A]) (simp add: get_or_alloc_table_def updated_refl)
    next
      case False
      let ?m1 = "?m(pa := (\<lambda>_. 0))" and ?e' = "pa OR PTE_FLAG_PRESENT OR PTE_FLAG_WRITABLE OR fl"
      let ?st = "write_entry (write_table (st\<lparr>page_alloc := a\<rparr>) pa (\<lambda>_. 0)) t i ?e'"
      have pa: "page_addr pa" "pa \<notin> A" "live a (insert pa A)" using a(2) False by simp_all
      have run: "get_or_alloc_table alloc st t i fl allow = Some (Some pa, ?st)"
        using 3 a(1) False rdy by (simp add: get_or_alloc_table_def phys_to_virt_table_def)
      have e': "entry_addr ?e' = pa" "bit ?e' 0" "\<not> bit ?e' 7" "is_table n ?e'"
        using entry_addr_or [OF pa(1), of "PTE_FLAG_PRESENT OR PTE_FLAG_WRITABLE OR fl"] fl page_addr_bit [OF pa(1), of 7] n(1)
        by (simp_all add: or.assoc map_flags_def bit_or_iff is_table_def)
      have D: "child_foot ?m1 n ?e' = {pa}" using e' wf_zero(2) [of ?m1 pa n] n(1) by (simp add: child_foot_def)
      have c: "\<forall>p \<in> A - child_foot ?m n ?e. ?m1 p = ?m p" "A - child_foot ?m n ?e \<subseteq> insert pa A" "entry_ok n ?e'"
        "is_table n ?e' \<Longrightarrow> wf_tab ?m1 n (entry_addr ?e')" "child_foot ?m1 n ?e' \<subseteq> insert pa A - A"
        using pa(2) e' wf_zero(1) [of ?m1 pa n] D by (auto simp: entry_ok_def)
      define m' where m'_def: "m' = ?m1(t := (?m1 t)(i := ?e'))"
      note ev = evolves_entry(1) [OF w i c m'_def] and lf = evolves_entry(2) [OF w i c m'_def]
      have m': "tables ?st = m'" "m' t i = ?e'" by (simp_all add: write_entry_def write_table_def m'_def)
      have "leaf m' (Suc n) t va = leaf ?m (Suc n) t va" for va
        using lf [of va] e' leaf_absent [of ?m t n va] 3 n(1) leaf_zero [of ?m1 pa n va] by (simp split: if_splits)
      then have "same_view (Suc n) t ?m m'" by (simp add: updated_def translate_def)
      moreover have "tab_step live (Suc n) t A st (insert pa A) ?st"
        using ev pa(3) rdy m'(1) by (simp add: tab_step_def write_entry_def write_table_def)
      moreover have "short (page_alloc st) (Suc k)" if "short (page_alloc ?st) k" for k
        using short_step [OF live a(1) False] that by (simp add: write_entry_def write_table_def)
      ultimately show ?thesis using run e'(1,4) m'
        by (intro exI [of _ "Some pa"] exI [of _ ?st] exI [of _ "insert pa A"]) auto
    qed
  qed
qed


lemma translate_child: "is_table n (m t i) \<Longrightarrow> table_index (12 + 9 * n) va = i \<Longrightarrow> translate m (Suc n) t va = translate m n (entry_addr (m t i)) va"
  using leaf_child [of n m t va] by (simp add: translate_def)

end

text \<open>
  The result of mapping, at \<open>va\<close> and with at most \<open>j\<close> new tables: the unmapped addresses \<open>P\<close> are now mapped, or nothing
  changed. Mapping a small page fails only when it is mapped already or no page is left for a table.
\<close>

definition map_result ::
  "('a \<Rightarrow> u64 set \<Rightarrow> bool) \<Rightarrow> ('a \<Rightarrow> nat \<Rightarrow> bool) \<Rightarrow> nat \<Rightarrow> u64 \<Rightarrow> u64 \<Rightarrow> nat \<Rightarrow> u64 set \<Rightarrow> 'a ptstate \<Rightarrow>
   (u64 \<Rightarrow> bool) \<Rightarrow> (u64 \<Rightarrow> (u64 \<times> u64) option) \<Rightarrow> bool \<Rightarrow> (bool \<times> 'a ptstate) option \<Rightarrow> bool" where
  "map_result live short n t va j A st P f H r \<longleftrightarrow> (\<exists>b st' A'. r = Some (b, st') \<and> tab_step live n t A st A' st' \<and> A \<subseteq> A' \<and>
     (if b then updated n t (tables st) (tables st') P f H \<and> (\<forall>va. P va \<longrightarrow> translate (tables st) n t va = None)
      else same_view n t (tables st) (tables st')) \<and>
     (if b then \<forall>k. short (page_alloc st') k \<longrightarrow> short (page_alloc st) (k + j)
      else H \<or> translate (tables st) n t va \<noteq> None \<or> short (page_alloc st) j))"

context table_pages
begin

lemma map_descend:
  assumes ok: "tab_ok live (Suc n) t A st" and i: "i = table_index (12 + 9 * n) va" and n: "0 < n" "allow \<or> 1 < n" and fl: "map_flags fl"
    and sub: "\<And>c A st. tab_ok live n c A st \<Longrightarrow> map_result live short n c va j A st P f H (F c st)"
  shows "map_result live short (Suc n) t va (Suc j) A st (\<lambda>va. table_index (12 + 9 * n) va = i \<and> P va) f H
    (do { (r, st) \<leftarrow> get_or_alloc_table alloc st t i fl allow; case r of None \<Rightarrow> Some (False, st) | Some c \<Rightarrow> F c st })"
proof -
  have i5: "i < 512" using i table_index_lt by simp
  obtain r st1 A1 where g: "get_or_alloc_table alloc st t i fl allow = Some (r, st1)" "tab_step live (Suc n) t A st A1 st1" "A \<subseteq> A1"
    "same_view (Suc n) t (tables st) (tables st1)" "r = None \<and> short (page_alloc st) 1 \<or> r = Some (entry_addr (tables st1 t i)) \<and> is_table n (tables st1 t i) \<and>
       (\<forall>k. short (page_alloc st1) k \<longrightarrow> short (page_alloc st) (Suc k))"
    using get_or_alloc_table_ok [OF ok i5 n fl] by blast
  show ?thesis
  proof (cases r)
    case None
    then show ?thesis using g short_mono [of "page_alloc st" 1 "Suc j"] unfolding map_result_def by (intro exI [of _ False] exI [of _ st1] exI [of _ A1]) simp
  next
    case (Some c)
    then have c: "c = entry_addr (tables st1 t i)" "is_table n (tables st1 t i)" "\<forall>k. short (page_alloc st1) k \<longrightarrow> short (page_alloc st) (Suc k)" using g(5) by auto
    have ok1: "tab_ok live (Suc n) t A1 st1" using tab_step_ok [OF g(2)] .
    obtain b st2 A2 where s: "F c st1 = Some (b, st2)" "tab_step live n c A1 st1 A2 st2" "A1 \<subseteq> A2"
      "if b then updated n c (tables st1) (tables st2) P f H \<and> (\<forall>va. P va \<longrightarrow> translate (tables st1) n c va = None) else same_view n c (tables st1) (tables st2)"
      "if b then \<forall>k. short (page_alloc st2) k \<longrightarrow> short (page_alloc st1) (k + j) else H \<or> translate (tables st1) n c va \<noteq> None \<or> short (page_alloc st1) j"
      using sub [OF tab_ok_child [OF ok1 i5 c(2)], folded c(1)] unfolding map_result_def by blast
    have st: "tab_step live (Suc n) t A st A2 st2"
      using tab_step_trans [OF g(2) tab_step_child(1) [OF ok1 i5 c(2) s(2) [unfolded c(1)]]] .
    note up = updated_child [OF ok1 i5 c(2) s(2) [unfolded c(1)], folded c(1)]
    have tr: "translate (tables st) (Suc n) t x = translate (tables st1) n c x" if "table_index (12 + 9 * n) x = i" for x
      using translate_child [where m = "tables st1" and t = t, OF c(2) that] g(4) c(1) by (simp add: updated_def)
    then have "translate (tables st) (Suc n) t x = None" if "b" "table_index (12 + 9 * n) x = i" "P x" for x
      using s(4) that by simp
    moreover have "updated (Suc n) t (tables st) (tables st2) (\<lambda>va. table_index (12 + 9 * n) va = i \<and> P va) f H" if b
      using updated_after [OF g(4) up] s(4) that by simp
    moreover have "same_view (Suc n) t (tables st) (tables st2)" if "\<not> b" using updated_after [OF g(4) up, of "\<lambda>_. False" "\<lambda>_. None" False] s(4) that by simp
    moreover have "if b then \<forall>k. short (page_alloc st2) k \<longrightarrow> short (page_alloc st) (k + Suc j)
        else H \<or> translate (tables st) (Suc n) t va \<noteq> None \<or> short (page_alloc st) (Suc j)"
      using s(5) c(3) tr [of va] i by (cases b) auto
    ultimately show ?thesis using g(1,3) Some s(1,3) st unfolding map_result_def
      by (intro exI [of _ b] exI [of _ st2] exI [of _ A2]) auto
  qed
qed

lemma map_leaf:
  assumes ok: "tab_ok live (Suc n) t A st" and i: "i = table_index (12 + 9 * n) va" and e: "bit e 0" "entry_ok n e" "n = 0 \<or> bit e 7"
  shows "map_result live short (Suc n) t va 0 A st (\<lambda>va. table_index (12 + 9 * n) va = i)
    (\<lambda>va. Some (entry_addr e + (va AND mask (12 + 9 * n)), entry_attrs e)) (n \<noteq> 0)
    (if tables st t i AND PTE_FLAG_PRESENT \<noteq> 0 then Some (False, st) else Some (True, write_entry st t i e))"
proof (cases "bit (tables st t i) 0")
  case True
  then have "n \<noteq> 0 \<or> translate (tables st) (Suc n) t va \<noteq> None" using i by (auto simp: translate_def leaf.simps)
  then show ?thesis using True tab_step_refl [OF ok] unfolding map_result_def
    by (intro exI [of _ False] exI [of _ st] exI [of _ A]) (auto simp: updated_refl)
next
  case False
  let ?m = "tables st"
  have i5: "i < 512" using i table_index_lt by simp
  have w: "wf_tab ?m (Suc n) t" "foot ?m (Suc n) t \<subseteq> A" using ok by (auto simp: tab_ok_def)
  have c: "\<forall>p \<in> A - child_foot ?m n (?m t i). ?m p = ?m p" "A - child_foot ?m n (?m t i) \<subseteq> A" "entry_ok n e"
    "is_table n e \<Longrightarrow> wf_tab ?m n (entry_addr e)" "child_foot ?m n e \<subseteq> A - A"
    using e by (auto simp: child_foot_def is_table_def)
  define m' where m'_def: "m' = ?m(t := (?m t)(i := e))"
  note ev = evolves_entry(1) [OF w i5 c m'_def] and lf = evolves_entry(2) [OF w i5 c m'_def]
  have m': "tables (write_entry st t i e) = m'" by (simp add: write_entry_def m'_def)
  have st: "tab_step live (Suc n) t A st A (write_entry st t i e)"
    using ev ok m' by (simp add: tab_step_def tab_ok_def) (simp add: write_entry_def)
  have "leaf m' (Suc n) t va = (if table_index (12 + 9 * n) va = i then Some (n, e) else leaf ?m (Suc n) t va)" for va
    using lf [of va] e by auto
  then have "updated (Suc n) t ?m m' (\<lambda>va. table_index (12 + 9 * n) va = i) (\<lambda>va. Some (entry_addr e + (va AND mask (12 + 9 * n)), entry_attrs e)) (n \<noteq> 0)"
    by (auto simp: updated_def translate_def)
  moreover have "translate ?m (Suc n) t va = None" if "table_index (12 + 9 * n) va = i" for va
    using leaf_absent [of ?m t n va] that False by (simp add: translate_def)
  ultimately show ?thesis using False st m' unfolding map_result_def
    by (intro exI [of _ True] exI [of _ "write_entry st t i e"] exI [of _ A]) (simp add: write_entry_def)
qed

lemma map_4k_ok:
  assumes ok: "tab_ok live 4 t A st" and fl: "map_flags fl" and pa: "page_addr pa"
  shows "map_result live short 4 t va 3 A st (\<lambda>x. table_index 39 x = table_index 39 va \<and> table_index 30 x = table_index 30 va \<and> table_index 21 x = table_index 21 va \<and> table_index 12 x = table_index 12 va)
    (\<lambda>x. Some (pa + (x AND mask 12), fl)) False (map_4k alloc st t va pa fl)"
proof -
  let ?e = "(pa AND PTE_MASK_ADDR) OR fl" and ?f = "\<lambda>x. Some (pa + (x AND mask 12), fl)"
  let ?F1 = "\<lambda>pt st. if tables st pt (table_index 12 va) AND PTE_FLAG_PRESENT \<noteq> 0 then Some (False, st) else Some (True, write_entry st pt (table_index 12 va) ?e)"
  let ?F2 = "\<lambda>pd st. do { (pt, st) \<leftarrow> get_or_alloc_table alloc st pd (table_index 21 va) fl True; case pt of None \<Rightarrow> Some (False, st) | Some pt \<Rightarrow> ?F1 pt st }"
  let ?F3 = "\<lambda>pdpt st. do { (pd, st) \<leftarrow> get_or_alloc_table alloc st pdpt (table_index 30 va) fl False; case pd of None \<Rightarrow> Some (False, st) | Some pd \<Rightarrow> ?F2 pd st }"
  have e: "entry_addr ?e = pa" "entry_attrs ?e = fl" "bit ?e 0" "entry_ok 0 ?e"
    using pa fl entry_addr_or [of pa fl] entry_attrs_or [of pa fl] by (auto simp: page_addr_def map_flags_def bit_or_iff entry_ok_def)
  have 1: "map_result live short (Suc 0) c va 0 A st (\<lambda>x. table_index 12 x = table_index 12 va) ?f False (?F1 c st)" if "tab_ok live (Suc 0) c A st" for c A st
    using map_leaf [OF that _ e(3,4), of "table_index 12 va" va] e(1,2) by simp
  have 2: "map_result live short (Suc (Suc 0)) c va (Suc 0) A st (\<lambda>x. table_index 21 x = table_index 21 va \<and> table_index 12 x = table_index 12 va) ?f False (?F2 c st)"
    if "tab_ok live (Suc (Suc 0)) c A st" for c A st
    using map_descend [where F = ?F1, OF that _ _ _ fl 1, of "table_index 21 va" True] by simp
  have 3: "map_result live short (Suc (Suc (Suc 0))) c va (Suc (Suc 0)) A st (\<lambda>x. table_index 30 x = table_index 30 va \<and> table_index 21 x = table_index 21 va \<and> table_index 12 x = table_index 12 va) ?f False (?F3 c st)"
    if "tab_ok live (Suc (Suc (Suc 0))) c A st" for c A st
    using map_descend [where F = ?F2, OF that _ _ _ fl 2, of "table_index 30 va" False] by simp
  show ?thesis using map_descend [where F = ?F3 and n = "Suc (Suc (Suc 0))" and i = "table_index 39 va", OF _ _ _ _ fl 3, of t A st False] ok
    unfolding map_4k_def Let_def by (simp add: numeral_3_eq_3 eval_nat_numeral)
qed

lemma map_2m_ok:
  assumes ok: "tab_ok live 4 t A st" and fl: "map_flags fl" and pa: "page_addr pa" "pa AND mask 21 = 0"
  shows "map_result live short 4 t va 2 A st (\<lambda>x. table_index 39 x = table_index 39 va \<and> table_index 30 x = table_index 30 va \<and> table_index 21 x = table_index 21 va)
    (\<lambda>x. Some (pa + (x AND mask 21), fl)) True (map_2m alloc st t va pa fl)"
proof -
  let ?e = "(pa AND PTE_MASK_ADDR) OR fl OR PTE_FLAG_HUGE" and ?f = "\<lambda>x. Some (pa + (x AND mask 21), fl)"
  let ?F2 = "\<lambda>pd st. if tables st pd (table_index 21 va) AND PTE_FLAG_PRESENT \<noteq> 0 then Some (False, st) else Some (True, write_entry st pd (table_index 21 va) ?e)"
  let ?F3 = "\<lambda>pdpt st. do { (pd, st) \<leftarrow> get_or_alloc_table alloc st pdpt (table_index 30 va) fl False; case pd of None \<Rightarrow> Some (False, st) | Some pd \<Rightarrow> ?F2 pd st }"
  have h: "(fl OR PTE_FLAG_HUGE) AND PTE_MASK_ADDR = 0" using fl by (simp add: map_flags_def bit.conj_disj_distrib2)
  have e: "entry_addr ?e = pa" "bit ?e 0" "bit ?e 7"
    using pa fl entry_addr_or [OF pa(1) h] by (auto simp: page_addr_def map_flags_def bit_or_iff or.assoc)
  have "entry_attrs ?e = entry_attrs (pa OR fl)"
    using pa(1) by (simp add: entry_attrs_def page_addr_def bit.conj_disj_distrib2 or.assoc flip: or.assoc)
  then have at: "entry_attrs ?e = fl" using entry_attrs_or [OF pa(1)] fl by (simp add: map_flags_def)
  have ok1: "entry_ok (Suc 0) ?e" using e pa(2) by (simp add: entry_ok_def)
  have 2: "map_result live short (Suc (Suc 0)) c va 0 A st (\<lambda>x. table_index 21 x = table_index 21 va) ?f True (?F2 c st)" if "tab_ok live (Suc (Suc 0)) c A st" for c A st
    using map_leaf [OF that _ e(2) ok1, of "table_index 21 va" va] e(1,3) at by simp
  have 3: "map_result live short (Suc (Suc (Suc 0))) c va (Suc 0) A st (\<lambda>x. table_index 30 x = table_index 30 va \<and> table_index 21 x = table_index 21 va) ?f True (?F3 c st)"
    if "tab_ok live (Suc (Suc (Suc 0))) c A st" for c A st
    using map_descend [where F = ?F2, OF that _ _ _ fl 2, of "table_index 30 va" False] by simp
  show ?thesis using map_descend [where F = ?F3 and n = "Suc (Suc (Suc 0))" and i = "table_index 39 va", OF _ _ _ _ fl 3, of t A st False] ok
    unfolding map_2m_def Let_def by (simp add: numeral_3_eq_3 eval_nat_numeral)
qed

end

section \<open>Ranges of addresses\<close>

text \<open>
  Only the low 48 bits of an address select entries. The distance of an address from the start of a range, along these bits.
\<close>

definition offset :: "u64 \<Rightarrow> u64 \<Rightarrow> nat" where
  "offset va x = unat (x - va) mod 2 ^ 48"

lemma offset_lt: "offset va x < 2 ^ 48"
  by (simp add: offset_def)

lemma offset_int: "int (offset va x) = (int (unat x) - int (unat va)) mod 2 ^ 48"
proof -
  have "int (unat (x - va)) = (int (unat x) - int (unat va)) mod 2 ^ 64"
    by (simp add: uint_word_ariths flip: uint_nat)
  then have "int (offset va x) = (int (unat x) - int (unat va)) mod 2 ^ 64 mod 2 ^ 48" by (simp add: offset_def zmod_int)
  then show ?thesis by (simp add: mod_mod_cancel)
qed

lemma offset_add:
  assumes "d \<le> 2 ^ 48"
  shows "offset (va + of_nat d) x = (if offset va x < d then offset va x + 2 ^ 48 - d else offset va x - d)"
proof -
  have "(int (unat x) - int (unat (va + of_nat d))) mod 2 ^ 48 = (int (unat x) - int (unat va) - int d) mod 2 ^ 48"
  proof -
    have "int (unat (va + of_nat d)) = (int (unat va) + int d) mod 2 ^ 64" by (simp add: unat_word_ariths unat_of_nat zmod_int mod_simps)
    then have "int (unat (va + of_nat d)) mod 2 ^ 48 = (int (unat va) + int d) mod 2 ^ 48" by (simp add: mod_mod_cancel)
    then show ?thesis by (metis (no_types, lifting) mod_diff_right_eq diff_diff_eq)
  qed
  then have "int (offset (va + of_nat d) x) = (int (offset va x) - int d) mod 2 ^ 48"
    unfolding offset_int by (simp add: mod_diff_left_eq)
  moreover have "(int (offset va x) - int d) mod 2 ^ 48 = (if offset va x < d then int (offset va x) - int d + 2 ^ 48 else int (offset va x) - int d)"
  proof (cases "offset va x < d")
    case True
    then have "(int (offset va x) - int d + 2 ^ 48) mod 2 ^ 48 = int (offset va x) - int d + 2 ^ 48" using assms by (intro mod_pos_pos_trivial) auto
    then show ?thesis using True by simp
  next
    case False
    then show ?thesis using offset_lt [of va x] by (subst mod_pos_pos_trivial) auto
  qed
  ultimately show ?thesis using assms by (auto split: if_splits)
qed

lemma offset_nat: "(unat va + offset va x) mod 2 ^ 48 = unat x mod 2 ^ 48"
proof -
  have "int ((unat va + offset va x) mod 2 ^ 48) = int (unat x mod 2 ^ 48)"
    unfolding zmod_int of_nat_add offset_int by (simp add: mod_simps)
  then show ?thesis by (simp only: of_nat_eq_iff)
qed

lemma block_offset:
  assumes "unat va mod 2 ^ k = 0" "k \<le> 48"
  shows "unat x div 2 ^ k mod 2 ^ (48 - k) = unat va div 2 ^ k mod 2 ^ (48 - k) \<longleftrightarrow> offset va x < 2 ^ k"
    "unat x mod 2 ^ k = offset va x mod 2 ^ k"
proof -
  let ?K = "2 ^ k :: nat" and ?M = "2 ^ (48 - k) :: nat" and ?o = "offset va x"
  have KM: "2 ^ 48 = ?K * ?M" using assms(2) by (simp flip: power_add)
  obtain q where q: "unat va = ?K * q" using assms(1) by (metis mod_0_imp_dvd dvdE)
  have o: "(?K * q + ?o) mod (?K * ?M) = unat x mod (?K * ?M)" using offset_nat [of va x] unfolding q KM .
  show "unat x mod ?K = ?o mod ?K"
    using arg_cong [OF o, of "\<lambda>n. n mod ?K"] by (simp add: mod_mult2_eq)
  have "unat x div ?K mod ?M = (q + ?o div ?K) mod ?M"
    using arg_cong [OF o, of "\<lambda>n. n div ?K"] by (simp add: mod_mult2_eq)
  moreover have "unat va div ?K mod ?M = q mod ?M" using q by simp
  moreover have "?o div ?K < ?M" using offset_lt [of va x] unfolding KM by (simp add: less_mult_imp_div_less mult.commute)
  then have "(q + ?o div ?K) mod ?M = q mod ?M \<longleftrightarrow> ?o div ?K = 0"
    by (metis (no_types, lifting) add.right_neutral add_diff_cancel_left' le_add1 mod_eq_dvd_iff_nat dvd_imp_le neq0_conv not_le)
  moreover have "?o div ?K = 0 \<longleftrightarrow> ?o < ?K" by (simp add: div_eq_0_iff)
  ultimately show "unat x div ?K mod ?M = unat va div ?K mod ?M \<longleftrightarrow> ?o < ?K" by simp
qed

lemma digits_eq:
  fixes b r s u v :: nat
  assumes "r < b" "s < b"
  shows "b * u + r = b * v + s \<longleftrightarrow> u = v \<and> r = s"
proof
  assume e: "b * u + r = b * v + s"
  have "(b * u + r) div b = u" "(b * v + s) div b = v" using assms by simp_all
  then show "u = v \<and> r = s" using e by simp
qed simp

lemma split_mod: "x div a mod (b * c) = y div a mod (b * c) \<longleftrightarrow> x div (a * b) mod c = y div (a * b) mod c \<and> x div a mod b = y div a mod b"
  for a b c x y :: nat
proof -
  have e: "x div a mod (b * c) = b * (x div (a * b) mod c) + x div a mod b" for x by (simp add: mod_mult2_eq div_mult2_eq)
  show ?thesis
  proof (cases "b = 0")
    case False
    then have "x div a mod b < b" "y div a mod b < b" by simp_all
    then have "b * u + x div a mod b = b * v + y div a mod b \<longleftrightarrow> u = v \<and> x div a mod b = y div a mod b" for u v by (rule digits_eq)
    then show ?thesis unfolding e [of x] e [of y] .
  qed simp
qed

lemma same_page:
  assumes "unat va mod 4096 = 0"
  shows "table_index 39 x = table_index 39 va \<and> table_index 30 x = table_index 30 va \<and> table_index 21 x = table_index 21 va \<and> table_index 12 x = table_index 12 va
    \<longleftrightarrow> offset va x < 4096"
  using block_offset(1) [of va 12 x] assms split_mod [of "unat x" 4096 512 "2 ^ 27" "unat va"] split_mod [of "unat x" "2 ^ 21" 512 "2 ^ 18" "unat va"]
    split_mod [of "unat x" "2 ^ 30" 512 512 "unat va"] unfolding table_index_unat by simp

lemma same_huge:
  assumes "unat va mod 2 ^ 21 = 0"
  shows "table_index 39 x = table_index 39 va \<and> table_index 30 x = table_index 30 va \<and> table_index 21 x = table_index 21 va \<longleftrightarrow> offset va x < 2 ^ 21"
  using block_offset(1) [of va 21 x] assms split_mod [of "unat x" "2 ^ 21" 512 "2 ^ 18" "unat va"]
    split_mod [of "unat x" "2 ^ 30" 512 512 "unat va"] unfolding table_index_unat by simp

lemma offset_word: "unat va mod 2 ^ k = 0 \<Longrightarrow> k \<le> 48 \<Longrightarrow> offset va x < 2 ^ k \<Longrightarrow> x AND mask k = of_nat (offset va x)"
  unfolding word_unat_eq_iff unat_and_mask using block_offset(2) [of va k x] offset_lt [of va x] by (simp add: unat_of_nat)

section \<open>Mapping a range\<close>

text \<open>
  The first \<open>d\<close> bytes from \<open>va\<close> on, none of them mapped before, are mapped to those from \<open>pa\<close> on, and every new large
  page lies inside these bytes.
\<close>

definition mapped_upto ::
  "('a \<Rightarrow> u64 set \<Rightarrow> bool) \<Rightarrow> u64 \<Rightarrow> u64 set \<Rightarrow> 'a ptstate \<Rightarrow> u64 \<Rightarrow> u64 \<Rightarrow> u64 \<Rightarrow> nat \<Rightarrow> u64 set \<Rightarrow> 'a ptstate \<Rightarrow> bool" where
  "mapped_upto live t A st va pa fl d A' st' \<longleftrightarrow> tab_step live 4 t A st A' st' \<and> A \<subseteq> A' \<and>
     (\<forall>x. translate (tables st') 4 t x = (if offset va x < d then Some (pa + of_nat (offset va x), fl) else translate (tables st) 4 t x)) \<and>
     (\<forall>x. offset va x < d \<longrightarrow> translate (tables st) 4 t x = None) \<and>
     (\<forall>x k e. leaf (tables st') 4 t x = Some (k, e) \<and> k \<noteq> 0 \<longrightarrow> leaf (tables st) 4 t x = Some (k, e) \<or>
        unat x mod 2 ^ 21 \<le> offset va x \<and> offset va x - unat x mod 2 ^ 21 + 2 ^ 21 \<le> d)"

lemma mapped_upto_refl: "tab_ok live 4 t A st \<Longrightarrow> mapped_upto live t A st va pa fl 0 A st"
  by (simp add: mapped_upto_def tab_step_refl)

lemma mapped_upto_trans:
  assumes m1: "mapped_upto live t A st va pa fl d A1 st1" and m2: "mapped_upto live t A1 st1 (va + of_nat d) (pa + of_nat d) fl d' A2 st2"
    and d: "d + d' \<le> 2 ^ 48"
  shows "mapped_upto live t A st va pa fl (d + d') A2 st2"
proof -
  have off: "offset (va + of_nat d) x < d' \<longleftrightarrow> d \<le> offset va x \<and> offset va x < d + d'" for x
    using offset_add [of d va x] d offset_lt [of va x] by auto
  have "translate (tables st2) 4 t x = (if offset va x < d + d' then Some (pa + of_nat (offset va x), fl) else translate (tables st) 4 t x)" for x
    using m1 m2 off [of x] offset_add [of d va x] d unfolding mapped_upto_def by (auto simp: add.assoc of_nat_diff simp flip: of_nat_add)
  moreover have "translate (tables st) 4 t x = None" if "offset va x < d + d'" for x
  proof (cases "offset va x < d")
    case True
    then show ?thesis using m1 unfolding mapped_upto_def by blast
  next
    case False
    then have "translate (tables st1) 4 t x = None" using m2 off [of x] that unfolding mapped_upto_def by auto
    then show ?thesis using m1 False unfolding mapped_upto_def by auto
  qed
  moreover have "leaf (tables st) 4 t x = Some (k, e) \<or> unat x mod 2 ^ 21 \<le> offset va x \<and> offset va x - unat x mod 2 ^ 21 + 2 ^ 21 \<le> d + d'"
    if x: "leaf (tables st2) 4 t x = Some (k, e)" "k \<noteq> 0" for x k e
  proof -
    let ?r = "unat x mod 2 ^ 21" and ?o = "offset (va + of_nat d) x"
    have "leaf (tables st1) 4 t x = Some (k, e) \<or> ?r \<le> ?o \<and> ?o - ?r + 2 ^ 21 \<le> d'" using m2 x unfolding mapped_upto_def by blast
    then show ?thesis
    proof
      assume "leaf (tables st1) 4 t x = Some (k, e)"
      then show ?thesis using m1 x(2) unfolding mapped_upto_def by (metis trans_le_add1)
    next
      assume a: "?r \<le> ?o \<and> ?o - ?r + 2 ^ 21 \<le> d'"
      have "?r < 2 ^ 21" by simp
      then have "?o < d'" using a by linarith
      then have "offset va x = d + ?o" using off [of x] offset_add [of d va x] d by auto
      then show ?thesis using a by linarith
    qed
  qed
  moreover have "tab_step live 4 t A st A2 st2" using tab_step_trans [of live 4 t A st A1 st1 A2 st2] m1 m2 unfolding mapped_upto_def by blast
  ultimately show ?thesis using m1 m2 unfolding mapped_upto_def by blast
qed

lemma mapped_chunk:
  assumes k: "k = 12 \<and> \<not> H \<or> k = 21" and va: "unat va mod 2 ^ k = 0"
    and r: "map_result live short 4 t va j A st (\<lambda>x. offset va x < 2 ^ k) (\<lambda>x. Some (pa + (x AND mask k), fl)) H r"
  shows "\<exists>b st' A'. r = Some (b, st') \<and> (if b then mapped_upto live t A st va pa fl (2 ^ k) A' st' else mapped_upto live t A st va pa fl 0 A' st') \<and>
    (if b then \<forall>n. short (page_alloc st') n \<longrightarrow> short (page_alloc st) (n + j) else H \<or> translate (tables st) 4 t va \<noteq> None \<or> short (page_alloc st) j)"
proof -
  obtain b st' A' where r: "r = Some (b, st')" "tab_step live 4 t A st A' st'" "A \<subseteq> A'"
      "if b then updated 4 t (tables st) (tables st') (\<lambda>x. offset va x < 2 ^ k) (\<lambda>x. Some (pa + (x AND mask k), fl)) H \<and>
        (\<forall>x. offset va x < 2 ^ k \<longrightarrow> translate (tables st) 4 t x = None) else same_view 4 t (tables st) (tables st')"
      "if b then \<forall>n. short (page_alloc st') n \<longrightarrow> short (page_alloc st) (n + j) else H \<or> translate (tables st) 4 t va \<noteq> None \<or> short (page_alloc st) j"
    using r unfolding map_result_def by blast
  have w: "x AND mask k = of_nat (offset va x)" if "offset va x < 2 ^ k" for x using offset_word [OF va _ that] k by auto
  have m: "unat x mod 2 ^ 21 = offset va x" if "k = 21" "offset va x < 2 ^ k" for x using block_offset(2) [of va 21 x] va that by simp
  show ?thesis
  proof (intro exI conjI)
    show "r = Some (b, st')" by (rule r(1))
    show "if b then mapped_upto live t A st va pa fl (2 ^ k) A' st' else mapped_upto live t A st va pa fl 0 A' st'"
      using r(2-4) w m k unfolding mapped_upto_def updated_def by (cases b) (fastforce split: if_splits)+
  qed (use r(5) in blast)
qed

lemma offset_of_nat: "d < 2 ^ 48 \<Longrightarrow> offset va (va + of_nat d) = d"
  by (simp add: offset_def unat_of_nat)

text \<open>A range is mapped by small pages only when it is shorter than a large one or its two starts do not agree modulo its size.\<close>

definition small_pages :: "u64 \<Rightarrow> u64 \<Rightarrow> u64 \<Rightarrow> bool" where
  "small_pages va pa len \<longleftrightarrow> unat len < 2 ^ 21 \<or> unat va mod 2 ^ 21 \<noteq> unat pa mod 2 ^ 21"

lemma mod_shift: "(a + c) mod n = (b + c) mod n \<Longrightarrow> a mod n = b mod n" for a b c n :: nat
proof -
  assume "(a + c) mod n = (b + c) mod n"
  then have "(int a + int c) mod int n = (int b + int c) mod int n" by (simp flip: of_nat_add zmod_int)
  then have "((int a + int c) mod int n - int c) mod int n = ((int b + int c) mod int n - int c) mod int n" by simp
  then have "int a mod int n = int b mod int n" by (simp add: mod_diff_left_eq)
  then show ?thesis by (simp flip: zmod_int)
qed

lemma small_pages_step:
  assumes "small_pages va pa len" "unat len' \<le> unat len" "unat (pa + 0x1000) = unat pa + 4096"
  shows "small_pages (va + 0x1000) (pa + 0x1000) len'"
proof (cases "unat len < 2 ^ 21")
  case False
  then have ne: "unat va mod 2 ^ 21 \<noteq> unat pa mod 2 ^ 21" using assms(1) by (simp add: small_pages_def)
  have "unat (va + 0x1000) mod 2 ^ 21 = (unat va + 4096) mod 2 ^ 21" by (simp add: unat_word_ariths mod_mod_cancel)
  then show ?thesis using ne mod_shift [of "unat va" 4096 "2 ^ 21" "unat pa"] assms(3) unfolding small_pages_def by metis
qed (use assms(2) in \<open>simp add: small_pages_def\<close>)

context table_pages
begin

lemma map_loop_ok:
  assumes "tab_ok live 4 t A st" "map_flags fl" "unat va mod 4096 = 0" "unat pa mod 4096 = 0" "unat len mod 4096 = 0"
    "unat pa + unat len \<le> 2 ^ 52" "unat len \<le> 2 ^ 48"
  shows "\<exists>b d st' A'. map_loop alloc st t va pa len fl = Some (b, va + of_nat d, pa + of_nat d, st') \<and> mapped_upto live t A st va pa fl d A' st' \<and>
    4096 dvd d \<and> (if b then d = unat len else d < unat len) \<and>
    (\<not> b \<and> small_pages va pa len \<longrightarrow> translate (tables st) 4 t (va + of_nat d) \<noteq> None \<or> short (page_alloc st) (3 * (unat len div 4096)))"
  using assms
proof (induction "unat len" arbitrary: va pa len st A rule: less_induct)
  case less
  show ?case
  proof (cases "len = 0")
    case True
    then show ?thesis using mapped_upto_refl [OF less.prems(1)]
      by (intro exI [of _ True] exI [of _ 0] exI [of _ st] exI [of _ A]) (simp add: map_loop.simps)
  next
    case False
    then have l0: "4096 \<le> unat len" using less.prems(5) by (metis dvd_imp_le mod_0_imp_dvd unat_gt_0 word_neq_0_conv)
    define huge where "huge \<longleftrightarrow> len \<ge> HUGE_PAGE_SIZE \<and> va AND (HUGE_PAGE_SIZE - 1) = 0 \<and> pa AND (HUGE_PAGE_SIZE - 1) = 0"
    define k where "k = (if huge then 21 else 12 :: nat)"
    let ?step = "if huge then map_2m alloc st t va pa fl else map_4k alloc st t va pa fl"
    have m21: "HUGE_PAGE_SIZE - 1 = mask 21" by (simp add: mask_eq_exp_minus_1)
    have k: "k = 12 \<and> \<not> huge \<or> k = 21 \<and> huge" "2 ^ k \<le> unat len" "unat va mod 2 ^ k = 0" "unat pa mod 2 ^ k = 0" "(2 :: nat) ^ k mod 4096 = 0"
      using l0 less.prems(3,4) unfolding k_def huge_def m21 word_unat_eq_iff unat_and_mask by (auto simp: word_le_nat_alt)
    have pa: "page_addr pa" using less.prems(4,6) l0 unfolding page_addr_iff by simp
    have "map_result live short 4 t va (if huge then 2 else 3) A st (\<lambda>x. offset va x < 2 ^ k) (\<lambda>x. Some (pa + (x AND mask k), fl)) huge ?step"
    proof (cases huge)
      case True
      then show ?thesis using map_2m_ok [OF less.prems(1,2) pa, of va] same_huge [of va] k unfolding k_def
        by (simp add: word_unat_eq_iff unat_and_mask)
    next
      case False
      then show ?thesis using map_4k_ok [OF less.prems(1,2) pa, of va] same_page [OF less.prems(3)] unfolding k_def by simp
    qed
    then obtain b st1 A1 where s: "?step = Some (b, st1)" "if b then mapped_upto live t A st va pa fl (2 ^ k) A1 st1 else mapped_upto live t A st va pa fl 0 A1 st1"
        "if b then \<forall>n. short (page_alloc st1) n \<longrightarrow> short (page_alloc st) (n + (if huge then 2 else 3))
         else huge \<or> translate (tables st) 4 t va \<noteq> None \<or> short (page_alloc st) (if huge then 2 else 3)"
      using mapped_chunk [where H = huge, OF _ k(3)] k(1) by blast
    have sm: "\<not> huge" if "small_pages va pa len"
      using that unfolding huge_def m21 word_unat_eq_iff unat_and_mask by (auto simp: small_pages_def word_le_nat_alt)
    have l3: "3 \<le> 3 * (unat len div 4096)" using l0 by (simp add: div_greater_zero_iff)
    have wk: "(of_nat (2 ^ k) :: u64) = (if huge then HUGE_PAGE_SIZE else 0x1000)" by (simp add: k_def)
    have rec: "map_loop alloc st t va pa len fl = (if b then map_loop alloc st1 t (va + of_nat (2 ^ k)) (pa + of_nat (2 ^ k)) (len - of_nat (2 ^ k)) fl
        else Some (False, va, pa, st1))"
      using s(1) False unfolding wk by (subst map_loop.simps) (auto simp: word_gt_0 huge_def split: if_splits)
    show ?thesis
    proof (cases b)
      case False
      then have "small_pages va pa len \<longrightarrow> translate (tables st) 4 t va \<noteq> None \<or> short (page_alloc st) (3 * (unat len div 4096))"
        using s(3) sm short_mono [OF _ l3] by auto
      then show ?thesis using False rec s(2) l0 by (intro exI [of _ False] exI [of _ 0] exI [of _ st1] exI [of _ A1]) simp
    next
      case True
      have u: "unat (of_nat (2 ^ k) :: u64) = 2 ^ k" unfolding k_def by simp
      have ul: "unat (len - of_nat (2 ^ k)) = unat len - 2 ^ k" using k(2) u by (subst unat_sub_no_wrap) simp_all
      have uv: "unat (va + of_nat (2 ^ k)) mod 4096 = 0"
        using less.prems(3) k(5) u by (simp add: unat_word_ariths mod_mod_cancel) (metis add.right_neutral add_0 mod_add_eq mod_0)
      have up: "unat (pa + of_nat (2 ^ k)) = unat pa + 2 ^ k" using less.prems(6) k(2) u by (subst unat_add_no_wrap) simp_all
      have m1: "mapped_upto live t A st va pa fl (2 ^ k) A1 st1" using s(2) True by simp
      then have ok1: "tab_ok live 4 t A1 st1" using tab_step_ok unfolding mapped_upto_def by blast
      have lt: "unat (len - of_nat (2 ^ k)) < unat len" using ul k(2) l0 by simp
      have pm: "unat (pa + of_nat (2 ^ k)) mod 4096 = 0" unfolding up using less.prems(4) k(5) by (metis add.right_neutral mod_add_eq mod_0)
      have lm: "unat (len - of_nat (2 ^ k)) mod 4096 = 0" unfolding ul using less.prems(5) k(2,5) by (metis dvd_diff_nat mod_0_imp_dvd dvd_imp_mod_0)
      have b: "unat (pa + of_nat (2 ^ k)) + unat (len - of_nat (2 ^ k)) \<le> 2 ^ 52" "unat (len - of_nat (2 ^ k)) \<le> 2 ^ 48"
        unfolding up ul using less.prems(6,7) k(2) by linarith+
      obtain b' d st2 A2 where r: "map_loop alloc st1 t (va + of_nat (2 ^ k)) (pa + of_nat (2 ^ k)) (len - of_nat (2 ^ k)) fl =
            Some (b', va + of_nat (2 ^ k) + of_nat d, pa + of_nat (2 ^ k) + of_nat d, st2)"
          "mapped_upto live t A1 st1 (va + of_nat (2 ^ k)) (pa + of_nat (2 ^ k)) fl d A2 st2" "4096 dvd d" "if b' then d = unat len - 2 ^ k else d < unat len - 2 ^ k"
          "\<not> b' \<and> small_pages (va + of_nat (2 ^ k)) (pa + of_nat (2 ^ k)) (len - of_nat (2 ^ k)) \<longrightarrow>
            translate (tables st1) 4 t (va + of_nat (2 ^ k) + of_nat d) \<noteq> None \<or> short (page_alloc st1) (3 * ((unat len - 2 ^ k) div 4096))"
        using less.hyps [OF lt ok1 less.prems(2) uv pm lm b] unfolding ul by blast
      have dl: "2 ^ k + d \<le> 2 ^ 48" using r(4) k(2) less.prems(7) by (cases b') auto
      have "map_loop alloc st t va pa len fl = Some (b', va + of_nat (2 ^ k + d), pa + of_nat (2 ^ k + d), st2)"
        using rec True r(1) by (simp add: add.assoc)
      moreover have "mapped_upto live t A st va pa fl (2 ^ k + d) A2 st2" by (rule mapped_upto_trans [OF m1 r(2) dl])
      moreover have "4096 dvd 2 ^ k + d" using r(3) k(5) by (simp add: mod_eq_0_iff_dvd)
      moreover have "translate (tables st) 4 t (va + of_nat (2 ^ k + d)) \<noteq> None \<or> short (page_alloc st) (3 * (unat len div 4096))"
        if f: "\<not> b'" "small_pages va pa len"
      proof -
        have kh: "k = 12" "\<not> huge" using sm [OF f(2)] by (simp_all add: k_def)
        have "small_pages (va + of_nat (2 ^ k)) (pa + of_nat (2 ^ k)) (len - of_nat (2 ^ k))"
          using small_pages_step [OF f(2), of "len - 0x1000"] up ul kh(1) by simp
        then have "translate (tables st1) 4 t (va + of_nat (2 ^ k) + of_nat d) \<noteq> None \<or> short (page_alloc st1) (3 * ((unat len - 2 ^ k) div 4096))"
          using r(5) f(1) by blast
        then show ?thesis
        proof
          assume tr: "translate (tables st1) 4 t (va + of_nat (2 ^ k) + of_nat d) \<noteq> None"
          have "2 ^ k + d < 2 ^ 48" using r(4) f(1) k(2) less.prems(7) by simp
          then have "offset va (va + of_nat (2 ^ k + d)) = 2 ^ k + d" by (rule offset_of_nat)
          then show ?thesis using tr m1 unfolding mapped_upto_def by (simp add: add.assoc)
        next
          assume sh: "short (page_alloc st1) (3 * ((unat len - 2 ^ k) div 4096))"
          have "3 * ((unat len - 2 ^ k) div 4096) + 3 = 3 * (unat len div 4096)" using l0 kh(1) le_div_geq [of 4096 "unat len"] by simp
          then show ?thesis using s(3) True sh kh(2) by (metis (full_types))
        qed
      qed
      ultimately show ?thesis using r(4) k(2) by (intro exI [of _ b'] exI [of _ "2 ^ k + d"] exI [of _ st2] exI [of _ A2]) auto
    qed
  qed
qed

end

section \<open>Giving tables back\<close>

text \<open>
  The result of releasing the tables below \<open>p\<close>: the page of \<open>p\<close> was given back, or the tables that are left map
  nothing; pages outside them are untouched and those of them still in use are metadata pages.
\<close>

definition freed :: "('a \<Rightarrow> u64 set \<Rightarrow> bool) \<Rightarrow> u64 set \<Rightarrow> nat \<Rightarrow> u64 \<Rightarrow> u64 set \<Rightarrow> 'a ptstate \<Rightarrow> (bool \<times> 'a ptstate) option \<Rightarrow> bool" where
  "freed live meta n p A st r \<longleftrightarrow> (\<exists>b st' A'. r = Some (b, st') \<and> live (page_alloc st') A' \<and> g_direct_ready st' \<and> tlb st' = tlb st \<and>
     A' \<subseteq> A \<and> A - foot (tables st) n p \<subseteq> A' \<and> (\<forall>q \<in> A - foot (tables st) n p. tables st' q = tables st q) \<and> foot (tables st) n p \<inter> A' \<subseteq> meta \<and>
     (\<not> b \<longrightarrow> wf_tab (tables st') n p \<and> foot (tables st') n p \<subseteq> foot (tables st) n p \<inter> A' \<and> (\<forall>va. leaf (tables st') n p va = None)))"

text \<open>The result of clearing one entry of a table.\<close>

definition cleared :: "('a \<Rightarrow> u64 set \<Rightarrow> bool) \<Rightarrow> u64 set \<Rightarrow> nat \<Rightarrow> u64 \<Rightarrow> nat \<Rightarrow> u64 set \<Rightarrow> 'a ptstate \<Rightarrow> u64 set \<Rightarrow> 'a ptstate \<Rightarrow> bool" where
  "cleared live meta n t i A st A' st' \<longleftrightarrow> tab_step live (Suc n) t A st A' st' \<and> A' \<subseteq> A \<and>
     (\<forall>va. leaf (tables st') (Suc n) t va = (if table_index (12 + 9 * n) va = i then None else leaf (tables st) (Suc n) t va)) \<and>
     child_foot (tables st) n (tables st t i) \<inter> A' \<subseteq> meta \<and> A - child_foot (tables st) n (tables st t i) \<subseteq> A' \<and>
     (\<forall>q \<in> A - insert t (child_foot (tables st) n (tables st t i)). tables st' q = tables st q) \<and>
     (\<forall>j. j \<noteq> i \<longrightarrow> tables st' t j = tables st t j)"

context table_pages
begin

lemma unmap_entry_ok:
  assumes ok: "tab_ok live (Suc n) t A st" and i: "i < 512" and n: "0 < n"
    and f: "\<And>c A st. tab_ok live n c A st \<Longrightarrow> freed live meta n c A st (f st c)"
  shows "\<exists>st' A'. unmap_entry f t i st = Some st' \<and> cleared live meta n t i A st A' st'"
proof -
  let ?m = "tables st" and ?e = "tables st t i"
  have w: "wf_tab ?m (Suc n) t" "foot ?m (Suc n) t \<subseteq> A" and live: "live (page_alloc st) A" and rdy: "g_direct_ready st"
    using ok by (auto simp: tab_ok_def)
  consider "\<not> bit ?e 0" | "bit ?e 0" "bit ?e 7" | "bit ?e 0" "\<not> bit ?e 7" by blast
  then show ?thesis
  proof cases
    case 1
    then have "leaf ?m (Suc n) t va = (if table_index (12 + 9 * n) va = i then None else leaf ?m (Suc n) t va)" for va
      using leaf_absent [of ?m t n va] by auto
    moreover have "child_foot ?m n ?e = {}" using 1 by (simp add: child_foot_def is_table_def)
    moreover note tab_step_refl [OF ok]
    ultimately have "cleared live meta n t i A st A st" unfolding cleared_def by simp
    then show ?thesis using 1 by (auto simp: unmap_entry_def)
  next
    case 2
    have C: "child_foot ?m n ?e = {}" using 2 by (simp add: child_foot_def is_table_def)
    have c: "\<forall>p \<in> A - child_foot ?m n ?e. ?m p = ?m p" "A - child_foot ?m n ?e \<subseteq> A" "entry_ok n 0"
      "is_table n 0 \<Longrightarrow> wf_tab ?m n (entry_addr 0)" "child_foot ?m n 0 \<subseteq> A - A"
      by (auto simp: child_foot_def is_table_def entry_ok_def)
    define m' where m'_def: "m' = ?m(t := (?m t)(i := 0))"
    note ev = evolves_entry(1) [OF w i c m'_def] and lf = evolves_entry(2) [OF w i c m'_def]
    have m': "tables (write_entry st t i 0) = m'" by (simp add: write_entry_def m'_def)
    have "tab_step live (Suc n) t A st A (write_entry st t i 0)"
      using ev live rdy m' by (simp add: tab_step_def) (simp add: write_entry_def)
    then have "cleared live meta n t i A st A (write_entry st t i 0)"
      unfolding cleared_def m' C using lf by (simp add: m'_def)
    then show ?thesis using 2 by (auto simp: unmap_entry_def)
  next
    case 3
      have it: "is_table n ?e" using 3 n by (simp add: is_table_def)
      let ?c = "entry_addr ?e"
      have C: "child_foot ?m n ?e = foot ?m n ?c" using it by (simp add: child_foot_def)
      obtain b st1 A1 where r: "f st ?c = Some (b, st1)" "live (page_alloc st1) A1" "g_direct_ready st1" "tlb st1 = tlb st" "A1 \<subseteq> A" "A - foot ?m n ?c \<subseteq> A1"
          "\<forall>q \<in> A - foot ?m n ?c. tables st1 q = ?m q" "foot ?m n ?c \<inter> A1 \<subseteq> meta"
          "\<not> b \<longrightarrow> wf_tab (tables st1) n ?c \<and> foot (tables st1) n ?c \<subseteq> foot ?m n ?c \<inter> A1 \<and> (\<forall>va. leaf (tables st1) n ?c va = None)"
        using f [OF tab_ok_child [OF ok i it]] unfolding freed_def by blast
      have tA: "t \<in> A - foot ?m n ?c" using wf_child(2) [OF w(1) i it] w(2) foot_self [of "Suc n" t ?m] by auto
      show ?thesis
      proof (cases b)
        case True
        have c: "\<forall>p \<in> A - child_foot ?m n ?e. tables st1 p = ?m p" "A - child_foot ?m n ?e \<subseteq> A1" "entry_ok n 0"
          "is_table n 0 \<Longrightarrow> wf_tab (tables st1) n (entry_addr 0)" "child_foot (tables st1) n 0 \<subseteq> A1 - A"
          using r(6,7) C by (auto simp: child_foot_def is_table_def entry_ok_def)
        define m' where m'_def: "m' = (tables st1)(t := (tables st1 t)(i := 0))"
        note ev = evolves_entry(1) [OF w i c m'_def] and lf = evolves_entry(2) [OF w i c m'_def]
        have m': "tables (write_entry st1 t i 0) = m'" by (simp add: write_entry_def m'_def)
        have t1: "tables st1 t = ?m t" using r(7) tA by blast
        have "tab_step live (Suc n) t A st A1 (write_entry st1 t i 0)"
          using ev r(2-4) m' by (simp add: tab_step_def) (simp add: write_entry_def)
        then have "cleared live meta n t i A st A1 (write_entry st1 t i 0)"
          unfolding cleared_def m' C using lf r(5-8) t1 by (simp add: m'_def)
        then show ?thesis using 3 r(1) True by (auto simp: unmap_entry_def entry_addr_def)
      next
        case False
        have "evolves n ?c ?m A (tables st1) A1" using r False unfolding evolves_def by blast
        then have s: "tab_step live n ?c A st A1 st1" using r(2-4) by (simp add: tab_step_def)
        note ch = tab_step_child [OF ok i it s]
        have "cleared live meta n t i A st A1 st1"
          unfolding cleared_def C using ch r(5-9) False by auto
        then show ?thesis using 3 r(1) False by (auto simp: unmap_entry_def entry_addr_def)
      qed
  qed
qed

lemma unmap_table_ok:
  assumes ok: "tab_ok live (Suc n) t A st" and n: "0 < n"
    and f: "\<And>c A st. tab_ok live n c A st \<Longrightarrow> freed live meta n c A st (f st c)"
  shows "\<exists>st' A'. unmap_table f st t = Some st' \<and> tab_step live (Suc n) t A st A' st' \<and> A' \<subseteq> A \<and>
    (\<forall>va. leaf (tables st') (Suc n) t va = None) \<and> foot (tables st) (Suc n) t \<inter> A' \<subseteq> insert t meta"
proof -
  let ?m = "tables st"
  have w: "wf_tab ?m (Suc n) t" using ok by (simp add: tab_ok_def)
  define I where "I j s \<longleftrightarrow> (\<exists>B. tab_step live (Suc n) t A st B s \<and> B \<subseteq> A \<and> (\<forall>va. table_index (12 + 9 * n) va < j \<longrightarrow> leaf (tables s) (Suc n) t va = None) \<and>
      (\<forall>k. j \<le> k \<and> k < 512 \<longrightarrow> tables s t k = ?m t k \<and> (\<forall>q \<in> child_foot ?m n (?m t k). tables s q = ?m q)) \<and> (\<forall>k<j. child_foot ?m n (?m t k) \<inter> B \<subseteq> meta))" for j s
  have "\<exists>s. for_up 0 512 (unmap_entry f t) st = Some s \<and> I 512 s"
  proof (rule for_up_rule)
    show "I 0 st" unfolding I_def using tab_step_refl [OF ok] by auto
  next
    fix j s assume j: "j < (512 :: nat)" and I: "I j s"
    obtain B where B: "tab_step live (Suc n) t A st B s" "B \<subseteq> A" "\<forall>va. table_index (12 + 9 * n) va < j \<longrightarrow> leaf (tables s) (Suc n) t va = None"
        and rest: "\<And>k. j \<le> k \<Longrightarrow> k < 512 \<Longrightarrow> tables s t k = ?m t k \<and> (\<forall>q \<in> child_foot ?m n (?m t k). tables s q = ?m q)"
        and dn: "\<forall>k<j. child_foot ?m n (?m t k) \<inter> B \<subseteq> meta"
      using I unfolding I_def by blast
    have oks: "tab_ok live (Suc n) t B s" using tab_step_ok [OF B(1)] .
    then have ws: "wf_tab (tables s) (Suc n) t" "foot (tables s) (Suc n) t \<subseteq> B" by (auto simp: tab_ok_def)
    have cf: "child_foot (tables s) n (tables s t k) = child_foot ?m n (?m t k)" if "j \<le> k" "k < 512" for k
      using rest [OF that] foot_cong [of ?m n "entry_addr (?m t k)" "tables s"] by (auto simp: child_foot_def)
    obtain s' B' where s': "unmap_entry f t j s = Some s'" and c: "cleared live meta n t j B s B' s'"
      using unmap_entry_ok [OF oks j n f] by blast
    have t2: "tab_step live (Suc n) t A st B' s'" using tab_step_trans [OF B(1)] c unfolding cleared_def by blast
    have later: "tables s' t k = ?m t k \<and> (\<forall>q \<in> child_foot ?m n (?m t k). tables s' q = ?m q)" if "Suc j \<le> k" "k < 512" for k
    proof -
      have k: "j \<le> k" "k \<noteq> j" using that by auto
      have "q \<in> B - insert t (child_foot (tables s) n (tables s t j))" if q: "q \<in> child_foot ?m n (?m t k)" for q
      proof -
        have "q \<in> child_foot (tables s) n (tables s t k)" using q cf [OF k(1) \<open>k < 512\<close>] by simp
        then have it: "is_table n (tables s t k)" "q \<in> foot (tables s) n (entry_addr (tables s t k))" by (auto simp: child_foot_def split: if_splits)
        then show ?thesis using wf_child(2) [OF ws(1) \<open>k < 512\<close> it(1)] wf_children [OF ws(1) \<open>k < 512\<close> it(1) j _ k(2)] ws(2) foot_child [of k n "tables s" t] \<open>k < 512\<close>
          by (auto simp: child_foot_def)
      qed
      then show ?thesis using c rest [OF k(1) that(2)] k(2) unfolding cleared_def by simp
    qed
    have "leaf (tables s') (Suc n) t va = None" if "table_index (12 + 9 * n) va < Suc j" for va
      using c B(3) that unfolding cleared_def by (cases "table_index (12 + 9 * n) va = j") auto
    moreover have "child_foot ?m n (?m t k) \<inter> B' \<subseteq> meta" if "k < Suc j" for k
    proof (cases "k = j")
      case True
      then show ?thesis using c cf [of j] j unfolding cleared_def by simp
    next
      case False
      then have "child_foot ?m n (?m t k) \<inter> B \<subseteq> meta" using dn that by simp
      then show ?thesis using c unfolding cleared_def by blast
    qed
    moreover have "B' \<subseteq> A" using c B(2) unfolding cleared_def by blast
    ultimately have "I (Suc j) s'" unfolding I_def using t2 later by blast
    then show "\<exists>s'. unmap_entry f t j s = Some s' \<and> I (Suc j) s'" using s' by blast
  qed simp
  then obtain s B where s: "for_up 0 512 (unmap_entry f t) st = Some s" "tab_step live (Suc n) t A st B s" "B \<subseteq> A"
      "\<forall>va. table_index (12 + 9 * n) va < 512 \<longrightarrow> leaf (tables s) (Suc n) t va = None" "\<forall>k<512. child_foot ?m n (?m t k) \<inter> B \<subseteq> meta"
    unfolding I_def by blast
  have "foot ?m (Suc n) t \<inter> B \<subseteq> insert t meta" using s(5) by (auto simp: foot.simps child_foot_def split: if_splits)
  then show ?thesis using s table_index_lt unfolding unmap_table_def by blast
qed

lemma deallocate_pt_ok: "tab_ok live (Suc 0) p A st \<Longrightarrow> freed live meta (Suc 0) p A st (deallocate_pt dealloc st p)"
proof -
  assume ok: "tab_ok live (Suc 0) p A st"
  have f: "foot (tables st) (Suc 0) p = {p}" by (auto simp: foot.simps is_table_def)
  have pA: "p \<in> A" "live (page_alloc st) A" "g_direct_ready st" using ok f by (auto simp: tab_ok_def)
  obtain a where a: "dealloc (page_alloc st) p = Some (p \<notin> meta, a)" "live a (if p \<in> meta then A else A - {p})" using dealloc_law [OF pA(2,1)] by blast
  show ?thesis
  proof (cases "p \<in> meta")
    case True
    let ?st = "write_table (st\<lparr>page_alloc := a\<rparr>) p (\<lambda>_. 0)"
    have z: "tables ?st p = (\<lambda>_. 0)" by (simp add: write_table_def)
    have "deallocate_pt dealloc st p = Some (False, ?st)" using a True pA(3) by (simp add: deallocate_pt_def phys_to_virt_table_def)
    then show ?thesis unfolding freed_def f using a True pA wf_zero [of "tables ?st" p "Suc 0"] leaf_zero [of "tables ?st" p] z
      by (intro exI [of _ False] exI [of _ ?st] exI [of _ A]) (simp add: write_table_def)
  next
    case False
    then have "deallocate_pt dealloc st p = Some (True, st\<lparr>page_alloc := a\<rparr>)" using a by (simp add: deallocate_pt_def)
    then show ?thesis unfolding freed_def f using a False pA by (intro exI [of _ True] exI [of _ "st\<lparr>page_alloc := a\<rparr>"] exI [of _ "A - {p}"]) auto
  qed
qed

lemma deallocate_level:
  assumes ok: "tab_ok live (Suc n) p A st" and n: "0 < n"
    and f: "\<And>c A st. tab_ok live n c A st \<Longrightarrow> freed live meta n c A st (f st c)"
  shows "freed live meta (Suc n) p A st (do { t \<leftarrow> phys_to_virt_table st p; st \<leftarrow> unmap_table f st t; deallocate_table dealloc st p })"
proof -
  obtain st1 A1 where u: "unmap_table f st p = Some st1" "tab_step live (Suc n) p A st A1 st1" "A1 \<subseteq> A"
      "\<forall>va. leaf (tables st1) (Suc n) p va = None" "foot (tables st) (Suc n) p \<inter> A1 \<subseteq> insert p meta"
    using unmap_table_ok [OF ok n f] by blast
  have ok1: "tab_ok live (Suc n) p A1 st1" using tab_step_ok [OF u(2)] .
  have pA: "p \<in> A1" "live (page_alloc st1) A1" "g_direct_ready st1" using ok1 foot_self [of "Suc n" p "tables st1"] by (auto simp: tab_ok_def)
  have e: "evolves (Suc n) p (tables st) A (tables st1) A1" "tlb st1 = tlb st" using u(2) by (auto simp: tab_step_def)
  have pf: "p \<in> foot (tables st) (Suc n) p" by (rule foot_self) simp
  obtain a where a: "dealloc (page_alloc st1) p = Some (p \<notin> meta, a)" "live a (if p \<in> meta then A1 else A1 - {p})" using dealloc_law [OF pA(2,1)] by blast
  have run: "(do { t \<leftarrow> phys_to_virt_table st p; st \<leftarrow> unmap_table f st t; deallocate_table dealloc st p }) = Some (p \<notin> meta, st1\<lparr>page_alloc := a\<rparr>)"
    using tab_ok_ready [OF ok] u(1) a(1) by (simp add: deallocate_table_def)
  show ?thesis
  proof (cases "p \<in> meta")
    case True
    then show ?thesis unfolding freed_def run using a(2) u(3-5) e pA unfolding evolves_def
      by (intro exI [of _ False] exI [of _ "st1\<lparr>page_alloc := a\<rparr>"] exI [of _ A1]) auto
  next
    case False
    then show ?thesis unfolding freed_def run using a(2) u(3,5) e pA pf unfolding evolves_def
      by (intro exI [of _ True] exI [of _ "st1\<lparr>page_alloc := a\<rparr>"] exI [of _ "A1 - {p}"]) auto
  qed
qed

lemma deallocate_pdt_ok: "tab_ok live (Suc (Suc 0)) p A st \<Longrightarrow> freed live meta (Suc (Suc 0)) p A st (deallocate_pdt dealloc st p)"
  using deallocate_level [of "Suc 0" p A st "deallocate_pt dealloc"] deallocate_pt_ok unfolding deallocate_pdt_def by simp

lemma deallocate_pdpt_ok: "tab_ok live (Suc (Suc (Suc 0))) p A st \<Longrightarrow> freed live meta (Suc (Suc (Suc 0))) p A st (deallocate_pdpt dealloc st p)"
  using deallocate_level [of "Suc (Suc 0)" p A st "deallocate_pdt dealloc"] deallocate_pdt_ok unfolding deallocate_pdpt_def by simp

end

section \<open>Unmapping a range\<close>

definition agree :: "nat \<Rightarrow> nat \<Rightarrow> u64 \<Rightarrow> u64 \<Rightarrow> bool" where
  "agree k n va x \<longleftrightarrow> (\<forall>j. k \<le> j \<and> j < n \<longrightarrow> table_index (12 + 9 * j) x = table_index (12 + 9 * j) va)"

definition next_block :: "nat \<Rightarrow> u64 \<Rightarrow> u64" where
  "next_block k va = (va + 2 ^ k) AND NOT (2 ^ k - 1)"

lemma agree_Suc: "k \<le> n \<Longrightarrow> agree k (Suc n) va x \<longleftrightarrow> agree k n va x \<and> table_index (12 + 9 * n) x = table_index (12 + 9 * n) va"
  by (auto simp: agree_def less_Suc_eq)

lemma agree_top: "agree n (Suc n) va x \<longleftrightarrow> table_index (12 + 9 * n) x = table_index (12 + 9 * n) va"
  by (auto simp: agree_def less_Suc_eq)

text \<open>
  One step: blocks that end inside the range and the page at \<open>va\<close> lose their translations; the block of some level that
  holds \<open>va\<close> has none afterwards and the next address is behind it, or no page was left to split a large one.
\<close>

definition unmap_step ::
  "('a \<Rightarrow> u64 set \<Rightarrow> bool) \<Rightarrow> ('a \<Rightarrow> nat \<Rightarrow> bool) \<Rightarrow> nat \<Rightarrow> u64 \<Rightarrow> u64 set \<Rightarrow> 'a ptstate \<Rightarrow> u64 \<Rightarrow> u64 \<Rightarrow> (u64 \<times> 'a ptstate) option \<Rightarrow> bool" where
  "unmap_step live short n t A st va end r \<longleftrightarrow> (\<exists>va' st' A' S. r = Some (va', st') \<and> tab_step live n t A st A' st' \<and>
     updated n t (tables st) (tables st') S (\<lambda>_. None) False \<and>
     (\<forall>x. S x \<longrightarrow> (\<exists>k<n. (k = 0 \<or> va + 2 ^ (12 + 9 * k) \<le> end) \<and> agree k n va x)) \<and>
     (\<forall>k x. 0 < k \<and> k < n \<and> va + 2 ^ (12 + 9 * k) \<le> end \<and> agree k n va x \<longrightarrow> translate (tables st') n t x = None) \<and>
     (va' = va \<and> \<not> va + 2 ^ 21 \<le> end \<and> short (page_alloc st') 1 \<and> (\<exists>k e. leaf (tables st') n t va = Some (k, e) \<and> k \<noteq> 0) \<and> (\<forall>x. S x \<longrightarrow> (\<exists>k>0. k < n \<and> va + 2 ^ (12 + 9 * k) \<le> end)) \<or>
      (\<exists>k<n. va' = next_block (12 + 9 * k) va \<and> (\<forall>x. agree k n va x \<longrightarrow> translate (tables st') n t x = None))))"

lemma unmap_stepI:
  assumes "r = Some (va', st')" "tab_step live n t A st A' st'" "updated n t (tables st) (tables st') S (\<lambda>_. None) False"
    "\<And>x. S x \<Longrightarrow> \<exists>k<n. (k = 0 \<or> va + 2 ^ (12 + 9 * k) \<le> end) \<and> agree k n va x"
    "\<And>k x. 0 < k \<Longrightarrow> k < n \<Longrightarrow> va + 2 ^ (12 + 9 * k) \<le> end \<Longrightarrow> agree k n va x \<Longrightarrow> translate (tables st') n t x = None"
    "va' = va \<and> \<not> va + 2 ^ 21 \<le> end \<and> short (page_alloc st') 1 \<and> (\<exists>k e. leaf (tables st') n t va = Some (k, e) \<and> k \<noteq> 0) \<and> (\<forall>x. S x \<longrightarrow> (\<exists>k>0. k < n \<and> va + 2 ^ (12 + 9 * k) \<le> end)) \<or>
      (\<exists>k<n. va' = next_block (12 + 9 * k) va \<and> (\<forall>x. agree k n va x \<longrightarrow> translate (tables st') n t x = None))"
  shows "unmap_step live short n t A st va end r"
  unfolding unmap_step_def using assms by (intro exI [of _ va'] exI [of _ st'] exI [of _ A'] exI [of _ S]) blast

lemma updated_none_trans:
  assumes "updated n t m m1 S (\<lambda>_. None) False" "updated n t m1 m2 S' (\<lambda>_. None) False"
  shows "updated n t m m2 (\<lambda>x. S x \<or> S' x) (\<lambda>_. None) False"
  using assms unfolding updated_def by auto

lemma unmap_core:
  assumes s1: "tab_step live (Suc n) t A st A1 st1" and u1: "updated (Suc n) t (tables st) (tables st1) S0 (\<lambda>_. None) False"
    and S0: "\<And>x. S0 x \<Longrightarrow> va + 2 ^ (12 + 9 * n) \<le> end \<and> table_index (12 + 9 * n) x = table_index (12 + 9 * n) va"
    and Z: "\<And>x. va + 2 ^ (12 + 9 * n) \<le> end \<Longrightarrow> table_index (12 + 9 * n) x = table_index (12 + 9 * n) va \<Longrightarrow> translate (tables st1) (Suc n) t x = None"
    and i: "i = table_index (12 + 9 * n) va" and it: "is_table n (tables st1 t i)"
    and sub: "unmap_step live short n (entry_addr (tables st1 t i)) A1 st1 va end r"
  shows "unmap_step live short (Suc n) t A st va end r"
proof -
  let ?c = "entry_addr (tables st1 t i)"
  have ok1: "tab_ok live (Suc n) t A1 st1" using tab_step_ok [OF s1] .
  have i5: "i < 512" using i table_index_lt by simp
  obtain va' st' A' S where r: "r = Some (va', st')" "tab_step live n ?c A1 st1 A' st'" "updated n ?c (tables st1) (tables st') S (\<lambda>_. None) False"
      "\<forall>x. S x \<longrightarrow> (\<exists>k<n. (k = 0 \<or> va + 2 ^ (12 + 9 * k) \<le> end) \<and> agree k n va x)"
      "\<forall>k x. 0 < k \<and> k < n \<and> va + 2 ^ (12 + 9 * k) \<le> end \<and> agree k n va x \<longrightarrow> translate (tables st') n ?c x = None"
      "va' = va \<and> \<not> va + 2 ^ 21 \<le> end \<and> short (page_alloc st') 1 \<and> (\<exists>k e. leaf (tables st') n ?c va = Some (k, e) \<and> k \<noteq> 0) \<and> (\<forall>x. S x \<longrightarrow> (\<exists>k>0. k < n \<and> va + 2 ^ (12 + 9 * k) \<le> end)) \<or>
       (\<exists>k<n. va' = next_block (12 + 9 * k) va \<and> (\<forall>x. agree k n va x \<longrightarrow> translate (tables st') n ?c x = None))"
    using sub unfolding unmap_step_def by blast
  note up = updated_child [OF ok1 i5 it r(2,3)] and ch = tab_step_child [OF ok1 i5 it r(2)]
  have tc: "translate (tables st') (Suc n) t x = translate (tables st') n ?c x" if "table_index (12 + 9 * n) x = i" for x
    using ch(3) [of x] that by (simp add: translate_def)
  show ?thesis
  proof (rule unmap_stepI [OF r(1) tab_step_trans [OF s1 ch(1)] updated_none_trans [OF u1 up]])
    fix x assume "S0 x \<or> table_index (12 + 9 * n) x = i \<and> S x"
    then show "\<exists>k<Suc n. (k = 0 \<or> va + 2 ^ (12 + 9 * k) \<le> end) \<and> agree k (Suc n) va x"
    proof
      assume "S0 x"
      then show ?thesis using S0 [of x] by (intro exI [of _ n]) (simp add: agree_top)
    next
      assume x: "table_index (12 + 9 * n) x = i \<and> S x"
      then obtain k where "k < n" "k = 0 \<or> va + 2 ^ (12 + 9 * k) \<le> end" "agree k n va x" using r(4) by blast
      then show ?thesis using x i by (intro exI [of _ k]) (simp add: agree_Suc)
    qed
  next
    fix k x assume k: "0 < k" "k < Suc n" "va + 2 ^ (12 + 9 * k) \<le> end" "agree k (Suc n) va x"
    show "translate (tables st') (Suc n) t x = None"
    proof (cases "k = n")
      case True
      then have "translate (tables st1) (Suc n) t x = None" using Z k(3,4) by (simp add: agree_top)
      then show ?thesis using up by (simp add: updated_def)
    next
      case False
      then have "k < n" "agree k n va x" "table_index (12 + 9 * n) x = i" using k i by (simp_all add: agree_Suc)
      then show ?thesis using r(5) k(1,3) tc by metis
    qed
  next
    show "va' = va \<and> \<not> va + 2 ^ 21 \<le> end \<and> short (page_alloc st') 1 \<and> (\<exists>k e. leaf (tables st') (Suc n) t va = Some (k, e) \<and> k \<noteq> 0) \<and> (\<forall>x. S0 x \<or> table_index (12 + 9 * n) x = i \<and> S x \<longrightarrow> (\<exists>k>0. k < Suc n \<and> va + 2 ^ (12 + 9 * k) \<le> end)) \<or>
      (\<exists>k<Suc n. va' = next_block (12 + 9 * k) va \<and> (\<forall>x. agree k (Suc n) va x \<longrightarrow> translate (tables st') (Suc n) t x = None))"
      using r(6)
    proof
      assume e: "va' = va \<and> \<not> va + 2 ^ 21 \<le> end \<and> short (page_alloc st') 1 \<and> (\<exists>k e. leaf (tables st') n ?c va = Some (k, e) \<and> k \<noteq> 0) \<and> (\<forall>x. S x \<longrightarrow> (\<exists>k>0. k < n \<and> va + 2 ^ (12 + 9 * k) \<le> end))"
      then have "\<exists>k e. leaf (tables st') (Suc n) t va = Some (k, e) \<and> k \<noteq> 0" using ch(3) [of va] i by simp
      moreover have "\<exists>k>0. k < Suc n \<and> va + 2 ^ (12 + 9 * k) \<le> end" if "S0 x \<or> table_index (12 + 9 * n) x = i \<and> S x" for x
      proof (cases "S0 x")
        case True
        have "n \<noteq> 0" using it by (simp add: is_table_def)
        then show ?thesis using S0 [OF True] by auto
      next
        case False
        then show ?thesis using e that less_Suc_eq by metis
      qed
      ultimately show ?thesis using e by blast
    next
      assume "\<exists>k<n. va' = next_block (12 + 9 * k) va \<and> (\<forall>x. agree k n va x \<longrightarrow> translate (tables st') n ?c x = None)"
      then obtain k where "k < n" "va' = next_block (12 + 9 * k) va" "\<forall>x. agree k n va x \<longrightarrow> translate (tables st') n ?c x = None" by blast
      then show ?thesis using tc i by (intro disjI2 exI [of _ k]) (simp add: agree_Suc)
    qed
  qed
qed

lemma unmap_absent:
  assumes s1: "tab_step live (Suc n) t A st A1 st1" and u1: "updated (Suc n) t (tables st) (tables st1) S0 (\<lambda>_. None) False"
    and S0: "\<And>x. S0 x \<Longrightarrow> va + 2 ^ (12 + 9 * n) \<le> end \<and> table_index (12 + 9 * n) x = table_index (12 + 9 * n) va"
    and ab: "\<not> bit (tables st1 t (table_index (12 + 9 * n) va)) 0"
  shows "unmap_step live short (Suc n) t A st va end (Some (next_block (12 + 9 * n) va, st1))"
proof (rule unmap_stepI [OF refl s1 u1])
  show "\<exists>k<Suc n. (k = 0 \<or> va + 2 ^ (12 + 9 * k) \<le> end) \<and> agree k (Suc n) va x" if "S0 x" for x
    using S0 [OF that] by (intro exI [of _ n]) (simp add: agree_top)
  have none: "translate (tables st1) (Suc n) t x = None" if "agree k (Suc n) va x" "k < Suc n" for k x
    using leaf_absent [of "tables st1" t n x] ab that by (simp add: translate_def agree_def)
  then show "translate (tables st1) (Suc n) t x = None" if "0 < k" "k < Suc n" "va + 2 ^ (12 + 9 * k) \<le> end" "agree k (Suc n) va x" for k x
    using that by blast
  show "next_block (12 + 9 * n) va = va \<and> \<not> va + 2 ^ 21 \<le> end \<and> short (page_alloc st1) 1 \<and> (\<exists>k e. leaf (tables st1) (Suc n) t va = Some (k, e) \<and> k \<noteq> 0)
        \<and> (\<forall>x. S0 x \<longrightarrow> (\<exists>k>0. k < Suc n \<and> va + 2 ^ (12 + 9 * k) \<le> end)) \<or>
      (\<exists>k<Suc n. next_block (12 + 9 * n) va = next_block (12 + 9 * k) va \<and> (\<forall>x. agree k (Suc n) va x \<longrightarrow> translate (tables st1) (Suc n) t x = None))"
    using none [of n] by blast
qed

lemma release_entry_eq:
  "\<not> bit (tables st t i) 7 \<Longrightarrow> release_entry f st t i va bits end = (if va + bits \<le> end then unmap_entry f t i st else Some st)"
  by (simp add: release_entry_def unmap_entry_def Let_def)

context table_pages
begin

lemma clear_in_range:
  assumes ok: "tab_ok live (Suc n) t A st" and n: "0 < n" and i: "i = table_index (12 + 9 * n) va"
    and f: "\<And>c A st. tab_ok live n c A st \<Longrightarrow> freed live meta n c A st (f st c)"
  obtains st1 A1 S0 where "(if va + 2 ^ (12 + 9 * n) \<le> end then unmap_entry f t i st else Some st) = Some st1"
    "tab_step live (Suc n) t A st A1 st1" "updated (Suc n) t (tables st) (tables st1) S0 (\<lambda>_. None) False"
    "\<And>x. S0 x \<Longrightarrow> va + 2 ^ (12 + 9 * n) \<le> end \<and> table_index (12 + 9 * n) x = table_index (12 + 9 * n) va"
    "bit (tables st1 t i) 0 \<Longrightarrow> bit (tables st1 t i) 7 \<Longrightarrow> \<not> va + 2 ^ (12 + 9 * n) \<le> end \<and> st1 = st"
    "\<And>x. va + 2 ^ (12 + 9 * n) \<le> end \<Longrightarrow> table_index (12 + 9 * n) x = table_index (12 + 9 * n) va \<Longrightarrow> translate (tables st1) (Suc n) t x = None"
proof (cases "va + 2 ^ (12 + 9 * n) \<le> end")
  case True
  have i5: "i < 512" using i table_index_lt by simp
  obtain st1 A1 where c: "unmap_entry f t i st = Some st1" "cleared live meta n t i A st A1 st1" using unmap_entry_ok [OF ok i5 n f] by blast
  have lf: "leaf (tables st1) (Suc n) t x = (if table_index (12 + 9 * n) x = i then None else leaf (tables st) (Suc n) t x)" for x
    using c(2) unfolding cleared_def by blast
  have "updated (Suc n) t (tables st) (tables st1) (\<lambda>x. table_index (12 + 9 * n) x = i) (\<lambda>_. None) False"
    by (simp add: updated_def translate_def lf)
  moreover have "leaf (tables st1) (Suc n) t va = None" using lf [of va] i by simp
  then have "\<not> (bit (tables st1 t i) 0 \<and> bit (tables st1 t i) 7)" using i by (auto simp: leaf.simps Let_def split: if_splits)
  moreover have "tab_step live (Suc n) t A st A1 st1" using c(2) unfolding cleared_def by blast
  moreover have "translate (tables st1) (Suc n) t x = None" if "table_index (12 + 9 * n) x = table_index (12 + 9 * n) va" for x
    using lf [of x] that i by (simp add: translate_def)
  moreover have "(if va + 2 ^ (12 + 9 * n) \<le> end then unmap_entry f t i st else Some st) = Some st1" using c(1) True by simp
  ultimately show ?thesis using that [of st1 A1 "\<lambda>x. table_index (12 + 9 * n) x = i"] True i by blast
next
  case False
  then show ?thesis using that [of st A "\<lambda>_. False"] tab_step_refl [OF ok] updated_refl by auto
qed

lemma unmap_level:
  assumes ok: "tab_ok live (Suc n) t A st" and n: "1 < n" and i: "i = table_index (12 + 9 * n) va" and b: "bits = 2 ^ (12 + 9 * n)"
    and f: "\<And>c A st. tab_ok live n c A st \<Longrightarrow> freed live meta n c A st (f st c)"
    and sub: "\<And>c A st. tab_ok live n c A st \<Longrightarrow> unmap_step live short n c A st va end (F c st)"
  shows "unmap_step live short (Suc n) t A st va end (do {
     kassert (tables st t i AND PTE_FLAG_HUGE = 0);
     st \<leftarrow> release_entry f st t i va bits end;
     if tables st t i AND PTE_FLAG_PRESENT = 0 then Some ((va + bits) AND NOT (bits - 1), st)
     else do { p \<leftarrow> phys_to_virt_table st (tables st t i AND PTE_MASK_ADDR); F p st } })"
proof -
  have i5: "i < 512" and n0: "0 < n" using i table_index_lt n by simp_all
  have h: "\<not> bit (tables st t i) 7" using ok wf_entry_ok [of "tables st" n t i] i5 n by (auto simp: tab_ok_def entry_ok_def)
  obtain st1 A1 S0 where s: "(if va + 2 ^ (12 + 9 * n) \<le> end then unmap_entry f t i st else Some st) = Some st1"
    "tab_step live (Suc n) t A st A1 st1" "updated (Suc n) t (tables st) (tables st1) S0 (\<lambda>_. None) False"
    "\<And>x. S0 x \<Longrightarrow> va + 2 ^ (12 + 9 * n) \<le> end \<and> table_index (12 + 9 * n) x = table_index (12 + 9 * n) va"
    "bit (tables st1 t i) 0 \<Longrightarrow> bit (tables st1 t i) 7 \<Longrightarrow> \<not> va + 2 ^ (12 + 9 * n) \<le> end \<and> st1 = st"
    "\<And>x. va + 2 ^ (12 + 9 * n) \<le> end \<Longrightarrow> table_index (12 + 9 * n) x = table_index (12 + 9 * n) va \<Longrightarrow> translate (tables st1) (Suc n) t x = None"
    using clear_in_range [OF ok n0 i f] by blast
  have rel: "release_entry f st t i va bits end = Some st1" using release_entry_eq [OF h, of f va bits "end"] s(1) b by simp
  note ok1 = tab_step_ok [OF s(2)]
  show ?thesis
  proof (cases "bit (tables st1 t i) 0")
    case False
    then show ?thesis using unmap_absent [OF s(2-4)] i h rel b by (simp add: next_block_def)
  next
    case True
    then have it: "is_table n (tables st1 t i)" using s(5) h n0 by (auto simp: is_table_def)
    have "unmap_step live short (Suc n) t A st va end (F (entry_addr (tables st1 t i)) st1)"
      by (rule unmap_core [OF s(2-4) _ i it sub [OF tab_ok_child [OF ok1 i5 it]]]) (assumption, rule s(6))
    then show ?thesis using True h rel tab_ok_ready [OF ok1] by (simp add: entry_addr_def)
  qed
qed

lemma unmap_pte:
  assumes ok: "tab_ok live (Suc 0) t A st" and va: "unat va mod 4096 = 0"
  shows "unmap_step live short (Suc 0) t A st va end (Some (va + 2 ^ 12, write_entry st t (table_index 12 va) 0))"
proof -
  let ?m = "tables st" and ?i = "table_index 12 va"
  have w: "wf_tab ?m (Suc 0) t" "foot ?m (Suc 0) t \<subseteq> A" using ok by (auto simp: tab_ok_def)
  have c: "\<forall>p \<in> A - child_foot ?m 0 (?m t ?i). ?m p = ?m p" "A - child_foot ?m 0 (?m t ?i) \<subseteq> A" "entry_ok 0 0"
    "is_table 0 0 \<Longrightarrow> wf_tab ?m 0 (entry_addr 0)" "child_foot ?m 0 0 \<subseteq> A - A"
    by (auto simp: child_foot_def is_table_def entry_ok_def)
  define m' where m'_def: "m' = ?m(t := (?m t)(?i := 0))"
  note ev = evolves_entry(1) [OF w table_index_lt c m'_def] and lf = evolves_entry(2) [OF w table_index_lt c m'_def]
  have m': "tables (write_entry st t ?i 0) = m'" by (simp add: write_entry_def m'_def)
  have s: "tab_step live (Suc 0) t A st A (write_entry st t ?i 0)"
    using ev ok m' by (simp add: tab_step_def tab_ok_def) (simp add: write_entry_def)
  have "updated (Suc 0) t ?m m' (\<lambda>x. table_index 12 x = ?i) (\<lambda>_. None) False" using lf by (simp add: updated_def translate_def)
  moreover have "va + 2 ^ 12 = next_block 12 va"
  proof -
    have "unat (va + 2 ^ 12) mod 2 ^ 12 = 0" using va by (simp add: unat_word_ariths mod_mod_cancel)
    then have "take_bit 12 (va + 2 ^ 12) = 0" by (simp only: word_unat_eq_iff unat_take_bit unsigned_0)
    then have "\<not> (bit (va + 2 ^ 12) n \<and> n < 12)" for n by (metis bit_take_bit_iff bit_0_eq bot_apply bot_bool_def)
    then have "(va + 2 ^ 12) AND NOT (mask 12) = va + 2 ^ 12"
      by (intro bit_word_eqI) (auto simp only: bit_and_iff bit_not_iff bit_mask_iff possible_bit_word)
    then show ?thesis by (simp add: next_block_def mask_eq_exp_minus_1)
  qed
  moreover have "translate m' (Suc 0) t x = None" if "agree 0 (Suc 0) va x" for x
    using lf [of x] that by (simp add: translate_def agree_def)
  ultimately show ?thesis using s m'
    by (intro unmap_stepI [where va' = "va + 2 ^ 12" and st' = "write_entry st t ?i 0" and A' = A and S = "\<lambda>x. table_index 12 x = ?i"]) (simp_all add: agree_def)
qed

lemma unmap_pd:
  assumes ok: "tab_ok live (Suc (Suc 0)) t A st" and i: "i = table_index 21 va"
    and sub: "\<And>c A st. tab_ok live (Suc 0) c A st \<Longrightarrow> unmap_step live short (Suc 0) c A st va end (F c st)"
  shows "unmap_step live short (Suc (Suc 0)) t A st va end (do {
     st \<leftarrow> (if va + 2 ^ 21 \<le> end then unmap_entry (deallocate_pt dealloc) t i st else Some st);
     if tables st t i AND PTE_FLAG_PRESENT = 0 then Some ((va + 2 ^ 21) AND NOT (2 ^ 21 - 1), st)
     else do {
       (ok, st) \<leftarrow> (if tables st t i AND PTE_FLAG_HUGE \<noteq> 0 then expand_hugepage alloc st t i else Some (True, st));
       if \<not> ok then Some (va, st)
       else do { pt \<leftarrow> phys_to_virt_table st (tables st t i AND PTE_MASK_ADDR); F pt st } } })"
proof -
  let ?n = "Suc 0"
  have i': "i = table_index (12 + 9 * ?n) va" using i by simp
  have i5: "i < 512" using i table_index_lt by simp
  obtain st1 A1 S0 where s: "(if va + 2 ^ (12 + 9 * ?n) \<le> end then unmap_entry (deallocate_pt dealloc) t i st else Some st) = Some st1"
    "tab_step live (Suc ?n) t A st A1 st1" "updated (Suc ?n) t (tables st) (tables st1) S0 (\<lambda>_. None) False"
    "\<And>x. S0 x \<Longrightarrow> va + 2 ^ (12 + 9 * ?n) \<le> end \<and> table_index (12 + 9 * ?n) x = table_index (12 + 9 * ?n) va"
    "bit (tables st1 t i) 0 \<Longrightarrow> bit (tables st1 t i) 7 \<Longrightarrow> \<not> va + 2 ^ (12 + 9 * ?n) \<le> end \<and> st1 = st"
    "\<And>x. va + 2 ^ (12 + 9 * ?n) \<le> end \<Longrightarrow> table_index (12 + 9 * ?n) x = table_index (12 + 9 * ?n) va \<Longrightarrow> translate (tables st1) (Suc ?n) t x = None"
    using clear_in_range [OF ok zero_less_Suc i' deallocate_pt_ok] by blast
  have s1: "(if va + 2 ^ 21 \<le> end then unmap_entry (deallocate_pt dealloc) t i st else Some st) = Some st1" using s(1) by simp
  note ok1 = tab_step_ok [OF s(2)]
  consider "\<not> bit (tables st1 t i) 0" | "bit (tables st1 t i) 0" "\<not> bit (tables st1 t i) 7" | "bit (tables st1 t i) 0" "bit (tables st1 t i) 7" by blast
  then show ?thesis
  proof cases
    case 1
    then show ?thesis using unmap_absent [OF s(2-4)] i s1 by (simp add: next_block_def)
  next
    case 2
    then have it: "is_table ?n (tables st1 t i)" by (simp add: is_table_def)
    have "unmap_step live short (Suc ?n) t A st va end (F (entry_addr (tables st1 t i)) st1)"
      by (rule unmap_core [OF s(2-4) _ i' it sub [OF tab_ok_child [OF ok1 i5 it]]]) (assumption, rule s(6))
    then show ?thesis using 2 s1 tab_ok_ready [OF ok1] by (simp add: entry_addr_def)
  next
    case 3
    then have e: "st1 = st" "\<not> va + 2 ^ 21 \<le> end" using s(5) by auto
    obtain b st2 A2 where x: "expand_hugepage alloc st t i = Some (b, st2)" "tab_step live (Suc ?n) t A st A2 st2" "same_view (Suc ?n) t (tables st) (tables st2)"
        "if b then is_table ?n (tables st2 t i) else tables st2 = tables st \<and> short (page_alloc st2) 1"
      using expand_hugepage_ok [OF ok i5 _ 3 [unfolded e(1)]] by (auto split: if_splits)
    note ok2 = tab_step_ok [OF x(2)]
    show ?thesis
    proof (cases b)
      case True
      then have it: "is_table ?n (tables st2 t i)" using x(4) by simp
      have "unmap_step live short (Suc ?n) t A st va end (F (entry_addr (tables st2 t i)) st2)"
        by (rule unmap_core [OF x(2,3) _ _ i' it sub [OF tab_ok_child [OF ok2 i5 it]]]) (use e(2) in simp_all)
      then show ?thesis using 3 s1 e x(1) True tab_ok_ready [OF ok2] by (simp add: entry_addr_def)
    next
      case False
      have "leaf (tables st2) (Suc ?n) t va = Some (?n, tables st t i)" using 3 e(1) i x(4) False by (simp add: leaf.simps)
      then have "unmap_step live short (Suc ?n) t A st va end (Some (va, st2))"
        using e(2) x(4) False by (intro unmap_stepI [OF refl x(2,3)]) (auto simp: less_Suc_eq)
      then show ?thesis using 3 s1 e(1) x(1) False by simp
    qed
  qed
qed

lemma unmap_next_ok:
  assumes ok: "tab_ok live 4 t A st" and va: "unat va mod 4096 = 0"
  shows "unmap_step live short 4 t A st va end (unmap_next alloc dealloc st t va end)"
proof -
  let ?F1 = "\<lambda>pt st. Some (va + 2 ^ 12, write_entry st pt (table_index 12 va) 0)"
  let ?F2 = "\<lambda>pd st. do {
     st \<leftarrow> (if va + 2 ^ 21 \<le> end then unmap_entry (deallocate_pt dealloc) pd (table_index 21 va) st else Some st);
     if tables st pd (table_index 21 va) AND PTE_FLAG_PRESENT = 0 then Some ((va + 2 ^ 21) AND NOT (2 ^ 21 - 1), st)
     else do {
       (ok, st) \<leftarrow> (if tables st pd (table_index 21 va) AND PTE_FLAG_HUGE \<noteq> 0 then expand_hugepage alloc st pd (table_index 21 va) else Some (True, st));
       if \<not> ok then Some (va, st)
       else do { pt \<leftarrow> phys_to_virt_table st (tables st pd (table_index 21 va) AND PTE_MASK_ADDR); ?F1 pt st } } }"
  let ?F3 = "\<lambda>t st. do {
     kassert (tables st t (table_index 30 va) AND PTE_FLAG_HUGE = 0);
     st \<leftarrow> release_entry (deallocate_pdt dealloc) st t (table_index 30 va) va (2 ^ 30) end;
     if tables st t (table_index 30 va) AND PTE_FLAG_PRESENT = 0 then Some ((va + 2 ^ 30) AND NOT (2 ^ 30 - 1), st)
     else do { p \<leftarrow> phys_to_virt_table st (tables st t (table_index 30 va) AND PTE_MASK_ADDR); ?F2 p st } }"
  have 2: "unmap_step live short (Suc (Suc 0)) c A st va end (?F2 c st)" if "tab_ok live (Suc (Suc 0)) c A st" for c A st
    using unmap_pd [where F = ?F1, OF that refl] unmap_pte [OF _ va] by simp
  have 3: "unmap_step live short (Suc (Suc (Suc 0))) c A st va end (?F3 c st)" if "tab_ok live (Suc (Suc (Suc 0))) c A st" for c A st
    by (rule unmap_level [where F = ?F2, OF that _ _ _ deallocate_pdt_ok 2]) simp_all
  have n4: "4 = Suc (Suc (Suc (Suc 0)))" by simp
  show ?thesis unfolding unmap_next_def Let_def n4
    by (rule unmap_level [where F = ?F3, OF ok [unfolded n4] _ _ _ deallocate_pdpt_ok 3]) simp_all
qed

end

text \<open>The addresses of a block, and the address behind it.\<close>

lemma below4:
  "(\<forall>j. 0 \<le> j \<and> j < 4 \<longrightarrow> P j) \<longleftrightarrow> P 0 \<and> P 1 \<and> P 2 \<and> P 3" "(\<forall>j < 4. P j) \<longleftrightarrow> P 0 \<and> P 1 \<and> P 2 \<and> P 3"
  "(\<forall>j. 1 \<le> j \<and> j < 4 \<longrightarrow> P j) \<longleftrightarrow> P 1 \<and> P 2 \<and> P 3" "(\<forall>j. Suc 0 \<le> j \<and> j < 4 \<longrightarrow> P j) \<longleftrightarrow> P 1 \<and> P 2 \<and> P 3"
  "(\<forall>j. 2 \<le> j \<and> j < 4 \<longrightarrow> P j) \<longleftrightarrow> P 2 \<and> P 3"
  "(\<forall>j. 3 \<le> j \<and> j < 4 \<longrightarrow> P j) \<longleftrightarrow> P 3" for P :: "nat \<Rightarrow> bool"
proof -
  have c: "j = 0 \<or> j = 1 \<or> j = 2 \<or> j = 3" if "j < 4" for j :: nat using that by linarith
  show "(\<forall>j. 0 \<le> j \<and> j < 4 \<longrightarrow> P j) \<longleftrightarrow> P 0 \<and> P 1 \<and> P 2 \<and> P 3" "(\<forall>j < 4. P j) \<longleftrightarrow> P 0 \<and> P 1 \<and> P 2 \<and> P 3"
    "(\<forall>j. 1 \<le> j \<and> j < 4 \<longrightarrow> P j) \<longleftrightarrow> P 1 \<and> P 2 \<and> P 3" "(\<forall>j. Suc 0 \<le> j \<and> j < 4 \<longrightarrow> P j) \<longleftrightarrow> P 1 \<and> P 2 \<and> P 3"
    "(\<forall>j. 2 \<le> j \<and> j < 4 \<longrightarrow> P j) \<longleftrightarrow> P 2 \<and> P 3"
    "(\<forall>j. 3 \<le> j \<and> j < 4 \<longrightarrow> P j) \<longleftrightarrow> P 3" by (auto dest!: c)
qed

lemma agree_offset:
  assumes "k < 4" "unat b = unat va - unat va mod 2 ^ (12 + 9 * k)"
  shows "agree k 4 va x \<longleftrightarrow> offset b x < 2 ^ (12 + 9 * k)"
proof -
  have b: "unat b mod 2 ^ (12 + 9 * k) = 0" "unat b div 2 ^ (12 + 9 * k) = unat va div 2 ^ (12 + 9 * k)"
    unfolding assms(2) by (simp_all add: minus_mod_eq_mult_div)
  have "agree k 4 va x \<longleftrightarrow> unat x div 2 ^ (12 + 9 * k) mod 2 ^ (48 - (12 + 9 * k)) = unat va div 2 ^ (12 + 9 * k) mod 2 ^ (48 - (12 + 9 * k))"
  proof -
    consider "k = 0" | "k = 1" | "k = 2" | "k = 3" using assms(1) by linarith
    then show ?thesis
      using split_mod [of "unat x" 4096 512 "2 ^ 27" "unat va"] split_mod [of "unat x" "2 ^ 21" 512 "2 ^ 18" "unat va"]
        split_mod [of "unat x" "2 ^ 30" 512 512 "unat va"]
      by cases (simp_all add: agree_def below4 table_index_unat conj_commute)
  qed
  then show ?thesis using block_offset(1) [OF b(1), of x] b(2) assms(1) by simp
qed

lemma unat_pow2: "k < 64 \<Longrightarrow> unat (2 ^ k :: u64) = 2 ^ k"
proof -
  assume k: "k < 64"
  have "unat (of_nat (2 ^ k) :: u64) = 2 ^ k mod 2 ^ 64" by (simp only: unat_of_nat) simp
  moreover have "(2 :: nat) ^ k < 2 ^ 64" using k by (intro power_strict_increasing) simp_all
  ultimately show ?thesis by simp
qed

lemma next_block_unat:
  assumes "unat va + 2 ^ k < 2 ^ 64" "k < 64"
  shows "unat (next_block k va) = unat va - unat va mod 2 ^ k + 2 ^ k"
proof -
  note u = unat_pow2 [OF assms(2)]
  have w: "unat (va + 2 ^ k) = unat va + 2 ^ k" using assms(1) u by (simp add: unat_add_no_wrap)
  have "next_block k va = (va + 2 ^ k) - ((va + 2 ^ k) AND mask k)"
    unfolding next_block_def mask_eq_exp_minus_1 [symmetric]
    by (subst disjunctive_diff_eq_and_not) (auto intro!: bit_word_eqI simp: bit_simps)
  moreover have "unat ((va + 2 ^ k) AND mask k) = unat va mod 2 ^ k" unfolding unat_and_mask w by simp
  ultimately have "unat (next_block k va) = unat va + 2 ^ k - unat va mod 2 ^ k" using w
    by (simp add: unat_sub_no_wrap trans_le_add1)
  then show ?thesis by (simp add: mod_less_eq_dividend)
qed

lemma block_base:
  fixes va :: u64
  obtains b where "unat b = unat va - unat va mod 2 ^ k" "va = b + of_nat (unat va mod 2 ^ k)"
proof
  show "unat (va - of_nat (unat va mod 2 ^ k)) = unat va - unat va mod 2 ^ k"
  proof -
    have "unat va mod 2 ^ k < 2 ^ 64" using unat_u64_lt [of va] mod_less_eq_dividend [of "unat va" "2 ^ k"] by linarith
    then have "unat (of_nat (unat va mod 2 ^ k) :: u64) = unat va mod 2 ^ k" by (simp add: unat_of_nat)
    then show ?thesis by (subst unat_sub_no_wrap) simp_all
  qed
qed simp

text \<open>The start of the range is a multiple of every block size up to the length of the range.\<close>

definition range_aligned :: "nat \<Rightarrow> nat \<Rightarrow> bool" where
  "range_aligned lo len \<longleftrightarrow> (\<forall>k<4. k = 0 \<or> 2 ^ (12 + 9 * k) \<le> len \<longrightarrow> lo mod 2 ^ (12 + 9 * k) = 0)"

lemma step_in_range:
  assumes k: "k < 4" "k = 0 \<or> unat va + 2 ^ (12 + 9 * k) \<le> E" and x: "agree k 4 va x"
    and r: "unat lo \<le> unat va" "unat va < E" "E - unat lo \<le> 2 ^ 48" "range_aligned (unat lo) (E - unat lo)" "unat va mod 4096 = 0" "E mod 4096 = 0"
  shows "offset lo x < E - unat lo"
proof -
  let ?K = "12 + 9 * k"
  obtain b where b: "unat b = unat va - unat va mod 2 ^ ?K" "va = b + of_nat (unat va mod 2 ^ ?K)" using block_base [of va ?K] .
  have E: "unat va + 2 ^ ?K \<le> E"
  proof (cases "k = 0")
    case True
    obtain q q' where "unat va = 4096 * q" "E = 4096 * q'" using r(5,6) by (metis mod_0_imp_dvd dvdE)
    then show ?thesis using r(2) True by simp
  qed (use k in simp)
  then have "2 ^ ?K \<le> E - unat lo" using r(1) by linarith
  then have lo: "unat lo mod 2 ^ ?K = 0" using r(4) k(1) by (simp add: range_aligned_def)
  have "unat lo \<le> unat b"
  proof -
    have "unat lo = unat lo div 2 ^ ?K * 2 ^ ?K" using lo by (metis div_mult_mod_eq add.right_neutral)
    also have "\<dots> \<le> unat va div 2 ^ ?K * 2 ^ ?K" using r(1) by (intro mult_le_mono1 div_le_mono)
    finally show ?thesis unfolding b(1) by (simp add: minus_mod_eq_div_mult)
  qed
  define d where "d = unat b - unat lo"
  have bd: "b = lo + of_nat d" using \<open>unat lo \<le> unat b\<close> by (simp add: d_def of_nat_diff)
  have d: "d + 2 ^ ?K \<le> E - unat lo" using E b(1) \<open>unat lo \<le> unat b\<close> unfolding d_def by linarith
  have "offset b x < 2 ^ ?K" using agree_offset [OF k(1) b(1)] x by simp
  moreover have "offset b x = (if offset lo x < d then offset lo x + 2 ^ 48 - d else offset lo x - d)" unfolding bd using d r(3) by (intro offset_add) simp
  ultimately show ?thesis using d r(3) by (auto split: if_splits)
qed

lemma block_covers:
  assumes k: "k < 4" and x: "offset va x < unat va - unat va mod 2 ^ (12 + 9 * k) + 2 ^ (12 + 9 * k) - unat va"
  shows "agree k 4 va x"
proof -
  let ?K = "12 + 9 * k"
  let ?d = "unat va mod 2 ^ ?K"
  obtain b where b: "unat b = unat va - ?d" "va = b + of_nat ?d" using block_base [of va ?K] .
  have d: "?d < 2 ^ ?K" "?d \<le> unat va" by simp_all
  have d39: "(2 :: nat) ^ ?K \<le> 2 ^ 39" using k by (intro power_increasing) simp_all
  have "?d < 2 ^ 39" by (rule less_le_trans [OF d(1) d39])
  then have "?d \<le> 2 ^ 48" by simp
  then have "offset va x = (if offset b x < ?d then offset b x + 2 ^ 48 - ?d else offset b x - ?d)"
    using offset_add [of ?d b x] unfolding b(2) [symmetric] by blast
  moreover have "offset va x < 2 ^ ?K - ?d" using x d by simp
  ultimately have "offset b x < 2 ^ ?K" using d d39 by (auto split: if_splits)
  then show ?thesis using agree_offset [OF k b(1)] by simp
qed

text \<open>
  The loop, from \<open>va\<close> on, when everything between the start \<open>lo\<close> of the range and \<open>va\<close> is unmapped. It stops early only at
  a large page that reaches beyond the range, when no page is left to split it.
\<close>

definition unmap_loop_post ::
  "('a \<Rightarrow> u64 set \<Rightarrow> bool) \<Rightarrow> ('a \<Rightarrow> nat \<Rightarrow> bool) \<Rightarrow> u64 \<Rightarrow> u64 set \<Rightarrow> 'a ptstate \<Rightarrow> u64 \<Rightarrow> u64 \<Rightarrow> u64 \<Rightarrow> bool \<Rightarrow> u64 \<Rightarrow> 'a ptstate \<Rightarrow> bool" where
  "unmap_loop_post live short t A st lo va end invlpg va' st' \<longleftrightarrow> (\<exists>A' S L.
     evolves 4 t (tables st) A (tables st') A' \<and> live (page_alloc st') A' \<and> g_direct_ready st' \<and> tlb st' = tlb st @ L \<and> (invlpg \<or> L = []) \<and>
     updated 4 t (tables st) (tables st') S (\<lambda>_. None) False \<and> (\<forall>x. S x \<longrightarrow> offset lo x < unat end - unat lo) \<and>
     unat va \<le> unat va' \<and> unat va' \<le> unat end \<and> (\<forall>x. offset lo x < unat va' - unat lo \<longrightarrow> translate (tables st') 4 t x = None) \<and>
     (va' \<noteq> end \<longrightarrow> (\<exists>k e. leaf (tables st') 4 t va' = Some (k, e) \<and> k \<noteq> 0) \<and> unat end < unat va' + 2 ^ 21 \<and> short (page_alloc st') 1) \<and>
     (invlpg \<and> unat end - unat lo < 2 ^ 21 \<longrightarrow> (\<forall>x. S x \<and> translate (tables st) 4 t x \<noteq> None \<longrightarrow> (\<exists>v. Invlpg v \<in> set L \<and> offset v x < 4096))))"

lemma unmap_loop_postI:
  assumes "evolves 4 t (tables st) A (tables st') A'" "live (page_alloc st') A'" "g_direct_ready st'" "tlb st' = tlb st @ L" "invlpg \<or> L = []"
    "updated 4 t (tables st) (tables st') S (\<lambda>_. None) False" "\<And>x. S x \<Longrightarrow> offset lo x < unat end - unat lo"
    "unat va \<le> unat va'" "unat va' \<le> unat end" "\<And>x. offset lo x < unat va' - unat lo \<Longrightarrow> translate (tables st') 4 t x = None"
    "va' \<noteq> end \<Longrightarrow> (\<exists>k e. leaf (tables st') 4 t va' = Some (k, e) \<and> k \<noteq> 0) \<and> unat end < unat va' + 2 ^ 21 \<and> short (page_alloc st') 1"
    "\<And>x. invlpg \<Longrightarrow> unat end - unat lo < 2 ^ 21 \<Longrightarrow> S x \<Longrightarrow> translate (tables st) 4 t x \<noteq> None \<Longrightarrow> \<exists>v. Invlpg v \<in> set L \<and> offset v x < 4096"
  shows "unmap_loop_post live short t A st lo va end invlpg va' st'"
  unfolding unmap_loop_post_def using assms by blast

text \<open>Blocks do not wrap around below the end of a range, and the loop gets closer to it.\<close>

lemma block_no_wrap:
  fixes va :: u64
  assumes "unat va < e" "e + 2 ^ 39 \<le> 2 ^ 64" "k < 4"
  shows "unat va + 2 ^ (12 + 9 * k) < 2 ^ 64" "unat (va + 2 ^ (12 + 9 * k)) = unat va + 2 ^ (12 + 9 * k)"
proof -
  have "(2 :: nat) ^ (12 + 9 * k) \<le> 2 ^ 39" using assms(3) by (intro power_increasing) simp_all
  then show a: "unat va + 2 ^ (12 + 9 * k) < 2 ^ 64" using assms(1,2) by linarith
  have "unat (2 ^ (12 + 9 * k) :: u64) = 2 ^ (12 + 9 * k)" using assms(3) by (intro unat_pow2) simp
  then show "unat (va + 2 ^ (12 + 9 * k)) = unat va + 2 ^ (12 + 9 * k)" using a by (subst unat_add_no_wrap) simp_all
qed

lemma loop_progress:
  fixes va :: u64
  assumes "unat va < unat e" "unat e + 2 ^ 39 \<le> 2 ^ 64" "unat e mod 4096 = 0" "k < 4" "w = next_block (12 + 9 * k) va"
    and "w' = (if e = 0 \<or> w < e then w else e)"
  shows "unat w = unat va - unat va mod 2 ^ (12 + 9 * k) + 2 ^ (12 + 9 * k)" "unat w' = min (unat w) (unat e)"
    "unat va < unat w'" "unat w' \<le> unat e" "unat w' mod 4096 = 0" "w \<noteq> va"
proof -
  let ?K = "12 + 9 * k"
  show uw: "unat w = unat va - unat va mod 2 ^ ?K + 2 ^ ?K"
    unfolding assms(5) using block_no_wrap(1) [OF assms(1,2,4)] assms(4) by (intro next_block_unat) simp_all
  have md: "unat va mod 2 ^ ?K < 2 ^ ?K" "unat va mod 2 ^ ?K \<le> unat va" by simp_all
  have "e \<noteq> 0" using assms(1) by (metis not_less_zero unsigned_0)
  then show uw': "unat w' = min (unat w) (unat e)" unfolding assms(6) by (simp add: word_less_nat_alt min_def)
  show gt: "unat va < unat w'" "unat w' \<le> unat e" using uw uw' md assms(1) by linarith+
  have a: "(4096 :: nat) dvd 2 ^ ?K" using le_imp_power_dvd [of 12 ?K "2 :: nat"] by simp
  have "2 ^ ?K dvd unat va - unat va mod 2 ^ ?K" unfolding minus_mod_eq_mult_div by (rule dvd_triv_left)
  then have "4096 dvd unat w" unfolding uw by (intro dvd_add dvd_trans [OF a] dvd_refl)
  then show "unat w' mod 4096 = 0" unfolding uw' min_def using assms(3) by auto
  show "w \<noteq> va" using gt uw uw' by auto
qed

context table_pages
begin

lemma unmap_loop_ok:
  assumes "tab_ok live 4 t A st" "unat lo \<le> unat va" "unat va \<le> unat end" "unat end - unat lo \<le> 2 ^ 48" "unat end + 2 ^ 39 \<le> 2 ^ 64"
    "range_aligned (unat lo) (unat end - unat lo)" "unat va mod 4096 = 0" "unat end mod 4096 = 0"
    "\<And>x. offset lo x < unat va - unat lo \<Longrightarrow> translate (tables st) 4 t x = None"
  shows "\<exists>va' st'. unmap_loop alloc dealloc st t va end invlpg = Some (va', st') \<and> unmap_loop_post live short t A st lo va end invlpg va' st'"
  using assms
proof (induction "unat end - unat va" arbitrary: va st A rule: less_induct)
  case less
  show ?case
  proof (cases "va = end")
    case True
    have "unmap_loop_post live short t A st lo va end invlpg va st"
      unfolding unmap_loop_post_def using less.prems(1,9) True updated_refl [of 4 t "tables st"]
      by (intro exI [of _ A] exI [of _ "\<lambda>_. False"] exI [of _ "[]"]) (auto simp: tab_ok_def evolves_refl)
    then show ?thesis using True by (subst unmap_loop.simps) simp
  next
    case False
    then have lt: "unat va < unat end" using less.prems(3) by (metis le_neq_implies_less unsigned_word_eqI)
    obtain w st1 A1 S where r: "unmap_next alloc dealloc st t va end = Some (w, st1)" "tab_step live 4 t A st A1 st1"
        "updated 4 t (tables st) (tables st1) S (\<lambda>_. None) False"
        "\<forall>x. S x \<longrightarrow> (\<exists>k<4. (k = 0 \<or> va + 2 ^ (12 + 9 * k) \<le> end) \<and> agree k 4 va x)"
        "w = va \<and> \<not> va + 2 ^ 21 \<le> end \<and> short (page_alloc st1) 1 \<and> (\<exists>k e. leaf (tables st1) 4 t va = Some (k, e) \<and> k \<noteq> 0)
            \<and> (\<forall>x. S x \<longrightarrow> (\<exists>k>0. k < 4 \<and> va + 2 ^ (12 + 9 * k) \<le> end)) \<or>
          (\<exists>k<4. w = next_block (12 + 9 * k) va \<and> (\<forall>x. agree k 4 va x \<longrightarrow> translate (tables st1) 4 t x = None))"
      using unmap_next_ok [OF less.prems(1,7), of "end"] unfolding unmap_step_def by blast
    have nw: "unat (va + 2 ^ (12 + 9 * k)) = unat va + 2 ^ (12 + 9 * k)" if "k < 4" for k by (rule block_no_wrap(2) [OF lt less.prems(5) that])
    have le: "va + 2 ^ (12 + 9 * k) \<le> end \<longleftrightarrow> unat va + 2 ^ (12 + 9 * k) \<le> unat end" if "k < 4" for k
      using nw [OF that] by (simp add: word_le_nat_alt)
    have big: "unat va + 2 ^ 21 \<le> unat end" if "0 < k" "k < 4" "va + 2 ^ (12 + 9 * k) \<le> end" for k
    proof -
      have "(2 :: nat) ^ 21 \<le> 2 ^ (12 + 9 * k)" using that(1) by (intro power_increasing) simp_all
      then show ?thesis using that(3) le [OF that(2)] by linarith
    qed
    have S: "offset lo x < unat end - unat lo" if "S x" for x
    proof -
      obtain k where "k < 4" "k = 0 \<or> va + 2 ^ (12 + 9 * k) \<le> end" "agree k 4 va x" using r(4) \<open>S x\<close> by blast
      then show ?thesis using step_in_range [of k va "unat end" x lo] le [of k] less.prems(2,4,6,7,8) lt by blast
    qed
    have ev: "evolves 4 t (tables st) A (tables st1) A1" "live (page_alloc st1) A1" "g_direct_ready st1" "tlb st1 = tlb st" using r(2) by (auto simp: tab_step_def)
    have dn: "translate (tables st1) 4 t x = None" if "offset lo x < unat va - unat lo" for x
      using less.prems(9) [OF that] r(3) by (simp add: updated_def)
    from r(5) show ?thesis
    proof
      assume e: "w = va \<and> \<not> va + 2 ^ 21 \<le> end \<and> short (page_alloc st1) 1 \<and> (\<exists>k e. leaf (tables st1) 4 t va = Some (k, e) \<and> k \<noteq> 0)
            \<and> (\<forall>x. S x \<longrightarrow> (\<exists>k>0. k < 4 \<and> va + 2 ^ (12 + 9 * k) \<le> end))"
      have l21: "unat end < unat va + 2 ^ 21" using e le [of 1] by simp
      then have nS: "\<not> S x" for x using e big by (meson not_le)
      have "unmap_loop_post live short t A st lo va end invlpg va st1"
        unfolding unmap_loop_post_def using ev r(3) S nS lt dn e l21
        by (intro exI [of _ A1] exI [of _ S] exI [of _ "[]"]) auto
      then show ?thesis using False r(1) e by (subst unmap_loop.simps) simp
    next
      assume "\<exists>k<4. w = next_block (12 + 9 * k) va \<and> (\<forall>x. agree k 4 va x \<longrightarrow> translate (tables st1) 4 t x = None)"
      then obtain k where k: "k < 4" "w = next_block (12 + 9 * k) va" "\<And>x. agree k 4 va x \<Longrightarrow> translate (tables st1) 4 t x = None" by blast
      let ?K = "12 + 9 * k"
      define w' where "w' = (if end = 0 \<or> w < end then w else end)"
      note pr = loop_progress [OF lt less.prems(5,8) k(1,2) w'_def]
      note uw = pr(1) and uw' = pr(2) and gt = pr(3,4) and al = pr(5) and wne = pr(6)
      define st2 where "st2 = (if invlpg then log_tlb (Invlpg va) st1 else st1)"
      have st2: "tables st2 = tables st1" "page_alloc st2 = page_alloc st1" "g_direct_ready st2" "tlb st2 = tlb st @ (if invlpg then [Invlpg va] else [])"
        using ev by (simp_all add: st2_def log_tlb_def)
      have ok2: "tab_ok live 4 t A1 st2" using ev st2 by (auto simp: tab_ok_def evolves_def)
      have cov: "translate (tables st2) 4 t x = None" if x: "offset lo x < unat w' - unat lo" for x
      proof (cases "offset lo x < unat va - unat lo")
        case True
        then show ?thesis using dn st2(1) by simp
      next
        case False
        have "va = lo + of_nat (unat va - unat lo)" using less.prems(2) by (simp add: of_nat_diff)
        then have "offset va x = offset lo x - (unat va - unat lo)"
          using offset_add [of "unat va - unat lo" lo x] False less.prems(4) lt by simp
        then have "offset va x < unat va - unat va mod 2 ^ ?K + 2 ^ ?K - unat va" using x uw uw' False less.prems(2) by linarith
        then show ?thesis using k(3) [OF block_covers [OF k(1)]] st2(1) by simp
      qed
      have dec: "unat end - unat w' < unat end - unat va" and low: "unat lo \<le> unat w'" using gt less.prems(2) by linarith+
      obtain va' st' where IH: "unmap_loop alloc dealloc st2 t w' end invlpg = Some (va', st')" "unmap_loop_post live short t A1 st2 lo w' end invlpg va' st'"
        using less.hyps [OF dec ok2 low gt(2) less.prems(4-6) al less.prems(8) cov] by blast
      obtain A' S' L where p: "evolves 4 t (tables st1) A1 (tables st') A'" "live (page_alloc st') A'" "g_direct_ready st'" "tlb st' = tlb st2 @ L"
          and L: "invlpg \<or> L = []" and p2: "updated 4 t (tables st1) (tables st') S' (\<lambda>_. None) False" "\<forall>x. S' x \<longrightarrow> offset lo x < unat end - unat lo"
          "unat w' \<le> unat va'" "unat va' \<le> unat end" "\<forall>x. offset lo x < unat va' - unat lo \<longrightarrow> translate (tables st') 4 t x = None"
          "va' \<noteq> end \<longrightarrow> (\<exists>k e. leaf (tables st') 4 t va' = Some (k, e) \<and> k \<noteq> 0) \<and> unat end < unat va' + 2 ^ 21 \<and> short (page_alloc st') 1"
          "invlpg \<and> unat end - unat lo < 2 ^ 21 \<longrightarrow> (\<forall>x. S' x \<and> translate (tables st1) 4 t x \<noteq> None \<longrightarrow> (\<exists>v. Invlpg v \<in> set L \<and> offset v x < 4096))"
        using IH(2) unfolding unmap_loop_post_def st2(1) by blast
      have early: "(\<exists>k e. leaf (tables st') 4 t va' = Some (k, e) \<and> k \<noteq> 0) \<and> unat end < unat va' + 2 ^ 21 \<and> short (page_alloc st') 1" if "va' \<noteq> end"
        using p2(6) that by blast
      have flush: "\<exists>v. Invlpg v \<in> set ((if invlpg then [Invlpg va] else []) @ L) \<and> offset v x < 4096"
        if f: "invlpg" "unat end - unat lo < 2 ^ 21" and x: "S x \<or> S' x" "translate (tables st) 4 t x \<noteq> None" for x
      proof (cases "S x")
        case True
        then obtain j where j: "j < 4" "j = 0 \<or> va + 2 ^ (12 + 9 * j) \<le> end" "agree j 4 va x" using r(4) by blast
        have "j = 0" using big [of j] j(1,2) f(2) less.prems(2) by (cases "j = 0") auto
        then have "offset va x < 4096" using agree_offset [of 0 va va x] j(3) less.prems(7) by simp
        then show ?thesis using f(1) by auto
      next
        case False
        then have "translate (tables st1) 4 t x \<noteq> None" using x(2) r(3) by (simp add: updated_def)
        then show ?thesis using p2(7) f x(1) False by fastforce
      qed
      have "unmap_loop_post live short t A st lo va end invlpg va' st'"
        using evolves_trans [OF ev(1) p(1)] p(2,3) _ _ updated_none_trans [OF r(3) p2(1)]
      proof (rule unmap_loop_postI)
        show "tlb st' = tlb st @ (if invlpg then [Invlpg va] else []) @ L" using p(4) st2(4) by simp
        show "invlpg \<or> (if invlpg then [Invlpg va] else []) @ L = []" using L by auto
        show "offset lo x < unat end - unat lo" if "S x \<or> S' x" for x using that S p2(2) by blast
        show "unat va \<le> unat va'" "unat va' \<le> unat end" using p2(3,4) gt(1) by simp_all
        show "translate (tables st') 4 t x = None" if "offset lo x < unat va' - unat lo" for x using p2(5) that by blast
        show "(\<exists>k e. leaf (tables st') 4 t va' = Some (k, e) \<and> k \<noteq> 0) \<and> unat end < unat va' + 2 ^ 21 \<and> short (page_alloc st') 1" if "va' \<noteq> end" by (rule early [OF that])
        show "\<exists>v. Invlpg v \<in> set ((if invlpg then [Invlpg va] else []) @ L) \<and> offset v x < 4096"
          if "invlpg" "unat end - unat lo < 2 ^ 21" "S x \<or> S' x" "translate (tables st) 4 t x \<noteq> None" for x by (rule flush [OF that])
      qed
      moreover have "unmap_loop alloc dealloc st t va end invlpg = Some (va', st')"
        using False r(1) wne IH(1) unfolding st2_def w'_def by (subst unmap_loop.simps) simp
      ultimately show ?thesis by blast
    qed
  qed
qed

text \<open>
  Without the condition on the start of the range the loop still returns and maps nothing new, but it clears the whole
  block of 2 MiB around the start when that many bytes are asked for.
\<close>

lemma unmap_loop_block:
  assumes "tab_ok live 4 t A st" "unat va \<le> unat end" "unat end + 2 ^ 39 \<le> 2 ^ 64" "unat va mod 4096 = 0" "unat end mod 4096 = 0"
  shows "\<exists>va' st' A'. unmap_loop alloc dealloc st t va end invlpg = Some (va', st') \<and> tab_ok live 4 t A' st' \<and>
    (\<forall>x. translate (tables st) 4 t x = None \<longrightarrow> translate (tables st') 4 t x = None) \<and>
    (\<forall>x. unat va + 2 ^ 21 \<le> unat end \<and> agree 1 4 va x \<longrightarrow> translate (tables st') 4 t x = None)"
  using assms
proof (induction "unat end - unat va" arbitrary: va st A rule: less_induct)
  case less
  show ?case
  proof (cases "va = end")
    case True
    then show ?thesis using less.prems(1) by (subst unmap_loop.simps) auto
  next
    case False
    then have lt: "unat va < unat end" using less.prems(2) by (metis le_neq_implies_less unsigned_word_eqI)
    obtain w st1 A1 S where r: "unmap_next alloc dealloc st t va end = Some (w, st1)" "tab_step live 4 t A st A1 st1"
        "updated 4 t (tables st) (tables st1) S (\<lambda>_. None) False"
        "\<forall>k x. 0 < k \<and> k < 4 \<and> va + 2 ^ (12 + 9 * k) \<le> end \<and> agree k 4 va x \<longrightarrow> translate (tables st1) 4 t x = None"
        "w = va \<or> (\<exists>k<4. w = next_block (12 + 9 * k) va)"
      using unmap_next_ok [OF less.prems(1,4), of "end"] unfolding unmap_step_def by blast
    have none: "translate (tables st1) 4 t x = None" if "translate (tables st) 4 t x = None" for x using r(3) that by (simp add: updated_def)
    have blk: "translate (tables st1) 4 t x = None" if "unat va + 2 ^ 21 \<le> unat end" "agree 1 4 va x" for x
    proof -
      have "va + 2 ^ (12 + 9 * 1) \<le> end" using block_no_wrap(2) [OF lt less.prems(3), of 1] that(1) by (simp add: word_le_nat_alt)
      then show ?thesis using r(4) that(2) by (metis less_numeral_extra(1) one_less_numeral_iff semiring_norm(76))
    qed
    have ok1: "tab_ok live 4 t A1 st1" by (rule tab_step_ok [OF r(2)])
    show ?thesis
    proof (cases "w = va")
      case True
      then show ?thesis using False r(1) ok1 none blk by (subst unmap_loop.simps) auto
    next
      case wne: False
      then obtain k where k: "k < 4" "w = next_block (12 + 9 * k) va" using r(5) by blast
      define w' where "w' = (if end = 0 \<or> w < end then w else end)"
      note pr = loop_progress [OF lt less.prems(3,5) k w'_def]
      define st2 where "st2 = (if invlpg then log_tlb (Invlpg va) st1 else st1)"
      have st2: "tables st2 = tables st1" by (simp add: st2_def log_tlb_def)
      have ok2: "tab_ok live 4 t A1 st2" using ok1 by (simp add: tab_ok_def st2_def log_tlb_def)
      have dec: "unat end - unat w' < unat end - unat va" using pr(3,4) by linarith
      obtain va' st' A' where IH: "unmap_loop alloc dealloc st2 t w' end invlpg = Some (va', st')" "tab_ok live 4 t A' st'"
          "\<forall>x. translate (tables st1) 4 t x = None \<longrightarrow> translate (tables st') 4 t x = None"
        using less.hyps [OF dec ok2 pr(4) less.prems(3) pr(5) less.prems(5)] unfolding st2 by blast
      have "unmap_loop alloc dealloc st t va end invlpg = Some (va', st')"
        using False r(1) wne IH(1) unfolding st2_def w'_def by (subst unmap_loop.simps) simp
      then show ?thesis using IH(2,3) none blk by blast
    qed
  qed
qed

end

section \<open>The operations of the interface\<close>

lemma leaf_same_block: "leaf m n t x = Some (k, e) \<Longrightarrow> agree k n x y \<Longrightarrow> k < n \<and> leaf m n t y = Some (k, e)"
proof (induction n arbitrary: t)
  case (Suc n)
  let ?e = "m t (table_index (12 + 9 * n) x)"
  show ?case
  proof (cases "bit ?e 0 \<and> (n = 0 \<or> bit ?e 7)")
    case True
    then have "leaf m (Suc n) t x = Some (n, ?e)" by (simp add: leaf.simps)
    then have k: "k = n" "e = ?e" using Suc.prems(1) by simp_all
    then have "table_index (12 + 9 * n) y = table_index (12 + 9 * n) x" using Suc.prems(2) by (simp add: agree_top)
    then show ?thesis using True k by (simp add: leaf.simps)
  next
    case False
    then have l: "leaf m n (entry_addr ?e) x = Some (k, e)" "bit ?e 0" "n \<noteq> 0" "\<not> bit ?e 7" using Suc.prems(1) by (auto simp: leaf.simps Let_def split: if_splits)
    have "agree k n x y" using Suc.prems(2) by (simp add: agree_def)
    then have IH: "k < n" "leaf m n (entry_addr ?e) y = Some (k, e)" using Suc.IH [OF l(1)] by auto
    moreover have "table_index (12 + 9 * n) y = table_index (12 + 9 * n) x" using Suc.prems(2) IH(1) by (simp add: agree_def)
    ultimately show ?thesis using l by (simp add: leaf.simps)
  qed
qed simp

lemma pagetable_lookup_translate:
  assumes "wf_tab (tables st) 4 t" "g_direct_ready st"
  shows "pagetable_lookup st t va = Some (map_option fst (translate (tables st) 4 t va))"
proof -
  let ?m = "tables st"
  let ?e4 = "?m t (table_index 39 va)"
  let ?e3 = "?m (entry_addr ?e4) (table_index 30 va)"
  let ?e2 = "?m (entry_addr ?e3) (table_index 21 va)"
  have n4: "4 = Suc (Suc (Suc (Suc 0)))" by simp
  have w: "wf_tab ?m (Suc (Suc (Suc (Suc 0)))) t" using assms(1) unfolding n4 .
  have h4: "\<not> bit ?e4 7" using wf_entry_ok [OF w, of "table_index 39 va"] table_index_lt by (simp add: entry_ok_def)
  have h3: "\<not> bit ?e3 7" if "bit ?e4 0"
    using wf_entry_ok [OF wf_child(1) [OF w, of "table_index 39 va"], of "table_index 30 va"] table_index_lt that h4 by (simp add: entry_ok_def is_table_def)
  have mk: "mask 12 = (0x1000 - 1 :: u64)" "mask 21 = (2 ^ 21 - 1 :: u64)" by (simp_all add: mask_eq_exp_minus_1)
  have "leaf ?m 4 t va = (if \<not> bit ?e4 0 then None else if \<not> bit ?e3 0 then None else if \<not> bit ?e2 0 then None else if bit ?e2 7 then Some (1, ?e2)
      else let e = ?m (entry_addr ?e2) (table_index 12 va) in if bit e 0 then Some (0, e) else None)"
    unfolding n4 using h4 h3 by (simp add: leaf.simps Let_def)
  then show ?thesis using h4 h3 assms(2)
    by (simp add: pagetable_lookup_def translate_def phys_to_virt_table_def entry_addr_def Let_def mk split: if_splits)
qed

lemma range_aligned_le: "range_aligned lo len \<Longrightarrow> d \<le> len \<Longrightarrow> range_aligned lo d"
  unfolding range_aligned_def by (metis le_trans)

lemma offset_self: "unat va \<le> unat x \<Longrightarrow> unat x - unat va < 2 ^ 48 \<Longrightarrow> offset va x = unat x - unat va"
  by (simp add: offset_def unat_sub_no_wrap)

context table_pages
begin

lemma pagetable_unmap_ok:
  assumes "tab_ok live 4 t A st" "unat va mod 4096 = 0" "unat len mod 4096 = 0" "unat va + unat len + 2 ^ 39 \<le> 2 ^ 64" "unat len \<le> 2 ^ 48"
    "range_aligned (unat va) (unat len)"
  shows "\<exists>va' st' st1. pagetable_unmap alloc dealloc st t va len flush = Some (va', st') \<and>
    unmap_loop_post live short t A st va va (va + len) (flush \<and> len < HUGE_PAGE_SIZE) va' st1 \<and>
    st' = (if flush \<and> \<not> len < HUGE_PAGE_SIZE then log_tlb Reload_Cr3 st1 else st1)"
proof -
  have e: "unat (va + len) = unat va + unat len" using assms(4) by (simp add: unat_add_no_wrap)
  have m: "va mod 0x1000 = 0" "len mod 0x1000 = 0" using assms(2,3) by (simp_all add: word_unat_eq_iff unat_word_ariths unat_mod)
  have em: "unat (va + len) mod 4096 = 0" unfolding e using assms(2,3) by (metis mod_add_eq add_0 mod_0)
  obtain va' st1 where "unmap_loop alloc dealloc st t va (va + len) (flush \<and> len < HUGE_PAGE_SIZE) = Some (va', st1)"
      "unmap_loop_post live short t A st va va (va + len) (flush \<and> len < HUGE_PAGE_SIZE) va' st1"
    using unmap_loop_ok [of t A st va va "va + len" "flush \<and> len < HUGE_PAGE_SIZE"] assms e em by auto
  then show ?thesis using m by (auto simp: pagetable_unmap_def unmap_range_len_def Let_def)
qed

lemma pagetable_unmap_block:
  assumes "tab_ok live 4 t A st" "unat va mod 4096 = 0" "unat len mod 4096 = 0" "unat va + unat len + 2 ^ 39 \<le> 2 ^ 64" "2 ^ 21 \<le> unat len"
  shows "\<exists>va' st' A'. pagetable_unmap alloc dealloc st t va len flush = Some (va', st') \<and> tab_ok live 4 t A' st' \<and>
    (\<forall>x. translate (tables st) 4 t x = None \<longrightarrow> translate (tables st') 4 t x = None) \<and>
    (\<forall>x. agree 1 4 va x \<longrightarrow> translate (tables st') 4 t x = None)"
proof -
  have e: "unat (va + len) = unat va + unat len" using assms(4) by (simp add: unat_add_no_wrap)
  have m: "va mod 0x1000 = 0" "len mod 0x1000 = 0" using assms(2,3) by (simp_all add: word_unat_eq_iff unat_word_ariths unat_mod)
  have em: "unat (va + len) mod 4096 = 0" unfolding e using assms(2,3) by (metis mod_add_eq add_0 mod_0)
  have pre: "unat va \<le> unat (va + len)" "unat (va + len) + 2 ^ 39 \<le> 2 ^ 64" unfolding e using assms(4) by simp_all
  obtain va' st1 A' where u: "unmap_loop alloc dealloc st t va (va + len) (flush \<and> len < HUGE_PAGE_SIZE) = Some (va', st1)" "tab_ok live 4 t A' st1"
      "\<forall>x. translate (tables st) 4 t x = None \<longrightarrow> translate (tables st1) 4 t x = None"
      "\<forall>x. agree 1 4 va x \<longrightarrow> translate (tables st1) 4 t x = None"
    using unmap_loop_block [OF assms(1) pre assms(2) em, of "flush \<and> len < HUGE_PAGE_SIZE"] assms(5) unfolding e by auto
  have run: "pagetable_unmap alloc dealloc st t va len flush = Some (va', if flush \<and> \<not> len < HUGE_PAGE_SIZE then log_tlb Reload_Cr3 st1 else st1)"
    using m u(1) by (auto simp: pagetable_unmap_def unmap_range_len_def Let_def)
  let ?st = "if flush \<and> \<not> len < HUGE_PAGE_SIZE then log_tlb Reload_Cr3 st1 else st1"
  have "tables ?st = tables st1" "tab_ok live 4 t A' ?st" using u(2) by (simp_all add: log_tlb_def tab_ok_def)
  then show ?thesis using run u(3,4) by (intro exI [of _ va'] exI [of _ ?st] exI [of _ A']) simp
qed

lemma map_undone:
  assumes m: "mapped_upto live t A st va pa fl d A1 st1" and d: "4096 dvd d" "d < 2 ^ 48" "unat va + d + 2 ^ 39 \<le> 2 ^ 64" "range_aligned (unat va) d" "unat va mod 4096 = 0"
  shows "\<exists>va' st' A'. pagetable_unmap alloc dealloc st1 t va (of_nat d) False = Some (va', st') \<and> tab_ok live 4 t A' st' \<and>
    evolves 4 t (tables st) A (tables st') A' \<and> (\<forall>x. translate (tables st') 4 t x = translate (tables st) 4 t x) \<and> tlb st' = tlb st"
proof -
  have ok1: "tab_ok live 4 t A1 st1" and s1: "tab_step live 4 t A st A1 st1" using m tab_step_ok unfolding mapped_upto_def by blast+
  have ud: "unat (of_nat d :: u64) = d" using d(2) by (simp add: unat_of_nat)
  let ?e = "va + of_nat d"
  have ue: "unat ?e = unat va + d" using d(3) ud by (simp add: unat_add_no_wrap)
  obtain va' st' where u: "pagetable_unmap alloc dealloc st1 t va (of_nat d) False = Some (va', st')" "unmap_loop_post live short t A1 st1 va va ?e False va' st'"
    using pagetable_unmap_ok [of t A1 st1 va "of_nat d" False] ok1 d ud by (auto simp: dvd_imp_mod_0)
  obtain A' S where p: "evolves 4 t (tables st1) A1 (tables st') A'" "live (page_alloc st') A'" "g_direct_ready st'" "tlb st' = tlb st1"
      "updated 4 t (tables st1) (tables st') S (\<lambda>_. None) False" "\<forall>x. S x \<longrightarrow> offset va x < d" "unat va \<le> unat va'" "unat va' \<le> unat va + d"
      "\<forall>x. offset va x < unat va' - unat va \<longrightarrow> translate (tables st') 4 t x = None"
      "va' \<noteq> ?e \<longrightarrow> (\<exists>k e. leaf (tables st') 4 t va' = Some (k, e) \<and> k \<noteq> 0) \<and> unat va + d < unat va' + 2 ^ 21 \<and> short (page_alloc st') 1"
    using u(2) unfolding unmap_loop_post_def ue add_diff_cancel_left' by (elim exE conjE disjE) (blast, metis append_Nil2)
  have "va' = ?e"
  proof (rule ccontr)
    assume ne: "va' \<noteq> ?e"
    then obtain k e where l: "leaf (tables st') 4 t va' = Some (k, e)" "k \<noteq> 0" and cross: "unat va + d < unat va' + 2 ^ 21" using p(10) by blast
    have lt: "unat va' < unat va + d" using ne p(8) ue by (metis le_neq_implies_less unsigned_word_eqI)
    then have o: "offset va va' = unat va' - unat va" using offset_self p(7) d(2) by simp
    have "leaf (tables st1) 4 t va' = Some (k, e)" using p(5) l unfolding updated_def by blast
    moreover have "translate (tables st) 4 t va' = None" using m o lt p(7) unfolding mapped_upto_def by auto
    then have "leaf (tables st) 4 t va' = None" by (simp add: translate_def)
    ultimately have h: "unat va' mod 2 ^ 21 \<le> offset va va'" "offset va va' - unat va' mod 2 ^ 21 + 2 ^ 21 \<le> d"
      using m l(2) unfolding mapped_upto_def by fastforce+
    obtain b where b: "unat b = unat va' - unat va' mod 2 ^ 21" "va' = b + of_nat (unat va' mod 2 ^ 21)" using block_base [of va' 21] .
    have "agree 1 4 va' b" using agree_offset [of 1 b va' b] b(1) by (simp add: offset_def)
    then have "agree k 4 va' b" using l(2) unfolding agree_def by (metis One_nat_def Suc_leI le_trans neq0_conv)
    then have "translate (tables st') 4 t b \<noteq> None" using leaf_same_block [OF l(1)] by (simp add: translate_def)
    moreover have ob: "offset va b = unat b - unat va" using h(1) b(1) o d(2) lt p(7) by (intro offset_self) linarith+
    ultimately have "\<not> unat b - unat va < unat va' - unat va" using p(9) by metis
    then have "unat va' mod 2 ^ 21 = 0" using b(1) h(1) o p(7) by linarith
    then show False using h(2) o cross p(7) by simp
  qed
  then have va': "unat va' - unat va = d" using ue by simp
  have "translate (tables st') 4 t x = translate (tables st) 4 t x" for x
  proof (cases "offset va x < d")
    case True
    then show ?thesis using p(9) va' m unfolding mapped_upto_def by auto
  next
    case False
    then show ?thesis using p(5,6) m unfolding mapped_upto_def updated_def by auto
  qed
  moreover have "evolves 4 t (tables st) A (tables st') A'" using evolves_trans [OF _ p(1)] s1 unfolding tab_step_def by blast
  moreover have "tab_ok live 4 t A' st'" using p(1-3) by (simp add: tab_ok_def evolves_def)
  moreover have "tlb st' = tlb st" using p(4) s1 by (simp add: tab_step_def)
  ultimately show ?thesis using u(1) by blast
qed

lemma pagetable_map_ok:
  assumes ok: "tab_ok live 4 t A st" and fl: "map_flags fl" and va: "unat va mod 4096 = 0" "va \<noteq> 0" and pa: "unat pa mod 4096 = 0" and len: "unat len mod 4096 = 0"
    and b: "unat pa + unat len \<le> 2 ^ 52" "unat len \<le> 2 ^ 48" "unat va + unat len + 2 ^ 39 \<le> 2 ^ 64" "range_aligned (unat va) (unat len)"
  shows "\<exists>va' st' A'. pagetable_map alloc dealloc st t va pa len fl = Some (va', st') \<and> tab_ok live 4 t A' st' \<and>
    evolves 4 t (tables st) A (tables st') A' \<and> tlb st' = tlb st \<and>
    (va' = va + len \<and> (\<forall>x. translate (tables st') 4 t x = (if offset va x < unat len then Some (pa + of_nat (offset va x), fl) else translate (tables st) 4 t x)) \<and>
       (\<forall>x. offset va x < unat len \<longrightarrow> translate (tables st) 4 t x = None) \<or>
     va' = 0 \<and> (\<forall>x. translate (tables st') 4 t x = translate (tables st) 4 t x) \<and>
       (small_pages va pa len \<longrightarrow> (\<exists>x. offset va x < unat len \<and> translate (tables st) 4 t x \<noteq> None) \<or> short (page_alloc st) (3 * (unat len div 4096))))"
proof -
  obtain ok' d st1 A1 where r: "map_loop alloc st t va pa len fl = Some (ok', va + of_nat d, pa + of_nat d, st1)" "mapped_upto live t A st va pa fl d A1 st1"
      "4096 dvd d" "if ok' then d = unat len else d < unat len"
      "\<not> ok' \<and> small_pages va pa len \<longrightarrow> translate (tables st) 4 t (va + of_nat d) \<noteq> None \<or> short (page_alloc st) (3 * (unat len div 4096))"
    using map_loop_ok [OF ok fl va(1) pa len b(1,2)] by blast
  have m: "pa mod 0x1000 = 0" "len mod 0x1000 = 0" "va mod 0x1000 = 0" using va pa len by (simp_all add: word_unat_eq_iff unat_word_ariths unat_mod)
  have s1: "tab_step live 4 t A st A1 st1" using r(2) unfolding mapped_upto_def by blast
  show ?thesis
  proof (cases ok')
    case True
    then have "pagetable_map alloc dealloc st t va pa len fl = Some (va + len, st1)" using r(1,4) m va(2) by (simp add: pagetable_map_def map_range_len_def)
    moreover have "d = unat len" using r(4) True by simp
    ultimately show ?thesis using r(2) tab_step_ok [OF s1] s1 unfolding mapped_upto_def tab_step_def by blast
  next
    case False
    then have dl: "d < unat len" using r(4) by simp
    have "range_aligned (unat va) d" using range_aligned_le [OF b(4)] dl by simp
    then obtain va' st' A' where u: "pagetable_unmap alloc dealloc st1 t va (of_nat d) False = Some (va', st')" "tab_ok live 4 t A' st'"
        "evolves 4 t (tables st) A (tables st') A'" "\<forall>x. translate (tables st') 4 t x = translate (tables st) 4 t x" "tlb st' = tlb st"
      using map_undone [OF r(2,3) _ _ _ va(1)] dl b(2,3) by auto
    have "pagetable_map alloc dealloc st t va pa len fl = Some (0, st')" using r(1) m va(2) False u(1) by (simp add: pagetable_map_def map_range_len_def)
    moreover have "offset va (va + of_nat d) < unat len" using offset_of_nat [of d va] dl b(2) by simp
    then have "small_pages va pa len \<longrightarrow> (\<exists>x. offset va x < unat len \<and> translate (tables st) 4 t x \<noteq> None) \<or> short (page_alloc st) (3 * (unat len div 4096))"
      using r(5) False by blast
    ultimately show ?thesis using u(2-5) by blast
  qed
qed

end

end
