(* ===== verification/Mm_Kptbl.thy ===== *)
theory Mm_Kptbl
  imports Mm_Pagetable Mm_Mm
begin

text \<open>
  The page tables of \<open>kernel/platform/pc-x64/src/mm/pagetable.c\<close> on the page allocators of the kernel: the boot allocator
  while the memory manager is set up, the buddy allocator afterwards. The buddy allocator meets the contract of
  \<open>table_pages\<close>, which gives the properties of mapping, unmapping and lookup.
\<close>

unbundle bit_operations_syntax

section \<open>Model\<close>

record page_sys =
  g_tmpalloc :: "tmpalloc option"
  g_buddy :: buddy

definition allocate_page :: "pfn_globals \<Rightarrow> page_sys allocator" where
  "allocate_page g s = (case g_tmpalloc s of
       Some ta \<Rightarrow> do {
         (pa, _, ta) \<leftarrow> tmpalloc_alloc_pages ta 1;
         Some (pa, s\<lparr>g_tmpalloc := Some ta\<rparr>)
       }
     | None \<Rightarrow> do {
         (pfn, b) \<leftarrow> mm_alloc_page g (g_buddy s) 0;
         Some (case pfn of None \<Rightarrow> 0 | Some pfn \<Rightarrow> of_nat (pfn_to_phys pfn), s\<lparr>g_buddy := b\<rparr>)
       })"

definition deallocate_page :: "pfn_globals \<Rightarrow> page_sys deallocator" where
  "deallocate_page g s pa = do {
     kassert (g_tmpalloc s = None);
     page \<leftarrow> page_at g (g_buddy s) (phys_to_pfn (unat pa));
     if flags page AND PAGE_FLAG_METADATA \<noteq> 0 then Some (False, s)
     else do {
       b \<leftarrow> mm_free_page g (g_buddy s) (phys_to_pfn (unat pa)) 0;
       Some (True, s\<lparr>g_buddy := b\<rparr>)
     }
   }"

text \<open>A pointer returned by the page allocator lies in the direct map.\<close>

definition virt_to_phys_direct :: "nat \<Rightarrow> u64" where
  "virt_to_phys_direct va = of_nat va - of_nat DIRECT_MAP_START_VIRT"

definition phys_to_virt_direct :: "u64 \<Rightarrow> nat" where
  "phys_to_virt_direct pa = unat (of_nat DIRECT_MAP_START_VIRT + pa)"

definition pagetable_clone :: "pfn_globals \<Rightarrow> page_sys ptstate \<Rightarrow> u64 \<Rightarrow> (u64 option \<times> page_sys ptstate) option" where
  "pagetable_clone g st ptbl = do {
     (p, b) \<leftarrow> mm_alloc_page_ptr g (g_buddy (page_alloc st)) 0;
     let st = st\<lparr>page_alloc := (page_alloc st)\<lparr>g_buddy := b\<rparr>\<rparr>;
     case p of
       None \<Rightarrow> Some (None, st)
     | Some va \<Rightarrow> (let clone = virt_to_phys_direct va in Some (Some clone, write_table st clone (tables st ptbl)))
   }"

definition pagetable_create :: "pfn_globals \<Rightarrow> page_sys ptstate \<Rightarrow> u64 \<Rightarrow> (u64 option \<times> page_sys ptstate) option" where
  "pagetable_create g st g_kptbl = pagetable_clone g st g_kptbl"

definition pagetable_destroy :: "pfn_globals \<Rightarrow> page_sys ptstate \<Rightarrow> u64 \<Rightarrow> page_sys ptstate option" where
  "pagetable_destroy g st ptbl = do {
     (_, st) \<leftarrow> pagetable_unmap (allocate_page g) (deallocate_page g) st ptbl 0 0x0000800000000000 False;
     b \<leftarrow> mm_free_page_ptr g (g_buddy (page_alloc st)) (phys_to_virt_direct ptbl) 0;
     Some (st\<lparr>page_alloc := (page_alloc st)\<lparr>g_buddy := b\<rparr>\<rparr>)
   }"

definition pagetable_apply :: "'a ptstate \<Rightarrow> u64 \<Rightarrow> 'a ptstate" where
  "pagetable_apply st ptbl = log_tlb (Write_Cr3 ptbl) st"

text \<open>The addresses the linker script defines.\<close>

record kernel_image =
  kernel_start_lba :: u64
  rodata_end_lba :: u64
  before_stack_lba :: u64
  stack_bottom_lba :: u64
  kernel_end_lba :: u64

definition kernel_pdpt :: "pfn_globals \<Rightarrow> u64 \<Rightarrow> nat \<Rightarrow> page_sys ptstate \<Rightarrow> page_sys ptstate option" where
  "kernel_pdpt g ptbl i st = do {
     (pdpt_pa, s) \<leftarrow> allocate_page g (page_alloc st);
     let st = write_table (st\<lparr>page_alloc := s\<rparr>) pdpt_pa (\<lambda>_. 0);
     Some (write_entry st ptbl (PAGETABLE_LENGTH div 2 + i) (pdpt_pa OR PTE_FLAG_PRESENT OR PTE_FLAG_WRITABLE))
   }"

text \<open>The part of a section that the direct map covers; \<^term>\<open>None\<close> ends the loop, length 0 skips the section.\<close>

definition direct_section :: "mmap_entry \<Rightarrow> (u64 \<times> u64) option option" where
  "direct_section entry =
     (if me_addr entry + me_len entry - 1 < BOOTSTRAP_MAP_END_PHYS then Some None
      else
        let addr = (if me_addr entry < BOOTSTRAP_MAP_END_PHYS then BOOTSTRAP_MAP_END_PHYS else me_addr entry);
            len = (if me_addr entry < BOOTSTRAP_MAP_END_PHYS then me_len entry - (BOOTSTRAP_MAP_END_PHYS - me_addr entry) else me_len entry);
            va_start = of_nat DIRECT_MAP_START_VIRT + addr;
            va_end = va_start + len
        in if va_start \<ge> of_nat DIRECT_MAP_END_VIRT then None
           else Some (Some (addr, if va_end < va_start \<or> va_end > of_nat DIRECT_MAP_END_VIRT then of_nat DIRECT_MAP_END_VIRT - va_start else len)))"

fun direct_map_loop :: "pfn_globals \<Rightarrow> u64 \<Rightarrow> mmap_entry list \<Rightarrow> page_sys ptstate \<Rightarrow> page_sys ptstate option" where
  "direct_map_loop g ptbl [] st = Some st"
| "direct_map_loop g ptbl (entry # sec) st = (case direct_section entry of
       None \<Rightarrow> Some st
     | Some None \<Rightarrow> direct_map_loop g ptbl sec st
     | Some (Some (addr, len)) \<Rightarrow> do {
         (_, st) \<leftarrow> map_range_len (allocate_page g) (deallocate_page g) st ptbl (of_nat DIRECT_MAP_START_VIRT + addr) addr len (PTE_FLAG_PRESENT OR PTE_FLAG_WRITABLE);
         direct_map_loop g ptbl sec st
       })"

definition mm_kptbl_init :: "pfn_globals \<Rightarrow> kernel_image \<Rightarrow> tmpalloc \<Rightarrow> page_sys ptstate \<Rightarrow> (u64 \<times> page_sys ptstate) option" where
  "mm_kptbl_init g img ta st = do {
     let st = st\<lparr>page_alloc := (page_alloc st)\<lparr>g_tmpalloc := Some ta\<rparr>\<rparr>;
     let al = allocate_page g; let de = deallocate_page g; let rw = PTE_FLAG_PRESENT OR PTE_FLAG_WRITABLE;
     (ptbl, s) \<leftarrow> al (page_alloc st);
     let st = write_table (st\<lparr>page_alloc := s\<rparr>) ptbl (\<lambda>_. 0);
     st \<leftarrow> for_up 0 (PAGETABLE_LENGTH div 2) (kernel_pdpt g ptbl) st;
     (va, st) \<leftarrow> map_range al de st ptbl 0xffffffff80000000 (kernel_start_lba img) (rodata_end_lba img) PTE_FLAG_PRESENT;
     (va, st) \<leftarrow> map_range al de st ptbl va (rodata_end_lba img) (before_stack_lba img) rw;
     (_, st) \<leftarrow> map_range al de st ptbl 0xffffffff8f000000 (stack_bottom_lba img) (kernel_end_lba img) rw;
     (_, st) \<leftarrow> map_range al de st ptbl (of_nat DIRECT_MAP_START_VIRT) 0 BOOTSTRAP_MAP_END_PHYS rw;
     let st = log_tlb (Write_Cr3 ptbl) (st\<lparr>g_direct_ready := True\<rparr>);
     st \<leftarrow> direct_map_loop g ptbl (section_map g) st;
     Some (ptbl, st)
   }"

definition mm_kptbl_unuse_tmpalloc :: "page_sys ptstate \<Rightarrow> page_sys ptstate" where
  "mm_kptbl_unuse_tmpalloc st = st\<lparr>page_alloc := (page_alloc st)\<lparr>g_tmpalloc := None\<rparr>\<rparr>"

section \<open>The buddy allocator hands out table pages\<close>

text \<open>
  Every page of a table is a page frame of the section map, and one the buddy allocator may hand out is a live
  allocation of order 0. \<open>V\<close> are the frames that are not metadata, and \<open>U\<close> those the allocator manages.
\<close>

definition kpt_live :: "pfn_globals \<Rightarrow> nat set \<Rightarrow> nat set \<Rightarrow> page_sys \<Rightarrow> u64 set \<Rightarrow> bool" where
  "kpt_live g U V s A \<longleftrightarrow> g_tmpalloc s = None \<and> g_pfn_end g \<le> 2 ^ 40 \<and> usable g (g_buddy s) = V \<and>
     (\<exists>B F. run_inv g U (g_buddy s) B F \<and>
       (\<forall>pa \<in> A. page_addr pa \<and> pfn_is_valid (section_map g) (unat pa div 4096) \<and> (unat pa div 4096 \<in> V \<longrightarrow> (0, unat pa div 4096) \<in> B)))"

definition meta_pages :: "nat set \<Rightarrow> u64 set" where
  "meta_pages V = {pa. unat pa div 4096 \<notin> V}"

lemma alloc_usable: "run_inv g U b B F \<Longrightarrow> buddy_alloc g b k = Some (r, b') \<Longrightarrow> usable g b' = usable g b"
proof (cases "\<exists>j. k \<le> j \<and> j \<le> max_order b \<and> F j \<noteq> []")
  case True
  assume a: "run_inv g U b B F" "buddy_alloc g b k = Some (r, b')"
  have "k \<le> max_order b" using True by auto
  then show ?thesis using buddy_alloc_ok [of g b F k] True a by (auto simp: run_inv_def)
next
  case False
  assume a: "run_inv g U b B F" "buddy_alloc g b k = Some (r, b')"
  then show ?thesis using buddy_alloc_fail [of g b F k] False by (auto simp: run_inv_def buddy_inv_def)
qed

lemma free_usable: "run_inv g U b B F \<Longrightarrow> (k, p) \<in> B \<Longrightarrow> buddy_free g b p k = Some b' \<Longrightarrow> usable g b' = usable g b"
proof -
  assume a: "run_inv g U b B F" "(k, p) \<in> B" "buddy_free g b p k = Some b'"
  note ri = a(1) [unfolded run_inv_def]
  have "blk k p \<subseteq> used_set B" using used_set_single_subset [OF a(2)] by simp
  then have "blk k p \<subseteq> usable g b" "blk k p \<inter> free_set F = {}" using ri by blast+
  moreover have "k \<le> max_order b" "2 ^ k dvd p" using ri a(2) by auto
  ultimately show ?thesis using buddy_free_ok [of g b F k p] ri a(3) by auto
qed

lemma frame_addr:
  assumes "p < 2 ^ 40"
  shows "unat (of_nat (pfn_to_phys p) :: u64) = p * 4096" "page_addr (of_nat (pfn_to_phys p))"
proof -
  have "p * 4096 < 2 ^ 52" using assms by simp
  then show u: "unat (of_nat (pfn_to_phys p) :: u64) = p * 4096" unfolding pfn_to_phys_def unat_of_nat by simp
  show "page_addr (of_nat (pfn_to_phys p))" unfolding page_addr_iff u using \<open>p * 4096 < 2 ^ 52\<close> by simp
qed

lemma page_addr_eq:
  assumes "page_addr x" "page_addr y" "unat x div 4096 = unat y div 4096"
  shows "x = y"
proof -
  have "unat x = unat y" using assms unfolding page_addr_iff by (metis div_mult_mod_eq)
  then show ?thesis by (simp add: word_unat_eq_iff)
qed

lemma run_inv_lt: "run_inv g U b B F \<Longrightarrow> (0, p) \<in> B \<Longrightarrow> p < g_pfn_end g"
  using run_inv_block [of g U b B F 0 p] by simp

lemma kpt_alloc:
  assumes "kpt_live g U V s A"
  shows "\<exists>pa s'. allocate_page g s = Some (pa, s') \<and>
    (if pa = 0 then kpt_live g U V s' A else page_addr pa \<and> pa \<notin> A \<and> kpt_live g U V s' (insert pa A))"
proof -
  obtain B F where B: "run_inv g U (g_buddy s) B F" and A: "\<forall>pa \<in> A. page_addr pa \<and> pfn_is_valid (section_map g) (unat pa div 4096) \<and>
      (unat pa div 4096 \<in> V \<longrightarrow> (0, unat pa div 4096) \<in> B)" and s: "g_tmpalloc s = None" "g_pfn_end g \<le> 2 ^ 40" "usable g (g_buddy s) = V"
    using assms unfolding kpt_live_def by blast
  obtain r b' where r: "buddy_alloc g (g_buddy s) 0 = Some (r, b')"
      "case r of None \<Rightarrow> b' = g_buddy s | Some p \<Rightarrow> (\<exists>F'. run_inv g U b' (insert (0, p) B) F') \<and> blk 0 p \<inter> used_set B = {}"
    using run_inv_alloc [OF B, of 0] by blast
  have us: "usable g b' = V" using alloc_usable [OF B r(1)] s(3) by simp
  show ?thesis
  proof (cases r)
    case None
    then have "allocate_page g s = Some (0, s\<lparr>g_buddy := b'\<rparr>)" using s(1) r(1) by (simp add: allocate_page_def mm_alloc_page_def)
    then show ?thesis using None r(2) assms by simp
  next
    case (Some p)
    then obtain F' where F': "run_inv g U b' (insert (0, p) B) F'" and fresh: "blk 0 p \<inter> used_set B = {}" using r(2) by auto
    have p: "p < g_pfn_end g" using run_inv_lt [OF F'] by simp
    then have p40: "p < 2 ^ 40" using s(2) by simp
    let ?pa = "of_nat (pfn_to_phys p) :: u64" and ?s = "s\<lparr>g_buddy := b'\<rparr>"
    note pa = frame_addr [OF p40]
    have run: "allocate_page g s = Some (?pa, ?s)" using s(1) r(1) Some by (simp add: allocate_page_def mm_alloc_page_def)
    have pV: "p \<in> V" "pfn_is_valid (section_map g) p"
    proof -
      have "p \<in> used_set (insert (0, p) B)" using blk_self [of p 0] by (simp add: used_set_insert)
      then have "p \<in> usable g b'" using F' unfolding run_inv_def by blast
      then show "p \<in> V" "pfn_is_valid (section_map g) p" using us usable_valid by auto
    qed
    have nB: "(0, p) \<notin> B"
    proof
      assume "(0, p) \<in> B"
      then have "blk 0 p \<subseteq> used_set B" using used_set_single_subset [of "(0, p)" B] by simp
      with fresh blk_self [of p 0] show False by blast
    qed
    have "kpt_live g U V ?s (insert ?pa A)" using F' A s us pa pV unfolding kpt_live_def by auto
    moreover have "kpt_live g U V ?s A" using F' A s us unfolding kpt_live_def by auto
    moreover have "?pa \<notin> A" using A nB pV(1) pa(1) by fastforce
    ultimately show ?thesis using run pa(2) by (cases "?pa = 0") auto
  qed
qed

lemma kpt_dealloc:
  assumes "kpt_live g U V s A" "pa \<in> A"
  shows "\<exists>s'. deallocate_page g s pa = Some (pa \<notin> meta_pages V, s') \<and> kpt_live g U V s' (if pa \<in> meta_pages V then A else A - {pa})"
proof -
  let ?p = "unat pa div 4096"
  obtain B F where B: "run_inv g U (g_buddy s) B F" and A: "\<forall>pa \<in> A. page_addr pa \<and> pfn_is_valid (section_map g) (unat pa div 4096) \<and>
      (unat pa div 4096 \<in> V \<longrightarrow> (0, unat pa div 4096) \<in> B)" and s: "g_tmpalloc s = None" "g_pfn_end g \<le> 2 ^ 40" "usable g (g_buddy s) = V"
    using assms unfolding kpt_live_def by blast
  have v: "pfn_is_valid (section_map g) ?p" using A assms(2) by blast
  have lt: "?p < g_pfn_end g" using B v lists_okD(1) unfolding run_inv_def buddy_inv_def by blast
  have at: "page_at g (g_buddy s) ?p = Some (pages (g_buddy s) ?p)" using lt by (simp add: page_at_def pfn_to_page_def)
  have bit: "flags (pages (g_buddy s) ?p) AND PAGE_FLAG_METADATA \<noteq> 0 \<longleftrightarrow> ?p \<notin> V"
  proof -
    have "flags (pages (g_buddy s) ?p) AND 1 = 0 \<longleftrightarrow> \<not> bit (flags (pages (g_buddy s) ?p)) 0" using and_exp_eq_0_iff_not_bit [of "flags (pages (g_buddy s) ?p)" 0] by simp
    then show ?thesis using s(3) v by (auto simp: usable_def)
  qed
  show ?thesis
  proof (cases "?p \<in> V")
    case False
    then have "deallocate_page g s pa = Some (False, s)" using at bit s(1) by (simp add: deallocate_page_def phys_to_pfn_def)
    then show ?thesis using False assms(1) by (simp add: meta_pages_def)
  next
    case True
    then have inB: "(0, ?p) \<in> B" using A assms(2) by blast
    obtain b' F' where f: "buddy_free g (g_buddy s) ?p 0 = Some b'" "run_inv g U b' (B - {(0, ?p)}) F'" using run_inv_free [OF B inB] by blast
    have us: "usable g b' = V" using free_usable [OF B inB f(1)] s(3) by simp
    have run: "deallocate_page g s pa = Some (True, s\<lparr>g_buddy := b'\<rparr>)"
      using at bit s(1) True f(1) by (simp add: deallocate_page_def phys_to_pfn_def mm_free_page_def)
    have "(0, unat q div 4096) \<in> B - {(0, ?p)}" if "q \<in> A - {pa}" "unat q div 4096 \<in> V" for q
      using A assms(2) that page_addr_eq [of q pa] by auto
    then have "kpt_live g U V (s\<lparr>g_buddy := b'\<rparr>) (A - {pa})" using f(2) A s us unfolding kpt_live_def by auto
    then show ?thesis using run True by (simp add: meta_pages_def)
  qed
qed

text \<open>
  The allocator fails when it has no free page left. Frame 0 is the one page that cannot be told from a failure, so nothing
  is known when the allocator manages it.
\<close>

definition kpt_short :: "nat set \<Rightarrow> page_sys \<Rightarrow> nat \<Rightarrow> bool" where
  "kpt_short U s n \<longleftrightarrow> 0 \<in> U \<or> buddy_get_free_pages (g_buddy s) < n"

lemma run_inv_alloc_page:
  assumes "run_inv g U b B F" "buddy_alloc g b 0 = Some (r, b')"
  shows "case r of None \<Rightarrow> free_pages b = 0 \<and> b' = b | Some p \<Rightarrow> p \<in> U \<and> free_pages b = Suc (free_pages b')"
proof -
  have inv: "buddy_inv g b F" and lo: "lists_ok g b F" and fp: "free_pages b = card (free_set F)" and fU: "free_set F \<subseteq> U"
    using assms(1) by (auto simp: run_inv_def buddy_inv_def)
  show ?thesis
  proof (cases "\<exists>k. 0 \<le> k \<and> k \<le> max_order b \<and> F k \<noteq> []")
    case False
    have "F k = []" for k
    proof (rule ccontr)
      assume ne: "F k \<noteq> []"
      then have "hd (F k) \<in> set (F k)" by simp
      then have "k \<le> max_order b" by (rule blocks_okD(1) [OF lists_okD(4) [OF lo]])
      with False ne show False by blast
    qed
    then have "free_set F = {}" by (simp add: free_set_def Mm_Buddy.blocks_def)
    then show ?thesis using False assms(2) buddy_alloc_fail [OF lo, of 0] fp by auto
  next
    case True
    obtain pfn c F' where a: "buddy_alloc g b 0 = Some (Some pfn, c)" "buddy_inv g c F'" "blk 0 pfn \<subseteq> free_set F" "free_set F' = free_set F - blk 0 pfn"
      using buddy_alloc_ok [OF inv _ True] by auto
    have p: "pfn \<in> free_set F" using a(3) blk_self [of pfn 0] by blast
    have "finite (free_set F)" by (rule finite_free_set [OF lo])
    then have "card (free_set F) = Suc (card (free_set F - {pfn}))" using p by (rule card.remove)
    moreover have "free_set F' = free_set F - {pfn}" using a(4) by (simp add: blk_def)
    ultimately have "free_pages b = Suc (free_pages c)" using fp a(2) by (simp add: buddy_inv_def)
    then show ?thesis using a(1) assms(2) p fU by auto
  qed
qed

lemma kpt_alloc_short:
  assumes "kpt_live g U V s A" "allocate_page g s = Some (pa, s')"
  shows "pa = 0 \<Longrightarrow> kpt_short U s 1 \<and> kpt_short U s' 1" "pa \<noteq> 0 \<Longrightarrow> kpt_short U s' n \<Longrightarrow> kpt_short U s (Suc n)"
proof -
  obtain B F where B: "run_inv g U (g_buddy s) B F" and s: "g_tmpalloc s = None" "g_pfn_end g \<le> 2 ^ 40" using assms(1) unfolding kpt_live_def by blast
  obtain r b' where r: "buddy_alloc g (g_buddy s) 0 = Some (r, b')" "s' = s\<lparr>g_buddy := b'\<rparr>" "pa = (case r of None \<Rightarrow> 0 | Some p \<Rightarrow> of_nat (pfn_to_phys p))"
    using assms(2) s(1) by (auto simp: allocate_page_def mm_alloc_page_def bind_eq_Some_conv)
  have c: "case r of None \<Rightarrow> free_pages (g_buddy s) = 0 \<and> b' = g_buddy s | Some p \<Rightarrow> p \<in> U \<and> free_pages (g_buddy s) = Suc (free_pages b')"
    by (rule run_inv_alloc_page [OF B r(1)])
  have zero: "p = 0" if "r = Some p" "pa = 0" for p
  proof -
    have "case Some p of None \<Rightarrow> b' = g_buddy s | Some p \<Rightarrow> (\<exists>F'. run_inv g U b' (insert (0, p) B) F') \<and> blk 0 p \<inter> used_set B = {}"
      using run_inv_alloc [OF B, of 0] unfolding r(1) that(1) by blast
    then obtain F' where "run_inv g U b' (insert (0, p) B) F'" by auto
    then have "p < 2 ^ 40" using run_inv_lt [of g U b' "insert (0, p) B" F' p] s(2) by simp
    then show ?thesis using frame_addr(1) [of p] r(3) that by simp
  qed
  show "kpt_short U s 1 \<and> kpt_short U s' 1" if "pa = 0"
    using c zero [OF _ that] r(2) by (cases r) (auto simp: kpt_short_def buddy_get_free_pages_def)
  show "kpt_short U s (Suc n)" if "pa \<noteq> 0" "kpt_short U s' n"
    using c that r(2,3) by (cases r) (auto simp: kpt_short_def buddy_get_free_pages_def)
qed

interpretation kpt: table_pages "allocate_page g" "deallocate_page g" "kpt_live g U V" "meta_pages V" "kpt_short U" for g U V
  by unfold_locales (rule kpt_alloc, assumption, rule kpt_dealloc, assumption+, rule kpt_alloc_short(1), assumption+, simp,
    rule kpt_alloc_short(2), assumption+, auto simp: kpt_short_def)

text \<open>The tables below \<open>t\<close> are well-formed, on pages \<open>A\<close> that the allocator knows to be in use.\<close>

abbreviation kpt_ok :: "pfn_globals \<Rightarrow> nat set \<Rightarrow> nat set \<Rightarrow> u64 \<Rightarrow> u64 set \<Rightarrow> page_sys ptstate \<Rightarrow> bool" where
  "kpt_ok g U V t A st \<equiv> tab_ok (kpt_live g U V) 4 t A st"

lemma kpt_lookup: "kpt_ok g U V t A st \<Longrightarrow> pagetable_lookup st t x = Some (map_option fst (translate (tables st) 4 t x))"
  by (simp add: pagetable_lookup_translate tab_ok_def)

section \<open>Cloning\<close>

text \<open>A copy of the root on a new page has the same translations and shares the tables below.\<close>

lemma clone_tables:
  assumes "wf_tab m (Suc n) t" "foot m (Suc n) t \<subseteq> A" "c \<notin> A" "m' = m(c := m t)"
  shows "wf_tab m' (Suc n) c" "foot m' (Suc n) c \<subseteq> insert c A" "leaf m' (Suc n) c x = leaf m (Suc n) t x" "\<forall>p \<in> A. m' p = m p"
proof -
  show same: "\<forall>p \<in> A. m' p = m p" using assms(3,4) by auto
  have mc: "m' c = m t" using assms(4) by simp
  have ch: "foot m n (entry_addr (m t i)) \<subseteq> A" if "i < 512" "is_table n (m t i)" for i
    using foot_child [where m = m and t = t, OF that] assms(2) by blast
  have sub: "\<forall>p \<in> foot m n (entry_addr (m t i)). m' p = m p" if "i < 512" "is_table n (m t i)" for i
    using ch [OF that] same by blast
  have f: "foot m' n (entry_addr (m t i)) = foot m n (entry_addr (m t i))" "wf_tab m' n (entry_addr (m t i)) = wf_tab m n (entry_addr (m t i))"
    if "i < 512" "is_table n (m t i)" for i
    using foot_cong [OF sub [OF that]] wf_cong [OF sub [OF that]] by simp_all
  show "wf_tab m' (Suc n) c"
    unfolding wf_tab.simps mc
  proof (intro conjI allI impI)
    fix i :: nat assume i: "i < 512"
    show "entry_ok n (m t i)" using wf_entry_ok [OF assms(1) i] .
    assume it: "is_table n (m t i)"
    show "wf_tab m' n (entry_addr (m t i))" using f(2) [OF i it] wf_child(1) [OF assms(1) i it] by simp
    show "c \<notin> foot m' n (entry_addr (m t i))" using f(1) [OF i it] ch [OF i it] assms(3) by blast
  next
    fix i j :: nat assume ij: "i < 512" "j < 512" "i \<noteq> j \<and> is_table n (m t i) \<and> is_table n (m t j)"
    then show "foot m' n (entry_addr (m t i)) \<inter> foot m' n (entry_addr (m t j)) = {}"
      using wf_children [OF assms(1)] f(1) by simp
  qed
  show "foot m' (Suc n) c \<subseteq> insert c A"
  proof
    fix p assume "p \<in> foot m' (Suc n) c"
    then show "p \<in> insert c A"
    proof (cases rule: foot_cases)
      case (2 i)
      then show ?thesis using f(1) ch unfolding mc by blast
    qed simp
  qed
  have "leaf m' n (entry_addr (m t (table_index (12 + 9 * n) x))) x = leaf m n (entry_addr (m t (table_index (12 + 9 * n) x))) x"
    if "is_table n (m t (table_index (12 + 9 * n) x))"
    using leaf_cong [OF sub [OF table_index_lt that]] .
  then show "leaf m' (Suc n) c x = leaf m (Suc n) t x" by (auto simp: leaf.simps mc is_table_def Let_def)
qed

lemma clone_frame:
  assumes "kpt_live g U V s A" "DIRECT_MAP_START_VIRT + g_pfn_end g * 4096 \<le> DIRECT_MAP_END_VIRT"
  shows "\<exists>p b'. mm_alloc_page_ptr g (g_buddy s) 0 = Some (p, b') \<and>
    (case p of None \<Rightarrow> kpt_live g U V (s\<lparr>g_buddy := b'\<rparr>) A
     | Some va \<Rightarrow> virt_to_phys_direct va \<notin> A \<and> kpt_live g U V (s\<lparr>g_buddy := b'\<rparr>) (insert (virt_to_phys_direct va) A))"
proof -
  obtain B F where B: "run_inv g U (g_buddy s) B F" and A: "\<forall>pa \<in> A. page_addr pa \<and> pfn_is_valid (section_map g) (unat pa div 4096) \<and>
      (unat pa div 4096 \<in> V \<longrightarrow> (0, unat pa div 4096) \<in> B)" and s: "g_tmpalloc s = None" "g_pfn_end g \<le> 2 ^ 40" "usable g (g_buddy s) = V"
    using assms(1) unfolding kpt_live_def by blast
  obtain r b' where r: "mm_alloc_page_ptr g (g_buddy s) 0 = Some (r, b')" "case r of None \<Rightarrow> b' = g_buddy s
     | Some q \<Rightarrow> \<exists>p F'. q = DIRECT_MAP_START_VIRT + p * 4096 \<and> run_inv g U b' (insert (0, p) B) F' \<and> (0, p) \<notin> B"
    using mm_alloc_ptr_eq [OF B assms(2), of 0] by blast
  show ?thesis
  proof (cases r)
    case None
    then show ?thesis using r assms(1) by auto
  next
    case (Some q)
    then obtain p F' where q: "q = DIRECT_MAP_START_VIRT + p * 4096" and F': "run_inv g U b' (insert (0, p) B) F'" "(0, p) \<notin> B" using r(2) by auto
    have p: "p < 2 ^ 40" using run_inv_lt [OF F'(1)] s(2) by (meson insertI1 less_le_trans)
    have pa: "virt_to_phys_direct q = of_nat (pfn_to_phys p)" using p unfolding virt_to_phys_direct_def q pfn_to_phys_def by simp
    obtain pf where "buddy_alloc g (g_buddy s) 0 = Some (pf, b')" using r(1) unfolding mm_alloc_page_ptr_def by (auto simp: Option.bind_eq_Some_conv split: option.splits)
    then have us: "usable g b' = V" using alloc_usable [OF B] s(3) by simp
    have "p \<in> used_set (insert (0, p) B)" using blk_self [of p 0] by (simp add: used_set_insert)
    then have "p \<in> usable g b'" using F'(1) unfolding run_inv_def by blast
    then have pV: "p \<in> V" "pfn_is_valid (section_map g) p" using us usable_valid by auto
    note fa = frame_addr [OF p]
    have "kpt_live g U V (s\<lparr>g_buddy := b'\<rparr>) (insert (virt_to_phys_direct q) A)"
      using F'(1) A s us fa pV unfolding kpt_live_def pa by auto
    moreover have "virt_to_phys_direct q \<notin> A" unfolding pa using A F'(2) pV(1) fa(1) by fastforce
    ultimately show ?thesis using r(1) Some by auto
  qed
qed

section \<open>Properties\<close>

lemma demo_aligned: "range_aligned (unat (0x400000 :: u64)) (unat (0x1000 :: u64))"
  unfolding range_aligned_def
proof (intro allI impI)
  fix k :: nat assume k: "k < 4" "k = 0 \<or> 2 ^ (12 + 9 * k) \<le> unat (0x1000 :: u64)"
  have "k = 0" using k(2) power_increasing [of 21 "12 + 9 * k" "2 :: nat"] by (cases k) auto
  then show "unat (0x400000 :: u64) mod 2 ^ (12 + 9 * k) = 0" by simp
qed

lemma demo_table:
  obtains U V t st where "kpt_ok demo_globals U V t {t} st" "tables st = (\<lambda>_ _. 0)" "tlb st = []"
    "0 \<notin> U" "buddy_get_free_pages (g_buddy (page_alloc st)) = 7"
proof -
  obtain b F where b: "buddy_create demo_globals demo_buddy demo_sections = Some b" "buddy_inv demo_globals b F" "coalesced (max_order b) F"
    "free_set F = {8..<16}" using demo_create by blast
  have "8 \<in> free_set F" using b(4) by simp
  then obtain k p where "p \<in> set (F k)" by (auto simp: Mm_Buddy.free_set_def Mm_Buddy.blocks_def)
  moreover from this b(2) have "k \<le> max_order b" using blocks_okD(1) lists_okD(4) unfolding buddy_inv_def by blast
  ultimately have ex: "\<exists>k. 0 \<le> k \<and> k \<le> max_order b \<and> F k \<noteq> []" by force
  note start = run_inv_start [OF b(2,3)]
  obtain pfn b' where al: "buddy_alloc demo_globals b 0 = Some (Some pfn, b')" using buddy_alloc_ok [OF b(2) _ ex] by auto
  have "free_pages b = Suc (free_pages b')" using run_inv_alloc_page [OF start al] by simp
  moreover have "free_pages b = 8" using b(2,4) by (simp add: buddy_inv_def)
  ultimately have fp: "buddy_get_free_pages b' = 7" by (simp add: buddy_get_free_pages_def)
  from al obtain F' where F': "run_inv demo_globals (free_set F) b' {(0, pfn)} F'" using run_inv_alloc [OF start, of 0] by auto
  let ?s = "\<lparr>g_tmpalloc = None, g_buddy = b'\<rparr>" and ?t = "of_nat (pfn_to_phys pfn) :: u64"
  have p: "pfn < 2 ^ 40" using run_inv_lt [OF F'] by simp
  have "pfn \<in> usable demo_globals b'" using F' blk_self [of pfn 0] unfolding run_inv_def by auto
  then have "pfn_is_valid demo_sections pfn" using usable_valid [of pfn demo_globals b'] by simp
  then have "kpt_live demo_globals (free_set F) (usable demo_globals b') ?s {?t}"
    unfolding kpt_live_def using F' frame_addr [OF p] by (auto intro!: exI [of _ "{(0, pfn)}"] exI [of _ F'])
  then have "kpt_ok demo_globals (free_set F) (usable demo_globals b') ?t {?t} \<lparr>page_alloc = ?s, g_direct_ready = True, tables = \<lambda>_ _. 0, tlb = []\<rparr>"
    using kpt.wf_zero [of "\<lambda>_ _. 0" ?t 4] by (simp add: tab_ok_def)
  then show ?thesis by (rule that) (simp_all add: b(4) fp)
qed

lemma demo_lookup: "kpt_ok g U V t A st \<Longrightarrow> tables st = (\<lambda>_ _. 0) \<Longrightarrow> pagetable_lookup st t x = Some None"
  using kpt_lookup [of g U V t A st x] kpt.leaf_zero [of "tables st" t 4] by (simp add: translate_def)

lemma demo_pre:
  "map_flags 3" "unat (0x400000 :: u64) mod 4096 = 0" "(0x400000 :: u64) \<noteq> 0" "unat (0x1000 :: u64) mod 4096 = 0"
  "unat (0x1000 :: u64) + unat (0x1000 :: u64) \<le> 2 ^ 52" "unat (0x1000 :: u64) \<le> 2 ^ 48" "unat (0x400000 :: u64) + unat (0x1000 :: u64) + 2 ^ 39 \<le> 2 ^ 64"
  by (simp_all add: map_flags_def bit_numeral_rec)

lemma demo_map:
  assumes "kpt_ok demo_globals U V t A st" "tables st = (\<lambda>_ _. 0)" "0 \<notin> U" "buddy_get_free_pages (g_buddy (page_alloc st)) = 7"
  obtains st' A' where "pagetable_map (allocate_page demo_globals) (deallocate_page demo_globals) st t 0x400000 0x1000 0x1000 3 = Some (0x401000, st')"
    "kpt_ok demo_globals U V t A' st'" "pagetable_lookup st' t 0x400000 = Some (Some 0x1000)"
proof -
  have tr: "translate (tables st) 4 t x = None" for x using demo_lookup [OF assms(1,2)] kpt_lookup [OF assms(1), of x] by simp
  obtain va' st' A' where r: "pagetable_map (allocate_page demo_globals) (deallocate_page demo_globals) st t 0x400000 0x1000 0x1000 3 = Some (va', st')"
      "kpt_ok demo_globals U V t A' st'"
      "va' = 0x400000 + 0x1000 \<and> (\<forall>x. translate (tables st') 4 t x =
         (if offset 0x400000 x < unat (0x1000 :: u64) then Some (0x1000 + of_nat (offset 0x400000 x), 3) else translate (tables st) 4 t x)) \<or>
       (small_pages 0x400000 0x1000 0x1000 \<longrightarrow> (\<exists>x. offset 0x400000 x < unat (0x1000 :: u64) \<and> translate (tables st) 4 t x \<noteq> None) \<or>
          kpt_short U (page_alloc st) (3 * (unat (0x1000 :: u64) div 4096)))"
    using kpt.pagetable_map_ok [OF assms(1) demo_pre(1,2,3,4,4,5,6,7) demo_aligned] by blast
  then have va': "va' = 0x400000 + 0x1000" and t: "\<forall>x. translate (tables st') 4 t x =
         (if offset 0x400000 x < unat (0x1000 :: u64) then Some (0x1000 + of_nat (offset 0x400000 x), 3) else translate (tables st) 4 t x)"
    using assms(3,4) tr by (simp_all add: small_pages_def kpt_short_def)
  have "offset 0x400000 0x400000 = 0" by (simp add: offset_def)
  then have "pagetable_lookup st' t 0x400000 = Some (Some 0x1000)" using t [rule_format, of "0x400000"] kpt_lookup [OF r(2), of "0x400000"] by simp
  with r(1,2) va' show ?thesis using that by simp
qed

lemma same_block_agree:
  fixes x va :: u64
  assumes "unat x div 2 ^ 21 = unat va div 2 ^ 21"
  shows "agree 1 4 va x"
proof -
  have "unat x div 2 ^ (12 + 9 * j) = unat va div 2 ^ (12 + 9 * j)" if "1 \<le> j" for j
  proof -
    have e: "(2 :: nat) ^ (12 + 9 * j) = 2 ^ 21 * 2 ^ (9 * j - 9)" using that by (simp only: power_add [symmetric]) (simp add: algebra_simps)
    show ?thesis unfolding e div_mult2_eq assms ..
  qed
  then show ?thesis by (simp add: agree_def table_index_unat)
qed

text \<open>Looking an address up in well-formed tables walks the levels of the page table as the processor does: it yields the
  address of the page, of 4 KiB or 2 MiB, that the first present leaf entry on the walk names, and fails exactly when there is none.\<close>

theorem pagetable_lookup_correct:
  assumes "kpt_ok g U V t A st"
  shows "pagetable_lookup st t x = Some (map_option fst (translate (tables st) 4 t x))"
  using assms by (rule kpt_lookup)

theorem pagetable_lookup_correct_witness:
  "\<exists>U V t st. kpt_ok demo_globals U V t {t} st \<and> pagetable_lookup st t 0x1000 = Some None"
proof -
  obtain U V t st where d: "kpt_ok demo_globals U V t {t} st" "tables st = (\<lambda>_ _. 0)" using demo_table .
  have "translate (tables st) 4 t 0x1000 = None" using d(2) kpt.leaf_zero [of "tables st" t 4] by (simp add: translate_def)
  then show ?thesis using pagetable_lookup_correct [OF d(1), of "0x1000"] d(1) by fastforce
qed

text \<open>C37. Mapping a range of pages whose start is a multiple of each block size up to its length, with the kernel's page allocator,
  returns: either the end of the range, and then no page of it was mapped before, each is mapped to its frame with the given
  attributes, and no other translation changed; or 0, and then no translation changed at all. For a range that is mapped with
  4 KiB pages only, 0 is returned only when an address of it was mapped before or the allocator has fewer free pages than three
  per page of the range (or manages frame 0, whose address reads as a failure). Tables in other pages are untouched.\<close>

theorem pagetable_map_correct:
  assumes "kpt_ok g U V t A st" "map_flags fl" "unat va mod 4096 = 0" "va \<noteq> 0" "unat pa mod 4096 = 0" "unat len mod 4096 = 0"
    "unat pa + unat len \<le> 2 ^ 52" "unat len \<le> 2 ^ 48" "unat va + unat len + 2 ^ 39 \<le> 2 ^ 64" "range_aligned (unat va) (unat len)"
  shows "\<exists>va' st' A'. pagetable_map (allocate_page g) (deallocate_page g) st t va pa len fl = Some (va', st') \<and> kpt_ok g U V t A' st' \<and>
    (\<forall>p \<in> A - foot (tables st) 4 t. p \<in> A' \<and> tables st' p = tables st p) \<and>
    (va' = va + len \<and> (\<forall>x. if offset va x < unat len
         then pagetable_lookup st t x = Some None \<and> pagetable_lookup st' t x = Some (Some (pa + of_nat (offset va x))) \<and>
              translate (tables st') 4 t x = Some (pa + of_nat (offset va x), fl)
         else translate (tables st') 4 t x = translate (tables st) 4 t x) \<or>
     va' = 0 \<and> (\<forall>x. translate (tables st') 4 t x = translate (tables st) 4 t x) \<and>
       (small_pages va pa len \<longrightarrow> (\<exists>x. offset va x < unat len \<and> pagetable_lookup st t x \<noteq> Some None) \<or>
          0 \<in> U \<or> buddy_get_free_pages (g_buddy (page_alloc st)) < 3 * (unat len div 4096)))"
proof -
  obtain va' st' A' where r: "pagetable_map (allocate_page g) (deallocate_page g) st t va pa len fl = Some (va', st')" "kpt_ok g U V t A' st'"
      "evolves 4 t (tables st) A (tables st') A'"
      "va' = va + len \<and> (\<forall>x. translate (tables st') 4 t x = (if offset va x < unat len then Some (pa + of_nat (offset va x), fl) else translate (tables st) 4 t x)) \<and>
       (\<forall>x. offset va x < unat len \<longrightarrow> translate (tables st) 4 t x = None) \<or>
       va' = 0 \<and> (\<forall>x. translate (tables st') 4 t x = translate (tables st) 4 t x) \<and>
       (small_pages va pa len \<longrightarrow> (\<exists>x. offset va x < unat len \<and> translate (tables st) 4 t x \<noteq> None) \<or> kpt_short U (page_alloc st) (3 * (unat len div 4096)))"
    using kpt.pagetable_map_ok [OF assms] by blast
  have "\<forall>p \<in> A - foot (tables st) 4 t. p \<in> A' \<and> tables st' p = tables st p" using r(3) unfolding evolves_def by blast
  moreover note kpt_lookup [OF assms(1)] kpt_lookup [OF r(2)]
  ultimately show ?thesis using r(1,2,4) unfolding kpt_short_def by (intro exI [of _ va'] exI [of _ st'] exI [of _ A'] conjI) auto
qed

theorem pagetable_map_correct_witness:
  "\<exists>U V t st st'. kpt_ok demo_globals U V t {t} st \<and> pagetable_map (allocate_page demo_globals) (deallocate_page demo_globals) st t 0x400000 0x1000 0x1000 3 = Some (0x401000, st') \<and>
     pagetable_lookup st' t 0x400000 = Some (Some 0x1000)"
proof -
  obtain U V t st where d: "kpt_ok demo_globals U V t {t} st" "tables st = (\<lambda>_ _. 0)" "0 \<notin> U" "buddy_get_free_pages (g_buddy (page_alloc st)) = 7" using demo_table .
  obtain va' st' where r: "pagetable_map (allocate_page demo_globals) (deallocate_page demo_globals) st t 0x400000 0x1000 0x1000 3 = Some (va', st')"
      and c: "va' = 0x400000 + 0x1000 \<and> (\<forall>x. if offset 0x400000 x < unat (0x1000 :: u64)
         then pagetable_lookup st t x = Some None \<and> pagetable_lookup st' t x = Some (Some (0x1000 + of_nat (offset 0x400000 x))) \<and>
              translate (tables st') 4 t x = Some (0x1000 + of_nat (offset 0x400000 x), 3)
         else translate (tables st') 4 t x = translate (tables st) 4 t x) \<or>
     va' = 0 \<and> (\<forall>x. translate (tables st') 4 t x = translate (tables st) 4 t x) \<and>
       (small_pages 0x400000 0x1000 0x1000 \<longrightarrow> (\<exists>x. offset 0x400000 x < unat (0x1000 :: u64) \<and> pagetable_lookup st t x \<noteq> Some None) \<or>
          0 \<in> U \<or> buddy_get_free_pages (g_buddy (page_alloc st)) < 3 * (unat (0x1000 :: u64) div 4096))"
    using pagetable_map_correct [OF d(1) demo_pre(1,2,3,4,4,5,6,7) demo_aligned] by (elim exE conjE) (rule that)
  have "\<not> (small_pages 0x400000 0x1000 0x1000 \<longrightarrow> (\<exists>x. offset 0x400000 x < unat (0x1000 :: u64) \<and> pagetable_lookup st t x \<noteq> Some None) \<or>
          0 \<in> U \<or> buddy_get_free_pages (g_buddy (page_alloc st)) < 3 * (unat (0x1000 :: u64) div 4096))"
    using d(3,4) demo_lookup [OF d(1,2)] by (simp add: small_pages_def)
  with c have c': "va' = 0x400000 + 0x1000" "\<forall>x. if offset 0x400000 x < unat (0x1000 :: u64)
         then pagetable_lookup st t x = Some None \<and> pagetable_lookup st' t x = Some (Some (0x1000 + of_nat (offset 0x400000 x))) \<and>
              translate (tables st') 4 t x = Some (0x1000 + of_nat (offset 0x400000 x), 3)
         else translate (tables st') 4 t x = translate (tables st) 4 t x" by blast+
  have "offset 0x400000 0x400000 = 0" by (simp add: offset_def)
  then have "pagetable_lookup st' t 0x400000 = Some (Some 0x1000)" using c'(2) [rule_format, of "0x400000"] by simp
  then show ?thesis using d(1) r c'(1) by (intro exI [of _ U] exI [of _ V] exI [of _ t] exI [of _ st] exI [of _ st']) simp
qed

text \<open>C38. Unmapping a range whose start is a multiple of each block size up to its length returns: the addresses up to the returned
  one are no longer mapped, those outside the range keep their translations and tables in other pages are untouched.
  The call stops before the end of the range only at a 2 MiB page that reaches beyond it, when the allocator has no free page to
  split it (or manages frame 0, whose address reads as a failure).
  With the flush requested, the whole translation buffer is flushed or every page that lost its translation is.\<close>

theorem pagetable_unmap_correct:
  assumes "kpt_ok g U V t A st" "unat va mod 4096 = 0" "unat len mod 4096 = 0" "unat va + unat len + 2 ^ 39 \<le> 2 ^ 64" "unat len \<le> 2 ^ 48"
    "range_aligned (unat va) (unat len)"
  shows "\<exists>va' st' A' L. pagetable_unmap (allocate_page g) (deallocate_page g) st t va len flush = Some (va', st') \<and> kpt_ok g U V t A' st' \<and>
    (\<forall>p \<in> A - foot (tables st) 4 t. p \<in> A' \<and> tables st' p = tables st p) \<and>
    unat va \<le> unat va' \<and> unat va' \<le> unat va + unat len \<and>
    (\<forall>x. offset va x < unat va' - unat va \<longrightarrow> pagetable_lookup st' t x = Some None) \<and>
    (\<forall>x. \<not> offset va x < unat len \<longrightarrow> translate (tables st') 4 t x = translate (tables st) 4 t x) \<and>
    (va' \<noteq> va + len \<longrightarrow> (\<exists>k e. leaf (tables st') 4 t va' = Some (k, e) \<and> k \<noteq> 0) \<and> unat va + unat len < unat va' + 2 ^ 21 \<and>
       (0 \<in> U \<or> buddy_get_free_pages (g_buddy (page_alloc st')) = 0)) \<and>
    tlb st' = tlb st @ L \<and>
    (flush \<longrightarrow> Reload_Cr3 \<in> set L \<or>
      (\<forall>x. translate (tables st) 4 t x \<noteq> None \<and> translate (tables st') 4 t x = None \<longrightarrow> (\<exists>v. Invlpg v \<in> set L \<and> offset v x < 4096)))"
proof -
  let ?inv = "flush \<and> len < HUGE_PAGE_SIZE"
  obtain va' st' st1 where r: "pagetable_unmap (allocate_page g) (deallocate_page g) st t va len flush = Some (va', st')"
      "unmap_loop_post (kpt_live g U V) (kpt_short U) t A st va va (va + len) ?inv va' st1" "st' = (if flush \<and> \<not> len < HUGE_PAGE_SIZE then log_tlb Reload_Cr3 st1 else st1)"
    using kpt.pagetable_unmap_ok [OF assms] by blast
  have e: "unat (va + len) = unat va + unat len" using assms(4) by (simp add: unat_add_no_wrap)
  obtain A' S L where p: "evolves 4 t (tables st) A (tables st1) A'" "kpt_live g U V (page_alloc st1) A'" "g_direct_ready st1" "tlb st1 = tlb st @ L"
      and u: "updated 4 t (tables st) (tables st1) S (\<lambda>_. None) False" "\<forall>x. S x \<longrightarrow> offset va x < unat len"
      and v: "unat va \<le> unat va'" "unat va' \<le> unat va + unat len" "\<forall>x. offset va x < unat va' - unat va \<longrightarrow> translate (tables st1) 4 t x = None"
        "va' \<noteq> va + len \<longrightarrow> (\<exists>k e. leaf (tables st1) 4 t va' = Some (k, e) \<and> k \<noteq> 0) \<and> unat va + unat len < unat va' + 2 ^ 21 \<and> kpt_short U (page_alloc st1) 1"
      and f: "?inv \<and> unat len < 2 ^ 21 \<longrightarrow> (\<forall>x. S x \<and> translate (tables st) 4 t x \<noteq> None \<longrightarrow> (\<exists>v. Invlpg v \<in> set L \<and> offset v x < 4096))"
    using r(2) unfolding unmap_loop_post_def e add_diff_cancel_left' by blast
  have st': "tables st' = tables st1" "page_alloc st' = page_alloc st1" "g_direct_ready st' = g_direct_ready st1"
      "tlb st' = tlb st @ (if flush \<and> \<not> len < HUGE_PAGE_SIZE then L @ [Reload_Cr3] else L)"
    using r(3) p(4) by (simp_all add: log_tlb_def)
  have ok: "kpt_ok g U V t A' st'" using p st' by (simp add: tab_ok_def evolves_def)
  have removed: "S x" if "translate (tables st) 4 t x \<noteq> None" "translate (tables st1) 4 t x = None" for x
    using u(1) that unfolding updated_def by metis
  have "len < HUGE_PAGE_SIZE \<longleftrightarrow> unat len < 2 ^ 21" by (simp add: word_less_nat_alt)
  then have fl: "flush \<longrightarrow> Reload_Cr3 \<in> set (if flush \<and> \<not> len < HUGE_PAGE_SIZE then L @ [Reload_Cr3] else L) \<or>
      (\<forall>x. translate (tables st) 4 t x \<noteq> None \<and> translate (tables st1) 4 t x = None \<longrightarrow>
        (\<exists>v. Invlpg v \<in> set (if flush \<and> \<not> len < HUGE_PAGE_SIZE then L @ [Reload_Cr3] else L) \<and> offset v x < 4096))"
    using f removed by (cases "len < HUGE_PAGE_SIZE") auto
  have "\<forall>p \<in> A - foot (tables st) 4 t. p \<in> A' \<and> tables st1 p = tables st p" using p(1) unfolding evolves_def by blast
  moreover have "\<forall>x. offset va x < unat va' - unat va \<longrightarrow> pagetable_lookup st' t x = Some None" using v(3) kpt_lookup [OF ok] st'(1) by simp
  moreover have "\<forall>x. \<not> offset va x < unat len \<longrightarrow> translate (tables st1) 4 t x = translate (tables st) 4 t x" using u unfolding updated_def by auto
  moreover have "va' \<noteq> va + len \<longrightarrow> (\<exists>k e. leaf (tables st1) 4 t va' = Some (k, e) \<and> k \<noteq> 0) \<and> unat va + unat len < unat va' + 2 ^ 21 \<and>
      (0 \<in> U \<or> buddy_get_free_pages (g_buddy (page_alloc st')) = 0)"
    using v(4) unfolding kpt_short_def st'(2) less_one .
  ultimately show ?thesis using r(1) ok v(1,2) fl st'(4) unfolding st'(1) [symmetric]
    by (intro exI [of _ va'] exI [of _ st'] exI [of _ A'] exI [of _ "if flush \<and> \<not> len < HUGE_PAGE_SIZE then L @ [Reload_Cr3] else L"]) blast
qed

theorem pagetable_unmap_correct_witness:
  "\<exists>U V t st. kpt_ok demo_globals U V t {t} st \<and> (\<exists>va' st'. pagetable_unmap (allocate_page demo_globals) (deallocate_page demo_globals) st t 0x400000 0x1000 True = Some (va', st') \<and>
     va' \<le> 0x401000 \<and> (\<exists>A'. kpt_ok demo_globals U V t A' st'))"
proof -
  obtain U V t st where d: "kpt_ok demo_globals U V t {t} st" using demo_table .
  obtain va' st' A' where r: "pagetable_unmap (allocate_page demo_globals) (deallocate_page demo_globals) st t 0x400000 0x1000 True = Some (va', st')"
      "kpt_ok demo_globals U V t A' st'" "unat va' \<le> 0x401000"
    using pagetable_unmap_correct [OF d, where va = "0x400000" and len = "0x1000" and flush = True] demo_aligned by auto
  have "va' \<le> 0x401000" using r(3) by (simp add: word_le_nat_alt)
  then show ?thesis using d r(1,2) by blast
qed

text \<open>A new address space starts as a copy of the kernel's: unless no page is left, it has a root of its own, every address translates
  as in the kernel's tables, both are well-formed, and no other table is written.\<close>

theorem pagetable_create_correct:
  assumes "kpt_ok g U V t A st" "DIRECT_MAP_START_VIRT + g_pfn_end g * 4096 \<le> DIRECT_MAP_END_VIRT"
  shows "\<exists>r st'. pagetable_create g st t = Some (r, st') \<and> (case r of
      None \<Rightarrow> tables st' = tables st \<and> kpt_ok g U V t A st'
    | Some c \<Rightarrow> c \<notin> A \<and> kpt_ok g U V c (insert c A) st' \<and> kpt_ok g U V t (insert c A) st' \<and>
        (\<forall>x. pagetable_lookup st' c x = pagetable_lookup st t x \<and> pagetable_lookup st' t x = pagetable_lookup st t x) \<and>
        (\<forall>p. p \<noteq> c \<longrightarrow> tables st' p = tables st p))"
proof -
  have w: "wf_tab (tables st) 4 t" "foot (tables st) 4 t \<subseteq> A" "kpt_live g U V (page_alloc st) A" "g_direct_ready st"
    using assms(1) by (auto simp: tab_ok_def)
  obtain p b' where p: "mm_alloc_page_ptr g (g_buddy (page_alloc st)) 0 = Some (p, b')"
      "case p of None \<Rightarrow> kpt_live g U V ((page_alloc st)\<lparr>g_buddy := b'\<rparr>) A
       | Some va \<Rightarrow> virt_to_phys_direct va \<notin> A \<and> kpt_live g U V ((page_alloc st)\<lparr>g_buddy := b'\<rparr>) (insert (virt_to_phys_direct va) A)"
    using clone_frame [OF w(3) assms(2)] by blast
  show ?thesis
  proof (cases p)
    case None
    then show ?thesis using p w
      by (intro exI [of _ None] exI [of _ "st\<lparr>page_alloc := (page_alloc st)\<lparr>g_buddy := b'\<rparr>\<rparr>"]) (simp add: pagetable_create_def pagetable_clone_def tab_ok_def)
  next
    case (Some va)
    define c where "c = virt_to_phys_direct va"
    define m' where "m' = (tables st)(c := tables st t)"
    let ?st = "st\<lparr>page_alloc := (page_alloc st)\<lparr>g_buddy := b'\<rparr>, tables := m'\<rparr>"
    have run: "pagetable_create g st t = Some (Some c, ?st)"
      using p(1) Some by (simp add: pagetable_create_def pagetable_clone_def write_table_def Let_def c_def m'_def)
    have c: "c \<notin> A" "kpt_live g U V (page_alloc ?st) (insert c A)" using p(2) Some by (simp_all add: c_def)
    have n4: "4 = Suc 3" by simp
    note cl = clone_tables [OF w(1,2) [unfolded n4] c(1) m'_def, folded n4]
    have c1: "kpt_ok g U V c (insert c A) ?st" using cl(1,2) c(2) w(4) by (simp add: tab_ok_def)
    have same: "\<forall>p \<in> foot (tables st) 4 t. m' p = tables st p" using cl(4) w(2) by blast
    have t1: "kpt_ok g U V t (insert c A) ?st"
      using foot_cong [OF same] wf_cong [OF same] w c(2) by (auto simp: tab_ok_def)
    have "pagetable_lookup ?st c x = pagetable_lookup st t x" for x
      using kpt_lookup [OF c1] kpt_lookup [OF assms(1)] cl(3) [of x] by (simp add: translate_def)
    moreover have "pagetable_lookup ?st t x = pagetable_lookup st t x" for x
      using kpt_lookup [OF t1] kpt_lookup [OF assms(1)] leaf_cong [OF same, of x] by (simp add: translate_def)
    ultimately show ?thesis using run c(1) c1 t1 by (intro exI [of _ "Some c"] exI [of _ ?st]) (simp add: m'_def)
  qed
qed

theorem pagetable_create_correct_witness:
  "\<exists>U V t st. kpt_ok demo_globals U V t {t} st \<and> (\<exists>r st'. pagetable_create demo_globals st t = Some (r, st') \<and>
     (\<forall>c. r = Some c \<longrightarrow> c \<noteq> t \<and> pagetable_lookup st' c 0x1000 = pagetable_lookup st t 0x1000))"
proof -
  obtain U V t st where d: "kpt_ok demo_globals U V t {t} st" using demo_table .
  obtain r st' where r: "pagetable_create demo_globals st t = Some (r, st')"
      "case r of None \<Rightarrow> True | Some c \<Rightarrow> c \<notin> {t} \<and> (\<forall>x. pagetable_lookup st' c x = pagetable_lookup st t x)"
    using pagetable_create_correct [OF d] by (auto split: option.splits)
  then show ?thesis using d by (intro exI [of _ U] exI [of _ V] exI [of _ t] exI [of _ st]) (auto split: option.splits)
qed

text \<open>C39. Unmapping tests only whether a whole block fits between the current address and the end of the range, not whether the
  address is the start of the block. So whenever a range of 2 MiB or more is unmapped, from any page of a 2 MiB block, every page
  of that block loses its mapping, those before the range with the others.\<close>

theorem unmap_beyond_range:
  fixes va :: u64
  assumes "kpt_ok g U V t A st" "unat va mod 4096 = 0" "unat len mod 4096 = 0" "unat va + unat len + 2 ^ 39 \<le> 2 ^ 64" "2 ^ 21 \<le> unat len"
  shows "\<exists>va' st' A'. pagetable_unmap (allocate_page g) (deallocate_page g) st t va len flush = Some (va', st') \<and> kpt_ok g U V t A' st' \<and>
    (\<forall>x :: u64. unat x div 2 ^ 21 = unat va div 2 ^ 21 \<longrightarrow> pagetable_lookup st' t x = Some None)"
proof -
  obtain va' st' A' where r: "pagetable_unmap (allocate_page g) (deallocate_page g) st t va len flush = Some (va', st')" "kpt_ok g U V t A' st'"
      "\<forall>x. agree 1 4 va x \<longrightarrow> translate (tables st') 4 t x = None"
    using kpt.pagetable_unmap_block [OF assms] by blast
  have "pagetable_lookup st' t x = Some None" if "unat x div 2 ^ 21 = unat va div 2 ^ 21" for x :: u64
    using r(3) [rule_format, OF same_block_agree [OF that]] kpt_lookup [OF r(2), of x] by simp
  then show ?thesis using r(1,2) by blast
qed

theorem unmap_beyond_range_witness:
  "\<exists>U V t st st'. kpt_ok demo_globals U V t {t} st \<and> pagetable_map (allocate_page demo_globals) (deallocate_page demo_globals) st t 0x400000 0x1000 0x1000 3 = Some (0x401000, st') \<and>
     pagetable_lookup st' t 0x400000 = Some (Some 0x1000) \<and>
     (\<exists>va' st''. pagetable_unmap (allocate_page demo_globals) (deallocate_page demo_globals) st' t 0x401000 0x200000 False = Some (va', st'') \<and>
       pagetable_lookup st'' t 0x400000 = Some None)"
proof -
  obtain U V t st where d: "kpt_ok demo_globals U V t {t} st" "tables st = (\<lambda>_ _. 0)" "0 \<notin> U" "buddy_get_free_pages (g_buddy (page_alloc st)) = 7" using demo_table .
  obtain st' A' where m: "pagetable_map (allocate_page demo_globals) (deallocate_page demo_globals) st t 0x400000 0x1000 0x1000 3 = Some (0x401000, st')"
      "kpt_ok demo_globals U V t A' st'" "pagetable_lookup st' t 0x400000 = Some (Some 0x1000)" using demo_map [OF d] .
  have pre: "unat (0x401000 :: u64) mod 4096 = 0" "unat (0x200000 :: u64) mod 4096 = 0" "unat (0x401000 :: u64) + unat (0x200000 :: u64) + 2 ^ 39 \<le> 2 ^ 64"
    "2 ^ 21 \<le> unat (0x200000 :: u64)" "unat (0x400000 :: u64) div 2 ^ 21 = unat (0x401000 :: u64) div 2 ^ 21" by simp_all
  obtain va' st'' where "pagetable_unmap (allocate_page demo_globals) (deallocate_page demo_globals) st' t 0x401000 0x200000 False = Some (va', st'')"
      "\<forall>x :: u64. unat x div 2 ^ 21 = unat (0x401000 :: u64) div 2 ^ 21 \<longrightarrow> pagetable_lookup st'' t x = Some None"
    using unmap_beyond_range [OF m(2) pre(1-4), of False] by blast
  then show ?thesis using d(1) m(1,3) pre(5) by blast
qed

end
