(* ===== verification/Task_Filetable.thy ===== *)
theory Task_Filetable
  imports Kc_Errno
begin

unbundle bit_operations_syntax

text \<open>
  \<open>kernel/src/task/filetable.c\<close>: the table of open files of a process, an array of file pointers with
  a bitmap of the slots in use, which starts inside the structure and moves to the heap when it
  grows. Files are identified by naturals; their reference counts (\<open>file_retain\<close>, \<open>file_release\<close>
  of \<open>kernel/src/fs/vfs.c\<close>) are part of the state. What \<^verbatim>\<open>kzalloc_span\<close> grants for a request (the
  size of the block, or nothing) and whether the second allocation succeeds are arguments of the
  operations that may grow the table. Table indices and sizes are at most 8193, so the 32-bit
  arithmetic of the C code does not wrap and is done on naturals.
\<close>

section \<open>Model\<close>

abbreviation FD_MAX :: nat where "FD_MAX \<equiv> 8192"
abbreviation BITMAP_UNIT :: nat where "BITMAP_UNIT \<equiv> 64"
abbreviation FDTBL_INLINE_SIZE :: nat where "FDTBL_INLINE_SIZE \<equiv> 64"
abbreviation MAX_REFC :: nat where "MAX_REFC \<equiv> 2 ^ 31 - 1"

record filetable =
  files :: "nat option list"
  bitmap :: "u64 list"
  capacity :: nat
  count :: nat
  end_fd :: nat
  next_fd :: nat

record file_refs =
  refcount :: "nat \<Rightarrow> nat"
  closed :: "nat list"

definition file_retain :: "file_refs \<Rightarrow> nat \<Rightarrow> file_refs option" where
  "file_retain r file = do {
     kassert (refcount r file < MAX_REFC);
     Some (r\<lparr>refcount := (refcount r)(file := refcount r file + 1)\<rparr>)
   }"

text \<open>\<^verbatim>\<open>file_close\<close> is recorded in the list of closed files.\<close>

definition file_release :: "file_refs \<Rightarrow> nat \<Rightarrow> file_refs option" where
  "file_release r file = do {
     kassert (refcount r file > 0);
     let r = r\<lparr>refcount := (refcount r)(file := refcount r file - 1)\<rparr>;
     Some (if refcount r file = 0 then r\<lparr>closed := file # closed r\<rparr> else r)
   }"

definition calc_bitmap_size :: "nat \<Rightarrow> nat" where
  "calc_bitmap_size n = (n + BITMAP_UNIT - 1) div BITMAP_UNIT"

text \<open>
  \<^term>\<open>None\<close> is the C result \<^verbatim>\<open>false\<close>, on which the table is unchanged. \<open>span\<close> gives the size of the
  block granted for the files, \<open>bitmap_ok\<close> whether the bitmap could be allocated.
\<close>

definition realloc_table :: "(nat \<Rightarrow> nat option) \<Rightarrow> bool \<Rightarrow> filetable \<Rightarrow> nat \<Rightarrow> filetable option" where
  "realloc_table span bitmap_ok table cap =
     (let max_capacity = FD_MAX + 1
      in if cap > max_capacity then None
         else if cap < end_fd table then None
         else if cap \<le> FDTBL_INLINE_SIZE then None
         else case span (8 * cap) of
           None \<Rightarrow> None
         | Some nbytes \<Rightarrow>
             let new_capacity = nbytes div 8;
                 new_capacity = (if new_capacity > max_capacity then max_capacity else new_capacity);
                 bitmap_capacity = calc_bitmap_size new_capacity
             in if \<not> bitmap_ok then None
                else let bitmap_size = calc_bitmap_size (end_fd table)
                     in Some (table\<lparr>
                          files := take (end_fd table) (files table) @ replicate (new_capacity - end_fd table) None,
                          bitmap := take bitmap_size (bitmap table) @ replicate (bitmap_capacity - bitmap_size) 0,
                          capacity := new_capacity\<rparr>))"

definition bitmap_set :: "filetable \<Rightarrow> nat \<Rightarrow> bool \<Rightarrow> filetable option" where
  "bitmap_set table idx value = do {
     w \<leftarrow> rd (bitmap table) (idx div BITMAP_UNIT);
     let mask = push_bit (idx mod BITMAP_UNIT) 1;
     b \<leftarrow> wr (bitmap table) (idx div BITMAP_UNIT) (if value then w OR mask else w AND NOT mask);
     Some (table\<lparr>bitmap := b\<rparr>)
   }"

function find_zero :: "u64 \<Rightarrow> nat \<Rightarrow> nat option" where
  "find_zero word bit_no =
     (if bit_no < BITMAP_UNIT then
        if word AND push_bit bit_no 1 = 0 then Some bit_no else find_zero word (bit_no + 1)
      else None)"
  by pat_completeness auto
termination
  by (relation "measure (\<lambda>(word, bit_no). BITMAP_UNIT - bit_no)") auto

text \<open>The inner option is the returned descriptor, \<^term>\<open>None\<close> for \<^verbatim>\<open>FD_INVALID\<close>.\<close>

function find_empty_bit :: "filetable \<Rightarrow> nat \<Rightarrow> nat \<Rightarrow> nat option option" where
  "find_empty_bit table idx e =
     (if idx < e then do {
        word \<leftarrow> rd (bitmap table) idx;
        if word = NOT 0 then find_empty_bit table (idx + 1) e
        else case find_zero word 0 of
          Some bit_no \<Rightarrow>
            let found = idx * BITMAP_UNIT + bit_no
            in Some (if found < capacity table then Some found else None)
        | None \<Rightarrow> find_empty_bit table (idx + 1) e
      } else Some None)"
  by pat_completeness auto
termination
  by (relation "measure (\<lambda>(table, idx, e). e - idx)") auto

definition find_empty_slot :: "filetable \<Rightarrow> nat option option" where
  "find_empty_slot table = do {
     let hint = next_fd table div BITMAP_UNIT;
     fd \<leftarrow> find_empty_bit table hint (calc_bitmap_size (capacity table));
     if fd = None \<and> hint > 0 then find_empty_bit table 0 hint else Some fd
   }"

definition put_file :: "filetable \<Rightarrow> file_refs \<Rightarrow> nat \<Rightarrow> nat \<Rightarrow> (filetable \<times> file_refs) option" where
  "put_file table r idx file = do {
     r \<leftarrow> file_retain r file;
     fs \<leftarrow> wr (files table) idx (Some file);
     table \<leftarrow> bitmap_set (table\<lparr>files := fs\<rparr>) idx True;
     let table = (if end_fd table \<le> idx then table\<lparr>end_fd := idx + 1\<rparr> else table);
     Some (table\<lparr>count := count table + 1\<rparr>, r)
   }"

definition update_next_fd :: "filetable \<Rightarrow> nat \<Rightarrow> filetable" where
  "update_next_fd table inserted_idx =
     (let table = table\<lparr>next_fd := inserted_idx + 1\<rparr>
      in if next_fd table \<ge> capacity table then table\<lparr>next_fd := 0\<rparr> else table)"

text \<open>\<^verbatim>\<open>while (bit-- > 0)\<close>: the highest set bit below \<open>bit_no\<close>.\<close>

fun find_last_one :: "u64 \<Rightarrow> nat \<Rightarrow> nat option" where
  "find_last_one word 0 = None"
| "find_last_one word (Suc bit_no) =
     (if word AND push_bit bit_no 1 \<noteq> 0 then Some bit_no else find_last_one word bit_no)"

text \<open>The \<^verbatim>\<open>do ... while (idx-- > 0)\<close> loop, from the word \<open>idx\<close> down.\<close>

fun end_fd_loop :: "u64 list \<Rightarrow> nat \<Rightarrow> nat option" where
  "end_fd_loop bm idx = do {
     word \<leftarrow> rd bm idx;
     case (if word = 0 then None else find_last_one word BITMAP_UNIT) of
       Some bit_no \<Rightarrow> Some (idx * BITMAP_UNIT + bit_no + 1)
     | None \<Rightarrow> (case idx of 0 \<Rightarrow> Some 0 | Suc idx' \<Rightarrow> end_fd_loop bm idx')
   }"

definition update_end_fd :: "filetable \<Rightarrow> filetable option" where
  "update_end_fd table =
     (if end_fd table = 0 then Some table
      else do {
        e \<leftarrow> end_fd_loop (bitmap table) ((end_fd table - 1) div BITMAP_UNIT);
        Some (table\<lparr>end_fd := e\<rparr>)
      })"

definition filetable_init :: filetable where
  "filetable_init = \<lparr>files = replicate FDTBL_INLINE_SIZE None, bitmap = [0], capacity = FDTBL_INLINE_SIZE,
     count = 0, end_fd = 0, next_fd = 0\<rparr>"

definition filetable_destroy :: "filetable \<Rightarrow> file_refs \<Rightarrow> file_refs option" where
  "filetable_destroy table r =
     for_up 0 (end_fd table) (\<lambda>idx r. do {
       file \<leftarrow> rd (files table) idx;
       case file of None \<Rightarrow> Some r | Some f \<Rightarrow> file_release r f
     }) r"

definition filetable_insert ::
  "(nat \<Rightarrow> nat option) \<Rightarrow> bool \<Rightarrow> filetable \<Rightarrow> file_refs \<Rightarrow> nat \<Rightarrow> (nat option \<times> filetable \<times> file_refs) option" where
  "filetable_insert span bitmap_ok table r file = do {
     slot \<leftarrow> (if count table = capacity table
       then Some (if end_fd table > FD_MAX then None
                  else map_option (\<lambda>t. (end_fd table, t)) (realloc_table span bitmap_ok table (end_fd table + 1)))
       else do { fd \<leftarrow> find_empty_slot table; kassert (fd \<noteq> None); Some (map_option (\<lambda>i. (i, table)) fd) });
     case slot of
       None \<Rightarrow> Some (None, table, r)
     | Some (idx, table) \<Rightarrow> do {
         (table, r) \<leftarrow> put_file table r idx file;
         Some (Some idx, update_next_fd table idx, r)
       }
   }"

definition filetable_insert_at ::
  "(nat \<Rightarrow> nat option) \<Rightarrow> bool \<Rightarrow> filetable \<Rightarrow> file_refs \<Rightarrow> int \<Rightarrow> nat \<Rightarrow> (kerrno \<times> filetable \<times> file_refs) option" where
  "filetable_insert_at span bitmap_ok table r fd file =
     (if fd < 0 \<or> fd > int FD_MAX then Some (OPAL_EINVAL, table, r)
      else let idx = nat fd
      in case (if idx \<ge> capacity table then realloc_table span bitmap_ok table (idx + 1) else Some table) of
           None \<Rightarrow> Some (OPAL_ENOMEM, table, r)
         | Some table \<Rightarrow> do {
             old \<leftarrow> rd (files table) idx;
             if old \<noteq> None then Some (OPAL_EEXIST, table, r)
             else do {
               (table, r) \<leftarrow> put_file table r idx file;
               Some (OPAL_OK, if next_fd table = idx then update_next_fd table idx else table, r)
             }
           })"

definition filetable_get :: "filetable \<Rightarrow> file_refs \<Rightarrow> int \<Rightarrow> (nat option \<times> file_refs) option" where
  "filetable_get table r fd =
     (if fd < 0 \<or> nat fd \<ge> end_fd table then Some (None, r)
      else do {
        file \<leftarrow> rd (files table) (nat fd);
        case file of
          None \<Rightarrow> Some (None, r)
        | Some f \<Rightarrow> do { r \<leftarrow> file_retain r f; Some (Some f, r) }
      })"

definition filetable_remove :: "filetable \<Rightarrow> file_refs \<Rightarrow> int \<Rightarrow> (bool \<times> filetable \<times> file_refs) option" where
  "filetable_remove table r fd =
     (if fd < 0 \<or> nat fd \<ge> end_fd table then Some (False, table, r)
      else let idx = nat fd
      in do {
        file \<leftarrow> rd (files table) idx;
        case file of
          None \<Rightarrow> Some (False, table, r)
        | Some f \<Rightarrow> do {
            fs \<leftarrow> wr (files table) idx None;
            table \<leftarrow> bitmap_set (table\<lparr>files := fs\<rparr>) idx False;
            r \<leftarrow> file_release r f;
            let table = table\<lparr>count := count table - 1\<rparr>;
            table \<leftarrow> (if idx + 1 = end_fd table then update_end_fd table else Some table);
            let table = (if next_fd table > idx then table\<lparr>next_fd := idx\<rparr> else table);
            Some (True, table, r)
          }
      })"

text \<open>Cloning stops at the first error and empties the destination again.\<close>

function clone_loop ::
  "(nat \<Rightarrow> nat option) \<Rightarrow> bool \<Rightarrow> filetable \<Rightarrow> nat \<Rightarrow> filetable \<Rightarrow> file_refs \<Rightarrow> (kerrno \<times> filetable \<times> file_refs) option" where
  "clone_loop span bitmap_ok src idx dst r =
     (if idx < end_fd src then do {
        file \<leftarrow> rd (files src) idx;
        case file of
          None \<Rightarrow> clone_loop span bitmap_ok src (idx + 1) dst r
        | Some f \<Rightarrow> do {
            (result, dst, r) \<leftarrow> filetable_insert_at span bitmap_ok dst r (int idx) f;
            if \<not> kerrno_ok result then do {
              r \<leftarrow> filetable_destroy dst r;
              Some (result, filetable_init, r)
            } else clone_loop span bitmap_ok src (idx + 1) dst r
          }
      } else Some (OPAL_OK, dst\<lparr>next_fd := next_fd src\<rparr>, r))"
  by pat_completeness auto
termination
  by (relation "measure (\<lambda>(span, bitmap_ok, src, idx, dst, r). end_fd src - idx)") auto

definition filetable_clone ::
  "(nat \<Rightarrow> nat option) \<Rightarrow> bool \<Rightarrow> filetable \<Rightarrow> file_refs \<Rightarrow> (kerrno \<times> filetable \<times> file_refs) option" where
  "filetable_clone span bitmap_ok src r = clone_loop span bitmap_ok src 0 filetable_init r"

declare find_zero.simps [simp del] find_empty_bit.simps [simp del] end_fd_loop.simps [simp del] clone_loop.simps [simp del]

section \<open>Invariant\<close>

text \<open>The open descriptors, as a partial function.\<close>

definition open_file :: "filetable \<Rightarrow> nat \<Rightarrow> nat option" where
  "open_file t fd = (if fd < length (files t) then files t ! fd else None)"

abbreviation used :: "filetable \<Rightarrow> nat set" where
  "used t \<equiv> dom (open_file t)"

definition ft_inv :: "filetable \<Rightarrow> bool" where
  "ft_inv t \<longleftrightarrow> length (files t) = capacity t \<and> 0 < capacity t \<and> capacity t \<le> FD_MAX + 1 \<and>
     length (bitmap t) = calc_bitmap_size (capacity t) \<and>
     (\<forall>i < length (bitmap t). \<forall>b < BITMAP_UNIT. bit (bitmap t ! i) b \<longleftrightarrow> open_file t (i * BITMAP_UNIT + b) \<noteq> None) \<and>
     count t = card (used t) \<and>
     (\<forall>fd. open_file t fd \<noteq> None \<longrightarrow> fd < end_fd t) \<and>
     (end_fd t = 0 \<or> open_file t (end_fd t - 1) \<noteq> None)"

lemma and_bit_zero: "(w :: u64) AND 2 ^ b = 0 \<longleftrightarrow> \<not> bit w b"
  by (rule and_exp_eq_0_iff_not_bit)

lemma open_file_lt: "open_file t fd \<noteq> None \<Longrightarrow> fd < length (files t)"
  by (auto simp: open_file_def split: if_splits)

lemma finite_used [simp]: "finite (used t)"
  by (rule finite_subset [of _ "{..<length (files t)}"]) (auto simp: open_file_def split: if_splits)

lemma bitmap_cover: "fd < n \<Longrightarrow> fd div BITMAP_UNIT < calc_bitmap_size n"
  unfolding calc_bitmap_size_def by (simp add: div_less_iff_less_mult)

lemma ft_bit:
  assumes "ft_inv t" and "fd < capacity t"
  shows "bit (bitmap t ! (fd div BITMAP_UNIT)) (fd mod BITMAP_UNIT) \<longleftrightarrow> open_file t fd \<noteq> None"
    and "fd div BITMAP_UNIT < length (bitmap t)"
proof -
  show l: "fd div BITMAP_UNIT < length (bitmap t)"
    using assms bitmap_cover by (auto simp: ft_inv_def)
  with assms have "bit (bitmap t ! (fd div 64)) (fd mod 64) \<longleftrightarrow> open_file t (fd div 64 * 64 + fd mod 64) \<noteq> None"
    unfolding ft_inv_def by (metis mod_less_divisor zero_less_numeral)
  then show "bit (bitmap t ! (fd div BITMAP_UNIT)) (fd mod BITMAP_UNIT) \<longleftrightarrow> open_file t fd \<noteq> None" by simp
qed

section \<open>Finding a free slot\<close>

lemma find_zero_ok:
  assumes "\<not> bit w b" "b < 64" "i \<le> b"
  shows "\<exists>z. find_zero w i = Some z \<and> z \<le> b \<and> i \<le> z \<and> \<not> bit w z \<and> (\<forall>j. i \<le> j \<and> j < z \<longrightarrow> bit w j)"
  using assms
proof (induction "b - i" arbitrary: i)
  case 0
  then show ?case by (subst find_zero.simps) (auto simp: and_bit_zero)
next
  case (Suc d)
  show ?case
  proof (cases "bit w i")
    case True
    with Suc.prems have "i < b" using le_neq_implies_less by blast
    with Suc.hyps Suc.prems have "\<exists>z. find_zero w (Suc i) = Some z \<and> z \<le> b \<and> Suc i \<le> z \<and> \<not> bit w z \<and>
        (\<forall>j. Suc i \<le> j \<and> j < z \<longrightarrow> bit w j)" by (intro Suc.hyps(1)) auto
    then obtain z where z: "find_zero w (Suc i) = Some z" "z \<le> b" "Suc i \<le> z" "\<not> bit w z"
      "\<forall>j. Suc i \<le> j \<and> j < z \<longrightarrow> bit w j" by blast
    have "find_zero w i = Some z"
      using True Suc.prems z(1) by (subst find_zero.simps) (simp add: and_bit_zero)
    moreover have "\<forall>j. i \<le> j \<and> j < z \<longrightarrow> bit w j" using z(5) True by (metis Suc_leI le_eq_less_or_eq)
    ultimately show ?thesis using z by (intro exI [of _ z]) auto
  next
    case False
    with Suc.prems show ?thesis by (subst find_zero.simps) (auto simp: and_bit_zero)
  qed
qed

lemma full_word: "(w :: u64) = NOT 0 \<longleftrightarrow> (\<forall>b < 64. bit w b)"
  by (auto intro: bit_word_eqI)

text \<open>If the scanned words hold a free slot below the capacity, the scan finds one, without leaving the bitmap.\<close>

lemma find_empty_bit_ok:
  assumes "ft_inv t" and "open_file t f = None" "f < capacity t" and "i * 64 \<le> f" "f < e * 64"
  shows "\<exists>r. find_empty_bit t i e = Some (Some r) \<and> r < capacity t \<and> open_file t r = None"
  using assms(4)
proof (induction "f div 64 - i" arbitrary: i)
  case 0
  then have i: "i = f div 64" by (auto dest: div_le_mono [of _ _ 64])
  have "i < e" using assms(5) i by (simp add: div_less_iff_less_mult)
  note fb = ft_bit [OF assms(1,3)]
  have nb: "\<not> bit (bitmap t ! i) (f mod 64)" using fb assms(2) i by simp
  then have w: "bitmap t ! i \<noteq> NOT 0" unfolding full_word by (metis mod_less_divisor zero_less_numeral)
  from find_zero_ok [OF nb, of 0] obtain z where z: "find_zero (bitmap t ! i) 0 = Some z" "z \<le> f mod 64"
    "\<not> bit (bitmap t ! i) z" by auto
  have "i * 64 + z \<le> f" using z(2) i by (metis add_le_cancel_left div_mult_mod_eq)
  moreover have "(i * 64 + z) div 64 = i" "(i * 64 + z) mod 64 = z"
    using z(2) mod_less_divisor [of 64 f] by (auto intro: le_less_trans)
  ultimately have "open_file t (i * 64 + z) = None" "i * 64 + z < capacity t"
    using ft_bit(1) [OF assms(1), of "i * 64 + z"] z(3) assms(3) by auto
  with z(1) w \<open>i < e\<close> fb(2) i show ?case
    by (subst find_empty_bit.simps) (simp add: Let_def)
next
  case (Suc d)
  then have i: "i < f div 64" by simp
  then have ie: "i < e" using assms(5) by (metis div_less_iff_less_mult less_trans zero_less_numeral)
  have il: "i < length (bitmap t)" using i ft_bit(2) [OF assms(1,3)] by simp
  show ?case
  proof (cases "bitmap t ! i = NOT 0")
    case True
    have "(i + 1) * 64 \<le> f" using i by (metis Suc_eq_plus1 Suc_leI div_times_less_eq_dividend le_trans mult_le_mono1)
    with Suc.hyps have "\<exists>r. find_empty_bit t (i + 1) e = Some (Some r) \<and> r < capacity t \<and> open_file t r = None"
      by (intro Suc.hyps(1)) auto
    with True ie il show ?thesis by (subst find_empty_bit.simps) simp
  next
    case False
    then obtain b where b: "b < 64" "\<not> bit (bitmap t ! i) b" unfolding full_word by blast
    from find_zero_ok [OF b(2,1), of 0] obtain z where z: "find_zero (bitmap t ! i) 0 = Some z" "z \<le> b"
      "\<not> bit (bitmap t ! i) z" by auto
    have "i * 64 + z < (i + 1) * 64" using z(2) b(1) by simp
    also have "(i + 1) * 64 \<le> f" using i by (metis Suc_eq_plus1 Suc_leI div_times_less_eq_dividend le_trans mult_le_mono1)
    finally have lt: "i * 64 + z < capacity t" using assms(3) by simp
    moreover have "(i * 64 + z) div 64 = i" "(i * 64 + z) mod 64 = z" using z(2) b(1) by auto
    ultimately have "open_file t (i * 64 + z) = None" using ft_bit(1) [OF assms(1), of "i * 64 + z"] z(3) by auto
    with z(1) False ie il lt show ?thesis by (subst find_empty_bit.simps) (simp add: Let_def)
  qed
qed

lemma find_empty_bit_sound:
  assumes "ft_inv t" and "e \<le> length (bitmap t)"
  shows "\<exists>r. find_empty_bit t i e = Some r \<and> (\<forall>x. r = Some x \<longrightarrow> x < capacity t \<and> open_file t x = None)"
proof (induction "e - i" arbitrary: i)
  case 0
  then show ?case by (subst find_empty_bit.simps) simp
next
  case (Suc d)
  then have i: "i < e" by simp
  with assms(2) have il: "i < length (bitmap t)" by simp
  show ?case
  proof (cases "bitmap t ! i = NOT 0")
    case True
    with Suc i il show ?thesis by (subst find_empty_bit.simps) simp
  next
    case False
    then obtain b where b: "b < 64" "\<not> bit (bitmap t ! i) b" unfolding full_word by blast
    from find_zero_ok [OF b(2,1), of 0] obtain z where z: "find_zero (bitmap t ! i) 0 = Some z" "z \<le> b"
      "\<not> bit (bitmap t ! i) z" by auto
    have "(i * 64 + z) div 64 = i" "(i * 64 + z) mod 64 = z" using z(2) b(1) by auto
    then have "open_file t (i * 64 + z) = None" if "i * 64 + z < capacity t"
      using ft_bit(1) [OF assms(1) that] z(3) by simp
    with z(1) False i il show ?thesis by (subst find_empty_bit.simps) (auto simp: Let_def)
  qed
qed

lemma ft_capacity: "ft_inv t \<Longrightarrow> length (files t) = capacity t"
  by (simp add: ft_inv_def)

lemma free_slot_exists:
  assumes "ft_inv t" and "count t \<noteq> capacity t"
  shows "\<exists>f < capacity t. open_file t f = None"
proof (rule ccontr)
  assume "\<not> ?thesis"
  then have "used t = {..<capacity t}"
    using ft_capacity [OF assms(1)] open_file_lt [of t] by (auto simp: dom_def)
  with assms show False by (simp add: ft_inv_def)
qed

text \<open>The comment in \<^verbatim>\<open>filetable_insert\<close>: with a free slot, the search always succeeds.\<close>

lemma find_empty_slot_ok:
  assumes "ft_inv t" and "count t \<noteq> capacity t"
  shows "\<exists>r. find_empty_slot t = Some (Some r) \<and> r < capacity t \<and> open_file t r = None"
proof -
  obtain f where f: "f < capacity t" "open_file t f = None" using free_slot_exists [OF assms] by blast
  let ?hint = "next_fd t div BITMAP_UNIT" and ?e = "calc_bitmap_size (capacity t)"
  have fe: "f < ?e * 64" using bitmap_cover [OF f(1)] by (simp add: div_less_iff_less_mult)
  have "?e \<le> length (bitmap t)" using assms(1) by (simp add: ft_inv_def)
  from find_empty_bit_sound [OF assms(1) this, of ?hint] obtain r where
    r: "find_empty_bit t ?hint ?e = Some r" "\<forall>x. r = Some x \<longrightarrow> x < capacity t \<and> open_file t x = None" by blast
  show ?thesis
  proof (cases r)
    case (Some x)
    with r show ?thesis by (simp add: find_empty_slot_def Let_def)
  next
    case None
    have "f < ?hint * 64"
      using find_empty_bit_ok [OF assms(1) f(2,1), of ?hint ?e] fe r(1) None by fastforce
    then have "0 < ?hint" and "\<exists>x. find_empty_bit t 0 ?hint = Some (Some x) \<and> x < capacity t \<and> open_file t x = None"
      using find_empty_bit_ok [OF assms(1) f(2,1), of 0 ?hint] by auto
    with r(1) None show ?thesis by (auto simp: find_empty_slot_def Let_def)
  qed
qed

section \<open>Updating the table\<close>

lemma index_split: "b < 64 \<Longrightarrow> i * 64 + b = fd \<longleftrightarrow> i = fd div 64 \<and> b = fd mod (64::nat)"
  by auto

lemma bitmap_set_ok:
  assumes "fd div 64 < length (bitmap t)"
  shows "\<exists>bm. bitmap_set t fd v = Some (t\<lparr>bitmap := bm\<rparr>) \<and> length bm = length (bitmap t) \<and>
    (\<forall>i < length bm. \<forall>b < 64. bit (bm ! i) b \<longleftrightarrow> (if i * 64 + b = fd then v else bit (bitmap t ! i) b))"
proof -
  let ?w = "bitmap t ! (fd div 64)" and ?m = "push_bit (fd mod 64) (1 :: u64)"
  let ?bm = "(bitmap t)[fd div 64 := if v then ?w OR ?m else ?w AND NOT ?m]"
  have "bit ?m b \<longleftrightarrow> b = fd mod 64" if "b < 64" for b
    using that by (auto simp: bit_simps)
  then have "\<forall>i < length ?bm. \<forall>b < 64. bit (?bm ! i) b \<longleftrightarrow> (if i * 64 + b = fd then v else bit (bitmap t ! i) b)"
    using assms by (auto simp: nth_list_update bit_or_iff bit_and_iff bit_not_iff index_split simp del: push_bit_of_1)
  with assms show ?thesis
    by (intro exI [of _ ?bm]) (simp add: bitmap_set_def Let_def)
qed

lemma open_file_update:
  "fd < length (files t) \<Longrightarrow> open_file (t\<lparr>files := (files t)[fd := v]\<rparr>) = (open_file t)(fd := v)"
  by (auto simp: open_file_def fun_eq_iff nth_list_update)

lemma open_file_simps [simp]:
  "open_file (t\<lparr>bitmap := bm\<rparr>) = open_file t" "open_file (t\<lparr>capacity := c\<rparr>) = open_file t"
  "open_file (t\<lparr>count := n\<rparr>) = open_file t" "open_file (t\<lparr>end_fd := e\<rparr>) = open_file t"
  "open_file (t\<lparr>next_fd := n\<rparr>) = open_file t"
  by (auto simp: open_file_def fun_eq_iff)

lemma ft_inv_next_fd [simp]: "ft_inv (t\<lparr>next_fd := n\<rparr>) = ft_inv t"
  by (simp add: ft_inv_def)

lemma put_file_ok:
  assumes inv: "ft_inv t" and idx: "idx < capacity t" and free: "open_file t idx = None" and "refcount r file < MAX_REFC"
  shows "\<exists>t' r'. put_file t r idx file = Some (t', r') \<and> ft_inv t' \<and> open_file t' = (open_file t)(idx \<mapsto> file) \<and>
    capacity t' = capacity t \<and> next_fd t' = next_fd t \<and> refcount r' = (refcount r)(file := refcount r file + 1) \<and>
    closed r' = closed r"
proof -
  let ?t = "t\<lparr>files := (files t)[idx := Some file]\<rparr>"
  let ?r = "r\<lparr>refcount := (refcount r)(file := refcount r file + 1)\<rparr>"
  have len: "length (files t) = capacity t" using inv by (simp add: ft_inv_def)
  have ofe: "open_file ?t = (open_file t)(idx \<mapsto> file)" using idx len by (intro open_file_update) simp
  from bitmap_set_ok [of idx ?t True] ft_bit(2) [OF inv idx] obtain bm where
    bm: "bitmap_set ?t idx True = Some (?t\<lparr>bitmap := bm\<rparr>)" "length bm = length (bitmap t)"
      "\<forall>i < length bm. \<forall>b < 64. bit (bm ! i) b \<longleftrightarrow> (if i * 64 + b = idx then True else bit (bitmap t ! i) b)" by auto
  let ?e = "if end_fd t \<le> idx then idx + 1 else end_fd t"
  let ?t' = "?t\<lparr>bitmap := bm, end_fd := ?e, count := count t + 1\<rparr>"
  have "put_file t r idx file = Some (?t', ?r)"
    using assms(4) idx len bm(1) by (auto simp: put_file_def file_retain_def Let_def)
  have o': "open_file ?t' = (open_file t)(idx \<mapsto> file)" using ofe by simp
  have "used ?t' = insert idx (used t)" unfolding o' by auto
  moreover have "idx \<notin> used t" using free by (simp add: dom_def)
  ultimately have "card (used ?t') = count t + 1"
    using inv by (simp add: ft_inv_def)
  then have "ft_inv ?t'"
    using inv bm(2,3) unfolding ft_inv_def o' by (auto simp: less_Suc_eq)
  with \<open>put_file t r idx file = Some (?t', ?r)\<close> show ?thesis using o' by auto
qed

lemma update_next_fd_simps [simp]:
  "open_file (update_next_fd t i) = open_file t" "ft_inv (update_next_fd t i) = ft_inv t"
  "capacity (update_next_fd t i) = capacity t"
  by (auto simp: update_next_fd_def Let_def)

lemma calc_mono: "a \<le> b \<Longrightarrow> calc_bitmap_size a \<le> calc_bitmap_size b"
  by (simp add: calc_bitmap_size_def div_le_mono)

lemma realloc_ok:
  assumes inv: "ft_inv t" and re: "realloc_table span ok t cap = Some t'"
    and span: "\<And>n s. span n = Some s \<Longrightarrow> n \<le> s"
  shows "ft_inv t' \<and> open_file t' = open_file t \<and> cap \<le> capacity t' \<and> next_fd t' = next_fd t \<and> count t' = count t"
proof -
  have ok: "cap \<le> FD_MAX + 1" "end_fd t \<le> cap" "FDTBL_INLINE_SIZE < cap" "ok"
    using re by (auto simp: realloc_table_def Let_def split: if_splits option.splits)
  have "span (8 * cap) \<noteq> None"
    using re ok by (cases "span (8 * cap)") (auto simp: realloc_table_def)
  then obtain nb where nb: "span (8 * cap) = Some nb" by blast
  note cap = ok(1-3) nb
  have mn: "(if a > FD_MAX + 1 then FD_MAX + 1 else a) = min a (FD_MAX + 1)" for a :: nat by (simp add: min_def)
  have t': "t' = t\<lparr>files := take (end_fd t) (files t) @ replicate (min (nb div 8) (FD_MAX + 1) - end_fd t) None,
       bitmap := take (calc_bitmap_size (end_fd t)) (bitmap t) @
         replicate (calc_bitmap_size (min (nb div 8) (FD_MAX + 1)) - calc_bitmap_size (end_fd t)) 0,
       capacity := min (nb div 8) (FD_MAX + 1)\<rparr>"
    using re ok nb unfolding realloc_table_def Let_def mn by simp
  define n where "n = min (nb div 8) (FD_MAX + 1)"
  have n: "cap \<le> n" "n \<le> FD_MAX + 1"
    using span [OF cap(4)] cap(1) by (auto simp: n_def)
  note i = inv [unfolded ft_inv_def]
  have e: "end_fd t \<le> capacity t"
    using i open_file_lt [of t "end_fd t - 1"] by (cases "end_fd t = 0") auto
  have none: "open_file t fd = None" if "end_fd t \<le> fd" for fd using i that by (meson not_le)
  have lf: "length (files t) = capacity t" using i by blast
  have ff: "files t' = take (end_fd t) (files t) @ replicate (n - end_fd t) None" by (simp add: t' n_def)
  have bf: "bitmap t' = take (calc_bitmap_size (end_fd t)) (bitmap t) @
      replicate (calc_bitmap_size n - calc_bitmap_size (end_fd t)) 0" by (simp add: t' n_def)
  have ofe: "open_file t' = open_file t"
  proof
    fix fd
    show "open_file t' fd = open_file t fd"
    proof (cases "fd < end_fd t")
      case True
      then show ?thesis using e lf by (simp add: open_file_def ff nth_append)
    next
      case False
      then have "open_file t' fd = None" using e lf by (auto simp: open_file_def ff nth_append)
      with none False show ?thesis by simp
    qed
  qed
  have cl: "calc_bitmap_size (end_fd t) \<le> length (bitmap t)" using i calc_mono [OF e] by simp
  have cn: "calc_bitmap_size (end_fd t) \<le> calc_bitmap_size n" using cap(2) n by (intro calc_mono) simp
  have "bit (bitmap t' ! j) b \<longleftrightarrow> open_file t' (j * 64 + b) \<noteq> None" if "j < calc_bitmap_size n" "b < 64" for j b
  proof (cases "j < calc_bitmap_size (end_fd t)")
    case True
    then show ?thesis using i cl that(2) by (simp add: ofe bf nth_append)
  next
    case False
    then have "(end_fd t + 64 - 1) div 64 < Suc j" by (simp add: calc_bitmap_size_def)
    then have "end_fd t + 64 - 1 < Suc j * 64" by (simp only: div_less_iff_less_mult zero_less_numeral)
    then have "end_fd t \<le> j * 64 + b" by simp
    with False cl that show ?thesis by (simp add: ofe bf nth_append none)
  qed
  moreover have "length (bitmap t') = calc_bitmap_size n" "length (files t') = n" "capacity t' = n" "count t' = count t"
      "end_fd t' = end_fd t" "next_fd t' = next_fd t"
    using cl cn e cap(2) n lf unfolding t' n_def [symmetric] by simp_all
  ultimately show ?thesis
    using i n cap(3) unfolding ft_inv_def ofe by auto
qed

section \<open>Removing\<close>

lemma find_last_one_spec:
  "(case find_last_one w n of None \<Rightarrow> \<forall>b < n. \<not> bit w b
    | Some b \<Rightarrow> b < n \<and> bit w b \<and> (\<forall>j < n. bit w j \<longrightarrow> j \<le> b))"
proof (induction n)
  case (Suc n)
  then show ?case
    by (auto simp: and_bit_zero less_Suc_eq split: option.splits)
qed simp

text \<open>The highest set bit of the words up to \<open>idx\<close>, plus one.\<close>

lemma end_fd_loop_ok:
  "idx < length bm \<Longrightarrow> \<exists>e. end_fd_loop bm idx = Some e \<and>
     (\<forall>i \<le> idx. \<forall>b < 64. bit (bm ! i) b \<longrightarrow> i * 64 + b < e) \<and>
     (e = 0 \<or> (\<exists>i \<le> idx. \<exists>b < 64. bit (bm ! i) b \<and> e = Suc (i * 64 + b)))"
proof (induction idx)
  case 0
  have z: "bm ! 0 = 0 \<Longrightarrow> \<not> bit (bm ! 0) b" for b by simp
  from 0 find_last_one_spec [where w = "bm ! 0" and n = 64] show ?case
    by (subst end_fd_loop.simps) (fastforce split: option.splits)
next
  case (Suc idx)
  let ?w = "bm ! Suc idx"
  let ?f = "if ?w = 0 then None else find_last_one ?w 64"
  show ?case
  proof (cases ?f)
    case None
    then have z: "\<forall>b < 64. \<not> bit ?w b"
      using find_last_one_spec [where w = ?w and n = 64] by (auto split: if_splits option.splits)
    from Suc obtain e where e: "end_fd_loop bm idx = Some e" "\<forall>i \<le> idx. \<forall>b < 64. bit (bm ! i) b \<longrightarrow> i * 64 + b < e"
      "e = 0 \<or> (\<exists>i \<le> idx. \<exists>b < 64. bit (bm ! i) b \<and> e = Suc (i * 64 + b))" by auto
    have "end_fd_loop bm (Suc idx) = Some e"
      using Suc.prems None e(1) by (subst end_fd_loop.simps) simp
    with e z show ?thesis by (auto simp: le_Suc_eq)
  next
    case (Some b)
    then have b: "b < 64" "bit ?w b" "\<forall>j < 64. bit ?w j \<longrightarrow> j \<le> b"
      using find_last_one_spec [where w = ?w and n = 64] by (auto split: if_splits)
    have "end_fd_loop bm (Suc idx) = Some (Suc (Suc idx * 64 + b))"
      using Suc.prems Some by (subst end_fd_loop.simps) simp
    moreover have "i * 64 + c < Suc (Suc idx * 64 + b)" if "i \<le> Suc idx" "c < 64" "bit (bm ! i) c" for i c
      using that b(3) by (cases "i = Suc idx") auto
    ultimately show ?thesis using b by auto
  qed
qed

lemma filetable_remove_ok:
  assumes inv: "ft_inv t" and fd: "0 \<le> fd" and f: "open_file t (nat fd) = Some f" and rc: "0 < refcount r f"
  shows "\<exists>t' r'. filetable_remove t r fd = Some (True, t', r') \<and> ft_inv t' \<and> open_file t' = (open_file t)(nat fd := None) \<and>
    refcount r' = (refcount r)(f := refcount r f - 1) \<and> closed r' = (if refcount r f = 1 then f # closed r else closed r)"
proof -
  define idx where "idx = nat fd"
  note i = inv [unfolded ft_inv_def]
  have len: "length (files t) = capacity t" using i by blast
  have lt: "idx < capacity t" using f len open_file_lt [of t idx] by (simp add: idx_def)
  have le: "idx < end_fd t" using i f by (auto simp: idx_def)
  have fi: "files t ! idx = Some f" using f lt len by (simp add: open_file_def idx_def)
  let ?t = "t\<lparr>files := (files t)[idx := None]\<rparr>"
  have ofe: "open_file ?t = (open_file t)(idx := None)" using lt len by (intro open_file_update) simp
  from bitmap_set_ok [of idx ?t False] ft_bit(2) [OF inv lt] obtain bm where
    bm: "bitmap_set ?t idx False = Some (?t\<lparr>bitmap := bm\<rparr>)" "length bm = length (bitmap t)"
      "\<forall>i < length bm. \<forall>b < 64. bit (bm ! i) b \<longleftrightarrow> (if i * 64 + b = idx then False else bit (bitmap t ! i) b)" by auto
  have bits: "bit (bm ! i) b \<longleftrightarrow> open_file ?t (i * 64 + b) \<noteq> None" if "i < length bm" "b < 64" for i b
    using bm(2,3) i that unfolding ofe by auto
  let ?t2 = "?t\<lparr>bitmap := bm, count := count t - 1\<rparr>"
  let ?r = "r\<lparr>refcount := (refcount r)(f := refcount r f - 1), closed := if refcount r f = 1 then f # closed r else closed r\<rparr>"
  have rel: "file_release r f = Some ?r" using rc by (auto simp: file_release_def Let_def)
  obtain e where e: "(if idx + 1 = end_fd t then update_end_fd ?t2 else Some ?t2) = Some (?t2\<lparr>end_fd := e\<rparr>)"
    "\<forall>x. open_file ?t x \<noteq> None \<longrightarrow> x < e" "e = 0 \<or> open_file ?t (e - 1) \<noteq> None"
  proof (cases "idx + 1 = end_fd t")
    case False
    then have "idx \<noteq> end_fd t - 1" using le by simp
    then show ?thesis using that [of "end_fd t"] False i unfolding ofe by auto
  next
    case True
    have "idx div 64 < length bm" using bm(2) ft_bit(2) [OF inv lt] by simp
    from end_fd_loop_ok [OF this] obtain e where e: "end_fd_loop bm (idx div 64) = Some e"
      "\<forall>i \<le> idx div 64. \<forall>b < 64. bit (bm ! i) b \<longrightarrow> i * 64 + b < e"
      "e = 0 \<or> (\<exists>i \<le> idx div 64. \<exists>b < 64. bit (bm ! i) b \<and> e = Suc (i * 64 + b))" by blast
    have "x < e" if "open_file ?t x \<noteq> None" for x
    proof -
      have "x < end_fd t" using that i unfolding ofe by (auto split: if_splits)
      then have "x div 64 \<le> idx div 64" using True by (intro div_le_mono) simp
      moreover have "bit (bm ! (x div 64)) (x mod 64)"
        using bits [of "x div 64" "x mod 64"] that \<open>idx div 64 < length bm\<close> calculation by simp
      ultimately show "x < e" using e(2) by (metis div_mult_mod_eq mod_less_divisor zero_less_numeral)
    qed
    moreover have "e = 0 \<or> open_file ?t (e - 1) \<noteq> None"
      using e(3) bits \<open>idx div 64 < length bm\<close> by fastforce
    moreover have "update_end_fd ?t2 = Some (?t2\<lparr>end_fd := e\<rparr>)"
    proof -
      have "end_fd ?t2 \<noteq> 0" "end_fd ?t2 - 1 = idx" "bitmap ?t2 = bm" using True by simp_all
      then show ?thesis unfolding update_end_fd_def by (simp only: e(1) if_False Option.bind.bind_lunit)
    qed
    ultimately show ?thesis using that [of e] True by simp
  qed
  let ?t3 = "?t2\<lparr>end_fd := e\<rparr>"
  let ?t4 = "if next_fd t > idx then ?t3\<lparr>next_fd := idx\<rparr> else ?t3"
  have "filetable_remove t r fd = Some (True, ?t4, ?r)"
    using fd le lt len fi bm(1) rel e(1) by (auto simp: filetable_remove_def idx_def [symmetric] Let_def)
  moreover have o4: "open_file ?t4 = (open_file t)(idx := None)" using ofe by simp
  moreover have "ft_inv ?t4"
  proof -
    have o3: "open_file ?t3 = open_file ?t" by simp
    have "card (used ?t3) = card (used t - {idx})" unfolding o3 ofe by simp
    also have "\<dots> = count t - 1" using i f by (simp add: card_Diff_singleton domI idx_def)
    finally have c: "card (used ?t3) = count t - 1" .
    have "\<forall>i < length bm. \<forall>b < 64. bit (bm ! i) b \<longleftrightarrow> open_file ?t3 (i * 64 + b) \<noteq> None"
      using bits unfolding o3 by blast
    moreover have "length (files ?t3) = capacity t" "length bm = calc_bitmap_size (capacity t)"
      using len bm(2) i by simp_all
    ultimately have "ft_inv ?t3"
      unfolding ft_inv_def using i c e(2,3) unfolding o3 by simp
    then show ?thesis by simp
  qed
  ultimately show ?thesis unfolding idx_def by auto
qed

section \<open>Destroying and cloning\<close>

text \<open>A well-behaved \<^verbatim>\<open>kzalloc_span\<close> grants at least what was asked for.\<close>

abbreviation span_ok :: "(nat \<Rightarrow> nat option) \<Rightarrow> bool" where
  "span_ok span \<equiv> \<forall>n s. span n = Some s \<longrightarrow> n \<le> s"

text \<open>How many descriptors below \<open>n\<close> name the file.\<close>

definition refs_below :: "filetable \<Rightarrow> nat \<Rightarrow> nat \<Rightarrow> nat" where
  "refs_below t n f = card {fd. fd < n \<and> open_file t fd = Some f}"

abbreviation refs_of :: "filetable \<Rightarrow> nat \<Rightarrow> nat" where
  "refs_of t f \<equiv> refs_below t (end_fd t) f"

lemma refs_below_0 [simp]: "refs_below t 0 f = 0"
  by (simp add: refs_below_def)

lemma refs_below_Suc:
  "refs_below t (Suc n) f = refs_below t n f + (if open_file t n = Some f then 1 else 0)"
proof -
  have fin: "finite {fd. fd < n \<and> open_file t fd = Some f}" by simp
  have "{fd. fd < Suc n \<and> open_file t fd = Some f} =
      (if open_file t n = Some f then insert n {fd. fd < n \<and> open_file t fd = Some f} else {fd. fd < n \<and> open_file t fd = Some f})"
    by (auto simp: less_Suc_eq)
  with fin show ?thesis by (auto simp: refs_below_def)
qed

lemma refs_below_mono: "a \<le> b \<Longrightarrow> refs_below t a f \<le> refs_below t b f"
  unfolding refs_below_def by (rule card_mono) auto

lemma refs_below_cong: "(\<And>fd. fd < n \<Longrightarrow> open_file t fd = open_file u fd) \<Longrightarrow> refs_below t n f = refs_below u n f"
  unfolding refs_below_def by (rule arg_cong [where f = card]) auto

lemma end_fd_le: "ft_inv t \<Longrightarrow> end_fd t \<le> length (files t)"
  using open_file_lt [of t "end_fd t - 1"] by (cases "end_fd t = 0") (auto simp: ft_inv_def)

lemma rd_files: "ft_inv t \<Longrightarrow> fd < end_fd t \<Longrightarrow> rd (files t) fd = Some (open_file t fd)"
  using end_fd_le [of t] by (simp add: open_file_def)

lemma open_file_beyond: "ft_inv t \<Longrightarrow> end_fd t \<le> fd \<Longrightarrow> open_file t fd = None"
  unfolding ft_inv_def by (meson not_le)

lemma destroy_ok:
  assumes "ft_inv t" and "\<forall>f. refs_of t f \<le> refcount r f"
  shows "\<exists>r'. filetable_destroy t r = Some r' \<and> (\<forall>f. refcount r' f = refcount r f - refs_of t f)"
  unfolding filetable_destroy_def
proof (rule for_up_rule)
  show "\<forall>f. refcount r f = refcount r f - refs_below t 0 f" by simp
  fix j and u :: file_refs
  assume j: "j < end_fd t" and u: "\<forall>f. refcount u f = refcount r f - refs_below t j f"
  have le: "refs_below t (Suc j) f \<le> refcount r f" for f
    using assms(2) refs_below_mono [of "Suc j" "end_fd t" t f] j by (meson Suc_leI le_trans)
  show "\<exists>u'. (do { file \<leftarrow> rd (files t) j; case file of None \<Rightarrow> Some u | Some f \<Rightarrow> file_release u f }) = Some u' \<and>
      (\<forall>f. refcount u' f = refcount r f - refs_below t (Suc j) f)"
  proof (cases "open_file t j")
    case None
    with u rd_files [OF assms(1) j] show ?thesis by (simp add: refs_below_Suc)
  next
    case (Some f)
    have "0 < refcount u f" using le [of f] u Some by (simp add: refs_below_Suc)
    then have "\<exists>u'. file_release u f = Some u' \<and> refcount u' = (refcount u)(f := refcount u f - 1)"
      by (auto simp: file_release_def Let_def)
    with Some u rd_files [OF assms(1) j] show ?thesis by (auto simp: refs_below_Suc)
  qed
qed simp

lemma insert_at_ok:
  assumes inv: "ft_inv t" and span: "span_ok span" and rc: "refcount r file < MAX_REFC" and fd: "0 \<le> fd" "fd \<le> int FD_MAX"
  shows "\<exists>err t' r'. filetable_insert_at span ok t r fd file = Some (err, t', r') \<and> ft_inv t' \<and>
    (if err = OPAL_OK
     then open_file t (nat fd) = None \<and> open_file t' = (open_file t)(nat fd \<mapsto> file) \<and>
          refcount r' = (refcount r)(file := refcount r file + 1)
     else open_file t' = open_file t \<and> r' = r \<and>
          (err = OPAL_EEXIST \<and> open_file t (nat fd) \<noteq> None \<or> err = OPAL_ENOMEM \<and> capacity t \<le> nat fd))"
proof -
  let ?i = "nat fd"
  let ?re = "if ?i \<ge> capacity t then realloc_table span ok t (?i + 1) else Some t"
  have nf: "\<not> (fd < 0 \<or> fd > int FD_MAX)" using fd by simp
  show ?thesis
  proof (cases ?re)
    case None
    then have "filetable_insert_at span ok t r fd file = Some (OPAL_ENOMEM, t, r)" "capacity t \<le> ?i"
      using nf unfolding filetable_insert_at_def Let_def by (auto split: if_splits)
    with inv show ?thesis by auto
  next
    case (Some t1)
    have sp: "\<And>n s. span n = Some s \<Longrightarrow> n \<le> s" using span by blast
    have t1: "ft_inv t1" "open_file t1 = open_file t" "?i < capacity t1"
    proof -
      have "ft_inv t1 \<and> open_file t1 = open_file t \<and> ?i < capacity t1"
      proof (cases "?i \<ge> capacity t")
        case True
        with Some have "realloc_table span ok t (?i + 1) = Some t1" by simp
        from realloc_ok [OF inv this sp] show ?thesis by auto
      next
        case False
        with Some inv show ?thesis by auto
      qed
      then show "ft_inv t1" "open_file t1 = open_file t" "?i < capacity t1" by auto
    qed
    then have rd: "rd (files t1) ?i = Some (open_file t ?i)"
      using ft_capacity [OF t1(1)] by (metis open_file_def rd_Some)
    have un: "filetable_insert_at span ok t r fd file =
       (if open_file t ?i \<noteq> None then Some (OPAL_EEXIST, t1, r)
        else do { (t2, r') \<leftarrow> put_file t1 r ?i file;
                  Some (OPAL_OK, if next_fd t2 = ?i then update_next_fd t2 ?i else t2, r') })"
      using nf Some rd unfolding filetable_insert_at_def Let_def by simp
    show ?thesis
    proof (cases "open_file t ?i")
      case None
      from put_file_ok [OF t1(1,3) _ rc] None t1(2) obtain t2 r' where
        "put_file t1 r ?i file = Some (t2, r')" "ft_inv t2" "open_file t2 = (open_file t)(?i \<mapsto> file)"
        "refcount r' = (refcount r)(file := refcount r file + 1)" by auto
      with None un show ?thesis by auto
    next
      case (Some f)
      with un t1 show ?thesis by auto
    qed
  qed
qed

lemma init_inv: "ft_inv filetable_init" "open_file filetable_init = (\<lambda>_. None)" "end_fd filetable_init = 0"
proof -
  show o: "open_file filetable_init = (\<lambda>_. None)" by (auto simp: open_file_def filetable_init_def fun_eq_iff)
  show "ft_inv filetable_init" unfolding ft_inv_def o by (auto simp: filetable_init_def calc_bitmap_size_def)
qed (simp add: filetable_init_def)

text \<open>The destination after the descriptors below \<open>idx\<close> have been copied.\<close>

definition cloning :: "filetable \<Rightarrow> file_refs \<Rightarrow> nat \<Rightarrow> filetable \<Rightarrow> file_refs \<Rightarrow> bool" where
  "cloning src r0 idx dst r \<longleftrightarrow> ft_inv dst \<and> (\<forall>fd. open_file dst fd = (if fd < idx then open_file src fd else None)) \<and>
     (\<forall>f. refcount r f = refcount r0 f + refs_below src idx f)"

lemma clone_loop_ok:
  assumes src: "ft_inv src" and span: "span_ok span" and rc: "\<forall>f. refcount r0 f + refs_of src f < MAX_REFC"
  shows "cloning src r0 idx dst r \<Longrightarrow> idx \<le> end_fd src \<Longrightarrow>
    \<exists>err dst' r'. clone_loop span ok src idx dst r = Some (err, dst', r') \<and> ft_inv dst' \<and>
      (if err = OPAL_OK then open_file dst' = open_file src \<and> (\<forall>f. refcount r' f = refcount r0 f + refs_of src f)
       else err = OPAL_ENOMEM \<and> open_file dst' = (\<lambda>_. None) \<and> refcount r' = refcount r0)"
proof (induction "end_fd src - idx" arbitrary: idx dst r)
  case 0
  then have idx: "idx = end_fd src" by simp
  have "open_file dst = open_file src"
    using "0.prems"(1) open_file_beyond [OF src] by (auto simp: cloning_def idx fun_eq_iff)
  with "0.prems"(1) idx show ?case
    by (subst clone_loop.simps) (auto simp: cloning_def)
next
  case (Suc d)
  then have lt: "idx < end_fd src" by simp
  note cl = Suc.prems(1) [unfolded cloning_def]
  show ?case
  proof (cases "open_file src idx")
    case None
    then have "cloning src r0 (Suc idx) dst r"
      using cl by (auto simp: cloning_def refs_below_Suc less_Suc_eq)
    from Suc.hyps(1) [OF _ this] Suc.hyps(2) lt None rd_files [OF src lt] show ?thesis
      by (subst clone_loop.simps) simp
  next
    case (Some f)
    have m: "refs_below src idx f \<le> refs_of src f" by (rule refs_below_mono) (use lt in simp)
    then have "refcount r f < MAX_REFC"
      using cl rc by (metis add_le_mono le_refl order.strict_trans1)
    moreover have "int idx \<le> int FD_MAX"
      using lt end_fd_le [OF src] src by (simp add: ft_inv_def)
    ultimately obtain err t1 r1 where ins: "filetable_insert_at span ok dst r (int idx) f = Some (err, t1, r1)" "ft_inv t1"
      "if err = OPAL_OK
       then open_file dst idx = None \<and> open_file t1 = (open_file dst)(idx \<mapsto> f) \<and> refcount r1 = (refcount r)(f := refcount r f + 1)
       else open_file t1 = open_file dst \<and> r1 = r \<and>
         (err = OPAL_EEXIST \<and> open_file dst idx \<noteq> None \<or> err = OPAL_ENOMEM \<and> capacity dst \<le> idx)"
      using insert_at_ok [of dst span r f "int idx" ok, unfolded nat_int] cl span by fastforce
    have step: "clone_loop span ok src idx dst r =
        (if err \<noteq> OPAL_OK then do { r \<leftarrow> filetable_destroy t1 r1; Some (err, filetable_init, r) }
         else clone_loop span ok src (Suc idx) t1 r1)"
      using lt Some rd_files [OF src lt] ins(1) by (subst clone_loop.simps) simp
    show ?thesis
    proof (cases "err = OPAL_OK")
      case True
      then have "cloning src r0 (Suc idx) t1 r1"
        using cl ins Some by (auto simp: cloning_def refs_below_Suc less_Suc_eq)
      from Suc.hyps(1) [OF _ this] Suc.hyps(2) lt True step show ?thesis by simp
    next
      case False
      then have e: "open_file t1 = open_file dst" "r1 = r" "err = OPAL_ENOMEM" using ins(3) cl by auto
      have er: "refs_of t1 f = refs_below src idx f" for f
      proof -
        have "{fd. fd < end_fd t1 \<and> open_file t1 fd = Some f} = {fd. fd < idx \<and> open_file src fd = Some f}"
          using e(1) cl open_file_beyond [OF ins(2)] by (auto split: if_splits) (metis not_le option.distinct(1))
        then show ?thesis by (simp add: refs_below_def)
      qed
      have "\<forall>f. refs_of t1 f \<le> refcount r1 f" using cl e(2) er by auto
      from destroy_ok [OF ins(2) this] obtain r' where r': "filetable_destroy t1 r1 = Some r'"
        "\<forall>f. refcount r' f = refcount r1 f - refs_of t1 f" by blast
      then have "refcount r' = refcount r0" using cl e(2) er by (auto simp: fun_eq_iff)
      with step False r'(1) e(3) show ?thesis by (auto simp: init_inv)
    qed
  qed
qed

section \<open>Properties\<close>

text \<open>
  C12. \<^verbatim>\<open>filetable_insert\<close> into a well-formed table never panics. It returns a descriptor that was not in
  use, which names the file afterwards while all other descriptors keep theirs, and takes one
  reference on the file; or, only when every slot is in use and the table cannot grow, it reports
  failure and changes nothing. In particular the search for a free slot cannot fail below
  capacity, as the comment in the code claims.
\<close>

theorem filetable_insert_correct:
  assumes "ft_inv t" and "span_ok span" and "refcount r file < MAX_REFC"
  shows "(\<exists>fd t' r'. filetable_insert span ok t r file = Some (Some fd, t', r') \<and> ft_inv t' \<and> open_file t fd = None \<and>
            fd \<le> FD_MAX \<and> open_file t' = (open_file t)(fd \<mapsto> file) \<and>
            refcount r' = (refcount r)(file := refcount r file + 1)) \<or>
         (filetable_insert span ok t r file = Some (None, t, r) \<and> count t = capacity t)"
proof -
  have put: "(\<exists>fd t' r'. do { (t2, r') \<leftarrow> put_file t1 r idx file; Some (Some idx, update_next_fd t2 idx, r') } =
        Some (Some fd, t', r') \<and> ft_inv t' \<and> open_file t fd = None \<and> fd \<le> FD_MAX \<and>
        open_file t' = (open_file t)(fd \<mapsto> file) \<and> refcount r' = (refcount r)(file := refcount r file + 1))"
    if "ft_inv t1" "idx < capacity t1" "open_file t1 = open_file t" "open_file t idx = None" for t1 idx
  proof -
    have "open_file t1 idx = None" "idx \<le> FD_MAX" using that by (auto simp: ft_inv_def)
    from put_file_ok [OF that(1,2) this(1) assms(3)] that(3,4) \<open>idx \<le> FD_MAX\<close> show ?thesis by auto
  qed
  show ?thesis
  proof (cases "count t = capacity t")
    case False
    with find_empty_slot_ok [OF assms(1) False] put [of t] assms(1) show ?thesis
      by (auto simp: filetable_insert_def)
  next
    case True
    show ?thesis
    proof (cases "end_fd t > FD_MAX \<or> realloc_table span ok t (end_fd t + 1) = None")
      case True
      with \<open>count t = capacity t\<close> show ?thesis by (auto simp: filetable_insert_def)
    next
      case False
      then obtain t1 where t1: "realloc_table span ok t (end_fd t + 1) = Some t1" by auto
      have sp: "\<And>n s. span n = Some s \<Longrightarrow> n \<le> s" using assms(2) by blast
      note re = realloc_ok [OF assms(1) t1 sp]
      have "open_file t (end_fd t) = None" using assms(1) unfolding ft_inv_def by fastforce
      with put [of t1 "end_fd t"] re True False t1 show ?thesis
        by (simp add: filetable_insert_def)
    qed
  qed
qed

theorem filetable_insert_correct_witness:
  "\<exists>fd t' r'. filetable_insert (\<lambda>n. Some n) True filetable_init \<lparr>refcount = (\<lambda>_. 1), closed = []\<rparr> 7 = Some (Some fd, t', r') \<and>
     open_file t' fd = Some 7 \<and> refcount r' 7 = 2"
  using filetable_insert_correct [OF init_inv(1), of "\<lambda>n. Some n" "\<lparr>refcount = (\<lambda>_. 1), closed = []\<rparr>" 7 True]
  by (auto simp: filetable_init_def)

text \<open>
  \<^verbatim>\<open>filetable_insert_at\<close> reports an invalid descriptor, a slot in use or a failed growth without
  changing any descriptor or reference, and otherwise installs the file at exactly the requested
  descriptor with one reference taken. It never panics.
\<close>

theorem filetable_insert_at_correct:
  assumes "ft_inv t" and "span_ok span" and "refcount r file < MAX_REFC"
  shows "if fd < 0 \<or> fd > int FD_MAX then filetable_insert_at span ok t r fd file = Some (OPAL_EINVAL, t, r)
    else \<exists>err t' r'. filetable_insert_at span ok t r fd file = Some (err, t', r') \<and> ft_inv t' \<and>
      (if err = OPAL_OK
       then open_file t (nat fd) = None \<and> open_file t' = (open_file t)(nat fd \<mapsto> file) \<and>
            refcount r' = (refcount r)(file := refcount r file + 1)
       else open_file t' = open_file t \<and> r' = r \<and>
            (err = OPAL_EEXIST \<and> open_file t (nat fd) \<noteq> None \<or> err = OPAL_ENOMEM \<and> capacity t \<le> nat fd))"
proof (cases "fd < 0 \<or> fd > int FD_MAX")
  case True
  then show ?thesis by (simp add: filetable_insert_at_def)
next
  case False
  then have "0 \<le> fd" "fd \<le> int FD_MAX" by auto
  from insert_at_ok [OF assms this, of ok] False show ?thesis by simp
qed

theorem filetable_insert_at_correct_witness:
  "\<exists>err t' r'. filetable_insert_at (\<lambda>n. Some n) True filetable_init \<lparr>refcount = (\<lambda>_. 1), closed = []\<rparr> 100 7 = Some (err, t', r') \<and>
     ft_inv t'"
  using filetable_insert_at_correct [OF init_inv(1), of "\<lambda>n. Some n" "\<lparr>refcount = (\<lambda>_. 1), closed = []\<rparr>" 7 100 True]
  by auto

text \<open>
  \<^verbatim>\<open>filetable_get\<close> returns the file a descriptor names, with one more reference, and null for any
  other number; \<^verbatim>\<open>filetable_remove\<close> removes exactly the named descriptor and gives its reference
  back, closing the file with the last one, and refuses any other number; the bitmap, the counters
  and the end marker stay right.
\<close>

theorem filetable_get_remove_correct:
  assumes "ft_inv t" and "\<forall>f. 0 < refcount r f \<and> refcount r f < MAX_REFC"
  shows "case (if fd < 0 then None else open_file t (nat fd)) of
      None \<Rightarrow> filetable_get t r fd = Some (None, r) \<and> filetable_remove t r fd = Some (False, t, r)
    | Some f \<Rightarrow>
        filetable_get t r fd = Some (Some f, r\<lparr>refcount := (refcount r)(f := refcount r f + 1)\<rparr>) \<and>
        (\<exists>t' r'. filetable_remove t r fd = Some (True, t', r') \<and> ft_inv t' \<and> open_file t' = (open_file t)(nat fd := None) \<and>
           refcount r' = (refcount r)(f := refcount r f - 1) \<and>
           closed r' = (if refcount r f = 1 then f # closed r else closed r))"
proof (cases "if fd < 0 then None else open_file t (nat fd)")
  case None
  then show ?thesis
    using rd_files [OF assms(1), of "nat fd"]
    by (cases "fd < 0 \<or> nat fd \<ge> end_fd t") (auto simp: filetable_get_def filetable_remove_def Let_def split: if_splits)
next
  case (Some f)
  then have f: "0 \<le> fd" "open_file t (nat fd) = Some f" by (auto split: if_splits)
  then have lt: "nat fd < end_fd t" using open_file_beyond [OF assms(1), of "nat fd"] by fastforce
  have "filetable_get t r fd = Some (Some f, r\<lparr>refcount := (refcount r)(f := refcount r f + 1)\<rparr>)"
    using f lt rd_files [OF assms(1) lt] assms(2) by (simp add: filetable_get_def file_retain_def)
  with Some filetable_remove_ok [OF assms(1) f, of r] assms(2) show ?thesis by simp
qed

theorem filetable_get_remove_correct_witness:
  "filetable_get filetable_init \<lparr>refcount = (\<lambda>_. 1), closed = []\<rparr> 3 = Some (None, \<lparr>refcount = (\<lambda>_. 1), closed = []\<rparr>)"
  using filetable_get_remove_correct [OF init_inv(1), of "\<lparr>refcount = (\<lambda>_. 1), closed = []\<rparr>" 3] by (simp add: init_inv)

text \<open>
  C13. \<^verbatim>\<open>filetable_clone\<close> either produces a well-formed copy with the same descriptors, each of them
  holding a reference of its own, or, when memory runs out, leaves an empty table and every
  reference count as it was; destroying a table gives back exactly the references it holds.
\<close>

theorem filetable_clone_correct:
  assumes "ft_inv src" and "span_ok span" and "\<forall>f. refcount r f + refs_of src f < MAX_REFC"
  shows "(\<exists>err dst r'. filetable_clone span ok src r = Some (err, dst, r') \<and> ft_inv dst \<and>
      (if err = OPAL_OK then open_file dst = open_file src \<and> (\<forall>f. refcount r' f = refcount r f + refs_of src f)
       else err = OPAL_ENOMEM \<and> open_file dst = (\<lambda>_. None) \<and> refcount r' = refcount r)) \<and>
    ((\<forall>f. refs_of src f \<le> refcount r f) \<longrightarrow>
      (\<exists>r'. filetable_destroy src r = Some r' \<and> (\<forall>f. refcount r' f = refcount r f - refs_of src f)))"
proof
  have "cloning src r 0 filetable_init r"
    by (simp add: cloning_def init_inv)
  from clone_loop_ok [OF assms this, of ok]
  show "\<exists>err dst r'. filetable_clone span ok src r = Some (err, dst, r') \<and> ft_inv dst \<and>
      (if err = OPAL_OK then open_file dst = open_file src \<and> (\<forall>f. refcount r' f = refcount r f + refs_of src f)
       else err = OPAL_ENOMEM \<and> open_file dst = (\<lambda>_. None) \<and> refcount r' = refcount r)"
    by (simp add: filetable_clone_def)
qed (use destroy_ok [OF assms(1)] in blast)

theorem filetable_clone_correct_witness:
  "\<exists>err dst r'. filetable_clone (\<lambda>n. Some n) True filetable_init \<lparr>refcount = (\<lambda>_. 1), closed = []\<rparr> = Some (err, dst, r') \<and> ft_inv dst"
  using filetable_clone_correct [OF init_inv(1), of "\<lambda>n. Some n" "\<lparr>refcount = (\<lambda>_. 1), closed = []\<rparr>" True]
  by (auto simp: init_inv)

end
