(* ===== verification/Task_Sched.thy ===== *)
theory Task_Sched
  imports Coll_Ringbuffer
begin

text \<open>
  \<open>kernel/src/task/task.c\<close>, \<open>event.c\<close>, \<open>completion.c\<close>, \<open>mutex.c\<close> and the message queue of \<open>kernel/src/irq.c\<close>: tasks, the priority
  scheduler, wait lists with timeouts, and the blocking primitives built on them. Each function runs with
  interrupts disabled and is one transition. A task is identified by its id; its structure exists while the id is in
  \<open>tasks\<close>, and an access to a freed task is a fault. The links of an intrusive list name the list they are in, which is
  what \<open>linkedlist_remove\<close> finds through the pointers; an unlinked link cannot be removed. The tree of timeouts is the
  sequence of its nodes in key order. A function that switches away returns \<open>Blocked\<close>; what it does when its
  task runs again is the function with the suffix \<open>_resume\<close>.
\<close>

section \<open>Model\<close>

type_synonym tid = nat
type_synonym pid = nat

datatype task_state = TASK_READY | TASK_RUNNING | TASK_WAITING | TASK_DEAD

abbreviation TASK_PRIORITY_KERNEL :: nat where "TASK_PRIORITY_KERNEL \<equiv> 1"
abbreviation TASK_PRIORITY_NORMAL :: nat where "TASK_PRIORITY_NORMAL \<equiv> 4"
abbreviation TASK_PRIORITY_IDLE :: nat where "TASK_PRIORITY_IDLE \<equiv> 7"
abbreviation TASK_PRIORITY_COUNT :: nat where "TASK_PRIORITY_COUNT \<equiv> 8"
abbreviation MAX_REFC :: nat where "MAX_REFC \<equiv> 0x7fffffff"
abbreviation TID_END :: nat where "TID_END \<equiv> 0x7fffffff"
abbreviation PID_END :: nat where "PID_END \<equiv> 0x7fffffff"
abbreviation TIMEOUT_INFINITY :: u64 where "TIMEOUT_INFINITY \<equiv> U64_MAX"

text \<open>The wait lists: of a task that others join, of a process that others wait for, of any other object.\<close>

datatype wait_list = Join_list tid | Exit_list pid | Object_list nat

datatype queue = Ready_queue nat | Dead_list | Wait_queue wait_list

record task =
  t_process :: pid
  t_refcount :: nat
  t_state :: task_state
  t_link :: "queue option"
  t_priority :: nat
  t_wait_for :: "wait_list option"
  t_has_timeout :: bool
  t_wait_timeout :: u64
  t_kstack :: bool

record process =
  p_refcount :: nat
  p_tasks :: "tid list"

record event =
  e_signaled :: bool
  e_auto_reset :: bool

type_synonym irqmsg = "nat \<times> u8"

abbreviation IRQMSG_DROP :: nat where "IRQMSG_DROP \<equiv> 0"
abbreviation IRQMSG_SCHED_TIMEOUT :: nat where "IRQMSG_SCHED_TIMEOUT \<equiv> 4"
abbreviation IRQMSG_COUNT :: nat where "IRQMSG_COUNT \<equiv> 5"

text \<open>The event of the message queue.\<close>

abbreviation g_event :: nat where "g_event \<equiv> 0"

record sched =
  tasks :: "tid \<Rightarrow> task option"
  procs :: "pid \<Rightarrow> process option"
  tid_next :: nat
  pid_next :: nat
  queues :: "queue \<Rightarrow> tid list"
  timeout_queue :: "(u64 \<times> tid) list"
  soonest_timeout :: u64
  cur :: tid
  g_tick :: u64
  events :: "nat \<Rightarrow> event"
  owners :: "nat \<Rightarrow> tid option"
  completed :: "wait_list \<Rightarrow> bool"
  g_msg_queue :: "ringbuffer \<times> irqmsg list"
  g_msg_drops :: u32
  g_msg_drop_event :: bool

subsection \<open>Lists and states\<close>

definition upd :: "tid \<Rightarrow> (task \<Rightarrow> task) \<Rightarrow> sched \<Rightarrow> sched option" where
  "upd t f s = do { x \<leftarrow> tasks s t; Some (s\<lparr>tasks := (tasks s)(t := Some (f x))\<rparr>) }"

definition list_push_back :: "queue \<Rightarrow> tid \<Rightarrow> sched \<Rightarrow> sched option" where
  "list_push_back q t s = do {
     s \<leftarrow> upd t (\<lambda>x. x\<lparr>t_link := Some q\<rparr>) s;
     Some (s\<lparr>queues := (queues s)(q := queues s q @ [t])\<rparr>)
   }"

definition list_remove :: "tid \<Rightarrow> sched \<Rightarrow> sched option" where
  "list_remove t s = do {
     x \<leftarrow> tasks s t;
     q \<leftarrow> t_link x;
     s \<leftarrow> upd t (\<lambda>x. x\<lparr>t_link := None\<rparr>) s;
     Some (s\<lparr>queues := (queues s)(q := remove1 t (queues s q))\<rparr>)
   }"

definition list_pop_front :: "queue \<Rightarrow> sched \<Rightarrow> (tid option \<times> sched) option" where
  "list_pop_front q s = (case queues s q of
       [] \<Rightarrow> Some (None, s)
     | t # _ \<Rightarrow> do { s \<leftarrow> list_remove t s; Some (Some t, s) })"

definition set_running :: "tid \<Rightarrow> sched \<Rightarrow> sched option" where
  "set_running t s = upd t (\<lambda>x. x\<lparr>t_state := TASK_RUNNING\<rparr>) s"

definition set_ready :: "tid \<Rightarrow> sched \<Rightarrow> sched option" where
  "set_ready t s = do {
     s \<leftarrow> upd t (\<lambda>x. x\<lparr>t_state := TASK_READY\<rparr>) s;
     x \<leftarrow> tasks s t;
     list_push_back (Ready_queue (t_priority x)) t s
   }"

definition reset_ready :: "tid \<Rightarrow> sched \<Rightarrow> sched option" where
  "reset_ready t s = list_remove t s"

definition reset_wait_for :: "tid \<Rightarrow> sched \<Rightarrow> sched option" where
  "reset_wait_for t s = do {
     x \<leftarrow> tasks s t;
     if t_wait_for x = None then Some s
     else do {
       s \<leftarrow> list_remove t s;
       upd t (\<lambda>x. x\<lparr>t_wait_for := None\<rparr>) s
     }
   }"

text \<open>The tree ordered by \<^verbatim>\<open>timeout_compare\<close>.\<close>

fun timeout_insert :: "u64 \<times> tid \<Rightarrow> (u64 \<times> tid) list \<Rightarrow> (u64 \<times> tid) list" where
  "timeout_insert x [] = [x]"
| "timeout_insert x (y # ys) = (if fst x < fst y \<or> fst x = fst y \<and> snd x < snd y then x # y # ys else y # timeout_insert x ys)"

definition reset_timeout :: "tid \<Rightarrow> sched \<Rightarrow> sched option" where
  "reset_timeout t s = do {
     x \<leftarrow> tasks s t;
     if \<not> t_has_timeout x then Some s
     else upd t (\<lambda>x. x\<lparr>t_has_timeout := False\<rparr>) (s\<lparr>timeout_queue := remove1 (t_wait_timeout x, t) (timeout_queue s)\<rparr>)
   }"

definition set_wait_for :: "tid \<Rightarrow> wait_list option \<Rightarrow> sched \<Rightarrow> sched option" where
  "set_wait_for t wl s = do {
     s \<leftarrow> upd t (\<lambda>x. x\<lparr>t_state := TASK_WAITING, t_wait_for := wl\<rparr>) s;
     s \<leftarrow> (case wl of None \<Rightarrow> Some s | Some l \<Rightarrow> list_push_back (Wait_queue l) t s);
     upd t (\<lambda>x. x\<lparr>t_has_timeout := False\<rparr>) s
   }"

definition set_wait_timeout :: "tid \<Rightarrow> wait_list option \<Rightarrow> u64 \<Rightarrow> sched \<Rightarrow> sched option" where
  "set_wait_timeout t wl timeout s = do {
     s \<leftarrow> set_wait_for t wl s;
     s \<leftarrow> upd t (\<lambda>x. x\<lparr>t_has_timeout := True, t_wait_timeout := timeout\<rparr>) s;
     let s = s\<lparr>timeout_queue := timeout_insert (timeout, t) (timeout_queue s)\<rparr>;
     Some (if soonest_timeout s > timeout then s\<lparr>soonest_timeout := timeout\<rparr> else s)
   }"

definition set_dead :: "tid \<Rightarrow> sched \<Rightarrow> sched option" where
  "set_dead t s = upd t (\<lambda>x. x\<lparr>t_state := TASK_DEAD\<rparr>) s"

subsection \<open>Waking\<close>

definition wait_list_wake_one :: "wait_list \<Rightarrow> sched \<Rightarrow> (bool \<times> sched) option" where
  "wait_list_wake_one wl s = do {
     (r, s) \<leftarrow> list_pop_front (Wait_queue wl) s;
     case r of
       None \<Rightarrow> Some (False, s)
     | Some t \<Rightarrow> do {
         s \<leftarrow> upd t (\<lambda>x. x\<lparr>t_wait_for := None\<rparr>) s;
         x \<leftarrow> tasks s t;
         s \<leftarrow> (if t_has_timeout x then reset_timeout t s else Some s);
         s \<leftarrow> set_ready t s;
         Some (True, s)
       }
   }"

partial_function (option) wait_list_wake_all :: "wait_list \<Rightarrow> sched \<Rightarrow> sched option" where
  "wait_list_wake_all wl s =
     (if queues s (Wait_queue wl) \<noteq> [] then do {
        (_, s) \<leftarrow> wait_list_wake_one wl s;
        wait_list_wake_all wl s
      } else Some s)"

subsection \<open>Events and the message queue\<close>

definition event_init :: "nat \<Rightarrow> bool \<Rightarrow> sched \<Rightarrow> sched" where
  "event_init e auto_reset s =
     s\<lparr>queues := (queues s)(Wait_queue (Object_list e) := []), events := (events s)(e := \<lparr>e_signaled = False, e_auto_reset = auto_reset\<rparr>)\<rparr>"

definition event_signal :: "nat \<Rightarrow> sched \<Rightarrow> sched option" where
  "event_signal e s =
     (if e_auto_reset (events s e) then do {
        (waken, s) \<leftarrow> wait_list_wake_one (Object_list e) s;
        Some (s\<lparr>events := (events s)(e := (events s e)\<lparr>e_signaled := \<not> waken\<rparr>)\<rparr>)
      } else wait_list_wake_all (Object_list e) (s\<lparr>events := (events s)(e := (events s e)\<lparr>e_signaled := True\<rparr>)\<rparr>))"

definition event_reset :: "nat \<Rightarrow> sched \<Rightarrow> sched" where
  "event_reset e s = s\<lparr>events := (events s)(e := (events s e)\<lparr>e_signaled := False\<rparr>)\<rparr>"

definition event_try_acquire :: "nat \<Rightarrow> sched \<Rightarrow> bool \<times> sched" where
  "event_try_acquire e s =
     (if \<not> e_signaled (events s e) then (False, s)
      else (True, if e_auto_reset (events s e) then event_reset e s else s))"

definition irqmsg_push :: "irqmsg \<Rightarrow> sched \<Rightarrow> (bool \<times> sched) option" where
  "irqmsg_push msg s =
     (if ringbuffer_is_full (fst (g_msg_queue s)) then do {
        s \<leftarrow> event_signal g_event (s\<lparr>g_msg_drops := g_msg_drops s + 1, g_msg_drop_event := True\<rparr>);
        Some (False, s)
      } else do {
        q \<leftarrow> ringbuffer_push (g_msg_queue s) msg;
        s \<leftarrow> event_signal g_event (s\<lparr>g_msg_queue := q\<rparr>);
        Some (True, s)
      })"

definition irqmsg_pop :: "sched \<Rightarrow> (irqmsg option \<times> sched) option" where
  "irqmsg_pop s =
     (if g_msg_drop_event s then Some (Some (IRQMSG_DROP, 0), s\<lparr>g_msg_drop_event := False\<rparr>)
      else if ringbuffer_is_empty (fst (g_msg_queue s)) then Some (None, s)
      else do {
        (msg, q) \<leftarrow> ringbuffer_pop (g_msg_queue s);
        Some (Some msg, s\<lparr>g_msg_queue := q\<rparr>)
      })"

subsection \<open>The scheduler\<close>

definition ready_queue_top :: "sched \<Rightarrow> tid option" where
  "ready_queue_top s = (case find (\<lambda>i. queues s (Ready_queue i) \<noteq> []) [0..<TASK_PRIORITY_COUNT] of
       None \<Rightarrow> None
     | Some i \<Rightarrow> Some (hd (queues s (Ready_queue i))))"

definition ready_queue_pop :: "tid \<Rightarrow> sched \<Rightarrow> sched option" where
  "ready_queue_pop t s = list_remove t s"

definition schedule :: "sched \<Rightarrow> sched option" where
  "schedule s = do {
     s \<leftarrow> (if soonest_timeout s \<le> g_tick s then do {
         (ok, s) \<leftarrow> irqmsg_push (IRQMSG_SCHED_TIMEOUT, 0) s;
         Some (if ok then s\<lparr>soonest_timeout := U64_MAX\<rparr> else s)
       } else Some s);
     let current = cur s;
     case ready_queue_top s of
       None \<Rightarrow> Some s
     | Some next \<Rightarrow> do {
         c \<leftarrow> tasks s current;
         n \<leftarrow> tasks s next;
         if t_state c = TASK_RUNNING \<and> t_priority c < t_priority n then Some s
         else do {
           s \<leftarrow> (if t_state c = TASK_RUNNING then set_ready current s else Some s);
           s \<leftarrow> ready_queue_pop next s;
           s \<leftarrow> set_running next s;
           Some (s\<lparr>cur := next\<rparr>)
         }
       }
   }"

definition sched_on_timer :: "sched \<Rightarrow> sched option" where
  "sched_on_timer s = schedule s"

text \<open>\<^verbatim>\<open>isr_timer\<close> of \<open>kernel/src/timer.c\<close>, without the disk driver.\<close>

definition isr_timer :: "sched \<Rightarrow> sched option" where
  "isr_timer s = sched_on_timer (s\<lparr>g_tick := g_tick s + 1\<rparr>)"

text \<open>The loop of \<^verbatim>\<open>irqmsg_timeout\<close> over the nodes of the tree that follow the current one.\<close>

fun timeout_loop :: "(u64 \<times> tid) list \<Rightarrow> sched \<Rightarrow> sched option" where
  "timeout_loop [] s = Some s"
| "timeout_loop ((w, t) # ns) s = do {
     x \<leftarrow> tasks s t;
     if t_wait_timeout x > g_tick s then Some (s\<lparr>soonest_timeout := t_wait_timeout x\<rparr>)
     else do {
       let s = s\<lparr>timeout_queue := remove1 (w, t) (timeout_queue s)\<rparr>;
       s \<leftarrow> reset_wait_for t s;
       s \<leftarrow> set_ready t s;
       timeout_loop ns s
     }
   }"

definition irqmsg_timeout :: "sched \<Rightarrow> sched option" where
  "irqmsg_timeout s = timeout_loop (timeout_queue s) s"

datatype 'a call = Done 'a | Blocked

definition task_wait :: "wait_list \<Rightarrow> u64 \<Rightarrow> sched \<Rightarrow> (bool call \<times> sched) option" where
  "task_wait wl timeout s =
     (if timeout \<le> g_tick s then Some (Done False, s)
      else do {
        s \<leftarrow> (if timeout = TIMEOUT_INFINITY then set_wait_for (cur s) (Some wl) s
             else set_wait_timeout (cur s) (Some wl) timeout s);
        s \<leftarrow> schedule s;
        Some (Blocked, s)
      })"

definition task_wait_resume :: "sched \<Rightarrow> (bool \<times> sched) option" where
  "task_wait_resume s = do {
     x \<leftarrow> tasks s (cur s);
     s \<leftarrow> upd (cur s) (\<lambda>x. x\<lparr>t_has_timeout := False\<rparr>) s;
     Some (\<not> t_has_timeout x, s)
   }"

definition event_wait :: "nat \<Rightarrow> u64 \<Rightarrow> sched \<Rightarrow> (bool call \<times> sched) option" where
  "event_wait e timeout s = (case event_try_acquire e s of (ok, s) \<Rightarrow>
     if ok then Some (Done True, s) else task_wait (Object_list e) timeout s)"

subsection \<open>Completions and mutexes\<close>

text \<open>A completion is named by its wait list.\<close>

definition completion_init :: "wait_list \<Rightarrow> sched \<Rightarrow> sched" where
  "completion_init c s = s\<lparr>queues := (queues s)(Wait_queue c := []), completed := (completed s)(c := False)\<rparr>"

definition completion_signal :: "wait_list \<Rightarrow> sched \<Rightarrow> sched option" where
  "completion_signal c s = wait_list_wake_all c (s\<lparr>completed := (completed s)(c := True)\<rparr>)"

definition completion_wait :: "wait_list \<Rightarrow> u64 \<Rightarrow> sched \<Rightarrow> (bool call \<times> sched) option" where
  "completion_wait c timeout s = (if completed s c then Some (Done True, s) else task_wait c timeout s)"

definition mutex_init :: "nat \<Rightarrow> sched \<Rightarrow> sched" where
  "mutex_init m s = s\<lparr>queues := (queues s)(Wait_queue (Object_list m) := []), owners := (owners s)(m := None)\<rparr>"

definition mutex_try_acquire :: "nat \<Rightarrow> sched \<Rightarrow> (bool \<times> sched) option" where
  "mutex_try_acquire m s = do {
     kassert (owners s m \<noteq> Some (cur s));
     Some (if owners s m \<noteq> None then (False, s) else (True, s\<lparr>owners := (owners s)(m := Some (cur s))\<rparr>))
   }"

definition mutex_lock :: "nat \<Rightarrow> sched \<Rightarrow> (unit call \<times> sched) option" where
  "mutex_lock m s = do {
     (ok, s) \<leftarrow> mutex_try_acquire m s;
     if ok then Some (Done (), s)
     else do {
       (r, s) \<leftarrow> task_wait (Object_list m) TIMEOUT_INFINITY s;
       Some (case r of Done _ \<Rightarrow> Done () | Blocked \<Rightarrow> Blocked, s)
     }
   }"

definition mutex_lock_resume :: "nat \<Rightarrow> sched \<Rightarrow> (unit call \<times> sched) option" where
  "mutex_lock_resume m s = do {
     (woken, s) \<leftarrow> task_wait_resume s;
     if \<not> woken then Some (Done (), s) else mutex_lock m s
   }"

definition mutex_unlock :: "nat \<Rightarrow> sched \<Rightarrow> sched option" where
  "mutex_unlock m s = do {
     kassert (owners s m = Some (cur s));
     (_, s) \<leftarrow> wait_list_wake_one (Object_list m) (s\<lparr>owners := (owners s)(m := None)\<rparr>);
     Some s
   }"

subsection \<open>Life of a task\<close>

definition process_init :: "sched \<Rightarrow> (pid \<times> sched) option" where
  "process_init s = do {
     kassert (pid_next s < PID_END);
     let p = pid_next s;
     let s = completion_init (Exit_list p) (s\<lparr>pid_next := p + 1\<rparr>);
     Some (p, s\<lparr>procs := (procs s)(p := Some \<lparr>p_refcount = 1, p_tasks = []\<rparr>)\<rparr>)
   }"

text \<open>\<open>mem_ok\<close>: whether the page table and the process structure could be allocated.\<close>

definition process_create :: "bool \<Rightarrow> sched \<Rightarrow> (pid option \<times> sched) option" where
  "process_create mem_ok s = (if \<not> mem_ok then Some (None, s) else do { (p, s) \<leftarrow> process_init s; Some (Some p, s) })"

definition process_retain :: "pid \<Rightarrow> sched \<Rightarrow> sched option" where
  "process_retain p s = do {
     x \<leftarrow> procs s p;
     kassert (p_refcount x < MAX_REFC);
     Some (s\<lparr>procs := (procs s)(p := Some (x\<lparr>p_refcount := p_refcount x + 1\<rparr>))\<rparr>)
   }"

text \<open>The last release destroys the process, which must have no task left; its files and memory are not part of this state.\<close>

definition process_release :: "pid \<Rightarrow> sched \<Rightarrow> sched option" where
  "process_release p s = do {
     x \<leftarrow> procs s p;
     kassert (p_refcount x > 0);
     let x = x\<lparr>p_refcount := p_refcount x - 1\<rparr>;
     if p_refcount x = 0 then do {
       kassert (p_tasks x = []);
       Some (s\<lparr>procs := (procs s)(p := None)\<rparr>)
     } else Some (s\<lparr>procs := (procs s)(p := Some x)\<rparr>)
   }"

definition process_from_id :: "pid \<Rightarrow> sched \<Rightarrow> (pid option \<times> sched) option" where
  "process_from_id i s = (case procs s i of
       None \<Rightarrow> Some (None, s)
     | Some x \<Rightarrow> do { s \<leftarrow> process_retain i s; Some (Some i, s) })"

definition process_join :: "pid \<Rightarrow> u64 \<Rightarrow> sched \<Rightarrow> (bool call \<times> sched) option" where
  "process_join p timeout s = completion_wait (Exit_list p) timeout s"

definition task_init :: "pid \<Rightarrow> sched \<Rightarrow> (tid \<times> sched) option" where
  "task_init p s = do {
     kassert (tid_next s < TID_END);
     let t = tid_next s;
     s \<leftarrow> process_retain p (s\<lparr>tid_next := t + 1\<rparr>);
     x \<leftarrow> procs s p;
     Some (t, s\<lparr>tasks := (tasks s)(t := Some \<lparr>t_process = p, t_refcount = 1, t_state = TASK_WAITING, t_link = None,
           t_priority = TASK_PRIORITY_NORMAL, t_wait_for = None, t_has_timeout = False, t_wait_timeout = 0, t_kstack = False\<rparr>),
         procs := (procs s)(p := Some (x\<lparr>p_tasks := p_tasks x @ [t]\<rparr>)),
         queues := (queues s)(Wait_queue (Join_list t) := [])\<rparr>)
   }"

text \<open>
  \<open>stack_ok\<close> and \<open>slab_ok\<close>: whether the page for the stack and the task structure could be allocated.
\<close>

definition task_create :: "bool \<Rightarrow> bool \<Rightarrow> pid \<Rightarrow> nat \<Rightarrow> sched \<Rightarrow> (tid option \<times> sched) option" where
  "task_create stack_ok slab_ok p priority s = do {
     kassert (priority < TASK_PRIORITY_COUNT);
     if \<not> stack_ok then Some (None, s)
     else do {
       (r, s) \<leftarrow> completion_wait (Exit_list p) 0 s;
       if r = Done True then Some (None, s)
       else if \<not> slab_ok then Some (None, s)
       else do {
         (t, s) \<leftarrow> task_init p s;
         s \<leftarrow> upd t (\<lambda>x. x\<lparr>t_priority := priority\<rparr>) s;
         s \<leftarrow> set_wait_for t None s;
         s \<leftarrow> upd t (\<lambda>x. x\<lparr>t_kstack := True\<rparr>) s;
         Some (Some t, s)
       }
     }
   }"

definition task_resume :: "tid \<Rightarrow> sched \<Rightarrow> sched option" where
  "task_resume t s = do {
     x \<leftarrow> tasks s t;
     kassert (t_state x = TASK_WAITING);
     kassert (t_wait_for x = None);
     kassert (\<not> t_has_timeout x);
     s \<leftarrow> reset_wait_for t s;
     set_ready t s
   }"

text \<open>The kernel process is process 0.\<close>

definition ktask_start :: "bool \<Rightarrow> bool \<Rightarrow> nat \<Rightarrow> sched \<Rightarrow> (tid option \<times> sched) option" where
  "ktask_start stack_ok slab_ok priority s = do {
     (r, s) \<leftarrow> task_create stack_ok slab_ok 0 priority s;
     case r of
       None \<Rightarrow> Some (None, s)
     | Some t \<Rightarrow> do { s \<leftarrow> task_resume t s; Some (Some t, s) }
   }"

definition task_suspend :: "tid \<Rightarrow> sched \<Rightarrow> (unit call \<times> sched) option" where
  "task_suspend t s =
     (if cur s = t then do {
        s \<leftarrow> set_wait_for t None s;
        s \<leftarrow> schedule s;
        Some (Blocked, s)
      } else do {
        x \<leftarrow> tasks s t;
        kassert (t_state x = TASK_READY);
        s \<leftarrow> reset_ready t s;
        s \<leftarrow> set_wait_for t None s;
        Some (Done (), s)
      })"

definition task_free_stack :: "tid \<Rightarrow> sched \<Rightarrow> sched option" where
  "task_free_stack t s = upd t (\<lambda>x. x\<lparr>t_kstack := False\<rparr>) s"

definition task_free :: "tid \<Rightarrow> sched \<Rightarrow> sched option" where
  "task_free t s = do {
     s \<leftarrow> task_free_stack t s;
     x \<leftarrow> tasks s t;
     y \<leftarrow> procs s (t_process x);
     kassert (t \<in> set (p_tasks y));
     let y = y\<lparr>p_tasks := remove1 t (p_tasks y)\<rparr>;
     let s = s\<lparr>procs := (procs s)(t_process x := Some y)\<rparr>;
     s \<leftarrow> (if p_tasks y = [] then completion_signal (Exit_list (t_process x)) s else Some s);
     s \<leftarrow> process_release (t_process x) s;
     Some (s\<lparr>tasks := (tasks s)(t := None)\<rparr>)
   }"

definition task_release :: "tid \<Rightarrow> sched \<Rightarrow> sched option" where
  "task_release t s = do {
     x \<leftarrow> tasks s t;
     kassert (t_refcount x > 0);
     s \<leftarrow> upd t (\<lambda>x. x\<lparr>t_refcount := t_refcount x - 1\<rparr>) s;
     if t_refcount x - 1 = 0 \<and> t_state x = TASK_DEAD then task_free t s else Some s
   }"

definition task_retain :: "tid \<Rightarrow> sched \<Rightarrow> sched option" where
  "task_retain t s = do {
     x \<leftarrow> tasks s t;
     kassert (t_refcount x < MAX_REFC);
     upd t (\<lambda>x. x\<lparr>t_refcount := t_refcount x + 1\<rparr>) s
   }"

definition task_from_id :: "tid \<Rightarrow> sched \<Rightarrow> (tid option \<times> sched) option" where
  "task_from_id i s = (case tasks s i of
       None \<Rightarrow> Some (None, s)
     | Some x \<Rightarrow> do { s \<leftarrow> task_retain i s; Some (Some i, s) })"

definition task_before_dying :: "tid \<Rightarrow> sched \<Rightarrow> sched option" where
  "task_before_dying t s = do {
     s \<leftarrow> set_dead t s;
     wait_list_wake_all (Join_list t) s
   }"

definition task_terminate :: "tid \<Rightarrow> sched \<Rightarrow> sched option" where
  "task_terminate t s = do {
     x \<leftarrow> tasks s t;
     s \<leftarrow> (case t_state x of
         TASK_DEAD \<Rightarrow> None
       | TASK_RUNNING \<Rightarrow> None
       | TASK_READY \<Rightarrow> reset_ready t s
       | TASK_WAITING \<Rightarrow> do { s \<leftarrow> reset_timeout t s; reset_wait_for t s });
     s \<leftarrow> task_before_dying t s;
     s \<leftarrow> task_free_stack t s;
     task_release t s
   }"

definition task_exit :: "sched \<Rightarrow> sched option" where
  "task_exit s = do {
     let t = cur s;
     s \<leftarrow> task_before_dying t s;
     x \<leftarrow> tasks s t;
     kassert (t_refcount x < MAX_REFC);
     s \<leftarrow> upd t (\<lambda>x. x\<lparr>t_refcount := t_refcount x + 1\<rparr>) s;
     s \<leftarrow> list_push_back Dead_list t s;
     schedule s
   }"

definition task_join :: "tid \<Rightarrow> u64 \<Rightarrow> sched \<Rightarrow> (bool call \<times> sched) option" where
  "task_join t timeout s = do {
     kassert (t \<noteq> cur s);
     x \<leftarrow> tasks s t;
     if t_state x = TASK_DEAD then Some (Done True, s)
     else if timeout \<le> g_tick s then Some (Done False, s)
     else task_wait (Join_list t) timeout s
   }"

definition drain_dead :: "sched \<Rightarrow> (bool \<times> sched) option" where
  "drain_dead s = do {
     (r, s) \<leftarrow> list_pop_front Dead_list s;
     case r of
       None \<Rightarrow> Some (False, s)
     | Some t \<Rightarrow> do { s \<leftarrow> task_release t s; Some (True, s) }
   }"

text \<open>
  The scheduler with the kernel task 0, which runs, and the idle task 1, which is ready. \<open>stack_ok\<close> and \<open>slab_ok\<close> are for the worker
  of the coroutines, task 2.
\<close>

definition sched_init :: "bool \<Rightarrow> bool \<Rightarrow> u64 \<Rightarrow> sched option" where
  "sched_init stack_ok slab_ok tick = do {
     let s = \<lparr>tasks = \<lambda>_. None, procs = \<lambda>_. None, tid_next = 0, pid_next = 0, queues = \<lambda>_. [], timeout_queue = [],
       soonest_timeout = U64_MAX, cur = 0, g_tick = tick, events = \<lambda>_. \<lparr>e_signaled = False, e_auto_reset = True\<rparr>, owners = \<lambda>_. None,
       completed = \<lambda>_. False, g_msg_queue = (ringbuffer_init 4096, replicate 4096 (0, 0)), g_msg_drops = 0, g_msg_drop_event = False\<rparr>;
     (p, s) \<leftarrow> process_init s;
     (k, s) \<leftarrow> task_init p s;
     s \<leftarrow> upd k (\<lambda>x. x\<lparr>t_priority := TASK_PRIORITY_KERNEL\<rparr>) s;
     s \<leftarrow> set_running k s;
     let s = s\<lparr>cur := k\<rparr>;
     (i, s) \<leftarrow> task_init p s;
     s \<leftarrow> upd i (\<lambda>x. x\<lparr>t_priority := TASK_PRIORITY_IDLE\<rparr>) s;
     s \<leftarrow> set_ready i s;
     (_, s) \<leftarrow> ktask_start stack_ok slab_ok TASK_PRIORITY_KERNEL s;
     Some s
   }"

section \<open>Invariant\<close>

text \<open>A task is in the list its state calls for, and in the tree of timeouts exactly while it waits with one.\<close>

definition timed :: "task \<Rightarrow> bool" where
  "timed x \<longleftrightarrow> t_state x = TASK_WAITING \<and> t_has_timeout x"

definition task_ok :: "task \<Rightarrow> bool" where
  "task_ok x \<longleftrightarrow> t_priority x < TASK_PRIORITY_COUNT \<and> (case t_state x of
       TASK_READY \<Rightarrow> t_link x = Some (Ready_queue (t_priority x)) \<and> t_wait_for x = None
     | TASK_RUNNING \<Rightarrow> t_link x = None \<and> t_wait_for x = None
     | TASK_WAITING \<Rightarrow> t_link x = map_option Wait_queue (t_wait_for x)
     | TASK_DEAD \<Rightarrow> (t_link x = None \<or> t_link x = Some Dead_list) \<and> t_wait_for x = None)"

definition lists_ok :: "sched \<Rightarrow> bool" where
  "lists_ok s \<longleftrightarrow> (\<forall>q. distinct (queues s q)) \<and> (\<forall>q t. t \<in> set (queues s q) \<longleftrightarrow> (\<exists>x. tasks s t = Some x \<and> t_link x = Some q))"

definition before :: "u64 \<times> tid \<Rightarrow> u64 \<times> tid \<Rightarrow> bool" where
  "before x y \<longleftrightarrow> fst x < fst y \<or> fst x = fst y \<and> snd x < snd y"

definition timeouts_ok :: "sched \<Rightarrow> bool" where
  "timeouts_ok s \<longleftrightarrow> sorted_wrt before (timeout_queue s) \<and>
     (\<forall>w t. (w, t) \<in> set (timeout_queue s) \<longleftrightarrow> (\<exists>x. tasks s t = Some x \<and> timed x \<and> t_wait_timeout x = w))"

definition core :: "sched \<Rightarrow> bool" where
  "core s \<longleftrightarrow> lists_ok s \<and> timeouts_ok s \<and> (\<forall>t x. tasks s t = Some x \<longrightarrow> task_ok x \<and> t < tid_next s) \<and>
     rbuf_inv (g_msg_queue s)"

subsection \<open>Sorted timeouts\<close>

lemma before_trans: "before x y \<Longrightarrow> before y z \<Longrightarrow> before x z"
  by (auto simp: before_def)

lemma before_irrefl: "\<not> before x x"
  by (simp add: before_def)

lemma before_total: "x \<noteq> y \<Longrightarrow> before x y \<or> before y x"
  by (cases x; cases y) (auto simp: before_def)

lemma set_timeout_insert [simp]: "set (timeout_insert x xs) = insert x (set xs)"
  by (induction xs) auto

lemma sorted_timeout_insert: "sorted_wrt before xs \<Longrightarrow> x \<notin> set xs \<Longrightarrow> sorted_wrt before (timeout_insert x xs)"
proof (induction xs)
  case (Cons y ys)
  show ?case
  proof (cases "before x y")
    case True
    then show ?thesis using Cons.prems before_trans [OF True] by (auto simp: before_def [symmetric])
  next
    case False
    then have "before y x" using before_total [of x y] Cons.prems(2) by auto
    then show ?thesis using Cons False by (auto simp: before_def [symmetric])
  qed
qed (simp add: before_def)

lemma sorted_before_distinct: "sorted_wrt before xs \<Longrightarrow> distinct xs"
  by (induction xs) (auto simp: before_irrefl)

lemma timeouts_fst: "timeouts_ok s \<Longrightarrow> (w, t) \<in> set (timeout_queue s) \<Longrightarrow> (w', t) \<in> set (timeout_queue s) \<Longrightarrow> w = w'"
  unfolding timeouts_ok_def by (metis option.inject)

lemma timeouts_remove:
  assumes "timeouts_ok s" "(w, t) \<in> set (timeout_queue s)"
  shows "remove1 (w, t) (timeout_queue s) = filter (\<lambda>p. snd p \<noteq> t) (timeout_queue s)"
proof -
  have "distinct (timeout_queue s)" using assms(1) sorted_before_distinct by (auto simp: timeouts_ok_def)
  then have "remove1 (w, t) (timeout_queue s) = filter (\<lambda>p. p \<noteq> (w, t)) (timeout_queue s)" by (simp add: distinct_remove1_removeAll removeAll_filter_not_eq) (rule filter_cong, auto)
  also have "\<dots> = filter (\<lambda>p. snd p \<noteq> t) (timeout_queue s)"
  proof (intro filter_cong refl)
    fix p assume "p \<in> set (timeout_queue s)"
    then have "snd p = t \<longrightarrow> w = fst p" using timeouts_fst [OF assms, of "fst p"] by (cases p) auto
    then show "(p \<noteq> (w, t)) = (snd p \<noteq> t)" by (cases p) auto
  qed
  finally show ?thesis .
qed

lemma timeouts_untimed:
  assumes "timeouts_ok s" "tasks s t = Some x" "\<not> timed x"
  shows "filter (\<lambda>p. snd p \<noteq> t) (timeout_queue s) = timeout_queue s"
  using assms by (auto simp: timeouts_ok_def filter_id_conv)

subsection \<open>Moving one task\<close>

definition detach :: "tid \<Rightarrow> queue option \<Rightarrow> (queue \<Rightarrow> tid list) \<Rightarrow> queue \<Rightarrow> tid list" where
  "detach t l Q = (case l of None \<Rightarrow> Q | Some q \<Rightarrow> Q(q := remove1 t (Q q)))"

definition attach :: "tid \<Rightarrow> queue option \<Rightarrow> (queue \<Rightarrow> tid list) \<Rightarrow> queue \<Rightarrow> tid list" where
  "attach t l Q = (case l of None \<Rightarrow> Q | Some q \<Rightarrow> Q(q := Q q @ [t]))"

definition relocate :: "tid \<Rightarrow> task \<Rightarrow> task \<Rightarrow> sched \<Rightarrow> sched" where
  "relocate t x x' s = s\<lparr>tasks := (tasks s)(t := Some x'), queues := attach t (t_link x') (detach t (t_link x) (queues s)),
     timeout_queue := (if timed x' then timeout_insert (t_wait_timeout x', t) else id) (filter (\<lambda>p. snd p \<noteq> t) (timeout_queue s))\<rparr>"

lemma relocate_simps [simp]:
  "tasks (relocate t x x' s) = (tasks s)(t := Some x')" "procs (relocate t x x' s) = procs s" "tid_next (relocate t x x' s) = tid_next s" "pid_next (relocate t x x' s) = pid_next s"
  "soonest_timeout (relocate t x x' s) = soonest_timeout s" "cur (relocate t x x' s) = cur s" "g_tick (relocate t x x' s) = g_tick s"
  "events (relocate t x x' s) = events s" "owners (relocate t x x' s) = owners s" "completed (relocate t x x' s) = completed s"
  "g_msg_queue (relocate t x x' s) = g_msg_queue s"
  by (simp_all add: relocate_def)

lemma lists_relocate:
  assumes "lists_ok s" "tasks s t = Some x"
  shows "lists_ok (relocate t x x' s)"
proof -
  have m: "u \<in> set (queues s q) \<longleftrightarrow> (\<exists>y. tasks s u = Some y \<and> t_link y = Some q)" and d: "distinct (queues s q)" for u q
    using assms(1) by (auto simp: lists_ok_def)
  let ?Q = "detach t (t_link x) (queues s)"
  have dt: "u \<in> set (?Q q) \<longleftrightarrow> u \<noteq> t \<and> u \<in> set (queues s q)" and dd: "distinct (?Q q)" for u q
    using m [of u q] d [of q] assms(2) by (auto simp: detach_def split: option.split)
  have "u \<in> set (attach t (t_link x') ?Q q) \<longleftrightarrow> (\<exists>y. ((tasks s)(t := Some x')) u = Some y \<and> t_link y = Some q)" "distinct (attach t (t_link x') ?Q q)" for u q
    using dt [of _ q] dd [of q] m [of u q] by (auto simp: attach_def split: option.split)
  then show ?thesis by (simp add: lists_ok_def) (simp add: relocate_def)
qed

lemma timeouts_relocate:
  assumes "timeouts_ok s" "tasks s t = Some x"
  shows "timeouts_ok (relocate t x x' s)"
proof -
  let ?f = "filter (\<lambda>p. snd p \<noteq> t) (timeout_queue s)"
  have m: "(w, u) \<in> set ?f \<longleftrightarrow> u \<noteq> t \<and> (\<exists>y. tasks s u = Some y \<and> timed y \<and> t_wait_timeout y = w)" for w u
    using assms(1) by (auto simp: timeouts_ok_def)
  have so: "sorted_wrt before ?f" using assms(1) by (simp add: timeouts_ok_def sorted_wrt_filter)
  have "(w, t) \<notin> set ?f" for w by simp
  then show ?thesis using m so sorted_timeout_insert [OF so, of "(t_wait_timeout x', t)"]
    by (auto simp: timeouts_ok_def relocate_def)
qed

lemma core_relocate:
  assumes "core s" "tasks s t = Some x" "task_ok x'"
  shows "core (relocate t x x' s)"
  using assms lists_relocate [of s t x x'] timeouts_relocate [of s t x x'] by (auto simp: core_def)

text \<open>An update that touches neither the lists nor the state.\<close>

definition same_place :: "task \<Rightarrow> task \<Rightarrow> bool" where
  "same_place x x' \<longleftrightarrow> t_link x' = t_link x \<and> timed x' = timed x \<and> t_wait_timeout x' = t_wait_timeout x"

lemma core_update:
  assumes "core s" "tasks s t = Some x" "task_ok x'" "same_place x x'"
  shows "core (s\<lparr>tasks := (tasks s)(t := Some x')\<rparr>)"
  using assms unfolding core_def lists_ok_def timeouts_ok_def same_place_def by (auto split: if_splits)

lemma core_queue:
  assumes "core s"
  shows "t \<in> set (queues s q) \<longleftrightarrow> (\<exists>x. tasks s t = Some x \<and> t_link x = Some q)" "distinct (queues s q)"
  using assms by (auto simp: core_def lists_ok_def)

lemma core_task: "core s \<Longrightarrow> tasks s t = Some x \<Longrightarrow> task_ok x"
  by (auto simp: core_def)

lemma waiting_task:
  assumes "core s" "queues s (Wait_queue wl) = t # ts"
  obtains x where "tasks s t = Some x" "t_link x = Some (Wait_queue wl)" "t_state x = TASK_WAITING" "t_wait_for x = Some wl" "t_priority x < 8"
proof -
  obtain x where x: "tasks s t = Some x" "t_link x = Some (Wait_queue wl)" using core_queue(1) [OF assms(1), of t "Wait_queue wl"] assms(2) by auto
  have ok: "task_ok x" by (rule core_task [OF assms(1) x(1)])
  have "t_state x = TASK_WAITING" using ok x(2) by (cases "t_state x") (simp_all add: task_ok_def)
  moreover have "t_wait_for x = Some wl" using ok x(2) calculation by (cases "t_wait_for x") (simp_all add: task_ok_def)
  ultimately show ?thesis using x ok that by (simp add: task_ok_def)
qed

text \<open>The operations on one task move it.\<close>

lemma set_ready_relocate:
  assumes "core s" "tasks s t = Some x" "t_link x = None" "\<not> timed x"
  shows "set_ready t s = Some (relocate t x (x\<lparr>t_state := TASK_READY, t_link := Some (Ready_queue (t_priority x))\<rparr>) s)"
proof -
  have "filter (\<lambda>p. snd p \<noteq> t) (timeout_queue s) = timeout_queue s" using timeouts_untimed assms by (auto simp: core_def)
  then show ?thesis using assms(2,3)
    by (simp add: set_ready_def upd_def list_push_back_def relocate_def attach_def detach_def timed_def)
qed

lemma set_wait_for_relocate:
  assumes "core s" "tasks s t = Some x" "t_link x = None" "\<not> timed x"
  shows "set_wait_for t wl s = Some (relocate t x (x\<lparr>t_state := TASK_WAITING, t_wait_for := wl, t_link := map_option Wait_queue wl, t_has_timeout := False\<rparr>) s)"
proof -
  have "filter (\<lambda>p. snd p \<noteq> t) (timeout_queue s) = timeout_queue s" using timeouts_untimed assms by (auto simp: core_def)
  then show ?thesis using assms(2,3)
    by (cases x; cases wl) (simp_all add: set_wait_for_def upd_def list_push_back_def relocate_def attach_def detach_def timed_def)
qed

lemma set_wait_timeout_relocate:
  assumes "core s" "tasks s t = Some x" "t_link x = None" "\<not> timed x"
  shows "set_wait_timeout t wl w s = (let s' = relocate t x (x\<lparr>t_state := TASK_WAITING, t_wait_for := wl, t_link := map_option Wait_queue wl,
      t_has_timeout := True, t_wait_timeout := w\<rparr>) s in Some (if soonest_timeout s > w then s'\<lparr>soonest_timeout := w\<rparr> else s'))"
proof -
  have "filter (\<lambda>p. snd p \<noteq> t) (timeout_queue s) = timeout_queue s" using timeouts_untimed assms by (auto simp: core_def)
  then show ?thesis using assms(2,3) set_wait_for_relocate [OF assms]
    by (simp add: set_wait_timeout_def upd_def relocate_def attach_def detach_def timed_def Let_def)
qed

lemma wake_one_relocate:
  assumes "core s" "queues s (Wait_queue wl) = t # ts" "tasks s t = Some x"
  shows "wait_list_wake_one wl s = Some (True, relocate t x (x\<lparr>t_state := TASK_READY, t_link := Some (Ready_queue (t_priority x)),
      t_wait_for := None, t_has_timeout := False\<rparr>) s)"
proof -
  have x: "t_link x = Some (Wait_queue wl)" "t_state x = TASK_WAITING" using waiting_task [OF assms(1,2)] assms(3) by auto
  have to: "timeouts_ok s" using assms(1) by (simp add: core_def)
  have tq: "(if t_has_timeout x then remove1 (t_wait_timeout x, t) (timeout_queue s) else timeout_queue s) = filter (\<lambda>p. snd p \<noteq> t) (timeout_queue s)"
  proof (cases "t_has_timeout x")
    case True
    then have "(t_wait_timeout x, t) \<in> set (timeout_queue s)" using to assms(3) x(2) by (auto simp: timeouts_ok_def timed_def)
    then show ?thesis using timeouts_remove [OF to] True by simp
  next
    case False
    then show ?thesis using timeouts_untimed [OF to assms(3)] by (simp add: timed_def)
  qed
  show ?thesis
    using assms(2,3) x tq
    by (cases x; cases "t_has_timeout x") (simp_all add: wait_list_wake_one_def list_pop_front_def list_remove_def upd_def reset_timeout_def set_ready_def
        list_push_back_def relocate_def attach_def detach_def timed_def)
qed

lemma wake_one_none: "queues s (Wait_queue wl) = [] \<Longrightarrow> wait_list_wake_one wl s = Some (False, s)"
  by (simp add: wait_list_wake_one_def list_pop_front_def)

lemma core_other [simp]:
  "core (s\<lparr>events := ev\<rparr>) = core s" "core (s\<lparr>owners := ow\<rparr>) = core s" "core (s\<lparr>completed := co\<rparr>) = core s" "core (s\<lparr>procs := pr\<rparr>) = core s"
  "core (s\<lparr>cur := t\<rparr>) = core s" "core (s\<lparr>g_tick := n\<rparr>) = core s" "core (s\<lparr>soonest_timeout := w\<rparr>) = core s" "core (s\<lparr>g_msg_drops := d\<rparr>) = core s"
  "core (s\<lparr>g_msg_drop_event := b\<rparr>) = core s"
  by (simp_all add: core_def lists_ok_def timeouts_ok_def)

lemma core_msg: "core s \<Longrightarrow> rbuf_inv q \<Longrightarrow> core (s\<lparr>g_msg_queue := q\<rparr>)"
  by (simp add: core_def lists_ok_def timeouts_ok_def)

subsection \<open>Waking keeps the rest\<close>

definition made_ready :: "task \<Rightarrow> task \<Rightarrow> bool" where
  "made_ready x x' \<longleftrightarrow> t_state x = TASK_WAITING \<and> t_state x' = TASK_READY \<and> t_priority x' = t_priority x \<and> t_process x' = t_process x \<and>
     t_refcount x' = t_refcount x \<and> t_kstack x' = t_kstack x"

definition woken :: "sched \<Rightarrow> sched \<Rightarrow> bool" where
  "woken s s' \<longleftrightarrow> procs s' = procs s \<and> tid_next s' = tid_next s \<and> pid_next s' = pid_next s \<and> cur s' = cur s \<and> g_tick s' = g_tick s \<and> owners s' = owners s \<and>
     soonest_timeout s' = soonest_timeout s \<and> (\<forall>t. tasks s t = None \<longrightarrow> tasks s' t = None) \<and>
     (\<forall>t x. tasks s t = Some x \<longrightarrow> (\<exists>x'. tasks s' t = Some x' \<and> (x' = x \<or> made_ready x x')))"

lemma woken_refl: "woken s s"
  by (simp add: woken_def)

lemma woken_trans: "woken s s1 \<Longrightarrow> woken s1 s2 \<Longrightarrow> woken s s2"
  unfolding woken_def made_ready_def by (metis task_state.distinct(5) task_state.distinct(3))

lemma woken_keeps:
  assumes "woken s s'" "tasks s t = Some x" "t_state x \<noteq> TASK_WAITING"
  shows "tasks s' t = Some x"
  using assms by (auto simp: woken_def made_ready_def)

lemma woken_other [simp]:
  "woken s (s'\<lparr>events := ev\<rparr>) = woken s s'" "woken s (s'\<lparr>g_msg_queue := q\<rparr>) = woken s s'" "woken s (s'\<lparr>completed := co\<rparr>) = woken s s'"
  "woken (s\<lparr>events := ev\<rparr>) s' = woken s s'" "woken (s\<lparr>g_msg_queue := q\<rparr>) s' = woken s s'" "woken (s\<lparr>completed := co\<rparr>) s' = woken s s'"
  "woken (s\<lparr>g_msg_drops := d\<rparr>) s' = woken s s'" "woken (s\<lparr>g_msg_drop_event := b\<rparr>) s' = woken s s'"
  by (simp_all add: woken_def)

lemma wake_one_ok:
  assumes "core s"
  shows "\<exists>b s'. wait_list_wake_one wl s = Some (b, s') \<and> core s' \<and> woken s s' \<and> b = (queues s (Wait_queue wl) \<noteq> []) \<and>
    queues s' (Wait_queue wl) = tl (queues s (Wait_queue wl)) \<and> (\<forall>l. l \<noteq> wl \<longrightarrow> queues s' (Wait_queue l) = queues s (Wait_queue l)) \<and>
    g_msg_queue s' = g_msg_queue s \<and> events s' = events s \<and> completed s' = completed s"
proof (cases "queues s (Wait_queue wl)")
  case Nil
  then show ?thesis using assms by (auto simp: wake_one_none woken_refl)
next
  case (Cons t ts)
  obtain x where x: "tasks s t = Some x" "t_link x = Some (Wait_queue wl)" "t_state x = TASK_WAITING" "t_priority x < 8"
    using waiting_task [OF assms Cons] by metis
  let ?x = "x\<lparr>t_state := TASK_READY, t_link := Some (Ready_queue (t_priority x)), t_wait_for := None, t_has_timeout := False\<rparr>"
  have run: "wait_list_wake_one wl s = Some (True, relocate t x ?x s)" by (rule wake_one_relocate [OF assms Cons x(1)])
  have "core (relocate t x ?x s)" using x(4) by (intro core_relocate assms x(1)) (simp add: task_ok_def)
  moreover have "woken s (relocate t x ?x s)" using x by (auto simp: woken_def made_ready_def)
  moreover have "queues (relocate t x ?x s) (Wait_queue l) = (if l = wl then ts else queues s (Wait_queue l))" for l
    using x(2) Cons by (auto simp: relocate_def attach_def detach_def)
  ultimately show ?thesis using run Cons by auto
qed

lemma wake_all_ok:
  assumes "core s"
  shows "\<exists>s'. wait_list_wake_all wl s = Some s' \<and> core s' \<and> woken s s' \<and> queues s' (Wait_queue wl) = [] \<and>
    (\<forall>l. l \<noteq> wl \<longrightarrow> queues s' (Wait_queue l) = queues s (Wait_queue l)) \<and> g_msg_queue s' = g_msg_queue s \<and> events s' = events s \<and>
    completed s' = completed s"
  using assms
proof (induction "length (queues s (Wait_queue wl))" arbitrary: s)
  case 0
  then show ?case by (subst wait_list_wake_all.simps) (simp add: woken_refl)
next
  case (Suc n)
  then have ne: "queues s (Wait_queue wl) \<noteq> []" by auto
  obtain s1 where s1: "wait_list_wake_one wl s = Some (True, s1)" "core s1" "woken s s1" "queues s1 (Wait_queue wl) = tl (queues s (Wait_queue wl))"
      "\<forall>l. l \<noteq> wl \<longrightarrow> queues s1 (Wait_queue l) = queues s (Wait_queue l)" "g_msg_queue s1 = g_msg_queue s" "events s1 = events s" "completed s1 = completed s"
    using wake_one_ok [OF Suc.prems, of wl] ne by auto
  have "n = length (queues s1 (Wait_queue wl))" using s1(4) Suc.hyps(2) by simp
  from Suc.hyps(1) [OF this s1(2)] obtain s2 where s2: "wait_list_wake_all wl s1 = Some s2" "core s2" "woken s1 s2" "queues s2 (Wait_queue wl) = []"
      "\<forall>l. l \<noteq> wl \<longrightarrow> queues s2 (Wait_queue l) = queues s1 (Wait_queue l)" "g_msg_queue s2 = g_msg_queue s1" "events s2 = events s1" "completed s2 = completed s1" by blast
  have "wait_list_wake_all wl s = Some s2" using ne s1(1) s2(1) by (subst wait_list_wake_all.simps) simp
  then show ?case using s1 s2 woken_trans [OF s1(3) s2(3)] by auto
qed

lemma event_signal_ok:
  assumes "core s"
  shows "\<exists>s'. event_signal e s = Some s' \<and> core s' \<and> woken s s' \<and> g_msg_queue s' = g_msg_queue s \<and>
    (\<forall>l. l \<noteq> Object_list e \<longrightarrow> queues s' (Wait_queue l) = queues s (Wait_queue l))"
proof (cases "e_auto_reset (events s e)")
  case True
  then show ?thesis using wake_one_ok [OF assms, of "Object_list e"] by (auto simp: event_signal_def)
next
  case False
  have "core (s\<lparr>events := (events s)(e := (events s e)\<lparr>e_signaled := True\<rparr>)\<rparr>)" using assms by simp
  from wake_all_ok [OF this, of "Object_list e"] show ?thesis using False by (auto simp: event_signal_def)
qed

lemma irqmsg_push_ok:
  assumes "core s"
  shows "\<exists>b s'. irqmsg_push m s = Some (b, s') \<and> core s' \<and> woken s s' \<and>
    (\<forall>l. l \<noteq> Object_list g_event \<longrightarrow> queues s' (Wait_queue l) = queues s (Wait_queue l)) \<and>
    rb_contents (g_msg_queue s') = (if b then rb_contents (g_msg_queue s) @ [m] else rb_contents (g_msg_queue s)) \<and>
    b = (\<not> ringbuffer_is_full (fst (g_msg_queue s)))"
proof (cases "ringbuffer_is_full (fst (g_msg_queue s))")
  case True
  have "core (s\<lparr>g_msg_drops := g_msg_drops s + 1, g_msg_drop_event := True\<rparr>)" using assms by simp
  from event_signal_ok [OF this, of g_event] show ?thesis using True by (auto simp: irqmsg_push_def)
next
  case False
  have inv: "rbuf_inv (g_msg_queue s)" using assms by (simp add: core_def)
  have "length (rb_contents (g_msg_queue s)) < unat (maxlen (fst (g_msg_queue s)))"
    using False rbq.bounded [OF inv] by (simp add: ringbuffer_is_full_def rb_contents_length word_unat_eq_iff)
  from rbq.push_ok [OF inv this, of m] obtain q where q: "ringbuffer_push (g_msg_queue s) m = Some q" "rbuf_inv q" "rb_contents q = rb_contents (g_msg_queue s) @ [m]" by blast
  have "core (s\<lparr>g_msg_queue := q\<rparr>)" using core_msg [OF assms q(2)] .
  from event_signal_ok [OF this, of g_event] obtain s' where s': "event_signal g_event (s\<lparr>g_msg_queue := q\<rparr>) = Some s'" "core s'" "woken s s'" "g_msg_queue s' = q"
      "\<forall>l. l \<noteq> Object_list g_event \<longrightarrow> queues s' (Wait_queue l) = queues s (Wait_queue l)" by auto
  have "irqmsg_push m s = Some (True, s')" using False q(1) s'(1) by (simp add: irqmsg_push_def)
  then show ?thesis using s' q(3) False by (intro exI [of _ True] exI [of _ s']) simp
qed

section \<open>Scheduling\<close>

definition idle_ok :: "sched \<Rightarrow> bool" where
  "idle_ok s \<longleftrightarrow> (\<exists>x. tasks s 1 = Some x \<and> t_priority x = TASK_PRIORITY_IDLE \<and> (t_state x = TASK_READY \<or> t_state x = TASK_RUNNING))"

text \<open>Inside a function the current task may have left the running state; between two functions it runs.\<close>

definition semi :: "sched \<Rightarrow> bool" where
  "semi s \<longleftrightarrow> core s \<and> (\<forall>t x. tasks s t = Some x \<and> t_state x = TASK_RUNNING \<longrightarrow> t = cur s) \<and> tasks s (cur s) \<noteq> None \<and> idle_ok s"

definition sched_inv :: "sched \<Rightarrow> bool" where
  "sched_inv s \<longleftrightarrow> semi s \<and> (\<exists>x. tasks s (cur s) = Some x \<and> t_state x = TASK_RUNNING)"

lemma sched_inv_semi: "sched_inv s \<Longrightarrow> semi s"
  by (simp add: sched_inv_def)

lemma semi_core: "semi s \<Longrightarrow> core s"
  by (simp add: semi_def)

lemma woken_back: "woken s s' \<Longrightarrow> tasks s' t = Some x' \<Longrightarrow> t_state x' \<noteq> TASK_READY \<Longrightarrow> tasks s t = Some x'"
  unfolding woken_def made_ready_def by (metis option.exhaust option.inject option.distinct(1))

lemma woken_idle:
  assumes "woken s s'" "idle_ok s"
  shows "idle_ok s'"
proof -
  obtain x where x: "tasks s 1 = Some x" "t_priority x = 7" "t_state x = TASK_READY \<or> t_state x = TASK_RUNNING" using assms(2) by (auto simp: idle_ok_def)
  then have "t_state x \<noteq> TASK_WAITING" by auto
  from woken_keeps [OF assms(1) x(1) this] show ?thesis using x by (simp add: idle_ok_def)
qed

lemma woken_semi:
  assumes "woken s s'" "core s'" "semi s"
  shows "semi s'"
proof -
  have "tasks s' (cur s') \<noteq> None" using assms unfolding woken_def semi_def by (metis option.exhaust option.distinct(1))
  moreover have "t = cur s'" if "tasks s' t = Some x" "t_state x = TASK_RUNNING" for t x
    using woken_back [OF assms(1) that(1)] that(2) assms(1,3) by (simp add: semi_def woken_def)
  ultimately show ?thesis using woken_idle [OF assms(1)] assms(2,3) by (auto simp: semi_def)
qed

lemma woken_sched_inv:
  assumes "woken s s'" "core s'" "sched_inv s"
  shows "sched_inv s'"
proof -
  obtain x where x: "tasks s (cur s) = Some x" "t_state x = TASK_RUNNING" using assms(3) by (auto simp: sched_inv_def)
  have "tasks s' (cur s') = Some x" using woken_keeps [OF assms(1) x(1)] x(2) assms(1) by (simp add: woken_def)
  then show ?thesis using woken_semi [OF assms(1,2)] assms(3) x(2) by (auto simp: sched_inv_def)
qed

lemma ready_task:
  assumes "core s" "t \<in> set (queues s (Ready_queue i))"
  obtains x where "tasks s t = Some x" "t_state x = TASK_READY" "t_priority x = i" "t_link x = Some (Ready_queue i)" "t_wait_for x = None" "i < 8"
proof -
  obtain x where x: "tasks s t = Some x" "t_link x = Some (Ready_queue i)" using core_queue(1) [OF assms(1)] assms(2) by auto
  have ok: "task_ok x" by (rule core_task [OF assms(1) x(1)])
  have "t_state x = TASK_READY" using ok x(2) by (cases "t_state x"; cases "t_wait_for x") (auto simp: task_ok_def)
  then show ?thesis using that [OF x(1)] ok x(2) by (simp add: task_ok_def)
qed

lemma task_ready_queue:
  assumes "core s" "tasks s t = Some x" "t_state x = TASK_READY"
  shows "t \<in> set (queues s (Ready_queue (t_priority x)))" "t_priority x < 8"
  using core_queue(1) [OF assms(1), of t "Ready_queue (t_priority x)"] core_task [OF assms(1,2)] assms(2,3) by (auto simp: task_ok_def)

text \<open>The first task of the most urgent queue that is not empty.\<close>

lemma ready_queue_top_Some:
  assumes "core s" "ready_queue_top s = Some n"
  obtains x ts where "tasks s n = Some x" "t_state x = TASK_READY" "queues s (Ready_queue (t_priority x)) = n # ts" "t_priority x < 8"
    "\<forall>i < t_priority x. queues s (Ready_queue i) = []"
proof -
  obtain i where i: "find (\<lambda>i. queues s (Ready_queue i) \<noteq> []) [0..<8] = Some i" "n = hd (queues s (Ready_queue i))"
    using assms(2) by (auto simp: ready_queue_top_def split: option.splits)
  then have q: "queues s (Ready_queue i) \<noteq> []" "\<forall>j<i. queues s (Ready_queue j) = []"
    by (auto simp: find_Some_iff)
  then have n: "n \<in> set (queues s (Ready_queue i))" using i(2) by simp
  obtain x where "tasks s n = Some x" "t_state x = TASK_READY" "t_priority x = i" "i < 8" using ready_task [OF assms(1) n] .
  then show ?thesis using that [of x "tl (queues s (Ready_queue i))"] q i(2) by simp
qed

lemma ready_queue_top_None: "ready_queue_top s = None \<Longrightarrow> i < 8 \<Longrightarrow> queues s (Ready_queue i) = []"
  by (auto simp: ready_queue_top_def find_None_iff split: option.splits)

lemma run_next:
  assumes "core s" "tasks s n = Some x" "t_state x = TASK_READY"
  shows "(do { s \<leftarrow> ready_queue_pop n s; set_running n s }) = Some (relocate n x (x\<lparr>t_state := TASK_RUNNING, t_link := None\<rparr>) s)"
proof -
  have "t_link x = Some (Ready_queue (t_priority x))" using core_task [OF assms(1,2)] assms(3) by (simp add: task_ok_def)
  moreover have "filter (\<lambda>p. snd p \<noteq> n) (timeout_queue s) = timeout_queue s"
    using timeouts_untimed [of s n x] assms by (simp add: core_def timed_def)
  ultimately show ?thesis using assms(2)
    by (cases s; cases x) (simp add: ready_queue_pop_def list_remove_def set_running_def upd_def relocate_def attach_def detach_def timed_def)
qed

text \<open>
  What \<^verbatim>\<open>schedule\<close> does after the check of the timeouts: the current task goes on when it runs and every ready task is less urgent,
  otherwise it joins the back of its queue if it runs, and the first task of the most urgent queue runs.
\<close>

definition switch :: "sched \<Rightarrow> sched \<Rightarrow> bool" where
  "switch s s' \<longleftrightarrow> (\<exists>c. tasks s (cur s) = Some c \<and> (case ready_queue_top s of
       None \<Rightarrow> s' = s
     | Some n \<Rightarrow> \<exists>x. tasks s n = Some x \<and>
         (if t_state c = TASK_RUNNING \<and> t_priority c < t_priority x then s' = s
          else let s1 = (if t_state c = TASK_RUNNING then relocate (cur s) c (c\<lparr>t_state := TASK_READY, t_link := Some (Ready_queue (t_priority c))\<rparr>) s else s)
               in s' = (relocate n x (x\<lparr>t_state := TASK_RUNNING, t_link := None\<rparr>) s1)\<lparr>cur := n\<rparr>)))"

lemma switch_ok:
  assumes "semi s" "switch s s'"
  shows "sched_inv s'"
proof -
  have co: "core s" and run: "\<And>t x. tasks s t = Some x \<Longrightarrow> t_state x = TASK_RUNNING \<Longrightarrow> t = cur s" and idle: "idle_ok s"
    using assms(1) by (auto simp: semi_def)
  obtain c where c: "tasks s (cur s) = Some c" using assms(2) by (auto simp: switch_def)
  obtain i where i: "tasks s 1 = Some i" "t_priority i = 7" "t_state i = TASK_READY \<or> t_state i = TASK_RUNNING" using idle by (auto simp: idle_ok_def)
  show ?thesis
  proof (cases "ready_queue_top s")
    case None
    have "t_state i \<noteq> TASK_READY"
    proof
      assume "t_state i = TASK_READY"
      then have "queues s (Ready_queue 7) \<noteq> []" using task_ready_queue [OF co i(1)] i(2) by auto
      then show False using ready_queue_top_None [OF None, of 7] by simp
    qed
    then have "t_state i = TASK_RUNNING" "1 = cur s" using i run [OF i(1)] by auto
    moreover have "s' = s" using assms(2) None by (auto simp: switch_def)
    ultimately show ?thesis using assms(1) i(1) by (auto simp: sched_inv_def)
  next
    case (Some n)
    obtain x where x: "tasks s n = Some x" "t_state x = TASK_READY" "t_priority x < 8" using ready_queue_top_Some [OF co Some] by metis
    show ?thesis
    proof (cases "t_state c = TASK_RUNNING \<and> t_priority c < t_priority x")
      case True
      then have "s' = s" using assms(2) Some c x(1) by (auto simp: switch_def)
      then show ?thesis using assms(1) c True by (auto simp: sched_inv_def)
    next
      case False
      define s1 where "s1 = (if t_state c = TASK_RUNNING then relocate (cur s) c (c\<lparr>t_state := TASK_READY, t_link := Some (Ready_queue (t_priority c))\<rparr>) s else s)"
      let ?x = "x\<lparr>t_state := TASK_RUNNING, t_link := None\<rparr>"
      have s': "s' = (relocate n x ?x s1)\<lparr>cur := n\<rparr>" using assms(2) Some c x(1) False by (auto simp: switch_def s1_def Let_def)
      have c8: "t_priority c < 8" using core_task [OF co c] by (simp add: task_ok_def)
      have co1: "core s1"
        using co core_relocate [OF co c, of "c\<lparr>t_state := TASK_READY, t_link := Some (Ready_queue (t_priority c))\<rparr>"] core_task [OF co c]
        by (auto simp: s1_def task_ok_def)
      have nc: "n \<noteq> cur s \<or> t_state c \<noteq> TASK_RUNNING" using x(1,2) c by auto
      then have n1: "tasks s1 n = Some x" using x(1) by (auto simp: s1_def)
      have co': "core s'" unfolding s' using core_relocate [OF co1 n1, of ?x] core_task [OF co1 n1] x(2) by (auto simp: task_ok_def)
      have t': "tasks s' t = (if t = n then Some ?x else tasks s1 t)" and cur': "cur s' = n" for t by (simp_all add: s')
      have only: "t = n" if "tasks s' t = Some y" "t_state y = TASK_RUNNING" for t y
      proof (rule ccontr)
        assume tn: "t \<noteq> n"
        then have y: "tasks s1 t = Some y" using that(1) t' by simp
        then have "tasks s t = Some y" "\<not> (t = cur s \<and> t_state c = TASK_RUNNING)" using that(2) by (auto simp: s1_def split: if_splits)
        then show False using run [of t y] that(2) c by auto
      qed
      have idle': "idle_ok s'"
      proof -
        have "\<exists>j. tasks s1 1 = Some j \<and> t_priority j = 7 \<and> (t_state j = TASK_READY \<or> t_state j = TASK_RUNNING)"
          using i c by (auto simp: s1_def)
        then show ?thesis unfolding idle_ok_def using n1 by (auto simp: t')
      qed
      have "tasks s' n \<noteq> None" using t' [of n] by simp
      then have "semi s'" unfolding semi_def cur' using co' only idle' by blast
      then show ?thesis using t' [of n] by (simp add: sched_inv_def cur')
    qed
  qed
qed

lemma schedule_ok:
  assumes "semi s"
  shows "\<exists>s1 s'. schedule s = Some s' \<and> switch s1 s' \<and> semi s1 \<and> sched_inv s' \<and>
    (if soonest_timeout s \<le> g_tick s
     then \<exists>b. irqmsg_push (IRQMSG_SCHED_TIMEOUT, 0) s = Some (b, s1\<lparr>soonest_timeout := soonest_timeout s\<rparr>) \<and> soonest_timeout s1 = (if b then U64_MAX else soonest_timeout s)
     else s1 = s)"
proof -
  define pre where "pre = (if soonest_timeout s \<le> g_tick s then do {
         (ok, s) \<leftarrow> irqmsg_push (IRQMSG_SCHED_TIMEOUT, 0) s;
         Some (if ok then s\<lparr>soonest_timeout := U64_MAX\<rparr> else s)
       } else Some s)"
  have "\<exists>s1. pre = Some s1 \<and> semi s1 \<and> (if soonest_timeout s \<le> g_tick s
     then \<exists>b. irqmsg_push (IRQMSG_SCHED_TIMEOUT, 0) s = Some (b, s1\<lparr>soonest_timeout := soonest_timeout s\<rparr>) \<and> soonest_timeout s1 = (if b then U64_MAX else soonest_timeout s)
     else s1 = s)"
  proof (cases "soonest_timeout s \<le> g_tick s")
    case True
    obtain b s1 where p: "irqmsg_push (IRQMSG_SCHED_TIMEOUT, 0) s = Some (b, s1)" "core s1" "woken s s1"
      using irqmsg_push_ok [OF semi_core [OF assms], of "(IRQMSG_SCHED_TIMEOUT, 0)"] by blast
    have "semi s1" by (rule woken_semi [OF p(3,2) assms])
    then have "semi (s1\<lparr>soonest_timeout := U64_MAX\<rparr>)" by (simp add: semi_def idle_ok_def)
    moreover have "soonest_timeout s1 = soonest_timeout s" using p(3) by (simp add: woken_def)
    then have "s1\<lparr>soonest_timeout := soonest_timeout s\<rparr> = s1" by simp
    ultimately show ?thesis using True p(1) \<open>semi s1\<close> \<open>soonest_timeout s1 = soonest_timeout s\<close>
      by (cases b) (auto simp: pre_def)
  next
    case False
    then show ?thesis using assms by (simp add: pre_def)
  qed
  then obtain s1 where s1: "pre = Some s1" "semi s1" "if soonest_timeout s \<le> g_tick s
     then \<exists>b. irqmsg_push (IRQMSG_SCHED_TIMEOUT, 0) s = Some (b, s1\<lparr>soonest_timeout := soonest_timeout s\<rparr>) \<and> soonest_timeout s1 = (if b then U64_MAX else soonest_timeout s)
     else s1 = s" by blast
  have co: "core s1" by (rule semi_core [OF s1(2)])
  obtain c where c: "tasks s1 (cur s1) = Some c" using s1(2) by (auto simp: semi_def)
  have "\<exists>s'. schedule s = Some s' \<and> switch s1 s'"
  proof (cases "ready_queue_top s1")
    case None
    then show ?thesis using s1(1) c by (simp add: schedule_def pre_def [symmetric] switch_def)
  next
    case (Some n)
    obtain x where x: "tasks s1 n = Some x" "t_state x = TASK_READY" using ready_queue_top_Some [OF co Some] by metis
    show ?thesis
    proof (cases "t_state c = TASK_RUNNING \<and> t_priority c < t_priority x")
      case True
      then show ?thesis using s1(1) c x Some by (simp add: schedule_def pre_def [symmetric] switch_def)
    next
      case False
      let ?c = "c\<lparr>t_state := TASK_READY, t_link := Some (Ready_queue (t_priority c))\<rparr>"
      define s2 where "s2 = (if t_state c = TASK_RUNNING then relocate (cur s1) c ?c s1 else s1)"
      have okc: "task_ok c" by (rule core_task [OF co c])
      have s2: "(if t_state c = TASK_RUNNING then set_ready (cur s1) s1 else Some s1) = Some s2"
        using set_ready_relocate [OF co c] okc by (auto simp: s2_def task_ok_def timed_def)
      have co2: "core s2" using co core_relocate [OF co c, of ?c] okc by (auto simp: s2_def task_ok_def)
      have n2: "tasks s2 n = Some x" using x c by (auto simp: s2_def)
      have "schedule s = Some ((relocate n x (x\<lparr>t_state := TASK_RUNNING, t_link := None\<rparr>) s2)\<lparr>cur := n\<rparr>)"
      proof -
        obtain s3 where "ready_queue_pop n s2 = Some s3" "set_running n s3 = Some (relocate n x (x\<lparr>t_state := TASK_RUNNING, t_link := None\<rparr>) s2)"
          using run_next [OF co2 n2 x(2)] by (auto simp: Option.bind_eq_Some_conv)
        then show ?thesis using s1(1) Some c x(1) False s2 by (auto simp: schedule_def pre_def [symmetric] Let_def)
      qed
      moreover have "switch s1 ((relocate n x (x\<lparr>t_state := TASK_RUNNING, t_link := None\<rparr>) s2)\<lparr>cur := n\<rparr>)"
        unfolding switch_def using False by (intro exI [of _ c]) (auto simp: Some c x(1) s2_def Let_def)
      ultimately show ?thesis by blast
    qed
  qed
  then show ?thesis using s1 switch_ok [OF s1(2)] by blast
qed

section \<open>Waiting and timeouts\<close>

text \<open>
  No timeout is forgotten: \<open>soonest_timeout\<close> is at most every timeout that is waited for, unless the message that has them
  examined is in the queue, or has been taken from it (\<open>P\<close>).
\<close>

abbreviation timeout_msg :: irqmsg where
  "timeout_msg \<equiv> (IRQMSG_SCHED_TIMEOUT, 0)"

definition timer_ok :: "bool \<Rightarrow> sched \<Rightarrow> bool" where
  "timer_ok P s \<longleftrightarrow> P \<or> timeout_msg \<in> set (rb_contents (g_msg_queue s)) \<or>
     (\<forall>t x. tasks s t = Some x \<and> timed x \<longrightarrow> soonest_timeout s \<le> t_wait_timeout x)"

lemma timer_ok_mono:
  assumes "timer_ok P s" "set (rb_contents (g_msg_queue s)) \<subseteq> set (rb_contents (g_msg_queue s'))" "soonest_timeout s' \<le> soonest_timeout s"
    "\<And>t x'. tasks s' t = Some x' \<Longrightarrow> timed x' \<Longrightarrow> soonest_timeout s' \<le> t_wait_timeout x' \<or> (\<exists>x. tasks s t = Some x \<and> timed x \<and> t_wait_timeout x = t_wait_timeout x')"
  shows "timer_ok P s'"
proof (cases "P \<or> timeout_msg \<in> set (rb_contents (g_msg_queue s))")
  case True
  then show ?thesis using assms(2) by (auto simp: timer_ok_def)
next
  case False
  then have due: "soonest_timeout s \<le> t_wait_timeout x" if "tasks s t = Some x" "timed x" for t x using assms(1) that by (auto simp: timer_ok_def)
  have "soonest_timeout s' \<le> t_wait_timeout x'" if "tasks s' t = Some x'" "timed x'" for t x'
    using assms(4) [OF that] due [of t] assms(3) by fastforce
  then show ?thesis by (auto simp: timer_ok_def)
qed

lemma woken_timer:
  assumes "woken s s'" "timer_ok P s" "set (rb_contents (g_msg_queue s)) \<subseteq> set (rb_contents (g_msg_queue s'))"
  shows "timer_ok P s'"
proof (rule timer_ok_mono [OF assms(2,3)])
  show "soonest_timeout s' \<le> soonest_timeout s" using assms(1) by (simp add: woken_def)
  fix t x' assume x': "tasks s' t = Some x'" "timed x'"
  then have "tasks s t = Some x'" using woken_back [OF assms(1) x'(1)] by (simp add: timed_def)
  then show "soonest_timeout s' \<le> t_wait_timeout x' \<or> (\<exists>x. tasks s t = Some x \<and> timed x \<and> t_wait_timeout x = t_wait_timeout x')" using x'(2) by blast
qed

lemma relocate_timer:
  assumes "timer_ok P s" "\<not> timed x'"
  shows "timer_ok P (relocate t x x' s)"
proof (rule timer_ok_mono [OF assms(1)])
  fix u y assume y: "tasks (relocate t x x' s) u = Some y" "timed y"
  then have "tasks s u = Some y" using assms(2) by (cases "u = t") auto
  then show "soonest_timeout (relocate t x x' s) \<le> t_wait_timeout y \<or> (\<exists>x. tasks s u = Some x \<and> timed x \<and> t_wait_timeout x = t_wait_timeout y)" using y(2) by blast
qed simp_all

lemma relocate_soonest [simp]: "(relocate t x x' s)\<lparr>soonest_timeout := soonest_timeout s\<rparr> = relocate t x x' s"
  by (simp add: relocate_def)

lemma relocate_timed_timer:
  assumes "timer_ok P s" "w \<le> soonest_timeout s" "w \<le> t_wait_timeout x'"
  shows "timer_ok P ((relocate t x x' s)\<lparr>soonest_timeout := w\<rparr>)"
proof (rule timer_ok_mono [OF assms(1)])
  let ?s = "(relocate t x x' s)\<lparr>soonest_timeout := w\<rparr>"
  fix u y assume y: "tasks ?s u = Some y" "timed y"
  then have "u = t \<and> y = x' \<or> tasks s u = Some y" by (cases "u = t") auto
  then show "soonest_timeout ?s \<le> t_wait_timeout y \<or> (\<exists>x. tasks s u = Some x \<and> timed x \<and> t_wait_timeout x = t_wait_timeout y)" using y(2) assms(3) by auto
qed (use assms(2) in simp_all)

lemma timer_ok_other [simp]:
  "timer_ok P (s\<lparr>events := ev\<rparr>) = timer_ok P s" "timer_ok P (s\<lparr>owners := ow\<rparr>) = timer_ok P s" "timer_ok P (s\<lparr>completed := co\<rparr>) = timer_ok P s"
  "timer_ok P (s\<lparr>cur := t\<rparr>) = timer_ok P s" "timer_ok P (s\<lparr>g_tick := n\<rparr>) = timer_ok P s" "timer_ok P (s\<lparr>procs := pr\<rparr>) = timer_ok P s"
  "timer_ok P (s\<lparr>g_msg_drop_event := b\<rparr>) = timer_ok P s"
  by (simp_all add: timer_ok_def)

lemma switch_timer:
  assumes "semi s" "switch s s'" "timer_ok P s"
  shows "timer_ok P s'"
proof -
  obtain c where c: "tasks s (cur s) = Some c" using assms(2) by (auto simp: switch_def)
  show ?thesis
  proof (cases "ready_queue_top s")
    case None
    then show ?thesis using assms(2,3) by (auto simp: switch_def)
  next
    case (Some n)
    then obtain x where x: "tasks s n = Some x" using assms(2) by (auto simp: switch_def)
    show ?thesis
    proof (cases "t_state c = TASK_RUNNING \<and> t_priority c < t_priority x")
      case True
      then show ?thesis using assms(2,3) Some c x by (auto simp: switch_def)
    next
      case False
      define s1 where "s1 = (if t_state c = TASK_RUNNING then relocate (cur s) c (c\<lparr>t_state := TASK_READY, t_link := Some (Ready_queue (t_priority c))\<rparr>) s else s)"
      have s': "s' = (relocate n x (x\<lparr>t_state := TASK_RUNNING, t_link := None\<rparr>) s1)\<lparr>cur := n\<rparr>"
        using assms(2) Some c x False by (auto simp: switch_def s1_def Let_def)
      have "timer_ok P s1" using assms(3) relocate_timer by (simp add: s1_def timed_def)
      then have "timer_ok P (relocate n x (x\<lparr>t_state := TASK_RUNNING, t_link := None\<rparr>) s1)" by (rule relocate_timer) (simp add: timed_def)
      then show ?thesis by (simp add: s')
    qed
  qed
qed

lemma running_task:
  assumes "sched_inv s"
  obtains c where "tasks s (cur s) = Some c" "t_state c = TASK_RUNNING" "t_link c = None" "t_wait_for c = None" "\<not> timed c" "t_priority c < 8" "core s"
proof -
  obtain c where c: "tasks s (cur s) = Some c" "t_state c = TASK_RUNNING" and co: "core s" using assms by (auto simp: sched_inv_def semi_def)
  have "task_ok c" by (rule core_task [OF co c(1)])
  then show ?thesis using that [OF c] c(2) co by (simp add: task_ok_def timed_def)
qed

text \<open>The current task leaves the running state.\<close>

lemma semi_relocate:
  assumes "semi s" "tasks s (cur s) = Some c" "task_ok c'" "t_state c' \<noteq> TASK_RUNNING" "cur s \<noteq> 1"
  shows "semi (relocate (cur s) c c' s)"
proof -
  have co: "core s" "\<forall>t x. tasks s t = Some x \<and> t_state x = TASK_RUNNING \<longrightarrow> t = cur s" "idle_ok s"
    using assms(1) by (auto simp: semi_def)
  have "idle_ok (relocate (cur s) c c' s)" using co(3) assms(5) by (simp add: idle_ok_def)
  then show ?thesis using core_relocate [OF co(1) assms(2,3)] co(2) assms(4) by (auto simp: semi_def)
qed

lemma semi_soonest [simp]: "semi (s\<lparr>soonest_timeout := w\<rparr>) = semi s" "sched_inv (s\<lparr>soonest_timeout := w\<rparr>) = sched_inv s"
  by (simp_all add: semi_def sched_inv_def idle_ok_def)

lemma semi_tick [simp]: "semi (s\<lparr>g_tick := w\<rparr>) = semi s" "sched_inv (s\<lparr>g_tick := w\<rparr>) = sched_inv s"
  by (simp_all add: semi_def sched_inv_def idle_ok_def)

lemma sched_inv_other [simp]:
  "sched_inv (s\<lparr>events := ev\<rparr>) = sched_inv s" "sched_inv (s\<lparr>owners := ow\<rparr>) = sched_inv s" "sched_inv (s\<lparr>completed := co\<rparr>) = sched_inv s"
  "sched_inv (s\<lparr>procs := pr\<rparr>) = sched_inv s" "sched_inv (s\<lparr>g_msg_drop_event := b\<rparr>) = sched_inv s"
  by (simp_all add: semi_def sched_inv_def idle_ok_def)

lemma sched_inv_update:
  assumes "sched_inv s" "tasks s t = Some x" "task_ok x'" "same_place x x'" "t_state x' = t_state x" "t_priority x' = t_priority x"
  shows "sched_inv (s\<lparr>tasks := (tasks s)(t := Some x')\<rparr>)"
proof -
  have co: "core s" "\<forall>t x. tasks s t = Some x \<and> t_state x = TASK_RUNNING \<longrightarrow> t = cur s" "idle_ok s" "\<exists>c. tasks s (cur s) = Some c \<and> t_state c = TASK_RUNNING"
    using assms(1) by (auto simp: sched_inv_def semi_def)
  have "idle_ok (s\<lparr>tasks := (tasks s)(t := Some x')\<rparr>)" using co(3) assms(2,5,6) by (auto simp: idle_ok_def)
  moreover have "u = cur s" if "((tasks s)(t := Some x')) u = Some y" "t_state y = TASK_RUNNING" for u y
    using that co(2) assms(2,5) by (cases "u = t") auto
  moreover have "\<exists>c. ((tasks s)(t := Some x')) (cur s) = Some c \<and> t_state c = TASK_RUNNING" using co(4) assms(2,5) by (cases "cur s = t") auto
  ultimately show ?thesis using core_update [OF co(1) assms(2,3,4)] unfolding sched_inv_def semi_def by auto
qed

lemma task_wait_resume_ok:
  assumes "sched_inv s"
  shows "\<exists>b s'. task_wait_resume s = Some (b, s') \<and> sched_inv s'"
proof -
  obtain c where c: "tasks s (cur s) = Some c" "t_state c = TASK_RUNNING" "core s" using running_task [OF assms] by metis
  have "sched_inv (s\<lparr>tasks := (tasks s)(cur s := Some (c\<lparr>t_has_timeout := False\<rparr>))\<rparr>)"
    using core_task [OF c(3,1)] c(2) by (intro sched_inv_update [OF assms c(1)]) (simp_all add: task_ok_def same_place_def timed_def)
  then show ?thesis using c(1) by (simp add: task_wait_resume_def upd_def)
qed

text \<open>The handler of the timeouts: the tasks whose time has come become ready, in the order of their timeouts.\<close>

lemma timeout_one:
  assumes "core s" "tasks s t = Some x" "timed x" "w = t_wait_timeout x"
  shows "(do { s \<leftarrow> reset_wait_for t (s\<lparr>timeout_queue := remove1 (w, t) (timeout_queue s)\<rparr>); set_ready t s }) =
    Some (relocate t x (x\<lparr>t_state := TASK_READY, t_link := Some (Ready_queue (t_priority x)), t_wait_for := None\<rparr>) s)"
proof -
  have to: "timeouts_ok s" using assms(1) by (simp add: core_def)
  have "(w, t) \<in> set (timeout_queue s)" using to assms(2-4) by (auto simp: timeouts_ok_def)
  note tq = timeouts_remove [OF to this]
  have l: "t_link x = map_option Wait_queue (t_wait_for x)" using core_task [OF assms(1,2)] assms(3) by (simp add: task_ok_def timed_def)
  show ?thesis
    using assms(2) l tq by (cases s; cases x; cases "t_wait_for x") (simp_all add: reset_wait_for_def list_remove_def set_ready_def upd_def list_push_back_def
        relocate_def attach_def detach_def timed_def)
qed

lemma timeout_loop_ok:
  assumes "core s" "timeout_queue s = ns"
  shows "\<exists>s'. timeout_loop ns s = Some s' \<and> core s' \<and> woken s (s'\<lparr>soonest_timeout := soonest_timeout s\<rparr>) \<and>
    (\<forall>(w, t) \<in> set ns. w \<le> g_tick s \<longrightarrow> (\<exists>x. tasks s' t = Some x \<and> t_state x = TASK_READY \<and> t_has_timeout x)) \<and>
    timeout_queue s' = dropWhile (\<lambda>p. fst p \<le> g_tick s) ns \<and>
    (timeout_queue s' \<noteq> [] \<longrightarrow> soonest_timeout s' = fst (hd (timeout_queue s')))"
  using assms
proof (induction ns arbitrary: s)
  case Nil
  then show ?case by (simp add: woken_refl)
next
  case (Cons p ns)
  obtain w t where p: "p = (w, t)" by fastforce
  have to: "timeouts_ok s" using Cons.prems(1) by (simp add: core_def)
  then obtain x where x: "tasks s t = Some x" "timed x" "t_wait_timeout x = w" using Cons.prems(2) p unfolding timeouts_ok_def by (metis list.set_intros(1))
  have sorted: "sorted_wrt before (p # ns)" using to Cons.prems(2) by (simp add: timeouts_ok_def)
  show ?case
  proof (cases "w > g_tick s")
    case True
    then have "timeout_loop (p # ns) s = Some (s\<lparr>soonest_timeout := w\<rparr>)" using x p by simp
    moreover have "\<not> w' \<le> g_tick s" if "(w', t') \<in> set (p # ns)" for w' t'
      using that True sorted p by (auto simp: before_def)
    ultimately show ?thesis using Cons.prems True p
      by (intro exI [of _ "s\<lparr>soonest_timeout := w\<rparr>"]) (auto simp: woken_def)
  next
    case False
    let ?x = "x\<lparr>t_state := TASK_READY, t_link := Some (Ready_queue (t_priority x)), t_wait_for := None\<rparr>"
    let ?s = "relocate t x ?x s"
    have ok: "task_ok ?x" using core_task [OF Cons.prems(1) x(1)] by (simp add: task_ok_def)
    have co: "core ?s" by (rule core_relocate [OF Cons.prems(1) x(1) ok])
    have tq: "timeout_queue ?s = ns"
    proof -
      have "(w, t) \<in> set (timeout_queue s)" using Cons.prems(2) p by simp
      then have "filter (\<lambda>p. snd p \<noteq> t) (timeout_queue s) = ns" using timeouts_remove [OF to, of w t] Cons.prems(2) p by simp
      then show ?thesis by (simp add: relocate_def timed_def)
    qed
    obtain s' where s': "timeout_loop ns ?s = Some s'" "core s'" "woken ?s (s'\<lparr>soonest_timeout := soonest_timeout ?s\<rparr>)"
        "\<forall>(w, t) \<in> set ns. w \<le> g_tick ?s \<longrightarrow> (\<exists>x. tasks s' t = Some x \<and> t_state x = TASK_READY \<and> t_has_timeout x)"
        "timeout_queue s' = dropWhile (\<lambda>p. fst p \<le> g_tick ?s) ns" "timeout_queue s' \<noteq> [] \<longrightarrow> soonest_timeout s' = fst (hd (timeout_queue s'))"
      using Cons.IH [OF co tq] by blast
    have run: "timeout_loop (p # ns) s = Some s'"
    proof -
      obtain s2 where "reset_wait_for t (s\<lparr>timeout_queue := remove1 (w, t) (timeout_queue s)\<rparr>) = Some s2" "set_ready t s2 = Some ?s"
        using timeout_one [OF Cons.prems(1) x(1,2) x(3) [symmetric]] by (auto simp: Option.bind_eq_Some_conv)
      then show ?thesis using s'(1) x(1,3) False p by (simp add: Let_def not_less)
    qed
    have w1: "woken s ?s" using x by (auto simp: woken_def made_ready_def timed_def)
    have tt: "tasks s' t = Some ?x" using woken_keeps [OF s'(3), of t ?x] by simp
    have "\<exists>x. tasks s' t = Some x \<and> t_state x = TASK_READY \<and> t_has_timeout x" using tt x(2) by (simp add: timed_def)
    then show ?thesis using run s' woken_trans [OF w1 s'(3)] False p by (intro exI [of _ s']) auto
  qed
qed

section \<open>Life of tasks and processes\<close>

text \<open>
  Every task is listed in its process, which holds a reference for it; a task on the list of the dead is referenced by
  that list; only tasks that live are waited for.
\<close>

definition procs_ok :: "sched \<Rightarrow> bool" where
  "procs_ok s \<longleftrightarrow> (\<forall>t x. tasks s t = Some x \<longrightarrow> (\<exists>y. procs s (t_process x) = Some y \<and> t \<in> set (p_tasks y))) \<and>
     (\<forall>p y. procs s p = Some y \<longrightarrow> p < pid_next s \<and> distinct (p_tasks y) \<and> length (p_tasks y) \<le> p_refcount y \<and> 0 < p_refcount y \<and>
       (\<forall>t \<in> set (p_tasks y). \<exists>x. tasks s t = Some x \<and> t_process x = p))"

definition life_but :: "tid set \<Rightarrow> sched \<Rightarrow> bool" where
  "life_but D s \<longleftrightarrow> procs_ok s \<and> (\<forall>t x. tasks s t = Some x \<and> t_link x = Some Dead_list \<longrightarrow> 0 < t_refcount x) \<and>
     (\<forall>t. t \<notin> D \<and> queues s (Wait_queue (Join_list t)) \<noteq> [] \<longrightarrow> (\<exists>x. tasks s t = Some x \<and> t_state x \<noteq> TASK_DEAD))"

abbreviation life_ok :: "sched \<Rightarrow> bool" where
  "life_ok \<equiv> life_but {}"

definition sys_inv :: "bool \<Rightarrow> sched \<Rightarrow> bool" where
  "sys_inv P s \<longleftrightarrow> sched_inv s \<and> life_ok s \<and> timer_ok P s"

definition same_life :: "task \<Rightarrow> task \<Rightarrow> bool" where
  "same_life x x' \<longleftrightarrow> t_process x' = t_process x \<and> t_refcount x' = t_refcount x \<and> (t_state x' = TASK_DEAD \<longleftrightarrow> t_state x = TASK_DEAD) \<and>
     (t_link x' = Some Dead_list \<longleftrightarrow> t_link x = Some Dead_list)"

definition quiet :: "tid set \<Rightarrow> sched \<Rightarrow> sched \<Rightarrow> bool" where
  "quiet J s s' \<longleftrightarrow> procs s' = procs s \<and> pid_next s' = pid_next s \<and> (\<forall>t. rel_option same_life (tasks s t) (tasks s' t)) \<and>
     (\<forall>t. queues s' (Wait_queue (Join_list t)) \<noteq> [] \<longrightarrow> queues s (Wait_queue (Join_list t)) \<noteq> [] \<or> t \<in> J)"

lemma same_life_refl: "same_life x x"
  by (simp add: same_life_def)

lemma quiet_refl: "quiet J s s"
  by (auto simp: quiet_def option.rel_refl same_life_refl)

lemma quiet_trans: "quiet J s s1 \<Longrightarrow> quiet J s1 s2 \<Longrightarrow> quiet J s s2"
proof -
  assume a: "quiet J s s1" "quiet J s1 s2"
  have "rel_option same_life (tasks s t) (tasks s2 t)" for t
  proof -
    have "rel_option same_life (tasks s t) (tasks s1 t)" "rel_option same_life (tasks s1 t) (tasks s2 t)" using a by (auto simp: quiet_def)
    then show ?thesis by (cases "tasks s t"; cases "tasks s1 t"; cases "tasks s2 t") (auto simp: same_life_def)
  qed
  then show ?thesis using a unfolding quiet_def by metis
qed

lemma quiet_Some: "quiet J s s' \<Longrightarrow> tasks s t = Some x \<Longrightarrow> \<exists>x'. tasks s' t = Some x' \<and> same_life x x'"
  unfolding quiet_def by (metis option_rel_Some1)

lemma quiet_Some2: "quiet J s s' \<Longrightarrow> tasks s' t = Some x' \<Longrightarrow> \<exists>x. tasks s t = Some x \<and> same_life x x'"
  unfolding quiet_def by (metis option_rel_Some2)

lemma procs_ok_cong:
  assumes "procs_ok s" "procs s' = procs s" "pid_next s' = pid_next s" "\<forall>t. rel_option (\<lambda>x x'. t_process x' = t_process x) (tasks s t) (tasks s' t)"
  shows "procs_ok s'"
  unfolding procs_ok_def assms(2,3)
proof (intro conjI allI impI)
  fix t x assume "tasks s' t = Some x"
  then obtain y where "tasks s t = Some y" "t_process x = t_process y" using assms(4) [rule_format, of t] by (cases "tasks s t") auto
  then show "\<exists>y. procs s (t_process x) = Some y \<and> t \<in> set (p_tasks y)" using assms(1) by (auto simp: procs_ok_def)
next
  fix p y assume y: "procs s p = Some y"
  then show "p < pid_next s" "distinct (p_tasks y)" "length (p_tasks y) \<le> p_refcount y" "0 < p_refcount y" using assms(1) by (auto simp: procs_ok_def)
  show "\<forall>t \<in> set (p_tasks y). \<exists>x. tasks s' t = Some x \<and> t_process x = p"
  proof
    fix t assume "t \<in> set (p_tasks y)"
    then obtain x where "tasks s t = Some x" "t_process x = p" using assms(1) y unfolding procs_ok_def by blast
    then show "\<exists>x. tasks s' t = Some x \<and> t_process x = p" using assms(4) [rule_format, of t] by (cases "tasks s' t") auto
  qed
qed

lemma quiet_life:
  assumes "quiet J s s'" "life_but D s" "\<forall>t \<in> J. \<exists>x. tasks s t = Some x \<and> t_state x \<noteq> TASK_DEAD"
  shows "life_but D s'"
proof -
  have "rel_option (\<lambda>x x'. t_process x' = t_process x) (tasks s t) (tasks s' t)" for t
  proof -
    have "rel_option same_life (tasks s t) (tasks s' t)" using assms(1) by (simp add: quiet_def)
    then show ?thesis by (cases "tasks s t"; cases "tasks s' t") (simp_all add: same_life_def)
  qed
  then have "procs_ok s'" using procs_ok_cong [of s s'] assms(1,2) by (simp add: quiet_def life_but_def)
  moreover have "0 < t_refcount x" if "tasks s' t = Some x" "t_link x = Some Dead_list" for t x
    using quiet_Some2 [OF assms(1) that(1)] that(2) assms(2) by (auto simp: same_life_def life_but_def)
  moreover have "\<exists>x. tasks s' t = Some x \<and> t_state x \<noteq> TASK_DEAD" if "t \<notin> D" "queues s' (Wait_queue (Join_list t)) \<noteq> []" for t
  proof -
    have "queues s (Wait_queue (Join_list t)) \<noteq> [] \<or> t \<in> J" using that assms(1) by (auto simp: quiet_def)
    moreover have "queues s (Wait_queue (Join_list t)) \<noteq> [] \<Longrightarrow> \<exists>x. tasks s t = Some x \<and> t_state x \<noteq> TASK_DEAD"
      using assms(2) that(1) by (simp add: life_but_def)
    moreover have "t \<in> J \<Longrightarrow> \<exists>x. tasks s t = Some x \<and> t_state x \<noteq> TASK_DEAD" using assms(3) by (rule bspec)
    ultimately obtain x where "tasks s t = Some x" "t_state x \<noteq> TASK_DEAD" by (elim disjE) auto
    then show ?thesis using quiet_Some [OF assms(1)] by (auto simp: same_life_def)
  qed
  ultimately show ?thesis unfolding life_but_def by blast
qed

lemma quiet_other [simp]:
  "quiet J s (s'\<lparr>events := ev\<rparr>) = quiet J s s'" "quiet J s (s'\<lparr>owners := ow\<rparr>) = quiet J s s'" "quiet J s (s'\<lparr>completed := co\<rparr>) = quiet J s s'"
  "quiet J s (s'\<lparr>cur := t\<rparr>) = quiet J s s'" "quiet J s (s'\<lparr>g_tick := n\<rparr>) = quiet J s s'" "quiet J s (s'\<lparr>soonest_timeout := w\<rparr>) = quiet J s s'"
  "quiet J s (s'\<lparr>g_msg_queue := q\<rparr>) = quiet J s s'" "quiet J s (s'\<lparr>g_msg_drop_event := b\<rparr>) = quiet J s s'"
  "quiet J (s\<lparr>g_tick := n\<rparr>) s' = quiet J s s'" "quiet J (s\<lparr>events := ev\<rparr>) s' = quiet J s s'" "quiet J (s\<lparr>owners := ow\<rparr>) s' = quiet J s s'"
  "quiet J (s\<lparr>soonest_timeout := w\<rparr>) s' = quiet J s s'" "quiet J (s\<lparr>completed := co\<rparr>) s' = quiet J s s'"
  by (simp_all add: quiet_def)

lemma woken_queue_subset:
  assumes "woken s s'" "core s" "core s'" "queues s' (Wait_queue l) \<noteq> []"
  shows "queues s (Wait_queue l) \<noteq> []"
proof -
  obtain t ts where "queues s' (Wait_queue l) = t # ts" using assms(4) by (cases "queues s' (Wait_queue l)") auto
  from waiting_task [OF assms(3) this] obtain x' where x': "tasks s' t = Some x'" "t_link x' = Some (Wait_queue l)" "t_state x' = TASK_WAITING" by metis
  then have "tasks s t = Some x'" using woken_back [OF assms(1) x'(1)] by simp
  then have "t \<in> set (queues s (Wait_queue l))" using core_queue(1) [OF assms(2)] x'(2) by blast
  then show ?thesis by auto
qed

lemma woken_quiet:
  assumes "woken s s'" "core s" "core s'"
  shows "quiet J s s'"
proof -
  have "rel_option same_life (tasks s t) (tasks s' t)" for t
  proof (cases "tasks s t")
    case None
    then show ?thesis using assms(1) by (simp add: woken_def)
  next
    case (Some x)
    then obtain x' where x': "tasks s' t = Some x'" "x' = x \<or> made_ready x x'" using assms(1) unfolding woken_def by blast
    have "same_life x x'" using x'(2) core_task [OF assms(2) Some] core_task [OF assms(3) x'(1)]
      by (cases "t_wait_for x") (auto simp: same_life_def made_ready_def task_ok_def)
    then show ?thesis using Some x'(1) by simp
  qed
  then show ?thesis using assms(1) woken_queue_subset [OF assms] by (simp add: quiet_def woken_def)
qed

lemma relocate_quiet:
  assumes "tasks s t = Some x" "same_life x x'" "\<And>u. t_link x' = Some (Wait_queue (Join_list u)) \<Longrightarrow> u \<in> J"
  shows "quiet J s (relocate t x x' s)"
proof -
  have "queues s (Wait_queue (Join_list u)) \<noteq> [] \<or> u \<in> J" if "queues (relocate t x x' s) (Wait_queue (Join_list u)) \<noteq> []" for u
    using that assms(3) [of u] by (cases "t_link x"; cases "t_link x'") (auto simp: relocate_def attach_def detach_def split: if_splits)
  moreover have "rel_option same_life (tasks s u) (tasks s u)" for u by (simp add: option.rel_refl same_life_refl)
  ultimately show ?thesis using assms(1,2) by (simp add: quiet_def)
qed

lemma switch_quiet:
  assumes "semi s" "switch s s'"
  shows "quiet J s s'"
proof -
  have co: "core s" using assms(1) by (rule semi_core)
  obtain c where c: "tasks s (cur s) = Some c" using assms(2) by (auto simp: switch_def)
  show ?thesis
  proof (cases "ready_queue_top s")
    case None
    then show ?thesis using assms(2) by (auto simp: switch_def quiet_refl)
  next
    case (Some n)
    obtain x where x: "tasks s n = Some x" "t_state x = TASK_READY" using ready_queue_top_Some [OF co Some] by metis
    show ?thesis
    proof (cases "t_state c = TASK_RUNNING \<and> t_priority c < t_priority x")
      case True
      then show ?thesis using assms(2) Some c x by (auto simp: switch_def quiet_refl)
    next
      case False
      let ?c = "c\<lparr>t_state := TASK_READY, t_link := Some (Ready_queue (t_priority c))\<rparr>" and ?x = "x\<lparr>t_state := TASK_RUNNING, t_link := None\<rparr>"
      define s1 where "s1 = (if t_state c = TASK_RUNNING then relocate (cur s) c ?c s else s)"
      have s': "s' = (relocate n x ?x s1)\<lparr>cur := n\<rparr>" using assms(2) Some c x(1) False by (auto simp: switch_def s1_def Let_def)
      have q1: "quiet J s s1"
        using relocate_quiet [OF c, of ?c J] core_task [OF co c] by (auto simp: s1_def quiet_refl same_life_def task_ok_def)
      have n1: "tasks s1 n = Some x" using x c by (auto simp: s1_def)
      have "same_life x ?x" using core_task [OF co x(1)] x(2) by (auto simp: same_life_def task_ok_def)
      then have "quiet J s1 (relocate n x ?x s1)" by (intro relocate_quiet [OF n1]) auto
      then show ?thesis using quiet_trans [OF q1] by (simp add: s')
    qed
  qed
qed

lemma schedule_inv:
  assumes "semi s"
  shows "\<exists>s'. schedule s = Some s' \<and> sched_inv s' \<and> quiet J s s' \<and> (timer_ok P s \<longrightarrow> timer_ok P s')"
proof -
  obtain s1 s' where s1: "schedule s = Some s'" "switch s1 s'" "semi s1" "sched_inv s'" "if soonest_timeout s \<le> g_tick s
     then \<exists>b. irqmsg_push (IRQMSG_SCHED_TIMEOUT, 0) s = Some (b, s1\<lparr>soonest_timeout := soonest_timeout s\<rparr>) \<and> soonest_timeout s1 = (if b then U64_MAX else soonest_timeout s)
     else s1 = s"
    using schedule_ok [OF assms] by blast
  have q: "quiet J s s1 \<and> (timer_ok P s \<longrightarrow> timer_ok P s1)"
  proof (cases "soonest_timeout s \<le> g_tick s")
    case True
    then obtain b where b: "irqmsg_push (IRQMSG_SCHED_TIMEOUT, 0) s = Some (b, s1\<lparr>soonest_timeout := soonest_timeout s\<rparr>)"
      "soonest_timeout s1 = (if b then U64_MAX else soonest_timeout s)" using s1(5) by auto
    then have p: "core (s1\<lparr>soonest_timeout := soonest_timeout s\<rparr>)" "woken s (s1\<lparr>soonest_timeout := soonest_timeout s\<rparr>)"
        "rb_contents (g_msg_queue s1) = (if b then rb_contents (g_msg_queue s) @ [(IRQMSG_SCHED_TIMEOUT, 0)] else rb_contents (g_msg_queue s))"
      using irqmsg_push_ok [OF semi_core [OF assms], of "(IRQMSG_SCHED_TIMEOUT, 0)"] by auto
    then have "quiet J s (s1\<lparr>soonest_timeout := soonest_timeout s\<rparr>)" using woken_quiet semi_core [OF assms] by blast
    moreover have "timer_ok P s \<longrightarrow> timer_ok P s1"
    proof (cases b)
      case True
      then show ?thesis using p(3) by (simp add: timer_ok_def)
    next
      case False
      then have "s1\<lparr>soonest_timeout := soonest_timeout s\<rparr> = s1" using b(2) by simp
      then show ?thesis using woken_timer [of s s1 P] p False by simp
    qed
    ultimately show ?thesis by simp
  next
    case False
    then show ?thesis using s1(5) by (simp add: quiet_refl)
  qed
  have "quiet J s s'" using q quiet_trans switch_quiet [OF s1(3,2)] by blast
  moreover have "timer_ok P s \<longrightarrow> timer_ok P s'" using q switch_timer [OF s1(3,2)] by blast
  ultimately show ?thesis using s1(1,4) by blast
qed

lemma sys_inv_core: "sys_inv P s \<Longrightarrow> core s"
  by (simp add: sys_inv_def sched_inv_def semi_def)

lemma sys_wake:
  assumes a: "sys_inv P s" "core s'" "woken s s'" "set (rb_contents (g_msg_queue s)) \<subseteq> set (rb_contents (g_msg_queue s'))"
  shows "sys_inv P s'"
proof -
  have "quiet {} s s'" by (rule woken_quiet [OF a(3) sys_inv_core [OF a(1)] a(2)])
  then have "life_ok s'" using quiet_life [of "{}" s s'] a(1) by (simp add: sys_inv_def)
  then show ?thesis using woken_sched_inv [OF a(3,2)] woken_timer [OF a(3) _ a(4)] a(1) by (simp add: sys_inv_def)
qed

lemma sys_inv_other [simp]:
  "sys_inv P (s\<lparr>events := ev\<rparr>) = sys_inv P s" "sys_inv P (s\<lparr>owners := ow\<rparr>) = sys_inv P s" "sys_inv P (s\<lparr>completed := co\<rparr>) = sys_inv P s"
  "sys_inv P (s\<lparr>g_tick := n\<rparr>) = sys_inv P s" "sys_inv P (s\<lparr>g_msg_drop_event := b\<rparr>) = sys_inv P s"
  by (simp_all add: sys_inv_def life_but_def procs_ok_def)

lemma sys_schedule:
  assumes "sys_inv P s"
  shows "\<exists>s'. schedule s = Some s' \<and> sys_inv P s'"
proof -
  obtain s' where s': "schedule s = Some s'" "sched_inv s'" "quiet {} s s'" "timer_ok P s'" using schedule_inv [of s "{}" P] sched_inv_semi [of s] assms by (auto simp: sys_inv_def)
  then have "life_ok s'" using quiet_life [OF s'(3)] assms by (simp add: sys_inv_def)
  then show ?thesis using s' by (simp add: sys_inv_def)
qed

text \<open>The current task leaves the running state and another one is chosen.\<close>

lemma sys_block:
  assumes "sys_inv P s" "tasks s (cur s) = Some c" "task_ok c'" "t_state c' \<noteq> TASK_RUNNING" "cur s \<noteq> 1" "same_life c c'"
    "\<And>u. t_link c' = Some (Wait_queue (Join_list u)) \<Longrightarrow> \<exists>x. tasks s u = Some x \<and> t_state x \<noteq> TASK_DEAD"
    "timer_ok P ((relocate (cur s) c c' s)\<lparr>soonest_timeout := w\<rparr>)"
  shows "\<exists>s'. schedule ((relocate (cur s) c c' s)\<lparr>soonest_timeout := w\<rparr>) = Some s' \<and> sys_inv P s'"
proof -
  let ?s = "(relocate (cur s) c c' s)\<lparr>soonest_timeout := w\<rparr>" and ?J = "{u. t_link c' = Some (Wait_queue (Join_list u))}"
  have sm: "semi ?s" using semi_relocate [OF _ assms(2-5)] assms(1) by (simp add: sys_inv_def sched_inv_semi)
  obtain s' where s': "schedule ?s = Some s'" "sched_inv s'" "quiet ?J ?s s'" "timer_ok P s'" using schedule_inv [OF sm, of ?J P] assms(8) by blast
  have "quiet ?J s ?s" using relocate_quiet [OF assms(2,6), of ?J] by simp
  then have "quiet ?J s s'" using quiet_trans s'(3) by blast
  moreover have "\<forall>t \<in> ?J. \<exists>x. tasks s t = Some x \<and> t_state x \<noteq> TASK_DEAD" using assms(7) by blast
  ultimately have "life_ok s'" using quiet_life [of ?J s s'] assms(1) by (simp only: sys_inv_def)
  then show ?thesis using s'(1,2,4) by (simp add: sys_inv_def)
qed

lemma sys_task_wait:
  assumes "sys_inv P s" "cur s \<noteq> 1" "\<And>u. wl = Join_list u \<Longrightarrow> \<exists>x. tasks s u = Some x \<and> t_state x \<noteq> TASK_DEAD"
  shows "\<exists>r s'. task_wait wl timeout s = Some (r, s') \<and> sys_inv P s' \<and> r = (if timeout \<le> g_tick s then Done False else Blocked) \<and> (r = Done False \<longrightarrow> s' = s)"
proof (cases "timeout \<le> g_tick s")
  case True
  then show ?thesis using assms by (simp add: task_wait_def)
next
  case late: False
  obtain c where c: "tasks s (cur s) = Some c" "t_state c = TASK_RUNNING" "t_link c = None" "t_wait_for c = None" "\<not> timed c" "t_priority c < 8" "core s"
    using running_task [of s] assms(1) by (auto simp: sys_inv_def)
  show ?thesis
  proof (cases "timeout = TIMEOUT_INFINITY")
    case True
    let ?c = "c\<lparr>t_state := TASK_WAITING, t_wait_for := Some wl, t_link := map_option Wait_queue (Some wl), t_has_timeout := False\<rparr>"
    have "timer_ok P (relocate (cur s) c ?c s)" using assms(1) by (intro relocate_timer) (simp_all add: sys_inv_def timed_def)
    then obtain s' where s': "schedule (relocate (cur s) c ?c s) = Some s'" "sys_inv P s'"
      using c assms sys_block [OF assms(1) c(1), of ?c "soonest_timeout s"] by (auto simp: task_ok_def same_life_def)
    have "task_wait wl timeout s = Some (Blocked, s')"
      using set_wait_for_relocate [OF c(7,1,3,5), of "Some wl"] True late s'(1) by (simp add: task_wait_def)
    then show ?thesis using s'(2) late by simp
  next
    case False
    let ?c = "c\<lparr>t_state := TASK_WAITING, t_wait_for := Some wl, t_link := map_option Wait_queue (Some wl), t_has_timeout := True, t_wait_timeout := timeout\<rparr>"
    have b: "\<exists>s'. schedule ((relocate (cur s) c ?c s)\<lparr>soonest_timeout := w\<rparr>) = Some s' \<and> sys_inv P s'" if "w \<le> soonest_timeout s" "w \<le> timeout" for w
    proof -
      have "timer_ok P ((relocate (cur s) c ?c s)\<lparr>soonest_timeout := w\<rparr>)" using assms(1) that by (intro relocate_timed_timer) (simp_all add: sys_inv_def)
      then show ?thesis using c assms by (intro sys_block) (auto simp: task_ok_def same_life_def)
    qed
    have b0: "\<exists>s'. schedule (relocate (cur s) c ?c s) = Some s' \<and> sys_inv P s'" if "\<not> soonest_timeout s > timeout"
      using b [of "soonest_timeout s"] that by simp
    let ?s1 = "if soonest_timeout s > timeout then (relocate (cur s) c ?c s)\<lparr>soonest_timeout := timeout\<rparr> else relocate (cur s) c ?c s"
    have "set_wait_timeout (cur s) (Some wl) timeout s = Some ?s1"
      using set_wait_timeout_relocate [OF c(7,1,3,5), of "Some wl" timeout] by (simp only: Let_def)
    moreover obtain s' where "schedule ?s1 = Some s'" "sys_inv P s'" using b0 b [of timeout] by (cases "soonest_timeout s > timeout") (auto dest: less_imp_le)
    ultimately have "task_wait wl timeout s = Some (Blocked, s') \<and> sys_inv P s'" using False late by (simp add: task_wait_def)
    then show ?thesis using late by simp
  qed
qed

lemma sys_task_wait_resume:
  assumes "sys_inv P s"
  shows "\<exists>b s'. task_wait_resume s = Some (b, s') \<and> sys_inv P s'"
proof -
  obtain c where c: "tasks s (cur s) = Some c" "t_state c = TASK_RUNNING" "core s" using running_task [of s] assms by (auto simp: sys_inv_def)
  let ?s = "s\<lparr>tasks := (tasks s)(cur s := Some (c\<lparr>t_has_timeout := False\<rparr>))\<rparr>"
  have "timer_ok P ?s"
  proof (rule timer_ok_mono [of P s])
    fix t y assume y: "tasks ?s t = Some y" "timed y"
    then have "tasks s t = Some y" by (cases "t = cur s") (auto simp: timed_def)
    then show "soonest_timeout ?s \<le> t_wait_timeout y \<or> (\<exists>x. tasks s t = Some x \<and> timed x \<and> t_wait_timeout x = t_wait_timeout y)" using y(2) by blast
  qed (use assms in \<open>simp_all add: sys_inv_def\<close>)
  moreover have "sched_inv ?s"
    using core_task [OF c(3,1)] c(2) assms by (intro sched_inv_update [OF _ c(1)]) (simp_all add: task_ok_def same_place_def timed_def sys_inv_def)
  moreover have "quiet {} s ?s" using c(1) by (simp add: quiet_def same_life_def option.rel_refl same_life_refl)
  ultimately have "sys_inv P ?s" using quiet_life [of "{}" s ?s] assms by (simp add: sys_inv_def)
  then show ?thesis using c(1) by (simp add: task_wait_resume_def upd_def)
qed

lemma sched_inv_relocate:
  assumes "sched_inv s" "tasks s t = Some x" "task_ok x'" "t \<noteq> cur s" "t \<noteq> 1" "t_state x' \<noteq> TASK_RUNNING"
  shows "sched_inv (relocate t x x' s)"
proof -
  let ?s = "relocate t x x' s"
  have si: "core s" "\<forall>t x. tasks s t = Some x \<and> t_state x = TASK_RUNNING \<longrightarrow> t = cur s" "idle_ok s" "\<exists>c. tasks s (cur s) = Some c \<and> t_state c = TASK_RUNNING"
    using assms(1) by (auto simp: sched_inv_def semi_def)
  have "idle_ok ?s" using si(3) assms(5) by (simp add: idle_ok_def)
  moreover have "u = cur s" if "((tasks s)(t := Some x')) u = Some y" "t_state y = TASK_RUNNING" for u y
    using that si(2) assms(6) by (cases "u = t") auto
  moreover have "\<exists>c. ((tasks s)(t := Some x')) (cur s) = Some c \<and> t_state c = TASK_RUNNING" using si(4) assms(4) by simp
  ultimately show ?thesis using core_relocate [OF si(1) assms(2,3)] unfolding sched_inv_def semi_def relocate_simps by blast
qed

lemma sys_relocate:
  assumes "sys_inv P s" "tasks s t = Some x" "task_ok x'" "same_life x x'" "t \<noteq> cur s" "t \<noteq> 1" "t_state x' \<noteq> TASK_RUNNING"
    "\<And>u. t_link x' \<noteq> Some (Wait_queue (Join_list u))" "\<not> timed x'"
  shows "sys_inv P (relocate t x x' s)"
proof -
  let ?s = "relocate t x x' s"
  have "sched_inv ?s" using sched_inv_relocate [OF _ assms(2,3,5,6,7)] assms(1) by (simp add: sys_inv_def)
  moreover have "quiet {} s ?s" using relocate_quiet [OF assms(2,4), of "{}"] assms(8) by blast
  then have "life_ok ?s" using quiet_life [of "{}" s ?s "{}"] assms(1) by (simp add: sys_inv_def)
  ultimately show ?thesis using relocate_timer [of P s x'] assms(1,9) by (simp add: sys_inv_def)
qed

lemma idle_not: "sys_inv P s \<Longrightarrow> tasks s t = Some x \<Longrightarrow> t_state x = TASK_WAITING \<or> t_state x = TASK_DEAD \<Longrightarrow> t \<noteq> 1"
  by (auto simp: sys_inv_def sched_inv_def semi_def idle_ok_def)

lemma cur_not: "sys_inv P s \<Longrightarrow> tasks s t = Some x \<Longrightarrow> t_state x \<noteq> TASK_RUNNING \<Longrightarrow> t \<noteq> cur s"
  by (auto simp: sys_inv_def sched_inv_def)

lemma sys_resume:
  assumes "sys_inv P s" "tasks s t = Some x" "t_state x = TASK_WAITING" "t_wait_for x = None" "\<not> t_has_timeout x"
  shows "\<exists>s'. task_resume t s = Some s' \<and> sys_inv P s'"
proof -
  have co: "core s" by (rule sys_inv_core [OF assms(1)])
  have ok: "task_ok x" by (rule core_task [OF co assms(2)])
  let ?x = "x\<lparr>t_state := TASK_READY, t_link := Some (Ready_queue (t_priority x))\<rparr>"
  have l: "t_link x = None" "\<not> timed x" using ok assms(3-5) by (auto simp: task_ok_def timed_def)
  have "task_resume t s = Some (relocate t x ?x s)"
    using set_ready_relocate [OF co assms(2) l] assms(2-5) by (simp add: task_resume_def reset_wait_for_def)
  moreover have "sys_inv P (relocate t x ?x s)"
    using ok assms l idle_not [OF assms(1,2)] cur_not [OF assms(1,2)] by (intro sys_relocate) (auto simp: task_ok_def same_life_def timed_def)
  ultimately show ?thesis by blast
qed

lemma sys_suspend:
  assumes "sys_inv P s" "tasks s t = Some x" "t \<noteq> 1" "t = cur s \<or> t_state x = TASK_READY"
  shows "\<exists>r s'. task_suspend t s = Some (r, s') \<and> sys_inv P s'"
proof (cases "cur s = t")
  case True
  obtain c where c: "tasks s (cur s) = Some c" "t_state c = TASK_RUNNING" "t_link c = None" "t_wait_for c = None" "\<not> timed c" "t_priority c < 8" "core s"
    using running_task [of s] assms(1) by (auto simp: sys_inv_def)
  let ?c = "c\<lparr>t_state := TASK_WAITING, t_wait_for := None, t_link := map_option Wait_queue None, t_has_timeout := False\<rparr>"
  have "timer_ok P (relocate (cur s) c ?c s)" using assms(1) by (intro relocate_timer) (simp_all add: sys_inv_def timed_def)
  then obtain s' where s': "schedule (relocate (cur s) c ?c s) = Some s'" "sys_inv P s'"
    using c assms True sys_block [OF assms(1) c(1), of ?c "soonest_timeout s"] by (auto simp: task_ok_def same_life_def)
  have "task_suspend t s = Some (Blocked, s')"
    using set_wait_for_relocate [OF c(7,1,3,5), of None] s'(1) True by (simp add: task_suspend_def)
  then show ?thesis using s'(2) by blast
next
  case False
  then have r: "t_state x = TASK_READY" using assms(4) by simp
  have co: "core s" by (rule sys_inv_core [OF assms(1)])
  have ok: "task_ok x" by (rule core_task [OF co assms(2)])
  have tq: "filter (\<lambda>p. snd p \<noteq> t) (timeout_queue s) = timeout_queue s" using timeouts_untimed [of s t x] co assms(2) r by (simp add: core_def timed_def)
  let ?x = "x\<lparr>t_state := TASK_WAITING, t_link := None, t_wait_for := None, t_has_timeout := False\<rparr>"
  have "task_suspend t s = Some (Done (), relocate t x ?x s)"
    using False assms(2) r ok tq by (cases s; cases x) (simp add: task_suspend_def reset_ready_def list_remove_def set_wait_for_def upd_def relocate_def attach_def detach_def timed_def task_ok_def)
  moreover have "sys_inv P (relocate t x ?x s)"
    using ok assms False r by (intro sys_relocate) (auto simp: task_ok_def same_life_def timed_def)
  ultimately show ?thesis by blast
qed

end
