(* ===== verification/Task_Life.thy ===== *)
theory Task_Life
  imports Task_Sched
begin

text \<open>
  Life of the tasks and processes of \<open>kernel/src/task/task.c\<close>: creation, death, reference counts; every operation of the scheduler
  and of the primitives built on it returns and keeps the invariant, in every state the system reaches.
\<close>

section \<open>Dying\<close>

text \<open>A task dies: it leaves its list, and every task that joins it becomes ready.\<close>

lemma life_dying:
  assumes "life_ok s" "core s" "tasks s t = Some x" "t_link x \<noteq> Some Dead_list"
    and x': "task_ok x'" "t_state x' = TASK_DEAD" "t_link x' = None" "t_process x' = t_process x"
  shows "\<exists>s'. wait_list_wake_all (Join_list t) (relocate t x x' s) = Some s' \<and> core s' \<and> woken (relocate t x x' s) s' \<and> life_ok s' \<and>
    g_msg_queue s' = g_msg_queue s"
proof -
  let ?s = "relocate t x x' s"
  have co: "core ?s" by (rule core_relocate [OF assms(2,3) x'(1)])
  have "queues s (Wait_queue l) \<noteq> []" if "queues ?s (Wait_queue l) \<noteq> []" for l
    using that x'(3) by (cases "t_link x") (auto simp: relocate_def attach_def detach_def split: if_splits)
  moreover have "procs_ok ?s"
  proof (rule procs_ok_cong [of s])
    show "procs_ok s" using assms(1) by (simp add: life_but_def)
    show "\<forall>u. rel_option (\<lambda>x x'. t_process x' = t_process x) (tasks s u) (tasks ?s u)"
      using assms(3) x'(4) by (simp add: option.rel_refl)
  qed simp_all
  moreover have "0 < t_refcount y" if "tasks ?s u = Some y" "t_link y = Some Dead_list" for u y
    using that assms(1) x'(3) by (cases "u = t") (auto simp: life_but_def)
  moreover have "\<exists>y. tasks ?s u = Some y \<and> t_state y \<noteq> TASK_DEAD" if "u \<noteq> t" "queues s (Wait_queue (Join_list u)) \<noteq> []" for u
    using that assms(1) by (auto simp: life_but_def)
  ultimately have "life_but {t} ?s" unfolding life_but_def by blast
  moreover obtain s' where s': "wait_list_wake_all (Join_list t) ?s = Some s'" "core s'" "woken ?s s'" "queues s' (Wait_queue (Join_list t)) = []" "g_msg_queue s' = g_msg_queue ?s"
    using wake_all_ok [OF co] by blast
  ultimately have "life_but {t} s'" using quiet_life [OF woken_quiet [OF s'(3) co s'(2)], of "{t}" "{}"] by simp
  then have "life_ok s'" using s'(4) by (auto simp: life_but_def)
  then show ?thesis using s' by simp
qed


lemma sys_upd:
  assumes "sys_inv P s" "tasks s t = Some x" "task_ok x'" "same_place x x'" "t_state x' = t_state x" "t_priority x' = t_priority x"
    "t_process x' = t_process x" "t_link x = Some Dead_list \<longrightarrow> 0 < t_refcount x'"
  shows "sys_inv P (s\<lparr>tasks := (tasks s)(t := Some x')\<rparr>)"
proof -
  let ?s = "s\<lparr>tasks := (tasks s)(t := Some x')\<rparr>"
  have lk: "t_link x' = t_link x" "timed x' = timed x" "t_wait_timeout x' = t_wait_timeout x" using assms(4) by (simp_all add: same_place_def)
  have lf: "life_ok s" using assms(1) by (simp add: sys_inv_def)
  have "sched_inv ?s" using sched_inv_update [OF _ assms(2-6)] assms(1) by (simp add: sys_inv_def)
  moreover have "procs_ok ?s"
  proof (rule procs_ok_cong [of s])
    show "procs_ok s" using lf by (simp add: life_but_def)
    show "\<forall>u. rel_option (\<lambda>x x'. t_process x' = t_process x) (tasks s u) (tasks ?s u)" using assms(2,7) by (simp add: option.rel_refl)
  qed simp_all
  moreover have "0 < t_refcount y" if "tasks ?s u = Some y" "t_link y = Some Dead_list" for u y
    using that lf assms(2,8) lk(1) by (cases "u = t") (auto simp: life_but_def)
  moreover have "\<exists>y. tasks ?s u = Some y \<and> t_state y \<noteq> TASK_DEAD" if "queues ?s (Wait_queue (Join_list u)) \<noteq> []" for u
    using that lf assms(2,5) by (cases "u = t") (auto simp: life_but_def)
  moreover have "timer_ok P ?s"
  proof (rule timer_ok_mono [of P s])
    fix u y assume y: "tasks ?s u = Some y" "timed y"
    then have "\<exists>x. tasks s u = Some x \<and> timed x \<and> t_wait_timeout x = t_wait_timeout y" using assms(2) lk by (cases "u = t") auto
    then show "soonest_timeout ?s \<le> t_wait_timeout y \<or> (\<exists>x. tasks s u = Some x \<and> timed x \<and> t_wait_timeout x = t_wait_timeout y)" by blast
  qed (use assms(1) in \<open>simp_all add: sys_inv_def\<close>)
  ultimately show ?thesis unfolding sys_inv_def life_but_def by blast
qed

lemma task_ok_other [simp]: "task_ok (x\<lparr>t_kstack := b\<rparr>) = task_ok x" "task_ok (x\<lparr>t_refcount := n\<rparr>) = task_ok x"
  by (cases "t_state x"; simp add: task_ok_def)+

lemma sys_stack:
  assumes "sys_inv P s" "tasks s t = Some x"
  shows "sys_inv P (s\<lparr>tasks := (tasks s)(t := Some (x\<lparr>t_kstack := b\<rparr>))\<rparr>)"
proof (rule sys_upd [OF assms])
  show "task_ok (x\<lparr>t_kstack := b\<rparr>)" using core_task [OF sys_inv_core [OF assms(1)] assms(2)] by simp
  show "t_link x = Some Dead_list \<longrightarrow> 0 < t_refcount (x\<lparr>t_kstack := b\<rparr>)" using assms by (auto simp: sys_inv_def life_but_def)
qed (simp_all add: same_place_def timed_def)

lemma sys_refcount:
  assumes "sys_inv P s" "tasks s t = Some x" "t_link x = Some Dead_list \<longrightarrow> 0 < n"
  shows "sys_inv P (s\<lparr>tasks := (tasks s)(t := Some (x\<lparr>t_refcount := n\<rparr>))\<rparr>)"
proof (rule sys_upd [OF assms(1,2)])
  show "task_ok (x\<lparr>t_refcount := n\<rparr>)" using core_task [OF sys_inv_core [OF assms(1)] assms(2)] by simp
qed (use assms(3) in \<open>simp_all add: same_place_def timed_def\<close>)

subsection \<open>Freeing\<close>

text \<open>A dead task that is in no list is removed.\<close>

lemma core_remove:
  assumes "core s" "tasks s t = Some x" "t_link x = None" "\<not> timed x"
  shows "core (s\<lparr>tasks := (tasks s)(t := None)\<rparr>)"
proof -
  let ?s = "s\<lparr>tasks := (tasks s)(t := None)\<rparr>"
  have "lists_ok s" "timeouts_ok s" using assms(1) by (simp_all add: core_def)
  then have "lists_ok ?s" "timeouts_ok ?s" using assms(2-4) by (auto simp: lists_ok_def timeouts_ok_def)
  then show ?thesis using assms(1) by (auto simp: core_def)
qed

lemma sched_invI:
  assumes "core s" "\<And>t x. tasks s t = Some x \<Longrightarrow> t_state x = TASK_RUNNING \<Longrightarrow> t = cur s" "idle_ok s" "tasks s (cur s) = Some c" "t_state c = TASK_RUNNING"
  shows "sched_inv s"
  unfolding sched_inv_def semi_def using assms by blast

lemma sched_inv_remove:
  assumes "sched_inv s" "tasks s t = Some x" "t_link x = None" "t_state x = TASK_DEAD"
  shows "sched_inv (s\<lparr>tasks := (tasks s)(t := None)\<rparr>)"
proof -
  have si: "core s" "\<forall>t x. tasks s t = Some x \<and> t_state x = TASK_RUNNING \<longrightarrow> t = cur s" "idle_ok s" "\<exists>c. tasks s (cur s) = Some c \<and> t_state c = TASK_RUNNING"
    using assms(1) by (auto simp: sched_inv_def semi_def)
  have t: "t \<noteq> 1" "t \<noteq> cur s" using si(3,4) assms(2,4) by (auto simp: idle_ok_def)
  obtain c where c: "tasks s (cur s) = Some c" "t_state c = TASK_RUNNING" using si(4) by blast
  have "core (s\<lparr>tasks := (tasks s)(t := None)\<rparr>)" using core_remove [OF si(1) assms(2,3)] assms(4) by (simp add: timed_def)
  moreover have "idle_ok (s\<lparr>tasks := (tasks s)(t := None)\<rparr>)" using si(3) t(1) by (simp add: idle_ok_def)
  moreover have "u = cur s" if "((tasks s)(t := None)) u = Some y" "t_state y = TASK_RUNNING" for u y using that si(2) by (cases "u = t") auto
  ultimately show ?thesis using c t(2) by (intro sched_invI [of _ c]) simp_all
qed

lemma procs_ok_remove:
  assumes "procs_ok s" "tasks s t = Some x" "procs s (t_process x) = Some y" "tasks s' t = None"
    "\<And>u. u \<noteq> t \<Longrightarrow> rel_option (\<lambda>x x'. t_process x' = t_process x) (tasks s u) (tasks s' u)"
    "procs s' = (procs s)(t_process x := if p_refcount y = 1 then None else Some (y\<lparr>p_tasks := remove1 t (p_tasks y), p_refcount := p_refcount y - 1\<rparr>))"
    "pid_next s' = pid_next s"
  shows "procs_ok s'"
proof -
  have y: "t \<in> set (p_tasks y)" "distinct (p_tasks y)" "length (p_tasks y) \<le> p_refcount y" "0 < p_refcount y"
      "\<And>u. u \<in> set (p_tasks y) \<Longrightarrow> \<exists>z. tasks s u = Some z \<and> t_process z = t_process x"
    using assms(1) [unfolded procs_ok_def, THEN conjunct1, rule_format, OF assms(2)] assms(1) [unfolded procs_ok_def, THEN conjunct2, rule_format, OF assms(3)]
      assms(3) by auto
  have one: "p_refcount y = 1 \<Longrightarrow> set (p_tasks y) = {t}" using y(1-3) by (cases "p_tasks y") auto
  have old: "\<exists>z. tasks s u = Some z \<and> t_process z = t_process z' \<and> u \<noteq> t" if "tasks s' u = Some z'" for u z'
  proof -
    have "u \<noteq> t" using that assms(4) by auto
    then show ?thesis using assms(5) [of u] that by (cases "tasks s u") auto
  qed
  have forth: "\<exists>z'. tasks s' u = Some z' \<and> t_process z' = t_process z" if "tasks s u = Some z" "u \<noteq> t" for u z
    using assms(5) [OF that(2)] that(1) by (cases "tasks s' u") auto
  show ?thesis
    unfolding procs_ok_def
  proof (intro conjI allI impI)
    fix u z' assume "tasks s' u = Some z'"
    then obtain z where z: "tasks s u = Some z" "t_process z = t_process z'" "u \<noteq> t" using old by blast
    obtain v where v: "procs s (t_process z) = Some v" "u \<in> set (p_tasks v)" using assms(1) z(1) unfolding procs_ok_def by blast
    show "\<exists>y. procs s' (t_process z') = Some y \<and> u \<in> set (p_tasks y)"
    proof (cases "t_process z = t_process x")
      case True
      then have "u \<in> set (p_tasks y)" using v assms(3) by simp
      then have "p_refcount y \<noteq> 1" using one z(3) by auto
      then show ?thesis using assms(6) True z(2,3) \<open>u \<in> set (p_tasks y)\<close> y(2) by simp
    next
      case False
      then show ?thesis using assms(6) v z(2) by auto
    qed
  next
    fix p v assume v: "procs s' p = Some v"
    have "distinct (p_tasks v) \<and> length (p_tasks v) \<le> p_refcount v \<and> 0 < p_refcount v \<and> (\<forall>u \<in> set (p_tasks v). \<exists>z. tasks s' u = Some z \<and> t_process z = p)"
    proof (cases "p = t_process x")
      case True
      then have v': "v = y\<lparr>p_tasks := remove1 t (p_tasks y), p_refcount := p_refcount y - 1\<rparr>" "p_refcount y \<noteq> 1" using v assms(6) by (auto split: if_splits)
      have "\<exists>z. tasks s' u = Some z \<and> t_process z = p" if "u \<in> set (p_tasks v)" for u
      proof -
        have "u \<in> set (p_tasks y)" "u \<noteq> t" using that v'(1) y(2) by auto
        then show ?thesis using y(5) [of u] forth [of u] True by metis
      qed
      then show ?thesis using v' y(1-4) by (auto simp: length_remove1)
    next
      case False
      then have v': "procs s p = Some v" using v assms(6) by simp
      have "\<exists>z. tasks s' u = Some z \<and> t_process z = p" if u: "u \<in> set (p_tasks v)" for u
      proof -
        obtain z where z: "tasks s u = Some z" "t_process z = p" using assms(1) v' u unfolding procs_ok_def by blast
        then have "u \<noteq> t" using assms(2) False by auto
        then show ?thesis using forth z by blast
      qed
      then show ?thesis using assms(1) v' by (simp add: procs_ok_def)
    qed
    moreover have "procs s p \<noteq> None" using v assms(3,6) by (cases "p = t_process x") auto
    then have "p < pid_next s'" using assms(1,7) by (auto simp: procs_ok_def)
    ultimately show "p < pid_next s'" "distinct (p_tasks v)" "length (p_tasks v) \<le> p_refcount v" "0 < p_refcount v" "\<forall>u \<in> set (p_tasks v). \<exists>z. tasks s' u = Some z \<and> t_process z = p" by blast+
  qed
qed

text \<open>The last task of a process signals its completion.\<close>

lemma completion_signal_ok:
  assumes "core s"
  shows "\<exists>s'. completion_signal c s = Some s' \<and> core s' \<and> woken s s' \<and> g_msg_queue s' = g_msg_queue s \<and> queues s' (Wait_queue c) = [] \<and> completed s' c"
proof -
  have "core (s\<lparr>completed := (completed s)(c := True)\<rparr>)" using assms by simp
  from wake_all_ok [OF this, of c] show ?thesis by (auto simp: completion_signal_def)
qed

lemma life_ok_remove:
  assumes "life_ok s" "tasks s t = Some x" "procs s (t_process x) = Some y" "t_state x = TASK_DEAD"
    and q: "procs s1 = Q" "\<And>u. rel_option same_life (tasks s u) (tasks s1 u)" "\<And>l. queues s1 (Wait_queue l) \<noteq> [] \<Longrightarrow> queues s (Wait_queue l) \<noteq> []"
    and s': "pid_next s' = pid_next s" "tasks s' = (tasks s1)(t := None)" "queues s' = queues s1"
      "procs s' = (procs s)(t_process x := if p_refcount y = 1 then None else Some (y\<lparr>p_tasks := remove1 t (p_tasks y), p_refcount := p_refcount y - 1\<rparr>))"
  shows "life_ok s'"
proof -
  have l: "procs_ok s" "\<And>t x. tasks s t = Some x \<Longrightarrow> t_link x = Some Dead_list \<Longrightarrow> 0 < t_refcount x"
      "\<And>t. queues s (Wait_queue (Join_list t)) \<noteq> [] \<Longrightarrow> \<exists>x. tasks s t = Some x \<and> t_state x \<noteq> TASK_DEAD"
    using assms(1) unfolding life_but_def by blast+
  have "procs_ok s'"
  proof (rule procs_ok_remove [OF l(1) assms(2,3)])
    fix u assume "u \<noteq> t"
    then show "rel_option (\<lambda>x x'. t_process x' = t_process x) (tasks s u) (tasks s' u)"
      using q(2) [of u] by (cases "tasks s u"; cases "tasks s1 u") (simp_all add: s'(2) same_life_def)
  qed (simp_all add: s')
  moreover have "0 < t_refcount z" if z: "tasks s' u = Some z" "t_link z = Some Dead_list" for u z
  proof -
    have "tasks s1 u = Some z" using z(1) s'(2) by (cases "u = t") auto
    then obtain w where w: "tasks s u = Some w" "same_life w z" using q(2) [of u] by (cases "tasks s u") auto
    then show ?thesis using l(2) [OF w(1)] z(2) by (simp add: same_life_def)
  qed
  moreover have "\<exists>z. tasks s' u = Some z \<and> t_state z \<noteq> TASK_DEAD" if "queues s' (Wait_queue (Join_list u)) \<noteq> []" for u
  proof -
    have "queues s (Wait_queue (Join_list u)) \<noteq> []" using that q(3) s'(3) by simp
    then obtain w where w: "tasks s u = Some w" "t_state w \<noteq> TASK_DEAD" using l(3) by blast
    have "u \<noteq> t" using w assms(2,4) by auto
    moreover obtain z where "tasks s1 u = Some z" "same_life w z" using q(2) [of u] w(1) by (cases "tasks s1 u") auto
    ultimately show ?thesis using w(2) s'(2) by (simp add: same_life_def)
  qed
  ultimately show ?thesis unfolding life_but_def by blast
qed

text \<open>The part of \<^verbatim>\<open>task_free\<close> after the stack is gone.\<close>

lemma process_release_eq:
  assumes "procs s p = Some (y\<lparr>p_tasks := remove1 t (p_tasks y)\<rparr>)" "t \<in> set (p_tasks y)" "length (p_tasks y) \<le> p_refcount y"
  shows "process_release p s = Some (s\<lparr>procs := (procs s)(p := if p_refcount y = 1 then None else
    Some (y\<lparr>p_tasks := remove1 t (p_tasks y), p_refcount := p_refcount y - 1\<rparr>))\<rparr>)"
proof -
  have "0 < length (p_tasks y)" using assms(2) by (cases "p_tasks y") auto
  then have r: "0 < p_refcount y" using assms(3) by linarith
  have "p_refcount y = 1 \<Longrightarrow> remove1 t (p_tasks y) = []" using assms(2,3) by (cases "p_tasks y") auto
  then show ?thesis using assms(1) r by (auto simp: process_release_def kassert_def Let_def)
qed

lemma sys_free:
  assumes "sys_inv P s" "tasks s t = Some x" "t_state x = TASK_DEAD" "t_link x = None"
  shows "\<exists>s'. task_free t s = Some s' \<and> sys_inv P s' \<and> tasks s' t = None"
proof -
  let ?p = "t_process x" and ?x = "x\<lparr>t_kstack := False\<rparr>"
  define s1 where "s1 = s\<lparr>tasks := (tasks s)(t := Some ?x)\<rparr>"
  have i1: "sys_inv P s1" unfolding s1_def by (rule sys_stack [OF assms(1,2)])
  have t1: "tasks s1 t = Some ?x" by (simp add: s1_def)
  have l1: "life_ok s1" and c1: "core s1" and si1: "sched_inv s1" and tm1: "timer_ok P s1" using i1 sys_inv_core by (auto simp: sys_inv_def)
  have po: "procs_ok s1" using l1 by (simp add: life_but_def)
  obtain y where y: "procs s1 ?p = Some y" "t \<in> set (p_tasks y)"
    using po [unfolded procs_ok_def, THEN conjunct1, rule_format, OF t1] by auto
  have len: "length (p_tasks y) \<le> p_refcount y" using po [unfolded procs_ok_def, THEN conjunct2, rule_format, OF y(1)] by simp
  let ?y = "y\<lparr>p_tasks := remove1 t (p_tasks y)\<rparr>"
  define s2 where "s2 = s1\<lparr>procs := (procs s1)(?p := Some ?y)\<rparr>"
  have c2: "core s2" "sched_inv s2" "timer_ok P s2" using c1 si1 tm1 by (simp_all add: s2_def)
  obtain s3 where s3: "(if p_tasks ?y = [] then completion_signal (Exit_list ?p) s2 else Some s2) = Some s3" "core s3" "woken s2 s3" "g_msg_queue s3 = g_msg_queue s2"
    using completion_signal_ok [OF c2(1), of "Exit_list ?p"] c2(1) woken_refl [of s2] by (cases "p_tasks ?y = []") auto
  have p3: "procs s3 = procs s2" using s3(3) by (simp add: woken_def)
  let ?P = "(procs s3)(?p := if p_refcount y = 1 then None else Some (y\<lparr>p_tasks := remove1 t (p_tasks y), p_refcount := p_refcount y - 1\<rparr>))"
  have rel: "process_release ?p s3 = Some (s3\<lparr>procs := ?P\<rparr>)"
    by (rule process_release_eq [OF _ y(2) len]) (simp add: p3 s2_def)
  define s5 where "s5 = s3\<lparr>procs := ?P, tasks := (tasks s3)(t := None)\<rparr>"
  have run: "task_free t s = Some s5"
  proof -
    have k: "kassert (t \<in> set (p_tasks y)) = Some ()" and tp: "t_process ?x = ?p" using y(2) by (simp_all add: kassert_def)
    show ?thesis
      unfolding task_free_def task_free_stack_def upd_def assms(2) Option.bind_lunit s1_def [symmetric] t1 tp y(1) k Let_def s2_def [symmetric] s3(1) rel s5_def
      by simp
  qed
  have t3: "tasks s3 t = Some ?x" using woken_keeps [OF s3(3), of t ?x] t1 assms(3) by (simp add: s2_def)
  have "sched_inv s3" by (rule woken_sched_inv [OF s3(3,2) c2(2)])
  then have "sched_inv (s3\<lparr>procs := ?P\<rparr>)" by simp
  from sched_inv_remove [OF this, of t ?x] have "sched_inv s5" using t3 assms(3,4) by (simp add: s5_def)
  moreover have "timer_ok P s5"
  proof -
    have "timer_ok P s3" using woken_timer [OF s3(3) c2(3)] s3(4) by simp
    then show ?thesis by (rule timer_ok_mono) (auto simp: s5_def split: if_splits)
  qed
  moreover have "life_ok s5"
  proof (rule life_ok_remove [OF l1 t1, of y s3 "procs s3"])
    have q: "quiet {} s2 s3" by (rule woken_quiet [OF s3(3) c2(1) s3(2)])
    show "rel_option same_life (tasks s1 u) (tasks s3 u)" for u using q by (simp add: quiet_def s2_def)
    show "queues s1 (Wait_queue l) \<noteq> []" if ne: "queues s3 (Wait_queue l) \<noteq> []" for l
      using woken_queue_subset [OF s3(3) c2(1) s3(2) ne] by (simp add: s2_def)
    show "procs s5 = (procs s1)(t_process ?x := if p_refcount y = 1 then None else Some (y\<lparr>p_tasks := remove1 t (p_tasks y), p_refcount := p_refcount y - 1\<rparr>))"
      by (simp add: s5_def p3 s2_def)
    show "pid_next s5 = pid_next s1" using s3(3) by (simp add: s5_def woken_def s2_def)
  qed (use y(1) assms(3) in \<open>simp_all add: s5_def\<close>)
  ultimately show ?thesis using run by (auto simp: sys_inv_def s5_def)
qed

lemma sys_release:
  assumes "sys_inv P s" "tasks s t = Some x" "0 < t_refcount x" "t_link x = Some Dead_list \<longrightarrow> 1 < t_refcount x"
  shows "\<exists>s'. task_release t s = Some s' \<and> sys_inv P s'"
proof -
  let ?x = "x\<lparr>t_refcount := t_refcount x - 1\<rparr>" and ?s = "s\<lparr>tasks := (tasks s)(t := Some (x\<lparr>t_refcount := t_refcount x - 1\<rparr>))\<rparr>"
  have i: "sys_inv P ?s" by (rule sys_refcount [OF assms(1,2)]) (use assms(4) in simp)
  show ?thesis
  proof (cases "t_refcount x - 1 = 0 \<and> t_state x = TASK_DEAD")
    case True
    have "t_link x = None" using core_task [OF sys_inv_core [OF assms(1)] assms(2)] True assms(4) by (auto simp: task_ok_def)
    then obtain s' where "task_free t ?s = Some s'" "sys_inv P s'" using sys_free [OF i, of t ?x] True by auto
    then show ?thesis using assms(2,3) True by (simp add: task_release_def kassert_def upd_def)
  next
    case False
    then show ?thesis using assms(2,3) i by (auto simp: task_release_def kassert_def upd_def)
  qed
qed

subsection \<open>Termination\<close>

lemma terminate_relocate:
  assumes "core s" "tasks s t = Some x" "t_state x = TASK_READY \<or> t_state x = TASK_WAITING"
  shows "\<exists>x'. do { s \<leftarrow> (case t_state x of
         TASK_DEAD \<Rightarrow> None
       | TASK_RUNNING \<Rightarrow> None
       | TASK_READY \<Rightarrow> reset_ready t s
       | TASK_WAITING \<Rightarrow> do { s \<leftarrow> reset_timeout t s; reset_wait_for t s }); set_dead t s } = Some (relocate t x x' s) \<and>
    task_ok x' \<and> t_state x' = TASK_DEAD \<and> t_link x' = None \<and> t_process x' = t_process x \<and> t_refcount x' = t_refcount x"
proof -
  have ok: "task_ok x" and to: "timeouts_ok s" using assms(1) core_task [OF assms(1,2)] by (auto simp: core_def)
  show ?thesis
  proof (cases "t_state x = TASK_READY")
    case True
    let ?x = "x\<lparr>t_state := TASK_DEAD, t_link := None\<rparr>"
    have "filter (\<lambda>p. snd p \<noteq> t) (timeout_queue s) = timeout_queue s" using timeouts_untimed [OF to assms(2)] True by (simp add: timed_def)
    then show ?thesis using True ok assms(2)
      by (intro exI [of _ ?x]) (cases s; cases x; simp add: reset_ready_def list_remove_def set_dead_def upd_def relocate_def attach_def detach_def timed_def task_ok_def)
  next
    case False
    then have w: "t_state x = TASK_WAITING" using assms(3) by simp
    let ?x = "x\<lparr>t_state := TASK_DEAD, t_link := None, t_wait_for := None, t_has_timeout := False\<rparr>"
    have l: "t_link x = map_option Wait_queue (t_wait_for x)" using ok w by (simp add: task_ok_def)
    have ok': "task_ok ?x" using ok by (simp add: task_ok_def)
    have "(do { s \<leftarrow> reset_timeout t s; s \<leftarrow> reset_wait_for t s; set_dead t s }) = Some (relocate t x ?x s)"
    proof (cases "t_has_timeout x")
      case True
      then have "(t_wait_timeout x, t) \<in> set (timeout_queue s)" using to assms(2) w by (auto simp: timeouts_ok_def timed_def)
      note tq = timeouts_remove [OF to this]
      show ?thesis using True assms(2) w l tq
        by (cases s; cases x; cases "t_wait_for x") (simp_all add: reset_timeout_def reset_wait_for_def list_remove_def set_dead_def upd_def relocate_def attach_def detach_def timed_def)
    next
      case False
      then have "filter (\<lambda>p. snd p \<noteq> t) (timeout_queue s) = timeout_queue s" using timeouts_untimed [OF to assms(2)] by (simp add: timed_def)
      then show ?thesis using False assms(2) w l
        by (cases s; cases x; cases "t_wait_for x") (simp_all add: reset_timeout_def reset_wait_for_def list_remove_def set_dead_def upd_def relocate_def attach_def detach_def timed_def)
    qed
    then show ?thesis using w ok' by (intro exI [of _ ?x]) simp
  qed
qed

lemma sys_terminate:
  assumes "sys_inv P s" "tasks s t = Some x" "t_state x = TASK_READY \<or> t_state x = TASK_WAITING" "0 < t_refcount x" "t \<noteq> 1"
  shows "\<exists>s'. task_terminate t s = Some s' \<and> sys_inv P s'"
proof -
  have co: "core s" by (rule sys_inv_core [OF assms(1)])
  define kill where "kill = (case t_state x of
         TASK_DEAD \<Rightarrow> None
       | TASK_RUNNING \<Rightarrow> None
       | TASK_READY \<Rightarrow> reset_ready t s
       | TASK_WAITING \<Rightarrow> do { s \<leftarrow> reset_timeout t s; reset_wait_for t s })"
  obtain x' where x': "do { s \<leftarrow> kill; set_dead t s } = Some (relocate t x x' s)" "task_ok x'" "t_state x' = TASK_DEAD" "t_link x' = None"
      "t_process x' = t_process x" "t_refcount x' = t_refcount x"
    using terminate_relocate [OF co assms(2,3)] unfolding kill_def by blast
  obtain s0 where s0: "kill = Some s0" "set_dead t s0 = Some (relocate t x x' s)" using x'(1) by (auto simp: Option.bind_eq_Some_conv)
  have nd: "t_link x \<noteq> Some Dead_list" using core_task [OF co assms(2)] assms(3) by (cases "t_wait_for x") (auto simp: task_ok_def)
  obtain s1 where s1: "wait_list_wake_all (Join_list t) (relocate t x x' s) = Some s1" "core s1" "woken (relocate t x x' s) s1" "life_ok s1" "g_msg_queue s1 = g_msg_queue s"
    using life_dying [OF _ co assms(2) nd x'(2-5)] assms(1) by (auto simp: sys_inv_def)
  have "t \<noteq> cur s" using cur_not [OF assms(1,2)] assms(3) by auto
  then have "sched_inv (relocate t x x' s)" using sched_inv_relocate [OF _ assms(2) x'(2)] assms(1,5) x'(3) by (simp add: sys_inv_def)
  moreover have "timer_ok P (relocate t x x' s)" using assms(1) x'(3) by (intro relocate_timer) (simp_all add: sys_inv_def timed_def)
  ultimately have i1: "sys_inv P s1" using woken_sched_inv [OF s1(3,2)] woken_timer [OF s1(3)] s1(4,5) by (simp add: sys_inv_def)
  have t1: "tasks s1 t = Some x'" using woken_keeps [OF s1(3), of t x'] x'(3) by simp
  let ?x = "x'\<lparr>t_kstack := False\<rparr>" and ?s = "s1\<lparr>tasks := (tasks s1)(t := Some (x'\<lparr>t_kstack := False\<rparr>))\<rparr>"
  obtain s' where s': "task_release t ?s = Some s'" "sys_inv P s'"
    using sys_release [OF sys_stack [OF i1 t1, of False], of t ?x] x'(4,6) assms(4) by auto
  have "task_terminate t s = Some s'"
    unfolding task_terminate_def assms(2) Option.bind_lunit kill_def [symmetric] s0(1) task_before_dying_def s0(2) s1(1) task_free_stack_def upd_def t1 by (rule s'(1))
  then show ?thesis using s'(2) by blast
qed

lemma exit_relocate:
  assumes "core s" "tasks s t = Some x" "t_link x = None" "\<not> timed x"
  shows "list_push_back Dead_list t (s\<lparr>tasks := (tasks s)(t := Some (x\<lparr>t_refcount := n\<rparr>))\<rparr>) = Some (relocate t x (x\<lparr>t_refcount := n, t_link := Some Dead_list\<rparr>) s)"
proof -
  have "filter (\<lambda>p. snd p \<noteq> t) (timeout_queue s) = timeout_queue s" using timeouts_untimed assms by (auto simp: core_def)
  then show ?thesis using assms by (cases s; cases x) (auto simp: list_push_back_def upd_def relocate_def attach_def detach_def timed_def)
qed

lemma life_relocate:
  assumes "life_ok s" "tasks s t = Some x" "t_process x' = t_process x" "t_state x' = t_state x" "t_link x' = Some Dead_list \<longrightarrow> 0 < t_refcount x'"
    "\<And>l. t_link x' \<noteq> Some (Wait_queue l)"
  shows "life_ok (relocate t x x' s)"
proof -
  let ?s = "relocate t x x' s"
  have l: "procs_ok s" "\<And>t x. tasks s t = Some x \<Longrightarrow> t_link x = Some Dead_list \<Longrightarrow> 0 < t_refcount x"
      "\<And>t. queues s (Wait_queue (Join_list t)) \<noteq> [] \<Longrightarrow> \<exists>x. tasks s t = Some x \<and> t_state x \<noteq> TASK_DEAD"
    using assms(1) unfolding life_but_def by blast+
  have "procs_ok ?s"
  proof (rule procs_ok_cong [OF l(1)])
    show "\<forall>u. rel_option (\<lambda>x x'. t_process x' = t_process x) (tasks s u) (tasks ?s u)" using assms(2,3) by (simp add: option.rel_refl)
  qed simp_all
  moreover have "0 < t_refcount y" if "tasks ?s u = Some y" "t_link y = Some Dead_list" for u y using that l(2) assms(5) by (cases "u = t") auto
  moreover have "\<exists>y. tasks ?s u = Some y \<and> t_state y \<noteq> TASK_DEAD" if "queues ?s (Wait_queue (Join_list u)) \<noteq> []" for u
  proof -
    have "queues s (Wait_queue (Join_list u)) \<noteq> []"
      using that assms(6) by (cases "t_link x"; cases "t_link x'") (auto simp: relocate_def attach_def detach_def split: if_splits)
    then obtain y where "tasks s u = Some y" "t_state y \<noteq> TASK_DEAD" using l(3) by blast
    then show ?thesis using assms(2,4) by (cases "u = t") auto
  qed
  ultimately show ?thesis unfolding life_but_def by blast
qed

lemma sys_exit:
  assumes "sys_inv P s" "tasks s (cur s) = Some c" "t_refcount c < MAX_REFC" "cur s \<noteq> 1"
  shows "\<exists>s'. task_exit s = Some s' \<and> sys_inv P s'"
proof -
  have co: "core s" by (rule sys_inv_core [OF assms(1)])
  have c: "t_state c = TASK_RUNNING" using assms(1,2) by (auto simp: sys_inv_def sched_inv_def)
  have cl: "t_link c = None" "t_wait_for c = None" "\<not> timed c" "t_priority c < 8" using core_task [OF co assms(2)] c by (simp_all add: task_ok_def timed_def)
  let ?c = "c\<lparr>t_state := TASK_DEAD\<rparr>"
  have okd: "task_ok ?c" "\<not> timed ?c" using cl by (simp_all add: task_ok_def timed_def)
  have tq: "filter (\<lambda>p. snd p \<noteq> cur s) (timeout_queue s) = timeout_queue s" using timeouts_untimed co assms(2) cl(3) by (auto simp: core_def)
  have d: "set_dead (cur s) s = Some (relocate (cur s) c ?c s)"
    using assms(2) cl tq by (cases s) (simp add: set_dead_def upd_def relocate_def attach_def detach_def timed_def)
  obtain s1 where s1: "wait_list_wake_all (Join_list (cur s)) (relocate (cur s) c ?c s) = Some s1" "core s1" "woken (relocate (cur s) c ?c s) s1" "life_ok s1" "g_msg_queue s1 = g_msg_queue s"
    using life_dying [OF _ co assms(2) _ okd(1)] assms(1) cl(1) by (auto simp: sys_inv_def)
  have sm1: "semi s1"
    using woken_semi [OF s1(3,2)] semi_relocate [OF _ assms(2) okd(1)] assms(1,4) by (simp add: sys_inv_def sched_inv_semi)
  have tm1: "timer_ok P s1"
    using woken_timer [OF s1(3)] relocate_timer [OF _ okd(2)] assms(1) s1(5) by (simp add: sys_inv_def)
  have t1: "tasks s1 (cur s) = Some ?c" using woken_keeps [OF s1(3), of "cur s" ?c] by simp
  have cur1: "cur s1 = cur s" using s1(3) by (simp add: woken_def)
  let ?d = "?c\<lparr>t_refcount := t_refcount c + 1, t_link := Some Dead_list\<rparr>"
  define s2 where "s2 = relocate (cur s) ?c ?d s1"
  have "semi s2"
    using semi_relocate [OF sm1, of ?c ?d] t1 cur1 cl assms(4) by (simp add: s2_def task_ok_def)
  moreover have l2: "life_ok s2" unfolding s2_def by (rule life_relocate [OF s1(4) t1]) simp_all
  moreover have "timer_ok P s2" unfolding s2_def by (rule relocate_timer [OF tm1]) (simp add: timed_def)
  ultimately obtain s' where s': "schedule s2 = Some s'" "sched_inv s'" "quiet {} s2 s'" "timer_ok P s'" using schedule_inv [of s2 "{}" P] by blast
  have "sys_inv P s'" using quiet_life [OF s'(3) l2] s'(2,4) by (simp add: sys_inv_def)
  moreover have "task_exit s = Some s'"
  proof -
    have k: "kassert (t_refcount ?c < MAX_REFC) = Some ()" using assms(3) by (simp add: kassert_def)
    have p: "list_push_back Dead_list (cur s) (s1\<lparr>tasks := (tasks s1)(cur s := Some (?c\<lparr>t_refcount := t_refcount ?c + 1\<rparr>))\<rparr>) = Some s2"
      using exit_relocate [OF s1(2) t1, of "t_refcount c + 1"] cl okd(2) by (simp add: s2_def)
    show ?thesis unfolding task_exit_def Let_def task_before_dying_def d Option.bind_lunit s1(1) t1 k upd_def p by (rule s'(1))
  qed
  ultimately show ?thesis by blast
qed

lemma sys_drain:
  assumes "sys_inv P s"
  shows "\<exists>b s'. drain_dead s = Some (b, s') \<and> sys_inv P s' \<and> b = (queues s Dead_list \<noteq> [])"
proof (cases "queues s Dead_list")
  case Nil
  then show ?thesis using assms by (intro exI [of _ False] exI [of _ s]) (simp add: drain_dead_def list_pop_front_def)
next
  case (Cons t ts)
  have co: "core s" by (rule sys_inv_core [OF assms])
  obtain x where x: "tasks s t = Some x" "t_link x = Some Dead_list" using core_queue(1) [OF co, of t Dead_list] Cons by auto
  have st: "t_state x = TASK_DEAD" "t_wait_for x = None" "t_priority x < 8"
    using core_task [OF co x(1)] x(2) by (cases "t_state x"; cases "t_wait_for x"; simp add: task_ok_def)+
  have r: "0 < t_refcount x" using assms x by (auto simp: sys_inv_def life_but_def)
  let ?x = "x\<lparr>t_link := None\<rparr>"
  define s1 where "s1 = relocate t x ?x s"
  have nt: "t \<noteq> cur s" "t \<noteq> 1" using cur_not [OF assms x(1)] idle_not [OF assms x(1)] st(1) by auto
  have "sched_inv s1" unfolding s1_def using sched_inv_relocate [OF _ x(1), of ?x] nt st assms by (simp add: sys_inv_def task_ok_def)
  moreover have "life_ok s1" unfolding s1_def using assms by (intro life_relocate [OF _ x(1)]) (simp_all add: sys_inv_def)
  moreover have "timer_ok P s1" unfolding s1_def using assms st(1) by (intro relocate_timer) (simp_all add: sys_inv_def timed_def)
  ultimately have i1: "sys_inv P s1" by (simp add: sys_inv_def)
  obtain s' where s': "task_release t s1 = Some s'" "sys_inv P s'" using sys_release [OF i1, of t ?x] r by (auto simp: s1_def)
  have "filter (\<lambda>p. snd p \<noteq> t) (timeout_queue s) = timeout_queue s" using timeouts_untimed [of s t x] co x(1) st(1) by (simp add: core_def timed_def)
  then have "list_remove t s = Some s1" using x st(1) by (cases s; cases x) (simp add: s1_def list_remove_def upd_def relocate_def attach_def detach_def timed_def)
  then have "drain_dead s = Some (True, s')" using Cons s'(1) by (simp add: drain_dead_def list_pop_front_def)
  then show ?thesis using s'(2) Cons by (intro exI [of _ True] exI [of _ s']) simp
qed

section \<open>Creation\<close>

abbreviation new_task :: "pid \<Rightarrow> nat \<Rightarrow> task" where
  "new_task p priority \<equiv> \<lparr>t_process = p, t_refcount = 1, t_state = TASK_WAITING, t_link = None, t_priority = priority, t_wait_for = None,
     t_has_timeout = False, t_wait_timeout = 0, t_kstack = True\<rparr>"

abbreviation with_task :: "pid \<Rightarrow> process \<Rightarrow> task \<Rightarrow> sched \<Rightarrow> sched" where
  "with_task p y x s \<equiv> s\<lparr>tid_next := tid_next s + 1, tasks := (tasks s)(tid_next s := Some x),
     procs := (procs s)(p := Some (y\<lparr>p_refcount := p_refcount y + 1, p_tasks := p_tasks y @ [tid_next s]\<rparr>))\<rparr>"

lemma fresh_task:
  assumes "core s"
  shows "tasks s (tid_next s) = None" "tid_next s \<notin> set (queues s q)" "(w, tid_next s) \<notin> set (timeout_queue s)"
proof -
  show n: "tasks s (tid_next s) = None" using assms unfolding core_def by (metis less_irrefl option.exhaust)
  show "tid_next s \<notin> set (queues s q)" using core_queue(1) [OF assms] n by simp
  show "(w, tid_next s) \<notin> set (timeout_queue s)" using assms n by (auto simp: core_def timeouts_ok_def)
qed

lemma core_add:
  assumes "core s" "task_ok x" "t_link x = None" "\<not> timed x"
  shows "core (with_task p y x s)"
proof -
  have f: "tasks s (tid_next s) = None" "\<And>q. tid_next s \<notin> set (queues s q)" "\<And>w. (w, tid_next s) \<notin> set (timeout_queue s)" using fresh_task [OF assms(1)] by auto
  have lo: "lists_ok s" "timeouts_ok s" using assms(1) by (simp_all add: core_def)
  have "lists_ok (with_task p y x s)" using lo(1) f(2) assms(3) by (simp add: lists_ok_def)
  moreover have "timeouts_ok (with_task p y x s)" using lo(2) f(3) assms(4) by (simp add: timeouts_ok_def)
  moreover have "task_ok z \<and> u < tid_next s + 1" if "tasks (with_task p y x s) u = Some z" for u z
    using that assms(1,2) by (cases "u = tid_next s") (auto simp: core_def less_Suc_eq)
  ultimately show ?thesis using assms(1) unfolding core_def by simp
qed

lemma procs_ok_add:
  assumes "procs_ok s" "procs s p = Some y" "tasks s (tid_next s) = None" "t_process x = p"
  shows "procs_ok (with_task p y x s)"
proof -
  have po: "\<And>t x. tasks s t = Some x \<Longrightarrow> \<exists>y. procs s (t_process x) = Some y \<and> t \<in> set (p_tasks y)"
      "\<And>p y. procs s p = Some y \<Longrightarrow> p < pid_next s \<and> distinct (p_tasks y) \<and> length (p_tasks y) \<le> p_refcount y \<and> 0 < p_refcount y"
      "\<And>p y u. procs s p = Some y \<Longrightarrow> u \<in> set (p_tasks y) \<Longrightarrow> \<exists>x. tasks s u = Some x \<and> t_process x = p"
    using assms(1) unfolding procs_ok_def by blast+
  have new: "tid_next s \<notin> set (p_tasks z)" if "procs s q = Some z" for q z using po(3) [OF that, of "tid_next s"] assms(3) by auto
  show ?thesis
    unfolding procs_ok_def
  proof (intro conjI allI impI)
    fix t z assume z: "tasks (with_task p y x s) t = Some z"
    show "\<exists>v. procs (with_task p y x s) (t_process z) = Some v \<and> t \<in> set (p_tasks v)"
    proof (cases "t = tid_next s")
      case True
      then show ?thesis using z assms(4) by auto
    next
      case False
      then obtain v where "procs s (t_process z) = Some v" "t \<in> set (p_tasks v)" using po(1) [of t z] z by auto
      then show ?thesis using assms(2) by (cases "t_process z = p") auto
    qed
  next
    fix q v assume v: "procs (with_task p y x s) q = Some v"
    have "\<exists>x. tasks s u = Some x \<and> t_process x = q" if "u \<in> set (p_tasks v)" "u \<noteq> tid_next s" for u
      using v that po(3) [of q _ u] assms(2) by (cases "q = p") auto
    moreover have "tid_next s \<in> set (p_tasks v) \<Longrightarrow> q = p" using v new [of q v] by (cases "q = p") auto
    ultimately show "\<forall>u \<in> set (p_tasks v). \<exists>z. tasks (with_task p y x s) u = Some z \<and> t_process z = q" using assms(4) by auto
    have "q < pid_next s \<and> distinct (p_tasks v) \<and> length (p_tasks v) \<le> p_refcount v \<and> 0 < p_refcount v"
      using v po(2) [of q] po(2) [OF assms(2)] new [OF assms(2)] by (cases "q = p") auto
    then show "q < pid_next (with_task p y x s)" "distinct (p_tasks v)" "length (p_tasks v) \<le> p_refcount v" "0 < p_refcount v" by simp_all
  qed
qed

lemma sys_add:
  assumes "sys_inv P s" "procs s p = Some y" "priority < 8"
  shows "sys_inv P (with_task p y (new_task p priority) s)"
proof -
  let ?x = "new_task p priority" and ?s = "with_task p y (new_task p priority) s"
  have co: "core s" by (rule sys_inv_core [OF assms(1)])
  have f: "tasks s (tid_next s) = None" by (rule fresh_task(1) [OF co])
  have si: "\<And>t x. tasks s t = Some x \<Longrightarrow> t_state x = TASK_RUNNING \<Longrightarrow> t = cur s" "idle_ok s" using assms(1) by (auto simp: sys_inv_def sched_inv_def semi_def)
  obtain c where c: "tasks s (cur s) = Some c" "t_state c = TASK_RUNNING" using assms(1) by (auto simp: sys_inv_def sched_inv_def)
  have ne: "cur s \<noteq> tid_next s" "1 \<noteq> tid_next s" using c(1) si(2) f by (auto simp: idle_ok_def)
  have "sched_inv ?s"
  proof (rule sched_invI [of _ c])
    show "core ?s" using core_add [OF co, of ?x] assms(3) by (simp add: task_ok_def timed_def)
    show "t = cur ?s" if "tasks ?s t = Some z" "t_state z = TASK_RUNNING" for t z using that si(1) by (cases "t = tid_next s") auto
    show "idle_ok ?s" using si(2) ne(2) by (simp add: idle_ok_def)
  qed (use c ne(1) in simp_all)
  moreover have l: "procs_ok s" "\<And>t x. tasks s t = Some x \<Longrightarrow> t_link x = Some Dead_list \<Longrightarrow> 0 < t_refcount x"
      "\<And>t. queues s (Wait_queue (Join_list t)) \<noteq> [] \<Longrightarrow> \<exists>x. tasks s t = Some x \<and> t_state x \<noteq> TASK_DEAD"
    using assms(1) unfolding sys_inv_def life_but_def by blast+
  have "procs_ok ?s" by (rule procs_ok_add [OF l(1) assms(2) f]) simp
  moreover have "0 < t_refcount z" if "tasks ?s t = Some z" "t_link z = Some Dead_list" for t z using that l(2) by (cases "t = tid_next s") auto
  moreover have "\<exists>z. tasks ?s t = Some z \<and> t_state z \<noteq> TASK_DEAD" if "queues ?s (Wait_queue (Join_list t)) \<noteq> []" for t
    using l(3) [of t] that by (cases "t = tid_next s") auto
  moreover have "timer_ok P ?s"
  proof (rule timer_ok_mono [of P s])
    fix t z assume z: "tasks ?s t = Some z" "timed z"
    then have "tasks s t = Some z" by (cases "t = tid_next s") (auto simp: timed_def)
    then show "soonest_timeout ?s \<le> t_wait_timeout z \<or> (\<exists>x. tasks s t = Some x \<and> timed x \<and> t_wait_timeout x = t_wait_timeout z)" using z(2) by blast
  qed (use assms(1) in \<open>simp_all add: sys_inv_def\<close>)
  ultimately show ?thesis unfolding sys_inv_def life_but_def by blast
qed

lemma sys_join_empty:
  assumes "sys_inv P s" "tasks s t = None"
  shows "(queues s)(Wait_queue (Join_list t) := []) = queues s"
proof -
  have "queues s (Wait_queue (Join_list t)) = []" using assms unfolding sys_inv_def life_but_def by (metis empty_iff option.distinct(1))
  then show ?thesis by (intro ext) simp
qed

lemma sys_create:
  assumes "sys_inv P s" "procs s p = Some y" "p_refcount y < MAX_REFC" "priority < 8" "tid_next s < TID_END"
  shows "task_create stack_ok slab_ok p priority s =
      (if stack_ok \<and> slab_ok \<and> \<not> completed s (Exit_list p) then Some (Some (tid_next s), with_task p y (new_task p priority) s) else Some (None, s))"
    and "sys_inv P (with_task p y (new_task p priority) s)"
proof -
  have q: "(queues s)(Wait_queue (Join_list (tid_next s)) := []) = queues s" using sys_join_empty [OF assms(1)] fresh_task(1) [OF sys_inv_core [OF assms(1)]] .
  have w: "completion_wait (Exit_list p) 0 s = Some (if completed s (Exit_list p) then Done True else Done False, s)"
    by (simp add: completion_wait_def task_wait_def)
  define s1 where "s1 = with_task p y ((new_task p TASK_PRIORITY_NORMAL)\<lparr>t_kstack := False\<rparr>) s"
  have i: "task_init p s = Some (tid_next s, s1)"
    using assms(2,3,5) q by (cases s; cases y) (simp add: s1_def task_init_def process_retain_def kassert_def Let_def)
  have st: "(do { s2 \<leftarrow> upd (tid_next s) (\<lambda>x. x\<lparr>t_priority := priority\<rparr>) s1; s2 \<leftarrow> set_wait_for (tid_next s) None s2;
      s2 \<leftarrow> upd (tid_next s) (\<lambda>x. x\<lparr>t_kstack := True\<rparr>) s2; Some (Some (tid_next s), s2) }) = Some (Some (tid_next s), with_task p y (new_task p priority) s)"
    by (cases s) (simp add: s1_def upd_def set_wait_for_def)
  show "task_create stack_ok slab_ok p priority s =
      (if stack_ok \<and> slab_ok \<and> \<not> completed s (Exit_list p) then Some (Some (tid_next s), with_task p y (new_task p priority) s) else Some (None, s))"
    using assms(4) st by (simp add: task_create_def kassert_def w i)
qed (rule sys_add [OF assms(1,2,4)])

lemma sys_start:
  assumes "sys_inv P s" "procs s 0 = Some y" "p_refcount y < MAX_REFC" "priority < 8" "tid_next s < TID_END"
  shows "\<exists>r s'. ktask_start stack_ok slab_ok priority s = Some (r, s') \<and> sys_inv P s'"
proof (cases "stack_ok \<and> slab_ok \<and> \<not> completed s (Exit_list 0)")
  case True
  let ?s = "with_task 0 y (new_task 0 priority) s"
  obtain s' where "task_resume (tid_next s) ?s = Some s'" "sys_inv P s'"
    using sys_resume [OF sys_create(2) [OF assms], of "tid_next s"] by auto
  then show ?thesis using sys_create(1) [OF assms, of stack_ok slab_ok] True by (simp add: ktask_start_def)
next
  case False
  then have "ktask_start stack_ok slab_ok priority s = Some (None, s)" using sys_create(1) [OF assms, of stack_ok slab_ok] by (auto simp: ktask_start_def)
  then show ?thesis using assms(1) by blast
qed

section \<open>The other operations\<close>

lemma sys_retain:
  assumes "sys_inv P s" "tasks s t = Some x" "t_refcount x < MAX_REFC"
  shows "\<exists>s'. task_retain t s = Some s' \<and> sys_inv P s'"
  using sys_refcount [OF assms(1,2), of "t_refcount x + 1"] assms(2,3) by (simp add: task_retain_def kassert_def upd_def)

lemma sys_from_id:
  assumes "sys_inv P s" "\<And>x. tasks s t = Some x \<Longrightarrow> t_refcount x < MAX_REFC"
  shows "\<exists>r s'. task_from_id t s = Some (r, s') \<and> sys_inv P s'"
proof (cases "tasks s t")
  case None
  then show ?thesis using assms(1) by (simp add: task_from_id_def)
next
  case (Some x)
  then show ?thesis using sys_retain [OF assms(1) Some] assms(2) by (auto simp: task_from_id_def)
qed

lemma sys_join:
  assumes "sys_inv P s" "tasks s t = Some x" "t \<noteq> cur s" "cur s \<noteq> 1"
  shows "\<exists>r s'. task_join t timeout s = Some (r, s') \<and> sys_inv P s'"
proof (cases "t_state x = TASK_DEAD \<or> timeout \<le> g_tick s")
  case True
  then show ?thesis using assms by (auto simp: task_join_def kassert_def)
next
  case False
  then obtain r s' where "task_wait (Join_list t) timeout s = Some (r, s')" "sys_inv P s'"
    using sys_task_wait [OF assms(1,4), of "Join_list t" timeout] assms(2) by auto
  then show ?thesis using False assms(2,3) by (simp add: task_join_def kassert_def)
qed

lemma sys_event_signal:
  assumes "sys_inv P s"
  shows "\<exists>s'. event_signal e s = Some s' \<and> sys_inv P s'"
proof -
  obtain s' where "event_signal e s = Some s'" "core s'" "woken s s'" "g_msg_queue s' = g_msg_queue s" using event_signal_ok [OF sys_inv_core [OF assms]] by blast
  then show ?thesis using sys_wake [OF assms, of s'] by simp
qed

text \<open>The wait lists of events and mutexes; a join goes through \<^verbatim>\<open>task_join\<close>.\<close>

lemma sys_event_wait:
  assumes "sys_inv P s" "cur s \<noteq> 1"
  shows "\<exists>r s'. event_wait e timeout s = Some (r, s') \<and> sys_inv P s'"
proof -
  have i: "sys_inv P (snd (event_try_acquire e s))" using assms(1) by (simp add: event_try_acquire_def event_reset_def)
  show ?thesis
  proof (cases "e_signaled (events s e)")
    case True
    then have "event_wait e timeout s = Some (Done True, snd (event_try_acquire e s))" by (simp add: event_wait_def event_try_acquire_def)
    then show ?thesis using i by blast
  next
    case False
    then show ?thesis using sys_task_wait [OF assms, of "Object_list e" timeout] by (auto simp: event_wait_def event_try_acquire_def)
  qed
qed

lemma sys_completion_signal:
  assumes "sys_inv P s"
  shows "\<exists>s'. completion_signal c s = Some s' \<and> sys_inv P s'"
proof -
  obtain s' where "completion_signal c s = Some s'" "core s'" "woken s s'" "g_msg_queue s' = g_msg_queue s" using completion_signal_ok [OF sys_inv_core [OF assms]] by blast
  then show ?thesis using sys_wake [OF assms, of s'] by simp
qed

lemma sys_completion_wait:
  assumes "sys_inv P s" "cur s \<noteq> 1" "\<And>u. c \<noteq> Join_list u"
  shows "\<exists>r s'. completion_wait c timeout s = Some (r, s') \<and> sys_inv P s'"
  using sys_task_wait [OF assms(1,2), of c timeout] assms by (cases "completed s c") (auto simp: completion_wait_def)

lemma sys_mutex_lock:
  assumes "sys_inv P s" "cur s \<noteq> 1" "owners s m \<noteq> Some (cur s)"
  shows "\<exists>r s'. mutex_lock m s = Some (r, s') \<and> sys_inv P s' \<and> (r = Done () \<and> g_tick s \<noteq> TIMEOUT_INFINITY \<longrightarrow> owners s' m = Some (cur s'))"
proof (cases "owners s m = None")
  case True
  then show ?thesis using assms(1) by (simp add: mutex_lock_def mutex_try_acquire_def kassert_def)
next
  case False
  then have t: "mutex_try_acquire m s = Some (False, s)" using assms(3) by (simp add: mutex_try_acquire_def kassert_def)
  obtain r s' where r: "task_wait (Object_list m) TIMEOUT_INFINITY s = Some (r, s')" "sys_inv P s'"
      "r = (if TIMEOUT_INFINITY \<le> g_tick s then Done False else Blocked)"
    using sys_task_wait [OF assms(1,2), of "Object_list m" TIMEOUT_INFINITY] by blast
  have "TIMEOUT_INFINITY \<le> g_tick s \<Longrightarrow> g_tick s = TIMEOUT_INFINITY" by (simp add: word_order.extremum_unique)
  then show ?thesis using r t by (auto simp: mutex_lock_def split: if_splits)
qed

lemma sys_mutex_lock_resume:
  assumes "sys_inv P s" "cur s \<noteq> 1" "owners s m \<noteq> Some (cur s)"
  shows "\<exists>r s'. mutex_lock_resume m s = Some (r, s') \<and> sys_inv P s'"
proof -
  obtain b s1 where s1: "task_wait_resume s = Some (b, s1)" "sys_inv P s1" using sys_task_wait_resume [OF assms(1)] by blast
  have "cur s1 = cur s" "owners s1 = owners s" using s1(1) by (auto simp: task_wait_resume_def upd_def Option.bind_eq_Some_conv)
  then obtain r s' where "mutex_lock m s1 = Some (r, s')" "sys_inv P s'" using sys_mutex_lock [OF s1(2), of m] assms(2,3) by auto
  then show ?thesis using s1 by (cases b) (auto simp: mutex_lock_resume_def)
qed

lemma sys_mutex_unlock:
  assumes "sys_inv P s" "owners s m = Some (cur s)"
  shows "\<exists>s'. mutex_unlock m s = Some s' \<and> sys_inv P s' \<and> owners s' m = None"
proof -
  let ?s = "s\<lparr>owners := (owners s)(m := None)\<rparr>"
  have i: "sys_inv P ?s" using assms(1) by simp
  obtain b s' where s': "wait_list_wake_one (Object_list m) ?s = Some (b, s')" "core s'" "woken ?s s'" "g_msg_queue s' = g_msg_queue ?s"
    using wake_one_ok [OF sys_inv_core [OF i]] by blast
  have "sys_inv P s'" using sys_wake [OF i s'(2,3)] s'(4) by simp
  moreover have "owners s' m = None" using s'(3) by (simp add: woken_def)
  ultimately show ?thesis using s'(1) assms(2) by (simp add: mutex_unlock_def kassert_def)
qed

lemma sys_init_list:
  assumes "sys_inv P s" "queues s (Wait_queue l) = []"
  shows "sys_inv P (s\<lparr>queues := (queues s)(Wait_queue l := [])\<rparr>)"
proof -
  have "(queues s)(Wait_queue l := []) = queues s" using assms(2) by (intro ext) simp
  then show ?thesis using assms(1) by simp
qed

lemma sys_isr_timer: "sys_inv P s \<Longrightarrow> \<exists>s'. isr_timer s = Some s' \<and> sys_inv P s'"
  using sys_schedule [of P "s\<lparr>g_tick := g_tick s + 1\<rparr>"] by (simp add: isr_timer_def sched_on_timer_def)

lemma sys_irqmsg_push:
  assumes "sys_inv P s"
  shows "\<exists>b s'. irqmsg_push m s = Some (b, s') \<and> sys_inv P s'"
proof -
  obtain b s' where s': "irqmsg_push m s = Some (b, s')" "core s'" "woken s s'"
      "rb_contents (g_msg_queue s') = (if b then rb_contents (g_msg_queue s) @ [m] else rb_contents (g_msg_queue s))"
    using irqmsg_push_ok [OF sys_inv_core [OF assms]] by blast
  moreover have "set (rb_contents (g_msg_queue s)) \<subseteq> set (rb_contents (g_msg_queue s'))" using s'(4) by auto
  ultimately show ?thesis using sys_wake [OF assms s'(2,3)] by blast
qed

end
