(* ===== verification/Task_System.thy ===== *)
theory Task_System
  imports Task_Life
begin

text \<open>
  The tasks of the kernel as one system: its operations, the states it reaches from \<^verbatim>\<open>sched_init\<close>, and what holds in them. The
  message that \<^verbatim>\<open>irqmsg_drain_loop\<close> of \<open>kernel/src/irq.c\<close> has taken from the queue and not yet handled is part of the state: interrupts are
  enabled between the two.
\<close>

section \<open>Processes\<close>

lemma life_ok_frame:
  assumes "life_ok s" "tasks s' = tasks s" "queues s' = queues s" "procs_ok s'"
  shows "life_ok s'"
  using assms(1,4) unfolding life_but_def assms(2,3) by blast

lemma sys_procs:
  assumes "sys_inv P s" "procs_ok (s\<lparr>procs := pr, pid_next := n\<rparr>)"
  shows "sys_inv P (s\<lparr>procs := pr, pid_next := n\<rparr>)"
proof -
  have "core (s\<lparr>procs := pr, pid_next := n\<rparr>) = core s" by (simp add: core_def lists_ok_def timeouts_ok_def)
  then have "sched_inv (s\<lparr>procs := pr, pid_next := n\<rparr>) = sched_inv s" by (simp add: sched_inv_def semi_def idle_ok_def)
  moreover have "life_ok (s\<lparr>procs := pr, pid_next := n\<rparr>)" by (rule life_ok_frame [of s]) (use assms in \<open>simp_all add: sys_inv_def\<close>)
  ultimately show ?thesis using assms by (simp add: sys_inv_def timer_ok_def)
qed

lemma procs_okD:
  assumes "procs_ok s" "procs s p = Some y"
  shows "p < pid_next s" "distinct (p_tasks y)" "length (p_tasks y) \<le> p_refcount y" "0 < p_refcount y"
    "u \<in> set (p_tasks y) \<Longrightarrow> \<exists>x. tasks s u = Some x \<and> t_process x = p"
  using assms unfolding procs_ok_def by blast+

lemma procs_ok_set:
  assumes "procs_ok s" "length (p_tasks y) \<le> p_refcount y" "0 < p_refcount y" "p < n" "pid_next s \<le> n"
    "procs s p = Some z \<and> p_tasks y = p_tasks z \<or> procs s p = None \<and> p_tasks y = []"
  shows "procs_ok (s\<lparr>procs := (procs s)(p := Some y), pid_next := n\<rparr>)"
proof -
  note d = procs_okD [OF assms(1)]
  have a: "\<exists>v. ((procs s)(p := Some y)) (t_process x) = Some v \<and> t \<in> set (p_tasks v)" if x: "tasks s t = Some x" for t x
  proof -
    obtain v where "procs s (t_process x) = Some v" "t \<in> set (p_tasks v)" using assms(1) x unfolding procs_ok_def by blast
    then show ?thesis using assms(6) by (cases "t_process x = p") auto
  qed
  have b: "q < n \<and> distinct (p_tasks v) \<and> length (p_tasks v) \<le> p_refcount v \<and> 0 < p_refcount v \<and> (\<forall>t \<in> set (p_tasks v). \<exists>x. tasks s t = Some x \<and> t_process x = q)"
    if v: "((procs s)(p := Some y)) q = Some v" for q v
  proof (cases "q = p")
    case True
    then have "v = y" using v by simp
    then show ?thesis using assms(2-4,6) True d(2,5) [of p z] by auto
  next
    case False
    then have "procs s q = Some v" using v by simp
    then show ?thesis using d [of q v] assms(5) by auto
  qed
  show ?thesis unfolding procs_ok_def using a b by simp
qed

lemma sys_process_create:
  assumes "sys_inv P s" "pid_next s < PID_END" "queues s (Wait_queue (Exit_list (pid_next s))) = []"
  shows "\<exists>r s'. process_create mem_ok s = Some (r, s') \<and> sys_inv P s'"
proof (cases mem_ok)
  case True
  let ?p = "pid_next s" and ?y = "\<lparr>p_refcount = 1, p_tasks = []\<rparr>"
  let ?s = "s\<lparr>procs := (procs s)(?p := Some ?y), pid_next := ?p + 1\<rparr>"
  have po: "procs_ok s" using assms(1) by (simp add: sys_inv_def life_but_def)
  have "procs s ?p = None" using procs_okD(1) [OF po, of ?p] by (cases "procs s ?p") auto
  then have "procs_ok ?s" by (intro procs_ok_set [OF po]) auto
  then have "sys_inv P (?s\<lparr>completed := (completed s)(Exit_list ?p := False)\<rparr>)" using sys_procs [OF assms(1)] by simp
  moreover have "(queues s)(Wait_queue (Exit_list ?p) := []) = queues s" using assms(3) by (intro ext) simp
  then have "process_create mem_ok s = Some (Some ?p, ?s\<lparr>completed := (completed s)(Exit_list ?p := False)\<rparr>)"
    using True assms(2) by (cases s) (simp add: process_create_def process_init_def completion_init_def kassert_def Let_def)
  ultimately show ?thesis by blast
next
  case False
  then show ?thesis using assms(1) by (simp add: process_create_def)
qed

lemma sys_process_retain:
  assumes "sys_inv P s" "procs s p = Some y" "p_refcount y < MAX_REFC"
  shows "\<exists>s'. process_retain p s = Some s' \<and> sys_inv P s'"
proof -
  let ?s = "s\<lparr>procs := (procs s)(p := Some (y\<lparr>p_refcount := p_refcount y + 1\<rparr>)), pid_next := pid_next s\<rparr>"
  have po: "procs_ok s" using assms(1) by (simp add: sys_inv_def life_but_def)
  have "procs_ok ?s" using procs_okD(1,3) [OF po assms(2)] assms(2) by (intro procs_ok_set [OF po, of _ _ _ y]) auto
  then have "sys_inv P ?s" by (rule sys_procs [OF assms(1)])
  moreover have "process_retain p s = Some ?s" using assms(2,3) by (cases s) (simp add: process_retain_def kassert_def)
  ultimately show ?thesis by blast
qed

text \<open>A reference that is not the one of a task is given back.\<close>

lemma sys_process_release:
  assumes "sys_inv P s" "procs s p = Some y" "length (p_tasks y) < p_refcount y"
  shows "\<exists>s'. process_release p s = Some s' \<and> sys_inv P s'"
proof -
  have po: "procs_ok s" using assms(1) by (simp add: sys_inv_def life_but_def)
  note d = procs_okD [OF po]
  show ?thesis
  proof (cases "p_refcount y = 1")
    case True
    let ?s = "s\<lparr>procs := (procs s)(p := None), pid_next := pid_next s\<rparr>"
    have e: "p_tasks y = []" using assms(3) True by simp
    have "\<exists>v. ((procs s)(p := None)) (t_process x) = Some v \<and> t \<in> set (p_tasks v)" if x: "tasks s t = Some x" for t x
    proof -
      obtain v where "procs s (t_process x) = Some v" "t \<in> set (p_tasks v)" using po x unfolding procs_ok_def by blast
      then show ?thesis using assms(2) e by (cases "t_process x = p") auto
    qed
    moreover have "procs s q = Some v" if "((procs s)(p := None)) q = Some v" for q v using that by (cases "q = p") auto
    ultimately have "procs_ok ?s" unfolding procs_ok_def using d by simp
    then have "sys_inv P ?s" by (rule sys_procs [OF assms(1)])
    moreover have "process_release p s = Some ?s" using assms(2) True e by (cases s) (simp add: process_release_def kassert_def Let_def)
    ultimately show ?thesis by blast
  next
    case False
    let ?s = "s\<lparr>procs := (procs s)(p := Some (y\<lparr>p_refcount := p_refcount y - 1\<rparr>)), pid_next := pid_next s\<rparr>"
    have g: "1 < p_refcount y" using False d(4) [OF assms(2)] by simp
    then have "procs_ok ?s" using d(1) [OF assms(2)] assms(2,3) by (intro procs_ok_set [OF po, of _ _ _ y]) auto
    then have "sys_inv P ?s" by (rule sys_procs [OF assms(1)])
    moreover have "process_release p s = Some ?s" using assms(2) g by (cases s) (simp add: process_release_def kassert_def Let_def)
    ultimately show ?thesis by blast
  qed
qed

section \<open>The message loop\<close>

lemma sys_irqmsg_pop:
  assumes "sys_inv False s"
  shows "\<exists>r s'. irqmsg_pop s = Some (r, s') \<and> sys_inv (r = Some timeout_msg) s'"
proof (cases "g_msg_drop_event s")
  case True
  then show ?thesis using assms by (simp add: irqmsg_pop_def)
next
  case nd: False
  have inv: "rbuf_inv (g_msg_queue s)" using sys_inv_core [OF assms] by (simp add: core_def)
  show ?thesis
  proof (cases "rb_contents (g_msg_queue s)")
    case Nil
    then have "ringbuffer_is_empty (fst (g_msg_queue s))" using rb_contents_length [of "g_msg_queue s"] by (simp add: ringbuffer_is_empty_def unat_eq_0)
    then have "irqmsg_pop s = Some (None, s)" using nd by (simp add: irqmsg_pop_def)
    then show ?thesis using assms by simp
  next
    case (Cons m ms)
    then have "\<not> ringbuffer_is_empty (fst (g_msg_queue s))" using rb_contents_length [of "g_msg_queue s"] by (auto simp: ringbuffer_is_empty_def)
    moreover obtain q where q: "ringbuffer_pop (g_msg_queue s) = Some (m, q)" "rbuf_inv q" "rb_contents q = ms" using rbq.pop_ok [OF inv Cons] by blast
    ultimately have run: "irqmsg_pop s = Some (Some m, s\<lparr>g_msg_queue := q\<rparr>)" using nd by (simp add: irqmsg_pop_def)
    have "core (s\<lparr>g_msg_queue := q\<rparr>)" using core_msg [OF sys_inv_core [OF assms] q(2)] .
    then have "sched_inv (s\<lparr>g_msg_queue := q\<rparr>)" using assms by (simp add: sys_inv_def sched_inv_def semi_def idle_ok_def)
    moreover have "procs_ok s" using assms by (simp add: sys_inv_def life_but_def)
    then have po: "procs_ok (s\<lparr>g_msg_queue := q\<rparr>)" by (simp add: procs_ok_def)
    have "life_ok (s\<lparr>g_msg_queue := q\<rparr>)" by (rule life_ok_frame [of s, OF _ _ _ po]) (use assms in \<open>simp_all add: sys_inv_def\<close>)
    moreover have "timer_ok (m = timeout_msg) (s\<lparr>g_msg_queue := q\<rparr>)" using assms Cons q(3) by (auto simp: sys_inv_def timer_ok_def)
    ultimately have "sys_inv (m = timeout_msg) (s\<lparr>g_msg_queue := q\<rparr>)" by (simp add: sys_inv_def)
    then show ?thesis using run by simp
  qed
qed

lemma sys_irqmsg_timeout:
  assumes "sys_inv P s"
  shows "\<exists>s'. irqmsg_timeout s = Some s' \<and> sys_inv False s' \<and> g_tick s' = g_tick s \<and>
    (\<forall>t x. tasks s t = Some x \<and> timed x \<and> t_wait_timeout x \<le> g_tick s \<longrightarrow> (\<exists>x'. tasks s' t = Some x' \<and> t_state x' = TASK_READY \<and> t_has_timeout x'))"
proof -
  have co: "core s" by (rule sys_inv_core [OF assms])
  obtain s' where s': "irqmsg_timeout s = Some s'" "core s'" "woken s (s'\<lparr>soonest_timeout := soonest_timeout s\<rparr>)"
      "\<forall>(w, t) \<in> set (timeout_queue s). w \<le> g_tick s \<longrightarrow> (\<exists>x. tasks s' t = Some x \<and> t_state x = TASK_READY \<and> t_has_timeout x)"
      "timeout_queue s' \<noteq> [] \<longrightarrow> soonest_timeout s' = fst (hd (timeout_queue s'))"
    using timeout_loop_ok [OF co refl] unfolding irqmsg_timeout_def by blast
  let ?s = "s'\<lparr>soonest_timeout := soonest_timeout s\<rparr>"
  have c: "core ?s" using s'(2) by simp
  have "sched_inv ?s" using woken_sched_inv [OF s'(3) c] assms by (simp add: sys_inv_def)
  then have "sched_inv s'" by simp
  moreover have "quiet {} s ?s" by (rule woken_quiet [OF s'(3) co c])
  then have "life_ok s'" using quiet_life [of "{}" s s' "{}"] assms by (simp add: sys_inv_def)
  moreover have "timer_ok False s'"
  proof -
    have to: "timeouts_ok s'" using s'(2) by (simp add: core_def)
    have "soonest_timeout s' \<le> t_wait_timeout x" if x: "tasks s' t = Some x" "timed x" for t x
    proof -
      have m: "(t_wait_timeout x, t) \<in> set (timeout_queue s')" using to x unfolding timeouts_ok_def by blast
      have so: "sorted_wrt before (timeout_queue s')" using to by (simp add: timeouts_ok_def)
      obtain p ps where p: "timeout_queue s' = p # ps" using m by (cases "timeout_queue s'") auto
      then have "fst p \<le> t_wait_timeout x" using m so by (auto simp: before_def)
      then show ?thesis using s'(5) p by simp
    qed
    then show ?thesis by (auto simp: timer_ok_def)
  qed
  moreover have "\<exists>x'. tasks s' t = Some x' \<and> t_state x' = TASK_READY \<and> t_has_timeout x'"
    if x: "tasks s t = Some x" "timed x" "t_wait_timeout x \<le> g_tick s" for t x
  proof -
    have "(t_wait_timeout x, t) \<in> set (timeout_queue s)" using co x(1,2) unfolding core_def timeouts_ok_def by blast
    then show ?thesis using bspec [OF s'(4)] x(3) by fastforce
  qed
  moreover have "g_tick s' = g_tick s" using s'(3) by (simp add: woken_def)
  ultimately show ?thesis using s'(1) unfolding sys_inv_def by blast
qed

section \<open>The first state\<close>

abbreviation boot_task :: "task_state \<Rightarrow> queue option \<Rightarrow> nat \<Rightarrow> task" where
  "boot_task st l priority \<equiv> \<lparr>t_process = 0, t_refcount = 1, t_state = st, t_link = l, t_priority = priority, t_wait_for = None,
     t_has_timeout = False, t_wait_timeout = 0, t_kstack = False\<rparr>"

definition booted :: "u64 \<Rightarrow> sched" where
  "booted tick = \<lparr>tasks = [0 \<mapsto> boot_task TASK_RUNNING None 1, 1 \<mapsto> boot_task TASK_READY (Some (Ready_queue 7)) 7],
     procs = [0 \<mapsto> \<lparr>p_refcount = 3, p_tasks = [0, 1]\<rparr>], tid_next = 2, pid_next = 1, queues = (\<lambda>_. [])(Ready_queue 7 := [1]), timeout_queue = [],
     soonest_timeout = U64_MAX, cur = 0, g_tick = tick, events = \<lambda>_. \<lparr>e_signaled = False, e_auto_reset = True\<rparr>, owners = \<lambda>_. None,
     completed = \<lambda>_. False, g_msg_queue = (ringbuffer_init 4096, replicate 4096 (0, 0)), g_msg_drops = 0, g_msg_drop_event = False\<rparr>"

lemma fun_upd_noop: "f x = y \<Longrightarrow> f(x := y) = f"
  by auto

lemma sched_init_booted: "sched_init stack_ok slab_ok tick = do { (_, s) \<leftarrow> ktask_start stack_ok slab_ok TASK_PRIORITY_KERNEL (booted tick); Some s }"
  by (simp add: sched_init_def booted_def process_init_def completion_init_def task_init_def process_retain_def kassert_def upd_def set_running_def set_ready_def
      list_push_back_def Let_def fun_upd_noop numeral_2_eq_2 numeral_3_eq_3)

lemma sys_booted: "sys_inv False (booted tick)"
proof -
  let ?s = "booted tick"
  have ta: "tasks ?s t = Some x \<longleftrightarrow> t = 0 \<and> x = boot_task TASK_RUNNING None 1 \<or> t = 1 \<and> x = boot_task TASK_READY (Some (Ready_queue 7)) 7" for t x
    by (auto simp: booted_def)
  have q: "queues ?s q = (if q = Ready_queue 7 then [1] else [])" for q by (simp add: booted_def)
  have "t \<in> set (queues ?s r) \<longleftrightarrow> (\<exists>x. tasks ?s t = Some x \<and> t_link x = Some r)" "distinct (queues ?s r)" for t r
    by (auto simp: booted_def)
  then have "lists_ok ?s" unfolding lists_ok_def by blast
  moreover have "timeouts_ok ?s" unfolding timeouts_ok_def ta by (auto simp: booted_def timed_def)
  moreover have "rbuf_inv (g_msg_queue ?s)" by (simp add: booted_def rbuf_inv_def rb_inv_def ringbuffer_init_def)
  ultimately have "core ?s" unfolding core_def ta by (auto simp: task_ok_def booted_def)
  moreover have "idle_ok ?s" unfolding idle_ok_def ta by simp
  moreover have c: "cur ?s = 0" by (simp add: booted_def)
  moreover have "tasks ?s (cur ?s) = Some (boot_task TASK_RUNNING None 1)" unfolding c ta by simp
  ultimately have "sched_inv ?s" by (intro sched_invI [of ?s "boot_task TASK_RUNNING None 1"]) (auto simp: ta)
  moreover have "procs_ok ?s" unfolding procs_ok_def ta by (auto simp: booted_def)
  then have "life_ok ?s" unfolding life_but_def q ta by auto
  moreover have "timer_ok False ?s" unfolding timer_ok_def ta by (auto simp: timed_def)
  ultimately show ?thesis by (simp add: sys_inv_def)
qed

lemma sys_sched_init: "\<exists>s. sched_init stack_ok slab_ok tick = Some s \<and> sys_inv False s"
proof -
  have "procs (booted tick) 0 = Some \<lparr>p_refcount = 3, p_tasks = [0, 1]\<rparr>" "tid_next (booted tick) = 2" by (simp_all add: booted_def)
  then show ?thesis using sys_start [OF sys_booted, of tick _ TASK_PRIORITY_KERNEL stack_ok slab_ok] by (auto simp: sched_init_booted)
qed

section \<open>The system\<close>

datatype op = Isr_timer | Irqmsg_push irqmsg | Irqmsg_pop | Irqmsg_handle | Schedule
  | Event_init nat bool | Event_signal nat | Event_reset nat | Event_wait nat u64
  | Completion_signal wait_list | Completion_wait wait_list u64
  | Mutex_init nat | Mutex_lock nat | Mutex_lock_resume nat | Mutex_unlock nat | Wait_resume
  | Process_create bool | Process_retain pid | Process_release pid | Process_from_id pid | Process_join pid u64
  | Task_create bool bool pid nat | Ktask_start bool bool nat | Task_resume tid | Task_suspend tid | Task_retain tid | Task_release tid
  | Task_from_id tid | Task_terminate tid | Task_exit | Task_join tid u64 | Drain_dead

type_synonym system = "sched \<times> irqmsg option"

definition keep :: "irqmsg option \<Rightarrow> sched option \<Rightarrow> system option" where
  "keep h r = map_option (\<lambda>s. (s, h)) r"

definition keep2 :: "irqmsg option \<Rightarrow> ('a \<times> sched) option \<Rightarrow> system option" where
  "keep2 h r = map_option (\<lambda>p. (snd p, h)) r"

text \<open>The handler of a message; those of the devices do not concern the tasks.\<close>

definition handle :: "irqmsg \<Rightarrow> sched \<Rightarrow> sched option" where
  "handle m s = do {
     kassert (fst m < IRQMSG_COUNT);
     if fst m = IRQMSG_SCHED_TIMEOUT then irqmsg_timeout s else Some s
   }"

fun exec :: "op \<Rightarrow> system \<Rightarrow> system option" where
  "exec Isr_timer (s, h) = keep h (isr_timer s)"
| "exec (Irqmsg_push m) (s, h) = keep2 h (irqmsg_push m s)"
| "exec Irqmsg_pop (s, h) = irqmsg_pop s \<bind> (\<lambda>(r, s). Some (s, r))"
| "exec Irqmsg_handle (s, h) = (case h of None \<Rightarrow> None | Some m \<Rightarrow> keep None (handle m s))"
| "exec Schedule (s, h) = keep h (schedule s)"
| "exec (Event_init e a) (s, h) = Some (event_init e a s, h)"
| "exec (Event_signal e) (s, h) = keep h (event_signal e s)"
| "exec (Event_reset e) (s, h) = Some (event_reset e s, h)"
| "exec (Event_wait e w) (s, h) = keep2 h (event_wait e w s)"
| "exec (Completion_signal c) (s, h) = keep h (completion_signal c s)"
| "exec (Completion_wait c w) (s, h) = keep2 h (completion_wait c w s)"
| "exec (Mutex_init m) (s, h) = Some (mutex_init m s, h)"
| "exec (Mutex_lock m) (s, h) = keep2 h (mutex_lock m s)"
| "exec (Mutex_lock_resume m) (s, h) = keep2 h (mutex_lock_resume m s)"
| "exec (Mutex_unlock m) (s, h) = keep h (mutex_unlock m s)"
| "exec Wait_resume (s, h) = keep2 h (task_wait_resume s)"
| "exec (Process_create a) (s, h) = keep2 h (process_create a s)"
| "exec (Process_retain p) (s, h) = keep h (process_retain p s)"
| "exec (Process_release p) (s, h) = keep h (process_release p s)"
| "exec (Process_from_id p) (s, h) = keep2 h (process_from_id p s)"
| "exec (Process_join p w) (s, h) = keep2 h (process_join p w s)"
| "exec (Task_create a b p i) (s, h) = keep2 h (task_create a b p i s)"
| "exec (Ktask_start a b i) (s, h) = keep2 h (ktask_start a b i s)"
| "exec (Task_resume t) (s, h) = keep h (task_resume t s)"
| "exec (Task_suspend t) (s, h) = keep2 h (task_suspend t s)"
| "exec (Task_retain t) (s, h) = keep h (task_retain t s)"
| "exec (Task_release t) (s, h) = keep h (task_release t s)"
| "exec (Task_from_id t) (s, h) = keep2 h (task_from_id t s)"
| "exec (Task_terminate t) (s, h) = keep h (task_terminate t s)"
| "exec Task_exit (s, h) = keep h (task_exit s)"
| "exec (Task_join t w) (s, h) = keep2 h (task_join t w s)"
| "exec Drain_dead (s, h) = keep2 h (drain_dead s)"

text \<open>
  What a caller has to respect. The idle task never blocks. An object is initialised while nobody waits for it. References
  are counted: one is only given back by its owner, never the one that the list of the dead or a task of the process holds.
\<close>

abbreviation live :: "sched \<Rightarrow> tid \<Rightarrow> (task \<Rightarrow> bool) \<Rightarrow> bool" where
  "live s t Q \<equiv> (case tasks s t of None \<Rightarrow> False | Some x \<Rightarrow> Q x)"

abbreviation known :: "sched \<Rightarrow> pid \<Rightarrow> (process \<Rightarrow> bool) \<Rightarrow> bool" where
  "known s p Q \<equiv> (case procs s p of None \<Rightarrow> False | Some y \<Rightarrow> Q y)"

fun legal :: "op \<Rightarrow> system \<Rightarrow> bool" where
  "legal (Irqmsg_push m) (s, h) = (fst m < IRQMSG_COUNT)"
| "legal Irqmsg_pop (s, h) = (h = None)"
| "legal Irqmsg_handle (s, h) = (case h of None \<Rightarrow> False | Some m \<Rightarrow> fst m < IRQMSG_COUNT)"
| "legal (Event_init e a) (s, h) = (queues s (Wait_queue (Object_list e)) = [])"
| "legal (Event_wait e w) (s, h) = (cur s \<noteq> 1)"
| "legal (Completion_wait c w) (s, h) = (cur s \<noteq> 1 \<and> (case c of Join_list u \<Rightarrow> False | _ \<Rightarrow> True))"
| "legal (Mutex_init m) (s, h) = (queues s (Wait_queue (Object_list m)) = [])"
| "legal (Mutex_lock m) (s, h) = (cur s \<noteq> 1 \<and> owners s m \<noteq> Some (cur s))"
| "legal (Mutex_lock_resume m) (s, h) = (cur s \<noteq> 1 \<and> owners s m \<noteq> Some (cur s))"
| "legal (Mutex_unlock m) (s, h) = (owners s m = Some (cur s))"
| "legal (Process_create a) (s, h) = (pid_next s < PID_END \<and> queues s (Wait_queue (Exit_list (pid_next s))) = [])"
| "legal (Process_retain p) (s, h) = known s p (\<lambda>y. p_refcount y < MAX_REFC)"
| "legal (Process_release p) (s, h) = known s p (\<lambda>y. length (p_tasks y) < p_refcount y)"
| "legal (Process_from_id p) (s, h) = (procs s p = None \<or> known s p (\<lambda>y. p_refcount y < MAX_REFC))"
| "legal (Process_join p w) (s, h) = (cur s \<noteq> 1)"
| "legal (Task_create a b p i) (s, h) = (i < TASK_PRIORITY_COUNT \<and> tid_next s < TID_END \<and> known s p (\<lambda>y. p_refcount y < MAX_REFC))"
| "legal (Ktask_start a b i) (s, h) = (i < TASK_PRIORITY_COUNT \<and> tid_next s < TID_END \<and> known s 0 (\<lambda>y. p_refcount y < MAX_REFC))"
| "legal (Task_resume t) (s, h) = live s t (\<lambda>x. t_state x = TASK_WAITING \<and> t_wait_for x = None \<and> \<not> t_has_timeout x)"
| "legal (Task_suspend t) (s, h) = (t \<noteq> 1 \<and> live s t (\<lambda>x. t = cur s \<or> t_state x = TASK_READY))"
| "legal (Task_retain t) (s, h) = live s t (\<lambda>x. t_refcount x < MAX_REFC)"
| "legal (Task_release t) (s, h) = live s t (\<lambda>x. 0 < t_refcount x \<and> (t_link x = Some Dead_list \<longrightarrow> 1 < t_refcount x))"
| "legal (Task_from_id t) (s, h) = (tasks s t = None \<or> live s t (\<lambda>x. t_refcount x < MAX_REFC))"
| "legal (Task_terminate t) (s, h) = (t \<noteq> 1 \<and> live s t (\<lambda>x. (t_state x = TASK_READY \<or> t_state x = TASK_WAITING) \<and> 0 < t_refcount x))"
| "legal Task_exit (s, h) = (cur s \<noteq> 1 \<and> live s (cur s) (\<lambda>x. t_refcount x < MAX_REFC))"
| "legal (Task_join t w) (s, h) = (cur s \<noteq> 1 \<and> t \<noteq> cur s \<and> tasks s t \<noteq> None)"
| "legal _ _ = True"

abbreviation sys_ok :: "system \<Rightarrow> bool" where
  "sys_ok st \<equiv> sys_inv (snd st = Some timeout_msg) (fst st)"

text \<open>The state of the system after an operation.\<close>

abbreviation proceeds :: "irqmsg option \<Rightarrow> system option \<Rightarrow> bool" where
  "proceeds h r \<equiv> \<exists>s'. r = Some (s', h) \<and> sys_inv (h = Some timeout_msg) s'"

lemma keep_proceeds: "\<exists>s'. r = Some s' \<and> sys_inv (h = Some timeout_msg) s' \<Longrightarrow> proceeds h (keep h r)"
  by (auto simp: keep_def)

lemma keep2_proceeds: "\<exists>b s'. r = Some (b, s') \<and> sys_inv (h = Some timeout_msg) s' \<Longrightarrow> proceeds h (keep2 h r)"
  by (auto simp: keep2_def)

lemma exec_event:
  assumes "sys_inv (h = Some timeout_msg) s" "legal op (s, h)"
    and "op = Isr_timer \<or> (\<exists>m. op = Irqmsg_push m) \<or> op = Schedule \<or> (\<exists>e a. op = Event_init e a) \<or> (\<exists>e. op = Event_signal e) \<or> (\<exists>e. op = Event_reset e) \<or>
      (\<exists>e w. op = Event_wait e w) \<or> (\<exists>c. op = Completion_signal c) \<or> (\<exists>c w. op = Completion_wait c w) \<or> (\<exists>m. op = Mutex_init m) \<or> (\<exists>m. op = Mutex_lock m) \<or>
      (\<exists>m. op = Mutex_lock_resume m) \<or> (\<exists>m. op = Mutex_unlock m) \<or> op = Wait_resume"
  shows "proceeds h (exec op (s, h))"
proof -
  note i = assms(1) and leg = assms(2)
  from assms(3) show ?thesis
  proof (elim disjE exE)
    assume o: "op = Isr_timer"
    then show ?thesis using keep_proceeds [OF sys_isr_timer [OF i]] by simp
  next
    fix m assume "op = Irqmsg_push m"
    then show ?thesis using keep2_proceeds [OF sys_irqmsg_push [OF i, of m]] by simp
  next
    assume "op = Schedule"
    then show ?thesis using keep_proceeds [OF sys_schedule [OF i]] by simp
  next
    fix e a assume "op = Event_init e a"
    then show ?thesis using leg sys_init_list [OF i, of "Object_list e"] by (simp add: event_init_def)
  next
    fix e assume "op = Event_signal e"
    then show ?thesis using keep_proceeds [OF sys_event_signal [OF i, of e]] by simp
  next
    fix e assume "op = Event_reset e"
    then show ?thesis using i by (simp add: event_reset_def)
  next
    fix e w assume "op = Event_wait e w"
    then show ?thesis using leg keep2_proceeds [OF sys_event_wait [OF i, of e w]] by simp
  next
    fix c assume "op = Completion_signal c"
    then show ?thesis using keep_proceeds [OF sys_completion_signal [OF i, of c]] by simp
  next
    fix c w assume o: "op = Completion_wait c w"
    then have "cur s \<noteq> 1" "c \<noteq> Join_list u" for u using leg by auto
    then show ?thesis using o keep2_proceeds [OF sys_completion_wait [OF i, of c w]] by simp
  next
    fix m assume "op = Mutex_init m"
    then show ?thesis using leg sys_init_list [OF i, of "Object_list m"] by (simp add: mutex_init_def)
  next
    fix m assume o: "op = Mutex_lock m"
    then have "\<exists>r s'. mutex_lock m s = Some (r, s') \<and> sys_inv (h = Some timeout_msg) s'" using leg sys_mutex_lock [OF i, of m] by auto
    from keep2_proceeds [OF this] show ?thesis using o by simp
  next
    fix m assume "op = Mutex_lock_resume m"
    then show ?thesis using leg keep2_proceeds [OF sys_mutex_lock_resume [OF i, of m]] by simp
  next
    fix m assume o: "op = Mutex_unlock m"
    then have "\<exists>s'. mutex_unlock m s = Some s' \<and> sys_inv (h = Some timeout_msg) s'" using leg sys_mutex_unlock [OF i, of m] by auto
    from keep_proceeds [OF this] show ?thesis using o by simp
  next
    assume "op = Wait_resume"
    then show ?thesis using keep2_proceeds [OF sys_task_wait_resume [OF i]] by simp
  qed
qed

lemma exec_process:
  assumes "sys_inv (h = Some timeout_msg) s" "legal op (s, h)"
    and "(\<exists>a. op = Process_create a) \<or> (\<exists>p. op = Process_retain p) \<or> (\<exists>p. op = Process_release p) \<or> (\<exists>p. op = Process_from_id p) \<or> (\<exists>p w. op = Process_join p w)"
  shows "proceeds h (exec op (s, h))"
proof -
  note i = assms(1) and leg = assms(2)
  from assms(3) show ?thesis
  proof (elim disjE exE)
    fix a assume "op = Process_create a"
    then show ?thesis using leg keep2_proceeds [OF sys_process_create [OF i, of a]] by simp
  next
    fix p assume "op = Process_retain p"
    then show ?thesis using leg keep_proceeds [OF sys_process_retain [OF i, of p]] by (simp split: option.splits)
  next
    fix p assume "op = Process_release p"
    then show ?thesis using leg keep_proceeds [OF sys_process_release [OF i, of p]] by (simp split: option.splits)
  next
    fix p assume o: "op = Process_from_id p"
    have "\<exists>r s'. process_from_id p s = Some (r, s') \<and> sys_inv (h = Some timeout_msg) s'"
    proof (cases "procs s p")
      case None
      then show ?thesis using i by (simp add: process_from_id_def)
    next
      case (Some y)
      then have "p_refcount y < MAX_REFC" using leg o by simp
      from sys_process_retain [OF i Some this] show ?thesis using Some by (auto simp: process_from_id_def)
    qed
    from keep2_proceeds [OF this] show ?thesis using o by simp
  next
    fix p w assume "op = Process_join p w"
    then show ?thesis using leg keep2_proceeds [OF sys_completion_wait [OF i, of "Exit_list p" w]] by (simp add: process_join_def)
  qed
qed

lemma exec_task:
  assumes "sys_inv (h = Some timeout_msg) s" "legal op (s, h)"
    and "(\<exists>a b p i. op = Task_create a b p i) \<or> (\<exists>a b i. op = Ktask_start a b i) \<or> (\<exists>t. op = Task_resume t) \<or> (\<exists>t. op = Task_suspend t) \<or> (\<exists>t. op = Task_retain t) \<or>
      (\<exists>t. op = Task_release t) \<or> (\<exists>t. op = Task_from_id t) \<or> (\<exists>t. op = Task_terminate t) \<or> op = Task_exit \<or> (\<exists>t w. op = Task_join t w) \<or> op = Drain_dead"
  shows "proceeds h (exec op (s, h))"
proof -
  note i = assms(1) and leg = assms(2)
  from assms(3) show ?thesis
  proof (elim disjE exE)
    fix a b p n assume o: "op = Task_create a b p n"
    then obtain y where y: "procs s p = Some y" "p_refcount y < MAX_REFC" "n < 8" "tid_next s < TID_END" using leg by (auto split: option.splits)
    have "\<exists>r s'. task_create a b p n s = Some (r, s') \<and> sys_inv (h = Some timeout_msg) s'"
      using sys_create(1) [OF i y, of a b] sys_create(2) [OF i y] i by simp
    from keep2_proceeds [OF this] show ?thesis using o by simp
  next
    fix a b n assume "op = Ktask_start a b n"
    then show ?thesis using leg keep2_proceeds [OF sys_start [OF i, of _ n a b]] by (simp split: option.splits)
  next
    fix t assume "op = Task_resume t"
    then show ?thesis using leg keep_proceeds [OF sys_resume [OF i, of t]] by (simp split: option.splits)
  next
    fix t assume "op = Task_suspend t"
    then show ?thesis using leg keep2_proceeds [OF sys_suspend [OF i, of t]] by (simp split: option.splits)
  next
    fix t assume "op = Task_retain t"
    then show ?thesis using leg keep_proceeds [OF sys_retain [OF i, of t]] by (simp split: option.splits)
  next
    fix t assume "op = Task_release t"
    then show ?thesis using leg keep_proceeds [OF sys_release [OF i, of t]] by (simp split: option.splits)
  next
    fix t assume "op = Task_from_id t"
    then show ?thesis using leg keep2_proceeds [OF sys_from_id [OF i, of t]] by (simp split: option.splits)
  next
    fix t assume "op = Task_terminate t"
    then show ?thesis using leg keep_proceeds [OF sys_terminate [OF i, of t]] by (simp split: option.splits)
  next
    assume "op = Task_exit"
    then show ?thesis using leg keep_proceeds [OF sys_exit [OF i]] by (simp split: option.splits)
  next
    fix t w assume o: "op = Task_join t w"
    then obtain x where "tasks s t = Some x" "t \<noteq> cur s" "cur s \<noteq> 1" using leg by auto
    from keep2_proceeds [OF sys_join [OF i this, of w]] show ?thesis using o by simp
  next
    assume o: "op = Drain_dead"
    have "\<exists>b s'. drain_dead s = Some (b, s') \<and> sys_inv (h = Some timeout_msg) s'" using sys_drain [OF i] by blast
    from keep2_proceeds [OF this] show ?thesis using o by simp
  qed
qed

lemma exec_message:
  assumes "sys_inv (h = Some timeout_msg) s" "legal op (s, h)" "op = Irqmsg_pop \<or> op = Irqmsg_handle"
  shows "\<exists>st. exec op (s, h) = Some st \<and> sys_ok st"
  using assms(3)
proof
  assume o: "op = Irqmsg_pop"
  then have "h = None" using assms(2) by simp
  then obtain r s' where "irqmsg_pop s = Some (r, s')" "sys_inv (r = Some timeout_msg) s'" using sys_irqmsg_pop [of s] assms(1) by auto
  then show ?thesis using o by simp
next
  assume o: "op = Irqmsg_handle"
  then obtain m where m: "h = Some m" "fst m < IRQMSG_COUNT" using assms(2) by (auto split: option.splits)
  show ?thesis
  proof (cases "fst m = IRQMSG_SCHED_TIMEOUT")
    case True
    obtain s' where "irqmsg_timeout s = Some s'" "sys_inv False s'" using sys_irqmsg_timeout [OF assms(1)] by blast
    then show ?thesis using o m True by (simp add: handle_def kassert_def keep_def)
  next
    case False
    then have "m \<noteq> timeout_msg" by auto
    then have "sys_inv False s" using assms(1) m(1) by simp
    then show ?thesis using o m False by (simp add: handle_def kassert_def keep_def)
  qed
qed

lemma exec_ok:
  assumes "sys_ok st" "legal op st"
  shows "\<exists>st'. exec op st = Some st' \<and> sys_ok st'"
proof -
  obtain s h where st: "st = (s, h)" by (cases st)
  have a: "sys_inv (h = Some timeout_msg) s" "legal op (s, h)" using assms st by simp_all
  have "proceeds h (exec op (s, h)) \<or> (\<exists>st. exec op (s, h) = Some st \<and> sys_ok st)"
    using exec_event [OF a] exec_process [OF a] exec_task [OF a] exec_message [OF a] by (cases op) simp_all
  then show ?thesis using st by auto
qed

inductive reachable :: "system \<Rightarrow> bool" where
  start: "sched_init stack_ok slab_ok tick = Some s \<Longrightarrow> reachable (s, None)"
| step: "reachable st \<Longrightarrow> legal op st \<Longrightarrow> exec op st = Some st' \<Longrightarrow> reachable st'"

lemma reachable_ok: "reachable st \<Longrightarrow> sys_ok st"
proof (induction rule: reachable.induct)
  case (start stack_ok slab_ok tick s)
  then show ?case using sys_sched_init [of stack_ok slab_ok tick] by simp
next
  case (step st op st')
  then show ?case using exec_ok [of st op] by simp
qed

lemma reachable_sched:
  assumes "reachable (s, h)"
  shows "sched_inv s" "core s" "timer_ok (h = Some timeout_msg) s"
  using reachable_ok [OF assms] sys_inv_core [of "h = Some timeout_msg" s] by (auto simp: sys_inv_def)

section \<open>Choice of the next task\<close>

lemma schedule_switch:
  assumes "semi s"
  obtains s1 s' where "schedule s = Some s'" "semi s1" "switch s1 s'" "sched_inv s'" "soonest_timeout s > g_tick s \<Longrightarrow> s1 = s"
  using schedule_ok [OF assms] by (metis linorder_not_le)

lemma switch_msg: "switch s s' \<Longrightarrow> g_msg_queue s' = g_msg_queue s \<and> soonest_timeout s' = soonest_timeout s"
  by (auto simp: switch_def Let_def split: option.splits if_splits)

lemma schedule_due:
  assumes "semi s" "soonest_timeout s \<le> g_tick s"
  shows "\<exists>s'. schedule s = Some s' \<and> (timeout_msg \<in> set (rb_contents (g_msg_queue s')) \<or> ringbuffer_is_full (fst (g_msg_queue s)) \<and> soonest_timeout s' = soonest_timeout s)"
proof -
  obtain s1 s' b where s': "schedule s = Some s'" "switch s1 s'" "irqmsg_push timeout_msg s = Some (b, s1\<lparr>soonest_timeout := soonest_timeout s\<rparr>)"
      "soonest_timeout s1 = (if b then U64_MAX else soonest_timeout s)"
    using schedule_ok [OF assms(1)] assms(2) by auto
  have "rb_contents (g_msg_queue s1) = (if b then rb_contents (g_msg_queue s) @ [timeout_msg] else rb_contents (g_msg_queue s))"
      "b = (\<not> ringbuffer_is_full (fst (g_msg_queue s)))"
    using irqmsg_push_ok [OF semi_core [OF assms(1)], of timeout_msg] s'(3) by auto
  then show ?thesis using s'(1,4) switch_msg [OF s'(2)] by (intro exI [of _ s']) auto
qed

lemma queues_relocate:
  "queues (relocate t x x' s) q = (let l = (if t_link x = Some q then remove1 t (queues s q) else queues s q) in if t_link x' = Some q then l @ [t] else l)"
  by (auto simp: relocate_def attach_def detach_def Let_def split: option.split)

lemma ready_link:
  assumes "core s" "tasks s t = Some x" "t_state x = TASK_READY"
  shows "t_link x = Some (Ready_queue (t_priority x))"
  using core_task [OF assms(1,2)] assms(3) by (simp add: task_ok_def)

text \<open>A switch to the first task of the most urgent queue, at least as urgent as the current one.\<close>

lemma switch_to:
  assumes "sched_inv s" "switch s s'" "tasks s (cur s) = Some c" "\<forall>i<p. queues s (Ready_queue i) = []" "p \<le> t_priority c" "queues s (Ready_queue p) = n # ts" "p < 8"
  shows "cur s' = n" "queues s' (Ready_queue p) = ts @ (if t_priority c = p then [cur s] else [])" "\<forall>i<p. queues s' (Ready_queue i) = []"
    "soonest_timeout s' = soonest_timeout s" "g_tick s' = g_tick s" "\<exists>x. tasks s' n = Some x \<and> t_priority x = p"
proof -
  have co: "core s" and c: "t_state c = TASK_RUNNING" "t_link c = None" using running_task [OF assms(1)] assms(3) by auto
  have f: "find (\<lambda>i. queues s (Ready_queue i) \<noteq> []) [0..<8] = Some p" unfolding find_Some_iff using assms(4,6,7) by (intro exI [of _ p]) auto
  then have top: "ready_queue_top s = Some n" using assms(6) unfolding ready_queue_top_def by simp
  have "n \<in> set (queues s (Ready_queue p))" using assms(6) by simp
  then obtain x where x: "tasks s n = Some x" "t_state x = TASK_READY" "t_priority x = p" "t_link x = Some (Ready_queue p)" using ready_task [OF co] by metis
  have ne: "n \<noteq> cur s" using x(1,2) assms(3) c(1) by auto
  have s': "s' = (relocate n x (x\<lparr>t_state := TASK_RUNNING, t_link := None\<rparr>)
      (relocate (cur s) c (c\<lparr>t_state := TASK_READY, t_link := Some (Ready_queue (t_priority c))\<rparr>) s))\<lparr>cur := n\<rparr>"
    using assms(2,3,5) top x(1,3) c(1) by (auto simp: switch_def Let_def)
  show "cur s' = n" "soonest_timeout s' = soonest_timeout s" "g_tick s' = g_tick s" "\<exists>x. tasks s' n = Some x \<and> t_priority x = p" using x(3) by (simp_all add: s')
  show "queues s' (Ready_queue p) = ts @ (if t_priority c = p then [cur s] else [])" using assms(6) x(4) c(2) by (simp add: s' queues_relocate Let_def)
  show "\<forall>i<p. queues s' (Ready_queue i) = []" using assms(4,5) x(4) c(2) by (simp add: s' queues_relocate Let_def)
qed

lemma schedule_urgent:
  assumes "sched_inv s" "switch s1 s" "semi s1"
  shows "\<exists>c. tasks s (cur s) = Some c \<and> (\<forall>t x. tasks s t = Some x \<and> t_state x = TASK_READY \<longrightarrow> t_priority c \<le> t_priority x)"
proof -
  have co1: "core s1" by (rule semi_core [OF assms(3)])
  obtain c where c: "tasks s1 (cur s1) = Some c" using assms(2) by (auto simp: switch_def)
  have low: "queues s1 (Ready_queue (t_priority x)) \<noteq> []" "t_priority x < 8" if "tasks s1 t = Some x" "t_state x = TASK_READY" for t x
    using task_ready_queue [OF co1 that] by auto
  show ?thesis
  proof (cases "ready_queue_top s1")
    case None
    then have s: "s = s1" using assms(2) by (auto simp: switch_def)
    have "False" if "tasks s1 t = Some x" "t_state x = TASK_READY" for t x using low [OF that] ready_queue_top_None [OF None] by blast
    then show ?thesis using s c by blast
  next
    case (Some n)
    obtain y where y: "tasks s1 n = Some y" "t_state y = TASK_READY" "\<forall>i < t_priority y. queues s1 (Ready_queue i) = []"
      using ready_queue_top_Some [OF co1 Some] by metis
    have best: "t_priority y \<le> t_priority x" if "tasks s1 t = Some x" "t_state x = TASK_READY" for t x
      using low [OF that] y(3) by (meson linorder_not_less)
    show ?thesis
    proof (cases "t_state c = TASK_RUNNING \<and> t_priority c < t_priority y")
      case True
      then have "s = s1" using assms(2) Some c y(1) by (auto simp: switch_def)
      moreover have "t_priority c \<le> t_priority x" if "tasks s1 t = Some x" "t_state x = TASK_READY" for t x using best [OF that] True by simp
      ultimately show ?thesis using c by blast
    next
      case False
      define s2 where "s2 = (if t_state c = TASK_RUNNING then relocate (cur s1) c (c\<lparr>t_state := TASK_READY, t_link := Some (Ready_queue (t_priority c))\<rparr>) s1 else s1)"
      have s: "s = (relocate n y (y\<lparr>t_state := TASK_RUNNING, t_link := None\<rparr>) s2)\<lparr>cur := n\<rparr>"
        using assms(2) Some c y(1) False by (auto simp: switch_def s2_def Let_def)
      have "t_priority y \<le> t_priority x" if x: "tasks s t = Some x" "t_state x = TASK_READY" for t x
      proof (cases "t = n")
        case True
        then show ?thesis using x by (auto simp: s)
      next
        case tn: False
        then have x2: "tasks s2 t = Some x" using x(1) by (simp add: s)
        show ?thesis
        proof (cases "t = cur s1 \<and> t_state c = TASK_RUNNING")
          case True
          then show ?thesis using x2 False by (auto simp: s2_def)
        next
          case False
          then have "tasks s1 t = Some x" using x2 by (auto simp: s2_def split: if_splits)
          then show ?thesis using best x(2) by blast
        qed
      qed
      moreover have "tasks s (cur s) = Some (y\<lparr>t_state := TASK_RUNNING, t_link := None\<rparr>)" by (simp add: s)
      ultimately show ?thesis by (metis task.select_convs(5) task.surjective task.update_convs(3,4))
    qed
  qed
qed

section \<open>Turns\<close>

text \<open>\<open>n\<close> timer interrupts, while nothing else happens.\<close>

fun ticks :: "nat \<Rightarrow> sched \<Rightarrow> sched option" where
  "ticks 0 s = Some s"
| "ticks (Suc n) s = do { s \<leftarrow> isr_timer s; ticks n s }"

lemma timer_turn:
  assumes "sched_inv s" "tasks s (cur s) = Some c" "p \<le> t_priority c" "\<forall>i<p. queues s (Ready_queue i) = []" "queues s (Ready_queue p) = n # ts"
    "unat (g_tick s) + 1 < unat (soonest_timeout s)"
  obtains s' c' where "isr_timer s = Some s'" "sched_inv s'" "cur s' = n" "queues s' (Ready_queue p) = ts @ (if t_priority c = p then [cur s] else [])"
    "\<forall>i<p. queues s' (Ready_queue i) = []" "soonest_timeout s' = soonest_timeout s" "unat (g_tick s') = unat (g_tick s) + 1"
    "tasks s' (cur s') = Some c'" "t_priority c' = p"
proof -
  let ?s = "s\<lparr>g_tick := g_tick s + 1\<rparr>"
  have tick: "unat (g_tick s + 1) = unat (g_tick s) + 1" using assms(6) unsigned_less [of "soonest_timeout s", where ?'a = nat] by (subst unat_word_ariths) simp
  have "g_tick ?s < soonest_timeout ?s" using assms(6) tick by (simp add: word_less_nat_alt)
  moreover have si: "sched_inv ?s" using assms(1) by simp
  ultimately obtain s' where s': "schedule ?s = Some s'" "switch ?s s'" "sched_inv s'" using schedule_switch [OF sched_inv_semi [OF si]] by metis
  have "n \<in> set (queues s (Ready_queue p))" using assms(5) by simp
  then have p: "p < 8" using ready_task [of s n p] sched_inv_semi [OF assms(1)] semi_core by metis
  note to = switch_to [OF si s'(2), of c p n ts]
  have "tasks ?s (cur ?s) = Some c" "\<forall>i<p. queues ?s (Ready_queue i) = []" "queues ?s (Ready_queue p) = n # ts" using assms(2,4,5) by simp_all
  note t = to [OF this(1,2) assms(3) this(3) p]
  obtain c' where c': "tasks s' (cur s') = Some c'" "t_priority c' = p" using t(6) unfolding t(1) by blast
  have run: "isr_timer s = Some s'" using s'(1) by (simp add: isr_timer_def sched_on_timer_def)
  have q: "queues s' (Ready_queue p) = ts @ (if t_priority c = p then [cur s] else [])" using t(2) by simp
  have tk: "soonest_timeout s' = soonest_timeout s" "unat (g_tick s') = unat (g_tick s) + 1" using t(4,5) tick by simp_all
  show ?thesis by (rule that [OF run s'(3) t(1) q t(3) tk c'])
qed

lemma ticks_turn:
  assumes "sched_inv s" "tasks s (cur s) = Some c" "p \<le> t_priority c" "\<forall>i<p. queues s (Ready_queue i) = []" "k < length (queues s (Ready_queue p))"
    "unat (g_tick s) + k + 1 < unat (soonest_timeout s)"
  shows "\<exists>s'. ticks (k + 1) s = Some s' \<and> cur s' = queues s (Ready_queue p) ! k"
  using assms
proof (induction k arbitrary: s c)
  case 0
  then obtain n ts where q: "queues s (Ready_queue p) = n # ts" by (cases "queues s (Ready_queue p)") auto
  obtain s' where "isr_timer s = Some s'" "cur s' = n" using timer_turn [OF 0(1-4) q] 0(6) by auto
  then show ?case using q by simp
next
  case (Suc k)
  then obtain n ts where q: "queues s (Ready_queue p) = n # ts" by (cases "queues s (Ready_queue p)") auto
  have d: "unat (g_tick s) + 1 < unat (soonest_timeout s)" using Suc.prems(6) by simp
  obtain s1 c1 where s1: "isr_timer s = Some s1" "sched_inv s1" "queues s1 (Ready_queue p) = ts @ (if t_priority c = p then [cur s] else [])"
      "\<forall>i<p. queues s1 (Ready_queue i) = []" "soonest_timeout s1 = soonest_timeout s" "unat (g_tick s1) = unat (g_tick s) + 1"
      "tasks s1 (cur s1) = Some c1" "t_priority c1 = p"
    using timer_turn [OF Suc.prems(1-4) q d] by metis
  have k: "k < length ts" using Suc.prems(5) q by simp
  have "\<exists>s'. ticks (k + 1) s1 = Some s' \<and> cur s' = queues s1 (Ready_queue p) ! k"
    using Suc.IH [OF s1(2,7) _ s1(4)] s1(3,5,6,8) k Suc.prems(6) by simp
  then show ?case using s1(1,3) q k by (simp add: nth_append)
qed

lemma reachable_lists:
  assumes "reachable (s, h)"
  shows "tasks s (cur s) \<noteq> None" "tasks s t = Some x \<Longrightarrow> t_state x = TASK_RUNNING \<longleftrightarrow> t = cur s"
    "t \<in> set (queues s (Ready_queue i)) \<longleftrightarrow> (\<exists>x. tasks s t = Some x \<and> t_state x = TASK_READY \<and> t_priority x = i)"
    "t \<in> set (queues s (Wait_queue l)) \<longleftrightarrow> (\<exists>x. tasks s t = Some x \<and> t_state x = TASK_WAITING \<and> t_wait_for x = Some l)"
    "(w, t) \<in> set (timeout_queue s) \<longleftrightarrow> (\<exists>x. tasks s t = Some x \<and> t_state x = TASK_WAITING \<and> t_has_timeout x \<and> t_wait_timeout x = w)"
    "distinct (queues s q)" "distinct (timeout_queue s)"
proof -
  have si: "sched_inv s" and co: "core s" using reachable_sched [OF assms] by auto
  obtain c where c: "tasks s (cur s) = Some c" "t_state c = TASK_RUNNING" using si by (auto simp: sched_inv_def)
  show "tasks s (cur s) \<noteq> None" using c by simp
  show "tasks s t = Some x \<Longrightarrow> t_state x = TASK_RUNNING \<longleftrightarrow> t = cur s" using si c by (auto simp: sched_inv_def semi_def)
  have iff: "t \<in> set (queues s q) \<longleftrightarrow> (\<exists>x. tasks s t = Some x \<and> t_link x = Some q)" for q by (rule core_queue(1) [OF co])
  have ok: "task_ok x" if "tasks s t = Some x" for x by (rule core_task [OF co that])
  have "t_link x = Some (Ready_queue i) \<longleftrightarrow> t_state x = TASK_READY \<and> t_priority x = i" if "tasks s t = Some x" for x
    using ok [OF that] by (cases "t_state x"; cases "t_wait_for x") (auto simp: task_ok_def)
  then show "t \<in> set (queues s (Ready_queue i)) \<longleftrightarrow> (\<exists>x. tasks s t = Some x \<and> t_state x = TASK_READY \<and> t_priority x = i)" unfolding iff by blast
  have "t_link x = Some (Wait_queue l) \<longleftrightarrow> t_state x = TASK_WAITING \<and> t_wait_for x = Some l" if "tasks s t = Some x" for x
    using ok [OF that] by (cases "t_state x"; cases "t_wait_for x") (auto simp: task_ok_def)
  then show "t \<in> set (queues s (Wait_queue l)) \<longleftrightarrow> (\<exists>x. tasks s t = Some x \<and> t_state x = TASK_WAITING \<and> t_wait_for x = Some l)" unfolding iff by blast
  have to: "timeouts_ok s" using co by (simp add: core_def)
  then show "(w, t) \<in> set (timeout_queue s) \<longleftrightarrow> (\<exists>x. tasks s t = Some x \<and> t_state x = TASK_WAITING \<and> t_has_timeout x \<and> t_wait_timeout x = w)"
    unfolding timeouts_ok_def timed_def by simp
  show "distinct (queues s q)" by (rule core_queue(2) [OF co])
  show "distinct (timeout_queue s)" using to sorted_before_distinct by (simp add: timeouts_ok_def)
qed

section \<open>Runs\<close>

text \<open>A sequence of operations.\<close>

fun runs :: "op list \<Rightarrow> system \<Rightarrow> system option" where
  "runs [] st = Some st"
| "runs (a # as) st = (if legal a st then do { st \<leftarrow> exec a st; runs as st } else None)"

definition from_start :: "op list \<Rightarrow> system option" where
  "from_start as = do { s \<leftarrow> sched_init True True 0; runs as (s, None) }"

lemma runs_reachable: "reachable st \<Longrightarrow> runs as st = Some st' \<Longrightarrow> reachable st'"
proof (induction as arbitrary: st)
  case (Cons a as)
  then obtain st1 where "legal a st" "exec a st = Some st1" "runs as st1 = Some st'" by (auto simp: Option.bind_eq_Some_conv split: if_splits)
  then show ?case using Cons reachable.step by blast
qed simp

lemma from_start_reachable:
  assumes "from_start as = Some st"
  shows "reachable st"
proof -
  obtain s where "sched_init True True 0 = Some s" "runs as (s, None) = Some st" using assms by (auto simp: from_start_def Option.bind_eq_Some_conv)
  then show ?thesis using runs_reachable reachable.start by blast
qed

lemmas eval_run = from_start_def sched_init_booted ktask_start_def task_create_def kassert_def completion_wait_def task_wait_def booted_def
   task_init_def process_retain_def upd_def set_wait_for_def task_resume_def reset_wait_for_def set_ready_def list_push_back_def keep_def keep2_def
   event_wait_def event_try_acquire_def set_wait_timeout_def schedule_def ready_queue_top_def upt_rec ready_queue_pop_def list_remove_def set_running_def
   isr_timer_def sched_on_timer_def Let_def word_le_nat_alt word_less_nat_alt
   irqmsg_push_def ringbuffer_is_full_def ringbuffer_init_def ringbuffer_push_def ringbuffer_push_index_def event_signal_def wait_list_wake_one_def list_pop_front_def timed_def

lemma run_idle:
  "\<exists>s c. from_start [] = Some (s, None) \<and> tasks s (cur s) = Some c \<and> 1 \<le> t_priority c \<and> (\<forall>i < 1. queues s (Ready_queue i) = []) \<and> 0 < length (queues s (Ready_queue 1)) \<and>
     unat (g_tick s) + 0 + 1 < unat (soonest_timeout s)"
  by (simp add: eval_run unat_U64_MAX)

lemma run_due:
  "\<exists>s h x. from_start [Event_wait 1 1, Isr_timer] = Some (s, h) \<and> tasks s 0 = Some x \<and> t_state x = TASK_WAITING \<and> t_has_timeout x \<and> t_wait_timeout x \<le> g_tick s"
  by (simp add: eval_run)

section \<open>Properties\<close>

text \<open>
  C2. In every state that the system reaches, whatever the order of the operations and interrupts, the current task is the only one that runs,
  a task is in the ready queue of its priority exactly while it is ready, in the wait list it waits for exactly while it waits, in the tree of
  timeouts exactly while it waits with a timeout, no list has a task twice and none has one that has been freed.
\<close>

theorem system_well_formed:
  assumes "reachable (s, h)"
  shows "tasks s (cur s) \<noteq> None \<and> (\<forall>t x. tasks s t = Some x \<longrightarrow> (t_state x = TASK_RUNNING \<longleftrightarrow> t = cur s)) \<and>
    (\<forall>t i. t \<in> set (queues s (Ready_queue i)) \<longleftrightarrow> (\<exists>x. tasks s t = Some x \<and> t_state x = TASK_READY \<and> t_priority x = i)) \<and>
    (\<forall>t l. t \<in> set (queues s (Wait_queue l)) \<longleftrightarrow> (\<exists>x. tasks s t = Some x \<and> t_state x = TASK_WAITING \<and> t_wait_for x = Some l)) \<and>
    (\<forall>t w. (w, t) \<in> set (timeout_queue s) \<longleftrightarrow> (\<exists>x. tasks s t = Some x \<and> t_state x = TASK_WAITING \<and> t_has_timeout x \<and> t_wait_timeout x = w)) \<and>
    (\<forall>q. distinct (queues s q)) \<and> distinct (timeout_queue s)"
  by (intro conjI allI impI reachable_lists [OF assms])

theorem system_well_formed_witness:
  "\<exists>s h x. from_start [Event_wait 1 1, Isr_timer] = Some (s, h) \<and> tasks s 0 = Some x \<and> (t_state x = TASK_RUNNING \<longleftrightarrow> 0 = cur s) \<and> distinct (timeout_queue s)"
  using run_due system_well_formed from_start_reachable by metis

text \<open>
  C3. No operation that respects what its caller owes (the reference counts, locks taken once, the idle task never blocking) fails in a
  state that the system reaches: no assertion of the code is violated, no freed task or process is used, no list operation meets a link that is not in its
  list, and waking all the tasks of a list ends.
\<close>

theorem system_progress:
  assumes "reachable st" "legal a st"
  shows "\<exists>st'. exec a st = Some st' \<and> reachable st'"
  using exec_ok [OF reachable_ok [OF assms(1)] assms(2)] reachable.step [OF assms] by blast

theorem system_progress_witness:
  "\<exists>st st'. from_start [] = Some st \<and> exec Isr_timer st = Some st' \<and> reachable st'"
proof -
  obtain s where s: "from_start [] = Some (s, None)" using run_idle by blast
  show ?thesis using system_progress [OF from_start_reachable [OF s], of Isr_timer] s by auto
qed

text \<open>
  C6. The scheduler always leaves a task running that is at least as urgent as every task that is ready.
\<close>

theorem schedule_most_urgent:
  assumes "reachable (s, h)"
  shows "\<exists>s' c. schedule s = Some s' \<and> tasks s' (cur s') = Some c \<and> t_state c = TASK_RUNNING \<and>
    (\<forall>t x. tasks s' t = Some x \<and> t_state x = TASK_READY \<longrightarrow> t_priority c \<le> t_priority x)"
proof -
  obtain s1 s' where s': "schedule s = Some s'" "semi s1" "switch s1 s'" "sched_inv s'"
    using schedule_switch [OF sched_inv_semi [OF reachable_sched(1) [OF assms]]] by metis
  have "\<exists>c. tasks s' (cur s') = Some c \<and> t_state c = TASK_RUNNING" using s'(4) by (simp add: sched_inv_def)
  then show ?thesis using s'(1) schedule_urgent [OF s'(4,3,2)] by auto
qed

theorem schedule_most_urgent_witness:
  "\<exists>s s' c. from_start [] = Some (s, None) \<and> schedule s = Some s' \<and> tasks s' (cur s') = Some c \<and> t_state c = TASK_RUNNING"
proof -
  obtain s where s: "from_start [] = Some (s, None)" using run_idle by blast
  show ?thesis using schedule_most_urgent [OF from_start_reachable [OF s]] s by blast
qed

text \<open>
  C4. No timeout is lost, in any interleaving of timer interrupts, waits, wake-ups and the message loop: for a task whose timeout has passed,
  the message that has the timeouts examined is already being handled or in the queue, or the next call of the scheduler puts it there, unless the queue is
  full (then the following call tries again). Handling the message makes the task ready and lets its wait report the timeout.
\<close>

theorem timeout_not_lost:
  assumes "reachable (s, h)" "tasks s t = Some x" "t_state x = TASK_WAITING" "t_has_timeout x" "t_wait_timeout x \<le> g_tick s"
  shows "(h = Some timeout_msg \<or> timeout_msg \<in> set (rb_contents (g_msg_queue s)) \<or>
      (\<exists>s'. schedule s = Some s' \<and> (timeout_msg \<in> set (rb_contents (g_msg_queue s')) \<or> ringbuffer_is_full (fst (g_msg_queue s)) \<and> soonest_timeout s' = soonest_timeout s))) \<and>
    (\<exists>s' x'. irqmsg_timeout s = Some s' \<and> tasks s' t = Some x' \<and> t_state x' = TASK_READY \<and> t_has_timeout x')"
proof
  have tx: "timed x" using assms(3,4) by (simp add: timed_def)
  show "\<exists>s' x'. irqmsg_timeout s = Some s' \<and> tasks s' t = Some x' \<and> t_state x' = TASK_READY \<and> t_has_timeout x'"
    using sys_irqmsg_timeout [OF reachable_ok [OF assms(1)]] assms(2,5) tx by auto
  show "h = Some timeout_msg \<or> timeout_msg \<in> set (rb_contents (g_msg_queue s)) \<or>
      (\<exists>s'. schedule s = Some s' \<and> (timeout_msg \<in> set (rb_contents (g_msg_queue s')) \<or> ringbuffer_is_full (fst (g_msg_queue s)) \<and> soonest_timeout s' = soonest_timeout s))"
  proof (cases "h = Some timeout_msg \<or> timeout_msg \<in> set (rb_contents (g_msg_queue s))")
    case False
    then have "soonest_timeout s \<le> t_wait_timeout x" using reachable_sched(3) [OF assms(1)] assms(2) tx by (auto simp: timer_ok_def)
    then have due: "soonest_timeout s \<le> g_tick s" using assms(5) by (rule order_trans)
    show ?thesis using schedule_due [OF sched_inv_semi [OF reachable_sched(1) [OF assms(1)]] due] by blast
  qed blast
qed

theorem timeout_not_lost_witness:
  "\<exists>s h s' x'. from_start [Event_wait 1 1, Isr_timer] = Some (s, h) \<and> irqmsg_timeout s = Some s' \<and> tasks s' 0 = Some x' \<and> t_state x' = TASK_READY \<and> t_has_timeout x'"
proof -
  obtain s h x where x: "from_start [Event_wait 1 1, Isr_timer] = Some (s, h)" "tasks s 0 = Some x" "t_state x = TASK_WAITING" "t_has_timeout x" "t_wait_timeout x \<le> g_tick s"
    using run_due by blast
  show ?thesis using timeout_not_lost [OF from_start_reachable [OF x(1)] x(2-5)] x(1) by blast
qed

text \<open>
  C5. Tasks of one priority take turns: when no task is more urgent than those of priority \<open>p\<close> and no timeout is due, the task at
  position \<open>k\<close> of the ready queue of \<open>p\<close> runs after \<open>k + 1\<close> timer interrupts.
\<close>

theorem round_robin:
  assumes "reachable (s, h)" "tasks s (cur s) = Some c" "p \<le> t_priority c" "\<forall>i<p. queues s (Ready_queue i) = []" "k < length (queues s (Ready_queue p))"
    "unat (g_tick s) + k + 1 < unat (soonest_timeout s)"
  shows "\<exists>s'. ticks (k + 1) s = Some s' \<and> cur s' = queues s (Ready_queue p) ! k"
  by (rule ticks_turn [OF reachable_sched(1) [OF assms(1)] assms(2-6)])

theorem round_robin_witness:
  "\<exists>s s'. from_start [] = Some (s, None) \<and> ticks 1 s = Some s' \<and> cur s' = queues s (Ready_queue 1) ! 0"
proof -
  obtain s c where s: "from_start [] = Some (s, None)" "tasks s (cur s) = Some c" "1 \<le> t_priority c" "\<forall>i < 1. queues s (Ready_queue i) = []"
      "0 < length (queues s (Ready_queue 1))" "unat (g_tick s) + 0 + 1 < unat (soonest_timeout s)"
    using run_idle by blast
  show ?thesis using round_robin [OF from_start_reachable [OF s(1)] s(2-6)] s(1) by auto
qed

end
