(* ===== verification/Fs_Fat_Table.thy ===== *)
theory Fs_Fat_Table
  imports Kc_Errno Mm_Kmalloc
begin

unbundle bit_operations_syntax

text \<open>
  \<open>kernel/src/fs/fat/fat_table.c\<close>: the file allocation table of the three FAT variants, read into a
  buffer on first use and written through to every copy on the device. The device is a list of
  bytes; whether the buffer can be allocated and the result of a transfer are part of an
  environment record, because the disk driver is not modelled. Loading a table larger than the
  largest heap request panics in \<^verbatim>\<open>kzalloc\<close>; every operation that loads the table is \<^term>\<open>None\<close> then. Bytes, 16- and 32-bit values are
  words; positions are naturals, with the 32-bit products of the C code reduced modulo \<open>2 ^ 32\<close>.
\<close>

section \<open>Model\<close>

abbreviation DISK_SECTOR_SIZE :: nat where "DISK_SECTOR_SIZE \<equiv> 512"

record fat_layout =
  bits :: nat
  bytes_per_sector :: nat
  reserved_sectors :: nat
  num_fats :: nat
  fat_sectors :: nat
  cluster_count :: nat

record fat_table =
  layout :: fat_layout
  buffer :: "u8 list option"
  disk :: "u8 list"

text \<open>
  The environment of a call: whether \<^verbatim>\<open>kzalloc\<close> succeeds, and the results of \<^verbatim>\<open>fat_read_sectors\<close> and
  of the \<^verbatim>\<open>fat_write_sectors\<close> call for each copy of the table.
\<close>

record fat_env =
  alloc_ok :: bool
  read_result :: kerrno
  write_result :: "nat \<Rightarrow> kerrno"

definition fat_bytes :: "fat_table \<Rightarrow> nat" where
  "fat_bytes ft = fat_sectors (layout ft) * bytes_per_sector (layout ft) mod 2 ^ 32"

definition fat_offset :: "fat_table \<Rightarrow> nat" where
  "fat_offset ft = reserved_sectors (layout ft) * (bytes_per_sector (layout ft) div DISK_SECTOR_SIZE) mod 2 ^ 32"

text \<open>Overwriting part of a byte list.\<close>

definition write_at :: "u8 list \<Rightarrow> nat \<Rightarrow> u8 list \<Rightarrow> u8 list" where
  "write_at xs p ys = take p xs @ ys @ drop (p + length ys) xs"

definition fat_table_init :: "fat_layout \<Rightarrow> u8 list \<Rightarrow> fat_table" where
  "fat_table_init lay dev = \<lparr>layout = lay, buffer = None, disk = dev\<rparr>"

definition fat_table_close :: "fat_table \<Rightarrow> fat_table" where
  "fat_table_close ft = ft\<lparr>buffer := None\<rparr>"

definition fat_table_seek :: kerrno where
  "fat_table_seek = OPAL_ENOTSUPP"

definition fat_table_readall :: "fat_env \<Rightarrow> fat_table \<Rightarrow> (kerrno \<times> fat_table) option" where
  "fat_table_readall e ft =
     (case buffer ft of
        Some _ \<Rightarrow> Some (OPAL_OK, ft)
      | None \<Rightarrow> do {
          let sectors = fat_bytes ft div DISK_SECTOR_SIZE;
          kassert (fat_bytes ft \<le> KMALLOC_MAX_SIZE);
          if fat_bytes ft = 0 \<or> \<not> alloc_ok e then Some (OPAL_ENOMEM, ft)
          else if \<not> kerrno_ok (read_result e) then Some (read_result e, ft)
          else Some (read_result e, ft\<lparr>buffer := Some
                    (take (sectors * DISK_SECTOR_SIZE) (drop (fat_offset ft * DISK_SECTOR_SIZE) (disk ft)) @
                     replicate (fat_bytes ft - sectors * DISK_SECTOR_SIZE) 0)\<rparr>)
        })"

text \<open>A result is an error code or the bytes read; writing returns the number of bytes.\<close>

definition fat_table_read :: "fat_env \<Rightarrow> fat_table \<Rightarrow> nat \<Rightarrow> nat \<Rightarrow> ((kerrno + u8 list) \<times> fat_table) option" where
  "fat_table_read e ft pos n =
     (if pos > fat_bytes ft then Some (Inl OPAL_ERANGE, ft)
      else let n = (if n > fat_bytes ft - pos then fat_bytes ft - pos else n)
      in if n = 0 then Some (Inr [], ft)
      else do {
        (result, ft) \<leftarrow> fat_table_readall e ft;
        if \<not> kerrno_ok result then Some (Inl result, ft)
        else Some (Inr (take n (drop pos (the (buffer ft)))), ft)
      })"

text \<open>The loop over the copies of the table.\<close>

function write_copies :: "fat_env \<Rightarrow> fat_table \<Rightarrow> nat \<Rightarrow> nat \<Rightarrow> nat \<Rightarrow> kerrno \<times> fat_table" where
  "write_copies e ft sector_pos sectors fati =
     (if fati < num_fats (layout ft) then
        let lba = (fat_offset ft + fat_bytes ft div DISK_SECTOR_SIZE * fati) mod 2 ^ 32;
            data = take (sectors * DISK_SECTOR_SIZE) (drop (sector_pos * DISK_SECTOR_SIZE) (the (buffer ft)))
        in if \<not> kerrno_ok (write_result e fati) then (write_result e fati, ft)
           else write_copies e (ft\<lparr>disk := write_at (disk ft) ((lba + sector_pos) mod 2 ^ 32 * DISK_SECTOR_SIZE) data\<rparr>)
                  sector_pos sectors (fati + 1)
      else (OPAL_OK, ft))"
  by pat_completeness auto
termination
  by (relation "measure (\<lambda>(e, ft, sector_pos, sectors, fati). num_fats (layout ft) - fati)") auto

declare write_copies.simps [simp del]

definition fat_table_write :: "fat_env \<Rightarrow> fat_table \<Rightarrow> nat \<Rightarrow> u8 list \<Rightarrow> ((kerrno + nat) \<times> fat_table) option" where
  "fat_table_write e ft pos data =
     (if length data > 2 ^ 63 - 1 then Some (Inl OPAL_EINVAL, ft)
      else if pos > fat_bytes ft then Some (Inl OPAL_ERANGE, ft)
      else let n = (if length data > fat_bytes ft - pos then fat_bytes ft - pos else length data)
      in if n = 0 then Some (Inr 0, ft)
      else do {
        (result, ft) \<leftarrow> fat_table_readall e ft;
        if \<not> kerrno_ok result then Some (Inl result, ft)
        else let ft = ft\<lparr>buffer := Some (write_at (the (buffer ft)) pos (take n data))\<rparr>;
                 sector_pos = pos div DISK_SECTOR_SIZE;
                 front_gap = pos - sector_pos * DISK_SECTOR_SIZE;
                 sectors = (front_gap + n + DISK_SECTOR_SIZE - 1) div DISK_SECTOR_SIZE;
                 (result, ft) = write_copies e ft sector_pos sectors 0
             in Some (if \<not> kerrno_ok result then Inl result else Inr n, ft)
      })"

subsection \<open>FAT12\<close>

definition fat12_decode :: "nat \<Rightarrow> u8 \<Rightarrow> u8 \<Rightarrow> u32" where
  "fat12_decode cluster b0 b1 =
     (let v = (if cluster mod 2 = 0
               then ucast b0 OR push_bit 8 (ucast (b1 AND 0xf))
               else drop_bit 4 (ucast (b0 AND 0xf0)) OR push_bit 4 (ucast b1))
      in if v AND 0xff0 = 0xff0 then v OR 0xfffffff0 else v)"

definition fat12_encode :: "nat \<Rightarrow> u32 \<Rightarrow> u8 \<Rightarrow> u8 \<Rightarrow> u8 list" where
  "fat12_encode cluster value b0 b1 =
     (if cluster mod 2 = 0
      then [ucast value, (b1 AND 0xf0) OR ucast (drop_bit 8 value AND 0xf)]
      else [(b0 AND 0xf) OR ucast (push_bit 4 (value AND 0xf)), ucast (drop_bit 4 value)])"

definition fat12_table_at :: "fat_env \<Rightarrow> fat_table \<Rightarrow> nat \<Rightarrow> ((kerrno + u32) \<times> fat_table) option" where
  "fat12_table_at e ft cluster = do {
     let pos = cluster * 3 mod 2 ^ 32 div 2;
     (r, ft) \<leftarrow> fat_table_read e ft pos 2;
     Some (case r of
         Inl err \<Rightarrow> (Inl err, ft)
       | Inr entry \<Rightarrow> if length entry \<noteq> 2 then (Inl OPAL_ERANGE, ft) else (Inr (fat12_decode cluster (entry ! 0) (entry ! 1)), ft))
   }"

definition fat12_table_set :: "fat_env \<Rightarrow> fat_table \<Rightarrow> nat \<Rightarrow> u32 \<Rightarrow> (kerrno \<times> fat_table) option" where
  "fat12_table_set e ft cluster value = do {
     let pos = cluster * 3 mod 2 ^ 32 div 2;
     (r, ft) \<leftarrow> fat_table_read e ft pos 2;
     case r of
       Inl err \<Rightarrow> Some (err, ft)
     | Inr entry \<Rightarrow>
         if length entry \<noteq> 2 then Some (OPAL_ERANGE, ft)
         else do {
           (w, ft) \<leftarrow> fat_table_write e ft pos (fat12_encode cluster value (entry ! 0) (entry ! 1));
           Some (case w of Inl err \<Rightarrow> (err, ft) | Inr n \<Rightarrow> (if n \<noteq> 2 then OPAL_ERANGE else OPAL_OK, ft))
         }
   }"

text \<open>The search for a free entry, two entries in three bytes at a time; \<^term>\<open>None\<close> is \<open>offset = 2\<close>.\<close>

function fat12_find :: "u8 list \<Rightarrow> nat \<Rightarrow> nat \<Rightarrow> nat option option" where
  "fat12_find buf clusters cluster2 =
     (if cluster2 * 2 < clusters + 2 then do {
        b0 \<leftarrow> rd buf (cluster2 * 3);
        b1 \<leftarrow> rd buf (cluster2 * 3 + 1);
        b2 \<leftarrow> rd buf (cluster2 * 3 + 2);
        let e1 = (ucast b0 OR push_bit 8 (ucast (b1 AND 0xf)) :: u16);
        let e2 = (drop_bit 4 (ucast (b1 AND 0xf0)) OR push_bit 4 (ucast b2) :: u16);
        if e1 = 0 then Some (Some (cluster2 * 2))
        else if e2 = 0 then Some (if cluster2 * 2 + 1 < clusters + 2 then Some (cluster2 * 2 + 1) else None)
        else fat12_find buf clusters (cluster2 + 1)
      } else Some None)"
  by pat_completeness auto
termination
  by (relation "measure (\<lambda>(buf, clusters, cluster2). clusters + 2 - cluster2)") auto

definition fat12_table_alloc :: "fat_env \<Rightarrow> fat_table \<Rightarrow> ((kerrno + nat) \<times> fat_table) option" where
  "fat12_table_alloc e ft = do {
     (result, ft) \<leftarrow> fat_table_readall e ft;
     if \<not> kerrno_ok result then Some (Inl result, ft)
     else do {
       found \<leftarrow> fat12_find (the (buffer ft)) (cluster_count (layout ft)) 1;
       case found of
         None \<Rightarrow> Some (Inl OPAL_ENOSPC, ft)
       | Some cluster \<Rightarrow> do {
           (result, ft) \<leftarrow> fat12_table_set e ft cluster 0xfff;
           Some (if kerrno_ok result then Inr cluster else Inl result, ft)
         }
     }
   }"

subsection \<open>FAT16 and FAT32\<close>

definition le16 :: "u8 list \<Rightarrow> u32" where
  "le16 b = ucast (b ! 0) OR push_bit 8 (ucast (b ! 1))"

definition le32 :: "u8 list \<Rightarrow> u32" where
  "le32 b = ucast (b ! 0) OR push_bit 8 (ucast (b ! 1)) OR push_bit 16 (ucast (b ! 2)) OR push_bit 24 (ucast (b ! 3))"

definition to_le16 :: "u32 \<Rightarrow> u8 list" where
  "to_le16 v = [ucast v, ucast (drop_bit 8 v)]"

definition to_le32 :: "u32 \<Rightarrow> u8 list" where
  "to_le32 v = [ucast v, ucast (drop_bit 8 v), ucast (drop_bit 16 v), ucast (drop_bit 24 v)]"

definition fat16_extend :: "u32 \<Rightarrow> u32" where
  "fat16_extend v = (if v AND 0xfff0 = 0xfff0 then v OR 0xfffffff0 else v)"

definition fat16_table_at :: "fat_env \<Rightarrow> fat_table \<Rightarrow> nat \<Rightarrow> ((kerrno + u32) \<times> fat_table) option" where
  "fat16_table_at e ft cluster = do {
     let pos = cluster * 2 mod 2 ^ 32;
     (r, ft) \<leftarrow> fat_table_read e ft pos 2;
     Some (case r of
         Inl err \<Rightarrow> (Inl err, ft)
       | Inr entry \<Rightarrow> if length entry \<noteq> 2 then (Inl OPAL_ERANGE, ft) else (Inr (fat16_extend (le16 entry)), ft))
   }"

definition fat16_table_set :: "fat_env \<Rightarrow> fat_table \<Rightarrow> nat \<Rightarrow> u32 \<Rightarrow> (kerrno \<times> fat_table) option" where
  "fat16_table_set e ft cluster value = do {
     let pos = cluster * 2 mod 2 ^ 32;
     (w, ft) \<leftarrow> fat_table_write e ft pos (to_le16 value);
     Some (case w of Inl err \<Rightarrow> (err, ft) | Inr n \<Rightarrow> (if n \<noteq> 2 then OPAL_ERANGE else OPAL_OK, ft))
   }"

definition fat32_table_at :: "fat_env \<Rightarrow> fat_table \<Rightarrow> nat \<Rightarrow> ((kerrno + u32) \<times> fat_table) option" where
  "fat32_table_at e ft cluster = do {
     let pos = cluster * 4 mod 2 ^ 32;
     (r, ft) \<leftarrow> fat_table_read e ft pos 4;
     Some (case r of
         Inl err \<Rightarrow> (Inl err, ft)
       | Inr entry \<Rightarrow> if length entry \<noteq> 4 then (Inl OPAL_ERANGE, ft) else (Inr (le32 entry), ft))
   }"

definition fat32_table_set :: "fat_env \<Rightarrow> fat_table \<Rightarrow> nat \<Rightarrow> u32 \<Rightarrow> (kerrno \<times> fat_table) option" where
  "fat32_table_set e ft cluster value = do {
     let pos = cluster * 4 mod 2 ^ 32;
     (w, ft) \<leftarrow> fat_table_write e ft pos (to_le32 value);
     Some (case w of Inl err \<Rightarrow> (err, ft) | Inr n \<Rightarrow> (if n \<noteq> 4 then OPAL_ERANGE else OPAL_OK, ft))
   }"

text \<open>The linear search of \<^verbatim>\<open>fat16_table_alloc\<close> and \<^verbatim>\<open>fat32_table_alloc\<close> over entries of \<open>w\<close> bytes.\<close>

function fat_find :: "nat \<Rightarrow> u8 list \<Rightarrow> nat \<Rightarrow> nat \<Rightarrow> nat option option" where
  "fat_find w buf clusters cluster =
     (if cluster < clusters + 2 then do {
        kassert (cluster * w + w \<le> length buf);
        if take w (drop (cluster * w) buf) = replicate w 0 then Some (Some cluster)
        else fat_find w buf clusters (cluster + 1)
      } else Some None)"
  by pat_completeness auto
termination
  by (relation "measure (\<lambda>(w, buf, clusters, cluster). clusters + 2 - cluster)") auto

definition fat16_table_alloc :: "fat_env \<Rightarrow> fat_table \<Rightarrow> ((kerrno + nat) \<times> fat_table) option" where
  "fat16_table_alloc e ft = do {
     (result, ft) \<leftarrow> fat_table_readall e ft;
     if \<not> kerrno_ok result then Some (Inl result, ft)
     else do {
       found \<leftarrow> fat_find 2 (the (buffer ft)) (cluster_count (layout ft)) 2;
       case found of
         None \<Rightarrow> Some (Inl OPAL_ENOSPC, ft)
       | Some cluster \<Rightarrow> do {
           (result, ft) \<leftarrow> fat16_table_set e ft cluster 0xffff;
           Some (if kerrno_ok result then Inr cluster else Inl result, ft)
         }
     }
   }"

definition fat32_table_alloc :: "fat_env \<Rightarrow> fat_table \<Rightarrow> ((kerrno + nat) \<times> fat_table) option" where
  "fat32_table_alloc e ft = do {
     (result, ft) \<leftarrow> fat_table_readall e ft;
     if \<not> kerrno_ok result then Some (Inl result, ft)
     else do {
       found \<leftarrow> fat_find 4 (the (buffer ft)) (cluster_count (layout ft)) 2;
       case found of
         None \<Rightarrow> Some (Inl OPAL_ENOSPC, ft)
       | Some cluster \<Rightarrow> do {
           (result, ft) \<leftarrow> fat32_table_set e ft cluster 0x0fffffff;
           Some (if kerrno_ok result then Inr cluster else Inl result, ft)
         }
     }
   }"

declare fat12_find.simps [simp del] fat_find.simps [simp del]

subsection \<open>Dispatch\<close>

text \<open>\<^verbatim>\<open>file->ops->table_at\<close> and so on: \<^verbatim>\<open>fat_table_init\<close> selects the operations by the layout.\<close>

definition table_at :: "fat_env \<Rightarrow> fat_table \<Rightarrow> nat \<Rightarrow> ((kerrno + u32) \<times> fat_table) option" where
  "table_at e ft =
     (if bits (layout ft) = 12 then fat12_table_at e ft
      else if bits (layout ft) = 16 then fat16_table_at e ft else fat32_table_at e ft)"

definition table_set :: "fat_env \<Rightarrow> fat_table \<Rightarrow> nat \<Rightarrow> u32 \<Rightarrow> (kerrno \<times> fat_table) option" where
  "table_set e ft =
     (if bits (layout ft) = 12 then fat12_table_set e ft
      else if bits (layout ft) = 16 then fat16_table_set e ft else fat32_table_set e ft)"

definition table_alloc :: "fat_env \<Rightarrow> fat_table \<Rightarrow> ((kerrno + nat) \<times> fat_table) option" where
  "table_alloc e ft =
     (if bits (layout ft) = 12 then fat12_table_alloc e ft
      else if bits (layout ft) = 16 then fat16_table_alloc e ft else fat32_table_alloc e ft)"

text \<open>Each of the calls of \<^verbatim>\<open>fat_table_append\<close> has an environment of its own.\<close>

definition fat_table_append ::
  "fat_env \<Rightarrow> fat_env \<Rightarrow> fat_env \<Rightarrow> fat_env \<Rightarrow> fat_table \<Rightarrow> nat \<Rightarrow> ((kerrno + nat) \<times> fat_table) option" where
  "fat_table_append e_at e_alloc e_set e_undo ft cluster = do {
     (r, ft) \<leftarrow> table_at e_at ft cluster;
     case r of
       Inl err \<Rightarrow> Some (Inl err, ft)
     | Inr entry \<Rightarrow>
         if entry AND 0x0fffffff < 0x0ffffff8 then Some (Inl OPAL_EINVAL, ft)
         else do {
           (a, ft) \<leftarrow> table_alloc e_alloc ft;
           case a of
             Inl err \<Rightarrow> Some (Inl err, ft)
           | Inr new_cluster \<Rightarrow> do {
               (result, ft) \<leftarrow> table_set e_set ft cluster (of_nat new_cluster);
               if \<not> kerrno_ok result then do {
                 (_, ft) \<leftarrow> table_set e_undo ft new_cluster 0;
                 Some (Inl result, ft)
               } else Some (Inr new_cluster, ft)
             }
         }
   }"

section \<open>Encodings\<close>

text \<open>The value an entry has after it was set.\<close>

definition fat12_norm :: "u32 \<Rightarrow> u32" where
  "fat12_norm v = (if v AND 0xff0 = 0xff0 then (v AND 0xfff) OR 0xfffffff0 else v AND 0xfff)"

lemma decode_even:
  fixes b1 :: u8 and v :: u32
  shows "ucast (ucast v :: u8) OR push_bit 8 (ucast (((b1 AND 0xf0) OR ucast (drop_bit 8 v AND 0xf)) AND 0xf)) = v AND 0xfff"
  by (rule word_eqI_upt) (simp add: upt_numeral bit_simps)

lemma decode_odd:
  fixes b0 :: u8 and v :: u32
  shows "drop_bit 4 (ucast (((b0 AND 0xf) OR ucast (push_bit 4 (v AND 0xf))) AND 0xf0)) OR push_bit 4 (ucast (ucast (drop_bit 4 v) :: u8))
    = v AND 0xfff"
  by (rule word_eqI_upt) (simp add: upt_numeral bit_simps)

lemma and_fff_ff0: "((v :: u32) AND 0xfff) AND 0xff0 = v AND 0xff0"
  by (simp add: and.assoc)

lemma fat12_decode_encode:
  "fat12_decode c (fat12_encode c v b0 b1 ! 0) (fat12_encode c v b0 b1 ! 1) = fat12_norm v"
proof (cases "c mod 2 = 0")
  case True
  then show ?thesis
    unfolding fat12_decode_def fat12_encode_def fat12_norm_def Let_def if_P [OF True]
    by (simp only: nth_Cons_0 nth_Cons_Suc One_nat_def decode_even and_fff_ff0)
next
  case False
  then show ?thesis
    unfolding fat12_decode_def fat12_encode_def fat12_norm_def Let_def if_not_P [OF False]
    by (simp only: nth_Cons_0 nth_Cons_Suc One_nat_def decode_odd and_fff_ff0)
qed

text \<open>The nibble an entry shares a byte with is kept.\<close>

lemma encode_keeps_high:
  fixes b1 :: u8 and v :: u32
  shows "((b1 AND 0xf0) OR ucast (drop_bit 8 v AND 0xf)) AND 0xf0 = b1 AND 0xf0"
  by (rule word_eqI_upt) (simp add: upt_numeral bit_simps)

lemma encode_keeps_low:
  fixes b0 :: u8 and v :: u32
  shows "((b0 AND 0xf) OR ucast (push_bit 4 (v AND 0xf))) AND 0xf = b0 AND 0xf"
  by (rule word_eqI_upt) (simp add: upt_numeral bit_simps)

lemma le16_roundtrip: "le16 (to_le16 v) = v AND 0xffff"
  by (rule word_eqI_upt) (simp add: upt_numeral le16_def to_le16_def bit_simps)

lemma le32_roundtrip: "le32 (to_le32 v) = v"
  by (rule word_eqI_upt) (simp add: upt_numeral le32_def to_le32_def bit_simps)

section \<open>The byte lists\<close>

definition region :: "u8 list \<Rightarrow> nat \<Rightarrow> nat \<Rightarrow> u8 list" where
  "region xs a n = take n (drop a xs)"

lemma region_nth: "a + n \<le> length xs \<Longrightarrow> k < n \<Longrightarrow> region xs a n ! k = xs ! (a + k)"
  by (simp add: region_def)

lemma length_region: "a + n \<le> length xs \<Longrightarrow> length (region xs a n) = n"
  by (simp add: region_def)

lemma length_write_at: "p + length ys \<le> length xs \<Longrightarrow> length (write_at xs p ys) = length xs"
  by (simp add: write_at_def)

lemma write_at_nth:
  assumes "p + length ys \<le> length xs" and "k < length xs"
  shows "write_at xs p ys ! k = (if p \<le> k \<and> k < p + length ys then ys ! (k - p) else xs ! k)"
  using assms by (auto simp: write_at_def nth_append min_def)

lemma region_write_outside:
  assumes "p + length ys \<le> length xs" "a + n \<le> length xs" "a + n \<le> p \<or> p + length ys \<le> a"
  shows "region (write_at xs p ys) a n = region xs a n"
  using assms by (intro nth_equalityI) (auto simp: length_region length_write_at region_nth write_at_nth)

text \<open>Writing the sectors around a change brings a copy up to date.\<close>

lemma region_write_sectors:
  assumes old: "region d a n = buf" and "a + n \<le> length d" "length buf = n"
    and new: "new = write_at buf pos data" and "pos + length data \<le> n"
    and sec: "sp \<le> pos" "pos + length data \<le> sp + m" "sp + m \<le> n"
  shows "region (write_at d (a + sp) (region new sp m)) a n = new"
proof -
  have ln: "length new = n" using new assms(3,5) by (simp add: length_write_at)
  have lr: "length (region new sp m) = m" using ln sec by (simp add: length_region)
  have fit: "a + sp + length (region new sp m) \<le> length d" using lr sec assms(2) by simp
  show ?thesis
  proof (rule nth_equalityI)
    show "length (region (write_at d (a + sp) (region new sp m)) a n) = length new"
      using ln fit assms(2) by (simp add: length_region length_write_at)
    fix k assume "k < length (region (write_at d (a + sp) (region new sp m)) a n)"
    then have k: "k < n" using fit assms(2) by (simp add: length_region length_write_at)
    have "d ! (a + k) = buf ! k" using old assms(2) k region_nth [of a n d k] by simp
    moreover have "new ! k = buf ! k" if "\<not> (sp \<le> k \<and> k < sp + m)"
      using that k new assms(3,5) sec by (auto simp: write_at_nth)
    ultimately show "region (write_at d (a + sp) (region new sp m)) a n ! k = new ! k"
      using k fit lr ln sec assms(2) by (auto simp: region_nth length_write_at write_at_nth)
  qed
qed

section \<open>Reading and writing the table\<close>

abbreviation copy_at :: "fat_table \<Rightarrow> nat \<Rightarrow> nat" where
  "copy_at ft i \<equiv> (fat_offset ft + fat_bytes ft div DISK_SECTOR_SIZE * i) * DISK_SECTOR_SIZE"

text \<open>The table as the code sees it: the buffer, or the first copy on the device.\<close>

definition view :: "fat_table \<Rightarrow> u8 list" where
  "view ft = (case buffer ft of Some b \<Rightarrow> b | None \<Rightarrow> region (disk ft) (copy_at ft 0) (fat_bytes ft))"

text \<open>
  A usable table: whole sectors, at least one copy, every copy on the device and below the largest sector number, and a
  buffer of its size or, before the first use, a size the heap can serve.
\<close>

definition fat_ok :: "fat_table \<Rightarrow> bool" where
  "fat_ok ft \<longleftrightarrow> DISK_SECTOR_SIZE dvd fat_bytes ft \<and> 0 < fat_bytes ft \<and> 0 < num_fats (layout ft) \<and>
     (\<forall>i < num_fats (layout ft). copy_at ft i + fat_bytes ft \<le> length (disk ft) \<and> copy_at ft i + fat_bytes ft \<le> 2 ^ 32 * DISK_SECTOR_SIZE) \<and>
     (case buffer ft of None \<Rightarrow> fat_bytes ft \<le> KMALLOC_MAX_SIZE | Some b \<Rightarrow> length b = fat_bytes ft)"

text \<open>All copies on the device agree with the table.\<close>

definition mirrored :: "fat_table \<Rightarrow> bool" where
  "mirrored ft \<longleftrightarrow> (\<forall>i < num_fats (layout ft). region (disk ft) (copy_at ft i) (fat_bytes ft) = view ft)"

definition env_ok :: "fat_env \<Rightarrow> bool" where
  "env_ok e \<longleftrightarrow> alloc_ok e \<and> read_result e = OPAL_OK \<and> (\<forall>i. write_result e i = OPAL_OK)"

lemma layout_eq [simp]:
  "fat_bytes (ft\<lparr>buffer := b\<rparr>) = fat_bytes ft" "fat_offset (ft\<lparr>buffer := b\<rparr>) = fat_offset ft"
  "fat_bytes (ft\<lparr>disk := d\<rparr>) = fat_bytes ft" "fat_offset (ft\<lparr>disk := d\<rparr>) = fat_offset ft"
  by (simp_all add: fat_bytes_def fat_offset_def)

lemma copy_at_eq: "fat_ok ft \<Longrightarrow> copy_at ft i = fat_offset ft * 512 + fat_bytes ft * i"
  by (auto simp: fat_ok_def algebra_simps elim!: dvdE)

lemma length_view: "fat_ok ft \<Longrightarrow> length (view ft) = fat_bytes ft"
  by (auto simp: fat_ok_def view_def length_region split: option.splits)

lemma readall_ok:
  assumes "fat_ok ft" and "env_ok e"
  shows "fat_table_readall e ft = Some (OPAL_OK, ft\<lparr>buffer := Some (view ft)\<rparr>)"
proof (cases "buffer ft")
  case None
  have "fat_bytes ft div DISK_SECTOR_SIZE * DISK_SECTOR_SIZE = fat_bytes ft" "0 < fat_bytes ft" "fat_bytes ft \<le> KMALLOC_MAX_SIZE"
    using assms(1) None by (simp_all add: fat_ok_def)
  with None assms(2) show ?thesis
    by (simp add: fat_table_readall_def env_ok_def view_def region_def Let_def)
qed (simp add: fat_table_readall_def view_def)

lemma buffered_ok:
  assumes "fat_ok ft"
  shows "fat_ok (ft\<lparr>buffer := Some (view ft)\<rparr>)" "view (ft\<lparr>buffer := Some b\<rparr>) = b"
    "mirrored ft \<Longrightarrow> mirrored (ft\<lparr>buffer := Some (view ft)\<rparr>)"
  using assms length_view [OF assms] by (auto simp: fat_ok_def mirrored_def view_def fat_bytes_def fat_offset_def)

lemma table_read_ok:
  assumes "fat_ok ft" "env_ok e" and "0 < n" "pos + n \<le> fat_bytes ft"
  shows "fat_table_read e ft pos n = Some (Inr (region (view ft) pos n), ft\<lparr>buffer := Some (view ft)\<rparr>)"
proof -
  have "\<not> n > fat_bytes ft - pos" "\<not> pos > fat_bytes ft" using assms(4) by auto
  with assms(3) show ?thesis
    unfolding fat_table_read_def Let_def readall_ok [OF assms(1,2)] by (simp add: region_def)
qed

lemma write_copies_ok:
  assumes "env_ok e" and "fat_ok ft" and "buffer ft = Some new" and "new = write_at old pos data" "length old = fat_bytes ft"
    and "pos + length data \<le> fat_bytes ft" and sec: "sp * 512 \<le> pos" "pos + length data \<le> sp * 512 + m * 512" "sp * 512 + m * 512 \<le> fat_bytes ft"
    and "\<forall>i < num_fats (layout ft). region (disk ft) (copy_at ft i) (fat_bytes ft) = (if i < fati then new else old)"
    and "fati \<le> num_fats (layout ft)" and "0 < m"
  shows "\<exists>d. write_copies e ft sp m fati = (OPAL_OK, ft\<lparr>disk := d\<rparr>) \<and> fat_ok (ft\<lparr>disk := d\<rparr>) \<and>
    (\<forall>i < num_fats (layout ft). region d (copy_at ft i) (fat_bytes ft) = new)"
  using assms
proof (induction "num_fats (layout ft) - fati" arbitrary: ft fati)
  case 0
  then show ?case by (subst write_copies.simps) (auto intro!: exI [of _ "disk ft"])
next
  case (Suc k)
  then have lt: "fati < num_fats (layout ft)" by simp
  let ?n = "fat_bytes ft" and ?a = "copy_at ft fati"
  let ?data = "region new (sp * 512) (m * 512)"
  let ?d = "write_at (disk ft) (?a + sp * 512) ?data"
  let ?ft = "ft\<lparr>disk := ?d\<rparr>"
  have fits: "copy_at ft i + ?n \<le> length (disk ft)" if "i < num_fats (layout ft)" for i
    using Suc.prems(2) that by (auto simp: fat_ok_def)
  have ln: "length new = ?n" using Suc.prems(2,3) by (auto simp: fat_ok_def)
  have ld: "length ?data = m * 512" using ln sec(3) Suc.prems(9) by (simp add: length_region)
  have fit: "?a + sp * 512 + length ?data \<le> length (disk ft)" using fits [OF lt] ld Suc.prems(9) by simp
  have same: "fat_bytes ?ft = ?n" "fat_offset ?ft = fat_offset ft" by simp_all
  have okf: "fat_ok ?ft"
    using Suc.prems(2) length_write_at [OF fit] unfolding fat_ok_def same by simp
  have regs: "\<forall>i < num_fats (layout ft). region ?d (copy_at ft i) ?n = (if i < Suc fati then new else old)"
  proof (intro allI impI)
    fix i assume i: "i < num_fats (layout ft)"
    show "region ?d (copy_at ft i) ?n = (if i < Suc fati then new else old)"
    proof (cases "i = fati")
      case True
      have "region (disk ft) ?a ?n = old" using Suc.prems(10) lt by simp
      from region_write_sectors [OF this fits [OF lt] Suc.prems(5,4,6,7,8,9)] True show ?thesis by simp
    next
      case False
      have "copy_at ft i + ?n \<le> ?a \<or> ?a + ?n \<le> copy_at ft i"
      proof (cases "i < fati")
        case True
        then have "?n * Suc i \<le> ?n * fati" by (intro mult_le_mono2) simp
        then show ?thesis unfolding copy_at_eq [OF Suc.prems(2)] by simp
      next
        case F: False
        then have "?n * Suc fati \<le> ?n * i" using False by (intro mult_le_mono2) simp
        then show ?thesis unfolding copy_at_eq [OF Suc.prems(2)] by simp
      qed
      then have "region ?d (copy_at ft i) ?n = region (disk ft) (copy_at ft i) ?n"
        using fit fits [OF i] ld Suc.prems(9) by (intro region_write_outside) auto
      with Suc.prems(10) i False show ?thesis by simp
    qed
  qed
  have "\<exists>d. write_copies e ?ft sp m (Suc fati) = (OPAL_OK, ?ft\<lparr>disk := d\<rparr>) \<and> fat_ok (?ft\<lparr>disk := d\<rparr>) \<and>
      (\<forall>i < num_fats (layout ?ft). region d (copy_at ?ft i) (fat_bytes ?ft) = new)"
    using Suc.hyps(2) Suc.prems lt okf regs by (intro Suc.hyps(1)) simp_all
  moreover have "fat_offset ft + fat_bytes ft div 512 * fati + sp < 2 ^ 32"
  proof -
    have "?a + ?n \<le> 2 ^ 32 * 512" using Suc.prems(2) lt by (simp add: fat_ok_def)
    then have "(fat_offset ft + fat_bytes ft div 512 * fati + sp) * 512 < 2 ^ 32 * 512" using Suc.prems(9,12) by (simp add: algebra_simps)
    then show ?thesis by (simp only: mult_less_cancel2)
  qed
  then have "((fat_offset ft + fat_bytes ft div 512 * fati) mod 2 ^ 32 + sp) mod 2 ^ 32 * 512 = ?a + sp * 512"
    by (simp add: algebra_simps)
  then have "write_copies e ft sp m fati = write_copies e ?ft sp m (Suc fati)"
    using lt Suc.prems(1,3) by (subst write_copies.simps) (simp add: env_ok_def region_def Let_def algebra_simps)
  ultimately show ?case by simp
qed

lemma ceil512: "x \<le> (x + 512 - 1) div 512 * 512 \<and> (x + 512 - 1) div 512 * 512 < x + (512 :: nat)"
proof -
  have "(x + 512 - 1) div 512 * 512 + (x + 512 - 1) mod 512 = x + 512 - 1" by (rule div_mult_mod_eq)
  moreover have "(x + 512 - 1) mod 512 < 512" by simp
  ultimately show ?thesis by linarith
qed

lemma table_write_ok:
  assumes ok: "fat_ok ft" "env_ok e" "mirrored ft" and data: "data \<noteq> []" "length data < 2 ^ 63" and fit: "pos + length data \<le> fat_bytes ft"
  shows "\<exists>ft'. fat_table_write e ft pos data = Some (Inr (length data), ft') \<and> fat_ok ft' \<and> mirrored ft' \<and> layout ft' = layout ft \<and>
    view ft' = write_at (view ft) pos data"
proof -
  let ?n = "fat_bytes ft" and ?new = "write_at (view ft) pos data"
  let ?sp = "pos div 512" and ?ft = "ft\<lparr>buffer := Some (write_at (view ft) pos data)\<rparr>"
  define m where "m = (pos - ?sp * 512 + length data + 512 - 1) div 512"
  have ln: "length ?new = ?n" using fit length_view [OF ok(1)] by (simp add: length_write_at)
  have s1: "?sp * 512 \<le> pos" by simp
  have gap: "pos - ?sp * 512 + length data \<le> m * 512" "m * 512 < pos - ?sp * 512 + length data + 512"
    using ceil512 [of "pos - ?sp * 512 + length data"] unfolding m_def by simp_all
  then have s2: "pos + length data \<le> ?sp * 512 + m * 512" using s1 by linarith
  have m0: "0 < m"
  proof (rule ccontr)
    assume "\<not> 0 < m"
    then have "length data = 0" using gap(1) by linarith
    then show False using data(1) by simp
  qed
  obtain q where q: "?n = 512 * q" using ok(1) by (auto simp: fat_ok_def)
  have "?sp * 512 + m * 512 < ?n + 512" using gap(2) s1 fit by linarith
  then have "(?sp + m) * 512 < (q + 1) * 512" using q by (simp add: add_mult_distrib)
  then have "?sp + m \<le> q" by (metis Suc_eq_plus1 less_Suc_eq_le mult_less_cancel2)
  then have "(?sp + m) * 512 \<le> q * 512" by (rule mult_le_mono1)
  then have s3: "?sp * 512 + m * 512 \<le> ?n" using q by (simp add: add_mult_distrib)
  have okf: "fat_ok ?ft" using ok(1) ln by (auto simp: fat_ok_def fat_bytes_def fat_offset_def)
  have "\<exists>d. write_copies e ?ft ?sp m 0 = (OPAL_OK, ?ft\<lparr>disk := d\<rparr>) \<and> fat_ok (?ft\<lparr>disk := d\<rparr>) \<and>
    (\<forall>i < num_fats (layout ?ft). region d (copy_at ?ft i) (fat_bytes ?ft) = ?new)"
    by (rule write_copies_ok [OF ok(2) okf, of ?new "view ft" pos data])
      (use ok(3) fit s1 s2 s3 m0 length_view [OF ok(1)] in \<open>auto simp: mirrored_def\<close>)
  then obtain d where d: "write_copies e ?ft ?sp m 0 = (OPAL_OK, ?ft\<lparr>disk := d\<rparr>)" "fat_ok (?ft\<lparr>disk := d\<rparr>)"
    "\<forall>i < num_fats (layout ?ft). region d (copy_at ?ft i) (fat_bytes ?ft) = ?new" by blast
  have "fat_table_write e ft pos data = Some (Inr (length data), ?ft\<lparr>disk := d\<rparr>)"
  proof -
    have "\<not> length data > fat_bytes ft - pos" "\<not> pos > fat_bytes ft" "\<not> length data > 2 ^ 63 - 1" "length data \<noteq> 0"
      using fit data by auto
    then show ?thesis
      unfolding fat_table_write_def Let_def readall_ok [OF ok(1,2)]
      using d(1) [unfolded m_def] by simp
  qed
  moreover have "mirrored (?ft\<lparr>disk := d\<rparr>)" using d(3) by (simp add: mirrored_def view_def)
  ultimately show ?thesis using d(2) by (auto simp: view_def)
qed

section \<open>Entries\<close>

text \<open>The position and the width of an entry in bytes, its value, and what setting it stores.\<close>

definition entry_pos :: "nat \<Rightarrow> nat \<Rightarrow> nat" where
  "entry_pos bts c = (if bts = 12 then c * 3 div 2 else if bts = 16 then c * 2 else c * 4)"

definition entry_width :: "nat \<Rightarrow> nat" where
  "entry_width bts = (if bts = 12 \<or> bts = 16 then 2 else 4)"

definition in_table :: "fat_table \<Rightarrow> nat \<Rightarrow> bool" where
  "in_table ft c \<longleftrightarrow> c < 2 ^ 30 \<and>
     entry_pos (bits (layout ft)) c + entry_width (bits (layout ft)) \<le> fat_bytes ft"

definition entry :: "nat \<Rightarrow> u8 list \<Rightarrow> nat \<Rightarrow> u32" where
  "entry bts buf c =
     (let r = region buf (entry_pos bts c) (entry_width bts)
      in if bts = 12 then fat12_decode c (r ! 0) (r ! 1) else if bts = 16 then fat16_extend (le16 r) else le32 r)"

definition norm :: "nat \<Rightarrow> u32 \<Rightarrow> u32" where
  "norm bts v = (if bts = 12 then fat12_norm v else if bts = 16 then fat16_extend (v AND 0xffff) else v)"

definition entry_bytes :: "nat \<Rightarrow> u8 list \<Rightarrow> nat \<Rightarrow> u32 \<Rightarrow> u8 list" where
  "entry_bytes bts buf c v =
     (let r = region buf (entry_pos bts c) (entry_width bts)
      in if bts = 12 then fat12_encode c v (r ! 0) (r ! 1) else if bts = 16 then to_le16 v else to_le32 v)"

lemma length_entry_bytes: "length (entry_bytes bts buf c v) = entry_width bts"
  by (simp add: entry_bytes_def entry_width_def fat12_encode_def to_le16_def to_le32_def Let_def)

lemma entry_pos_mod:
  assumes "in_table ft c"
  shows "c * 3 mod 2 ^ 32 div 2 = c * 3 div 2" "bits (layout ft) \<noteq> 12 \<Longrightarrow> c * 2 mod 2 ^ 32 = c * 2"
    "bits (layout ft) \<noteq> 12 \<Longrightarrow> bits (layout ft) \<noteq> 16 \<Longrightarrow> c * 4 mod 2 ^ 32 = c * 4"
  using assms by (auto simp: in_table_def)

lemma table_at_ok:
  assumes "fat_ok ft" "env_ok e" and "in_table ft c"
  shows "table_at e ft c = Some (Inr (entry (bits (layout ft)) (view ft) c), ft\<lparr>buffer := Some (view ft)\<rparr>)"
proof -
  let ?b = "bits (layout ft)"
  have "0 < entry_width ?b" by (simp add: entry_width_def)
  moreover have fit: "entry_pos ?b c + entry_width ?b \<le> fat_bytes ft" using assms(3) by (simp add: in_table_def)
  ultimately have "fat_table_read e ft (entry_pos ?b c) (entry_width ?b) =
      Some (Inr (region (view ft) (entry_pos ?b c) (entry_width ?b)), ft\<lparr>buffer := Some (view ft)\<rparr>)"
    by (intro table_read_ok [OF assms(1,2)])
  moreover have "length (region (view ft) (entry_pos ?b c) (entry_width ?b)) = entry_width ?b"
    using fit length_view [OF assms(1)] by (simp add: length_region)
  ultimately show ?thesis
    using entry_pos_mod [OF assms(3)]
    by (simp add: table_at_def fat12_table_at_def fat16_table_at_def fat32_table_at_def entry_def entry_pos_def entry_width_def
        Let_def split: if_splits)
qed

lemma table_set_ok:
  assumes ok: "fat_ok ft" "env_ok e" "mirrored ft" and it: "in_table ft c"
  shows "\<exists>ft'. table_set e ft c v = Some (OPAL_OK, ft') \<and> fat_ok ft' \<and> mirrored ft' \<and> layout ft' = layout ft \<and>
    view ft' = write_at (view ft) (entry_pos (bits (layout ft)) c) (entry_bytes (bits (layout ft)) (view ft) c v)"
proof -
  let ?b = "bits (layout ft)" and ?bf = "ft\<lparr>buffer := Some (view ft)\<rparr>"
  let ?ft0 = "if ?b = 12 then ?bf else ft" and ?data = "entry_bytes ?b (view ft) c v"
  have fit: "entry_pos ?b c + entry_width ?b \<le> fat_bytes ft" using it by (simp add: in_table_def)
  have v0: "view ?ft0 = view ft" "fat_bytes ?ft0 = fat_bytes ft" using buffered_ok(2) [OF ok(1)] by auto
  have "fat_ok ?ft0" "mirrored ?ft0" using ok buffered_ok by auto
  moreover have "?data \<noteq> []" "length ?data < 2 ^ 63" using length_entry_bytes [of ?b "view ft" c v]
    by (auto simp: entry_width_def split: if_splits)
  ultimately have "\<exists>ft'. fat_table_write e ?ft0 (entry_pos ?b c) ?data = Some (Inr (length ?data), ft') \<and> fat_ok ft' \<and> mirrored ft' \<and>
      layout ft' = layout ?ft0 \<and> view ft' = write_at (view ?ft0) (entry_pos ?b c) ?data"
    using ok(2) fit v0(2) by (intro table_write_ok) (simp_all add: length_entry_bytes)
  then obtain ft' where w: "fat_table_write e ?ft0 (entry_pos ?b c) ?data = Some (Inr (length ?data), ft')" "fat_ok ft'" "mirrored ft'"
    "layout ft' = layout ft" "view ft' = write_at (view ft) (entry_pos ?b c) ?data" using v0 by auto
  have "table_set e ft c v = Some (OPAL_OK, ft')"
  proof (cases "?b = 12")
    case True
    have rd: "fat_table_read e ft (c * 3 div 2) 2 = Some (Inr (region (view ft) (c * 3 div 2) 2), ?bf)"
      using fit True by (intro table_read_ok [OF ok(1,2)]) (simp_all add: entry_pos_def entry_width_def)
    have "length (region (view ft) (c * 3 div 2) 2) = 2"
      using fit True length_view [OF ok(1)] by (simp add: length_region entry_pos_def entry_width_def)
    with rd w(1) True entry_pos_mod(1) [OF it] show ?thesis
      by (simp add: table_set_def fat12_table_set_def Let_def entry_bytes_def entry_pos_def entry_width_def fat12_encode_def)
  next
    case False
    with w(1) entry_pos_mod(2,3) [OF it] show ?thesis
      by (simp add: table_set_def fat16_table_set_def fat32_table_set_def Let_def entry_bytes_def entry_pos_def entry_width_def
          to_le16_def to_le32_def split: if_splits)
  qed
  with w show ?thesis by blast
qed

lemma entry_set_same:
  assumes "entry_pos bts c + entry_width bts \<le> length buf"
  shows "entry bts (write_at buf (entry_pos bts c) (entry_bytes bts buf c v)) c = norm bts v"
proof -
  let ?p = "entry_pos bts c" and ?d = "entry_bytes bts buf c v"
  have reg: "region (write_at buf ?p ?d) ?p (entry_width bts) = ?d"
    using assms length_entry_bytes [of bts buf c v]
    by (intro nth_equalityI) (auto simp: length_region length_write_at region_nth write_at_nth)
  show ?thesis
    unfolding entry_def Let_def reg norm_def
    by (simp add: entry_bytes_def Let_def fat12_decode_encode [unfolded One_nat_def] le16_roundtrip le32_roundtrip)
qed

text \<open>The bytes of different entries are disjoint, except for a shared byte of two FAT12 entries.\<close>

lemma entry_other_bytes:
  assumes fit: "entry_pos bts c + entry_width bts \<le> length buf" "entry_pos bts c' + entry_width bts \<le> length buf"
    and dis: "entry_pos bts c' + entry_width bts \<le> entry_pos bts c \<or> entry_pos bts c + entry_width bts \<le> entry_pos bts c'"
  shows "entry bts (write_at buf (entry_pos bts c) (entry_bytes bts buf c v)) c' = entry bts buf c'"
  using region_write_outside [of "entry_pos bts c" "entry_bytes bts buf c v" buf "entry_pos bts c'" "entry_width bts"]
    fit dis by (simp add: entry_def Let_def length_entry_bytes)

lemma entry12_shared:
  assumes "entry_pos 12 c + 2 \<le> length buf" "entry_pos 12 c' + 2 \<le> length buf"
    and sh: "(c mod 2 = 0 \<and> c' = c + 1) \<or> (c mod 2 = 1 \<and> c = c' + 1)"
  shows "entry 12 (write_at buf (entry_pos 12 c) (entry_bytes 12 buf c v)) c' = entry 12 buf c'"
proof -
  let ?p = "c * 3 div 2" and ?q = "c' * 3 div 2"
  let ?r = "region buf ?p 2"
  let ?d = "fat12_encode c v (?r ! 0) (?r ! 1)"
  have ld: "length ?d = 2" by (simp add: fat12_encode_def)
  have w: "?p + length ?d \<le> length buf" "?q + 2 \<le> length buf" using assms(1,2) ld by (simp_all add: entry_pos_def)
  have r: "?r ! 0 = buf ! ?p" "?r ! 1 = buf ! (?p + 1)" using w(1) ld by (simp_all add: region_nth)
  let ?new = "write_at buf ?p ?d"
  have n: "region ?new ?q 2 ! 0 = ?new ! ?q" "region ?new ?q 2 ! 1 = ?new ! (?q + 1)"
    "region buf ?q 2 ! 0 = buf ! ?q" "region buf ?q 2 ! 1 = buf ! (?q + 1)"
    using w by (simp_all add: region_nth length_write_at)
  have lt: "?q < length buf" "?q + 1 < length buf" using w(2) by simp_all
  from sh show ?thesis
  proof (elim disjE conjE)
    assume c: "c mod 2 = 0" "c' = c + 1"
    then have q: "?q = ?p + 1" "c' mod 2 \<noteq> 0" by presburger+
    have "?new ! ?q = (buf ! ?q AND 0xf0) OR ucast (drop_bit 8 v AND 0xf)" "?new ! (?q + 1) = buf ! (?q + 1)"
      using write_at_nth [OF w(1) lt(1)] write_at_nth [OF w(1) lt(2)] ld q(1) c(1) r
      by (simp_all add: fat12_encode_def)
    with n q(2) show ?thesis
      by (simp add: entry_def entry_bytes_def entry_pos_def entry_width_def Let_def fat12_decode_def encode_keeps_high del: push_bit_and)
  next
    assume c: "c mod 2 = 1" "c = c' + 1"
    then have q: "?p = ?q + 1" "c' mod 2 = 0" by presburger+
    have "?new ! ?q = buf ! ?q" "?new ! (?q + 1) = (buf ! (?q + 1) AND 0xf) OR ucast (push_bit 4 (v AND 0xf))"
      using write_at_nth [OF w(1) lt(1)] write_at_nth [OF w(1) lt(2)] ld q(1) c(1) r
      by (simp_all add: fat12_encode_def)
    with n q(2) show ?thesis
      by (simp add: entry_def entry_bytes_def entry_pos_def entry_width_def Let_def fat12_decode_def encode_keeps_low del: push_bit_and)
  qed
qed

lemma pos12_apart:
  fixes c c' :: nat
  assumes "c < c'" "\<not> (c mod 2 = 0 \<and> c' = c + 1)"
  shows "c * 3 div 2 + 2 \<le> c' * 3 div 2"
proof (cases "c' = c + 1")
  case True
  with assms(2) have "c mod 2 = 1" by presburger
  then obtain k where "c = 2 * k + 1" by (metis mult_div_mod_eq)
  with True show ?thesis by simp
next
  case False
  with assms(1) have "c * 3 + 2 * 2 \<le> c' * 3" by linarith
  then have "(c * 3 + 2 * 2) div 2 \<le> c' * 3 div 2" by (rule div_le_mono)
  then show ?thesis by simp
qed

lemma entry_set_other:
  assumes "entry_pos bts c + entry_width bts \<le> length buf" "entry_pos bts c' + entry_width bts \<le> length buf" and "c' \<noteq> c"
  shows "entry bts (write_at buf (entry_pos bts c) (entry_bytes bts buf c v)) c' = entry bts buf c'"
proof (cases "bts = 12 \<and> ((c mod 2 = 0 \<and> c' = c + 1) \<or> (c mod 2 = 1 \<and> c = c' + 1))")
  case True
  with assms entry12_shared [of c buf c' v] show ?thesis by (auto simp: entry_width_def)
next
  case False
  have "entry_pos bts c' + entry_width bts \<le> entry_pos bts c \<or> entry_pos bts c + entry_width bts \<le> entry_pos bts c'"
  proof (cases "bts = 12")
    case True
    with False have "\<not> (c mod 2 = 0 \<and> c' = c + 1)" "\<not> (c' mod 2 = 0 \<and> c = c' + 1)" by (auto simp: mod_Suc)
    with assms(3) have "c' * 3 div 2 + 2 \<le> c * 3 div 2 \<or> c * 3 div 2 + 2 \<le> c' * 3 div 2"
      using pos12_apart [of c c'] pos12_apart [of c' c] by (meson linorder_neqE_nat)
    with True show ?thesis by (simp add: entry_pos_def entry_width_def)
  next
    case F: False
    with assms(3) show ?thesis by (auto simp: entry_pos_def entry_width_def)
  qed
  then show ?thesis using assms by (intro entry_other_bytes)
qed

section \<open>Free entries\<close>

lemma push_ucast_0:
  fixes x :: u8
  assumes "push_bit k (ucast x :: 'a::len word) = 0" "k + 8 \<le> LENGTH('a)"
  shows "x = 0"
proof (rule bit_word_eqI)
  fix n assume "n < LENGTH(8)"
  moreover have "\<not> bit (push_bit k (ucast x :: 'a word)) (n + k)" using assms(1) by simp
  ultimately show "bit x n = bit 0 n" using assms(2) by (simp add: bit_simps)
qed

lemma ucast_push_eq_0:
  fixes x :: u8
  shows "push_bit 8 (ucast x :: u16) = 0 \<longleftrightarrow> x = 0" "push_bit 8 (ucast x :: u32) = 0 \<longleftrightarrow> x = 0"
    "push_bit 4 (ucast x :: u16) = 0 \<longleftrightarrow> x = 0" "push_bit 4 (ucast x :: u32) = 0 \<longleftrightarrow> x = 0"
    "push_bit 16 (ucast x :: u32) = 0 \<longleftrightarrow> x = 0" "push_bit 24 (ucast x :: u32) = 0 \<longleftrightarrow> x = 0"
  by (auto dest: push_ucast_0)

lemma drop_ucast_0:
  fixes x :: u8
  assumes "drop_bit 4 (ucast (x AND 0xf0) :: 'a::len word) = 0" "8 \<le> LENGTH('a)"
  shows "x AND 0xf0 = 0"
proof (rule bit_word_eqI)
  fix n assume "n < LENGTH(8)"
  then have n: "n < 8" by simp
  have "\<not> bit (drop_bit 4 (ucast (x AND 0xf0) :: 'a word)) (n - 4)" using assms(1) by simp
  then have "4 \<le> n \<Longrightarrow> \<not> bit (x AND 0xf0) n" using n assms(2) by (simp add: bit_simps)
  moreover have "n < 4 \<Longrightarrow> \<not> bit (x AND 0xf0) n" by (auto simp: bit_simps less_Suc_eq numeral_eq_Suc)
  ultimately show "bit (x AND 0xf0) n = bit 0 n" by (cases "4 \<le> n") auto
qed

lemma ucast_drop_eq_0:
  fixes x :: u8
  shows "drop_bit 4 (ucast (x AND 0xf0) :: u16) = 0 \<longleftrightarrow> x AND 0xf0 = 0"
    "drop_bit 4 (ucast (x AND 0xf0) :: u32) = 0 \<longleftrightarrow> x AND 0xf0 = 0"
  by (auto dest: drop_ucast_0)

lemma ucast_eq_0: "(ucast (x :: u8) :: u16) = 0 \<longleftrightarrow> x = 0" "(ucast (x :: u8) :: u32) = 0 \<longleftrightarrow> x = 0"
  using push_ucast_0 [where 'a = 16, of 0 x] push_ucast_0 [where 'a = 32, of 0 x] by auto

lemmas byte_zero_simps = or_eq_0_iff ucast_push_eq_0 ucast_drop_eq_0 ucast_eq_0

lemma fat12_decode_eq_0:
  "fat12_decode c b0 b1 = 0 \<longleftrightarrow>
     (if c mod 2 = 0 then b0 = 0 \<and> b1 AND 0xf = 0 else b0 AND 0xf0 = 0 \<and> b1 = 0)"
proof -
  have sx: "(if v AND 0xff0 = 0xff0 then v OR 0xfffffff0 else v) = 0 \<longleftrightarrow> v = 0" for v :: u32
    by (auto simp: or_eq_0_iff)
  show ?thesis
    unfolding fat12_decode_def Let_def sx by (simp only: byte_zero_simps split: if_split) simp
qed

lemma fat16_extend_eq_0: "fat16_extend v = 0 \<longleftrightarrow> v = 0"
  by (auto simp: fat16_extend_def or_eq_0_iff)

lemma le16_eq_0: "length r = 2 \<Longrightarrow> le16 r = 0 \<longleftrightarrow> r = replicate 2 0"
  by (cases r; cases "tl r") (auto simp: le16_def byte_zero_simps numeral_2_eq_2)

lemma le32_eq_0:
  assumes "length r = 4"
  shows "le32 r = 0 \<longleftrightarrow> r = replicate 4 0"
proof -
  from assms obtain a b c d where "r = [a, b, c, d]"
    by (auto simp: numeral_eq_Suc length_Suc_conv)
  moreover have "le32 [a, b, c, d] = 0 \<longleftrightarrow> a = 0 \<and> b = 0 \<and> c = 0 \<and> d = 0"
    unfolding le32_def byte_zero_simps by simp
  ultimately show ?thesis by (simp add: numeral_eq_Suc)
qed

text \<open>The clusters of the volume, and the first free one.\<close>

definition first_free :: "fat_table \<Rightarrow> nat option" where
  "first_free ft = List.find (\<lambda>c. entry (bits (layout ft)) (view ft) c = 0) [2..<cluster_count (layout ft) + 2]"

lemma find_upt:
  "List.find P [a..<b] = (if a < b then if P a then Some a else List.find P [a + 1..<b] else None)"
  by (simp add: upt_conv_Cons)

lemma fat_find_ok:
  assumes "(clusters + 2) * entry_width bts \<le> length buf" and "bts \<noteq> 12"
  shows "fat_find (entry_width bts) buf clusters c = Some (List.find (\<lambda>c. entry bts buf c = 0) [c..<clusters + 2])"
proof (induction "clusters + 2 - c" arbitrary: c)
  case 0
  then show ?case by (subst fat_find.simps) (simp add: find_upt)
next
  case (Suc n)
  let ?w = "entry_width bts"
  from Suc.hyps(2) have c: "c < clusters + 2" by simp
  then have "(c + 1) * ?w \<le> (clusters + 2) * ?w" by (intro mult_le_mono1) simp
  with assms(1) have fit: "c * ?w + ?w \<le> length buf" by (simp add: algebra_simps)
  have l: "length (region buf (c * ?w) ?w) = ?w" using fit by (rule length_region)
  have p: "entry_pos bts c = c * ?w" using assms(2) by (simp add: entry_pos_def entry_width_def)
  have free: "take ?w (drop (c * ?w) buf) = replicate ?w 0 \<longleftrightarrow> entry bts buf c = 0"
    using l assms(2) unfolding entry_def p Let_def region_def [symmetric]
    by (cases "bts = 16") (simp_all add: fat16_extend_eq_0 le16_eq_0 le32_eq_0 entry_width_def)
  have "fat_find ?w buf clusters (c + 1) = Some (List.find (\<lambda>c. entry bts buf c = 0) [c + 1..<clusters + 2])"
    using Suc.hyps(2) by (intro Suc.hyps(1)) simp
  then show ?case
    using c fit by (subst fat_find.simps, subst find_upt) (simp add: free)
qed

lemma fat12_find_ok:
  assumes "(clusters + 3) div 2 * 3 \<le> length buf"
  shows "fat12_find buf clusters k = Some (List.find (\<lambda>c. entry 12 buf c = 0) [k * 2..<clusters + 2])"
proof (induction "clusters + 2 - k" arbitrary: k)
  case 0
  then show ?case by (subst fat12_find.simps) (simp add: find_upt)
next
  case (Suc n)
  show ?case
  proof (cases "k * 2 < clusters + 2")
    case False
    then show ?thesis by (subst fat12_find.simps) (simp add: find_upt)
  next
    case True
    then have "k + 1 \<le> (clusters + 3) div 2" by linarith
    then have "(k + 1) * 3 \<le> (clusters + 3) div 2 * 3" by (rule mult_le_mono1)
    then have "k * 3 + 3 \<le> (clusters + 3) div 2 * 3" by (simp only: add_mult_distrib mult_1)
    with assms have fit: "k * 3 + 2 < length buf" by linarith
    have r: "region buf (k * 3) 2 ! 0 = buf ! (k * 3)" "region buf (k * 3) 2 ! Suc 0 = buf ! (k * 3 + 1)"
      "region buf (k * 3 + 1) 2 ! 0 = buf ! (k * 3 + 1)" "region buf (k * 3 + 1) 2 ! Suc 0 = buf ! (k * 3 + 2)"
      using fit by (simp_all add: region_nth)
    have p: "entry_pos 12 (k * 2) = k * 3" "entry_pos 12 (k * 2 + 1) = k * 3 + 1" by (simp_all add: entry_pos_def)
    have e1: "entry 12 buf (k * 2) = 0 \<longleftrightarrow> buf ! (k * 3) = 0 \<and> buf ! (k * 3 + 1) AND 0xf = 0"
      unfolding entry_def p Let_def by (simp add: fat12_decode_eq_0 r entry_width_def)
    have e2: "entry 12 buf (k * 2 + 1) = 0 \<longleftrightarrow> buf ! (k * 3 + 1) AND 0xf0 = 0 \<and> buf ! (k * 3 + 2) = 0"
      unfolding entry_def p Let_def using r by (simp add: fat12_decode_eq_0 entry_width_def mod_Suc)
    have rec: "fat12_find buf clusters (k + 1) = Some (List.find (\<lambda>c. entry 12 buf c = 0) [(k + 1) * 2..<clusters + 2])"
      using Suc.hyps(2) by (intro Suc.hyps(1)) simp
    let ?n = "clusters + 2" and ?P = "\<lambda>c. entry 12 buf c = 0"
    have "List.find ?P [k * 2..<?n] = (if ?P (k * 2) then Some (k * 2) else List.find ?P [k * 2 + 1..<?n])"
      using True by (subst find_upt) simp
    moreover have "List.find ?P [k * 2 + 1..<?n] = (if ?P (k * 2 + 1) then if k * 2 + 1 < ?n then Some (k * 2 + 1) else None
        else List.find ?P [(k + 1) * 2..<?n])"
      by (subst find_upt) (simp add: find_upt [of _ "(k + 1) * 2"])
    ultimately show ?thesis
      using True fit rec e1 e2 unfolding fat12_find.simps [of buf clusters k]
      by (simp add: byte_zero_simps Let_def del: upt_Suc)
  qed
qed

text \<open>The table has room for every cluster of the volume.\<close>

definition table_fits :: "fat_table \<Rightarrow> bool" where
  "table_fits ft \<longleftrightarrow> bits (layout ft) \<in> {12, 16, 32} \<and> cluster_count (layout ft) + 2 < 2 ^ 30 \<and>
     (if bits (layout ft) = 12 then (cluster_count (layout ft) + 3) div 2 * 3
      else (cluster_count (layout ft) + 2) * entry_width (bits (layout ft))) \<le> fat_bytes ft"

lemma fits_in_table:
  assumes "table_fits ft" and c: "c < cluster_count (layout ft) + 2"
  shows "in_table ft c"
proof (cases "bits (layout ft) = 12")
  case True
  from c have "c * 3 div 2 + 2 \<le> (cluster_count (layout ft) + 3) div 2 * 3"
  proof -
    have "c div 2 + 1 \<le> (cluster_count (layout ft) + 3) div 2" using c by linarith
    then have "(c div 2 + 1) * 3 \<le> (cluster_count (layout ft) + 3) div 2 * 3" by (rule mult_le_mono1)
    moreover have "c * 3 div 2 + 2 \<le> (c div 2 + 1) * 3" by presburger
    ultimately show ?thesis by linarith
  qed
  with True assms show ?thesis by (simp add: table_fits_def in_table_def entry_pos_def entry_width_def)
next
  case False
  let ?w = "entry_width (bits (layout ft))"
  have "(c + 1) * ?w \<le> (cluster_count (layout ft) + 2) * ?w" using c by (intro mult_le_mono1) simp
  then have "c * ?w + ?w \<le> fat_bytes ft" using assms(1) False by (simp add: table_fits_def algebra_simps)
  moreover have "entry_pos (bits (layout ft)) c = c * ?w" using False by (simp add: entry_pos_def entry_width_def)
  ultimately show ?thesis using assms by (simp add: table_fits_def in_table_def)
qed

definition EOC :: "nat \<Rightarrow> u32" where
  "EOC bts = (if bts = 12 then 0xfff else if bts = 16 then 0xffff else 0x0fffffff)"

lemma table_alloc_eq:
  assumes "fat_ok ft" "env_ok e" "table_fits ft"
  shows "table_alloc e ft = (case first_free ft of
      None \<Rightarrow> Some (Inl OPAL_ENOSPC, ft\<lparr>buffer := Some (view ft)\<rparr>)
    | Some c \<Rightarrow> do {
        (r, ft') \<leftarrow> table_set e (ft\<lparr>buffer := Some (view ft)\<rparr>) c (EOC (bits (layout ft)));
        Some (if kerrno_ok r then Inr c else Inl r, ft')
      })"
proof -
  let ?b = "bits (layout ft)" and ?n = "cluster_count (layout ft)"
  have len: "length (view ft) = fat_bytes ft" using assms(1) by (rule length_view)
  have ok: "kerrno_ok OPAL_OK" by (simp add: kerrno_ok_def)
  have f12: "?b = 12 \<Longrightarrow> fat12_find (view ft) ?n 1 = Some (first_free ft)"
    using fat12_find_ok [of ?n "view ft" 1] assms(3) len by (simp add: table_fits_def first_free_def)
  have f: "fat_find (entry_width ?b) (view ft) ?n 2 = Some (first_free ft)" if "?b \<noteq> 12"
    using fat_find_ok [OF _ that, of ?n "view ft" 2] that assms(3) len by (simp add: table_fits_def first_free_def)
  consider "?b = 12" | "?b = 16" | "?b = 32" using assms(3) by (auto simp: table_fits_def)
  then show ?thesis
  proof cases
    case 1
    with f12 show ?thesis
      by (simp add: table_alloc_def table_set_def fat12_table_alloc_def readall_ok [OF assms(1,2)] ok Let_def EOC_def split: option.split)
  next
    case 2
    with f show ?thesis
      by (simp add: table_alloc_def table_set_def fat16_table_alloc_def readall_ok [OF assms(1,2)] ok Let_def EOC_def entry_width_def split: option.split)
  next
    case 3
    with f show ?thesis
      by (simp add: table_alloc_def table_set_def fat32_table_alloc_def readall_ok [OF assms(1,2)] ok Let_def EOC_def entry_width_def split: option.split)
  qed
qed

text \<open>The table as a map from clusters to entries, and the update of one entry.\<close>

lemma table_set_entries:
  assumes ok: "fat_ok ft" "env_ok e" "mirrored ft" and it: "in_table ft c"
  shows "\<exists>ft'. table_set e ft c v = Some (OPAL_OK, ft') \<and> fat_ok ft' \<and> mirrored ft' \<and> layout ft' = layout ft \<and>
    (\<forall>k. in_table ft k \<longrightarrow>
       entry (bits (layout ft)) (view ft') k = (if k = c then norm (bits (layout ft)) v else entry (bits (layout ft)) (view ft) k))"
proof -
  let ?b = "bits (layout ft)"
  obtain ft' where ft': "table_set e ft c v = Some (OPAL_OK, ft')" "fat_ok ft'" "mirrored ft'" "layout ft' = layout ft"
    "view ft' = write_at (view ft) (entry_pos ?b c) (entry_bytes ?b (view ft) c v)"
    using table_set_ok [OF ok it] by blast
  have fits: "in_table ft k \<Longrightarrow> entry_pos ?b k + entry_width ?b \<le> length (view ft)" for k
    using length_view [OF ok(1)] by (simp add: in_table_def)
  have "entry ?b (view ft') k = (if k = c then norm ?b v else entry ?b (view ft) k)" if "in_table ft k" for k
    unfolding ft'(5) using entry_set_same [OF fits [OF it]] entry_set_other [OF fits [OF it] fits [OF that]] by auto
  with ft' show ?thesis by blast
qed

abbreviation entry_of :: "fat_table \<Rightarrow> nat \<Rightarrow> u32" where
  "entry_of ft \<equiv> entry (bits (layout ft)) (view ft)"

lemma table_at_entry:
  assumes "fat_ok ft" "env_ok e" "in_table ft c"
  shows "map_option fst (table_at e ft c) = Some (Inr (entry_of ft c))"
  by (simp add: table_at_ok [OF assms])

lemma in_table_layout: "layout ft' = layout ft \<Longrightarrow> in_table ft' c = in_table ft c"
  by (simp add: in_table_def fat_bytes_def)

lemma buffered_entries:
  assumes "fat_ok ft" "mirrored ft"
  shows "fat_ok (ft\<lparr>buffer := Some (view ft)\<rparr>)" "mirrored (ft\<lparr>buffer := Some (view ft)\<rparr>)"
    "view (ft\<lparr>buffer := Some (view ft)\<rparr>) = view ft" "layout (ft\<lparr>buffer := Some (view ft)\<rparr>) = layout ft"
  using buffered_ok [OF assms(1)] assms(2) by simp_all

lemma first_free_Some:
  assumes "first_free ft = Some c"
  shows "2 \<le> c" "c < cluster_count (layout ft) + 2" "entry_of ft c = 0"
    "\<And>k. 2 \<le> k \<Longrightarrow> k < c \<Longrightarrow> entry_of ft k \<noteq> 0"
proof -
  let ?n = "cluster_count (layout ft) + 2"
  from assms obtain i where i: "i < length [2..<?n]" "entry_of ft ([2..<?n] ! i) = 0" "c = [2..<?n] ! i"
    "\<forall>j < i. entry_of ft ([2..<?n] ! j) \<noteq> 0"
    unfolding first_free_def find_Some_iff by blast
  from i(1) have l: "i < cluster_count (layout ft)" by (simp only: length_upt)
  have nth: "j < cluster_count (layout ft) \<Longrightarrow> [2..<?n] ! j = 2 + j" for j by (rule nth_upt) simp
  have c: "c = 2 + i" using i(3) nth [OF l] by simp
  show "2 \<le> c" "c < ?n" using l c by simp_all
  show "entry_of ft c = 0" using i(2,3) by simp
  show "entry_of ft k \<noteq> 0" if "2 \<le> k" "k < c" for k
  proof -
    have "k - 2 < i" "2 + (k - 2) = k" using that c by simp_all
    then show ?thesis using i(4) nth [of "k - 2"] l by auto
  qed
qed

lemma first_free_None:
  "first_free ft = None \<longleftrightarrow> (\<forall>k. 2 \<le> k \<longrightarrow> k < cluster_count (layout ft) + 2 \<longrightarrow> entry_of ft k \<noteq> 0)"
  unfolding first_free_def find_None_iff by (simp only: set_upt) auto

lemma norm_EOC: "bts \<in> {12, 16, 32} \<Longrightarrow> \<not> norm bts (EOC bts) AND 0x0fffffff < 0x0ffffff8"
  by (auto simp: norm_def EOC_def fat12_norm_def fat16_extend_def)

lemma table_alloc_entries:
  assumes ok: "fat_ok ft" "env_ok e" "mirrored ft" "table_fits ft" and c: "first_free ft = Some c"
  shows "\<exists>ft'. table_alloc e ft = Some (Inr c, ft') \<and> fat_ok ft' \<and> mirrored ft' \<and> layout ft' = layout ft \<and>
    (\<forall>k. in_table ft k \<longrightarrow> entry_of ft' k = (if k = c then norm (bits (layout ft)) (EOC (bits (layout ft))) else entry_of ft k))"
proof -
  let ?bf = "ft\<lparr>buffer := Some (view ft)\<rparr>"
  note b = buffered_entries [OF ok(1,3)]
  have "in_table ?bf c"
    using fits_in_table [OF ok(4) first_free_Some(2) [OF c]] in_table_layout [of ?bf ft c] by simp
  from table_set_entries [OF b(1) ok(2) b(2) this, of "EOC (bits (layout ft))"] obtain ft' where ft':
    "table_set e ?bf c (EOC (bits (layout ft))) = Some (OPAL_OK, ft')" "fat_ok ft'" "mirrored ft'" "layout ft' = layout ft"
    "\<forall>k. in_table ?bf k \<longrightarrow> entry_of ft' k = (if k = c then norm (bits (layout ft)) (EOC (bits (layout ft))) else entry_of ft k)"
    by (auto simp: b(3))
  then show ?thesis using table_alloc_eq [OF ok(1,2,4)] c in_table_layout [of ?bf ft] by simp
qed

section \<open>Properties\<close>

text \<open>
  C14. Setting an entry of the table in any of the three formats succeeds, is read back as written
  (up to the width of the format and the sign extension of reserved values), leaves every other
  entry of the table unchanged, even the FAT12 entries that share a byte with it, and keeps all
  copies of the table on the device identical to the buffered one.
\<close>

theorem fat_table_set_correct:
  assumes "fat_ok ft" "env_ok e" "mirrored ft" "in_table ft c"
  shows "\<exists>ft'. table_set e ft c v = Some (OPAL_OK, ft') \<and> fat_ok ft' \<and> mirrored ft' \<and> layout ft' = layout ft \<and>
    (\<forall>k. in_table ft k \<longrightarrow> map_option fst (table_at e ft k) = Some (Inr (entry_of ft k)) \<and>
       map_option fst (table_at e ft' k) = Some (Inr (if k = c then norm (bits (layout ft)) v else entry_of ft k)))"
proof -
  obtain ft' where ft': "table_set e ft c v = Some (OPAL_OK, ft')" "fat_ok ft'" "mirrored ft'" "layout ft' = layout ft"
    "\<forall>k. in_table ft k \<longrightarrow> entry_of ft' k = (if k = c then norm (bits (layout ft)) v else entry_of ft k)"
    using table_set_entries [OF assms] by auto
  have "map_option fst (table_at e ft k) = Some (Inr (entry_of ft k)) \<and>
      map_option fst (table_at e ft' k) = Some (Inr (if k = c then norm (bits (layout ft)) v else entry_of ft k))"
    if k: "in_table ft k" for k
    using ft'(5) k table_at_entry [OF ft'(2) assms(2), of k] table_at_entry [OF assms(1,2) k] in_table_layout [OF ft'(4)]
    by auto
  with ft' show ?thesis by blast
qed

text \<open>
  C15. Appending a cluster to a chain whose last cluster is \<open>last\<close>: when the volume has a free
  cluster, the first free one is returned, linked from \<open>last\<close> and marked as the end of the
  chain, and every other entry is unchanged; the table stays mirrored. When no cluster is free,
  the call returns \<^verbatim>\<open>OPAL_ENOSPC\<close> and changes no entry.
\<close>

theorem fat_table_append_correct:
  assumes "fat_ok ft" "env_ok e" "mirrored ft" "table_fits ft"
    and "lst < cluster_count (layout ft) + 2" and "\<not> entry_of ft lst AND 0x0fffffff < 0x0ffffff8"
  shows "(case first_free ft of
      None \<Rightarrow> \<exists>ft'. fat_table_append e e e e ft lst = Some (Inl OPAL_ENOSPC, ft') \<and> mirrored ft' \<and> view ft' = view ft
    | Some c \<Rightarrow> \<exists>ft'. fat_table_append e e e e ft lst = Some (Inr c, ft') \<and> fat_ok ft' \<and> mirrored ft' \<and>
        2 \<le> c \<and> c < cluster_count (layout ft) + 2 \<and> c \<noteq> lst \<and> entry_of ft c = 0 \<and>
        entry_of ft' lst = norm (bits (layout ft)) (of_nat c) \<and> \<not> entry_of ft' c AND 0x0fffffff < 0x0ffffff8 \<and>
        (\<forall>k. in_table ft k \<and> k \<noteq> lst \<and> k \<noteq> c \<longrightarrow> entry_of ft' k = entry_of ft k))"
proof -
  let ?bf = "ft\<lparr>buffer := Some (view ft)\<rparr>" and ?b = "bits (layout ft)"
  note b = buffered_entries [OF assms(1,3)]
  have lt: "in_table ft lst" using assms(4,5) by (rule fits_in_table)
  have at: "table_at e ft lst = Some (Inr (entry_of ft lst), ?bf)" by (rule table_at_ok [OF assms(1,2) lt])
  have fits: "table_fits ?bf" using assms(4) unfolding table_fits_def layout_eq b(4) .
  have ff: "first_free ?bf = first_free ft" using b(3,4) by (simp add: first_free_def)
  have start: "fat_table_append e e e e ft lst = do {
      (a, ft) \<leftarrow> table_alloc e ?bf;
      case a of
        Inl err \<Rightarrow> Some (Inl err, ft)
      | Inr new_cluster \<Rightarrow> do {
          (result, ft) \<leftarrow> table_set e ft lst (of_nat new_cluster);
          if \<not> kerrno_ok result then do { (_, ft) \<leftarrow> table_set e ft new_cluster 0; Some (Inl result, ft) }
          else Some (Inr new_cluster, ft)
        }}"
    unfolding fat_table_append_def at Let_def bind.bind_lunit prod.case sum.case if_not_P [OF assms(6)] ..
  show ?thesis
  proof (cases "first_free ft")
    case None
    then show ?thesis
      unfolding start table_alloc_eq [OF b(1) assms(2) fits] ff using b by simp
  next
    case (Some c)
    note c = first_free_Some [OF Some]
    obtain f1 where f1: "table_alloc e ?bf = Some (Inr c, f1)" "fat_ok f1" "mirrored f1" "layout f1 = layout ft"
      "\<forall>k. in_table ft k \<longrightarrow> entry_of f1 k = (if k = c then norm ?b (EOC ?b) else entry_of ft k)"
      using table_alloc_entries [OF b(1) assms(2) b(2) fits, of c] Some ff b(3) in_table_layout [of ?bf ft] by auto
    have ct: "in_table ft c" using assms(4) c(2) by (rule fits_in_table)
    have ne: "c \<noteq> lst" using c(3) assms(6) by auto
    obtain f2 where f2: "table_set e f1 lst (of_nat c) = Some (OPAL_OK, f2)" "fat_ok f2" "mirrored f2" "layout f2 = layout f1"
      "\<forall>k. in_table f1 k \<longrightarrow> entry_of f2 k = (if k = lst then norm ?b (of_nat c) else entry_of f1 k)"
      using table_set_entries [OF f1(2) assms(2) f1(3), of lst "of_nat c"] lt in_table_layout [OF f1(4)] f1(4) by auto
    have "bits (layout ft) \<in> {12, 16, 32}" using assms(4) by (simp add: table_fits_def)
    then have "\<not> entry_of f2 c AND 0x0fffffff < 0x0ffffff8"
      using f2(5) f1(5) ct ne norm_EOC [of ?b] in_table_layout [OF f1(4)] by auto
    moreover have "fat_table_append e e e e ft lst = Some (Inr c, f2)"
      unfolding start f1(1) by (simp add: f2(1))
    ultimately show ?thesis
      using Some f2 f1(5) lt ne c in_table_layout [OF f1(4)] by auto
  qed
qed

text \<open>A FAT12 table with two copies of one sector each, on a device of four sectors.\<close>

definition sample_fat :: fat_table where
  "sample_fat = fat_table_init \<lparr>bits = 12, bytes_per_sector = 512, reserved_sectors = 1, num_fats = 2, fat_sectors = 1, cluster_count = 5\<rparr>
     (replicate 512 0 @ (let t = [0xf8, 0xff, 0xff, 0xff, 0x0f, 0] @ replicate 506 0 in t @ t) @ replicate 512 0)"

definition sample_fat_env :: fat_env where
  "sample_fat_env = \<lparr>alloc_ok = True, read_result = OPAL_OK, write_result = (\<lambda>_. OPAL_OK)\<rparr>"

lemma sample_fat_ok: "fat_ok sample_fat" "env_ok sample_fat_env" "mirrored sample_fat" "table_fits sample_fat" "in_table sample_fat 3"
  by (auto simp: sample_fat_def sample_fat_env_def fat_table_init_def fat_ok_def env_ok_def mirrored_def table_fits_def in_table_def view_def
      region_def fat_bytes_def fat_offset_def entry_pos_def entry_width_def Let_def less_2_cases_iff)

lemma sample_fat_end: "entry_of sample_fat 2 = 0xffffffff"
  by (simp add: sample_fat_def fat_table_init_def view_def region_def fat_bytes_def fat_offset_def entry_def entry_pos_def entry_width_def
      fat12_decode_def Let_def)

theorem fat_table_set_correct_witness:
  "\<exists>ft'. table_set sample_fat_env sample_fat 3 0x123 = Some (OPAL_OK, ft') \<and> map_option fst (table_at sample_fat_env ft' 3) = Some (Inr 0x123)"
  using fat_table_set_correct [OF sample_fat_ok(1,2,3,5), of "0x123"] sample_fat_ok(5)
  by (auto simp: norm_def fat12_norm_def sample_fat_def fat_table_init_def)

theorem fat_table_append_correct_witness:
  "case first_free sample_fat of
      None \<Rightarrow> \<exists>ft'. fat_table_append sample_fat_env sample_fat_env sample_fat_env sample_fat_env sample_fat 2 = Some (Inl OPAL_ENOSPC, ft')
    | Some c \<Rightarrow> \<exists>ft'. fat_table_append sample_fat_env sample_fat_env sample_fat_env sample_fat_env sample_fat 2 = Some (Inr c, ft') \<and> mirrored ft'"
  using fat_table_append_correct [OF sample_fat_ok(1-4), of 2] sample_fat_end
  by (auto simp: sample_fat_def fat_table_init_def split: option.splits)

end
