(* ===== verification/Fs_Fat_Sb.thy ===== *)
theory Fs_Fat_Sb
  imports Fs_Fat_Table Kc_Stdlib
begin

text \<open>
  \<open>kernel/src/fs/fat/sb.c\<close>: the parameter block of a FAT volume, mounting and formatting. The packed structures are byte lists in the
  order of \<open>kernel/src/fs/fat/fat.h\<close>; the alternatives of a union are one field of bytes. Integers are naturals with the
  reductions of the C types written out where a value can exceed them.
\<close>

section \<open>Model\<close>

abbreviation FAT12_MAX_CLUSTERS :: nat where "FAT12_MAX_CLUSTERS \<equiv> 4084"
abbreviation FAT16_MAX_CLUSTERS :: nat where "FAT16_MAX_CLUSTERS \<equiv> 65524"
abbreviation FAT32_MAX_CLUSTERS :: nat where "FAT32_MAX_CLUSTERS \<equiv> 0x0ffffff4"
abbreviation FAT12_ROOT_ENTRIES :: nat where "FAT12_ROOT_ENTRIES \<equiv> 224"
abbreviation FAT16_ROOT_ENTRIES :: nat where "FAT16_ROOT_ENTRIES \<equiv> 512"
abbreviation FAT_NUM_FATS :: nat where "FAT_NUM_FATS \<equiv> 2"
abbreviation FAT32_RESERVED_SECTORS :: nat where "FAT32_RESERVED_SECTORS \<equiv> 32"
abbreviation FAT32_ROOT_CLUSTER :: nat where "FAT32_ROOT_CLUSTER \<equiv> 2"
abbreviation FAT32_FSINFO_SECTOR :: nat where "FAT32_FSINFO_SECTOR \<equiv> 1"
abbreviation FAT32_BACKUP_BOOT_SECTOR :: nat where "FAT32_BACKUP_BOOT_SECTOR \<equiv> 6"
abbreviation FAT32_BACKUP_FSINFO_SECTOR :: nat where "FAT32_BACKUP_FSINFO_SECTOR \<equiv> 7"
abbreviation U16_MAX :: nat where "U16_MAX \<equiv> 65535"
abbreviation U32_MAX :: nat where "U32_MAX \<equiv> 4294967295"

text \<open>The whole of \<^verbatim>\<open>struct fat_layout\<close>; the fields of the root directory that do not apply are 0.\<close>

record fat_volume = fat_layout +
  sectors_per_cluster :: nat
  total_sectors :: nat
  data_offset :: nat
  root_offset :: nat
  root_entries :: nat
  root_cluster :: nat

text \<open>Little-endian integers.\<close>

fun to_le :: "nat \<Rightarrow> nat \<Rightarrow> u8 list" where
  "to_le 0 v = []"
| "to_le (Suc n) v = of_nat (v mod 256) # to_le n (v div 256)"

fun from_le :: "u8 list \<Rightarrow> nat" where
  "from_le [] = 0"
| "from_le (b # bs) = unat b + 256 * from_le bs"

record fat_bpb =
  jmp_boot :: "u8 list"
  oem_name :: "u8 list"
  b_bytes_per_sector :: nat
  b_sectors_per_cluster :: nat
  b_reserved_sectors :: nat
  b_num_fats :: nat
  b_root_entries :: nat
  b_total_sectors_16 :: nat
  b_media :: nat
  b_fat_size_16 :: nat
  b_sectors_per_track :: nat
  b_num_heads :: nat
  b_hidden_sectors :: nat
  b_total_sectors_32 :: nat
  b_union :: "u8 list"

definition bpb_bytes :: "fat_bpb \<Rightarrow> u8 list" where
  "bpb_bytes b = jmp_boot b @ oem_name b @ to_le 2 (b_bytes_per_sector b) @ to_le 1 (b_sectors_per_cluster b) @ to_le 2 (b_reserved_sectors b) @
     to_le 1 (b_num_fats b) @ to_le 2 (b_root_entries b) @ to_le 2 (b_total_sectors_16 b) @ to_le 1 (b_media b) @ to_le 2 (b_fat_size_16 b) @
     to_le 2 (b_sectors_per_track b) @ to_le 2 (b_num_heads b) @ to_le 4 (b_hidden_sectors b) @ to_le 4 (b_total_sectors_32 b) @ b_union b"

definition bpb_of_bytes :: "u8 list \<Rightarrow> fat_bpb" where
  "bpb_of_bytes v = (let f = (\<lambda>p n. from_le (take n (drop p v))) in
     \<lparr>jmp_boot = take 3 v, oem_name = take 8 (drop 3 v), b_bytes_per_sector = f 11 2, b_sectors_per_cluster = f 13 1, b_reserved_sectors = f 14 2,
       b_num_fats = f 16 1, b_root_entries = f 17 2, b_total_sectors_16 = f 19 2, b_media = f 21 1, b_fat_size_16 = f 22 2, b_sectors_per_track = f 24 2,
       b_num_heads = f 26 2, b_hidden_sectors = f 28 4, b_total_sectors_32 = f 32 4, b_union = take 26 (drop 36 v)\<rparr>)"

definition fat_size_32 :: "fat_bpb \<Rightarrow> nat" where
  "fat_size_32 b = from_le (take 4 (b_union b))"

definition bpb_root_cluster :: "fat_bpb \<Rightarrow> nat" where
  "bpb_root_cluster b = from_le (take 4 (drop 8 (b_union b)))"

subsection \<open>Parsing\<close>

definition is_valid_bps :: "nat \<Rightarrow> bool" where
  "is_valid_bps bps \<longleftrightarrow> bps = 512 \<or> bps = 1024 \<or> bps = 2048 \<or> bps = 4096"

definition parse_bpb :: "nat \<Rightarrow> fat_bpb \<Rightarrow> fat_volume option" where
  "parse_bpb bdev_sectors bpb =
     (let bps = b_bytes_per_sector bpb;
          spc = b_sectors_per_cluster bpb
      in if \<not> is_valid_bps bps then None
      else if \<not> ispower2 (of_nat spc) then None
      else if b_reserved_sectors bpb = 0 \<or> b_num_fats bpb = 0 then None
      else let tot = (if b_total_sectors_16 bpb = 0 then b_total_sectors_32 bpb else b_total_sectors_16 bpb);
               lsec = bps div DISK_SECTOR_SIZE;
               total_psec = tot * lsec
      in if total_psec = 0 \<or> total_psec > 2 ^ 32 \<or> total_psec > bdev_sectors then None
      else if b_fat_size_16 bpb = 0 \<and> fat_size_32 bpb = 0 then None
      else let bts = (if b_fat_size_16 bpb = 0 then 32 else 0);
               fat_secs = (if b_fat_size_16 bpb = 0 then fat_size_32 bpb else b_fat_size_16 bpb);
               root_dir_size = b_root_entries bpb * 32;
               root_dir_sectors = (root_dir_size + bps - 1) div bps;
               fats_sectors = b_num_fats bpb * fat_secs;
               data_off = b_reserved_sectors bpb + fats_sectors + root_dir_sectors
      in if data_off \<ge> tot then None
      else let data_sectors = tot - data_off;
               cc = data_sectors div spc;
               bts = (if bts = 0 then if cc \<le> FAT12_MAX_CLUSTERS then 12 else 16 else bts)
      in Some \<lparr>bits = bts, bytes_per_sector = bps, reserved_sectors = b_reserved_sectors bpb, num_fats = b_num_fats bpb, fat_sectors = fat_secs,
           cluster_count = cc, sectors_per_cluster = spc, total_sectors = tot, data_offset = data_off,
           root_offset = (if bts = 32 then 0 else b_reserved_sectors bpb + fats_sectors),
           root_entries = (if bts = 32 then 0 else b_root_entries bpb),
           root_cluster = (if bts = 32 then bpb_root_cluster bpb else 0)\<rparr>)"

subsection \<open>Layout of a new volume\<close>

definition recommended_sectors_per_cluster :: "nat \<Rightarrow> nat option" where
  "recommended_sectors_per_cluster tot =
     (if tot < 0x00100000 then Some 1
      else if tot < 0x00200000 then Some 2
      else if tot < 0x00400000 then Some 4
      else if tot < 0x00800000 then Some 8
      else if tot < 0x01000000 then Some 16
      else if tot < 0x02000000 then Some 32
      else if tot \<le> U32_MAX then Some 64
      else None)"

definition is_valid_clusters :: "nat \<Rightarrow> nat \<Rightarrow> bool" where
  "is_valid_clusters bts cc \<longleftrightarrow>
     (if bts = 12 then cc \<le> FAT12_MAX_CLUSTERS else if bts = 16 then cc \<le> FAT16_MAX_CLUSTERS else cc \<le> FAT32_MAX_CLUSTERS)"

text \<open>One pass of the loop over candidates for the size of the table: the result, or the next candidate.\<close>

definition layout_step :: "nat \<Rightarrow> nat \<Rightarrow> nat \<Rightarrow> nat \<Rightarrow> nat \<Rightarrow> nat \<Rightarrow> nat \<Rightarrow> fat_volume option + nat" where
  "layout_step bts sectors bps spc reserved entries candidate =
     (let root_dir_sectors = (entries * 32 + bps - 1) div bps;
          fats_total = FAT_NUM_FATS * candidate mod 2 ^ 32;
          data_off = (if bts \<noteq> 32 then (reserved + fats_total + root_dir_sectors) mod 2 ^ 32 else reserved);
          required = (if bts \<noteq> 32 then data_off else (data_off + fats_total) mod 2 ^ 32)
      in if (required + spc) mod 2 ^ 32 \<ge> sectors then Inl None
      else let data_sectors = sectors - data_off;
               cc = data_sectors div spc;
               fat_entries = cc + 2;
               nbytes = (if bts = 12 then ((fat_entries * 3 + 1) mod 2 ^ 32) div 2 else (fat_entries * bts mod 2 ^ 32) div 8);
               fat_secs = (nbytes + bps - 1) div bps
      in if candidate = fat_secs then
           if \<not> is_valid_clusters bts cc then Inl None
           else Inl (Some \<lparr>bits = bts, bytes_per_sector = bps, reserved_sectors = reserved, num_fats = FAT_NUM_FATS, fat_sectors = fat_secs,
               cluster_count = cc, sectors_per_cluster = spc, total_sectors = sectors, data_offset = data_off,
               root_offset = (if bts = 32 then 0 else reserved + fats_total), root_entries = (if bts = 32 then 0 else entries),
               root_cluster = (if bts = 32 then FAT32_ROOT_CLUSTER else 0)\<rparr>)
         else Inr fat_secs)"

primrec layout_loop :: "nat \<Rightarrow> (nat \<Rightarrow> fat_volume option + nat) \<Rightarrow> nat \<Rightarrow> fat_volume option" where
  "layout_loop 0 step candidate = None"
| "layout_loop (Suc i) step candidate = (case step candidate of Inl r \<Rightarrow> r | Inr nxt \<Rightarrow> layout_loop i step nxt)"

definition calc_fat_layout :: "nat \<Rightarrow> nat \<Rightarrow> nat \<Rightarrow> nat \<Rightarrow> fat_volume option" where
  "calc_fat_layout bts sectors bps spc =
     (let (reserved, entries) = (if bts = 16 then (1, FAT16_ROOT_ENTRIES) else if bts = 12 then (1, FAT12_ROOT_ENTRIES) else (FAT32_RESERVED_SECTORS, 0))
      in layout_loop 32 (layout_step bts sectors bps spc reserved entries) 1)"

definition setup_layout :: "nat \<Rightarrow> kerrno + fat_volume" where
  "setup_layout sectors = (case recommended_sectors_per_cluster sectors of
       None \<Rightarrow> Inl OPAL_ETOOBIG
     | Some spc \<Rightarrow> (case List.find (\<lambda>r. r \<noteq> None) (map (\<lambda>bts. calc_fat_layout bts sectors DISK_SECTOR_SIZE spc) [12, 16, 32]) of
           Some (Some lay) \<Rightarrow> Inr lay
         | _ \<Rightarrow> Inl OPAL_ETOOBIG))"

text \<open>ASCII text as bytes.\<close>

definition ascii :: "string \<Rightarrow> u8 list" where
  "ascii s = map (\<lambda>c. of_nat (of_char c)) s"

definition setup_bpb :: "fat_volume \<Rightarrow> fat_bpb" where
  "setup_bpb lay = \<lparr>jmp_boot = [0xeb, 0x58, 0x90], oem_name = ascii ''OPALFAT '', b_bytes_per_sector = bytes_per_sector lay,
     b_sectors_per_cluster = sectors_per_cluster lay, b_reserved_sectors = reserved_sectors lay, b_num_fats = num_fats lay,
     b_root_entries = (if bits lay \<noteq> 32 then root_entries lay else 0),
     b_total_sectors_16 = (if total_sectors lay \<ge> U16_MAX then 0 else total_sectors lay mod 2 ^ 16),
     b_media = 0xf8,
     b_fat_size_16 = (if bits lay = 32 then 0 else fat_sectors lay mod 2 ^ 16),
     b_sectors_per_track = 0x3f, b_num_heads = 0xff, b_hidden_sectors = 0, b_total_sectors_32 = total_sectors lay,
     b_union = (if bits lay \<noteq> 32
       then [0x80, 0, 0x29] @ to_le 4 0 @ ascii ''OPALFAT   '' @ [0] @ ascii (if bits lay = 16 then ''FAT16   '' else ''FAT12   '')
       else to_le 4 (fat_sectors lay) @ to_le 2 0 @ to_le 2 0 @ to_le 4 FAT32_ROOT_CLUSTER @ to_le 2 FAT32_FSINFO_SECTOR @ to_le 2 FAT32_BACKUP_BOOT_SECTOR @
         replicate 10 0)\<rparr>"

subsection \<open>Transfers\<close>

text \<open>The device and the number of writes so far, which selects the result of the next one.\<close>

record volume =
  dev :: "u8 list"
  writes :: nat

definition fat_read_sectors :: "fat_env \<Rightarrow> volume \<Rightarrow> nat \<Rightarrow> nat \<Rightarrow> kerrno + u8 list" where
  "fat_read_sectors e v lba sectors =
     (if \<not> (lba + sectors > lba \<and> lba + sectors \<le> length (dev v) div DISK_SECTOR_SIZE) then Inl OPAL_EBUSY
      else if \<not> kerrno_ok (read_result e) then Inl (read_result e)
      else Inr (take (sectors * DISK_SECTOR_SIZE) (drop (lba * DISK_SECTOR_SIZE) (dev v))))"

definition fat_write_sectors :: "fat_env \<Rightarrow> volume \<Rightarrow> nat \<Rightarrow> u8 list \<Rightarrow> kerrno \<times> volume" where
  "fat_write_sectors e v lba data =
     (let sectors = length data div DISK_SECTOR_SIZE
      in if \<not> (lba + sectors > lba \<and> lba + sectors \<le> length (dev v) div DISK_SECTOR_SIZE) then (OPAL_EBUSY, v)
      else let r = write_result e (writes v);
               v = v\<lparr>writes := writes v + 1\<rparr>
      in if \<not> kerrno_ok r then (r, v)
      else (r, v\<lparr>dev := write_at (dev v) (lba * DISK_SECTOR_SIZE) data\<rparr>))"

subsection \<open>Formatting and mounting\<close>

definition vbr :: "fat_volume \<Rightarrow> u8 list" where
  "vbr lay = bpb_bytes (setup_bpb lay) @ replicate 448 0 @ [0x55, 0xaa]"

definition write_vbr :: "fat_env \<Rightarrow> fat_volume \<Rightarrow> volume \<Rightarrow> kerrno \<times> volume" where
  "write_vbr e lay v =
     (let (result, v) = fat_write_sectors e v 0 (vbr lay)
      in if \<not> kerrno_ok result then (result, v)
      else if bits lay = 32 then
        let (result, v) = fat_write_sectors e v FAT32_BACKUP_BOOT_SECTOR (vbr lay)
        in if \<not> kerrno_ok result then (result, v) else (OPAL_OK, v)
      else (OPAL_OK, v))"

definition fsinfo :: "u8 list" where
  "fsinfo = ascii ''RRaA'' @ replicate 480 0 @ ascii ''rrAa'' @ to_le 4 0xffffffff @ to_le 4 0xffffffff @ replicate 12 0 @ [0, 0, 0x55, 0xaa]"

definition write_fsinfo :: "fat_env \<Rightarrow> volume \<Rightarrow> kerrno \<times> volume" where
  "write_fsinfo e v =
     (let (result, v) = fat_write_sectors e v FAT32_FSINFO_SECTOR fsinfo
      in if \<not> kerrno_ok result then (result, v) else fat_write_sectors e v FAT32_BACKUP_FSINFO_SECTOR fsinfo)"

text \<open>One sector after another, until a write fails.\<close>

fun write_seq :: "fat_env \<Rightarrow> volume \<Rightarrow> nat \<Rightarrow> u8 list list \<Rightarrow> kerrno \<times> volume" where
  "write_seq e v lba [] = (OPAL_OK, v)"
| "write_seq e v lba (s # ss) =
     (let (result, v) = fat_write_sectors e v lba s
      in if \<not> kerrno_ok result then (result, v) else write_seq e v (lba + 1) ss)"

abbreviation empty_sector :: "u8 list" where
  "empty_sector \<equiv> replicate DISK_SECTOR_SIZE 0"

definition first_sector :: "nat \<Rightarrow> u8 \<Rightarrow> u8 list" where
  "first_sector bts media = (let start = media # (if bts = 12 then [0xff, 0xff] else if bts = 16 then [0xff, 0xff, 0xff]
       else [0xff, 0xff, 0x0f, 0xff, 0xff, 0xff, 0x0f, 0xff, 0xff, 0xff, 0x0f])
     in start @ replicate (DISK_SECTOR_SIZE - length start) 0)"

definition write_fats :: "fat_env \<Rightarrow> fat_volume \<Rightarrow> u8 \<Rightarrow> volume \<Rightarrow> kerrno \<times> volume" where
  "write_fats e lay media v =
     write_seq e v (reserved_sectors lay)
       (concat (replicate (num_fats lay) (first_sector (bits lay) media # replicate (fat_sectors lay - 1) empty_sector)))"

definition write_root :: "fat_env \<Rightarrow> fat_volume \<Rightarrow> volume \<Rightarrow> kerrno \<times> volume" where
  "write_root e lay v =
     (if bits lay = 32 then write_seq e v (data_offset lay) (replicate (sectors_per_cluster lay) empty_sector)
      else write_seq e v (root_offset lay) (replicate ((root_entries lay * 32 + DISK_SECTOR_SIZE - 1) div DISK_SECTOR_SIZE) empty_sector))"

text \<open>A superblock: the layout and the table.\<close>

record fat_sb =
  sb_layout :: fat_volume
  sb_table :: fat_table

definition init_sb_from_layout :: "fat_volume \<Rightarrow> volume \<Rightarrow> fat_sb" where
  "init_sb_from_layout lay v = \<lparr>sb_layout = lay, sb_table = fat_table_init (fat_layout.truncate lay) (dev v)\<rparr>"

text \<open>
  The superblock is the result of mounting and formatting, so the test for a null \<^verbatim>\<open>sb_out\<close> has no counterpart. A superblock that is
  freed on an error is not part of the result.
\<close>

definition fat_mount :: "fat_env \<Rightarrow> volume \<Rightarrow> kerrno + fat_sb" where
  "fat_mount e v =
     (if \<not> alloc_ok e then Inl OPAL_ENOMEM
      else case fat_read_sectors e v 0 1 of
        Inl err \<Rightarrow> Inl err
      | Inr sector \<Rightarrow> (case parse_bpb (length (dev v) div DISK_SECTOR_SIZE) (bpb_of_bytes sector) of
            None \<Rightarrow> Inl OPAL_ENOENT
          | Some lay \<Rightarrow> Inr (init_sb_from_layout lay v)))"

definition fat_format :: "fat_env \<Rightarrow> volume \<Rightarrow> (kerrno + fat_sb) \<times> volume" where
  "fat_format e v =
     (if \<not> alloc_ok e then (Inl OPAL_ENOMEM, v)
      else let sectors = length (dev v) div DISK_SECTOR_SIZE
      in if sectors > U32_MAX then (Inl OPAL_ETOOBIG, v)
      else case setup_layout sectors of
        Inl err \<Rightarrow> (Inl err, v)
      | Inr lay \<Rightarrow>
          let (result, v) = write_vbr e lay v
          in if \<not> kerrno_ok result then (Inl result, v)
          else let (result, v) = (if bits lay = 32 then write_fsinfo e v else (OPAL_OK, v))
          in if \<not> kerrno_ok result then (Inl result, v)
          else let (result, v) = write_fats e lay (of_nat (b_media (setup_bpb lay))) v
          in if \<not> kerrno_ok result then (Inl result, v)
          else let (result, v) = write_root e lay v
          in if \<not> kerrno_ok result then (Inl result, v)
          else (Inr (init_sb_from_layout lay v), v))"

section \<open>Encoding of the parameter block\<close>

lemma setup_bpb_media [simp]: "b_media (setup_bpb lay) = 0xf8"
  by (simp add: setup_bpb_def)

lemma length_to_le [simp]: "length (to_le n v) = n"
  by (induction n arbitrary: v) auto

lemma from_to_le: "from_le (to_le n v) = v mod 256 ^ n"
proof (induction n arbitrary: v)
  case (Suc n)
  have "unat (of_nat (v mod 256) :: u8) = v mod 256" by (simp add: unat_of_nat)
  then show ?case using Suc by (simp add: mod_mult2_eq)
qed simp

definition bpb_fits :: "fat_bpb \<Rightarrow> bool" where
  "bpb_fits b \<longleftrightarrow> length (jmp_boot b) = 3 \<and> length (oem_name b) = 8 \<and> length (b_union b) = 26 \<and>
     b_bytes_per_sector b < 2 ^ 16 \<and> b_sectors_per_cluster b < 2 ^ 8 \<and> b_reserved_sectors b < 2 ^ 16 \<and> b_num_fats b < 2 ^ 8 \<and> b_root_entries b < 2 ^ 16 \<and>
     b_total_sectors_16 b < 2 ^ 16 \<and> b_media b < 2 ^ 8 \<and> b_fat_size_16 b < 2 ^ 16 \<and> b_sectors_per_track b < 2 ^ 16 \<and> b_num_heads b < 2 ^ 16 \<and>
     b_hidden_sectors b < 2 ^ 32 \<and> b_total_sectors_32 b < 2 ^ 32"

lemma take_drop_field:
  assumes "length pre = p" "length f = n"
  shows "take n (drop p (pre @ f @ rest)) = f"
  using assms by simp

lemma length_bpb_bytes: "bpb_fits b \<Longrightarrow> length (bpb_bytes b) = 62"
  by (simp add: bpb_fits_def bpb_bytes_def)

lemma bpb_of_bytes_bpb_bytes:
  assumes "bpb_fits b"
  shows "bpb_of_bytes (bpb_bytes b @ rest) = b"
proof -
  note f = assms [unfolded bpb_fits_def]
  have n: "x < 2 ^ 16 \<Longrightarrow> from_le (to_le 2 x) = x" "x < 2 ^ 8 \<Longrightarrow> from_le (to_le (Suc 0) x) = x" "x < 2 ^ 32 \<Longrightarrow> from_le (to_le 4 x) = x" for x
    by (simp_all only: from_to_le) simp_all
  show ?thesis
    using f by (cases b) (simp add: bpb_of_bytes_def bpb_bytes_def n Let_def del: to_le.simps)
qed

section \<open>The layout of a new volume\<close>

text \<open>The bytes and the sectors of a table for \<open>cc\<close> clusters.\<close>

definition table_bytes :: "nat \<Rightarrow> nat \<Rightarrow> nat" where
  "table_bytes bts cc = (if bts = 12 then ((cc + 2) * 3 + 1) div 2 else (cc + 2) * bts div 8)"

lemma layout_loop_step: "layout_loop i step c = Some lay \<Longrightarrow> \<exists>c. step c = Inl (Some lay)"
  by (induction i arbitrary: c) (auto split: sum.splits)

lemma step_sectors_small: "((x :: nat) mod 4294967296 div d + 512 - 1) div 512 \<le> 8388608"
proof -
  have "x mod 4294967296 < 4294967296" by simp
  moreover have "x mod 4294967296 div d \<le> x mod 4294967296" by (rule div_le_dividend)
  ultimately have "x mod 4294967296 div d + 511 \<le> 4294967295 + 511" by linarith
  then have "(x mod 4294967296 div d + 511) div 512 \<le> (4294967295 + 511) div 512" by (rule div_le_mono)
  then show ?thesis by simp
qed

definition root_sectors :: "nat \<Rightarrow> nat" where
  "root_sectors bts = (if bts = 16 then 32 else if bts = 12 then 14 else 0)"

lemma step_result:
  assumes "(if A then Inl None else if B then (if C then Inl None else Inl (Some r)) else Inr x) = Inl (Some lay)"
  shows "\<not> A" "B" "\<not> C" "lay = r"
  using assms by (simp_all split: if_splits)

lemma calc_layout_step:
  assumes "calc_fat_layout bts n 512 spc = Some lay"
  obtains c where "layout_step bts n 512 spc (if bts = 12 \<or> bts = 16 then 1 else 32) (if bts = 16 then 512 else if bts = 12 then 224 else 0) c = Inl (Some lay)"
proof -
  let ?step = "layout_step bts n 512 spc (if bts = 12 \<or> bts = 16 then 1 else 32) (if bts = 16 then 512 else if bts = 12 then 224 else 0)"
  have "calc_fat_layout bts n 512 spc = layout_loop 32 ?step 1"
    by (cases "bts = 16"; cases "bts = 12") (simp_all only: calc_fat_layout_def Let_def prod.case if_True if_False simp_thms)
  then show ?thesis using assms that layout_loop_step by metis
qed

lemma calc_layout_1x:
  assumes "calc_fat_layout bts n 512 spc = Some lay" "bts = 12 \<or> bts = 16" "spc \<le> 64" "n \<le> U32_MAX"
  shows "bits lay = bts" "bytes_per_sector lay = 512" "reserved_sectors lay = 1" "num_fats lay = 2" "sectors_per_cluster lay = spc" "total_sectors lay = n"
    "root_entries lay = (if bts = 16 then 512 else 224)" "root_cluster lay = 0" "root_offset lay = 1 + 2 * fat_sectors lay"
    "data_offset lay = 1 + 2 * fat_sectors lay + root_sectors bts" "data_offset lay + spc < n" "cluster_count lay = (n - data_offset lay) div spc"
    "is_valid_clusters bts (cluster_count lay)" "fat_sectors lay = (table_bytes bts (cluster_count lay) + 511) div 512"
proof -
  obtain c where c: "layout_step bts n 512 spc 1 (if bts = 16 then 512 else 224) c = Inl (Some lay)"
  proof -
    have k: "(if bts = 12 \<or> bts = 16 then 1 else 32) = (1 :: nat)" "(if bts = 16 then 512 else if bts = 12 then 224 else 0) = (if bts = 16 then 512 else 224 :: nat)" using assms(2) by auto
    show ?thesis using calc_layout_step [OF assms(1)] that unfolding k by blast
  qed
  define dof where "dof = (1 + FAT_NUM_FATS * c mod 2 ^ 32 + root_sectors bts) mod 2 ^ 32"
  define cc where "cc = (n - dof) div spc"
  define nb where "nb = (if bts = 12 then (((cc + 2) * 3 + 1) mod 2 ^ 32) div 2 else ((cc + 2) * bts mod 2 ^ 32) div 8)"
  have rs: "((if bts = 16 then 512 else 224) * 32 + 512 - 1) div 512 = root_sectors bts" using assms(2) by (auto simp: root_sectors_def)
  have b32: "(bts \<noteq> 32) = True" "(bts = 32) = False" using assms(2) by auto
  have "(if (dof + spc) mod 2 ^ 32 \<ge> n then Inl None else if c = (nb + 512 - 1) div 512 then
      (if \<not> is_valid_clusters bts cc then Inl None else Inl (Some \<lparr>bits = bts, bytes_per_sector = 512, reserved_sectors = 1, num_fats = FAT_NUM_FATS,
        fat_sectors = (nb + 512 - 1) div 512, cluster_count = cc, sectors_per_cluster = spc, total_sectors = n, data_offset = dof,
        root_offset = 1 + FAT_NUM_FATS * c mod 2 ^ 32, root_entries = (if bts = 16 then 512 else 224), root_cluster = 0\<rparr>))
      else Inr ((nb + 512 - 1) div 512)) = Inl (Some lay)"
    using c by (simp only: layout_step_def Let_def rs b32 not_False_eq_True if_True if_False dof_def cc_def nb_def)
  note e = step_result [OF this]
  have eq: "(dof + spc) mod 4294967296 < n" "c = (nb + 512 - 1) div 512" "is_valid_clusters bts cc"
      "lay = \<lparr>bits = bts, bytes_per_sector = 512, reserved_sectors = 1, num_fats = 2, fat_sectors = c, cluster_count = cc, sectors_per_cluster = spc,
        total_sectors = n, data_offset = dof, root_offset = 1 + 2 * c mod 4294967296, root_entries = (if bts = 16 then 512 else 224), root_cluster = 0\<rparr>"
  proof -
    show "(dof + spc) mod 4294967296 < n" using e(1) by simp
    show q: "c = (nb + 512 - 1) div 512" by (rule e(2))
    show "is_valid_clusters bts cc" using e(3) by simp
    show "lay = \<lparr>bits = bts, bytes_per_sector = 512, reserved_sectors = 1, num_fats = 2, fat_sectors = c, cluster_count = cc, sectors_per_cluster = spc,
        total_sectors = n, data_offset = dof, root_offset = 1 + 2 * c mod 4294967296, root_entries = (if bts = 16 then 512 else 224), root_cluster = 0\<rparr>"
      using e(4) unfolding q [symmetric] by simp
  qed
  have small: "c \<le> 8388608" unfolding eq(2) nb_def using step_sectors_small [of "(cc + 2) * 3 + 1" 2] step_sectors_small [of "(cc + 2) * bts" 8] by auto
  have d: "dof = 1 + 2 * c + root_sectors bts" using small assms(2) by (auto simp: dof_def root_sectors_def)
  have "(cc + 2) * 3 + 1 < 4294967296" "(cc + 2) * bts < 4294967296" using eq(3) assms(2) by (auto simp: is_valid_clusters_def)
  then have nb: "nb = table_bytes bts cc" by (simp add: nb_def table_bytes_def)
  show "bits lay = bts" "bytes_per_sector lay = 512" "reserved_sectors lay = 1" "num_fats lay = 2" "sectors_per_cluster lay = spc" "total_sectors lay = n"
    "root_entries lay = (if bts = 16 then 512 else 224)" "root_cluster lay = 0" "is_valid_clusters bts (cluster_count lay)" "cluster_count lay = (n - data_offset lay) div spc"
    "fat_sectors lay = (table_bytes bts (cluster_count lay) + 511) div 512" "root_offset lay = 1 + 2 * fat_sectors lay" "data_offset lay = 1 + 2 * fat_sectors lay + root_sectors bts"
    using eq(2,3) nb d small by (simp_all add: eq(4) cc_def)
  show "data_offset lay + spc < n" using eq(1) d small assms(2,3) by (auto simp: eq(4) root_sectors_def)
qed

lemma recommended_spc:
  assumes "recommended_sectors_per_cluster n = Some spc"
  shows "spc \<in> {1, 2, 4, 8, 16, 32, 64}" "n \<le> U32_MAX" "n < spc * 2 ^ 26"
  using assms by (auto simp: recommended_sectors_per_cluster_def split: if_splits)

lemma find_in: "List.find P xs = Some y \<Longrightarrow> y \<in> set xs"
  by (induction xs) (auto split: if_splits)

lemma setup_layout_cases:
  assumes "setup_layout n = Inr lay"
  obtains bts spc where "calc_fat_layout bts n 512 spc = Some lay" "bts \<in> {12, 16, 32}" "spc \<in> {1, 2, 4, 8, 16, 32, 64}" "n \<le> U32_MAX" "n < spc * 2 ^ 26"
proof -
  obtain spc where spc: "recommended_sectors_per_cluster n = Some spc" using assms by (auto simp: setup_layout_def split: option.splits)
  let ?rs = "map (\<lambda>bts. calc_fat_layout bts n 512 spc) [12, 16, 32]"
  have "List.find (\<lambda>r. r \<noteq> None) ?rs = Some (Some lay)"
    using assms spc unfolding setup_layout_def by (cases "List.find (\<lambda>r. r \<noteq> None) ?rs") (auto simp del: map_eq_Cons_conv list.map find.simps split: option.splits)
  then have "Some lay \<in> set ?rs" by (rule find_in)
  then obtain bts where "bts \<in> set [12, 16, 32]" "Some lay = calc_fat_layout bts n 512 spc" unfolding set_map by (elim imageE)
  then have "\<exists>bts \<in> {12, 16, 32}. calc_fat_layout bts n 512 spc = Some lay" by (intro bexI [of _ bts]) (simp_all only: list.set)
  then show ?thesis using that recommended_spc [OF spc] by blast
qed

lemma layout_step_bits: "layout_step bts n bps spc r en c = Inl (Some lay) \<Longrightarrow> bits lay = bts"
  unfolding layout_step_def Let_def by (drule step_result(4), erule ssubst) (simp only: fat_layout.select_convs)


lemma calc_layout_bits: "calc_fat_layout bts n 512 spc = Some lay \<Longrightarrow> bits lay = bts"
  using calc_layout_step layout_step_bits by metis


text \<open>What a new FAT12 or FAT16 volume looks like.\<close>

definition layout_1x :: "nat \<Rightarrow> nat \<Rightarrow> nat \<Rightarrow> nat \<Rightarrow> nat \<Rightarrow> fat_volume" where
  "layout_1x bts n spc f cc = \<lparr>bits = bts, bytes_per_sector = 512, reserved_sectors = 1, num_fats = 2, fat_sectors = f, cluster_count = cc,
     sectors_per_cluster = spc, total_sectors = n, data_offset = 1 + 2 * f + root_sectors bts, root_offset = 1 + 2 * f,
     root_entries = (if bts = 16 then 512 else 224), root_cluster = 0\<rparr>"

lemma setup_layout_1x:
  assumes "setup_layout n = Inr lay" "bits lay \<noteq> 32"
  obtains bts spc f cc where "lay = layout_1x bts n spc f cc" "bts = 12 \<or> bts = 16" "spc \<in> {1, 2, 4, 8, 16, 32, 64}" "n \<le> U32_MAX" "0 < f" "f < 2 ^ 16"
    "1 + 2 * f + root_sectors bts + spc < n" "cc = (n - (1 + 2 * f + root_sectors bts)) div spc" "is_valid_clusters bts cc" "table_bytes bts cc \<le> 512 * f" "f \<le> 256"
proof -
  obtain bts spc where c: "calc_fat_layout bts n 512 spc = Some lay" "bts \<in> {12, 16, 32}" "spc \<in> {1, 2, 4, 8, 16, 32, 64}" "n \<le> U32_MAX" "n < spc * 2 ^ 26"
    using setup_layout_cases [OF assms(1)] .
  have b: "bts = 12 \<or> bts = 16" using c(2) assms(2) calc_layout_bits [OF c(1)] by auto
  have spc: "spc \<le> 64" using c(3) by auto
  note l = calc_layout_1x [OF c(1) b spc c(4)]
  define f where "f = fat_sectors lay"
  define cc where "cc = cluster_count lay"
  have lay: "lay = layout_1x bts n spc f cc" using l by (cases lay) (simp add: layout_1x_def f_def cc_def)
  have f: "f = (table_bytes bts cc + 511) div 512" using l(14) by (simp add: f_def cc_def)
  have tb: "2 < table_bytes bts cc" "table_bytes bts cc < 2 ^ 24" using l(13) b by (auto simp: table_bytes_def is_valid_clusters_def cc_def)
  have "table_bytes bts cc \<le> 131052" using l(13) b by (auto simp: table_bytes_def is_valid_clusters_def cc_def)
  then have "f \<le> 256" unfolding f by simp
  moreover have "0 < f" "f < 2 ^ 16" "table_bytes bts cc \<le> 512 * f" using tb unfolding f by simp_all
  ultimately show ?thesis using that [OF lay b c(3,4)] l(10-13) by (simp add: f_def cc_def)
qed

lemma spc_power2: "spc \<in> {1, 2, 4, 8, 16, 32, 64} \<Longrightarrow> ispower2 (of_nat spc)"
  by (auto simp: ispower2_def)

lemma parse_setup_1x:
  assumes "bts = 12 \<or> bts = 16" "spc \<in> {1, 2, 4, 8, 16, 32, 64}" "n \<le> U32_MAX" "0 < f" "f < 2 ^ 16" "1 + 2 * f + root_sectors bts + spc < n"
    "cc = (n - (1 + 2 * f + root_sectors bts)) div spc" "is_valid_clusters bts cc"
  shows "parse_bpb n (setup_bpb (layout_1x bts n spc f cc)) = Some ((layout_1x bts n spc f cc)\<lparr>bits := if cc \<le> FAT12_MAX_CLUSTERS then 12 else 16\<rparr>)"
proof -
  let ?b = "setup_bpb (layout_1x bts n spc f cc)"
  have b: "b_bytes_per_sector ?b = 512" "b_sectors_per_cluster ?b = spc" "b_reserved_sectors ?b = 1" "b_num_fats ?b = 2" "b_fat_size_16 ?b = f"
      "b_root_entries ?b = (if bts = 16 then 512 else 224)" "b_total_sectors_32 ?b = n" "b_total_sectors_16 ?b = (if n \<ge> U16_MAX then 0 else n)"
    using assms(1,5) by (auto simp: setup_bpb_def layout_1x_def)
  have t: "(if b_total_sectors_16 ?b = 0 then b_total_sectors_32 ?b else b_total_sectors_16 ?b) = n" using assms(6) by (simp add: b)
  have r: "(b_root_entries ?b * 32 + 512 - 1) div 512 = root_sectors bts" using assms(1) by (auto simp: b root_sectors_def)
  have cc: "(n - (1 + 2 * f + root_sectors bts)) div spc = cc" using assms(7) by simp
  have p: "is_valid_bps 512" "ispower2 (of_nat spc)" using spc_power2 [OF assms(2)] by (simp_all add: is_valid_bps_def)
  show ?thesis
    unfolding parse_bpb_def Let_def t b(1-5) r cc using p assms(3,4,6) b(6) by (simp add: layout_1x_def cc [simplified])
qed

lemma setup_bpb_fits:
  assumes "bytes_per_sector lay = 512" "sectors_per_cluster lay < 256" "reserved_sectors lay < 2 ^ 16" "num_fats lay < 256" "root_entries lay < 2 ^ 16" "total_sectors lay < 2 ^ 32"
  shows "bpb_fits (setup_bpb lay)"
  using assms by (simp add: bpb_fits_def setup_bpb_def ascii_def)

lemma length_vbr: "bpb_fits (setup_bpb lay) \<Longrightarrow> length (vbr lay) = 512"
  by (simp add: vbr_def length_bpb_bytes)

section \<open>Writing the volume\<close>

definition device_ok :: "nat \<Rightarrow> volume \<Rightarrow> bool" where
  "device_ok n v \<longleftrightarrow> length (dev v) = 512 * n"

lemma write_sectors_ok:
  assumes "env_ok e" "device_ok n v" "length data = 512 * k" "0 < k" "lba + k \<le> n"
  shows "fat_write_sectors e v lba data = (OPAL_OK, v\<lparr>writes := writes v + 1, dev := write_at (dev v) (lba * 512) data\<rparr>)"
  using assms by (simp add: fat_write_sectors_def env_ok_def device_ok_def Let_def)

lemma device_ok_write:
  assumes "device_ok n v" "length data = 512 * k" "lba + k \<le> n"
  shows "device_ok n (v\<lparr>writes := w, dev := write_at (dev v) (lba * 512) data\<rparr>)"
proof -
  have "(lba + k) * 512 \<le> n * 512" using assms(3) by (rule mult_le_mono1)
  then show ?thesis using assms(1,2) by (simp add: device_ok_def length_write_at algebra_simps)
qed

lemma write_at_append:
  assumes "p + length a + length b \<le> length d"
  shows "write_at (write_at d p a) (p + length a) b = write_at d p (a @ b)"
proof (rule nth_equalityI)
  have l1: "length (write_at d p a) = length d" using assms by (intro length_write_at) simp
  show "length (write_at (write_at d p a) (p + length a) b) = length (write_at d p (a @ b))" using assms l1 by (simp add: length_write_at)
  fix i assume "i < length (write_at (write_at d p a) (p + length a) b)"
  then have i: "i < length d" using assms l1 by (simp add: length_write_at)
  have "write_at (write_at d p a) (p + length a) b ! i = (if p + length a \<le> i \<and> i < p + length a + length b then b ! (i - (p + length a)) else write_at d p a ! i)"
    using write_at_nth [of "p + length a" b "write_at d p a" i] assms l1 i by simp
  also have "\<dots> = write_at d p (a @ b) ! i"
    using write_at_nth [of p a d i] write_at_nth [of p "a @ b" d i] assms i by (auto simp: nth_append)
  finally show "write_at (write_at d p a) (p + length a) b ! i = write_at d p (a @ b) ! i" .
qed

lemma length_sectors: "\<forall>s \<in> set ss. length s = 512 \<Longrightarrow> length (concat ss) = 512 * length ss"
  by (induction ss) auto

lemma write_seq_ok:
  assumes "env_ok e" "device_ok n v" "\<forall>s \<in> set ss. length s = 512" "lba + length ss \<le> n"
  shows "\<exists>w. write_seq e v lba ss = (OPAL_OK, v\<lparr>writes := w, dev := write_at (dev v) (lba * 512) (concat ss)\<rparr>)"
  using assms(2-4)
proof (induction ss arbitrary: v lba)
  case Nil
  have "write_at (dev v) (lba * 512) [] = dev v" by (simp add: write_at_def)
  then show ?case by (intro exI [of _ "writes v"]) simp
next
  case (Cons s ss)
  have ls: "length s = 512 * 1" using Cons.prems(2) by simp
  have le: "lba + 1 \<le> n" using Cons.prems(3) by simp
  let ?v = "v\<lparr>writes := writes v + 1, dev := write_at (dev v) (lba * 512) s\<rparr>"
  have w1: "fat_write_sectors e v lba s = (OPAL_OK, ?v)" using write_sectors_ok [OF assms(1) Cons.prems(1) ls _ le] by simp
  have ok: "device_ok n ?v" by (rule device_ok_write [OF Cons.prems(1) ls le])
  obtain w where w: "write_seq e ?v (lba + 1) ss = (OPAL_OK, ?v\<lparr>writes := w, dev := write_at (dev ?v) ((lba + 1) * 512) (concat ss)\<rparr>)"
    using Cons.IH [OF ok, of "lba + 1"] Cons.prems(2,3) by auto
  have lc: "length (concat ss) = 512 * length ss" using Cons.prems(2) by (intro length_sectors) simp
  have "(lba + Suc (length ss)) * 512 \<le> n * 512" using Cons.prems(3) by (intro mult_le_mono1) simp
  then have "write_at (write_at (dev v) (lba * 512) s) (lba * 512 + length s) (concat ss) = write_at (dev v) (lba * 512) (s @ concat ss)"
    using Cons.prems(1) ls lc by (intro write_at_append) (simp add: device_ok_def algebra_simps)
  then have "write_at (write_at (dev v) (lba * 512) s) ((lba + 1) * 512) (concat ss) = write_at (dev v) (lba * 512) (s @ concat ss)"
    using ls by (simp add: algebra_simps)
  then show ?case using w1 w by (intro exI [of _ w]) simp
qed

lemma region_write_inside:
  assumes "p + length ys \<le> length xs" "p \<le> a" "a + n \<le> p + length ys"
  shows "region (write_at xs p ys) a n = region ys (a - p) n"
proof (rule nth_equalityI)
  show "length (region (write_at xs p ys) a n) = length (region ys (a - p) n)" using assms by (simp add: length_region length_write_at)
  fix i assume "i < length (region (write_at xs p ys) a n)"
  then have "i < n" using assms by (simp add: length_region length_write_at)
  then show "region (write_at xs p ys) a n ! i = region ys (a - p) n ! i" using assms by (simp add: region_nth length_write_at write_at_nth)
qed

lemma region_append:
  "a + n \<le> length xs \<Longrightarrow> region (xs @ ys) a n = region xs a n" "length xs = k \<Longrightarrow> k \<le> a \<Longrightarrow> region (xs @ ys) a n = region ys (a - k) n"
  by (auto simp: region_def)

lemma region_all: "length xs = n \<Longrightarrow> region xs 0 n = xs"
  by (simp add: region_def)

text \<open>A new table: the first sector, and zeros.\<close>

definition table_image :: "nat \<Rightarrow> nat \<Rightarrow> u8 list" where
  "table_image bts f = first_sector bts 0xf8 @ replicate ((f - 1) * 512) 0"

lemma length_first_sector [simp]: "length (first_sector bts media) = 512"
  by (simp add: first_sector_def Let_def)

lemma length_table_image: "0 < f \<Longrightarrow> length (table_image bts f) = 512 * f"
  by (cases f) (simp_all add: table_image_def)

lemma concat_empty: "concat (replicate k empty_sector) = replicate (k * 512) 0"
  by (induction k) (simp_all add: replicate_add)

lemma write_fats_eq:
  "write_fats e lay 0xf8 v = write_seq e v (reserved_sectors lay)
     (concat (replicate (num_fats lay) (first_sector (bits lay) 0xf8 # replicate (fat_sectors lay - 1) empty_sector)))"
  by (simp add: write_fats_def)

lemma fats_concat:
  "concat (concat (replicate 2 (first_sector bts 0xf8 # replicate (f - 1) empty_sector))) = table_image bts f @ table_image bts f"
  by (simp add: numeral_2_eq_2 table_image_def concat_empty)

lemma table_image_zero:
  assumes "0 < f" "(if bts = 12 then 3 else if bts = 16 then 4 else 12) \<le> i" "i < 512 * f"
  shows "table_image bts f ! i = 0"
proof -
  define start :: "u8 list" where "start = 0xf8 # (if bts = 12 then [0xff, 0xff] else if bts = 16 then [0xff, 0xff, 0xff]
       else [0xff, 0xff, 0x0f, 0xff, 0xff, 0xff, 0x0f, 0xff, 0xff, 0xff, 0x0f])"
  have l: "length start = (if bts = 12 then 3 else if bts = 16 then 4 else 12)" by (simp add: start_def)
  then have k: "length start \<le> i" "length start \<le> 12" using assms(2) by (auto split: if_splits)
  have "table_image bts f = start @ replicate (512 - length start) 0 @ replicate ((f - 1) * 512) 0" by (simp add: table_image_def first_sector_def Let_def start_def)
  moreover have "i - length start < (512 - length start) + (f - 1) * 512" using assms(1,3) k by (cases f) auto
  ultimately show ?thesis using k by (simp add: nth_append)
qed

lemma format_1x:
  assumes "env_ok e" "device_ok n v" "setup_layout n = Inr lay" "bits lay \<noteq> 32"
  shows "\<exists>v'. fat_format e v = (Inr (init_sb_from_layout lay v'), v') \<and> device_ok n v' \<and>
    dev v' = write_at (dev v) 0 (vbr lay @ table_image (bits lay) (fat_sectors lay) @ table_image (bits lay) (fat_sectors lay) @ replicate (root_sectors (bits lay) * 512) 0)"
proof -
  obtain bts spc f cc where l: "lay = layout_1x bts n spc f cc" "bts = 12 \<or> bts = 16" "spc \<in> {1, 2, 4, 8, 16, 32, 64}" "n \<le> U32_MAX" "0 < f" "f < 2 ^ 16"
      "1 + 2 * f + root_sectors bts + spc < n" "cc = (n - (1 + 2 * f + root_sectors bts)) div spc" "is_valid_clusters bts cc" "table_bytes bts cc \<le> 512 * f" "f \<le> 256"
    using setup_layout_1x [OF assms(3,4)] .
  have L: "bits lay = bts" "reserved_sectors lay = 1" "num_fats lay = 2" "fat_sectors lay = f" "root_offset lay = 1 + 2 * f" "root_entries lay = (if bts = 16 then 512 else 224)"
    by (simp_all add: l(1) layout_1x_def)
  have fits: "bpb_fits (setup_bpb lay)" using l(3,4) by (intro setup_bpb_fits) (auto simp: l(1) layout_1x_def)
  have lv: "length (vbr lay) = 512 * 1" using length_vbr [OF fits] by simp
  let ?im = "table_image bts f" and ?z = "replicate (root_sectors bts * 512) (0 :: u8)"
  have li: "length ?im = 512 * f" by (rule length_table_image [OF l(5)])
  let ?v1 = "v\<lparr>writes := writes v + 1, dev := write_at (dev v) (0 * 512) (vbr lay)\<rparr>"
  have w1: "write_vbr e lay v = (OPAL_OK, ?v1)" using write_sectors_ok [OF assms(1,2) lv, of 0] l(7) assms(4) by (simp add: write_vbr_def)
  have d1: "device_ok n ?v1" by (rule device_ok_write [OF assms(2) lv]) (use l(7) in simp)
  let ?ss = "concat (replicate 2 (first_sector bts 0xf8 # replicate (f - 1) empty_sector))"
  have ss: "\<forall>s \<in> set ?ss. length s = 512" "length ?ss = 2 * f" using l(5) by (auto simp: numeral_2_eq_2)
  obtain w2 where w2: "write_seq e ?v1 1 ?ss = (OPAL_OK, ?v1\<lparr>writes := w2, dev := write_at (dev ?v1) (1 * 512) (?im @ ?im)\<rparr>)"
    using write_seq_ok [OF assms(1) d1 ss(1), of 1] ss(2) l(7) unfolding fats_concat by auto
  let ?v2 = "?v1\<lparr>writes := w2, dev := write_at (dev ?v1) (1 * 512) (?im @ ?im)\<rparr>"
  have d2: "device_ok n ?v2" by (rule device_ok_write [OF d1, of _ "2 * f"]) (use li l(7) in simp_all)
  have rs: "(root_entries lay * 32 + 512 - 1) div 512 = root_sectors bts" using l(2) by (auto simp: L root_sectors_def)
  let ?zs = "replicate (root_sectors bts) empty_sector"
  obtain w3 where w3: "write_seq e ?v2 (1 + 2 * f) ?zs = (OPAL_OK, ?v2\<lparr>writes := w3, dev := write_at (dev ?v2) ((1 + 2 * f) * 512) ?z\<rparr>)"
    using write_seq_ok [OF assms(1) d2, of ?zs "1 + 2 * f"] l(7) unfolding concat_empty by auto
  let ?v3 = "?v2\<lparr>writes := w3, dev := write_at (dev ?v2) ((1 + 2 * f) * 512) ?z\<rparr>"
  have d3: "device_ok n ?v3" by (rule device_ok_write [OF d2, of _ "root_sectors bts"]) (use l(7) in simp_all)
  have "fat_format e v = (Inr (init_sb_from_layout lay ?v3), ?v3)"
  proof -
    have s: "length (dev v) div 512 = n" using assms(2) by (simp add: device_ok_def)
    have a: "alloc_ok e = True" "(n > U32_MAX) = False" "(bits lay = 32) = False" using assms(1,4) l(4) by (simp_all add: env_ok_def)
    define v1 v2 v3 where v: "v1 = ?v1" "v2 = ?v2" "v3 = ?v3"
    have f: "write_fats e lay 0xf8 v1 = (OPAL_OK, v2)" unfolding write_fats_eq L v by (rule w2)
    have r: "write_root e lay v2 = (OPAL_OK, v3)" unfolding write_root_def a(3) if_False rs L(5) v by (rule w3)
    have w: "write_vbr e lay v = (OPAL_OK, v1)" unfolding v by (rule w1)
    show ?thesis
      unfolding v(3) [symmetric] fat_format_def s a Let_def assms(3) sum.case w prod.case not_True_eq_False if_False kerrno_ok_iff simp_thms by (simp add: f r)
  qed
  moreover have "dev ?v3 = write_at (dev v) 0 (vbr lay @ ?im @ ?im @ ?z)"
  proof -
    have tot: "512 + 512 * (2 * f) + root_sectors bts * 512 \<le> length (dev v)" using assms(2) l(7) by (simp add: device_ok_def)
    have e1: "write_at (write_at (dev v) 0 (vbr lay)) (1 * 512) (?im @ ?im) = write_at (dev v) 0 (vbr lay @ ?im @ ?im)"
      using write_at_append [of 0 "vbr lay" "?im @ ?im" "dev v"] lv li tot by simp
    have e2: "write_at (write_at (dev v) 0 (vbr lay @ ?im @ ?im)) ((1 + 2 * f) * 512) ?z = write_at (dev v) 0 ((vbr lay @ ?im @ ?im) @ ?z)"
      using write_at_append [of 0 "vbr lay @ ?im @ ?im" ?z "dev v"] lv li tot by (simp add: algebra_simps)
    show ?thesis using e1 e2 by simp
  qed
  ultimately show ?thesis using d3 unfolding L by blast
qed

section \<open>The table of a new volume\<close>

lemma entry_zero:
  assumes "2 \<le> c" "c < cc + 2" "bts = 12 \<or> bts = 16" "table_bytes bts cc \<le> 512 * f" "0 < f"
  shows "entry bts (table_image bts f) c = 0" "entry_pos bts c + entry_width bts \<le> 512 * f"
proof -
  show e: "entry_pos bts c + entry_width bts \<le> 512 * f"
  proof (cases "bts = 12")
    case True
    have "c * 3 div 2 + 2 \<le> ((cc + 2) * 3 + 1) div 2" using assms(2) by presburger
    then show ?thesis using assms(4) True by (simp add: entry_pos_def entry_width_def table_bytes_def)
  next
    case False
    then have b: "bts = 16" using assms(3) by simp
    have "c * 2 + 2 \<le> (cc + 2) * 16 div 8" using assms(2) by simp
    then show ?thesis using assms(4) b by (simp add: entry_pos_def entry_width_def table_bytes_def)
  qed
  have p: "(if bts = 12 then 3 else if bts = 16 then 4 else 12) \<le> entry_pos bts c" using assms(1,3) by (auto simp: entry_pos_def)
  have z: "region (table_image bts f) (entry_pos bts c) (entry_width bts) ! k = 0" if "k < entry_width bts" for k
  proof -
    have "region (table_image bts f) (entry_pos bts c) (entry_width bts) ! k = table_image bts f ! (entry_pos bts c + k)"
      using e that length_table_image [OF assms(5), of bts] by (intro region_nth) simp_all
    also have "\<dots> = 0" using p e that by (intro table_image_zero [OF assms(5)]) simp_all
    finally show ?thesis .
  qed
  show "entry bts (table_image bts f) c = 0"
    using assms(3) z [of 0] z [of 1] by (auto simp: entry_def Let_def entry_width_def fat12_decode_def fat16_extend_def le16_def)
qed

lemma table_1x:
  assumes "device_ok n v'" "dev v' = write_at d 0 (vbr lay @ table_image bts f @ table_image bts f @ z)" "length d = 512 * n" "length (vbr lay) = 512"
    "0 < f" "f < 2 ^ 16" "1 + 2 * f + length z div 512 < n" "512 dvd length z" "lay = layout_1x bts n spc f cc"
    and "f \<le> 256" "n \<le> U32_MAX"
  shows "fat_ok (fat_table_init (fat_layout.truncate lay) (dev v'))" "mirrored (fat_table_init (fat_layout.truncate lay) (dev v'))"
    "view (fat_table_init (fat_layout.truncate lay) (dev v')) = table_image bts f"
proof -
  let ?ft = "fat_table_init (fat_layout.truncate lay) (dev v')" and ?im = "table_image bts f"
  let ?X = "vbr lay @ ?im @ ?im @ z"
  have lay: "layout ?ft = fat_layout.truncate (layout_1x bts n spc f cc)" "buffer ?ft = None" "disk ?ft = dev v'" by (simp_all add: fat_table_init_def assms(9))
  have fb: "fat_bytes ?ft = 512 * f" "fat_offset ?ft = 1" "num_fats (layout ?ft) = 2"
    using assms(6) by (simp_all add: fat_bytes_def fat_offset_def fat_table_init_def assms(9) layout_1x_def fat_layout.truncate_def)
  have ca: "copy_at ?ft i = 512 + 512 * f * i" for i unfolding fb by simp
  have li: "length ?im = 512 * f" by (rule length_table_image [OF assms(5)])
  obtain k where k: "length z = 512 * k" using assms(8) by (elim dvdE)
  have lX: "length ?X = 512 + 512 * f + 512 * f + 512 * k" using assms(4) li k by simp
  have fit: "length ?X \<le> length d" using lX assms(3,7) k by simp
  have r0: "region (dev v') (512 + 512 * f * i) (512 * f) = ?im" if "i < 2" for i
  proof -
    have i: "i = 0 \<or> i = 1" using that by auto
    have "region (dev v') (512 + 512 * f * i) (512 * f) = region ?X (512 + 512 * f * i) (512 * f)"
      unfolding assms(2) using region_write_inside [of 0 ?X d "512 + 512 * f * i" "512 * f"] fit lX i by auto
    also have "\<dots> = region (?im @ ?im @ z) (512 * f * i) (512 * f)" using region_append(2) [OF assms(4)] by simp
    also have "\<dots> = ?im" using i li by (auto simp: region_def)
    finally show ?thesis .
  qed
  show "fat_ok ?ft" unfolding fat_ok_def ca fb lay(2,3) option.case using assms(1,5,7,10,11) by (auto simp: device_ok_def less_2_cases_iff)
  show v: "view ?ft = ?im" unfolding view_def lay(2,3) option.case ca fb using r0 [of 0] by simp
  show "mirrored ?ft" unfolding mirrored_def v ca fb lay(3) using r0 by (intro allI impI) (simp add: algebra_simps)
qed

text \<open>Mounting a new FAT12 or FAT16 volume: the format is taken from the number of clusters.\<close>

lemma mount_1x:
  assumes "env_ok e" "length (dev v) = 512 * n" "setup_layout n = Inr lay" "bits lay \<noteq> 32" "device_ok n v'"
    and "dev v' = write_at (dev v) 0 (vbr lay @ table_image (bits lay) (fat_sectors lay) @ table_image (bits lay) (fat_sectors lay) @
      replicate (root_sectors (bits lay) * 512) 0)"
  shows "fat_mount e v' = Inr (init_sb_from_layout (lay\<lparr>bits := if cluster_count lay \<le> FAT12_MAX_CLUSTERS then 12 else 16\<rparr>) v')"
proof -
  obtain bts spc f cc where l: "lay = layout_1x bts n spc f cc" "bts = 12 \<or> bts = 16" "spc \<in> {1, 2, 4, 8, 16, 32, 64}" "n \<le> U32_MAX" "0 < f" "f < 2 ^ 16"
      "1 + 2 * f + root_sectors bts + spc < n" "cc = (n - (1 + 2 * f + root_sectors bts)) div spc" "is_valid_clusters bts cc" "table_bytes bts cc \<le> 512 * f" "f \<le> 256"
    using setup_layout_1x [OF assms(3,4)] .
  have L: "bits lay = bts" "fat_sectors lay = f" "cluster_count lay = cc" by (simp_all add: l(1) layout_1x_def)
  have fits: "bpb_fits (setup_bpb lay)" using l(3,4) by (intro setup_bpb_fits) (auto simp: l(1) layout_1x_def)
  have lv: "length (vbr lay) = 512" by (rule length_vbr [OF fits])
  let ?X = "vbr lay @ table_image bts f @ table_image bts f @ replicate (root_sectors bts * 512) 0"
  have X: "length ?X \<le> length (dev v)" using lv length_table_image [OF l(5), of bts] l(7) assms(2) by simp
  have "region (dev v') 0 512 = vbr lay"
    unfolding assms(6) L using region_write_inside [of 0 ?X "dev v" 0 512] X lv by (simp add: region_append(1) region_all)
  then have s0: "take 512 (dev v') = vbr lay" by (simp add: region_def)
  have len: "length (dev v') div 512 = n" using assms(5) by (simp add: device_ok_def)
  have rd: "fat_read_sectors e v' 0 1 = Inr (vbr lay)" unfolding fat_read_sectors_def len using assms(1) l(7) s0 by (simp add: env_ok_def)
  have "parse_bpb n (bpb_of_bytes (vbr lay)) = Some (lay\<lparr>bits := if cluster_count lay \<le> FAT12_MAX_CLUSTERS then 12 else 16\<rparr>)"
    unfolding vbr_def bpb_of_bytes_bpb_bytes [OF fits] L(3) using parse_setup_1x [OF l(2-9)] l(1) by simp
  then show ?thesis unfolding fat_mount_def rd len using assms(1) by (simp add: env_ok_def)
qed

section \<open>A new FAT32 volume\<close>





section \<open>Examples\<close>

lemma layout_loop_numeral [simp]:
  "layout_loop (numeral k) step c = (case step c of Inl r \<Rightarrow> r | Inr nxt \<Rightarrow> layout_loop (pred_numeral k) step nxt)"
  by (simp add: numeral_eq_Suc)

lemmas eval_layout = setup_layout_def recommended_sectors_per_cluster_def calc_fat_layout_def layout_step_def is_valid_clusters_def Let_def layout_1x_def root_sectors_def

lemma setup_layout_100: "setup_layout 100 = Inr (layout_1x 12 100 1 1 83)"
  by (simp add: eval_layout)

lemma setup_layout_4124: "setup_layout 4124 = Inr (layout_1x 16 4124 1 16 4059)"
  by (simp add: eval_layout)

lemma setup_layout_356: "setup_layout 356 = Inr (layout_1x 12 356 1 1 339)"
  by (simp add: eval_layout)


lemma fat12_find_full:
  assumes "1 \<le> k" "k \<le> 170"
  shows "fat12_find (replicate 512 0xff) 339 k = None"
  using assms
proof (induction "170 - k" arbitrary: k)
  case 0
  then show ?case by (subst fat12_find.simps) (simp add: rd_def)
next
  case (Suc m)
  then have k: "k < 170" by simp
  have "fat12_find (replicate 512 0xff) 339 (k + 1) = None" using Suc by (intro Suc.hyps(1)) auto
  then show ?case using k by (subst fat12_find.simps) simp
qed

lemma truncate_356:
  "fat_layout.truncate (layout_1x 12 356 1 1 339) =
    \<lparr>bits = 12, bytes_per_sector = 512, reserved_sectors = 1, num_fats = 2, fat_sectors = 1, cluster_count = 339\<rparr>"
  by (simp add: layout_1x_def fat_layout.truncate_def)

section \<open>Properties\<close>

text \<open>
  C16. A volume formatted as FAT12 or FAT16 mounts again as it was formatted: every write succeeds, mounting reads the
  parameter block back and finds the same layout, both copies of the table agree, and every cluster of the volume is free. The condition on
  the number of clusters is needed for FAT16: with fewer clusters the volume mounts as FAT12.
\<close>

theorem fat_format_mount:
  assumes "env_ok e" "length (dev v) = 512 * n" "setup_layout n = Inr lay" "bits lay \<noteq> 32" "bits lay = 16 \<longrightarrow> FAT12_MAX_CLUSTERS < cluster_count lay"
  shows "\<exists>v' sb. fat_format e v = (Inr sb, v') \<and> fat_mount e v' = Inr sb \<and> sb_layout sb = lay \<and> fat_ok (sb_table sb) \<and> mirrored (sb_table sb) \<and>
    (\<forall>c. 2 \<le> c \<and> c < cluster_count lay + 2 \<longrightarrow> map_option fst (table_at e (sb_table sb) c) = Some (Inr 0))"
proof -
  obtain bts spc f cc where l: "lay = layout_1x bts n spc f cc" "bts = 12 \<or> bts = 16" "spc \<in> {1, 2, 4, 8, 16, 32, 64}" "n \<le> U32_MAX" "0 < f" "f < 2 ^ 16"
      "1 + 2 * f + root_sectors bts + spc < n" "cc = (n - (1 + 2 * f + root_sectors bts)) div spc" "is_valid_clusters bts cc" "table_bytes bts cc \<le> 512 * f" "f \<le> 256"
    using setup_layout_1x [OF assms(3,4)] .
  have d: "device_ok n v" using assms(2) by (simp add: device_ok_def)
  have L: "bits lay = bts" "fat_sectors lay = f" "cluster_count lay = cc" by (simp_all add: l(1) layout_1x_def)
  obtain v' where v': "fat_format e v = (Inr (init_sb_from_layout lay v'), v')" "device_ok n v'"
      "dev v' = write_at (dev v) 0 (vbr lay @ table_image bts f @ table_image bts f @ replicate (root_sectors bts * 512) 0)"
    using format_1x [OF assms(1) d assms(3,4)] unfolding L by blast
  have fits: "bpb_fits (setup_bpb lay)" using l(3,4) by (intro setup_bpb_fits) (auto simp: l(1) layout_1x_def)
  have lv: "length (vbr lay) = 512" by (rule length_vbr [OF fits])
  let ?sb = "init_sb_from_layout lay v'" and ?z = "replicate (root_sectors bts * 512) (0 :: u8)"
  have tab: "sb_table ?sb = fat_table_init (fat_layout.truncate lay) (dev v')" by (simp add: init_sb_from_layout_def)
  have t: "fat_ok (sb_table ?sb)" "mirrored (sb_table ?sb)" "view (sb_table ?sb) = table_image bts f"
    unfolding tab by (rule table_1x [OF v'(2,3) assms(2) lv l(5,6) _ _ l(1,11,4)]; use l(7) in simp)+
  have "lay\<lparr>bits := if cluster_count lay \<le> FAT12_MAX_CLUSTERS then 12 else 16\<rparr> = lay"
    using l(2,9) assms(5) L by (auto simp: l(1) layout_1x_def is_valid_clusters_def)
  then have "fat_mount e v' = Inr ?sb" using mount_1x [OF assms(1-4) v'(2)] v'(3) unfolding L by simp
  moreover have "map_option fst (table_at e (sb_table ?sb) c) = Some (Inr 0)" if "2 \<le> c" "c < cluster_count lay + 2" for c
  proof -
    have c: "c < cc + 2" using that(2) L by simp
    have b: "bits (layout (sb_table ?sb)) = bts" and fb: "fat_bytes (sb_table ?sb) = 512 * f"
      using l(6) by (simp_all add: init_sb_from_layout_def fat_table_init_def fat_bytes_def l(1) layout_1x_def fat_layout.truncate_def)
    have "in_table (sb_table ?sb) c" unfolding in_table_def b fb using entry_zero(2) [OF that(1) c l(2,10,5)] c l(9,2) by (auto simp: is_valid_clusters_def)
    from table_at_ok [OF t(1) assms(1) this] show ?thesis using entry_zero(1) [OF that(1) c l(2,10,5)] t(3) b by simp
  qed
  ultimately show ?thesis using v'(1) t(1,2) by (intro exI [of _ v'] exI [of _ ?sb]) (auto simp: init_sb_from_layout_def)
qed

theorem fat_format_mount_witness:
  "\<exists>v' sb. fat_format sample_fat_env \<lparr>dev = replicate 51200 0, writes = 0\<rparr> = (Inr sb, v') \<and> fat_mount sample_fat_env v' = Inr sb \<and>
     map_option fst (table_at sample_fat_env (sb_table sb) 84) = Some (Inr 0)"
proof -
  have "length (dev \<lparr>dev = replicate 51200 0, writes = 0\<rparr>) = 512 * 100" by simp
  from fat_format_mount [OF sample_fat_ok(2) this setup_layout_100] show ?thesis by (fastforce simp: layout_1x_def)
qed



text \<open>
  C18. Every device that is formatted as FAT16 with at most as many clusters as a FAT12 volume can have is mounted as FAT12: formatting
  succeeds, and mounting succeeds too but with the entries of the table read in the other format, every other parameter being as formatted.
  A device of 4124 sectors is one: as FAT12 it would have one cluster too many, but the larger tables of FAT16 leave fewer clusters than
  FAT16 needs.
\<close>

theorem fat16_mounts_as_fat12:
  assumes "env_ok e" "length (dev v) = 512 * n" "setup_layout n = Inr lay" "bits lay = 16" "cluster_count lay \<le> FAT12_MAX_CLUSTERS"
  shows "\<exists>v' sb sb'. fat_format e v = (Inr sb, v') \<and> sb_layout sb = lay \<and> fat_mount e v' = Inr sb' \<and> sb_layout sb' = lay\<lparr>bits := 12\<rparr>"
proof -
  have b: "bits lay \<noteq> 32" using assms(4) by simp
  have d: "device_ok n v" using assms(2) by (simp add: device_ok_def)
  obtain v' where v': "fat_format e v = (Inr (init_sb_from_layout lay v'), v')" "device_ok n v'"
      "dev v' = write_at (dev v) 0 (vbr lay @ table_image (bits lay) (fat_sectors lay) @ table_image (bits lay) (fat_sectors lay) @
        replicate (root_sectors (bits lay) * 512) 0)"
    using format_1x [OF assms(1) d assms(3) b] by blast
  have "fat_mount e v' = Inr (init_sb_from_layout (lay\<lparr>bits := 12\<rparr>) v')" using mount_1x [OF assms(1-3) b v'(2,3)] assms(5) by simp
  then show ?thesis using v'(1) by (simp add: init_sb_from_layout_def)
qed

theorem fat16_mounts_as_fat12_witness:
  "\<exists>v' sb sb'. fat_format sample_fat_env \<lparr>dev = replicate (512 * 4124) 0, writes = 0\<rparr> = (Inr sb, v') \<and> bits (sb_layout sb) = 16 \<and>
     fat_mount sample_fat_env v' = Inr sb' \<and> bits (sb_layout sb') = 12"
proof -
  have "length (dev \<lparr>dev = replicate (512 * 4124) 0, writes = 0\<rparr>) = 512 * 4124" by simp
  from fat16_mounts_as_fat12 [OF sample_fat_ok(2) this setup_layout_4124] show ?thesis by (fastforce simp: layout_1x_def)
qed

text \<open>
  On a FAT12 volume of 356 sectors the search for a free cluster reads one byte past the buffer of a full table.
\<close>

theorem fat12_full_overread:
  "\<exists>lay. setup_layout 356 = Inr lay \<and> fat_bytes (fat_table_init (fat_layout.truncate lay) d) = 512 \<and>
     table_alloc e ((fat_table_init (fat_layout.truncate lay) d)\<lparr>buffer := Some (replicate 512 0xff)\<rparr>) = None"
proof (rule exI [of _ "layout_1x 12 356 1 1 339"], unfold truncate_356, intro conjI)
  show "setup_layout 356 = Inr (layout_1x 12 356 1 1 339)" by (rule setup_layout_356)
qed (simp_all add: fat_table_init_def fat_bytes_def table_alloc_def fat12_table_alloc_def fat_table_readall_def fat12_find_full)

end
