(* ===== verification/Fs_Hstr.thy ===== *)
theory Fs_Hstr
  imports Kc_String
begin

text \<open>
  \<open>kernel/src/fs/hstr.c\<close>: hashed strings, kept inside the structure when short and on the heap when
  long. The two layouts of the union are two constructors; both keep the byte that tells them apart,
  \<^verbatim>\<open>in_len\<close>, the low byte of \<^verbatim>\<open>len\<close>. A string buffer is the list of its bytes. The allocator is an
  argument: \<open>kz n\<close> is \<^term>\<open>None\<close> when \<^verbatim>\<open>kzalloc(n)\<close> panics, else whether it returned a block.
\<close>

section \<open>Model\<close>

abbreviation HSTR_SHORT_LEN :: nat where "HSTR_SHORT_LEN \<equiv> 19"

datatype hstr = Short u32 u8 "u8 list" | Long u32 u32 "u8 list option"

definition HSTR_NULL :: hstr where
  "HSTR_NULL = Long 0 0xff None"

fun hash_loop :: "u8 list \<Rightarrow> u32 \<Rightarrow> u32" where
  "hash_loop [] hash = hash"
| "hash_loop (c # cs) hash = hash_loop cs ((push_bit 5 hash + hash) + ucast c)"

definition str_hash :: "u8 list \<Rightarrow> nat \<Rightarrow> u32 option" where
  "str_hash str len = do { cs \<leftarrow> slice str 0 len; Some (hash_loop cs 5381) }"

definition in_len_of :: "u32 \<Rightarrow> u8" where
  "in_len_of len = ucast len"

fun is_short :: "hstr \<Rightarrow> bool" where
  "is_short (Short h in_len s) = (in_len \<noteq> 0xff)"
| "is_short (Long h len s) = (in_len_of len \<noteq> 0xff)"

definition get_long_len :: "u32 \<Rightarrow> u32" where
  "get_long_len len = drop_bit 8 len"

definition make_long_len :: "u32 \<Rightarrow> u32" where
  "make_long_len len = or (push_bit 8 len) 0xff"

text \<open>A block served by the allocator is as long as the request, and zero.\<close>

definition kzalloc_bytes :: "(nat \<Rightarrow> bool option) \<Rightarrow> nat \<Rightarrow> u8 list option option" where
  "kzalloc_bytes kz n = do { ok \<leftarrow> kz n; Some (if ok then Some (replicate n 0) else None) }"

definition hstr_alloc :: "(nat \<Rightarrow> bool option) \<Rightarrow> nat \<Rightarrow> hstr option" where
  "hstr_alloc kz len =
     (if len + 1 < HSTR_SHORT_LEN then Some (Short 0 (of_nat len) (replicate HSTR_SHORT_LEN 0))
      else do {
        ptr \<leftarrow> kzalloc_bytes kz (len + 1);
        if ptr = None then Some HSTR_NULL
        else Some (Long 0 (make_long_len (of_nat len)) ptr)
      })"

fun hstrget :: "hstr \<Rightarrow> u8 list option" where
  "hstrget (Short h in_len s) = Some s"
| "hstrget (Long h len s) = s"

fun hstrlen :: "hstr \<Rightarrow> nat" where
  "hstrlen (Short h in_len s) = unat in_len"
| "hstrlen (Long h len s) = unat (get_long_len len)"

fun hstr_is_null :: "hstr \<Rightarrow> bool" where
  "hstr_is_null (Short h in_len s) = False"
| "hstr_is_null (Long h len s) = (s = None)"

text \<open>\<^verbatim>\<open>hstr_free\<close> gives the size it passes to \<^verbatim>\<open>kfree\<close>, if it calls it.\<close>

fun hstr_free :: "hstr \<Rightarrow> nat option" where
  "hstr_free (Short h in_len s) = None"
| "hstr_free (Long h len s) = Some (unat (get_long_len len) + 1)"

definition hstr_stack :: "u8 list \<Rightarrow> u32 \<Rightarrow> hstr option" where
  "hstr_stack str len = do { h \<leftarrow> str_hash str (unat len); Some (Long h (make_long_len len) (Some str)) }"

fun set_hash :: "hstr \<Rightarrow> u32 \<Rightarrow> hstr" where
  "set_hash (Short h in_len s) h' = Short h' in_len s"
| "set_hash (Long h len s) h' = Long h' len s"

fun get_hash :: "hstr \<Rightarrow> u32" where
  "get_hash (Short h in_len s) = h"
| "get_hash (Long h len s) = h"

definition hstr_rehash :: "hstr \<Rightarrow> hstr option" where
  "hstr_rehash hs = do { str \<leftarrow> hstrget hs; h \<leftarrow> str_hash str (hstrlen hs); Some (set_hash hs h) }"

fun hstr_fill :: "hstr \<Rightarrow> u8 list \<Rightarrow> hstr option" where
  "hstr_fill (Short h in_len s) xs = do { s \<leftarrow> blit s 0 xs; Some (Short h in_len s) }"
| "hstr_fill (Long h len s) xs = do { s \<leftarrow> s; s \<leftarrow> blit s 0 xs; Some (Long h len (Some s)) }"

definition hstr_clone :: "(nat \<Rightarrow> bool option) \<Rightarrow> hstr \<Rightarrow> hstr option" where
  "hstr_clone kz str =
     (if is_short str then Some str
      else do {
        let len = hstrlen str;
        hs \<leftarrow> hstr_alloc kz len;
        if hstr_is_null hs then Some hs
        else do {
          src \<leftarrow> (case hstrget str of None \<Rightarrow> if len = 0 then Some [] else None | Some s \<Rightarrow> Some s);
          xs \<leftarrow> slice src 0 len;
          hs \<leftarrow> hstr_fill hs xs;
          Some (set_hash hs (get_hash str))
        }
      })"

definition hstrdup :: "(nat \<Rightarrow> bool option) \<Rightarrow> mem \<Rightarrow> nat \<Rightarrow> hstr option" where
  "hstrdup kz m str = do {
     len \<leftarrow> strlen m str;
     hs \<leftarrow> hstr_alloc kz len;
     if hstr_is_null hs then Some hs
     else do {
       xs \<leftarrow> slice m str len;
       hs \<leftarrow> hstr_fill hs xs;
       hstr_rehash hs
     }
   }"

text \<open>\<^verbatim>\<open>memcmp\<close> works on one memory; the two buffers are laid out one behind the other.\<close>

definition hstr_equal :: "hstr \<Rightarrow> hstr \<Rightarrow> bool option" where
  "hstr_equal a b = do {
     let len = hstrlen a;
     if len = hstrlen b then do {
       x \<leftarrow> hstrget a;
       y \<leftarrow> hstrget b;
       r \<leftarrow> memcmp (x @ y) 0 (length x) len;
       Some (r = 0)
     } else Some False
   }"

section \<open>Texts\<close>

definition hstr_ok :: "hstr \<Rightarrow> bool" where
  "hstr_ok hs \<longleftrightarrow> (case hs of Short h l s \<Rightarrow> length s = HSTR_SHORT_LEN \<and> unat l + 1 < HSTR_SHORT_LEN
     | Long h len s \<Rightarrow> in_len_of len = 0xff \<and> (\<exists>b. s = Some b \<and> unat (get_long_len len) \<le> length b))"

definition text_of :: "hstr \<Rightarrow> u8 list" where
  "text_of hs = (case hstrget hs of None \<Rightarrow> [] | Some s \<Rightarrow> take (hstrlen hs) s)"

lemma long_len_low: "in_len_of (make_long_len len) = 0xff"
  by (rule word_eqI_upt) (simp add: upt_numeral make_long_len_def in_len_of_def bit_simps)

lemma long_len_get:
  assumes "unat len < 2 ^ 24"
  shows "get_long_len (make_long_len len) = len"
proof -
  have z: "\<not> bit len n" if "24 \<le> n" for n
  proof
    assume "bit len n"
    then have "bit (take_bit 24 (unat len)) n" using assms by (simp add: take_bit_nat_eq_self bit_unsigned_iff bit_imp_le_length)
    then show False using that by (simp add: bit_take_bit_iff)
  qed
  have "\<not> bit (mask 8 :: u32) (n + 8)" for n by (simp only: bit_mask_iff) simp
  moreover have "(mask 8 :: u32) = 0xff" by (simp add: mask_eq_exp_minus_1)
  ultimately have "\<not> bit (0xff :: u32) (n + 8)" for n by metis
  moreover have "n < 24" if "bit len n" for n using z that not_le by blast
  ultimately show ?thesis unfolding get_long_len_def make_long_len_def
    by (intro bit_word_eqI) (auto simp: bit_simps dest: bit_imp_le_length)
qed

lemma memcmp_loop_zero:
  assumes "i \<le> n" "a + n \<le> length m" "b + n \<le> length m"
  shows "\<exists>r. memcmp_loop m a b i n = Some r \<and> (r = 0 \<longleftrightarrow> take (n - i) (drop (a + i) m) = take (n - i) (drop (b + i) m))"
  using assms
proof (induction "n - i" arbitrary: i)
  case 0
  then show ?case by (subst memcmp_loop.simps) simp
next
  case (Suc d)
  then have i: "a + i < length m" "b + i < length m" "n - i = Suc (n - (i + 1))" by simp_all
  have "take (n - i) (drop (a + i) m) = m ! (a + i) # take (n - (i + 1)) (drop (a + (i + 1)) m)"
    "take (n - i) (drop (b + i) m) = m ! (b + i) # take (n - (i + 1)) (drop (b + (i + 1)) m)"
    using i by (simp_all add: nth_drop_eq)
  moreover obtain r where "memcmp_loop m a b (i + 1) n = Some r"
      "r = 0 \<longleftrightarrow> take (n - (i + 1)) (drop (a + (i + 1)) m) = take (n - (i + 1)) (drop (b + (i + 1)) m)"
    using Suc.hyps(1) [of "i + 1"] Suc.hyps(2) Suc.prems(2,3) by (metis Suc_eq_plus1 Suc_leI diff_Suc_1 diff_Suc_eq_diff_pred diff_diff_left zero_less_Suc zero_less_diff)
  ultimately show ?case using i Suc.prems by (subst (1) memcmp_loop.simps) auto
qed

lemma memcmp_zero:
  assumes "n \<le> length x" "n \<le> length y"
  shows "\<exists>r. memcmp (x @ y) 0 (length x) n = Some r \<and> (r = 0 \<longleftrightarrow> take n x = take n y)"
  using memcmp_loop_zero [of 0 n 0 "x @ y" "length x"] assms by (simp add: memcmp_def)

lemma hstr_len_text: "hstr_ok hs \<Longrightarrow> length (text_of hs) = hstrlen hs"
  by (cases hs) (auto simp: hstr_ok_def text_of_def)

text \<open>
  What \<^verbatim>\<open>hstr_alloc\<close> leaves is either \<^verbatim>\<open>HSTR_NULL\<close> or a structure into which exactly a text of that length
  and its terminator fit.
\<close>

definition alloc_fails :: "(nat \<Rightarrow> bool option) \<Rightarrow> nat \<Rightarrow> bool" where
  "alloc_fails kz len \<longleftrightarrow> HSTR_SHORT_LEN \<le> len + 1 \<and> kz (len + 1) = Some False"

lemma hstr_alloc_null:
  assumes "alloc_fails kz len"
  shows "hstr_alloc kz len = Some HSTR_NULL"
  using assms by (simp add: alloc_fails_def hstr_alloc_def kzalloc_bytes_def)

lemma hstr_alloc_ok:
  assumes "0 \<notin> set xs" "length xs < 2 ^ 24" "HSTR_SHORT_LEN \<le> length xs + 1 \<Longrightarrow> kz (length xs + 1) \<noteq> None" "\<not> alloc_fails kz (length xs)"
  shows "\<exists>hs hs' b. hstr_alloc kz (length xs) = Some hs \<and> \<not> hstr_is_null hs \<and> hstr_fill hs xs = Some hs' \<and>
    hstr_ok hs' \<and> hstrlen hs' = length xs \<and> hstrget hs' = Some b \<and> cstr b 0 xs \<and> text_of hs' = xs \<and>
    is_short hs' = (length xs + 1 < HSTR_SHORT_LEN) \<and>
    hstr_free hs' = (if length xs + 1 < HSTR_SHORT_LEN then None else Some (length xs + 1))"
proof (cases "length xs + 1 < HSTR_SHORT_LEN")
  case True
  have len: "unat (of_nat (length xs) :: u8) = length xs" using True by (simp add: unsigned_of_nat take_bit_nat_eq_self)
  have ff: "(of_nat (length xs) :: u8) \<noteq> 0xff"
  proof
    assume "(of_nat (length xs) :: u8) = 0xff"
    then have "length xs = unat (0xff :: u8)" using len by simp
    then show False using True by simp
  qed
  let ?b = "xs @ replicate (HSTR_SHORT_LEN - length xs) 0"
  have "?b = xs @ 0 # replicate (HSTR_SHORT_LEN - length xs - 1) 0" using True by (cases "HSTR_SHORT_LEN - length xs") simp_all
  then have "cstr ?b 0 xs" using cstr_append [OF assms(1), of "[]"] by simp
  then show ?thesis using True len ff by (simp add: hstr_alloc_def hstr_ok_def text_of_def)
next
  case False
  have "unat (of_nat (length xs) :: u32) = length xs" using assms(2) by (simp add: unsigned_of_nat take_bit_nat_eq_self)
  then have get: "unat (get_long_len (make_long_len (of_nat (length xs)))) = length xs" using long_len_get [of "of_nat (length xs)"] assms(2) by simp
  have kz: "kz (length xs + 1) = Some True" using assms(3,4) False by (auto simp: alloc_fails_def)
  have "cstr (xs @ [0]) 0 xs" using cstr_append [OF assms(1), of "[]" "[]"] by simp
  moreover have "replicate (length xs + 1) (0 :: u8) = replicate (length xs) 0 @ [0]" by (simp add: replicate_append_same)
  ultimately show ?thesis
    using False kz long_len_low [of "of_nat (length xs)"] get by (simp add: hstr_alloc_def kzalloc_bytes_def hstr_ok_def text_of_def)
qed

lemma hstr_buffer: "hstr_ok hs \<Longrightarrow> \<exists>b. hstrget hs = Some b \<and> hstrlen hs \<le> length b \<and> take (hstrlen hs) b = text_of hs"
proof (cases hs)
  case (Short h l s)
  moreover assume "hstr_ok hs"
  ultimately show ?thesis by (simp add: hstr_ok_def text_of_def)
next
  case (Long h len s)
  moreover assume "hstr_ok hs"
  ultimately obtain b where "s = Some b" "unat (get_long_len len) \<le> length b" by (simp only: hstr_ok_def hstr.case) blast
  then show ?thesis using Long by (simp add: text_of_def)
qed

lemma set_hash_ok [simp]: "hstr_ok (set_hash hs h) = hstr_ok hs"
  by (cases hs) (simp_all only: hstr_ok_def set_hash.simps hstr.case)

lemma set_hash_text [simp]: "hstrget (set_hash hs h) = hstrget hs" "hstrlen (set_hash hs h) = hstrlen hs"
  by (cases hs; simp)+

lemma set_hash_text_of [simp]: "text_of (set_hash hs h) = text_of hs"
  by (simp add: text_of_def split: option.split)

lemma set_hash_short [simp]: "is_short (set_hash hs h) = is_short hs"
  by (cases hs) simp_all

lemma set_hash_set_hash [simp]: "set_hash (set_hash hs h) h' = set_hash hs h'"
  by (cases hs) simp_all

lemma set_hash_get [simp]: "get_hash (set_hash hs h) = h"
  by (cases hs) simp_all

lemma set_hash_free [simp]: "hstr_free (set_hash hs h) = hstr_free hs"
  by (cases hs) simp_all

lemma cstr_slice: "cstr m s xs \<Longrightarrow> slice m s (length xs) = Some xs"
proof -
  assume c: "cstr m s xs"
  have "take (length xs) (drop s m) = xs" using c
  proof (induction xs arbitrary: s)
    case (Cons x xs)
    then show ?case by (auto simp: rd_Some_iff nth_drop_eq)
  qed simp
  then show ?thesis using cstr_bound [OF c] by simp
qed

lemma str_hash_ok: "len \<le> length s \<Longrightarrow> str_hash s len = Some (hash_loop (take len s) 5381)"
  by (simp add: str_hash_def)

section \<open>Properties\<close>

text \<open>
  C28. Duplicating a C string shorter than sixteen megabytes always returns, without an access outside the
  new buffer, unless the allocator panics. It yields \<^verbatim>\<open>HSTR_NULL\<close> exactly when the string needs a heap block
  and none is served; otherwise a well-formed hashed string whose buffer holds the text and its
  terminator, with the hash of the text, whose release passes to \<^verbatim>\<open>kfree\<close> the size that was allocated.
  Cloning the result, with any allocator that does not panic, yields the same string or \<^verbatim>\<open>HSTR_NULL\<close>.
\<close>

theorem hstrdup_correct:
  assumes "cstr m str xs" "length xs < 2 ^ 24" "HSTR_SHORT_LEN \<le> length xs + 1 \<Longrightarrow> kz (length xs + 1) \<noteq> None"
    and "HSTR_SHORT_LEN \<le> length xs + 1 \<Longrightarrow> kz' (length xs + 1) \<noteq> None"
  shows "\<exists>hs b. hstrdup kz m str = Some hs \<and>
    (if alloc_fails kz (length xs) then hs = HSTR_NULL
     else hstr_ok hs \<and> hstrlen hs = length xs \<and> hstrget hs = Some b \<and> cstr b 0 xs \<and> get_hash hs = hash_loop xs 5381 \<and>
       hstr_free hs = (if length xs + 1 < HSTR_SHORT_LEN then None else Some (length xs + 1)) \<and>
       hstr_clone kz' hs = Some (if alloc_fails kz' (length xs) then HSTR_NULL else hs))"
proof -
  have len: "strlen m str = Some (length xs)" using strlen_loop_ok [of m str 0 xs] assms(1) by (simp add: strlen_def)
  have sl: "slice m str (length xs) = Some xs" using cstr_slice [OF assms(1)] .
  show ?thesis
  proof (cases "alloc_fails kz (length xs)")
    case True
    then show ?thesis using len hstr_alloc_null [OF True] by (simp add: hstrdup_def HSTR_NULL_def)
  next
    case False
    obtain h0 h1 b where h: "hstr_alloc kz (length xs) = Some h0" "\<not> hstr_is_null h0" "hstr_fill h0 xs = Some h1"
        "hstr_ok h1" "hstrlen h1 = length xs" "hstrget h1 = Some b" "cstr b 0 xs" "text_of h1 = xs" "is_short h1 = (length xs + 1 < HSTR_SHORT_LEN)"
        "hstr_free h1 = (if length xs + 1 < HSTR_SHORT_LEN then None else Some (length xs + 1))"
      using hstr_alloc_ok [OF cstr_nonzero [OF assms(1)] assms(2,3) False] by blast
    have bs: "slice b 0 (length xs) = Some xs" using cstr_slice [OF h(7)] .
    define hs where "hs = set_hash h1 (hash_loop xs 5381)"
    have "hstrdup kz m str = Some hs"
      using len h(1-3,5,6) sl bs by (simp add: hstrdup_def hstr_rehash_def str_hash_def hs_def)
    moreover have "hstr_clone kz' hs = Some (if alloc_fails kz' (length xs) then HSTR_NULL else hs)"
    proof (cases "length xs + 1 < HSTR_SHORT_LEN")
      case True
      then show ?thesis using h(9) by (simp add: hstr_clone_def hs_def alloc_fails_def)
    next
      case long: False
      show ?thesis
      proof (cases "alloc_fails kz' (length xs)")
        case True
        then show ?thesis using long h(5,9) hstr_alloc_null [OF True] by (simp add: hstr_clone_def hs_def HSTR_NULL_def)
      next
        case ok: False
        have "kz' (length xs + 1) = kz (length xs + 1)" using ok False long assms(3,4) by (auto simp: alloc_fails_def)
        then have "hstr_alloc kz' (length xs) = Some h0" using h(1) by (simp only: hstr_alloc_def kzalloc_bytes_def)
        then show ?thesis using ok long h(2,3,5,6,9) bs by (simp add: hstr_clone_def hs_def)
      qed
    qed
    ultimately show ?thesis using False h(4-7,10) by (intro exI [of _ hs] exI [of _ b]) (simp add: hs_def)
  qed
qed

theorem hstrdup_correct_witness:
  "\<exists>hs b. hstrdup (\<lambda>_. Some True) (replicate 20 104 @ [0]) 0 = Some hs \<and> hstrget hs = Some b \<and> cstr b 0 (replicate 20 104) \<and>
     hstr_free hs = Some 21 \<and> hstr_clone (\<lambda>_. Some False) hs = Some HSTR_NULL"
proof -
  have "cstr (replicate 20 104 @ [0]) 0 (replicate 20 104)" using cstr_append [of "replicate 20 104" "[]" "[]"] by simp
  from hstrdup_correct [OF this, of "\<lambda>_. Some True" "\<lambda>_. Some False"] show ?thesis by (simp add: alloc_fails_def) blast
qed

text \<open>Two well-formed hashed strings compare equal exactly when their texts are equal, whatever their layouts.\<close>

theorem hstr_equal_correct:
  assumes "hstr_ok a" "hstr_ok b"
  shows "hstr_equal a b = Some (text_of a = text_of b)"
proof (cases "hstrlen a = hstrlen b")
  case True
  obtain x y where xy: "hstrget a = Some x" "hstrget b = Some y" "hstrlen a \<le> length x" "hstrlen b \<le> length y"
    using assms by (cases a; cases b) (auto simp: hstr_ok_def)
  show ?thesis using memcmp_zero [of "hstrlen a" x y] xy True by (auto simp: hstr_equal_def text_of_def)
next
  case False
  then have "text_of a \<noteq> text_of b" using hstr_len_text [OF assms(1)] hstr_len_text [OF assms(2)] by auto
  then show ?thesis using False by (simp add: hstr_equal_def)
qed

theorem hstr_equal_correct_witness:
  "hstr_equal (Short 0 2 (104 # 105 # replicate 17 0)) (Long 0 0x2ff (Some [104, 105])) = Some True"
proof -
  have g: "unat (get_long_len 0x2ff) = 2" by (simp add: get_long_len_def)
  have "hstr_ok (Short 0 2 (104 # 105 # replicate 17 0))" "hstr_ok (Long 0 0x2ff (Some [104, 105]))"
    using g by (simp_all add: hstr_ok_def in_len_of_def)
  from hstr_equal_correct [OF this] show ?thesis using g by (simp add: text_of_def)
qed

end
