(* ===== verification/Utils_Vmtree.thy ===== *)
theory Utils_Vmtree
  imports Opal_Prelude
begin

text \<open>
  \<open>kernel/src/utils/vmtree.c\<close>: the interval tree that maps address ranges to entries, a B-tree
  whose leaves hold up to sixteen consecutive ranges. A tagged pointer to a node is the node
  itself: the low bit of the pointer is the choice between \<open>Leaf\<close> and \<open>Inner\<close>, and every node
  has one owner. A node keeps the used prefix of its two arrays: the \<open>n\<close> pivots before the
  first \<^verbatim>\<open>UINTPTR_MAX\<close> filler, and the \<open>n + 1\<close> slots before the ones that are never read. The
  field \<^verbatim>\<open>parent\<close> is only written and is left out. The entry 0 is a hole.

  Allocation is part of the state: the results of the successive \<^verbatim>\<open>kzalloc\<close> calls are given by
  a function, and the number of nodes that were allocated and not yet freed is counted.
\<close>

section \<open>Model\<close>

abbreviation VMTREE_NODE_SLOTS :: nat where "VMTREE_NODE_SLOTS \<equiv> 16"
abbreviation UINTPTR_MAX :: u64 where "UINTPTR_MAX \<equiv> 0xffffffffffffffff"

datatype vmtree_status = VMTREE_OK | VMTREE_ERR_NOENT | VMTREE_ERR_EXISTS | VMTREE_ERR_INVAL | VMTREE_ERR_NOMEM

datatype vmtree_node = Leaf "u64 list" "u64 list" | Inner "u64 list" "vmtree_node list"

datatype vmtree_write_mode = VMTREE_WRITE_SET | VMTREE_WRITE_REMOVE

record vmtree_entry =
  entry_start :: u64
  entry_end :: u64
  entry_value :: u64

record node_heap =
  kz_ok :: "nat \<Rightarrow> bool"
  kz_calls :: nat
  live :: nat

definition kzalloc :: "node_heap \<Rightarrow> bool \<times> node_heap" where
  "kzalloc h = (if kz_ok h (kz_calls h) then (True, h\<lparr>kz_calls := kz_calls h + 1, live := live h + 1\<rparr>)
     else (False, h\<lparr>kz_calls := kz_calls h + 1\<rparr>))"

definition kfree_nodes :: "node_heap \<Rightarrow> nat \<Rightarrow> node_heap" where
  "kfree_nodes h n = h\<lparr>live := live h - n\<rparr>"

definition pivot_count :: "u64 list \<Rightarrow> nat" where
  "pivot_count ps = length ps"

definition node_is_full :: "u64 list \<Rightarrow> bool" where
  "node_is_full ps \<longleftrightarrow> pivot_count ps \<ge> VMTREE_NODE_SLOTS - 1"

fun slot_for_addr :: "u64 list \<Rightarrow> u64 \<Rightarrow> nat" where
  "slot_for_addr [] addr = 0"
| "slot_for_addr (p # ps) addr = (if addr \<ge> p then slot_for_addr ps addr + 1 else 0)"

definition slot_lo :: "u64 list \<Rightarrow> nat \<Rightarrow> u64 \<Rightarrow> u64" where
  "slot_lo ps slot lo = (if slot = 0 then lo else ps ! (slot - 1))"

definition slot_hi :: "u64 list \<Rightarrow> nat \<Rightarrow> u64 \<Rightarrow> u64" where
  "slot_hi ps slot hi = (if slot \<ge> pivot_count ps then hi else ps ! slot)"

text \<open>The ranges \<open>r = (r_lo, r_hi)\<close> that the loops over the slots of a node compute.\<close>

definition slot_ranges :: "u64 list \<Rightarrow> u64 \<Rightarrow> u64 \<Rightarrow> (u64 \<times> u64) list" where
  "slot_ranges ps lo hi = map (\<lambda>i. (slot_lo ps i lo, slot_hi ps i hi)) [0..<pivot_count ps + 1]"

lemma zip_size [termination_simp]: "(r, c) \<in> set (zip rs cs) \<Longrightarrow> size c < Suc (size_list size cs)"
  using set_zip_rightD [of r c rs cs] size_list_estimation' [of c cs "size c" size] by simp

lemma nth_size [termination_simp]: "i < length cs \<Longrightarrow> size (cs ! i) < Suc (size_list size cs)"
  using size_list_estimation' [of "cs ! i" cs "size (cs ! i)" size] by simp

definition alloc_leaf_node :: "u64 \<Rightarrow> node_heap \<Rightarrow> vmtree_node option \<times> node_heap" where
  "alloc_leaf_node entry h = (let (ok, h) = kzalloc h in (if ok then Some (Leaf [] [entry]) else None, h))"

text \<open>The number of \<^verbatim>\<open>kfree\<close> calls of \<^verbatim>\<open>free_subtree\<close>.\<close>

fun free_subtree :: "vmtree_node \<Rightarrow> bool \<Rightarrow> nat" where
  "free_subtree (Leaf ps ss) free_self = of_bool free_self"
| "free_subtree (Inner ps cs) free_self = sum_list (map (\<lambda>c. free_subtree c True) cs) + of_bool free_self"

fun child_is_uniform :: "vmtree_node \<Rightarrow> u64 option" where
  "child_is_uniform (Leaf ps ss) = (if pivot_count ps \<noteq> 0 then None else Some (ss ! 0))"
| "child_is_uniform (Inner ps cs) = None"

text \<open>\<^verbatim>\<open>remove_leaf_pivot\<close> and \<^verbatim>\<open>remove_internal_pivot\<close> have the same body.\<close>

definition remove_pivot :: "u64 list \<Rightarrow> 'a list \<Rightarrow> nat \<Rightarrow> u64 list \<times> 'a list" where
  "remove_pivot ps ss i = (take i ps @ drop (i + 1) ps, take (i + 1) ss @ drop (i + 2) ss)"

function merge_leaf_neighbors :: "nat \<Rightarrow> u64 list \<Rightarrow> u64 list \<Rightarrow> u64 list \<times> u64 list" where
  "merge_leaf_neighbors i ps ss =
     (if i < pivot_count ps then
        if ss ! i = ss ! (i + 1) then let (ps, ss) = remove_pivot ps ss i in merge_leaf_neighbors i ps ss
        else merge_leaf_neighbors (i + 1) ps ss
      else (ps, ss))"
  by pat_completeness auto
termination
  by (relation "measure (\<lambda>(i, ps, ss). length ps - i)") (auto simp: pivot_count_def remove_pivot_def)

text \<open>The allocation loop of \<^verbatim>\<open>promote_leaf_to_internal\<close>; on failure the children made so far are freed.\<close>

fun alloc_children :: "u64 list \<Rightarrow> vmtree_node list \<Rightarrow> node_heap \<Rightarrow> vmtree_node list option \<times> node_heap" where
  "alloc_children [] made h = (Some made, h)"
| "alloc_children (e # es) made h =
     (case alloc_leaf_node e h of
        (None, h) \<Rightarrow> (None, kfree_nodes h (length made))
      | (Some c, h) \<Rightarrow> alloc_children es (made @ [c]) h)"

definition promote_leaf_to_internal :: "u64 list \<Rightarrow> u64 list \<Rightarrow> node_heap \<Rightarrow> vmtree_status \<times> vmtree_node \<times> node_heap" where
  "promote_leaf_to_internal ps ss h =
     (case alloc_children ss [] h of
        (None, h) \<Rightarrow> (VMTREE_ERR_NOMEM, Leaf ps ss, h)
      | (Some cs, h) \<Rightarrow> (VMTREE_OK, Inner ps cs, h))"

definition insert_leaf_boundary :: "u64 list \<Rightarrow> u64 list \<Rightarrow> u64 \<Rightarrow> u64 \<Rightarrow> u64 \<Rightarrow> vmtree_status \<times> u64 list \<times> u64 list" where
  "insert_leaf_boundary ps ss lo hi x =
     (let slot = slot_for_addr ps x;
          left = slot_lo ps slot lo;
          right = slot_hi ps slot hi
      in if x = left \<or> x = right then (VMTREE_OK, ps, ss)
         else if node_is_full ps then (VMTREE_ERR_NOMEM, ps, ss)
         else (VMTREE_OK, take slot ps @ x # drop slot ps, take (slot + 1) ss @ (ss ! slot) # drop (slot + 1) ss))"

text \<open>
  \<^verbatim>\<open>ensure_boundary_rec\<close>. A full leaf is promoted and the search goes on in the new inner node.
  The slot found always exists in a node with one slot more than pivots.
\<close>

fun weight :: "vmtree_node \<Rightarrow> nat" where
  "weight (Leaf ps ss) = 1 + (if node_is_full ps then length ss + 1 else 0)"
| "weight (Inner ps cs) = 1 + sum_list (map weight cs)"

lemma weight_nth: "i < length cs \<Longrightarrow> weight (cs ! i) < weight (Inner ps cs)"
  using elem_le_sum_list [of i "map weight cs"] by simp

lemma alloc_children_leaves:
  "alloc_children es made h = (Some cs, h') \<Longrightarrow> cs = made @ map (\<lambda>e. Leaf [] [e]) es"
proof (induction es arbitrary: made h)
  case (Cons e es)
  from Cons.prems obtain h1 where "alloc_children es (made @ [Leaf [] [e]]) h1 = (Some cs, h')"
    by (auto simp: alloc_leaf_node_def Let_def split: prod.splits option.splits if_splits)
  from Cons.IH [OF this] show ?case by simp
qed simp

lemma promote_shape:
  "promote_leaf_to_internal ps ss h = (VMTREE_OK, node, h') \<Longrightarrow> node = Inner ps (map (\<lambda>e. Leaf [] [e]) ss)"
  by (auto simp: promote_leaf_to_internal_def dest!: alloc_children_leaves split: prod.splits option.splits)

lemma insert_leaf_boundary_full:
  "insert_leaf_boundary ps ss lo hi x = (st, ps', ss') \<Longrightarrow> st \<noteq> VMTREE_OK \<Longrightarrow> node_is_full ps"
  by (auto simp: insert_leaf_boundary_def Let_def split: if_splits)

function (sequential) ensure_boundary_rec ::
  "vmtree_node \<Rightarrow> u64 \<Rightarrow> u64 \<Rightarrow> u64 \<Rightarrow> node_heap \<Rightarrow> vmtree_status \<times> vmtree_node \<times> node_heap" where
  "ensure_boundary_rec (Leaf ps ss) lo hi x h =
     (if x \<le> lo \<or> x \<ge> hi then (VMTREE_OK, Leaf ps ss, h)
      else let (st, ps', ss') = insert_leaf_boundary ps ss lo hi x
      in if st = VMTREE_OK then (VMTREE_OK, Leaf ps' ss', h)
      else let (st, node, h) = promote_leaf_to_internal ps ss h
      in if st \<noteq> VMTREE_OK then (st, node, h)
      else ensure_boundary_rec node lo hi x h)"
| "ensure_boundary_rec (Inner ps cs) lo hi x h =
     (if x \<le> lo \<or> x \<ge> hi then (VMTREE_OK, Inner ps cs, h)
      else let slot = slot_for_addr ps x
      in if slot < length cs then
           let (st, c, h) = ensure_boundary_rec (cs ! slot) (slot_lo ps slot lo) (slot_hi ps slot hi) x h
           in (st, Inner ps (cs[slot := c]), h)
         else (VMTREE_OK, Inner ps cs, h))"
  by pat_completeness auto
termination
proof (relation "measure (\<lambda>(node, lo, hi, x, h). weight node)")
  fix ps ss lo hi x h r st r2 ps' ss' r3 st2 r4 node h2
  assume "r = insert_leaf_boundary ps ss lo hi x" "(st, r2) = r" "(ps', ss') = r2" "st \<noteq> VMTREE_OK"
    "r3 = promote_leaf_to_internal ps ss h" "(st2, r4) = r3" "(node, h2) = r4" "\<not> st2 \<noteq> VMTREE_OK"
  then have "node_is_full ps" "node = Inner ps (map (\<lambda>e. Leaf [] [e]) ss)"
    using insert_leaf_boundary_full [of ps ss lo hi x st ps' ss'] promote_shape [of ps ss h node h2] by auto
  then show "((node, lo, hi, x, h2), Leaf ps ss, lo, hi, x, h) \<in> measure (\<lambda>(node, lo, hi, x, h). weight node)"
    by (simp add: comp_def node_is_full_def pivot_count_def sum_list_triv)
qed (use weight_nth in auto)

section \<open>Ranges\<close>

text \<open>The scans for a mapped and for an unmapped address.\<close>

fun any_nonhole_rec :: "vmtree_node \<Rightarrow> u64 \<Rightarrow> u64 \<Rightarrow> u64 \<Rightarrow> u64 \<Rightarrow> bool" where
  "any_nonhole_rec (Leaf ps ss) lo hi start end' =
     (if end' \<le> lo \<or> hi \<le> start then False
      else list_ex (\<lambda>(r, e). \<not> (end' \<le> fst r \<or> snd r \<le> start) \<and> e \<noteq> 0) (zip (slot_ranges ps lo hi) ss))"
| "any_nonhole_rec (Inner ps cs) lo hi start end' =
     (if end' \<le> lo \<or> hi \<le> start then False
      else list_ex (\<lambda>(r, c). \<not> (end' \<le> fst r \<or> snd r \<le> start) \<and> any_nonhole_rec c (fst r) (snd r) start end')
             (zip (slot_ranges ps lo hi) cs))"

fun any_hole_rec :: "vmtree_node \<Rightarrow> u64 \<Rightarrow> u64 \<Rightarrow> u64 \<Rightarrow> u64 \<Rightarrow> bool" where
  "any_hole_rec (Leaf ps ss) lo hi start end' =
     (if end' \<le> lo \<or> hi \<le> start then False
      else list_ex (\<lambda>(r, e). \<not> (end' \<le> fst r \<or> snd r \<le> start) \<and> e = 0) (zip (slot_ranges ps lo hi) ss))"
| "any_hole_rec (Inner ps cs) lo hi start end' =
     (if end' \<le> lo \<or> hi \<le> start then False
      else list_ex (\<lambda>(r, c). \<not> (end' \<le> fst r \<or> snd r \<le> start) \<and> any_hole_rec c (fst r) (snd r) start end')
             (zip (slot_ranges ps lo hi) cs))"

text \<open>The updates return the new node and the number of nodes freed.\<close>

definition set_subtree_uniform :: "vmtree_node \<Rightarrow> u64 \<Rightarrow> vmtree_node \<times> nat" where
  "set_subtree_uniform node entry = (Leaf [] [entry], free_subtree node False)"

text \<open>The loop of \<^verbatim>\<open>normalize_rec\<close> that merges neighbouring uniform children.\<close>

function merge_children :: "nat \<Rightarrow> u64 list \<Rightarrow> vmtree_node list \<Rightarrow> nat \<Rightarrow> u64 list \<times> vmtree_node list \<times> nat" where
  "merge_children i ps cs freed =
     (if i < pivot_count ps then
        case (child_is_uniform (cs ! i), child_is_uniform (cs ! (i + 1))) of
          (Some left_entry, Some right_entry) \<Rightarrow>
            if left_entry \<noteq> right_entry then merge_children (i + 1) ps cs freed
            else let f = free_subtree (cs ! (i + 1)) True;
                     (ps, cs) = remove_pivot ps cs i
                 in merge_children i ps cs (freed + f)
        | _ \<Rightarrow> merge_children (i + 1) ps cs freed
      else (ps, cs, freed))"
  by pat_completeness auto
termination
  by (relation "measure (\<lambda>(i, ps, cs, freed). length ps - i)") (auto simp: pivot_count_def remove_pivot_def)

declare merge_leaf_neighbors.simps [simp del] merge_children.simps [simp del]

text \<open>\<^verbatim>\<open>collapse_to_leaf\<close> replaces an inner node by a leaf with one slot.\<close>

definition collapse_to_leaf :: "u64 \<Rightarrow> vmtree_node" where
  "collapse_to_leaf entry = Leaf [] [entry]"

fun normalize_rec :: "vmtree_node \<Rightarrow> vmtree_node \<times> nat" where
  "normalize_rec (Leaf ps ss) = (let (ps, ss) = merge_leaf_neighbors 0 ps ss in (Leaf ps ss, 0))"
| "normalize_rec (Inner ps cs) =
     (let rs = map normalize_rec cs;
          (ps, cs, freed) = merge_children 0 ps (map fst rs) (sum_list (map snd rs))
      in if pivot_count ps = 0 then
           case child_is_uniform (cs ! 0) of
             Some e \<Rightarrow> (collapse_to_leaf e, freed + free_subtree (cs ! 0) True)
           | None \<Rightarrow> (Inner ps cs, freed)
         else (Inner ps cs, freed))"

fun write_range_rec :: "vmtree_node \<Rightarrow> u64 \<Rightarrow> u64 \<Rightarrow> u64 \<Rightarrow> u64 \<Rightarrow> u64 \<Rightarrow> vmtree_node \<times> nat" where
  "write_range_rec (Leaf ps ss) lo hi start end' entry =
     (if end' \<le> lo \<or> hi \<le> start then (Leaf ps ss, 0)
      else if start \<le> lo \<and> hi \<le> end' then set_subtree_uniform (Leaf ps ss) entry
      else let ss = map (\<lambda>(r, e). if end' \<le> fst r \<or> snd r \<le> start then e else entry) (zip (slot_ranges ps lo hi) ss);
               (ps, ss) = merge_leaf_neighbors 0 ps ss
           in (Leaf ps ss, 0))"
| "write_range_rec (Inner ps cs) lo hi start end' entry =
     (if end' \<le> lo \<or> hi \<le> start then (Inner ps cs, 0)
      else if start \<le> lo \<and> hi \<le> end' then set_subtree_uniform (Inner ps cs) entry
      else let rs = map (\<lambda>(r, c). if end' \<le> fst r \<or> snd r \<le> start then (c, 0)
                             else write_range_rec c (fst r) (snd r) start end' entry) (zip (slot_ranges ps lo hi) cs)
           in (Inner ps (map fst rs), sum_list (map snd rs)))"

section \<open>Interface\<close>

type_synonym vmtree = vmtree_node

definition vmtree_init :: vmtree where
  "vmtree_init = Leaf [] [0]"

text \<open>The result is the pair of destination and source.\<close>

definition vmtree_move :: "vmtree \<Rightarrow> vmtree \<times> vmtree" where
  "vmtree_move src = (src, vmtree_init)"

definition vmtree_destroy :: "vmtree \<Rightarrow> node_heap \<Rightarrow> vmtree \<times> node_heap" where
  "vmtree_destroy tree h = (vmtree_init, kfree_nodes h (free_subtree tree False))"

fun get_loop :: "vmtree_node \<Rightarrow> u64 \<Rightarrow> u64 \<Rightarrow> u64 \<Rightarrow> vmtree_entry option" where
  "get_loop (Leaf ps ss) addr lo hi =
     (let slot = slot_for_addr ps addr
      in if slot < length ss then
           Some \<lparr>entry_start = slot_lo ps slot lo, entry_end = slot_hi ps slot hi, entry_value = ss ! slot\<rparr>
         else None)"
| "get_loop (Inner ps cs) addr lo hi =
     (let slot = slot_for_addr ps addr
      in if slot < length cs then get_loop (cs ! slot) addr (slot_lo ps slot lo) (slot_hi ps slot hi) else None)"

definition vmtree_get :: "vmtree \<Rightarrow> u64 \<Rightarrow> vmtree_entry option" where
  "vmtree_get tree addr =
     (if addr = UINTPTR_MAX then Some \<lparr>entry_start = addr, entry_end = addr, entry_value = 0\<rparr>
      else get_loop tree addr 0 UINTPTR_MAX)"

text \<open>The common tail of \<^verbatim>\<open>vmtree_insert\<close> and \<^verbatim>\<open>write_range\<close>.\<close>

definition write_checked :: "vmtree \<Rightarrow> u64 \<Rightarrow> u64 \<Rightarrow> u64 \<Rightarrow> node_heap \<Rightarrow> vmtree_status \<times> vmtree \<times> node_heap" where
  "write_checked tree start end' entry h =
     (let (st, tree, h) = ensure_boundary_rec tree 0 UINTPTR_MAX start h
      in if st \<noteq> VMTREE_OK then (st, tree, h)
      else let (st, tree, h) = ensure_boundary_rec tree 0 UINTPTR_MAX end' h
      in if st \<noteq> VMTREE_OK then (st, tree, h)
      else let (tree, f1) = write_range_rec tree 0 UINTPTR_MAX start end' entry;
               (tree, f2) = normalize_rec tree
           in (VMTREE_OK, tree, kfree_nodes (kfree_nodes h f1) f2))"

definition insert_validate :: "vmtree \<Rightarrow> u64 \<Rightarrow> u64 \<Rightarrow> vmtree_status" where
  "insert_validate root start end' = (if any_nonhole_rec root 0 UINTPTR_MAX start end' then VMTREE_ERR_EXISTS else VMTREE_OK)"

fun validate_range :: "vmtree \<Rightarrow> u64 \<Rightarrow> u64 \<Rightarrow> vmtree_write_mode \<Rightarrow> vmtree_status" where
  "validate_range root start end' VMTREE_WRITE_REMOVE = VMTREE_OK"
| "validate_range root start end' VMTREE_WRITE_SET =
     (if any_hole_rec root 0 UINTPTR_MAX start end' then VMTREE_ERR_NOENT else VMTREE_OK)"

definition write_range :: "vmtree \<Rightarrow> u64 \<Rightarrow> u64 \<Rightarrow> u64 \<Rightarrow> vmtree_write_mode \<Rightarrow> node_heap \<Rightarrow> vmtree_status \<times> vmtree \<times> node_heap" where
  "write_range tree start end' entry mode h =
     (if start > end' then (VMTREE_ERR_INVAL, tree, h)
      else if start = end' then (VMTREE_OK, tree, h)
      else let st = validate_range tree start end' mode
      in if st \<noteq> VMTREE_OK then (st, tree, h)
      else write_checked tree start end' entry h)"

definition vmtree_insert :: "vmtree \<Rightarrow> u64 \<Rightarrow> u64 \<Rightarrow> u64 \<Rightarrow> node_heap \<Rightarrow> vmtree_status \<times> vmtree \<times> node_heap" where
  "vmtree_insert tree start end' entry h =
     (if entry = 0 then (VMTREE_ERR_INVAL, tree, h)
      else if start > end' then (VMTREE_ERR_INVAL, tree, h)
      else if start = end' then (VMTREE_OK, tree, h)
      else let st = insert_validate tree start end'
      in if st \<noteq> VMTREE_OK then (st, tree, h)
      else write_checked tree start end' entry h)"

definition vmtree_set :: "vmtree \<Rightarrow> u64 \<Rightarrow> u64 \<Rightarrow> u64 \<Rightarrow> node_heap \<Rightarrow> vmtree_status \<times> vmtree \<times> node_heap" where
  "vmtree_set tree start end' entry h =
     (if entry = 0 then (VMTREE_ERR_INVAL, tree, h)
      else write_range tree start end' entry VMTREE_WRITE_SET h)"

definition vmtree_remove :: "vmtree \<Rightarrow> u64 \<Rightarrow> u64 \<Rightarrow> node_heap \<Rightarrow> vmtree_status \<times> vmtree \<times> node_heap" where
  "vmtree_remove tree start end' h = write_range tree start end' 0 VMTREE_WRITE_REMOVE h"

record vmtree_iter =
  next_addr :: u64
  finished :: bool

definition vmtree_before_begin :: vmtree_iter where
  "vmtree_before_begin = \<lparr>next_addr = 0, finished = False\<rparr>"

text \<open>The loop of \<^verbatim>\<open>vmtree_iter_next\<close>: the entry, if any, and the iterator after the call.\<close>

function iter_loop :: "vmtree \<Rightarrow> vmtree_iter \<Rightarrow> u64 \<Rightarrow> (vmtree_entry option \<times> vmtree_iter) option" where
  "iter_loop tree iter addr =
     (if addr = UINTPTR_MAX then Some (None, iter\<lparr>finished := True\<rparr>)
      else case vmtree_get tree addr of
        None \<Rightarrow> None
      | Some e \<Rightarrow>
          if \<not> entry_end e > addr then None
          else if entry_value e \<noteq> 0 then
            Some (Some e, if entry_end e = UINTPTR_MAX then iter\<lparr>finished := True\<rparr> else iter\<lparr>next_addr := entry_end e\<rparr>)
          else if entry_end e = UINTPTR_MAX then Some (None, iter\<lparr>finished := True\<rparr>)
          else iter_loop tree iter (entry_end e))"
  by pat_completeness auto
termination
  by (relation "measure (\<lambda>(tree, iter, addr). 2 ^ 64 - unat addr)")
    (auto simp: word_less_nat_alt intro!: diff_less_mono2 unat_lt_2p [where 'a = 64, simplified])

definition vmtree_iter_next :: "vmtree \<Rightarrow> vmtree_iter \<Rightarrow> (vmtree_entry option \<times> vmtree_iter) option" where
  "vmtree_iter_next tree iter = (if finished iter then Some (None, iter) else iter_loop tree iter (next_addr iter))"

declare iter_loop.simps [simp del]

section \<open>Well-formed trees and the map they denote\<close>

definition bounds_ok :: "u64 list \<Rightarrow> u64 \<Rightarrow> u64 \<Rightarrow> bool" where
  "bounds_ok ps lo hi \<longleftrightarrow> sorted_wrt (<) (lo # ps @ [hi]) \<and> length ps \<le> VMTREE_NODE_SLOTS - 1"

fun wf :: "vmtree_node \<Rightarrow> u64 \<Rightarrow> u64 \<Rightarrow> bool" where
  "wf (Leaf ps ss) lo hi \<longleftrightarrow> bounds_ok ps lo hi \<and> length ss = length ps + 1"
| "wf (Inner ps cs) lo hi \<longleftrightarrow> bounds_ok ps lo hi \<and> length cs = length ps + 1 \<and>
     list_all (\<lambda>(r, c). wf c (fst r) (snd r)) (zip (slot_ranges ps lo hi) cs)"

text \<open>The entry of an address.\<close>

fun entry_at :: "vmtree_node \<Rightarrow> u64 \<Rightarrow> u64" where
  "entry_at (Leaf ps ss) a = ss ! slot_for_addr ps a"
| "entry_at (Inner ps cs) a = (if slot_for_addr ps a < length cs then entry_at (cs ! slot_for_addr ps a) a else 0)"

fun node_count :: "vmtree_node \<Rightarrow> nat" where
  "node_count (Leaf ps ss) = 1"
| "node_count (Inner ps cs) = 1 + sum_list (map node_count cs)"

text \<open>An address is a boundary of a subtree when no range of the subtree contains it in its interior.\<close>

fun boundary :: "vmtree_node \<Rightarrow> u64 \<Rightarrow> u64 \<Rightarrow> u64 \<Rightarrow> bool" where
  "boundary (Leaf ps ss) lo hi x \<longleftrightarrow> x \<le> lo \<or> hi \<le> x \<or> x \<in> set ps"
| "boundary (Inner ps cs) lo hi x \<longleftrightarrow> list_all (\<lambda>(r, c). boundary c (fst r) (snd r) x) (zip (slot_ranges ps lo hi) cs)"

lemma length_slot_ranges [simp]: "length (slot_ranges ps lo hi) = length ps + 1"
  by (simp add: slot_ranges_def pivot_count_def)

lemma slot_ranges_nth: "i \<le> length ps \<Longrightarrow> slot_ranges ps lo hi ! i = (slot_lo ps i lo, slot_hi ps i hi)"
  unfolding slot_ranges_def pivot_count_def by (subst nth_map) (auto simp: less_Suc_eq_le simp del: upt_Suc)

lemma list_all_slots:
  "length cs = length ps + 1 \<Longrightarrow>
   list_all P (zip (slot_ranges ps lo hi) cs) \<longleftrightarrow> (\<forall>i \<le> length ps. P ((slot_lo ps i lo, slot_hi ps i hi), cs ! i))"
  by (auto simp: list_all_length slot_ranges_nth less_Suc_eq_le)

lemma list_ex_slots:
  "length cs = length ps + 1 \<Longrightarrow>
   list_ex P (zip (slot_ranges ps lo hi) cs) \<longleftrightarrow> (\<exists>i \<le> length ps. P ((slot_lo ps i lo, slot_hi ps i hi), cs ! i))"
  by (auto simp: list_ex_length slot_ranges_nth less_Suc_eq_le)

lemma map_slots_nth:
  "length cs = length ps + 1 \<Longrightarrow> i \<le> length ps \<Longrightarrow>
   map f (zip (slot_ranges ps lo hi) cs) ! i = f ((slot_lo ps i lo, slot_hi ps i hi), cs ! i)"
  by (simp add: slot_ranges_nth)

lemmas slot_list_simps = list_all_slots list_ex_slots

subsection \<open>Slots and addresses\<close>

lemma slot_le: "slot_for_addr ps a \<le> length ps"
  by (induction ps) auto

lemma slot_less_Suc [simp]: "slot_for_addr ps a < Suc (length ps)"
  using slot_le [of ps a] by simp

lemma slot_below: "i < slot_for_addr ps a \<Longrightarrow> ps ! i \<le> a"
proof (induction ps arbitrary: i)
  case (Cons p ps)
  then show ?case by (cases i) (auto split: if_splits)
qed simp

lemma slot_above: "slot_for_addr ps a < length ps \<Longrightarrow> a < ps ! slot_for_addr ps a"
  by (induction ps) (auto simp: not_le)

lemma bounds_ok_iff:
  "bounds_ok ps lo hi \<longleftrightarrow> sorted_wrt (<) ps \<and> (\<forall>p \<in> set ps. lo < p \<and> p < hi) \<and> lo < hi \<and> length ps \<le> 15"
  by (auto simp: bounds_ok_def sorted_wrt_append)

lemma bounds_nth:
  assumes "bounds_ok ps lo hi"
  shows "i < j \<Longrightarrow> j < length ps \<Longrightarrow> ps ! i < ps ! j" "i < length ps \<Longrightarrow> lo < ps ! i" "i < length ps \<Longrightarrow> ps ! i < hi" "lo < hi"
  using assms by (auto simp: bounds_ok_iff sorted_wrt_iff_nth_less)

lemma slot_for_addr_in:
  assumes "lo \<le> a" "a < hi"
  shows "slot_lo ps (slot_for_addr ps a) lo \<le> a" "a < slot_hi ps (slot_for_addr ps a) hi"
  using assms slot_below [of "slot_for_addr ps a - 1" ps a] slot_above [of ps a]
  by (auto simp: slot_lo_def slot_hi_def pivot_count_def)

lemma slot_for_addr_unique:
  assumes "bounds_ok ps lo hi" "i \<le> length ps" "slot_lo ps i lo \<le> a" "a < slot_hi ps i hi"
  shows "slot_for_addr ps a = i"
proof (rule ccontr)
  assume "slot_for_addr ps a \<noteq> i"
  then consider "slot_for_addr ps a < i" | "i < slot_for_addr ps a" by linarith
  then show False
  proof cases
    case 1
    then have lt: "slot_for_addr ps a < length ps" "slot_for_addr ps a \<le> i - 1" "i - 1 < length ps" "i \<noteq> 0" using assms(2) by auto
    have "ps ! slot_for_addr ps a \<le> ps ! (i - 1)"
      using bounds_nth(1) [OF assms(1), of "slot_for_addr ps a" "i - 1"] lt by (cases "slot_for_addr ps a = i - 1") auto
    with slot_above [OF lt(1)] assms(3) lt(4) show False by (simp add: slot_lo_def)
  next
    case 2
    then have "i < length ps" using slot_le [of ps a] by simp
    with slot_below [OF 2] assms(4) show False by (simp add: slot_hi_def pivot_count_def)
  qed
qed

lemma slot_range:
  assumes "bounds_ok ps lo hi" "i \<le> length ps"
  shows "slot_lo ps i lo < slot_hi ps i hi" "lo \<le> slot_lo ps i lo" "slot_hi ps i hi \<le> hi"
  using bounds_nth [OF assms(1)] assms(2) by (auto simp: slot_lo_def slot_hi_def pivot_count_def less_imp_le)

lemma slot_ranges_disjoint:
  assumes "bounds_ok ps lo hi" "i < j" "j \<le> length ps"
  shows "slot_hi ps i hi \<le> slot_lo ps j lo"
proof -
  have "ps ! i \<le> ps ! (j - 1)"
    using bounds_nth(1) [OF assms(1), of i "j - 1"] assms(2,3) by (cases "i = j - 1") (auto simp: less_imp_le)
  then show ?thesis using assms by (simp add: slot_lo_def slot_hi_def pivot_count_def)
qed

subsection \<open>Scans and lookup\<close>

lemma wf_bounds: "wf t lo hi \<Longrightarrow> lo < hi"
  by (cases t) (auto simp: bounds_ok_iff)

lemma wf_InnerD:
  assumes "wf (Inner ps cs) lo hi"
  shows "bounds_ok ps lo hi" "length cs = length ps + 1" "\<And>i. i \<le> length ps \<Longrightarrow> wf (cs ! i) (slot_lo ps i lo) (slot_hi ps i hi)"
  using assms by (auto simp: list_all_slots)

lemma slot_child [simp]: "length cs = length ps + 1 \<Longrightarrow> slot_for_addr ps a < length cs"
  using slot_le [of ps a] by simp

lemma entry_at_slot:
  assumes "wf (Inner ps cs) lo hi" "i \<le> length ps" "slot_lo ps i lo \<le> a" "a < slot_hi ps i hi"
  shows "entry_at (Inner ps cs) a = entry_at (cs ! i) a"
  using slot_for_addr_unique [OF wf_InnerD(1) [OF assms(1)] assms(2-4)] wf_InnerD(2) [OF assms(1)] assms(2) by simp

text \<open>An intersecting range has an address in common with the scanned one.\<close>

lemma ranges_meet: "\<not> (end' \<le> r_lo \<or> r_hi \<le> start) \<longleftrightarrow> max r_lo start < min r_hi end'"
  if "r_lo < r_hi" "start < end'" for r_lo r_hi start end' :: "'a::linorder"
  using that by auto

lemma leaf_scan:
  assumes "wf (Leaf ps ss) lo hi" "start < end'"
  shows "list_ex (\<lambda>(r, e). \<not> (end' \<le> fst r \<or> snd r \<le> start) \<and> Q e) (zip (slot_ranges ps lo hi) ss) \<longleftrightarrow>
    (\<exists>a. lo \<le> a \<and> a < hi \<and> start \<le> a \<and> a < end' \<and> Q (entry_at (Leaf ps ss) a))" (is "?L \<longleftrightarrow> ?R")
proof -
  have b: "bounds_ok ps lo hi" "length ss = length ps + 1" using assms(1) by simp_all
  have "?L \<longleftrightarrow> (\<exists>i \<le> length ps. \<not> (end' \<le> slot_lo ps i lo \<or> slot_hi ps i hi \<le> start) \<and> Q (ss ! i))"
    unfolding list_ex_slots [OF b(2)] by simp
  also have "\<dots> \<longleftrightarrow> ?R"
  proof
    assume "\<exists>i \<le> length ps. \<not> (end' \<le> slot_lo ps i lo \<or> slot_hi ps i hi \<le> start) \<and> Q (ss ! i)"
    then obtain i where i: "i \<le> length ps" "max (slot_lo ps i lo) start < min (slot_hi ps i hi) end'" "Q (ss ! i)"
      using ranges_meet [OF slot_range(1) [OF b(1)] assms(2)] by blast
    let ?a = "max (slot_lo ps i lo) start"
    have "slot_for_addr ps ?a = i" using i by (intro slot_for_addr_unique [OF b(1)]) auto
    with i slot_range [OF b(1) i(1)] show ?R by (intro exI [of _ ?a]) (auto simp: less_max_iff_disj le_max_iff_disj)
  next
    assume ?R
    then obtain a where a: "lo \<le> a" "a < hi" "start \<le> a" "a < end'" "Q (ss ! slot_for_addr ps a)" by auto
    with slot_for_addr_in [OF a(1,2), of ps] slot_le [of ps a]
    show "\<exists>i \<le> length ps. \<not> (end' \<le> slot_lo ps i lo \<or> slot_hi ps i hi \<le> start) \<and> Q (ss ! i)"
      by (intro exI [of _ "slot_for_addr ps a"]) auto
  qed
  finally show ?thesis .
qed

lemma inner_scan:
  assumes wf: "wf (Inner ps cs) lo hi" "start < end'"
    and IH: "\<And>i. i \<le> length ps \<Longrightarrow> any (cs ! i) (slot_lo ps i lo) (slot_hi ps i hi) \<longleftrightarrow>
      (\<exists>a. slot_lo ps i lo \<le> a \<and> a < slot_hi ps i hi \<and> start \<le> a \<and> a < end' \<and> Q (entry_at (cs ! i) a))"
  shows "list_ex (\<lambda>(r, c). \<not> (end' \<le> fst r \<or> snd r \<le> start) \<and> any c (fst r) (snd r)) (zip (slot_ranges ps lo hi) cs) \<longleftrightarrow>
    (\<exists>a. lo \<le> a \<and> a < hi \<and> start \<le> a \<and> a < end' \<and> Q (entry_at (Inner ps cs) a))" (is "?L \<longleftrightarrow> ?R")
proof -
  note b = wf_InnerD [OF wf(1)]
  have "?L \<longleftrightarrow> (\<exists>i \<le> length ps. \<exists>a. slot_lo ps i lo \<le> a \<and> a < slot_hi ps i hi \<and> start \<le> a \<and> a < end' \<and> Q (entry_at (cs ! i) a))"
    unfolding list_ex_slots [OF b(2)] using IH by fastforce
  also have "\<dots> \<longleftrightarrow> ?R"
  proof
    assume "\<exists>i \<le> length ps. \<exists>a. slot_lo ps i lo \<le> a \<and> a < slot_hi ps i hi \<and> start \<le> a \<and> a < end' \<and> Q (entry_at (cs ! i) a)"
    then obtain i a where i: "i \<le> length ps" "slot_lo ps i lo \<le> a" "a < slot_hi ps i hi" "start \<le> a" "a < end'" "Q (entry_at (cs ! i) a)"
      by blast
    with entry_at_slot [OF wf(1) i(1-3)] slot_range [OF b(1) i(1)] show ?R by (intro exI [of _ a]) auto
  next
    assume ?R
    then obtain a where a: "lo \<le> a" "a < hi" "start \<le> a" "a < end'" "Q (entry_at (Inner ps cs) a)" by blast
    with slot_for_addr_in [OF a(1,2), of ps] slot_le [of ps a] b(2)
    show "\<exists>i \<le> length ps. \<exists>a. slot_lo ps i lo \<le> a \<and> a < slot_hi ps i hi \<and> start \<le> a \<and> a < end' \<and> Q (entry_at (cs ! i) a)"
      by (intro exI [of _ "slot_for_addr ps a"] conjI exI [of _ a]) auto
  qed
  finally show ?thesis .
qed

lemma outside_range: "end' \<le> lo \<or> hi \<le> start \<Longrightarrow> \<not> (\<exists>a. lo \<le> a \<and> a < hi \<and> start \<le> a \<and> a < end' \<and> P a)"
  for lo hi start end' :: "'a::linorder"
  by auto

lemma any_hole_rec_iff:
  assumes "wf t lo hi" "start < end'"
  shows "any_hole_rec t lo hi start end' \<longleftrightarrow> (\<exists>a. lo \<le> a \<and> a < hi \<and> start \<le> a \<and> a < end' \<and> entry_at t a = 0)"
  using assms
proof (induction t arbitrary: lo hi)
  case (Leaf ps ss)
  show ?case
    using leaf_scan [OF Leaf, of "\<lambda>e. e = 0"] outside_range [of end' lo hi start "\<lambda>a. entry_at (Leaf ps ss) a = 0"]
    by (cases "end' \<le> lo \<or> hi \<le> start") (simp_all del: entry_at.simps)
next
  case (Inner ps cs)
  note b = wf_InnerD [OF Inner.prems(1)]
  have "cs ! i \<in> set cs" if "i \<le> length ps" for i using that b(2) by simp
  then have "any_hole_rec (cs ! i) (slot_lo ps i lo) (slot_hi ps i hi) start end' \<longleftrightarrow>
      (\<exists>a. slot_lo ps i lo \<le> a \<and> a < slot_hi ps i hi \<and> start \<le> a \<and> a < end' \<and> entry_at (cs ! i) a = 0)" if "i \<le> length ps" for i
    using that by (intro Inner.IH b(3) Inner.prems(2))
  from inner_scan [OF Inner.prems, where any = "\<lambda>c l h. any_hole_rec c l h start end'" and Q = "\<lambda>e. e = 0", OF this]
    outside_range [of end' lo hi start "\<lambda>a. entry_at (Inner ps cs) a = 0"]
  show ?case by (cases "end' \<le> lo \<or> hi \<le> start") (simp_all del: entry_at.simps)
qed

lemma any_nonhole_rec_iff:
  assumes "wf t lo hi" "start < end'"
  shows "any_nonhole_rec t lo hi start end' \<longleftrightarrow> (\<exists>a. lo \<le> a \<and> a < hi \<and> start \<le> a \<and> a < end' \<and> entry_at t a \<noteq> 0)"
  using assms
proof (induction t arbitrary: lo hi)
  case (Leaf ps ss)
  show ?case
    using leaf_scan [OF Leaf, of "\<lambda>e. e \<noteq> 0"] outside_range [of end' lo hi start "\<lambda>a. entry_at (Leaf ps ss) a \<noteq> 0"]
    by (cases "end' \<le> lo \<or> hi \<le> start") (simp_all del: entry_at.simps)
next
  case (Inner ps cs)
  note b = wf_InnerD [OF Inner.prems(1)]
  have "cs ! i \<in> set cs" if "i \<le> length ps" for i using that b(2) by simp
  then have "any_nonhole_rec (cs ! i) (slot_lo ps i lo) (slot_hi ps i hi) start end' \<longleftrightarrow>
      (\<exists>a. slot_lo ps i lo \<le> a \<and> a < slot_hi ps i hi \<and> start \<le> a \<and> a < end' \<and> entry_at (cs ! i) a \<noteq> 0)" if "i \<le> length ps" for i
    using that by (intro Inner.IH b(3) Inner.prems(2))
  from inner_scan [OF Inner.prems, where any = "\<lambda>c l h. any_nonhole_rec c l h start end'" and Q = "\<lambda>e. e \<noteq> 0", OF this]
    outside_range [of end' lo hi start "\<lambda>a. entry_at (Inner ps cs) a \<noteq> 0"]
  show ?case by (cases "end' \<le> lo \<or> hi \<le> start") (simp_all del: entry_at.simps)
qed

text \<open>Lookup returns a range around the address on which the map is constant.\<close>

lemma get_loop_ok:
  assumes "wf t lo hi" "lo \<le> a" "a < hi"
  shows "\<exists>s e. get_loop t a lo hi = Some \<lparr>entry_start = s, entry_end = e, entry_value = entry_at t a\<rparr> \<and>
    lo \<le> s \<and> s \<le> a \<and> a < e \<and> e \<le> hi \<and> (\<forall>b. s \<le> b \<longrightarrow> b < e \<longrightarrow> entry_at t b = entry_at t a)"
  using assms
proof (induction t arbitrary: lo hi)
  case (Leaf ps ss)
  let ?i = "slot_for_addr ps a"
  from Leaf.prems(1) have b: "bounds_ok ps lo hi" "length ss = length ps + 1" by simp_all
  have "slot_for_addr ps c = ?i" if "slot_lo ps ?i lo \<le> c" "c < slot_hi ps ?i hi" for c
    using that by (intro slot_for_addr_unique [OF b(1) slot_le])
  then have "\<forall>c. slot_lo ps ?i lo \<le> c \<longrightarrow> c < slot_hi ps ?i hi \<longrightarrow> entry_at (Leaf ps ss) c = entry_at (Leaf ps ss) a" by simp
  moreover have "get_loop (Leaf ps ss) a lo hi =
      Some \<lparr>entry_start = slot_lo ps ?i lo, entry_end = slot_hi ps ?i hi, entry_value = entry_at (Leaf ps ss) a\<rparr>"
    using b(2) by (simp add: Let_def)
  ultimately show ?case
    using slot_for_addr_in [OF Leaf.prems(2,3), of ps] slot_range [OF b(1) slot_le [of ps a]] by blast
next
  case (Inner ps cs)
  let ?i = "slot_for_addr ps a"
  note b = wf_InnerD [OF Inner.prems(1)]
  have "cs ! ?i \<in> set cs" using b(2) by simp
  from Inner.IH [OF this b(3) [OF slot_le] slot_for_addr_in [OF Inner.prems(2,3)]]
  obtain s e where se: "get_loop (cs ! ?i) a (slot_lo ps ?i lo) (slot_hi ps ?i hi) = Some \<lparr>entry_start = s, entry_end = e, entry_value = entry_at (cs ! ?i) a\<rparr>"
    "slot_lo ps ?i lo \<le> s" "s \<le> a" "a < e" "e \<le> slot_hi ps ?i hi" "\<forall>b. s \<le> b \<longrightarrow> b < e \<longrightarrow> entry_at (cs ! ?i) b = entry_at (cs ! ?i) a"
    by blast
  have eq: "entry_at (Inner ps cs) c = entry_at (cs ! ?i) c" if "s \<le> c" "c < e" for c
    using that se(2,5) by (intro entry_at_slot [OF Inner.prems(1) slot_le]) auto
  have "entry_at (Inner ps cs) c = entry_at (Inner ps cs) a" if "s \<le> c" "c < e" for c
    using eq [OF that] eq [OF se(3,4)] se(6) that by simp
  moreover have "get_loop (Inner ps cs) a lo hi = Some \<lparr>entry_start = s, entry_end = e, entry_value = entry_at (Inner ps cs) a\<rparr>"
    using se(1) b(2) eq [OF se(3,4)] by (simp add: Let_def del: entry_at.simps)
  moreover have "lo \<le> s" "e \<le> hi" using se(2,5) slot_range(2,3) [OF b(1) slot_le [of ps a]] by auto
  ultimately show ?case using se(3,4) by blast
qed

subsection \<open>Merging\<close>

lemma slot_before: "sorted_wrt (<) (p # ps) \<Longrightarrow> a < p \<Longrightarrow> slot_for_addr ps a = 0"
  by (cases ps) auto

lemma slot_for_addr_remove:
  assumes "sorted_wrt (<) ps" "i < length ps"
  shows "slot_for_addr (take i ps @ drop (i + 1) ps) a =
    (if slot_for_addr ps a \<le> i then slot_for_addr ps a else slot_for_addr ps a - 1)"
  using assms
proof (induction ps arbitrary: i)
  case (Cons p ps)
  show ?case
  proof (cases i)
    case 0
    then show ?thesis using slot_before [OF Cons.prems(1), of a] by auto
  next
    case (Suc j)
    then have "slot_for_addr (take j ps @ drop (j + 1) ps) a = (if slot_for_addr ps a \<le> j then slot_for_addr ps a else slot_for_addr ps a - 1)"
      using Cons.prems by (intro Cons.IH) auto
    with Suc show ?thesis by auto
  qed
qed simp

lemma bounds_remove:
  assumes "bounds_ok ps lo hi" "i < length ps"
  shows "bounds_ok (take i ps @ drop (i + 1) ps) lo hi"
proof -
  have "ps = take i ps @ ps ! i # drop (i + 1) ps" using id_take_nth_drop [OF assms(2)] by simp
  then have "bounds_ok (take i ps @ ps ! i # drop (i + 1) ps) lo hi" using assms(1) by argo
  then show ?thesis by (auto simp: bounds_ok_iff sorted_wrt_append)
qed

lemma remove_nth:
  assumes "i + 1 < length ss" "j + 1 < length ss"
  shows "(take (i + 1) ss @ drop (i + 2) ss) ! j = (if j \<le> i then ss ! j else ss ! (j + 1))"
  using assms by (auto simp: nth_append min_def)

lemma remove_slots:
  assumes "i < length ps" "j < length ps"
  shows "slot_lo (take i ps @ drop (i + 1) ps) j lo = (if j \<le> i then slot_lo ps j lo else slot_lo ps (j + 1) lo)"
    "slot_hi (take i ps @ drop (i + 1) ps) j hi = (if j < i then slot_hi ps j hi else slot_hi ps (j + 1) hi)"
  using assms by (auto simp: slot_lo_def slot_hi_def pivot_count_def nth_append min_def)

lemma remove_leaf_pivot_ok:
  assumes "wf (Leaf ps ss) lo hi" "i < length ps" "ss ! i = ss ! (i + 1)" "remove_pivot ps ss i = (ps', ss')"
  shows "wf (Leaf ps' ss') lo hi \<and> (\<forall>a. entry_at (Leaf ps' ss') a = entry_at (Leaf ps ss) a)"
proof -
  have b: "bounds_ok ps lo hi" "length ss = length ps + 1" using assms(1) by simp_all
  have e: "ps' = take i ps @ drop (i + 1) ps" "ss' = take (i + 1) ss @ drop (i + 2) ss"
    using assms(4) by (simp_all add: remove_pivot_def)
  have sorted: "sorted_wrt (<) ps" using b(1) by (simp add: bounds_ok_iff)
  have "entry_at (Leaf ps' ss') a = entry_at (Leaf ps ss) a" for a
  proof -
    let ?k = "slot_for_addr ps a"
    have k: "slot_for_addr ps' a = (if ?k \<le> i then ?k else ?k - 1)" unfolding e using slot_for_addr_remove [OF sorted assms(2)] .
    have "ss' ! slot_for_addr ps' a = ss ! ?k"
    proof (cases "?k \<le> i")
      case True
      then show ?thesis using k remove_nth [of i ss ?k] assms(2) b(2) e(2) by simp
    next
      case False
      then show ?thesis
        using k remove_nth [of i ss "?k - 1"] assms(2,3) b(2) e(2) slot_le [of ps a] by (cases "?k = i + 1") auto
    qed
    then show ?thesis by simp
  qed
  then show ?thesis using bounds_remove [OF b(1) assms(2)] assms(2) b(2) e by simp
qed

lemma merge_leaf_neighbors_ok:
  assumes "wf (Leaf ps ss) lo hi" "merge_leaf_neighbors i ps ss = (ps', ss')"
  shows "wf (Leaf ps' ss') lo hi \<and> (\<forall>a. entry_at (Leaf ps' ss') a = entry_at (Leaf ps ss) a)"
  using assms
proof (induction i ps ss rule: merge_leaf_neighbors.induct)
  case (1 i ps ss)
  obtain qs ts where rp: "remove_pivot ps ss i = (qs, ts)" by fastforce
  consider "\<not> i < length ps" | "i < length ps" "ss ! i = ss ! (i + 1)" | "i < length ps" "ss ! i \<noteq> ss ! (i + 1)" by blast
  then show ?case
  proof cases
    case 1
    with 1 show ?thesis using "1.prems" by (subst (asm) merge_leaf_neighbors.simps) (simp add: pivot_count_def)
  next
    case 2
    note r = remove_leaf_pivot_ok [OF "1.prems"(1) 2 rp]
    have "merge_leaf_neighbors i qs ts = (ps', ss')"
      using "1.prems"(2) 2 rp by (subst (asm) merge_leaf_neighbors.simps) (simp add: pivot_count_def)
    with "1.IH"(1) [of "(qs, ts)" qs ts] 2 rp r show ?thesis by (simp add: pivot_count_def del: wf.simps entry_at.simps)
  next
    case 3
    have "merge_leaf_neighbors (i + 1) ps ss = (ps', ss')"
      using "1.prems"(2) 3 by (subst (asm) merge_leaf_neighbors.simps) (simp add: pivot_count_def)
    with "1.IH"(2) 3 "1.prems"(1) show ?thesis by (simp add: pivot_count_def del: wf.simps entry_at.simps)
  qed
qed

lemma child_is_uniform_Some:
  "child_is_uniform c = Some e \<Longrightarrow> wf c lo hi \<Longrightarrow> c = Leaf [] [e]"
  by (cases c) (auto simp: pivot_count_def length_Suc_conv split: if_splits)

lemma wf_uniform: "lo < hi \<Longrightarrow> wf (Leaf [] [e]) lo hi"
  by (simp add: bounds_ok_iff)

lemma sum_list_remove:
  fixes xs :: "nat list"
  assumes "i < length xs"
  shows "sum_list xs = sum_list (take i xs @ drop (i + 1) xs) + xs ! i"
proof -
  have "sum_list xs = sum_list (take i xs @ xs ! i # drop (i + 1) xs)" using id_take_nth_drop [OF assms] by simp
  then show ?thesis by simp
qed

lemma node_count_pos [simp]: "0 < node_count t"
  by (cases t) simp_all

lemma free_subtree_count: "free_subtree t b + of_bool (\<not> b) = node_count t"
proof (induction t arbitrary: b)
  case (Inner ps cs)
  have "map (\<lambda>c. free_subtree c True) cs = map node_count cs" using Inner.IH [of _ True] by (intro map_cong) simp_all
  then have "(\<Sum>c\<leftarrow>cs. free_subtree c True) = sum_list (map node_count cs)" by metis
  then show ?case by simp
qed simp

lemma remove_child_ok:
  assumes wf: "wf (Inner ps cs) lo hi" and i: "i < length ps"
    and u: "child_is_uniform (cs ! i) = Some e" "child_is_uniform (cs ! (i + 1)) = Some e"
    and r: "remove_pivot ps cs i = (ps', cs')"
  shows "wf (Inner ps' cs') lo hi \<and> (\<forall>a. lo \<le> a \<longrightarrow> a < hi \<longrightarrow> entry_at (Inner ps' cs') a = entry_at (Inner ps cs) a) \<and>
    node_count (Inner ps cs) = node_count (Inner ps' cs') + free_subtree (cs ! (i + 1)) True"
proof -
  note b = wf_InnerD [OF wf]
  have e: "ps' = take i ps @ drop (i + 1) ps" "cs' = take (i + 1) cs @ drop (i + 2) cs"
    using r by (simp_all add: remove_pivot_def)
  have l: "length ps' = length ps - 1" "length cs' = length ps' + 1" using e i b(2) by simp_all
  have c: "cs ! i = Leaf [] [e]" "cs ! (i + 1) = Leaf [] [e]"
    using child_is_uniform_Some [OF u(1) b(3)] child_is_uniform_Some [OF u(2) b(3)] i by simp_all
  have b': "bounds_ok ps' lo hi" unfolding e using bounds_remove [OF b(1) i] .
  have nth: "cs' ! j = (if j \<le> i then cs ! j else cs ! (j + 1))" if "j \<le> length ps'" for j
    unfolding e using remove_nth [of i cs j] that l i b(2) by simp
  have rng: "slot_lo ps' j lo = (if j \<le> i then slot_lo ps j lo else slot_lo ps (j + 1) lo)"
    "slot_hi ps' j hi = (if j < i then slot_hi ps j hi else slot_hi ps (j + 1) hi)" if "j \<le> length ps'" for j
    unfolding e using remove_slots [OF i, of j] that l i by simp_all
  have "wf (cs' ! j) (slot_lo ps' j lo) (slot_hi ps' j hi)" if j: "j \<le> length ps'" for j
  proof (cases "j = i")
    case True
    then show ?thesis using nth [OF j] c(1) slot_range(1) [OF b' j] by (simp add: wf_uniform del: wf.simps)
  next
    case False
    then show ?thesis using nth [OF j] rng [OF j] b(3) [of j] b(3) [of "j + 1"] j l i by auto
  qed
  then have wf': "wf (Inner ps' cs') lo hi" using b' l by (simp add: list_all_slots)
  have "entry_at (Inner ps' cs') a = entry_at (Inner ps cs) a" if a: "lo \<le> a" "a < hi" for a
  proof -
    let ?k = "slot_for_addr ps a"
    have sorted: "sorted_wrt (<) ps" using b(1) by (simp add: bounds_ok_iff)
    have k: "slot_for_addr ps' a = (if ?k \<le> i then ?k else ?k - 1)" unfolding e using slot_for_addr_remove [OF sorted i] .
    have le: "(if ?k \<le> i then ?k else ?k - 1) \<le> length ps'" using k slot_le [of ps' a] by simp
    have "cs' ! (if ?k \<le> i then ?k else ?k - 1) = cs ! ?k"
      using nth [OF le] c by (cases "?k = i + 1") auto
    then show ?thesis using k le b(2) l(2) by simp
  qed
  moreover have "node_count (Inner ps cs) = node_count (Inner ps' cs') + free_subtree (cs ! (i + 1)) True"
    using sum_list_remove [of "i + 1" "map node_count cs"] i b(2) e(2) c(2) by (simp add: take_map drop_map)
  ultimately show ?thesis using wf' by blast
qed

lemma merge_children_ok:
  assumes "wf (Inner ps cs) lo hi" "merge_children i ps cs freed = (ps', cs', freed')"
  shows "wf (Inner ps' cs') lo hi \<and> (\<forall>a. lo \<le> a \<longrightarrow> a < hi \<longrightarrow> entry_at (Inner ps' cs') a = entry_at (Inner ps cs) a) \<and>
    node_count (Inner ps cs) + freed = node_count (Inner ps' cs') + freed'"
  using assms
proof (induction "length ps - i" arbitrary: i ps cs freed rule: less_induct)
  case less
  obtain qs ds where rp: "remove_pivot ps cs i = (qs, ds)" by fastforce
  let ?f = "free_subtree (cs ! (i + 1)) True"
  consider "\<not> i < length ps"
    | e where "i < length ps" "child_is_uniform (cs ! i) = Some e" "child_is_uniform (cs ! (i + 1)) = Some e"
    | "i < length ps" "child_is_uniform (cs ! i) = None \<or> child_is_uniform (cs ! (i + 1)) = None \<or>
        child_is_uniform (cs ! i) \<noteq> child_is_uniform (cs ! (i + 1))"
    by (cases "child_is_uniform (cs ! i)"; cases "child_is_uniform (cs ! (i + 1))") auto
  then show ?case
  proof cases
    case 1
    then show ?thesis using less.prems by (subst (asm) merge_children.simps) (simp add: pivot_count_def)
  next
    case 2
    note r = remove_child_ok [OF less.prems(1) 2 rp]
    have "merge_children i qs ds (freed + ?f) = (ps', cs', freed')"
      using less.prems(2) 2 rp by (subst (asm) merge_children.simps) (simp add: pivot_count_def)
    moreover have "length qs - i < length ps - i" using rp 2(1) by (auto simp: remove_pivot_def)
    ultimately show ?thesis using less.hyps [of qs i ds "freed + ?f"] r by (simp del: wf.simps entry_at.simps node_count.simps)
  next
    case 3
    have "merge_children (i + 1) ps cs freed = (ps', cs', freed')"
      using less.prems(2) 3 by (subst (asm) merge_children.simps) (auto simp: pivot_count_def split: option.splits if_splits)
    with 3(1) show ?thesis using less.hyps [of ps "i + 1" cs freed] less.prems(1) by (simp del: wf.simps entry_at.simps node_count.simps)
  qed
qed

lemma entry_at_children:
  assumes wf: "wf (Inner ps cs) lo hi" "length ds = length cs"
    and c: "\<And>i. i \<le> length ps \<Longrightarrow> wf (ds ! i) (slot_lo ps i lo) (slot_hi ps i hi)"
    and e: "\<And>i a. i \<le> length ps \<Longrightarrow> slot_lo ps i lo \<le> a \<Longrightarrow> a < slot_hi ps i hi \<Longrightarrow> entry_at (ds ! i) a = f a (entry_at (cs ! i) a)"
  shows "wf (Inner ps ds) lo hi \<and> (\<forall>a. lo \<le> a \<longrightarrow> a < hi \<longrightarrow> entry_at (Inner ps ds) a = f a (entry_at (Inner ps cs) a))"
proof -
  note b = wf_InnerD [OF wf(1)]
  have "entry_at (Inner ps ds) a = f a (entry_at (Inner ps cs) a)" if "lo \<le> a" "a < hi" for a
    using e [OF slot_le slot_for_addr_in [OF that]] wf(2) b(2) by simp
  then show ?thesis using c wf(2) b by (simp add: list_all_slots)
qed

lemma sum_list_split:
  "length xs = length ys \<Longrightarrow> (\<And>i. i < length xs \<Longrightarrow> (xs ! i :: nat) = ys ! i + zs ! i) \<Longrightarrow> length zs = length ys \<Longrightarrow>
   sum_list xs = sum_list ys + sum_list zs"
  by (simp add: sum_list_sum_nth sum.distrib)

lemma normalize_rec_ok:
  assumes "wf t lo hi"
  shows "wf (fst (normalize_rec t)) lo hi \<and> (\<forall>a. lo \<le> a \<longrightarrow> a < hi \<longrightarrow> entry_at (fst (normalize_rec t)) a = entry_at t a) \<and>
    node_count t = node_count (fst (normalize_rec t)) + snd (normalize_rec t)"
  using assms
proof (induction t arbitrary: lo hi)
  case (Leaf ps ss)
  obtain ps' ss' where m: "merge_leaf_neighbors 0 ps ss = (ps', ss')" by fastforce
  from merge_leaf_neighbors_ok [OF Leaf m] show ?case by (simp add: m del: wf.simps entry_at.simps)
next
  case (Inner ps cs)
  note b = wf_InnerD [OF Inner.prems]
  let ?rs = "map normalize_rec cs"
  have ci: "cs ! i \<in> set cs" if "i \<le> length ps" for i using that b(2) by simp
  note IH = Inner.IH [OF ci b(3)]
  have ch: "wf (Inner ps (map fst ?rs)) lo hi \<and> (\<forall>a. lo \<le> a \<longrightarrow> a < hi \<longrightarrow> entry_at (Inner ps (map fst ?rs)) a = entry_at (Inner ps cs) a)"
    using entry_at_children [OF Inner.prems, of "map fst ?rs" "\<lambda>a v. v"] IH b(2) by simp
  have cnt: "sum_list (map node_count cs) = sum_list (map node_count (map fst ?rs)) + sum_list (map snd ?rs)"
    using IH b(2) by (intro sum_list_split) simp_all
  obtain qs ds fr where m: "merge_children 0 ps (map fst ?rs) (sum_list (map snd ?rs)) = (qs, ds, fr)" by (metis prod_cases3)
  have mc: "wf (Inner qs ds) lo hi" "\<forall>a. lo \<le> a \<longrightarrow> a < hi \<longrightarrow> entry_at (Inner qs ds) a = entry_at (Inner ps cs) a"
    "node_count (Inner ps cs) = node_count (Inner qs ds) + fr"
    using merge_children_ok [OF conjunct1 [OF ch] m] ch cnt by (simp_all del: wf.simps entry_at.simps)
  show ?case
  proof (cases "length qs = 0 \<and> child_is_uniform (ds ! 0) \<noteq> None")
    case True
    then obtain e where e: "child_is_uniform (ds ! 0) = Some e" by auto
    have d: "length ds = 1" "ds ! 0 = Leaf [] [e]"
      using wf_InnerD(2) [OF mc(1)] wf_InnerD(3) [OF mc(1), of 0] child_is_uniform_Some [OF e, of "slot_lo qs 0 lo" "slot_hi qs 0 hi"] True by simp_all
    then have ds: "ds = [Leaf [] [e]]" by (cases ds) auto
    have "normalize_rec (Inner ps cs) = (Leaf [] [e], fr + 1)"
      using m e True d by (simp add: pivot_count_def collapse_to_leaf_def Let_def)
    moreover have "entry_at (Inner ps cs) a = e" if "lo \<le> a" "a < hi" for a
    proof -
      have "entry_at (Inner qs ds) a = e" using True ds by simp
      then show ?thesis using mc(2) that by metis
    qed
    moreover have "wf (Leaf [] [e]) lo hi" using wf_bounds [OF Inner.prems] by (rule wf_uniform)
    ultimately show ?thesis using mc(3) ds by (simp del: wf.simps normalize_rec.simps)
  next
    case False
    then have "normalize_rec (Inner ps cs) = (Inner qs ds, fr)"
      using m by (auto simp: pivot_count_def Let_def split: option.split)
    with mc show ?thesis by (simp del: wf.simps entry_at.simps node_count.simps)
  qed
qed

subsection \<open>Writing a range\<close>

lemma pivot_outside:
  assumes "bounds_ok ps lo hi" "i \<le> length ps" "x \<in> set ps"
  shows "x \<le> slot_lo ps i lo \<or> slot_hi ps i hi \<le> x"
proof -
  obtain k where k: "k < length ps" "x = ps ! k" using assms(3) by (auto simp: in_set_conv_nth)
  show ?thesis
  proof (cases "k < i")
    case True
    then have "ps ! k \<le> ps ! (i - 1)"
      using bounds_nth(1) [OF assms(1), of k "i - 1"] assms(2) by (cases "k = i - 1") (auto simp: less_imp_le)
    with True k show ?thesis by (simp add: slot_lo_def)
  next
    case False
    then have "ps ! i \<le> ps ! k" using bounds_nth(1) [OF assms(1), of i k] k(1) by (cases "k = i") (auto simp: less_imp_le)
    with False k show ?thesis by (simp add: slot_hi_def pivot_count_def)
  qed
qed

lemma boundary_leaf_slot:
  assumes "wf (Leaf ps ss) lo hi" "boundary (Leaf ps ss) lo hi x" "i \<le> length ps"
  shows "x \<le> slot_lo ps i lo \<or> slot_hi ps i hi \<le> x"
  using assms pivot_outside [of ps lo hi i x] slot_range [of ps lo hi i] by auto

lemma boundary_child:
  assumes "wf (Inner ps cs) lo hi" "boundary (Inner ps cs) lo hi x" "i \<le> length ps"
  shows "boundary (cs ! i) (slot_lo ps i lo) (slot_hi ps i hi) x"
  using assms by (auto simp: list_all_slots)

lemma boundary_outside:
  assumes "wf t lo hi" "x \<le> lo \<or> hi \<le> x"
  shows "boundary t lo hi x"
  using assms
proof (induction t arbitrary: lo hi)
  case (Inner ps cs)
  note b = wf_InnerD [OF Inner.prems(1)]
  have "boundary (cs ! i) (slot_lo ps i lo) (slot_hi ps i hi) x" if "i \<le> length ps" for i
    using that b(2) slot_range [OF b(1) that] Inner.prems(2) by (intro Inner.IH b(3)) auto
  then show ?case using b(2) by (simp add: list_all_slots)
qed auto

lemma write_leaf_ok:
  assumes wf: "wf (Leaf ps ss) lo hi" and "start < end'"
    and bd: "boundary (Leaf ps ss) lo hi start" "boundary (Leaf ps ss) lo hi end'"
    and ts: "ts = map (\<lambda>(r, e). if end' \<le> fst r \<or> snd r \<le> start then e else entry) (zip (slot_ranges ps lo hi) ss)"
  shows "wf (Leaf ps ts) lo hi \<and> (\<forall>a. lo \<le> a \<longrightarrow> a < hi \<longrightarrow>
    entry_at (Leaf ps ts) a = (if start \<le> a \<and> a < end' then entry else entry_at (Leaf ps ss) a))"
proof -
  have b: "bounds_ok ps lo hi" "length ss = length ps + 1" using wf by simp_all
  have "entry_at (Leaf ps ts) a = (if start \<le> a \<and> a < end' then entry else entry_at (Leaf ps ss) a)" if a: "lo \<le> a" "a < hi" for a
  proof -
    let ?i = "slot_for_addr ps a"
    have "ts ! ?i = (if end' \<le> slot_lo ps ?i lo \<or> slot_hi ps ?i hi \<le> start then ss ! ?i else entry)"
      unfolding ts by (subst map_slots_nth [OF b(2) slot_le]) simp
    moreover have "(end' \<le> slot_lo ps ?i lo \<or> slot_hi ps ?i hi \<le> start) \<longleftrightarrow> \<not> (start \<le> a \<and> a < end')"
      using slot_for_addr_in [OF a, of ps] boundary_leaf_slot [OF wf bd(1) slot_le, of a] boundary_leaf_slot [OF wf bd(2) slot_le, of a]
        assms(2) by auto
    ultimately show ?thesis by simp
  qed
  then show ?thesis using b ts by simp
qed

lemma set_uniform_ok:
  assumes "wf t lo hi" "start \<le> lo" "hi \<le> end'"
  shows "wf (fst (set_subtree_uniform t entry)) lo hi \<and>
    (\<forall>a. lo \<le> a \<longrightarrow> a < hi \<longrightarrow> entry_at (fst (set_subtree_uniform t entry)) a = (if start \<le> a \<and> a < end' then entry else entry_at t a)) \<and>
    node_count t = node_count (fst (set_subtree_uniform t entry)) + snd (set_subtree_uniform t entry)"
  using wf_uniform [OF wf_bounds [OF assms(1)]] assms(2,3) free_subtree_count [of t False]
  by (auto simp: set_subtree_uniform_def)

text \<open>The effect of writing \<open>entry\<close> to \<open>[start, end')\<close> on a subtree.\<close>

definition written :: "u64 \<Rightarrow> u64 \<Rightarrow> u64 \<Rightarrow> u64 \<Rightarrow> u64 \<Rightarrow> u64" where
  "written start end' entry a v = (if start \<le> a \<and> a < end' then entry else v)"

lemma write_range_rec_ok:
  assumes "wf t lo hi" "start < end'" "boundary t lo hi start" "boundary t lo hi end'"
  shows "wf (fst (write_range_rec t lo hi start end' entry)) lo hi \<and>
    (\<forall>a. lo \<le> a \<longrightarrow> a < hi \<longrightarrow>
       entry_at (fst (write_range_rec t lo hi start end' entry)) a = written start end' entry a (entry_at t a)) \<and>
    node_count t = node_count (fst (write_range_rec t lo hi start end' entry)) + snd (write_range_rec t lo hi start end' entry)"
  using assms
proof (induction t arbitrary: lo hi)
  case (Leaf ps ss)
  let ?ts = "map (\<lambda>(r, e). if end' \<le> fst r \<or> snd r \<le> start then e else entry) (zip (slot_ranges ps lo hi) ss)"
  note w = write_leaf_ok [OF Leaf.prems refl, of entry]
  obtain ps' ss' where m: "merge_leaf_neighbors 0 ps ?ts = (ps', ss')" by fastforce
  consider "end' \<le> lo \<or> hi \<le> start" | "\<not> (end' \<le> lo \<or> hi \<le> start)" "start \<le> lo \<and> hi \<le> end'"
    | "\<not> (end' \<le> lo \<or> hi \<le> start)" "\<not> (start \<le> lo \<and> hi \<le> end')" by blast
  then show ?case
  proof cases
    case 1
    then have "written start end' entry a v = v" if "lo \<le> a" "a < hi" for a v using that by (auto simp: written_def)
    with 1 Leaf.prems(1) show ?thesis by (simp del: wf.simps entry_at.simps)
  next
    case 2
    then show ?thesis using set_uniform_ok [OF Leaf.prems(1), of start end' entry] by (simp add: written_def del: wf.simps entry_at.simps)
  next
    case 3
    have "write_range_rec (Leaf ps ss) lo hi start end' entry = (Leaf ps' ss', 0)"
      unfolding write_range_rec.simps if_not_P [OF 3(1)] if_not_P [OF 3(2)] Let_def m by simp
    then show ?thesis using w merge_leaf_neighbors_ok [OF conjunct1 [OF w] m] by (simp add: written_def del: wf.simps entry_at.simps write_range_rec.simps)
  qed
next
  case (Inner ps cs)
  note b = wf_InnerD [OF Inner.prems(1)]
  let ?g = "\<lambda>(r, c). if end' \<le> fst r \<or> snd r \<le> start then (c, 0) else write_range_rec c (fst r) (snd r) start end' entry"
  have ci: "cs ! i \<in> set cs" if "i \<le> length ps" for i using that b(2) by simp
  note IH = Inner.IH [OF ci b(3) Inner.prems(2) boundary_child [OF Inner.prems(1,3)] boundary_child [OF Inner.prems(1,4)]]
  consider "end' \<le> lo \<or> hi \<le> start" | "\<not> (end' \<le> lo \<or> hi \<le> start)" "start \<le> lo \<and> hi \<le> end'"
    | "\<not> (end' \<le> lo \<or> hi \<le> start)" "\<not> (start \<le> lo \<and> hi \<le> end')" by blast
  then show ?case
  proof cases
    case 1
    then have "written start end' entry a v = v" if "lo \<le> a" "a < hi" for a v using that by (auto simp: written_def)
    with 1 Inner.prems(1) show ?thesis by (simp del: wf.simps entry_at.simps)
  next
    case 2
    then show ?thesis using set_uniform_ok [OF Inner.prems(1), of start end' entry] by (simp add: written_def del: wf.simps entry_at.simps)
  next
    case 3
    define rs where "rs = map ?g (zip (slot_ranges ps lo hi) cs)"
    have nth: "rs ! i = ?g ((slot_lo ps i lo, slot_hi ps i hi), cs ! i)" if "i \<le> length ps" for i
      using that unfolding rs_def by (rule map_slots_nth [OF b(2)])
    have len: "length rs = length cs" using b(2) by (simp add: rs_def)
    have each: "wf (fst (rs ! i)) (slot_lo ps i lo) (slot_hi ps i hi)"
      "\<And>a. slot_lo ps i lo \<le> a \<Longrightarrow> a < slot_hi ps i hi \<Longrightarrow> entry_at (fst (rs ! i)) a = written start end' entry a (entry_at (cs ! i) a)"
      "node_count (cs ! i) = node_count (fst (rs ! i)) + snd (rs ! i)" if "i \<le> length ps" for i
      using IH [OF that that that that] b(3) [OF that] unfolding nth [OF that] by (auto simp: written_def)
    have rs: "map fst rs ! i = fst (rs ! i)" "map snd rs ! i = snd (rs ! i)" if "i \<le> length ps" for i
      using that len b(2) by simp_all
    have "wf (Inner ps (map fst rs)) lo hi \<and> (\<forall>a. lo \<le> a \<longrightarrow> a < hi \<longrightarrow>
        entry_at (Inner ps (map fst rs)) a = written start end' entry a (entry_at (Inner ps cs) a))"
      using each rs len b(2) by (intro entry_at_children [OF Inner.prems(1)]) (auto simp del: map_map)
    moreover have "sum_list (map node_count cs) = sum_list (map node_count (map fst rs)) + sum_list (map snd rs)"
      using each(3) rs b(2) len by (intro sum_list_split) (simp_all del: map_map)
    moreover have "write_range_rec (Inner ps cs) lo hi start end' entry = (Inner ps (map fst rs), sum_list (map snd rs))"
      unfolding write_range_rec.simps if_not_P [OF 3(1)] if_not_P [OF 3(2)] Let_def rs_def ..
    ultimately show ?thesis by (simp del: wf.simps entry_at.simps write_range_rec.simps)
  qed
qed

subsection \<open>Boundaries\<close>

lemma slot_for_addr_insert:
  assumes "sorted_wrt (<) ps" "slot_for_addr ps x \<noteq> 0 \<longrightarrow> ps ! (slot_for_addr ps x - 1) < x"
  shows "slot_for_addr (take (slot_for_addr ps x) ps @ x # drop (slot_for_addr ps x) ps) a =
    (if x \<le> a then slot_for_addr ps a + 1 else slot_for_addr ps a)"
  using assms
proof (induction ps)
  case (Cons p ps)
  show ?case
  proof (cases "p \<le> x")
    case True
    have px: "p < x"
    proof (cases "slot_for_addr ps x")
      case 0
      then show ?thesis using Cons.prems(2) True by simp
    next
      case (Suc k)
      then have "k < length ps" using slot_le [of ps x] by simp
      then have "p < ps ! k" using Cons.prems(1) by simp
      then show ?thesis using slot_below [of k ps x] Suc by simp
    qed
    have "slot_for_addr ps x \<noteq> 0 \<longrightarrow> ps ! (slot_for_addr ps x - 1) < x" using Cons.prems(2) True by auto
    with Cons.IH Cons.prems(1) True px show ?thesis by auto
  next
    case False
    then show ?thesis using slot_before [OF Cons.prems(1), of a] by auto
  qed
qed simp

lemma dup_nth:
  assumes "i < length ss" "j \<le> length ss"
  shows "(take (i + 1) ss @ ss ! i # drop (i + 1) ss) ! j = (if j \<le> i then ss ! j else ss ! (j - 1))"
proof -
  have l: "length (take (i + 1) ss) = i + 1" using assms(1) by simp
  consider "j \<le> i" | "j = i + 1" | k where "j = i + 1 + Suc k" by atomize_elim presburger
  then show ?thesis using assms l by cases (simp_all add: nth_append)
qed

lemma insert_leaf_boundary_ok:
  assumes wf: "wf (Leaf ps ss) lo hi" and x: "lo < x" "x < hi" and r: "insert_leaf_boundary ps ss lo hi x = (VMTREE_OK, ps', ss')"
  shows "wf (Leaf ps' ss') lo hi \<and> (\<forall>a. entry_at (Leaf ps' ss') a = entry_at (Leaf ps ss) a) \<and> x \<in> set ps' \<and> set ps \<subseteq> set ps'"
proof -
  let ?i = "slot_for_addr ps x"
  have b: "bounds_ok ps lo hi" "length ss = length ps + 1" using wf by simp_all
  have sorted: "sorted_wrt (<) ps" using b(1) by (simp add: bounds_ok_iff)
  have inn: "slot_lo ps ?i lo \<le> x" "x < slot_hi ps ?i hi" using slot_for_addr_in [of lo x hi ps] x by auto
  show ?thesis
  proof (cases "x = slot_lo ps ?i lo \<or> x = slot_hi ps ?i hi")
    case True
    then have "x = slot_lo ps ?i lo" using inn by auto
    then have "?i \<noteq> 0" "x = ps ! (?i - 1)" using x by (simp_all add: slot_lo_def split: if_splits)
    moreover from this(1) have "?i - 1 < length ps" using slot_le [of ps x] by simp
    ultimately have "x \<in> set ps" using nth_mem by metis
    moreover have "ps' = ps" "ss' = ss" using r True by (auto simp: insert_leaf_boundary_def Let_def)
    ultimately show ?thesis using wf by auto
  next
    case False
    then have nf: "\<not> node_is_full ps" and e: "ps' = take ?i ps @ x # drop ?i ps" "ss' = take (?i + 1) ss @ (ss ! ?i) # drop (?i + 1) ss"
      using r by (auto simp: insert_leaf_boundary_def Let_def split: if_splits)
    have lt: "?i \<noteq> 0 \<longrightarrow> ps ! (?i - 1) < x" using inn(1) False by (auto simp: slot_lo_def)
    note slot = slot_for_addr_insert [OF sorted lt]
    have before: "p < x" if "p \<in> set (take ?i ps)" for p
    proof -
      obtain k where "k < length (take ?i ps)" "take ?i ps ! k = p"
        using \<open>p \<in> set (take ?i ps)\<close> unfolding in_set_conv_nth by blast
      then have k: "k < ?i" "p = ps ! k" by simp_all
      then have "ps ! k \<le> ps ! (?i - 1)"
        using bounds_nth(1) [OF b(1), of k "?i - 1"] slot_le [of ps x] by (cases "k = ?i - 1") (auto simp: less_imp_le)
      with k lt show ?thesis by auto
    qed
    have after: "x < p" if "p \<in> set (drop ?i ps)" for p
    proof -
      obtain m where m: "m < length (drop ?i ps)" "drop ?i ps ! m = p"
        using \<open>p \<in> set (drop ?i ps)\<close> unfolding in_set_conv_nth by blast
      define k where "k = ?i + m"
      have k: "?i \<le> k" "k < length ps" "p = ps ! k" using m by (simp_all add: k_def)
      have "ps ! ?i \<le> ps ! k" using bounds_nth(1) [OF b(1), of ?i k] k by (cases "k = ?i") (auto simp: less_imp_le)
      with k slot_above [of ps x] show ?thesis by auto
    qed
    have sub: "set (take ?i ps) \<subseteq> set ps" "set (drop ?i ps) \<subseteq> set ps" by (auto dest: in_set_takeD in_set_dropD)
    have td: "sorted_wrt (<) (take ?i ps @ drop ?i ps)" using sorted by simp
    then have "sorted_wrt (<) ps'" unfolding e using before after by (auto simp: sorted_wrt_append intro: less_trans [of _ x])
    moreover have "length ps' \<le> 15" using nf slot_le [of ps x] by (simp add: e node_is_full_def pivot_count_def)
    moreover have "\<forall>p \<in> set ps'. lo < p \<and> p < hi" using b(1) x sub unfolding e bounds_ok_iff by auto
    ultimately have b': "bounds_ok ps' lo hi" using b(1) by (simp add: bounds_ok_iff)
    have "entry_at (Leaf ps' ss') a = entry_at (Leaf ps ss) a" for a
    proof -
      have ii: "?i < length ss" using b(2) by simp
      have "x \<le> a \<Longrightarrow> ?i \<le> slot_for_addr ps a"
      proof (rule ccontr)
        assume a: "x \<le> a" "\<not> ?i \<le> slot_for_addr ps a"
        then have "slot_for_addr ps a < length ps" "slot_for_addr ps a < ?i" using slot_le [of ps x] by auto
        then show False using slot_above [of ps a] slot_below [of "slot_for_addr ps a" ps x] a(1) by auto
      qed
      moreover have "\<not> x \<le> a \<Longrightarrow> slot_for_addr ps a \<le> ?i"
      proof (rule ccontr)
        assume a: "\<not> x \<le> a" "\<not> slot_for_addr ps a \<le> ?i"
        then have "?i < length ps" using slot_le [of ps a] by auto
        then show False using slot_above [of ps x] slot_below [of ?i ps a] a by auto
      qed
      ultimately show ?thesis
        using slot [of a] dup_nth [OF ii, of "slot_for_addr ps' a"] slot_le [of ps a] b(2) unfolding e(1) [symmetric] e(2) [symmetric]
        by (cases "x \<le> a") auto
    qed
    moreover have "set ps \<subseteq> set ps'" unfolding e using append_take_drop_id [of ?i ps] by (metis Un_upper1 Un_upper2 append_take_drop_id list.set_intros(2) set_append subsetI Un_iff)
    ultimately show ?thesis using b' b(2) slot_le [of ps x] e by simp
  qed
qed

text \<open>The heap accounts for the nodes of a tree: what it has beside them does not change.\<close>

lemma kzalloc_live: "kzalloc h = (ok, h') \<Longrightarrow> live h' = live h + of_bool ok"
  by (auto simp: kzalloc_def split: if_splits)

lemma alloc_children_live:
  assumes "alloc_children es made h = (r, h')"
  shows "(case r of None \<Rightarrow> live h' + length made = live h | Some cs \<Rightarrow> live h' = live h + length es) \<or> live h < length made"
  using assms
proof (induction es arbitrary: made h)
  case (Cons e es)
  obtain ok h1 where k: "kzalloc h = (ok, h1)" by fastforce
  show ?case
  proof (cases ok)
    case True
    with Cons.prems k have "alloc_children es (made @ [Leaf [] [e]]) h1 = (r, h')" by (simp add: alloc_leaf_node_def)
    from Cons.IH [OF this] kzalloc_live [OF k] True show ?thesis by (auto split: option.splits)
  next
    case False
    with Cons.prems k kzalloc_live [OF k] show ?thesis by (auto simp: alloc_leaf_node_def kfree_nodes_def split: option.splits)
  qed
qed auto

lemma promote_ok:
  assumes "wf (Leaf ps ss) lo hi" "promote_leaf_to_internal ps ss h = (st, t, h')"
  shows "wf t lo hi \<and> (\<forall>a. entry_at t a = entry_at (Leaf ps ss) a) \<and> live h' + 1 = live h + node_count t \<and> st \<in> {VMTREE_OK, VMTREE_ERR_NOMEM} \<and>
    (st = VMTREE_OK \<longrightarrow> t = Inner ps (map (\<lambda>e. Leaf [] [e]) ss)) \<and> (\<forall>y. boundary (Leaf ps ss) lo hi y \<longrightarrow> boundary t lo hi y)"
proof (cases "alloc_children ss [] h")
  case (Pair r h1)
  have b: "bounds_ok ps lo hi" "length ss = length ps + 1" using assms(1) by simp_all
  show ?thesis
  proof (cases r)
    case None
    with Pair assms alloc_children_live [OF Pair] show ?thesis by (auto simp: promote_leaf_to_internal_def)
  next
    case (Some cs)
    then have cs: "cs = map (\<lambda>e. Leaf [] [e]) ss" using alloc_children_leaves [of ss "[]" h cs h1] Pair by simp
    then have t: "t = Inner ps cs" "h' = h1" "st = VMTREE_OK" using assms(2) Pair Some by (auto simp: promote_leaf_to_internal_def)
    have "\<forall>i \<le> length ps. wf (cs ! i) (slot_lo ps i lo) (slot_hi ps i hi)"
      using cs b slot_range(1) [OF b(1)] wf_uniform by (auto simp del: wf.simps)
    then have wf: "wf t lo hi" using t cs b by (simp add: list_all_slots)
    have nc: "sum_list (map node_count cs) = length ss" unfolding cs by (simp add: comp_def sum_list_triv)
    have "boundary t lo hi y" if "boundary (Leaf ps ss) lo hi y" for y
    proof -
      have "boundary (cs ! i) (slot_lo ps i lo) (slot_hi ps i hi) y" if "i \<le> length ps" for i
        using boundary_leaf_slot [OF assms(1) \<open>boundary (Leaf ps ss) lo hi y\<close> that] cs b(2) that by auto
      then show ?thesis using t cs b(2) by (simp add: list_all_slots)
    qed
    then show ?thesis using wf nc alloc_children_live [OF Pair] Some t cs b(2) by (auto simp del: wf.simps boundary.simps)
  qed
qed

definition ensured :: "vmtree_node \<Rightarrow> u64 \<Rightarrow> u64 \<Rightarrow> u64 \<Rightarrow> node_heap \<Rightarrow> vmtree_status \<times> vmtree_node \<times> node_heap \<Rightarrow> bool" where
  "ensured t lo hi x h r \<longleftrightarrow> (case r of (st, t', h') \<Rightarrow>
     wf t' lo hi \<and> (\<forall>a. lo \<le> a \<longrightarrow> a < hi \<longrightarrow> entry_at t' a = entry_at t a) \<and> live h' + node_count t = live h + node_count t' \<and>
     st \<in> {VMTREE_OK, VMTREE_ERR_NOMEM} \<and> (st = VMTREE_OK \<longrightarrow> boundary t' lo hi x) \<and>
     (\<forall>y. boundary t lo hi y \<longrightarrow> boundary t' lo hi y))"

lemma sum_list_update_nat:
  fixes xs :: "nat list"
  assumes "i < length xs"
  shows "sum_list (xs[i := v]) + xs ! i = sum_list xs + v"
  using assms elem_le_sum_list [of i xs] by (simp add: sum_list_update)

lemma ensured_child:
  assumes wf: "wf (Inner ps cs) lo hi" and x: "lo < x" "x < hi" and i: "i = slot_for_addr ps x"
    and c: "ensured (cs ! i) (slot_lo ps i lo) (slot_hi ps i hi) x h (st, c, h')"
  shows "ensured (Inner ps cs) lo hi x h (st, Inner ps (cs[i := c]), h')"
proof -
  note b = wf_InnerD [OF wf]
  have il: "i \<le> length ps" "i < length cs" using i slot_le [of ps x] b(2) by simp_all
  note cc = c [unfolded ensured_def prod.case]
  have e: "wf (Inner ps (cs[i := c])) lo hi \<and> (\<forall>a. lo \<le> a \<longrightarrow> a < hi \<longrightarrow> entry_at (Inner ps (cs[i := c])) a = entry_at (Inner ps cs) a)"
  proof (intro entry_at_children [OF wf, where f = "\<lambda>a v. v"])
    show "wf (cs[i := c] ! j) (slot_lo ps j lo) (slot_hi ps j hi)" if "j \<le> length ps" for j
      using b(3) [OF that] cc il by (cases "j = i") auto
    show "entry_at (cs[i := c] ! j) a = entry_at (cs ! j) a" if "slot_lo ps j lo \<le> a" "a < slot_hi ps j hi" for j a
      using that cc il by (cases "j = i") auto
  qed simp
  have n: "live h' + node_count (Inner ps cs) = live h + node_count (Inner ps (cs[i := c]))"
    using cc sum_list_update_nat [of i "map node_count cs" "node_count c"] il by (simp add: map_update)
  have bx: "boundary (Inner ps (cs[i := c])) lo hi x" if "st = VMTREE_OK"
  proof -
    have "boundary (cs[i := c] ! j) (slot_lo ps j lo) (slot_hi ps j hi) x" if j: "j \<le> length ps" for j
    proof (cases "j = i")
      case False
      then have "x \<le> slot_lo ps j lo \<or> slot_hi ps j hi \<le> x"
        using slot_for_addr_unique [OF b(1) j, of x] i by (metis linorder_linear not_less)
      then show ?thesis using boundary_outside [OF b(3) [OF j]] False by simp
    qed (use cc \<open>st = VMTREE_OK\<close> il in simp)
    then show ?thesis using b(2) by (simp add: list_all_slots)
  qed
  have bk: "boundary (Inner ps (cs[i := c])) lo hi y" if "boundary (Inner ps cs) lo hi y" for y
  proof -
    have "boundary (cs[i := c] ! j) (slot_lo ps j lo) (slot_hi ps j hi) y" if "j \<le> length ps" for j
      using boundary_child [OF wf \<open>boundary (Inner ps cs) lo hi y\<close> that] cc il by (cases "j = i") auto
    then show ?thesis using b(2) by (simp add: list_all_slots)
  qed
  show ?thesis unfolding ensured_def prod.case using e n bx bk cc by blast
qed

lemma ensure_boundary_rec_ok:
  assumes "wf t lo hi"
  shows "ensured t lo hi x h (ensure_boundary_rec t lo hi x h)"
  using assms
proof (induction t lo hi x h rule: ensure_boundary_rec.induct)
  case (1 ps ss lo hi x h)
  obtain st ps' ss' where ins: "insert_leaf_boundary ps ss lo hi x = (st, ps', ss')" by (metis prod_cases3)
  obtain st2 t2 h2 where pro: "promote_leaf_to_internal ps ss h = (st2, t2, h2)" by (metis prod_cases3)
  consider "x \<le> lo \<or> x \<ge> hi" | "lo < x" "x < hi" "st = VMTREE_OK" | "lo < x" "x < hi" "st \<noteq> VMTREE_OK" by fastforce
  then show ?case
  proof cases
    case 1
    then show ?thesis using "1.prems" by (auto simp: ensured_def)
  next
    case 2
    then have "\<not> (x \<le> lo \<or> x \<ge> hi)" by auto
    then have "ensure_boundary_rec (Leaf ps ss) lo hi x h = (VMTREE_OK, Leaf ps' ss', h)" using ins 2(3) by simp
    with 2 insert_leaf_boundary_ok [OF "1.prems" 2(1,2), of ps' ss'] ins show ?thesis by (auto simp: ensured_def)
  next
    case 3
    note p = promote_ok [OF "1.prems" pro]
    show ?thesis
    proof (cases "st2 = VMTREE_OK")
      case False
      then have "ensure_boundary_rec (Leaf ps ss) lo hi x h = (st2, t2, h2)" using 3 ins pro by auto
      with False p show ?thesis by (simp add: ensured_def del: wf.simps boundary.simps entry_at.simps)
    next
      case True
      then have e: "ensure_boundary_rec (Leaf ps ss) lo hi x h = ensure_boundary_rec t2 lo hi x h2" using 3 ins pro by auto
      have "ensured t2 lo hi x h2 (ensure_boundary_rec t2 lo hi x h2)"
        using "1.IH" 3 ins pro True p by (auto simp del: wf.simps boundary.simps entry_at.simps)
      then show ?thesis unfolding e using p
        by (auto simp: ensured_def simp del: wf.simps boundary.simps entry_at.simps split: prod.splits)
    qed
  qed
next
  case (2 ps cs lo hi x h)
  let ?i = "slot_for_addr ps x"
  note b = wf_InnerD [OF "2.prems"]
  show ?case
  proof (cases "x \<le> lo \<or> x \<ge> hi")
    case True
    then show ?thesis using "2.prems" boundary_outside [OF "2.prems", of x] by (auto simp: ensured_def simp del: wf.simps boundary.simps entry_at.simps)
  next
    case False
    obtain st c h' where r: "ensure_boundary_rec (cs ! ?i) (slot_lo ps ?i lo) (slot_hi ps ?i hi) x h = (st, c, h')" by (metis prod_cases3)
    have "ensured (cs ! ?i) (slot_lo ps ?i lo) (slot_hi ps ?i hi) x h (st, c, h')"
      using "2.IH" [OF False refl _ b(3) [OF slot_le]] b(2) r by simp
    moreover have "ensure_boundary_rec (Inner ps cs) lo hi x h = (st, Inner ps (cs[?i := c]), h')" using False r b(2) by simp
    moreover have "lo < x" "x < hi" using False by auto
    ultimately show ?thesis using ensured_child [OF "2.prems" _ _ refl] by simp
  qed
qed

subsection \<open>The map of a tree\<close>

definition tree_ok :: "vmtree \<Rightarrow> bool" where
  "tree_ok t \<longleftrightarrow> wf t 0 UINTPTR_MAX"

text \<open>The abstract state: the entry of every address below \<^verbatim>\<open>UINTPTR_MAX\<close>, 0 for a hole.\<close>

definition vm_map :: "vmtree \<Rightarrow> u64 \<Rightarrow> u64" where
  "vm_map t a = (if a < UINTPTR_MAX then entry_at t a else 0)"

text \<open>The heap holds the nodes of the tree except the root, which is embedded, beside \<open>others\<close>.\<close>

definition heap_ok :: "nat \<Rightarrow> vmtree \<Rightarrow> node_heap \<Rightarrow> bool" where
  "heap_ok others t h \<longleftrightarrow> live h + 1 = others + node_count t"

lemma le_UINTPTR_MAX: "(a :: u64) \<le> UINTPTR_MAX"
  using unat_u64_lt [of a] by (simp add: word_le_nat_alt)

lemma below_max: "(a :: u64) < UINTPTR_MAX \<longleftrightarrow> a \<noteq> UINTPTR_MAX"
  using le_UINTPTR_MAX [of a] by auto

lemma vm_map_cong:
  assumes "\<forall>a. 0 \<le> a \<longrightarrow> a < UINTPTR_MAX \<longrightarrow> entry_at t' a = entry_at t a"
  shows "vm_map t' = vm_map t"
  using assms by (auto simp: vm_map_def fun_eq_iff)

lemma write_checked_ok:
  assumes ok: "tree_ok t" "heap_ok others t h" and se: "start < end'"
    and r: "write_checked t start end' entry h = (st, t', h')"
  shows "tree_ok t' \<and> heap_ok others t' h' \<and>
    (st = VMTREE_OK \<and> vm_map t' = (\<lambda>a. if start \<le> a \<and> a < end' then entry else vm_map t a) \<or>
     st = VMTREE_ERR_NOMEM \<and> vm_map t' = vm_map t)"
proof -
  obtain s1 t1 h1 where e1: "ensure_boundary_rec t 0 UINTPTR_MAX start h = (s1, t1, h1)" by (metis prod_cases3)
  obtain s2 t2 h2 where e2: "ensure_boundary_rec t1 0 UINTPTR_MAX end' h1 = (s2, t2, h2)" by (metis prod_cases3)
  note n1 = ensure_boundary_rec_ok [OF ok(1) [unfolded tree_ok_def], of start h, unfolded e1 ensured_def prod.case]
  then have w1: "wf t1 0 UINTPTR_MAX" by blast
  note n2 = ensure_boundary_rec_ok [OF w1, of end' h1, unfolded e2 ensured_def prod.case]
  then have w2: "wf t2 0 UINTPTR_MAX" by blast
  have m: "vm_map t1 = vm_map t" "vm_map t2 = vm_map t1" using n1 n2 vm_map_cong by blast+
  consider "s1 \<noteq> VMTREE_OK" | "s1 = VMTREE_OK" "s2 \<noteq> VMTREE_OK" | "s1 = VMTREE_OK" "s2 = VMTREE_OK" by blast
  then show ?thesis
  proof cases
    case 1
    then have "st = s1" "t' = t1" "h' = h1" using r e1 by (auto simp: write_checked_def)
    with n1 1 ok m show ?thesis by (auto simp: tree_ok_def heap_ok_def)
  next
    case 2
    then have "st = s2" "t' = t2" "h' = h2" using r e1 e2 by (auto simp: write_checked_def)
    with n1 n2 2 ok m show ?thesis by (auto simp: tree_ok_def heap_ok_def)
  next
    case 3
    have bd: "boundary t2 0 UINTPTR_MAX start" "boundary t2 0 UINTPTR_MAX end'" using n1 n2 3 by blast+
    obtain t3 f1 where w: "write_range_rec t2 0 UINTPTR_MAX start end' entry = (t3, f1)" by fastforce
    obtain t4 f2 where n: "normalize_rec t3 = (t4, f2)" by fastforce
    have t3: "wf t3 0 UINTPTR_MAX" "\<forall>a. 0 \<le> a \<longrightarrow> a < UINTPTR_MAX \<longrightarrow> entry_at t3 a = written start end' entry a (entry_at t2 a)"
      "node_count t2 = node_count t3 + f1"
      using write_range_rec_ok [OF w2 se bd, of entry] w by auto
    have t4: "wf t4 0 UINTPTR_MAX" "\<forall>a. 0 \<le> a \<longrightarrow> a < UINTPTR_MAX \<longrightarrow> entry_at t4 a = entry_at t3 a"
      "node_count t3 = node_count t4 + f2"
      using normalize_rec_ok [OF t3(1)] n by auto
    have e: "st = VMTREE_OK" "t' = t4" "h' = kfree_nodes (kfree_nodes h2 f1) f2" using r e1 e2 w n 3 by (auto simp: write_checked_def)
    have "end' \<le> UINTPTR_MAX" by (rule le_UINTPTR_MAX)
    then have "vm_map t4 a = (if start \<le> a \<and> a < end' then entry else vm_map t a)" for a
    proof -
      have "vm_map t2 a = vm_map t a" using m by simp
      then show ?thesis using t3(2) t4(2) \<open>end' \<le> UINTPTR_MAX\<close> by (auto simp: vm_map_def written_def split: if_splits)
    qed
    moreover have "heap_ok others t4 h'"
    proof -
      have "live h1 + node_count t = live h + node_count t1" "live h2 + node_count t1 = live h1 + node_count t2" using n1 n2 by blast+
      then have "live h2 + 1 = others + node_count t4 + f2 + f1" using ok(2) t3(3) t4(3) by (simp add: heap_ok_def)
      moreover obtain m where "node_count t4 = Suc m" using node_count_pos gr0_conv_Suc by blast
      ultimately show ?thesis by (simp add: e(3) heap_ok_def kfree_nodes_def)
    qed
    ultimately show ?thesis using e t4(1) by (auto simp: tree_ok_def)
  qed
qed

subsection \<open>Iteration\<close>

lemma get_in_tree:
  assumes "tree_ok t" "a \<noteq> UINTPTR_MAX"
  shows "\<exists>s e. vmtree_get t a = Some \<lparr>entry_start = s, entry_end = e, entry_value = vm_map t a\<rparr> \<and>
    s \<le> a \<and> a < e \<and> (\<forall>b. s \<le> b \<longrightarrow> b < e \<longrightarrow> vm_map t b = vm_map t a)"
proof -
  have a: "a < UINTPTR_MAX" using assms(2) by (simp add: below_max)
  obtain s e where g: "get_loop t a 0 UINTPTR_MAX = Some \<lparr>entry_start = s, entry_end = e, entry_value = entry_at t a\<rparr>"
    "s \<le> a" "a < e" "e \<le> UINTPTR_MAX" "\<forall>b. s \<le> b \<longrightarrow> b < e \<longrightarrow> entry_at t b = entry_at t a"
    using get_loop_ok [OF assms(1) [unfolded tree_ok_def] word_coorder.extremum a] by blast
  have "vm_map t b = vm_map t a" if "s \<le> b" "b < e" for b
    using order.strict_trans2 [OF that(2) g(4)] g(5) that a unfolding vm_map_def by simp
  moreover have "vmtree_get t a = Some \<lparr>entry_start = s, entry_end = e, entry_value = vm_map t a\<rparr>"
    using g(1) a assms(2) by (simp add: vmtree_get_def vm_map_def)
  ultimately show ?thesis using g(2,3) by blast
qed

text \<open>What one step of the iteration at address \<open>addr\<close> promises.\<close>

definition iter_step :: "vmtree \<Rightarrow> vmtree_iter \<Rightarrow> u64 \<Rightarrow> vmtree_entry option \<Rightarrow> vmtree_iter \<Rightarrow> bool" where
  "iter_step t it addr out it' \<longleftrightarrow>
    (case out of
       None \<Rightarrow> finished it' \<and> (\<forall>b \<ge> addr. vm_map t b = 0)
     | Some e \<Rightarrow> (\<exists>a. addr \<le> a \<and> entry_start e \<le> a \<and> a < entry_end e \<and> (\<forall>b. addr \<le> b \<longrightarrow> b < a \<longrightarrow> vm_map t b = 0)) \<and>
         (\<forall>b. entry_start e \<le> b \<longrightarrow> b < entry_end e \<longrightarrow> vm_map t b = entry_value e) \<and> entry_value e \<noteq> 0 \<and>
         it' = (if entry_end e = UINTPTR_MAX then it\<lparr>finished := True\<rparr> else it\<lparr>next_addr := entry_end e\<rparr>))"

lemma vm_map_max: "UINTPTR_MAX \<le> b \<Longrightarrow> vm_map t b = 0"
  by (auto simp: vm_map_def)

lemma iter_loop_ok:
  assumes "tree_ok t"
  shows "\<exists>out it'. iter_loop t it addr = Some (out, it') \<and> iter_step t it addr out it'"
  using assms
proof (induction t it addr rule: iter_loop.induct)
  case (1 t it addr)
  show ?case
  proof (cases "addr = UINTPTR_MAX")
    case True
    then show ?thesis by (subst iter_loop.simps) (simp add: iter_step_def vm_map_max)
  next
    case False
    obtain s e where g: "vmtree_get t addr = Some \<lparr>entry_start = s, entry_end = e, entry_value = vm_map t addr\<rparr>"
      "s \<le> addr" "addr < e" "\<forall>b. s \<le> b \<longrightarrow> b < e \<longrightarrow> vm_map t b = vm_map t addr"
      using get_in_tree [OF "1.prems" False] by blast
    consider "vm_map t addr \<noteq> 0" | "vm_map t addr = 0" "e = UINTPTR_MAX" | "vm_map t addr = 0" "e \<noteq> UINTPTR_MAX" by blast
    then show ?thesis
    proof cases
      case 1
      let ?it = "if e = UINTPTR_MAX then it\<lparr>finished := True\<rparr> else it\<lparr>next_addr := e\<rparr>"
      let ?e = "\<lparr>entry_start = s, entry_end = e, entry_value = vm_map t addr\<rparr>"
      have "iter_loop t it addr = Some (Some ?e, ?it)" using 1 False g(1,3) by (subst iter_loop.simps) simp
      moreover have "iter_step t it addr (Some ?e) ?it"
      proof -
        have "\<exists>a. addr \<le> a \<and> s \<le> a \<and> a < e \<and> (\<forall>b. addr \<le> b \<longrightarrow> b < a \<longrightarrow> vm_map t b = 0)"
          using g(2,3) by (intro exI [of _ addr]) auto
        then show ?thesis unfolding iter_step_def using 1 g(4) by simp
      qed
      ultimately show ?thesis by blast
    next
      case 2
      have "iter_loop t it addr = Some (None, it\<lparr>finished := True\<rparr>)" using 2 False g(1,3) by (subst iter_loop.simps) simp
      moreover have "vm_map t b = 0" if "addr \<le> b" for b
        using that g(2,4) 2 vm_map_max [of b t] order_trans [OF g(2) that] by (cases "b < UINTPTR_MAX") auto
      ultimately show ?thesis by (simp add: iter_step_def)
    next
      case 3
      have rec: "iter_loop t it addr = iter_loop t it e" using 3 False g(1,3) by (subst iter_loop.simps) simp
      obtain out it' where o: "iter_loop t it e = Some (out, it')" "iter_step t it e out it'"
        using "1.IH" [OF False g(1)] 3 g(3) "1.prems" by auto
      have hole: "vm_map t b = 0" if "addr \<le> b" "b < e" for b using that g(2,4) 3(1) order_trans [OF g(2) that(1)] by auto
      have "iter_step t it addr out it'"
      proof (cases out)
        case None
        with o(2) have "finished it'" "\<forall>b \<ge> e. vm_map t b = 0" by (simp_all add: iter_step_def)
        then have "\<forall>b \<ge> addr. vm_map t b = 0" using hole not_less by blast
        with None \<open>finished it'\<close> show ?thesis by (simp add: iter_step_def)
      next
        case (Some x)
        with o(2) obtain a where a: "e \<le> a" "entry_start x \<le> a" "a < entry_end x" "\<forall>b. e \<le> b \<longrightarrow> b < a \<longrightarrow> vm_map t b = 0"
          unfolding iter_step_def by auto
        have "\<forall>b. addr \<le> b \<longrightarrow> b < a \<longrightarrow> vm_map t b = 0" using a(4) hole not_less by blast
        moreover have "addr \<le> a" using a(1) g(3) by simp
        ultimately show ?thesis using o(2) a Some unfolding iter_step_def by auto
      qed
      with rec o(1) show ?thesis by simp
    qed
  qed
qed

section \<open>Properties\<close>

text \<open>
  In a well-formed tree, \<^verbatim>\<open>vmtree_get\<close> returns for every address below \<^verbatim>\<open>UINTPTR_MAX\<close> a
  non-empty range around the address on which the map is constant, with the entry of the range.
\<close>

theorem vmtree_get_correct:
  assumes "tree_ok t" "a \<noteq> UINTPTR_MAX"
  shows "\<exists>s e. vmtree_get t a = Some \<lparr>entry_start = s, entry_end = e, entry_value = vm_map t a\<rparr> \<and>
    s \<le> a \<and> a < e \<and> (\<forall>b. s \<le> b \<longrightarrow> b < e \<longrightarrow> vm_map t b = vm_map t a)"
  using assms by (rule get_in_tree)

text \<open>
  C34. \<^verbatim>\<open>vmtree_insert\<close> refines the insertion into a map from addresses to entries, for every tree,
  range, entry and outcome of the allocations. A null entry or a reversed range is rejected as
  invalid, an empty range changes nothing, a range that meets a mapped address is rejected as
  existing; in all of these the tree is unchanged. Otherwise the range is mapped to the entry and
  every other address keeps its entry, or an allocation failed and no address changes its entry.
  The tree stays well-formed and no node is leaked or freed twice.
\<close>

theorem vmtree_insert_correct:
  assumes "tree_ok t" "heap_ok others t h" "vmtree_insert t start end' entry h = (st, t', h')"
  shows "tree_ok t' \<and> heap_ok others t' h' \<and>
    (if entry = 0 \<or> start > end' then st = VMTREE_ERR_INVAL \<and> t' = t
     else if start = end' then st = VMTREE_OK \<and> t' = t
     else if \<exists>a. start \<le> a \<and> a < end' \<and> vm_map t a \<noteq> 0 then st = VMTREE_ERR_EXISTS \<and> t' = t
     else st = VMTREE_OK \<and> vm_map t' = (\<lambda>a. if start \<le> a \<and> a < end' then entry else vm_map t a) \<or>
          st = VMTREE_ERR_NOMEM \<and> vm_map t' = vm_map t)"
proof (cases "entry = 0 \<or> start > end' \<or> start = end'")
  case True
  with assms show ?thesis by (auto simp: vmtree_insert_def split: if_splits)
next
  case False
  then have se: "start < end'" by auto
  have ex: "any_nonhole_rec t 0 UINTPTR_MAX start end' \<longleftrightarrow> (\<exists>a. start \<le> a \<and> a < end' \<and> vm_map t a \<noteq> 0)"
    using any_nonhole_rec_iff [OF assms(1) [unfolded tree_ok_def] se] by (auto simp: vm_map_def)
  show ?thesis
  proof (cases "\<exists>a. start \<le> a \<and> a < end' \<and> vm_map t a \<noteq> 0")
    case True
    then have "st = VMTREE_ERR_EXISTS" "t' = t" "h' = h"
      using assms(3) False ex by (auto simp: vmtree_insert_def insert_validate_def)
    with True False assms(1,2) show ?thesis by auto
  next
    case no: False
    then have "write_checked t start end' entry h = (st, t', h')"
      using assms(3) False ex by (auto simp: vmtree_insert_def insert_validate_def)
    from write_checked_ok [OF assms(1,2) se this] no False show ?thesis by auto
  qed
qed

text \<open>
  C36. \<^verbatim>\<open>vmtree_set\<close> replaces the entry of a range that is mapped throughout and reports
  \<^verbatim>\<open>VMTREE_ERR_NOENT\<close>, with the tree unchanged, when it contains a hole; \<^verbatim>\<open>vmtree_remove\<close> makes
  every address of a range a hole. All other addresses keep their entries, a failed allocation
  changes no entry, the tree stays well-formed and no node is leaked.
\<close>

theorem vmtree_set_remove_correct:
  assumes "tree_ok t" "heap_ok others t h" "start < end'" "entry \<noteq> 0"
    "vmtree_set t start end' entry h = (st, t', h')" "vmtree_remove t start end' h = (st2, t2, h2)"
  shows "tree_ok t' \<and> heap_ok others t' h' \<and> tree_ok t2 \<and> heap_ok others t2 h2 \<and>
    (if \<exists>a. start \<le> a \<and> a < end' \<and> a \<noteq> UINTPTR_MAX \<and> vm_map t a = 0 then st = VMTREE_ERR_NOENT \<and> t' = t
     else st = VMTREE_OK \<and> vm_map t' = (\<lambda>a. if start \<le> a \<and> a < end' then entry else vm_map t a) \<or>
          st = VMTREE_ERR_NOMEM \<and> vm_map t' = vm_map t) \<and>
    (st2 = VMTREE_OK \<and> vm_map t2 = (\<lambda>a. if start \<le> a \<and> a < end' then 0 else vm_map t a) \<or>
     st2 = VMTREE_ERR_NOMEM \<and> vm_map t2 = vm_map t)"
proof -
  have ex: "any_hole_rec t 0 UINTPTR_MAX start end' \<longleftrightarrow> (\<exists>a. start \<le> a \<and> a < end' \<and> a \<noteq> UINTPTR_MAX \<and> vm_map t a = 0)"
    using any_hole_rec_iff [OF assms(1) [unfolded tree_ok_def] assms(3)] by (auto simp: vm_map_def below_max)
  have ns: "\<not> start > end'" "start \<noteq> end'" using assms(3) by auto
  have "write_checked t start end' 0 h = (st2, t2, h2)"
    using assms(6) ns by (simp add: vmtree_remove_def write_range_def)
  note r = write_checked_ok [OF assms(1-3) this]
  show ?thesis
  proof (cases "any_hole_rec t 0 UINTPTR_MAX start end'")
    case True
    then have "st = VMTREE_ERR_NOENT" "t' = t" "h' = h" using assms(4,5) ns by (auto simp: vmtree_set_def write_range_def)
    with True ex r assms(1,2) show ?thesis by auto
  next
    case False
    then have "write_checked t start end' entry h = (st, t', h')" using assms(4,5) ns by (simp add: vmtree_set_def write_range_def)
    from write_checked_ok [OF assms(1-3) this] False ex r show ?thesis by auto
  qed
qed

text \<open>
  C35. Iteration: as long as the iterator is not finished, \<^verbatim>\<open>vmtree_iter_next\<close> returns, and
  either reports an entry whose range holds the first mapped address at or after the position of
  the iterator and moves the position behind that range, or finishes because no such address is
  left. So a loop over the entries visits every mapped address once and in order.
\<close>

theorem vmtree_iter_next_correct:
  assumes "tree_ok t" "\<not> finished it"
  shows "\<exists>out it'. vmtree_iter_next t it = Some (out, it') \<and> iter_step t it (next_addr it) out it'"
  using iter_loop_ok [OF assms(1)] assms(2) by (simp add: vmtree_iter_next_def)

text \<open>
  The map after initialisation is empty, moving a tree keeps its map and leaves an empty tree
  behind, and destroying a tree empties it and frees exactly its nodes.
\<close>

theorem vmtree_life_cycle:
  assumes "tree_ok t" "heap_ok others t h"
  shows "tree_ok vmtree_init \<and> vm_map vmtree_init = (\<lambda>_. 0) \<and> vmtree_move t = (t, vmtree_init) \<and>
    (\<exists>h'. vmtree_destroy t h = (vmtree_init, h') \<and> live h' = others)"
  using assms free_subtree_count [of t False]
  by (auto simp: vmtree_init_def tree_ok_def bounds_ok_iff vm_map_def vmtree_move_def vmtree_destroy_def kfree_nodes_def heap_ok_def)

text \<open>A tree of two leaves with a mapped range at either end.\<close>

definition two_leaves :: vmtree where
  "two_leaves = Inner [0x100000] [Leaf [0x50000] [1, 0], Leaf [0x150000] [0, 2]]"

text \<open>
  A range that was inserted by one call can be reported in two pieces with the same entry,
  because neighbouring equal ranges are merged only inside one node. A client that releases the
  entry of every range it is given, as \<^verbatim>\<open>free_vm_areas_all\<close> of \<open>task/process.c\<close> does, releases
  it twice. The tree has a mapped range at either end of two leaves, and the new range covers the
  pivot between them.
\<close>

theorem vmtree_insert_reported_twice:
  "tree_ok two_leaves \<and>
   (case vmtree_insert two_leaves 0x80000 0x120000 3 \<lparr>kz_ok = \<lambda>_. True, kz_calls = 0, live = 2\<rparr> of (st, t', h') \<Rightarrow>
     st = VMTREE_OK \<and>
     vmtree_get t' 0x90000 = Some \<lparr>entry_start = 0x80000, entry_end = 0x100000, entry_value = 3\<rparr> \<and>
     vmtree_get t' 0x110000 = Some \<lparr>entry_start = 0x100000, entry_end = 0x120000, entry_value = 3\<rparr>)"
  by code_simp

subsection \<open>Witnesses\<close>

definition sample_heap :: node_heap where
  "sample_heap = \<lparr>kz_ok = \<lambda>_. True, kz_calls = 0, live = 2\<rparr>"

lemma two_leaves_ok: "tree_ok two_leaves" "heap_ok 0 two_leaves sample_heap" "tree_ok vmtree_init"
  by code_simp+

theorem vmtree_get_correct_witness:
  "\<exists>s e. vmtree_get two_leaves 0x1234 = Some \<lparr>entry_start = s, entry_end = e, entry_value = vm_map two_leaves 0x1234\<rparr> \<and> s \<le> 0x1234 \<and> 0x1234 < e"
  using vmtree_get_correct [OF two_leaves_ok(1), of "0x1234"] by auto

theorem vmtree_insert_correct_witness:
  "\<exists>st t' h'. vmtree_insert two_leaves 0x60000 0x70000 5 sample_heap = (st, t', h') \<and> tree_ok t' \<and> heap_ok 0 t' h'"
proof -
  obtain st t' h' where r: "vmtree_insert two_leaves 0x60000 0x70000 5 sample_heap = (st, t', h')" by (metis prod_cases3)
  from vmtree_insert_correct [OF two_leaves_ok(1,2) r] r show ?thesis by blast
qed

theorem vmtree_set_remove_correct_witness:
  "\<exists>st t' h' st2 t2 h2. vmtree_set two_leaves 0x10000 0x20000 5 sample_heap = (st, t', h') \<and> tree_ok t' \<and>
     vmtree_remove two_leaves 0x10000 0x20000 sample_heap = (st2, t2, h2) \<and> tree_ok t2"
proof -
  obtain st t' h' where r: "vmtree_set two_leaves 0x10000 0x20000 5 sample_heap = (st, t', h')" by (metis prod_cases3)
  obtain st2 t2 h2 where r2: "vmtree_remove two_leaves 0x10000 0x20000 sample_heap = (st2, t2, h2)" by (metis prod_cases3)
  have "(0x10000 :: u64) < 0x20000" "(5 :: u64) \<noteq> 0" by simp_all
  from vmtree_set_remove_correct [OF two_leaves_ok(1,2) this r r2] r r2 show ?thesis by blast
qed

theorem vmtree_iter_next_correct_witness:
  "\<exists>out it'. vmtree_iter_next two_leaves vmtree_before_begin = Some (out, it') \<and> iter_step two_leaves vmtree_before_begin 0 out it'"
  using vmtree_iter_next_correct [OF two_leaves_ok(1), of vmtree_before_begin] by (simp add: vmtree_before_begin_def)

theorem vmtree_life_cycle_witness:
  "\<exists>h'. vmtree_destroy two_leaves sample_heap = (vmtree_init, h') \<and> live h' = 0"
  using vmtree_life_cycle [OF two_leaves_ok(1,2)] by blast

end
