(* ===== verification/Utils_Dynarray.thy ===== *)
theory Utils_Dynarray
  imports Mm_Heap
begin

text \<open>
  \<open>kernel/src/utils/dynarray.c\<close>: a growing byte array. The buffer is kept as its address and the list of
  its bytes, so an access behind the buffer is \<^term>\<open>None\<close>; sizes are naturals below \<open>2 ^ 64\<close> and wrap where
  the code adds without a check. The state of the heap is threaded through every operation that
  allocates or frees: \<open>kz h n\<close> is the call \<^verbatim>\<open>kzalloc_span(n)\<close> in the heap state \<open>h\<close> and \<open>kf h ptr n\<close> the call
  \<^verbatim>\<open>kfree(ptr, n)\<close>, both \<^term>\<open>None\<close> when the call panics. The locale \<open>span_alloc\<close> states what the array relies
  on; it is interpreted on the kernel heap of \<open>Mm_Heap\<close>.
\<close>

section \<open>Model\<close>

abbreviation SIZE_MAX :: nat where "SIZE_MAX \<equiv> 2 ^ 64 - 1"

record dynarray =
  data :: "(nat \<times> u8 list) option"
  size :: nat
  capacity :: nat

type_synonym 'h span_allocator = "'h \<Rightarrow> nat \<Rightarrow> ((nat option \<times> nat) \<times> 'h) option"
type_synonym 'h releaser = "'h \<Rightarrow> nat option \<Rightarrow> nat \<Rightarrow> 'h option"
type_synonym span = "(nat \<times> u8 list) option \<times> nat"

definition dynarray_init :: dynarray where
  "dynarray_init = \<lparr>data = None, size = 0, capacity = 0\<rparr>"

definition dynarray_destroy :: "'h releaser \<Rightarrow> 'h \<Rightarrow> dynarray \<Rightarrow> (dynarray \<times> 'h) option" where
  "dynarray_destroy kf h ar =
     (case data ar of
        None \<Rightarrow> Some (ar, h)
      | Some (p, buf) \<Rightarrow> do { h \<leftarrow> kf h (Some p) (capacity ar); Some (\<lparr>data = None, size = 0, capacity = 0\<rparr>, h) })"

definition kfree_old :: "'h releaser \<Rightarrow> 'h \<Rightarrow> span \<Rightarrow> 'h option" where
  "kfree_old kf h old_data = kf h (map_option fst (fst old_data)) (snd old_data)"

text \<open>The result is the success flag, the array, the span of the old buffer and the heap.\<close>

definition reserve_without_copy :: "'h span_allocator \<Rightarrow> 'h \<Rightarrow> dynarray \<Rightarrow> nat \<Rightarrow> (bool \<times> dynarray \<times> span \<times> 'h) option" where
  "reserve_without_copy kz h ar new_capacity = do {
     ((ptr, m), h) \<leftarrow> kz h new_capacity;
     case ptr of
       None \<Rightarrow> Some (False, ar, (None, 0), h)
     | Some p \<Rightarrow> Some (True, ar\<lparr>data := Some (p, replicate m 0), capacity := m\<rparr>, (data ar, capacity ar), h)
   }"

definition reserve_unchecked :: "'h span_allocator \<Rightarrow> 'h releaser \<Rightarrow> 'h \<Rightarrow> dynarray \<Rightarrow> nat \<Rightarrow> (bool \<times> dynarray \<times> 'h) option" where
  "reserve_unchecked kz kf h ar new_capacity = do {
     (ok, ar, old_data, h) \<leftarrow> reserve_without_copy kz h ar new_capacity;
     if \<not> ok then Some (False, ar, h)
     else case fst old_data of
       None \<Rightarrow> Some (True, ar, h)
     | Some (q, old) \<Rightarrow> do {
         ar \<leftarrow> (if size ar > 0 then do {
             (p, buf) \<leftarrow> data ar;
             xs \<leftarrow> slice old 0 (size ar);
             buf \<leftarrow> blit buf 0 xs;
             Some (ar\<lparr>data := Some (p, buf)\<rparr>)
           } else Some ar);
         h \<leftarrow> kfree_old kf h old_data;
         Some (True, ar, h)
       }
   }"

definition dynarray_reserve :: "'h span_allocator \<Rightarrow> 'h releaser \<Rightarrow> 'h \<Rightarrow> dynarray \<Rightarrow> nat \<Rightarrow> (bool \<times> dynarray \<times> 'h) option" where
  "dynarray_reserve kz kf h ar new_capacity =
     (if new_capacity \<le> capacity ar then Some (True, ar, h) else reserve_unchecked kz kf h ar new_capacity)"

definition dynarray_resize :: "'h span_allocator \<Rightarrow> 'h releaser \<Rightarrow> 'h \<Rightarrow> dynarray \<Rightarrow> nat \<Rightarrow> (bool \<times> dynarray \<times> 'h) option" where
  "dynarray_resize kz kf h ar new_size = do {
     (ok, ar, h) \<leftarrow> (if new_size > capacity ar then dynarray_reserve kz kf h ar new_size else Some (True, ar, h));
     if \<not> ok then Some (False, ar, h) else Some (True, ar\<lparr>size := new_size\<rparr>, h)
   }"

definition dynarray_shrink_to :: "'h span_allocator \<Rightarrow> 'h releaser \<Rightarrow> 'h \<Rightarrow> dynarray \<Rightarrow> nat \<Rightarrow> (bool \<times> dynarray \<times> 'h) option" where
  "dynarray_shrink_to kz kf h ar new_size =
     (if new_size = 0 then do { (ar, h) \<leftarrow> dynarray_destroy kf h ar; Some (True, ar, h) }
      else if new_size > capacity ar div 2 then Some (True, ar, h)
      else do {
        (ok, ar, h) \<leftarrow> reserve_unchecked kz kf h ar new_size;
        if \<not> ok then Some (False, ar, h) else Some (True, ar\<lparr>size := new_size\<rparr>, h)
      })"

text \<open>A pointer into the buffer; \<^verbatim>\<open>NULL\<close> when there is no buffer.\<close>

definition data_at :: "dynarray \<Rightarrow> nat \<Rightarrow> nat option" where
  "data_at ar off = map_option (\<lambda>(p, buf). p + off) (data ar)"

definition dynarray_push_back :: "'h span_allocator \<Rightarrow> 'h releaser \<Rightarrow> 'h \<Rightarrow> dynarray \<Rightarrow> nat \<Rightarrow> (nat option \<times> dynarray \<times> 'h) option" where
  "dynarray_push_back kz kf h ar data_size = do {
     kassert (data_size \<le> SIZE_MAX - size ar);
     let sz = size ar;
     (ok, ar, h) \<leftarrow> dynarray_resize kz kf h ar (sz + data_size);
     if \<not> ok then Some (None, ar, h) else Some (data_at ar sz, ar, h)
   }"

definition dynarray_pop_back :: "dynarray \<Rightarrow> nat \<Rightarrow> dynarray option" where
  "dynarray_pop_back ar data_size = do {
     kassert (data_size \<le> size ar);
     Some (ar\<lparr>size := size ar - data_size\<rparr>)
   }"

text \<open>\<^verbatim>\<open>memcpy\<close> from the old buffer and \<^verbatim>\<open>memmove\<close> inside the new one, skipped when nothing is left to copy.\<close>

definition copy_piece :: "u8 list \<Rightarrow> nat \<Rightarrow> u8 list \<Rightarrow> nat \<Rightarrow> nat \<Rightarrow> u8 list option" where
  "copy_piece dest at src from n = (if n > 0 then do { xs \<leftarrow> slice src from n; blit dest at xs } else Some dest)"

definition dynarray_insert :: "'h span_allocator \<Rightarrow> 'h releaser \<Rightarrow> 'h \<Rightarrow> dynarray \<Rightarrow> nat \<Rightarrow> nat \<Rightarrow> (nat option \<times> dynarray \<times> 'h) option" where
  "dynarray_insert kz kf h ar pos data_size = do {
     kassert (pos \<le> size ar);
     kassert (data_size \<le> SIZE_MAX - size ar);
     let new_size = size ar + data_size;
     (ok, ar, old_data, h) \<leftarrow> (if new_size > capacity ar then reserve_without_copy kz h ar new_size else Some (True, ar, (None, 0), h));
     if \<not> ok then Some (None, ar, h)
     else do {
       (ar, h) \<leftarrow> (case fst old_data of
          Some (q, old) \<Rightarrow> do {
            (p, buf) \<leftarrow> data ar;
            buf \<leftarrow> copy_piece buf 0 old 0 pos;
            buf \<leftarrow> copy_piece buf (pos + data_size) old pos (size ar - pos);
            h \<leftarrow> kfree_old kf h old_data;
            Some (ar\<lparr>data := Some (p, buf)\<rparr>, h)
          }
        | None \<Rightarrow>
            if size ar > pos then do {
              (p, buf) \<leftarrow> data ar;
              buf \<leftarrow> copy_piece buf (pos + data_size) buf pos (size ar - pos);
              Some (ar\<lparr>data := Some (p, buf)\<rparr>, h)
            } else Some (ar, h));
       Some (data_at ar pos, ar\<lparr>size := size ar + data_size\<rparr>, h)
     }
   }"

definition dynarray_remove :: "dynarray \<Rightarrow> nat \<Rightarrow> nat \<Rightarrow> dynarray option" where
  "dynarray_remove ar pos data_size = do {
     let last = (pos + data_size) mod 2 ^ 64;
     kassert (last \<le> size ar);
     ar \<leftarrow> (if last < size ar then do {
          (p, buf) \<leftarrow> data ar;
          buf \<leftarrow> copy_piece buf pos buf (pos + data_size) (size ar - last);
          Some (ar\<lparr>data := Some (p, buf)\<rparr>)
        } else Some ar);
     Some (ar\<lparr>size := (size ar + 2 ^ 64 - data_size) mod 2 ^ 64\<rparr>)
   }"

section \<open>Contents and ownership\<close>

definition dynarray_ok :: "dynarray \<Rightarrow> bool" where
  "dynarray_ok ar \<longleftrightarrow> (case data ar of None \<Rightarrow> capacity ar = 0 | Some (p, buf) \<Rightarrow> capacity ar = length buf) \<and>
     size ar \<le> capacity ar \<and> capacity ar < 2 ^ 64"

definition contents :: "dynarray \<Rightarrow> u8 list" where
  "contents ar = (case data ar of None \<Rightarrow> [] | Some (p, buf) \<Rightarrow> take (size ar) buf)"

text \<open>The heap block the array holds; a well-formed array holds it among the live blocks of the heap.\<close>

definition own :: "dynarray \<Rightarrow> (nat \<times> nat) set" where
  "own ar = (case data ar of None \<Rightarrow> {} | Some (p, buf) \<Rightarrow> {(p, length buf)})"

lemma length_contents: "dynarray_ok ar \<Longrightarrow> length (contents ar) = size ar"
  by (auto simp: dynarray_ok_def contents_def split: option.splits)

lemma dynarray_init_ok: "dynarray_ok dynarray_init" "contents dynarray_init = []" "own dynarray_init = {}"
  by (simp_all add: dynarray_init_def dynarray_ok_def contents_def own_def)

lemma copy_piece_Some:
  "from + n \<le> length src \<Longrightarrow> at + n \<le> length dest \<Longrightarrow>
   copy_piece dest at src from n = Some (take at dest @ take n (drop from src) @ drop (at + n) dest)"
  by (auto simp: copy_piece_def)

section \<open>The allocator\<close>

text \<open>
  What the array relies on: \<open>hinv\<close> is the heap's invariant and \<open>blks\<close> its live blocks, each with its address
  and size. A served block is new and at least as long as the request, a failed request changes no block,
  and a live block is released with the size of its span.
\<close>

locale span_alloc =
  fixes kz :: "'h span_allocator" and kf :: "'h releaser" and hinv :: "'h \<Rightarrow> bool" and blks :: "'h \<Rightarrow> (nat \<times> nat) set"
  assumes kz_returns: "hinv h \<Longrightarrow> n \<le> KMALLOC_MAX_SIZE \<Longrightarrow> \<exists>ptr m h'. kz h n = Some ((ptr, m), h')"
    and kz_null: "hinv h \<Longrightarrow> kz h n = Some ((None, m), h') \<Longrightarrow> hinv h' \<and> blks h' = blks h"
    and kz_block: "hinv h \<Longrightarrow> kz h n = Some ((Some p, m), h') \<Longrightarrow>
      hinv h' \<and> n \<le> m \<and> m < 2 ^ 64 \<and> (\<forall>l. (p, l) \<notin> blks h) \<and> blks h' = insert (p, m) (blks h)"
    and kf_block: "hinv h \<Longrightarrow> (p, n) \<in> blks h \<Longrightarrow> \<exists>h'. kf h (Some p) n = Some h' \<and> hinv h' \<and> blks h' = blks h - {(p, n)}"

text \<open>
  The outcome of an operation: the heap is intact, the new array holds its block, and every other live
  block is as before, so the old buffer was either kept or released.
\<close>

definition holds :: "('h \<Rightarrow> bool) \<Rightarrow> ('h \<Rightarrow> (nat \<times> nat) set) \<Rightarrow> 'h \<Rightarrow> dynarray \<Rightarrow> bool" where
  "holds hinv blks h ar \<longleftrightarrow> hinv h \<and> dynarray_ok ar \<and> own ar \<subseteq> blks h"

definition kept :: "('h \<Rightarrow> bool) \<Rightarrow> ('h \<Rightarrow> (nat \<times> nat) set) \<Rightarrow> 'h \<Rightarrow> dynarray \<Rightarrow> 'h \<Rightarrow> dynarray \<Rightarrow> bool" where
  "kept hinv blks h ar h' ar' \<longleftrightarrow> holds hinv blks h' ar' \<and> blks h' - own ar' = blks h - own ar"

lemma kept_same_block:
  assumes "holds hinv blks h ar" "dynarray_ok ar'" "own ar' = own ar"
  shows "kept hinv blks h ar h ar'"
  using assms by (simp add: kept_def holds_def)

lemma kept_resized:
  assumes "kept hinv blks h ar h' ar'" "n \<le> capacity ar'"
  shows "kept hinv blks h ar h' (ar'\<lparr>size := n\<rparr>)"
  using assms by (cases "data ar'") (auto simp: kept_def holds_def dynarray_ok_def own_def)

context span_alloc
begin

lemma kept_null:
  assumes "holds hinv blks h ar" "kz h n = Some ((None, m), h')"
  shows "kept hinv blks h ar h' ar"
  using kz_null [OF _ assms(2)] assms(1) by (simp add: kept_def holds_def)

text \<open>A new buffer is held, and the old one, if any, is released with the size it was served with.\<close>

lemma kept_new_block:
  assumes "holds hinv blks h ar" "kz h n = Some ((Some p, m), h1)" "dynarray_ok ar'" "own ar' = {(p, m)}"
  shows "data ar = None \<Longrightarrow> kept hinv blks h ar h1 ar'"
    and "data ar = Some (q, old) \<Longrightarrow> \<exists>h2. kfree_old kf h1 (data ar, capacity ar) = Some h2 \<and> kept hinv blks h ar h2 ar'"
proof -
  have h: "hinv h" "dynarray_ok ar" "own ar \<subseteq> blks h" using assms(1) by (simp_all add: holds_def)
  have h1: "hinv h1" "\<forall>l. (p, l) \<notin> blks h" "blks h1 = insert (p, m) (blks h)" using kz_block [OF h(1) assms(2)] by simp_all
  show "kept hinv blks h ar h1 ar'" if "data ar = None"
    using that h1 assms(3,4) by (simp add: kept_def holds_def own_def)
  assume d: "data ar = Some (q, old)"
  have c: "capacity ar = length old" using h(2) d by (simp add: dynarray_ok_def)
  have o: "own ar = {(q, length old)}" using d by (simp add: own_def)
  have q: "q \<noteq> p" using h1(2) h(3) o by auto
  obtain h2 where h2: "kf h1 (Some q) (length old) = Some h2" "hinv h2" "blks h2 = blks h1 - {(q, length old)}"
    using kf_block [OF h1(1), of q "length old"] h(3) o h1(3) by auto
  have "kept hinv blks h ar h2 ar'"
    using h2(2,3) h1(2,3) q o assms(3,4) by (auto simp: kept_def holds_def)
  then show "\<exists>h2. kfree_old kf h1 (data ar, capacity ar) = Some h2 \<and> kept hinv blks h ar h2 ar'"
    using h2(1) d c by (simp add: kfree_old_def)
qed

lemma dynarray_destroy_ok:
  assumes "holds hinv blks h ar"
  shows "\<exists>ar' h'. dynarray_destroy kf h ar = Some (ar', h') \<and> kept hinv blks h ar h' ar' \<and> contents ar' = [] \<and> own ar' = {}"
proof (cases "data ar")
  case None
  then show ?thesis using kept_same_block [OF assms, of ar] assms by (simp add: dynarray_destroy_def contents_def own_def holds_def)
next
  case (Some x)
  obtain q old where d: "data ar = Some (q, old)" using Some by (cases x) simp
  have o: "own ar = {(q, length old)}" "capacity ar = length old" "hinv h" "own ar \<subseteq> blks h"
    using d assms by (simp_all add: own_def holds_def dynarray_ok_def)
  then obtain h2 where h2: "kf h (Some q) (length old) = Some h2" "hinv h2" "blks h2 = blks h - {(q, length old)}"
    using kf_block [of h q "length old"] by auto
  then show ?thesis using d o by (simp add: dynarray_destroy_def kept_def holds_def dynarray_ok_def contents_def own_def)
qed

text \<open>Growing keeps the contents; a failed allocation changes nothing.\<close>

lemma reserve_unchecked_ok:
  assumes "holds hinv blks h ar" "size ar \<le> n" "n \<le> KMALLOC_MAX_SIZE"
  shows "\<exists>ok ar' h'. reserve_unchecked kz kf h ar n = Some (ok, ar', h') \<and> kept hinv blks h ar h' ar' \<and> contents ar' = contents ar \<and>
    size ar' = size ar \<and> (if ok then n \<le> capacity ar' \<and> data ar' \<noteq> None else ar' = ar \<and> (\<exists>m. kz h n = Some ((None, m), h')))"
proof -
  have h: "hinv h" "dynarray_ok ar" using assms(1) by (simp_all add: holds_def)
  obtain ptr m h1 where kz: "kz h n = Some ((ptr, m), h1)" using kz_returns [OF h(1) assms(3)] by blast
  show ?thesis
  proof (cases ptr)
    case None
    then show ?thesis using kz kept_null [OF assms(1), of n m h1] by (intro exI [of _ False] exI [of _ ar] exI [of _ h1]) (simp add: reserve_unchecked_def reserve_without_copy_def)
  next
    case (Some p)
    have m: "n \<le> m" "m < 2 ^ 64" using kz_block [OF h(1)] kz Some by simp_all
    note new = kept_new_block [OF assms(1) kz [unfolded Some]]
    show ?thesis
    proof (cases "data ar")
      case None
      let ?ar = "ar\<lparr>data := Some (p, replicate m 0), capacity := m\<rparr>"
      have "size ar = 0" using None h(2) by (simp add: dynarray_ok_def)
      moreover from this have "kept hinv blks h ar h1 ?ar" using m None by (intro new(1)) (simp_all add: dynarray_ok_def own_def)
      ultimately show ?thesis using None kz Some m
        by (intro exI [of _ True] exI [of _ ?ar] exI [of _ h1]) (simp add: reserve_unchecked_def reserve_without_copy_def contents_def)
    next
      case (Some x)
      obtain q old where d: "data ar = Some (q, old)" using Some by (cases x) simp
      then have old: "size ar \<le> length old" using h(2) by (simp add: dynarray_ok_def)
      let ?buf = "take (size ar) old @ replicate (m - size ar) 0"
      let ?ar = "ar\<lparr>data := Some (p, ?buf), capacity := m\<rparr>"
      have "dynarray_ok ?ar" "own ?ar = {(p, m)}" using old m assms(2) by (simp_all add: dynarray_ok_def own_def)
      then obtain h2 where h2: "kfree_old kf h1 (data ar, capacity ar) = Some h2" "kept hinv blks h ar h2 ?ar" using new(2) d by blast
      have "reserve_unchecked kz kf h ar n = Some (True, ?ar, h2)"
        using kz \<open>ptr = Some p\<close> d h2(1) old m assms(2) by (simp add: reserve_unchecked_def reserve_without_copy_def)
      moreover have "contents ?ar = contents ar" using d old by (simp add: contents_def)
      ultimately show ?thesis using h2(2) m by (intro exI [of _ True] exI [of _ ?ar] exI [of _ h2]) simp
    qed
  qed
qed

lemma dynarray_reserve_ok:
  assumes "holds hinv blks h ar" "capacity ar < n \<Longrightarrow> n \<le> KMALLOC_MAX_SIZE"
  shows "\<exists>ok ar' h'. dynarray_reserve kz kf h ar n = Some (ok, ar', h') \<and> kept hinv blks h ar h' ar' \<and> contents ar' = contents ar \<and>
    size ar' = size ar \<and> (if ok then n \<le> capacity ar' else ar' = ar \<and> capacity ar < n \<and> (\<exists>m. kz h n = Some ((None, m), h')))"
proof (cases "capacity ar < n")
  case True
  have "size ar \<le> n" using assms(1) True by (simp add: holds_def dynarray_ok_def)
  from reserve_unchecked_ok [OF assms(1) this assms(2) [OF True]] obtain ok ar' h' where
    r: "reserve_unchecked kz kf h ar n = Some (ok, ar', h')" "kept hinv blks h ar h' ar'" "contents ar' = contents ar" "size ar' = size ar"
      "if ok then n \<le> capacity ar' \<and> data ar' \<noteq> None else ar' = ar \<and> (\<exists>m. kz h n = Some ((None, m), h'))" by blast
  then show ?thesis using True by (intro exI [of _ ok] exI [of _ ar'] exI [of _ h']) (auto simp: dynarray_reserve_def)
next
  case False
  then show ?thesis using kept_same_block [OF assms(1), of ar] assms(1)
    by (intro exI [of _ True] exI [of _ ar] exI [of _ h]) (simp add: dynarray_reserve_def holds_def)
qed

lemma dynarray_resize_ok:
  assumes "holds hinv blks h ar" "capacity ar < n \<Longrightarrow> n \<le> KMALLOC_MAX_SIZE"
  shows "\<exists>ok ar' h'. dynarray_resize kz kf h ar n = Some (ok, ar', h') \<and> kept hinv blks h ar h' ar' \<and>
    (if ok then length (contents ar') = n \<and> take (min n (size ar)) (contents ar') = take n (contents ar)
     else ar' = ar \<and> capacity ar < n \<and> (\<exists>m. kz h n = Some ((None, m), h')))"
proof -
  obtain ok ar' h' where r: "dynarray_reserve kz kf h ar n = Some (ok, ar', h')" "kept hinv blks h ar h' ar'" "contents ar' = contents ar"
      "size ar' = size ar" "if ok then n \<le> capacity ar' else ar' = ar \<and> capacity ar < n \<and> (\<exists>m. kz h n = Some ((None, m), h'))"
    using dynarray_reserve_ok [OF assms] by blast
  have run: "dynarray_resize kz kf h ar n = Some (if ok then (True, ar'\<lparr>size := n\<rparr>, h') else (False, ar', h'))"
    using r(1) by (auto simp: dynarray_resize_def dynarray_reserve_def)
  show ?thesis
  proof (cases ok)
    case True
    have k: "kept hinv blks h ar h' (ar'\<lparr>size := n\<rparr>)" using kept_resized [OF r(2)] r(5) True by simp
    then have len: "length (contents (ar'\<lparr>size := n\<rparr>)) = n" using length_contents [of "ar'\<lparr>size := n\<rparr>"] by (simp add: kept_def holds_def)
    have "take (min n (size ar')) (contents (ar'\<lparr>size := n\<rparr>)) = take n (contents ar')"
      by (simp add: contents_def min.commute split: option.split)
    then show ?thesis using run True k len r(3,4) by (intro exI [of _ True] exI [of _ "ar'\<lparr>size := n\<rparr>"] exI [of _ h']) simp
  qed (use run r in auto)
qed

lemma grow_size:
  assumes "dynarray_ok ar" "capacity ar < size ar + n \<Longrightarrow> size ar + n \<le> KMALLOC_MAX_SIZE"
  shows "n \<le> SIZE_MAX - size ar"
proof (cases "capacity ar < size ar + n")
  case False
  moreover have "capacity ar < 2 ^ 64" using assms(1) unfolding dynarray_ok_def by blast
  ultimately show ?thesis by simp
qed (use assms(2) in simp)

lemma dynarray_push_back_ok:
  assumes "holds hinv blks h ar" "capacity ar < size ar + n \<Longrightarrow> size ar + n \<le> KMALLOC_MAX_SIZE"
  shows "\<exists>r ar' h'. dynarray_push_back kz kf h ar n = Some (r, ar', h') \<and> kept hinv blks h ar h' ar' \<and>
    (case r of None \<Rightarrow> contents ar' = contents ar \<and> (n = 0 \<or> (\<exists>m. kz h (size ar + n) = Some ((None, m), h')))
     | Some a \<Rightarrow> data_at ar' (size ar) = Some a \<and> (\<exists>new. length new = n \<and> contents ar' = contents ar @ new))"
proof -
  have ok: "dynarray_ok ar" using assms(1) by (simp add: holds_def)
  then have "n \<le> SIZE_MAX - size ar" using grow_size assms(2) by blast
  then have push: "dynarray_push_back kz kf h ar n = do { (ok, ar', h') \<leftarrow> dynarray_resize kz kf h ar (size ar + n);
      if \<not> ok then Some (None, ar', h') else Some (data_at ar' (size ar), ar', h') }" by (simp add: dynarray_push_back_def Let_def)
  obtain ok ar' h' where res: "dynarray_resize kz kf h ar (size ar + n) = Some (ok, ar', h')" "kept hinv blks h ar h' ar'"
      "if ok then length (contents ar') = size ar + n \<and> take (min (size ar + n) (size ar)) (contents ar') = take (size ar + n) (contents ar)
       else ar' = ar \<and> capacity ar < size ar + n \<and> (\<exists>m. kz h (size ar + n) = Some ((None, m), h'))"
    using dynarray_resize_ok [OF assms] by blast
  have "if ok then length (contents ar') = size ar + n \<and> take (size ar) (contents ar') = contents ar
       else ar' = ar \<and> (\<exists>m. kz h (size ar + n) = Some ((None, m), h'))"
    using res(3) length_contents [OF ok] by (cases ok) simp_all
  note r = res(1,2) this
  show ?thesis
  proof (cases ok)
    case True
    then have split: "contents ar' = contents ar @ drop (size ar) (contents ar')" using r(3) by (metis append_take_drop_id)
    show ?thesis
    proof (cases "data ar'")
      case None
      then have "size ar + n = 0" using True r(3) by (simp add: contents_def)
      then show ?thesis using True r None push split by (simp add: data_at_def contents_def)
    next
      case (Some x)
      then show ?thesis using True r push split
        by (intro exI [of _ "data_at ar' (size ar)"] exI [of _ ar'] exI [of _ h']) (auto simp: data_at_def intro!: exI [of _ "drop (size ar) (contents ar')"])
    qed
  qed (use r push in auto)
qed

text \<open>Inserting into the buffer at hand moves the tail up by \<open>n\<close> bytes.\<close>

lemma dynarray_insert_in_place:
  assumes "holds hinv blks h ar" "pos \<le> size ar" "size ar + n \<le> capacity ar" "n \<le> SIZE_MAX - size ar"
  shows "\<exists>ar' gap. dynarray_insert kz kf h ar pos n = Some (data_at ar' pos, ar', h) \<and> kept hinv blks h ar h ar' \<and>
    length gap = n \<and> contents ar' = take pos (contents ar) @ gap @ drop pos (contents ar)"
proof (cases "data ar")
  case None
  then have z: "size ar = 0" "n = 0" "pos = 0" using assms(1-3) by (simp_all add: holds_def dynarray_ok_def)
  then have "dynarray_insert kz kf h ar pos n = Some (data_at ar pos, ar, h)" using None by (simp add: dynarray_insert_def)
  moreover have "kept hinv blks h ar h ar" using kept_same_block [OF assms(1) _ refl] assms(1) by (simp add: holds_def)
  ultimately show ?thesis using z None by (intro exI [of _ ar] exI [of _ "[]"]) (simp add: contents_def)
next
  case (Some x)
  obtain p buf where d: "data ar = Some (p, buf)" using Some by (cases x) simp
  have buf: "capacity ar = length buf" "size ar + n \<le> length buf" using d assms(1,3) by (simp_all add: holds_def dynarray_ok_def)
  let ?buf = "take (pos + n) buf @ take (size ar - pos) (drop pos buf) @ drop (n + size ar) buf"
  define ar' where "ar' = (if size ar > pos then ar\<lparr>data := Some (p, ?buf), size := size ar + n\<rparr> else ar\<lparr>size := size ar + n\<rparr>)"
  have "copy_piece buf (pos + n) buf pos (size ar - pos) = Some ?buf"
    using assms(2) buf by (subst copy_piece_Some) (simp_all add: ac_simps)
  then have run: "dynarray_insert kz kf h ar pos n = Some (data_at ar' pos, ar', h)"
    using d assms(2-4) by (simp add: dynarray_insert_def Let_def ar'_def data_at_def)
  have "take (size ar + n) ?buf = take pos (take (size ar) buf) @ take n (drop pos buf) @ drop pos (take (size ar) buf)"
    using assms(2) buf by (simp add: take_add drop_take min_absorb1)
  moreover have "take (size ar + n) buf = take pos (take (size ar) buf) @ take n (drop pos buf) @ drop pos (take (size ar) buf)" if "size ar = pos"
    using that by (simp add: take_add)
  ultimately have c: "contents ar' = take pos (contents ar) @ take n (drop pos buf) @ drop pos (contents ar)"
    using d assms(2) by (cases "size ar = pos") (simp_all add: ar'_def contents_def)
  have "length ?buf = length buf" using assms(2) buf by simp
  then have "dynarray_ok ar'" "own ar' = own ar"
    using d assms(1,3) buf by (simp_all add: ar'_def holds_def dynarray_ok_def own_def)
  then have "kept hinv blks h ar h ar'" by (rule kept_same_block [OF assms(1)])
  then show ?thesis using run c assms(2) buf by (intro exI [of _ ar'] exI [of _ "take n (drop pos buf)"]) simp
qed

text \<open>Inserting into a larger buffer copies the two parts around the gap.\<close>

lemma dynarray_insert_grow:
  assumes "holds hinv blks h ar" "pos \<le> size ar" "capacity ar < size ar + n" "n \<le> SIZE_MAX - size ar"
    and "kz h (size ar + n) = Some ((Some p, m), h1)"
  shows "\<exists>ar' h' gap. dynarray_insert kz kf h ar pos n = Some (data_at ar' pos, ar', h') \<and> kept hinv blks h ar h' ar' \<and>
    length gap = n \<and> data ar' \<noteq> None \<and> contents ar' = take pos (contents ar) @ gap @ drop pos (contents ar)"
proof -
  have h: "hinv h" "dynarray_ok ar" using assms(1) by (simp_all add: holds_def)
  have m: "size ar + n \<le> m" "m < 2 ^ 64" using kz_block [OF h(1) assms(5)] by simp_all
  note new = kept_new_block [OF assms(1,5)]
  let ?new = "replicate m (0 :: u8)"
  show ?thesis
  proof (cases "data ar")
    case None
    then have z: "size ar = 0" "pos = 0" using h(2) assms(2) by (simp_all add: dynarray_ok_def)
    let ?ar = "\<lparr>data = Some (p, ?new), size = n, capacity = m\<rparr>"
    have "dynarray_insert kz kf h ar pos n = Some (data_at ?ar pos, ?ar, h1)"
      using z None assms(3-5) by (cases ar) (simp add: dynarray_insert_def reserve_without_copy_def Let_def data_at_def)
    moreover have "kept hinv blks h ar h1 ?ar" using m z by (intro new(1) None) (simp_all add: dynarray_ok_def own_def)
    ultimately show ?thesis using z None m by (intro exI [of _ ?ar] exI [of _ h1] exI [of _ "replicate n 0"]) (simp add: contents_def)
  next
    case (Some x)
    obtain q old where d: "data ar = Some (q, old)" using Some by (cases x) simp
    have old: "size ar \<le> length old" using d h(2) by (simp add: dynarray_ok_def)
    let ?b1 = "take pos old @ replicate (m - pos) 0"
    have c1: "copy_piece ?new 0 old 0 pos = Some ?b1" using assms(2) old m by (subst copy_piece_Some) simp_all
    let ?b2 = "take pos old @ replicate n 0 @ take (size ar - pos) (drop pos old) @ replicate (m - (n + size ar)) 0"
    have c2: "copy_piece ?b1 (pos + n) old pos (size ar - pos) = Some ?b2"
      using assms(2) old m by (subst copy_piece_Some) (simp_all add: min_absorb1 min_absorb2 take_Cons' ac_simps)
    let ?ar = "ar\<lparr>data := Some (p, ?b2), size := size ar + n, capacity := m\<rparr>"
    have len: "length ?b2 = m" using assms(2) old m by simp
    have "dynarray_ok ?ar" "own ?ar = {(p, m)}" using len m by (simp_all add: dynarray_ok_def own_def)
    then obtain h2 where h2: "kfree_old kf h1 (data ar, capacity ar) = Some h2" "kept hinv blks h ar h2 ?ar" using new(2) d by blast
    have run: "dynarray_insert kz kf h ar pos n = Some (data_at ?ar pos, ?ar, h2)"
      using d h2(1) assms(2-5) c1 c2 by (simp add: dynarray_insert_def reserve_without_copy_def Let_def data_at_def)
    have "take (size ar + n) ?b2 = take pos (take (size ar) old) @ replicate n 0 @ drop pos (take (size ar) old)"
      using assms(2) old by (simp add: drop_take min_absorb1)
    then have "contents ?ar = take pos (contents ar) @ replicate n 0 @ drop pos (contents ar)" using d by (simp add: contents_def)
    then show ?thesis using run h2(2) by (intro exI [of _ ?ar] exI [of _ h2] exI [of _ "replicate n 0"]) simp
  qed
qed

lemma dynarray_insert_ok:
  assumes "holds hinv blks h ar" "pos \<le> size ar" "capacity ar < size ar + n \<Longrightarrow> size ar + n \<le> KMALLOC_MAX_SIZE"
  shows "\<exists>r ar' h'. dynarray_insert kz kf h ar pos n = Some (r, ar', h') \<and> kept hinv blks h ar h' ar' \<and>
    (case r of None \<Rightarrow> contents ar' = contents ar \<and> (n = 0 \<or> (\<exists>m. kz h (size ar + n) = Some ((None, m), h')))
     | Some a \<Rightarrow> data_at ar' pos = Some a \<and>
         (\<exists>gap. length gap = n \<and> contents ar' = take pos (contents ar) @ gap @ drop pos (contents ar)))"
proof -
  have ok: "hinv h" "dynarray_ok ar" using assms(1) by (simp_all add: holds_def)
  have n: "n \<le> SIZE_MAX - size ar" using grow_size [OF ok(2) assms(3)] .
  show ?thesis
  proof (cases "capacity ar < size ar + n")
    case False
    obtain ar' gap where r: "dynarray_insert kz kf h ar pos n = Some (data_at ar' pos, ar', h)" "kept hinv blks h ar h ar'"
        "length gap = n" "contents ar' = take pos (contents ar) @ gap @ drop pos (contents ar)"
      using dynarray_insert_in_place [OF assms(1,2) _ n] False by (auto simp: not_less)
    have "contents ar' = contents ar \<and> n = 0" if "data ar' = None"
    proof -
      have e: "contents ar' = []" using that by (simp add: contents_def)
      then have "take pos (contents ar) @ drop pos (contents ar) = []" "gap = []" using r(4) by (simp_all only: append_is_Nil_conv)
      then show ?thesis using e r(3) unfolding append_take_drop_id by simp
    qed
    then show ?thesis using r by (cases "data ar'") (auto simp: data_at_def)
  next
    case True
    obtain ptr m h1 where kz: "kz h (size ar + n) = Some ((ptr, m), h1)" using kz_returns [OF ok(1) assms(3) [OF True]] by blast
    show ?thesis
    proof (cases ptr)
      case None
      then have "dynarray_insert kz kf h ar pos n = Some (None, ar, h1)"
        using kz True assms(2) n by (simp add: dynarray_insert_def reserve_without_copy_def Let_def)
      then show ?thesis using kept_null [OF assms(1), of "size ar + n" m h1] kz None by auto
    next
      case (Some p)
      from dynarray_insert_grow [OF assms(1,2) True n kz [unfolded Some]] show ?thesis by (fastforce simp: data_at_def)
    qed
  qed
qed

text \<open>
  Shrinking is safe when nothing is copied or everything fits. The copy has the old size, so it leaves
  the new buffer as soon as the served block is smaller than that.
\<close>

lemma dynarray_shrink_to_ok:
  assumes "holds hinv blks h ar" "n = 0 \<or> capacity ar div 2 < n \<or> size ar \<le> n \<and> n \<le> KMALLOC_MAX_SIZE"
  shows "\<exists>ok ar' h'. dynarray_shrink_to kz kf h ar n = Some (ok, ar', h') \<and> kept hinv blks h ar h' ar' \<and>
    (if n = 0 then contents ar' = [] else take (size ar) (contents ar') = contents ar)"
proof (cases "n = 0 \<or> capacity ar div 2 < n")
  case True
  then show ?thesis
    using dynarray_destroy_ok [OF assms(1)] kept_same_block [OF assms(1) _ refl] assms(1) length_contents [of ar]
    by (auto simp: dynarray_shrink_to_def holds_def)
next
  case False
  then have n: "size ar \<le> n" "n \<le> KMALLOC_MAX_SIZE" using assms(2) by simp_all
  obtain ok ar' h' where r: "reserve_unchecked kz kf h ar n = Some (ok, ar', h')" "kept hinv blks h ar h' ar'" "contents ar' = contents ar"
      "size ar' = size ar" "if ok then n \<le> capacity ar' \<and> data ar' \<noteq> None else ar' = ar \<and> (\<exists>m. kz h n = Some ((None, m), h'))"
    using reserve_unchecked_ok [OF assms(1) n] by blast
  have c: "take (size ar) (contents (ar'\<lparr>size := n\<rparr>)) = contents ar"
    using r(3,4) n(1) by (auto simp: contents_def min_absorb2 split: option.splits)
  have "length (contents ar) = size ar" using assms(1) length_contents [of ar] by (simp add: holds_def)
  then show ?thesis using r False c kept_resized [OF r(2), of n] by (cases ok) (auto simp: dynarray_shrink_to_def)
qed

lemma dynarray_shrink_to_overflow:
  assumes "holds hinv blks h ar" "0 < n" "n \<le> capacity ar div 2" "kz h n = Some ((Some p, m), h1)" "m < size ar"
  shows "dynarray_shrink_to kz kf h ar n = None"
proof -
  have "dynarray_ok ar" using assms(1) by (simp add: holds_def)
  then obtain q old where d: "data ar = Some (q, old)" "capacity ar = length old" "size ar \<le> length old"
    using assms(5) by (auto simp: dynarray_ok_def split: option.splits)
  then show ?thesis using assms(2-5) by (simp add: dynarray_shrink_to_def reserve_unchecked_def reserve_without_copy_def blit_def)
qed

end

lemma dynarray_remove_ok:
  assumes "dynarray_ok ar" "pos + n \<le> size ar"
  shows "\<exists>ar'. dynarray_remove ar pos n = Some ar' \<and> dynarray_ok ar' \<and> own ar' = own ar \<and>
    contents ar' = take pos (contents ar) @ drop (pos + n) (contents ar)"
proof -
  have lim: "size ar < 2 ^ 64" using assms(1) by (simp add: dynarray_ok_def)
  then have last: "(pos + n) mod 2 ^ 64 = pos + n" using assms(2) by simp
  have sz: "(size ar + 2 ^ 64 - n) mod 2 ^ 64 = size ar - n"
    using lim assms(2) mod_add_self2 [of "size ar - n" "2 ^ 64"] by (simp del: mod_add_self2)
  show ?thesis
  proof (cases "data ar")
    case None
    then have "size ar = 0" using assms(1) by (simp add: dynarray_ok_def)
    then show ?thesis using None assms by (auto simp: dynarray_remove_def dynarray_ok_def contents_def own_def)
  next
    case (Some x)
    obtain p buf where d: "data ar = Some (p, buf)" using Some by (cases x) simp
    have buf: "capacity ar = length buf" "size ar \<le> length buf" using d assms(1) by (auto simp: dynarray_ok_def)
    let ?buf = "take pos buf @ take (size ar - (pos + n)) (drop (pos + n) buf) @ drop (size ar - n) buf"
    have "copy_piece buf pos buf (pos + n) (size ar - (pos + n)) = Some ?buf"
      using assms(2) buf by (subst copy_piece_Some) (simp_all add: ac_simps)
    then have run: "dynarray_remove ar pos n = Some ((if pos + n < size ar then ar\<lparr>data := Some (p, ?buf)\<rparr> else ar)\<lparr>size := size ar - n\<rparr>)"
      using d assms(2) unfolding dynarray_remove_def Let_def last by (simp add: sz [simplified])
    have "take (size ar - n) ?buf = take pos (take (size ar) buf) @ drop (pos + n) (take (size ar) buf)" "length ?buf = length buf"
      using assms(2) buf by (simp_all add: drop_take min_absorb1 add.commute)
    moreover have "take (size ar - n) buf = take pos (take (size ar) buf) @ drop (pos + n) (take (size ar) buf)" if "pos + n = size ar"
      using that by (simp add: min_absorb1 flip: that)
    ultimately show ?thesis using run d assms buf by (auto simp: dynarray_ok_def contents_def own_def)
  qed
qed

lemma dynarray_pop_back_ok:
  assumes "dynarray_ok ar" "n \<le> size ar"
  shows "\<exists>ar'. dynarray_pop_back ar n = Some ar' \<and> dynarray_ok ar' \<and> own ar' = own ar \<and> contents ar' = take (size ar - n) (contents ar)"
  using assms by (auto simp: dynarray_pop_back_def dynarray_ok_def contents_def own_def split: option.splits)

section \<open>The kernel heap provides the allocator\<close>

definition heap_kz :: "pfn_globals \<Rightarrow> (kheap \<times> buddy) span_allocator" where
  "heap_kz g h n = kzalloc_span (mm_alloc_page_ptr g) (fst h) (snd h) n"

definition heap_kf :: "pfn_globals \<Rightarrow> (kheap \<times> buddy) releaser" where
  "heap_kf g h ptr n = kfree (mm_free_page_ptr g) (fst h) (snd h) ptr n"

definition heap_ok :: "pfn_globals \<Rightarrow> nat set \<Rightarrow> (nat \<times> nat) set \<Rightarrow> kheap \<times> buddy \<Rightarrow> bool" where
  "heap_ok g U R h \<longleftrightarrow> kheap_inv (mm_owns g U) R (snd h) (fst h)"

definition heap_blocks :: "kheap \<times> buddy \<Rightarrow> (nat \<times> nat) set" where
  "heap_blocks h = (\<lambda>(c, p, d). (p, length d)) ` live (fst h)"

lemma live_class:
  assumes "kheap_inv owns R s k" "(c, p, d) \<in> live k"
  shows "sz_class (length d) = c" "0 < length d" "length d \<le> KMALLOC_MAX_SIZE"
proof -
  have "sz_class (length d) = c \<and> 0 < length d \<and> length d \<le> KMALLOC_MAX_SIZE"
  proof (cases c)
    case (Inl i)
    then have i: "i < 13" "objs i (g_slabs k ! i) (slab_mem k) p = Some d" using assms(2) by (auto simp: live_def)
    have "slab_class_ok k i" using assms(1) i(1) unfolding kheap_inv_def by blast
    then have "length d = g_slab_sizes ! i" using objs_in_page [OF _ i(2)] unfolding slab_class_ok_def Let_def by metis
    moreover have "g_slab_sizes ! i \<in> set g_slab_sizes" using i(1) g_slab_sizes_facts(2) by simp
    then have "0 < g_slab_sizes ! i" "g_slab_sizes ! i < 4096" using g_slab_sizes_facts(3) by blast+
    ultimately show ?thesis using sz_class_slab [OF i(1)] Inl by simp
  next
    case (Inr n)
    then have "blocks k p = Some d" and n: "n = page_order_for_size (length d)" using assms(2) by (auto simp: live_def)
    then obtain j where j: "j \<le> 6" "length d = 4096 * 2 ^ j" using assms(1) unfolding kheap_inv_def by blast
    have "(2 :: nat) ^ j \<le> 2 ^ 6" using j(1) by (intro power_increasing) simp_all
    then show ?thesis using j(2) Inr n sz_class_block [OF j(1)] page_order_block [OF j(1)] by simp
  qed
  then show "sz_class (length d) = c" "0 < length d" "length d \<le> KMALLOC_MAX_SIZE" by simp_all
qed

lemma live_address:
  assumes "kheap_inv (mm_owns g U) R b k" "(c, p, d) \<in> live k" "(c', p, e) \<in> live k"
  shows "(c, p, d) = (c', p, e)"
proof (rule ccontr)
  assume "(c, p, d) \<noteq> (c', p, e)"
  from mm.live_disjoint [OF assms this] live_class(2) [OF assms(1,2)] live_class(2) [OF assms(1,3)] show False by auto
qed

lemma heap_kz_block:
  assumes "heap_ok g U R h" "heap_kz g h n = Some ((Some p, m), h')"
  shows "heap_ok g U R h' \<and> n \<le> m \<and> m < 2 ^ 64 \<and> (\<forall>l. (p, l) \<notin> heap_blocks h) \<and> heap_blocks h' = insert (p, m) (heap_blocks h)"
proof -
  obtain k b where h: "h = (k, b)" by (cases h)
  have n: "0 < n" "n \<le> KMALLOC_MAX_SIZE" using assms(2) by (auto simp: heap_kz_def kzalloc_span_def split: if_splits)
  have inv: "kheap_inv (mm_owns g U) R b k" using assms(1) h by (simp add: heap_ok_def)
  obtain k' b' where r: "h' = (k', b')" "kheap_inv (mm_owns g U) R b' k'" "n \<le> m"
      "live k' = insert (sz_class n, p, replicate m 0) (live k)" "\<forall>c d. (c, p, d) \<notin> live k"
    using mm.kzalloc_ok [OF inv n] assms(2) h by (auto simp: heap_kz_def)
  have "m \<le> KMALLOC_MAX_SIZE" using live_class(3) [OF r(2), of "sz_class n" p "replicate m 0"] r(4) by simp
  then show ?thesis using r h by (auto simp: heap_ok_def heap_blocks_def)
qed

lemma heap_kz_null:
  assumes "heap_ok g U R h" "heap_kz g h n = Some ((None, m), h')"
  shows "heap_ok g U R h' \<and> heap_blocks h' = heap_blocks h"
proof (cases "n = 0")
  case True
  then show ?thesis using assms by (auto simp: heap_kz_def kzalloc_span_def)
next
  case False
  then have n: "0 < n" "n \<le> KMALLOC_MAX_SIZE" using assms(2) by (auto simp: heap_kz_def kzalloc_span_def split: if_splits)
  obtain k' b' where "h' = (k', b')" "kheap_inv (mm_owns g U) R b' k'" "live k' = live (fst h)"
    using mm.kzalloc_ok [OF assms(1) [unfolded heap_ok_def] n] assms(2) by (auto simp: heap_kz_def)
  then show ?thesis by (simp add: heap_ok_def heap_blocks_def)
qed

lemma heap_kf_block:
  assumes "heap_ok g U R h" "(p, n) \<in> heap_blocks h"
  shows "\<exists>h'. heap_kf g h (Some p) n = Some h' \<and> heap_ok g U R h' \<and> heap_blocks h' = heap_blocks h - {(p, n)}"
proof -
  obtain k b where h: "h = (k, b)" by (cases h)
  have inv: "kheap_inv (mm_owns g U) R b k" using assms(1) h by (simp add: heap_ok_def)
  obtain c d where d: "(c, p, d) \<in> live k" "n = length d" using assms(2) h by (auto simp: heap_blocks_def)
  note cls = live_class [OF inv d(1)]
  obtain k' b' where r: "kfree (mm_free_page_ptr g) k b (Some p) n = Some (k', b')" "kheap_inv (mm_owns g U) R b' k'" "live k' = live k - {(c, p, d)}"
    using mm.kfree_ok [OF inv cls(2,3), of p d] d cls(1) by auto
  have "heap_blocks (k', b') = heap_blocks h - {(p, n)}"
  proof (intro set_eqI iffI)
    fix x assume "x \<in> heap_blocks (k', b')"
    then obtain c' q e where x: "x = (q, length e)" "(c', q, e) \<in> live k" "(c', q, e) \<noteq> (c, p, d)" using r(3) by (auto simp: heap_blocks_def)
    moreover have "q \<noteq> p" using live_address [OF inv d(1), of c' e] x(2,3) by auto
    ultimately show "x \<in> heap_blocks h - {(p, n)}" using h by (force simp: heap_blocks_def)
  next
    fix x assume "x \<in> heap_blocks h - {(p, n)}"
    then obtain c' q e where x: "x = (q, length e)" "(c', q, e) \<in> live k" "(q, length e) \<noteq> (p, n)" using h by (auto simp: heap_blocks_def)
    then have "(c', q, e) \<in> live k'" using r(3) d(2) by auto
    then show "x \<in> heap_blocks (k', b')" using x(1) by (force simp: heap_blocks_def)
  qed
  then show ?thesis using r h by (auto simp: heap_kf_def heap_ok_def)
qed

lemma heap_kz_returns:
  assumes "heap_ok g U R h" "n \<le> KMALLOC_MAX_SIZE"
  shows "\<exists>ptr m h'. heap_kz g h n = Some ((ptr, m), h')"
proof (cases "n = 0")
  case False
  then show ?thesis using mm.kzalloc_ok [OF assms(1) [unfolded heap_ok_def] _ assms(2)] by (auto simp: heap_kz_def)
qed (simp add: heap_kz_def kzalloc_span_def)

interpretation da: span_alloc "heap_kz g" "heap_kf g" "heap_ok g U R" heap_blocks for g U R
  by unfold_locales (fact heap_kz_returns heap_kz_null heap_kz_block heap_kf_block)+



section \<open>Properties\<close>

text \<open>
  C27. Over the kernel heap the array behaves as a byte sequence. None of its operations but
  \<^verbatim>\<open>dynarray_shrink_to\<close> panics or leaves the buffer, as long as the size asked for fits the buffer or is at
  most the largest heap request: appending and inserting return the address of room for the new bytes
  and keep all others in order, or report that the heap served no block and keep the contents; reserving
  keeps the contents, resizing cuts or extends them, removing cuts out exactly the range, and destroying
  empties the array. After each, the array holds one live heap block of its capacity or none, and every
  other block of the heap is as before, so the old buffer is released exactly when it was replaced.
\<close>

theorem dynarray_refines_list:
  assumes "holds (heap_ok g U R) heap_blocks h ar" "pos \<le> size ar"
    and "capacity ar < size ar + n \<longrightarrow> size ar + n \<le> KMALLOC_MAX_SIZE"
  shows "(\<exists>r ar' h'. dynarray_insert (heap_kz g) (heap_kf g) h ar pos n = Some (r, ar', h') \<and> kept (heap_ok g U R) heap_blocks h ar h' ar' \<and>
      (case r of None \<Rightarrow> contents ar' = contents ar \<and> (n = 0 \<or> (\<exists>m. heap_kz g h (size ar + n) = Some ((None, m), h')))
       | Some a \<Rightarrow> data_at ar' pos = Some a \<and>
           (\<exists>gap. length gap = n \<and> contents ar' = take pos (contents ar) @ gap @ drop pos (contents ar)))) \<and>
    (\<exists>r ar' h'. dynarray_push_back (heap_kz g) (heap_kf g) h ar n = Some (r, ar', h') \<and> kept (heap_ok g U R) heap_blocks h ar h' ar' \<and>
      (case r of None \<Rightarrow> contents ar' = contents ar \<and> (n = 0 \<or> (\<exists>m. heap_kz g h (size ar + n) = Some ((None, m), h')))
       | Some a \<Rightarrow> data_at ar' (size ar) = Some a \<and> (\<exists>new. length new = n \<and> contents ar' = contents ar @ new))) \<and>
    (\<exists>ok ar' h'. dynarray_reserve (heap_kz g) (heap_kf g) h ar n = Some (ok, ar', h') \<and> kept (heap_ok g U R) heap_blocks h ar h' ar' \<and>
      contents ar' = contents ar \<and>
      (if ok then n \<le> capacity ar' else ar' = ar \<and> capacity ar < n \<and> (\<exists>m. heap_kz g h n = Some ((None, m), h')))) \<and>
    (\<exists>ok ar' h'. dynarray_resize (heap_kz g) (heap_kf g) h ar n = Some (ok, ar', h') \<and> kept (heap_ok g U R) heap_blocks h ar h' ar' \<and>
      (if ok then length (contents ar') = n \<and> take (min n (size ar)) (contents ar') = take n (contents ar)
       else ar' = ar \<and> capacity ar < n \<and> (\<exists>m. heap_kz g h n = Some ((None, m), h')))) \<and>
    (\<exists>ar' h'. dynarray_destroy (heap_kf g) h ar = Some (ar', h') \<and> kept (heap_ok g U R) heap_blocks h ar h' ar' \<and> contents ar' = [] \<and> own ar' = {}) \<and>
    (pos + n \<le> size ar \<longrightarrow> (\<exists>ar'. dynarray_remove ar pos n = Some ar' \<and> kept (heap_ok g U R) heap_blocks h ar h ar' \<and>
      contents ar' = take pos (contents ar) @ drop (pos + n) (contents ar))) \<and>
    (n \<le> size ar \<longrightarrow> (\<exists>ar'. dynarray_pop_back ar n = Some ar' \<and> kept (heap_ok g U R) heap_blocks h ar h ar' \<and>
      contents ar' = take (size ar - n) (contents ar))) \<and>
    holds (heap_ok g U R) heap_blocks h dynarray_init \<and> contents dynarray_init = []"
proof -
  have ok: "dynarray_ok ar" using assms(1) by (simp add: holds_def)
  have big: "size ar + n \<le> KMALLOC_MAX_SIZE" if "capacity ar < size ar + n" using that assms(3) by blast
  have n: "n \<le> KMALLOC_MAX_SIZE" if "capacity ar < n" using that assms(3) by simp
  have rm: "\<exists>ar'. dynarray_remove ar pos n = Some ar' \<and> kept (heap_ok g U R) heap_blocks h ar h ar' \<and>
      contents ar' = take pos (contents ar) @ drop (pos + n) (contents ar)" if "pos + n \<le> size ar"
    using dynarray_remove_ok [OF ok that] kept_same_block [OF assms(1)] by blast
  have pop: "\<exists>ar'. dynarray_pop_back ar n = Some ar' \<and> kept (heap_ok g U R) heap_blocks h ar h ar' \<and>
      contents ar' = take (size ar - n) (contents ar)" if "n \<le> size ar"
    using dynarray_pop_back_ok [OF ok that] kept_same_block [OF assms(1)] by blast
  have init: "holds (heap_ok g U R) heap_blocks h dynarray_init" "contents dynarray_init = []"
    using assms(1) dynarray_init_ok by (simp_all add: holds_def)
  have res: "\<exists>ok ar' h'. dynarray_reserve (heap_kz g) (heap_kf g) h ar n = Some (ok, ar', h') \<and> kept (heap_ok g U R) heap_blocks h ar h' ar' \<and>
      contents ar' = contents ar \<and>
      (if ok then n \<le> capacity ar' else ar' = ar \<and> capacity ar < n \<and> (\<exists>m. heap_kz g h n = Some ((None, m), h')))"
    using da.dynarray_reserve_ok [OF assms(1) n] by blast
  show ?thesis
    by (intro conjI impI da.dynarray_insert_ok [OF assms(1,2) big] da.dynarray_push_back_ok [OF assms(1) big] res
        da.dynarray_resize_ok [OF assms(1) n] da.dynarray_destroy_ok [OF assms(1)] rm pop init)
qed

theorem dynarray_refines_list_witness:
  "\<exists>g U R h ar h2 ar2 ar3. holds (heap_ok g U R) heap_blocks h ar \<and> size ar = 100 \<and> capacity ar = 102 \<and>
     dynarray_destroy (heap_kf g) h ar = Some (ar2, h2) \<and> heap_blocks h2 = heap_blocks h - own ar \<and>
     dynarray_remove ar 1 2 = Some ar3 \<and> length (contents ar3) = 98"
proof -
  obtain b k p d where k: "kheap_inv (mm_owns demo_globals {8..<16}) {} b k" "(Inl 4, p, d) \<in> live k" "length d = 102" by (rule demo_object)
  let ?ar = "\<lparr>data = Some (p, d), size = 100, capacity = 102\<rparr>"
  have "(p, 102) \<in> heap_blocks (k, b)" using k(2,3) by (force simp: heap_blocks_def)
  then have h: "holds (heap_ok demo_globals {8..<16} {}) heap_blocks (k, b) ?ar"
    using k by (simp add: holds_def heap_ok_def dynarray_ok_def own_def)
  have "1 \<le> size ?ar" "capacity ?ar < size ?ar + 2 \<longrightarrow> size ?ar + 2 \<le> KMALLOC_MAX_SIZE" by simp_all
  note ref = dynarray_refines_list [OF h this]
  obtain ar2 h2 where d: "dynarray_destroy (heap_kf demo_globals) (k, b) ?ar = Some (ar2, h2)"
      "kept (heap_ok demo_globals {8..<16} {}) heap_blocks (k, b) ?ar h2 ar2" "own ar2 = {}" using ref by blast
  obtain ar3 where r: "dynarray_remove ?ar 1 2 = Some ar3" "contents ar3 = take 1 (contents ?ar) @ drop (1 + 2) (contents ?ar)" using ref by auto
  have "heap_blocks h2 = heap_blocks (k, b) - own ?ar" using d(2,3) by (simp add: kept_def)
  moreover have "length (contents ar3) = 98" using k(3) unfolding r(2) by (simp add: contents_def)
  ultimately show ?thesis using h d(1) r(1) by (intro exI [of _ demo_globals] exI [of _ "{8..<16}"] exI [of _ "{}"] exI [of _ "(k, b)"] exI [of _ ?ar] exI [of _ h2] exI [of _ ar2] exI [of _ ar3]) simp
qed



end
